(* ===== verification/PyPrelude.thy ===== *)
theory PyPrelude
  imports Main "HOL-Library.Word"
begin

text \<open>
  The vocabulary the component theories share: the exceptions a Python operation can raise,
  results that are either an exception or a value, list indexing and slicing as Python does it,
  and the two loop shapes the benchmarks use most (a \<open>for\<close> over a sequence that threads a
  state, and a \<open>for\<close> over indices that overwrites one list cell per turn).
\<close>

section \<open>Exceptions and results\<close>

datatype exn =
    IndexError
  | KeyError
  | ValueError
  | TypeError
  | AttributeError
  | AssertionError
  | ZeroDivisionError
  | NotImplementedError
  | UnboundLocalError
  | UserException string
  | OutOfFuel \<comment> \<open>no exception of Python: the fuel of a loop of the model ran out\<close>

type_synonym 'a result = "exn + 'a"

definition rbind :: "'a result \<Rightarrow> ('a \<Rightarrow> 'b result) \<Rightarrow> 'b result" where
  "rbind r f = (case r of Inl e \<Rightarrow> Inl e | Inr x \<Rightarrow> f x)"

lemma rbind_simps [simp]:
  "rbind (Inl e) f = Inl e"
  "rbind (Inr x) f = f x"
  by (simp_all add: rbind_def)

lemma rbind_eq_Inr: "rbind r f = Inr y \<longleftrightarrow> (\<exists>x. r = Inr x \<and> f x = Inr y)"
  by (auto simp: rbind_def split: sum.splits)

lemma rbind_eq_Inl: "rbind r f = Inl e \<longleftrightarrow> r = Inl e \<or> (\<exists>x. r = Inr x \<and> f x = Inl e)"
  by (auto simp: rbind_def split: sum.splits)

lemma rbind_cong [fundef_cong]:
  "r = r' \<Longrightarrow> (\<And>x. r' = Inr x \<Longrightarrow> f x = g x) \<Longrightarrow> rbind r f = rbind r' g"
  by (auto simp: rbind_def split: sum.splits)

lemma rbind_Inr_right [simp]: "rbind r Inr = r"
  by (cases r) auto

lemma rbind_assoc: "rbind (rbind r f) g = rbind r (\<lambda>x. rbind (f x) g)"
  by (cases r) auto

section \<open>Lists as Python indexes them\<close>

text \<open>Reading and writing at an index that is already known not to be negative.\<close>

definition lget :: "'a list \<Rightarrow> nat \<Rightarrow> 'a result" where
  "lget xs i = (if i < length xs then Inr (xs ! i) else Inl IndexError)"

definition lset :: "'a list \<Rightarrow> nat \<Rightarrow> 'a \<Rightarrow> 'a list result" where
  "lset xs i v = (if i < length xs then Inr (xs[i := v]) else Inl IndexError)"

lemma lget_ok [simp]: "i < length xs \<Longrightarrow> lget xs i = Inr (xs ! i)"
  by (simp add: lget_def)

lemma lset_ok [simp]: "i < length xs \<Longrightarrow> lset xs i v = Inr (xs[i := v])"
  by (simp add: lset_def)

lemma lget_eq_Inr: "lget xs i = Inr v \<longleftrightarrow> i < length xs \<and> v = xs ! i"
  by (auto simp: lget_def)

lemma lset_eq_Inr: "lset xs i v = Inr ys \<longleftrightarrow> i < length xs \<and> ys = xs[i := v]"
  by (auto simp: lset_def)

text \<open>An index of any sign: a negative one counts from the end.\<close>

definition py_index :: "'a list \<Rightarrow> int \<Rightarrow> nat result" where
  "py_index xs i =
     (let n = int (length xs); j = (if i < 0 then n + i else i)
      in if 0 \<le> j \<and> j < n then Inr (nat j) else Inl IndexError)"

definition py_get :: "'a list \<Rightarrow> int \<Rightarrow> 'a result" where
  "py_get xs i = rbind (py_index xs i) (\<lambda>j. Inr (xs ! j))"

definition py_set :: "'a list \<Rightarrow> int \<Rightarrow> 'a \<Rightarrow> 'a list result" where
  "py_set xs i v = rbind (py_index xs i) (\<lambda>j. Inr (xs[j := v]))"

lemma py_get_neg:
  "0 < k \<Longrightarrow> k \<le> length xs \<Longrightarrow> py_get xs (- int k) = Inr (xs ! (length xs - k))"
  by (simp add: py_get_def py_index_def Let_def nat_diff_distrib')

lemma py_get_mem: "py_get xs i = Inr v \<Longrightarrow> v \<in> set xs"
  by (auto simp: py_get_def py_index_def Let_def rbind_eq_Inr split: if_splits)

text \<open>\<open>xs[-k:]\<close> for a positive \<open>k\<close>: the last \<open>k\<close> elements, or all of them.\<close>

definition last_n :: "nat \<Rightarrow> 'a list \<Rightarrow> 'a list" where
  "last_n k xs = drop (length xs - k) xs"

lemma length_last_n [simp]: "length (last_n k xs) = min k (length xs)"
  by (simp add: last_n_def)

section \<open>Loops\<close>

fun for_each :: "'a list \<Rightarrow> ('a \<Rightarrow> 's \<Rightarrow> 's result) \<Rightarrow> 's \<Rightarrow> 's result" where
  "for_each [] f s = Inr s"
| "for_each (x # xs) f s = rbind (f x s) (for_each xs f)"

lemma for_each_Nil_fun [simp]: "for_each [] f = Inr"
  by (rule ext) simp

lemma for_each_single_fun [simp]: "for_each [x] f = f x"
  by (rule ext) simp

lemma for_each_append: "for_each (xs @ ys) f s = rbind (for_each xs f s) (for_each ys f)"
  by (induction xs arbitrary: s) (auto simp: rbind_def split: sum.splits)

lemma for_each_cong [fundef_cong]:
  assumes "xs = ys" and "s = t" and "\<And>x u. x \<in> set ys \<Longrightarrow> f x u = g x u"
  shows "for_each xs f s = for_each ys g t"
  unfolding assms(1,2) using assms(3)
  by (induction ys arbitrary: t) (auto intro: rbind_cong)

text \<open>The invariant rule of the loop: what each turn keeps, the whole loop keeps.\<close>

lemma for_each_inv:
  assumes "for_each xs f s = Inr s'" and "P s"
    and "\<And>x u u'. x \<in> set xs \<Longrightarrow> P u \<Longrightarrow> f x u = Inr u' \<Longrightarrow> P u'"
  shows "P s'"
  using assms
proof (induction xs arbitrary: s)
  case Nil
  then show ?case by simp
next
  case (Cons x xs)
  from Cons.prems(1) obtain u where u: "f x s = Inr u" "for_each xs f u = Inr s'"
    by (auto simp: rbind_eq_Inr)
  have "P u" using Cons.prems(2,3) u(1) by auto
  then show ?case using Cons.IH [OF u(2)] Cons.prems(3) by auto
qed

text \<open>A loop whose turns never raise is a fold.\<close>

lemma for_each_total:
  assumes "P s" and "\<And>x u. x \<in> set xs \<Longrightarrow> P u \<Longrightarrow> f x u = Inr (g x u) \<and> P (g x u)"
  shows "for_each xs f s = Inr (fold g xs s) \<and> P (fold g xs s)"
  using assms by (induction xs arbitrary: s) auto

text \<open>The rule of a counting loop: turn \<open>k\<close> succeeds and takes the invariant from \<open>k\<close> to \<open>k + 1\<close>.\<close>

lemma for_each_count:
  assumes "I 0 s"
    and "\<And>k u. k < length xs \<Longrightarrow> I k u \<Longrightarrow> \<exists>u'. f (xs ! k) u = Inr u' \<and> I (Suc k) u'"
  shows "\<exists>s'. for_each xs f s = Inr s' \<and> I (length xs) s'"
proof -
  have "\<exists>s'. for_each (drop k xs) f u = Inr s' \<and> I (length xs) s'"
    if "k \<le> length xs" "I k u" for k u
    using that
  proof (induction "length xs - k" arbitrary: k u)
    case 0
    then show ?case by simp
  next
    case (Suc n)
    then have k: "k < length xs" by linarith
    with assms(2) Suc.prems(2) obtain u' where u': "f (xs ! k) u = Inr u'" "I (Suc k) u'" by blast
    have "\<exists>s'. for_each (drop (Suc k) xs) f u' = Inr s' \<and> I (length xs) s'"
      using Suc.hyps(2) k u'(2) by (intro Suc.hyps(1)) auto
    with u'(1) k show ?case by (simp flip: Cons_nth_drop_Suc)
  qed
  from this [of 0 s] assms(1) show ?thesis by simp
qed

lemma for_each_ok:
  assumes "P s" and "\<And>x u. x \<in> set xs \<Longrightarrow> P u \<Longrightarrow> \<exists>u'. f x u = Inr u' \<and> P u'"
  shows "\<exists>s'. for_each xs f s = Inr s' \<and> P s'"
  using for_each_count [of "\<lambda>_. P" s xs f] assms by simp

text \<open>A loop in which some turn raises, when no turn raises anything else.\<close>

lemma for_each_raises:
  assumes "x \<in> set xs" and "\<And>u. f x u = Inl e"
    and "\<And>y u. y \<in> set xs \<Longrightarrow> f y u = Inl e \<or> (\<exists>u'. f y u = Inr u')"
  shows "for_each xs f s = Inl e"
  using assms
proof (induction xs arbitrary: s)
  case Nil
  then show ?case by simp
next
  case (Cons y ys)
  then consider "f y s = Inl e" | u where "f y s = Inr u" "x \<noteq> y" by fastforce
  then show ?case
  proof cases
    case 2
    with Cons show ?thesis by simp
  qed simp
qed

text \<open>\<open>for i in range(n): s[i] = g(i, s[i])\<close>.\<close>

definition update_each :: "nat \<Rightarrow> (nat \<Rightarrow> 'a \<Rightarrow> 'a result) \<Rightarrow> 'a list \<Rightarrow> 'a list result" where
  "update_each n g s =
     for_each [0..<n] (\<lambda>i s. rbind (lget s i) (\<lambda>x. rbind (g i x) (lset s i))) s"

lemma update_each_ok:
  assumes "n \<le> length s" and "\<And>i. i < n \<Longrightarrow> g i (s ! i) = Inr (h i)"
  shows "update_each n g s = Inr (map h [0..<n] @ drop n s)"
  using assms
proof (induction n)
  case 0
  then show ?case by (simp add: update_each_def)
next
  case (Suc n)
  have "update_each n g s = Inr (map h [0..<n] @ drop n s)"
    using Suc by simp
  moreover have "drop n s = s ! n # drop (Suc n) s"
    using Suc.prems(1) by (simp add: Cons_nth_drop_Suc)
  ultimately show ?case
    using Suc.prems by (simp add: update_each_def for_each_append nth_append list_update_append)
qed

text \<open>The first cell whose new value raises ends the loop.\<close>

lemma update_each_raises:
  assumes "k < n" and "k < length s" and "\<And>i. i < k \<Longrightarrow> g i (s ! i) = Inr (h i)"
    and "g k (s ! k) = Inl e"
  shows "update_each n g s = Inl e"
proof -
  have "[0..<n] = [0..<k] @ k # [Suc k..<n]"
    using assms(1) by (metis le0 less_imp_le_nat upt_add_eq_append upt_conv_Cons le_add_diff_inverse)
  moreover have "update_each k g s = Inr (map h [0..<k] @ drop k s)"
    using assms(2,3) by (intro update_each_ok) auto
  ultimately show ?thesis
    using assms(2,4) by (simp add: update_each_def for_each_append nth_append)
qed

text \<open>Two loops over the same sequence whose states correspond turn by turn.\<close>

lemma for_each_sim:
  assumes "\<And>x s. x \<in> set xs \<Longrightarrow> g x (h s) = rbind (f x s) (\<lambda>s. Inr (h s))"
  shows "for_each xs g (h s) = rbind (for_each xs f s) (\<lambda>s. Inr (h s))"
  using assms
proof (induction xs arbitrary: s)
  case Nil
  then show ?case by simp
next
  case (Cons x xs)
  then show ?case by (cases "f x s") auto
qed

section \<open>Loops that run on fuel\<close>

text \<open>
  \<open>OutOfFuel\<close> is the model's, not the program's. \<open>fuelled r\<close> says that \<open>r\<close> is not that error;
  the collection \<open>no_fuel\<close> holds, as introduction rules, the operations that never give it.
\<close>

named_theorems no_fuel

definition fuelled :: "'a result \<Rightarrow> bool" where
  "fuelled r \<longleftrightarrow> r \<noteq> Inl OutOfFuel"

lemma fuelled_simps [simp]:
  "fuelled (Inr x)"
  "fuelled (Inl e) \<longleftrightarrow> e \<noteq> OutOfFuel"
  by (simp_all add: fuelled_def)

lemma rbind_no_fuel [no_fuel]:
  "fuelled r \<Longrightarrow> (\<And>x. r = Inr x \<Longrightarrow> fuelled (f x)) \<Longrightarrow> fuelled (rbind r f)"
  by (cases r) auto

lemma for_each_no_fuel [no_fuel]:
  "(\<And>x s. x \<in> set xs \<Longrightarrow> fuelled (f x s)) \<Longrightarrow> fuelled (for_each xs f s)"
  by (induction xs arbitrary: s) (auto intro: rbind_no_fuel)

lemma list_no_fuel [no_fuel]:
  "fuelled (lget xs n)" "fuelled (lset xs n v)" "fuelled (py_get xs i)" "fuelled (py_set xs i v)"
  by (auto simp: lget_def lset_def py_get_def py_set_def py_index_def Let_def)

section \<open>Steps that can be undone\<close>

text \<open>
  \<open>undoes V f g\<close>: on every valid value the step \<open>f\<close> succeeds with a valid value, and \<open>g\<close> gets
  the old value back. Such pairs compose, in reverse order, and lift to loops.
\<close>

definition undoes :: "('a \<Rightarrow> bool) \<Rightarrow> ('a \<Rightarrow> 'a result) \<Rightarrow> ('a \<Rightarrow> 'a result) \<Rightarrow> bool" where
  "undoes V f g \<longleftrightarrow> (\<forall>b. V b \<longrightarrow> (\<exists>b'. f b = Inr b' \<and> V b' \<and> g b' = Inr b))"

lemma undoesI:
  "(\<And>b. V b \<Longrightarrow> \<exists>b'. f b = Inr b' \<and> V b' \<and> g b' = Inr b) \<Longrightarrow> undoes V f g"
  by (simp add: undoes_def)

lemma undoesE:
  assumes "undoes V f g" and "V b"
  obtains b' where "f b = Inr b'" and "V b'" and "g b' = Inr b"
  using assms by (auto simp: undoes_def)

lemma undoes_comp:
  assumes "undoes V f1 g1" and "undoes V f2 g2"
  shows "undoes V (\<lambda>b. rbind (f1 b) f2) (\<lambda>b. rbind (g2 b) g1)"
proof (rule undoesI)
  fix b assume "V b"
  with assms(1) obtain b1 where b1: "f1 b = Inr b1" "V b1" "g1 b1 = Inr b" by (rule undoesE)
  from assms(2) b1(2) obtain b2 where "f2 b1 = Inr b2" "V b2" "g2 b2 = Inr b1" by (rule undoesE)
  with b1 show "\<exists>b'. rbind (f1 b) f2 = Inr b' \<and> V b' \<and> rbind (g2 b') g1 = Inr b"
    by simp
qed

lemma undoes_for_each:
  assumes "\<And>i. i \<in> set xs \<Longrightarrow> undoes V (f i) (g i)"
  shows "undoes V (for_each xs f) (for_each (rev xs) g)"
  using assms
proof (induction xs)
  case Nil
  then show ?case by (simp add: undoes_def)
next
  case (Cons x xs)
  then have "undoes V (\<lambda>b. rbind (f x b) (for_each xs f)) (\<lambda>b. rbind (for_each (rev xs) g b) (g x))"
    by (intro undoes_comp) auto
  then show ?case by (simp add: for_each_append undoes_def)
qed

text \<open>A loop whose body starts with \<open>g\<close>, followed by one more \<open>g\<close>, regrouped.\<close>

lemma for_each_rotate:
  "rbind (for_each xs (\<lambda>i b. rbind (g b) (h i)) b) g =
   rbind (g b) (for_each xs (\<lambda>i b. rbind (h i b) g))"
proof (induction xs arbitrary: b)
  case Nil
  then show ?case by simp
next
  case (Cons x xs)
  then show ?case by (auto simp: rbind_def split: sum.splits)
qed

text \<open>On finitely many valid values an undo is undone by the step itself.\<close>

lemma undoes_sym:
  assumes fin: "finite {b. V b}" and u: "undoes V f g"
  shows "undoes V g f"
proof (rule undoesI)
  fix b assume "V b"
  define h where "h b = (case f b of Inl e \<Rightarrow> b | Inr x \<Rightarrow> x)" for b
  have h: "f b = Inr (h b) \<and> V (h b) \<and> g (h b) = Inr b" if "V b" for b
    using undoesE [OF u that] by (metis h_def sum.simps(6))
  then have "inj_on h {b. V b}"
    by (intro inj_onI) (metis mem_Collect_eq sum.inject(2))
  with h fin have "h ` {b. V b} = {b. V b}"
    by (intro endo_inj_surj) auto
  with \<open>V b\<close> obtain a where "V a" "b = h a" by blast
  with h show "\<exists>b'. g b = Inr b' \<and> V b' \<and> f b' = Inr b" by auto
qed

end
