(* ===== verification/AesTables.thy ===== *)
theory AesTables
  imports PyPrelude
begin

unbundle bit_operations_syntax

text \<open>
  The byte tables of \<^verbatim>\<open>own/pyaes.py\<close>: multiplication in the AES field, the S-box and its
  inverse, and the round constants. The tables are decoded from the same hexadecimal strings
  as in the source. The lemmas relate \<open>galois_multiply\<close> (which lets its working value grow
  beyond a byte) to the byte-wide doubling \<open>xtime\<close>, and the S-box to its inverse.
\<close>

type_synonym byte = "8 word"

section \<open>Hexadecimal decoding\<close>

definition hex_digit :: "char \<Rightarrow> nat" where
  "hex_digit c = (let n = of_char c :: nat in if n < 58 then n - 48 else n - 87)"

fun hex_decode :: "string \<Rightarrow> nat list" where
  "hex_decode (a # b # cs) = (16 * hex_digit a + hex_digit b) # hex_decode cs"
| "hex_decode cs = []"

section \<open>Multiplication in the field\<close>

text \<open>
  The loop of \<open>galois_multiply\<close>: \<open>a\<close> is doubled once per bit of \<open>b\<close> and reduced by
  \<^verbatim>\<open>0x1b\<close> when its bit 8 is set; the set bit itself is not cleared, only the final
  \<open>p & 0xff\<close> cuts the result to a byte.
\<close>

function galois_loop :: "nat \<Rightarrow> nat \<Rightarrow> nat \<Rightarrow> nat" where
  "galois_loop p a b =
     (if b = 0 then p
      else let p' = (if b AND 1 \<noteq> 0 then p XOR a else p);
               a1 = push_bit 1 a;
               a2 = (if a1 AND 0x100 \<noteq> 0 then a1 XOR 0x1b else a1)
           in galois_loop p' a2 (drop_bit 1 b))"
  by pat_completeness auto
termination
  by (relation "measure (\<lambda>(p, a, b). b)") (auto simp: drop_bit_Suc)

declare galois_loop.simps [simp del]

definition galois_multiply :: "nat \<Rightarrow> nat \<Rightarrow> nat" where
  "galois_multiply a b = galois_loop 0 a b AND 0xff"

definition gf_table :: "nat \<Rightarrow> byte list" where
  "gf_table k = map (\<lambda>x. of_nat (galois_multiply x k)) [0..<256]"

definition gf_mul_by_2 :: "byte list" where "gf_mul_by_2 = gf_table 2"
definition gf_mul_by_3 :: "byte list" where "gf_mul_by_3 = gf_table 3"
definition gf_mul_by_9 :: "byte list" where "gf_mul_by_9 = gf_table 9"
definition gf_mul_by_11 :: "byte list" where "gf_mul_by_11 = gf_table 11"
definition gf_mul_by_13 :: "byte list" where "gf_mul_by_13 = gf_table 13"
definition gf_mul_by_14 :: "byte list" where "gf_mul_by_14 = gf_table 14"

section \<open>The S-box, its inverse and the round constants\<close>

definition aes_sbox :: "byte list" where
  "aes_sbox = map of_nat (hex_decode (
    ''637c777bf26b6fc53001672bfed7ab76'' @
    ''ca82c97dfa5947f0add4a2af9ca472c0'' @
    ''b7fd9326363ff7cc34a5e5f171d83115'' @
    ''04c723c31896059a071280e2eb27b275'' @
    ''09832c1a1b6e5aa0523bd6b329e32f84'' @
    ''53d100ed20fcb15b6acbbe394a4c58cf'' @
    ''d0efaafb434d338545f9027f503c9fa8'' @
    ''51a3408f929d38f5bcb6da2110fff3d2'' @
    ''cd0c13ec5f974417c4a77e3d645d1973'' @
    ''60814fdc222a908846eeb814de5e0bdb'' @
    ''e0323a0a4906245cc2d3ac629195e479'' @
    ''e7c8376d8dd54ea96c56f4ea657aae08'' @
    ''ba78252e1ca6b4c6e8dd741f4bbd8b8a'' @
    ''703eb5664803f60e613557b986c11d9e'' @
    ''e1f8981169d98e949b1e87e9ce5528df'' @
    ''8ca1890dbfe6426841992d0fb054bb16''))"

definition aes_inv_sbox :: "byte list" where
  "aes_inv_sbox = map of_nat (hex_decode (
    ''52096ad53036a538bf40a39e81f3d7fb'' @
    ''7ce339829b2fff87348e4344c4dee9cb'' @
    ''547b9432a6c2233dee4c950b42fac34e'' @
    ''082ea16628d924b2765ba2496d8bd125'' @
    ''72f8f66486689816d4a45ccc5d65b692'' @
    ''6c704850fdedb9da5e154657a78d9d84'' @
    ''90d8ab008cbcd30af7e45805b8b34506'' @
    ''d02c1e8fca3f0f02c1afbd0301138a6b'' @
    ''3a9111414f67dcea97f2cfcef0b4e673'' @
    ''96ac7422e7ad3585e2f937e81c75df6e'' @
    ''47f11a711d29c5896fb7620eaa18be1b'' @
    ''fc563e4bc6d279209adbc0fe78cd5af4'' @
    ''1fdda8338807c731b11210592780ec5f'' @
    ''60517fa919b54a0d2de57a9f93c99cef'' @
    ''a0e03b4dae2af5b0c8ebbb3c83539961'' @
    ''172b047eba77d626e169146355210c7d''))"

definition aes_Rcon :: "byte list" where
  "aes_Rcon = map of_nat (hex_decode (
    ''8d01020408102040801b366cd8ab4d9a'' @
    ''2f5ebc63c697356ad4b37dfaefc59139'' @
    ''72e4d3bd61c29f254a943366cc831d3a'' @
    ''74e8cb8d01020408102040801b366cd8'' @
    ''ab4d9a2f5ebc63c697356ad4b37dfaef'' @
    ''c5913972e4d3bd61c29f254a943366cc'' @
    ''831d3a74e8cb8d01020408102040801b'' @
    ''366cd8ab4d9a2f5ebc63c697356ad4b3'' @
    ''7dfaefc5913972e4d3bd61c29f254a94'' @
    ''3366cc831d3a74e8cb8d010204081020'' @
    ''40801b366cd8ab4d9a2f5ebc63c69735'' @
    ''6ad4b37dfaefc5913972e4d3bd61c29f'' @
    ''254a943366cc831d3a74e8cb8d010204'' @
    ''08102040801b366cd8ab4d9a2f5ebc63'' @
    ''c697356ad4b37dfaefc5913972e4d3bd'' @
    ''61c29f254a943366cc831d3a74e8cb''))"

section \<open>The tables, listed\<close>

lemma aes_sbox_list: "aes_sbox = [
    99, 124, 119, 123, 242, 107, 111, 197, 48, 1, 103, 43, 254, 215, 171, 118, 202, 130, 201,
    125, 250, 89, 71, 240, 173, 212, 162, 175, 156, 164, 114, 192, 183, 253, 147, 38, 54,
    63, 247, 204, 52, 165, 229, 241, 113, 216, 49, 21, 4, 199, 35, 195, 24, 150, 5, 154, 7,
    18, 128, 226, 235, 39, 178, 117, 9, 131, 44, 26, 27, 110, 90, 160, 82, 59, 214, 179, 41,
    227, 47, 132, 83, 209, 0, 237, 32, 252, 177, 91, 106, 203, 190, 57, 74, 76, 88, 207, 208,
    239, 170, 251, 67, 77, 51, 133, 69, 249, 2, 127, 80, 60, 159, 168, 81, 163, 64, 143, 146,
    157, 56, 245, 188, 182, 218, 33, 16, 255, 243, 210, 205, 12, 19, 236, 95, 151, 68, 23,
    196, 167, 126, 61, 100, 93, 25, 115, 96, 129, 79, 220, 34, 42, 144, 136, 70, 238, 184,
    20, 222, 94, 11, 219, 224, 50, 58, 10, 73, 6, 36, 92, 194, 211, 172, 98, 145, 149, 228,
    121, 231, 200, 55, 109, 141, 213, 78, 169, 108, 86, 244, 234, 101, 122, 174, 8, 186, 120,
    37, 46, 28, 166, 180, 198, 232, 221, 116, 31, 75, 189, 139, 138, 112, 62, 181, 102, 72,
    3, 246, 14, 97, 53, 87, 185, 134, 193, 29, 158, 225, 248, 152, 17, 105, 217, 142, 148,
    155, 30, 135, 233, 206, 85, 40, 223, 140, 161, 137, 13, 191, 230, 66, 104, 65, 153, 45,
    15, 176, 84, 187, 22]"
  by (simp add: aes_sbox_def hex_digit_def)

lemma aes_inv_sbox_list: "aes_inv_sbox = [
    82, 9, 106, 213, 48, 54, 165, 56, 191, 64, 163, 158, 129, 243, 215, 251, 124, 227, 57,
    130, 155, 47, 255, 135, 52, 142, 67, 68, 196, 222, 233, 203, 84, 123, 148, 50, 166, 194,
    35, 61, 238, 76, 149, 11, 66, 250, 195, 78, 8, 46, 161, 102, 40, 217, 36, 178, 118, 91,
    162, 73, 109, 139, 209, 37, 114, 248, 246, 100, 134, 104, 152, 22, 212, 164, 92, 204,
    93, 101, 182, 146, 108, 112, 72, 80, 253, 237, 185, 218, 94, 21, 70, 87, 167, 141, 157,
    132, 144, 216, 171, 0, 140, 188, 211, 10, 247, 228, 88, 5, 184, 179, 69, 6, 208, 44, 30,
    143, 202, 63, 15, 2, 193, 175, 189, 3, 1, 19, 138, 107, 58, 145, 17, 65, 79, 103, 220,
    234, 151, 242, 207, 206, 240, 180, 230, 115, 150, 172, 116, 34, 231, 173, 53, 133, 226,
    249, 55, 232, 28, 117, 223, 110, 71, 241, 26, 113, 29, 41, 197, 137, 111, 183, 98, 14,
    170, 24, 190, 27, 252, 86, 62, 75, 198, 210, 121, 32, 154, 219, 192, 254, 120, 205, 90,
    244, 31, 221, 168, 51, 136, 7, 199, 49, 177, 18, 16, 89, 39, 128, 236, 95, 96, 81, 127,
    169, 25, 181, 74, 13, 45, 229, 122, 159, 147, 201, 156, 239, 160, 224, 59, 77, 174, 42,
    245, 176, 200, 235, 187, 60, 131, 83, 153, 97, 23, 43, 4, 126, 186, 119, 214, 38, 225,
    105, 20, 99, 85, 33, 12, 125]"
  by (simp add: aes_inv_sbox_def hex_digit_def)

lemma length_aes_sbox [simp]: "length aes_sbox = 256"
  by (simp add: aes_sbox_list)

lemma length_aes_inv_sbox [simp]: "length aes_inv_sbox = 256"
  by (simp add: aes_inv_sbox_list)

lemma length_aes_Rcon [simp]: "length aes_Rcon = 255"
  by (simp add: aes_Rcon_def)

lemma unat_byte: "unat (x :: byte) < 256"
  using unsigned_less [of x, where ?'a = nat] by simp

lemma inv_sbox_of_sbox_table:
  "map (\<lambda>x. aes_inv_sbox ! unat x) aes_sbox = map of_nat [0..<256]"
  by (simp add: aes_sbox_list aes_inv_sbox_list upt_conv_Cons)

lemma inv_sbox_of_sbox: "aes_inv_sbox ! unat (aes_sbox ! unat b) = b"
proof -
  have "map (\<lambda>x. aes_inv_sbox ! unat x) aes_sbox ! unat b = of_nat (unat b)"
    using unat_byte [of b] by (simp add: inv_sbox_of_sbox_table)
  then show ?thesis
    using unat_byte [of b] by simp
qed

section \<open>Field multiplication as repeated doubling of bytes\<close>

definition xtime :: "byte \<Rightarrow> byte" where
  "xtime x = push_bit 1 x XOR (if bit x 7 then 0x1b else 0)"

lemma xtime_xor: "xtime (x XOR y) = xtime x XOR xtime y"
  by (rule bit_eqI) (auto simp: xtime_def bit_simps)

lemma xtime_0 [simp]: "xtime 0 = 0"
  by (simp add: xtime_def)

lemma of_nat_xor_byte: "(of_nat (m XOR n) :: byte) = of_nat m XOR of_nat n"
  by (rule bit_eqI) (simp add: bit_simps)

lemma of_nat_and_byte: "(of_nat (n AND 0xff) :: byte) = of_nat n"
proof -
  have "n AND 0xff = take_bit 8 n"
    by (simp add: take_bit_eq_mask mask_numeral)
  then show ?thesis
    by (intro bit_eqI) (auto simp: bit_simps)
qed

text \<open>One doubling of \<open>galois_loop\<close>, seen modulo 256, is \<open>xtime\<close>.\<close>

definition galois_double :: "nat \<Rightarrow> nat" where
  "galois_double a =
     (let a1 = push_bit 1 a in if a1 AND 0x100 \<noteq> 0 then a1 XOR 0x1b else a1)"

lemma and_256_iff: "n AND 0x100 \<noteq> 0 \<longleftrightarrow> bit (n :: nat) 8"
  using and_exp_eq_0_iff_not_bit [of n 8] by simp

lemma of_nat_galois_double: "(of_nat (galois_double a) :: byte) = xtime (of_nat a)"
proof -
  have "bit (push_bit 1 a) 8 \<longleftrightarrow> bit (of_nat a :: byte) 7"
    unfolding bit_push_bit_iff_nat by (simp add: bit_simps)
  then show ?thesis
    unfolding galois_double_def Let_def and_256_iff xtime_def
    by (auto simp: of_nat_xor_byte of_nat_push_bit)
qed

lemma galois_loop_0 [simp]: "galois_loop p a 0 = p"
  by (simp add: galois_loop.simps)

lemma galois_loop_step:
  assumes "b \<noteq> 0"
  shows "galois_loop p a b =
    galois_loop (if odd b then p XOR a else p) (galois_double a) (b div 2)"
proof -
  have "b AND 1 \<noteq> 0 \<longleftrightarrow> odd b" and "drop_bit 1 b = b div 2"
    by (simp_all add: and_one_eq odd_iff_mod_2_eq_one drop_bit_Suc)
  with assms show ?thesis
    unfolding galois_double_def Let_def
    by (subst galois_loop.simps) (simp only: Let_def if_False)
qed

fun gf_word :: "byte \<Rightarrow> byte \<Rightarrow> nat \<Rightarrow> byte" where
  "gf_word p a b =
     (if b = 0 then p else gf_word (if odd b then p XOR a else p) (xtime a) (b div 2))"

declare gf_word.simps [simp del]

lemma galois_loop_word:
  "(of_nat (galois_loop p a b) :: byte) = gf_word (of_nat p) (of_nat a) b"
proof (induction b arbitrary: p a rule: less_induct)
  case (less b)
  show ?case
  proof (cases "b = 0")
    case True
    then show ?thesis by (simp add: gf_word.simps [of _ _ 0])
  next
    case False
    then have "(of_nat (galois_loop p a b) :: byte) =
        gf_word (of_nat (if odd b then p XOR a else p)) (xtime (of_nat a)) (b div 2)"
      using less.IH [of "b div 2"]
      by (subst galois_loop_step) (simp_all add: of_nat_galois_double)
    with False show ?thesis
      by (simp add: gf_word.simps [of _ _ b] of_nat_xor_byte)
  qed
qed

lemma of_nat_galois_multiply: "(of_nat (galois_multiply a b) :: byte) = gf_word 0 (of_nat a) b"
  by (simp add: galois_multiply_def of_nat_and_byte galois_loop_word)

lemma galois_multiply_less: "galois_multiply a b < 256"
proof -
  have "galois_multiply a b = take_bit 8 (galois_loop 0 a b)"
    by (simp add: galois_multiply_def take_bit_eq_mask mask_numeral)
  then show ?thesis
    using take_bit_nat_less_exp [of 8 "galois_loop 0 a b"] by simp
qed

lemma gf_table_nth: "gf_table k ! unat x = gf_word 0 x k"
  using unat_byte [of x] by (simp add: gf_table_def of_nat_galois_multiply)

lemma length_gf_table [simp]: "length (gf_table k) = 256"
  by (simp add: gf_table_def)

lemma gf_mul_nth:
  "gf_mul_by_2 ! unat x = xtime x"
  "gf_mul_by_3 ! unat x = xtime x XOR x"
  "gf_mul_by_9 ! unat x = xtime (xtime (xtime x)) XOR x"
  "gf_mul_by_11 ! unat x = xtime (xtime (xtime x)) XOR xtime x XOR x"
  "gf_mul_by_13 ! unat x = xtime (xtime (xtime x)) XOR xtime (xtime x) XOR x"
  "gf_mul_by_14 ! unat x = xtime (xtime (xtime x)) XOR xtime (xtime x) XOR xtime x"
  by (simp_all add: gf_mul_by_2_def gf_mul_by_3_def gf_mul_by_9_def gf_mul_by_11_def
      gf_mul_by_13_def gf_mul_by_14_def gf_table_nth gf_word.simps ac_simps)

text \<open>
  The reference product: the sum (exclusive or) of the \<open>i\<close>-fold doublings of \<open>x\<close> over the set
  bits \<open>i\<close> of the multiplier, which is how multiplication of bytes is defined in FIPS 197.
\<close>

fun gf_product :: "byte \<Rightarrow> nat \<Rightarrow> nat \<Rightarrow> byte" where
  "gf_product x y 0 = 0"
| "gf_product x y (Suc i) =
     gf_product x y i XOR (if bit y i then (xtime ^^ i) x else 0)"

lemma gf_product_Suc_shift:
  "gf_product x y (Suc n) = (if odd y then x else 0) XOR gf_product (xtime x) (y div 2) n"
proof (induction n)
  case 0
  then show ?case by (simp add: bit_0)
next
  case (Suc n)
  have "(xtime ^^ Suc n) x = (xtime ^^ n) (xtime x)"
    by (simp add: funpow_Suc_right del: funpow.simps)
  with Suc show ?case
    by (simp add: bit_Suc xor.assoc del: funpow.simps)
qed

lemma gf_word_product: "y < 2 ^ n \<Longrightarrow> gf_word p x y = p XOR gf_product x y n"
proof (induction n arbitrary: p x y)
  case 0
  then show ?case by (simp add: gf_word.simps)
next
  case (Suc n)
  have zero: "gf_product x 0 k = 0" for x k
    by (induction k) simp_all
  from Suc.prems have "y div 2 < 2 ^ n" by auto
  with Suc.IH show ?case
    by (cases "y = 0")
      (simp_all add: gf_word.simps [of p x] zero gf_product_Suc_shift xor.assoc
        del: gf_product.simps(2))
qed

end
