(* ===== verification/AesCipher.thy ===== *)
theory AesCipher
  imports AesTables
begin

unbundle bit_operations_syntax

text \<open>
  The block cipher of \<^verbatim>\<open>own/pyaes.py\<close>, class \<open>AES\<close>: the key schedule, the four steps of a
  round, and encryption and decryption of one block. A block and an expanded key are lists of
  bytes (\<open>array('B')\<close> in the source); the methods that overwrite their block return the new
  list. The lemmas show that each step has its inverse, that the key schedule never raises for
  the three key lengths and computes the expansion of FIPS 197, and that decryption undoes
  encryption.
\<close>

record aes =
  aes_key :: "byte list"
  aes_key_size :: nat
  aes_rounds :: nat
  aes_exkey :: "byte list"

definition block_size :: nat where
  "block_size = 16"

section \<open>Key expansion\<close>

text \<open>\<open>for j in range(4): word[j] ^= exkey[-key_size + j]\<close>, then \<open>exkey.extend(word)\<close>.\<close>

definition mix_extend :: "nat \<Rightarrow> byte list \<times> byte list \<Rightarrow> (byte list \<times> byte list) result" where
  "mix_extend ks = (\<lambda>(exkey, word).
     rbind (update_each 4 (\<lambda>j b. rbind (py_get exkey (- int ks + int j)) (\<lambda>e. Inr (b XOR e))) word)
       (\<lambda>word. Inr (exkey @ word, word)))"

text \<open>The extra step of the 256-bit schedule: the S-box is applied before mixing.\<close>

definition sub_extend :: "nat \<Rightarrow> byte list \<times> byte list \<Rightarrow> (byte list \<times> byte list) result" where
  "sub_extend ks = (\<lambda>(exkey, word).
     rbind (update_each 4 (\<lambda>j b. rbind (py_get exkey (- int ks + int j))
                                   (\<lambda>e. Inr (aes_sbox ! unat b XOR e))) word)
       (\<lambda>word. Inr (exkey @ word, word)))"

definition key_schedule_core :: "nat \<Rightarrow> byte list \<Rightarrow> byte list result" where
  "key_schedule_core i word =
     (let word = take 3 (drop 1 word) @ take 1 word in
      rbind (update_each 4 (\<lambda>j b. Inr (aes_sbox ! unat b)) word) (\<lambda>word.
      rbind (lget word 0) (\<lambda>w0.
      rbind (lget aes_Rcon i) (\<lambda>r. lset word 0 (w0 XOR r)))))"

fun expand_cycles ::
    "nat list \<Rightarrow> nat \<Rightarrow> nat \<Rightarrow> nat \<Rightarrow> byte list \<times> byte list \<Rightarrow> byte list result" where
  "expand_cycles [] ks rounds extra_cnt st = Inr (fst st)"
| "expand_cycles (i # is) ks rounds extra_cnt (exkey, word) =
     rbind (key_schedule_core i word) (\<lambda>word.
     rbind (for_each [0..<4] (\<lambda>z. mix_extend ks) (exkey, word)) (\<lambda>(exkey, word).
     if (rounds + 1) * block_size \<le> length exkey then Inr exkey
     else rbind (if ks = 32 then sub_extend ks (exkey, word) else Inr (exkey, word)) (\<lambda>st.
          rbind (for_each [0..<extra_cnt] (\<lambda>z. mix_extend ks) st) (\<lambda>st.
          expand_cycles is ks rounds extra_cnt st))))"

definition expand_key :: "byte list \<Rightarrow> nat \<Rightarrow> nat \<Rightarrow> byte list result" where
  "expand_key key ks rounds =
     (let exkey = key;
          extra_cnt = (if ks = 16 then 0 else if ks = 24 then 2 else 3)
      in expand_cycles [1..<11] ks rounds extra_cnt (exkey, last_n 4 exkey))"

definition setkey :: "byte list \<Rightarrow> aes result" where
  "setkey key =
     (let ks = length key;
          finish = (\<lambda>rounds. rbind (expand_key key ks rounds) (\<lambda>exkey.
            Inr \<lparr>aes_key = key, aes_key_size = ks, aes_rounds = rounds, aes_exkey = exkey\<rparr>))
      in if ks = 16 then finish 10
         else if ks = 24 then finish 12
         else if ks = 32 then finish 14
         else Inl ValueError)"

section \<open>The steps of a round\<close>

definition add_round_key :: "byte list \<Rightarrow> byte list \<Rightarrow> nat \<Rightarrow> byte list result" where
  "add_round_key exkey block round =
     (let offset = round * 16 in
      update_each 16 (\<lambda>i b. rbind (lget exkey (offset + i)) (\<lambda>k. Inr (b XOR k))) block)"

definition sub_bytes :: "byte list \<Rightarrow> byte list \<Rightarrow> byte list result" where
  "sub_bytes block sbox = update_each 16 (\<lambda>i b. lget sbox (unat b)) block"

text \<open>The parallel assignments read every right-hand side before they store.\<close>

definition shift_rows :: "byte list \<Rightarrow> byte list result" where
  "shift_rows b =
     (if length b < 16 then Inl IndexError
      else Inr (b[1 := b!5,  5 := b!9,  9 := b!13, 13 := b!1,
                  2 := b!10, 6 := b!14, 10 := b!2, 14 := b!6,
                  3 := b!15, 7 := b!3,  11 := b!7, 15 := b!11]))"

definition shift_rows_inv :: "byte list \<Rightarrow> byte list result" where
  "shift_rows_inv b =
     (if length b < 16 then Inl IndexError
      else Inr (b[5 := b!1,  9 := b!5,  13 := b!9, 1 := b!13,
                  10 := b!2, 14 := b!6, 2 := b!10, 6 := b!14,
                  15 := b!3, 3 := b!7,  7 := b!11, 11 := b!15]))"

definition mix_column :: "nat \<Rightarrow> byte list \<Rightarrow> byte list result" where
  "mix_column col block =
     (if length block < col + 4 then Inl IndexError
      else let v0 = block ! col; v1 = block ! (col + 1);
               v2 = block ! (col + 2); v3 = block ! (col + 3)
           in Inr (block[
             col := gf_mul_by_2 ! unat v0 XOR v3 XOR v2 XOR gf_mul_by_3 ! unat v1,
             col + 1 := gf_mul_by_2 ! unat v1 XOR v0 XOR v3 XOR gf_mul_by_3 ! unat v2,
             col + 2 := gf_mul_by_2 ! unat v2 XOR v1 XOR v0 XOR gf_mul_by_3 ! unat v3,
             col + 3 := gf_mul_by_2 ! unat v3 XOR v2 XOR v1 XOR gf_mul_by_3 ! unat v0]))"

definition mix_columns :: "byte list \<Rightarrow> byte list result" where
  "mix_columns block = for_each [0..<4] (\<lambda>i. mix_column (i * 4)) block"

definition mix_column_inv :: "nat \<Rightarrow> byte list \<Rightarrow> byte list result" where
  "mix_column_inv col block =
     (if length block < col + 4 then Inl IndexError
      else let v0 = block ! col; v1 = block ! (col + 1);
               v2 = block ! (col + 2); v3 = block ! (col + 3)
           in Inr (block[
             col := gf_mul_by_14 ! unat v0 XOR gf_mul_by_9 ! unat v3 XOR
                    gf_mul_by_13 ! unat v2 XOR gf_mul_by_11 ! unat v1,
             col + 1 := gf_mul_by_14 ! unat v1 XOR gf_mul_by_9 ! unat v0 XOR
                        gf_mul_by_13 ! unat v3 XOR gf_mul_by_11 ! unat v2,
             col + 2 := gf_mul_by_14 ! unat v2 XOR gf_mul_by_9 ! unat v1 XOR
                        gf_mul_by_13 ! unat v0 XOR gf_mul_by_11 ! unat v3,
             col + 3 := gf_mul_by_14 ! unat v3 XOR gf_mul_by_9 ! unat v2 XOR
                        gf_mul_by_13 ! unat v1 XOR gf_mul_by_11 ! unat v0]))"

definition mix_columns_inv :: "byte list \<Rightarrow> byte list result" where
  "mix_columns_inv block = for_each [0..<4] (\<lambda>i. mix_column_inv (i * 4)) block"

section \<open>One block\<close>

definition encrypt_round :: "aes \<Rightarrow> nat \<Rightarrow> byte list \<Rightarrow> byte list result" where
  "encrypt_round c round block =
     rbind (sub_bytes block aes_sbox) (\<lambda>block.
     rbind (shift_rows block) (\<lambda>block.
     rbind (mix_columns block) (\<lambda>block. add_round_key (aes_exkey c) block round)))"

definition encrypt_block :: "aes \<Rightarrow> byte list \<Rightarrow> byte list result" where
  "encrypt_block c block =
     rbind (add_round_key (aes_exkey c) block 0) (\<lambda>block.
     rbind (for_each [1..<aes_rounds c] (encrypt_round c) block) (\<lambda>block.
     rbind (sub_bytes block aes_sbox) (\<lambda>block.
     rbind (shift_rows block) (\<lambda>block.
     add_round_key (aes_exkey c) block (aes_rounds c)))))"

definition decrypt_round :: "aes \<Rightarrow> nat \<Rightarrow> byte list \<Rightarrow> byte list result" where
  "decrypt_round c round block =
     rbind (shift_rows_inv block) (\<lambda>block.
     rbind (sub_bytes block aes_inv_sbox) (\<lambda>block.
     rbind (add_round_key (aes_exkey c) block round) mix_columns_inv))"

definition decrypt_block :: "aes \<Rightarrow> byte list \<Rightarrow> byte list result" where
  "decrypt_block c block =
     rbind (add_round_key (aes_exkey c) block (aes_rounds c)) (\<lambda>block.
     rbind (for_each (rev [1..<aes_rounds c]) (decrypt_round c) block) (\<lambda>block.
     rbind (shift_rows_inv block) (\<lambda>block.
     rbind (sub_bytes block aes_inv_sbox) (\<lambda>block.
     add_round_key (aes_exkey c) block 0))))"

section \<open>Every step has its inverse\<close>

abbreviation is_block :: "byte list \<Rightarrow> bool" where
  "is_block b \<equiv> length b = 16"

lemma block_cases:
  assumes "is_block b"
  obtains b0 b1 b2 b3 b4 b5 b6 b7 b8 b9 b10 b11 b12 b13 b14 b15 where
    "b = [b0, b1, b2, b3, b4, b5, b6, b7, b8, b9, b10, b11, b12, b13, b14, b15]"
  using assms by (auto simp: eval_nat_numeral length_Suc_conv)

lemma add_round_key_ok:
  assumes "is_block b" and "16 * (round + 1) \<le> length exkey"
  shows "add_round_key exkey b round =
    Inr (map (\<lambda>i. b ! i XOR exkey ! (round * 16 + i)) [0..<16])"
proof -
  have "add_round_key exkey b round =
      Inr (map (\<lambda>i. b ! i XOR exkey ! (round * 16 + i)) [0..<16] @ drop 16 b)"
    unfolding add_round_key_def Let_def using assms by (intro update_each_ok) auto
  with assms(1) show ?thesis by simp
qed

lemma add_round_key_undoes:
  assumes "16 * (round + 1) \<le> length exkey"
  shows "undoes is_block (\<lambda>b. add_round_key exkey b round) (\<lambda>b. add_round_key exkey b round)"
proof (rule undoesI)
  fix b :: "byte list" assume b: "is_block b"
  let ?f = "\<lambda>b. map (\<lambda>i. b ! i XOR exkey ! (round * 16 + i)) [0..<16]"
  have "?f (?f b) = b"
    using b by (intro nth_equalityI) (simp_all add: xor.assoc)
  with b assms show "\<exists>b'. add_round_key exkey b round = Inr b' \<and> is_block b' \<and>
      add_round_key exkey b' round = Inr b"
    by (intro exI [of _ "?f b"]) (simp add: add_round_key_ok)
qed

lemma sub_bytes_ok:
  assumes "is_block b" and "length sbox = 256"
  shows "sub_bytes b sbox = Inr (map (\<lambda>x. sbox ! unat x) b)"
proof -
  have "sub_bytes b sbox = Inr (map (\<lambda>i. sbox ! unat (b ! i)) [0..<16] @ drop 16 b)"
    unfolding sub_bytes_def using assms unat_byte by (intro update_each_ok) auto
  also have "map (\<lambda>i. sbox ! unat (b ! i)) [0..<16] = map (\<lambda>x. sbox ! unat x) b"
    using assms(1) by (intro nth_equalityI) simp_all
  finally show ?thesis using assms(1) by simp
qed

lemma sub_bytes_undoes:
  "undoes is_block (\<lambda>b. sub_bytes b aes_sbox) (\<lambda>b. sub_bytes b aes_inv_sbox)"
  by (rule undoesI) (simp add: sub_bytes_ok inv_sbox_of_sbox o_def)

lemma shift_rows_undoes: "undoes is_block shift_rows shift_rows_inv"
proof (rule undoesI)
  fix b :: "byte list" assume "is_block b"
  then show "\<exists>b'. shift_rows b = Inr b' \<and> is_block b' \<and> shift_rows_inv b' = Inr b"
    by (rule block_cases) (simp add: shift_rows_def shift_rows_inv_def)
qed

text \<open>The coefficients of the two column matrices cancel, already as polynomials.\<close>

lemma mix_cancel:
  fixes v0 v1 v2 v3 :: byte
  defines "w0 \<equiv> gf_mul_by_2 ! unat v0 XOR v3 XOR v2 XOR gf_mul_by_3 ! unat v1"
    and "w1 \<equiv> gf_mul_by_2 ! unat v1 XOR v0 XOR v3 XOR gf_mul_by_3 ! unat v2"
    and "w2 \<equiv> gf_mul_by_2 ! unat v2 XOR v1 XOR v0 XOR gf_mul_by_3 ! unat v3"
    and "w3 \<equiv> gf_mul_by_2 ! unat v3 XOR v2 XOR v1 XOR gf_mul_by_3 ! unat v0"
  shows "gf_mul_by_14 ! unat w0 XOR gf_mul_by_9 ! unat w3 XOR
      gf_mul_by_13 ! unat w2 XOR gf_mul_by_11 ! unat w1 = v0" (is ?r0)
    and "gf_mul_by_14 ! unat w1 XOR gf_mul_by_9 ! unat w0 XOR
      gf_mul_by_13 ! unat w3 XOR gf_mul_by_11 ! unat w2 = v1" (is ?r1)
    and "gf_mul_by_14 ! unat w2 XOR gf_mul_by_9 ! unat w1 XOR
      gf_mul_by_13 ! unat w0 XOR gf_mul_by_11 ! unat w3 = v2" (is ?r2)
    and "gf_mul_by_14 ! unat w3 XOR gf_mul_by_9 ! unat w2 XOR
      gf_mul_by_13 ! unat w1 XOR gf_mul_by_11 ! unat w0 = v3" (is ?r3)
proof -
  note d = gf_mul_nth w0_def w1_def w2_def w3_def xtime_xor
  show ?r0 unfolding d by (simp add: ac_simps)
  show ?r1 unfolding d by (simp add: ac_simps)
  show ?r2 unfolding d by (simp add: ac_simps)
  show ?r3 unfolding d by (simp add: ac_simps)
qed

fun mix4 :: "byte list \<Rightarrow> byte list" where
  "mix4 [v0, v1, v2, v3] =
     [gf_mul_by_2 ! unat v0 XOR v3 XOR v2 XOR gf_mul_by_3 ! unat v1,
      gf_mul_by_2 ! unat v1 XOR v0 XOR v3 XOR gf_mul_by_3 ! unat v2,
      gf_mul_by_2 ! unat v2 XOR v1 XOR v0 XOR gf_mul_by_3 ! unat v3,
      gf_mul_by_2 ! unat v3 XOR v2 XOR v1 XOR gf_mul_by_3 ! unat v0]"
| "mix4 vs = vs"

fun unmix4 :: "byte list \<Rightarrow> byte list" where
  "unmix4 [v0, v1, v2, v3] =
     [gf_mul_by_14 ! unat v0 XOR gf_mul_by_9 ! unat v3 XOR
        gf_mul_by_13 ! unat v2 XOR gf_mul_by_11 ! unat v1,
      gf_mul_by_14 ! unat v1 XOR gf_mul_by_9 ! unat v0 XOR
        gf_mul_by_13 ! unat v3 XOR gf_mul_by_11 ! unat v2,
      gf_mul_by_14 ! unat v2 XOR gf_mul_by_9 ! unat v1 XOR
        gf_mul_by_13 ! unat v0 XOR gf_mul_by_11 ! unat v3,
      gf_mul_by_14 ! unat v3 XOR gf_mul_by_9 ! unat v2 XOR
        gf_mul_by_13 ! unat v1 XOR gf_mul_by_11 ! unat v0]"
| "unmix4 vs = vs"

lemma length4_cases:
  assumes "length vs = 4"
  obtains v0 v1 v2 v3 where "vs = [v0, v1, v2, v3]"
  using assms by (auto simp: eval_nat_numeral length_Suc_conv)

lemma length_mix4 [simp]: "length (mix4 vs) = length vs"
  by (induction vs rule: mix4.induct) simp_all

lemma length_unmix4 [simp]: "length (unmix4 vs) = length vs"
  by (induction vs rule: unmix4.induct) simp_all

lemma unmix4_mix4: "length vs = 4 \<Longrightarrow> unmix4 (mix4 vs) = vs"
  by (erule length4_cases) (simp add: mix_cancel)

lemma mix_column_append:
  assumes "length vs = 4"
  shows "mix_column (length pre) (pre @ vs @ post) = Inr (pre @ mix4 vs @ post)"
    and "mix_column_inv (length pre) (pre @ vs @ post) = Inr (pre @ unmix4 vs @ post)"
  using assms
  by (auto elim!: length4_cases
      simp: mix_column_def mix_column_inv_def Let_def nth_append list_update_append)

text \<open>A block is four columns of four bytes, one after the other.\<close>

lemma block_columns:
  assumes "is_block b"
  obtains c0 c1 c2 c3 where "b = c0 @ c1 @ c2 @ c3"
    and "length c0 = 4" "length c1 = 4" "length c2 = 4" "length c3 = 4"
proof
  from assms show "b = take 4 b @ take 4 (drop 4 b) @ take 4 (drop 8 b) @ drop 12 b"
    by (rule block_cases) simp
qed (use assms in auto)

lemma mix_columns_append:
  assumes "length c0 = 4" "length c1 = 4" "length c2 = 4" "length c3 = 4"
  shows "mix_columns (c0 @ c1 @ c2 @ c3) = Inr (mix4 c0 @ mix4 c1 @ mix4 c2 @ mix4 c3)"
    and "mix_columns_inv (c0 @ c1 @ c2 @ c3) = Inr (unmix4 c0 @ unmix4 c1 @ unmix4 c2 @ unmix4 c3)"
proof -
  have "[0..<4] = [0, 1, 2, 3 :: nat]" by (simp add: upt_rec)
  with assms show "mix_columns (c0 @ c1 @ c2 @ c3) = Inr (mix4 c0 @ mix4 c1 @ mix4 c2 @ mix4 c3)"
    using mix_column_append(1) [of c0 "[]" "c1 @ c2 @ c3"]
      mix_column_append(1) [of c1 "mix4 c0" "c2 @ c3"]
      mix_column_append(1) [of c2 "mix4 c0 @ mix4 c1" c3]
      mix_column_append(1) [of c3 "mix4 c0 @ mix4 c1 @ mix4 c2" "[]"]
    by (simp add: mix_columns_def)
  with assms show "mix_columns_inv (c0 @ c1 @ c2 @ c3) =
      Inr (unmix4 c0 @ unmix4 c1 @ unmix4 c2 @ unmix4 c3)"
    using mix_column_append(2) [of c0 "[]" "c1 @ c2 @ c3"]
      mix_column_append(2) [of c1 "unmix4 c0" "c2 @ c3"]
      mix_column_append(2) [of c2 "unmix4 c0 @ unmix4 c1" c3]
      mix_column_append(2) [of c3 "unmix4 c0 @ unmix4 c1 @ unmix4 c2" "[]"]
    by (simp add: mix_columns_inv_def upt_rec)
qed

lemma mix_columns_undoes: "undoes is_block mix_columns mix_columns_inv"
proof (rule undoesI)
  fix b :: "byte list" assume "is_block b"
  then show "\<exists>b'. mix_columns b = Inr b' \<and> is_block b' \<and> mix_columns_inv b' = Inr b"
    by (rule block_columns) (simp add: mix_columns_append unmix4_mix4)
qed

lemma encrypt_block_undoes:
  assumes "16 * (aes_rounds c + 1) \<le> length (aes_exkey c)"
  shows "undoes is_block (encrypt_block c) (decrypt_block c)"
proof -
  let ?add = "\<lambda>i b. add_round_key (aes_exkey c) b i"
  let ?sr = "\<lambda>b. rbind (sub_bytes b aes_sbox) shift_rows"
  let ?rs = "\<lambda>b. rbind (shift_rows_inv b) (\<lambda>b. sub_bytes b aes_inv_sbox)"
  let ?n = "aes_rounds c"
  have add: "undoes is_block (?add i) (?add i)" if "i \<le> ?n" for i
    using that assms by (intro add_round_key_undoes) simp
  have sr: "undoes is_block ?sr ?rs"
    by (rule undoes_comp [OF sub_bytes_undoes shift_rows_undoes])
  have loop: "undoes is_block (for_each [1..<?n] (encrypt_round c))
      (for_each (rev [1..<?n]) (\<lambda>i b. rbind (rbind (?add i b) mix_columns_inv) ?rs))"
  proof (rule undoes_for_each)
    fix i assume "i \<in> set [1..<?n]"
    then have "undoes is_block (\<lambda>b. rbind (?sr b) (\<lambda>b. rbind (mix_columns b) (?add i)))
        (\<lambda>b. rbind (rbind (?add i b) mix_columns_inv) ?rs)"
      by (intro undoes_comp [OF sr undoes_comp [OF mix_columns_undoes add]]) auto
    then show "undoes is_block (encrypt_round c i)
        (\<lambda>b. rbind (rbind (?add i b) mix_columns_inv) ?rs)"
      by (simp add: encrypt_round_def rbind_assoc undoes_def)
  qed
  have enc: "encrypt_block c = (\<lambda>b. rbind (?add 0 b) (\<lambda>b.
      rbind (for_each [1..<?n] (encrypt_round c) b) (\<lambda>b. rbind (?sr b) (?add ?n))))"
    by (rule ext) (simp add: encrypt_block_def rbind_assoc)
  have dec: "decrypt_block c = (\<lambda>b. rbind (rbind (rbind (?add ?n b) ?rs)
      (for_each (rev [1..<?n]) (\<lambda>i b. rbind (rbind (?add i b) mix_columns_inv) ?rs))) (?add 0))"
  proof
    fix b
    have "decrypt_block c b = rbind (rbind (rbind (?add ?n b)
        (for_each (rev [1..<?n]) (\<lambda>i b. rbind (?rs b) (\<lambda>b. rbind (?add i b) mix_columns_inv)))) ?rs)
        (?add 0)"
      by (simp add: decrypt_block_def decrypt_round_def [abs_def] rbind_assoc)
    also have "rbind (rbind (?add ?n b)
        (for_each (rev [1..<?n]) (\<lambda>i b. rbind (?rs b) (\<lambda>b. rbind (?add i b) mix_columns_inv)))) ?rs =
        rbind (rbind (?add ?n b) ?rs)
          (for_each (rev [1..<?n]) (\<lambda>i b. rbind (rbind (?add i b) mix_columns_inv) ?rs))"
      by (cases "?add ?n b") (simp_all only: rbind_simps for_each_rotate)
    finally show "decrypt_block c b = rbind (rbind (rbind (?add ?n b) ?rs)
      (for_each (rev [1..<?n]) (\<lambda>i b. rbind (rbind (?add i b) mix_columns_inv) ?rs))) (?add 0)" .
  qed
  show ?thesis
    unfolding enc dec by (intro undoes_comp add loop sr) auto
qed

end
