(* ===== verification/AesKeySchedule.thy ===== *)
theory AesKeySchedule
  imports AesCipher
begin

unbundle bit_operations_syntax

text \<open>
  The key schedule of \<^verbatim>\<open>own/pyaes.py\<close> against FIPS 197: the standard's recurrence on
  four-byte words, and the proof that the byte-wise loops of \<open>expand_key\<close> never raise for the
  three key lengths and produce exactly the words of the recurrence.
\<close>

section \<open>The schedule of the standard\<close>

definition xor_word :: "byte list \<Rightarrow> byte list \<Rightarrow> byte list" where
  "xor_word v w = map (\<lambda>j. v ! j XOR w ! j) [0..<4]"

definition rot_word :: "byte list \<Rightarrow> byte list" where
  "rot_word w = [w ! 1, w ! 2, w ! 3, w ! 0]"

definition sub_word :: "byte list \<Rightarrow> byte list" where
  "sub_word w = map (\<lambda>j. aes_sbox ! unat (w ! j)) [0..<4]"

definition rcon_word :: "nat \<Rightarrow> byte list" where
  "rcon_word i = [aes_Rcon ! i, 0, 0, 0]"

fun fips_word :: "byte list \<Rightarrow> nat \<Rightarrow> nat \<Rightarrow> byte list" where
  "fips_word key nk i =
     (if i < nk \<or> nk = 0 then take 4 (drop (4 * i) key)
      else xor_word
        (if i mod nk = 0
         then xor_word (sub_word (rot_word (fips_word key nk (i - 1)))) (rcon_word (i div nk))
         else if 6 < nk \<and> i mod nk = 4 then sub_word (fips_word key nk (i - 1))
         else fips_word key nk (i - 1))
        (fips_word key nk (i - nk)))"

declare fips_word.simps [simp del]

section \<open>The loops follow the recurrence\<close>

lemma length_xor_word [simp]: "length (xor_word v w) = 4"
  by (simp add: xor_word_def)

lemma length_sub_word [simp]: "length (sub_word w) = 4"
  by (simp add: sub_word_def)

lemma length_fips_word:
  assumes "length key = 4 * nk" and "0 < nk"
  shows "length (fips_word key nk i) = 4"
  using assms by (subst fips_word.simps) simp

text \<open>
  \<open>sched m\<close> holds of the loop state when the first \<open>m\<close> words of the schedule are in \<open>exkey\<close> and
  \<open>word\<close> is the last of them.
\<close>

definition sched :: "byte list \<Rightarrow> nat \<Rightarrow> nat \<Rightarrow> byte list \<times> byte list \<Rightarrow> bool" where
  "sched key nk m st \<longleftrightarrow> nk \<le> m \<and>
     st = (concat (map (fips_word key nk) [0..<m]), fips_word key nk (m - 1))"

lemma length_concat_const: "(\<And>x. x \<in> set xs \<Longrightarrow> length (f x) = k) \<Longrightarrow> length (concat (map f xs)) = k * length xs"
  by (induction xs) auto

lemma nth_concat_const:
  assumes "\<And>i. length (f i) = k" and "i < m" and "j < k"
  shows "concat (map f [0..<m]) ! (k * i + j) = f i ! j"
  using assms(2)
proof (induction m)
  case 0
  then show ?case by simp
next
  case (Suc m)
  have len: "length (concat (map f [0..<m])) = k * m"
    using assms(1) by (subst length_concat_const [where k = k]) auto
  show ?case
  proof (cases "i < m")
    case True
    then have "k * i + k \<le> k * m"
      by (metis Suc_leI mult_Suc_right mult_le_mono2 add.commute)
    with assms(3) True Suc.IH len show ?thesis by (simp add: nth_append)
  next
    case False
    with Suc.prems have "i = m" by simp
    with len show ?thesis by (simp add: nth_append)
  qed
qed

lemma mix_loop_ok:
  assumes key: "length key = 4 * nk" "0 < nk" and st: "sched key nk m (exkey, w)"
    and v: "length v = 4"
  shows "update_each 4 (\<lambda>j b. rbind (py_get exkey (- int (4 * nk) + int j)) (\<lambda>e. Inr (g b XOR e))) v =
    Inr (xor_word (map g v) (fips_word key nk (m - nk)))"
proof -
  let ?W = "fips_word key nk"
  have len: "length exkey = 4 * m" and ex: "exkey = concat (map ?W [0..<m])" and le: "nk \<le> m"
    using st length_fips_word [OF key] by (auto simp: sched_def length_concat_const)
  have get: "py_get exkey (- int (4 * nk) + int j) = Inr (?W (m - nk) ! j)" if "j < 4" for j
  proof -
    have "py_get exkey (- int (4 * nk - j)) = Inr (exkey ! (4 * m - (4 * nk - j)))"
      using that key(2) le len by (subst py_get_neg) auto
    also have "4 * m - (4 * nk - j) = 4 * (m - nk) + j"
      using that key(2) le by simp
    also have "exkey ! (4 * (m - nk) + j) = ?W (m - nk) ! j"
      unfolding ex using length_fips_word [OF key] that key(2) le by (intro nth_concat_const) auto
    finally show ?thesis using that key(2) by (simp add: of_nat_diff algebra_simps)
  qed
  have "update_each 4 (\<lambda>j b. rbind (py_get exkey (- int (4 * nk) + int j)) (\<lambda>e. Inr (g b XOR e))) v =
    Inr (map (\<lambda>j. g (v ! j) XOR ?W (m - nk) ! j) [0..<4] @ drop 4 v)"
    using v by (intro update_each_ok) (auto simp: get [simplified])
  also have "map (\<lambda>j. g (v ! j) XOR ?W (m - nk) ! j) [0..<4] @ drop 4 v = xor_word (map g v) (?W (m - nk))"
    using v by (simp add: xor_word_def)
  finally show ?thesis .
qed

text \<open>One \<open>mix_extend\<close> (or \<open>sub_extend\<close>) appends one word of the schedule.\<close>

lemma sched_append:
  assumes "sched key nk m (exkey, w)" and "w' = fips_word key nk m"
  shows "sched key nk (Suc m) (exkey @ w', w')"
  using assms by (simp add: sched_def)

lemma mix_extend_sched:
  assumes key: "length key = 4 * nk" "0 < nk" and st: "sched key nk m (exkey, w)"
    and m: "m mod nk \<noteq> 0" "\<not> (6 < nk \<and> m mod nk = 4)"
  shows "\<exists>st'. mix_extend (4 * nk) (exkey, w) = Inr st' \<and> sched key nk (Suc m) st'"
proof -
  have w: "w = fips_word key nk (m - 1)" "nk \<le> m" using st by (simp_all add: sched_def)
  then have "fips_word key nk m = xor_word w (fips_word key nk (m - nk))"
    using m key(2) by (subst fips_word.simps) auto
  with mix_loop_ok [OF key st, of w "\<lambda>b. b"] w length_fips_word [OF key] sched_append [OF st]
  show ?thesis by (simp add: mix_extend_def)
qed

lemma core_sched:
  assumes key: "length key = 4 * nk" "0 < nk" and st: "sched key nk m (exkey, w)"
    and m: "m mod nk = 0" "m div nk < 255"
  shows "\<exists>w' st'. key_schedule_core (m div nk) w = Inr w' \<and>
    mix_extend (4 * nk) (exkey, w') = Inr st' \<and> sched key nk (Suc m) st'"
proof -
  have w: "w = fips_word key nk (m - 1)" "nk \<le> m" using st by (simp_all add: sched_def)
  have "length w = 4" using w length_fips_word [OF key] by simp
  then obtain w0 w1 w2 w3 where l: "w = [w0, w1, w2, w3]" by (rule length4_cases)
  let ?w = "xor_word (sub_word (rot_word w)) (rcon_word (m div nk))"
  have four: "[0..<4] = [0, 1, 2, 3 :: nat]" by (simp add: upt_rec)
  have "update_each 4 (\<lambda>j b. Inr (aes_sbox ! unat b)) (rot_word w) = Inr (sub_word (rot_word w))"
    using update_each_ok [of 4 "rot_word w" "\<lambda>j b. Inr (aes_sbox ! unat b)" "\<lambda>j. aes_sbox ! unat (rot_word w ! j)"]
    by (simp add: sub_word_def rot_word_def)
  moreover have "take 3 (drop 1 w) @ take 1 w = rot_word w"
    by (simp add: l rot_word_def)
  moreover have "(sub_word (rot_word w))[0 := sub_word (rot_word w) ! 0 XOR aes_Rcon ! (m div nk)] = ?w"
    by (simp add: xor_word_def sub_word_def rcon_word_def four)
  ultimately have core: "key_schedule_core (m div nk) w = Inr ?w"
    using m by (simp add: key_schedule_core_def Let_def)
  have "fips_word key nk m = xor_word ?w (fips_word key nk (m - nk))"
    using m key(2) w by (subst fips_word.simps) auto
  with mix_loop_ok [OF key st, of ?w "\<lambda>b. b"] core sched_append [OF st]
  show ?thesis by (simp add: mix_extend_def)
qed

lemma sub_extend_sched:
  assumes key: "length key = 4 * nk" "0 < nk" and st: "sched key nk m (exkey, w)"
    and m: "6 < nk" "m mod nk = 4"
  shows "\<exists>st'. sub_extend (4 * nk) (exkey, w) = Inr st' \<and> sched key nk (Suc m) st'"
proof -
  have w: "w = fips_word key nk (m - 1)" "nk \<le> m" using st by (simp_all add: sched_def)
  have len: "length w = 4" using w length_fips_word [OF key] by simp
  then have "map (\<lambda>b. aes_sbox ! unat b) w = sub_word w"
    by (auto elim!: length4_cases simp: sub_word_def upt_rec)
  moreover have "fips_word key nk m = xor_word (sub_word w) (fips_word key nk (m - nk))"
    using m key(2) w by (subst fips_word.simps) auto
  ultimately show ?thesis
    using mix_loop_ok [OF key st len, of "\<lambda>b. aes_sbox ! unat b"] sched_append [OF st]
    by (simp add: sub_extend_def)
qed

lemma mix_run_sched:
  assumes key: "length key = 4 * nk" "0 < nk" and st: "sched key nk m st"
    and m: "\<And>k. m \<le> k \<Longrightarrow> k < m + length xs \<Longrightarrow> k mod nk \<noteq> 0 \<and> \<not> (6 < nk \<and> k mod nk = 4)"
  shows "\<exists>st'. for_each xs (\<lambda>z. mix_extend (4 * nk)) st = Inr st' \<and>
    sched key nk (m + length xs) st'"
  using st m
proof (induction xs arbitrary: m st)
  case Nil
  then show ?case by simp
next
  case (Cons x xs)
  obtain exkey w where "st = (exkey, w)" by (cases st)
  with mix_extend_sched [OF key] Cons.prems(1) Cons.prems(2) [of m]
  obtain st1 where st1: "mix_extend (4 * nk) st = Inr st1" "sched key nk (Suc m) st1"
    by fastforce
  obtain st2 where "for_each xs (\<lambda>z. mix_extend (4 * nk)) st1 = Inr st2"
    "sched key nk (Suc m + length xs) st2"
    using Cons.IH [OF st1(2)] Cons.prems(2) by auto
  with st1(1) show ?case by auto
qed

section \<open>The whole expansion\<close>

text \<open>
  Per key length in words: the cycle that reaches the end of the schedule, and the number of
  extra words at the end of the other cycles.
\<close>

definition cycles_of :: "nat \<Rightarrow> nat \<Rightarrow> nat \<Rightarrow> bool" where
  "cycles_of nk last_i extra \<longleftrightarrow>
     (nk, last_i, extra) \<in> {(4, 10, 0), (6, 8, 2), (8, 7, 3)}"

lemma cycle_mod:
  assumes "cycles_of nk last_i extra" and "k < nk"
  shows "(i * nk + k) mod nk = k"
  using assms by simp

lemma cycle_start:
  assumes nk: "cycles_of nk last_i extra" and key: "length key = 4 * nk"
    and i: "1 \<le> i" "i \<le> last_i" and st: "sched key nk (i * nk) (exkey, w)"
  shows "\<exists>w' st'. key_schedule_core i w = Inr w' \<and>
    for_each [0..<4] (\<lambda>z. mix_extend (4 * nk)) (exkey, w') = Inr st' \<and>
    sched key nk (i * nk + 4) st'"
proof -
  have pos: "0 < nk" "i * nk div nk = i" "4 \<le> nk" "i < 255"
    using nk i by (auto simp: cycles_of_def)
  obtain w' st1 where 1: "key_schedule_core i w = Inr w'" "mix_extend (4 * nk) (exkey, w') = Inr st1"
    "sched key nk (Suc (i * nk)) st1"
    using core_sched [OF key pos(1) st] pos by auto
  have "\<exists>st2. for_each [1, 2, 3 :: nat] (\<lambda>z. mix_extend (4 * nk)) st1 = Inr st2 \<and>
      sched key nk (Suc (i * nk) + length [1, 2, 3 :: nat]) st2"
  proof (rule mix_run_sched [OF key pos(1) 1(3)])
    fix k assume "Suc (i * nk) \<le> k" "k < Suc (i * nk) + length [1, 2, 3 :: nat]"
    then have "k = i * nk + 1 \<or> k = i * nk + 2 \<or> k = i * nk + 3" by auto
    then obtain c where "k = i * nk + c" "c < 4" "c \<noteq> 0" by fastforce
    then have "k mod nk = c" using pos(3) by simp
    then show "k mod nk \<noteq> 0 \<and> \<not> (6 < nk \<and> k mod nk = 4)"
      using \<open>c < 4\<close> \<open>c \<noteq> 0\<close> by simp
  qed
  moreover have "[0..<4] = [0, 1, 2, 3 :: nat]" by (simp add: upt_rec)
  ultimately show ?thesis using 1 by (auto simp: eval_nat_numeral)
qed

lemma cycle_rest:
  assumes nk: "cycles_of nk last_i extra" and key: "length key = 4 * nk"
    and st: "sched key nk (i * nk + 4) st"
  shows "\<exists>st1 st2. (if 4 * nk = 32 then sub_extend (4 * nk) st else Inr st) = Inr st1 \<and>
    for_each [0..<extra] (\<lambda>z. mix_extend (4 * nk)) st1 = Inr st2 \<and>
    sched key nk (Suc i * nk) st2"
proof -
  consider "nk = 4" "extra = 0" | "nk = 6" "extra = 2" | "nk = 8" "extra = 3"
    using nk by (auto simp: cycles_of_def)
  then show ?thesis
  proof cases
    case 1
    with st show ?thesis by (simp add: add.commute)
  next
    case 2
    have "\<exists>st'. for_each [0..<2] (\<lambda>z. mix_extend (4 * nk)) st = Inr st' \<and>
        sched key nk (i * nk + 4 + length [0..<2]) st'"
    proof (rule mix_run_sched [OF key _ st])
      fix k assume "i * nk + 4 \<le> k" "k < i * nk + 4 + length [0..<2]"
      then have "k = i * nk + 4 \<or> k = i * nk + 5" by auto
      then show "k mod nk \<noteq> 0 \<and> \<not> (6 < nk \<and> k mod nk = 4)"
        using 2 by auto
    qed (simp add: 2)
    with 2 show ?thesis by (auto simp: algebra_simps)
  next
    case 3
    obtain exkey w where "st = (exkey, w)" by (cases st)
    with st 3 sub_extend_sched [OF key _, of "i * nk + 4" exkey w]
    obtain st1 where st1: "sub_extend (4 * nk) st = Inr st1" "sched key nk (Suc (i * nk + 4)) st1"
      by auto
    have "\<exists>st'. for_each [0..<3] (\<lambda>z. mix_extend (4 * nk)) st1 = Inr st' \<and>
        sched key nk (Suc (i * nk + 4) + length [0..<3]) st'"
    proof (rule mix_run_sched [OF key _ st1(2)])
      fix k assume "Suc (i * nk + 4) \<le> k" "k < Suc (i * nk + 4) + length [0..<3]"
      then have "k = i * nk + 5 \<or> k = i * nk + 6 \<or> k = i * nk + 7" by auto
      then show "k mod nk \<noteq> 0 \<and> \<not> (6 < nk \<and> k mod nk = 4)"
        using 3 by auto
    qed (simp add: 3)
    with 3 st1 show ?thesis by (auto simp: algebra_simps)
  qed
qed

lemma expand_cycles_sched:
  assumes nk: "cycles_of nk last_i extra" and key: "length key = 4 * nk"
    and i: "1 \<le> i" "i \<le> last_i" and st: "sched key nk (i * nk) st"
  shows "expand_cycles [i..<11] (4 * nk) (nk + 6) extra st =
    Inr (concat (map (fips_word key nk) [0..<4 * (nk + 7)]))"
  using i(2,1) st
proof (induction i arbitrary: st rule: inc_induct)
  case base
  obtain exkey w where st: "st = (exkey, w)" by (cases st)
  have "last_i < 11" using nk by (auto simp: cycles_of_def)
  then have upt: "[last_i..<11] = last_i # [Suc last_i..<11]" by (simp add: upt_conv_Cons)
  obtain w' ex2 w2 where 1: "key_schedule_core last_i w = Inr w'"
    "for_each [0..<4] (\<lambda>z. mix_extend (4 * nk)) (exkey, w') = Inr (ex2, w2)"
    "sched key nk (last_i * nk + 4) (ex2, w2)"
    using cycle_start [OF nk key] base st by fastforce
  have m: "last_i * nk + 4 = 4 * (nk + 7)" "0 < nk"
    using nk by (auto simp: cycles_of_def)
  have "ex2 = concat (map (fips_word key nk) [0..<4 * (nk + 7)])"
    using 1(3) unfolding m by (simp add: sched_def)
  moreover have "length ex2 = 16 * (nk + 7)"
    unfolding calculation using length_fips_word [OF key m(2)]
    by (subst length_concat_const [where k = 4]) auto
  ultimately show ?case
    using 1 by (simp add: st upt block_size_def)
next
  case (step i)
  obtain exkey w where st: "st = (exkey, w)" by (cases st)
  have "last_i < 11" using nk by (auto simp: cycles_of_def)
  with step have upt: "[i..<11] = i # [Suc i..<11]" by (simp add: upt_conv_Cons)
  obtain w' ex2 w2 where 1: "key_schedule_core i w = Inr w'"
    "for_each [0..<4] (\<lambda>z. mix_extend (4 * nk)) (exkey, w') = Inr (ex2, w2)"
    "sched key nk (i * nk + 4) (ex2, w2)"
    using cycle_start [OF nk key] step st by fastforce
  have m: "i * nk + 4 < 4 * (nk + 7)" "0 < nk"
    using nk step.hyps by (auto simp: cycles_of_def)
  have "ex2 = concat (map (fips_word key nk) [0..<i * nk + 4])"
    using 1(3) by (simp add: sched_def)
  then have "length ex2 = 4 * (i * nk + 4)"
    using length_fips_word [OF key m(2)]
    by (simp only:) (subst length_concat_const [where k = 4], auto)
  with m(1) have short: "\<not> (nk + 7) * 16 \<le> length ex2" by simp
  obtain st1 st2 where 2: "(if 4 * nk = 32 then sub_extend (4 * nk) (ex2, w2) else Inr (ex2, w2)) = Inr st1"
    "for_each [0..<extra] (\<lambda>z. mix_extend (4 * nk)) st1 = Inr st2" "sched key nk (Suc i * nk) st2"
    using cycle_rest [OF nk key 1(3)] by blast
  have "expand_cycles [Suc i..<11] (4 * nk) (nk + 6) extra st2 =
      Inr (concat (map (fips_word key nk) [0..<4 * (nk + 7)]))"
    using step.IH [OF _ 2(3)] by simp
  with 1 2 short show ?case
    by (simp add: st upt block_size_def split del: if_split)
qed

lemma concat_words_of_key:
  assumes "length key = 4 * nk" and "0 < nk" and "m \<le> nk"
  shows "concat (map (fips_word key nk) [0..<m]) = take (4 * m) key"
  using assms(3)
proof (induction m)
  case 0
  then show ?case by simp
next
  case (Suc m)
  then show ?case
    by (simp add: fips_word.simps [of _ _ m] take_add [of "4 * m" 4, symmetric] add.commute)
qed

lemma expand_key_fips:
  assumes nk: "cycles_of nk last_i extra" and key: "length key = 4 * nk"
  shows "expand_key key (4 * nk) (nk + 6) =
    Inr (concat (map (fips_word key nk) [0..<4 * (nk + 7)]))"
proof -
  have nk': "0 < nk" "1 \<le> last_i" using nk by (auto simp: cycles_of_def)
  have "fips_word key nk (nk - 1) = last_n 4 key"
    using key nk' by (simp add: fips_word.simps [of _ _ "nk - Suc 0"] last_n_def right_diff_distrib')
  moreover have "concat (map (fips_word key nk) [0..<nk]) = key"
    using concat_words_of_key [OF key nk'(1), of nk] key by simp
  ultimately have "sched key nk (1 * nk) (key, last_n 4 key)"
    by (simp add: sched_def)
  then have "expand_cycles [1..<11] (4 * nk) (nk + 6) extra (key, last_n 4 key) =
      Inr (concat (map (fips_word key nk) [0..<4 * (nk + 7)]))"
    using expand_cycles_sched [OF nk key _ nk'(2)] by blast
  moreover have "(if 4 * nk = 16 then 0 else if 4 * nk = 24 then 2 else 3) = extra"
    using nk by (auto simp: cycles_of_def)
  ultimately show ?thesis by (simp add: expand_key_def Let_def)
qed

lemma setkey_fips:
  assumes "length key \<in> {16, 24, 32}"
  shows "setkey key = Inr \<lparr>aes_key = key, aes_key_size = length key,
     aes_rounds = length key div 4 + 6,
     aes_exkey = concat (map (fips_word key (length key div 4)) [0..<4 * (length key div 4 + 7)])\<rparr>"
  using assms expand_key_fips [of 4 10 0 key] expand_key_fips [of 6 8 2 key]
    expand_key_fips [of 8 7 3 key]
  by (auto simp: setkey_def Let_def cycles_of_def)

lemma setkey_error: "length key \<notin> {16, 24, 32} \<Longrightarrow> setkey key = Inl ValueError"
  by (simp add: setkey_def Let_def)

lemma length_exkey:
  assumes "setkey key = Inr c"
  shows "length (aes_exkey c) = 16 * (aes_rounds c + 1)"
proof -
  have len: "length key \<in> {16, 24, 32}"
    using assms setkey_error by fastforce
  then have key: "length key = 4 * (length key div 4)" "0 < length key div 4" by auto
  have "length (concat (map (fips_word key (length key div 4)) [0..<4 * (length key div 4 + 7)])) =
      4 * length [0..<4 * (length key div 4 + 7)]"
    using length_fips_word [OF key] by (intro length_concat_const) auto
  with assms setkey_fips [OF len] show ?thesis by auto
qed

end
