(* ===== verification/AesModes.thy ===== *)
theory AesModes
  imports AesKeySchedule
begin

unbundle bit_operations_syntax

text \<open>
  The modes of operation of \<^verbatim>\<open>own/pyaes.py\<close>: \<open>ECBMode\<close>, \<open>CBCMode\<close> (whose \<open>IV\<close> attribute is
  the state that chains successive calls) and the constructor function \<open>new\<close>. The modes only
  use the block functions of the cipher; what they need of it is the locale \<open>block_cipher\<close>,
  interpreted on the AES model for every key that \<open>setkey\<close> accepts.
\<close>

section \<open>Electronic code book\<close>

text \<open>\<open>range(0, len(data), 16)\<close>, for a length that is a multiple of 16.\<close>

definition block_offsets :: "nat \<Rightarrow> nat list" where
  "block_offsets n = map (\<lambda>k. k * block_size) [0..<n div block_size]"

definition get_block :: "nat \<Rightarrow> byte list \<Rightarrow> byte list" where
  "get_block offset data = take block_size (drop offset data)"

definition put_block :: "nat \<Rightarrow> byte list \<Rightarrow> byte list \<Rightarrow> byte list" where
  "put_block offset block data = take offset data @ block @ drop (offset + block_size) data"

definition ecb_step :: "(byte list \<Rightarrow> byte list result) \<Rightarrow> nat \<Rightarrow> byte list \<Rightarrow> byte list result" where
  "ecb_step block_func offset data =
     rbind (block_func (get_block offset data)) (\<lambda>block. Inr (put_block offset block data))"

definition ecb :: "(byte list \<Rightarrow> byte list result) \<Rightarrow> byte list \<Rightarrow> byte list result" where
  "ecb block_func data =
     (if length data mod block_size \<noteq> 0 then Inl ValueError
      else for_each (block_offsets (length data)) (ecb_step block_func) data)"

definition ecb_encrypt :: "aes \<Rightarrow> byte list \<Rightarrow> byte list result" where
  "ecb_encrypt c data = ecb (encrypt_block c) data"

definition ecb_decrypt :: "aes \<Rightarrow> byte list \<Rightarrow> byte list result" where
  "ecb_decrypt c data = ecb (decrypt_block c) data"

section \<open>Cipher block chaining\<close>

text \<open>\<open>for i in xrange(block_size): block[i] ^= IV[i]\<close>.\<close>

definition xor_iv :: "byte list \<Rightarrow> byte list \<Rightarrow> byte list result" where
  "xor_iv iv block = update_each block_size (\<lambda>i b. rbind (lget iv i) (\<lambda>v. Inr (b XOR v))) block"

definition cbc_encrypt_step ::
    "(byte list \<Rightarrow> byte list result) \<Rightarrow> nat \<Rightarrow> byte list \<times> byte list \<Rightarrow> (byte list \<times> byte list) result" where
  "cbc_encrypt_step encrypt offset = (\<lambda>(data, iv).
     rbind (xor_iv iv (get_block offset data)) (\<lambda>block.
     rbind (encrypt block) (\<lambda>block. Inr (put_block offset block data, block))))"

definition cbc_decrypt_step ::
    "(byte list \<Rightarrow> byte list result) \<Rightarrow> nat \<Rightarrow> byte list \<times> byte list \<Rightarrow> (byte list \<times> byte list) result" where
  "cbc_decrypt_step decrypt offset = (\<lambda>(data, iv).
     let ctext = get_block offset data in
     rbind (decrypt ctext) (\<lambda>block.
     rbind (xor_iv iv block) (\<lambda>block. Inr (put_block offset block data, ctext))))"

text \<open>Both methods return the converted data and the new value of \<open>self.IV\<close>.\<close>

definition cbc_run ::
    "(nat \<Rightarrow> byte list \<times> byte list \<Rightarrow> (byte list \<times> byte list) result) \<Rightarrow>
     byte list \<Rightarrow> byte list \<Rightarrow> (byte list \<times> byte list) result" where
  "cbc_run step iv data =
     (if length data mod block_size \<noteq> 0 then Inl ValueError
      else for_each (block_offsets (length data)) step (data, iv))"

definition cbc_encrypt :: "aes \<Rightarrow> byte list \<Rightarrow> byte list \<Rightarrow> (byte list \<times> byte list) result" where
  "cbc_encrypt c iv data = cbc_run (cbc_encrypt_step (encrypt_block c)) iv data"

definition cbc_decrypt :: "aes \<Rightarrow> byte list \<Rightarrow> byte list \<Rightarrow> (byte list \<times> byte list) result" where
  "cbc_decrypt c iv data = cbc_run (cbc_decrypt_step (decrypt_block c)) iv data"

section \<open>The constructor\<close>

datatype cipher = ECBMode aes | CBCMode aes "byte list"

definition MODE_ECB :: int where "MODE_ECB = 1"
definition MODE_CBC :: int where "MODE_CBC = 2"

definition new :: "byte list \<Rightarrow> int \<Rightarrow> byte list option \<Rightarrow> cipher result" where
  "new key mode IV =
     (if mode = MODE_ECB then rbind (setkey key) (\<lambda>c. Inr (ECBMode c))
      else if mode = MODE_CBC then
        (case IV of
           None \<Rightarrow> Inl ValueError
         | Some iv \<Rightarrow> rbind (setkey key) (\<lambda>c. Inr (CBCMode c iv)))
      else Inl NotImplementedError)"

text \<open>The methods \<open>encrypt\<close> and \<open>decrypt\<close> of either class: data and the object afterwards.\<close>

fun cipher_encrypt :: "cipher \<Rightarrow> byte list \<Rightarrow> (byte list \<times> cipher) result" where
  "cipher_encrypt (ECBMode c) data = rbind (ecb_encrypt c data) (\<lambda>out. Inr (out, ECBMode c))"
| "cipher_encrypt (CBCMode c iv) data =
     rbind (cbc_encrypt c iv data) (\<lambda>(out, iv). Inr (out, CBCMode c iv))"

fun cipher_decrypt :: "cipher \<Rightarrow> byte list \<Rightarrow> (byte list \<times> cipher) result" where
  "cipher_decrypt (ECBMode c) data = rbind (ecb_decrypt c data) (\<lambda>out. Inr (out, ECBMode c))"
| "cipher_decrypt (CBCMode c iv) data =
     rbind (cbc_decrypt c iv data) (\<lambda>(out, iv). Inr (out, CBCMode c iv))"

section \<open>Data as a sequence of blocks\<close>

lemma block_size_16 [simp]: "block_size = 16"
  by (simp add: block_size_def)

lemma split_blocks:
  assumes "length data mod 16 = 0"
  obtains bs where "data = concat bs" and "\<forall>b \<in> set bs. is_block b"
proof -
  have "\<exists>bs. data = concat bs \<and> (\<forall>b \<in> set bs. is_block b)"
    using assms
  proof (induction "length data div 16" arbitrary: data)
    case 0
    then have "data = []" by auto
    then show ?case by (intro exI [of _ "[]"]) simp
  next
    case (Suc n)
    then have len: "16 \<le> length data" by (cases "length data < 16") auto
    with Suc have "n = length (drop 16 data) div 16" "length (drop 16 data) mod 16 = 0"
      by (auto simp: le_mod_geq le_div_geq)
    from Suc.hyps(1) [OF this] obtain bs where "drop 16 data = concat bs" "\<forall>b \<in> set bs. is_block b"
      by blast
    then have "data = concat (take 16 data # bs)"
      by (metis append_take_drop_id concat.simps(2))
    with len \<open>\<forall>b \<in> set bs. is_block b\<close> show ?case
      by (intro exI [of _ "take 16 data # bs"]) auto
  qed
  then show ?thesis using that by blast
qed

lemma length_concat_blocks: "\<forall>b \<in> set bs. is_block b \<Longrightarrow> length (concat bs) = 16 * length bs"
  by (induction bs) auto

lemma block_offsets_concat:
  "\<forall>b \<in> set bs. is_block b \<Longrightarrow>
   block_offsets (length (concat bs)) = map (\<lambda>k. k * 16) [0..<length bs]"
  by (simp add: block_offsets_def length_concat_blocks)

lemma get_put_block:
  assumes "length pre = k * 16" and "is_block b"
  shows "get_block (k * 16) (pre @ b @ post) = b"
    and "put_block (k * 16) b' (pre @ b @ post) = pre @ b' @ post"
  using assms by (simp_all add: get_block_def put_block_def)

text \<open>
  A loop over the block offsets, described block by block: \<open>step_blocks\<close> says that, wherever
  the block stands in the data, one turn replaces \<open>b\<close> by \<open>b'\<close> and the chaining value by \<open>iv'\<close>.
\<close>

fun chained :: "(byte list \<Rightarrow> 's \<Rightarrow> (byte list \<times> 's) result) \<Rightarrow> byte list list \<Rightarrow> 's \<Rightarrow>
    (byte list list \<times> 's) result" where
  "chained f [] iv = Inr ([], iv)"
| "chained f (b # bs) iv =
     rbind (f b iv) (\<lambda>(b', iv'). rbind (chained f bs iv') (\<lambda>(bs', iv''). Inr (b' # bs', iv'')))"

lemma for_each_chained:
  assumes step: "\<And>k pre b post iv. length pre = k * 16 \<Longrightarrow> is_block b \<Longrightarrow>
      step (k * 16) (pre @ b @ post, iv) =
        rbind (f b iv) (\<lambda>(b', iv'). Inr (pre @ b' @ post, iv'))"
    and out: "\<And>b iv b' iv'. is_block b \<Longrightarrow> f b iv = Inr (b', iv') \<Longrightarrow> is_block b'"
    and bs: "\<forall>b \<in> set bs. is_block b" and pre: "length pre = m * 16"
  shows "for_each (map (\<lambda>k. k * 16) [m..<m + length bs]) step (pre @ concat bs, iv) =
    rbind (chained f bs iv) (\<lambda>(bs', iv'). Inr (pre @ concat bs', iv'))"
  using bs pre
proof (induction bs arbitrary: m pre iv)
  case Nil
  then show ?case by simp
next
  case (Cons b bs)
  have upt: "[m..<m + length (b # bs)] = m # [Suc m..<Suc m + length bs]"
    by (subst upt_conv_Cons) simp_all
  show ?case
  proof (cases "f b iv")
    case (Inl e)
    with Cons.prems step [of pre m b "concat bs" iv] show ?thesis
      unfolding upt by simp
  next
    case (Inr r)
    then obtain b' iv' where f: "f b iv = Inr (b', iv')" by (cases r) auto
    with Cons.prems out [OF _ f] have "length (pre @ b') = Suc m * 16" by simp
    then have "for_each (map (\<lambda>k. k * 16) [Suc m..<Suc m + length bs]) step ((pre @ b') @ concat bs, iv') =
        rbind (chained f bs iv') (\<lambda>(bs', iv'). Inr ((pre @ b') @ concat bs', iv'))"
      using Cons.prems by (intro Cons.IH) auto
    with f Cons.prems step [of pre m b "concat bs" iv] show ?thesis
      unfolding upt by (auto simp: rbind_def split: sum.splits)
  qed
qed

lemma for_each_data:
  assumes "\<And>k pre b post iv. length pre = k * 16 \<Longrightarrow> is_block b \<Longrightarrow>
      step (k * 16) (pre @ b @ post, iv) =
        rbind (f b iv) (\<lambda>(b', iv'). Inr (pre @ b' @ post, iv'))"
    and "\<And>b iv b' iv'. is_block b \<Longrightarrow> f b iv = Inr (b', iv') \<Longrightarrow> is_block b'"
    and "\<forall>b \<in> set bs. is_block b"
  shows "for_each (block_offsets (length (concat bs))) step (concat bs, iv) =
    rbind (chained f bs iv) (\<lambda>(bs', iv'). Inr (concat bs', iv'))"
proof -
  have "for_each (map (\<lambda>k. k * 16) [0..<0 + length bs]) step ([] @ concat bs, iv) =
      rbind (chained f bs iv) (\<lambda>(bs', iv'). Inr ([] @ concat bs', iv'))"
    by (rule for_each_chained [where f = f]) (use assms in simp_all)
  then show ?thesis using assms(3) by (simp add: block_offsets_concat)
qed

lemma chained_append:
  "chained f (xs @ ys) iv =
     rbind (chained f xs iv) (\<lambda>(xs', iv'). rbind (chained f ys iv') (\<lambda>(ys', iv''). Inr (xs' @ ys', iv'')))"
  by (induction xs arbitrary: iv) (auto simp: rbind_def split: sum.splits prod.splits)

lemma chained_blocks:
  assumes "chained f bs iv = Inr (cs, iv')" and "\<forall>b \<in> set bs. is_block b"
    and "\<And>b iv b' iv'. is_block b \<Longrightarrow> f b iv = Inr (b', iv') \<Longrightarrow> is_block b'"
  shows "(\<forall>c \<in> set cs. is_block c) \<and> length cs = length bs"
  using assms(1,2)
proof (induction bs arbitrary: iv cs)
  case Nil
  then show ?case by simp
next
  case (Cons b bs)
  then show ?case using assms(3) by (auto simp: rbind_eq_Inr)
qed

lemma xor_iv_ok:
  assumes "is_block b" and "16 \<le> length iv"
  shows "xor_iv iv b = Inr (map (\<lambda>i. b ! i XOR iv ! i) [0..<16])"
proof -
  have "xor_iv iv b = Inr (map (\<lambda>i. b ! i XOR iv ! i) [0..<16] @ drop 16 b)"
    unfolding xor_iv_def block_size_16 using assms by (intro update_each_ok) auto
  with assms(1) show ?thesis by simp
qed

lemma xor_iv_short:
  assumes "is_block b" and "length iv < 16"
  shows "xor_iv iv b = Inl IndexError"
  unfolding xor_iv_def block_size_16 using assms
  by (intro update_each_raises [where k = "length iv" and h = "\<lambda>i. b ! i XOR iv ! i"])
    (auto simp: lget_def)

lemma xor_iv_twice:
  "is_block b \<Longrightarrow> map (\<lambda>i. map (\<lambda>i. b ! i XOR iv ! i) [0..<16] ! i XOR iv ! i) [0..<16] = b"
  by (intro nth_equalityI) (simp_all add: xor.assoc)

section \<open>The loops of the two modes, block by block\<close>

definition ecb_block :: "(byte list \<Rightarrow> byte list result) \<Rightarrow> byte list \<Rightarrow> unit \<Rightarrow> (byte list \<times> unit) result" where
  "ecb_block f b u = rbind (f b) (\<lambda>b'. Inr (b', ()))"

text \<open>One block of CBC as the textbook writes it: \<open>C = E(P xor C')\<close>, \<open>P = D(C) xor C'\<close>.\<close>

definition cbc_enc_block ::
    "(byte list \<Rightarrow> byte list result) \<Rightarrow> byte list \<Rightarrow> byte list \<Rightarrow> (byte list \<times> byte list) result" where
  "cbc_enc_block encrypt b iv = rbind (xor_iv iv b) (\<lambda>x. rbind (encrypt x) (\<lambda>c. Inr (c, c)))"

definition cbc_dec_block ::
    "(byte list \<Rightarrow> byte list result) \<Rightarrow> byte list \<Rightarrow> byte list \<Rightarrow> (byte list \<times> byte list) result" where
  "cbc_dec_block decrypt b iv = rbind (decrypt b) (\<lambda>x. rbind (xor_iv iv x) (\<lambda>p. Inr (p, b)))"

lemma ecb_blocks:
  assumes "\<forall>b \<in> set bs. is_block b"
    and out: "\<And>b c. is_block b \<Longrightarrow> f b = Inr c \<Longrightarrow> is_block c"
  shows "ecb f (concat bs) = rbind (chained (ecb_block f) bs ()) (\<lambda>(cs, u). Inr (concat cs))"
proof -
  let ?step = "\<lambda>k (data, u :: unit). rbind (ecb_step f k data) (\<lambda>data. Inr (data, ()))"
  let ?offs = "block_offsets (length (concat bs))"
  have "for_each ?offs ?step (concat bs, ()) =
      rbind (for_each ?offs (ecb_step f) (concat bs)) (\<lambda>data. Inr (data, ()))"
    by (rule for_each_sim) simp
  moreover have "for_each ?offs ?step (concat bs, ()) =
      rbind (chained (ecb_block f) bs ()) (\<lambda>(cs, u). Inr (concat cs, u))"
  proof (rule for_each_data [OF _ _ assms(1)])
    fix k u and pre b post :: "byte list"
    assume "length pre = k * 16" "is_block b"
    then show "?step (k * 16) (pre @ b @ post, u) =
        rbind (ecb_block f b u) (\<lambda>(b', iv'). Inr (pre @ b' @ post, iv'))"
      by (simp add: ecb_step_def ecb_block_def get_put_block rbind_assoc)
  next
    fix b u b' u' assume "is_block b" "ecb_block f b u = Inr (b', u')"
    then show "is_block b'" using out by (auto simp: ecb_block_def rbind_eq_Inr)
  qed
  ultimately have "for_each ?offs (ecb_step f) (concat bs) =
      rbind (chained (ecb_block f) bs ()) (\<lambda>(cs, u). Inr (concat cs))"
    by (cases "for_each ?offs (ecb_step f) (concat bs)"; cases "chained (ecb_block f) bs ()") auto
  with assms(1) show ?thesis by (simp add: ecb_def length_concat_blocks)
qed

lemma cbc_encrypt_blocks:
  assumes "\<forall>b \<in> set bs. is_block b"
    and out: "\<And>b iv c iv'. is_block b \<Longrightarrow> cbc_enc_block encrypt b iv = Inr (c, iv') \<Longrightarrow> is_block c"
  shows "cbc_run (cbc_encrypt_step encrypt) iv (concat bs) =
    rbind (chained (cbc_enc_block encrypt) bs iv) (\<lambda>(cs, iv'). Inr (concat cs, iv'))"
proof -
  have "for_each (block_offsets (length (concat bs))) (cbc_encrypt_step encrypt) (concat bs, iv) =
      rbind (chained (cbc_enc_block encrypt) bs iv) (\<lambda>(cs, iv'). Inr (concat cs, iv'))"
  proof (rule for_each_data [OF _ out assms(1)])
    fix k and pre b post iv :: "byte list"
    assume "length pre = k * 16" "is_block b"
    then show "cbc_encrypt_step encrypt (k * 16) (pre @ b @ post, iv) =
        rbind (cbc_enc_block encrypt b iv) (\<lambda>(b', iv'). Inr (pre @ b' @ post, iv'))"
      by (simp add: cbc_encrypt_step_def cbc_enc_block_def get_put_block rbind_assoc)
  qed
  with assms(1) show ?thesis by (simp add: cbc_run_def length_concat_blocks)
qed

lemma cbc_decrypt_blocks:
  assumes "\<forall>b \<in> set bs. is_block b"
    and out: "\<And>b iv c iv'. is_block b \<Longrightarrow> cbc_dec_block decrypt b iv = Inr (c, iv') \<Longrightarrow> is_block c"
  shows "cbc_run (cbc_decrypt_step decrypt) iv (concat bs) =
    rbind (chained (cbc_dec_block decrypt) bs iv) (\<lambda>(cs, iv'). Inr (concat cs, iv'))"
proof -
  have "for_each (block_offsets (length (concat bs))) (cbc_decrypt_step decrypt) (concat bs, iv) =
      rbind (chained (cbc_dec_block decrypt) bs iv) (\<lambda>(cs, iv'). Inr (concat cs, iv'))"
  proof (rule for_each_data [OF _ out assms(1)])
    fix k and pre b post iv :: "byte list"
    assume "length pre = k * 16" "is_block b"
    then show "cbc_decrypt_step decrypt (k * 16) (pre @ b @ post, iv) =
        rbind (cbc_dec_block decrypt b iv) (\<lambda>(b', iv'). Inr (pre @ b' @ post, iv'))"
      by (simp add: cbc_decrypt_step_def cbc_dec_block_def get_put_block rbind_assoc Let_def)
  qed
  with assms(1) show ?thesis by (simp add: cbc_run_def length_concat_blocks)
qed

section \<open>What the modes need of a cipher\<close>

text \<open>
  The interface: a set of usable keys and two block functions, of which the second undoes the
  first on every block. That the first also undoes the second follows, blocks being finitely
  many.
\<close>

locale block_cipher =
  fixes usable :: "'k \<Rightarrow> bool"
    and enc :: "'k \<Rightarrow> byte list \<Rightarrow> byte list result"
    and dec :: "'k \<Rightarrow> byte list \<Rightarrow> byte list result"
  assumes dec_enc: "usable k \<Longrightarrow> undoes is_block (enc k) (dec k)"
begin

lemma enc_dec:
  assumes "usable k"
  shows "undoes is_block (dec k) (enc k)"
proof (rule undoes_sym [OF _ dec_enc [OF assms]])
  show "finite {b :: byte list. is_block b}"
    using finite_lists_length_eq [of "UNIV :: byte set" 16] by simp
qed

lemma enc_block:
  assumes "usable k" and "is_block b"
  obtains c where "enc k b = Inr c" "is_block c" "dec k c = Inr b"
  using undoesE [OF dec_enc [OF assms(1)] assms(2)] .

lemma dec_block:
  assumes "usable k" and "is_block b"
  obtains c where "dec k b = Inr c" "is_block c" "enc k c = Inr b"
  using undoesE [OF enc_dec [OF assms(1)] assms(2)] .

lemma enc_out: "usable k \<Longrightarrow> is_block b \<Longrightarrow> enc k b = Inr c \<Longrightarrow> is_block c"
  by (metis enc_block sum.inject(2))

lemma dec_out: "usable k \<Longrightarrow> is_block b \<Longrightarrow> dec k b = Inr c \<Longrightarrow> is_block c"
  by (metis dec_block sum.inject(2))

lemma cbc_enc_dec:
  assumes "usable k" and "is_block b" and "16 \<le> length iv"
  obtains c where "cbc_enc_block (enc k) b iv = Inr (c, c)" "is_block c"
    "cbc_dec_block (dec k) c iv = Inr (b, c)"
proof -
  have "is_block (map (\<lambda>i. b ! i XOR iv ! i) [0..<16])" by simp
  with assms(1) obtain c where "enc k (map (\<lambda>i. b ! i XOR iv ! i) [0..<16]) = Inr c" "is_block c"
    "dec k c = Inr (map (\<lambda>i. b ! i XOR iv ! i) [0..<16])" by (rule enc_block)
  with assms that show ?thesis
    by (simp add: cbc_enc_block_def cbc_dec_block_def xor_iv_ok xor_iv_twice)
qed

lemma cbc_enc_out:
  assumes "usable k" and "is_block b" and "cbc_enc_block (enc k) b iv = Inr (c, iv')"
  shows "is_block c"
proof (cases "16 \<le> length iv")
  case True
  with assms(1,2) obtain c' where "cbc_enc_block (enc k) b iv = Inr (c', c')" "is_block c'"
    by (rule cbc_enc_dec)
  with assms(3) show ?thesis by simp
next
  case False
  with assms show ?thesis by (simp add: cbc_enc_block_def xor_iv_short)
qed

lemma cbc_dec_out:
  assumes "usable k" and "is_block b" and "cbc_dec_block (dec k) b iv = Inr (p, iv')"
  shows "is_block p"
proof -
  from assms(1,2) obtain x where "dec k b = Inr x" "is_block x" by (rule dec_block)
  with assms(3) show ?thesis
    by (cases "16 \<le> length iv") (auto simp: cbc_dec_block_def xor_iv_ok xor_iv_short)
qed

lemma ecb_chain:
  assumes "usable k" and "\<forall>b \<in> set bs. is_block b"
  shows "\<exists>cs. chained (ecb_block (enc k)) bs () = Inr (cs, ()) \<and>
    chained (ecb_block (dec k)) cs () = Inr (bs, ()) \<and>
    (\<forall>c \<in> set cs. is_block c) \<and> length cs = length bs"
  using assms(2)
proof (induction bs)
  case Nil
  then show ?case by simp
next
  case (Cons b bs)
  then obtain cs where cs: "chained (ecb_block (enc k)) bs () = Inr (cs, ())"
    "chained (ecb_block (dec k)) cs () = Inr (bs, ())" "\<forall>c \<in> set cs. is_block c" "length cs = length bs"
    by auto
  obtain c where "enc k b = Inr c" "is_block c" "dec k c = Inr b"
    using enc_block [OF assms(1), of b] Cons.prems by auto
  then have "ecb_block (enc k) b () = Inr (c, ())" "ecb_block (dec k) c () = Inr (b, ())" "is_block c"
    by (simp_all add: ecb_block_def)
  with cs show ?case
    by (intro exI [of _ "c # cs"]) simp
qed

text \<open>Decrypting a chain gets back the blocks and ends with the same chaining value.\<close>

lemma cbc_chain:
  assumes "usable k" and "\<forall>b \<in> set bs. is_block b" and "16 \<le> length iv"
  shows "\<exists>cs iv'. chained (cbc_enc_block (enc k)) bs iv = Inr (cs, iv') \<and>
    chained (cbc_dec_block (dec k)) cs iv = Inr (bs, iv') \<and>
    (\<forall>c \<in> set cs. is_block c) \<and> length cs = length bs"
  using assms(2,3)
proof (induction bs arbitrary: iv)
  case Nil
  then show ?case by simp
next
  case (Cons b bs)
  then obtain c where c: "cbc_enc_block (enc k) b iv = Inr (c, c)" "is_block c"
    "cbc_dec_block (dec k) c iv = Inr (b, c)"
    using cbc_enc_dec [OF assms(1), of b iv] by auto
  then obtain cs iv' where "chained (cbc_enc_block (enc k)) bs c = Inr (cs, iv')"
    "chained (cbc_dec_block (dec k)) cs c = Inr (bs, iv')"
    "\<forall>c \<in> set cs. is_block c" "length cs = length bs"
    using Cons.IH [of c] Cons.prems by auto
  with c show ?case
    by (intro exI [of _ "c # cs"]) simp
qed

text \<open>The round trips of the two modes.\<close>

lemma ecb_roundtrip:
  assumes "usable k" and "length data mod 16 = 0"
  shows "\<exists>out. ecb (enc k) data = Inr out \<and> length out = length data \<and> ecb (dec k) out = Inr data"
proof -
  obtain bs where bs: "data = concat bs" "\<forall>b \<in> set bs. is_block b"
    using assms(2) by (rule split_blocks)
  obtain cs where cs: "chained (ecb_block (enc k)) bs () = Inr (cs, ())"
    "chained (ecb_block (dec k)) cs () = Inr (bs, ())" "\<forall>c \<in> set cs. is_block c" "length cs = length bs"
    using ecb_chain [OF assms(1) bs(2)] by blast
  have "ecb (enc k) data = Inr (concat cs)" "ecb (dec k) (concat cs) = Inr data"
    using ecb_blocks [OF bs(2) enc_out [OF assms(1)]] ecb_blocks [OF cs(3) dec_out [OF assms(1)]]
    by (simp_all add: bs(1) cs)
  moreover have "length (concat cs) = length data"
    using bs cs by (simp add: length_concat_blocks)
  ultimately show ?thesis by blast
qed

lemma cbc_roundtrip:
  assumes "usable k" and "length data mod 16 = 0" and "16 \<le> length iv"
  shows "\<exists>out iv'. cbc_run (cbc_encrypt_step (enc k)) iv data = Inr (out, iv') \<and>
    length out = length data \<and> cbc_run (cbc_decrypt_step (dec k)) iv out = Inr (data, iv')"
proof -
  obtain bs where bs: "data = concat bs" "\<forall>b \<in> set bs. is_block b"
    using assms(2) by (rule split_blocks)
  obtain cs iv' where cs: "chained (cbc_enc_block (enc k)) bs iv = Inr (cs, iv')"
    "chained (cbc_dec_block (dec k)) cs iv = Inr (bs, iv')"
    "\<forall>c \<in> set cs. is_block c" "length cs = length bs"
    using cbc_chain [OF assms(1) bs(2) assms(3)] by blast
  have "cbc_run (cbc_encrypt_step (enc k)) iv data = Inr (concat cs, iv')"
    using cbc_encrypt_blocks [OF bs(2) cbc_enc_out [OF assms(1)]] by (simp add: bs(1) cs)
  moreover have "cbc_run (cbc_decrypt_step (dec k)) iv (concat cs) = Inr (data, iv')"
    using cbc_decrypt_blocks [OF cs(3) cbc_dec_out [OF assms(1)]] by (simp add: bs(1) cs)
  moreover have "length (concat cs) = length data"
    using bs cs by (simp add: length_concat_blocks)
  ultimately show ?thesis by blast
qed

text \<open>Successive calls continue the chain: two messages in two calls, or both in one.\<close>

lemma cbc_continue:
  assumes "usable k" and "length x mod 16 = 0" and "length y mod 16 = 0"
  shows "cbc_run (cbc_encrypt_step (enc k)) iv (x @ y) =
    rbind (cbc_run (cbc_encrypt_step (enc k)) iv x) (\<lambda>(x', iv').
      rbind (cbc_run (cbc_encrypt_step (enc k)) iv' y) (\<lambda>(y', iv''). Inr (x' @ y', iv'')))"
proof -
  obtain xs where xs: "x = concat xs" "\<forall>b \<in> set xs. is_block b"
    using assms(2) by (rule split_blocks)
  obtain ys where ys: "y = concat ys" "\<forall>b \<in> set ys. is_block b"
    using assms(3) by (rule split_blocks)
  note blocks = cbc_encrypt_blocks [OF _ cbc_enc_out [OF assms(1)]]
  have "cbc_run (cbc_encrypt_step (enc k)) iv (concat (xs @ ys)) =
      rbind (chained (cbc_enc_block (enc k)) (xs @ ys) iv) (\<lambda>(cs, iv'). Inr (concat cs, iv'))"
    using xs ys by (intro blocks) auto
  with xs ys show ?thesis
    by (auto simp: blocks chained_append rbind_def split: sum.splits)
qed

lemma cbc_short_iv:
  assumes "usable k" and "length data mod 16 = 0" and "data \<noteq> []" and "length iv < 16"
  shows "cbc_run (cbc_encrypt_step (enc k)) iv data = Inl IndexError"
proof -
  obtain bs where bs: "data = concat bs" "\<forall>b \<in> set bs. is_block b"
    using assms(2) by (rule split_blocks)
  with assms(3) obtain b bs' where "bs = b # bs'" by (cases bs) auto
  with bs assms(4) show ?thesis
    using cbc_encrypt_blocks [OF bs(2) cbc_enc_out [OF assms(1)], where iv = iv]
    by (simp add: cbc_enc_block_def xor_iv_short)
qed

end

section \<open>The AES block functions are such a cipher\<close>

definition keyed :: "aes \<Rightarrow> bool" where
  "keyed c \<longleftrightarrow> setkey (aes_key c) = Inr c"

lemma setkey_keyed: "setkey key = Inr c \<Longrightarrow> keyed c"
proof -
  assume c: "setkey key = Inr c"
  then have "length key \<in> {16, 24, 32}" using setkey_error by fastforce
  with c have "aes_key c = key" using setkey_fips by fastforce
  with c show "keyed c" by (simp add: keyed_def)
qed

interpretation aes: block_cipher keyed encrypt_block decrypt_block
proof unfold_locales
  fix c assume "keyed c"
  then show "undoes is_block (encrypt_block c) (decrypt_block c)"
    by (intro encrypt_block_undoes) (simp add: keyed_def length_exkey)
qed

section \<open>Properties\<close>

text \<open>
  For every key of 16, 24 or 32 bytes and every block of 16 bytes, encryption succeeds with
  a block, and decrypting that block gives the plaintext back.
\<close>

theorem aes_block_roundtrip:
  assumes "length key \<in> {16, 24, 32}" and "length block = 16"
  shows "\<exists>c ctext. setkey key = Inr c \<and> encrypt_block c block = Inr ctext \<and>
    length ctext = 16 \<and> decrypt_block c ctext = Inr block"
proof -
  obtain c where c: "setkey key = Inr c" using setkey_fips [OF assms(1)] by blast
  with aes.enc_block [OF setkey_keyed [OF c], of block] assms(2) show ?thesis by auto
qed

theorem aes_block_roundtrip_witness:
  "\<exists>c ctext. setkey (replicate 24 7) = Inr c \<and> encrypt_block c (replicate 16 1) = Inr ctext \<and>
    length ctext = 16 \<and> decrypt_block c ctext = Inr (replicate 16 1)"
  using aes_block_roundtrip [of "replicate 24 7" "replicate 16 1"] by simp

text \<open>
  C3: \<open>setkey\<close> accepts exactly the keys of 16, 24 and 32 bytes, and then the expanded key is the
  key schedule of FIPS 197 (\<open>fips_word\<close>, the recurrence of its section 5.2) with 10, 12 or 14
  rounds; any other length is a \<open>ValueError\<close>.
\<close>

theorem aes_setkey_fips:
  "setkey key =
    (if length key \<in> {16, 24, 32}
     then Inr \<lparr>aes_key = key, aes_key_size = length key, aes_rounds = length key div 4 + 6,
            aes_exkey = concat (map (fips_word key (length key div 4)) [0..<4 * (length key div 4 + 7)])\<rparr>
     else Inl ValueError)"
  using setkey_fips setkey_error by simp

text \<open>
  C2: an object made by \<open>new\<close>, in either mode, encrypts data of whole blocks to data of the
  same length, and an object freshly made with the same key and IV decrypts it back. In CBC mode
  the two objects end with the same chaining value.
\<close>

theorem aes_mode_roundtrip:
  assumes "length key \<in> {16, 24, 32}" and "length data mod 16 = 0"
    and "mode = MODE_ECB \<or> mode = MODE_CBC \<and> (\<exists>iv. IV = Some iv \<and> 16 \<le> length iv)"
  shows "\<exists>obj out obj'. new key mode IV = Inr obj \<and> cipher_encrypt obj data = Inr (out, obj') \<and>
    length out = length data \<and> cipher_decrypt obj out = Inr (data, obj')"
proof -
  obtain c where c: "setkey key = Inr c" using setkey_fips [OF assms(1)] by blast
  then have k: "keyed c" by (rule setkey_keyed)
  show ?thesis
  proof (cases "mode = MODE_ECB")
    case True
    obtain out where "ecb (encrypt_block c) data = Inr out" "length out = length data"
      "ecb (decrypt_block c) out = Inr data"
      using aes.ecb_roundtrip [OF k assms(2)] by blast
    with True c show ?thesis by (simp add: new_def ecb_encrypt_def ecb_decrypt_def)
  next
    case False
    then obtain iv where iv: "mode = MODE_CBC" "IV = Some iv" "16 \<le> length iv" using assms(3) by blast
    obtain out iv' where "cbc_run (cbc_encrypt_step (encrypt_block c)) iv data = Inr (out, iv')"
      "length out = length data" "cbc_run (cbc_decrypt_step (decrypt_block c)) iv out = Inr (data, iv')"
      using aes.cbc_roundtrip [OF k assms(2) iv(3)] by blast
    with iv(1,2) c False show ?thesis by (simp add: new_def cbc_encrypt_def cbc_decrypt_def)
  qed
qed

theorem aes_mode_roundtrip_witness:
  "\<exists>obj out obj'. new (replicate 16 3) MODE_CBC (Some (replicate 16 5)) = Inr obj \<and>
    cipher_encrypt obj (replicate 32 9) = Inr (out, obj') \<and> length out = 32 \<and>
    cipher_decrypt obj out = Inr (replicate 32 9, obj')"
  using aes_mode_roundtrip [of "replicate 16 3" "replicate 32 9" MODE_CBC "Some (replicate 16 5)"] by simp

text \<open>
  The \<open>IV\<close> attribute carries the chain from one call to the next: encrypting two pieces of
  whole blocks in two successive calls gives the pieces of what one call on the whole gives.
\<close>

theorem aes_cbc_continues:
  assumes "setkey key = Inr c" and "length x mod 16 = 0" and "length y mod 16 = 0"
  shows "cbc_encrypt c iv (x @ y) =
    rbind (cbc_encrypt c iv x) (\<lambda>(x', iv'). rbind (cbc_encrypt c iv' y) (\<lambda>(y', iv''). Inr (x' @ y', iv'')))"
  unfolding cbc_encrypt_def by (rule aes.cbc_continue [OF setkey_keyed [OF assms(1)] assms(2,3)])

theorem aes_cbc_continues_witness:
  "\<exists>c. setkey (replicate 32 0) = Inr c \<and>
    cbc_encrypt c (replicate 16 1) (replicate 16 2 @ replicate 16 3) =
    rbind (cbc_encrypt c (replicate 16 1) (replicate 16 2)) (\<lambda>(x', iv').
      rbind (cbc_encrypt c iv' (replicate 16 3)) (\<lambda>(y', iv''). Inr (x' @ y', iv'')))"
  using aes_cbc_continues [of "replicate 32 0" _ "replicate 16 2" "replicate 16 3"]
    setkey_fips [of "replicate 32 0"] by fastforce

text \<open>
  C10: the error paths. A mode that is neither of the two raises \<open>NotImplementedError\<close> before
  the key is looked at, CBC without an IV raises \<open>ValueError\<close>, as do a key of another length and
  data that is not made of whole blocks; the length of the IV is nowhere checked, and an IV
  shorter than a block raises \<open>IndexError\<close> when the first block is encrypted.
\<close>

theorem aes_errors:
  "(mode \<notin> {MODE_ECB, MODE_CBC} \<longrightarrow> new key mode IV = Inl NotImplementedError) \<and>
   new key MODE_CBC None = Inl ValueError \<and>
   (length key \<notin> {16, 24, 32} \<longrightarrow> new key MODE_ECB IV = Inl ValueError) \<and>
   (length data mod 16 \<noteq> 0 \<longrightarrow> cipher_encrypt obj data = Inl ValueError \<and>
      cipher_decrypt obj data = Inl ValueError) \<and>
   (setkey key = Inr c \<longrightarrow> data \<noteq> [] \<longrightarrow> length data mod 16 = 0 \<longrightarrow> length iv < 16 \<longrightarrow>
      cipher_encrypt (CBCMode c iv) data = Inl IndexError)"
  using aes.cbc_short_iv [OF setkey_keyed, of key c data iv] setkey_error [of key]
  by (cases obj) (auto simp: new_def MODE_ECB_def MODE_CBC_def ecb_encrypt_def ecb_decrypt_def ecb_def
      cbc_encrypt_def cbc_decrypt_def cbc_run_def)

theorem aes_errors_witness:
  "new (replicate 16 0) 6 None = Inl NotImplementedError \<and>
   new (replicate 16 0) MODE_CBC None = Inl ValueError \<and> new (replicate 15 0) MODE_ECB None = Inl ValueError \<and>
   (\<exists>c. setkey (replicate 16 0) = Inr c \<and> cipher_encrypt (ECBMode c) [1] = Inl ValueError \<and>
     cipher_encrypt (CBCMode c []) (replicate 16 0) = Inl IndexError)"
proof -
  obtain c where c: "setkey (replicate 16 0) = Inr c" using setkey_fips [of "replicate 16 0"] by auto
  note e = aes_errors [where c = c]
  have "new (replicate 16 0) 6 None = Inl NotImplementedError"
    using e [where mode = 6 and key = "replicate 16 0"] by (auto simp: MODE_ECB_def MODE_CBC_def)
  moreover have "new (replicate 16 0) MODE_CBC None = Inl ValueError"
    using e [where key = "replicate 16 0"] by blast
  moreover have "new (replicate 15 0) MODE_ECB None = Inl ValueError"
    using e [where key = "replicate 15 0"] by auto
  moreover have "cipher_encrypt (ECBMode c) [1] = Inl ValueError"
    using e [where data = "[1]" and obj = "ECBMode c"] by auto
  moreover have "cipher_encrypt (CBCMode c []) (replicate 16 0) = Inl IndexError"
    using e [where key = "replicate 16 0" and data = "replicate 16 0" and iv = "[]"] c by auto
  ultimately show ?thesis using c by blast
qed

text \<open>
  C11: \<open>galois_multiply\<close> is the multiplication of the field of 256 elements as FIPS 197 defines it (the sum of the
  \<open>xtime\<close> multiples that the bits of the second factor select), and its result is a byte.
\<close>

theorem galois_multiply_product:
  assumes "y < 256"
  shows "of_nat (galois_multiply x y) = gf_product (of_nat x) y 8 \<and> galois_multiply x y < 256"
  using assms of_nat_galois_multiply [of x y] gf_word_product [of y 8 0 "of_nat x"] galois_multiply_less
  by simp

theorem galois_multiply_product_witness:
  "(of_nat (galois_multiply 0x57 0x13) :: byte) = gf_product 0x57 0x13 8 \<and> galois_multiply 0x57 0x13 < 256"
  using galois_multiply_product [of "0x13" "0x57"] by simp

end
