(* ===== verification/Bitstream.thy ===== *)
theory Bitstream
  imports PyPrelude
begin

unbundle bit_operations_syntax

text \<open>
  The bit readers of \<^verbatim>\<open>own/pyflate-fast.py\<close>: \<open>BitfieldBase\<close> with its two subclasses,
  \<open>Bitfield\<close> (least significant bit first, for gzip) and \<open>RBitfield\<close> (most significant bit
  first, for bzip2). A reader holds the unread bytes of its file, the number of buffered bits
  and the buffer, a Python integer. The lemmas show that both refine one abstract reader: a
  list of bits from which \<open>snoopbits\<close> reads without and \<open>readbits\<close> with consumption. That
  contract is the locale \<open>bit_source\<close>, interpreted on both classes.

  A \<open>raise "..."\<close> of the source raises a string, which Python answers with \<open>TypeError\<close>.
\<close>

datatype bitclass = Bitfield | RBitfield

record field =
  bf_class :: bitclass
  bf_f :: "nat list"
  bf_bits :: nat
  bf_bitfield :: int
  bf_count :: int

section \<open>The operations\<close>

definition new_field :: "bitclass \<Rightarrow> nat list \<Rightarrow> field" where
  "new_field cls f = \<lparr>bf_class = cls, bf_f = f, bf_bits = 0, bf_bitfield = 0, bf_count = 0\<rparr>"

text \<open>Built from another reader; \<open>count\<close> is set from \<open>x.bitfield\<close>, as in the source.\<close>

definition copy_field :: "bitclass \<Rightarrow> field \<Rightarrow> field" where
  "copy_field cls x = \<lparr>bf_class = cls, bf_f = bf_f x, bf_bits = bf_bits x,
     bf_bitfield = bf_bitfield x, bf_count = bf_bitfield x\<rparr>"

definition read_byte :: "field \<Rightarrow> (nat \<times> field) result" where
  "read_byte s = (case bf_f s of
      [] \<Rightarrow> Inl TypeError
    | c # f \<Rightarrow> Inr (c, s\<lparr>bf_f := f, bf_count := bf_count s + 1\<rparr>))"

definition more :: "field \<Rightarrow> field result" where
  "more s = rbind (read_byte s) (\<lambda>(c, s). Inr (case bf_class s of
      Bitfield \<Rightarrow> s\<lparr>bf_bitfield := bf_bitfield s + push_bit (bf_bits s) (int c),
                   bf_bits := bf_bits s + 8\<rparr>
    | RBitfield \<Rightarrow> s\<lparr>bf_bitfield := push_bit 8 (bf_bitfield s) + int c,
                    bf_bits := bf_bits s + 8\<rparr>))"

lemma more_shrinks: "more s = Inr s' \<Longrightarrow> length (bf_f s') < length (bf_f s)"
  by (auto simp: more_def read_byte_def rbind_eq_Inr split: list.splits bitclass.splits)

function needbits :: "int \<Rightarrow> field \<Rightarrow> field result" where
  "needbits n s = (if int (bf_bits s) < n then rbind (more s) (needbits n) else Inr s)"
  by pat_completeness auto
termination
  by (relation "measure (\<lambda>(n, s). length (bf_f s))") (auto dest: more_shrinks)

declare needbits.simps [simp del]

text \<open>\<open>_mask(n)\<close>: shifting by a negative count raises \<open>ValueError\<close>.\<close>

definition mask_bits :: "int \<Rightarrow> int result" where
  "mask_bits n = (if n < 0 then Inl ValueError else Inr (push_bit (nat n) 1 - 1))"

definition snoopbits :: "int \<Rightarrow> field \<Rightarrow> (int \<times> field) result" where
  "snoopbits n s =
     rbind (if int (bf_bits s) < n then needbits n s else Inr s) (\<lambda>s.
     rbind (mask_bits n) (\<lambda>m. Inr (case bf_class s of
        Bitfield \<Rightarrow> (bf_bitfield s AND m, s)
      | RBitfield \<Rightarrow> (drop_bit (bf_bits s - nat n) (bf_bitfield s) AND m, s))))"

definition readbits :: "int \<Rightarrow> field \<Rightarrow> (int \<times> field) result" where
  "readbits n s =
     rbind (if int (bf_bits s) < n then needbits n s else Inr s) (\<lambda>s.
     rbind (mask_bits n) (\<lambda>m. Inr (case bf_class s of
        Bitfield \<Rightarrow> (bf_bitfield s AND m,
          s\<lparr>bf_bits := bf_bits s - nat n, bf_bitfield := drop_bit (nat n) (bf_bitfield s)\<rparr>)
      | RBitfield \<Rightarrow> (drop_bit (bf_bits s - nat n) (bf_bitfield s) AND m,
          s\<lparr>bf_bits := bf_bits s - nat n,
            bf_bitfield := bf_bitfield s AND NOT (push_bit (bf_bits s - nat n) m)\<rparr>))))"

definition toskip :: "field \<Rightarrow> int" where
  "toskip s = int (bf_bits s) AND 0x7"

definition align :: "field \<Rightarrow> field result" where
  "align s = rbind (readbits (toskip s) s) (\<lambda>(_, s). Inr s)"

text \<open>
  \<open>dropbits\<close>: the body of its loop calls \<open>self.f._read\<close>, which a file object does not have, so
  entering the loop raises \<open>AttributeError\<close>.
\<close>

definition dropbits :: "int \<Rightarrow> field \<Rightarrow> field result" where
  "dropbits n s =
     (if int (bf_bits s) \<le> n \<and> 7 < n then Inl AttributeError
      else if n \<noteq> 0 then rbind (readbits n s) (\<lambda>(_, s). Inr s)
      else Inr s)"

definition dropbytes :: "int \<Rightarrow> field \<Rightarrow> field result" where
  "dropbytes n s = dropbits (push_bit 3 n) s"

definition tell :: "field \<Rightarrow> int \<times> int" where
  "tell s = (bf_count s - drop_bit 3 (int (bf_bits s) + 7), 7 - ((int (bf_bits s) - 1) AND 0x7))"

definition tellbits :: "field \<Rightarrow> int" where
  "tellbits s = (let (bytes, bits) = tell s in push_bit 3 bytes + bits)"

section \<open>The bits still to be read\<close>

definition byte_bits :: "bitclass \<Rightarrow> nat \<Rightarrow> bool list" where
  "byte_bits cls c = (case cls of
      Bitfield \<Rightarrow> map (bit c) [0..<8]
    | RBitfield \<Rightarrow> map (bit c) (rev [0..<8]))"

definition stream :: "field \<Rightarrow> bool list" where
  "stream s =
     (case bf_class s of
        Bitfield \<Rightarrow> map (bit (bf_bitfield s)) [0..<bf_bits s]
      | RBitfield \<Rightarrow> map (bit (bf_bitfield s)) (rev [0..<bf_bits s])) @
     concat (map (byte_bits (bf_class s)) (bf_f s))"

definition wf_field :: "field \<Rightarrow> bool" where
  "wf_field s \<longleftrightarrow> take_bit (bf_bits s) (bf_bitfield s) = bf_bitfield s \<and> (\<forall>c \<in> set (bf_f s). c < 256)"

text \<open>The number a run of bits stands for, first bit least or most significant.\<close>

definition bits_value :: "bitclass \<Rightarrow> bool list \<Rightarrow> int" where
  "bits_value cls bs = (case cls of
      Bitfield \<Rightarrow> horner_sum of_bool 2 bs
    | RBitfield \<Rightarrow> horner_sum of_bool 2 (rev bs))"

definition bits_left :: "field \<Rightarrow> nat" where
  "bits_left s = bf_bits s + 8 * length (bf_f s)"

lemma length_byte_bits [simp]: "length (byte_bits cls c) = 8"
  by (simp add: byte_bits_def split: bitclass.split)

lemma length_stream: "length (stream s) = bits_left s"
proof -
  have "length (concat (map (byte_bits cls) f)) = 8 * length f" for cls f
    by (induction f) simp_all
  then show ?thesis by (simp add: stream_def bits_left_def split: bitclass.split)
qed

section \<open>Buffering another byte does not change the stream\<close>

lemma take_bit_id_iff: "take_bit n x = x \<longleftrightarrow> (\<forall>i \<ge> n. \<not> bit (x :: int) i)"
proof
  assume "take_bit n x = x"
  then show "\<forall>i \<ge> n. \<not> bit x i" by (metis bit_take_bit_iff not_less)
next
  assume "\<forall>i \<ge> n. \<not> bit x i"
  then show "take_bit n x = x" by (intro bit_eqI) (auto simp: bit_simps simp flip: not_le)
qed

lemma add_push_bit:
  assumes "take_bit n x = (x :: int)"
  shows "x + push_bit n y = x OR push_bit n y"
proof (rule disjunctive_add)
  fix i show "\<not> bit x i \<or> \<not> bit (push_bit n y) i"
    using assms by (auto simp: take_bit_id_iff bit_simps)
qed

lemma push_bit_add:
  assumes "take_bit n y = (y :: int)"
  shows "push_bit n x + y = push_bit n x OR y"
  using add_push_bit [OF assms, of x] by (simp add: ac_simps)

lemma byte_take_bit: "c < 256 \<Longrightarrow> take_bit 8 (int c) = int c"
  by (simp add: take_bit_int_eq_self_iff)

lemma bit_int_nat: "bit (int c) i = bit c i"
  by (simp add: bit_of_nat_iff_bit)

lemma map_bit_shift: "map f [n..<n + k] = map (\<lambda>i. f (n + i)) [0..<k]"
  by (induction k) simp_all

lemma map_bit_shift_rev: "map f (rev [n..<n + k]) = map (\<lambda>i. f (n + i)) (rev [0..<k])"
  by (induction k) simp_all

lemma more_ok:
  assumes wf: "wf_field s" and f: "bf_f s = c # f"
  shows "\<exists>s'. more s = Inr s' \<and> wf_field s' \<and> stream s' = stream s \<and>
    bf_bits s' = bf_bits s + 8 \<and> bf_f s' = f \<and> bf_class s' = bf_class s"
proof -
  let ?n = "bf_bits s" and ?x = "bf_bitfield s"
  have x: "take_bit ?n ?x = ?x" and c: "c < 256" "\<forall>c \<in> set f. c < 256"
    using wf f by (auto simp: wf_field_def)
  then have x': "\<not> bit ?x i" if "?n \<le> i" for i using that by (auto simp: take_bit_id_iff)
  have c': "\<not> bit c i" if "8 \<le> i" for i
    using byte_take_bit [OF c(1)] that by (auto simp: take_bit_id_iff bit_int_nat)
  show ?thesis
  proof (cases "bf_class s")
    case Bitfield
    let ?y = "?x OR push_bit ?n (int c)"
    have "take_bit (?n + 8) ?y = ?y"
      unfolding take_bit_id_iff using x' c' by (auto simp: bit_simps bit_int_nat)
    moreover have "map (bit ?y) [0..<?n + 8] = map (bit ?x) [0..<?n] @ map (bit c) [0..<8]"
    proof -
      have "map (bit ?y) [0..<?n + 8] = map (bit ?y) [0..<?n] @ map (bit ?y) [?n..<?n + 8]"
        by (subst upt_add_eq_append) simp_all
      moreover have "map (bit ?y) [0..<?n] = map (bit ?x) [0..<?n]"
        by (auto simp: bit_simps)
      moreover have "map (bit ?y) [?n..<?n + 8] = map (bit c) [0..<8]"
        unfolding map_bit_shift using x' by (auto simp: bit_simps bit_int_nat)
      ultimately show ?thesis by simp
    qed
    ultimately show ?thesis
      using f c(2) Bitfield
      by (simp add: more_def read_byte_def add_push_bit [OF x] wf_field_def stream_def byte_bits_def)
  next
    case RBitfield
    let ?y = "push_bit 8 ?x OR int c"
    have "take_bit (?n + 8) ?y = ?y"
      unfolding take_bit_id_iff using x' c' by (auto simp: bit_simps bit_int_nat)
    moreover have "map (bit ?y) (rev [0..<?n + 8]) = map (bit ?x) (rev [0..<?n]) @ map (bit c) (rev [0..<8])"
    proof -
      have "[0..<?n + 8] = [0..<8] @ [8..<8 + ?n]"
        by (metis add.commute le0 upt_add_eq_append)
      then have "map (bit ?y) (rev [0..<?n + 8]) =
          map (bit ?y) (rev [8..<8 + ?n]) @ map (bit ?y) (rev [0..<8])"
        by (simp only: rev_append map_append)
      moreover have "map (bit ?y) (rev [8..<8 + ?n]) = map (bit ?x) (rev [0..<?n])"
        unfolding map_bit_shift_rev using c' by (auto simp: bit_simps bit_int_nat)
      moreover have "map (bit ?y) (rev [0..<8]) = map (bit c) (rev [0..<8])"
        by (auto simp: bit_simps bit_int_nat)
      ultimately show ?thesis by simp
    qed
    ultimately show ?thesis
      using f c(2) RBitfield
      by (simp add: more_def read_byte_def push_bit_add [OF byte_take_bit [OF c(1)]]
          wf_field_def stream_def byte_bits_def)
  qed
qed

lemma more_eof: "bf_f s = [] \<Longrightarrow> more s = Inl TypeError"
  by (simp add: more_def read_byte_def)

lemma needbits_ok:
  assumes "wf_field s" and "n \<le> int (bits_left s)"
  shows "\<exists>s'. needbits n s = Inr s' \<and> wf_field s' \<and> stream s' = stream s \<and>
    n \<le> int (bf_bits s') \<and> bf_class s' = bf_class s"
  using assms
proof (induction n s rule: needbits.induct)
  case (1 n s)
  show ?case
  proof (cases "int (bf_bits s) < n")
    case True
    with 1(3) obtain c f where f: "bf_f s = c # f"
      by (cases "bf_f s") (auto simp: bits_left_def)
    obtain s1 where s1: "more s = Inr s1" "wf_field s1" "stream s1 = stream s"
      "bf_bits s1 = bf_bits s + 8" "bf_f s1 = f" "bf_class s1 = bf_class s"
      using more_ok [OF 1(2) f] by blast
    moreover have "n \<le> int (bits_left s1)"
      using 1(3) f s1 by (simp add: bits_left_def)
    ultimately show ?thesis
      using 1(1) [OF True] True by (auto simp: needbits.simps [of n s])
  next
    case False
    with 1(2) show ?thesis by (simp add: needbits.simps [of n s])
  qed
qed

lemma needbits_eof:
  assumes "wf_field s" and "int (bits_left s) < n"
  shows "needbits n s = Inl TypeError"
  using assms
proof (induction n s rule: needbits.induct)
  case (1 n s)
  then have lt: "int (bf_bits s) < n" by (simp add: bits_left_def)
  show ?case
  proof (cases "bf_f s")
    case Nil
    with lt show ?thesis by (simp add: needbits.simps [of n s] more_eof)
  next
    case (Cons c f)
    obtain s1 where s1: "more s = Inr s1" "wf_field s1"
      "bf_bits s1 = bf_bits s + 8" "bf_f s1 = f"
      using more_ok [OF 1(2) Cons] by blast
    moreover have "int (bits_left s1) < n"
      using 1(3) Cons s1 by (simp add: bits_left_def)
    ultimately show ?thesis
      using 1(1) [OF lt] lt by (simp add: needbits.simps [of n s])
  qed
qed

text \<open>Bits are neither lost nor invented: the measure of every loop over a reader.\<close>

lemma more_left: "more s = Inr s' \<Longrightarrow> bits_left s' = bits_left s"
  by (auto simp: more_def read_byte_def rbind_eq_Inr bits_left_def split: list.splits bitclass.splits)

lemma needbits_left: "needbits n s = Inr s' \<Longrightarrow> bits_left s' = bits_left s \<and> n \<le> int (bf_bits s')"
proof (induction n s rule: needbits.induct)
  case (1 n s)
  then show ?case
    by (cases "int (bf_bits s) < n")
      (auto simp: needbits.simps [of n s] rbind_eq_Inr more_left)
qed

lemma refill_left:
  "(if int (bf_bits s) < n then needbits n s else Inr s) = Inr s1 \<Longrightarrow>
   bits_left s1 = bits_left s \<and> n \<le> int (bf_bits s1)"
  using needbits_left [of n s] by (auto split: if_splits)

lemma readbits_left:
  assumes "readbits n s = Inr (v, s')"
  shows "bits_left s' + nat n = bits_left s \<and> 0 \<le> n"
proof -
  obtain s1 m where "(if int (bf_bits s) < n then needbits n s else Inr s) = Inr s1"
    "mask_bits n = Inr m" "bf_f s' = bf_f s1" "bf_bits s' = bf_bits s1 - nat n"
    using assms by (auto simp: readbits_def rbind_eq_Inr split: bitclass.splits)
      (metis bitclass.exhaust)+
  with refill_left [of s n s1] show ?thesis
    by (auto simp: mask_bits_def bits_left_def split: if_splits)
qed

lemma readbits_nonneg: "readbits n s = Inr (v, s') \<Longrightarrow> 0 \<le> v"
proof -
  assume r: "readbits n s = Inr (v, s')"
  have "0 \<le> m" if "mask_bits n = Inr m" for m
    using that by (auto simp: mask_bits_def push_bit_eq_mult split: if_splits)
  with r show "0 \<le> v"
    by (auto simp: readbits_def rbind_eq_Inr and_nonnegative_int_iff split: bitclass.splits)
      (metis bitclass.exhaust)+
qed

lemma snoopbits_left:
  assumes "snoopbits n s = Inr (v, s')"
  shows "bits_left s' = bits_left s"
proof -
  have "(if int (bf_bits s) < n then needbits n s else Inr s) = Inr s'"
    using assms by (auto simp: snoopbits_def rbind_eq_Inr split: bitclass.splits)
      (metis bitclass.exhaust)+
  with refill_left [of s n s'] show ?thesis by simp
qed

section \<open>Reading from the buffer\<close>

lemma mask_bits_ok: "0 \<le> n \<Longrightarrow> mask_bits n = Inr (mask (nat n))"
  by (simp add: mask_bits_def mask_eq_exp_minus_1 push_bit_eq_mult)

lemma mask_bits_neg: "n < 0 \<Longrightarrow> mask_bits n = Inl ValueError"
  by (simp add: mask_bits_def)

lemma lsb_value:
  assumes "n \<le> m"
  shows "bits_value Bitfield (take n (map (bit x) [0..<m] @ r)) = take_bit n (x :: int)"
proof -
  have "take n (map (bit x) [0..<m] @ r) = map (bit x) [0..<n]"
    using assms by (simp add: take_map)
  then show ?thesis
    by (simp add: bits_value_def horner_sum_bit_eq_take_bit)
qed

lemma msb_value:
  assumes "n \<le> m"
  shows "bits_value RBitfield (take n (map (bit x) (rev [0..<m]) @ r)) =
    take_bit n (drop_bit (m - n) (x :: int))"
proof -
  have "rev (take n (rev [0..<m])) = [m - n..<m]"
    using assms by (simp add: take_rev)
  moreover have "map (bit x) [m - n..<m] = map (bit (drop_bit (m - n) x)) [0..<n]"
    using map_bit_shift [of "bit x" "m - n" n] assms by (simp add: bit_simps)
  ultimately show ?thesis
    using assms by (simp add: bits_value_def take_map rev_map horner_sum_bit_eq_take_bit)
qed

lemma stream_drop_lsb:
  assumes "n \<le> m"
  shows "drop n (map (bit x) [0..<m] @ r) = map (bit (drop_bit n x)) [0..<m - n] @ r"
  using map_bit_shift [of "bit x" n "m - n"] assms by (simp add: drop_map bit_simps)

lemma stream_drop_msb:
  fixes x :: int
  assumes "n \<le> m"
  shows "drop n (map (bit x) (rev [0..<m]) @ r) =
    map (bit (x AND NOT (push_bit (m - n) y))) (rev [0..<m - n]) @ r"
proof -
  have "drop n (rev [0..<m]) = rev [0..<m - n]"
    by (simp add: drop_rev)
  moreover have "map (bit x) (rev [0..<m - n]) =
      map (bit (x AND NOT (push_bit (m - n) y))) (rev [0..<m - n])"
    by (auto simp: bit_and_iff bit_not_iff bit_push_bit_iff)
  ultimately show ?thesis using assms by (simp add: drop_map)
qed

text \<open>\<open>snoopbits\<close> and \<open>readbits\<close> on a reader that has the bits buffered.\<close>

lemma buffered_value:
  assumes "nat n \<le> bf_bits s"
  shows "bits_value (bf_class s) (take (nat n) (stream s)) = (case bf_class s of
      Bitfield \<Rightarrow> bf_bitfield s AND mask (nat n)
    | RBitfield \<Rightarrow> drop_bit (bf_bits s - nat n) (bf_bitfield s) AND mask (nat n))"
  unfolding stream_def using lsb_value [OF assms] msb_value [OF assms]
  by (simp add: take_bit_eq_mask split: bitclass.split)

lemma snoop_buffered:
  assumes "0 \<le> n" and "n \<le> int (bf_bits s)"
  shows "snoopbits n s = Inr (bits_value (bf_class s) (take (nat n) (stream s)), s)"
  using assms buffered_value [of n s]
  by (simp add: snoopbits_def mask_bits_ok split: bitclass.split)

lemma read_buffered:
  assumes wf: "wf_field s" and n: "0 \<le> n" "n \<le> int (bf_bits s)"
  shows "\<exists>s'. readbits n s = Inr (bits_value (bf_class s) (take (nat n) (stream s)), s') \<and>
    wf_field s' \<and> stream s' = drop (nat n) (stream s) \<and> bf_class s' = bf_class s"
proof (cases "bf_class s")
  case Bitfield
  let ?s = "s\<lparr>bf_bits := bf_bits s - nat n, bf_bitfield := drop_bit (nat n) (bf_bitfield s)\<rparr>"
  have "readbits n s = Inr (bits_value (bf_class s) (take (nat n) (stream s)), ?s)"
    using n Bitfield buffered_value [of n s] by (simp add: readbits_def mask_bits_ok)
  moreover have "stream ?s = drop (nat n) (stream s)"
    using n Bitfield stream_drop_lsb [of "nat n" "bf_bits s" "bf_bitfield s"]
    by (simp add: stream_def)
  moreover have "wf_field ?s"
    using wf n by (auto simp: wf_field_def take_bit_id_iff bit_simps)
  ultimately show ?thesis using Bitfield by auto
next
  case RBitfield
  let ?m = "bf_bits s - nat n"
  let ?s = "s\<lparr>bf_bits := ?m, bf_bitfield := bf_bitfield s AND NOT (push_bit ?m (mask (nat n)))\<rparr>"
  have "readbits n s = Inr (bits_value (bf_class s) (take (nat n) (stream s)), ?s)"
    using n RBitfield buffered_value [of n s] by (simp add: readbits_def mask_bits_ok)
  moreover have "stream ?s = drop (nat n) (stream s)"
    using n RBitfield stream_drop_msb [of "nat n" "bf_bits s" "bf_bitfield s" _ "mask (nat n)"]
    by (simp add: stream_def)
  moreover have "wf_field ?s"
  proof -
    have x: "i < bf_bits s" if "bit (bf_bitfield s) i" for i
      using wf that by (auto simp: wf_field_def take_bit_id_iff simp flip: not_le)
    show ?thesis
      using wf unfolding wf_field_def take_bit_id_iff by (auto simp: bit_simps dest: x)
  qed
  ultimately show ?thesis using RBitfield by auto
qed

section \<open>Both classes read the same abstract stream\<close>

lemma refill:
  assumes "wf_field s" and "nat n \<le> length (stream s)"
  shows "\<exists>s'. (if int (bf_bits s) < n then needbits n s else Inr s) = Inr s' \<and> wf_field s' \<and>
    stream s' = stream s \<and> n \<le> int (bf_bits s') \<and> bf_class s' = bf_class s"
  using assms needbits_ok [of s n] by (auto simp: length_stream)

lemma snoop_spec:
  assumes "wf_field s" and "0 \<le> n" and "nat n \<le> length (stream s)"
  shows "\<exists>s'. snoopbits n s = Inr (bits_value (bf_class s) (take (nat n) (stream s)), s') \<and>
    wf_field s' \<and> stream s' = stream s \<and> bf_class s' = bf_class s"
proof -
  obtain s1 where s1: "(if int (bf_bits s) < n then needbits n s else Inr s) = Inr s1" "wf_field s1"
    "stream s1 = stream s" "n \<le> int (bf_bits s1)" "bf_class s1 = bf_class s"
    using refill [OF assms(1,3)] by blast
  moreover have "snoopbits n s = snoopbits n s1"
    using s1 by (simp add: snoopbits_def [of n s] snoopbits_def [of n s1])
  ultimately show ?thesis
    using snoop_buffered [OF assms(2) s1(4)] by auto
qed

lemma read_spec:
  assumes "wf_field s" and "0 \<le> n" and "nat n \<le> length (stream s)"
  shows "\<exists>s'. readbits n s = Inr (bits_value (bf_class s) (take (nat n) (stream s)), s') \<and>
    wf_field s' \<and> stream s' = drop (nat n) (stream s) \<and> bf_class s' = bf_class s"
proof -
  obtain s1 where s1: "(if int (bf_bits s) < n then needbits n s else Inr s) = Inr s1" "wf_field s1"
    "stream s1 = stream s" "n \<le> int (bf_bits s1)" "bf_class s1 = bf_class s"
    using refill [OF assms(1,3)] by blast
  moreover have "readbits n s = readbits n s1"
    using s1 by (simp add: readbits_def [of n s] readbits_def [of n s1])
  ultimately show ?thesis
    using read_buffered [OF s1(2) assms(2) s1(4)] by auto
qed

lemma read_eof:
  assumes "wf_field s" and "length (stream s) < nat n"
  shows "readbits n s = Inl TypeError" and "snoopbits n s = Inl TypeError"
proof -
  have "int (bits_left s) < n" "int (bf_bits s) < n"
    using assms(2) by (auto simp: length_stream bits_left_def)
  with needbits_eof [OF assms(1)] show "readbits n s = Inl TypeError" "snoopbits n s = Inl TypeError"
    by (simp_all add: readbits_def snoopbits_def)
qed

lemma read_neg: "n < 0 \<Longrightarrow> readbits n s = Inl ValueError"
  by (simp add: readbits_def mask_bits_neg)

section \<open>The contract of a bit reader\<close>

lemma bits_value_inj:
  assumes "length xs = length ys" and "bits_value cls xs = bits_value cls ys"
  shows "xs = ys"
proof -
  have inj: "us = vs" if len: "length us = length vs"
    and eq: "horner_sum of_bool 2 us = (horner_sum of_bool 2 vs :: int)" for us vs
  proof (rule nth_equalityI [OF len])
    fix i assume "i < length us"
    moreover have "bit (horner_sum of_bool 2 us :: int) i = bit (horner_sum of_bool 2 vs :: int) i"
      by (simp only: eq)
    ultimately show "us ! i = vs ! i"
      using len by (simp add: bit_horner_sum_bit_iff)
  qed
  show ?thesis
    using assms inj [of xs ys] inj [of "rev xs" "rev ys"]
    by (auto simp: bits_value_def split: bitclass.splits)
qed

text \<open>
  What the decoders rely on: a list of bits still to come, \<open>snoop\<close> that looks at the first \<open>n\<close>
  of them, \<open>read\<close> that consumes them, both failing when the bits run out, and a reading of a
  run of bits as a number that loses nothing.
\<close>

locale bit_source =
  fixes ok :: "'s \<Rightarrow> bool"
    and bits_of :: "'s \<Rightarrow> bool list"
    and number :: "bool list \<Rightarrow> int"
    and snoop :: "int \<Rightarrow> 's \<Rightarrow> (int \<times> 's) result"
    and read :: "int \<Rightarrow> 's \<Rightarrow> (int \<times> 's) result"
  assumes number_inj: "length xs = length ys \<Longrightarrow> number xs = number ys \<Longrightarrow> xs = ys"
    and snoop_ok: "ok s \<Longrightarrow> nat n \<le> length (bits_of s) \<Longrightarrow> 0 \<le> n \<Longrightarrow>
      \<exists>s'. snoop n s = Inr (number (take (nat n) (bits_of s)), s') \<and> ok s' \<and> bits_of s' = bits_of s"
    and read_ok: "ok s \<Longrightarrow> nat n \<le> length (bits_of s) \<Longrightarrow> 0 \<le> n \<Longrightarrow>
      \<exists>s'. read n s = Inr (number (take (nat n) (bits_of s)), s') \<and> ok s' \<and>
        bits_of s' = drop (nat n) (bits_of s)"
    and snoop_eof: "ok s \<Longrightarrow> length (bits_of s) < nat n \<Longrightarrow> snoop n s = Inl TypeError"
    and read_eof: "ok s \<Longrightarrow> length (bits_of s) < nat n \<Longrightarrow> read n s = Inl TypeError"
begin

text \<open>Looking ahead does not change what is read next.\<close>

lemma snoop_then_read:
  assumes "ok s" and "0 \<le> n" and "nat n \<le> length (bits_of s)"
  shows "\<exists>v s' s''. snoop n s = Inr (v, s') \<and> read n s' = Inr (v, s'') \<and>
    ok s'' \<and> bits_of s'' = drop (nat n) (bits_of s)"
  using snoop_ok [OF assms(1,3,2)] read_ok assms(2,3) by metis

text \<open>Reading \<open>m\<close> and then \<open>n\<close> bits consumes what reading \<open>m + n\<close> bits consumes.\<close>

lemma read_read:
  assumes "ok s" and "0 \<le> m" and "0 \<le> n" and "nat (m + n) \<le> length (bits_of s)"
  shows "\<exists>u v s' s''. read m s = Inr (u, s') \<and> read n s' = Inr (v, s'') \<and> ok s'' \<and>
    bits_of s'' = drop (nat (m + n)) (bits_of s) \<and>
    u = number (take (nat m) (bits_of s)) \<and> v = number (take (nat n) (drop (nat m) (bits_of s)))"
proof -
  have m: "nat m \<le> length (bits_of s)" using assms by linarith
  obtain s1 where s1: "read m s = Inr (number (take (nat m) (bits_of s)), s1)" "ok s1"
    "bits_of s1 = drop (nat m) (bits_of s)"
    using read_ok [OF assms(1) m assms(2)] by blast
  have n: "nat n \<le> length (bits_of s1)" using assms s1(3) by (simp add: nat_add_distrib)
  obtain s2 where "read n s1 = Inr (number (take (nat n) (bits_of s1)), s2)" "ok s2"
    "bits_of s2 = drop (nat n) (bits_of s1)"
    using read_ok [OF s1(2) n assms(3)] by blast
  with s1 assms(2,3) show ?thesis by (auto simp: nat_add_distrib add.commute)
qed

text \<open>
  A parser for the encoding \<open>bs\<close> of \<open>v\<close>: on every reader whose bits start with \<open>bs\<close> it gives \<open>v\<close>
  and leaves exactly the bits after \<open>bs\<close>. Parsers compose as the source's statements do.
\<close>

definition reads :: "('s \<Rightarrow> ('a \<times> 's) result) \<Rightarrow> bool list \<Rightarrow> 'a \<Rightarrow> bool" where
  "reads f bs v \<longleftrightarrow> (\<forall>b rest. ok b \<longrightarrow> bits_of b = bs @ rest \<longrightarrow>
     (\<exists>b'. f b = Inr (v, b') \<and> ok b' \<and> bits_of b' = rest))"

lemma readsI:
  "(\<And>b rest. ok b \<Longrightarrow> bits_of b = bs @ rest \<Longrightarrow>
     \<exists>b'. f b = Inr (v, b') \<and> ok b' \<and> bits_of b' = rest) \<Longrightarrow> reads f bs v"
  by (simp add: reads_def)

lemma readsE:
  assumes "reads f bs v" and "ok b" and "bits_of b = bs @ rest"
  obtains b' where "f b = Inr (v, b')" and "ok b'" and "bits_of b' = rest"
  using assms by (auto simp: reads_def)

lemma reads_bind:
  assumes "reads f bs v" and "reads (g v) cs w"
  shows "reads (\<lambda>b. rbind (f b) (\<lambda>(x, b). g x b)) (bs @ cs) w"
proof (rule readsI)
  fix b rest assume b: "ok b" "bits_of b = (bs @ cs) @ rest"
  obtain b1 where b1: "f b = Inr (v, b1)" "ok b1" "bits_of b1 = cs @ rest"
    using assms(1) b(1) by (rule readsE) (use b(2) in simp)
  obtain b2 where "g v b1 = Inr (w, b2)" "ok b2" "bits_of b2 = rest"
    using assms(2) b1(2,3) by (rule readsE)
  with b1 show "\<exists>b'. rbind (f b) (\<lambda>(x, b). g x b) = Inr (w, b') \<and> ok b' \<and> bits_of b' = rest"
    by simp
qed

lemma reads_return: "reads (\<lambda>b. Inr (v, b)) [] v"
  by (simp add: reads_def)

lemma reads_read:
  assumes "length bs = n"
  shows "reads (read (int n)) bs (number bs)"
proof (rule readsI)
  fix b rest assume b: "ok b" "bits_of b = bs @ rest"
  with read_ok [OF b(1), of "int n"] assms
  show "\<exists>b'. read (int n) b = Inr (number bs, b') \<and> ok b' \<and> bits_of b' = rest" by auto
qed

text \<open>A read either fails, at the end of the input, or gives the bits it consumes.\<close>

lemma read_cases:
  assumes "ok s" and "0 \<le> n"
  obtains (eof) "read n s = Inl TypeError" "length (bits_of s) < nat n"
  | (bits) s' where "read n s = Inr (number (take (nat n) (bits_of s)), s')" "ok s'"
      "bits_of s = take (nat n) (bits_of s) @ bits_of s'" "nat n \<le> length (bits_of s)"
proof (cases "nat n \<le> length (bits_of s)")
  case True
  with read_ok [OF assms(1) True assms(2)] show ?thesis
    using bits by (metis append_take_drop_id)
next
  case False
  with read_eof [OF assms(1)] show ?thesis using eof by auto
qed

end

definition lsb_field :: "field \<Rightarrow> bool" where
  "lsb_field s \<longleftrightarrow> wf_field s \<and> bf_class s = Bitfield"

definition msb_field :: "field \<Rightarrow> bool" where
  "msb_field s \<longleftrightarrow> wf_field s \<and> bf_class s = RBitfield"

interpretation lsb: bit_source lsb_field stream "bits_value Bitfield" snoopbits readbits
proof unfold_locales
  show "xs = ys" if "length xs = length ys" "bits_value Bitfield xs = bits_value Bitfield ys" for xs ys
    using that by (rule bits_value_inj)
qed (use snoop_spec read_spec read_eof in \<open>fastforce simp: lsb_field_def\<close>)+

interpretation msb: bit_source msb_field stream "bits_value RBitfield" snoopbits readbits
proof unfold_locales
  show "xs = ys" if "length xs = length ys" "bits_value RBitfield xs = bits_value RBitfield ys" for xs ys
    using that by (rule bits_value_inj)
qed (use snoop_spec read_spec read_eof in \<open>fastforce simp: msb_field_def\<close>)+

lemma wf_new_field: "\<forall>c \<in> set f. c < 256 \<Longrightarrow> wf_field (new_field cls f)"
  by (simp add: wf_field_def new_field_def)

lemma stream_new_field: "stream (new_field cls f) = concat (map (byte_bits cls) f)"
  by (simp add: stream_def new_field_def split: bitclass.split)

end
