(* ===== verification/Huffman.thy ===== *)
theory Huffman
  imports Bitstream "HOL-Library.Product_Lexorder" "HOL-Library.Multiset"
begin

unbundle bit_operations_syntax

text \<open>
  The Huffman tables of \<^verbatim>\<open>own/pyflate-fast.py\<close>: \<open>HuffmanLength\<close>, \<open>reverse_bits\<close>, the two
  table constructors, \<open>populate_huffman_symbols\<close>, \<open>min_max_bits\<close> and \<open>find_next_symbol\<close>, and the
  constant tables of the deflate format. The lemmas show that populating a table assigns the
  canonical code (each symbol is the sum of the weights of the entries before it), that the
  code words are then prefix free, and that \<open>find_next_symbol\<close> decodes them from either kind
  of bit reader, consuming exactly the bits of the word.
\<close>

section \<open>Entries\<close>

record huff =
  h_code :: int
  h_bits :: int
  h_symbol :: "int option"
  h_reverse_symbol :: "int option"

text \<open>\<open>reverse_symbol\<close> is no attribute of a new entry (\<open>None\<close> here); reading it raises.\<close>

definition HuffmanLength :: "int \<Rightarrow> int \<Rightarrow> huff" where
  "HuffmanLength code bits =
     \<lparr>h_code = code, h_bits = bits, h_symbol = None, h_reverse_symbol = None\<rparr>"

text \<open>\<open>__lt__\<close>, the order \<open>sort\<close> uses.\<close>

definition huff_lt :: "huff \<Rightarrow> huff \<Rightarrow> bool" where
  "huff_lt x y = (if h_bits x = h_bits y then h_code x < h_code y else h_bits x < h_bits y)"

definition huff_key :: "huff \<Rightarrow> int \<times> int" where
  "huff_key x = (h_bits x, h_code x)"

lemma huff_lt_key: "huff_lt x y \<longleftrightarrow> huff_key x < huff_key y"
  by (auto simp: huff_lt_def huff_key_def)

section \<open>Bit reversal\<close>

function rev_bits_loop :: "int \<Rightarrow> int \<Rightarrow> int \<Rightarrow> int \<Rightarrow> int \<Rightarrow> int" where
  "rev_bits_loop v i a b z =
     (if i \<le> -1 then z
      else rev_bits_loop v (i - 2) (push_bit 1 a) (drop_bit 1 b)
             (z OR (drop_bit (nat i) v AND a) OR (push_bit (nat i) v AND b)))"
  by pat_completeness auto
termination by (relation "measure (\<lambda>(v, i, a, b, z). nat (i + 2))") auto

declare rev_bits_loop.simps [simp del]

definition reverse_bits :: "int \<Rightarrow> int \<Rightarrow> int result" where
  "reverse_bits v n =
     (if n - 1 < 0 then Inl ValueError
      else Inr (rev_bits_loop v (n - 1) (push_bit 0 1) (push_bit (nat (n - 1)) 1) 0))"

section \<open>Tables\<close>

fun bootstrap_loop :: "int \<Rightarrow> int \<Rightarrow> (int \<times> int) list \<Rightarrow> huff list" where
  "bootstrap_loop start bits [] = []"
| "bootstrap_loop start bits ((finish, endbits) # rest) =
     (if bits \<noteq> 0 then map (\<lambda>code. HuffmanLength code bits) [start..finish - 1] else []) @
     (if endbits = -1 then [] else bootstrap_loop finish endbits rest)"

definition HuffmanTable :: "(int \<times> int) list \<Rightarrow> huff list result" where
  "HuffmanTable bootstrap = (case bootstrap of
      [] \<Rightarrow> Inl IndexError
    | (start, bits) # rest \<Rightarrow> Inr (sort_key huff_key (bootstrap_loop start bits rest)))"

definition OrderedHuffmanTable :: "int list \<Rightarrow> huff list result" where
  "OrderedHuffmanTable lengths =
     (let l = length lengths;
          z = zip (map int [0..<l]) lengths @ [(int l, -1)]
      in HuffmanTable z)"

fun populate_loop :: "int \<Rightarrow> int \<Rightarrow> huff list \<Rightarrow> huff list result" where
  "populate_loop bits symbol [] = Inr []"
| "populate_loop bits symbol (x # xs) =
     (let symbol = symbol + 1 in
      rbind (if h_bits x \<noteq> bits
             then if h_bits x - bits < 0 then Inl ValueError
                  else Inr (push_bit (nat (h_bits x - bits)) symbol, h_bits x)
             else Inr (symbol, bits)) (\<lambda>(symbol, bits).
      rbind (reverse_bits symbol bits) (\<lambda>r.
      rbind (populate_loop bits symbol xs) (\<lambda>xs.
      Inr (x\<lparr>h_symbol := Some symbol, h_reverse_symbol := Some r\<rparr> # xs)))))"

definition populate_huffman_symbols :: "huff list \<Rightarrow> huff list result" where
  "populate_huffman_symbols table = populate_loop (-1) (-1) table"

definition min_max_bits :: "huff list \<Rightarrow> int \<times> int" where
  "min_max_bits table = fold (\<lambda>x (mn, mx).
     (if h_bits x < mn then h_bits x else mn, if mx < h_bits x then h_bits x else mx)) table (16, -1)"

text \<open>
  \<open>find_next_symbol\<close>: the field is used through \<open>snoopbits\<close> and \<open>readbits\<close> only, so the loop is
  written over them. What follows its \<open>raise\<close> in the source is unreachable.
\<close>

definition entry_matches :: "bool \<Rightarrow> huff \<Rightarrow> int option \<Rightarrow> bool result" where
  "entry_matches reversed x cached =
     (if reversed then
        (case h_reverse_symbol x of None \<Rightarrow> Inl AttributeError | Some r \<Rightarrow> Inr (Some r = cached))
      else Inr (h_symbol x = cached))"

fun find_loop ::
    "(int \<Rightarrow> 's \<Rightarrow> (int \<times> 's) result) \<Rightarrow> (int \<Rightarrow> 's \<Rightarrow> (int \<times> 's) result) \<Rightarrow> bool \<Rightarrow>
     int \<Rightarrow> int option \<Rightarrow> huff list \<Rightarrow> 's \<Rightarrow> (int \<times> 's) result" where
  "find_loop snoop read reversed cached_length cached [] s = Inl TypeError"
| "find_loop snoop read reversed cached_length cached (x # xs) s =
     rbind (if cached_length \<noteq> h_bits x
            then rbind (snoop (h_bits x) s) (\<lambda>(v, s). Inr (Some v, h_bits x, s))
            else Inr (cached, cached_length, s)) (\<lambda>(cached, cached_length, s).
     rbind (entry_matches reversed x cached) (\<lambda>b.
     if b then rbind (read (h_bits x) s) (\<lambda>(_, s). Inr (h_code x, s))
     else find_loop snoop read reversed cached_length cached xs s))"

definition find_next_symbol :: "huff list \<Rightarrow> field \<Rightarrow> bool \<Rightarrow> (int \<times> field) result" where
  "find_next_symbol table s reversed = find_loop snoopbits readbits reversed (-1) None table s"

section \<open>The constant tables of the deflate format\<close>

definition code_length_orders :: "int \<Rightarrow> int result" where
  "code_length_orders i =
     py_get [16, 17, 18, 0, 8, 7, 9, 6, 10, 5, 11, 4, 12, 3, 13, 2, 14, 1, 15] i"

definition distance_base :: "int \<Rightarrow> int result" where
  "distance_base i =
     py_get [1, 2, 3, 4, 5, 7, 9, 13, 17, 25, 33, 49, 65, 97, 129, 193, 257, 385, 513, 769, 1025,
       1537, 2049, 3073, 4097, 6145, 8193, 12289, 16385, 24577] i"

definition length_base :: "int \<Rightarrow> int result" where
  "length_base i =
     py_get [3, 4, 5, 6, 7, 8, 9, 10, 11, 13, 15, 17, 19, 23, 27, 31, 35, 43, 51, 59, 67, 83, 99,
       115, 131, 163, 195, 227, 258] (i - 257)"

definition extra_distance_bits :: "int \<Rightarrow> int result" where
  "extra_distance_bits n =
     (if 0 \<le> n \<and> n \<le> 1 then Inr 0
      else if 2 \<le> n \<and> n \<le> 29 then Inr (drop_bit 1 n - 1)
      else Inl TypeError)"

definition extra_length_bits :: "int \<Rightarrow> int result" where
  "extra_length_bits n =
     (if 257 \<le> n \<and> n \<le> 260 \<or> n = 285 then Inr 0
      else if 261 \<le> n \<and> n \<le> 284 then Inr (drop_bit 2 (n - 257) - 1)
      else Inl TypeError)"

section \<open>\<open>reverse_bits\<close> reverses the bits\<close>

text \<open>The loop with \<open>k\<close> rounds done: they have set the outermost \<open>k\<close> bits at either end.\<close>

lemma rev_bits_loop_bit:
  assumes "2 * k \<le> n + 1"
    and "\<And>j. bit z j \<longleftrightarrow> j < n \<and> (j < k \<or> n - k \<le> j) \<and> bit v (n - 1 - j)"
    and "2 * k < n \<Longrightarrow> b = push_bit (n - 1 - k) 1"
  shows "bit (rev_bits_loop v (int n - 1 - 2 * int k) (push_bit k 1) b z) j \<longleftrightarrow>
    j < n \<and> bit v (n - 1 - j)"
  using assms
proof (induction "n + 1 - 2 * k" arbitrary: k z b rule: less_induct)
  case less
  show ?case
  proof (cases "n \<le> 2 * k")
    case True
    then have "j < k \<or> n - k \<le> j" by linarith
    then show ?thesis
      using less.prems(2) True by (subst rev_bits_loop.simps) auto
  next
    case False
    let ?i = "n - 1 - 2 * k"
    have i: "nat (int n - 1 - 2 * int k) = ?i" "\<not> int n - 1 - 2 * int k \<le> -1"
      using False by auto
    have b: "b = push_bit (n - 1 - k) 1" using False less.prems(3) by simp
    let ?z = "z OR (drop_bit ?i v AND push_bit k 1) OR (push_bit ?i v AND b)"
    have z: "bit ?z j \<longleftrightarrow> j < n \<and> (j < Suc k \<or> n - Suc k \<le> j) \<and> bit v (n - 1 - j)" for j
    proof -
      have "?i + k = n - 1 - k" "n - 1 - k - ?i = k" using False by linarith+
      then have "bit ?z j \<longleftrightarrow> (j < n \<and> (j < k \<or> n - k \<le> j) \<and> bit v (n - 1 - j)) \<or>
          (j = k \<and> bit v (n - 1 - k)) \<or> (j = n - 1 - k \<and> bit v k)"
        using False less.prems(2) [of j] unfolding b
        by (auto simp: bit_simps add.commute)
      moreover have "n - 1 - (n - 1 - k) = k" using False by linarith
      moreover consider "j = k" | "j = n - 1 - k" | "j \<noteq> k" "j \<noteq> n - 1 - k" by blast
      then have "(j < n \<and> (j < k \<or> n - k \<le> j) \<and> bit v (n - 1 - j)) \<or>
          (j = k \<and> bit v (n - 1 - k)) \<or> (j = n - 1 - k \<and> bit v (n - 1 - (n - 1 - k))) \<longleftrightarrow>
          j < n \<and> (j < Suc k \<or> n - Suc k \<le> j) \<and> bit v (n - 1 - j)"
      proof cases
        case 3
        with False have "j < Suc k \<or> n - Suc k \<le> j \<longleftrightarrow> j < k \<or> n - k \<le> j" by linarith
        with 3 show ?thesis by blast
      qed (use False in auto)
      ultimately show ?thesis by simp
    qed
    have "drop_bit 1 b = push_bit (n - 1 - Suc k) 1" if "2 * Suc k < n"
    proof -
      have "n - 1 - k = Suc (n - 1 - Suc k)" using that by simp
      then show ?thesis by (simp add: b drop_bit_Suc)
    qed
    then have "bit (rev_bits_loop v (int n - 1 - 2 * int (Suc k)) (push_bit (Suc k) 1)
        (drop_bit 1 b) ?z) j \<longleftrightarrow> j < n \<and> bit v (n - 1 - j)"
      using False by (intro less.hyps z) auto
    then show ?thesis
      using i by (subst rev_bits_loop.simps) (simp add: algebra_simps push_bit_Suc)
  qed
qed

lemma reverse_bits_bit:
  assumes "1 \<le> n"
  shows "\<exists>r. reverse_bits v n = Inr r \<and>
    (\<forall>j. bit r j \<longleftrightarrow> j < nat n \<and> bit v (nat n - 1 - j))"
  using assms rev_bits_loop_bit [of 0 "nat n" 0 v "push_bit (nat (n - 1)) 1"]
  by (simp add: reverse_bits_def nat_diff_distrib)

lemma reverse_bits_error: "n < 1 \<Longrightarrow> reverse_bits v n = Inl ValueError"
  by (simp add: reverse_bits_def)

section \<open>The canonical code\<close>

text \<open>
  The symbol of entry \<open>i\<close> of a table sorted by length, as RFC 1951 describes it: every earlier
  entry \<open>j\<close> takes up \<open>2 ^ (b\<^sub>i - b\<^sub>j)\<close> of the words of length \<open>b\<^sub>i\<close>.
\<close>

definition canonical_symbol :: "huff list \<Rightarrow> nat \<Rightarrow> int" where
  "canonical_symbol t i = (\<Sum>j<i. 2 ^ nat (h_bits (t ! i) - h_bits (t ! j)))"

definition by_length :: "huff list \<Rightarrow> bool" where
  "by_length t \<longleftrightarrow> sorted (map h_bits t) \<and> (\<forall>x \<in> set t. 1 \<le> h_bits x)"

definition populated :: "huff list \<Rightarrow> bool" where
  "populated t \<longleftrightarrow> by_length t \<and> (\<forall>i < length t.
     h_symbol (t ! i) = Some (canonical_symbol t i) \<and>
     (\<exists>r. h_reverse_symbol (t ! i) = Some r \<and>
       reverse_bits (canonical_symbol t i) (h_bits (t ! i)) = Inr r))"

lemma sum_lessThan_Cons:
  "(\<Sum>j<Suc i. f ((x # xs) ! j)) = f x + (\<Sum>j<i. f (xs ! j))"
  by (simp add: sum.lessThan_Suc_shift del: sum.lessThan_Suc)

lemma populate_loop_ok:
  assumes "by_length t" and "\<forall>x \<in> set t. b \<le> h_bits x"
  shows "\<exists>t'. populate_loop b s t = Inr t' \<and> length t' = length t \<and>
    (\<forall>i < length t.
       let sym = (s + 1) * 2 ^ nat (h_bits (t ! i) - b) + canonical_symbol t i
       in \<exists>r. reverse_bits sym (h_bits (t ! i)) = Inr r \<and>
            t' ! i = (t ! i)\<lparr>h_symbol := Some sym, h_reverse_symbol := Some r\<rparr>)"
  using assms
proof (induction t arbitrary: b s)
  case Nil
  then show ?case by simp
next
  case (Cons x t)
  let ?b = "h_bits x" and ?s = "(s + 1) * 2 ^ nat (h_bits x - b)"
  obtain r where r: "reverse_bits ?s ?b = Inr r"
    using reverse_bits_bit [of ?b ?s] Cons.prems(1) by (auto simp: by_length_def)
  have "by_length t" "\<forall>y \<in> set t. ?b \<le> h_bits y"
    using Cons.prems(1) by (auto simp: by_length_def)
  from Cons.IH [OF this, of ?s] obtain t' where t': "populate_loop ?b ?s t = Inr t'"
    "length t' = length t"
    "\<And>i. i < length t \<Longrightarrow> \<exists>r. reverse_bits ((?s + 1) * 2 ^ nat (h_bits (t ! i) - ?b) + canonical_symbol t i)
        (h_bits (t ! i)) = Inr r \<and>
      t' ! i = (t ! i)\<lparr>h_symbol := Some ((?s + 1) * 2 ^ nat (h_bits (t ! i) - ?b) + canonical_symbol t i),
        h_reverse_symbol := Some r\<rparr>"
    by (auto simp: Let_def)
  have pop: "populate_loop b s (x # t) =
      Inr (x\<lparr>h_symbol := Some ?s, h_reverse_symbol := Some r\<rparr> # t')"
    using Cons.prems(2) r t'(1) by (cases "h_bits x = b") (auto simp: push_bit_eq_mult Let_def)
  have "\<exists>r. reverse_bits sym (h_bits ((x # t) ! i)) = Inr r \<and>
      (x\<lparr>h_symbol := Some ?s, h_reverse_symbol := Some r0\<rparr> # t') ! i =
        ((x # t) ! i)\<lparr>h_symbol := Some sym, h_reverse_symbol := Some r\<rparr>"
    if i: "i < length (x # t)" and r0: "r0 = r"
      and sym: "sym = (s + 1) * 2 ^ nat (h_bits ((x # t) ! i) - b) + canonical_symbol (x # t) i" for i sym r0
  proof (cases i)
    case 0
    with r r0 sym show ?thesis by (simp add: canonical_symbol_def)
  next
    case (Suc k)
    then have k: "k < length t" using i by simp
    then have "b \<le> ?b" "?b \<le> h_bits (t ! k)"
      using Cons.prems by (auto simp: by_length_def)
    then have "nat (h_bits (t ! k) - b) = nat (?b - b) + nat (h_bits (t ! k) - ?b)" by simp
    then have "sym = (?s + 1) * 2 ^ nat (h_bits (t ! k) - ?b) + canonical_symbol t k"
      unfolding sym Suc canonical_symbol_def
      using sum_lessThan_Cons [of "\<lambda>y. 2 ^ nat (h_bits (t ! k) - h_bits y)" x t k]
      by (simp add: power_add algebra_simps del: sum.lessThan_Suc)
    with t'(3) [OF k] Suc show ?thesis by simp
  qed
  with pop t'(2) show ?case by (auto simp: Let_def)
qed

lemma populate_ok:
  assumes "by_length t"
  shows "\<exists>t'. populate_huffman_symbols t = Inr t' \<and> populated t' \<and>
    map h_code t' = map h_code t \<and> map h_bits t' = map h_bits t"
proof -
  have "\<forall>x \<in> set t. -1 \<le> h_bits x" using assms by (auto simp: by_length_def)
  from populate_loop_ok [OF assms this, of "-1"] obtain t' where t':
    "populate_huffman_symbols t = Inr t'" "length t' = length t"
    "\<And>i. i < length t \<Longrightarrow> \<exists>r. reverse_bits (canonical_symbol t i) (h_bits (t ! i)) = Inr r \<and>
      t' ! i = (t ! i)\<lparr>h_symbol := Some (canonical_symbol t i), h_reverse_symbol := Some r\<rparr>"
    by (auto simp: populate_huffman_symbols_def Let_def)
  have maps: "map h_code t' = map h_code t" "map h_bits t' = map h_bits t"
    using t'(2,3) by (auto intro!: nth_equalityI dest!: t'(3))
  then have canon: "canonical_symbol t' i = canonical_symbol t i" if "i < length t" for i
    using t'(2) that unfolding canonical_symbol_def
    by (intro sum.cong refl) (metis (no_types, lifting) less_trans lessThan_iff nth_map)
  have "by_length t'"
    using assms maps unfolding by_length_def by (metis (no_types, lifting) image_iff list.set_map)
  then have "populated t'"
    using t' canon unfolding populated_def by fastforce
  with t'(1) maps show ?thesis by blast
qed

section \<open>Code words\<close>

definition codeword :: "huff \<Rightarrow> bool list" where
  "codeword x = map (bit (the (h_symbol x))) (rev [0..<nat (h_bits x)])"

definition entry_key :: "bool \<Rightarrow> huff \<Rightarrow> int" where
  "entry_key reversed x = (if reversed then the (h_reverse_symbol x) else the (h_symbol x))"

text \<open>Kraft's inequality, scaled by \<open>2 ^ M\<close> for an \<open>M\<close> no length exceeds.\<close>

definition kraft :: "nat \<Rightarrow> int list \<Rightarrow> bool" where
  "kraft M bs \<longleftrightarrow> (\<forall>b \<in> set bs. b \<le> int M) \<and> (\<Sum>b\<leftarrow>bs. 2 ^ nat (int M - b)) \<le> (2 ^ M :: int)"

lemma length_codeword [simp]: "length (codeword x) = nat (h_bits x)"
  by (simp add: codeword_def)

lemma entry_matches_populated:
  assumes "populated t" and "x \<in> set t"
  shows "entry_matches reversed x c = Inr (c = Some (entry_key reversed x))"
  using assms by (auto simp: entry_matches_def entry_key_def populated_def in_set_conv_nth)

lemma le_div_iff_int: "0 < c \<Longrightarrow> a \<le> b div c \<longleftrightarrow> a * c \<le> (b :: int)"
  proof
  assume "0 < c" "a \<le> b div c"
  then have "a * c \<le> b div c * c" by simp
  also have "\<dots> \<le> b" using pos_mod_sign [OF \<open>0 < c\<close>, of b] div_mult_mod_eq [of b c] by linarith
  finally show "a * c \<le> b" .
next
  assume "0 < c" "a * c \<le> b"
  then have "a * c div c \<le> b div c" by (intro zdiv_mono1)
  with \<open>0 < c\<close> show "a \<le> b div c" by simp
qed

lemma div_less_iff_int: "0 < c \<Longrightarrow> b div c < a \<longleftrightarrow> b < a * (c :: int)"
  using le_div_iff_int [of c a b] by linarith

lemma populated_nth:
  assumes "populated t" and "i < length t"
  shows "1 \<le> h_bits (t ! i)" and "h_symbol (t ! i) = Some (canonical_symbol t i)"
    and "\<exists>r. h_reverse_symbol (t ! i) = Some r \<and>
      reverse_bits (canonical_symbol t i) (h_bits (t ! i)) = Inr r"
  using assms by (auto simp: populated_def by_length_def)

lemma canonical_symbol_mono:
  assumes "populated t" and "i < j" and "j < length t"
  shows "h_bits (t ! i) \<le> h_bits (t ! j)"
    and "(canonical_symbol t i + 1) * 2 ^ nat (h_bits (t ! j) - h_bits (t ! i)) \<le> canonical_symbol t j"
proof -
  have mono: "h_bits (t ! k) \<le> h_bits (t ! l)" if "k \<le> l" "l < length t" for k l
    using assms(1) that sorted_nth_mono [of "map h_bits t" k l]
    by (simp add: populated_def by_length_def)
  let ?d = "\<lambda>k. nat (h_bits (t ! k))" and ?w = "\<lambda>l k. 2 ^ nat (h_bits (t ! l) - h_bits (t ! k)) :: int"
  show "h_bits (t ! i) \<le> h_bits (t ! j)" using mono assms by simp
  have "?w i k * ?w j i = ?w j k" if "k \<le> i" for k
  proof -
    have "nat (h_bits (t ! i) - h_bits (t ! k)) + nat (h_bits (t ! j) - h_bits (t ! i)) =
        nat (h_bits (t ! j) - h_bits (t ! k))"
      using mono [of k i] mono [of i j] that assms by simp
    then show ?thesis by (metis power_add)
  qed
  then have "(\<Sum>k<Suc i. ?w i k) * ?w j i = (\<Sum>k<Suc i. ?w j k)"
    unfolding sum_distrib_right by (intro sum.cong refl) simp
  also have "\<dots> \<le> (\<Sum>k<j. ?w j k)"
    using assms(2) by (intro sum_mono2) auto
  finally show "(canonical_symbol t i + 1) * ?w j i \<le> canonical_symbol t j"
    by (simp add: canonical_symbol_def)
qed

lemma canonical_symbol_fits:
  assumes "populated t" and "kraft M (map h_bits t)" and "i < length t"
  shows "0 \<le> canonical_symbol t i" and "canonical_symbol t i < 2 ^ nat (h_bits (t ! i))"
proof -
  show "0 \<le> canonical_symbol t i" by (simp add: canonical_symbol_def sum_nonneg)
  let ?w = "\<lambda>k. 2 ^ nat (int M - h_bits (t ! k)) :: int"
  have bits: "1 \<le> h_bits (t ! k) \<and> h_bits (t ! k) \<le> int M" if "k < length t" for k
    using assms that by (auto simp: kraft_def populated_nth)
  have shift: "2 ^ nat (h_bits (t ! i) - h_bits (t ! k)) * ?w i = ?w k" if "k \<le> i" for k
  proof -
    have "h_bits (t ! k) \<le> h_bits (t ! i)"
      using canonical_symbol_mono(1) [OF assms(1), of k i] that assms(3) by (cases "k = i") auto
    with bits [OF assms(3)] bits [of k] have "nat (h_bits (t ! i) - h_bits (t ! k)) + nat (int M - h_bits (t ! i)) =
        nat (int M - h_bits (t ! k))" by linarith
    then show ?thesis by (metis power_add)
  qed
  have "(canonical_symbol t i + 1) * ?w i = (\<Sum>k<Suc i. ?w k)"
  proof -
    have "canonical_symbol t i + 1 = (\<Sum>k<Suc i. 2 ^ nat (h_bits (t ! i) - h_bits (t ! k)))"
      by (simp add: canonical_symbol_def)
    then show ?thesis
      unfolding sum_distrib_right using shift by (simp only: sum_distrib_right) (intro sum.cong refl, simp)
  qed
  also have "\<dots> \<le> (\<Sum>k<length t. ?w k)"
    using assms(3) by (intro sum_mono2) auto
  also have "\<dots> \<le> 2 ^ M"
    using assms(2) by (simp add: kraft_def sum_list_sum_nth lessThan_atLeast0 comp_def)
  also have "\<dots> = 2 ^ nat (h_bits (t ! i)) * ?w i"
    using bits [OF assms(3)] by (simp flip: power_add) (simp add: nat_add_distrib [symmetric] flip: nat_int)
  finally have "canonical_symbol t i + 1 \<le> 2 ^ nat (h_bits (t ! i))"
    by (simp add: mult_le_cancel_right)
  then show "canonical_symbol t i < 2 ^ nat (h_bits (t ! i))" by simp
qed

text \<open>No code word is a prefix of a later one (nor, being no longer, the other way round).\<close>

lemma canonical_prefix_free:
  assumes "populated t" and "kraft M (map h_bits t)" and "i < j" and "j < length t"
  shows "take (nat (h_bits (t ! i))) (codeword (t ! j)) \<noteq> codeword (t ! i)"
proof
  let ?m = "nat (h_bits (t ! i))" and ?n = "nat (h_bits (t ! j))"
  let ?x = "canonical_symbol t i" and ?y = "canonical_symbol t j"
  assume eq: "take ?m (codeword (t ! j)) = codeword (t ! i)"
  have le: "?m \<le> ?n" and pos: "1 \<le> h_bits (t ! i)"
    using canonical_symbol_mono(1) [OF assms(1,3,4)] populated_nth(1) [OF assms(1)] assms by auto
  have fits: "0 \<le> ?x" "?x < 2 ^ ?m" "0 \<le> ?y" "?y < 2 ^ ?n"
    using canonical_symbol_fits [OF assms(1,2)] assms(3,4) by auto
  have "bits_value RBitfield (codeword (t ! i)) = ?x"
    using msb_value [of ?m ?m ?x "[]"] fits populated_nth(2) [OF assms(1)] assms
    by (simp add: codeword_def take_bit_int_eq_self)
  moreover have "bits_value RBitfield (take ?m (codeword (t ! j))) = drop_bit (?n - ?m) ?y"
  proof -
    have "drop_bit (?n - ?m) ?y < 2 ^ ?m"
      using fits le by (simp add: drop_bit_eq_div div_less_iff_int flip: power_add)
    then show ?thesis
      using msb_value [OF le, of ?y "[]"] fits populated_nth(2) [OF assms(1)] assms
      by (simp add: codeword_def take_bit_int_eq_self)
  qed
  ultimately have "?y div 2 ^ (?n - ?m) = ?x" by (simp add: eq drop_bit_eq_div)
  moreover have "nat (h_bits (t ! j) - h_bits (t ! i)) = ?n - ?m" using pos by simp
  then have "(?x + 1) * 2 ^ (?n - ?m) \<le> ?y"
    using canonical_symbol_mono(2) [OF assms(1,3,4)] by simp
  then have "?x + 1 \<le> ?y div 2 ^ (?n - ?m)"
    by (simp add: le_div_iff_int)
  ultimately show False by simp
qed

section \<open>Decoding\<close>

text \<open>An entry's key is its code word as a number, in the bit order of the reader.\<close>

lemma entry_key_msb:
  assumes "populated t" and "kraft M (map h_bits t)" and "x \<in> set t"
  shows "entry_key False x = bits_value RBitfield (codeword x)"
proof -
  obtain i where i: "x = t ! i" "i < length t" using assms(3) by (auto simp: in_set_conv_nth)
  let ?m = "nat (h_bits (t ! i))" and ?x = "canonical_symbol t i"
  have "bits_value RBitfield (codeword (t ! i)) = ?x"
    using msb_value [of ?m ?m ?x "[]"] canonical_symbol_fits [OF assms(1,2) i(2)]
      populated_nth(2) [OF assms(1) i(2)]
    by (simp add: codeword_def take_bit_int_eq_self)
  with populated_nth(2) [OF assms(1) i(2)] i show ?thesis by (simp add: entry_key_def)
qed

lemma entry_key_lsb:
  assumes "populated t" and "x \<in> set t"
  shows "entry_key True x = bits_value Bitfield (codeword x)"
proof -
  obtain i where i: "x = t ! i" "i < length t" using assms(2) by (auto simp: in_set_conv_nth)
  obtain r where r: "h_reverse_symbol x = Some r"
    "reverse_bits (canonical_symbol t i) (h_bits x) = Inr r" "h_symbol x = Some (canonical_symbol t i)"
    "1 \<le> h_bits x"
    using populated_nth [OF assms(1) i(2)] i(1) by auto
  have "r = horner_sum of_bool 2 (codeword x)"
  proof (rule bit_eqI)
    fix j
    have "bit r j \<longleftrightarrow> j < nat (h_bits x) \<and> bit (canonical_symbol t i) (nat (h_bits x) - 1 - j)"
      using reverse_bits_bit [OF r(4), of "canonical_symbol t i"] r(2) by simp
    moreover have "codeword x ! j = bit (canonical_symbol t i) (nat (h_bits x) - 1 - j)"
      if "j < nat (h_bits x)"
      using that r(3) by (simp add: codeword_def rev_nth)
    ultimately show "bit r j = bit (horner_sum of_bool 2 (codeword x) :: int) j"
      unfolding bit_horner_sum_bit_iff by auto
  qed
  with r(1) show ?thesis by (simp add: entry_key_def bits_value_def)
qed

text \<open>
  A table decodes when its entries come in order of length, their keys are the numbers of code
  words of their length, and no word starts with an earlier one.
\<close>

definition decodable :: "(bool list \<Rightarrow> int) \<Rightarrow> bool \<Rightarrow> (huff \<Rightarrow> bool list) \<Rightarrow> huff list \<Rightarrow> bool" where
  "decodable number reversed word t \<longleftrightarrow>
     (\<forall>x \<in> set t. 1 \<le> h_bits x \<and> length (word x) = nat (h_bits x) \<and>
        (\<forall>c. entry_matches reversed x c = Inr (c = Some (number (word x))))) \<and>
     (\<forall>i j. i < j \<longrightarrow> j < length t \<longrightarrow> h_bits (t ! i) \<le> h_bits (t ! j) \<and>
        take (length (word (t ! i))) (word (t ! j)) \<noteq> word (t ! i))"

lemma decodable_Cons:
  assumes "decodable number reversed word (x # t)"
  shows "decodable number reversed word t"
    and "\<forall>y \<in> set t. h_bits x \<le> h_bits y \<and> take (length (word x)) (word y) \<noteq> word x"
proof -
  have later: "\<And>i j. i < j \<Longrightarrow> j < length (x # t) \<Longrightarrow> h_bits ((x # t) ! i) \<le> h_bits ((x # t) ! j) \<and>
      take (length (word ((x # t) ! i))) (word ((x # t) ! j)) \<noteq> word ((x # t) ! i)"
    using assms unfolding decodable_def by blast
  show "decodable number reversed word t"
    unfolding decodable_def
  proof (intro conjI allI impI ballI)
    fix i j assume "i < j" "j < length t"
    with later [of "Suc i" "Suc j"] show "h_bits (t ! i) \<le> h_bits (t ! j)"
      "take (length (word (t ! i))) (word (t ! j)) \<noteq> word (t ! i)" by simp_all
  qed (use assms in \<open>simp_all add: decodable_def\<close>)
  show "\<forall>y \<in> set t. h_bits x \<le> h_bits y \<and> take (length (word x)) (word y) \<noteq> word x"
    using later [of 0] by (fastforce simp: in_set_conv_nth)
qed

context bit_source
begin

text \<open>What \<open>cached\<close> holds while the loop runs: the next \<open>cached_length\<close> bits.\<close>

definition cache_ok :: "int \<Rightarrow> int option \<Rightarrow> 's \<Rightarrow> bool" where
  "cache_ok cl cached s \<longleftrightarrow> cl \<le> 0 \<or>
     nat cl \<le> length (bits_of s) \<and> cached = Some (number (take (nat cl) (bits_of s)))"

lemma cache_step:
  assumes "ok s" and "cache_ok cl cached s" and "1 \<le> n" and "nat n \<le> length (bits_of s)"
  shows "\<exists>s'. (if cl \<noteq> n then rbind (snoop n s) (\<lambda>(v, s). Inr (Some v, n, s))
      else Inr (cached, cl, s)) = Inr (Some (number (take (nat n) (bits_of s))), n, s') \<and>
    ok s' \<and> bits_of s' = bits_of s"
proof (cases "cl = n")
  case True
  with assms show ?thesis by (auto simp: cache_ok_def)
next
  case False
  with snoop_ok [OF assms(1,4)] assms(3) show ?thesis by auto
qed

lemma find_loop_found:
  assumes "decodable number reversed word t" and "x \<in> set t"
    and "ok s" and "bits_of s = word x @ rest" and "cache_ok cl cached s"
  shows "\<exists>s'. find_loop snoop read reversed cl cached t s = Inr (h_code x, s') \<and>
    ok s' \<and> bits_of s' = rest"
  using assms
proof (induction t arbitrary: s cl cached)
  case Nil
  then show ?case by simp
next
  case (Cons y t)
  have y: "1 \<le> h_bits y" "length (word y) = nat (h_bits y)"
    "\<And>c. entry_matches reversed y c = Inr (c = Some (number (word y)))"
    using Cons.prems(1) by (auto simp: decodable_def)
  have x: "length (word x) = nat (h_bits x)"
    using Cons.prems(1,2) by (auto simp: decodable_def)
  have le: "h_bits y \<le> h_bits x"
    using decodable_Cons(2) [OF Cons.prems(1)] Cons.prems(2) by auto
  then have len: "nat (h_bits y) \<le> length (word x)" "nat (h_bits y) \<le> length (bits_of s)"
    using x Cons.prems(4) by auto
  let ?look = "take (nat (h_bits y)) (bits_of s)"
  obtain s1 where s1: "(if cl \<noteq> h_bits y then rbind (snoop (h_bits y) s) (\<lambda>(v, s). Inr (Some v, h_bits y, s))
      else Inr (cached, cl, s)) = Inr (Some (number ?look), h_bits y, s1)" "ok s1" "bits_of s1 = bits_of s"
    using cache_step [OF Cons.prems(3,5) y(1) len(2)] by blast
  have look: "?look = take (length (word y)) (word x)"
    using Cons.prems(4) len y(2) by simp
  show ?case
  proof (cases "x = y")
    case True
    then have "number ?look = number (word y)" using look by simp
    moreover have "nat (h_bits y) \<le> length (bits_of s1)" "0 \<le> h_bits y"
      using s1(3) len y(1) by auto
    from read_ok [OF s1(2) this] obtain s2 where
      "read (h_bits y) s1 = Inr (number (take (nat (h_bits y)) (bits_of s1)), s2)" "ok s2"
      "bits_of s2 = drop (nat (h_bits y)) (bits_of s1)" by blast
    ultimately show ?thesis
      using s1 y True Cons.prems(4) by (simp del: split_paired_Ex)
  next
    case False
    then have "x \<in> set t" using Cons.prems(2) by simp
    then have "?look \<noteq> word y"
      using decodable_Cons(2) [OF Cons.prems(1)] look by metis
    moreover have "length ?look = length (word y)" using look y(2) len by simp
    ultimately have "number ?look \<noteq> number (word y)" using number_inj by blast
    moreover have "cache_ok (h_bits y) (Some (number ?look)) s1"
      using s1(3) len by (simp add: cache_ok_def)
    with Cons.IH [OF decodable_Cons(1) [OF Cons.prems(1)] \<open>x \<in> set t\<close> s1(2)] Cons.prems(4) s1(3)
    obtain s' where "find_loop snoop read reversed (h_bits y) (Some (number ?look)) t s1 = Inr (h_code x, s')"
      "ok s'" "bits_of s' = rest" by auto
    ultimately show ?thesis using s1 y by simp
  qed
qed

text \<open>When the bits to come start with no word of the table, the loop raises.\<close>

lemma find_loop_unfound:
  assumes "decodable number reversed word t" and "ok s" and "cache_ok cl cached s"
    and "\<forall>x \<in> set t. take (length (word x)) (bits_of s) \<noteq> word x"
  shows "find_loop snoop read reversed cl cached t s = Inl TypeError"
  using assms
proof (induction t arbitrary: s cl cached)
  case Nil
  then show ?case by simp
next
  case (Cons y t)
  have y: "1 \<le> h_bits y" "length (word y) = nat (h_bits y)"
    "\<And>c. entry_matches reversed y c = Inr (c = Some (number (word y)))"
    using Cons.prems(1) by (auto simp: decodable_def)
  show ?case
  proof (cases "nat (h_bits y) \<le> length (bits_of s)")
    case True
    let ?look = "take (nat (h_bits y)) (bits_of s)"
    obtain s1 where s1: "(if cl \<noteq> h_bits y then rbind (snoop (h_bits y) s) (\<lambda>(v, s). Inr (Some v, h_bits y, s))
        else Inr (cached, cl, s)) = Inr (Some (number ?look), h_bits y, s1)" "ok s1" "bits_of s1 = bits_of s"
      using cache_step [OF Cons.prems(2,3) y(1) True] by blast
    have "?look \<noteq> word y" using Cons.prems(4) y(2) by simp
    moreover have "length ?look = length (word y)" using True y(2) by simp
    ultimately have "number ?look \<noteq> number (word y)" using number_inj by blast
    moreover have "cache_ok (h_bits y) (Some (number ?look)) s1"
      using s1(3) True by (simp add: cache_ok_def)
    with Cons.IH [OF decodable_Cons(1) [OF Cons.prems(1)] s1(2)] Cons.prems(4) s1(3)
    have "find_loop snoop read reversed (h_bits y) (Some (number ?look)) t s1 = Inl TypeError" by simp
    ultimately show ?thesis using s1 y by simp
  next
    case False
    then have "cl \<noteq> h_bits y" using Cons.prems(3) y(1) by (auto simp: cache_ok_def)
    with snoop_eof [OF Cons.prems(2)] False show ?thesis by simp
  qed
qed

end

section \<open>Tables built from code lengths\<close>

lemma bootstrap_loop_lengths:
  assumes "\<forall>l \<in> set lengths. 0 \<le> l" and "0 \<le> bits"
  shows "bootstrap_loop (int k) bits
      (zip (map int [Suc k..<Suc k + length lengths]) lengths @ [(int (Suc k + length lengths), -1)]) =
    map (\<lambda>(c, b). HuffmanLength (int c) b)
      (filter (\<lambda>(c, b). b \<noteq> 0) (zip [k..<Suc k + length lengths] (bits # lengths)))"
  using assms
proof (induction lengths arbitrary: k bits)
  case Nil
  then show ?case by simp
next
  case (Cons l ls)
  have len: "Suc k + length (l # ls) = Suc (Suc k) + length ls" by simp
  have upt: "[Suc k..<Suc (Suc k) + length ls] = Suc k # [Suc (Suc k)..<Suc (Suc k) + length ls]"
    "[k..<Suc (Suc k) + length ls] = k # Suc k # [Suc (Suc k)..<Suc (Suc k) + length ls]"
    by (simp_all add: upt_conv_Cons del: upt_Suc)
  have one: "[int k..int (Suc k) - 1] = [int k]" by simp
  from Cons.IH [of l "Suc k"] Cons.prems show ?case
    unfolding len upt list.map zip_Cons_Cons append_Cons bootstrap_loop.simps one
    by (simp del: upt_Suc)
qed

definition length_entries :: "int list \<Rightarrow> huff list" where
  "length_entries lengths = map (\<lambda>(c, b). HuffmanLength (int c) b)
     (filter (\<lambda>(c, b). b \<noteq> 0) (enumerate 0 lengths))"

lemma OrderedHuffmanTable_eq:
  assumes "\<forall>l \<in> set lengths. 0 \<le> l"
  shows "OrderedHuffmanTable lengths = Inr (sort_key huff_key (length_entries lengths))"
proof (cases lengths)
  case Nil
  then show ?thesis by (simp add: OrderedHuffmanTable_def HuffmanTable_def length_entries_def)
next
  case (Cons l ls)
  have upt: "[0..<length lengths] = 0 # [Suc 0..<Suc 0 + length ls]"
    unfolding Cons by (subst upt_conv_Cons) simp_all
  have z: "zip (map int [0..<length lengths]) lengths @ [(int (length lengths), -1)] =
      (0, l) # zip (map int [Suc 0..<Suc 0 + length ls]) ls @ [(int (Suc 0 + length ls), -1)]"
    unfolding upt by (simp add: Cons)
  have "zip [0..<Suc 0 + length ls] (l # ls) = enumerate 0 lengths"
    by (simp add: enumerate_eq_zip Cons)
  with bootstrap_loop_lengths [of ls l 0] assms Cons show ?thesis
    unfolding OrderedHuffmanTable_def Let_def z
    by (simp add: HuffmanTable_def length_entries_def)
qed

lemma length_entries_mem:
  "x \<in> set (length_entries lengths) \<longleftrightarrow>
     (\<exists>c. c < length lengths \<and> lengths ! c \<noteq> 0 \<and> x = HuffmanLength (int c) (lengths ! c))"
  by (auto simp: length_entries_def in_set_enumerate_eq image_iff Bex_def)

lemma length_entries_bits:
  "map h_bits (length_entries lengths) = filter (\<lambda>b. b \<noteq> 0) lengths"
proof -
  have "map h_bits (length_entries lengths) = map snd (filter (\<lambda>p. snd p \<noteq> 0) (enumerate 0 lengths))"
    by (simp add: length_entries_def HuffmanLength_def split_def comp_def)
  also have "\<dots> = filter (\<lambda>b. b \<noteq> 0) (map snd (enumerate 0 lengths))"
    by (simp only: filter_map comp_def)
  finally show ?thesis by simp
qed

lemma kraft_mset: "mset bs = mset bs' \<Longrightarrow> kraft M bs = kraft M bs'"
proof -
  assume eq: "mset bs = mset bs'"
  then have "set bs = set bs'" by (rule mset_eq_setD)
  moreover have "(\<Sum>b\<leftarrow>bs. 2 ^ nat (int M - b)) = (\<Sum>b\<leftarrow>bs'. (2 :: int) ^ nat (int M - b))"
    using eq by (metis mset_map sum_mset_sum_list)
  ultimately show "kraft M bs = kraft M bs'" by (simp add: kraft_def)
qed

text \<open>The table a list of code lengths gives, populated.\<close>

definition code_table :: "int list \<Rightarrow> huff list result" where
  "code_table lengths = rbind (OrderedHuffmanTable lengths) populate_huffman_symbols"

lemma code_table_ok:
  assumes "\<forall>l \<in> set lengths. 0 \<le> l"
  shows "\<exists>t. code_table lengths = Inr t \<and> populated t \<and>
    map h_bits t = map h_bits (sort_key huff_key (length_entries lengths)) \<and>
    map h_code t = map h_code (sort_key huff_key (length_entries lengths))"
proof -
  let ?t = "sort_key huff_key (length_entries lengths)"
  have "sorted (map (fst \<circ> huff_key) ?t)"
    using sorted_sort_key [of huff_key "length_entries lengths"]
    by (auto simp: sorted_map less_eq_prod_def elim!: sorted_wrt_mono_rel [rotated])
  then have "sorted (map h_bits ?t)" by (simp add: huff_key_def comp_def)
  moreover have "\<forall>x \<in> set ?t. 1 \<le> h_bits x"
  proof
    fix x assume "x \<in> set ?t"
    then obtain c where "c < length lengths" "lengths ! c \<noteq> 0" "h_bits x = lengths ! c"
      by (auto simp: length_entries_mem HuffmanLength_def)
    then show "1 \<le> h_bits x" using assms nth_mem [of c lengths] by fastforce
  qed
  ultimately have "by_length ?t" by (simp add: by_length_def)
  from populate_ok [OF this] show ?thesis
    by (auto simp: code_table_def OrderedHuffmanTable_eq [OF assms])
qed

lemma code_table_kraft:
  assumes "map h_bits t = map h_bits (sort_key huff_key (length_entries lengths))"
  shows "kraft M (map h_bits t) = kraft M (filter (\<lambda>b. b \<noteq> 0) lengths)"
proof (rule kraft_mset)
  show "mset (map h_bits t) = mset (filter (\<lambda>b. b \<noteq> 0) lengths)"
    unfolding assms by (simp only: mset_map mset_sort length_entries_bits [symmetric])
qed

lemma populated_decodable:
  assumes "populated t" and "kraft M (map h_bits t)"
  shows "decodable (bits_value RBitfield) False codeword t"
    and "decodable (bits_value Bitfield) True codeword t"
proof -
  have order: "h_bits (t ! i) \<le> h_bits (t ! j) \<and>
      take (length (codeword (t ! i))) (codeword (t ! j)) \<noteq> codeword (t ! i)"
    if "i < j" "j < length t" for i j
    using canonical_symbol_mono(1) [OF assms(1) that] canonical_prefix_free [OF assms that] by simp
  have "1 \<le> h_bits x" if "x \<in> set t" for x
    using assms(1) that by (auto simp: populated_def by_length_def)
  then show "decodable (bits_value RBitfield) False codeword t"
    "decodable (bits_value Bitfield) True codeword t"
    using order entry_matches_populated [OF assms(1)] entry_key_msb [OF assms]
      entry_key_lsb [OF assms(1)]
    by (simp_all add: decodable_def)
qed

text \<open>Which bit order the caller of \<open>find_next_symbol\<close> has to ask for.\<close>

lemma find_next_symbol_found:
  assumes "populated t" and "kraft M (map h_bits t)" and "x \<in> set t"
    and "wf_field s" and "stream s = codeword x @ rest"
  shows "\<exists>s'. find_next_symbol t s (bf_class s = Bitfield) = Inr (h_code x, s') \<and>
    wf_field s' \<and> bf_class s' = bf_class s \<and> stream s' = rest"
proof (cases "bf_class s")
  case Bitfield
  with assms lsb.find_loop_found [OF populated_decodable(2) [OF assms(1,2)] assms(3), of s rest "-1" None]
  show ?thesis by (auto simp: find_next_symbol_def lsb_field_def lsb.cache_ok_def)
next
  case RBitfield
  with assms msb.find_loop_found [OF populated_decodable(1) [OF assms(1,2)] assms(3), of s rest "-1" None]
  show ?thesis by (auto simp: find_next_symbol_def msb_field_def msb.cache_ok_def)
qed

lemma find_next_symbol_unfound:
  assumes "populated t" and "kraft M (map h_bits t)" and "wf_field s"
    and "\<forall>x \<in> set t. take (length (codeword x)) (stream s) \<noteq> codeword x"
  shows "find_next_symbol t s (bf_class s = Bitfield) = Inl TypeError"
proof (cases "bf_class s")
  case Bitfield
  with assms lsb.find_loop_unfound [OF populated_decodable(2) [OF assms(1,2)], of s "-1" None]
  show ?thesis by (simp add: find_next_symbol_def lsb_field_def lsb.cache_ok_def)
next
  case RBitfield
  with assms msb.find_loop_unfound [OF populated_decodable(1) [OF assms(1,2)], of s "-1" None]
  show ?thesis by (simp add: find_next_symbol_def msb_field_def msb.cache_ok_def)
qed

end
