(* ===== verification/Bwt.thy ===== *)
theory Bwt
  imports PyPrelude "HOL-Library.List_Lexorder" "HOL-Library.Multiset"
begin

text \<open>
  The reversible transformations of \<^verbatim>\<open>own/pyflate-fast.py\<close>: \<open>move_to_front\<close>, the inverse
  Burrows-Wheeler transformation (\<open>bwt_transform\<close>, \<open>bwt_reverse\<close>) and the final run-length
  step of \<open>decode_huffman_block\<close>. A byte string is the list of its character codes. The lemmas
  show that \<open>bwt_transform\<close> is a stable counting sort, that \<open>bwt_reverse\<close> recovers the original
  string from the last column of its sorted rotations, periodic strings included, and that the
  run-length step undoes the encoder's.
\<close>

section \<open>The operations\<close>

definition move_to_front :: "'a list \<Rightarrow> nat \<Rightarrow> 'a list" where
  "move_to_front l c = take 1 (drop c l) @ take c l @ drop (c + 1) l"

text \<open>\<open>F.find(chr(i))\<close>.\<close>

definition str_find :: "nat list \<Rightarrow> nat \<Rightarrow> int" where
  "str_find F c = (if c \<in> set F then int (length (takeWhile (\<lambda>x. x \<noteq> c) F)) else -1)"

definition bwt_step :: "nat \<times> nat \<Rightarrow> int list \<times> int list \<Rightarrow> (int list \<times> int list) result" where
  "bwt_step = (\<lambda>(i, symbol) (pointers, base).
     rbind (lget base symbol) (\<lambda>b.
     rbind (py_set pointers b (int i)) (\<lambda>pointers.
     rbind (lset base symbol (b + 1)) (\<lambda>base. Inr (pointers, base)))))"

definition bwt_transform :: "nat list \<Rightarrow> int list result" where
  "bwt_transform L =
     (let F = sort L; base = map (str_find F) [0..<256]
      in rbind (for_each (enumerate 0 L) bwt_step (replicate (length L) (-1), base))
           (\<lambda>(pointers, base). Inr pointers))"

definition bwt_out_step :: "int list \<Rightarrow> nat list \<Rightarrow> nat \<Rightarrow> int \<times> nat list \<Rightarrow> (int \<times> nat list) result" where
  "bwt_out_step T L i = (\<lambda>(end, out).
     rbind (py_get T end) (\<lambda>end.
     rbind (py_get L end) (\<lambda>c. Inr (end, out @ [c]))))"

definition bwt_reverse :: "nat list \<Rightarrow> int \<Rightarrow> nat list result" where
  "bwt_reverse L end =
     (if length L = 0 then Inr []
      else rbind (bwt_transform L) (\<lambda>T.
           rbind (for_each [0..<length L] (bwt_out_step T L) (end, []))
             (\<lambda>(end, out). Inr out)))"

text \<open>The run-length step: \<open>i\<close> walks over \<open>nearly_there\<close>.\<close>

function rle_loop :: "nat list \<Rightarrow> nat \<Rightarrow> nat list \<Rightarrow> nat list" where
  "rle_loop nt i out =
     (if i < length nt then
        if int i < int (length nt) - 4 \<and> nt ! i = nt ! (i + 1) \<and> nt ! (i + 1) = nt ! (i + 2) \<and>
           nt ! (i + 2) = nt ! (i + 3)
        then rle_loop nt (i + 5) (out @ replicate (nt ! (i + 4) + 4) (nt ! i))
        else rle_loop nt (i + 1) (out @ [nt ! i])
      else out)"
  by pat_completeness auto
termination by (relation "measure (\<lambda>(nt, i, out). length nt - i)") auto

declare rle_loop.simps [simp del]

section \<open>Moving to the front\<close>

lemma move_to_front_nth: "c < length l \<Longrightarrow> move_to_front l c = l ! c # take c l @ drop (Suc c) l"
  by (simp add: move_to_front_def take_Suc_conv_app_nth hd_drop_conv_nth take_Suc)

lemma move_to_front_out: "length l \<le> c \<Longrightarrow> move_to_front l c = l"
  by (simp add: move_to_front_def)

lemma mset_move_to_front: "mset (move_to_front l c) = mset l"
proof (cases "c < length l")
  case True
  have "mset (take c l @ l ! c # drop (Suc c) l) = mset l"
    using id_take_nth_drop [OF True] by simp
  with True show ?thesis by (simp add: move_to_front_nth)
qed (simp add: move_to_front_out)

lemma length_move_to_front [simp]: "length (move_to_front l c) = length l"
  by (metis mset_move_to_front size_mset)

lemma set_move_to_front [simp]: "set (move_to_front l c) = set l"
  by (metis mset_move_to_front set_mset_mset)

lemma distinct_move_to_front: "distinct l \<Longrightarrow> distinct (move_to_front l c)"
  by (metis mset_move_to_front mset_eq_imp_distinct_iff)

text \<open>The coder's side: the index of each symbol in the list of favourites, then the move.\<close>

fun mtf_encode :: "'a list \<Rightarrow> 'a list \<Rightarrow> nat list" where
  "mtf_encode l [] = []"
| "mtf_encode l (x # xs) =
     (let c = length (takeWhile (\<lambda>y. y \<noteq> x) l) in c # mtf_encode (move_to_front l c) xs)"

fun mtf_decode :: "'a list \<Rightarrow> nat list \<Rightarrow> 'a list result" where
  "mtf_decode l [] = Inr []"
| "mtf_decode l (c # cs) =
     rbind (lget l c) (\<lambda>x. rbind (mtf_decode (move_to_front l c) cs) (\<lambda>xs. Inr (x # xs)))"

lemma nth_first: "x \<in> set l \<Longrightarrow> length (takeWhile (\<lambda>y. y \<noteq> x) l) < length l \<and>
    l ! length (takeWhile (\<lambda>y. y \<noteq> x) l) = x"
  by (induction l) auto

lemma mtf_roundtrip: "set xs \<subseteq> set l \<Longrightarrow> mtf_decode l (mtf_encode l xs) = Inr xs"
  by (induction xs arbitrary: l) (auto simp: Let_def nth_first)

section \<open>\<open>bwt_transform\<close> is a stable sort of the positions\<close>

lemma insort_key_map: "insort_key f (g x) (map g xs) = map g (insort_key (\<lambda>x. f (g x)) x xs)"
  by (induction xs) auto

lemma sort_key_map: "sort_key f (map g xs) = map g (sort_key (\<lambda>x. f (g x)) xs)"
  by (induction xs) (simp_all add: insort_key_map)

lemma sort_key_nth: "sort_key f xs = map ((!) xs) (sort_key (\<lambda>i. f (xs ! i)) [0..<length xs])"
  using sort_key_map [of f "(!) xs" "[0..<length xs]"] by (simp add: map_nth)

text \<open>A sorted list is what is below \<open>c\<close>, then what equals it, then the rest.\<close>

lemma sorted_split3:
  "sorted (map f xs) \<Longrightarrow>
   xs = filter (\<lambda>x. f x < c) xs @ filter (\<lambda>x. f x = c) xs @ filter (\<lambda>x. c < f x) xs"
proof (induction xs)
  case Nil
  then show ?case by simp
next
  case (Cons x xs)
  have "filter (\<lambda>x. f x < c) xs = []" if "c \<le> f x"
    using Cons.prems that by (fastforce simp: filter_empty_conv)
  moreover have "filter (\<lambda>x. f x = c) xs = []" if "c < f x"
    using Cons.prems that by (fastforce simp: filter_empty_conv)
  ultimately show ?case
    using Cons by (cases "f x" c rule: linorder_cases) auto
qed

definition rank :: "nat list \<Rightarrow> nat \<Rightarrow> nat" where
  "rank L i = length (filter (\<lambda>x. x < L ! i) L) + length (filter (\<lambda>x. x = L ! i) (take i L))"

abbreviation positions :: "nat list \<Rightarrow> nat list" where
  "positions L \<equiv> sort_key ((!) L) [0..<length L]"

lemma filter_upt_length: "length (filter (\<lambda>j. P (L ! j)) [0..<length L]) = length (filter P L)"
proof -
  have "filter P (map ((!) L) [0..<length L]) = map ((!) L) (filter (\<lambda>j. P (L ! j)) [0..<length L])"
    by (simp add: filter_map comp_def)
  then show ?thesis by (metis length_map map_nth)
qed

lemma positions_rank:
  assumes "i < length L"
  shows "rank L i < length L" and "positions L ! rank L i = i"
proof -
  let ?S = "positions L" and ?c = "L ! i" and ?n = "length L"
  let ?eq = "filter (\<lambda>j. L ! j = ?c) [0..<?n]"
  have S: "?S = filter (\<lambda>j. L ! j < ?c) ?S @ filter (\<lambda>j. L ! j = ?c) ?S @ filter (\<lambda>j. ?c < L ! j) ?S"
    by (rule sorted_split3 [of "(!) L"]) simp
  have "[0..<?n] = [0..<i] @ i # [Suc i..<?n]"
    using assms by (metis le0 less_imp_le upt_add_eq_append upt_conv_Cons le_add_diff_inverse)
  then have eq: "?eq = filter (\<lambda>j. L ! j = ?c) [0..<i] @ i # filter (\<lambda>j. L ! j = ?c) [Suc i..<?n]"
    by simp
  have len: "length (filter (\<lambda>j. L ! j = ?c) [0..<i]) = length (filter (\<lambda>x. x = ?c) (take i L))"
  proof -
    have "filter (\<lambda>j. L ! j = ?c) [0..<i] = filter (\<lambda>j. take i L ! j = ?c) [0..<i]"
      by (rule filter_cong) auto
    with filter_upt_length [of "\<lambda>x. x = ?c" "take i L"] assms show ?thesis by (simp add: min_def)
  qed
  have less: "length (filter (\<lambda>j. L ! j < ?c) ?S) = length (filter (\<lambda>x. x < ?c) L)"
    using filter_upt_length [of "\<lambda>x. x < ?c" L]
    by (metis mset_filter mset_sort size_mset)
  have mid: "filter (\<lambda>j. L ! j = ?c) ?S = ?eq" by (rule sort_key_stable)
  let ?r = "length (filter (\<lambda>x. x = ?c) (take i L))"
  have r: "?r < length ?eq" "?eq ! ?r = i"
    using eq len by (simp_all add: nth_append)
  have "?S ! rank L i = ?eq ! ?r"
    using r by (subst S) (simp add: rank_def mid nth_append less)
  with r show "?S ! rank L i = i" by simp
  have "length ?S = length (filter (\<lambda>j. L ! j < ?c) ?S) + length ?eq + length (filter (\<lambda>j. ?c < L ! j) ?S)"
    by (subst (1) S) (simp only: length_append mid add.assoc)
  with r show "rank L i < ?n" by (simp add: rank_def less)
qed

lemma rank_inj: "i < length L \<Longrightarrow> j < length L \<Longrightarrow> rank L i = rank L j \<Longrightarrow> i = j"
  by (metis positions_rank(2))

lemma first_of_sorted:
  "sorted F \<Longrightarrow> c \<in> set F \<Longrightarrow> length (takeWhile (\<lambda>x. x \<noteq> c) F) = length (filter (\<lambda>x. x < (c :: nat)) F)"
proof (induction F)
  case Nil
  then show ?case by simp
next
  case (Cons x F)
  then show ?case
    by (cases "x = c") (fastforce simp: filter_empty_conv)+
qed

lemma str_find_sort: "c \<in> set L \<Longrightarrow> str_find (sort L) c = int (length (filter (\<lambda>x. x < c) L))"
proof -
  assume c: "c \<in> set L"
  have "length (filter (\<lambda>x. x < c) (sort L)) = length (filter (\<lambda>x. x < c) L)"
    by (metis mset_filter mset_sort size_mset)
  with c first_of_sorted [of "sort L" c] show ?thesis by (simp add: str_find_def)
qed

text \<open>With \<open>k\<close> characters done, \<open>base\<close> points behind the entries of each character.\<close>

definition counted :: "nat list \<Rightarrow> nat \<Rightarrow> int list \<times> int list \<Rightarrow> bool" where
  "counted L k = (\<lambda>(pointers, base).
     length pointers = length L \<and> length base = 256 \<and>
     (\<forall>i < k. pointers ! rank L i = int i) \<and>
     (\<forall>c \<in> set L. base ! c =
        int (length (filter (\<lambda>x. x < c) L) + length (filter (\<lambda>x. x = c) (take k L)))))"

lemma counted_step:
  assumes L: "\<forall>c \<in> set L. c < 256" and k: "k < length L" and inv: "counted L k (pointers, base)"
  shows "\<exists>st. bwt_step (k, L ! k) (pointers, base) = Inr st \<and> counted L (Suc k) st"
proof -
  let ?c = "L ! k" and ?r = "rank L k"
  have c: "?c \<in> set L" "?c < length base" using L k inv by (auto simp: counted_def)
  have base: "base ! ?c = int ?r" using inv c(1) by (simp add: counted_def rank_def)
  have r: "?r < length pointers" using positions_rank(1) [OF k] inv by (simp add: counted_def)
  let ?st = "(pointers[?r := int k], base[?c := int ?r + 1])"
  have "bwt_step (k, ?c) (pointers, base) = Inr ?st"
    using c base r by (simp add: bwt_step_def py_set_def py_index_def)
  moreover have "counted L (Suc k) ?st"
  proof -
    have "pointers[?r := int k] ! rank L i = int i" if "i < Suc k" for i
      using that k inv r rank_inj [of i L k] by (cases "i = k") (auto simp: counted_def nth_list_update)
    moreover have "base[?c := int ?r + 1] ! c =
        int (length (filter (\<lambda>x. x < c) L) + length (filter (\<lambda>x. x = c) (take (Suc k) L)))"
      if "c \<in> set L" for c
      using that k inv c by (cases "c = ?c") (auto simp: counted_def rank_def take_Suc_conv_app_nth)
    ultimately show ?thesis using inv by (auto simp: counted_def)
  qed
  ultimately show ?thesis by blast
qed

lemma bwt_transform_positions:
  assumes "\<forall>c \<in> set L. c < 256"
  shows "bwt_transform L = Inr (map int (positions L))"
proof -
  let ?base = "map (str_find (sort L)) [0..<256]"
  have "counted L 0 (replicate (length L) (-1), ?base)"
    using assms by (simp add: counted_def str_find_sort)
  moreover have "\<exists>u'. bwt_step (enumerate 0 L ! k) u = Inr u' \<and> counted L (Suc k) u'"
    if "k < length (enumerate 0 L)" "counted L k u" for k u
    using counted_step [OF assms, of k "fst u" "snd u"] that by (simp add: nth_enumerate_eq)
  ultimately obtain pointers base where
    loop: "for_each (enumerate 0 L) bwt_step (replicate (length L) (-1), ?base) = Inr (pointers, base)"
    and inv: "counted L (length L) (pointers, base)"
    using for_each_count [of "counted L" "(replicate (length L) (-1), ?base)" "enumerate 0 L" bwt_step]
    by auto
  have "pointers = map int (positions L)"
  proof (rule nth_equalityI)
    show len: "length pointers = length (map int (positions L))"
      using inv by (simp add: counted_def)
    fix j assume "j < length pointers"
    then have j: "j < length L" using len by simp
    have "inj_on (rank L) {..<length L}" by (auto intro: inj_onI rank_inj)
    moreover have "rank L ` {..<length L} \<subseteq> {..<length L}" using positions_rank(1) by auto
    ultimately have "rank L ` {..<length L} = {..<length L}"
      by (intro endo_inj_surj) auto
    then obtain i where "i < length L" "rank L i = j" using j by (metis imageE lessThan_iff)
    with inv positions_rank(2) [of i L] j show "pointers ! j = map int (positions L) ! j"
      by (auto simp: counted_def)
  qed
  with loop show ?thesis by (simp add: bwt_transform_def Let_def)
qed

section \<open>\<open>bwt_reverse\<close> inverts the Burrows-Wheeler transformation\<close>

text \<open>The transformation: sort the rotations, keep their last characters.\<close>

definition rotations :: "nat list \<Rightarrow> nat list list" where
  "rotations s = sort (map (\<lambda>i. rotate i s) [0..<length s])"

definition bwt_encode :: "nat list \<Rightarrow> nat list" where
  "bwt_encode s = map last (rotations s)"

definition rotr :: "'a list \<Rightarrow> 'a list" where
  "rotr xs = (if xs = [] then [] else last xs # butlast xs)"

lemma rotr_rotate1 [simp]: "rotr (rotate1 xs) = xs"
  by (cases xs) (simp_all add: rotr_def)

lemma rotate1_rotr [simp]: "rotate1 (rotr xs) = xs"
  by (simp add: rotr_def)

lemma append_le_append:
  "length u = length v \<Longrightarrow> u @ [c] \<le> v @ [d] \<Longrightarrow> u \<le> (v :: nat list)"
  by (induction u v rule: list_induct2) (auto simp: Cons_le_Cons)

lemma rotr_le:
  assumes "length u = length v" and "u \<le> v" and "last u = last v"
  shows "rotr u \<le> rotr (v :: nat list)"
proof (cases "u = []")
  case True
  with assms show ?thesis by (simp add: rotr_def)
next
  case False
  then have "v \<noteq> []" using assms(1) by auto
  have "butlast u @ [last u] \<le> butlast v @ [last v]"
    using assms(2) False \<open>v \<noteq> []\<close> by simp
  then have "butlast u \<le> butlast v" by (rule append_le_append [rotated]) (use assms in simp)
  with False \<open>v \<noteq> []\<close> assms(3) show ?thesis by (simp add: rotr_def Cons_le_Cons)
qed

text \<open>Sorted by a key, and sorted within each key, is sorted.\<close>

lemma sorted_by_key:
  assumes "sorted (map hd xs)" and "\<And>c. sorted (filter (\<lambda>x. hd x = c) xs)" and "[] \<notin> set xs"
  shows "sorted (xs :: nat list list)"
  using assms
proof (induction xs)
  case Nil
  then show ?case by simp
next
  case (Cons x xs)
  have "sorted (filter (\<lambda>x. hd x = c) xs)" for c
    using Cons.prems(2) [of c] by (auto split: if_splits)
  with Cons have "sorted xs" by simp
  moreover have "x \<le> y" if "y \<in> set xs" for y
  proof (cases "hd x = hd y")
    case True
    with Cons.prems(2) [of "hd x"] that show ?thesis by (auto split: if_splits)
  next
    case False
    have "x \<noteq> []" "y \<noteq> []" using Cons.prems(3) that by auto
    moreover have "hd x \<le> hd y" using Cons.prems(1) that by auto
    ultimately show ?thesis using False by (cases x; cases y) (auto simp: Cons_le_Cons)
  qed
  ultimately show ?case by simp
qed

lemma mset_rotr_rotations: "mset (map rotr (rotations s)) = mset (rotations s)"
proof -
  let ?R = "map (\<lambda>i. rotate i s) [0..<length s]"
  have "mset (map rotate1 ?R) = mset (map (\<lambda>i. rotate i s) [Suc 0..<Suc (length s)])"
  proof -
    have "map rotate1 ?R = map (\<lambda>i. rotate i s) (map Suc [0..<length s])"
      by (simp add: rotate_def comp_def)
    then show ?thesis by (simp only: map_Suc_upt)
  qed
  also have "\<dots> = mset ?R"
  proof (cases s)
    case Nil
    then show ?thesis by simp
  next
    case (Cons a as)
    then have "[0..<length s] = 0 # [Suc 0..<length s]"
      by (simp add: upt_conv_Cons del: upt_Suc)
    moreover have "[Suc 0..<Suc (length s)] = [Suc 0..<length s] @ [length s]" using Cons by simp
    ultimately show ?thesis by simp
  qed
  finally have "mset (map rotr (map rotate1 ?R)) = mset (map rotr ?R)"
    by (simp only: mset_map)
  moreover have "map rotr (map rotate1 ?R) = ?R" by simp
  ultimately have "mset (map rotr ?R) = mset ?R" by metis
  moreover have "mset (map rotr (rotations s)) = mset (map rotr ?R)"
    by (simp only: rotations_def mset_map mset_sort)
  ultimately show ?thesis by (simp only: rotations_def mset_sort)
qed

lemma rotations_elem: "x \<in> set (rotations s) \<Longrightarrow> length x = length s"
  by (auto simp: rotations_def)

lemma length_rotations [simp]: "length (rotations s) = length s"
  by (simp add: rotations_def)

lemma length_bwt_encode [simp]: "length (bwt_encode s) = length s"
  by (simp add: bwt_encode_def)

text \<open>Rotating every row right and sorting by the first character gives the rows back.\<close>

lemma sort_rotr_rotations: "sort_key hd (map rotr (rotations s)) = rotations s"
proof -
  let ?M = "rotations s" and ?N = "map rotr (rotations s)"
  let ?Q = "sort_key hd ?N"
  have nonempty: "x \<noteq> []" if "x \<in> set ?M" for x
  proof -
    have "s \<noteq> []" using that by (auto simp: rotations_def)
    with rotations_elem [OF that] show ?thesis by auto
  qed
  have "sorted_wrt (\<lambda>x y. x \<le> y) ?M" by (simp add: rotations_def)
  then have "sorted_wrt (\<lambda>x y. hd (rotr x) = hd (rotr y) \<longrightarrow> rotr x \<le> rotr y) ?M"
  proof (rule sorted_wrt_mono_rel [rotated])
    fix x y assume xy: "x \<in> set ?M" "y \<in> set ?M" "x \<le> y"
    then show "hd (rotr x) = hd (rotr y) \<longrightarrow> rotr x \<le> rotr y"
      using rotr_le [of x y] rotations_elem [OF xy(1)] rotations_elem [OF xy(2)] nonempty
      by (simp add: rotr_def split: if_splits)
  qed
  then have N: "sorted_wrt (\<lambda>x y. hd x = hd y \<longrightarrow> x \<le> y) ?N" by (simp add: sorted_wrt_map)
  have "sorted (filter (\<lambda>x. hd x = c) ?Q)" for c
  proof -
    have "sorted_wrt (\<lambda>x y. hd x = hd y \<longrightarrow> x \<le> y) (filter (\<lambda>x. hd x = c) ?N)"
      using N by (rule sorted_wrt_filter)
    then have "sorted (filter (\<lambda>x. hd x = c) ?N)"
      by (rule sorted_wrt_mono_rel [rotated]) auto
    then show ?thesis by (simp add: sort_key_stable)
  qed
  moreover have "[] \<notin> set ?Q" using nonempty by (auto simp: rotr_def split: if_splits)
  ultimately have "sorted ?Q" using sorted_sort_key [of hd ?N] sorted_by_key [of ?Q] by blast
  moreover have "mset ?Q = mset ?M" by (simp only: mset_sort mset_rotr_rotations)
  ultimately have "sort ?M = ?Q" by (intro properties_for_sort)
  moreover have "sort ?M = ?M" by (rule sorted_sort_id) (simp add: rotations_def)
  ultimately show ?thesis by simp
qed

text \<open>One step of the vector: the row after row \<open>j\<close>, one character further on.\<close>

lemma positions_step:
  assumes "j < length s"
  shows "positions (bwt_encode s) ! j < length s"
    and "rotations s ! (positions (bwt_encode s) ! j) = rotate1 (rotations s ! j)"
proof -
  let ?M = "rotations s" and ?N = "map rotr (rotations s)" and ?L = "bwt_encode s"
  have hd: "hd (?N ! i) = ?L ! i" if "i < length s" for i
  proof -
    have "length (?M ! i) = length s" using rotations_elem that by simp
    then have "?M ! i \<noteq> []" using that by auto
    with that show ?thesis by (simp add: rotr_def bwt_encode_def)
  qed
  have T: "sort_key (\<lambda>i. hd (?N ! i)) [0..<length s] = positions ?L"
  proof -
    have "insort_key (\<lambda>i. hd (?N ! i)) x xs = insort_key ((!) ?L) x xs"
      if "x < length s" "set xs \<subseteq> {..<length s}" for x xs
      using that hd by (induction xs) auto
    then have "sort_key (\<lambda>i. hd (?N ! i)) xs = sort_key ((!) ?L) xs" if "set xs \<subseteq> {..<length s}" for xs
      using that by (induction xs) auto
    from this [of "[0..<length s]"] show ?thesis by (simp add: atLeast0LessThan)
  qed
  have "set (positions ?L) = {..<length s}" by auto
  with assms show less: "positions ?L ! j < length s"
    by (metis length_bwt_encode length_sort length_upt lessThan_iff minus_nat.diff_0 nth_mem)
  have "?M ! j = map ((!) ?N) (positions ?L) ! j"
    using sort_key_nth [of hd ?N] by (simp add: sort_rotr_rotations T)
  also have "\<dots> = rotr (?M ! (positions ?L ! j))" using assms less by simp
  finally show "?M ! (positions ?L ! j) = rotate1 (?M ! j)" by simp
qed

lemma bwt_out_loop:
  assumes "length s = n" and "e < n"
    and "\<forall>j < n. T ! j < n \<and> rotations s ! (T ! j) = rotate1 (rotations s ! j)" and "length T = n"
  shows "\<exists>st. for_each [0..<k] (bwt_out_step (map int T) (bwt_encode s)) (int e, []) = Inr st \<and>
    (\<exists>e' < n. fst st = int e' \<and> rotations s ! e' = rotate k (rotations s ! e)) \<and>
    snd st = map (\<lambda>i. rotations s ! e ! (i mod n)) [0..<k]"
proof (induction k)
  case 0
  with assms show ?case by auto
next
  case (Suc k)
  let ?M = "rotations s"
  obtain e' out where IH: "for_each [0..<k] (bwt_out_step (map int T) (bwt_encode s)) (int e, []) = Inr (int e', out)"
    "e' < n" "?M ! e' = rotate k (?M ! e)" "out = map (\<lambda>i. ?M ! e ! (i mod n)) [0..<k]"
    using Suc.IH by auto
  have e': "T ! e' < n" "?M ! (T ! e') = rotate1 (?M ! e')" using assms(3) IH(2) by auto
  have row: "length (?M ! i) = n" if "i < n" for i
    using rotations_elem [of "?M ! i" s] that assms(1) by simp
  have "bwt_encode s ! (T ! e') = last (rotate1 (?M ! e'))"
    using e' assms(1) by (simp add: bwt_encode_def)
  also have "\<dots> = hd (?M ! e')"
    using row [OF IH(2)] IH(2) by (cases "?M ! e'") auto
  also have "\<dots> = ?M ! e ! (k mod n)"
    using row [OF assms(2)] assms(2)
    by (subst IH(3), subst hd_rotate_conv_nth) auto
  finally have "bwt_out_step (map int T) (bwt_encode s) k (int e', out) =
      Inr (int (T ! e'), out @ [?M ! e ! (k mod n)])"
    using IH(2) e'(1) assms by (simp add: bwt_out_step_def py_get_def py_index_def)
  with IH e' show ?case
    by (auto simp: for_each_append rotate_def intro!: exI [of _ "T ! e'"])
qed

theorem bwt_reverse_encode:
  assumes "\<forall>c \<in> set s. c < 256" and "e < length s" and "rotations s ! e = s"
  shows "bwt_reverse (bwt_encode s) (int e) = Inr s"
proof -
  let ?L = "bwt_encode s" and ?n = "length s"
  have "set ?L \<subseteq> set s"
  proof
    fix c assume "c \<in> set ?L"
    then obtain i where "i < ?n" "c = last (rotate i s)"
      by (auto simp: bwt_encode_def rotations_def)
    then have "c \<in> set (rotate i s)" by (metis last_in_set length_0_conv length_rotate not_less_zero)
    then show "c \<in> set s" by simp
  qed
  then have T: "bwt_transform ?L = Inr (map int (positions ?L))"
    using assms(1) by (intro bwt_transform_positions) auto
  obtain e' out where loop: "for_each [0..<?n] (bwt_out_step (map int (positions ?L)) ?L) (int e, []) = Inr (e', out)"
    and out: "out = map (\<lambda>i. s ! (i mod ?n)) [0..<?n]"
    using bwt_out_loop [of s ?n e "positions ?L" ?n] positions_step assms by auto
  have "out = s" unfolding out by (intro nth_equalityI) simp_all
  with loop T assms(2) show ?thesis by (auto simp: bwt_reverse_def)
qed

section \<open>The run-length step undoes the encoder's\<close>

text \<open>
  The encoder: a run of four to 259 equal bytes becomes four of them and a count, a shorter
  run is copied.
\<close>

function rle_encode :: "nat list \<Rightarrow> nat list" where
  "rle_encode [] = []"
| "rle_encode (x # xs) =
     (let k = min 259 (length (takeWhile (\<lambda>y. y = x) (x # xs)))
      in (if k < 4 then replicate k x else replicate 4 x @ [k - 4]) @ rle_encode (drop k (x # xs)))"
  by pat_completeness auto
termination by (relation "measure length") auto

declare rle_encode.simps(2) [simp del]

text \<open>What the loop does with the suffix that is left.\<close>

fun rle_spec :: "nat list \<Rightarrow> nat list" where
  "rle_spec (a # b # c # d # e # r) =
     (if a = b \<and> b = c \<and> c = d then replicate (e + 4) a @ rle_spec r
      else a # rle_spec (b # c # d # e # r))"
| "rle_spec (a # r) = a # rle_spec r"
| "rle_spec [] = []"

lemma rle_spec_short: "length r < 4 \<Longrightarrow> rle_spec (a # r) = a # rle_spec r"
  by (cases "(a # r)" rule: rle_spec.cases) auto

lemma rle_loop_spec: "rle_loop nt i out = out @ rle_spec (drop i nt)"
proof (induction nt i out rule: rle_loop.induct)
  case (1 nt i out)
  show ?case
  proof (cases "i < length nt")
    case False
    then show ?thesis by (simp add: rle_loop.simps [of nt i])
  next
    case True
    then have d1: "drop i nt = nt ! i # drop (Suc i) nt" by (simp add: Cons_nth_drop_Suc)
    show ?thesis
    proof (cases "i + 4 < length nt")
      case more: True
      then have d4: "drop (Suc i) nt =
          nt ! (i + 1) # nt ! (i + 2) # nt ! (i + 3) # nt ! (i + 4) # drop (i + 5) nt"
        by (simp add: Cons_nth_drop_Suc numeral_eq_Suc)
      have "rle_spec (nt ! i # drop (Suc i) nt) =
          (if nt ! i = nt ! (i + 1) \<and> nt ! (i + 1) = nt ! (i + 2) \<and> nt ! (i + 2) = nt ! (i + 3)
           then replicate (nt ! (i + 4) + 4) (nt ! i) @ rle_spec (drop (i + 5) nt)
           else nt ! i # rle_spec (drop (Suc i) nt))"
        unfolding d4 by (rule rle_spec.simps(1))
      moreover have "int i < int (length nt) - 4" using more by simp
      ultimately show ?thesis
        using 1 True d1 by (simp add: rle_loop.simps [of nt i] del: rle_spec.simps)
    next
      case False
      then have "length (drop (Suc i) nt) < 4" by simp
      with 1 True False d1 show ?thesis
        by (auto simp: rle_loop.simps [of nt i] rle_spec_short)
    qed
  qed
qed

lemma rle_spec_run:
  assumes "0 < k" and "k < 4" and "r = [] \<or> hd r \<noteq> x"
  shows "rle_spec (replicate k x @ r) = replicate k x @ rle_spec r"
proof -
  have step: "rle_spec (x # replicate j x @ r) = x # rle_spec (replicate j x @ r)" if "j < 3" for j
  proof (cases "x # replicate j x @ r" rule: rle_spec.cases)
    case (1 a b c d e q)
    with that assms(3) have "\<not> (a = b \<and> b = c \<and> c = d)"
      by (auto simp: less_Suc_eq numeral_eq_Suc)
    then have "rle_spec (a # b # c # d # e # q) = a # rle_spec (b # c # d # e # q)"
      by (simp only: rle_spec.simps(1) if_False)
    moreover have "x = a" using 1 by simp
    moreover have "replicate j x @ r = b # c # d # e # q" using 1 by blast
    ultimately show ?thesis by (simp only:)
  qed auto
  have "j < 4 \<Longrightarrow> rle_spec (replicate j x @ r) = replicate j x @ rle_spec r" for j
    using step by (induction j) auto
  then show ?thesis using assms(2) by blast
qed

lemma hd_rle_encode: "hd (rle_encode (x # xs)) = x"
proof -
  define k where "k = min 259 (length (takeWhile (\<lambda>y. y = x) (x # xs)))"
  obtain j where j: "k = Suc j" by (cases k) (auto simp: k_def)
  have "rle_encode (x # xs) =
      (if k < 4 then replicate k x else replicate 4 x @ [k - 4]) @ rle_encode (drop k (x # xs))"
    by (simp only: rle_encode.simps(2) Let_def k_def)
  then show ?thesis by (simp add: j numeral_eq_Suc)
qed

lemma rle_loop_encode: "rle_loop (rle_encode s) 0 out = out @ s"
proof -
  have "rle_spec (rle_encode s) = s"
  proof (induction s rule: rle_encode.induct)
    case 1
    then show ?case by simp
  next
    case (2 x xs)
    let ?s = "x # xs" and ?run = "takeWhile (\<lambda>y. y = x) (x # xs)"
    define k where "k = min 259 (length ?run)"
    have enc: "rle_encode ?s =
        (if k < 4 then replicate k x else replicate 4 x @ [k - 4]) @ rle_encode (drop k ?s)"
      by (simp only: rle_encode.simps(2) Let_def k_def)
    have IH: "rle_spec (rle_encode (drop k ?s)) = drop k ?s" using 2 by (simp add: k_def)
    have "take (length ?run) ?s = ?run" by (metis takeWhile_eq_take)
    moreover have "?run = replicate (length ?run) x"
      by (metis (mono_tags, lifting) replicate_length_same set_takeWhileD)
    ultimately have run: "take k ?s = replicate k x"
      by (metis k_def min.commute min.cobounded1 take_replicate take_take)
    have pos: "0 < k" by (simp add: k_def)
    show ?case
    proof (cases "k < 4")
      case True
      then have k: "k = length ?run" by (simp add: k_def)
      then have "drop k ?s = dropWhile (\<lambda>y. y = x) ?s" by (metis dropWhile_eq_drop)
      then have "drop k ?s = [] \<or> hd (drop k ?s) \<noteq> x"
        using hd_dropWhile [of "\<lambda>y. y = x" ?s] by (simp only:) blast
      then have "rle_encode (drop k ?s) = [] \<or> hd (rle_encode (drop k ?s)) \<noteq> x"
        by (cases "drop k ?s") (simp_all only: rle_encode.simps(1) hd_rle_encode list.sel list.distinct simp_thms)
      then have "rle_spec (replicate k x @ rle_encode (drop k ?s)) = replicate k x @ drop k ?s"
        using rle_spec_run [OF pos True] IH by simp
      with enc True have "rle_spec (rle_encode ?s) = take k ?s @ drop k ?s" by (simp only: run if_True)
      then show ?thesis by (simp only: append_take_drop_id)
    next
      case False
      have "rle_spec (replicate 4 x @ [k - 4] @ q) = replicate (k - 4 + 4) x @ rle_spec q" for q
        by (simp add: numeral_eq_Suc)
      with False enc IH have "rle_spec (rle_encode ?s) = replicate k x @ drop k ?s" by simp
      then have "rle_spec (rle_encode ?s) = take k ?s @ drop k ?s" by (simp only: run)
      then show ?thesis by (simp only: append_take_drop_id)
    qed
  qed
  then show ?thesis by (simp add: rle_loop_spec)
qed

lemma rle_encode_bytes: "\<forall>c \<in> set s. c < 256 \<Longrightarrow> \<forall>c \<in> set (rle_encode s). c < 256"
proof (induction s rule: rle_encode.induct)
  case 1
  then show ?case by simp
next
  case (2 x xs)
  define k where "k = min 259 (length (takeWhile (\<lambda>y. y = x) (x # xs)))"
  have "\<forall>c \<in> set (rle_encode (drop k (x # xs))). c < 256"
    using 2 k_def by (metis in_set_dropD)
  moreover have "k - 4 < 256" by (auto simp: k_def)
  moreover have "rle_encode (x # xs) =
      (if k < 4 then replicate k x else replicate 4 x @ [k - 4]) @ rle_encode (drop k (x # xs))"
    by (simp only: rle_encode.simps(2) Let_def k_def)
  ultimately show ?case using 2(2) by auto
qed

end
