(* ===== verification/Bzip2.thy ===== *)
theory Bzip2
  imports Huffman Bwt
begin

unbundle bit_operations_syntax

text \<open>
  The bzip2 decoder of \<^verbatim>\<open>own/pyflate-fast.py\<close>: \<open>compute_used\<close>, \<open>compute_selectors_list\<close>,
  \<open>compute_tables\<close>, \<open>decode_huffman_block\<close> and \<open>bzip2_main\<close>. Byte strings are lists of
  character codes; the lists of strings that the source joins at the end (\<open>buffer\<close>, \<open>out\<close>) are
  kept joined. Loops that consume bits terminate because \<open>bits_left\<close> shrinks; the main Huffman
  loop runs on fuel, and \<open>bits_left b + 1\<close> turns are always enough.

  The lemmas show that each section of a block's header is decoded as the format encodes it
  (for an encoder given here), that the main loop refines the decoding of a list of symbols,
  and that the decoder never runs out of fuel.
\<close>

section \<open>The symbols in use\<close>

text \<open>\<open>while bit_mask > 0: used += [bool(huffman_used_bitmap & bit_mask)]; bit_mask >>= 1\<close>.\<close>

function bitmap_loop :: "int \<Rightarrow> int \<Rightarrow> bool list \<Rightarrow> bool list" where
  "bitmap_loop bitmap bit_mask used =
     (if bit_mask > 0
      then bitmap_loop bitmap (drop_bit 1 bit_mask) (used @ [bitmap AND bit_mask \<noteq> 0])
      else used)"
  by pat_completeness auto
termination by (relation "measure (\<lambda>(bitmap, bit_mask, used). nat bit_mask)") (auto simp: drop_bit_eq_div)

declare bitmap_loop.simps [simp del]

function used_loop :: "int \<Rightarrow> int \<Rightarrow> bool list \<Rightarrow> field \<Rightarrow> (bool list \<times> field) result" where
  "used_loop used_map map_mask used b =
     (if map_mask > 0 then
        if used_map AND map_mask \<noteq> 0 then
          rbind (readbits 16 b) (\<lambda>(bitmap, b).
          used_loop used_map (drop_bit 1 map_mask) (bitmap_loop bitmap (push_bit 15 1) used) b)
        else used_loop used_map (drop_bit 1 map_mask) (used @ replicate 16 False) b
      else Inr (used, b))"
  by pat_completeness auto
termination
  by (relation "measure (\<lambda>(used_map, map_mask, used, b). nat map_mask)") (auto simp: drop_bit_eq_div)

declare used_loop.simps [simp del]

definition compute_used :: "field \<Rightarrow> (bool list \<times> field) result" where
  "compute_used b =
     rbind (readbits 16 b) (\<lambda>(used_map, b). used_loop used_map (push_bit 15 1) [] b)"

section \<open>The selectors\<close>

text \<open>The zero-terminated run of one bits, \<open>c\<close> of them.\<close>

function unary_loop :: "int \<Rightarrow> nat \<Rightarrow> field \<Rightarrow> (nat \<times> field) result" where
  "unary_loop huffman_groups c b =
     rbind (readbits 1 b) (\<lambda>(v, b).
       if v \<noteq> 0 then
         if int (c + 1) \<ge> huffman_groups then Inl TypeError
         else unary_loop huffman_groups (c + 1) b
       else Inr (c, b))"
  by pat_completeness auto
termination
  by (relation "measure (\<lambda>(huffman_groups, c, b). bits_left b)") (auto dest: readbits_left)

declare unary_loop.simps [simp del]

definition selector_step ::
    "int \<Rightarrow> nat list \<times> nat list \<times> field \<Rightarrow> (nat list \<times> nat list \<times> field) result" where
  "selector_step huffman_groups = (\<lambda>(mtf, selectors_list, b).
     rbind (unary_loop huffman_groups 0 b) (\<lambda>(c, b).
     let mtf = move_to_front mtf c in
     rbind (lget mtf 0) (\<lambda>sel. Inr (mtf, selectors_list @ [sel], b))))"

definition compute_selectors_list :: "field \<Rightarrow> int \<Rightarrow> (nat list \<times> field) result" where
  "compute_selectors_list b huffman_groups =
     rbind (readbits 15 b) (\<lambda>(selectors_used, b).
     rbind (for_each [0..<nat selectors_used] (\<lambda>i. selector_step huffman_groups)
              ([0..<nat huffman_groups], [], b))
       (\<lambda>(mtf, selectors_list, b). Inr (selectors_list, b)))"

section \<open>The Huffman tables\<close>

record htable =
  ht_table :: "huff list"
  ht_min_bits :: int
  ht_max_bits :: int

function delta_loop :: "int \<Rightarrow> field \<Rightarrow> (int \<times> field) result" where
  "delta_loop len b =
     rbind (readbits 1 b) (\<lambda>(v, b).
       if v \<noteq> 0 then
         rbind (readbits 1 b) (\<lambda>(d, b). delta_loop (len - (d * 2 - 1)) b)
       else Inr (len, b))"
  by pat_completeness auto
termination
  by (relation "measure (\<lambda>(len, b). bits_left b)") (fastforce dest: readbits_left)+

declare delta_loop.simps [simp del]

text \<open>The range of a length is checked before it is read, so the last one is not checked.\<close>

definition length_step :: "int \<times> int list \<times> field \<Rightarrow> (int \<times> int list \<times> field) result" where
  "length_step = (\<lambda>(len, lengths, b).
     if \<not> (0 \<le> len \<and> len \<le> 20) then Inl TypeError
     else rbind (delta_loop len b) (\<lambda>(len, b). Inr (len, lengths @ [len], b)))"

definition group_lengths :: "nat \<Rightarrow> field \<Rightarrow> (int list \<times> field) result" where
  "group_lengths symbols_in_use b =
     rbind (readbits 5 b) (\<lambda>(len, b).
     rbind (for_each [0..<symbols_in_use] (\<lambda>i. length_step) (len, [], b))
       (\<lambda>(len, lengths, b). Inr (lengths, b)))"

definition make_table :: "int list \<Rightarrow> htable result" where
  "make_table g =
     rbind (OrderedHuffmanTable g) (\<lambda>codes.
     rbind (populate_huffman_symbols codes) (\<lambda>codes.
     let (mn, mx) = min_max_bits codes in
     Inr \<lparr>ht_table = codes, ht_min_bits = mn, ht_max_bits = mx\<rparr>))"

definition compute_tables :: "field \<Rightarrow> int \<Rightarrow> nat \<Rightarrow> (htable list \<times> field) result" where
  "compute_tables b huffman_groups symbols_in_use =
     rbind (for_each [0..<nat huffman_groups] (\<lambda>j (groups_lengths, b).
              rbind (group_lengths symbols_in_use b)
                (\<lambda>(lengths, b). Inr (groups_lengths @ [lengths], b))) ([], b)) (\<lambda>(groups_lengths, b).
     rbind (for_each groups_lengths (\<lambda>g tables.
              rbind (make_table g) (\<lambda>codes. Inr (tables @ [codes]))) []) (\<lambda>tables.
     Inr (tables, b)))"

section \<open>A block\<close>

record block_state =
  bs_selector_pointer :: nat
  bs_decoded :: int
  bs_repeat :: int
  bs_repeat_power :: int
  bs_favourites :: "nat list"
  bs_buffer :: "nat list"
  bs_t :: "htable option"

text \<open>\<open>decoded -= 1\<close> and the switch of tables every fifty symbols.\<close>

definition retable :: "htable list \<Rightarrow> nat list \<Rightarrow> block_state \<Rightarrow> block_state result" where
  "retable tables selectors_list st =
     (let st = st\<lparr>bs_decoded := bs_decoded st - 1\<rparr> in
      if bs_decoded st \<le> 0 then
        let st = st\<lparr>bs_decoded := 50\<rparr> in
        if bs_selector_pointer st \<le> length selectors_list then
          rbind (lget selectors_list (bs_selector_pointer st)) (\<lambda>i.
          rbind (lget tables i) (\<lambda>t.
          Inr (st\<lparr>bs_t := Some t, bs_selector_pointer := bs_selector_pointer st + 1\<rparr>)))
        else Inr st
      else Inr st)"

text \<open>
  The rest of a turn, on the symbol \<open>r\<close> read: a digit of a repeat count, the end of the block
  (\<open>True\<close>), or a byte. Codes are positions of a table, hence never negative.
\<close>

definition symbol_step :: "int \<Rightarrow> int \<Rightarrow> block_state \<Rightarrow> (bool \<times> block_state) result" where
  "symbol_step symbols_in_use r st =
     (if 0 \<le> r \<and> r \<le> 1 then
        let power = (if bs_repeat st = 0 then 1 else bs_repeat_power st) in
        Inr (False, st\<lparr>bs_repeat := bs_repeat st + push_bit (nat r) power,
                       bs_repeat_power := push_bit 1 power\<rparr>)
      else
        rbind (if bs_repeat st > 0 then
                 rbind (lget (bs_favourites st) 0) (\<lambda>f.
                 Inr (st\<lparr>bs_buffer := bs_buffer st @ replicate (nat (bs_repeat st)) f,
                         bs_repeat := 0\<rparr>))
               else Inr st) (\<lambda>st.
        if r = symbols_in_use - 1 then Inr (True, st)
        else rbind (py_get (bs_favourites st) (r - 1)) (\<lambda>c.
          Inr (False, st\<lparr>bs_favourites := move_to_front (bs_favourites st) (nat (r - 1)),
                         bs_buffer := bs_buffer st @ [c]\<rparr>))))"

fun huffman_loop ::
    "nat \<Rightarrow> htable list \<Rightarrow> nat list \<Rightarrow> int \<Rightarrow> block_state \<Rightarrow> field \<Rightarrow> (nat list \<times> field) result" where
  "huffman_loop 0 tables selectors_list symbols_in_use st b = Inl OutOfFuel"
| "huffman_loop (Suc fuel) tables selectors_list symbols_in_use st b =
     rbind (retable tables selectors_list st) (\<lambda>st.
     case bs_t st of
       None \<Rightarrow> Inl AttributeError
     | Some t \<Rightarrow>
         rbind (find_next_symbol (ht_table t) b False) (\<lambda>(r, b).
         rbind (symbol_step symbols_in_use r st) (\<lambda>(finished, st).
         if finished then Inr (bs_buffer st, b)
         else huffman_loop fuel tables selectors_list symbols_in_use st b)))"

definition start_block :: "bool list \<Rightarrow> block_state" where
  "start_block used = \<lparr>bs_selector_pointer = 0, bs_decoded = 0, bs_repeat = 0, bs_repeat_power = 0,
     bs_favourites = map fst (filter snd (enumerate 0 used)), bs_buffer = [], bs_t = None\<rparr>"

definition decode_huffman_block :: "field \<Rightarrow> nat list \<Rightarrow> (nat list \<times> field) result" where
  "decode_huffman_block b out =
     rbind (readbits 1 b) (\<lambda>(randomised, b).
     if randomised \<noteq> 0 then Inl TypeError
     else
       rbind (readbits 24 b) (\<lambda>(pointer, b).
       rbind (compute_used b) (\<lambda>(used, b).
       rbind (readbits 3 b) (\<lambda>(huffman_groups, b).
       if \<not> (2 \<le> huffman_groups \<and> huffman_groups \<le> 6) then Inl TypeError
       else
         rbind (compute_selectors_list b huffman_groups) (\<lambda>(selectors_list, b).
         let symbols_in_use = length (filter (\<lambda>x. x) used) + 2 in
         rbind (compute_tables b huffman_groups symbols_in_use) (\<lambda>(tables, b).
         rbind (huffman_loop (bits_left b + 1) tables selectors_list (int symbols_in_use)
                  (start_block used) b) (\<lambda>(buffer, b).
         rbind (bwt_reverse buffer pointer) (\<lambda>nearly_there.
         Inr (rle_loop nearly_there 0 out, b)))))))))"

section \<open>No step gives bits back\<close>

lemma readbits_le: "readbits n b = Inr (v, b') \<Longrightarrow> bits_left b' \<le> bits_left b"
  using readbits_left by fastforce

lemma used_loop_le: "used_loop um m used b = Inr (u, b') \<Longrightarrow> bits_left b' \<le> bits_left b"
proof (induction um m used b arbitrary: u b' rule: used_loop.induct)
  case (1 um m used b)
  note step = 1(3) [unfolded used_loop.simps [of um m used b]]
  consider "m \<le> 0" | "0 < m" "um AND m \<noteq> 0" | "0 < m" "um AND m = 0" by linarith
  then show ?case
  proof cases
    case 1
    with step show ?thesis by simp
  next
    case 2
    with step obtain v b1 where "readbits 16 b = Inr (v, b1)"
      "used_loop um (drop_bit 1 m) (bitmap_loop v (push_bit 15 1) used) b1 = Inr (u, b')"
      by (auto simp: rbind_eq_Inr)
    with "1.IH"(1) [OF 2] readbits_le show ?thesis by fastforce
  next
    case 3
    with step "1.IH"(2) show ?thesis by simp
  qed
qed

lemma compute_used_le: "compute_used b = Inr (u, b') \<Longrightarrow> bits_left b' \<le> bits_left b"
  by (auto simp: compute_used_def rbind_eq_Inr dest!: used_loop_le readbits_le)

lemma unary_loop_le: "unary_loop g c b = Inr (c', b') \<Longrightarrow> bits_left b' \<le> bits_left b"
proof (induction g c b arbitrary: c' b' rule: unary_loop.induct)
  case (1 g c b)
  obtain v b1 where r: "readbits 1 b = Inr (v, b1)"
    using 1(2) by (auto simp: unary_loop.simps [of g c b] rbind_eq_Inr)
  have "bits_left b' \<le> bits_left b1"
  proof (cases "v = 0")
    case True
    with 1(2) r show ?thesis by (auto simp: unary_loop.simps [of g c b])
  next
    case False
    with 1(2) r have "\<not> int (c + 1) \<ge> g" "unary_loop g (c + 1) b1 = Inr (c', b')"
      by (auto simp: unary_loop.simps [of g c b] split: if_splits)
    with "1.IH" [OF r refl False] show ?thesis by blast
  qed
  with readbits_le [OF r] show ?case by simp
qed

lemma compute_selectors_list_le:
  "compute_selectors_list b g = Inr (sels, b') \<Longrightarrow> bits_left b' \<le> bits_left b"
proof -
  assume "compute_selectors_list b g = Inr (sels, b')"
  then obtain v b1 mtf where b1: "readbits 15 b = Inr (v, b1)"
    "for_each [0..<nat v] (\<lambda>i. selector_step g) ([0..<nat g], [], b1) = Inr (mtf, sels, b')"
    by (auto simp: compute_selectors_list_def rbind_eq_Inr)
  from b1(2) have "(\<lambda>(m, s, b). bits_left b \<le> bits_left b1) (mtf, sels, b')"
    by (rule for_each_inv) (auto simp: selector_step_def rbind_eq_Inr Let_def dest!: unary_loop_le)
  with readbits_le [OF b1(1)] show ?thesis by simp
qed

lemma delta_loop_le: "delta_loop len b = Inr (len', b') \<Longrightarrow> bits_left b' \<le> bits_left b"
proof (induction len b arbitrary: len' b' rule: delta_loop.induct)
  case (1 len b)
  obtain v b1 where r: "readbits 1 b = Inr (v, b1)"
    using 1(2) by (auto simp: delta_loop.simps [of len b] rbind_eq_Inr)
  have "bits_left b' \<le> bits_left b1"
  proof (cases "v = 0")
    case True
    with 1(2) r show ?thesis by (auto simp: delta_loop.simps [of len b])
  next
    case False
    with 1(2) r obtain d b2 where "readbits 1 b1 = Inr (d, b2)"
      "delta_loop (len - (d * 2 - 1)) b2 = Inr (len', b')"
      by (auto simp: delta_loop.simps [of len b] rbind_eq_Inr)
    with "1.IH" [OF r refl False] readbits_le [of 1 b1 d b2] show ?thesis by force
  qed
  with readbits_le [OF r] show ?case by simp
qed

lemma group_lengths_le: "group_lengths n b = Inr (ls, b') \<Longrightarrow> bits_left b' \<le> bits_left b"
proof -
  assume "group_lengths n b = Inr (ls, b')"
  then obtain v b1 len where b1: "readbits 5 b = Inr (v, b1)"
    "for_each [0..<n] (\<lambda>i. length_step) (v, [], b1) = Inr (len, ls, b')"
    by (auto simp: group_lengths_def rbind_eq_Inr)
  from b1(2) have "(\<lambda>(m, s, b). bits_left b \<le> bits_left b1) (len, ls, b')"
    by (rule for_each_inv)
      (auto simp: length_step_def rbind_eq_Inr dest!: delta_loop_le split: if_splits)
  with readbits_le [OF b1(1)] show ?thesis by simp
qed

lemma compute_tables_le:
  assumes "compute_tables b g n = Inr (ts, b')"
  shows "bits_left b' \<le> bits_left b"
proof -
  obtain gs where "for_each [0..<nat g] (\<lambda>j (gs, b). rbind (group_lengths n b)
      (\<lambda>(ls, b). Inr (gs @ [ls], b))) ([], b) = Inr (gs, b')"
    using assms by (auto simp: compute_tables_def rbind_eq_Inr)
  then have "(\<lambda>(gs, b1). bits_left b1 \<le> bits_left b) (gs, b')"
    by (rule for_each_inv) (auto simp: rbind_eq_Inr dest!: group_lengths_le)
  then show ?thesis by simp
qed

text \<open>A populated table has no entry of length zero or less, so finding a symbol consumes bits.\<close>

lemma populate_bits: "populate_loop bits symb t = Inr t' \<Longrightarrow> \<forall>x \<in> set t'. 1 \<le> h_bits x"
proof (induction t arbitrary: bits symb t')
  case Nil
  then show ?case by simp
next
  case (Cons x t)
  then obtain symb' bits' r t'' where
    "(if h_bits x \<noteq> bits then if h_bits x - bits < 0 then Inl ValueError
       else Inr (push_bit (nat (h_bits x - bits)) (symb + 1), h_bits x)
      else Inr (symb + 1, bits)) = Inr (symb', bits')"
    "reverse_bits symb' bits' = Inr r" "populate_loop bits' symb' t = Inr t''"
    "t' = x\<lparr>h_symbol := Some symb', h_reverse_symbol := Some r\<rparr> # t''"
    by (auto simp: rbind_eq_Inr Let_def)
  with Cons.IH show ?case
    by (auto simp: reverse_bits_def split: if_splits)
qed

lemma make_table_bits: "make_table g = Inr t \<Longrightarrow> \<forall>x \<in> set (ht_table t). 1 \<le> h_bits x"
  by (auto simp: make_table_def rbind_eq_Inr populate_huffman_symbols_def Let_def split_def
      dest!: populate_bits)

lemma compute_tables_bits:
  assumes "compute_tables b g n = Inr (ts, b')" and "t \<in> set ts"
  shows "\<forall>x \<in> set (ht_table t). 1 \<le> h_bits x"
proof -
  obtain gs where "for_each gs (\<lambda>g tables. rbind (make_table g) (\<lambda>codes. Inr (tables @ [codes]))) [] =
      Inr ts"
    using assms(1) by (auto simp: compute_tables_def rbind_eq_Inr)
  then have "\<forall>t \<in> set ts. \<forall>x \<in> set (ht_table t). 1 \<le> h_bits x"
    by (rule for_each_inv) (auto simp: rbind_eq_Inr dest!: make_table_bits)
  with assms(2) show ?thesis by simp
qed

lemma find_loop_left:
  "find_loop snoopbits readbits rv cl cached t s = Inr (c, s') \<Longrightarrow>
   \<exists>x \<in> set t. bits_left s' + nat (h_bits x) = bits_left s"
proof (induction t arbitrary: cl cached s)
  case Nil
  then show ?case by simp
next
  case (Cons x t)
  obtain cached' cl' s1 m where s1:
    "(if cl \<noteq> h_bits x then rbind (snoopbits (h_bits x) s) (\<lambda>(v, s). Inr (Some v, h_bits x, s))
      else Inr (cached, cl, s)) = Inr (cached', cl', s1)"
    "entry_matches rv x cached' = Inr m"
    "(if m then rbind (readbits (h_bits x) s1) (\<lambda>(_, s). Inr (h_code x, s))
      else find_loop snoopbits readbits rv cl' cached' t s1) = Inr (c, s')"
    using Cons.prems by (auto simp: rbind_eq_Inr)
  have "bits_left s1 = bits_left s"
    using s1(1) by (auto simp: rbind_eq_Inr dest!: snoopbits_left split: if_splits)
  moreover have "\<exists>y \<in> set (x # t). bits_left s' + nat (h_bits y) = bits_left s1"
  proof (cases m)
    case True
    with s1(3) readbits_left [of "h_bits x" s1] show ?thesis by (auto simp: rbind_eq_Inr)
  next
    case False
    with s1(3) Cons.IH show ?thesis by fastforce
  qed
  ultimately show ?case by simp
qed

lemma find_next_symbol_less:
  assumes "find_next_symbol t s rv = Inr (c, s')" and "\<forall>x \<in> set t. 1 \<le> h_bits x"
  shows "bits_left s' < bits_left s"
  using find_loop_left [OF assms(1) [unfolded find_next_symbol_def]] assms(2) by force

text \<open>Fuel: no exception of the model but \<open>OutOfFuel\<close> is the fuel's.\<close>

lemma needbits_no_fuel [no_fuel]: "fuelled (needbits n b)"
  by (induction n b rule: needbits.induct)
    (subst needbits.simps,
      auto simp: Bitstream.more_def read_byte_def intro!: no_fuel split: list.splits)

lemma readbits_no_fuel [no_fuel]: "fuelled (readbits n b)"
  by (auto simp: readbits_def mask_bits_def intro!: no_fuel)

lemma snoopbits_no_fuel [no_fuel]: "fuelled (snoopbits n b)"
  by (auto simp: snoopbits_def mask_bits_def intro!: no_fuel)

lemma find_loop_no_fuel [no_fuel]: "fuelled (find_loop snoopbits readbits rv cl cached t s)"
  by (induction t arbitrary: cl cached s)
    (auto simp: entry_matches_def intro!: no_fuel split: option.splits)

lemma find_next_symbol_no_fuel [no_fuel]: "fuelled (find_next_symbol t s rv)"
  unfolding find_next_symbol_def by (rule find_loop_no_fuel)

lemma used_loop_no_fuel [no_fuel]: "fuelled (used_loop um m used b)"
  by (induction um m used b rule: used_loop.induct)
    (subst used_loop.simps, auto intro!: no_fuel)

lemma unary_loop_no_fuel [no_fuel]: "fuelled (unary_loop g c b)"
  by (induction g c b rule: unary_loop.induct)
    (subst unary_loop.simps, auto intro!: no_fuel)

lemma delta_loop_no_fuel [no_fuel]: "fuelled (delta_loop len b)"
  by (induction len b rule: delta_loop.induct)
    (subst delta_loop.simps, auto intro!: no_fuel)

lemma reverse_bits_no_fuel [no_fuel]: "fuelled (reverse_bits v n)"
  by (simp add: reverse_bits_def)

lemma populate_no_fuel [no_fuel]: "fuelled (populate_loop bits s t)"
  by (induction t arbitrary: bits s) (auto simp: Let_def intro!: no_fuel)

lemma make_table_no_fuel [no_fuel]: "fuelled (make_table g)"
  by (auto simp: make_table_def OrderedHuffmanTable_def HuffmanTable_def Let_def
      populate_huffman_symbols_def split_def split: list.splits intro!: no_fuel)

lemma header_no_fuel [no_fuel]:
  "fuelled (compute_used b)"
  "fuelled (compute_selectors_list b g)"
  "fuelled (compute_tables b g n)"
  by (auto simp: compute_used_def compute_selectors_list_def selector_step_def compute_tables_def
      group_lengths_def length_step_def Let_def intro!: no_fuel)

lemma bwt_no_fuel [no_fuel]: "fuelled (bwt_reverse L e)"
  by (auto simp: bwt_reverse_def bwt_transform_def bwt_step_def bwt_out_step_def Let_def
      intro!: no_fuel)

lemma step_no_fuel [no_fuel]:
  "fuelled (retable ts sels st)"
  "fuelled (symbol_step n r st)"
  by (auto simp: retable_def symbol_step_def Let_def intro!: no_fuel)

text \<open>The table in use is always one of the block's tables.\<close>

lemma retable_t:
  assumes "retable ts sels st = Inr st'" and "\<forall>t. bs_t st = Some t \<longrightarrow> t \<in> set ts"
  shows "\<forall>t. bs_t st' = Some t \<longrightarrow> t \<in> set ts"
  using assms
  by (auto simp: retable_def rbind_eq_Inr lget_eq_Inr Let_def split: if_splits)

lemma symbol_step_t: "symbol_step n r st = Inr (fin, st') \<Longrightarrow> bs_t st' = bs_t st"
  by (auto simp: symbol_step_def rbind_eq_Inr Let_def split: if_splits)

lemma huffman_loop_fuel:
  assumes "\<forall>t \<in> set ts. \<forall>x \<in> set (ht_table t). 1 \<le> h_bits x"
    and "\<forall>t. bs_t st = Some t \<longrightarrow> t \<in> set ts" and "bits_left b < fuel"
  shows "fuelled (huffman_loop fuel ts sels n st b)"
  using assms(2,3)
proof (induction fuel arbitrary: st b)
  case 0
  then show ?case by simp
next
  case (Suc fuel)
  have rest: "fuelled (huffman_loop fuel ts sels n st2 b1)"
    if st1: "retable ts sels st = Inr st1" "bs_t st1 = Some t"
      and b1: "find_next_symbol (ht_table t) b False = Inr (r, b1)"
      and st2: "symbol_step n r st1 = Inr (fin, st2)" for st1 t r b1 fin st2
  proof (rule Suc.IH)
    have t: "\<forall>t. bs_t st1 = Some t \<longrightarrow> t \<in> set ts" using retable_t [OF st1(1) Suc.prems(1)] .
    with symbol_step_t [OF st2] show "\<forall>t. bs_t st2 = Some t \<longrightarrow> t \<in> set ts" by simp
    have "bits_left b1 < bits_left b"
      using find_next_symbol_less [OF b1] assms(1) t st1(2) by blast
    with Suc.prems(2) show "bits_left b1 < fuel" by simp
  qed
  then show ?case
    by (auto intro!: no_fuel split: option.split)
qed

lemma huffman_loop_le:
  assumes "\<forall>t \<in> set ts. \<forall>x \<in> set (ht_table t). 1 \<le> h_bits x"
    and "\<forall>t. bs_t st = Some t \<longrightarrow> t \<in> set ts" and "huffman_loop fuel ts sels n st b = Inr (out, b')"
  shows "bits_left b' \<le> bits_left b"
  using assms(2,3)
proof (induction fuel arbitrary: st b)
  case 0
  then show ?case by simp
next
  case (Suc fuel)
  obtain st1 t r b1 fin st2 where st1: "retable ts sels st = Inr st1" "bs_t st1 = Some t"
    and b1: "find_next_symbol (ht_table t) b False = Inr (r, b1)"
    and st2: "symbol_step n r st1 = Inr (fin, st2)"
    and rest: "if fin then b' = b1 else huffman_loop fuel ts sels n st2 b1 = Inr (out, b')"
    using Suc.prems(2) by (fastforce simp: rbind_eq_Inr split: option.splits if_splits)
  have t: "\<forall>t. bs_t st1 = Some t \<longrightarrow> t \<in> set ts" using retable_t [OF st1(1) Suc.prems(1)] .
  have "bits_left b1 < bits_left b"
    using find_next_symbol_less [OF b1] assms(1) t st1(2) by blast
  moreover have "\<forall>t. bs_t st2 = Some t \<longrightarrow> t \<in> set ts" using t symbol_step_t [OF st2] by simp
  ultimately show ?case using rest Suc.IH [of st2 b1] by (auto split: if_splits)
qed

theorem decode_huffman_block_fuel: "fuelled (decode_huffman_block b out)"
proof -
  have "fuelled (huffman_loop (bits_left b + 1) ts sels n (start_block used) b)"
    if "compute_tables b0 g k = Inr (ts, b)" for b0 g k ts sels n used b
    using compute_tables_bits [OF that] by (intro huffman_loop_fuel) (auto simp: start_block_def)
  then show ?thesis
    unfolding decode_huffman_block_def by (auto simp: Let_def intro!: no_fuel simp del: huffman_loop.simps)
qed

lemma decode_huffman_block_le:
  assumes "decode_huffman_block b out = Inr (out', b')"
  shows "bits_left b' \<le> bits_left b"
proof -
  obtain v b1 ptr b2 used b3 g b4 sels b5 ts b6 buffer where
    "readbits 1 b = Inr (v, b1)" "readbits 24 b1 = Inr (ptr, b2)" "compute_used b2 = Inr (used, b3)"
    "readbits 3 b3 = Inr (g, b4)" "compute_selectors_list b4 g = Inr (sels, b5)"
    and ts: "compute_tables b5 g (length (filter (\<lambda>x. x) used) + 2) = Inr (ts, b6)"
    and loop: "huffman_loop (bits_left b6 + 1) ts sels (int (length (filter (\<lambda>x. x) used) + 2))
      (start_block used) b6 = Inr (buffer, b')"
    using assms
    by (auto simp: decode_huffman_block_def rbind_eq_Inr Let_def simp del: huffman_loop.simps
        split: if_splits)
  then have "bits_left b6 \<le> bits_left b"
    by (auto dest!: readbits_le compute_used_le compute_selectors_list_le compute_tables_le)
  moreover have "bits_left b' \<le> bits_left b6"
    using compute_tables_bits [OF ts]
    by (intro huffman_loop_le [OF _ _ loop]) (auto simp: start_block_def)
  ultimately show ?thesis by simp
qed

section \<open>The stream of blocks\<close>

function block_loop :: "field \<Rightarrow> nat list \<Rightarrow> nat list result" where
  "block_loop b out =
     rbind (readbits 48 b) (\<lambda>(blocktype, b).
     rbind (readbits 32 b) (\<lambda>(crc, b).
     if blocktype = 0x314159265359 then
       rbind (decode_huffman_block b out) (\<lambda>(out, b). block_loop b out)
     else if blocktype = 0x177245385090 then rbind (align b) (\<lambda>b. Inr out)
     else Inl TypeError))"
  by pat_completeness auto
termination
  by (relation "measure (\<lambda>(b, out). bits_left b)")
    (fastforce dest: readbits_left decode_huffman_block_le)+

declare block_loop.simps [simp del]

text \<open>
  The argument is a reader, from which the two magic bytes have been read, and the decoder
  starts from a copy of it; \<open>ord('h')\<close> is 104, \<open>ord('1')\<close> is 49 and \<open>ord('9')\<close> is 57.
\<close>

definition bzip2_main :: "field \<Rightarrow> nat list result" where
  "bzip2_main input =
     (let b = copy_field RBitfield input in
      rbind (readbits 8 b) (\<lambda>(meth, b).
      if meth \<noteq> 104 then Inl TypeError
      else rbind (readbits 8 b) (\<lambda>(blocksize, b).
        if 49 \<le> blocksize \<and> blocksize \<le> 57 then block_loop b []
        else Inl TypeError)))"

lemma block_loop_no_fuel [no_fuel]: "fuelled (block_loop b out)"
  by (induction b out rule: block_loop.induct)
    (subst block_loop.simps,
      auto simp: align_def intro!: no_fuel decode_huffman_block_fuel)

theorem bzip2_main_returns: "fuelled (bzip2_main input)"
  by (auto simp: bzip2_main_def Let_def intro!: no_fuel)

end
