(* ===== verification/Bzip2Roundtrip.thy ===== *)
theory Bzip2Roundtrip
  imports Bzip2
begin

unbundle bit_operations_syntax

text \<open>
  What the bzip2 decoder decodes. An encoder is given for each section of a block (the symbols
  in use, the selectors, the code lengths, the Huffman coded symbols); the lemmas show that the
  decoder of \<^verbatim>\<open>own/pyflate-fast.py\<close> reads each section back and consumes exactly its bits, and
  finally that \<open>decode_huffman_block\<close> and \<open>bzip2_main\<close> recover the data of whole blocks.
\<close>

section \<open>Numbers\<close>

definition msb_bits :: "nat \<Rightarrow> int \<Rightarrow> bool list" where
  "msb_bits n v = map (bit v) (rev [0..<n])"

lemma length_msb_bits [simp]: "length (msb_bits n v) = n"
  by (simp add: msb_bits_def)

text \<open>The parsers of \<open>bit_source\<close>, for the reader that bzip2 uses.\<close>

abbreviation reads :: "(field \<Rightarrow> ('a \<times> field) result) \<Rightarrow> bool list \<Rightarrow> 'a \<Rightarrow> bool" where
  "reads \<equiv> msb.reads"

lemmas readsI = msb.readsI
  and readsE = msb.readsE
  and reads_bind = msb.reads_bind
  and reads_return = msb.reads_return
  and reads_def = msb.reads_def

lemma reads_number:
  assumes "0 \<le> v" and "v < 2 ^ n"
  shows "reads (readbits (int n)) (msb_bits n v) v"
proof -
  have "bits_value RBitfield (msb_bits n v) = v"
    using msb_value [of n n v "[]"] assms by (simp add: msb_bits_def take_bit_int_eq_self)
  with msb.reads_read [of "msb_bits n v" n] show ?thesis by simp
qed

lemma reads_bit: "reads (readbits 1) [c] (of_bool c)"
  using reads_number [of "of_bool c" 1] by (simp add: msb_bits_def bit_simps)

section \<open>The symbols in use\<close>

lemma bit_and_single: "(x AND push_bit k 1 \<noteq> 0) = bit (x :: int) k"
proof
  assume "x AND push_bit k 1 \<noteq> 0"
  then obtain i where "bit (x AND push_bit k 1) i" using bit_eqI [of "x AND push_bit k 1" 0] by auto
  then show "bit x k" by (auto simp: bit_simps)
next
  assume "bit x k"
  then have "bit (x AND push_bit k 1) k" by (simp add: bit_simps)
  then show "x AND push_bit k 1 \<noteq> 0" by auto
qed

lemma bitmap_loop_bits:
  "bitmap_loop v (push_bit n 1) used = used @ msb_bits (Suc n) v"
proof (induction n arbitrary: used)
  case 0
  then show ?case
    using bit_and_single [of v 0]
    by (simp add: bitmap_loop.simps [of v 1] bitmap_loop.simps [of v 0] msb_bits_def)
next
  case (Suc n)
  have "bitmap_loop v (push_bit (Suc n) 1) used =
      bitmap_loop v (push_bit n 1) (used @ [v AND push_bit (Suc n) 1 \<noteq> 0])"
    by (subst bitmap_loop.simps) (simp add: drop_bit_Suc)
  also have "(v AND push_bit (Suc n) 1 \<noteq> 0) = bit v (Suc n)"
    by (simp only: bit_and_single)
  finally show ?case unfolding Suc.IH by (simp add: msb_bits_def)
qed

text \<open>One group of sixteen, present when any of its symbols is used.\<close>

definition enc_group :: "bool list \<Rightarrow> bool list" where
  "enc_group g = (if True \<in> set g then g else [])"

definition enc_used :: "bool list list \<Rightarrow> bool list" where
  "enc_used gs = map (\<lambda>g. True \<in> set g) gs @ concat (map enc_group gs)"

text \<open>The number whose bits, from the most significant, are these.\<close>

definition msb_number :: "bool list \<Rightarrow> int" where
  "msb_number bs = horner_sum of_bool 2 (rev bs)"

lemma msb_bits_number: "length bs = n \<Longrightarrow> msb_bits n (msb_number bs) = bs"
  by (intro nth_equalityI)
    (auto simp: msb_bits_def msb_number_def bit_horner_sum_bit_iff rev_nth)

lemma msb_number_bounds: "0 \<le> msb_number bs" "msb_number bs < 2 ^ length bs"
proof -
  have "take_bit (length bs) (msb_number bs) = msb_number bs"
    by (auto simp: take_bit_id_iff msb_number_def bit_horner_sum_bit_iff)
  then show "0 \<le> msb_number bs" "msb_number bs < 2 ^ length bs"
    by (metis take_bit_nonnegative) (metis \<open>take_bit (length bs) (msb_number bs) = msb_number bs\<close> take_bit_int_less_exp)
qed

lemma reads_bits: "length bs = n \<Longrightarrow> reads (readbits (int n)) bs (msb_number bs)"
  using reads_number [of "msb_number bs" n] msb_number_bounds [of bs] msb_bits_number [of bs n] by simp

lemma reads_used_loop:
  assumes "\<forall>g \<in> set gs. length g = 16" and "gs \<noteq> []"
    and "\<forall>k < length gs. bit um (length gs - 1 - k) = (True \<in> set (gs ! k))"
  shows "reads (used_loop um (push_bit (length gs - 1) 1) used) (concat (map enc_group gs))
    (used @ concat gs)"
  using assms
proof (induction gs arbitrary: used)
  case Nil
  then show ?case by simp
next
  case (Cons g gs)
  let ?n = "length gs"
  have g: "length g = 16" using Cons.prems(1) by simp
  have cond: "(um AND push_bit ?n 1 \<noteq> 0) = (True \<in> set g)"
    using Cons.prems(3) [rule_format, of 0] unfolding bit_and_single by simp
  have rest: "reads (used_loop um (drop_bit 1 (push_bit ?n 1)) used') (concat (map enc_group gs))
      (used' @ concat gs)" for used'
  proof (cases "gs = []")
    case True
    moreover have "used_loop um 0 used' = (\<lambda>b. Inr (used', b))"
      by (rule ext) (simp add: used_loop.simps [of um 0])
    ultimately show ?thesis by (simp add: drop_bit_Suc reads_return)
  next
    case False
    then have "drop_bit 1 (push_bit ?n 1 :: int) = push_bit (?n - 1) 1"
      by (cases ?n) (simp_all add: drop_bit_Suc)
    moreover have "bit um (?n - 1 - k) = (True \<in> set (gs ! k))" if "k < ?n" for k
      using Cons.prems(3) [rule_format, of "Suc k"] that by simp
    ultimately show ?thesis using Cons.IH Cons.prems(1) False by simp
  qed
  show ?case
  proof (cases "True \<in> set g")
    case True
    have "used_loop um (push_bit ?n 1) used =
        (\<lambda>b. rbind (readbits 16 b) (\<lambda>(v, b). used_loop um (drop_bit 1 (push_bit ?n 1))
          (bitmap_loop v (push_bit 15 1) used) b))"
      using True cond by (intro ext, subst used_loop.simps) simp
    moreover have "bitmap_loop (msb_number g) (push_bit 15 1) used = used @ g"
      unfolding bitmap_loop_bits using msb_bits_number [OF g] by simp
    ultimately show ?thesis
      using reads_bind [OF reads_bits [OF g], of
          "\<lambda>v. used_loop um (drop_bit 1 (push_bit ?n 1)) (bitmap_loop v (push_bit 15 1) used)"]
        rest [of "used @ g"] True by (simp add: enc_group_def [of g])
  next
    case False
    then have "replicate 16 False = g"
      using g by (intro replicate_eqI [symmetric]) auto
    moreover have "used_loop um (push_bit ?n 1) used =
        used_loop um (drop_bit 1 (push_bit ?n 1)) (used @ replicate 16 False)"
      using False cond by (intro ext, subst used_loop.simps) simp
    ultimately show ?thesis using rest [of "used @ g"] False by (simp add: enc_group_def [of g])
  qed
qed

lemma reads_used:
  assumes "length gs = 16" and "\<forall>g \<in> set gs. length g = 16"
  shows "reads compute_used (enc_used gs) (concat gs)"
proof -
  let ?m = "map (\<lambda>g. True \<in> set g) gs"
  have m: "length ?m = 16" using assms(1) by simp
  have "bit (msb_number ?m) (length gs - 1 - k) = (True \<in> set (gs ! k))" if "k < length gs" for k
    using that by (auto simp: msb_number_def bit_horner_sum_bit_iff rev_nth)
  then have "reads (used_loop (msb_number ?m) (push_bit 15 1) []) (concat (map enc_group gs)) ([] @ concat gs)"
    using reads_used_loop [of gs "msb_number ?m" "[]"] assms by fastforce
  from reads_bind [OF reads_bits [OF m], of "\<lambda>v. used_loop v (push_bit 15 1) []", OF this]
  have "reads (\<lambda>b. rbind (readbits 16 b) (\<lambda>(x, b). used_loop x (push_bit 15 1) [] b)) (enc_used gs) (concat gs)"
    by (simp add: enc_used_def)
  then show ?thesis by (simp add: compute_used_def [abs_def])
qed

section \<open>The selectors\<close>

definition enc_unary :: "nat \<Rightarrow> bool list" where
  "enc_unary c = replicate c True @ [False]"

definition enc_selectors :: "nat \<Rightarrow> nat list \<Rightarrow> bool list" where
  "enc_selectors groups sels =
     msb_bits 15 (int (length sels)) @ concat (map enc_unary (mtf_encode [0..<groups] sels))"

lemma reads_unary: "c + k < groups \<Longrightarrow> reads (unary_loop (int groups) c) (enc_unary k) (c + k)"
proof (induction k arbitrary: c)
  case 0
  have "unary_loop (int groups) c =
      (\<lambda>b. rbind (readbits 1 b) (\<lambda>(v, b). if v \<noteq> 0 then
         if int (c + 1) \<ge> int groups then Inl TypeError else unary_loop (int groups) (c + 1) b
       else Inr (c, b)))"
    by (intro ext) (rule unary_loop.simps)
  then show ?case
    using reads_bind [OF reads_bit [of False], of "\<lambda>v b. if v \<noteq> 0 then
         if int (c + 1) \<ge> int groups then Inl TypeError else unary_loop (int groups) (c + 1) b
       else Inr (c, b)" "[]" c]
    by (simp add: enc_unary_def reads_return)
next
  case (Suc k)
  have "unary_loop (int groups) c =
      (\<lambda>b. rbind (readbits 1 b) (\<lambda>(v, b). if v \<noteq> 0 then
         if int (c + 1) \<ge> int groups then Inl TypeError else unary_loop (int groups) (c + 1) b
       else Inr (c, b)))"
    by (intro ext) (rule unary_loop.simps)
  then show ?case
    using Suc.prems Suc.IH [of "Suc c"]
      reads_bind [OF reads_bit [of True], of "\<lambda>v b. if v \<noteq> 0 then
         if int (c + 1) \<ge> int groups then Inl TypeError else unary_loop (int groups) (c + 1) b
       else Inr (c, b)" "enc_unary k" "c + Suc k"]
    by (simp add: enc_unary_def)
qed

lemma selectors_loop:
  assumes "mtf_decode mtf cs = Inr sels" and "length mtf = groups"
    and "\<forall>c \<in> set cs. c < groups"
  shows "\<exists>mtf'. \<forall>b rest. msb_field b \<longrightarrow> stream b = concat (map enc_unary cs) @ rest \<longrightarrow>
    (\<exists>b'. for_each [i..<i + length cs] (\<lambda>i. selector_step (int groups)) (mtf, acc, b) =
       Inr (mtf', acc @ sels, b') \<and> msb_field b' \<and> stream b' = rest)"
  using assms
proof (induction cs arbitrary: mtf acc sels i)
  case Nil
  then show ?case by auto
next
  case (Cons c cs)
  then obtain sels' where sels: "sels = mtf ! c # sels'" "mtf_decode (move_to_front mtf c) cs = Inr sels'"
    and c: "c < length mtf"
    by (auto simp: rbind_eq_Inr lget_eq_Inr)
  obtain mtf' where IH: "\<And>b rest. msb_field b \<Longrightarrow> stream b = concat (map enc_unary cs) @ rest \<Longrightarrow>
      \<exists>b'. for_each [Suc i..<Suc i + length cs] (\<lambda>i. selector_step (int groups))
        (move_to_front mtf c, acc @ [mtf ! c], b) = Inr (mtf', (acc @ [mtf ! c]) @ sels', b') \<and>
        msb_field b' \<and> stream b' = rest"
    using Cons.IH [OF sels(2), of "Suc i" "acc @ [mtf ! c]"] Cons.prems by auto
  have upt: "[i..<i + length (c # cs)] = i # [Suc i..<Suc i + length cs]"
    by (simp add: upt_conv_Cons del: upt_Suc)
  have "\<exists>b'. for_each [i..<i + length (c # cs)] (\<lambda>i. selector_step (int groups)) (mtf, acc, b) =
      Inr (mtf', acc @ sels, b') \<and> msb_field b' \<and> stream b' = rest"
    if b: "msb_field b" "stream b = concat (map enc_unary (c # cs)) @ rest" for b rest
  proof -
    have "reads (unary_loop (int groups) 0) (enc_unary c) c"
      using reads_unary [of 0 c groups] Cons.prems(2,3) c by simp
    then obtain b1 where b1: "unary_loop (int groups) 0 b = Inr (c, b1)" "msb_field b1"
      "stream b1 = concat (map enc_unary cs) @ rest"
      using b by (auto elim: readsE)
    then have "selector_step (int groups) (mtf, acc, b) =
        Inr (move_to_front mtf c, acc @ [mtf ! c], b1)"
      using c by (simp add: selector_step_def Let_def move_to_front_nth)
    with IH [OF b1(2,3)] sels show ?thesis unfolding upt by simp
  qed
  then show ?case by blast
qed

lemma mtf_encode_less: "set xs \<subseteq> set l \<Longrightarrow> c \<in> set (mtf_encode l xs) \<Longrightarrow> c < length l"
proof (induction xs arbitrary: l)
  case Nil
  then show ?case by simp
next
  case (Cons x xs)
  let ?k = "length (takeWhile (\<lambda>y. y \<noteq> x) l)"
  from Cons.prems(2) consider "c = ?k" | "c \<in> set (mtf_encode (move_to_front l ?k) xs)"
    by (auto simp: Let_def)
  then show ?case
    using Cons.IH [of "move_to_front l ?k"] Cons.prems(1) by cases (auto simp: nth_first)
qed

lemma length_mtf_encode [simp]: "length (mtf_encode l xs) = length xs"
  by (induction xs arbitrary: l) (auto simp: Let_def)

lemma reads_selectors:
  assumes "\<forall>i \<in> set sels. i < groups" and "length sels < 2 ^ 15"
  shows "reads (\<lambda>b. compute_selectors_list b (int groups)) (enc_selectors groups sels) sels"
proof (rule readsI)
  fix b rest assume b: "msb_field b" "stream b = enc_selectors groups sels @ rest"
  let ?cs = "mtf_encode [0..<groups] sels"
  have "reads (readbits 15) (msb_bits 15 (int (length sels))) (int (length sels))"
    using reads_number [of "int (length sels)" 15] assms(2) by simp
  then obtain b1 where b1: "readbits 15 b = Inr (int (length sels), b1)" "msb_field b1"
    "stream b1 = concat (map enc_unary ?cs) @ rest"
    using b by (auto simp: enc_selectors_def elim: readsE)
  have "set sels \<subseteq> set [0..<groups]" using assms(1) by auto
  then have dec: "mtf_decode [0..<groups] ?cs = Inr sels" and less: "\<forall>c \<in> set ?cs. c < groups"
    using mtf_roundtrip [of sels] mtf_encode_less [of sels "[0..<groups]"] by (auto simp only: length_upt diff_zero)
  obtain mtf' where "\<forall>b rest. msb_field b \<longrightarrow> stream b = concat (map enc_unary ?cs) @ rest \<longrightarrow>
    (\<exists>b'. for_each [0..<0 + length ?cs] (\<lambda>i. selector_step (int groups)) ([0..<groups], [], b) =
       Inr (mtf', [] @ sels, b') \<and> msb_field b' \<and> stream b' = rest)"
    using selectors_loop [OF dec _ less, of 0 "[]"] by (auto simp only: length_upt diff_zero)
  with b1(2,3) have "\<exists>b'. for_each [0..<0 + length ?cs] (\<lambda>i. selector_step (int groups)) ([0..<groups], [], b1) =
       Inr (mtf', [] @ sels, b') \<and> msb_field b' \<and> stream b' = rest" by blast
  then obtain b2 where
    "for_each [0..<length sels] (\<lambda>i. selector_step (int groups)) ([0..<groups], [], b1) = Inr (mtf', sels, b2)"
    "msb_field b2" "stream b2 = rest" by auto
  with b1 show "\<exists>b'. compute_selectors_list b (int groups) = Inr (sels, b') \<and> msb_field b' \<and> stream b' = rest"
    by (simp add: compute_selectors_list_def)
qed

section \<open>The code lengths\<close>

definition enc_delta :: "int \<Rightarrow> int \<Rightarrow> bool list" where
  "enc_delta from to =
     concat (replicate (nat (abs (to - from))) [True, to < from]) @ [False]"

fun enc_deltas :: "int \<Rightarrow> int list \<Rightarrow> bool list" where
  "enc_deltas len [] = []"
| "enc_deltas len (l # ls) = enc_delta len l @ enc_deltas l ls"

definition enc_lengths :: "int list \<Rightarrow> bool list" where
  "enc_lengths ls = msb_bits 5 (hd ls) @ enc_deltas (hd ls) ls"

lemma delta_loop_fun:
  "delta_loop len = (\<lambda>b. rbind (readbits 1 b) (\<lambda>(v, b). if v \<noteq> 0 then
     rbind (readbits 1 b) (\<lambda>(d, b). delta_loop (len - (d * 2 - 1)) b) else Inr (len, b)))"
  by (intro ext) (rule delta_loop.simps)

lemma reads_delta_run:
  "reads (delta_loop (len + (if down then int k else - int k)))
     (concat (replicate k [True, down]) @ [False]) len"
proof (induction k)
  case 0
  then show ?case
    using reads_bind [OF reads_bit [of False], of "\<lambda>v b. if v \<noteq> 0 then
       rbind (readbits 1 b) (\<lambda>(d, b). delta_loop (len - (d * 2 - 1)) b) else Inr (len, b)" "[]" len]
    by (simp add: delta_loop_fun [of len] reads_return)
next
  case (Suc k)
  let ?len = "len + (if down then int (Suc k) else - int (Suc k))"
  let ?tail = "concat (replicate k [True, down]) @ [False]"
  have "reads (\<lambda>b. rbind (readbits 1 b) (\<lambda>(d, b). delta_loop (?len - (d * 2 - 1)) b)) ([down] @ ?tail) len"
    by (rule reads_bind [OF reads_bit]) (use Suc.IH in \<open>simp add: algebra_simps split: if_splits\<close>)
  then have "reads (\<lambda>b. rbind (readbits 1 b) (\<lambda>(v, b). if v \<noteq> 0 then
       rbind (readbits 1 b) (\<lambda>(d, b). delta_loop (?len - (d * 2 - 1)) b) else Inr (?len, b)))
     ([True] @ [down] @ ?tail) len"
    by (intro reads_bind [OF reads_bit]) simp
  then show ?case by (simp add: delta_loop_fun [of ?len])
qed

lemma reads_delta: "reads (delta_loop from) (enc_delta from to) to"
proof (cases "to < from")
  case True
  with reads_delta_run [of to True "nat (from - to)"] show ?thesis by (simp add: enc_delta_def)
next
  case False
  with reads_delta_run [of to False "nat (to - from)"] show ?thesis by (simp add: enc_delta_def)
qed

lemma lengths_loop:
  assumes "0 \<le> len" and "len \<le> 20" and "\<forall>l \<in> set ls. 0 \<le> l \<and> l \<le> 20"
    and "msb_field b" and "stream b = enc_deltas len ls @ rest"
  shows "\<exists>len' b'. for_each [i..<i + length ls] (\<lambda>i. length_step) (len, acc, b) =
      Inr (len', acc @ ls, b') \<and> msb_field b' \<and> stream b' = rest"
  using assms
proof (induction ls arbitrary: len acc b i)
  case Nil
  then show ?case by simp
next
  case (Cons l ls)
  have "stream b = enc_delta len l @ enc_deltas l ls @ rest" using Cons.prems(5) by simp
  with reads_delta [of len l] Cons.prems(4) obtain b1 where b1: "delta_loop len b = Inr (l, b1)"
    "msb_field b1" "stream b1 = enc_deltas l ls @ rest" by (rule readsE)
  then have "length_step (len, acc, b) = Inr (l, acc @ [l], b1)"
    using Cons.prems(1,2) by (simp add: length_step_def)
  moreover have "[i..<i + length (l # ls)] = i # [Suc i..<Suc i + length ls]"
    by (simp add: upt_conv_Cons del: upt_Suc)
  moreover obtain len' b' where "for_each [Suc i..<Suc i + length ls] (\<lambda>i. length_step) (l, acc @ [l], b1) =
      Inr (len', (acc @ [l]) @ ls, b')" "msb_field b'" "stream b' = rest"
    using Cons.IH [of l b1 "Suc i" "acc @ [l]"] Cons.prems(3) b1(2,3) by auto
  ultimately show ?case by simp
qed

lemma reads_lengths:
  assumes "ls \<noteq> []" and "\<forall>l \<in> set ls. 0 \<le> l \<and> l \<le> 20"
  shows "reads (group_lengths (length ls)) (enc_lengths ls) ls"
proof (rule readsI)
  fix b rest assume b: "msb_field b" "stream b = enc_lengths ls @ rest"
  have h: "0 \<le> hd ls" "hd ls \<le> 20" using assms by auto
  then have "reads (readbits 5) (msb_bits 5 (hd ls)) (hd ls)"
    using reads_number [of "hd ls" 5] by simp
  then obtain b1 where b1: "readbits 5 b = Inr (hd ls, b1)" "msb_field b1"
    "stream b1 = enc_deltas (hd ls) ls @ rest"
    using b by (auto simp: enc_lengths_def elim: readsE)
  with lengths_loop [OF h assms(2) b1(2,3), of 0 "[]"] show
    "\<exists>b'. group_lengths (length ls) b = Inr (ls, b') \<and> msb_field b' \<and> stream b' = rest"
    by (auto simp: group_lengths_def)
qed

definition enc_tables :: "int list list \<Rightarrow> bool list" where
  "enc_tables gs = concat (map enc_lengths gs)"

lemma groups_loop:
  assumes "\<forall>g \<in> set gs. g \<noteq> [] \<and> length g = n \<and> (\<forall>l \<in> set g. 0 \<le> l \<and> l \<le> 20)"
    and "msb_field b" and "stream b = enc_tables gs @ rest"
  shows "\<exists>b'. for_each [i..<i + length gs] (\<lambda>j (groups_lengths, b).
      rbind (group_lengths n b) (\<lambda>(lengths, b). Inr (groups_lengths @ [lengths], b))) (acc, b) =
      Inr (acc @ gs, b') \<and> msb_field b' \<and> stream b' = rest"
  using assms
proof (induction gs arbitrary: acc b i)
  case Nil
  then show ?case by (simp add: enc_tables_def)
next
  case (Cons g gs)
  then have g: "g \<noteq> []" "length g = n" "\<forall>l \<in> set g. 0 \<le> l \<and> l \<le> 20" by auto
  have "stream b = enc_lengths g @ enc_tables gs @ rest"
    using Cons.prems(3) by (simp add: enc_tables_def)
  with reads_lengths [OF g(1,3)] Cons.prems(2) obtain b1 where b1: "group_lengths (length g) b = Inr (g, b1)"
    "msb_field b1" "stream b1 = enc_tables gs @ rest" by (rule readsE)
  moreover have "[i..<i + length (g # gs)] = i # [Suc i..<Suc i + length gs]"
    by (simp add: upt_conv_Cons del: upt_Suc)
  ultimately show ?case
    using Cons.IH [of b1 "Suc i" "acc @ [g]"] Cons.prems(1) g(2) by simp
qed

text \<open>A table for the decoder: valid, within Kraft's inequality, with a code for every symbol.\<close>

definition good_lengths :: "nat \<Rightarrow> int list \<Rightarrow> bool" where
  "good_lengths n g \<longleftrightarrow> length g = n \<and> g \<noteq> [] \<and> (\<forall>l \<in> set g. 1 \<le> l \<and> l \<le> 20) \<and> kraft 20 g"

definition good_table :: "nat \<Rightarrow> htable \<Rightarrow> bool" where
  "good_table n t \<longleftrightarrow> populated (ht_table t) \<and> kraft 20 (map h_bits (ht_table t)) \<and>
     (\<forall>c < n. \<exists>x \<in> set (ht_table t). h_code x = int c)"

lemma make_table_good:
  assumes "good_lengths n g"
  shows "\<exists>t. make_table g = Inr t \<and> good_table n t"
proof -
  have pos: "\<forall>l \<in> set g. 0 \<le> l" and filt: "filter (\<lambda>b. b \<noteq> 0) g = g"
    using assms by (fastforce simp: good_lengths_def filter_id_conv)+
  obtain t where t: "code_table g = Inr t" "populated t"
    "map h_bits t = map h_bits (sort_key huff_key (length_entries g))"
    "map h_code t = map h_code (sort_key huff_key (length_entries g))"
    using code_table_ok [OF pos] by blast
  have "kraft 20 (map h_bits t)"
    using code_table_kraft [OF t(3)] filt assms by (simp add: good_lengths_def)
  moreover have "\<exists>x \<in> set t. h_code x = int c" if "c < n" for c
  proof -
    have "c < length g" "g ! c \<noteq> 0" using assms that nth_mem [of c g]
      by (fastforce simp: good_lengths_def)+
    then have "HuffmanLength (int c) (g ! c) \<in> set (length_entries g)"
      by (auto simp: length_entries_mem)
    then have "int c \<in> set (map h_code (sort_key huff_key (length_entries g)))"
      by (force simp: HuffmanLength_def image_iff)
    then have "int c \<in> set (map h_code t)" by (simp only: t(4))
    then show ?thesis by auto
  qed
  moreover obtain mn mx where "min_max_bits t = (mn, mx)" by (cases "min_max_bits t") auto
  then have "make_table g = Inr \<lparr>ht_table = t, ht_min_bits = mn, ht_max_bits = mx\<rparr>"
    using t(1) by (auto simp: make_table_def code_table_def rbind_eq_Inr)
  ultimately show ?thesis using t(2) by (auto simp: good_table_def)
qed

definition tables_of :: "int list list \<Rightarrow> htable list result" where
  "tables_of gs = for_each gs (\<lambda>g tables. rbind (make_table g) (\<lambda>codes. Inr (tables @ [codes]))) []"

lemma tables_of_good:
  assumes "\<forall>g \<in> set gs. good_lengths n g"
  shows "\<exists>ts. tables_of gs = Inr ts \<and> length ts = length gs \<and> (\<forall>t \<in> set ts. good_table n t)"
proof -
  have "\<exists>ts. for_each gs (\<lambda>g tables. rbind (make_table g) (\<lambda>codes. Inr (tables @ [codes]))) [] = Inr ts \<and>
      length ts = length gs \<and> (\<forall>t \<in> set ts. good_table n t)"
    by (rule for_each_count [where I = "\<lambda>k ts. length ts = k \<and> (\<forall>t \<in> set ts. good_table n t)"])
      (use assms make_table_good [of n] nth_mem in \<open>fastforce+\<close>)
  then show ?thesis by (simp add: tables_of_def)
qed

lemma reads_tables:
  assumes "\<forall>g \<in> set gs. good_lengths n g" and "tables_of gs = Inr ts"
  shows "reads (\<lambda>b. compute_tables b (int (length gs)) n) (enc_tables gs) ts"
proof (rule readsI)
  fix b rest assume b: "msb_field b" "stream b = enc_tables gs @ rest"
  have "\<forall>g \<in> set gs. g \<noteq> [] \<and> length g = n \<and> (\<forall>l \<in> set g. 0 \<le> l \<and> l \<le> 20)"
    using assms(1) by (fastforce simp: good_lengths_def)
  from groups_loop [OF this b, of 0 "[]"] assms(2)
  show "\<exists>b'. compute_tables b (int (length gs)) n = Inr (ts, b') \<and> msb_field b' \<and> stream b' = rest"
    by (auto simp: compute_tables_def tables_of_def)
qed

section \<open>The symbols of a block\<close>

text \<open>
  The symbols as the block's main loop sees them, without their bits: \<open>run_symbols\<close> folds
  \<open>symbol_step\<close> over a list, and tells whether the block ended exactly with its last symbol.
\<close>

fun run_symbols :: "int \<Rightarrow> int list \<Rightarrow> block_state \<Rightarrow> (bool \<times> block_state) result" where
  "run_symbols n [] st = Inr (False, st)"
| "run_symbols n (r # rs) st =
     rbind (symbol_step n r st) (\<lambda>(fin, st). if fin then Inr (rs = [], st) else run_symbols n rs st)"

text \<open>A run of \<open>z\<close> front symbols is counted in base two with the digits one and two.\<close>

fun run_digits :: "nat \<Rightarrow> int list" where
  "run_digits z = (if z = 0 then [] else if odd z then 0 # run_digits ((z - 1) div 2)
     else 1 # run_digits ((z - 2) div 2))"

declare run_digits.simps [simp del]

fun enc_mtf :: "int \<Rightarrow> nat \<Rightarrow> nat list \<Rightarrow> int list" where
  "enc_mtf n z [] = run_digits z @ [n - 1]"
| "enc_mtf n z (c # cs) =
     (if c = 0 then enc_mtf n (z + 1) cs else run_digits z @ (int c + 1) # enc_mtf n 0 cs)"

lemma run_digits_ok:
  assumes "0 \<le> bs_repeat st" and "bs_repeat st \<noteq> 0 \<longrightarrow> 1 \<le> bs_repeat_power st"
  shows "\<exists>p. run_symbols n (run_digits z @ rs) st = run_symbols n rs
    (st\<lparr>bs_repeat := bs_repeat st + int z * (if bs_repeat st = 0 then 1 else bs_repeat_power st),
        bs_repeat_power := p\<rparr>)"
  using assms
proof (induction z arbitrary: st rule: run_digits.induct)
  case (1 z)
  define p where "p = (if bs_repeat st = 0 then 1 else bs_repeat_power st)"
  have p: "1 \<le> p" using 1(4) by (simp add: p_def)
  consider "z = 0" | m where "z = 2 * m + 1" | m where "z = 2 * m + 2"
    by (metis Suc_eq_plus1 add_2_eq_Suc' evenE mult_Suc_right not0_implies_Suc oddE)
  then have "\<exists>q. run_symbols n (run_digits z @ rs) st = run_symbols n rs
      (st\<lparr>bs_repeat := bs_repeat st + int z * p, bs_repeat_power := q\<rparr>)"
  proof cases
    case 1
    then show ?thesis
      by (intro exI [of _ "bs_repeat_power st"]) (simp add: run_digits.simps)
  next
    case (2 m)
    have step: "run_symbols n (run_digits z @ rs) st = run_symbols n (run_digits m @ rs)
        (st\<lparr>bs_repeat := bs_repeat st + p, bs_repeat_power := 2 * p\<rparr>)"
      using 2 by (simp add: run_digits.simps [of "Suc _"] symbol_step_def Let_def p_def [symmetric] mult.commute [of p 2])
    have "0 < bs_repeat st + p" using 1(3) p by simp
    then obtain q where "run_symbols n (run_digits z @ rs) st = run_symbols n rs
        (st\<lparr>bs_repeat := bs_repeat st + p + int m * (2 * p), bs_repeat_power := q\<rparr>)"
      using 1(1) [of "st\<lparr>bs_repeat := bs_repeat st + p, bs_repeat_power := 2 * p\<rparr>"] 2 p step by auto
    moreover have "bs_repeat st + p + int m * (2 * p) = bs_repeat st + int z * p"
      using 2 by (simp add: algebra_simps)
    ultimately show ?thesis by auto
  next
    case (3 m)
    have step: "run_symbols n (run_digits z @ rs) st = run_symbols n (run_digits m @ rs)
        (st\<lparr>bs_repeat := bs_repeat st + 2 * p, bs_repeat_power := 2 * p\<rparr>)"
      using 3 by (simp add: run_digits.simps [of "Suc _"] symbol_step_def Let_def p_def [symmetric] mult.commute [of p 2])
    have "0 < bs_repeat st + 2 * p" using 1(3) p by simp
    then obtain q where "run_symbols n (run_digits z @ rs) st = run_symbols n rs
        (st\<lparr>bs_repeat := bs_repeat st + 2 * p + int m * (2 * p), bs_repeat_power := q\<rparr>)"
      using 1(2) [of "st\<lparr>bs_repeat := bs_repeat st + 2 * p, bs_repeat_power := 2 * p\<rparr>"] 3 p step by auto
    moreover have "bs_repeat st + 2 * p + int m * (2 * p) = bs_repeat st + int z * p"
      using 3 by (simp add: algebra_simps)
    ultimately show ?thesis by auto
  qed
  then show ?case by (simp only: p_def)
qed

text \<open>The run, when one is pending, is written out before the symbol \<open>r\<close> is looked at.\<close>

lemma symbol_step_flush:
  assumes "r \<noteq> 0" and "r \<noteq> 1" and "bs_favourites st \<noteq> []" and "bs_repeat st = int z"
  shows "symbol_step n r st =
    (let st' = st\<lparr>bs_buffer := bs_buffer st @ replicate z (hd (bs_favourites st)), bs_repeat := 0\<rparr> in
     if r = n - 1 then Inr (True, st')
     else rbind (py_get (bs_favourites st) (r - 1)) (\<lambda>c.
       Inr (False, st'\<lparr>bs_favourites := move_to_front (bs_favourites st) (nat (r - 1)),
                       bs_buffer := bs_buffer st' @ [c]\<rparr>)))"
proof -
  let ?st = "st\<lparr>bs_buffer := bs_buffer st @ replicate z (hd (bs_favourites st)), bs_repeat := 0\<rparr>"
  have "(if bs_repeat st > 0 then
           rbind (lget (bs_favourites st) 0) (\<lambda>f.
           Inr (st\<lparr>bs_buffer := bs_buffer st @ replicate (nat (bs_repeat st)) f, bs_repeat := 0\<rparr>))
         else Inr st) = Inr ?st"
  proof (cases "z = 0")
    case True
    then show ?thesis using assms(4) by (cases st) simp
  next
    case False
    then show ?thesis using assms by (simp add: hd_conv_nth)
  qed
  then show ?thesis
    unfolding symbol_step_def using assms by (simp only: rbind_simps Let_def) simp
qed

lemma run_symbols_enc_mtf:
  assumes "mtf_decode (bs_favourites st) cs = Inr xs" and "bs_repeat st = 0"
    and "n = int (length (bs_favourites st)) + 2" and "bs_favourites st \<noteq> []"
  shows "\<exists>st'. run_symbols n (enc_mtf n z cs) st = Inr (True, st') \<and>
    bs_buffer st' = bs_buffer st @ replicate z (hd (bs_favourites st)) @ xs"
  using assms
proof (induction cs arbitrary: st z xs)
  case Nil
  obtain p where p: "run_symbols n (run_digits z @ [n - 1]) st =
      run_symbols n [n - 1] (st\<lparr>bs_repeat := int z, bs_repeat_power := p\<rparr>)"
    using run_digits_ok [of st n z "[n - 1]"] Nil.prems(2) by auto
  have "n - 1 \<noteq> 0" "n - 1 \<noteq> 1" using Nil.prems(3,4) by (cases "bs_favourites st"; simp)+
  with symbol_step_flush [of "n - 1" "st\<lparr>bs_repeat := int z, bs_repeat_power := p\<rparr>" z n] Nil.prems(4)
  obtain st' where "symbol_step n (n - 1) (st\<lparr>bs_repeat := int z, bs_repeat_power := p\<rparr>) = Inr (True, st')"
    "bs_buffer st' = bs_buffer st @ replicate z (hd (bs_favourites st))"
    by (simp add: Let_def)
  with p Nil.prems(1) show ?case by (auto simp del: run_symbols.simps(2) simp: run_symbols.simps(2) [of n "n - 1" "[]"])
next
  case (Cons c cs)
  obtain xs' where c: "c < length (bs_favourites st)" and xs: "xs = bs_favourites st ! c # xs'"
    and dec: "mtf_decode (move_to_front (bs_favourites st) c) cs = Inr xs'"
    using Cons.prems(1) by (auto simp: rbind_eq_Inr lget_eq_Inr)
  then have ne: "bs_favourites st \<noteq> []" by auto
  show ?case
  proof (cases "c = 0")
    case True
    have "move_to_front (bs_favourites st) 0 = bs_favourites st"
      using ne by (simp add: move_to_front_def flip: take_Suc_conv_app_nth)
    with Cons.IH [of st xs' "Suc z"] Cons.prems dec True ne xs show ?thesis
      by (auto simp: hd_conv_nth replicate_app_Cons_same)
  next
    case False
    obtain p where p: "run_symbols n (run_digits z @ (int c + 1) # enc_mtf n 0 cs) st =
        run_symbols n ((int c + 1) # enc_mtf n 0 cs) (st\<lparr>bs_repeat := int z, bs_repeat_power := p\<rparr>)"
      using run_digits_ok [of st n z "(int c + 1) # enc_mtf n 0 cs"] Cons.prems(2) by auto
    let ?st = "st\<lparr>bs_repeat := 0, bs_repeat_power := p,
        bs_buffer := (bs_buffer st @ replicate z (hd (bs_favourites st))) @ [bs_favourites st ! c],
        bs_favourites := move_to_front (bs_favourites st) c\<rparr>"
    have "symbol_step n (int c + 1) (st\<lparr>bs_repeat := int z, bs_repeat_power := p\<rparr>) = Inr (False, ?st)"
      using False c ne Cons.prems(3)
        symbol_step_flush [of "int c + 1" "st\<lparr>bs_repeat := int z, bs_repeat_power := p\<rparr>" z n]
      by (simp add: Let_def py_get_def py_index_def)
    with p have "run_symbols n (enc_mtf n z (c # cs)) st = run_symbols n (enc_mtf n 0 cs) ?st"
      using False by simp
    moreover have "bs_favourites ?st \<noteq> []" using ne by (metis (no_types, lifting) block_state.select_convs(5) block_state.surjective block_state.update_convs(5) length_0_conv length_move_to_front)
    ultimately show ?thesis using Cons.IH [of ?st xs' 0] dec Cons.prems(3) xs by auto
  qed
qed

section \<open>The main loop reads the coded symbols\<close>

definition code_of :: "htable \<Rightarrow> int \<Rightarrow> bool list" where
  "code_of t r = (case find (\<lambda>x. h_code x = r) (ht_table t) of Some x \<Rightarrow> codeword x | None \<Rightarrow> [])"

text \<open>Symbol \<open>i\<close> is coded with the table of the \<open>i div 50\<close>th selector.\<close>

fun enc_symbols :: "htable list \<Rightarrow> nat list \<Rightarrow> nat \<Rightarrow> int list \<Rightarrow> bool list" where
  "enc_symbols ts sels i [] = []"
| "enc_symbols ts sels i (r # rs) = code_of (ts ! (sels ! (i div 50))) r @ enc_symbols ts sels (Suc i) rs"

lemma code_of_good:
  assumes "good_table n t" and "0 \<le> r" and "r < int n"
  obtains x where "x \<in> set (ht_table t)" and "h_code x = r" and "code_of t r = codeword x"
proof -
  obtain y where "y \<in> set (ht_table t)" "h_code y = int (nat r)"
    using assms unfolding good_table_def by (metis nat_less_iff)
  then have "find (\<lambda>x. h_code x = r) (ht_table t) \<noteq> None"
    using assms(2) by (auto simp: find_None_iff)
  then obtain x where "find (\<lambda>x. h_code x = r) (ht_table t) = Some x" by auto
  moreover from this have "x \<in> set (ht_table t)" "h_code x = r" by (auto simp: find_Some_iff)
  ultimately show ?thesis using that by (simp add: code_of_def)
qed

lemma code_of_length:
  assumes "good_table n t" and "0 \<le> r" and "r < int n"
  shows "1 \<le> length (code_of t r)"
proof -
  obtain x where "x \<in> set (ht_table t)" "code_of t r = codeword x"
    using assms by (rule code_of_good)
  with assms(1) show ?thesis by (auto simp: good_table_def populated_def by_length_def)
qed

lemma reads_symbol:
  assumes "good_table n t" and "0 \<le> r" and "r < int n"
  shows "reads (\<lambda>b. find_next_symbol (ht_table t) b False) (code_of t r) r"
proof (rule readsI)
  fix b rest assume b: "msb_field b" "stream b = code_of t r @ rest"
  obtain x where "x \<in> set (ht_table t)" "h_code x = r" "code_of t r = codeword x"
    using assms by (rule code_of_good)
  with find_next_symbol_found [of "ht_table t" 20 x b rest] assms(1) b
  show "\<exists>b'. find_next_symbol (ht_table t) b False = Inr (r, b') \<and> msb_field b' \<and> stream b' = rest"
    by (auto simp: good_table_def msb_field_def)
qed

text \<open>The counters of the table switch when \<open>i\<close> symbols have been read.\<close>

definition switched :: "htable list \<Rightarrow> nat list \<Rightarrow> nat \<Rightarrow> block_state \<Rightarrow> bool" where
  "switched ts sels i st \<longleftrightarrow>
     (if i = 0 then bs_selector_pointer st = 0 \<and> bs_decoded st = 0
      else bs_selector_pointer st = (i - 1) div 50 + 1 \<and> bs_decoded st = 50 - int ((i - 1) mod 50) \<and>
        bs_t st = Some (ts ! (sels ! ((i - 1) div 50))))"

lemma retable_switched:
  assumes "switched ts sels i st" and "i div 50 < length sels" and "\<forall>j \<in> set sels. j < length ts"
  shows "\<exists>p d t. retable ts sels st =
      Inr (st\<lparr>bs_selector_pointer := p, bs_decoded := d, bs_t := t\<rparr>) \<and>
    switched ts sels (Suc i) (st\<lparr>bs_selector_pointer := p, bs_decoded := d, bs_t := t\<rparr>)"
proof (cases "i mod 50 = 0")
  case True
  have ptr: "bs_selector_pointer st = i div 50" "bs_decoded st - 1 \<le> 0"
  proof -
    show "bs_selector_pointer st = i div 50"
    proof (cases i)
      case 0
      with assms(1) show ?thesis by (simp add: switched_def)
    next
      case (Suc k)
      then have "k div 50 + 1 = i div 50" using True by (simp add: div_Suc)
      with assms(1) Suc show ?thesis by (simp add: switched_def)
    qed
    show "bs_decoded st - 1 \<le> 0"
    proof (cases i)
      case 0
      with assms(1) show ?thesis by (simp add: switched_def)
    next
      case (Suc k)
      then have "k mod 50 = 49" using True by (simp add: mod_Suc split: if_splits)
      with assms(1) Suc show ?thesis by (simp add: switched_def)
    qed
  qed
  have "sels ! (i div 50) < length ts" using assms(2,3) by simp
  with ptr assms(2) True show ?thesis
    by (intro exI [of _ "i div 50 + 1"] exI [of _ 50] exI [of _ "Some (ts ! (sels ! (i div 50)))"])
      (simp add: retable_def Let_def switched_def)
next
  case False
  then obtain k where k: "i = Suc k" by (cases i) auto
  with False have km: "i mod 50 = Suc (k mod 50)" "i div 50 = k div 50"
    by (auto simp: mod_Suc div_Suc split: if_splits)
  from assms(1) k have st: "bs_selector_pointer st = k div 50 + 1" "bs_decoded st = 50 - int (k mod 50)"
    "bs_t st = Some (ts ! (sels ! (k div 50)))"
    by (auto simp: switched_def)
  have "k mod 50 < 49" using km(1) mod_less_divisor [of 50 i] by linarith
  then have "\<not> bs_decoded st - 1 \<le> 0" using st(2) by simp
  with st km show ?thesis
    by (intro exI [of _ "bs_selector_pointer st"] exI [of _ "bs_decoded st - 1"] exI [of _ "bs_t st"])
      (simp add: retable_def Let_def switched_def)
qed

text \<open>The switch of tables and the symbols do not touch each other's fields.\<close>

lemma symbol_step_switch:
  "symbol_step n r (st\<lparr>bs_selector_pointer := p, bs_decoded := d, bs_t := t\<rparr>) =
   rbind (symbol_step n r st)
     (\<lambda>(fin, st). Inr (fin, st\<lparr>bs_selector_pointer := p, bs_decoded := d, bs_t := t\<rparr>))"
  by (cases "0 \<le> r"; cases "r \<le> 1"; cases "bs_repeat st > 0"; cases "bs_favourites st";
      cases "py_get (bs_favourites st) (r - 1)"; simp add: symbol_step_def Let_def lget_def)

lemma run_symbols_switch:
  "run_symbols n rs (st\<lparr>bs_selector_pointer := p, bs_decoded := d, bs_t := t\<rparr>) =
   rbind (run_symbols n rs st)
     (\<lambda>(fin, st). Inr (fin, st\<lparr>bs_selector_pointer := p, bs_decoded := d, bs_t := t\<rparr>))"
proof (induction rs arbitrary: st)
  case Nil
  then show ?case by simp
next
  case (Cons r rs)
  then show ?case
    by (cases "symbol_step n r st") (auto simp: symbol_step_switch simp del: block_state.update_convs)
qed

lemma symbol_step_switched:
  assumes "symbol_step n r st = Inr (fin, st')"
  shows "switched ts sels i st' = switched ts sels i st"
  using assms by (auto simp: symbol_step_def rbind_eq_Inr Let_def switched_def split: if_splits)

lemma huffman_loop_reads:
  assumes "run_symbols (int n) syms st = Inr (True, st')" and "switched ts sels i st"
    and "\<forall>r \<in> set syms. 0 \<le> r \<and> r < int n" and "i + length syms \<le> 50 * length sels"
    and "\<forall>j \<in> set sels. j < length ts" and "\<forall>t \<in> set ts. good_table n t"
    and "length syms \<le> fuel"
  shows "reads (huffman_loop fuel ts sels (int n) st) (enc_symbols ts sels i syms) (bs_buffer st')"
  using assms(1,2,3,4,7)
proof (induction syms arbitrary: st i fuel st')
  case Nil
  then show ?case by simp
next
  case (Cons r rs)
  from Cons.prems(5) obtain fuel' where fuel: "fuel = Suc fuel'" by (cases fuel) auto
  let ?t = "ts ! (sels ! (i div 50))"
  have i: "i div 50 < length sels" using Cons.prems(4) by auto
  then have t: "good_table n ?t" using assms(5,6) by simp
  obtain p d t' where st1: "retable ts sels st = Inr (st\<lparr>bs_selector_pointer := p, bs_decoded := d, bs_t := t'\<rparr>)"
    and sw: "switched ts sels (Suc i) (st\<lparr>bs_selector_pointer := p, bs_decoded := d, bs_t := t'\<rparr>)"
    using retable_switched [OF Cons.prems(2) i assms(5)] by blast
  let ?st = "st\<lparr>bs_selector_pointer := p, bs_decoded := d, bs_t := t'\<rparr>"
  have t': "bs_t ?st = Some ?t" using sw unfolding switched_def by simp
  obtain fin st2 where st2: "symbol_step (int n) r ?st = Inr (fin, st2)"
    and run: "if fin then rs = [] \<and> bs_buffer st2 = bs_buffer st'
      else \<exists>st3. run_symbols (int n) rs st2 = Inr (True, st3) \<and> bs_buffer st3 = bs_buffer st'"
  proof -
    have "run_symbols (int n) (r # rs) ?st =
        Inr (True, st'\<lparr>bs_selector_pointer := p, bs_decoded := d, bs_t := t'\<rparr>)"
      unfolding run_symbols_switch using Cons.prems(1) by simp
    then show thesis
      using that by (fastforce simp: rbind_eq_Inr split: if_splits)
  qed
  have sw2: "switched ts sels (Suc i) st2" using symbol_step_switched [OF st2] sw by simp
  have loop: "huffman_loop fuel ts sels (int n) st = (\<lambda>b.
      rbind (find_next_symbol (ht_table ?t) b False) (\<lambda>(r, b).
      rbind (symbol_step (int n) r ?st) (\<lambda>(fin, st).
      if fin then Inr (bs_buffer st, b) else huffman_loop fuel' ts sels (int n) st b)))"
    using st1 t' by (intro ext) (simp add: fuel del: block_state.update_convs)
  have "reads (\<lambda>b. rbind (symbol_step (int n) r ?st) (\<lambda>(fin, st).
      if fin then Inr (bs_buffer st, b) else huffman_loop fuel' ts sels (int n) st b))
      (enc_symbols ts sels (Suc i) rs) (bs_buffer st')"
  proof (cases fin)
    case True
    with run st2 show ?thesis by (simp add: reads_return)
  next
    case False
    then obtain st3 where "run_symbols (int n) rs st2 = Inr (True, st3)" "bs_buffer st3 = bs_buffer st'"
      using run by auto
    with Cons.IH [of st2 st3 "Suc i" fuel'] sw2 Cons.prems(3-5) fuel st2 False show ?thesis by simp
  qed
  moreover have "reads (\<lambda>b. find_next_symbol (ht_table ?t) b False) (code_of ?t r) r"
    using Cons.prems(3) by (intro reads_symbol [OF t]) auto
  ultimately show ?case
    unfolding loop enc_symbols.simps
    by (intro reads_bind [where g = "\<lambda>r b. rbind (symbol_step (int n) r ?st) (\<lambda>(fin, st).
      if fin then Inr (bs_buffer st, b) else huffman_loop fuel' ts sels (int n) st b)"])
qed

section \<open>Whole blocks\<close>

text \<open>
  What the encoder is free to choose for a block: the code lengths of its tables, the selectors
  and the checksum (which the decoder skips).
\<close>

record block =
  blk_data :: "nat list"
  blk_lengths :: "int list list"
  blk_selectors :: "nat list"
  blk_crc :: int

text \<open>The byte string that is transformed, the symbols it uses, and the symbols it becomes.\<close>

definition blk_text :: "block \<Rightarrow> nat list" where
  "blk_text k = rle_encode (blk_data k)"

definition blk_pointer :: "block \<Rightarrow> nat" where
  "blk_pointer k = length (takeWhile (\<lambda>x. x \<noteq> blk_text k) (rotations (blk_text k)))"

definition used_groups :: "nat list \<Rightarrow> bool list list" where
  "used_groups s = map (\<lambda>k. map (\<lambda>j. 16 * k + j \<in> set s) [0..<16]) [0..<16]"

definition favourites_of :: "nat list \<Rightarrow> nat list" where
  "favourites_of s = filter (\<lambda>c. c \<in> set s) [0..<256]"

definition blk_in_use :: "block \<Rightarrow> nat" where
  "blk_in_use k = length (favourites_of (blk_text k)) + 2"

definition blk_symbols :: "block \<Rightarrow> int list" where
  "blk_symbols k = enc_mtf (int (blk_in_use k)) 0
     (mtf_encode (favourites_of (blk_text k)) (bwt_encode (blk_text k)))"

definition enc_block :: "block \<Rightarrow> bool list result" where
  "enc_block k = rbind (tables_of (blk_lengths k)) (\<lambda>ts.
     Inr ([False] @ msb_bits 24 (int (blk_pointer k)) @ enc_used (used_groups (blk_text k)) @
       msb_bits 3 (int (length (blk_lengths k))) @
       enc_selectors (length (blk_lengths k)) (blk_selectors k) @
       enc_tables (blk_lengths k) @ enc_symbols ts (blk_selectors k) 0 (blk_symbols k)))"

definition good_block :: "block \<Rightarrow> bool" where
  "good_block k \<longleftrightarrow>
     blk_data k \<noteq> [] \<and> (\<forall>c \<in> set (blk_data k). c < 256) \<and> length (blk_text k) \<le> 2 ^ 24 \<and>
     2 \<le> length (blk_lengths k) \<and> length (blk_lengths k) \<le> 6 \<and>
     (\<forall>g \<in> set (blk_lengths k). good_lengths (blk_in_use k) g) \<and>
     (\<forall>i \<in> set (blk_selectors k). i < length (blk_lengths k)) \<and>
     length (blk_selectors k) < 2 ^ 15 \<and>
     length (blk_symbols k) \<le> 50 * length (blk_selectors k) \<and>
     0 \<le> blk_crc k \<and> blk_crc k < 2 ^ 32"

lemma used_groups_concat: "concat (used_groups s) = map (\<lambda>i. i \<in> set s) [0..<256]"
proof -
  have "concat (map (\<lambda>k. map (\<lambda>j. m * k + j \<in> set s) [0..<m]) [0..<n]) = map (\<lambda>i. i \<in> set s) [0..<m * n]" for m n
  proof (induction n)
    case 0
    then show ?case by simp
  next
    case (Suc n)
    have "[0..<m * Suc n] = [0..<m * n] @ [m * n..<m * n + m]"
      by (metis add.commute le0 mult_Suc_right upt_add_eq_append)
    with Suc show ?case by (simp add: map_bit_shift)
  qed
  from this [of 16 16] show ?thesis by (simp add: used_groups_def)
qed

lemma start_block_favourites:
  "bs_favourites (start_block (map (\<lambda>i. i \<in> set s) [0..<256])) = favourites_of s"
proof -
  have "map fst (filter snd (enumerate m (map P [m..<m + n]))) = filter P [m..<m + n]" for m n P
  proof (induction n arbitrary: m)
    case 0
    then show ?case by simp
  next
    case (Suc n)
    have "[m..<m + Suc n] = m # [Suc m..<Suc m + n]" by (simp add: upt_conv_Cons del: upt_Suc)
    with Suc [of "Suc m"] show ?case by (simp del: upt_Suc)
  qed
  from this [where m = 0 and n = 256] show ?thesis by (simp add: start_block_def favourites_of_def)
qed

lemma set_bwt_encode: "set (bwt_encode s) \<subseteq> set s"
proof
  fix c assume "c \<in> set (bwt_encode s)"
  then obtain i where "i < length s" "c = last (rotate i s)"
    by (auto simp: bwt_encode_def rotations_def)
  then have "c \<in> set (rotate i s)" by (metis last_in_set length_0_conv length_rotate not_less_zero)
  then show "c \<in> set s" by simp
qed

lemma blk_pointer_ok:
  assumes "blk_text k \<noteq> []"
  shows "blk_pointer k < length (blk_text k)" and "rotations (blk_text k) ! blk_pointer k = blk_text k"
proof -
  have "rotate 0 (blk_text k) = blk_text k" by simp
  then have "blk_text k \<in> set (rotations (blk_text k))"
    using assms by (force simp: rotations_def image_iff)
  from nth_first [OF this] show "blk_pointer k < length (blk_text k)"
    "rotations (blk_text k) ! blk_pointer k = blk_text k"
    by (simp_all add: blk_pointer_def)
qed

lemma run_digits_range: "r \<in> set (run_digits z) \<Longrightarrow> r = 0 \<or> r = 1"
  by (induction z rule: run_digits.induct) (subst (asm) run_digits.simps, auto split: if_splits)

lemma enc_mtf_range:
  "\<forall>c \<in> set cs. int c + 2 < n \<Longrightarrow> 2 \<le> n \<Longrightarrow> r \<in> set (enc_mtf n z cs) \<Longrightarrow> 0 \<le> r \<and> r < n"
proof (induction cs arbitrary: z)
  case Nil
  then show ?case by (auto dest!: run_digits_range)
next
  case (Cons c cs)
  then show ?case by (fastforce dest!: run_digits_range split: if_splits)
qed

lemma length_enc_symbols:
  assumes "\<forall>r \<in> set syms. 0 \<le> r \<and> r < int n" and "i + length syms \<le> 50 * length sels"
    and "\<forall>j \<in> set sels. j < length ts" and "\<forall>t \<in> set ts. good_table n t"
  shows "length syms \<le> length (enc_symbols ts sels i syms)"
  using assms(1,2)
proof (induction syms arbitrary: i)
  case Nil
  then show ?case by simp
next
  case (Cons r rs)
  have "i div 50 < length sels" using Cons.prems(2) by auto
  then have "good_table n (ts ! (sels ! (i div 50)))" using assms(3,4) by simp
  then have "1 \<le> length (code_of (ts ! (sels ! (i div 50))) r)"
    using Cons.prems(1) by (intro code_of_length) auto
  moreover have "length rs \<le> length (enc_symbols ts sels (Suc i) rs)"
    using Cons.IH [of "Suc i"] Cons.prems by simp
  ultimately show ?case by simp
qed

lemma reads_block:
  assumes "good_block k" and "enc_block k = Inr bs"
  shows "reads (\<lambda>b. decode_huffman_block b out) bs (out @ blk_data k)"
proof -
  let ?s = "blk_text k" and ?n = "blk_in_use k" and ?sels = "blk_selectors k" and ?gs = "blk_lengths k"
  obtain ts where ts: "tables_of ?gs = Inr ts" and bs: "bs = [False] @ msb_bits 24 (int (blk_pointer k)) @
      enc_used (used_groups ?s) @ msb_bits 3 (int (length ?gs)) @ enc_selectors (length ?gs) ?sels @
      enc_tables ?gs @ enc_symbols ts ?sels 0 (blk_symbols k)"
    using assms(2) by (auto simp: enc_block_def rbind_eq_Inr)
  have good_ts: "length ts = length ?gs" "\<forall>t \<in> set ts. good_table ?n t"
    using tables_of_good [of ?gs ?n] ts assms(1) by (auto simp: good_block_def)
  have s: "?s \<noteq> []" "\<forall>c \<in> set ?s. c < 256"
  proof -
    show "?s \<noteq> []"
    proof
      assume "?s = []"
      then have "rle_loop [] 0 [] = blk_data k" using rle_loop_encode [of "blk_data k" "[]"] by (simp add: blk_text_def)
      then show False using assms(1) by (simp add: rle_loop.simps good_block_def)
    qed
    show "\<forall>c \<in> set ?s. c < 256"
      using rle_encode_bytes [of "blk_data k"] assms(1) by (simp add: blk_text_def good_block_def)
  qed
  have fav: "set (bwt_encode ?s) \<subseteq> set (favourites_of ?s)" "favourites_of ?s \<noteq> []"
  proof -
    show "set (bwt_encode ?s) \<subseteq> set (favourites_of ?s)"
      using set_bwt_encode [of ?s] s(2) by (auto simp: favourites_of_def)
    have "hd ?s \<in> set (favourites_of ?s)" using s by (simp add: favourites_of_def)
    then show "favourites_of ?s \<noteq> []" by auto
  qed
  let ?cs = "mtf_encode (favourites_of ?s) (bwt_encode ?s)" and ?st = "start_block (concat (used_groups ?s))"
  have st: "bs_favourites ?st = favourites_of ?s" "bs_repeat ?st = 0" "bs_buffer ?st = []"
    "switched ts ?sels 0 ?st"
    by (simp_all add: used_groups_concat start_block_favourites switched_def)
      (simp_all add: start_block_def)
  obtain st' where run: "run_symbols (int ?n) (blk_symbols k) ?st = Inr (True, st')"
    "bs_buffer st' = bwt_encode ?s"
    using run_symbols_enc_mtf [of ?st ?cs "bwt_encode ?s" "int ?n" 0] mtf_roundtrip [OF fav(1)] st fav(2)
    by (auto simp: blk_symbols_def blk_in_use_def)
  have range: "\<forall>r \<in> set (blk_symbols k). 0 \<le> r \<and> r < int ?n"
    using enc_mtf_range [of ?cs "int ?n"] mtf_encode_less [OF fav(1)]
    by (fastforce simp: blk_symbols_def blk_in_use_def)
  have idx: "0 + length (blk_symbols k) \<le> 50 * length ?sels" "\<forall>j \<in> set ?sels. j < length ts"
    using assms(1) good_ts(1) by (auto simp: good_block_def)
  have in_use: "length (filter (\<lambda>x. x) (concat (used_groups ?s))) + 2 = ?n"
    by (simp add: used_groups_concat blk_in_use_def favourites_of_def filter_map comp_def)
  have loop: "reads (\<lambda>b. huffman_loop (bits_left b + 1) ts ?sels (int ?n) ?st b)
      (enc_symbols ts ?sels 0 (blk_symbols k)) (bwt_encode ?s)"
  proof (rule readsI)
    fix b rest assume b: "msb_field b" "stream b = enc_symbols ts ?sels 0 (blk_symbols k) @ rest"
    have "length (blk_symbols k) \<le> length (enc_symbols ts ?sels 0 (blk_symbols k))"
      by (rule length_enc_symbols [OF range idx good_ts(2)])
    then have "length (blk_symbols k) \<le> bits_left b + 1"
      using length_stream [of b] b(2) by simp
    from huffman_loop_reads [OF run(1) st(4) range idx good_ts(2) this] b run(2)
    show "\<exists>b'. huffman_loop (bits_left b + 1) ts ?sels (int ?n) ?st b = Inr (bwt_encode ?s, b') \<and>
        msb_field b' \<and> stream b' = rest"
      by (auto simp: reads_def)
  qed
  have tail: "rbind (bwt_reverse (bwt_encode ?s) (int (blk_pointer k)))
      (\<lambda>nt. Inr (rle_loop nt 0 out, b)) = Inr (out @ blk_data k, b)" for b :: field
    using bwt_reverse_encode [OF s(2) blk_pointer_ok [OF s(1)]] rle_loop_encode [of "blk_data k" out]
    by (simp add: blk_text_def)
  have sizes: "int (blk_pointer k) < 2 ^ 24" "int (length ?gs) < 2 ^ 3" "2 \<le> int (length ?gs)"
    "int (length ?gs) \<le> 6"
    using assms(1) blk_pointer_ok(1) [OF s(1)] by (auto simp: good_block_def)
  have ptr: "reads (readbits 24) (msb_bits 24 (int (blk_pointer k))) (int (blk_pointer k))"
    and groups: "reads (readbits 3) (msb_bits 3 (int (length ?gs))) (int (length ?gs))"
    using reads_number [of "int (blk_pointer k)" 24] reads_number [of "int (length ?gs)" 3] sizes
    by simp_all
  have used: "reads compute_used (enc_used (used_groups ?s)) (concat (used_groups ?s))"
    by (rule reads_used) (auto simp: used_groups_def)
  have sels: "reads (\<lambda>b. compute_selectors_list b (int (length ?gs)))
      (enc_selectors (length ?gs) ?sels) ?sels"
    using assms(1) by (intro reads_selectors) (auto simp: good_block_def)
  have tables: "reads (\<lambda>b. compute_tables b (int (length ?gs)) ?n) (enc_tables ?gs) ts"
    using assms(1) by (intro reads_tables [OF _ ts]) (auto simp: good_block_def)
  have final: "reads (\<lambda>b. rbind (huffman_loop (bits_left b + 1) ts ?sels (int ?n) ?st b) (\<lambda>(buffer, b).
      rbind (bwt_reverse buffer (int (blk_pointer k))) (\<lambda>nt. Inr (rle_loop nt 0 out, b))))
      (enc_symbols ts ?sels 0 (blk_symbols k) @ []) (out @ blk_data k)"
    by (rule reads_bind [OF loop]) (simp only: tail reads_return)
  have range_ok: "\<not> \<not> (2 \<le> int (length ?gs) \<and> int (length ?gs) \<le> 6)" using sizes by simp
  show ?thesis
    unfolding decode_huffman_block_def bs
    apply (rule reads_bind [OF reads_bit])
    apply (simp only: of_bool_eq simp_thms if_False)
    apply (rule reads_bind [OF ptr])
    apply (rule reads_bind [OF used])
    apply (rule reads_bind [OF groups])
    apply (simp only: range_ok if_False in_use Let_def)
    apply (rule reads_bind [OF sels])
    apply (rule reads_bind [OF tables])
    using final by (simp only: append_Nil2)
qed

text \<open>The checksum of a block and the level of the file are read and not used.\<close>

section \<open>Whole files\<close>

definition PI_MAGIC :: int where "PI_MAGIC = 0x314159265359"
definition END_MAGIC :: int where "END_MAGIC = 0x177245385090"

fun enc_blocks :: "block list \<Rightarrow> bool list result" where
  "enc_blocks [] = Inr (msb_bits 48 END_MAGIC @ msb_bits 32 0)"
| "enc_blocks (k # ks) =
     rbind (enc_block k) (\<lambda>bs. rbind (enc_blocks ks) (\<lambda>rest.
     Inr (msb_bits 48 PI_MAGIC @ msb_bits 32 (blk_crc k) @ bs @ rest)))"

text \<open>Eight bits to the byte, the last byte filled up with zeros.\<close>

function pack_bits :: "bool list \<Rightarrow> nat list" where
  "pack_bits bs = (if bs = [] then []
     else nat (msb_number (take 8 (bs @ replicate 7 False))) # pack_bits (drop 8 bs))"
  by pat_completeness auto
termination by (relation "measure length") auto

declare pack_bits.simps [simp del]

definition enc_file :: "int \<Rightarrow> block list \<Rightarrow> nat list result" where
  "enc_file level ks = rbind (enc_blocks ks) (\<lambda>bs.
     Inr (pack_bits (msb_bits 16 0x425a @ msb_bits 8 104 @ msb_bits 8 (48 + level) @ bs)))"

lemma pack_bits_stream:
  "(\<forall>c \<in> set (pack_bits bs). c < 256) \<and>
   (\<exists>pad. concat (map (byte_bits RBitfield) (pack_bits bs)) = bs @ pad)"
proof (induction bs rule: pack_bits.induct)
  case (1 bs)
  show ?case
  proof (cases "bs = []")
    case True
    then show ?thesis by (simp add: pack_bits.simps)
  next
    case False
    let ?b = "take 8 (bs @ replicate 7 False)"
    have len: "length ?b = 8" using False by (cases bs) auto
    have byte: "byte_bits RBitfield (nat (msb_number ?b)) = ?b"
    proof -
      have "byte_bits RBitfield (nat (msb_number ?b)) = msb_bits 8 (msb_number ?b)"
        using msb_number_bounds(1) [of ?b]
        by (simp add: byte_bits_def msb_bits_def flip: bit_int_nat)
      with msb_bits_number [OF len] show ?thesis by simp
    qed
    have "nat (msb_number ?b) < 256"
      using msb_number_bounds [of ?b] unfolding len by simp
    moreover obtain pad where "concat (map (byte_bits RBitfield) (pack_bits (drop 8 bs))) = drop 8 bs @ pad"
      "\<forall>c \<in> set (pack_bits (drop 8 bs)). c < 256"
      using 1 False by auto
    moreover have "\<exists>pad'. ?b @ drop 8 bs @ pad = bs @ pad'"
    proof (cases "8 \<le> length bs")
      case True
      then have "?b @ drop 8 bs @ pad = bs @ pad" by (simp flip: append_assoc)
      then show ?thesis by blast
    qed auto
    ultimately show ?thesis
      using False byte by (auto simp: pack_bits.simps [of bs])
  qed
qed

lemma block_loop_blocks:
  assumes "\<forall>k \<in> set ks. good_block k" and "enc_blocks ks = Inr bs"
    and "msb_field b" and "stream b = bs @ rest"
  shows "block_loop b out = Inr (out @ concat (map blk_data ks))"
  using assms
proof (induction ks arbitrary: bs b out)
  case Nil
  have "reads (readbits 48) (msb_bits 48 END_MAGIC) END_MAGIC"
    using reads_number [of END_MAGIC 48] by (simp add: END_MAGIC_def)
  then obtain b1 where b1: "readbits 48 b = Inr (END_MAGIC, b1)" "msb_field b1"
    "stream b1 = msb_bits 32 0 @ rest"
    using Nil.prems by (auto elim: readsE)
  have "reads (readbits 32) (msb_bits 32 0) 0"
    using reads_number [of 0 32] by simp
  then obtain b2 where b2: "readbits 32 b1 = Inr (0, b2)" "msb_field b2"
    using b1(2,3) by (rule readsE)
  have "0 \<le> toskip b2" "toskip b2 \<le> int (bf_bits b2)"
    by (simp_all add: toskip_def AND_upper1)
  with b2 obtain v b3 where "align b2 = Inr b3"
    using read_buffered [of b2 "toskip b2"] by (auto simp: align_def msb_field_def)
  with b1 b2 show ?case
    by (subst block_loop.simps) (simp add: END_MAGIC_def)
next
  case (Cons k ks)
  obtain kb rb where kb: "enc_block k = Inr kb" "enc_blocks ks = Inr rb"
    "bs = msb_bits 48 PI_MAGIC @ msb_bits 32 (blk_crc k) @ kb @ rb"
    using Cons.prems(2) by (auto simp: rbind_eq_Inr)
  have "reads (readbits 48) (msb_bits 48 PI_MAGIC) PI_MAGIC"
    using reads_number [of PI_MAGIC 48] by (simp add: PI_MAGIC_def)
  then obtain b1 where b1: "readbits 48 b = Inr (PI_MAGIC, b1)" "msb_field b1"
    "stream b1 = msb_bits 32 (blk_crc k) @ kb @ rb @ rest"
    using Cons.prems(3,4) kb(3) by (auto elim: readsE)
  have "reads (readbits 32) (msb_bits 32 (blk_crc k)) (blk_crc k)"
    using reads_number [of "blk_crc k" 32] Cons.prems(1) by (simp add: good_block_def)
  then obtain b2 where b2: "readbits 32 b1 = Inr (blk_crc k, b2)" "msb_field b2"
    "stream b2 = kb @ rb @ rest"
    using b1(2,3) by (rule readsE)
  have "reads (\<lambda>b. decode_huffman_block b out) kb (out @ blk_data k)"
    using Cons.prems(1) kb(1) by (intro reads_block) auto
  then obtain b3 where b3: "decode_huffman_block b2 out = Inr (out @ blk_data k, b3)" "msb_field b3"
    "stream b3 = rb @ rest"
    using b2(2,3) by (rule readsE)
  have "block_loop b3 (out @ blk_data k) = Inr ((out @ blk_data k) @ concat (map blk_data ks))"
    using Cons.prems(1) by (intro Cons.IH [OF _ kb(2) b3(2,3)]) auto
  with b1(1) b2(1) b3(1) show ?case
    by (subst block_loop.simps) (simp add: PI_MAGIC_def)
qed

lemma enc_blocks_ok: "\<forall>k \<in> set ks. good_block k \<Longrightarrow> \<exists>bs. enc_blocks ks = Inr bs"
proof (induction ks)
  case Nil
  then show ?case by simp
next
  case (Cons k ks)
  have "\<exists>ts. tables_of (blk_lengths k) = Inr ts"
    using tables_of_good [of "blk_lengths k" "blk_in_use k"] Cons.prems by (auto simp: good_block_def)
  with Cons show ?case by (auto simp: enc_block_def)
qed

lemma copy_field_msb: "msb_field b \<Longrightarrow> msb_field (copy_field RBitfield b) \<and> stream (copy_field RBitfield b) = stream b"
  by (auto simp: msb_field_def copy_field_def wf_field_def stream_def)

lemma bzip2_main_blocks:
  assumes "1 \<le> level" and "level \<le> 9" and "\<forall>k \<in> set ks. good_block k" and "enc_blocks ks = Inr bs"
    and "msb_field b" and "stream b = msb_bits 8 104 @ msb_bits 8 (48 + level) @ bs @ pad"
  shows "bzip2_main b = Inr (concat (map blk_data ks))"
proof -
  let ?b = "copy_field RBitfield b"
  have b: "msb_field ?b" "stream ?b = msb_bits 8 104 @ msb_bits 8 (48 + level) @ bs @ pad"
    using copy_field_msb [OF assms(5)] assms(6) by simp_all
  have head: "reads (readbits 8) (msb_bits 8 104) 104" "reads (readbits 8) (msb_bits 8 (48 + level)) (48 + level)"
    using reads_number [of 104 8] reads_number [of "48 + level" 8] assms(1,2) by simp_all
  obtain b1 where b1: "readbits 8 ?b = Inr (104, b1)" "msb_field b1"
    "stream b1 = msb_bits 8 (48 + level) @ bs @ pad"
    using head(1) b by (rule readsE)
  obtain b2 where b2: "readbits 8 b1 = Inr (48 + level, b2)" "msb_field b2" "stream b2 = bs @ pad"
    using head(2) b1(2,3) by (rule readsE)
  with b1(1) block_loop_blocks [OF assms(3,4) b2(2,3), of "[]"] assms(1,2) show ?thesis
    by (simp add: bzip2_main_def Let_def)
qed

lemma enc_file_ok:
  assumes "\<forall>k \<in> set ks. good_block k"
  shows "\<exists>bytes bs pad. enc_file level ks = Inr bytes \<and> enc_blocks ks = Inr bs \<and>
    msb_field (new_field RBitfield bytes) \<and> stream (new_field RBitfield bytes) =
      msb_bits 16 0x425a @ msb_bits 8 104 @ msb_bits 8 (48 + level) @ bs @ pad"
proof -
  obtain bs where bs: "enc_blocks ks = Inr bs" using enc_blocks_ok [OF assms] by blast
  let ?all = "msb_bits 16 0x425a @ msb_bits 8 104 @ msb_bits 8 (48 + level) @ bs"
  from pack_bits_stream [of ?all] obtain pad where
    "concat (map (byte_bits RBitfield) (pack_bits ?all)) = ?all @ pad" "\<forall>c \<in> set (pack_bits ?all). c < 256"
    by blast
  then have "stream (new_field RBitfield (pack_bits ?all)) = ?all @ pad"
    "wf_field (new_field RBitfield (pack_bits ?all))"
    by (simp_all only: stream_new_field wf_new_field)
  with bs show ?thesis by (auto simp: enc_file_def msb_field_def new_field_def)
qed

end
