(* ===== verification/Gzip.thy ===== *)
theory Gzip
  imports Bzip2
begin

unbundle bit_operations_syntax

text \<open>
  The gzip decoder of \<^verbatim>\<open>own/pyflate-fast.py\<close>: \<open>gzip_main\<close> with its header, the stored blocks,
  the static and dynamic Huffman tables and the dictionary copies. \<open>out\<close>, a list of one-character
  strings in the source, is a list of character codes; the variables that only feed the
  commented-out traces (\<open>literal_count\<close>, \<open>lz_start\<close>, ...) are left out. The Huffman loops run on
  \<open>bits_left b + 1\<close> turns of fuel, each turn of which consumes a bit.

  The lemmas show that a dictionary copy repeats the last \<open>distance\<close> bytes as deflate prescribes,
  that the length and distance codes tile their ranges, that Huffman coded tokens are read back,
  and that the decoder never runs out of fuel.
\<close>

section \<open>The header\<close>

text \<open>\<open>while flags & mask: if not b.readbits(8): break\<close>, for a mask that is set.\<close>

function skip_string :: "field \<Rightarrow> field result" where
  "skip_string b = rbind (readbits 8 b) (\<lambda>(c, b). if c = 0 then Inr b else skip_string b)"
  by pat_completeness auto
termination by (relation "measure bits_left") (auto dest: readbits_left)

declare skip_string.simps [simp del]

definition gzip_header :: "field \<Rightarrow> field result" where
  "gzip_header b =
     rbind (readbits 8 b) (\<lambda>(meth, b).
     if meth \<noteq> 8 then Inl TypeError
     else
       rbind (readbits 8 b) (\<lambda>(flags, b).
       rbind (readbits 32 b) (\<lambda>(mtime, b).
       rbind (readbits 8 b) (\<lambda>(extra_flags, b).
       rbind (readbits 8 b) (\<lambda>(os_type, b).
       rbind (if flags AND 0x04 \<noteq> 0
              then rbind (readbits 16 b) (\<lambda>(xlen, b). dropbytes xlen b) else Inr b) (\<lambda>b.
       rbind (if flags AND 0x08 \<noteq> 0 then skip_string b else Inr b) (\<lambda>b.
       rbind (if flags AND 0x10 \<noteq> 0 then skip_string b else Inr b) (\<lambda>b.
       if flags AND 0x02 \<noteq> 0 then rbind (readbits 16 b) (\<lambda>(_, b). Inr b) else Inr b))))))))"

section \<open>Stored blocks\<close>

definition stored_block :: "nat list \<Rightarrow> field \<Rightarrow> (nat list \<times> field) result" where
  "stored_block out b =
     rbind (align b) (\<lambda>b.
     rbind (readbits 16 b) (\<lambda>(len, b).
     rbind (readbits 16 b) (\<lambda>(nlen, b).
     if len AND nlen \<noteq> 0 then Inl TypeError
     else for_each [0..<nat len] (\<lambda>i (out, b).
            rbind (readbits 8 b) (\<lambda>(c, b). Inr (out @ [nat c], b))) (out, b))))"

section \<open>The tables of a Huffman block\<close>

definition static_tables :: "(htable \<times> htable) result" where
  "static_tables =
     rbind (HuffmanTable [(0, 8), (144, 9), (256, 7), (280, 8), (288, -1)]) (\<lambda>literals.
     rbind (HuffmanTable [(0, 5), (32, -1)]) (\<lambda>distances.
     Inr (\<lparr>ht_table = literals, ht_min_bits = 0, ht_max_bits = 0\<rparr>,
          \<lparr>ht_table = distances, ht_min_bits = 0, ht_max_bits = 0\<rparr>)))"

text \<open>\<open>populate_huffman_symbols()\<close> and \<open>min_max_bits()\<close> on a table object.\<close>

definition prepare_table :: "htable \<Rightarrow> htable result" where
  "prepare_table t =
     rbind (populate_huffman_symbols (ht_table t)) (\<lambda>codes.
     let (mn, mx) = min_max_bits codes in
     Inr \<lparr>ht_table = codes, ht_min_bits = mn, ht_max_bits = mx\<rparr>)"

definition code_length_step :: "nat \<Rightarrow> int list \<times> field \<Rightarrow> (int list \<times> field) result" where
  "code_length_step i = (\<lambda>(l, b).
     rbind (readbits 3 b) (\<lambda>(v, b).
     rbind (code_length_orders (int i)) (\<lambda>k.
     rbind (py_set l k v) (\<lambda>l. Inr (l, b)))))"

text \<open>One code of the run-length coded code lengths: how many, and which length.\<close>

definition code_length_run :: "int \<Rightarrow> int list \<Rightarrow> field \<Rightarrow> (int \<times> int \<times> field) result" where
  "code_length_run r code_lengths b =
     (if 0 \<le> r \<and> r \<le> 15 then Inr (1, r, b)
      else if r = 16 then
        rbind (readbits 2 b) (\<lambda>(v, b).
        rbind (py_get code_lengths (-1)) (\<lambda>what. Inr (3 + v, what, b)))
      else if r = 17 then rbind (readbits 3 b) (\<lambda>(v, b). Inr (3 + v, 0, b))
      else if r = 18 then rbind (readbits 7 b) (\<lambda>(v, b). Inr (11 + v, 0, b))
      else Inl TypeError)"

fun code_lengths_loop ::
    "nat \<Rightarrow> htable \<Rightarrow> int \<Rightarrow> int \<Rightarrow> int list \<Rightarrow> field \<Rightarrow> (int list \<times> field) result" where
  "code_lengths_loop 0 codes wanted n code_lengths b = Inl OutOfFuel"
| "code_lengths_loop (Suc fuel) codes wanted n code_lengths b =
     (if n < wanted then
        rbind (find_next_symbol (ht_table codes) b True) (\<lambda>(r, b).
        rbind (code_length_run r code_lengths b) (\<lambda>(cnt, what, b).
        code_lengths_loop fuel codes wanted (n + cnt)
          (code_lengths @ replicate (nat cnt) what) b))
      else Inr (code_lengths, b))"

definition dynamic_tables :: "field \<Rightarrow> ((htable \<times> htable) \<times> field) result" where
  "dynamic_tables b =
     rbind (readbits 5 b) (\<lambda>(v, b). let literals = v + 257 in
     rbind (readbits 5 b) (\<lambda>(v, b). let distances = v + 1 in
     rbind (readbits 4 b) (\<lambda>(v, b). let code_lengths_length = v + 4 in
     rbind (for_each [0..<nat code_lengths_length] code_length_step (replicate 19 0, b)) (\<lambda>(l, b).
     rbind (make_table l) (\<lambda>dynamic_codes.
     rbind (code_lengths_loop (bits_left b + 1) dynamic_codes (literals + distances) 0 [] b)
       (\<lambda>(code_lengths, b).
     rbind (OrderedHuffmanTable (take (nat literals) code_lengths)) (\<lambda>main_literals.
     rbind (OrderedHuffmanTable (drop (nat literals) code_lengths)) (\<lambda>main_distances.
     Inr ((\<lparr>ht_table = main_literals, ht_min_bits = 0, ht_max_bits = 0\<rparr>,
           \<lparr>ht_table = main_distances, ht_min_bits = 0, ht_max_bits = 0\<rparr>), b)))))))))"

section \<open>Dictionary copies\<close>

text \<open>
  \<open>out[-distance:]\<close> and \<open>out[-distance:length-distance]\<close>, for a positive \<open>distance\<close>. With
  \<open>distance \<ge> 1\<close> the loop takes at most \<open>length\<close> turns.
\<close>

definition tail_slice :: "'a list \<Rightarrow> nat \<Rightarrow> nat \<Rightarrow> 'a list" where
  "tail_slice out distance len =
     (let start = length out - distance; stop = length out + len - distance
      in take (stop - start) (drop start out))"

fun lz_loop :: "nat \<Rightarrow> nat list \<Rightarrow> nat \<Rightarrow> nat \<Rightarrow> (nat list \<times> nat) result" where
  "lz_loop 0 out len distance = Inl OutOfFuel"
| "lz_loop (Suc fuel) out len distance =
     (if len > distance then lz_loop fuel (out @ last_n distance out) (len - distance) distance
      else Inr (out, len))"

definition lz_copy :: "nat list \<Rightarrow> nat \<Rightarrow> nat \<Rightarrow> nat list result" where
  "lz_copy out len distance =
     rbind (lz_loop (len + 1) out len distance) (\<lambda>(out, len).
     Inr (if len = distance then out @ last_n distance out
          else out @ tail_slice out distance len))"

section \<open>Huffman blocks\<close>

definition lookup_step :: "htable \<Rightarrow> int \<Rightarrow> nat list \<Rightarrow> field \<Rightarrow> (nat list \<times> field) result" where
  "lookup_step main_distances r out b =
     rbind (extra_length_bits r) (\<lambda>k.
     rbind (readbits k b) (\<lambda>(length_extra, b).
     rbind (length_base r) (\<lambda>base. let len = base + length_extra in
     rbind (find_next_symbol (ht_table main_distances) b True) (\<lambda>(r1, b).
     if 0 \<le> r1 \<and> r1 \<le> 29 then
       rbind (distance_base r1) (\<lambda>base.
       rbind (extra_distance_bits r1) (\<lambda>k.
       rbind (readbits k b) (\<lambda>(v, b). let distance = base + v in
       rbind (lz_copy out (nat len) (nat distance)) (\<lambda>out. Inr (out, b)))))
     else if 30 \<le> r1 \<and> r1 \<le> 31 then Inl TypeError
     else Inr (out, b)))))"

fun inflate_loop :: "nat \<Rightarrow> htable \<Rightarrow> htable \<Rightarrow> nat list \<Rightarrow> field \<Rightarrow> (nat list \<times> field) result" where
  "inflate_loop 0 main_literals main_distances out b = Inl OutOfFuel"
| "inflate_loop (Suc fuel) main_literals main_distances out b =
     rbind (find_next_symbol (ht_table main_literals) b True) (\<lambda>(r, b).
     if 0 \<le> r \<and> r \<le> 255 then
       inflate_loop fuel main_literals main_distances (out @ [nat r]) b
     else if r = 256 then Inr (out, b)
     else if 257 \<le> r \<and> r \<le> 285 then
       rbind (lookup_step main_distances r out b) (\<lambda>(out, b).
       inflate_loop fuel main_literals main_distances out b)
     else if 286 \<le> r \<and> r \<le> 287 then Inl TypeError
     else inflate_loop fuel main_literals main_distances out b)"

definition huffman_block :: "(htable \<times> htable) \<Rightarrow> nat list \<Rightarrow> field \<Rightarrow> (nat list \<times> field) result" where
  "huffman_block = (\<lambda>(main_literals, main_distances) out b.
     rbind (prepare_table main_literals) (\<lambda>main_literals.
     rbind (prepare_table main_distances) (\<lambda>main_distances.
     inflate_loop (bits_left b + 1) main_literals main_distances out b)))"

definition deflate_block :: "int \<Rightarrow> nat list \<Rightarrow> field \<Rightarrow> (nat list \<times> field) result" where
  "deflate_block blocktype out b =
     (if blocktype = 0 then stored_block out b
      else if blocktype = 1 then rbind static_tables (\<lambda>tables. huffman_block tables out b)
      else if blocktype = 2 then rbind (dynamic_tables b) (\<lambda>(tables, b). huffman_block tables out b)
      else if blocktype = 3 then Inl TypeError
      else Inr (out, b))"

section \<open>No step gives bits back, and fuel is enough\<close>

lemma align_le: "align b = Inr b' \<Longrightarrow> bits_left b' \<le> bits_left b"
  by (auto simp: align_def rbind_eq_Inr dest!: readbits_le)

lemma stored_block_le:
  assumes "stored_block out b = Inr (out', b')"
  shows "bits_left b' \<le> bits_left b"
proof -
  obtain b1 len b2 nlen b3 where b: "align b = Inr b1" "readbits 16 b1 = Inr (len, b2)"
    "readbits 16 b2 = Inr (nlen, b3)"
    "for_each [0..<nat len] (\<lambda>i (out, b). rbind (readbits 8 b) (\<lambda>(c, b). Inr (out @ [nat c], b))) (out, b3) =
      Inr (out', b')"
    using assms by (auto simp: stored_block_def rbind_eq_Inr split: if_splits)
  from b(4) have "(\<lambda>(out, b). bits_left b \<le> bits_left b3) (out', b')"
    by (rule for_each_inv) (auto simp: rbind_eq_Inr dest!: readbits_le)
  with b(1-3) show ?thesis by (auto dest!: align_le readbits_le)
qed

lemma prepare_table_bits: "prepare_table t = Inr t' \<Longrightarrow> \<forall>x \<in> set (ht_table t'). 1 \<le> h_bits x"
  by (auto simp: prepare_table_def rbind_eq_Inr populate_huffman_symbols_def Let_def split_def
      dest!: populate_bits)

lemma code_length_run_le:
  "code_length_run r ls b = Inr (cnt, what, b') \<Longrightarrow> bits_left b' \<le> bits_left b"
  by (auto simp: code_length_run_def rbind_eq_Inr split: if_splits dest!: readbits_le)

lemma code_lengths_loop_le:
  assumes "\<forall>x \<in> set (ht_table t). 1 \<le> h_bits x"
  shows "code_lengths_loop fuel t wanted n ls b = Inr (ls', b') \<Longrightarrow> bits_left b' \<le> bits_left b"
proof (induction fuel arbitrary: n ls b)
  case 0
  then show ?case by simp
next
  case (Suc fuel)
  show ?case
  proof (cases "n < wanted")
    case True
    with Suc.prems obtain r b1 cnt what b2 where "find_next_symbol (ht_table t) b True = Inr (r, b1)"
      "code_length_run r ls b1 = Inr (cnt, what, b2)"
      "code_lengths_loop fuel t wanted (n + cnt) (ls @ replicate (nat cnt) what) b2 = Inr (ls', b')"
      by (auto simp: rbind_eq_Inr)
    with Suc.IH find_next_symbol_less [OF _ assms] code_length_run_le show ?thesis
      by (meson less_imp_le order_trans)
  next
    case False
    with Suc.prems show ?thesis by simp
  qed
qed

lemma dynamic_tables_le:
  assumes "dynamic_tables b = Inr (ts, b')"
  shows "bits_left b' \<le> bits_left b"
proof -
  obtain v1 b1 v2 b2 v3 b3 l b4 t ls where b: "readbits 5 b = Inr (v1, b1)" "readbits 5 b1 = Inr (v2, b2)"
    "readbits 4 b2 = Inr (v3, b3)"
    "for_each [0..<nat (v3 + 4)] code_length_step (replicate 19 0, b3) = Inr (l, b4)"
    "make_table l = Inr t"
    "code_lengths_loop (bits_left b4 + 1) t (v1 + 257 + (v2 + 1)) 0 [] b4 = Inr (ls, b')"
    using assms by (auto simp: dynamic_tables_def rbind_eq_Inr Let_def simp del: code_lengths_loop.simps)
  have "bits_left b3 \<le> bits_left b" using b(1-3) by (auto dest!: readbits_le)
  moreover from b(4) have "(\<lambda>(l, b). bits_left b \<le> bits_left b3) (l, b4)"
    by (rule for_each_inv) (auto simp: code_length_step_def rbind_eq_Inr dest!: readbits_le)
  moreover have "bits_left b' \<le> bits_left b4"
    by (rule code_lengths_loop_le [OF make_table_bits [OF b(5)] b(6)])
  ultimately show ?thesis by simp
qed

lemma find_next_symbol_le: "find_next_symbol t s rv = Inr (c, s') \<Longrightarrow> bits_left s' \<le> bits_left s"
  using find_loop_left by (fastforce simp: find_next_symbol_def)

lemma lookup_step_le: "lookup_step t r out b = Inr (out', b') \<Longrightarrow> bits_left b' \<le> bits_left b"
  by (auto simp: lookup_step_def rbind_eq_Inr Let_def split: if_splits
      dest!: readbits_le find_next_symbol_le)

lemma inflate_loop_le:
  "inflate_loop fuel lt dt out b = Inr (out', b') \<Longrightarrow> bits_left b' \<le> bits_left b"
proof (induction fuel arbitrary: out b)
  case 0
  then show ?case by simp
next
  case (Suc fuel)
  then obtain r b1 where r: "find_next_symbol (ht_table lt) b True = Inr (r, b1)"
    by (auto simp: rbind_eq_Inr)
  have "bits_left b' \<le> bits_left b1"
    using Suc.prems Suc.IH r by (fastforce simp: rbind_eq_Inr split: if_splits dest: lookup_step_le)
  with find_next_symbol_le [OF r] show ?case by simp
qed

lemma deflate_block_le: "deflate_block t out b = Inr (out', b') \<Longrightarrow> bits_left b' \<le> bits_left b"
  by (auto simp: deflate_block_def huffman_block_def rbind_eq_Inr simp del: inflate_loop.simps
      split: if_splits prod.splits
      dest!: stored_block_le dynamic_tables_le inflate_loop_le)

section \<open>The stream of blocks\<close>

function deflate_loop :: "nat list \<Rightarrow> field \<Rightarrow> (nat list \<times> field) result" where
  "deflate_loop out b =
     rbind (readbits 1 b) (\<lambda>(lastbit, b).
     rbind (readbits 2 b) (\<lambda>(blocktype, b).
     rbind (deflate_block blocktype out b) (\<lambda>(out, b).
     if lastbit \<noteq> 0 then Inr (out, b) else deflate_loop out b)))"
  by pat_completeness auto
termination
  by (relation "measure (\<lambda>(out, b). bits_left b)")
    (fastforce dest: readbits_left deflate_block_le)+

declare deflate_loop.simps [simp del]

definition gzip_main :: "field \<Rightarrow> nat list result" where
  "gzip_main field =
     (let b = copy_field Bitfield field in
      rbind (gzip_header b) (\<lambda>b.
      rbind (deflate_loop [] b) (\<lambda>(out, b).
      rbind (align b) (\<lambda>b.
      rbind (readbits 32 b) (\<lambda>(crc, b).
      rbind (readbits 32 b) (\<lambda>(final_length, b).
      Inr out))))))"

section \<open>The benchmark's driver\<close>

text \<open>
  \<open>_main\<close>: the format is chosen by the magic number. The file's content is an argument, and so is
  the digest of the decoded text (\<open>hashlib\<close>'s \<open>md5\<close> of its UTF-8 encoding, in hexadecimal).
\<close>

definition decode_file :: "nat list \<Rightarrow> nat list result" where
  "decode_file input =
     rbind (readbits 16 (new_field RBitfield input)) (\<lambda>(magic, field).
     if magic = 0x1f8b then gzip_main field
     else if magic = 0x425a then bzip2_main field
     else Inl TypeError)"

definition pyflate_main :: "(nat list \<Rightarrow> string) \<Rightarrow> nat list \<Rightarrow> unit result" where
  "pyflate_main md5 input =
     rbind (decode_file input) (\<lambda>out.
     if md5 out = ''afa004a630fe072901b1d9628b960974'' then Inr () else Inl AssertionError)"

section \<open>The decoder returns\<close>

lemma skip_string_no_fuel [no_fuel]: "fuelled (skip_string b)"
  by (induction b rule: skip_string.induct) (subst skip_string.simps, auto intro!: no_fuel)

lemma header_no_fuel' [no_fuel]: "fuelled (gzip_header b)"
  by (auto simp: gzip_header_def dropbytes_def dropbits_def intro!: no_fuel)

lemma align_no_fuel [no_fuel]: "fuelled (align b)"
  by (auto simp: align_def intro!: no_fuel)

lemma stored_block_no_fuel [no_fuel]: "fuelled (stored_block out b)"
  by (auto simp: stored_block_def intro!: no_fuel)

lemma table_no_fuel [no_fuel]:
  "fuelled (OrderedHuffmanTable ls)" "fuelled (HuffmanTable bs)"
  "fuelled (populate_huffman_symbols t)" "fuelled (prepare_table pt)"
  by (auto simp: OrderedHuffmanTable_def HuffmanTable_def Let_def populate_huffman_symbols_def
      prepare_table_def split: list.split prod.split intro!: no_fuel)

lemma static_tables_no_fuel [no_fuel]: "fuelled static_tables"
  by (auto simp: static_tables_def intro!: no_fuel)

lemma code_step_no_fuel [no_fuel]:
  "fuelled (code_length_step i st)" "fuelled (code_length_run r ls b)"
  by (auto simp: code_length_step_def code_length_orders_def code_length_run_def intro!: no_fuel
      split: prod.split)

lemma code_lengths_loop_no_fuel [no_fuel]:
  assumes "\<forall>x \<in> set (ht_table t). 1 \<le> h_bits x" and "bits_left b < fuel"
  shows "fuelled (code_lengths_loop fuel t wanted n ls b)"
  using assms(2)
proof (induction fuel arbitrary: n ls b)
  case 0
  then show ?case by simp
next
  case (Suc fuel)
  have "fuelled (code_lengths_loop fuel t wanted n' ls' b2)"
    if "find_next_symbol (ht_table t) b True = Inr (r, b1)" "code_length_run r ls b1 = Inr (cnt, what, b2)"
    for n' ls' r b1 cnt what b2
    using Suc.IH find_next_symbol_less [OF that(1) assms(1)] code_length_run_le [OF that(2)] Suc.prems
    by simp
  then show ?case by (auto intro!: no_fuel)
qed

lemma dynamic_tables_no_fuel [no_fuel]: "fuelled (dynamic_tables b)"
  by (auto simp: dynamic_tables_def Let_def intro!: no_fuel make_table_bits
      simp del: code_lengths_loop.simps)

lemma distance_pos:
  assumes "distance_base r = Inr base" and "readbits k b = Inr (v, b')"
  shows "1 \<le> nat (base + v)"
  using py_get_mem [OF assms(1) [unfolded distance_base_def]] readbits_nonneg [OF assms(2)] by auto

lemma lz_loop_ok:
  assumes "1 \<le> distance" and "len < fuel"
  shows "fuelled (lz_loop fuel out len distance)"
  using assms(2)
proof (induction fuel arbitrary: out len)
  case 0
  then show ?case by simp
next
  case (Suc fuel)
  then show ?case using assms(1) by auto
qed

lemma lz_copy_no_fuel [no_fuel]: "1 \<le> distance \<Longrightarrow> fuelled (lz_copy out len distance)"
  unfolding lz_copy_def by (rule rbind_no_fuel, rule lz_loop_ok) (auto split: prod.split)

lemma extra_bits_no_fuel [no_fuel]:
  "fuelled (extra_length_bits r)" "fuelled (length_base r)"
  "fuelled (extra_distance_bits r)" "fuelled (distance_base r)"
  by (auto simp: extra_length_bits_def length_base_def extra_distance_bits_def distance_base_def
      intro!: no_fuel)

lemma lookup_step_no_fuel [no_fuel]: "fuelled (lookup_step t r out b)"
  by (auto simp: lookup_step_def Let_def intro!: no_fuel distance_pos)

lemma inflate_loop_no_fuel [no_fuel]:
  assumes "\<forall>x \<in> set (ht_table lt). 1 \<le> h_bits x" and "bits_left b < fuel"
  shows "fuelled (inflate_loop fuel lt dt out b)"
  using assms(2)
proof (induction fuel arbitrary: out b)
  case 0
  then show ?case by simp
next
  case (Suc fuel)
  have "fuelled (inflate_loop fuel lt dt out' b1)"
    if "find_next_symbol (ht_table lt) b True = Inr (r, b1)" for out' r b1
    using Suc.IH find_next_symbol_less [OF that assms(1)] Suc.prems by simp
  moreover have "fuelled (inflate_loop fuel lt dt out' b2)"
    if "find_next_symbol (ht_table lt) b True = Inr (r, b1)" "lookup_step dt r out b1 = Inr (out', b2)"
    for out' r b1 b2
    using Suc.IH find_next_symbol_less [OF that(1) assms(1)] lookup_step_le [OF that(2)] Suc.prems by simp
  ultimately show ?case by (auto intro!: no_fuel)
qed

lemma deflate_block_no_fuel [no_fuel]: "fuelled (deflate_block t out b)"
  by (auto simp: deflate_block_def huffman_block_def simp del: inflate_loop.simps
      split: prod.split intro!: no_fuel dest: prepare_table_bits)

lemma deflate_loop_no_fuel [no_fuel]: "fuelled (deflate_loop out b)"
  by (induction out b rule: deflate_loop.induct) (subst deflate_loop.simps, auto intro!: no_fuel)

lemma gzip_main_no_fuel: "fuelled (gzip_main field)"
  by (auto simp: gzip_main_def Let_def intro!: no_fuel)

lemma decode_file_no_fuel: "fuelled (decode_file input)"
  using bzip2_main_returns by (auto simp: decode_file_def intro!: no_fuel gzip_main_no_fuel)

section \<open>A dictionary copy\<close>

text \<open>The copy as RFC 1951 describes it: byte by byte, so that it may overlap what it writes.\<close>

fun byte_copy :: "nat list \<Rightarrow> nat \<Rightarrow> nat \<Rightarrow> nat list" where
  "byte_copy out 0 distance = out"
| "byte_copy out (Suc len) distance = byte_copy (out @ [out ! (length out - distance)]) len distance"

lemma byte_copy_add: "byte_copy out (m + k) d = byte_copy (byte_copy out m d) k d"
  by (induction m arbitrary: out) auto

lemma byte_copy_slice:
  assumes "1 \<le> d" and "d \<le> length out" and "k \<le> d"
  shows "byte_copy out k d = out @ take k (drop (length out - d) out)"
  using assms(3)
proof (induction k)
  case 0
  then show ?case by simp
next
  case (Suc k)
  let ?o = "out @ take k (drop (length out - d) out)"
  have "byte_copy out (Suc k) d = byte_copy (byte_copy out k d) 1 d"
    using byte_copy_add [of out k 1 d] by simp
  also have "\<dots> = ?o @ [?o ! (length ?o - d)]" using Suc by simp
  also have "?o ! (length ?o - d) = drop (length out - d) out ! k"
    using Suc.prems assms(2) by (auto simp: nth_append min_def)
  finally show ?case using Suc.prems assms(2) by (simp add: take_Suc_conv_app_nth)
qed

lemma lz_loop_bytes:
  assumes "1 \<le> d" and "d \<le> length out" and "len < fuel"
  shows "\<exists>out' len'. lz_loop fuel out len d = Inr (out', len') \<and> len' \<le> d \<and> d \<le> length out' \<and>
    byte_copy out' len' d = byte_copy out len d"
  using assms(2,3)
proof (induction fuel arbitrary: out len)
  case 0
  then show ?case by simp
next
  case (Suc fuel)
  show ?case
  proof (cases "len > d")
    case True
    have "byte_copy out len d = byte_copy (byte_copy out d d) (len - d) d"
      using byte_copy_add [of out d "len - d" d] True by simp
    also have "byte_copy out d d = out @ last_n d out"
      using byte_copy_slice [OF assms(1) Suc.prems(1), of d] Suc.prems(1) by (simp add: last_n_def)
    finally show ?thesis
      using Suc.IH [of "out @ last_n d out" "len - d"] Suc.prems True assms(1) by auto
  qed (use Suc.prems in auto)
qed

lemma lz_copy_bytes:
  assumes "1 \<le> d" and "d \<le> length out"
  shows "lz_copy out len d = Inr (byte_copy out len d)"
proof -
  obtain out' len' where loop: "lz_loop (len + 1) out len d = Inr (out', len')" "len' \<le> d"
    "d \<le> length out'" "byte_copy out' len' d = byte_copy out len d"
    using lz_loop_bytes [OF assms, of len "len + 1"] by auto
  have "byte_copy out' len' d = out' @ take len' (drop (length out' - d) out')"
    by (rule byte_copy_slice [OF assms(1) loop(3,2)])
  with loop show ?thesis
    by (auto simp: lz_copy_def last_n_def tail_slice_def Let_def)
qed

section \<open>The codes tile the lengths and distances\<close>

lemma length_codes_tile:
  assumes "257 \<le> r" and "r < 284"
  shows "length_base (r + 1) =
    rbind (length_base r) (\<lambda>b. rbind (extra_length_bits r) (\<lambda>k. Inr (b + 2 ^ nat k)))"
proof -
  have "list_all (\<lambda>r. length_base (r + 1) =
      rbind (length_base r) (\<lambda>b. rbind (extra_length_bits r) (\<lambda>k. Inr (b + 2 ^ nat k)))) [257..283]"
    by code_simp
  moreover have "r \<in> set [257..283]" using assms by (simp only: set_upto) simp
  ultimately show ?thesis by (simp only: list_all_iff)
qed

lemma distance_codes_tile:
  assumes "0 \<le> r" and "r < 29"
  shows "distance_base (r + 1) =
    rbind (distance_base r) (\<lambda>b. rbind (extra_distance_bits r) (\<lambda>k. Inr (b + 2 ^ nat k)))"
proof -
  have "list_all (\<lambda>r. distance_base (r + 1) =
      rbind (distance_base r) (\<lambda>b. rbind (extra_distance_bits r) (\<lambda>k. Inr (b + 2 ^ nat k)))) [0..28]"
    by code_simp
  moreover have "r \<in> set [0..28]" using assms by (simp only: set_upto) simp
  ultimately show ?thesis by (simp only: list_all_iff)
qed

section \<open>Huffman coded tokens\<close>

text \<open>
  What a Huffman block holds: literals, and copies given by a length code, a distance code and
  the extra bits of each.
\<close>

datatype token = Literal nat | Copy int int int int

definition lsb_bits :: "int \<Rightarrow> int \<Rightarrow> bool list" where
  "lsb_bits n v = map (bit v) [0..<nat n]"

fun apply_token :: "token \<Rightarrow> nat list \<Rightarrow> nat list result" where
  "apply_token (Literal c) out = Inr (out @ [c])"
| "apply_token (Copy r e r1 e1) out =
     rbind (length_base r) (\<lambda>len. rbind (distance_base r1) (\<lambda>dist.
     if nat (dist + e1) \<le> length out then Inr (byte_copy out (nat (len + e)) (nat (dist + e1)))
     else Inl IndexError))"

fun good_token :: "token \<Rightarrow> bool" where
  "good_token (Literal c) \<longleftrightarrow> c < 256"
| "good_token (Copy r e r1 e1) \<longleftrightarrow>
     257 \<le> r \<and> r \<le> 285 \<and> 0 \<le> r1 \<and> r1 \<le> 29 \<and> 0 \<le> e \<and> 0 \<le> e1 \<and>
     (\<exists>k. extra_length_bits r = Inr k \<and> e < 2 ^ nat k) \<and>
     (\<exists>k. extra_distance_bits r1 = Inr k \<and> e1 < 2 ^ nat k)"

definition lcode :: "htable \<Rightarrow> int \<Rightarrow> bool list" where
  "lcode t r = (case find (\<lambda>x. h_code x = r) (ht_table t) of Some x \<Rightarrow> codeword x | None \<Rightarrow> [])"

fun enc_token :: "htable \<Rightarrow> htable \<Rightarrow> token \<Rightarrow> bool list" where
  "enc_token lt dt (Literal c) = lcode lt (int c)"
| "enc_token lt dt (Copy r e r1 e1) = lcode lt r @
     (case extra_length_bits r of Inl _ \<Rightarrow> [] | Inr k \<Rightarrow> lsb_bits k e) @ lcode dt r1 @
     (case extra_distance_bits r1 of Inl _ \<Rightarrow> [] | Inr k \<Rightarrow> lsb_bits k e1)"

text \<open>A table in which every code below \<open>n\<close> has a code word.\<close>

definition full_table :: "int \<Rightarrow> htable \<Rightarrow> bool" where
  "full_table n t \<longleftrightarrow> populated (ht_table t) \<and> (\<exists>M. kraft M (map h_bits (ht_table t))) \<and>
     (\<forall>c. 0 \<le> c \<longrightarrow> c < n \<longrightarrow> (\<exists>x \<in> set (ht_table t). h_code x = c))"

lemma reads_lcode:
  assumes "full_table n t" and "0 \<le> r" and "r < n"
  shows "lsb.reads (\<lambda>b. find_next_symbol (ht_table t) b True) (lcode t r) r"
proof (rule lsb.readsI)
  fix b rest assume b: "lsb_field b" "stream b = lcode t r @ rest"
  have "find (\<lambda>x. h_code x = r) (ht_table t) \<noteq> None"
    using assms by (auto simp: full_table_def find_None_iff)
  then obtain x where x: "find (\<lambda>x. h_code x = r) (ht_table t) = Some x" by auto
  then have "x \<in> set (ht_table t)" "h_code x = r" by (auto simp: find_Some_iff)
  moreover obtain M where "populated (ht_table t)" "kraft M (map h_bits (ht_table t))"
    using assms(1) by (auto simp: full_table_def)
  ultimately show "\<exists>b'. find_next_symbol (ht_table t) b True = Inr (r, b') \<and> lsb_field b' \<and> stream b' = rest"
    using find_next_symbol_found [of "ht_table t" M x b rest] b x
    by (auto simp: lsb_field_def lcode_def)
qed

lemma reads_lsb_number:
  assumes "0 \<le> k" and "0 \<le> v" and "v < 2 ^ nat k"
  shows "lsb.reads (readbits k) (lsb_bits k v) v"
proof -
  have "bits_value Bitfield (lsb_bits k v) = v"
    using lsb_value [of "nat k" "nat k" v "[]"] assms by (simp add: lsb_bits_def take_bit_int_eq_self)
  with lsb.reads_read [of "lsb_bits k v" "nat k"] assms(1) show ?thesis by (simp add: lsb_bits_def)
qed

lemma extra_bits_nonneg:
  "extra_length_bits r = Inr k \<Longrightarrow> 0 \<le> k" "extra_distance_bits r = Inr k' \<Longrightarrow> 0 \<le> k'"
proof -
  have "1 \<le> drop_bit 2 (r - 257)" if "261 \<le> r"
    using that by (simp add: drop_bit_eq_div)
  then show "extra_length_bits r = Inr k \<Longrightarrow> 0 \<le> k"
    by (auto simp: extra_length_bits_def split: if_splits)
  have "1 \<le> drop_bit 1 r" if "2 \<le> r"
    using that by (simp add: drop_bit_eq_div)
  then show "extra_distance_bits r = Inr k' \<Longrightarrow> 0 \<le> k'"
    by (auto simp: extra_distance_bits_def split: if_splits)
qed

lemma reads_lookup:
  assumes "good_token (Copy r e r1 e1)" and "full_table 30 dt"
    and "apply_token (Copy r e r1 e1) out = Inr out'"
    and "extra_length_bits r = Inr k" and "extra_distance_bits r1 = Inr k1"
  shows "lsb.reads (lookup_step dt r out) (lsb_bits k e @ lcode dt r1 @ lsb_bits k1 e1) out'"
proof -
  obtain base base1 where base: "length_base r = Inr base" "distance_base r1 = Inr base1"
    "nat (base1 + e1) \<le> length out" "out' = byte_copy out (nat (base + e)) (nat (base1 + e1))"
    using assms(3) by (auto simp: rbind_eq_Inr split: if_splits)
  have "1 \<le> base1" using py_get_mem [OF base(2) [unfolded distance_base_def]] by auto
  then have "lz_copy out (nat (base + e)) (nat (base1 + e1)) = Inr out'"
    using base assms(1) by (auto intro!: lz_copy_bytes)
  then have "lsb.reads (\<lambda>b. rbind (readbits k1 b) (\<lambda>(v, b). let distance = base1 + v in
      rbind (lz_copy out (nat (base + e)) (nat distance)) (\<lambda>out. Inr (out, b)))) (lsb_bits k1 e1 @ []) out'"
    using assms(1,5) extra_bits_nonneg(2) [OF assms(5)]
    by (intro lsb.reads_bind [OF reads_lsb_number]) (auto simp: lsb.reads_return)
  then have "lsb.reads (\<lambda>b. rbind (find_next_symbol (ht_table dt) b True) (\<lambda>(r1, b).
     if 0 \<le> r1 \<and> r1 \<le> 29 then
       rbind (distance_base r1) (\<lambda>base'.
       rbind (extra_distance_bits r1) (\<lambda>k.
       rbind (readbits k b) (\<lambda>(v, b). let distance = base' + v in
       rbind (lz_copy out (nat (base + e)) (nat distance)) (\<lambda>out. Inr (out, b)))))
     else if 30 \<le> r1 \<and> r1 \<le> 31 then Inl TypeError
     else Inr (out, b))) (lcode dt r1 @ lsb_bits k1 e1 @ []) out'"
    using assms(1) base(2) assms(5) by (intro lsb.reads_bind [OF reads_lcode [OF assms(2)]]) auto
  then have "lsb.reads (\<lambda>b. rbind (readbits k b) (\<lambda>(v, b). rbind (length_base r) (\<lambda>base. let len = base + v in
     rbind (find_next_symbol (ht_table dt) b True) (\<lambda>(r1, b).
     if 0 \<le> r1 \<and> r1 \<le> 29 then
       rbind (distance_base r1) (\<lambda>base.
       rbind (extra_distance_bits r1) (\<lambda>k.
       rbind (readbits k b) (\<lambda>(v, b). let distance = base + v in
       rbind (lz_copy out (nat len) (nat distance)) (\<lambda>out. Inr (out, b)))))
     else if 30 \<le> r1 \<and> r1 \<le> 31 then Inl TypeError
     else Inr (out, b))))) (lsb_bits k e @ lcode dt r1 @ lsb_bits k1 e1 @ []) out'"
    using assms(1,4) base(1) extra_bits_nonneg(1) [OF assms(4)]
    by (intro lsb.reads_bind [OF reads_lsb_number]) (auto simp: Let_def)
  then show ?thesis
    unfolding lookup_step_def [abs_def] using assms(4) by simp
qed

fun apply_tokens :: "token list \<Rightarrow> nat list \<Rightarrow> nat list result" where
  "apply_tokens [] out = Inr out"
| "apply_tokens (t # ts) out = rbind (apply_token t out) (apply_tokens ts)"

definition enc_tokens :: "htable \<Rightarrow> htable \<Rightarrow> token list \<Rightarrow> bool list" where
  "enc_tokens lt dt ts = concat (map (enc_token lt dt) ts) @ lcode lt 256"

lemma inflate_loop_reads:
  assumes "full_table 286 lt" and "full_table 30 dt" and "\<forall>t \<in> set ts. good_token t"
    and "apply_tokens ts out = Inr out'" and "length ts < fuel"
  shows "lsb.reads (inflate_loop fuel lt dt out) (enc_tokens lt dt ts) out'"
  using assms(3,4,5)
proof (induction ts arbitrary: fuel out)
  case Nil
  then obtain fuel' where "fuel = Suc fuel'" by (cases fuel) auto
  moreover have "lsb.reads (\<lambda>b. rbind (find_next_symbol (ht_table lt) b True) (\<lambda>(r, b).
     if 0 \<le> r \<and> r \<le> 255 then inflate_loop fuel' lt dt (out @ [nat r]) b
     else if r = 256 then Inr (out, b)
     else if 257 \<le> r \<and> r \<le> 285 then
       rbind (lookup_step dt r out b) (\<lambda>(out, b). inflate_loop fuel' lt dt out b)
     else if 286 \<le> r \<and> r \<le> 287 then Inl TypeError
     else inflate_loop fuel' lt dt out b)) (lcode lt 256 @ []) out'"
    using Nil(2) by (intro lsb.reads_bind [OF reads_lcode [OF assms(1)]]) (auto simp: lsb.reads_return)
  ultimately show ?case by (simp add: enc_tokens_def)
next
  case (Cons t ts)
  then obtain fuel' where fuel: "fuel = Suc fuel'" "length ts < fuel'" by (cases fuel) auto
  obtain out1 where out1: "apply_token t out = Inr out1" "apply_tokens ts out1 = Inr out'"
    using Cons.prems(2) by (auto simp: rbind_eq_Inr)
  have IH: "lsb.reads (inflate_loop fuel' lt dt out1) (enc_tokens lt dt ts) out'"
    using Cons.IH Cons.prems(1) out1(2) fuel(2) by simp
  show ?case
  proof (cases t)
    case (Literal c)
    have "lsb.reads (\<lambda>b. rbind (find_next_symbol (ht_table lt) b True) (\<lambda>(r, b).
       if 0 \<le> r \<and> r \<le> 255 then inflate_loop fuel' lt dt (out @ [nat r]) b
       else if r = 256 then Inr (out, b)
       else if 257 \<le> r \<and> r \<le> 285 then
         rbind (lookup_step dt r out b) (\<lambda>(out, b). inflate_loop fuel' lt dt out b)
       else if 286 \<le> r \<and> r \<le> 287 then Inl TypeError
       else inflate_loop fuel' lt dt out b)) (lcode lt (int c) @ enc_tokens lt dt ts) out'"
      using Literal Cons.prems(1) out1(1) IH
      by (intro lsb.reads_bind [OF reads_lcode [OF assms(1)]]) auto
    with Literal fuel(1) show ?thesis by (simp add: enc_tokens_def)
  next
    case (Copy r e r1 e1)
    obtain k k1 where k: "extra_length_bits r = Inr k" "extra_distance_bits r1 = Inr k1"
      using Copy Cons.prems(1) by auto
    have "lsb.reads (lookup_step dt r out) (lsb_bits k e @ lcode dt r1 @ lsb_bits k1 e1) out1"
      using Copy Cons.prems(1) out1(1) k by (intro reads_lookup assms(2)) auto
    then have "lsb.reads (\<lambda>b. rbind (lookup_step dt r out b) (\<lambda>(out, b). inflate_loop fuel' lt dt out b))
        ((lsb_bits k e @ lcode dt r1 @ lsb_bits k1 e1) @ enc_tokens lt dt ts) out'"
      by (rule lsb.reads_bind) (rule IH)
    then have "lsb.reads (\<lambda>b. rbind (find_next_symbol (ht_table lt) b True) (\<lambda>(r, b).
       if 0 \<le> r \<and> r \<le> 255 then inflate_loop fuel' lt dt (out @ [nat r]) b
       else if r = 256 then Inr (out, b)
       else if 257 \<le> r \<and> r \<le> 285 then
         rbind (lookup_step dt r out b) (\<lambda>(out, b). inflate_loop fuel' lt dt out b)
       else if 286 \<le> r \<and> r \<le> 287 then Inl TypeError
       else inflate_loop fuel' lt dt out b))
       (lcode lt r @ (lsb_bits k e @ lcode dt r1 @ lsb_bits k1 e1) @ enc_tokens lt dt ts) out'"
      using Copy Cons.prems(1) by (intro lsb.reads_bind [OF reads_lcode [OF assms(1)]]) auto
    with Copy fuel(1) k show ?thesis by (simp add: enc_tokens_def)
  qed
qed

end
