(* ===== verification/PyflateProperties.thy ===== *)
theory PyflateProperties
  imports Bzip2Roundtrip Gzip
begin

unbundle bit_operations_syntax

text \<open>
  The properties of the decoders of \<^verbatim>\<open>own/pyflate-fast.py\<close>, from whole files down to bit reads.
\<close>

text \<open>
  C1: the program decodes every bzip2 file: for any blocks of data (bytes, none empty, at most
  \<open>2^24\<close> after run-length encoding) and any valid choice of Huffman tables and selectors for
  them, the file that the format prescribes is decoded to the concatenated data.
\<close>

theorem bzip2_roundtrip:
  assumes "1 \<le> level" and "level \<le> 9" and "\<forall>k \<in> set ks. good_block k"
  shows "\<exists>bytes. enc_file level ks = Inr bytes \<and> decode_file bytes = Inr (concat (map blk_data ks))"
proof -
  obtain bytes bs pad where b: "enc_file level ks = Inr bytes" "enc_blocks ks = Inr bs"
    "msb_field (new_field RBitfield bytes)" "stream (new_field RBitfield bytes) =
      msb_bits 16 0x425a @ msb_bits 8 104 @ msb_bits 8 (48 + level) @ bs @ pad"
    using enc_file_ok [OF assms(3)] by blast
  have "reads (readbits 16) (msb_bits 16 0x425a) 0x425a"
    using reads_number [of "0x425a" 16] by simp
  then obtain b1 where b1: "readbits 16 (new_field RBitfield bytes) = Inr (0x425a, b1)" "msb_field b1"
    "stream b1 = msb_bits 8 104 @ msb_bits 8 (48 + level) @ bs @ pad"
    using b(3,4) by (rule readsE)
  with b(1) bzip2_main_blocks [OF assms b(2) b1(2,3)] show ?thesis by (simp add: decode_file_def)
qed

definition sample_block :: block where
  "sample_block = \<lparr>blk_data = [65, 66, 65, 65, 65, 65, 65], blk_lengths = [[2, 2, 2, 3, 3], [3, 3, 2, 2, 2]],
     blk_selectors = [1], blk_crc = 7\<rparr>"

lemma sample_block_parts:
  "blk_text sample_block = [65, 66, 65, 65, 65, 65, 1]"
  "blk_symbols sample_block = [2, 0, 0, 3, 3, 3, 4]"
  "favourites_of (blk_text sample_block) = [1, 65, 66]"
  by code_simp+

lemma sample_block_good: "good_block sample_block"
proof -
  have "length (favourites_of (blk_text sample_block)) = 3"
    by (simp only: sample_block_parts(3)) simp
  then have "blk_in_use sample_block = 5" by (simp add: blk_in_use_def)
  then show ?thesis
    unfolding good_block_def sample_block_parts
    by (simp add: sample_block_def good_lengths_def kraft_def)
qed

theorem bzip2_roundtrip_witness:
  "\<exists>bytes. enc_file 9 [sample_block] = Inr bytes \<and>
    decode_file bytes = Inr [65, 66, 65, 65, 65, 65, 65]"
  using bzip2_roundtrip [of 9 "[sample_block]"] sample_block_good
  by (simp add: sample_block_def)

text \<open>
  C5: \<open>bwt_reverse\<close> inverts the Burrows-Wheeler transformation: the string stands in one of its
  sorted rotations, and from the last column of these and that row \<open>bwt_reverse\<close> returns the
  string. Periodic strings, which a comment of the source suspects, are no exception.
\<close>

theorem bwt_reverse_inverts:
  assumes "s \<noteq> []" and "\<forall>c \<in> set s. c < 256"
  shows "\<exists>row < length s. rotations s ! row = s \<and> bwt_reverse (bwt_encode s) (int row) = Inr s"
proof -
  have "rotate 0 s = s" by simp
  then have "s \<in> set (rotations s)" using assms(1) by (force simp: rotations_def image_iff)
  then obtain row where "row < length s" "rotations s ! row = s"
    by (metis in_set_conv_nth length_rotations)
  with bwt_reverse_encode [OF assms(2)] show ?thesis by blast
qed

theorem bwt_reverse_inverts_witness:
  "\<exists>row < 4. rotations [7, 9, 7, 9] ! row = [7, 9, 7, 9] \<and>
    bwt_reverse (bwt_encode [7, 9, 7, 9]) (int row) = Inr [7, 9, 7, 9]"
  using bwt_reverse_inverts [of "[7, 9, 7, 9]"] by (simp add: numeral_eq_Suc)

text \<open>
  The last run-length step of a block gets back what the encoder was given, whatever has been
  put out before; moving to the front undoes the encoder's move-to-front coding.
\<close>

theorem rle_mtf_roundtrip:
  "rle_loop (rle_encode s) 0 out = out @ s \<and>
   (set xs \<subseteq> set favourites \<longrightarrow> mtf_decode favourites (mtf_encode favourites xs) = Inr xs)"
  by (simp add: rle_loop_encode mtf_roundtrip)

theorem rle_mtf_roundtrip_witness:
  "rle_loop (rle_encode [1, 1, 1, 1, 1, 2]) 0 [0] = [0] @ [1, 1, 1, 1, 1, 2] \<and>
   mtf_decode [1, 2, 3 :: nat] (mtf_encode [1, 2, 3 :: nat] [3, 3, 1]) = Inr [3, 3, 1]"
proof -
  have "set [3, 3, 1] \<subseteq> set [1, 2, 3 :: nat]" by simp
  with rle_mtf_roundtrip [of "[1, 1, 1, 1, 1, 2]" "[0]" "[3, 3, 1]" "[1, 2, 3 :: nat]"] show ?thesis by blast
qed

text \<open>
  C4: a Huffman table built from code lengths decodes. Every code \<open>c\<close> with a non-zero length gets
  a code word of that length; from either kind of bit reader (asked in the right bit order) whose
  bits start with the word, \<open>find_next_symbol\<close> returns \<open>c\<close> and consumes exactly the word.
\<close>

theorem huffman_table_decodes:
  assumes "\<forall>l \<in> set lengths. 0 \<le> l" and "kraft M (filter (\<lambda>l. l \<noteq> 0) lengths)"
    and "c < length lengths" and "lengths ! c \<noteq> 0"
  shows "\<exists>t0 t word. OrderedHuffmanTable lengths = Inr t0 \<and> populate_huffman_symbols t0 = Inr t \<and>
    length word = nat (lengths ! c) \<and>
    (\<forall>s rest. wf_field s \<longrightarrow> stream s = word @ rest \<longrightarrow>
      (\<exists>s'. find_next_symbol t s (bf_class s = Bitfield) = Inr (int c, s') \<and> stream s' = rest))"
proof -
  obtain t where t: "code_table lengths = Inr t" "populated t"
    "map h_bits t = map h_bits (sort_key huff_key (length_entries lengths))"
    "map h_code t = map h_code (sort_key huff_key (length_entries lengths))"
    using code_table_ok [OF assms(1)] by blast
  then have kraft: "kraft M (map h_bits t)" using code_table_kraft assms(2) by blast
  have "HuffmanLength (int c) (lengths ! c) \<in> set (sort_key huff_key (length_entries lengths))"
    using assms(3,4) by (auto simp: length_entries_mem)
  then obtain i where i: "i < length (length_entries lengths)"
    "sort_key huff_key (length_entries lengths) ! i = HuffmanLength (int c) (lengths ! c)"
    unfolding in_set_conv_nth length_sort by blast
  have len: "length t = length (length_entries lengths)"
    using arg_cong [OF t(3), of length] by simp
  have "map h_code t ! i = int c" "map h_bits t ! i = lengths ! c"
    using i by (simp_all only: t(3,4)) (simp_all add: HuffmanLength_def)
  then have x: "t ! i \<in> set t" "h_code (t ! i) = int c" "length (codeword (t ! i)) = nat (lengths ! c)"
    using i(1) len by simp_all
  obtain t0 where "OrderedHuffmanTable lengths = Inr t0" "populate_huffman_symbols t0 = Inr t"
    using t(1) by (auto simp: code_table_def rbind_eq_Inr)
  with x find_next_symbol_found [OF t(2) kraft x(1)] show ?thesis
    by (metis (no_types, lifting))
qed

theorem huffman_table_decodes_witness:
  "\<exists>t0 t word. OrderedHuffmanTable [2, 0, 1, 2] = Inr t0 \<and> populate_huffman_symbols t0 = Inr t \<and>
    length word = 2 \<and>
    (\<forall>s rest. wf_field s \<longrightarrow> stream s = word @ rest \<longrightarrow>
      (\<exists>s'. find_next_symbol t s (bf_class s = Bitfield) = Inr (3, s') \<and> stream s' = rest))"
  using huffman_table_decodes [of "[2, 0, 1, 2]" 4 3] by (simp add: kraft_def)

text \<open>
  C8: \<open>populate_huffman_symbols\<close> assigns the canonical code: in a table sorted by length, the
  symbol of an entry is the sum of \<open>2 ^ (its length - the length of an earlier entry)\<close> over the
  earlier entries, \<open>reverse_symbol\<close> is its reversal, and (within Kraft's inequality) no code word
  is the beginning of a later one.
\<close>

theorem canonical_code:
  assumes "sorted (map h_bits t0)" and "\<forall>x \<in> set t0. 1 \<le> h_bits x" and "kraft M (map h_bits t0)"
  shows "\<exists>t. populate_huffman_symbols t0 = Inr t \<and> map h_code t = map h_code t0 \<and>
    map h_bits t = map h_bits t0 \<and>
    (\<forall>i < length t. h_symbol (t ! i) = Some (\<Sum>j<i. 2 ^ nat (h_bits (t ! i) - h_bits (t ! j))) \<and>
      (\<exists>r. h_reverse_symbol (t ! i) = Some r \<and> (\<forall>k. bit r k \<longleftrightarrow>
        k < nat (h_bits (t ! i)) \<and> bit (the (h_symbol (t ! i))) (nat (h_bits (t ! i)) - 1 - k)))) \<and>
    (\<forall>i j. i < j \<longrightarrow> j < length t \<longrightarrow>
      take (nat (h_bits (t ! i))) (codeword (t ! j)) \<noteq> codeword (t ! i))"
proof -
  obtain t where t: "populate_huffman_symbols t0 = Inr t" "populated t"
    "map h_code t = map h_code t0" "map h_bits t = map h_bits t0"
    using populate_ok [of t0] assms(1,2) by (auto simp: by_length_def)
  have "h_symbol (t ! i) = Some (\<Sum>j<i. 2 ^ nat (h_bits (t ! i) - h_bits (t ! j))) \<and>
      (\<exists>r. h_reverse_symbol (t ! i) = Some r \<and> (\<forall>k. bit r k \<longleftrightarrow>
        k < nat (h_bits (t ! i)) \<and> bit (the (h_symbol (t ! i))) (nat (h_bits (t ! i)) - 1 - k)))"
    if "i < length t" for i
    using populated_nth [OF t(2) that] reverse_bits_bit [of "h_bits (t ! i)" "canonical_symbol t i"]
    by (auto simp: canonical_symbol_def)
  moreover have "kraft M (map h_bits t)" using assms(3) t(4) by simp
  ultimately show ?thesis using t canonical_prefix_free [OF t(2)] by blast
qed

theorem canonical_code_witness:
  "\<exists>t. populate_huffman_symbols [HuffmanLength 4 1, HuffmanLength 9 2] = Inr t \<and>
    map h_code t = [4, 9] \<and> map h_symbol t = [Some 0, Some 2]"
proof -
  obtain t where t: "populate_huffman_symbols [HuffmanLength 4 1, HuffmanLength 9 2] = Inr t"
    "map h_code t = [4, 9]" "map h_bits t = [1, 2]"
    and sy: "\<forall>i < length t. h_symbol (t ! i) = Some (\<Sum>j<i. 2 ^ nat (h_bits (t ! i) - h_bits (t ! j)))"
    using canonical_code [of "[HuffmanLength 4 1, HuffmanLength 9 2]" 2]
    by (auto simp: kraft_def HuffmanLength_def)
  from t(3) obtain x y where "t = [x, y]" "h_bits x = 1" "h_bits y = 2" by (auto simp: map_eq_Cons_conv)
  with t(1,2) sy show ?thesis by (auto simp: less_Suc_eq numeral_eq_Suc all_conj_distrib)
qed

text \<open>
  C9: a bit reader of either class is a list of bits. \<open>readbits(n)\<close> returns the number that the
  next \<open>n\<close> bits stand for (first bit least significant for \<open>Bitfield\<close>, most significant for
  \<open>RBitfield\<close>) and consumes them, \<open>snoopbits(n)\<close> returns it and consumes nothing; when fewer
  bits are left both fail, and a negative \<open>n\<close> is a \<open>ValueError\<close>.
\<close>

theorem bit_reader:
  assumes "wf_field s"
  shows "(0 \<le> n \<longrightarrow> nat n \<le> length (stream s) \<longrightarrow>
      (\<exists>s'. readbits n s = Inr (bits_value (bf_class s) (take (nat n) (stream s)), s') \<and>
        wf_field s' \<and> stream s' = drop (nat n) (stream s)) \<and>
      (\<exists>s'. snoopbits n s = Inr (bits_value (bf_class s) (take (nat n) (stream s)), s') \<and>
        wf_field s' \<and> stream s' = stream s)) \<and>
    (length (stream s) < nat n \<longrightarrow> readbits n s = Inl TypeError \<and> snoopbits n s = Inl TypeError) \<and>
    (n < 0 \<longrightarrow> readbits n s = Inl ValueError)"
  using read_spec [OF assms, of n] snoop_spec [OF assms, of n] read_eof [OF assms, of n] read_neg [of n s]
  by blast

theorem bit_reader_witness:
  "\<exists>s'. readbits 4 (new_field RBitfield [0xA5]) = Inr (10, s') \<and> wf_field s' \<and>
    stream s' = [False, True, False, True]"
proof -
  have st: "stream (new_field RBitfield [0xA5]) = [True, False, True, False, False, True, False, True]"
    by code_simp
  have "wf_field (new_field RBitfield [0xA5])" by (rule wf_new_field) simp
  from bit_reader [OF this, of 4] show ?thesis
    unfolding st by (simp add: bits_value_def new_field_def)
qed

text \<open>
  C6: the decoders always return: no input makes one of their loops run for ever. (The loops
  of the model that need fuel never run out of it.)
\<close>

theorem decoders_return:
  "bzip2_main field \<noteq> Inl OutOfFuel \<and> gzip_main field \<noteq> Inl OutOfFuel \<and> decode_file input \<noteq> Inl OutOfFuel"
  using bzip2_main_returns [of field] gzip_main_no_fuel [of field] decode_file_no_fuel [of input]
  by (simp add: fuelled_def)

text \<open>
  The slicing of \<open>out\<close> in \<open>gzip_main\<close> is the dictionary copy of deflate: it appends, byte by
  byte, the byte that stands \<open>distance\<close> places before the end, also when the copy overlaps what it
  writes.
\<close>

theorem dictionary_copy:
  assumes "1 \<le> distance" and "distance \<le> length out"
  shows "lz_copy out len distance = Inr (byte_copy out len distance)"
  using assms by (rule lz_copy_bytes)

theorem dictionary_copy_witness: "lz_copy [1, 2, 3] 5 2 = Inr [1, 2, 3, 2, 3, 2, 3, 2]"
  using dictionary_copy [of 2 "[1, 2, 3]" 5] by (simp add: numeral_eq_Suc)

text \<open>
  C7: a Huffman block is decoded token by token: for tables that have a word for every code,
  the coded tokens and the end-of-block code, followed by anything, are read as the literals and
  the dictionary copies they stand for.
\<close>

theorem huffman_tokens_decode:
  assumes "full_table 286 lt" and "full_table 30 dt" and "\<forall>t \<in> set ts. good_token t"
    and "apply_tokens ts out = Inr out'"
    and "wf_field s" and "bf_class s = Bitfield" and "stream s = enc_tokens lt dt ts @ rest"
  shows "\<exists>s'. inflate_loop (length ts + 1) lt dt out s = Inr (out', s') \<and> stream s' = rest"
proof -
  have "lsb.reads (inflate_loop (length ts + 1) lt dt out) (enc_tokens lt dt ts) out'"
    using assms(1-4) by (intro inflate_loop_reads) simp_all
  then show ?thesis
    using assms(5-7) by (auto simp: lsb_field_def elim!: lsb.readsE)
qed

text \<open>A reader with given bits buffered, and tables with a word for every code.\<close>

definition buffered :: "bool list \<Rightarrow> field" where
  "buffered bs = \<lparr>bf_class = Bitfield, bf_f = [], bf_bits = length bs,
     bf_bitfield = horner_sum of_bool 2 bs, bf_count = 0\<rparr>"

lemma buffered_stream: "stream (buffered bs) = bs" "wf_field (buffered bs)" "bf_class (buffered bs) = Bitfield"
proof -
  show "stream (buffered bs) = bs"
    by (intro nth_equalityI) (auto simp: buffered_def stream_def bit_horner_sum_bit_iff)
  show "wf_field (buffered bs)"
    unfolding wf_field_def take_bit_id_iff by (auto simp: buffered_def bit_horner_sum_bit_iff)
qed (simp add: buffered_def)

lemma good_full: "good_table n t \<Longrightarrow> full_table (int n) t"
  unfolding good_table_def full_table_def by (metis nat_less_iff int_nat_eq)

lemma static_lengths_good:
  "good_lengths 288 (replicate 144 8 @ replicate 112 9 @ replicate 24 7 @ replicate 8 8)"
  "good_lengths 30 (replicate 30 5)"
  by (auto simp: good_lengths_def kraft_def sum_list_replicate map_replicate)

theorem huffman_tokens_decode_witness:
  "\<exists>lt dt s s'. make_table (replicate 144 8 @ replicate 112 9 @ replicate 24 7 @ replicate 8 8) = Inr lt \<and>
    make_table (replicate 30 5) = Inr dt \<and>
    stream s = enc_tokens lt dt [Literal 97, Copy 257 0 0 0] @ [True] \<and>
    inflate_loop 3 lt dt [] s = Inr ([97, 97, 97, 97], s') \<and> stream s' = [True]"
proof -
  obtain lt dt where t: "make_table (replicate 144 8 @ replicate 112 9 @ replicate 24 7 @ replicate 8 8) = Inr lt"
    "full_table 288 lt" "make_table (replicate 30 5) = Inr dt" "full_table 30 dt"
    using make_table_good [OF static_lengths_good(1)] make_table_good [OF static_lengths_good(2)] good_full
    by fastforce
  have lt: "full_table 286 lt" using t(2) by (auto simp: full_table_def)
  have codes: "length_base 257 = Inr 3" "distance_base 0 = Inr 1"
    "extra_length_bits 257 = Inr 0" "extra_distance_bits 0 = Inr 0" by code_simp+
  let ?ts = "[Literal 97, Copy 257 0 0 0]" and ?s = "\<lambda>ts. buffered (enc_tokens lt dt ts @ [True])"
  have "\<forall>t \<in> set ?ts. good_token t" "apply_tokens ?ts [] = Inr [97, 97, 97, 97]"
    using codes by (auto simp: numeral_eq_Suc)
  from huffman_tokens_decode [OF lt t(4) this, of "?s ?ts" "[True]"]
  have "\<exists>s'. inflate_loop 3 lt dt [] (?s ?ts) = Inr ([97, 97, 97, 97], s') \<and> stream s' = [True]"
    by (simp only: buffered_stream list.size add_0 One_nat_def add_Suc numeral_3_eq_3 simp_thms)
  with t(1,3) buffered_stream(1) [of "enc_tokens lt dt ?ts @ [True]"] show ?thesis by blast
qed

end
