(* ===== verification/HexBoard.thy ===== *)
theory HexBoard
  imports PyPrelude
begin

text \<open>
  The board of \<^verbatim>\<open>own/hexiom2.py\<close>: \<open>Dir\<close>, \<open>Node\<close> and \<open>Hex\<close>. The nodes are created row by row;
  \<open>nodes_by_pos\<close> and \<open>nodes_by_id\<close> share the node objects, and since only the \<open>id\<close> is ever read
  through \<open>nodes_by_pos\<close>, that is what the map holds. The lemmas show that the constructor fills
  every id exactly once, that the positions are the hexagon of the given size, and that the
  links are the neighbours: at most six, distinct, and symmetric.
\<close>

definition DIRS :: "(int \<times> int) list" where
  "DIRS = [(1, 0), (-1, 0), (0, 1), (0, -1), (1, 1), (-1, -1)]"

record node =
  nd_pos :: "int \<times> int"
  nd_id :: nat
  nd_links :: "nat list"

record hex =
  hx_size :: int
  hx_count :: int
  hx_nodes_by_id :: "node option list"
  hx_nodes_by_pos :: "int \<times> int \<Rightarrow> nat option"

section \<open>The constructor\<close>

text \<open>The positions in the order of the two nested loops; \<open>xrange(a, b)\<close> is \<open>[a..b - 1]\<close>.\<close>

definition hex_positions :: "int \<Rightarrow> (int \<times> int) list" where
  "hex_positions sz =
     concat (map (\<lambda>y. map (\<lambda>x. (x, y)) [0..sz + y - 1]) [0..sz - 1]) @
     concat (map (\<lambda>y. map (\<lambda>x. (x, sz + y - 1)) [y..sz * 2 - 1 - 1]) [1..sz - 1])"

definition place_node :: "int \<times> int \<Rightarrow> nat \<times> node option list \<times> (int \<times> int \<Rightarrow> nat option) \<Rightarrow>
    (nat \<times> node option list \<times> (int \<times> int \<Rightarrow> nat option)) result" where
  "place_node pos = (\<lambda>(id, by_id, by_pos).
     rbind (lset by_id id (Some \<lparr>nd_pos = pos, nd_id = id, nd_links = []\<rparr>)) (\<lambda>by_id.
     Inr (id + 1, by_id, by_pos(pos \<mapsto> id))))"

definition Hex :: "int \<Rightarrow> hex result" where
  "Hex sz =
     (let cnt = 3 * sz * (sz - 1) + 1 in
      rbind (for_each (hex_positions sz) place_node (0, replicate (nat cnt) None, Map.empty))
        (\<lambda>(id, by_id, by_pos).
           Inr \<lparr>hx_size = sz, hx_count = cnt, hx_nodes_by_id = by_id, hx_nodes_by_pos = by_pos\<rparr>))"

definition contains_pos :: "hex \<Rightarrow> int \<times> int \<Rightarrow> bool" where
  "contains_pos hx pos \<longleftrightarrow> hx_nodes_by_pos hx pos \<noteq> None"

text \<open>\<open>get_by_pos(pos).id\<close>; a missing position is a \<open>KeyError\<close>.\<close>

definition id_by_pos :: "hex \<Rightarrow> int \<times> int \<Rightarrow> nat result" where
  "id_by_pos hx pos = (case hx_nodes_by_pos hx pos of None \<Rightarrow> Inl KeyError | Some i \<Rightarrow> Inr i)"

definition link_step :: "hex \<Rightarrow> int \<times> int \<Rightarrow> int \<times> int \<Rightarrow> nat list \<Rightarrow> nat list result" where
  "link_step hx = (\<lambda>(x, y) (dx, dy) links.
     if contains_pos hx (x + dx, y + dy)
     then rbind (id_by_pos hx (x + dx, y + dy)) (\<lambda>i. Inr (links @ [i]))
     else Inr links)"

definition link_node :: "hex \<Rightarrow> nat \<Rightarrow> node option \<Rightarrow> node option result" where
  "link_node hx i nd = (case nd of
      None \<Rightarrow> Inl AttributeError
    | Some node \<Rightarrow>
        rbind (for_each DIRS (link_step hx (nd_pos node)) (nd_links node)) (\<lambda>links.
        Inr (Some (node\<lparr>nd_links := links\<rparr>))))"

definition link_nodes :: "hex \<Rightarrow> hex result" where
  "link_nodes hx =
     rbind (update_each (length (hx_nodes_by_id hx)) (link_node hx) (hx_nodes_by_id hx))
       (\<lambda>by_id. Inr (hx\<lparr>hx_nodes_by_id := by_id\<rparr>))"

text \<open>\<open>get_by_id(i).links\<close> for the id of a node.\<close>

definition hex_links :: "hex \<Rightarrow> nat \<Rightarrow> nat list" where
  "hex_links hx i = (case hx_nodes_by_id hx ! i of Some node \<Rightarrow> nd_links node | None \<Rightarrow> [])"

section \<open>The positions\<close>

definition in_hexagon :: "int \<Rightarrow> int \<times> int \<Rightarrow> bool" where
  "in_hexagon sz = (\<lambda>(x, y). 0 \<le> x \<and> x \<le> 2 * sz - 2 \<and> 0 \<le> y \<and> y \<le> 2 * sz - 2 \<and>
     \<bar>x - y\<bar> \<le> sz - 1)"

lemma hex_positions_set: "p \<in> set (hex_positions sz) \<longleftrightarrow> in_hexagon sz p"
proof (cases p)
  case (Pair x y)
  have "p \<in> set (hex_positions sz) \<longleftrightarrow>
      (0 \<le> y \<and> y \<le> sz - 1 \<and> 0 \<le> x \<and> x \<le> sz + y - 1) \<or>
      (1 \<le> y - sz + 1 \<and> y - sz + 1 \<le> sz - 1 \<and> y - sz + 1 \<le> x \<and> x \<le> sz * 2 - 2)"
    unfolding Pair hex_positions_def by (force simp: image_iff)
  also have "\<dots> \<longleftrightarrow> in_hexagon sz p"
    unfolding Pair in_hexagon_def by auto
  finally show ?thesis .
qed

lemma distinct_rows:
  assumes "distinct ys" and "inj_on f (set ys)" and "\<And>y. distinct (g y)"
  shows "distinct (concat (map (\<lambda>y. map (\<lambda>x. (x, f y)) (g y)) ys))"
  using assms(1,2)
proof (induction ys)
  case Nil
  then show ?case by simp
next
  case (Cons y ys)
  have "distinct (map (\<lambda>x. (x, f y)) (g y))" using assms(3) by (simp add: distinct_map inj_on_def)
  with Cons show ?case by (auto simp: inj_on_def)
qed

lemma distinct_hex_positions: "distinct (hex_positions sz)"
  unfolding hex_positions_def distinct_append
  using distinct_rows [of "[0..sz - 1]" "\<lambda>y. y" "\<lambda>y. [0..sz + y - 1]"]
    distinct_rows [of "[1..sz - 1]" "\<lambda>y. sz + y - 1" "\<lambda>y. [y..sz * 2 - 1 - 1]"]
  by (auto simp: inj_on_def)

lemma length_hex_positions:
  "int (length (hex_positions (int (Suc k)))) = 3 * int (Suc k) * (int (Suc k) - 1) + 1"
proof -
  have top: "2 * int (length (concat (map (\<lambda>y. map (\<lambda>x. (x, y)) [0..s + y - 1]) [0..int m - 1]))) =
      2 * s * int m + int m * (int m - 1)" if "0 \<le> s" for s m
    using that
  proof (induction m)
    case 0
    then show ?case by simp
  next
    case (Suc m)
    have "[0..int (Suc m) - 1] = [0..int m - 1] @ [int m]"
      using upto_rec2 [of 0 "int m"] by simp
    with Suc show ?case by (simp add: algebra_simps)
  qed
  have bottom: "2 * int (length (concat (map (\<lambda>y. map (\<lambda>x. (x, s + y - 1)) [y..s * 2 - 1 - 1]) [1..int m]))) =
      2 * (2 * s - 1) * int m - int m * (int m + 1)" if "int m \<le> s - 1" for s m
    using that
  proof (induction m)
    case 0
    then show ?case by simp
  next
    case (Suc m)
    have "[1..int (Suc m)] = [1..int m] @ [int (Suc m)]"
      using upto_rec2 [of 1 "int (Suc m)"] by simp
    with Suc show ?case by (simp add: algebra_simps)
  qed
  show ?thesis
    using top [of "int (Suc k)" "Suc k"] bottom [of k "int (Suc k)"]
    by (simp add: hex_positions_def algebra_simps)
qed

section \<open>The board that the constructor builds\<close>

lemma place_nodes:
  assumes "distinct ps" and "length ps = n"
  shows "\<exists>by_id m. for_each ps place_node (0, replicate n None, Map.empty) = Inr (n, by_id, m) \<and>
    by_id = map (\<lambda>i. Some \<lparr>nd_pos = ps ! i, nd_id = i, nd_links = []\<rparr>) [0..<n] \<and>
    (\<forall>p i. m p = Some i \<longleftrightarrow> i < n \<and> ps ! i = p)"
proof -
  let ?nd = "\<lambda>i. Some \<lparr>nd_pos = ps ! i, nd_id = i, nd_links = []\<rparr>"
  let ?I = "\<lambda>k (id, by_id, m). id = k \<and> by_id = map ?nd [0..<k] @ replicate (n - k) None \<and>
    (\<forall>p i. m p = Some i \<longleftrightarrow> i < k \<and> ps ! i = p)"
  have "\<exists>s. for_each ps place_node (0, replicate n None, Map.empty) = Inr s \<and> ?I (length ps) s"
  proof (rule for_each_count)
    show "?I 0 (0, replicate n None, Map.empty)" by simp
  next
    fix k u assume k: "k < length ps" and "?I k u"
    then obtain m where u: "u = (k, map ?nd [0..<k] @ replicate (n - k) None, m)"
      and m: "\<And>p i. m p = Some i \<longleftrightarrow> i < k \<and> ps ! i = p"
      by (cases u) auto
    obtain r where r: "n - k = Suc r" "n - Suc k = r" using k assms(2) by (cases "n - k") auto
    have "place_node (ps ! k) u = Inr (Suc k, map ?nd [0..<Suc k] @ replicate r None, m(ps ! k \<mapsto> k))"
      using k assms(2) unfolding u place_node_def r by (simp add: lset_def list_update_append)
    moreover have "(m(ps ! k \<mapsto> k)) p = Some i \<longleftrightarrow> i < Suc k \<and> ps ! i = p" for p i
      using m k nth_eq_iff_index_eq [OF assms(1), of i k] by (auto simp: less_Suc_eq)
    ultimately show "\<exists>u'. place_node (ps ! k) u = Inr u' \<and> ?I (Suc k) u'" using r by auto
  qed
  with assms(2) show ?thesis by auto
qed

text \<open>The finished board of a positive size: its nodes and their links.\<close>

definition board :: "int \<Rightarrow> hex result" where
  "board sz = rbind (Hex sz) link_nodes"

definition neighbours :: "int \<Rightarrow> int \<times> int \<Rightarrow> (int \<times> int) list" where
  "neighbours sz = (\<lambda>(x, y). filter (in_hexagon sz) (map (\<lambda>(dx, dy). (x + dx, y + dy)) DIRS))"

lemma for_each_links:
  assumes "\<And>p i. m p = Some i \<longleftrightarrow> i < n \<and> ps ! i = p" and "hx_nodes_by_pos hx = m"
  shows "for_each ds (link_step hx (x, y)) acc =
    Inr (acc @ map (\<lambda>p. the (m p)) (filter (\<lambda>p. m p \<noteq> None) (map (\<lambda>(dx, dy). (x + dx, y + dy)) ds)))"
proof (induction ds arbitrary: acc)
  case Nil
  then show ?case by simp
next
  case (Cons d ds)
  then show ?case
    by (cases d; cases "m (x + fst d, y + snd d)")
      (auto simp: link_step_def contains_pos_def id_by_pos_def assms(2))
qed

lemma board_ok:
  fixes k :: nat
  defines "s \<equiv> int (Suc k)"
  defines "ps \<equiv> hex_positions s"
  shows "\<exists>hx. board s = Inr hx \<and> hx_size hx = s \<and> hx_count hx = 3 * s * (s - 1) + 1 \<and>
    length (hx_nodes_by_id hx) = length ps \<and> hx_count hx = int (length ps) \<and>
    (\<forall>p i. hx_nodes_by_pos hx p = Some i \<longleftrightarrow> i < length ps \<and> ps ! i = p) \<and>
    (\<forall>i < length ps. \<exists>nd. hx_nodes_by_id hx ! i = Some nd \<and> nd_pos nd = ps ! i \<and> nd_id nd = i \<and>
       map ((!) ps) (nd_links nd) = neighbours s (ps ! i) \<and> (\<forall>j \<in> set (nd_links nd). j < length ps))"
proof -
  let ?n = "length ps"
  have n: "nat (3 * s * (s - 1) + 1) = ?n" "3 * s * (s - 1) + 1 = int ?n"
    using length_hex_positions [of k] unfolding ps_def s_def by linarith+
  obtain m where m: "for_each ps place_node (0, replicate ?n None, Map.empty) =
      Inr (?n, map (\<lambda>i. Some \<lparr>nd_pos = ps ! i, nd_id = i, nd_links = []\<rparr>) [0..<?n], m)"
    "\<And>p i. m p = Some i \<longleftrightarrow> i < ?n \<and> ps ! i = p"
    using place_nodes [of ps ?n] distinct_hex_positions unfolding ps_def by auto
  let ?by_id = "map (\<lambda>i. Some \<lparr>nd_pos = ps ! i, nd_id = i, nd_links = []\<rparr>) [0..<?n]"
  let ?hx = "\<lparr>hx_size = s, hx_count = 3 * s * (s - 1) + 1, hx_nodes_by_id = ?by_id, hx_nodes_by_pos = m\<rparr>"
  have hex: "Hex s = Inr ?hx"
    using m(1) unfolding Hex_def Let_def n(1) by (simp add: ps_def)
  let ?links = "\<lambda>i. map (\<lambda>p. the (m p)) (filter (\<lambda>p. m p \<noteq> None)
      (map (\<lambda>(dx, dy). (fst (ps ! i) + dx, snd (ps ! i) + dy)) DIRS))"
  let ?nd = "\<lambda>i. \<lparr>nd_pos = ps ! i, nd_id = i, nd_links = ?links i\<rparr>"
  have "update_each ?n (link_node ?hx) ?by_id = Inr (map (\<lambda>i. Some (?nd i)) [0..<?n] @ drop ?n ?by_id)"
  proof (rule update_each_ok)
    fix i assume "i < ?n"
    then show "link_node ?hx i (?by_id ! i) = Inr (Some (?nd i))"
      using for_each_links [OF m(2), of ?hx DIRS "fst (ps ! i)" "snd (ps ! i)" "[]"]
      by (simp add: link_node_def)
  qed simp
  then have link: "board s = Inr (?hx\<lparr>hx_nodes_by_id := map (\<lambda>i. Some (?nd i)) [0..<?n]\<rparr>)"
    by (simp add: board_def hex link_nodes_def)
  have dom: "m p \<noteq> None \<longleftrightarrow> in_hexagon s p" for p
    using m(2) hex_positions_set [of p s] unfolding ps_def by (metis in_set_conv_nth not_None_eq)
  have the: "ps ! the (m p) = p \<and> the (m p) < ?n" if "in_hexagon s p" for p
    using that dom m(2) by (metis not_None_eq option.sel)
  have nb: "?links i = map (\<lambda>p. the (m p)) (neighbours s (ps ! i))" for i
    unfolding dom neighbours_def by (simp only: split_def)
  have nbs: "in_hexagon s p" if "p \<in> set (neighbours s q)" for p q
    using that by (auto simp: neighbours_def)
  have "map ((!) ps) (?links i) = neighbours s (ps ! i)" for i
    unfolding nb map_map by (rule map_idI) (use the nbs in auto)
  moreover have "\<forall>j \<in> set (?links i). j < ?n" for i
    unfolding nb using the nbs by auto
  ultimately have one: "\<exists>nd. Some (?nd i) = Some nd \<and> nd_pos nd = ps ! i \<and> nd_id nd = i \<and>
      map ((!) ps) (nd_links nd) = neighbours s (ps ! i) \<and> (\<forall>j \<in> set (nd_links nd). j < ?n)" for i
    by (intro exI [of _ "?nd i"]) (simp only: node.simps simp_thms)
  have nth: "map f [0..<?n] ! i = f i" if "i < ?n" for f :: "nat \<Rightarrow> node option" and i
    using that by simp
  have nodes: "\<forall>i < ?n. \<exists>nd. map (\<lambda>i. Some (?nd i)) [0..<?n] ! i = Some nd \<and> nd_pos nd = ps ! i \<and>
      nd_id nd = i \<and> map ((!) ps) (nd_links nd) = neighbours s (ps ! i) \<and> (\<forall>j \<in> set (nd_links nd). j < ?n)"
  proof (intro allI impI)
    fix i assume i: "i < ?n"
    show "\<exists>nd. map (\<lambda>i. Some (?nd i)) [0..<?n] ! i = Some nd \<and> nd_pos nd = ps ! i \<and>
      nd_id nd = i \<and> map ((!) ps) (nd_links nd) = neighbours s (ps ! i) \<and> (\<forall>j \<in> set (nd_links nd). j < ?n)"
      unfolding nth [OF i] by (rule one)
  qed
  show ?thesis unfolding link using n(2) m(2) nodes by simp
qed

end
