(* ===== verification/PyText.thy ===== *)
theory PyText
  imports PyPrelude "HOL-Library.Char_ord"
begin

text \<open>
  The text operations of Python the programs use: \<open>str\<close> and \<open>int\<close> on decimal numbers, \<open>strip\<close>,
  \<open>split\<close>, slices and \<open>splitlines\<close>. Strings are lists of characters; white space and digits are
  those of ASCII. The lemmas are the round trip of numbers through their decimal text.
\<close>

section \<open>Characters\<close>

definition is_space :: "char \<Rightarrow> bool" where
  "is_space c \<longleftrightarrow> (let n = (of_char c :: nat) in n = 32 \<or> (9 \<le> n \<and> n \<le> 13))"

definition is_digit :: "char \<Rightarrow> bool" where
  "is_digit c \<longleftrightarrow> (let n = (of_char c :: nat) in 48 \<le> n \<and> n \<le> 57)"

definition digit_char :: "nat \<Rightarrow> char" where
  "digit_char d = char_of (48 + d)"

definition digit_val :: "char \<Rightarrow> nat" where
  "digit_val c = of_char c - 48"

lemma digit_char [simp]:
  assumes "d < 10"
  shows "is_digit (digit_char d)" "digit_val (digit_char d) = d" "\<not> is_space (digit_char d)"
  using assms by (simp_all add: is_digit_def digit_char_def digit_val_def is_space_def Let_def)

section \<open>Decimal numbers\<close>

fun nat_str :: "nat \<Rightarrow> string" where
  "nat_str n = (if n < 10 then [digit_char n] else nat_str (n div 10) @ [digit_char (n mod 10)])"

declare nat_str.simps [simp del]

definition py_str :: "int \<Rightarrow> string" where
  "py_str i = (if i < 0 then CHR ''-'' # nat_str (nat (- i)) else nat_str (nat i))"

definition strip :: "string \<Rightarrow> string" where
  "strip s = rev (dropWhile is_space (rev (dropWhile is_space s)))"

definition digits_val :: "string \<Rightarrow> nat" where
  "digits_val = foldl (\<lambda>n c. n * 10 + digit_val c) 0"

definition digits_int :: "string \<Rightarrow> nat result" where
  "digits_int s = (if s \<noteq> [] \<and> list_all is_digit s then Inr (digits_val s) else Inl ValueError)"

text \<open>\<open>int(s)\<close>: white space around it, one sign, and at least one digit.\<close>

definition py_int :: "string \<Rightarrow> int result" where
  "py_int s = (case strip s of
      [] \<Rightarrow> Inl ValueError
    | c # cs \<Rightarrow>
        if c = CHR ''-'' then rbind (digits_int cs) (\<lambda>n. Inr (- int n))
        else if c = CHR ''+'' then rbind (digits_int cs) (\<lambda>n. Inr (int n))
        else rbind (digits_int (c # cs)) (\<lambda>n. Inr (int n)))"

lemma nat_str_digits: "nat_str n \<noteq> [] \<and> list_all is_digit (nat_str n) \<and> digits_val (nat_str n) = n"
proof (induction n rule: nat_str.induct)
  case (1 n)
  show ?case
    by (subst (1 2 3) nat_str.simps) (use 1 in \<open>simp add: digits_val_def\<close>)
qed

lemma digits_int_nat_str [simp]: "digits_int (nat_str n) = Inr n"
  using nat_str_digits [of n] by (simp add: digits_int_def)

lemma digit_not_space: "is_digit c \<Longrightarrow> \<not> is_space c"
  by (auto simp: is_digit_def is_space_def Let_def)

lemma strip_id:
  assumes "\<And>c. c \<in> set s \<Longrightarrow> \<not> is_space c"
  shows "strip s = s"
proof -
  have d: "dropWhile is_space t = t" if "\<forall>c \<in> set t. \<not> is_space c" for t
    using that by (cases t) auto
  have "dropWhile is_space s = s" "dropWhile is_space (rev s) = rev s"
    using assms by (auto intro!: d)
  then show ?thesis by (simp add: strip_def)
qed

lemma strip_spaces:
  assumes "\<And>c. c \<in> set ws \<Longrightarrow> is_space c"
  shows "strip (ws @ s) = strip s"
  using assms by (induction ws) (auto simp: strip_def)

lemma py_int_py_str: "py_int (py_str i) = Inr i"
proof -
  let ?s = "nat_str (nat \<bar>i\<bar>)"
  have ns: "\<not> is_space c" if "c \<in> set ?s" for c
    using nat_str_digits [of "nat \<bar>i\<bar>"] that by (auto simp: list_all_iff dest: digit_not_space)
  obtain c cs where c: "?s = c # cs" "is_digit c"
    using nat_str_digits [of "nat \<bar>i\<bar>"] by (cases ?s) auto
  have "c \<noteq> CHR ''-''" "c \<noteq> CHR ''+''"
    using c(2) by (auto simp: is_digit_def Let_def)
  moreover have "strip ?s = ?s" "strip (CHR ''-'' # ?s) = CHR ''-'' # ?s"
    using ns by (auto intro!: strip_id simp: is_space_def Let_def)
  moreover have "digits_int (c # cs) = Inr (nat \<bar>i\<bar>)" using digits_int_nat_str c(1) by metis
  ultimately show ?thesis
    using c(1) by (auto simp: py_int_def py_str_def)
qed

text \<open>A single digit with one sign or space in front of it, as the boards of hexiom have it.\<close>

lemma nat_str_digit: "d < 10 \<Longrightarrow> nat_str d = [digit_char d]"
  by (simp add: nat_str.simps)

lemma py_int_padded_digit:
  assumes "d < 10" and "is_space c \<or> c = CHR ''+''"
  shows "py_int [c, digit_char d] = Inr (int d)"
proof -
  have d: "digits_int [digit_char d] = Inr d"
    using assms(1) digits_int_nat_str [of d] by (simp add: nat_str_digit)
  have "\<not> is_digit (CHR ''-'')" "\<not> is_digit (CHR ''+'')"
    by (simp_all add: is_digit_def Let_def)
  then have ne: "digit_char d \<noteq> CHR ''-''" "digit_char d \<noteq> CHR ''+''"
    using digit_char(1) [OF assms(1)] by metis+
  show ?thesis
  proof (cases "is_space c")
    case True
    then have "strip [c, digit_char d] = [digit_char d]"
      using assms(1) by (simp add: strip_def)
    with d ne show ?thesis by (simp add: py_int_def)
  next
    case False
    with assms(2) have "c = CHR ''+''" by simp
    moreover have "strip [CHR ''+'', digit_char d] = [CHR ''+'', digit_char d]"
      using assms(1) using assms(1) by (auto intro!: strip_id simp: is_space_def [of "CHR ''+''"] Let_def)
    ultimately show ?thesis using d by (simp add: py_int_def)
  qed
qed

section \<open>Lines\<close>

text \<open>\<open>splitlines\<close> ends a line at LF, CR or CR LF; a last line without an end counts too.\<close>

fun split_lines :: "string \<Rightarrow> string \<Rightarrow> string list" where
  "split_lines acc [] = (if acc = [] then [] else [rev acc])"
| "split_lines acc (c # cs) =
     (if c = CHR 0x0A then rev acc # split_lines [] cs
      else if c = CHR 0x0D then rev acc # split_lines [] (if take 1 cs = [CHR 0x0A] then drop 1 cs else cs)
      else split_lines (c # acc) cs)"

definition splitlines :: "string \<Rightarrow> string list" where
  "splitlines = split_lines []"

text \<open>\<open>s.rstrip()\<close>, and \<open>s.split(c)\<close> for one character: always at least one piece, empty ones included.\<close>

definition rstrip :: "string \<Rightarrow> string" where
  "rstrip s = rev (dropWhile is_space (rev s))"

fun split_at :: "char \<Rightarrow> string \<Rightarrow> string list" where
  "split_at c [] = [[]]"
| "split_at c (x # xs) =
     (if x = c then [] # split_at c xs
      else case split_at c xs of [] \<Rightarrow> [[x]] | w # ws \<Rightarrow> (x # w) # ws)"

text \<open>\<open>s.strip(chars)\<close>.\<close>

definition strip_chars :: "char list \<Rightarrow> string \<Rightarrow> string" where
  "strip_chars cs s = rev (dropWhile (\<lambda>c. c \<in> set cs) (rev (dropWhile (\<lambda>c. c \<in> set cs) s)))"

definition unlines :: "string list \<Rightarrow> string" where
  "unlines ls = concat (map (\<lambda>l. l @ [CHR 0x0A]) ls)"

definition plain_line :: "string \<Rightarrow> bool" where
  "plain_line l \<longleftrightarrow> (\<forall>c \<in> set l. c \<noteq> CHR 0x0A \<and> c \<noteq> CHR 0x0D)"

lemma split_lines_plain:
  "plain_line l \<Longrightarrow> split_lines acc (l @ CHR 0x0A # cs) = (rev acc @ l) # split_lines [] cs"
  by (induction l arbitrary: acc) (auto simp: plain_line_def)

lemma splitlines_unlines:
  "(\<And>l. l \<in> set ls \<Longrightarrow> plain_line l) \<Longrightarrow> splitlines (unlines ls) = ls"
  by (induction ls) (auto simp: splitlines_def unlines_def split_lines_plain)

lemma strip_chars_id:
  assumes "\<And>c. c \<in> set s \<Longrightarrow> c \<notin> set cs"
  shows "strip_chars cs s = s"
proof -
  have d: "dropWhile (\<lambda>c. c \<in> set cs) t = t" if "\<forall>c \<in> set t. c \<notin> set cs" for t
    using that by (cases t) auto
  have "dropWhile (\<lambda>c. c \<in> set cs) s = s" "dropWhile (\<lambda>c. c \<in> set cs) (rev s) = rev s"
    using assms by (auto intro!: d)
  then show ?thesis by (simp add: strip_chars_def)
qed

lemma digit_plain: "is_digit c \<Longrightarrow> c \<noteq> CHR 0x0A \<and> c \<noteq> CHR 0x0D"
  by (auto simp: is_digit_def Let_def)

lemma plain_nat_str: "plain_line (nat_str n)"
  using nat_str_digits [of n] digit_plain by (auto simp: plain_line_def list_all_iff)

end
