(* ===== verification/HexCells.thy ===== *)
theory HexCells
  imports HexBoard PyText
begin

text \<open>
  \<open>Done\<close> of \<^verbatim>\<open>own/hexiom2.py\<close>: for every cell of the board the values it can still have, and the
  strategies that choose the next cell. \<open>Done.count\<close> is the length of \<open>cells\<close> throughout, and
  \<open>clone\<close> copies every list, so a clone is the same value here. A cell is only ever indexed with
  a number below \<open>count\<close>: the loops run over \<open>xrange(count)\<close> and the links are ids of nodes.
\<close>

type_synonym cells = "nat list list"

definition EMPTY :: nat where
  "EMPTY = 7"

definition new_done :: "nat \<Rightarrow> cells" where
  "new_done cnt = map (\<lambda>i. [0, 1, 2, 3, 4, 5, 6, EMPTY]) [0..<cnt]"

definition set_done :: "nat \<Rightarrow> nat \<Rightarrow> cells \<Rightarrow> cells" where
  "set_done i v c = c[i := [v]]"

definition already_done :: "cells \<Rightarrow> nat \<Rightarrow> bool" where
  "already_done c i \<longleftrightarrow> length (c ! i) = 1"

definition remove :: "nat \<Rightarrow> nat \<Rightarrow> cells \<Rightarrow> bool \<times> cells" where
  "remove i v c = (if v \<in> set (c ! i) then (True, c[i := remove1 v (c ! i)]) else (False, c))"

definition remove_all :: "nat \<Rightarrow> cells \<Rightarrow> cells" where
  "remove_all v c = fold (\<lambda>i c. snd (remove i v c)) [0..<length c] c"

text \<open>\<open>if self.remove(i, v): changed = True\<close>.\<close>

definition remove_ch :: "nat \<Rightarrow> nat \<Rightarrow> bool \<times> cells \<Rightarrow> bool \<times> cells" where
  "remove_ch i v = (\<lambda>(changed, c). let (r, c) = remove i v c in (changed \<or> r, c))"

definition remove_unfixed :: "nat \<Rightarrow> cells \<Rightarrow> bool \<times> cells" where
  "remove_unfixed v c =
     fold (\<lambda>i s. if \<not> already_done (snd s) i then remove_ch i v s else s) [0..<length c] (False, c)"

definition filter_tiles :: "int list \<Rightarrow> cells \<Rightarrow> cells result" where
  "filter_tiles tiles = for_each [0..<8] (\<lambda>v c.
     rbind (lget tiles v) (\<lambda>t. Inr (if t = 0 then remove_all v c else c)))"

section \<open>Choosing the next cell\<close>

definition next_cell_min_choice :: "cells \<Rightarrow> int" where
  "next_cell_min_choice c = snd (fold (\<lambda>i (minlen, mini).
     if 1 < length (c ! i) \<and> length (c ! i) < minlen then (length (c ! i), int i) else (minlen, mini))
     [0..<length c] (10, -1))"

definition next_cell_max_choice :: "cells \<Rightarrow> int" where
  "next_cell_max_choice c = snd (fold (\<lambda>i (maxlen, maxi).
     if maxlen < length (c ! i) then (length (c ! i), int i) else (maxlen, maxi))
     [0..<length c] (1, -1))"

text \<open>\<open>max\<close> of an empty sequence raises.\<close>

fun py_max :: "nat list \<Rightarrow> nat result" where
  "py_max [] = Inl ValueError"
| "py_max (x # xs) = Inr (foldl max x xs)"

definition next_cell_highest_value :: "cells \<Rightarrow> int result" where
  "next_cell_highest_value c = rbind (for_each [0..<length c] (\<lambda>i (maxval, maxi).
     if \<not> already_done c i then
       rbind (py_max (filter (\<lambda>k. k \<noteq> EMPTY) (c ! i))) (\<lambda>maxvali.
       Inr (if maxval < int maxvali then (int maxvali, int i) else (maxval, maxi)))
     else Inr (maxval, maxi)) (-1 :: int, -1 :: int)) (\<lambda>(maxval, maxi). Inr maxi)"

definition next_cell_first :: "cells \<Rightarrow> int" where
  "next_cell_first c =
     (case filter (\<lambda>i. \<not> already_done c i) [0..<length c] of i # _ \<Rightarrow> int i | [] \<Rightarrow> -1)"

definition fixed_around :: "hex \<Rightarrow> cells \<Rightarrow> nat \<Rightarrow> int" where
  "fixed_around hx c i =
     sum_list (map (\<lambda>nid. if already_done c nid \<and> c ! nid ! 0 \<noteq> EMPTY then 1 else 0) (hex_links hx i))"

definition next_cell_max_neighbors :: "hex \<Rightarrow> cells \<Rightarrow> int" where
  "next_cell_max_neighbors hx c = snd (fold (\<lambda>i (maxn, maxi).
     if \<not> already_done c i then
       (let n = fixed_around hx c i in if n > maxn then (n, int i) else (maxn, maxi))
     else (maxn, maxi)) [0..<length c] (-1, -1))"

definition next_cell_min_neighbors :: "hex \<Rightarrow> cells \<Rightarrow> int" where
  "next_cell_min_neighbors hx c = snd (fold (\<lambda>i (minn, mini).
     if \<not> already_done c i then
       (let n = fixed_around hx c i in if n < minn then (n, int i) else (minn, mini))
     else (minn, mini)) [0..<length c] (7, -1))"

definition MIN_CHOICE_STRATEGY :: int where "MIN_CHOICE_STRATEGY = 0"
definition MAX_CHOICE_STRATEGY :: int where "MAX_CHOICE_STRATEGY = 1"
definition HIGHEST_VALUE_STRATEGY :: int where "HIGHEST_VALUE_STRATEGY = 2"
definition FIRST_STRATEGY :: int where "FIRST_STRATEGY = 3"
definition MAX_NEIGHBORS_STRATEGY :: int where "MAX_NEIGHBORS_STRATEGY = 4"
definition MIN_NEIGHBORS_STRATEGY :: int where "MIN_NEIGHBORS_STRATEGY = 5"

lemmas strategy_defs = MIN_CHOICE_STRATEGY_def MAX_CHOICE_STRATEGY_def HIGHEST_VALUE_STRATEGY_def
  FIRST_STRATEGY_def MAX_NEIGHBORS_STRATEGY_def MIN_NEIGHBORS_STRATEGY_def

definition next_cell :: "hex \<Rightarrow> cells \<Rightarrow> int \<Rightarrow> int result" where
  "next_cell hx c strategy =
    (if strategy = HIGHEST_VALUE_STRATEGY then next_cell_highest_value c
     else if strategy = MIN_CHOICE_STRATEGY then Inr (next_cell_min_choice c)
     else if strategy = MAX_CHOICE_STRATEGY then Inr (next_cell_max_choice c)
     else if strategy = FIRST_STRATEGY then Inr (next_cell_first c)
     else if strategy = MAX_NEIGHBORS_STRATEGY then Inr (next_cell_max_neighbors hx c)
     else if strategy = MIN_NEIGHBORS_STRATEGY then Inr (next_cell_min_neighbors hx c)
     else Inl (UserException (''Wrong strategy: '' @ py_str strategy)))"

section \<open>What the strategies guarantee\<close>

text \<open>
  A choice is \<open>fair\<close> when it is \<open>-1\<close> or an open cell, and it is \<open>-1\<close> only when no cell has two
  values or more. That is all the search relies on. The values of a cell are below 8 and
  distinct, so the bounds 10 and 7 the loops start from are never the answer.
\<close>

definition fair_choice :: "cells \<Rightarrow> int \<Rightarrow> bool" where
  "fair_choice c i \<longleftrightarrow> (i = -1 \<and> (\<forall>j < length c. length (c ! j) \<le> 1)) \<or>
     (0 \<le> i \<and> nat i < length c \<and> length (c ! nat i) \<noteq> 1)"

definition wf_cells :: "cells \<Rightarrow> bool" where
  "wf_cells c \<longleftrightarrow> (\<forall>x \<in> set c. distinct x \<and> set x \<subseteq> {..<8})"

lemma wf_cells_nth: "wf_cells c \<Longrightarrow> i < length c \<Longrightarrow> distinct (c ! i) \<and> set (c ! i) \<subseteq> {..<8}"
  by (simp add: wf_cells_def)

lemma wf_cells_length: "wf_cells c \<Longrightarrow> i < length c \<Longrightarrow> length (c ! i) \<le> 8"
  using wf_cells_nth [of c i] card_mono [of "{..<8::nat}" "set (c ! i)"]
  by (simp add: distinct_card)

text \<open>
  One rule for the loops that keep the best index so far: \<open>m\<close> is the best value, which starts at
  \<open>m0\<close> and stays \<open>good\<close>; a candidate \<open>i\<close> that is \<open>better\<close> replaces it by its \<open>rank\<close>.
\<close>

lemma fold_best:
  fixes m0 :: 'm
  assumes step: "\<And>i m b. i < length c \<Longrightarrow> f i (m, b) = (if better i m then (rank i, int i) else (m, b))"
    and init: "\<And>i. i < length c \<Longrightarrow> ok i \<Longrightarrow> better i m0"
    and good: "good m0" "\<And>i m. i < length c \<Longrightarrow> good m \<Longrightarrow> better i m \<Longrightarrow> good (rank i) \<and> cand i"
    and fair: "\<And>j. j < length c \<Longrightarrow> \<not> ok j \<Longrightarrow> length (c ! j) \<le> 1"
      "\<And>j. j < length c \<Longrightarrow> cand j \<Longrightarrow> length (c ! j) \<noteq> 1"
  shows "fair_choice c (snd (fold f [0..<length c] (m0, -1)))"
proof -
  let ?Q = "\<lambda>k (m, b). good m \<and>
    ((m = m0 \<and> b = -1 \<and> (\<forall>j < k. \<not> ok j)) \<or> (\<exists>i < length c. b = int i \<and> cand i))"
  have "?Q k (fold f [0..<k] (m0, -1))" if "k \<le> length c" for k
    using that
  proof (induction k)
    case 0
    then show ?case using good(1) by simp
  next
    case (Suc k)
    obtain m b where mb: "fold f [0..<k] (m0, -1) = (m, b)" by force
    have k: "k < length c" using Suc.prems by simp
    from Suc have "?Q k (m, b)" by (simp add: mb)
    then show ?case
      using step [OF k, of m b] init [OF k] good(2) [OF k, of m] k
      by (auto simp: mb less_Suc_eq)
  qed
  from this [of "length c"] fair show ?thesis
    by (cases "fold f [0..<length c] (m0, -1)") (auto simp: fair_choice_def)
qed

lemma min_choice_fair:
  assumes "wf_cells c"
  shows "fair_choice c (next_cell_min_choice c)"
  unfolding next_cell_min_choice_def
  by (rule fold_best [where better = "\<lambda>i m. 1 < length (c ! i) \<and> length (c ! i) < m" and good = "\<lambda>_. True"
        and rank = "\<lambda>i. length (c ! i)" and ok = "\<lambda>i. 1 < length (c ! i)" and cand = "\<lambda>i. 1 < length (c ! i)"])
    (use wf_cells_length [OF assms] in \<open>force+\<close>)

lemma max_choice_fair: "fair_choice c (next_cell_max_choice c)"
  unfolding next_cell_max_choice_def
  by (rule fold_best [where better = "\<lambda>i m. m < length (c ! i)" and good = "\<lambda>m. 1 \<le> m"
        and rank = "\<lambda>i. length (c ! i)" and ok = "\<lambda>i. 1 < length (c ! i)" and cand = "\<lambda>i. 1 < length (c ! i)"]) auto

lemma first_fair: "fair_choice c (next_cell_first c)"
proof (cases "filter (\<lambda>i. \<not> already_done c i) [0..<length c]")
  case Nil
  then show ?thesis by (auto simp: next_cell_first_def fair_choice_def filter_empty_conv already_done_def)
next
  case (Cons i js)
  then have "i \<in> set (filter (\<lambda>i. \<not> already_done c i) [0..<length c])" by (simp only: list.set_intros)
  then have "i < length c" "\<not> already_done c i" by auto
  with Cons show ?thesis by (simp add: next_cell_first_def fair_choice_def already_done_def)
qed

lemma fixed_around_bounds: "0 \<le> fixed_around hx c i \<and> fixed_around hx c i \<le> int (length (hex_links hx i))"
proof -
  have "0 \<le> s \<and> s \<le> int (length xs)"
    if "s = sum_list (map (\<lambda>j. if already_done c j \<and> c ! j ! 0 \<noteq> EMPTY then 1 else 0) xs)" for s and xs :: "nat list"
    using that by (induction xs arbitrary: s) auto
  then show ?thesis unfolding fixed_around_def by blast
qed

lemma fixed_around_less:
  "-1 < fixed_around hx c i" "length (hex_links hx i) \<le> 6 \<Longrightarrow> fixed_around hx c i < 7"
  using fixed_around_bounds [of hx c i] by linarith+

lemma max_neighbors_fair: "fair_choice c (next_cell_max_neighbors hx c)"
  unfolding next_cell_max_neighbors_def
  by (rule fold_best [where better = "\<lambda>i m. \<not> already_done c i \<and> m < fixed_around hx c i" and good = "\<lambda>_. True"
        and rank = "\<lambda>i. fixed_around hx c i" and ok = "\<lambda>i. \<not> already_done c i" and cand = "\<lambda>i. \<not> already_done c i"])
    (auto simp: already_done_def Let_def fixed_around_less)

lemma min_neighbors_fair:
  assumes "\<And>i. i < length c \<Longrightarrow> length (hex_links hx i) \<le> 6"
  shows "fair_choice c (next_cell_min_neighbors hx c)"
  unfolding next_cell_min_neighbors_def
  by (rule fold_best [where better = "\<lambda>i m. \<not> already_done c i \<and> fixed_around hx c i < m" and good = "\<lambda>_. True"
        and rank = "\<lambda>i. fixed_around hx c i" and ok = "\<lambda>i. \<not> already_done c i" and cand = "\<lambda>i. \<not> already_done c i"])
    (auto simp: already_done_def Let_def fixed_around_less assms)

text \<open>\<open>HIGHEST_VALUE_STRATEGY\<close> raises exactly when a cell has no value left.\<close>

lemma py_max_ok: "xs \<noteq> [] \<Longrightarrow> \<exists>m. py_max xs = Inr m"
  by (cases xs) auto

lemma two_values_rest:
  assumes "wf_cells c" and "i < length c" and "c ! i \<noteq> []" and "\<not> already_done c i"
  shows "filter (\<lambda>k. k \<noteq> EMPTY) (c ! i) \<noteq> []"
proof
  assume "filter (\<lambda>k. k \<noteq> EMPTY) (c ! i) = []"
  then have "set (c ! i) \<subseteq> {EMPTY}" by (auto simp: filter_empty_conv)
  then have "length (c ! i) \<le> 1"
    using wf_cells_nth [OF assms(1,2)] card_mono [of "{EMPTY}" "set (c ! i)"] by (simp add: distinct_card)
  with assms(3,4) show False by (cases "c ! i") (auto simp: already_done_def)
qed

lemma highest_value_raises:
  assumes "i < length c" and "c ! i = []"
  shows "next_cell_highest_value c = Inl ValueError"
proof -
  show ?thesis
    unfolding next_cell_highest_value_def
  proof (subst for_each_raises [of i _ _ ValueError])
    fix j and u :: "int \<times> int"
    show "(\<lambda>(maxval, maxi). if \<not> already_done c j
          then rbind (py_max (filter (\<lambda>k. k \<noteq> EMPTY) (c ! j)))
            (\<lambda>maxvali. Inr (if maxval < int maxvali then (int maxvali, int j) else (maxval, maxi)))
          else Inr (maxval, maxi)) u = Inl ValueError \<or>
        (\<exists>u'. (\<lambda>(maxval, maxi). if \<not> already_done c j
          then rbind (py_max (filter (\<lambda>k. k \<noteq> EMPTY) (c ! j)))
            (\<lambda>maxvali. Inr (if maxval < int maxvali then (int maxvali, int j) else (maxval, maxi)))
          else Inr (maxval, maxi)) u = Inr u')"
      by (cases u; cases "filter (\<lambda>k. k \<noteq> EMPTY) (c ! j)") auto
  qed (use assms in \<open>auto simp: already_done_def\<close>)
qed

lemma highest_value_fair:
  assumes "wf_cells c" and "[] \<notin> set c"
  shows "\<exists>b. next_cell_highest_value c = Inr b \<and> fair_choice c b"
proof -
  define rank where "rank i = (case py_max (filter (\<lambda>k. k \<noteq> EMPTY) (c ! i)) of Inl e \<Rightarrow> 0 | Inr m \<Rightarrow> int m)" for i
  define g where "g = (\<lambda>i (m, b). if \<not> already_done c i \<and> m < rank i then (rank i, int i) else (m :: int, b :: int))"
  have pm: "\<exists>m. py_max (filter (\<lambda>k. k \<noteq> EMPTY) (c ! i)) = Inr m" if "i < length c" "\<not> already_done c i" for i
    using two_values_rest [OF assms(1) that(1) _ that(2)] assms(2) that(1) by (intro py_max_ok) (metis nth_mem)
  have "next_cell_highest_value c = Inr (snd (fold g [0..<length c] (-1, -1)))"
    unfolding next_cell_highest_value_def
    by (subst for_each_total [where P = "\<lambda>_. True" and g = g, THEN conjunct1])
      (use pm in \<open>force simp: g_def rank_def split_def\<close>)+
  moreover have "fair_choice c (snd (fold g [0..<length c] (-1, -1)))"
    by (rule fold_best [where better = "\<lambda>i m. \<not> already_done c i \<and> m < rank i" and good = "\<lambda>_. True"
        and rank = rank and ok = "\<lambda>i. \<not> already_done c i" and cand = "\<lambda>i. \<not> already_done c i"])
      (auto simp: already_done_def g_def rank_def split: sum.splits)
  ultimately show ?thesis by blast
qed

lemma next_cell_fair:
  assumes "wf_cells c" and "\<And>i. i < length c \<Longrightarrow> length (hex_links hx i) \<le> 6"
    and "strategy \<in> {0..5}" and "strategy = HIGHEST_VALUE_STRATEGY \<longrightarrow> [] \<notin> set c"
  shows "\<exists>b. next_cell hx c strategy = Inr b \<and> fair_choice c b"
proof -
  have "strategy = 0 \<or> strategy = 1 \<or> strategy = 2 \<or> strategy = 3 \<or> strategy = 4 \<or> strategy = 5"
    using assms(3) by auto
  then show ?thesis
    using highest_value_fair [OF assms(1)] min_choice_fair [OF assms(1)] max_choice_fair [of c] first_fair [of c]
      max_neighbors_fair [of c hx] min_neighbors_fair [OF assms(2)] assms(4)
    unfolding next_cell_def strategy_defs by auto
qed

end
