(* ===== verification/HexSolver.thy ===== *)
theory HexSolver
  imports HexCells
begin

text \<open>
  The search of \<^verbatim>\<open>own/hexiom2.py\<close>: \<open>constraint_pass\<close>, \<open>find_moves\<close>, \<open>solved\<close> and
  \<open>solve_step\<close>. A position is the board, the tiles (how many of each value there are) and the
  cells; only the cells change during the search, and \<open>clone\<close> makes them a value of their own.
\<close>

section \<open>One pass of the constraints\<close>

text \<open>\<open>vmin\<close> and \<open>vmax\<close>: how many neighbours are known to be filled, and how many can be.\<close>

definition around :: "hex \<Rightarrow> cells \<Rightarrow> nat \<Rightarrow> nat \<times> nat" where
  "around hx c i = fold (\<lambda>nid (vmin, vmax).
     if already_done c nid then (if c ! nid ! 0 \<noteq> EMPTY then (vmin + 1, vmax + 1) else (vmin, vmax))
     else (vmin, vmax + 1)) (hex_links hx i) (0, 0)"

definition limit_cell :: "hex \<Rightarrow> nat \<Rightarrow> bool \<times> cells \<Rightarrow> bool \<times> cells" where
  "limit_cell hx i s =
     (if \<not> already_done (snd s) i then
        let (vmin, vmax) = around hx (snd s) i in
        fold (\<lambda>num s. if num < vmin \<or> num > vmax then remove_ch i num s else s) [0..<7] s
      else s)"

definition count_left :: "int list \<Rightarrow> cells \<Rightarrow> int list result" where
  "count_left tiles c = for_each c (\<lambda>cell left.
     if length cell = 1
     then rbind (lget left (cell ! 0)) (\<lambda>l. lset left (cell ! 0) (l - 1))
     else Inr left) tiles"

definition fill_value :: "nat \<Rightarrow> bool \<times> cells \<Rightarrow> bool \<times> cells" where
  "fill_value v s = fold (\<lambda>i (changed, c).
     if \<not> already_done c i \<and> v \<in> set (c ! i) then (True, set_done i v c) else (changed, c))
     [0..<length (snd s)] s"

definition limit_value :: "int list \<Rightarrow> int list \<Rightarrow> nat \<Rightarrow> bool \<times> cells \<Rightarrow> (bool \<times> cells) result" where
  "limit_value tiles left v = (\<lambda>(changed, c).
     rbind (lget tiles v) (\<lambda>t. rbind (lget left v) (\<lambda>l.
     Inr (if t > 0 \<and> l = 0 then (let (r, c) = remove_unfixed v c in (changed \<or> r, c))
          else let possible = sum_list (map (\<lambda>cell. if v \<in> set cell then 1 else 0) c) in
            if t = possible then fill_value v (changed, c) else (changed, c)))))"

definition look_around :: "hex \<Rightarrow> cells \<Rightarrow> nat \<Rightarrow> nat \<times> nat \<times> nat list" where
  "look_around hx c i = fold (\<lambda>nid (empties, filled, unknown).
     if already_done c nid then
       (if c ! nid ! 0 = EMPTY then (empties + 1, filled, unknown) else (empties, filled + 1, unknown))
     else (empties, filled, unknown @ [nid])) (hex_links hx i) (0, 0, [])"

definition force_empty :: "nat list \<Rightarrow> bool \<times> cells \<Rightarrow> bool \<times> cells" where
  "force_empty = fold (\<lambda>u (changed, c).
     if EMPTY \<in> set (c ! u) then (True, set_done u EMPTY c) else (changed, c))"

definition force_around :: "hex \<Rightarrow> nat \<Rightarrow> bool \<times> cells \<Rightarrow> bool \<times> cells" where
  "force_around hx i s =
     (if already_done (snd s) i then
        let num = snd s ! i ! 0; (empties, filled, unknown) = look_around hx (snd s) i in
        if length unknown > 0 then
          if num = filled then force_empty unknown s
          else if num = filled + length unknown then fold (\<lambda>u. remove_ch u EMPTY) unknown s
          else s
        else s
      else s)"

definition constraint_pass :: "hex \<Rightarrow> int list \<Rightarrow> nat option \<Rightarrow> cells \<Rightarrow> (bool \<times> cells) result" where
  "constraint_pass hx tiles last_move c =
     (let free_cells = (case last_move of None \<Rightarrow> [0..<length c] | Some m \<Rightarrow> hex_links hx m);
          s = fold (limit_cell hx) free_cells (False, c) in
      rbind (count_left tiles (snd s)) (\<lambda>left.
      rbind (for_each [0..<8] (limit_value tiles left) s) (\<lambda>s.
      let filled_cells = (case last_move of None \<Rightarrow> [0..<length c] | Some m \<Rightarrow> [m]) in
      Inr (fold (force_around hx) filled_cells s))))"

text \<open>
  \<open>while constraint_pass(pos, ...): pass\<close>. Every pass that changes something removes at least
  one value of one cell, so \<open>weight\<close> passes and one more are enough.
\<close>

definition weight :: "cells \<Rightarrow> nat" where
  "weight c = sum_list (map length c)"

fun repeat_pass :: "nat \<Rightarrow> hex \<Rightarrow> int list \<Rightarrow> nat option \<Rightarrow> cells \<Rightarrow> cells result" where
  "repeat_pass 0 hx tiles last_move c = Inl OutOfFuel"
| "repeat_pass (Suc fuel) hx tiles last_move c =
     rbind (constraint_pass hx tiles last_move c) (\<lambda>(changed, c).
       if changed then repeat_pass fuel hx tiles last_move c else Inr c)"

definition run_passes :: "hex \<Rightarrow> int list \<Rightarrow> nat option \<Rightarrow> cells \<Rightarrow> cells result" where
  "run_passes hx tiles last_move c = repeat_pass (Suc (weight c)) hx tiles last_move c"

section \<open>Moves\<close>

definition ASCENDING :: int where "ASCENDING = 1"
definition DESCENDING :: int where "DESCENDING = -1"

definition find_moves :: "hex \<Rightarrow> cells \<Rightarrow> int \<Rightarrow> int \<Rightarrow> (nat \<times> nat) list result" where
  "find_moves hx c strategy order =
     rbind (next_cell hx c strategy) (\<lambda>cell_id.
       if cell_id < 0 then Inr []
       else let cell = c ! nat cell_id in
         if order = ASCENDING then Inr (map (\<lambda>v. (nat cell_id, v)) cell)
         else Inr (rev (map (\<lambda>v. (nat cell_id, v)) (filter (\<lambda>v. v \<noteq> EMPTY) cell)) @
                (if EMPTY \<in> set cell then [(nat cell_id, EMPTY)] else [])))"

definition play_move :: "cells \<Rightarrow> nat \<times> nat \<Rightarrow> cells" where
  "play_move c = (\<lambda>(cell_id, i). set_done cell_id i c)"

section \<open>Printing and judging a position\<close>

definition cell_text :: "cells \<Rightarrow> nat \<Rightarrow> string" where
  "cell_text c i =
     (if already_done c i then (if c ! i ! 0 \<noteq> EMPTY then nat_str (c ! i ! 0) else ''.'') else ''?'')"

definition print_row :: "hex \<Rightarrow> cells \<Rightarrow> int \<Rightarrow> int list \<Rightarrow> int \<Rightarrow> string \<Rightarrow> string result" where
  "print_row hx c indent xs y out =
     rbind (for_each xs (\<lambda>x out.
       rbind (id_by_pos hx (x, y)) (\<lambda>id. Inr (out @ cell_text c id @ '' '')))
       (out @ replicate (nat indent) CHR '' '')) (\<lambda>out. Inr (out @ [CHR 0x0A]))"

definition print_pos :: "hex \<Rightarrow> cells \<Rightarrow> string result" where
  "print_pos hx c =
     (let sz = hx_size hx in
      rbind (for_each [0..sz - 1] (\<lambda>y. print_row hx c (sz - y - 1) [0..sz + y - 1] y) []) (\<lambda>out.
      for_each [1..sz - 1] (\<lambda>y. print_row hx c y [y..sz * 2 - 1 - 1] (sz + y - 1)) out))"

datatype status = OPEN | SOLVED | IMPOSSIBLE

text \<open>The loop of \<open>solved\<close>: \<open>None\<close> is its early return of \<open>IMPOSSIBLE\<close>.\<close>

fun solved_loop :: "hex \<Rightarrow> cells \<Rightarrow> nat list \<Rightarrow> int list \<Rightarrow> bool \<Rightarrow> bool \<Rightarrow> (bool \<times> bool) option result" where
  "solved_loop hx c [] tiles exact all_done = Inr (Some (exact, all_done))"
| "solved_loop hx c (i # is') tiles exact all_done =
     (if length (c ! i) = 0 then Inr None
      else if already_done c i then
        let num = c ! i ! 0 in
        rbind (lget tiles num) (\<lambda>t. rbind (lset tiles num (t - 1)) (\<lambda>tiles.
        if t - 1 < 0 then Inr None
        else if num \<noteq> EMPTY then
          let (vmin, vmax) = around hx c i in
          if num < vmin \<or> num > vmax then Inr None
          else solved_loop hx c is' tiles (if num \<noteq> vmin then False else exact) all_done
        else solved_loop hx c is' tiles exact all_done))
      else solved_loop hx c is' tiles exact False)"

text \<open>The status, and what is printed.\<close>

definition solved :: "hex \<Rightarrow> int list \<Rightarrow> cells \<Rightarrow> (status \<times> string) result" where
  "solved hx tiles c =
     rbind (solved_loop hx c [0..<nat (hx_count hx)] tiles True True) (\<lambda>r. case r of
         None \<Rightarrow> Inr (IMPOSSIBLE, [])
       | Some (exact, all_done) \<Rightarrow>
           if \<not> all_done \<or> \<not> exact then Inr (OPEN, [])
           else rbind (print_pos hx c) (\<lambda>out. Inr (SOLVED, out)))"

section \<open>The search\<close>

text \<open>
  The loop over the moves; \<open>step\<close> is the recursive call. The fuel of \<open>solve_step\<close> is the depth
  of the recursion, which every move reduces by at least one value.
\<close>

fun try_moves :: "(cells \<Rightarrow> (status \<times> string) result) \<Rightarrow> hex \<Rightarrow> int list \<Rightarrow> cells \<Rightarrow>
    (nat \<times> nat) list \<Rightarrow> (status \<times> string) result" where
  "try_moves step hx tiles c [] = Inr (IMPOSSIBLE, [])"
| "try_moves step hx tiles c (move # moves) =
     rbind (run_passes hx tiles (Some (fst move)) (play_move c move)) (\<lambda>new_pos.
     rbind (solved hx tiles new_pos) (\<lambda>(cur_status, out).
     rbind (if cur_status \<noteq> OPEN then Inr (cur_status, out) else step new_pos) (\<lambda>(ret, out).
     if ret = SOLVED then Inr (SOLVED, out) else try_moves step hx tiles c moves)))"

fun solve_step :: "nat \<Rightarrow> hex \<Rightarrow> int list \<Rightarrow> int \<Rightarrow> int \<Rightarrow> bool \<Rightarrow> cells \<Rightarrow> (status \<times> string) result" where
  "solve_step 0 hx tiles strategy order first prev = Inl OutOfFuel"
| "solve_step (Suc fuel) hx tiles strategy order first prev =
     rbind (if first then run_passes hx tiles None prev else Inr prev) (\<lambda>pos.
     rbind (find_moves hx pos strategy order) (\<lambda>moves.
       if length moves = 0 then solved hx tiles pos
       else try_moves (solve_step fuel hx tiles strategy order False) hx tiles pos moves))"

definition check_valid :: "hex \<Rightarrow> int list \<Rightarrow> int list result" where
  "check_valid hx tiles =
     rbind (for_each [0..<8] (\<lambda>i (tot, tiles).
       rbind (lget tiles i) (\<lambda>t.
       if t > 0 then Inr (tot + t, tiles)
       else rbind (lset tiles i 0) (\<lambda>tiles. Inr (tot, tiles)))) (0, tiles)) (\<lambda>(tot, tiles).
     if tot \<noteq> hx_count hx then
       Inl (UserException (''Invalid input. Expected '' @ py_str (hx_count hx) @ '' tiles, got '' @
         py_str tot @ ''.''))
     else Inr tiles)"

definition solve :: "hex \<Rightarrow> int list \<Rightarrow> int \<Rightarrow> int \<Rightarrow> cells \<Rightarrow> (status \<times> string) result" where
  "solve hx tiles strategy order c =
     rbind (check_valid hx tiles) (\<lambda>tiles.
     solve_step (Suc (weight c)) hx tiles strategy order True c)"

section \<open>Solutions\<close>

text \<open>
  What the puzzle asks for: an assignment of values to the cells that uses every tile, and in
  which every number is the number of its filled neighbours. \<open>agrees f c\<close>: the assignment takes
  one of the values that \<open>c\<close> still allows in every cell.
\<close>

definition filled_around :: "hex \<Rightarrow> nat list \<Rightarrow> nat \<Rightarrow> nat" where
  "filled_around hx f i = length (filter (\<lambda>j. f ! j \<noteq> EMPTY) (hex_links hx i))"

definition solution :: "hex \<Rightarrow> int list \<Rightarrow> nat list \<Rightarrow> bool" where
  "solution hx tiles f \<longleftrightarrow> (\<forall>v < 8. int (count_list f v) = tiles ! v) \<and>
     (\<forall>i < length f. f ! i \<noteq> EMPTY \<longrightarrow> f ! i = filled_around hx f i)"

definition agrees :: "nat list \<Rightarrow> cells \<Rightarrow> bool" where
  "agrees f c \<longleftrightarrow> list_all2 (\<lambda>v cell. v \<in> set cell) f c"

end
