(* ===== verification/HexNarrow.thy ===== *)
theory HexNarrow
  imports HexSolver
begin

text \<open>
  What a pass of the constraints does to a position. \<open>refines\<close> relates the state before and after
  a step: the cells only narrow, fixed cells stay as they are, the flag is only raised when a
  value went away, and no solution is lost. It is a preorder, so it lifts to the loops, and
  every loop of \<open>constraint_pass\<close> is shown to be made of such steps.
\<close>

section \<open>Refinement of positions\<close>

definition narrows :: "cells \<Rightarrow> cells \<Rightarrow> bool" where
  "narrows c c' \<longleftrightarrow> length c' = length c \<and> (\<forall>i < length c.
     set (c' ! i) \<subseteq> set (c ! i) \<and> length (c' ! i) \<le> length (c ! i) \<and>
     (distinct (c ! i) \<longrightarrow> distinct (c' ! i)) \<and> (length (c ! i) = 1 \<longrightarrow> c' ! i = c ! i))"

definition refines :: "hex \<Rightarrow> int list \<Rightarrow> bool \<times> cells \<Rightarrow> bool \<times> cells \<Rightarrow> bool" where
  "refines hx tiles s s' \<longleftrightarrow> narrows (snd s) (snd s') \<and>
     (fst s' \<longrightarrow> fst s \<or> weight (snd s') < weight (snd s)) \<and>
     (\<forall>f. solution hx tiles f \<longrightarrow> agrees f (snd s) \<longrightarrow> agrees f (snd s'))"

lemma agrees_nth: "agrees f c \<longleftrightarrow> length f = length c \<and> (\<forall>i < length c. f ! i \<in> set (c ! i))"
  by (auto simp: agrees_def list_all2_conv_all_nth)

lemma agrees_done: "agrees f c \<Longrightarrow> i < length c \<Longrightarrow> length (c ! i) = 1 \<Longrightarrow> c ! i = [f ! i]"
  by (cases "c ! i") (auto simp: agrees_nth)

lemma narrows_refl [simp]: "narrows c c"
  by (simp add: narrows_def)

lemma narrows_trans: "narrows a b \<Longrightarrow> narrows b c \<Longrightarrow> narrows a c"
  unfolding narrows_def by (metis (no_types, lifting) dual_order.trans)

lemma narrows_length: "narrows c c' \<Longrightarrow> length c' = length c"
  by (simp add: narrows_def)

lemma narrows_agrees: "narrows c c' \<Longrightarrow> agrees f c' \<Longrightarrow> agrees f c"
  by (auto simp: narrows_def agrees_nth)

lemma narrows_wf: "narrows c c' \<Longrightarrow> wf_cells c \<Longrightarrow> wf_cells c'"
  unfolding wf_cells_def narrows_def all_set_conv_all_nth by (metis (no_types, lifting) subset_trans)

lemma weight_nth: "weight c = (\<Sum>i < length c. length (c ! i))"
  by (simp add: weight_def sum_list_sum_nth atLeast0LessThan)

lemma narrows_weight: "narrows c c' \<Longrightarrow> weight c' \<le> weight c"
  unfolding weight_nth by (auto simp: narrows_def intro: sum_mono)

lemma weight_update: "i < length c \<Longrightarrow> weight (c[i := xs]) + length (c ! i) = weight c + length xs"
  unfolding weight_def map_update
  using elem_le_sum_list [of i "map length c"] by (subst sum_list_update) auto

lemma refines_refl [simp]: "refines hx tiles s s"
  by (simp add: refines_def)

lemma refines_trans [trans]: "refines hx tiles a b \<Longrightarrow> refines hx tiles b c \<Longrightarrow> refines hx tiles a c"
  using narrows_trans [of "snd a" "snd b" "snd c"] narrows_weight [of "snd a" "snd b"]
    narrows_weight [of "snd b" "snd c"]
  unfolding refines_def by auto

lemma refines_fold:
  assumes "\<And>x u. x \<in> set xs \<Longrightarrow> refines hx tiles s u \<Longrightarrow> refines hx tiles u (f x u)"
  shows "refines hx tiles s (fold f xs s)"
proof (rule fold_invariant [where Q = "\<lambda>x. x \<in> set xs"])
  show "refines hx tiles s s" by simp
  show "refines hx tiles s (f x u)" if "x \<in> set xs" "refines hx tiles s u" for x u
    using refines_trans assms that by blast
qed

text \<open>Overwriting one open cell.\<close>

lemma refines_update:
  assumes "i < length c" and "set xs \<subseteq> set (c ! i)" and "length xs \<le> length (c ! i)"
    and "distinct (c ! i) \<longrightarrow> distinct xs" and "length (c ! i) \<noteq> 1"
    and "ch' \<longrightarrow> ch \<or> length xs < length (c ! i)"
    and "\<And>f. solution hx tiles f \<Longrightarrow> agrees f c \<Longrightarrow> f ! i \<in> set xs"
  shows "refines hx tiles (ch, c) (ch', c[i := xs])"
  using assms weight_update [OF assms(1), of xs]
  by (auto simp: refines_def narrows_def agrees_nth nth_list_update)

text \<open>A loop over distinct cells, each turn of which overwrites its own cell only.\<close>

lemma refines_cells:
  assumes "distinct us"
    and "\<And>u ch' c'. u \<in> set us \<Longrightarrow> refines hx tiles (ch, c) (ch', c') \<Longrightarrow> c' ! u = c ! u \<Longrightarrow>
      \<exists>ch'' xs. g u (ch', c') = (ch'', c'[u := xs]) \<and> refines hx tiles (ch', c') (ch'', c'[u := xs])"
  shows "refines hx tiles (ch, c) (fold g us (ch, c))"
proof -
  have "refines hx tiles (ch, c) (fold g vs (ch', c'))"
    if "distinct vs" "set vs \<subseteq> set us" "refines hx tiles (ch, c) (ch', c')" "\<forall>v \<in> set vs. c' ! v = c ! v"
    for vs ch' c'
    using that
  proof (induction vs arbitrary: ch' c')
    case Nil
    then show ?case by simp
  next
    case (Cons v vs)
    obtain ch'' xs where g: "g v (ch', c') = (ch'', c'[v := xs])" "refines hx tiles (ch', c') (ch'', c'[v := xs])"
      using assms(2) [of v ch' c'] Cons.prems by auto
    have "refines hx tiles (ch, c) (fold g vs (ch'', c'[v := xs]))"
    proof (rule Cons.IH)
      show "\<forall>w \<in> set vs. c'[v := xs] ! w = c ! w"
        using Cons.prems(1,4) by (metis distinct.simps(2) list.set_intros(2) nth_list_update_neq)
    qed (use Cons.prems refines_trans g(2) in auto)
    with g(1) show ?case by simp
  qed
  with assms(1) show ?thesis by simp
qed

text \<open>Removing several values from one cell.\<close>

lemma remove_ch_fold:
  assumes "i < length c"
  shows "\<exists>ch' xs. fold (\<lambda>num s. if P num then remove_ch i num s else s) nums (ch, c) = (ch', c[i := xs]) \<and>
    set xs \<subseteq> set (c ! i) \<and> length xs \<le> length (c ! i) \<and> (distinct (c ! i) \<longrightarrow> distinct xs) \<and>
    (ch' \<longrightarrow> ch \<or> length xs < length (c ! i)) \<and>
    (\<forall>v \<in> set (c ! i). (\<forall>num \<in> set nums. P num \<longrightarrow> num \<noteq> v) \<longrightarrow> v \<in> set xs)"
  using assms
proof (induction nums arbitrary: ch c)
  case Nil
  then show ?case by (auto intro!: exI [of _ "c ! i"])
next
  case (Cons m nums)
  show ?case
  proof (cases "P m \<and> m \<in> set (c ! i)")
    case True
    let ?c = "c[i := remove1 m (c ! i)]"
    have i: "i < length ?c" using Cons.prems by simp
    obtain ch' xs where *: "fold (\<lambda>num s. if P num then remove_ch i num s else s) nums (True, ?c) = (ch', ?c[i := xs])"
      "set xs \<subseteq> set (?c ! i)" "length xs \<le> length (?c ! i)" "distinct (?c ! i) \<longrightarrow> distinct xs"
      "\<forall>v \<in> set (?c ! i). (\<forall>num \<in> set nums. P num \<longrightarrow> num \<noteq> v) \<longrightarrow> v \<in> set xs"
      using Cons.IH [OF i, of True] by auto
    have less: "length (remove1 m (c ! i)) < length (c ! i)"
      using True using length_pos_if_in_set [of m "c ! i"] by (simp add: length_remove1)
    have ci: "?c ! i = remove1 m (c ! i)" using Cons.prems by simp
    show ?thesis
    proof (intro exI conjI)
      show "fold (\<lambda>num s. if P num then remove_ch i num s else s) (m # nums) (ch, c) = (ch', c[i := xs])"
        using True * by (simp add: remove_ch_def remove_def)
      show "set xs \<subseteq> set (c ! i)" using *(2) ci set_remove1_subset [of m "c ! i"] by auto
      show "length xs \<le> length (c ! i)" "ch' \<longrightarrow> ch \<or> length xs < length (c ! i)" using *(3) ci less by auto
      show "distinct (c ! i) \<longrightarrow> distinct xs" using *(4) ci by (auto simp: distinct_remove1)
      show "\<forall>v \<in> set (c ! i). (\<forall>num \<in> set (m # nums). P num \<longrightarrow> num \<noteq> v) \<longrightarrow> v \<in> set xs"
        using *(5) ci True by (auto simp: in_set_remove1)
    qed
  next
    case False
    then have "fold (\<lambda>num s. if P num then remove_ch i num s else s) (m # nums) (ch, c) =
        fold (\<lambda>num s. if P num then remove_ch i num s else s) nums (ch, c)"
      by (auto simp: remove_ch_def remove_def)
    note eq = this
    obtain ch' xs where "fold (\<lambda>num s. if P num then remove_ch i num s else s) nums (ch, c) = (ch', c[i := xs])"
      "set xs \<subseteq> set (c ! i)" "length xs \<le> length (c ! i)" "distinct (c ! i) \<longrightarrow> distinct xs"
      "ch' \<longrightarrow> ch \<or> length xs < length (c ! i)"
      "\<forall>v \<in> set (c ! i). (\<forall>num \<in> set nums. P num \<longrightarrow> num \<noteq> v) \<longrightarrow> v \<in> set xs"
      using Cons.IH [OF Cons.prems, of ch] by blast
    then show ?thesis
      unfolding eq by (intro exI [of _ ch'] exI [of _ xs]) (simp only: list.set ball_simps, blast)
  qed
qed

lemma refines_remove:
  assumes "i < length c" and "\<not> already_done c i"
    and "\<And>f num. solution hx tiles f \<Longrightarrow> agrees f c \<Longrightarrow> num \<in> set nums \<Longrightarrow> P num \<Longrightarrow> f ! i \<noteq> num"
  shows "\<exists>ch' xs. fold (\<lambda>num s. if P num then remove_ch i num s else s) nums (ch, c) = (ch', c[i := xs]) \<and>
    refines hx tiles (ch, c) (ch', c[i := xs])"
proof -
  obtain ch' xs where *: "fold (\<lambda>num s. if P num then remove_ch i num s else s) nums (ch, c) = (ch', c[i := xs])"
    "set xs \<subseteq> set (c ! i)" "length xs \<le> length (c ! i)" "distinct (c ! i) \<longrightarrow> distinct xs"
    "ch' \<longrightarrow> ch \<or> length xs < length (c ! i)"
    "\<forall>v \<in> set (c ! i). (\<forall>num \<in> set nums. P num \<longrightarrow> num \<noteq> v) \<longrightarrow> v \<in> set xs"
    using remove_ch_fold [OF assms(1), of P nums ch] by blast
  have "refines hx tiles (ch, c) (ch', c[i := xs])"
  proof (rule refines_update)
    show "f ! i \<in> set xs" if "solution hx tiles f" "agrees f c" for f
      using *(6) assms(1,3) that by (auto simp: agrees_nth)
  qed (use assms(1,2) * in \<open>auto simp: already_done_def\<close>)
  with *(1) show ?thesis by blast
qed

lemma refines_remove_ch:
  assumes "i < length c" and "\<not> already_done c i"
    and "\<And>f. solution hx tiles f \<Longrightarrow> agrees f c \<Longrightarrow> f ! i \<noteq> v"
  shows "\<exists>ch' xs. remove_ch i v (ch, c) = (ch', c[i := xs]) \<and> refines hx tiles (ch, c) (ch', c[i := xs])"
  using refines_remove [OF assms(1,2), of hx tiles "[v]" "\<lambda>_. True" ch] assms(3) by auto

lemma refines_set_done:
  assumes "i < length c" and "\<not> already_done c i" and "v \<in> set (c ! i)"
    and "\<And>f. solution hx tiles f \<Longrightarrow> agrees f c \<Longrightarrow> f ! i = v"
  shows "refines hx tiles (ch, c) (True, c[i := [v]])"
proof (rule refines_update)
  have "length (c ! i) \<noteq> 0" using assms(3) by auto
  with assms(2) have "2 \<le> length (c ! i)" unfolding already_done_def by linarith
  then show "length [v] \<le> length (c ! i)" "True \<longrightarrow> ch \<or> length [v] < length (c ! i)" by simp_all
qed (use assms in \<open>auto simp: already_done_def\<close>)

end
