(* ===== verification/HexPass.thy ===== *)
theory HexPass
  imports HexNarrow
begin

text \<open>
  \<open>constraint_pass\<close> keeps every solution and its loop ends. The locale \<open>hex_links_ok\<close> holds what
  the pass relies on in the board: the links of a cell are distinct cells, at most six.
\<close>

locale hex_links_ok =
  fixes hx :: hex and n :: nat
  assumes links_lt: "i < n \<Longrightarrow> j \<in> set (hex_links hx i) \<Longrightarrow> j < n"
    and links_distinct: "i < n \<Longrightarrow> distinct (hex_links hx i)"
    and links_six: "i < n \<Longrightarrow> length (hex_links hx i) \<le> 6"

section \<open>Neighbours\<close>

text \<open>What \<open>around\<close> and \<open>look_around\<close> compute, as filters of the links.\<close>

lemma around_filter:
  "around hx c i =
    (length (filter (\<lambda>j. already_done c j \<and> c ! j ! 0 \<noteq> EMPTY) (hex_links hx i)),
     length (filter (\<lambda>j. already_done c j \<longrightarrow> c ! j ! 0 \<noteq> EMPTY) (hex_links hx i)))"
proof -
  have "fold (\<lambda>nid (vmin, vmax).
     if already_done c nid then (if c ! nid ! 0 \<noteq> EMPTY then (vmin + 1, vmax + 1) else (vmin, vmax))
     else (vmin, vmax + 1)) js (a, b) =
    (a + length (filter (\<lambda>j. already_done c j \<and> c ! j ! 0 \<noteq> EMPTY) js),
     b + length (filter (\<lambda>j. already_done c j \<longrightarrow> c ! j ! 0 \<noteq> EMPTY) js))" for js a b
    by (induction js arbitrary: a b) auto
  from this [of "hex_links hx i" 0 0] show ?thesis by (simp add: around_def)
qed

lemma look_around_filter:
  "look_around hx c i =
    (length (filter (\<lambda>j. already_done c j \<and> c ! j ! 0 = EMPTY) (hex_links hx i)),
     length (filter (\<lambda>j. already_done c j \<and> c ! j ! 0 \<noteq> EMPTY) (hex_links hx i)),
     filter (\<lambda>j. \<not> already_done c j) (hex_links hx i))"
proof -
  have "fold (\<lambda>nid (empties, filled, unknown).
     if already_done c nid then
       (if c ! nid ! 0 = EMPTY then (empties + 1, filled, unknown) else (empties, filled + 1, unknown))
     else (empties, filled, unknown @ [nid])) js (a, b, us) =
    (a + length (filter (\<lambda>j. already_done c j \<and> c ! j ! 0 = EMPTY) js),
     b + length (filter (\<lambda>j. already_done c j \<and> c ! j ! 0 \<noteq> EMPTY) js),
     us @ filter (\<lambda>j. \<not> already_done c j) js)" for js and a b :: nat and us
    by (induction js arbitrary: a b us) auto
  from this [of "hex_links hx i" 0 0 "[]"] show ?thesis by (simp add: look_around_def)
qed

lemma length_filter_mono: "(\<And>x. x \<in> set xs \<Longrightarrow> P x \<Longrightarrow> Q x) \<Longrightarrow> length (filter P xs) \<le> length (filter Q xs)"
  by (induction xs) auto

lemma length_filter_all: "length (filter P xs) = length xs \<Longrightarrow> x \<in> set xs \<Longrightarrow> P x"
  using length_filter_less [of x xs P] by auto

context hex_links_ok
begin

lemma filled_bounds:
  assumes "agrees f c" and "length c = n" and "i < n"
  shows "fst (around hx c i) \<le> filled_around hx f i" and "filled_around hx f i \<le> snd (around hx c i)"
proof -
  have *: "already_done c j \<Longrightarrow> c ! j ! 0 = f ! j" if "j \<in> set (hex_links hx i)" for j
    using agrees_done [OF assms(1), of j] links_lt [OF assms(3) that] assms(2)
    by (simp add: already_done_def)
  show "fst (around hx c i) \<le> filled_around hx f i"
    unfolding around_filter filled_around_def fst_conv by (rule length_filter_mono) (auto simp: *)
  show "filled_around hx f i \<le> snd (around hx c i)"
    unfolding around_filter filled_around_def snd_conv by (rule length_filter_mono) (auto simp: *)
qed

lemma limit_cell_refines:
  assumes "length (snd s) = n" and "i < n"
  shows "refines hx tiles s (limit_cell hx i s)"
proof (cases "already_done (snd s) i")
  case True
  then show ?thesis by (simp add: limit_cell_def)
next
  case False
  obtain ch c where s: "s = (ch, c)" by (cases s)
  obtain vmin vmax where a: "around hx c i = (vmin, vmax)" by (cases "around hx c i")
  have "\<exists>ch' xs. fold (\<lambda>num s. if num < vmin \<or> num > vmax then remove_ch i num s else s) [0..<7] (ch, c) = (ch', c[i := xs]) \<and>
    refines hx tiles (ch, c) (ch', c[i := xs])"
  proof (rule refines_remove)
    fix f num assume f: "solution hx tiles f" "agrees f c" and "num \<in> set [0..<7]" "num < vmin \<or> num > vmax"
    then show "f ! i \<noteq> num"
      using filled_bounds [OF f(2) _ assms(2)] assms s a by (auto simp: solution_def agrees_nth EMPTY_def)
  qed (use assms False s in auto)
  then show ?thesis using False s a by (auto simp: limit_cell_def)
qed

lemma force_around_refines:
  assumes "length (snd s) = n" and "i < n"
  shows "refines hx tiles s (force_around hx i s)"
proof (cases "already_done (snd s) i")
  case False
  then show ?thesis by (simp add: force_around_def)
next
  case True
  obtain ch c where s: "s = (ch, c)" by (cases s)
  let ?fl = "length (filter (\<lambda>j. already_done c j \<and> c ! j ! 0 \<noteq> EMPTY) (hex_links hx i))"
  let ?us = "filter (\<lambda>j. \<not> already_done c j) (hex_links hx i)"
  have us: "distinct ?us" "\<And>u. u \<in> set ?us \<Longrightarrow> u < length c \<and> \<not> already_done c u"
    using links_distinct [OF assms(2)] links_lt [OF assms(2)] assms(1) s by auto
  have sum: "filled_around hx f i = ?fl + length (filter (\<lambda>u. f ! u \<noteq> EMPTY) ?us)" if "agrees f c" for f
  proof -
    have *: "length (filter P js) = length (filter (\<lambda>j. D j \<and> P j) js) + length (filter P (filter (\<lambda>j. \<not> D j) js))"
      for P D and js :: "nat list" by (induction js) auto
    have d: "already_done c j \<Longrightarrow> c ! j ! 0 = f ! j" if "j \<in> set (hex_links hx i)" for j
      using agrees_done [OF \<open>agrees f c\<close>, of j] links_lt [OF assms(2) that] assms(1) s
      by (simp add: already_done_def)
    have "filter (\<lambda>j. already_done c j \<and> c ! j ! 0 \<noteq> EMPTY) (hex_links hx i) =
        filter (\<lambda>j. already_done c j \<and> f ! j \<noteq> EMPTY) (hex_links hx i)"
      by (rule filter_cong) (auto simp: d)
    then show ?thesis
      unfolding filled_around_def by (subst * [where D = "already_done c"]) simp
  qed
  have six: "?fl + length ?us \<le> 6"
  proof -
    have "length (filter (\<lambda>j. already_done c j \<and> c ! j ! 0 \<noteq> EMPTY) js) + length (filter (\<lambda>j. \<not> already_done c j) js)
        \<le> length js" for js by (induction js) auto
    then have "?fl + length ?us \<le> length (hex_links hx i)" .
    then show ?thesis using links_six [OF assms(2)] by linarith
  qed
  have val: "c ! i ! 0 = f ! i" if "agrees f c" for f
    using agrees_done [OF that, of i] True assms s by (simp add: already_done_def)
  have "refines hx tiles (ch, c) (force_empty ?us (ch, c))" if num: "c ! i ! 0 = ?fl"
    unfolding force_empty_def
  proof (rule refines_cells [OF us(1)])
    fix u ch' c' assume u: "u \<in> set ?us" and r: "refines hx tiles (ch, c) (ch', c')" and cu: "c' ! u = c ! u"
    have n': "narrows c c'" using r by (simp add: refines_def)
    show "\<exists>ch'' xs. (\<lambda>(changed, c). if EMPTY \<in> set (c ! u) then (True, set_done u EMPTY c) else (changed, c)) (ch', c') =
        (ch'', c'[u := xs]) \<and> refines hx tiles (ch', c') (ch'', c'[u := xs])"
    proof (cases "EMPTY \<in> set (c' ! u)")
      case True
      have "refines hx tiles (ch', c') (True, c'[u := [EMPTY]])"
      proof (rule refines_set_done)
        fix f assume f: "solution hx tiles f" "agrees f c'"
        then have fc: "agrees f c" using narrows_agrees [OF n'] by blast
        have "f ! i \<noteq> EMPTY" using val [OF fc] num six by (auto simp: EMPTY_def)
        then have "f ! i = filled_around hx f i"
          using f fc assms s by (simp add: solution_def agrees_nth)
        then have "filter (\<lambda>u. f ! u \<noteq> EMPTY) ?us = []" using sum [OF fc] val [OF fc] num by simp
        then show "f ! u = EMPTY" using u by (simp add: filter_empty_conv del: filter_filter)
      qed (use True us(2) [OF u] cu narrows_length [OF n'] in \<open>auto simp: already_done_def\<close>)
      then show ?thesis using True by (auto simp: set_done_def)
    qed (auto intro: exI [of _ ch'] exI [of _ "c' ! u"])
  qed
  moreover have "refines hx tiles (ch, c) (fold (\<lambda>u. remove_ch u EMPTY) ?us (ch, c))"
    if num: "c ! i ! 0 = ?fl + length ?us"
  proof (rule refines_cells [OF us(1)])
    fix u ch' c' assume u: "u \<in> set ?us" and r: "refines hx tiles (ch, c) (ch', c')" and cu: "c' ! u = c ! u"
    have n': "narrows c c'" using r by (simp add: refines_def)
    show "\<exists>ch'' xs. remove_ch u EMPTY (ch', c') = (ch'', c'[u := xs]) \<and> refines hx tiles (ch', c') (ch'', c'[u := xs])"
    proof (rule refines_remove_ch)
      fix f assume f: "solution hx tiles f" "agrees f c'"
      then have fc: "agrees f c" using narrows_agrees [OF n'] by blast
      have "f ! i \<noteq> EMPTY" using val [OF fc] num six by (auto simp: EMPTY_def)
      then have "f ! i = filled_around hx f i"
        using f fc assms s by (simp add: solution_def agrees_nth)
      then have "length (filter (\<lambda>u. f ! u \<noteq> EMPTY) ?us) = length ?us" using sum [OF fc] val [OF fc] num by simp
      then show "f ! u \<noteq> EMPTY" using u by (rule length_filter_all)
    qed (use us(2) [OF u] cu narrows_length [OF n'] in \<open>auto simp: already_done_def\<close>)
  qed
  ultimately show ?thesis
    using True unfolding s force_around_def by (auto simp: look_around_filter Let_def)
qed

end

section \<open>Counting values\<close>

lemma count_card: "count_list xs v = card {i. i < length xs \<and> xs ! i = v}"
  by (simp add: count_list_eq_length_filter length_filter_conv_card eq_commute)

lemma count_left_ok:
  assumes "wf_cells c" and "length tiles = 8"
  shows "\<exists>left. count_left tiles c = Inr left \<and> length left = 8 \<and>
    (\<forall>v < 8. left ! v = tiles ! v - int (count_list c [v]))"
proof -
  let ?I = "\<lambda>k left. length left = 8 \<and> (\<forall>v < 8. left ! v = tiles ! v - int (count_list (take k c) [v]))"
  have "\<exists>left. for_each c (\<lambda>cell left. if length cell = 1
     then rbind (lget left (cell ! 0)) (\<lambda>l. lset left (cell ! 0) (l - 1)) else Inr left) tiles = Inr left \<and> ?I (length c) left"
  proof (rule for_each_count)
    show "?I 0 tiles" using assms(2) by simp
  next
    fix k left assume k: "k < length c" and I: "?I k left"
    have t: "take (Suc k) c = take k c @ [c ! k]" using k by (simp add: take_Suc_conv_app_nth)
    show "\<exists>u'. (if length (c ! k) = 1 then rbind (lget left (c ! k ! 0)) (\<lambda>l. lset left (c ! k ! 0) (l - 1))
        else Inr left) = Inr u' \<and> ?I (Suc k) u'"
    proof (cases "length (c ! k) = 1")
      case True
      then obtain w where w: "c ! k = [w]" by (auto simp: length_Suc_conv)
      have "w < 8" using wf_cells_nth [OF assms(1) k] w by auto
      then show ?thesis using I unfolding t w by (auto simp: nth_list_update)
    next
      case False
      then show ?thesis using I unfolding t by auto
    qed
  qed
  then show ?thesis by (simp add: count_left_def)
qed

text \<open>When all tiles of a value are placed, no open cell has it.\<close>

lemma used_up:
  assumes "solution hx tiles f" and "agrees f c" and "v < 8" and "int (count_list c [v]) = tiles ! v"
    and "i < length c" and "length (c ! i) \<noteq> 1"
  shows "f ! i \<noteq> v"
proof
  assume "f ! i = v"
  let ?A = "{i. i < length c \<and> c ! i = [v]}" and ?B = "{i. i < length f \<and> f ! i = v}"
  have len: "length f = length c" using assms(2) by (simp add: agrees_nth)
  have "?A \<subseteq> ?B" using assms(2) by (auto simp: agrees_nth)
  moreover have "i \<in> ?B - ?A" using \<open>f ! i = v\<close> assms(5,6) len by auto
  ultimately have "card ?A < card ?B" by (intro psubset_card_mono) auto
  moreover have "count_list f v = count_list c [v]" using assms(1,3,4) by (auto simp: solution_def)
  ultimately show False unfolding count_card by simp
qed

text \<open>When a value has as many possible cells as tiles, all these cells have it.\<close>

lemma possible_card: "sum_list (map (\<lambda>cell. if v \<in> set cell then 1 else 0) c) =
  int (card {i. i < length c \<and> v \<in> set (c ! i)})"
proof -
  have "sum_list (map (\<lambda>cell. if v \<in> set cell then 1 else 0) c) = int (length (filter (\<lambda>cell. v \<in> set cell) c))"
    by (induction c) auto
  then show ?thesis by (simp add: length_filter_conv_card)
qed

lemma all_needed:
  assumes "solution hx tiles f" and "agrees f c" and "v < 8"
    and "tiles ! v = int (card {i. i < length c \<and> v \<in> set (c ! i)})"
    and "i < length c" and "v \<in> set (c ! i)"
  shows "f ! i = v"
proof -
  let ?A = "{i. i < length c \<and> v \<in> set (c ! i)}" and ?B = "{i. i < length f \<and> f ! i = v}"
  have "?B \<subseteq> ?A" using assms(2) by (auto simp: agrees_nth)
  moreover have "card ?B = card ?A" using assms(1,3,4) by (auto simp: solution_def count_card)
  ultimately have "?B = ?A" by (intro card_subset_eq) auto
  with assms(5,6) show ?thesis by auto
qed

lemma remove_unfixed_refines:
  assumes "\<And>f i. solution hx tiles f \<Longrightarrow> agrees f c \<Longrightarrow> i < length c \<Longrightarrow> length (c ! i) \<noteq> 1 \<Longrightarrow> f ! i \<noteq> v"
  shows "refines hx tiles (False, c) (remove_unfixed v c)"
  unfolding remove_unfixed_def
proof (rule refines_cells)
  fix u ch' c' assume u: "u \<in> set [0..<length c]" and r: "refines hx tiles (False, c) (ch', c')" and cu: "c' ! u = c ! u"
  have n': "narrows c c'" using r by (simp add: refines_def)
  show "\<exists>ch'' xs. (if \<not> already_done (snd (ch', c')) u then remove_ch u v (ch', c') else (ch', c')) =
      (ch'', c'[u := xs]) \<and> refines hx tiles (ch', c') (ch'', c'[u := xs])"
  proof (cases "already_done c' u")
    case True
    then show ?thesis by (auto intro: exI [of _ ch'] exI [of _ "c' ! u"])
  next
    case False
    have "\<exists>ch'' xs. remove_ch u v (ch', c') = (ch'', c'[u := xs]) \<and> refines hx tiles (ch', c') (ch'', c'[u := xs])"
    proof (rule refines_remove_ch [OF _ False])
      fix f assume "solution hx tiles f" "agrees f c'"
      then show "f ! u \<noteq> v"
        using assms narrows_agrees [OF n'] u False cu by (auto simp: already_done_def)
    qed (use u narrows_length [OF n'] in auto)
    with False show ?thesis by simp
  qed
qed simp

lemma fill_value_refines:
  assumes "\<And>f i. solution hx tiles f \<Longrightarrow> agrees f c \<Longrightarrow> i < length c \<Longrightarrow> v \<in> set (c ! i) \<Longrightarrow> f ! i = v"
  shows "refines hx tiles (ch, c) (fill_value v (ch, c))"
  unfolding fill_value_def snd_conv
proof (rule refines_cells)
  fix u ch' c' assume u: "u \<in> set [0..<length c]" and r: "refines hx tiles (ch, c) (ch', c')" and cu: "c' ! u = c ! u"
  have n': "narrows c c'" using r by (simp add: refines_def)
  show "\<exists>ch'' xs. (\<lambda>(changed, c). if \<not> already_done c u \<and> v \<in> set (c ! u) then (True, set_done u v c) else (changed, c))
      (ch', c') = (ch'', c'[u := xs]) \<and> refines hx tiles (ch', c') (ch'', c'[u := xs])"
  proof (cases "\<not> already_done c' u \<and> v \<in> set (c' ! u)")
    case False
    then show ?thesis by (auto intro: exI [of _ ch'] exI [of _ "c' ! u"])
  next
    case True
    have "refines hx tiles (ch', c') (True, c'[u := [v]])"
    proof (rule refines_set_done)
      fix f assume "solution hx tiles f" "agrees f c'"
      then show "f ! u = v" using assms narrows_agrees [OF n'] u True cu by auto
    qed (use True u narrows_length [OF n'] in auto)
    with True show ?thesis by (auto simp: set_done_def)
  qed
qed simp

text \<open>
  The loop over the values uses the counts \<open>left\<close> taken before it starts; \<open>c1\<close> is the position
  they were taken from. They stay usable because a fixed cell never changes.
\<close>

lemma limit_value_refines:
  assumes "narrows c1 c" and "length tiles = 8" and "length left = 8" and "v < 8"
    and left: "left ! v = tiles ! v - int (count_list c1 [v])"
  shows "\<exists>s'. limit_value tiles left v (ch, c) = Inr s' \<and> refines hx tiles (ch, c) s'"
proof (cases "tiles ! v > 0 \<and> left ! v = 0")
  case True
  have "refines hx tiles (False, c) (remove_unfixed v c)"
  proof (rule remove_unfixed_refines)
    fix f i assume f: "solution hx tiles f" "agrees f c" and i: "i < length c" "length (c ! i) \<noteq> 1"
    have "i < length c1" "length (c1 ! i) \<noteq> 1" using i assms(1) by (auto simp: narrows_def)
    then show "f ! i \<noteq> v"
      using used_up [OF f(1) narrows_agrees [OF assms(1) f(2)] assms(4)] left True by simp
  qed
  then have "refines hx tiles (ch, c) (ch \<or> fst (remove_unfixed v c), snd (remove_unfixed v c))"
    by (auto simp: refines_def)
  with True assms show ?thesis by (auto simp: limit_value_def split_def Let_def)
next
  case False
  have "refines hx tiles (ch, c) (fill_value v (ch, c))"
    if "tiles ! v = sum_list (map (\<lambda>cell. if v \<in> set cell then 1 else 0) c)"
    by (rule fill_value_refines) (use all_needed assms(4) that possible_card [of v c] in auto)
  with False assms show ?thesis by (auto simp: limit_value_def Let_def)
qed

section \<open>The pass and its loop\<close>

context hex_links_ok
begin

lemma pass_ok:
  assumes "wf_cells c" and "length c = n" and "length tiles = 8" and "\<And>m. last_move = Some m \<Longrightarrow> m < n"
  shows "\<exists>s. constraint_pass hx tiles last_move c = Inr s \<and> refines hx tiles (False, c) s"
proof -
  let ?free = "case last_move of None \<Rightarrow> [0..<length c] | Some m \<Rightarrow> hex_links hx m"
  let ?filled = "case last_move of None \<Rightarrow> [0..<length c] | Some m \<Rightarrow> [m]"
  let ?s1 = "fold (limit_cell hx) ?free (False, c)"
  have len: "length (snd u) = n" if "refines hx tiles (b, c') u" "length c' = n" for b c' u
    using that narrows_length by (auto simp: refines_def)
  have free: "\<forall>x \<in> set ?free. x < n" and filled: "\<forall>x \<in> set ?filled. x < n"
    using assms(2,4) links_lt by (auto split: option.splits)
  have r1: "refines hx tiles (False, c) ?s1"
    by (rule refines_fold) (use free assms(2) len in \<open>auto intro: limit_cell_refines\<close>)
  obtain ch1 c1 where s1: "?s1 = (ch1, c1)" by force
  have wf1: "wf_cells c1" and n1: "length c1 = n"
    using r1 s1 assms(1,2) narrows_wf narrows_length by (auto simp: refines_def)
  obtain left where left: "count_left tiles c1 = Inr left" "length left = 8"
    "\<And>v. v < 8 \<Longrightarrow> left ! v = tiles ! v - int (count_list c1 [v])"
    using count_left_ok [OF wf1 assms(3)] by blast
  have "\<exists>s2. for_each [0..<8] (limit_value tiles left) (ch1, c1) = Inr s2 \<and> refines hx tiles (ch1, c1) s2"
  proof (rule for_each_ok)
    fix v u assume v: "v \<in> set [0..<8]" and u: "refines hx tiles (ch1, c1) u"
    obtain ch' c' where u': "u = (ch', c')" by (cases u)
    have "\<exists>s'. limit_value tiles left v (ch', c') = Inr s' \<and> refines hx tiles (ch', c') s'"
      using u u' v left assms(3) by (intro limit_value_refines [of c1]) (auto simp: refines_def)
    with u u' show "\<exists>u'. limit_value tiles left v u = Inr u' \<and> refines hx tiles (ch1, c1) u'"
      using refines_trans by blast
  qed simp
  then obtain s2 where s2: "for_each [0..<8] (limit_value tiles left) (ch1, c1) = Inr s2" "refines hx tiles (ch1, c1) s2"
    by blast
  have n2: "length (snd s2) = n" using len [OF s2(2) n1] .
  have r3: "refines hx tiles s2 (fold (force_around hx) ?filled s2)"
    by (rule refines_fold) (use filled n2 len [of "fst s2" "snd s2"] in \<open>auto intro: force_around_refines\<close>)
  have "refines hx tiles (False, c) (fold (force_around hx) ?filled s2)"
    using refines_trans [OF refines_trans [OF _ s2(2)] r3] r1 s1 by simp
  moreover have "constraint_pass hx tiles last_move c = Inr (fold (force_around hx) ?filled s2)"
    by (simp add: constraint_pass_def s1 left(1) s2(1))
  ultimately show ?thesis by blast
qed

lemma repeat_pass_ok:
  assumes "wf_cells c" and "length c = n" and "length tiles = 8" and "\<And>m. last_move = Some m \<Longrightarrow> m < n"
    and "weight c < fuel"
  shows "\<exists>c'. repeat_pass fuel hx tiles last_move c = Inr c' \<and> narrows c c' \<and>
    (\<forall>f. solution hx tiles f \<longrightarrow> agrees f c \<longrightarrow> agrees f c')"
  using assms
proof (induction fuel arbitrary: c)
  case 0
  then show ?case by simp
next
  case (Suc fuel)
  obtain ch c1 where p: "constraint_pass hx tiles last_move c = Inr (ch, c1)" "refines hx tiles (False, c) (ch, c1)"
    using pass_ok [OF Suc.prems(1-4)] by force
  then have n: "narrows c c1" and s: "\<forall>f. solution hx tiles f \<longrightarrow> agrees f c \<longrightarrow> agrees f c1"
    by (auto simp: refines_def)
  show ?case
  proof (cases ch)
    case False
    with p n s show ?thesis by auto
  next
    case True
    have "weight c1 < fuel" using p(2) True Suc.prems(5) by (auto simp: refines_def)
    then obtain c' where "repeat_pass fuel hx tiles last_move c1 = Inr c'" "narrows c1 c'"
      "\<forall>f. solution hx tiles f \<longrightarrow> agrees f c1 \<longrightarrow> agrees f c'"
      using Suc.IH [of c1] narrows_wf [OF n] narrows_length [OF n] Suc.prems by auto
    with p(1) True n s narrows_trans show ?thesis by auto
  qed
qed

lemma run_passes_ok:
  assumes "wf_cells c" and "length c = n" and "length tiles = 8" and "\<And>m. last_move = Some m \<Longrightarrow> m < n"
  shows "\<exists>c'. run_passes hx tiles last_move c = Inr c' \<and> narrows c c' \<and>
    (\<forall>f. solution hx tiles f \<longrightarrow> agrees f c \<longrightarrow> agrees f c')"
  unfolding run_passes_def by (rule repeat_pass_ok [OF assms]) auto

end

end
