(* ===== verification/HexSearch.thy ===== *)
theory HexSearch
  imports HexPass
begin

text \<open>
  \<open>solved\<close> judges a position correctly, and the search finds a solution exactly when there is
  one. The locale \<open>hex_game\<close> adds to the links that every position of the board has a node, which
  is what \<open>print_pos\<close> needs; it is interpreted on the boards that \<open>Hex\<close> and \<open>link_nodes\<close> build.
\<close>

locale hex_game = hex_links_ok +
  assumes count_n: "hx_count hx = int n"
    and named: "p \<in> set (hex_positions (hx_size hx)) \<Longrightarrow> hx_nodes_by_pos hx p \<noteq> None"

definition valid_tiles :: "nat \<Rightarrow> int list \<Rightarrow> bool" where
  "valid_tiles n t \<longleftrightarrow> length t = 8 \<and> (\<forall>v < 8. 0 \<le> t ! v) \<and> (\<Sum>v < 8. t ! v) = int n"

section \<open>Counting\<close>

lemma count_take: "count_list (take m xs) v \<le> count_list xs v"
  by (metis append_take_drop_id count_list_append le_add1)

lemma agrees_count: "agrees f c \<Longrightarrow> count_list c [v] \<le> count_list f v"
  unfolding count_card by (rule card_mono) (auto simp: agrees_nth)

lemma count_single: "count_list (map (\<lambda>v. [v]) f) [w] = count_list f w"
  by (induction f) auto

lemma around_all_done:
  assumes "\<And>j. j \<in> set (hex_links hx i) \<Longrightarrow> already_done c j"
  shows "fst (around hx c i) = snd (around hx c i)"
proof -
  have "filter (\<lambda>j. already_done c j \<and> c ! j ! 0 \<noteq> EMPTY) (hex_links hx i) =
      filter (\<lambda>j. already_done c j \<longrightarrow> c ! j ! 0 \<noteq> EMPTY) (hex_links hx i)"
    by (rule filter_cong) (use assms in auto)
  then show ?thesis by (simp add: around_filter)
qed

section \<open>Printing\<close>

context hex_game
begin

lemma print_pos_ok: "\<exists>out. print_pos hx c = Inr out"
proof -
  have row: "\<exists>out'. print_row hx c k xs y out = Inr out'" if "\<forall>x \<in> set xs. (x, y) \<in> set (hex_positions (hx_size hx))"
    for k xs y out
  proof -
    have "\<exists>out'. for_each xs (\<lambda>x out. rbind (id_by_pos hx (x, y)) (\<lambda>id. Inr (out @ cell_text c id @ '' '')))
        (out @ replicate (nat k) CHR '' '') = Inr out' \<and> True"
    proof (rule for_each_ok)
      fix x u assume "x \<in> set xs"
      then have "hx_nodes_by_pos hx (x, y) \<noteq> None" using that named by blast
      then show "\<exists>u'. rbind (id_by_pos hx (x, y)) (\<lambda>id. Inr (u @ cell_text c id @ '' '')) = Inr u' \<and> True"
        by (auto simp: id_by_pos_def)
    qed simp
    then show ?thesis by (auto simp: print_row_def)
  qed
  let ?s = "hx_size hx"
  have "\<exists>out. for_each [0..?s - 1] (\<lambda>y. print_row hx c (?s - y - 1) [0..?s + y - 1] y) [] = Inr out \<and> True"
    by (rule for_each_ok) (auto intro!: row simp: hex_positions_set in_hexagon_def)
  moreover have "\<exists>out'. for_each [1..?s - 1] (\<lambda>y. print_row hx c y [y..?s * 2 - 1 - 1] (?s + y - 1)) out = Inr out' \<and> True" for out
    by (rule for_each_ok) (auto intro!: row simp: hex_positions_set in_hexagon_def)
  ultimately show ?thesis by (fastforce simp: print_pos_def Let_def)
qed

section \<open>Judging a position\<close>

definition cell_fine :: "cells \<Rightarrow> nat \<Rightarrow> bool" where
  "cell_fine c i \<longleftrightarrow> c ! i \<noteq> [] \<and> (already_done c i \<and> c ! i ! 0 \<noteq> EMPTY \<longrightarrow>
     fst (around hx c i) \<le> c ! i ! 0 \<and> c ! i ! 0 \<le> snd (around hx c i))"

definition cell_exact :: "cells \<Rightarrow> nat \<Rightarrow> bool" where
  "cell_exact c i \<longleftrightarrow> (already_done c i \<and> c ! i ! 0 \<noteq> EMPTY \<longrightarrow> c ! i ! 0 = fst (around hx c i))"

lemma no_solution_count:
  assumes "length c = n" and "pre @ i # js = [0..<n]" and "c ! i = [w]" and "w < 8"
    and "t ! w - int (count_list (map ((!) c) pre) [w]) - 1 < 0"
  shows "solution hx t f \<Longrightarrow> \<not> agrees f c"
proof
  assume f: "solution hx t f" "agrees f c"
  have "c = map ((!) c) (pre @ i # js)" unfolding assms(2) using assms(1) map_nth [of c] by simp
  then have "count_list c [w] = count_list (map ((!) c) (pre @ i # js)) [w]" by (rule arg_cong)
  then have "int (count_list c [w]) > t ! w" using assms(3,5) by simp
  moreover have "int (count_list f w) = t ! w" using f(1) assms(4) by (simp add: solution_def)
  ultimately show False using agrees_count [OF f(2), of w] by simp
qed

lemma no_solution_range:
  assumes "length c = n" and "i < n" and "already_done c i" and "c ! i ! 0 \<noteq> EMPTY" and "\<not> cell_fine c i"
  shows "solution hx t f \<Longrightarrow> \<not> agrees f c"
proof
  assume f: "solution hx t f" "agrees f c"
  have "c ! i = [f ! i]" using agrees_done [OF f(2), of i] assms by (simp add: already_done_def)
  moreover have "f ! i = filled_around hx f i"
    using f assms(1,2,4) calculation by (simp add: solution_def agrees_nth)
  ultimately show False
    using filled_bounds [OF f(2) assms(1,2)] assms by (simp add: cell_fine_def)
qed

text \<open>What the loop says of the cells \<open>js\<close>, from the flags it starts with.\<close>

definition loop_post :: "cells \<Rightarrow> int list \<Rightarrow> nat list \<Rightarrow> bool \<Rightarrow> bool \<Rightarrow> (bool \<times> bool) option \<Rightarrow> bool" where
  "loop_post c t js exact all_done r \<longleftrightarrow>
    (r = None \<longrightarrow> (\<forall>f. solution hx t f \<longrightarrow> \<not> agrees f c)) \<and>
    (\<forall>ex ad. r = Some (ex, ad) \<longrightarrow>
       (\<forall>v < 8. int (count_list c [v]) \<le> t ! v) \<and> (\<forall>i \<in> set js. cell_fine c i) \<and>
       (ad \<longleftrightarrow> all_done \<and> (\<forall>i \<in> set js. already_done c i)) \<and>
       (ex \<longleftrightarrow> exact \<and> (\<forall>i \<in> set js. cell_exact c i)))"

lemma loop_post_Cons:
  "cell_fine c i \<Longrightarrow> loop_post c t js (exact \<and> cell_exact c i) (all_done \<and> already_done c i) r \<Longrightarrow>
   loop_post c t (i # js) exact all_done r"
  by (auto simp: loop_post_def)

text \<open>\<open>pre\<close> are the cells the loop has passed.\<close>

lemma solved_loop_ok:
  assumes "wf_cells c" and "length c = n" and "pre @ js = [0..<n]" and "length left = 8"
    and "\<forall>v < 8. left ! v = t ! v - int (count_list (map ((!) c) pre) [v]) \<and> 0 \<le> left ! v"
  shows "\<exists>r. solved_loop hx c js left exact all_done = Inr r \<and> loop_post c t js exact all_done r"
  using assms(3-)
proof (induction js arbitrary: pre left exact all_done)
  case Nil
  then have "map ((!) c) pre = c" using assms(2) map_nth [of c] by simp
  with Nil show ?case by (auto simp: loop_post_def)
next
  case (Cons i js)
  have i: "i < n"
  proof -
    have "i \<in> set (pre @ i # js)" by simp
    then show ?thesis unfolding Cons.prems(1) by simp
  qed
  have pre: "(pre @ [i]) @ js = [0..<n]" using Cons.prems(1) by simp
  consider "c ! i = []" | "length (c ! i) \<ge> 2" | w where "c ! i = [w]"
    by (cases "c ! i" rule: remdups_adj.cases) auto
  then show ?case
  proof cases
    case 1
    then have "loop_post c t (i # js) exact all_done None" using i assms(2) by (auto simp: agrees_nth loop_post_def)
    with 1 show ?thesis by simp
  next
    case 2
    then have open_cell: "solved_loop hx c (i # js) left exact all_done = solved_loop hx c js left exact False"
      and i2: "\<not> already_done c i" "cell_fine c i" "cell_exact c i"
      by (auto simp: already_done_def cell_fine_def cell_exact_def)
    have left: "\<forall>v < 8. left ! v = t ! v - int (count_list (map ((!) c) (pre @ [i])) [v]) \<and> 0 \<le> left ! v"
      using Cons.prems(3) 2 by auto
    from Cons.IH [OF pre Cons.prems(2) left, of exact False] obtain r where
      "solved_loop hx c js left exact False = Inr r" "loop_post c t js exact False r" by blast
    with i2 loop_post_Cons [OF i2(2), of t js exact all_done r] show ?thesis unfolding open_cell by simp
  next
    case 3
    have w: "w < 8" using wf_cells_nth [OF assms(1), of i] i assms(2) 3 by auto
    let ?left = "left[w := left ! w - 1]"
    have fixd: "already_done c i" using 3 by (simp add: already_done_def)
    have step: "solved_loop hx c (i # js) left exact all_done =
      (if left ! w - 1 < 0 then Inr None
       else if w \<noteq> EMPTY \<and> \<not> cell_fine c i then Inr None
       else solved_loop hx c js ?left (exact \<and> cell_exact c i) all_done)"
      using 3 w Cons.prems(2) fixd
      by (cases "around hx c i") (auto simp: cell_fine_def cell_exact_def)
    show ?thesis
    proof (cases "left ! w - 1 < 0")
      case True
      then have "loop_post c t (i # js) exact all_done None"
        using no_solution_count [OF assms(2) Cons.prems(1) 3 w, of t] Cons.prems(3) w by (auto simp: loop_post_def)
      with True show ?thesis unfolding step by simp
    next
      case False
      note lw = False
      show ?thesis
      proof (cases "w \<noteq> EMPTY \<and> \<not> cell_fine c i")
        case True
        then have "loop_post c t (i # js) exact all_done None"
          using no_solution_range [OF assms(2) i fixd, of t] 3 by (simp add: loop_post_def)
        with True lw show ?thesis unfolding step by simp
      next
        case False
        then have fine: "cell_fine c i" using 3 by (auto simp: cell_fine_def)
        have left: "\<forall>v < 8. ?left ! v = t ! v - int (count_list (map ((!) c) (pre @ [i])) [v]) \<and> 0 \<le> ?left ! v"
          using Cons.prems(2,3) 3 w lw by (auto simp: nth_list_update)
        have "length ?left = 8" using Cons.prems(2) by simp
        from Cons.IH [OF pre this left, of "exact \<and> cell_exact c i" all_done] obtain r where
          "solved_loop hx c js ?left (exact \<and> cell_exact c i) all_done = Inr r"
          "loop_post c t js (exact \<and> cell_exact c i) all_done r" by blast
        with False lw fixd loop_post_Cons [OF fine, of t js exact all_done r] show ?thesis unfolding step by auto
      qed
    qed
  qed
qed

lemma solved_ok:
  assumes "wf_cells c" and "length c = n" and "valid_tiles n t"
  shows "\<exists>st out. solved hx t c = Inr (st, out) \<and>
    (st = SOLVED \<longrightarrow> (\<exists>f. c = map (\<lambda>v. [v]) f \<and> solution hx t f \<and> print_pos hx c = Inr out)) \<and>
    (st = IMPOSSIBLE \<longrightarrow> (\<forall>f. solution hx t f \<longrightarrow> \<not> agrees f c)) \<and>
    (st = OPEN \<longrightarrow> [] \<notin> set c \<and> (\<exists>i < n. 2 \<le> length (c ! i)))"
proof -
  have t: "length t = 8" "\<forall>v < 8. t ! v = t ! v - int (count_list (map ((!) c) []) [v]) \<and> 0 \<le> t ! v"
    using assms(3) by (simp_all add: valid_tiles_def)
  obtain r where r: "solved_loop hx c [0..<n] t True True = Inr r"
    "loop_post c t [0..<n] True True r"
    using solved_loop_ok [OF assms(1,2) _ t, of "[0..<n]" True True] by fastforce
  show ?thesis
  proof (cases r)
    case None
    with r show ?thesis by (simp add: solved_def count_n loop_post_def)
  next
    case (Some p)
    obtain ex ad where p: "r = Some (ex, ad)" using Some by (cases p) auto
    have facts: "(\<forall>v < 8. int (count_list c [v]) \<le> t ! v) \<and> (\<forall>i < n. cell_fine c i) \<and>
       (ad \<longleftrightarrow> (\<forall>i < n. already_done c i)) \<and> (ex \<longleftrightarrow> (\<forall>i < n. cell_exact c i))"
      using r(2) p by (simp add: loop_post_def Ball_def)
    have all_done_exact: "ex" if "ad"
    proof -
      have all: "already_done c i" if "i < n" for i using facts \<open>ad\<close> that by blast
      have "cell_exact c i" if "i < n" for i
        using facts that around_all_done [of hx i c] links_lt [OF that] all
        by (auto simp: cell_exact_def cell_fine_def)
      with facts show ex by blast
    qed
    show ?thesis
    proof (cases ad)
      case False
      then obtain i where i: "i < n" "\<not> already_done c i" "c ! i \<noteq> []" using facts by (auto simp: cell_fine_def)
      then have "2 \<le> length (c ! i)" by (cases "c ! i" rule: remdups_adj.cases) (auto simp: already_done_def)
      moreover have "[] \<notin> set c" using facts assms(2) by (auto simp: cell_fine_def in_set_conv_nth)
      ultimately show ?thesis using r(1) p False i(1) by (auto simp: solved_def count_n)
    next
      case True
      obtain out where out: "print_pos hx c = Inr out" using print_pos_ok by blast
      let ?f = "map (\<lambda>x. x ! 0) c"
      have single: "c ! i = [?f ! i]" if "i < n" for i
        using facts True that assms(2) by (cases "c ! i" rule: remdups_adj.cases) (auto simp: already_done_def)
      have c: "c = map (\<lambda>v. [v]) ?f" by (rule nth_equalityI) (use single assms(2) in auto)
      have "count_list ?f v \<le> nat (t ! v) \<and> 0 \<le> t ! v" if "v < 8" for v
        using facts assms(3) that count_single [of ?f v] c by (metis nat_le_iff le_nat_iff valid_tiles_def)
      then have le: "int (count_list ?f v) \<le> t ! v" if "v < 8" for v using that by force
      have "set ?f \<subseteq> {..<8}"
      proof
        fix v assume "v \<in> set ?f"
        then obtain i where "i < n" "v = ?f ! i" using assms(2) by (auto simp: in_set_conv_nth)
        then show "v \<in> {..<8}" using wf_cells_nth [OF assms(1), of i] single [of i] assms(2)
          by (metis insert_subset list.simps(15))
      qed
      then have "(\<Sum>v < 8. int (count_list ?f v)) = int (length ?f)"
        using sum_count_set [of ?f "{..<8}"] by (simp flip: of_nat_sum)
      then have "(\<Sum>v < 8. int (count_list ?f v)) = (\<Sum>v < 8. t ! v)"
        using assms(2,3) by (simp add: valid_tiles_def)
      then have eq: "int (count_list ?f v) = t ! v" if "v < 8" for v
        using sum_mono_inv [of "\<lambda>v. int (count_list ?f v)" "{..<8}" "\<lambda>v. t ! v" v] le that by auto
      have "?f ! i = filled_around hx ?f i" if "i < n" "?f ! i \<noteq> EMPTY" for i
      proof -
        have "cell_exact c i" using facts all_done_exact True that(1) by blast
        moreover have "already_done c j \<and> c ! j ! 0 = ?f ! j" if "j < n" for j
          using single [OF that] by (simp add: already_done_def)
        ultimately show ?thesis
          using that links_lt [OF that(1)] unfolding cell_exact_def around_filter fst_conv filled_around_def
          by (metis (no_types, lifting) filter_cong)
      qed
      with eq assms(2) have "solution hx t ?f" by (auto simp: solution_def)
      with c have "\<exists>f. c = map (\<lambda>v. [v]) f \<and> solution hx t f" by blast
      with out show ?thesis using r(1) p True all_done_exact by (auto simp: solved_def count_n)
    qed
  qed
qed

section \<open>The search\<close>

text \<open>A result of the search that tells the truth about the solutions within \<open>c\<close>.\<close>

definition right_answer :: "int list \<Rightarrow> cells \<Rightarrow> (status \<times> string) result \<Rightarrow> bool" where
  "right_answer t c r \<longleftrightarrow>
    (\<exists>f out. r = Inr (SOLVED, out) \<and> solution hx t f \<and> agrees f c \<and> print_pos hx (map (\<lambda>v. [v]) f) = Inr out) \<or>
    (\<exists>out. r = Inr (IMPOSSIBLE, out) \<and> (\<forall>f. solution hx t f \<longrightarrow> \<not> agrees f c))"

lemma agrees_single: "agrees f (map (\<lambda>v. [v]) f)"
  by (simp add: agrees_nth)

lemma solved_right:
  assumes "wf_cells c" and "length c = n" and "valid_tiles n t" and "[] \<in> set c \<or> (\<forall>i < n. length (c ! i) \<le> 1)"
  shows "right_answer t c (solved hx t c)"
proof -
  obtain st out where s: "solved hx t c = Inr (st, out)"
    "st = SOLVED \<longrightarrow> (\<exists>f. c = map (\<lambda>v. [v]) f \<and> solution hx t f \<and> print_pos hx c = Inr out)"
    "st = IMPOSSIBLE \<longrightarrow> (\<forall>f. solution hx t f \<longrightarrow> \<not> agrees f c)"
    "st = OPEN \<longrightarrow> [] \<notin> set c \<and> (\<exists>i < n. 2 \<le> length (c ! i))"
    using solved_ok [OF assms(1-3)] by blast
  have "st \<noteq> OPEN" using s(4) assms(4) by force
  then consider "st = SOLVED" | "st = IMPOSSIBLE" by (cases st) auto
  then show ?thesis
    using s(1-3) agrees_single unfolding right_answer_def by cases (blast, simp)
qed

lemma right_narrows:
  assumes "narrows c c'" and "\<forall>f. solution hx t f \<longrightarrow> agrees f c \<longrightarrow> agrees f c'" and "right_answer t c' r"
  shows "right_answer t c r"
  using assms narrows_agrees [OF assms(1)] unfolding right_answer_def by blast

lemma try_moves_right:
  assumes "wf_cells c" and "length c = n" and "valid_tiles n t" and "i < n" and "2 \<le> length (c ! i)"
    and "set vs \<subseteq> set (c ! i)"
    and step: "\<And>c'. wf_cells c' \<Longrightarrow> length c' = n \<Longrightarrow> weight c' < weight c \<Longrightarrow> [] \<notin> set c' \<Longrightarrow> right_answer t c' (step c')"
  shows "(\<exists>f out. try_moves step hx t c (map (Pair i) vs) = Inr (SOLVED, out) \<and> solution hx t f \<and> agrees f c \<and>
      print_pos hx (map (\<lambda>v. [v]) f) = Inr out) \<or>
    (\<exists>out. try_moves step hx t c (map (Pair i) vs) = Inr (IMPOSSIBLE, out) \<and>
      (\<forall>f. solution hx t f \<longrightarrow> agrees f c \<longrightarrow> f ! i \<notin> set vs))"
  using assms(6)
proof (induction vs)
  case Nil
  then show ?case by simp
next
  case (Cons v vs)
  let ?c = "c[i := [v]]"
  have v: "v \<in> set (c ! i)" using Cons.prems by simp
  have len8: "length t = 8" using assms(3) by (simp add: valid_tiles_def)
  have nc: "narrows c ?c"
    using assms(2,4,5) v by (auto simp: narrows_def nth_list_update)
  have wc: "weight ?c < weight c" using weight_update [of i c "[v]"] assms(2,4,5) by simp
  obtain c' where run: "run_passes hx t (Some i) ?c = Inr c'" and n': "narrows ?c c'"
    and keep: "\<forall>f. solution hx t f \<longrightarrow> agrees f ?c \<longrightarrow> agrees f c'"
    using run_passes_ok [of ?c t "Some i"] narrows_wf [OF nc assms(1)] assms(2,4) len8 by auto
  have c': "wf_cells c'" "length c' = n" "weight c' < weight c" "narrows c c'"
    using narrows_wf [OF n' narrows_wf [OF nc assms(1)]] narrows_length [OF n'] assms(2)
      narrows_weight [OF n'] wc narrows_trans [OF nc n'] by auto
  obtain st out where s: "solved hx t c' = Inr (st, out)"
    "st = SOLVED \<longrightarrow> (\<exists>f. c' = map (\<lambda>v. [v]) f \<and> solution hx t f \<and> print_pos hx c' = Inr out)"
    "st = IMPOSSIBLE \<longrightarrow> (\<forall>f. solution hx t f \<longrightarrow> \<not> agrees f c')"
    "st = OPEN \<longrightarrow> [] \<notin> set c' \<and> (\<exists>i < n. 2 \<le> length (c' ! i))"
    using solved_ok [OF c'(1,2) assms(3)] by blast
  let ?r = "if st \<noteq> OPEN then Inr (st, out) else step c'"
  have r: "right_answer t c' ?r"
    using s step [OF c'(1-3)] agrees_single unfolding right_answer_def by (cases st) auto
  have tm: "try_moves step hx t c (map (Pair i) (v # vs)) =
    rbind ?r (\<lambda>(ret, out). if ret = SOLVED then Inr (SOLVED, out) else try_moves step hx t c (map (Pair i) vs))"
    by (simp add: play_move_def set_done_def run s(1))
  from r consider f out' where "?r = Inr (SOLVED, out')" "solution hx t f" "agrees f c'"
      "print_pos hx (map (\<lambda>v. [v]) f) = Inr out'"
    | out' where "?r = Inr (IMPOSSIBLE, out')" "\<forall>f. solution hx t f \<longrightarrow> \<not> agrees f c'"
    unfolding right_answer_def by blast
  then show ?case
  proof cases
    case 1
    then show ?thesis unfolding tm using narrows_agrees [OF c'(4)] by auto
  next
    case 2
    have "f ! i \<noteq> v" if "solution hx t f" "agrees f c" for f
    proof
      assume "f ! i = v"
      then have "agrees f ?c" using that(2) assms(2,4) by (auto simp: agrees_nth nth_list_update)
      with keep 2(2) that(1) show False by blast
    qed
    then have rest: "(\<forall>f. solution hx t f \<longrightarrow> agrees f c \<longrightarrow> f ! i \<notin> set vs) \<longrightarrow>
        (\<forall>f. solution hx t f \<longrightarrow> agrees f c \<longrightarrow> f ! i \<notin> set (v # vs))" by auto
    have "try_moves step hx t c (map (Pair i) (v # vs)) = try_moves step hx t c (map (Pair i) vs)"
      unfolding tm 2(1) by simp
    note eq = this
    have "set vs \<subseteq> set (c ! i)" using Cons.prems by simp
    from Cons.IH [OF this] rest show ?thesis unfolding eq by blast
  qed
qed

lemma find_moves_ok:
  assumes "wf_cells c" and "length c = n" and "strategy \<in> {0..5}" and "strategy = HIGHEST_VALUE_STRATEGY \<longrightarrow> [] \<notin> set c"
  shows "find_moves hx c strategy order = Inr [] \<and> ([] \<in> set c \<or> (\<forall>i < n. length (c ! i) \<le> 1)) \<or>
    (\<exists>i < n. \<exists>vs. find_moves hx c strategy order = Inr (map (Pair i) vs) \<and> vs \<noteq> [] \<and>
       set vs = set (c ! i) \<and> 2 \<le> length (c ! i))"
proof -
  obtain b where b: "next_cell hx c strategy = Inr b" "fair_choice c b"
    using next_cell_fair [OF assms(1) _ assms(3,4)] links_six assms(2) by blast
  show ?thesis
  proof (cases "b < 0")
    case True
    with b assms(2) show ?thesis by (auto simp: find_moves_def fair_choice_def)
  next
    case False
    then have i: "nat b < n" "length (c ! nat b) \<noteq> 1" using b(2) assms(2) by (auto simp: fair_choice_def)
    define vs where "vs = (if order = ASCENDING then c ! nat b
      else rev (filter (\<lambda>v. v \<noteq> EMPTY) (c ! nat b)) @ (if EMPTY \<in> set (c ! nat b) then [EMPTY] else []))"
    have m: "find_moves hx c strategy order = Inr (map (Pair (nat b)) vs)" "set vs = set (c ! nat b)"
      using b(1) False by (auto simp: find_moves_def Let_def rev_map vs_def)
    show ?thesis
    proof (cases "c ! nat b = []")
      case True
      then have "[] \<in> set c" using i(1) assms(2) nth_mem by metis
      moreover have "vs = []" using m(2) True by simp
      ultimately show ?thesis using m(1) by simp
    next
      case False
      then have "2 \<le> length (c ! nat b)" using i(2) by (cases "c ! nat b" rule: remdups_adj.cases) auto
      moreover have "vs \<noteq> []" using m(2) False by auto
      ultimately show ?thesis using m i(1) by blast
    qed
  qed
qed

lemma moves_right:
  assumes "wf_cells c" and "length c = n" and "valid_tiles n t" and "strategy \<in> {0..5}"
    and "strategy = HIGHEST_VALUE_STRATEGY \<longrightarrow> [] \<notin> set c"
    and "\<And>c'. wf_cells c' \<Longrightarrow> length c' = n \<Longrightarrow> weight c' < weight c \<Longrightarrow> [] \<notin> set c' \<Longrightarrow> right_answer t c' (step c')"
  shows "right_answer t c (rbind (find_moves hx c strategy order) (\<lambda>moves.
     if length moves = 0 then solved hx t c else try_moves step hx t c moves))"
proof -
  consider "find_moves hx c strategy order = Inr []" "[] \<in> set c \<or> (\<forall>i < n. length (c ! i) \<le> 1)"
    | i vs where "i < n" "find_moves hx c strategy order = Inr (map (Pair i) vs)" "vs \<noteq> []"
       "set vs = set (c ! i)" "2 \<le> length (c ! i)"
    using find_moves_ok [OF assms(1,2,4,5)] by blast
  then show ?thesis
  proof cases
    case 1
    then show ?thesis using solved_right [OF assms(1-3)] by simp
  next
    case 2
    have all: "f ! i \<in> set vs" if "agrees f c" for f using that 2(1,4) assms(2) by (simp add: agrees_nth)
    have "right_answer t c (try_moves step hx t c (map (Pair i) vs))"
      using try_moves_right [OF assms(1-3) 2(1,5) _ assms(6), of vs] all 2(4)
      unfolding right_answer_def by blast
    with 2(2,3) show ?thesis by simp
  qed
qed

lemma solve_step_right:
  assumes "wf_cells c" and "length c = n" and "valid_tiles n t" and "strategy \<in> {0..5}"
    and "weight c < fuel" and "[] \<notin> set c"
  shows "right_answer t c (solve_step fuel hx t strategy order False c)"
  using assms
proof (induction fuel arbitrary: c)
  case 0
  then show ?case by simp
next
  case (Suc fuel)
  show ?case
    unfolding solve_step.simps if_False rbind_simps
    by (rule moves_right) (use Suc in auto)
qed

text \<open>
  The first call runs the constraints on the whole board first. If that empties a cell and the
  strategy is \<open>HIGHEST_VALUE_STRATEGY\<close>, \<open>max\<close> raises instead of the search failing.
\<close>

lemma solve_right:
  assumes "wf_cells c" and "length c = n" and "valid_tiles n t" and "strategy \<in> {0..5}" and "weight c < fuel"
  shows "right_answer t c (solve_step fuel hx t strategy order True c) \<or>
    (strategy = HIGHEST_VALUE_STRATEGY \<and> solve_step fuel hx t strategy order True c = Inl ValueError \<and>
     (\<forall>f. solution hx t f \<longrightarrow> \<not> agrees f c))"
proof -
  obtain k where k: "fuel = Suc k" using assms(5) by (cases fuel) auto
  obtain c' where run: "run_passes hx t None c = Inr c'" and n': "narrows c c'"
    and keep: "\<forall>f. solution hx t f \<longrightarrow> agrees f c \<longrightarrow> agrees f c'"
    using run_passes_ok [of c t None] assms(1-3) by (auto simp: valid_tiles_def)
  have c': "wf_cells c'" "length c' = n" "weight c' \<le> weight c"
    using narrows_wf [OF n' assms(1)] narrows_length [OF n'] assms(2) narrows_weight [OF n'] by auto
  show ?thesis
  proof (cases "strategy = HIGHEST_VALUE_STRATEGY \<and> [] \<in> set c'")
    case True
    then obtain i where i: "i < length c'" "c' ! i = []" by (auto simp: in_set_conv_nth)
    have "\<not> agrees f c'" for f using i by (auto simp: agrees_nth)
    then show ?thesis
      using True keep highest_value_raises [OF i]
      by (auto simp: k run find_moves_def next_cell_def)
  next
    case False
    have "right_answer t c' (rbind (find_moves hx c' strategy order) (\<lambda>moves.
       if length moves = 0 then solved hx t c' else try_moves (solve_step k hx t strategy order False) hx t c' moves))"
      using False assms(3-5) c' k by (intro moves_right) (auto intro!: solve_step_right)
    then show ?thesis using right_narrows [OF n' keep] by (simp add: k run)
  qed
qed

end

end
