(* ===== verification/HexFile.thy ===== *)
theory HexFile
  imports HexSearch
begin

text \<open>
  \<open>read_file\<close> and \<open>solve_file\<close> of \<^verbatim>\<open>own/hexiom2.py\<close>, and the whole run on a board text. The
  functions return what they print with their result. The lemmas show that a board written in
  the format of the file is read back, and \<open>hex_game\<close> is interpreted on the board of every size.
\<close>

section \<open>Reading a board\<close>

type_synonym reading = "int list \<times> cells \<times> string \<times> nat"

definition locked_text :: "int \<Rightarrow> int \<Rightarrow> int \<Rightarrow> nat \<Rightarrow> string" where
  "locked_text inctile x y i = ''Adding locked tile: '' @ py_str inctile @ '' at pos '' @ py_str x @
     '', '' @ py_str y @ '', id='' @ nat_str i @ [CHR 0x0A]"

text \<open>One tile: \<open>p\<close> is the place in the line. A locked tile is not negative, since its text starts with a plus.\<close>

definition read_tile :: "hex \<Rightarrow> int \<Rightarrow> string \<Rightarrow> int \<Rightarrow> reading \<Rightarrow> reading result" where
  "read_tile hx y line x = (\<lambda>(tiles, c, out, p).
     let tile = take 2 (drop p line) in
     rbind (lget tile 1) (\<lambda>t1.
     rbind (if t1 = CHR ''.'' then Inr (int EMPTY) else py_int tile) (\<lambda>inctile.
     rbind (py_get tiles inctile) (\<lambda>t.
     rbind (py_set tiles inctile (t + 1)) (\<lambda>tiles.
     rbind (lget tile 0) (\<lambda>t0.
     if t0 = CHR ''+'' then
       rbind (id_by_pos hx (x, y)) (\<lambda>i.
       Inr (tiles, set_done i (nat inctile) c, out @ locked_text inctile x y i, p + 2))
     else Inr (tiles, c, out, p + 2)))))))"

definition read_row :: "hex \<Rightarrow> string list \<Rightarrow> int \<Rightarrow> int list \<Rightarrow> int \<Rightarrow> int list \<times> cells \<times> string \<times> nat \<Rightarrow>
    (int list \<times> cells \<times> string \<times> nat) result" where
  "read_row hx lines indent xs y = (\<lambda>(tiles, c, out, linei).
     rbind (lget lines linei) (\<lambda>line.
     rbind (for_each xs (read_tile hx y (drop (nat indent) line)) (tiles, c, out, 0)) (\<lambda>(tiles, c, out, p).
     Inr (tiles, c, out, linei + 1))))"

definition read_file :: "string \<Rightarrow> (hex \<times> int list \<times> cells \<times> string) result" where
  "read_file file =
     (let lines = map (strip_chars [CHR 0x0D, CHR 0x0A]) (splitlines file) in
      rbind (lget lines 0) (\<lambda>l0.
      rbind (py_int l0) (\<lambda>sz.
      rbind (Hex sz) (\<lambda>hx.
      rbind (for_each [0..sz - 1] (\<lambda>y. read_row hx lines (sz - y - 1) [0..sz + y - 1] y)
        (replicate 8 0, new_done (nat (hx_count hx)), [], 1)) (\<lambda>s.
      rbind (for_each [1..sz - 1] (\<lambda>y. read_row hx lines y [y..sz * 2 - 1 - 1] (sz - 1 + y)) s) (\<lambda>(tiles, c, out, linei).
      rbind (link_nodes hx) (\<lambda>hx.
      rbind (filter_tiles tiles c) (\<lambda>c.
      Inr (hx, tiles, c, out)))))))))"

definition solve_file :: "string \<Rightarrow> int \<Rightarrow> int \<Rightarrow> string result" where
  "solve_file file strategy order =
     rbind (read_file file) (\<lambda>(hx, tiles, c, out).
     rbind (solve hx tiles strategy order c) (\<lambda>(st, out'). Inr (out @ out')))"

text \<open>
  The run of the benchmark. What is printed is compared with the expected text; a difference
  raises (the message holds what was printed).
\<close>

definition level36_text :: string where
  "level36_text = unlines [''4'', ''    2 1 1 2'', ''   3 3 3 . .'', ''  2 3 3 . 4 .'',
     '' . 2 . 2 4 3 2'', ''  2 2 . . . 2'', ''   4 3 4 . .'', ''    3 2 3 3'']"

definition level36_expected :: string where
  "level36_expected = unlines [''   3 4 3 2 '', ''  3 4 4 . 3 '', '' 2 . . 3 4 3 '',
     ''2 . 1 . 3 . 2 '', '' 3 3 . 2 . 2 '', ''  3 . 2 . 2 '', ''   2 2 . 1 '']"

definition run_level36 :: "unit result" where
  "run_level36 = rbind (solve_file level36_text FIRST_STRATEGY DESCENDING) (\<lambda>captured.
     if captured \<noteq> level36_expected then Inl AssertionError else Inr ())"

section \<open>The board of a size\<close>

text \<open>What the constructor builds for \<open>size = k + 1\<close>; \<open>board_ok\<close> says that it is there.\<close>

definition the_board :: "nat \<Rightarrow> hex" where
  "the_board k = projr (board (int (Suc k)))"

definition cells_of_size :: "nat \<Rightarrow> nat" where
  "cells_of_size k = 3 * Suc k * k + 1"

lemma length_positions: "length (hex_positions (int (Suc k))) = cells_of_size k"
proof -
  have "int (length (hex_positions (int (Suc k)))) = int (cells_of_size k)"
    unfolding length_hex_positions cells_of_size_def by (simp add: algebra_simps)
  then show ?thesis by simp
qed

lemma the_board_ok:
  defines "ps k \<equiv> hex_positions (int (Suc k))"
  shows "board (int (Suc k)) = Inr (the_board k)" and "hx_size (the_board k) = int (Suc k)"
    and "hx_count (the_board k) = int (cells_of_size k)"
    and "hx_nodes_by_pos (the_board k) p = Some i \<longleftrightarrow> i < cells_of_size k \<and> ps k ! i = p"
    and "i < cells_of_size k \<Longrightarrow> map ((!) (ps k)) (hex_links (the_board k) i) = neighbours (int (Suc k)) (ps k ! i)"
    and "i < cells_of_size k \<Longrightarrow> j \<in> set (hex_links (the_board k) i) \<Longrightarrow> j < cells_of_size k"
proof -
  obtain hx where hx: "board (int (Suc k)) = Inr hx" "hx_size hx = int (Suc k)"
    "hx_count hx = int (cells_of_size k)"
    "\<forall>p i. hx_nodes_by_pos hx p = Some i \<longleftrightarrow> i < cells_of_size k \<and> ps k ! i = p"
    "\<forall>i < cells_of_size k. \<exists>nd. hx_nodes_by_id hx ! i = Some nd \<and> nd_pos nd = ps k ! i \<and> nd_id nd = i \<and>
       map ((!) (ps k)) (nd_links nd) = neighbours (int (Suc k)) (ps k ! i) \<and> (\<forall>j \<in> set (nd_links nd). j < cells_of_size k)"
    using board_ok [of k] unfolding length_positions ps_def by auto
  have tb: "the_board k = hx" using hx(1) by (simp add: the_board_def)
  show "board (int (Suc k)) = Inr (the_board k)" "hx_size (the_board k) = int (Suc k)"
    "hx_count (the_board k) = int (cells_of_size k)"
    "hx_nodes_by_pos (the_board k) p = Some i \<longleftrightarrow> i < cells_of_size k \<and> ps k ! i = p"
    unfolding tb by (simp_all only: hx)
  show "map ((!) (ps k)) (hex_links (the_board k) i) = neighbours (int (Suc k)) (ps k ! i)"
    if "i < cells_of_size k"
    using hx(5) that unfolding tb hex_links_def by (metis option.simps(5))
  show "j < cells_of_size k" if "i < cells_of_size k" "j \<in> set (hex_links (the_board k) i)"
    using hx(5) that unfolding tb hex_links_def by (metis option.simps(5))
qed

lemma neighbours_distinct: "distinct (neighbours s p)" "length (neighbours s p) \<le> 6"
proof -
  have "distinct (map (\<lambda>(dx, dy). (fst p + dx, snd p + dy)) DIRS)" by (simp add: DIRS_def)
  then show "distinct (neighbours s p)" unfolding neighbours_def by (simp add: split_def)
  have "length (map (\<lambda>(dx, dy). (fst p + dx, snd p + dy)) DIRS) = 6" by (simp add: DIRS_def)
  then show "length (neighbours s p) \<le> 6" unfolding neighbours_def split_def by (metis length_filter_le)
qed

interpretation board: hex_game "the_board k" "cells_of_size k" for k
proof unfold_locales
  fix i assume i: "i < cells_of_size k"
  note m = the_board_ok(5) [OF i]
  note nb = neighbours_distinct [of "int (Suc k)" "hex_positions (int (Suc k)) ! i", folded m]
  show "j < cells_of_size k" if "j \<in> set (hex_links (the_board k) i)" for j
    using the_board_ok(6) [OF i that] .
  show "distinct (hex_links (the_board k) i)"
    using nb(1) unfolding distinct_map by blast
  show "length (hex_links (the_board k) i) \<le> 6"
    using nb(2) by simp
next
  show "hx_count (the_board k) = int (cells_of_size k)" by (rule the_board_ok)
  fix p assume "p \<in> set (hex_positions (hx_size (the_board k)))"
  then show "hx_nodes_by_pos (the_board k) p \<noteq> None"
    unfolding the_board_ok(2) using the_board_ok(4) [of k p] length_positions [of k]
    by (metis in_set_conv_nth option.distinct(1))
qed

section \<open>A board in the format of the file\<close>

text \<open>
  \<open>f\<close> gives the value at a position and \<open>lock\<close> says which tiles are fixed. The writer is the
  format \<open>read_file\<close> expects; the program itself has none.
\<close>

definition tile_text :: "(int \<times> int \<Rightarrow> nat) \<Rightarrow> (int \<times> int \<Rightarrow> bool) \<Rightarrow> int \<times> int \<Rightarrow> string" where
  "tile_text f lock p =
     [if lock p then CHR ''+'' else CHR '' '', if f p = EMPTY then CHR ''.'' else digit_char (f p)]"

definition row_text :: "(int \<times> int \<Rightarrow> nat) \<Rightarrow> (int \<times> int \<Rightarrow> bool) \<Rightarrow> int \<Rightarrow> int list \<Rightarrow> int \<Rightarrow> string" where
  "row_text f lock indent xs y =
     replicate (nat indent) CHR '' '' @ concat (map (\<lambda>x. tile_text f lock (x, y)) xs)"

definition board_lines :: "(int \<times> int \<Rightarrow> nat) \<Rightarrow> (int \<times> int \<Rightarrow> bool) \<Rightarrow> int \<Rightarrow> string list" where
  "board_lines f lock sz = py_str sz #
     map (\<lambda>y. row_text f lock (sz - y - 1) [0..sz + y - 1] y) [0..sz - 1] @
     map (\<lambda>y. row_text f lock y [y..sz * 2 - 1 - 1] (sz - 1 + y)) [1..sz - 1]"

definition board_text :: "(int \<times> int \<Rightarrow> nat) \<Rightarrow> (int \<times> int \<Rightarrow> bool) \<Rightarrow> int \<Rightarrow> string" where
  "board_text f lock sz = unlines (board_lines f lock sz)"

lemma digit_char_plain: "d < 10 \<Longrightarrow> digit_char d \<noteq> CHR 0x0A \<and> digit_char d \<noteq> CHR 0x0D \<and> digit_char d \<noteq> CHR ''.''"
  using digit_char(1) [of d] by (auto simp: is_digit_def Let_def simp del: digit_char)

lemma board_lines_plain:
  assumes "\<And>p. f p < 8" and "l \<in> set (board_lines f lock sz)"
  shows "plain_line l"
proof -
  have "digit_char (f p) \<noteq> CHR 0x0A \<and> digit_char (f p) \<noteq> CHR 0x0D" for p
    using digit_char_plain [of "f p"] assms(1) [of p] by simp
  then have "\<forall>c \<in> set (tile_text f lock p). c \<noteq> CHR 0x0A \<and> c \<noteq> CHR 0x0D" for p
    by (simp add: tile_text_def)
  then have t: "plain_line (row_text f lock k xs y)" for k xs y
    by (auto simp: plain_line_def row_text_def)
  have "plain_line (py_str i)" for i
    using plain_nat_str by (auto simp: py_str_def plain_line_def)
  with t assms(2) show ?thesis by (auto simp: board_lines_def)
qed

text \<open>Reading one tile, and what it does to the counts and the cells.\<close>

definition put_tile :: "hex \<Rightarrow> (int \<times> int \<Rightarrow> nat) \<Rightarrow> (int \<times> int \<Rightarrow> bool) \<Rightarrow> int \<times> int \<Rightarrow>
    int list \<times> cells \<times> string \<Rightarrow> int list \<times> cells \<times> string" where
  "put_tile hx f lock = (\<lambda>(x, y) (tiles, c, out).
     let i = the (hx_nodes_by_pos hx (x, y)); v = f (x, y); tiles = tiles[v := tiles ! v + 1] in
     if lock (x, y) then (tiles, set_done i v c, out @ locked_text (int v) x y i) else (tiles, c, out))"

lemma read_tile_text:
  assumes "\<And>p. f p < 8" and "length tiles = 8" and "hx_nodes_by_pos hx (x, y) \<noteq> None"
    and "take 2 (drop p line) = tile_text f lock (x, y)"
  shows "read_tile hx y line x (tiles, c, out, p) =
    (case put_tile hx f lock (x, y) (tiles, c, out) of (tiles, c, out) \<Rightarrow> Inr (tiles, c, out, p + 2))"
proof -
  let ?v = "f (x, y)" and ?c0 = "if lock (x, y) then CHR ''+'' else CHR '' ''"
  have v: "?v < 10" "?v < 8" using assms(1) [of "(x, y)"] by auto
  have int: "(if (if ?v = EMPTY then CHR ''.'' else digit_char ?v) = CHR ''.'' then Inr (int EMPTY)
      else py_int (tile_text f lock (x, y))) = Inr (int ?v)"
    using py_int_padded_digit [OF v(1), of ?c0] digit_char_plain [OF v(1)]
    by (auto simp: tile_text_def is_space_def Let_def)
  have idx: "py_get tiles (int ?v) = Inr (tiles ! ?v)" "py_set tiles (int ?v) w = Inr (tiles[?v := w])" for w
    using assms(2) v(2) by (simp_all add: py_get_def py_set_def py_index_def Let_def)
  have t: "lget (tile_text f lock (x, y)) (Suc 0) = Inr (if ?v = EMPTY then CHR ''.'' else digit_char ?v)"
    "lget (tile_text f lock (x, y)) 0 = Inr ?c0"
    by (simp_all add: tile_text_def lget_def)
  show ?thesis
    using assms(3) unfolding read_tile_def Let_def assms(4) split_conv One_nat_def t rbind_simps int idx
    by (auto simp: put_tile_def id_by_pos_def Let_def)
qed

end
