(* ===== verification/HexProperties.thy ===== *)
theory HexProperties
  imports HexFile "HOL-Library.Multiset"
begin

text \<open>
  The properties of \<^verbatim>\<open>own/hexiom2.py\<close>: the geometry of the board, the constraints, the search, and
  the run from the text of a board to the printed solution.
\<close>

section \<open>Rows and files\<close>

lemma put_tile_length:
  "length (fst (put_tile hx f lock p s)) = length (fst s)"
  "length (fst (fold (put_tile hx f lock) ps s)) = length (fst s)"
proof -
  show one: "length (fst (put_tile hx f lock p s)) = length (fst s)" for p s
    by (cases s; cases p) (simp add: put_tile_def Let_def)
  show "length (fst (fold (put_tile hx f lock) ps s)) = length (fst s)"
    by (induction ps arbitrary: s) (simp_all add: one)
qed

text \<open>The loops over tiles and rows are one loop over the positions.\<close>

definition with_place :: "int list \<times> cells \<times> string \<Rightarrow> nat \<Rightarrow> int list \<times> cells \<times> string \<times> nat" where
  "with_place = (\<lambda>(tiles, c, out) p. (tiles, c, out, p))"

lemma read_tiles_text:
  assumes "\<And>p. f p < 8" and "length (fst s) = 8" and "\<forall>x \<in> set xs. hx_nodes_by_pos hx (x, y) \<noteq> None"
    and "drop p line = concat (map (\<lambda>x. tile_text f lock (x, y)) xs)"
  shows "for_each xs (read_tile hx y line) (with_place s p) =
    Inr (with_place (fold (put_tile hx f lock) (map (\<lambda>x. (x, y)) xs) s) (p + 2 * length xs))"
  using assms(2-)
proof (induction xs arbitrary: s p)
  case Nil
  then show ?case by simp
next
  case (Cons x xs)
  have two: "length (tile_text f lock q) = 2" for q by (simp add: tile_text_def)
  have now: "take 2 (drop p line) = tile_text f lock (x, y)"
    and later: "drop (p + 2) line = concat (map (\<lambda>x. tile_text f lock (x, y)) xs)"
  proof -
    have d: "drop p line = tile_text f lock (x, y) @ concat (map (\<lambda>x. tile_text f lock (x, y)) xs)"
      using Cons.prems(3) by simp
    show "take 2 (drop p line) = tile_text f lock (x, y)" unfolding d by (simp add: two)
    have "drop (p + 2) line = drop 2 (drop p line)" by (simp add: add.commute)
    then show "drop (p + 2) line = concat (map (\<lambda>x. tile_text f lock (x, y)) xs)" unfolding d by (simp add: two)
  qed
  obtain tiles c out where s: "s = (tiles, c, out)" by (cases s)
  have "read_tile hx y line x (with_place s p) = Inr (with_place (put_tile hx f lock (x, y) s) (p + 2))"
    using read_tile_text [OF assms(1) _ _ now, of tiles hx c out] Cons.prems(1,2)
    by (simp add: s with_place_def split: prod.splits)
  then show ?case
    using Cons.IH [of "put_tile hx f lock (x, y) s" "p + 2"] Cons.prems(1,2) later
    by (simp add: put_tile_length)
qed

lemma read_rows_text:
  assumes "\<And>p. f p < 8" and "length (fst s) = 8"
    and "\<forall>y \<in> set ys. \<forall>x \<in> set (xs y). hx_nodes_by_pos hx (x, row y) \<noteq> None"
    and "\<And>j. j < length ys \<Longrightarrow> l + j < length lines \<and>
      lines ! (l + j) = row_text f lock (ind (ys ! j)) (xs (ys ! j)) (row (ys ! j))"
  shows "for_each ys (\<lambda>y. read_row hx lines (ind y) (xs y) (row y)) (with_place s l) =
    Inr (with_place (fold (put_tile hx f lock) (concat (map (\<lambda>y. map (\<lambda>x. (x, row y)) (xs y)) ys)) s) (l + length ys))"
  using assms(2-)
proof (induction ys arbitrary: s l)
  case Nil
  then show ?case by simp
next
  case (Cons y ys)
  have line: "l < length lines" "lines ! l = row_text f lock (ind y) (xs y) (row y)"
    using Cons.prems(3) [of 0] by auto
  have later: "Suc l + j < length lines \<and>
      lines ! (Suc l + j) = row_text f lock (ind (ys ! j)) (xs (ys ! j)) (row (ys ! j))" if "j < length ys" for j
    using Cons.prems(3) [of "Suc j"] that by simp
  have "for_each (xs y) (read_tile hx (row y) (drop (nat (ind y)) (lines ! l))) (with_place s 0) =
    Inr (with_place (fold (put_tile hx f lock) (map (\<lambda>x. (x, row y)) (xs y)) s) (0 + 2 * length (xs y)))"
    using Cons.prems(1,2) line(2) by (intro read_tiles_text assms(1)) (auto simp: row_text_def)
  then have "read_row hx lines (ind y) (xs y) (row y) (with_place s l) =
    Inr (with_place (fold (put_tile hx f lock) (map (\<lambda>x. (x, row y)) (xs y)) s) (Suc l))"
    using line(1) by (auto simp: read_row_def with_place_def split: prod.splits)
  then show ?case
    using Cons.IH [OF _ _ later] Cons.prems(1,2) by (simp add: put_tile_length)
qed

text \<open>What the file leaves in the counts and in the cells.\<close>

definition any_lock :: "(int \<times> int \<Rightarrow> bool) \<Rightarrow> bool" where
  "any_lock lock \<longleftrightarrow> (\<exists>p. lock p)"

lemma placed:
  fixes ps :: "(int \<times> int) list"
  assumes "\<And>i. i < length ps \<Longrightarrow> hx_nodes_by_pos hx (ps ! i) = Some i" and "\<And>p. f p < 8" and "m \<le> length ps"
  shows "\<exists>tiles c out. fold (put_tile hx f lock) (take m ps) (replicate 8 0, new_done (length ps), []) = (tiles, c, out) \<and>
    length tiles = 8 \<and> (\<forall>v < 8. tiles ! v = int (count_list (map f (take m ps)) v)) \<and> length c = length ps \<and>
    (\<forall>i < length ps. c ! i = (if i < m \<and> lock (ps ! i) then [f (ps ! i)] else [0, 1, 2, 3, 4, 5, 6, 7])) \<and>
    (out = [] \<or> any_lock lock)"
  using assms(3)
proof (induction m)
  case 0
  then show ?case by (simp add: new_done_def EMPTY_def)
next
  case (Suc m)
  then obtain tiles c out where *: "fold (put_tile hx f lock) (take m ps) (replicate 8 0, new_done (length ps), []) = (tiles, c, out)"
    "length tiles = 8" "\<forall>v < 8. tiles ! v = int (count_list (map f (take m ps)) v)" "length c = length ps"
    "\<forall>i < length ps. c ! i = (if i < m \<and> lock (ps ! i) then [f (ps ! i)] else [0, 1, 2, 3, 4, 5, 6, 7])"
    "out = [] \<or> any_lock lock"
    by auto
  obtain x y where p: "ps ! m = (x, y)" by (cases "ps ! m")
  have t: "take (Suc m) ps = take m ps @ [(x, y)]" using Suc.prems p by (simp add: take_Suc_conv_app_nth)
  have id: "hx_nodes_by_pos hx (x, y) = Some m" using assms(1) [of m] Suc.prems p by simp
  show ?case
    using * Suc.prems p assms(2) [of "(x, y)"] unfolding t fold_append
    by (auto simp: put_tile_def id Let_def set_done_def nth_list_update less_Suc_eq any_lock_def)
qed

section \<open>The values that are left\<close>

lemma remove_all_map: "remove_all v c = map (remove1 v) c"
proof -
  have "fold (\<lambda>i c. snd (remove i v c)) [0..<m] c = map (remove1 v) (take m c) @ drop m c" if "m \<le> length c" for m
    using that
  proof (induction m)
    case 0
    then show ?case by simp
  next
    case (Suc m)
    then have "drop m c = c ! m # drop (Suc m) c" by (simp add: Cons_nth_drop_Suc)
    moreover have "take (Suc m) c = take m c @ [c ! m]" using Suc.prems by (simp add: take_Suc_conv_app_nth)
    ultimately show ?case
      using Suc by (auto simp: remove_def nth_append list_update_append remove1_idem)
  qed
  from this [of "length c"] show ?thesis by (simp add: remove_all_def)
qed

lemma filter_tiles_ok:
  assumes "length tiles = 8" and "wf_cells c"
  shows "filter_tiles tiles c = Inr (map (filter (\<lambda>v. tiles ! v \<noteq> 0)) c)"
proof -
  let ?I = "\<lambda>k c'. c' = map (filter (\<lambda>v. \<not> (v < k \<and> tiles ! v = 0))) c"
  have "\<exists>c'. for_each [0..<8] (\<lambda>v c. rbind (lget tiles v) (\<lambda>t. Inr (if t = 0 then remove_all v c else c))) c = Inr c' \<and>
    ?I (length [0..<8]) c'"
  proof (rule for_each_count)
    show "?I 0 c" by (simp add: map_idI)
  next
    fix k c' assume k: "k < length [0..<8]" and I: "?I k c'"
    have rem: "remove1 k (filter P x) = filter (\<lambda>v. P v \<and> v \<noteq> k) x" if "distinct x" for P x
      using that by (simp add: distinct_remove1_removeAll removeAll_filter_not_eq) (rule filter_cong, auto)
    have "remove_all k c' = map (filter (\<lambda>v. \<not> (v < Suc k \<and> tiles ! v = 0))) c" if "tiles ! k = 0"
      using I assms(2) that unfolding remove_all_map wf_cells_def
      by (auto simp: rem less_Suc_eq intro!: filter_cong)
    moreover have "c' = map (filter (\<lambda>v. \<not> (v < Suc k \<and> tiles ! v = 0))) c" if "tiles ! k \<noteq> 0"
      using I that by (auto simp: less_Suc_eq intro!: filter_cong)
    ultimately show "\<exists>u'. rbind (lget tiles ([0..<8] ! k)) (\<lambda>t. Inr (if t = 0 then remove_all ([0..<8] ! k) c' else c')) = Inr u' \<and>
      ?I (Suc k) u'"
      using k assms(1) by auto
  qed
  moreover have "map (filter (\<lambda>v. \<not> (v < length [0..<8::nat] \<and> tiles ! v = 0))) c = map (filter (\<lambda>v. tiles ! v \<noteq> 0)) c"
    using assms(2) by (auto simp: wf_cells_def intro!: filter_cong)
  ultimately show ?thesis by (auto simp: filter_tiles_def)
qed

section \<open>Reading a board that was written\<close>

definition board_cells :: "(int \<times> int \<Rightarrow> nat) \<Rightarrow> (int \<times> int \<Rightarrow> bool) \<Rightarrow> (int \<times> int) list \<Rightarrow> cells" where
  "board_cells f lock ps =
     map (\<lambda>p. if lock p then [f p] else filter (\<lambda>v. v \<in> f ` set ps) [0, 1, 2, 3, 4, 5, 6, 7]) ps"

definition board_tiles :: "(int \<times> int \<Rightarrow> nat) \<Rightarrow> (int \<times> int) list \<Rightarrow> int list" where
  "board_tiles f ps = map (\<lambda>v. int (count_list (map f ps) v)) [0..<8]"

lemma wf_initial: "(\<And>p. f p < 8) \<Longrightarrow> wf_cells (map (\<lambda>p. if lock p then [f p] else [0, 1, 2, 3, 4, 5, 6, 7]) ps)"
  by (auto simp: wf_cells_def)

lemma cells_left:
  assumes "\<And>p. f p < 8"
  shows "map (filter (\<lambda>v. board_tiles f ps ! v \<noteq> 0)) (map (\<lambda>p. if lock p then [f p] else [0, 1, 2, 3, 4, 5, 6, 7]) ps) =
    board_cells f lock ps"
proof -
  have "board_tiles f ps ! v \<noteq> 0 \<longleftrightarrow> v \<in> f ` set ps" if "v < 8" for v
    using that by (simp add: board_tiles_def count_list_0_iff)
  then show ?thesis using assms by (auto simp: board_cells_def intro!: filter_cong)
qed

lemma link_nodes_pos: "link_nodes hx = Inr hx' \<Longrightarrow> hx_nodes_by_pos hx' = hx_nodes_by_pos hx \<and> hx_count hx' = hx_count hx"
  by (auto simp: link_nodes_def rbind_eq_Inr)

lemma read_board:
  fixes k :: nat
  defines "s \<equiv> int (Suc k)"
  defines "ps \<equiv> hex_positions s"
  assumes f: "\<And>p. f p < 8"
  shows "\<exists>out. read_file (board_text f lock s) = Inr (the_board k, board_tiles f ps, board_cells f lock ps, out) \<and>
    (out = [] \<or> any_lock lock)"
proof -
  obtain hx where hx: "Hex s = Inr hx" "link_nodes hx = Inr (the_board k)"
    using the_board_ok(1) [of k] unfolding s_def board_def by (auto simp: rbind_eq_Inr)
  have n: "length ps = cells_of_size k" unfolding ps_def s_def by (rule length_positions)
  have pos: "hx_nodes_by_pos hx (ps ! i) = Some i" if "i < length ps" for i
    using the_board_ok(4) [of k "ps ! i" i] link_nodes_pos [OF hx(2)] that n unfolding ps_def s_def by simp
  then have known: "hx_nodes_by_pos hx p \<noteq> None" if "p \<in> set ps" for p
    using that by (metis in_set_conv_nth option.distinct(1))
  have cnt: "nat (hx_count hx) = length ps"
    using link_nodes_pos [OF hx(2)] the_board_ok(3) [of k] n by (metis nat_int)
  let ?lines = "board_lines f lock s"
  let ?top = "map (\<lambda>y. row_text f lock (s - y - 1) [0..s + y - 1] y) [0..s - 1]"
  let ?bottom = "map (\<lambda>y. row_text f lock y [y..s * 2 - 1 - 1] (s - 1 + y)) [1..s - 1]"
  have plain: "plain_line l" if "l \<in> set ?lines" for l using board_lines_plain [OF f that] .
  have lines: "map (strip_chars [CHR 0x0D, CHR 0x0A]) (splitlines (board_text f lock s)) = ?lines"
  proof -
    have "splitlines (board_text f lock s) = ?lines"
      unfolding board_text_def by (rule splitlines_unlines [OF plain])
    moreover have "strip_chars [CHR 0x0D, CHR 0x0A] l = l" if "l \<in> set ?lines" for l
      by (rule strip_chars_id) (use plain [OF that] in \<open>auto simp: plain_line_def\<close>)
    ultimately show ?thesis by (simp add: map_idI)
  qed
  let ?init = "(replicate 8 0, new_done (length ps), []) :: int list \<times> cells \<times> string"
  let ?ps1 = "concat (map (\<lambda>y. map (\<lambda>x. (x, y)) [0..s + y - 1]) [0..s - 1])"
  let ?ps2 = "concat (map (\<lambda>y. map (\<lambda>x. (x, s - 1 + y)) [y..s * 2 - 1 - 1]) [1..s - 1])"
  have ps: "ps = ?ps1 @ ?ps2" by (simp add: ps_def hex_positions_def algebra_simps)
  have len1: "length [0..s - 1] = Suc k" by (simp add: s_def)
  let ?s1 = "fold (put_tile hx f lock) ?ps1 ?init"
  have top: "for_each [0..s - 1] (\<lambda>y. read_row hx ?lines (s - y - 1) [0..s + y - 1] y) (with_place ?init 1) =
    Inr (with_place ?s1 (1 + length [0..s - 1]))"
  proof (rule read_rows_text [where row = "\<lambda>y. y", OF f])
    show "1 + j < length ?lines \<and> ?lines ! (1 + j) =
        row_text f lock (s - [0..s - 1] ! j - 1) [0..s + [0..s - 1] ! j - 1] ([0..s - 1] ! j)"
      if "j < length [0..s - 1]" for j
      using that by (simp add: board_lines_def nth_append)
    show "\<forall>y \<in> set [0..s - 1]. \<forall>x \<in> set [0..s + y - 1]. hx_nodes_by_pos hx (x, y) \<noteq> None"
    proof (intro ballI)
      fix y x assume "y \<in> set [0..s - 1]" "x \<in> set [0..s + y - 1]"
      then have "(x, y) \<in> set ?ps1" by (auto intro!: bexI [of _ y])
      then show "hx_nodes_by_pos hx (x, y) \<noteq> None" using known unfolding ps by simp
    qed
  qed simp
  have bottom: "for_each [1..s - 1] (\<lambda>y. read_row hx ?lines y [y..s * 2 - 1 - 1] (s - 1 + y)) (with_place ?s1 (1 + length [0..s - 1])) =
    Inr (with_place (fold (put_tile hx f lock) ?ps2 ?s1) (1 + length [0..s - 1] + length [1..s - 1]))"
  proof (rule read_rows_text [where row = "\<lambda>y. s - 1 + y", OF f])
    show "length (fst ?s1) = 8" by (simp add: put_tile_length)
    show "1 + length [0..s - 1] + j < length ?lines \<and> ?lines ! (1 + length [0..s - 1] + j) =
        row_text f lock ([1..s - 1] ! j) [[1..s - 1] ! j..s * 2 - 1 - 1] (s - 1 + [1..s - 1] ! j)"
      if "j < length [1..s - 1]" for j
      using that by (simp add: board_lines_def nth_append)
    show "\<forall>y \<in> set [1..s - 1]. \<forall>x \<in> set [y..s * 2 - 1 - 1]. hx_nodes_by_pos hx (x, s - 1 + y) \<noteq> None"
    proof (intro ballI)
      fix y x assume "y \<in> set [1..s - 1]" "x \<in> set [y..s * 2 - 1 - 1]"
      then have "(x, s - 1 + y) \<in> set ?ps2" by (auto intro!: bexI [of _ y])
      then show "hx_nodes_by_pos hx (x, s - 1 + y) \<noteq> None" using known unfolding ps by simp
    qed
  qed
  obtain tiles c out where fin: "fold (put_tile hx f lock) ps ?init = (tiles, c, out)" "length tiles = 8"
    "\<forall>v < 8. tiles ! v = int (count_list (map f ps) v)" "length c = length ps"
    "\<forall>i < length ps. c ! i = (if lock (ps ! i) then [f (ps ! i)] else [0, 1, 2, 3, 4, 5, 6, 7])"
    "out = [] \<or> any_lock lock"
    using placed [where f = f and m = "length ps" and lock = lock, OF pos f] by auto
  have tiles: "tiles = board_tiles f ps"
    by (rule nth_equalityI) (use fin(2,3) in \<open>auto simp: board_tiles_def\<close>)
  have c: "c = map (\<lambda>p. if lock p then [f p] else [0, 1, 2, 3, 4, 5, 6, 7]) ps"
    by (rule nth_equalityI) (use fin(4,5) in auto)
  have "fold (put_tile hx f lock) ?ps2 ?s1 = (tiles, c, out)" using fin(1) unfolding ps by simp
  moreover have "filter_tiles tiles c = Inr (board_cells f lock ps)"
    using filter_tiles_ok [OF fin(2), of c] wf_initial [where f = f and lock = lock and ps = ps] f cells_left [where f = f and lock = lock and ps = ps]
    unfolding tiles c by simp
  ultimately show ?thesis
    using top bottom hx fin(6) unfolding read_file_def lines Let_def
    by (simp add: board_lines_def [of f lock s] py_int_py_str cnt with_place_def tiles)
qed

section \<open>Solutions by position, and their text\<close>

text \<open>
  A filling of the hexagon is right when every number in it is the number of its neighbours that
  are not empty. The text of a filling has one line per row, as \<open>print_pos\<close> writes it.
\<close>

definition fits :: "int \<Rightarrow> (int \<times> int \<Rightarrow> nat) \<Rightarrow> bool" where
  "fits s f \<longleftrightarrow> (\<forall>p \<in> set (hex_positions s). f p \<noteq> EMPTY \<longrightarrow>
     f p = length (filter (\<lambda>q. f q \<noteq> EMPTY) (neighbours s p)))"

definition value_text :: "nat \<Rightarrow> string" where
  "value_text v = (if v \<noteq> EMPTY then nat_str v else ''.'')"

definition filling_row :: "(int \<times> int \<Rightarrow> nat) \<Rightarrow> int \<Rightarrow> int list \<Rightarrow> int \<Rightarrow> string" where
  "filling_row f indent xs y =
     replicate (nat indent) CHR '' '' @ concat (map (\<lambda>x. value_text (f (x, y)) @ '' '') xs) @ [CHR 0x0A]"

definition filling_text :: "(int \<times> int \<Rightarrow> nat) \<Rightarrow> int \<Rightarrow> string" where
  "filling_text f s =
     concat (map (\<lambda>y. filling_row f (s - y - 1) [0..s + y - 1] y) [0..s - 1]) @
     concat (map (\<lambda>y. filling_row f y [y..s * 2 - 1 - 1] (s + y - 1)) [1..s - 1])"

lemma for_each_out:
  "(\<And>x out. x \<in> set xs \<Longrightarrow> f x out = Inr (out @ h x)) \<Longrightarrow> for_each xs f out = Inr (out @ concat (map h xs))"
  by (induction xs arbitrary: out) auto

lemma print_filling:
  assumes "g = map h (hex_positions (int (Suc k)))"
  shows "print_pos (the_board k) (map (\<lambda>v. [v]) g) = Inr (filling_text h (int (Suc k)))"
proof -
  let ?s = "int (Suc k)" and ?c = "map (\<lambda>v. [v]) g"
  have cell: "rbind (id_by_pos (the_board k) p) (\<lambda>id. Inr (out @ cell_text ?c id @ '' '')) =
      Inr (out @ value_text (h p) @ '' '')" if p: "p \<in> set (hex_positions ?s)" for p out
  proof -
    obtain i where i: "i < cells_of_size k" "hex_positions ?s ! i = p"
      using p unfolding in_set_conv_nth length_positions by blast
    then have "hx_nodes_by_pos (the_board k) p = Some i" by (simp add: the_board_ok(4))
    moreover have "?c ! i = [h p]" using i length_positions [of k] by (simp add: assms)
    ultimately show ?thesis by (simp add: id_by_pos_def cell_text_def value_text_def already_done_def)
  qed
  have row: "print_row (the_board k) ?c ind xs y out = Inr (out @ filling_row h ind xs y)"
    if "\<forall>x \<in> set xs. (x, y) \<in> set (hex_positions ?s)" for ind xs y out
    unfolding print_row_def filling_row_def using that
    by (subst for_each_out [where h = "\<lambda>x. value_text (h (x, y)) @ '' ''"]) (auto simp: cell)
  have pos: "(x, y) \<in> set (hex_positions ?s)" if "y \<in> set [0..?s - 1]" "x \<in> set [0..?s + y - 1]" for x y
    using that unfolding hex_positions_set in_hexagon_def by auto
  have pos': "(x, ?s + y - 1) \<in> set (hex_positions ?s)" if "y \<in> set [1..?s - 1]" "x \<in> set [y..?s * 2 - 1 - 1]" for x y
    using that unfolding hex_positions_set in_hexagon_def by auto
  show ?thesis
    unfolding print_pos_def the_board_ok(2) Let_def filling_text_def
    by (subst for_each_out [where h = "\<lambda>y. filling_row h (?s - y - 1) [0..?s + y - 1] y"], rule row, use pos in blast,
        subst rbind_simps, subst for_each_out [where h = "\<lambda>y. filling_row h y [y..?s * 2 - 1 - 1] (?s + y - 1)"],
        rule row, use pos' in blast, simp)
qed

text \<open>Assignments by index and fillings by position are the same thing.\<close>

lemma filled_around_pos:
  assumes "i < cells_of_size k"
  shows "filled_around (the_board k) (map h (hex_positions (int (Suc k)))) i =
    length (filter (\<lambda>q. h q \<noteq> EMPTY) (neighbours (int (Suc k)) (hex_positions (int (Suc k)) ! i)))"
proof -
  let ?ps = "hex_positions (int (Suc k))"
  have "filter (\<lambda>j. map h ?ps ! j \<noteq> EMPTY) (hex_links (the_board k) i) =
      filter (\<lambda>j. h (?ps ! j) \<noteq> EMPTY) (hex_links (the_board k) i)"
    by (rule filter_cong) (use the_board_ok(6) [OF assms] length_positions [of k] in auto)
  then show ?thesis
    unfolding filled_around_def the_board_ok(5) [OF assms, symmetric] filter_map by (simp add: o_def)
qed

lemma solution_fits:
  "solution (the_board k) tiles (map h (hex_positions (int (Suc k)))) \<longleftrightarrow>
   fits (int (Suc k)) h \<and> (\<forall>v < 8. int (count_list (map h (hex_positions (int (Suc k)))) v) = tiles ! v)"
  using length_positions [of k]
  by (auto simp: solution_def fits_def filled_around_pos all_set_conv_all_nth simp del: of_nat_Suc)

lemma as_filling:
  fixes g :: "nat list"
  assumes "length g = cells_of_size k"
  shows "\<exists>h. g = map h (hex_positions (int (Suc k)))"
proof
  show "g = map (\<lambda>p. g ! the (hx_nodes_by_pos (the_board k) p)) (hex_positions (int (Suc k)))"
  proof (rule nth_equalityI)
    fix i assume i: "i < length g"
    then have "hx_nodes_by_pos (the_board k) (hex_positions (int (Suc k)) ! i) = Some i"
      by (simp add: the_board_ok(4) assms del: of_nat_Suc)
    with i assms length_positions [of k]
    show "g ! i = map (\<lambda>p. g ! the (hx_nodes_by_pos (the_board k) p)) (hex_positions (int (Suc k))) ! i"
      by (simp del: of_nat_Suc)
  qed (simp only: length_map length_positions assms)
qed

lemma eight: "[0, 1, 2, 3, 4, 5, 6, 7] = [0..<8::nat]"
  by (simp add: upt_rec)

lemma agrees_board:
  "agrees (map h ps) (board_cells f lock ps) \<longleftrightarrow>
   (\<forall>p \<in> set ps. if lock p then h p = f p else h p < 8 \<and> h p \<in> f ` set ps)"
  unfolding agrees_def board_cells_def eight list_all2_map1 list_all2_map2 list.rel_refl
  by (auto simp: list_all2_same)

section \<open>\<open>check_valid\<close>\<close>

definition tiles_total :: "int list \<Rightarrow> int" where
  "tiles_total tiles = (\<Sum>v < 8. max 0 (tiles ! v))"

lemma check_valid_eq:
  assumes "length tiles = 8"
  shows "check_valid hx tiles = (if tiles_total tiles = hx_count hx then Inr (map (max 0) tiles)
    else Inl (UserException (''Invalid input. Expected '' @ py_str (hx_count hx) @ '' tiles, got '' @
      py_str (tiles_total tiles) @ ''.'')))"
proof -
  let ?f = "\<lambda>i (tot, tiles). rbind (lget tiles i) (\<lambda>t.
       if t > 0 then Inr (tot + t, tiles) else rbind (lset tiles i 0) (\<lambda>tiles. Inr (tot :: int, tiles)))"
  let ?I = "\<lambda>k (tot, ts). tot = (\<Sum>v < k. max 0 (tiles ! v)) \<and> ts = map (max 0) (take k tiles) @ drop k tiles"
  have "\<exists>s. for_each [0..<8] ?f (0, tiles) = Inr s \<and> ?I (length [0..<8]) s"
  proof (rule for_each_count)
    show "?I 0 (0, tiles)" by simp
  next
    fix k u assume k: "k < length [0..<8]" and I: "?I k u"
    have k8: "k < length tiles" using k assms by simp
    have d: "drop k tiles = tiles ! k # drop (Suc k) tiles" using k8 by (simp add: Cons_nth_drop_Suc)
    have t: "take (Suc k) tiles = take k tiles @ [tiles ! k]" using k8 by (simp add: take_Suc_conv_app_nth)
    obtain tot ts where u: "u = (tot, ts)" by (cases u)
    show "\<exists>u'. ?f ([0..<8] ! k) u = Inr u' \<and> ?I (Suc k) u'"
      using I k k8 unfolding u by (auto simp: d t nth_append list_update_append max_def)
  qed
  then have "for_each [0..<8] ?f (0, tiles) = Inr (tiles_total tiles, map (max 0) tiles)"
    using assms by (auto simp: tiles_total_def)
  then show ?thesis by (simp add: check_valid_def)
qed

lemma check_valid_ok:
  assumes "valid_tiles n tiles" and "hx_count hx = int n"
  shows "check_valid hx tiles = Inr tiles"
proof -
  have nn: "0 \<le> tiles ! v" if "v < 8" for v using assms(1) that by (simp add: valid_tiles_def)
  have len: "length tiles = 8" using assms(1) by (simp add: valid_tiles_def)
  have "tiles_total tiles = (\<Sum>v < 8. tiles ! v)"
    unfolding tiles_total_def by (rule sum.cong) (use nn in auto)
  then have "tiles_total tiles = int n" using assms(1) by (simp add: valid_tiles_def)
  moreover have "map (max 0) tiles = tiles"
    by (rule nth_equalityI) (use nn len in auto)
  ultimately show ?thesis using check_valid_eq [OF len, of hx] assms(2) by simp
qed

lemma valid_board_tiles:
  assumes "\<And>p. f p < 8"
  shows "valid_tiles (length ps) (board_tiles f ps)"
proof -
  have "(\<Sum>v < 8. int (count_list (map f ps) v)) = int (length ps)"
    using sum_count_set [of "map f ps" "{..<8}"] assms by (simp add: image_subset_iff flip: of_nat_sum)
  then show ?thesis by (simp add: valid_tiles_def board_tiles_def)
qed

lemma board_cells_wf: "(\<And>p. f p < 8) \<Longrightarrow> wf_cells (board_cells f lock ps)"
  unfolding wf_cells_def board_cells_def eight by auto

lemma dirs_neg: "(a, b) \<in> set DIRS \<Longrightarrow> (- a, - b) \<in> set DIRS"
  by (auto simp: DIRS_def)

lemma neighbours_mem:
  "q \<in> set (neighbours s p) \<longleftrightarrow> in_hexagon s q \<and> (fst q - fst p, snd q - snd p) \<in> set DIRS"
proof -
  have "q \<in> (\<lambda>(dx, dy). (fst p + dx, snd p + dy)) ` set DIRS \<longleftrightarrow> (fst q - fst p, snd q - snd p) \<in> set DIRS"
    by (cases q) (force simp: image_iff)
  then show ?thesis unfolding neighbours_def by (auto simp: split_def)
qed

section \<open>The properties\<close>

text \<open>
  C18: for every size from 1 on the constructor and \<open>link_nodes\<close> build a board of 3s(s - 1) + 1
  cells whose positions are the hexagon, every position with one id; the links of a cell are its
  neighbours, at most six, different from each other, and being linked is symmetric.
\<close>

theorem hex_geometry:
  fixes k :: nat
  defines "s \<equiv> int (Suc k)"
  shows "\<exists>hx n ps. board s = Inr hx \<and> hx_count hx = int n \<and> int n = 3 * s * (s - 1) + 1 \<and>
    length ps = n \<and> distinct ps \<and> (\<forall>p. p \<in> set ps = in_hexagon s p) \<and>
    (\<forall>p. contains_pos hx p = in_hexagon s p) \<and> (\<forall>p i. (id_by_pos hx p = Inr i) = (i < n \<and> ps ! i = p)) \<and>
    (\<forall>i. i \<in> {..<n} \<longrightarrow> map ((!) ps) (hex_links hx i) = neighbours s (ps ! i) \<and> length (hex_links hx i) \<le> 6 \<and>
       distinct (hex_links hx i) \<and> (\<forall>j. (j \<in> set (hex_links hx i)) = (j < n \<and> i \<in> set (hex_links hx j))))"
proof (intro exI conjI allI impI)
  let ?hx = "the_board k" and ?n = "cells_of_size k" and ?ps = "hex_positions s"
  note ok = the_board_ok [where k = k, folded s_def]
  note len = length_positions [of k, folded s_def]
  show "board s = Inr ?hx" "hx_count ?hx = int ?n" using ok by simp_all
  show "int ?n = 3 * s * (s - 1) + 1" using length_hex_positions [of k] len by (simp add: s_def)
  show "length ?ps = ?n" "distinct ?ps" using len distinct_hex_positions by auto
  show "p \<in> set ?ps = in_hexagon s p" for p by (rule hex_positions_set)
  then show "contains_pos ?hx p = in_hexagon s p" for p
    unfolding contains_pos_def by (metis in_set_conv_nth len not_None_eq ok(4))
  show "(id_by_pos ?hx p = Inr i) = (i < ?n \<and> ?ps ! i = p)" for p i
    unfolding ok(4) [symmetric] by (auto simp: id_by_pos_def split: option.splits)
  fix i assume "i \<in> {..<?n}"
  then have i: "i < ?n" by simp
  show links: "map ((!) ?ps) (hex_links ?hx i) = neighbours s (?ps ! i)" using ok(5) [OF i] .
  show "length (hex_links ?hx i) \<le> 6" "distinct (hex_links ?hx i)"
    using board.links_six [OF i] board.links_distinct [OF i] by simp_all
  have sym: "q \<in> set (neighbours s p) \<Longrightarrow> in_hexagon s p \<Longrightarrow> p \<in> set (neighbours s q)" for p q
    using dirs_neg [of "fst q - fst p" "snd q - snd p"] by (simp add: neighbours_mem)
  have half: "a \<in> set (hex_links ?hx b)" if ab: "a < ?n" "b < ?n" "b \<in> set (hex_links ?hx a)" for a b
  proof -
    have "?ps ! b \<in> set (map ((!) ?ps) (hex_links ?hx a))" using ab(3) by simp
    then have nb: "?ps ! b \<in> set (neighbours s (?ps ! a))" unfolding ok(5) [OF ab(1)] .
    have "?ps ! a \<in> set ?ps" using ab(1) len by simp
    then have "in_hexagon s (?ps ! a)" by (simp only: hex_positions_set)
    with nb have "?ps ! a \<in> set (neighbours s (?ps ! b))" by (rule sym)
    then obtain a' where "a' \<in> set (hex_links ?hx b)" "?ps ! a' = ?ps ! a"
      unfolding ok(5) [OF ab(2), symmetric] by auto
    then show ?thesis
      using ok(6) [OF ab(2)] ab(1) len distinct_hex_positions [of s] by (metis nth_eq_iff_index_eq)
  qed
  show "(j \<in> set (hex_links ?hx i)) = (j < ?n \<and> i \<in> set (hex_links ?hx j))" for j
    using half [OF i] half [OF _ i] ok(6) [OF i] by blast
qed

text \<open>
  C17: a pass of the constraints on a board succeeds, only narrows the cells, never changes a
  cell that is fixed, reports a change only when a value went away, and loses no solution.
\<close>

theorem constraint_pass_sound:
  assumes "wf_cells c" and "length c = cells_of_size k" and "length tiles = 8"
    and "last_move = None \<or> (\<exists>m < cells_of_size k. last_move = Some m)"
  shows "\<exists>changed c'. constraint_pass (the_board k) tiles last_move c = Inr (changed, c') \<and>
    length c' = length c \<and> (\<forall>i \<in> {..<length c}. set (c' ! i) \<subseteq> set (c ! i)) \<and>
    (\<forall>i \<in> {..<length c}. already_done c i \<longrightarrow> c' ! i = c ! i) \<and> (changed \<longrightarrow> weight c' < weight c) \<and>
    (\<forall>f. solution (the_board k) tiles f \<longrightarrow> agrees f c' = agrees f c)"
proof -
  obtain s where s: "constraint_pass (the_board k) tiles last_move c = Inr s" "refines (the_board k) tiles (False, c) s"
    using board.pass_ok [OF assms(1-3), of last_move] assms(4) by auto
  then show ?thesis
    using narrows_agrees [of c "snd s"]
    by (intro exI [of _ "fst s"] exI [of _ "snd s"]) (auto simp: refines_def narrows_def already_done_def)
qed

lemma hexiom_solve:
  assumes "wf_cells c" and "length c = cells_of_size k" and "valid_tiles (cells_of_size k) tiles"
    and "strategy \<in> {0..5}"
  shows "(\<exists>h out. solve (the_board k) tiles strategy order c = Inr (SOLVED, filling_text h (int (Suc k))) \<and>
      solution (the_board k) tiles (map h (hex_positions (int (Suc k)))) \<and> agrees (map h (hex_positions (int (Suc k)))) c) \<or>
    ((\<forall>f. solution (the_board k) tiles f \<longrightarrow> \<not> agrees f c) \<and>
     ((\<exists>out. solve (the_board k) tiles strategy order c = Inr (IMPOSSIBLE, out)) \<or>
      (strategy = HIGHEST_VALUE_STRATEGY \<and> solve (the_board k) tiles strategy order c = Inl ValueError)))"
proof -
  have "check_valid (the_board k) tiles = Inr tiles"
    using check_valid_ok [OF assms(3)] the_board_ok(3) [of k] by blast
  then have eq: "solve (the_board k) tiles strategy order c =
      solve_step (Suc (weight c)) (the_board k) tiles strategy order True c"
    by (simp add: solve_def)
  have sol: "\<exists>h. f = map h (hex_positions (int (Suc k))) \<and> out = filling_text h (int (Suc k))"
    if "agrees f c" "print_pos (the_board k) (map (\<lambda>v. [v]) f) = Inr out" for f out
  proof -
    have "length f = cells_of_size k" using that(1) assms(2) by (simp add: agrees_nth)
    then obtain h where h: "f = map h (hex_positions (int (Suc k)))" using as_filling by blast
    with that(2) print_filling [OF h] show ?thesis by auto
  qed
  show ?thesis
    using board.solve_right [OF assms(1-4), of "Suc (weight c)" order] sol
    unfolding eq board.right_answer_def by blast
qed

text \<open>
  C13: the search of \<open>solve\<close>, for every strategy and order and any position, ends with
  \<open>SOLVED\<close> and the printed text of a solution within the position when there is one, and otherwise
  with \<open>IMPOSSIBLE\<close>, or with the \<open>ValueError\<close> of \<open>HIGHEST_VALUE_STRATEGY\<close>.
\<close>

theorem hexiom_search:
  assumes "wf_cells c" and "length c = cells_of_size k" and "valid_tiles (cells_of_size k) tiles"
    and "strategy \<in> {0..5}"
  shows "(\<exists>h out. solve (the_board k) tiles strategy order c = Inr (SOLVED, filling_text h (int (Suc k))) \<and>
      solution (the_board k) tiles (map h (hex_positions (int (Suc k)))) \<and> agrees (map h (hex_positions (int (Suc k)))) c) \<or>
    ((\<forall>f. solution (the_board k) tiles f \<longrightarrow> \<not> agrees f c) \<and>
     ((\<exists>out. solve (the_board k) tiles strategy order c = Inr (IMPOSSIBLE, out)) \<or>
      (strategy = HIGHEST_VALUE_STRATEGY \<and> solve (the_board k) tiles strategy order c = Inl ValueError)))"
  by (rule hexiom_solve [OF assms])

text \<open>
  C12: a board written in the format of the file, with any tiles \<open>f\<close> of which some are locked, is
  read back, and if there is a right filling \<open>g\<close> with these tiles that keeps the locked ones, the
  run prints such a filling, for every strategy and order, after the lines about locked tiles.
\<close>

theorem hexiom_file:
  fixes k :: nat
  defines "s \<equiv> int (Suc k)"
  assumes "\<And>p. f p < 8" and "fits s g" and "mset (map g (hex_positions s)) = mset (map f (hex_positions s))"
    and "\<And>p. lock p \<Longrightarrow> g p = f p" and "strategy \<in> {0..5}"
  shows "\<exists>out h. solve_file (board_text f lock s) strategy order = Inr (out @ filling_text h s) \<and>
    fits s h \<and> mset (map h (hex_positions s)) = mset (map f (hex_positions s)) \<and>
    (\<forall>p \<in> set (hex_positions s). lock p \<longrightarrow> h p = f p) \<and> (out = [] \<or> any_lock lock)"
proof -
  let ?ps = "hex_positions s" and ?t = "board_tiles f (hex_positions s)" and ?c = "board_cells f lock (hex_positions s)"
  obtain out where read: "read_file (board_text f lock s) = Inr (the_board k, ?t, ?c, out)"
    and out: "out = [] \<or> any_lock lock"
    using read_board [of f lock k] assms(2) unfolding s_def by blast
  have n: "length ?ps = cells_of_size k" unfolding s_def by (rule length_positions)
  have valid: "valid_tiles (cells_of_size k) ?t" using valid_board_tiles [OF assms(2), where ps = ?ps] n by simp
  have "count (mset (map g ?ps)) v = count (mset (map f ?ps)) v" for v using assms(4) by simp
  then have counts: "?t ! v = int (count_list (map f ?ps) v)" "int (count_list (map g ?ps) v) = ?t ! v"
    if "v < 8" for v using that by (simp_all only: count_mset) (simp_all add: board_tiles_def)
  have "g ` set ?ps = f ` set ?ps" using arg_cong [OF assms(4), of set_mset] by simp
  then have gf: "g p \<in> f ` set ?ps" "g p < 8" if "p \<in> set ?ps" for p using imageI [of p "set ?ps" g] that assms(2) by auto
  have "solution (the_board k) ?t (map g ?ps)"
    unfolding s_def solution_fits using assms(3) counts by (simp add: s_def)
  moreover have "agrees (map g ?ps) ?c" using assms(5) gf by (simp add: agrees_board)
  moreover have wf: "wf_cells ?c" using assms(2) by (rule board_cells_wf)
  ultimately obtain h where h: "solve (the_board k) ?t strategy order ?c = Inr (SOLVED, filling_text h s)"
    "solution (the_board k) ?t (map h ?ps)" "agrees (map h ?ps) ?c"
    using hexiom_solve [OF wf _ valid assms(6), where order = order] n unfolding s_def by (auto simp: board_cells_def)
  have "fits s h" and same: "\<forall>v < 8. int (count_list (map h ?ps) v) = ?t ! v"
    using h(2) unfolding s_def solution_fits by simp_all
  have locked: "\<forall>p \<in> set ?ps. if lock p then h p = f p else h p < 8 \<and> h p \<in> f ` set ?ps"
    using h(3) by (simp only: agrees_board)
  have "h p < 8" if "p \<in> set ?ps" for p using locked that assms(2) [of p] by (metis (full_types))
  then have out8: "count_list (map g ?ps) v = 0" if "g = h \<or> g = f" "\<not> v < 8" for g v
    using that assms(2) by (auto simp: count_list_0_iff)
  have "count_list (map h ?ps) v = count_list (map f ?ps) v" for v
    using same counts [of v] out8 by (cases "v < 8") auto
  then have "mset (map h ?ps) = mset (map f ?ps)"
    by (intro multiset_eqI) (simp only: count_mset)
  moreover have "solve_file (board_text f lock s) strategy order = Inr (out @ filling_text h s)"
    by (simp add: solve_file_def read h(1))
  ultimately show ?thesis using \<open>fits s h\<close> locked out by metis
qed

text \<open>
  The board of the benchmark, \<open>level36\<close>: its tiles as they are laid out in the file, and the
  expected answer, which is a right filling with the same tiles.
\<close>

definition filling :: "nat list \<Rightarrow> int \<Rightarrow> int \<times> int \<Rightarrow> nat" where
  "filling vs s p = (case map_of (zip (hex_positions s) vs) p of Some v \<Rightarrow> v | None \<Rightarrow> 0)"

definition level36_tiles :: "nat list" where
  "level36_tiles = [2, 1, 1, 2, 3, 3, 3, 7, 7, 2, 3, 3, 7, 4, 7, 7, 2, 7, 2, 4, 3, 2,
     2, 2, 7, 7, 7, 2, 4, 3, 4, 7, 7, 3, 2, 3, 3]"

definition level36_answer :: "nat list" where
  "level36_answer = [3, 4, 3, 2, 3, 4, 4, 7, 3, 2, 7, 7, 3, 4, 3, 2, 7, 1, 7, 3, 7, 2,
     3, 3, 7, 2, 7, 2, 3, 7, 2, 7, 2, 2, 2, 7, 1]"

lemma level36_text_board: "level36_text = board_text (filling level36_tiles 4) (\<lambda>p. False) 4"
  by code_simp

lemma level36_expected_filling: "level36_expected = filling_text (filling level36_answer 4) 4"
  by code_simp

lemma level36_fits: "fits 4 (filling level36_answer 4)"
  by code_simp

lemma level36_same_tiles:
  "mset (map (filling level36_answer 4) (hex_positions 4)) = mset (map (filling level36_tiles 4) (hex_positions 4))"
  by code_simp

theorem hexiom_file_witness:
  "\<exists>h. solve_file level36_text FIRST_STRATEGY DESCENDING = Inr (filling_text h 4) \<and> fits 4 h \<and>
    mset (map h (hex_positions 4)) = mset (map (filling level36_tiles 4) (hex_positions 4))"
proof -
  have small: "filling level36_tiles 4 p < 8" for p
    by (auto simp: filling_def level36_tiles_def dest!: map_of_SomeD set_zip_rightD split: option.splits)
  have "\<exists>out h. solve_file (board_text (filling level36_tiles 4) (\<lambda>p. False) (int (Suc 3))) FIRST_STRATEGY DESCENDING =
      Inr (out @ filling_text h (int (Suc 3))) \<and> fits (int (Suc 3)) h \<and>
    mset (map h (hex_positions (int (Suc 3)))) = mset (map (filling level36_tiles 4) (hex_positions (int (Suc 3)))) \<and>
    (\<forall>p \<in> set (hex_positions (int (Suc 3))). False \<longrightarrow> h p = filling level36_tiles 4 p) \<and>
    (out = [] \<or> any_lock (\<lambda>p. False))"
    by (rule hexiom_file [where g = "filling level36_answer 4"])
      (use small level36_fits level36_same_tiles in \<open>simp_all add: FIRST_STRATEGY_def\<close>)
  then show ?thesis unfolding level36_text_board by (auto simp: any_lock_def)
qed

theorem hex_geometry_witness:
  "\<exists>hx. board 2 = Inr hx \<and> hx_count hx = 7 \<and> contains_pos hx (1, 1) \<and> \<not> contains_pos hx (0, 2)"
proof -
  have "in_hexagon 2 (1, 1)" "\<not> in_hexagon 2 (0, 2)" by (simp_all add: in_hexagon_def)
  then show ?thesis using hex_geometry [of 1] by auto
qed

theorem constraint_pass_sound_witness:
  "\<exists>changed c'. constraint_pass (the_board 1) [0, 0, 0, 6, 0, 0, 1, 0] None (new_done 7) = Inr (changed, c') \<and>
    length c' = 7 \<and> (changed \<longrightarrow> weight c' < 56)"
proof -
  have "wf_cells (new_done 7)" "length (new_done 7) = cells_of_size 1" "length [0, 0, 0, 6, 0, 0, 1, 0 :: int] = 8"
    "weight (new_done 7) = 56" "length (new_done 7) = 7" "cells_of_size 1 = 7"
    by code_simp+
  then show ?thesis
    using constraint_pass_sound [of "new_done 7" 1 "[0, 0, 0, 6, 0, 0, 1, 0]" None] by auto
qed

theorem hexiom_search_witness:
  "(\<exists>h. solve (the_board 0) [1, 0, 0, 0, 0, 0, 0, 0] FIRST_STRATEGY DESCENDING [[0, 7]] =
      Inr (SOLVED, filling_text h 1) \<and> h (0, 0) = 0)"
proof -
  have hyps: "wf_cells [[0, 7]]" "length [[0, 7 :: nat]] = cells_of_size 0"
    "valid_tiles (cells_of_size 0) [1, 0, 0, 0, 0, 0, 0, 0]" "FIRST_STRATEGY \<in> {0..5}"
    by code_simp+
  have "solution (the_board 0) [1, 0, 0, 0, 0, 0, 0, 0] [0]" by code_simp
  moreover have "agrees [0] [[0, 7]]" by code_simp
  ultimately obtain h where h: "solve (the_board 0) [1, 0, 0, 0, 0, 0, 0, 0] FIRST_STRATEGY DESCENDING [[0, 7]] =
      Inr (SOLVED, filling_text h (int (Suc 0)))"
    "solution (the_board 0) [1, 0, 0, 0, 0, 0, 0, 0] (map h (hex_positions (int (Suc 0))))"
    using hexiom_search [OF hyps, of DESCENDING] by metis
  have "hex_positions (int (Suc 0)) = [(0, 0)]" by code_simp
  then have "solution (the_board 0) [1, 0, 0, 0, 0, 0, 0, 0] [h (0, 0)]" using h(2) by simp
  then have "\<forall>v < 8. int (count_list [h (0, 0)] v) = [1, 0, 0, 0, 0, 0, 0, 0] ! v"
    unfolding solution_def by blast
  from this [rule_format, of 0] have "h (0, 0) = 0" by (simp split: if_splits)
  with h(1) show ?thesis by auto
qed

text \<open>
  C19: the errors of the search: a strategy that is none of the six raises as soon as a cell is
  to be chosen, tiles that are not as many as the cells are refused with a message, and
  \<open>HIGHEST_VALUE_STRATEGY\<close> raises a \<open>ValueError\<close> on a position with an empty cell.
\<close>

theorem hexiom_errors:
  "(strategy \<notin> {0..5} \<longrightarrow> next_cell hx c strategy = Inl (UserException (''Wrong strategy: '' @ py_str strategy))) \<and>
   (length tiles = 8 \<and> tiles_total tiles \<noteq> hx_count hx \<longrightarrow> solve hx tiles strategy order c =
     Inl (UserException (''Invalid input. Expected '' @ py_str (hx_count hx) @ '' tiles, got '' @
       py_str (tiles_total tiles) @ ''.''))) \<and>
   ([] \<in> set c \<longrightarrow> next_cell hx c HIGHEST_VALUE_STRATEGY = Inl ValueError)"
proof (intro conjI impI)
  show "next_cell hx c strategy = Inl (UserException (''Wrong strategy: '' @ py_str strategy))"
    if "strategy \<notin> {0..5}" using that by (auto simp: next_cell_def strategy_defs)
  show "solve hx tiles strategy order c =
     Inl (UserException (''Invalid input. Expected '' @ py_str (hx_count hx) @ '' tiles, got '' @
       py_str (tiles_total tiles) @ ''.''))" if "length tiles = 8 \<and> tiles_total tiles \<noteq> hx_count hx"
    using check_valid_eq [of tiles hx] that by (simp add: solve_def)
  show "next_cell hx c HIGHEST_VALUE_STRATEGY = Inl ValueError" if "[] \<in> set c"
    using that highest_value_raises [of _ c] by (auto simp: next_cell_def in_set_conv_nth)
qed

theorem hexiom_errors_witness:
  "next_cell (the_board 0) [[0, 7]] 6 = Inl (UserException ''Wrong strategy: 6'') \<and>
   solve (the_board 0) [2, 0, 0, 0, 0, 0, 0, 0] 0 1 [[0, 7]] =
     Inl (UserException ''Invalid input. Expected 1 tiles, got 2.'') \<and>
   next_cell (the_board 0) [[]] HIGHEST_VALUE_STRATEGY = Inl ValueError"
proof -
  have "py_str 6 = ''6''" "py_str 1 = ''1''" "py_str 2 = ''2''" "hx_count (the_board 0) = 1"
    "tiles_total [2, 0, 0, 0, 0, 0, 0, 0] = 2" by code_simp+
  then show ?thesis
    using hexiom_errors [of 6 "the_board 0" "[[0, 7]]" "[2, 0, 0, 0, 0, 0, 0, 0]"]
      hexiom_errors [of 0 "the_board 0" "[[0, 7]]" "[2, 0, 0, 0, 0, 0, 0, 0]" 1]
      hexiom_errors [of 0 "the_board 0" "[[]]"] by simp
qed

end
