(* ===== verification/Richards.thy ===== *)
theory Richards
  imports PyText
begin

unbundle bit_operations_syntax

text \<open>
  \<^verbatim>\<open>unladen_swallow/performance/richards.py\<close>: the operating-system simulation. Packets and tasks are
  objects with identity that are linked to each other, so the state holds them in two lists and a
  reference is a position: a packet is queued by writing the \<open>link\<close> of the last packet of a queue.
  The global \<open>taskWorkArea\<close> is part of the state. \<open>tracing\<close> is \<open>False\<close> throughout the program.
\<close>

section \<open>Packets\<close>

definition I_IDLE :: nat where "I_IDLE = 1"
definition I_WORK :: nat where "I_WORK = 2"
definition I_HANDLERA :: nat where "I_HANDLERA = 3"
definition I_HANDLERB :: nat where "I_HANDLERB = 4"
definition I_DEVA :: nat where "I_DEVA = 5"
definition I_DEVB :: nat where "I_DEVB = 6"

definition K_DEV :: int where "K_DEV = 1000"
definition K_WORK :: int where "K_WORK = 1001"

definition BUFSIZE :: nat where "BUFSIZE = 4"

lemmas task_ids = I_IDLE_def I_WORK_def I_HANDLERA_def I_HANDLERB_def I_DEVA_def I_DEVB_def

record packet =
  pk_link :: "nat option"
  pk_ident :: nat
  pk_kind :: int
  pk_datum :: int
  pk_data :: "int list"

definition Packet :: "nat option \<Rightarrow> nat \<Rightarrow> int \<Rightarrow> packet" where
  "Packet l i k = \<lparr>pk_link = l, pk_ident = i, pk_kind = k, pk_datum = 0, pk_data = replicate BUFSIZE 0\<rparr>"

text \<open>
  The loop of \<open>append_to\<close> that looks for the last packet. The fuel is the number of packets,
  which no queue exceeds.
\<close>

fun last_packet :: "nat \<Rightarrow> packet list \<Rightarrow> nat \<Rightarrow> nat result" where
  "last_packet 0 ps p = Inl OutOfFuel"
| "last_packet (Suc fuel) ps p =
     rbind (lget ps p) (\<lambda>pk. case pk_link pk of None \<Rightarrow> Inr p | Some nxt \<Rightarrow> last_packet fuel ps nxt)"

definition set_link :: "nat \<Rightarrow> nat option \<Rightarrow> packet list \<Rightarrow> packet list result" where
  "set_link p l ps = rbind (lget ps p) (\<lambda>pk. lset ps p (pk\<lparr>pk_link := l\<rparr>))"

definition append_to :: "nat \<Rightarrow> nat option \<Rightarrow> packet list \<Rightarrow> (nat \<times> packet list) result" where
  "append_to self lst ps =
     rbind (set_link self None ps) (\<lambda>ps.
     case lst of
       None \<Rightarrow> Inr (self, ps)
     | Some l \<Rightarrow>
         rbind (last_packet (length ps) ps l) (\<lambda>p.
         rbind (set_link p (Some self) ps) (\<lambda>ps. Inr (l, ps))))"

section \<open>Tasks\<close>

datatype task_rec =
    DeviceTaskRec "nat option"
  | IdleTaskRec nat int
  | HandlerTaskRec "nat option" "nat option"
  | WorkerTaskRec nat int

definition new_device_rec :: task_rec where "new_device_rec = DeviceTaskRec None"
definition new_idle_rec :: task_rec where "new_idle_rec = IdleTaskRec 1 10000"
definition new_handler_rec :: task_rec where "new_handler_rec = HandlerTaskRec None None"
definition new_worker_rec :: task_rec where "new_worker_rec = WorkerTaskRec I_HANDLERA 0"

record task_state =
  packet_pending :: bool
  task_waiting :: bool
  task_holding :: bool

definition TaskState :: task_state where
  "TaskState = \<lparr>packet_pending = True, task_waiting = False, task_holding = False\<rparr>"

definition packetPending :: "'a task_state_scheme \<Rightarrow> 'a task_state_scheme" where
  "packetPending s = s\<lparr>packet_pending := True, task_waiting := False, task_holding := False\<rparr>"

definition waiting :: "'a task_state_scheme \<Rightarrow> 'a task_state_scheme" where
  "waiting s = s\<lparr>packet_pending := False, task_waiting := True, task_holding := False\<rparr>"

definition running :: "'a task_state_scheme \<Rightarrow> 'a task_state_scheme" where
  "running s = s\<lparr>packet_pending := False, task_waiting := False, task_holding := False\<rparr>"

definition waitingWithPacket :: "'a task_state_scheme \<Rightarrow> 'a task_state_scheme" where
  "waitingWithPacket s = s\<lparr>packet_pending := True, task_waiting := True, task_holding := False\<rparr>"

definition isTaskHoldingOrWaiting :: "'a task_state_scheme \<Rightarrow> bool" where
  "isTaskHoldingOrWaiting s \<longleftrightarrow> task_holding s \<or> (\<not> packet_pending s \<and> task_waiting s)"

definition isWaitingWithPacket :: "'a task_state_scheme \<Rightarrow> bool" where
  "isWaitingWithPacket s \<longleftrightarrow> packet_pending s \<and> task_waiting s \<and> \<not> task_holding s"

text \<open>\<open>Task\<close> extends \<open>TaskState\<close>; its subclasses differ in \<open>fn\<close> only.\<close>

datatype task_class = DeviceTask | HandlerTask | IdleTask | WorkTask

record task = task_state +
  tk_class :: task_class
  tk_link :: "nat option"
  tk_ident :: nat
  tk_priority :: int
  tk_input :: "nat option"
  tk_handle :: task_rec

record world =
  packets :: "packet list"
  tasks :: "task list"
  taskTab :: "nat option list"
  taskList :: "nat option"
  holdCount :: int
  qpktCount :: int

definition TASKTABSIZE :: nat where "TASKTABSIZE = 10"

definition TaskWorkArea :: world where
  "TaskWorkArea = \<lparr>packets = [], tasks = [], taskTab = replicate TASKTABSIZE None, taskList = None,
     holdCount = 0, qpktCount = 0\<rparr>"

definition new_packet :: "nat option \<Rightarrow> nat \<Rightarrow> int \<Rightarrow> world \<Rightarrow> nat \<times> world" where
  "new_packet l i k w = (length (packets w), w\<lparr>packets := packets w @ [Packet l i k]\<rparr>)"

definition Task :: "task_class \<Rightarrow> nat \<Rightarrow> int \<Rightarrow> nat option \<Rightarrow> task_state \<Rightarrow> task_rec \<Rightarrow> world \<Rightarrow> world result" where
  "Task cls i p inp initialState r w =
     (let t = length (tasks w);
          tk = \<lparr>packet_pending = packet_pending initialState, task_waiting = task_waiting initialState,
                task_holding = task_holding initialState, tk_class = cls, tk_link = taskList w, tk_ident = i,
                tk_priority = p, tk_input = inp, tk_handle = r\<rparr> in
      rbind (lset (taskTab w) i (Some t)) (\<lambda>tab.
      Inr (w\<lparr>tasks := tasks w @ [tk], taskList := Some t, taskTab := tab\<rparr>)))"

text \<open>\<open>IdleTask.__init__\<close> ignores its priority and its packets.\<close>

definition new_idle_task :: "nat \<Rightarrow> int \<Rightarrow> nat option \<Rightarrow> task_state \<Rightarrow> task_rec \<Rightarrow> world \<Rightarrow> world result" where
  "new_idle_task i p inp s r w = Task IdleTask i 0 None s r w"

text \<open>Writing to an attribute of a task.\<close>

definition set_task :: "nat \<Rightarrow> (task \<Rightarrow> task) \<Rightarrow> world \<Rightarrow> world result" where
  "set_task t f w = rbind (lget (tasks w) t) (\<lambda>tk.
     rbind (lset (tasks w) t (f tk)) (\<lambda>ts. Inr (w\<lparr>tasks := ts\<rparr>)))"

definition set_packet :: "nat \<Rightarrow> (packet \<Rightarrow> packet) \<Rightarrow> world \<Rightarrow> world result" where
  "set_packet p f w = rbind (lget (packets w) p) (\<lambda>pk.
     rbind (lset (packets w) p (f pk)) (\<lambda>ps. Inr (w\<lparr>packets := ps\<rparr>)))"

definition append_packet :: "nat \<Rightarrow> nat option \<Rightarrow> world \<Rightarrow> (nat \<times> world) result" where
  "append_packet p lst w =
     rbind (append_to p lst (packets w)) (\<lambda>(l, ps). Inr (l, w\<lparr>packets := ps\<rparr>))"

definition addPacket :: "nat \<Rightarrow> nat \<Rightarrow> nat \<Rightarrow> world \<Rightarrow> (nat \<times> world) result" where
  "addPacket self p old w =
     rbind (lget (tasks w) self) (\<lambda>tk.
     case tk_input tk of
       None \<Rightarrow>
         rbind (set_task self (\<lambda>tk. tk\<lparr>tk_input := Some p, packet_pending := True\<rparr>) w) (\<lambda>w.
         rbind (lget (tasks w) old) (\<lambda>otk.
         if tk_priority tk > tk_priority otk then Inr (self, w) else Inr (old, w)))
     | Some l \<Rightarrow> rbind (append_packet p (Some l) w) (\<lambda>(_, w). Inr (old, w)))"

definition waitTask :: "nat \<Rightarrow> world \<Rightarrow> (nat option \<times> world) result" where
  "waitTask self w = rbind (set_task self (\<lambda>tk. tk\<lparr>task_waiting := True\<rparr>) w) (\<lambda>w. Inr (Some self, w))"

definition hold :: "nat \<Rightarrow> world \<Rightarrow> (nat option \<times> world) result" where
  "hold self w =
     rbind (set_task self (\<lambda>tk. tk\<lparr>task_holding := True\<rparr>) (w\<lparr>holdCount := holdCount w + 1\<rparr>)) (\<lambda>w.
     rbind (lget (tasks w) self) (\<lambda>tk. Inr (tk_link tk, w)))"

definition findtcb :: "nat \<Rightarrow> world \<Rightarrow> nat result" where
  "findtcb i w = rbind (lget (taskTab w) i) (\<lambda>t.
     case t of None \<Rightarrow> Inl (UserException (''Bad task id '' @ nat_str i)) | Some t \<Rightarrow> Inr t)"

definition release :: "nat \<Rightarrow> nat \<Rightarrow> world \<Rightarrow> (nat option \<times> world) result" where
  "release self i w =
     rbind (findtcb i w) (\<lambda>t.
     rbind (set_task t (\<lambda>tk. tk\<lparr>task_holding := False\<rparr>) w) (\<lambda>w.
     rbind (lget (tasks w) t) (\<lambda>tk.
     rbind (lget (tasks w) self) (\<lambda>stk.
     if tk_priority tk > tk_priority stk then Inr (Some t, w) else Inr (Some self, w)))))"

definition qpkt :: "nat \<Rightarrow> nat \<Rightarrow> world \<Rightarrow> (nat option \<times> world) result" where
  "qpkt self pkt w =
     rbind (lget (packets w) pkt) (\<lambda>pk.
     rbind (findtcb (pk_ident pk) w) (\<lambda>t.
     rbind (lget (tasks w) self) (\<lambda>stk.
     rbind (set_packet pkt (\<lambda>pk. pk\<lparr>pk_link := None, pk_ident := tk_ident stk\<rparr>) (w\<lparr>qpktCount := qpktCount w + 1\<rparr>)) (\<lambda>w.
     rbind (addPacket t pkt self w) (\<lambda>(t, w). Inr (Some t, w))))))"

section \<open>What the tasks do\<close>

text \<open>The \<open>assert isinstance\<close> of every \<open>fn\<close> is the match on the constructor of the record.\<close>

definition device_fn :: "nat \<Rightarrow> nat option \<Rightarrow> task_rec \<Rightarrow> world \<Rightarrow> (nat option \<times> world) result" where
  "device_fn self pkt r w = (case r of
      DeviceTaskRec pending \<Rightarrow>
       (case pkt of
          None \<Rightarrow>
           (case pending of
              None \<Rightarrow> waitTask self w
            | Some p \<Rightarrow>
                rbind (set_task self (\<lambda>tk. tk\<lparr>tk_handle := DeviceTaskRec None\<rparr>) w) (qpkt self p))
        | Some p \<Rightarrow>
            rbind (set_task self (\<lambda>tk. tk\<lparr>tk_handle := DeviceTaskRec (Some p)\<rparr>) w) (hold self))
    | _ \<Rightarrow> Inl AssertionError)"

text \<open>\<open>workInAdd\<close> and \<open>deviceInAdd\<close>, by the kind of the packet.\<close>

definition handler_add :: "nat \<Rightarrow> nat \<Rightarrow> nat option \<Rightarrow> nat option \<Rightarrow> world \<Rightarrow> (nat option \<times> nat option \<times> world) result" where
  "handler_add self p work_in device_in w =
     rbind (lget (packets w) p) (\<lambda>pk.
     if pk_kind pk = K_WORK then
       rbind (append_packet p work_in w) (\<lambda>(l, w).
       rbind (set_task self (\<lambda>tk. tk\<lparr>tk_handle := HandlerTaskRec (Some l) device_in\<rparr>) w) (\<lambda>w.
       Inr (Some l, device_in, w)))
     else
       rbind (append_packet p device_in w) (\<lambda>(l, w).
       rbind (set_task self (\<lambda>tk. tk\<lparr>tk_handle := HandlerTaskRec work_in (Some l)\<rparr>) w) (\<lambda>w.
       Inr (work_in, Some l, w))))"

definition handler_work :: "nat \<Rightarrow> nat option \<Rightarrow> nat option \<Rightarrow> world \<Rightarrow> (nat option \<times> world) result" where
  "handler_work self work_in device_in w = (case work_in of
      None \<Rightarrow> waitTask self w
    | Some work \<Rightarrow>
        rbind (lget (packets w) work) (\<lambda>wk.
        let cnt = pk_datum wk in
        if cnt \<ge> int BUFSIZE then
          rbind (set_task self (\<lambda>tk. tk\<lparr>tk_handle := HandlerTaskRec (pk_link wk) device_in\<rparr>) w) (qpkt self work)
        else case device_in of
          None \<Rightarrow> waitTask self w
        | Some dev \<Rightarrow>
            rbind (lget (packets w) dev) (\<lambda>dv.
            rbind (set_task self (\<lambda>tk. tk\<lparr>tk_handle := HandlerTaskRec (Some work) (pk_link dv)\<rparr>) w) (\<lambda>w.
            rbind (py_get (pk_data wk) cnt) (\<lambda>c.
            rbind (set_packet dev (\<lambda>pk. pk\<lparr>pk_datum := c\<rparr>) w) (\<lambda>w.
            rbind (set_packet work (\<lambda>pk. pk\<lparr>pk_datum := cnt + 1\<rparr>) w) (qpkt self dev)))))))"

definition handler_fn :: "nat \<Rightarrow> nat option \<Rightarrow> task_rec \<Rightarrow> world \<Rightarrow> (nat option \<times> world) result" where
  "handler_fn self pkt r w = (case r of
      HandlerTaskRec work_in device_in \<Rightarrow>
        rbind (case pkt of None \<Rightarrow> Inr (work_in, device_in, w)
               | Some p \<Rightarrow> handler_add self p work_in device_in w) (\<lambda>(work_in, device_in, w).
        handler_work self work_in device_in w)
    | _ \<Rightarrow> Inl AssertionError)"

definition idle_fn :: "nat \<Rightarrow> nat option \<Rightarrow> task_rec \<Rightarrow> world \<Rightarrow> (nat option \<times> world) result" where
  "idle_fn self pkt r w = (case r of
      IdleTaskRec control cnt \<Rightarrow>
       (let cnt = cnt - 1 in
        if cnt = 0 then
          rbind (set_task self (\<lambda>tk. tk\<lparr>tk_handle := IdleTaskRec control cnt\<rparr>) w) (hold self)
        else if control AND 1 = 0 then
          rbind (set_task self (\<lambda>tk. tk\<lparr>tk_handle := IdleTaskRec (control div 2) cnt\<rparr>) w) (release self I_DEVA)
        else
          rbind (set_task self (\<lambda>tk. tk\<lparr>tk_handle := IdleTaskRec ((control div 2) XOR 0xd008) cnt\<rparr>) w)
            (release self I_DEVB))
    | _ \<Rightarrow> Inl AssertionError)"

definition ord_A :: int where "ord_A = 65"

definition work_letters :: "int \<Rightarrow> int list \<Rightarrow> (int \<times> int list) result" where
  "work_letters cnt data = for_each [0..<BUFSIZE] (\<lambda>i (cnt, data).
     let cnt = (if cnt + 1 > 26 then 1 else cnt + 1) in
     rbind (lset data i (ord_A + cnt - 1)) (\<lambda>data. Inr (cnt, data))) (cnt, data)"

definition work_fn :: "nat \<Rightarrow> nat option \<Rightarrow> task_rec \<Rightarrow> world \<Rightarrow> (nat option \<times> world) result" where
  "work_fn self pkt r w = (case r of
      WorkerTaskRec destination cnt \<Rightarrow>
       (case pkt of
          None \<Rightarrow> waitTask self w
        | Some p \<Rightarrow>
            let dest = (if destination = I_HANDLERA then I_HANDLERB else I_HANDLERA) in
            rbind (lget (packets w) p) (\<lambda>pk.
            rbind (work_letters cnt (pk_data pk)) (\<lambda>(cnt, data).
            rbind (set_packet p (\<lambda>pk. pk\<lparr>pk_ident := dest, pk_datum := 0, pk_data := data\<rparr>) w) (\<lambda>w.
            rbind (set_task self (\<lambda>tk. tk\<lparr>tk_handle := WorkerTaskRec dest cnt\<rparr>) w) (qpkt self p)))))
    | _ \<Rightarrow> Inl AssertionError)"

definition fn :: "nat \<Rightarrow> nat option \<Rightarrow> task \<Rightarrow> world \<Rightarrow> (nat option \<times> world) result" where
  "fn self pkt tk w = (case tk_class tk of
      DeviceTask \<Rightarrow> device_fn self pkt (tk_handle tk) w
    | HandlerTask \<Rightarrow> handler_fn self pkt (tk_handle tk) w
    | IdleTask \<Rightarrow> idle_fn self pkt (tk_handle tk) w
    | WorkTask \<Rightarrow> work_fn self pkt (tk_handle tk) w)"

definition runTask :: "nat \<Rightarrow> world \<Rightarrow> (nat option \<times> world) result" where
  "runTask self w =
     rbind (lget (tasks w) self) (\<lambda>tk.
     if isWaitingWithPacket tk then
       (case tk_input tk of
          None \<Rightarrow> Inl AttributeError
        | Some msg \<Rightarrow>
            rbind (lget (packets w) msg) (\<lambda>pk.
            rbind (set_task self (\<lambda>tk. let tk = tk\<lparr>tk_input := pk_link pk\<rparr> in
               if pk_link pk = None then running tk else packetPending tk) w) (\<lambda>w.
            fn self (Some msg) tk w)))
     else fn self None tk w)"

section \<open>The scheduler\<close>

text \<open>\<open>schedule\<close> is a loop without a bound of its own; the fuel is the number of its turns.\<close>

fun schedule :: "nat \<Rightarrow> nat option \<Rightarrow> world \<Rightarrow> world result" where
  "schedule fuel None w = Inr w"
| "schedule 0 (Some t) w = Inl OutOfFuel"
| "schedule (Suc fuel) (Some t) w =
     rbind (lget (tasks w) t) (\<lambda>tk.
     if isTaskHoldingOrWaiting tk then schedule fuel (tk_link tk) w
     else rbind (runTask t w) (\<lambda>(t, w). schedule fuel t w))"

definition start_tasks :: "world \<Rightarrow> world result" where
  "start_tasks w =
     rbind (new_idle_task I_IDLE 1 (Some 10000) (running TaskState) new_idle_rec (w\<lparr>holdCount := 0, qpktCount := 0\<rparr>)) (\<lambda>w.
     let (wkq, w) = new_packet None 0 K_WORK w; (wkq, w) = new_packet (Some wkq) 0 K_WORK w in
     rbind (Task WorkTask I_WORK 1000 (Some wkq) (waitingWithPacket TaskState) new_worker_rec w) (\<lambda>w.
     let (wkq, w) = new_packet None I_DEVA K_DEV w; (wkq, w) = new_packet (Some wkq) I_DEVA K_DEV w;
         (wkq, w) = new_packet (Some wkq) I_DEVA K_DEV w in
     rbind (Task HandlerTask I_HANDLERA 2000 (Some wkq) (waitingWithPacket TaskState) new_handler_rec w) (\<lambda>w.
     let (wkq, w) = new_packet None I_DEVB K_DEV w; (wkq, w) = new_packet (Some wkq) I_DEVB K_DEV w;
         (wkq, w) = new_packet (Some wkq) I_DEVB K_DEV w in
     rbind (Task HandlerTask I_HANDLERB 3000 (Some wkq) (waitingWithPacket TaskState) new_handler_rec w) (\<lambda>w.
     rbind (Task DeviceTask I_DEVA 4000 None (waiting TaskState) new_device_rec w) (\<lambda>w.
     Task DeviceTask I_DEVB 5000 None (waiting TaskState) new_device_rec w)))))"

text \<open>The answer and the state that the next call starts from: \<open>taskWorkArea\<close> is global.\<close>

fun run :: "nat \<Rightarrow> nat \<Rightarrow> world \<Rightarrow> (bool \<times> world) result" where
  "run fuel 0 w = Inr (True, w)"
| "run fuel (Suc iterations) w =
     rbind (start_tasks w) (\<lambda>w.
     rbind (schedule fuel (taskList w) w) (\<lambda>w.
     if holdCount w = 9297 \<and> qpktCount w = 23246 then run fuel iterations w else Inr (False, w)))"

end
