(* ===== verification/RichardsInv.thy ===== *)
theory RichardsInv
  imports Richards
begin

text \<open>
  The invariant of the simulation. A queue is a chain of packets from the reference that a task
  holds; \<open>Q\<close> names, for every place that can hold packets, the list of them, and the places
  together with the packets in hand share out all packets. The lemmas show for each operation of a
  task that it does not raise, that it moves the packets from place to place as lists, and that the
  invariant is kept.
\<close>

section \<open>Chains\<close>

fun chain :: "packet list \<Rightarrow> nat option \<Rightarrow> nat list \<Rightarrow> bool" where
  "chain ps r [] \<longleftrightarrow> r = None"
| "chain ps r (x # xs) \<longleftrightarrow> r = Some x \<and> x < length ps \<and> chain ps (pk_link (ps ! x)) xs"

lemma chain_bound: "chain ps r xs \<Longrightarrow> x \<in> set xs \<Longrightarrow> x < length ps"
  by (induction xs arbitrary: r) auto

lemma chain_cong:
  assumes "chain ps r xs" and "length ps' = length ps" and "\<And>x. x \<in> set xs \<Longrightarrow> pk_link (ps' ! x) = pk_link (ps ! x)"
  shows "chain ps' r xs"
  using assms by (induction xs arbitrary: r) auto

lemma chain_None [simp]: "chain ps None xs \<longleftrightarrow> xs = []"
  by (cases xs) auto


lemma last_packet_ok:
  assumes "chain ps (Some l) xs" and "length xs \<le> fuel"
  shows "last_packet fuel ps l = Inr (last xs)"
  using assms
proof (induction xs arbitrary: l fuel)
  case Nil
  then show ?case by simp
next
  case (Cons x xs)
  then obtain k where k: "fuel = Suc k" by (cases fuel) auto
  show ?case
  proof (cases xs)
    case Nil
    with Cons.prems k show ?thesis by simp
  next
    case (Cons y ys)
    with Cons.prems k Cons.IH [of y k] show ?thesis by auto
  qed
qed

lemma chain_snoc:
  assumes "chain ps r xs" and "distinct xs" and "xs \<noteq> []" and "y < length ps" and "y \<notin> set xs" and "pk_link (ps ! y) = None"
  shows "chain (ps[last xs := (ps ! last xs)\<lparr>pk_link := Some y\<rparr>]) r (xs @ [y])"
  using assms
proof (induction xs arbitrary: r)
  case Nil
  then show ?case by simp
next
  case (Cons x xs)
  show ?case
  proof (cases xs)
    case Nil
    with Cons.prems show ?thesis by auto
  next
    case (Cons z zs)
    have "x \<noteq> last xs" using Cons.prems(2) Cons by auto
    with Cons.IH [of "pk_link (ps ! x)"] Cons.prems Cons show ?thesis by auto
  qed
qed

lemma distinct_le: "distinct xs \<Longrightarrow> set xs \<subseteq> {..<n} \<Longrightarrow> length xs \<le> n"
  using card_mono [of "{..<n}" "set xs"] by (simp add: distinct_card)

text \<open>\<open>append_to\<close> is appending to the list that the chain stands for.\<close>

definition same_packet :: "packet \<Rightarrow> packet \<Rightarrow> bool" where
  "same_packet a b \<longleftrightarrow> b = a\<lparr>pk_link := pk_link b\<rparr>"

lemma append_to_ok:
  assumes "chain ps r xs" and "distinct xs" and "y < length ps" and "y \<notin> set xs"
  shows "\<exists>h ps'. append_to y r ps = Inr (h, ps') \<and> chain ps' (Some h) (xs @ [y]) \<and> length ps' = length ps \<and>
    (\<forall>q. q \<notin> insert y (set xs) \<longrightarrow> ps' ! q = ps ! q) \<and> (\<forall>q < length ps. same_packet (ps ! q) (ps' ! q)) \<and>
    (r = None \<longrightarrow> h = y \<and> ps' = ps[y := (ps ! y)\<lparr>pk_link := None\<rparr>]) \<and> (r \<noteq> None \<longrightarrow> r = Some h)"
proof -
  let ?ps = "ps[y := (ps ! y)\<lparr>pk_link := None\<rparr>]"
  have "?ps ! x = ps ! x" if "x \<in> set xs" for x using that assms(4) by (metis nth_list_update_neq)
  then have c: "chain ?ps r xs" by (intro chain_cong [OF assms(1)]) simp_all
  have self: "set_link y None ps = Inr ?ps" using assms(3) by (simp add: set_link_def)
  show ?thesis
  proof (cases r)
    case None
    with assms self show ?thesis by (auto simp: append_to_def same_packet_def nth_list_update)
  next
    case (Some l)
    then have ne: "xs \<noteq> []" using assms(1) by auto
    have "set xs \<subseteq> {..<length ?ps}" using chain_bound [OF c] by auto
    then have last: "last_packet (length ?ps) ?ps l = Inr (last xs)"
      using c Some distinct_le [OF assms(2)] by (intro last_packet_ok) auto
    have z: "last xs < length ?ps" "last xs \<noteq> y" using chain_bound [OF c] ne assms(4) last_in_set [OF ne] by auto
    let ?ps' = "?ps[last xs := (?ps ! last xs)\<lparr>pk_link := Some y\<rparr>]"
    have "set_link (last xs) (Some y) ?ps = Inr ?ps'" using z by (simp add: set_link_def)
    then have "append_to y r ps = Inr (l, ?ps')"
      using last by (simp add: append_to_def self Some)
    moreover have "chain ?ps' r (xs @ [y])"
      using c assms ne by (intro chain_snoc) auto
    ultimately show ?thesis
      using Some z ne last_in_set [OF ne] assms(3) by (auto simp: same_packet_def nth_list_update)
  qed
qed

section \<open>The places of the packets\<close>

datatype place = Input | Pending | WorkIn | DeviceIn

fun tk_root :: "task \<Rightarrow> place \<Rightarrow> nat option" where
  "tk_root tk Input = tk_input tk"
| "tk_root tk Pending = (case tk_handle tk of DeviceTaskRec p \<Rightarrow> p | _ \<Rightarrow> None)"
| "tk_root tk WorkIn = (case tk_handle tk of HandlerTaskRec wi di \<Rightarrow> wi | _ \<Rightarrow> None)"
| "tk_root tk DeviceIn = (case tk_handle tk of HandlerTaskRec wi di \<Rightarrow> di | _ \<Rightarrow> None)"

definition root :: "world \<Rightarrow> nat \<times> place \<Rightarrow> nat option" where
  "root w s = (if fst s < length (tasks w) then tk_root (tasks w ! fst s) (snd s) else None)"

text \<open>A pending packet is a single one: its old \<open>link\<close> is still there and means nothing.\<close>

definition queue :: "packet list \<Rightarrow> place \<Rightarrow> nat option \<Rightarrow> nat list \<Rightarrow> bool" where
  "queue ps f r xs = (if f = Pending then xs = (case r of None \<Rightarrow> [] | Some p \<Rightarrow> [p]) else chain ps r xs)"

definition shared_out :: "('s \<Rightarrow> nat list) \<Rightarrow> nat set \<Rightarrow> nat \<Rightarrow> bool" where
  "shared_out Q H n \<longleftrightarrow> (\<forall>s. distinct (Q s)) \<and> (\<forall>s s'. s \<noteq> s' \<longrightarrow> set (Q s) \<inter> set (Q s') = {}) \<and>
     (\<forall>s. set (Q s) \<inter> H = {}) \<and> (\<Union>s. set (Q s)) \<union> H = {..<n}"

lemma shared_take:
  assumes "shared_out Q H n" and "Q s = x # xs"
  shows "shared_out (Q(s := xs)) (insert x H) n"
proof -
  have "distinct (Q s)" "\<And>s'. s' \<noteq> s \<Longrightarrow> set (Q s) \<inter> set (Q s') = {}" "set (Q s) \<inter> H = {}"
    using assms(1) unfolding shared_out_def by blast+
  then have d: "x \<notin> set xs" "distinct xs" "\<And>s'. s' \<noteq> s \<Longrightarrow> x \<notin> set (Q s') \<and> set xs \<inter> set (Q s') = {}"
    "set xs \<inter> H = {}"
    using assms(2) by auto
  have eq: "(\<Union>s'. set ((Q(s := xs)) s')) \<union> insert x H = (\<Union>s. set (Q s)) \<union> H"
  proof (rule set_eqI)
    fix y
    have "y \<in> set ((Q(s := xs)) s') \<longleftrightarrow> y \<in> set (Q s')" if "y \<noteq> x" for s'
      using assms(2) that by simp
    moreover have "x \<in> set (Q s)" using assms(2) by simp
    ultimately show "y \<in> (\<Union>s'. set ((Q(s := xs)) s')) \<union> insert x H \<longleftrightarrow> y \<in> (\<Union>s. set (Q s)) \<union> H"
      by (cases "y = x") blast+
  qed
  show ?thesis
    unfolding shared_out_def eq using assms(1) d by (auto simp: shared_out_def)
qed

lemma shared_put:
  assumes "shared_out Q {x} n"
  shows "shared_out (Q(s := Q s @ [x])) {} n"
proof -
  have d: "\<And>s. x \<notin> set (Q s)" "\<And>s. distinct (Q s)" "\<And>s s'. s' \<noteq> s \<Longrightarrow> set (Q s) \<inter> set (Q s') = {}"
    using assms unfolding shared_out_def by blast+
  have eq: "(\<Union>s'. set ((Q(s := Q s @ [x])) s')) \<union> {} = (\<Union>s. set (Q s)) \<union> {x}"
    by (auto simp: fun_upd_apply split: if_splits)
  show ?thesis
    unfolding shared_out_def eq using assms d by (auto simp: shared_out_def)
qed

lemma shared_held: "shared_out Q H n \<Longrightarrow> x \<in> H \<Longrightarrow> x < n \<and> x \<notin> set (Q s)"
  unfolding shared_out_def by blast

lemma shared_bound: "shared_out Q H n \<Longrightarrow> x \<in> set (Q s) \<Longrightarrow> x < n"
  unfolding shared_out_def by blast

section \<open>The invariant\<close>

definition good_packet :: "packet \<Rightarrow> bool" where
  "good_packet pk \<longleftrightarrow> length (pk_data pk) = BUFSIZE \<and> 0 \<le> pk_datum pk \<and> (\<forall>c \<in> set (pk_data pk). 0 \<le> c)"

fun good_handle :: "task_class \<Rightarrow> task_rec \<Rightarrow> bool" where
  "good_handle DeviceTask (DeviceTaskRec p) \<longleftrightarrow> True"
| "good_handle HandlerTask (HandlerTaskRec wi di) \<longleftrightarrow> True"
| "good_handle IdleTask (IdleTaskRec c n) \<longleftrightarrow> True"
| "good_handle WorkTask (WorkerTaskRec d n) \<longleftrightarrow> 0 \<le> n"
| "good_handle _ _ \<longleftrightarrow> False"

text \<open>
  A device that waits has nothing pending, so that no pending packet is overwritten; the idle
  task, which would drop a packet, never has one, since no packet is addressed to it.
\<close>

definition good_task :: "nat \<Rightarrow> task \<Rightarrow> bool" where
  "good_task t tk \<longleftrightarrow> good_handle (tk_class tk) (tk_handle tk) \<and>
     (tk_class tk = IdleTask \<longrightarrow> tk_input tk = None) \<and> (tk_class tk \<noteq> IdleTask \<longrightarrow> tk_ident tk \<in> {2..6}) \<and>
     (\<forall>l. tk_link tk = Some l \<longrightarrow> l < t) \<and> (packet_pending tk \<longleftrightarrow> tk_input tk \<noteq> None) \<and>
     (task_waiting tk \<longrightarrow> tk_root tk Pending = None)"

definition good_tab :: "world \<Rightarrow> bool" where
  "good_tab w \<longleftrightarrow> length (taskTab w) = TASKTABSIZE \<and>
     (\<forall>i \<in> {2..6}. \<exists>t < length (tasks w). taskTab w ! i = Some t \<and> tk_class (tasks w ! t) \<noteq> IdleTask) \<and>
     (\<forall>t. taskList w = Some t \<longrightarrow> t < length (tasks w))"

definition good_ident :: "world \<Rightarrow> nat \<times> place \<Rightarrow> nat \<Rightarrow> bool" where
  "good_ident w s p \<longleftrightarrow> pk_ident (packets w ! p) \<in> {2..6} \<or>
     (snd s = Input \<and> fst s < length (tasks w) \<and> tk_class (tasks w ! fst s) = WorkTask)"

definition consistent :: "(nat \<times> place \<Rightarrow> nat list) \<Rightarrow> nat set \<Rightarrow> world \<Rightarrow> bool" where
  "consistent Q H w \<longleftrightarrow> good_tab w \<and> (\<forall>p < length (packets w). good_packet (packets w ! p)) \<and>
     (\<forall>t < length (tasks w). good_task t (tasks w ! t)) \<and> shared_out Q H (length (packets w)) \<and>
     (\<forall>s. queue (packets w) (snd s) (root w s) (Q s)) \<and> (\<forall>s. \<forall>p \<in> set (Q s). good_ident w s p)"

text \<open>What no operation of a task changes.\<close>

definition static :: "world \<Rightarrow> world \<Rightarrow> bool" where
  "static w w' \<longleftrightarrow> length (tasks w') = length (tasks w) \<and> length (packets w') = length (packets w) \<and>
     taskTab w' = taskTab w \<and> taskList w' = taskList w \<and>
     (\<forall>t < length (tasks w). tk_class (tasks w' ! t) = tk_class (tasks w ! t) \<and> tk_link (tasks w' ! t) = tk_link (tasks w ! t))"

lemma static_refl [simp]: "static w w"
  by (simp add: static_def)

lemma static_trans: "static a b \<Longrightarrow> static b c \<Longrightarrow> static a c"
  by (simp add: static_def)

section \<open>Changing one task or one packet\<close>

lemma set_task_eq: "t < length (tasks w) \<Longrightarrow> set_task t f w = Inr (w\<lparr>tasks := (tasks w)[t := f (tasks w ! t)]\<rparr>)"
  by (simp add: set_task_def)

lemma set_packet_eq: "p < length (packets w) \<Longrightarrow> set_packet p f w = Inr (w\<lparr>packets := (packets w)[p := f (packets w ! p)]\<rparr>)"
  by (simp add: set_packet_def)

lemma inv_tab: "consistent Q H w \<Longrightarrow> good_tab w"
  and inv_packet: "consistent Q H w \<Longrightarrow> p < length (packets w) \<Longrightarrow> good_packet (packets w ! p)"
  and inv_task: "consistent Q H w \<Longrightarrow> t < length (tasks w) \<Longrightarrow> good_task t (tasks w ! t)"
  and inv_shared: "consistent Q H w \<Longrightarrow> shared_out Q H (length (packets w))"
  and inv_queue: "consistent Q H w \<Longrightarrow> queue (packets w) (snd s) (root w s) (Q s)"
  and inv_ident: "consistent Q H w \<Longrightarrow> p \<in> set (Q s) \<Longrightarrow> good_ident w s p"
  unfolding consistent_def by blast+

lemma inv_bound: "consistent Q H w \<Longrightarrow> p \<in> set (Q s) \<Longrightarrow> p < length (packets w)"
  by (rule shared_bound [OF inv_shared])

lemma inv_held: "consistent Q H w \<Longrightarrow> p \<in> H \<Longrightarrow> p < length (packets w) \<and> p \<notin> set (Q s)"
  by (rule shared_held [OF inv_shared])

text \<open>A task is overwritten: only its own places can change.\<close>

lemma inv_set_task:
  assumes "consistent Q H w" and "t < length (tasks w)" and "good_task t tk" and "tk_class tk = tk_class (tasks w ! t)"
    and "shared_out Q' H' (length (packets w))" and "\<And>s. fst s \<noteq> t \<Longrightarrow> Q' s = Q s"
    and "\<And>f. queue (packets w) f (tk_root tk f) (Q' (t, f))"
    and "\<And>f p. p \<in> set (Q' (t, f)) \<Longrightarrow> good_ident w (t, f) p"
  shows "consistent Q' H' (w\<lparr>tasks := (tasks w)[t := tk]\<rparr>)"
proof -
  let ?w = "w\<lparr>tasks := (tasks w)[t := tk]\<rparr>"
  have r: "root ?w s = (if fst s = t then tk_root tk (snd s) else root w s)" for s
    using assms(2) by (auto simp: root_def nth_list_update)
  have g: "good_ident ?w s p \<longleftrightarrow> good_ident w s p" for s p
    using assms(2,4) by (auto simp: good_ident_def nth_list_update)
  have q: "queue (packets ?w) (snd s) (root ?w s) (Q' s)" for s
    using assms(6) [of s] assms(7) [of "snd s"] inv_queue [OF assms(1), of s] unfolding r
    by (cases "fst s = t") (auto simp flip: surjective_pairing)
  have i: "good_ident ?w s p" if "p \<in> set (Q' s)" for s p
    unfolding g using assms(6) [of s] assms(8) [of p "snd s"] inv_ident [OF assms(1), of p s] that
    by (cases "fst s = t") (auto simp flip: surjective_pairing)
  have "tk_class ((tasks w)[t := tk] ! k) = tk_class (tasks w ! k)" for k
    using assms(2,4) by (cases "k = t") auto
  then have "good_tab ?w" using inv_tab [OF assms(1)] by (simp add: good_tab_def)
  moreover have "good_task k ((tasks w)[t := tk] ! k)" if "k < length (tasks w)" for k
    using that assms(2,3) inv_task [OF assms(1) that] by (cases "k = t") auto
  ultimately show ?thesis
    using q i assms(5) inv_packet [OF assms(1)] unfolding consistent_def by simp
qed

text \<open>A task whose places keep their packets.\<close>

lemma inv_same_places:
  assumes "consistent Q H w" and "t < length (tasks w)" and "good_task t tk" and "tk_class tk = tk_class (tasks w ! t)"
    and "\<And>f. tk_root tk f = tk_root (tasks w ! t) f"
  shows "consistent Q H (w\<lparr>tasks := (tasks w)[t := tk]\<rparr>)"
proof (rule inv_set_task [OF assms(1-4)])
  show "shared_out Q H (length (packets w))" using inv_shared [OF assms(1)] .
  show "queue (packets w) f (tk_root tk f) (Q (t, f))" for f
    using inv_queue [OF assms(1), of "(t, f)"] assms(2) by (simp add: root_def assms(5))
qed (use inv_ident [OF assms(1)] in auto)

lemma static_set_task:
  "t < length (tasks w) \<Longrightarrow> tk_class tk = tk_class (tasks w ! t) \<Longrightarrow> tk_link tk = tk_link (tasks w ! t) \<Longrightarrow>
   static w (w\<lparr>tasks := (tasks w)[t := tk]\<rparr>)"
  by (simp add: static_def nth_list_update)

text \<open>New contents for the packets, with the chains of the queues kept.\<close>

lemma queue_cong:
  assumes "queue ps f r xs" and "length ps' = length ps"
    and "f \<noteq> Pending \<Longrightarrow> \<forall>x \<in> set xs. pk_link (ps' ! x) = pk_link (ps ! x)"
  shows "queue ps' f r xs"
  using assms by (auto simp: queue_def intro: chain_cong)

lemma inv_packets:
  assumes "consistent Q H w" and "length ps = length (packets w)"
    and "\<And>p. p < length (packets w) \<Longrightarrow> good_packet (ps ! p)"
    and "\<And>s x. x \<in> set (Q s) \<Longrightarrow> pk_link (ps ! x) = pk_link (packets w ! x) \<and> pk_ident (ps ! x) = pk_ident (packets w ! x)"
  shows "consistent Q H (w\<lparr>packets := ps\<rparr>)"
proof -
  let ?w = "w\<lparr>packets := ps\<rparr>"
  have "root ?w s = root w s" for s by (simp add: root_def)
  then have "queue (packets ?w) (snd s) (root ?w s) (Q s)" for s
    using queue_cong [OF inv_queue [OF assms(1), of s] assms(2)] assms(4) by simp
  moreover have "good_ident ?w s p" if "p \<in> set (Q s)" for s p
    using inv_ident [OF assms(1) that] assms(4) [OF that] by (simp add: good_ident_def)
  ultimately show ?thesis
    using assms(2,3) inv_tab [OF assms(1)] inv_task [OF assms(1)] inv_shared [OF assms(1)]
    unfolding consistent_def by (simp add: good_tab_def)
qed

text \<open>The packet in hand can be changed at will.\<close>

lemma inv_held_packet:
  assumes "consistent Q H w" and "p \<in> H" and "good_packet pk"
  shows "consistent Q H (w\<lparr>packets := (packets w)[p := pk]\<rparr>)"
proof (rule inv_packets [OF assms(1)])
  show "good_packet ((packets w)[p := pk] ! q)" if "q < length (packets w)" for q
    using that assms(3) inv_packet [OF assms(1) that] by (cases "q = p") auto
  show "pk_link ((packets w)[p := pk] ! x) = pk_link (packets w ! x) \<and>
      pk_ident ((packets w)[p := pk] ! x) = pk_ident (packets w ! x)" if "x \<in> set (Q s)" for s x
    using inv_held [OF assms(1,2), of s] that by (cases "x = p") auto
qed simp

lemma inv_datum:
  assumes "consistent Q H w" and "p < length (packets w)" and "0 \<le> d"
  shows "consistent Q H (w\<lparr>packets := (packets w)[p := (packets w ! p)\<lparr>pk_datum := d\<rparr>]\<rparr>)"
proof (rule inv_packets [OF assms(1)])
  show "good_packet ((packets w)[p := (packets w ! p)\<lparr>pk_datum := d\<rparr>] ! q)" if "q < length (packets w)" for q
    using that assms(3) inv_packet [OF assms(1) that] by (cases "q = p") (auto simp: good_packet_def)
qed (use assms(2) in \<open>auto simp: nth_list_update\<close>)

lemma static_packets [simp]: "length ps = length (packets w) \<Longrightarrow> static w (w\<lparr>packets := ps\<rparr>)"
  by (simp add: static_def)

lemma static_counts [simp]: "static w (w\<lparr>holdCount := h\<rparr>)" "static w (w\<lparr>qpktCount := q\<rparr>)"
  by (simp_all add: static_def)

lemma inv_counts: "consistent Q H (w\<lparr>holdCount := h\<rparr>) \<longleftrightarrow> consistent Q H w" "consistent Q H (w\<lparr>qpktCount := q\<rparr>) \<longleftrightarrow> consistent Q H w"
proof -
  have "root (w\<lparr>holdCount := h\<rparr>) = root w" "root (w\<lparr>qpktCount := q\<rparr>) = root w"
    by (simp_all add: root_def fun_eq_iff)
  then show "consistent Q H (w\<lparr>holdCount := h\<rparr>) \<longleftrightarrow> consistent Q H w" "consistent Q H (w\<lparr>qpktCount := q\<rparr>) \<longleftrightarrow> consistent Q H w"
    by (simp_all add: consistent_def good_tab_def good_ident_def)
qed

section \<open>Putting a packet into a queue\<close>

text \<open>
  After \<open>append_packet\<close> the chain from the reference that it returns is the old queue and the
  packet; where the queue was not empty the packet is already in its place.
\<close>

lemma append_packet_ok:
  assumes "consistent Q {p} w" and "t < length (tasks w)" and "f \<noteq> Pending" and "good_ident w (t, f) p"
  shows "\<exists>h w'. append_packet p (tk_root (tasks w ! t) f) w = Inr (h, w') \<and> static w w' \<and> tasks w' = tasks w \<and>
    chain (packets w') (Some h) (Q (t, f) @ [p]) \<and>
    (\<forall>q. pk_ident (packets w' ! q) = pk_ident (packets w ! q)) \<and>
    (if tk_root (tasks w ! t) f = None then consistent Q {p} w' else tk_root (tasks w ! t) f = Some h \<and> consistent (Q((t, f) := Q (t, f) @ [p])) {} w')"
proof -
  let ?r = "tk_root (tasks w ! t) f" and ?xs = "Q (t, f)"
  have p: "p < length (packets w)" "\<And>s. p \<notin> set (Q s)" using inv_held [OF assms(1), of p] by auto
  have c: "chain (packets w) ?r ?xs"
    using inv_queue [OF assms(1), of "(t, f)"] assms(2,3) by (simp add: queue_def root_def)
  have d: "distinct ?xs" "\<And>s. s \<noteq> (t, f) \<Longrightarrow> set (Q s) \<inter> set ?xs = {}"
    using inv_shared [OF assms(1)] unfolding shared_out_def by blast+
  obtain h ps where a: "append_to p ?r (packets w) = Inr (h, ps)" "chain ps (Some h) (?xs @ [p])"
    "length ps = length (packets w)" "\<forall>q. q \<notin> insert p (set ?xs) \<longrightarrow> ps ! q = packets w ! q"
    "\<forall>q < length (packets w). same_packet (packets w ! q) (ps ! q)"
    "?r = None \<longrightarrow> h = p \<and> ps = (packets w)[p := (packets w ! p)\<lparr>pk_link := None\<rparr>]" "?r \<noteq> None \<longrightarrow> ?r = Some h"
    using append_to_ok [OF c d(1) p] by (elim exE conjE) (rule that)
  have sp: "pk_ident (ps ! q) = pk_ident (packets w ! q)" "good_packet (packets w ! q) \<longleftrightarrow> good_packet (ps ! q)"
    if "q < length (packets w)" for q
  proof -
    have "ps ! q = (packets w ! q)\<lparr>pk_link := pk_link (ps ! q)\<rparr>" using a(5) that by (simp add: same_packet_def)
    then show "pk_ident (ps ! q) = pk_ident (packets w ! q)" "good_packet (packets w ! q) \<longleftrightarrow> good_packet (ps ! q)"
      by (metis (no_types, lifting) packet.ext_inject packet.surjective packet.update_convs(1) good_packet_def)+
  qed
  have "pk_ident (ps ! q) = pk_ident (packets w ! q)" for q
  proof (cases "q < length (packets w)")
    case False
    have "q \<notin> insert p (set ?xs)" using False p(1) inv_bound [OF assms(1)] by auto
    with a(4) show ?thesis by simp
  qed (use sp in simp)
  moreover have "consistent Q {p} (w\<lparr>packets := ps\<rparr>)" if "?r = None"
    using inv_held_packet [OF assms(1), of p "(packets w ! p)\<lparr>pk_link := None\<rparr>"] a(6) that
      inv_packet [OF assms(1) p(1)] by (simp add: good_packet_def)
  moreover have "consistent (Q((t, f) := ?xs @ [p])) {} (w\<lparr>packets := ps\<rparr>)" if "?r \<noteq> None"
  proof -
    let ?w = "w\<lparr>packets := ps\<rparr>" and ?Q = "Q((t, f) := ?xs @ [p])"
    have r: "root ?w s = root w s" for s by (simp add: root_def)
    have "queue (packets ?w) (snd s) (root ?w s) (?Q s)" for s
    proof (cases "s = (t, f)")
      case True
      then show ?thesis using a(2,7) that assms(2,3) by (simp add: queue_def root_def)
    next
      case False
      have "x \<notin> insert p (set ?xs)" if "x \<in> set (Q s)" for x
        using d(2) [OF False] p(2) [of s] that by auto
      then have "\<forall>x \<in> set (Q s). ps ! x = packets w ! x" using a(4) by simp
      then have "queue (packets ?w) (snd s) (root w s) (Q s)"
        by (intro queue_cong [OF inv_queue [OF assms(1), of s]]) (use a(3) in auto)
      with False show ?thesis by (simp add: r)
    qed
    moreover have "good_ident ?w s q" if "q \<in> set (?Q s)" for s q
    proof -
      have "q < length (packets w)" using that inv_bound [OF assms(1)] p(1) by (auto split: if_splits)
      moreover have "good_ident w s q"
        using that inv_ident [OF assms(1)] assms(4) by (auto split: if_splits)
      ultimately show ?thesis using sp(1) by (simp add: good_ident_def)
    qed
    moreover have "shared_out ?Q {} (length (packets w))" by (rule shared_put) (rule inv_shared [OF assms(1)])
    moreover have "good_packet (ps ! q)" if "q < length (packets w)" for q
      using sp(2) [OF that] inv_packet [OF assms(1) that] by simp
    ultimately show ?thesis
      using a(3) inv_tab [OF assms(1)] inv_task [OF assms(1)] unfolding consistent_def by (simp add: good_tab_def)
  qed
  ultimately show ?thesis
    using a(1-3,7) by (auto simp: append_packet_def)
qed

end
