(* ===== verification/RichardsEnergy.thy ===== *)
theory RichardsEnergy
  imports RichardsInv
begin

text \<open>
  Why the simulation ends. The packets are routed: a work packet goes between the worker and the
  handlers, a device packet between a handler and a device, by the \<open>ident\<close> it carries. Every packet has
  a cost for the place where it waits and every task that is not waiting has one more; a turn of a task
  other than the idle one lowers the sum, and the idle task, whose turns may raise it, counts down.
\<close>

section \<open>Routes\<close>

definition class_of :: "nat \<Rightarrow> task_class" where
  "class_of i = (if i = I_WORK then WorkTask else if i = I_HANDLERA \<or> i = I_HANDLERB then HandlerTask else DeviceTask)"

fun route :: "task_class \<Rightarrow> place \<Rightarrow> packet \<Rightarrow> bool" where
  "route WorkTask f pk \<longleftrightarrow> pk_kind pk = K_WORK"
| "route HandlerTask f pk \<longleftrightarrow>
     (if pk_kind pk = K_WORK then f \<noteq> DeviceIn \<and> class_of (pk_ident pk) = WorkTask
      else f \<noteq> WorkIn \<and> class_of (pk_ident pk) = DeviceTask)"
| "route DeviceTask f pk \<longleftrightarrow> pk_kind pk \<noteq> K_WORK \<and> class_of (pk_ident pk) = HandlerTask"
| "route IdleTask f pk \<longleftrightarrow> False"

definition routed :: "world \<Rightarrow> nat \<times> place \<Rightarrow> nat \<Rightarrow> bool" where
  "routed w s p \<longleftrightarrow> route (tk_class (tasks w ! fst s)) (snd s) (packets w ! p)"

fun idle_left :: "task_rec \<Rightarrow> nat" where
  "idle_left (IdleTaskRec c n) = nat n"
| "idle_left r = 0"

text \<open>A task carries the number of its kind, and an idle task that is not held has turns left.\<close>

definition steady :: "task \<Rightarrow> bool" where
  "steady tk \<longleftrightarrow> (tk_class tk \<noteq> IdleTask \<longrightarrow> tk_class tk = class_of (tk_ident tk)) \<and>
     (tk_class tk = IdleTask \<longrightarrow> task_holding tk \<or> 0 < idle_left (tk_handle tk))"

definition routes :: "world \<Rightarrow> bool" where
  "routes w \<longleftrightarrow> (\<forall>i \<in> {2..6}. \<forall>t. taskTab w ! i = Some t \<longrightarrow> tk_class (tasks w ! t) = class_of i) \<and>
     (\<forall>tk \<in> set (tasks w). steady tk)"

definition orderly :: "(nat \<times> place \<Rightarrow> nat list) \<Rightarrow> nat set \<Rightarrow> world \<Rightarrow> bool" where
  "orderly Q H w \<longleftrightarrow> consistent Q H w \<and> routes w \<and> (\<forall>s. \<forall>p \<in> set (Q s). routed w s p)"

lemma orderly_consistent: "orderly Q H w \<Longrightarrow> consistent Q H w"
  and orderly_routes: "orderly Q H w \<Longrightarrow> routes w"
  and orderly_routed: "orderly Q H w \<Longrightarrow> p \<in> set (Q s) \<Longrightarrow> routed w s p"
  unfolding orderly_def by blast+

lemma routes_task: "routes w \<Longrightarrow> t < length (tasks w) \<Longrightarrow> steady (tasks w ! t)"
  by (simp add: routes_def)

lemma routes_set_task:
  assumes "routes w" and "t < length (tasks w)" and "steady tk" and "tk_class tk = tk_class (tasks w ! t)"
  shows "routes (w\<lparr>tasks := (tasks w)[t := tk]\<rparr>)"
proof -
  have "tk_class ((tasks w)[t := tk] ! k) = tk_class (tasks w ! k)" for k
    using assms(2,4) by (cases "k = t") auto
  moreover have "set ((tasks w)[t := tk]) \<subseteq> insert tk (set (tasks w))" by (rule set_update_subset_insert)
  ultimately show ?thesis using assms(1,3) by (auto simp: routes_def)
qed

text \<open>A task is overwritten, and its places may lose packets or get routed ones.\<close>

lemma orderly_set_task:
  assumes "orderly Q H w" and "t < length (tasks w)" and "steady tk" and "tk_class tk = tk_class (tasks w ! t)"
    and "consistent Q' H' (w\<lparr>tasks := (tasks w)[t := tk]\<rparr>)"
    and "\<And>s p. p \<in> set (Q' s) \<Longrightarrow> p \<in> set (Q s) \<or> routed w s p"
  shows "orderly Q' H' (w\<lparr>tasks := (tasks w)[t := tk]\<rparr>)"
proof -
  let ?w = "w\<lparr>tasks := (tasks w)[t := tk]\<rparr>"
  have "tk_class ((tasks w)[t := tk] ! k) = tk_class (tasks w ! k)" for k
    using assms(2,4) by (cases "k = t") auto
  then have "routed ?w s p \<longleftrightarrow> routed w s p" for s p by (simp add: routed_def)
  then show ?thesis
    using assms(5,6) orderly_routed [OF assms(1)] routes_set_task [OF orderly_routes [OF assms(1)] assms(2-4)]
    unfolding orderly_def by blast
qed

section \<open>The cost of a state\<close>

definition filled :: "packet \<Rightarrow> nat" where
  "filled pk = 2 * min BUFSIZE (nat (pk_datum pk))"

fun input_cost :: "task_class \<Rightarrow> packet \<Rightarrow> nat" where
  "input_cost WorkTask pk = 4"
| "input_cost HandlerTask pk = (if pk_kind pk = K_WORK then 2 + filled pk else 7)"
| "input_cost DeviceTask pk = 2"
| "input_cost IdleTask pk = 0"

fun place_cost :: "task \<Rightarrow> place \<Rightarrow> packet \<Rightarrow> nat" where
  "place_cost tk Input pk = input_cost (tk_class tk) pk"
| "place_cost tk Pending pk = (if task_holding tk then 0 else 8)"
| "place_cost tk WorkIn pk = filled pk"
| "place_cost tk DeviceIn pk = 5"

definition cost :: "world \<Rightarrow> nat \<times> place \<Rightarrow> nat \<Rightarrow> nat" where
  "cost w s p = place_cost (tasks w ! fst s) (snd s) (packets w ! p)"

definition spots :: "world \<Rightarrow> (nat \<times> place) set" where
  "spots w = {..<length (tasks w)} \<times> {Input, Pending, WorkIn, DeviceIn}"

definition load :: "(nat \<times> place \<Rightarrow> nat list) \<Rightarrow> world \<Rightarrow> nat" where
  "load Q w = (\<Sum>s \<in> spots w. \<Sum>p \<leftarrow> Q s. cost w s p)"

definition nap :: "task \<Rightarrow> nat" where
  "nap tk = (if tk_class tk = IdleTask \<or> task_waiting tk then 0 else 1)"

definition awake :: "world \<Rightarrow> nat" where
  "awake w = (\<Sum>tk \<leftarrow> tasks w. nap tk)"

definition energy :: "(nat \<times> place \<Rightarrow> nat list) \<Rightarrow> world \<Rightarrow> nat" where
  "energy Q w = load Q w + awake w"

definition idle_turns :: "world \<Rightarrow> nat" where
  "idle_turns w = (\<Sum>tk \<leftarrow> tasks w. idle_left (tk_handle tk))"

lemma finite_spots [simp]: "finite (spots w)"
  by (simp add: spots_def)

lemma in_spots [simp]: "(t, f) \<in> spots w \<longleftrightarrow> t < length (tasks w)"
  by (cases f) (auto simp: spots_def)

lemma load_upd:
  assumes "s \<in> spots w"
  shows "load (Q(s := xs)) w + (\<Sum>p \<leftarrow> Q s. cost w s p) = load Q w + (\<Sum>p \<leftarrow> xs. cost w s p)"
  using assms by (simp add: load_def sum.remove [of "spots w" s])

lemma load_take: "s \<in> spots w \<Longrightarrow> Q s = x # xs \<Longrightarrow> load Q w = load (Q(s := xs)) w + cost w s x"
  using load_upd [of s w Q xs] by simp

lemma load_put: "s \<in> spots w \<Longrightarrow> load (Q(s := Q s @ [p])) w = load Q w + cost w s p"
  using load_upd [of s w Q "Q s @ [p]"] by simp

lemma load_cong:
  assumes "length (tasks w') = length (tasks w)"
    and "\<And>s p. s \<in> spots w \<Longrightarrow> p \<in> set (Q s) \<Longrightarrow> cost w' s p = cost w s p"
  shows "load Q w' = load Q w"
proof -
  have "spots w' = spots w" by (simp add: spots_def assms(1))
  then show ?thesis
    using assms(2) by (auto simp: load_def intro!: sum.cong arg_cong [where f = sum_list])
qed

lemma sum_list_map_update:
  fixes g :: "'a \<Rightarrow> nat"
  shows "t < length xs \<Longrightarrow> (\<Sum>x \<leftarrow> xs[t := y]. g x) + g (xs ! t) = (\<Sum>x \<leftarrow> xs. g x) + g y"
  by (induction xs arbitrary: t) (auto split: nat.split simp: nth_Cons)

lemma awake_set_task:
  "t < length (tasks w) \<Longrightarrow> awake (w\<lparr>tasks := (tasks w)[t := tk]\<rparr>) + nap (tasks w ! t) = awake w + nap tk"
  by (simp add: awake_def sum_list_map_update)

lemma idle_turns_set_task:
  "t < length (tasks w) \<Longrightarrow>
   idle_turns (w\<lparr>tasks := (tasks w)[t := tk]\<rparr>) + idle_left (tk_handle (tasks w ! t)) = idle_turns w + idle_left (tk_handle tk)"
  unfolding idle_turns_def using sum_list_map_update [of t "tasks w" "\<lambda>tk. idle_left (tk_handle tk)" tk] by simp

text \<open>An overwritten task of the same class whose pending packet costs the same.\<close>

lemma load_set_task:
  assumes "t < length (tasks w)" and "tk_class tk = tk_class (tasks w ! t)"
    and "Q (t, Pending) = [] \<or> (task_holding tk \<longleftrightarrow> task_holding (tasks w ! t))"
  shows "load Q (w\<lparr>tasks := (tasks w)[t := tk]\<rparr>) = load Q w"
proof (rule load_cong)
  fix s p assume "p \<in> set (Q s)"
  with assms show "cost (w\<lparr>tasks := (tasks w)[t := tk]\<rparr>) s p = cost w s p"
    by (cases s; cases "snd s"; cases "fst s = t") (auto simp: cost_def nth_list_update)
qed simp

section \<open>The cost is bounded\<close>

lemma input_cost_le: "input_cost c pk \<le> 10"
  by (cases c) (auto simp: filled_def BUFSIZE_def)

lemma cost_le: "cost w s p \<le> 10"
  by (cases "snd s") (auto simp: cost_def input_cost_le filled_def BUFSIZE_def)

lemma sum_list_le: "(\<And>x. x \<in> set xs \<Longrightarrow> g x \<le> k) \<Longrightarrow> (\<Sum>x \<leftarrow> xs. g x) \<le> k * length xs" for g :: "'a \<Rightarrow> nat"
  using sum_list_mono [of xs g "\<lambda>x. k"] by (simp add: sum_list_triv mult.commute)

lemma load_le:
  assumes "shared_out Q H n"
  shows "load Q w \<le> 10 * n"
proof -
  have d: "distinct (Q s)" "s \<noteq> s' \<Longrightarrow> set (Q s) \<inter> set (Q s') = {}" for s s'
    using assms unfolding shared_out_def by blast+
  have "load Q w \<le> (\<Sum>s \<in> spots w. 10 * length (Q s))"
    unfolding load_def by (intro sum_mono sum_list_le cost_le)
  also have "\<dots> = 10 * (\<Sum>s \<in> spots w. card (set (Q s)))"
    using d(1) by (simp add: sum_distrib_left distinct_card)
  also have "(\<Sum>s \<in> spots w. card (set (Q s))) = card (\<Union>s \<in> spots w. set (Q s))"
    using d(2) by (intro card_UN_disjoint [symmetric]) auto
  also have "\<dots> \<le> card {..<n}"
    using shared_bound [OF assms] by (intro card_mono) auto
  finally show ?thesis by simp
qed

lemma awake_le: "awake w \<le> length (tasks w)"
proof -
  have "nap tk \<le> 1" for tk by (simp add: nap_def)
  then show ?thesis unfolding awake_def using sum_list_le [of "tasks w" nap 1] by simp
qed

lemma energy_le: "consistent Q H w \<Longrightarrow> energy Q w \<le> 10 * length (packets w) + length (tasks w)"
  unfolding energy_def by (intro add_mono load_le [OF inv_shared] awake_le)

end
