(* ===== verification/RichardsSafe.thy ===== *)
theory RichardsSafe
  imports RichardsEnergy
begin

text \<open>
  The operations of the tasks under the invariant: none raises, each one moves whole packets along
  their routes, and each turn brings the simulation nearer to its end: a turn of the idle task uses up
  one of its turns, and a turn of another task lowers the cost of the state.
\<close>

section \<open>Sending a packet\<close>

lemma addPacket_ok:
  assumes "consistent Q {p} w" and "t < length (tasks w)" and "old < length (tasks w)"
    and "good_ident w (t, Input) p" and "pk_link (packets w ! p) = None" and "tk_class (tasks w ! t) \<noteq> IdleTask"
  shows "\<exists>i w'. addPacket t p old w = Inr (i, w') \<and> i < length (tasks w) \<and> static w w' \<and>
    consistent (Q((t, Input) := Q (t, Input) @ [p])) {} w'"
proof (cases "tk_input (tasks w ! t)")
  case None
  let ?tk = "(tasks w ! t)\<lparr>tk_input := Some p, packet_pending := True\<rparr>" and ?Q = "Q((t, Input) := Q (t, Input) @ [p])"
  let ?w = "w\<lparr>tasks := (tasks w)[t := ?tk]\<rparr>"
  have p: "p < length (packets w)" using inv_held [OF assms(1), of p] by simp
  have root: "tk_root (tasks w ! t) f = root w (t, f)" for f using assms(2) by (simp add: root_def)
  have e: "Q (t, Input) = []"
    using inv_queue [OF assms(1), of "(t, Input)"] None assms(2) by (simp add: queue_def root_def)
  have "consistent ?Q {} ?w"
  proof (rule inv_set_task [OF assms(1,2)])
    show "good_task t ?tk" using inv_task [OF assms(1,2)] assms(6) by (simp add: good_task_def)
    show "shared_out ?Q {} (length (packets w))" by (rule shared_put [OF inv_shared [OF assms(1)]])
    show "queue (packets w) f (tk_root ?tk f) (?Q (t, f))" for f
    proof (cases "f = Input")
      case True
      with p assms(5) show ?thesis by (simp add: e queue_def)
    next
      case False
      then have "tk_root ?tk f = root w (t, f)" unfolding root [symmetric] by (cases f) auto
      with False show ?thesis using inv_queue [OF assms(1), of "(t, f)"] by simp
    qed
    show "good_ident w (t, f) q" if "q \<in> set (?Q (t, f))" for f q
      using that assms(4) inv_ident [OF assms(1)] by (auto split: if_splits)
  qed auto
  moreover have "static w ?w" using assms(2) by (intro static_set_task) auto
  ultimately show ?thesis
    using assms(2,3) None by (auto simp: addPacket_def set_task_eq)
next
  case (Some l)
  then show ?thesis
    using append_packet_ok [OF assms(1,2), of Input] assms(2-4) by (auto simp: addPacket_def)
qed

lemma findtcb_ok:
  assumes "consistent Q H w" and "i \<in> {2..6}"
  shows "\<exists>t. findtcb i w = Inr t \<and> t < length (tasks w) \<and> taskTab w ! i = Some t \<and> tk_class (tasks w ! t) \<noteq> IdleTask"
proof -
  have tab: "length (taskTab w) = TASKTABSIZE"
    "\<exists>t < length (tasks w). taskTab w ! i = Some t \<and> tk_class (tasks w ! t) \<noteq> IdleTask"
    using inv_tab [OF assms(1)] assms(2) by (auto simp: good_tab_def)
  moreover have "i < TASKTABSIZE" using assms(2) by (simp add: TASKTABSIZE_def)
  ultimately show ?thesis by (auto simp: findtcb_def)
qed

text \<open>\<open>qpkt\<close> puts the packet at the end of the input of the task that its \<open>ident\<close> names.\<close>

lemma qpkt_ok:
  assumes "consistent Q {p} w" and "self < length (tasks w)" and "pk_ident (packets w ! p) \<in> {2..6}"
    and "tk_class (tasks w ! self) \<noteq> IdleTask"
  shows "\<exists>i t w'. qpkt self p w = Inr (Some i, w') \<and> i < length (tasks w) \<and> static w w' \<and>
    taskTab w ! pk_ident (packets w ! p) = Some t \<and> consistent (Q((t, Input) := Q (t, Input) @ [p])) {} w'"
proof -
  have p: "p < length (packets w)" using inv_held [OF assms(1), of p] by simp
  obtain t where t: "findtcb (pk_ident (packets w ! p)) w = Inr t" "t < length (tasks w)"
    "taskTab w ! pk_ident (packets w ! p) = Some t" "tk_class (tasks w ! t) \<noteq> IdleTask"
    using findtcb_ok [OF assms(1,3)] by blast
  have self: "tk_ident (tasks w ! self) \<in> {2..6}" using inv_task [OF assms(1,2)] assms(4) by (simp add: good_task_def)
  let ?pk = "(packets w ! p)\<lparr>pk_link := None, pk_ident := tk_ident (tasks w ! self)\<rparr>"
  let ?w = "w\<lparr>qpktCount := qpktCount w + 1\<rparr>"
  let ?w' = "?w\<lparr>packets := (packets w)[p := ?pk]\<rparr>"
  have i1: "consistent Q {p} ?w" using assms(1) by (simp only: inv_counts)
  have "consistent Q {p} (?w\<lparr>packets := (packets ?w)[p := ?pk]\<rparr>)"
    by (rule inv_held_packet [OF i1]) (use inv_packet [OF assms(1) p] in \<open>auto simp: good_packet_def\<close>)
  then have i2: "consistent Q {p} ?w'" by simp
  have "\<exists>i w''. addPacket t p self ?w' = Inr (i, w'') \<and> i < length (tasks ?w') \<and> static ?w' w'' \<and>
      consistent (Q((t, Input) := Q (t, Input) @ [p])) {} w''"
    by (rule addPacket_ok [OF i2]) (use t assms(2) p self in \<open>auto simp: good_ident_def\<close>)
  then obtain i w'' where a: "addPacket t p self ?w' = Inr (i, w'')" "i < length (tasks w)" "static ?w' w''"
    "consistent (Q((t, Input) := Q (t, Input) @ [p])) {} w''" by auto
  have "qpkt self p w = Inr (Some i, w'')"
    using p t(1) assms(2) a(1) set_packet_eq [of p ?w "\<lambda>pk. pk\<lparr>pk_link := None, pk_ident := tk_ident (tasks w ! self)\<rparr>"]
    by (simp add: qpkt_def)
  moreover have "static w w''" using a(3) by (auto simp: static_def)
  ultimately show ?thesis using a(2,4) t(3) by blast
qed

section \<open>Taking a packet from a place, and putting one there\<close>

lemma place_take:
  assumes "consistent Q {} w" and "t < length (tasks w)" and "Q (t, f) = x # xs"
    and "good_task t tk" and "tk_class tk = tk_class (tasks w ! t)"
    and "\<And>f'. f' \<noteq> f \<Longrightarrow> tk_root tk f' = tk_root (tasks w ! t) f'"
    and "tk_root tk f = (if f = Pending then None else pk_link (packets w ! x))"
  shows "consistent (Q((t, f) := xs)) {x} (w\<lparr>tasks := (tasks w)[t := tk]\<rparr>)"
proof (rule inv_set_task [OF assms(1,2,4,5)])
  show "shared_out (Q((t, f) := xs)) {x} (length (packets w))"
    using shared_take [OF inv_shared [OF assms(1)] assms(3)] .
  have r: "tk_root (tasks w ! t) g = root w (t, g)" for g using assms(2) by (simp add: root_def)
  show "queue (packets w) g (tk_root tk g) ((Q((t, f) := xs)) (t, g))" for g
  proof (cases "g = f")
    case True
    then show ?thesis
      using inv_queue [OF assms(1), of "(t, f)"] assms(3,7) by (auto simp: queue_def split: option.splits)
  next
    case False
    then show ?thesis using inv_queue [OF assms(1), of "(t, g)"] assms(6) r by simp
  qed
  show "good_ident w (t, g) p" if "p \<in> set ((Q((t, f) := xs)) (t, g))" for g p
    using that inv_ident [OF assms(1), of p "(t, g)"] assms(3) by (auto split: if_splits)
qed auto

lemma head_of_queue:
  assumes "consistent Q H w" and "t < length (tasks w)" and "tk_root (tasks w ! t) f = Some x"
  shows "\<exists>xs. Q (t, f) = x # xs" and "x < length (packets w)" and "good_ident w (t, f) x"
proof -
  show q: "\<exists>xs. Q (t, f) = x # xs"
    using inv_queue [OF assms(1), of "(t, f)"] assms(2,3)
    by (cases "Q (t, f)") (auto simp: queue_def root_def split: if_splits)
  then have "x \<in> set (Q (t, f))" by auto
  then show "x < length (packets w)" "good_ident w (t, f) x"
    using inv_bound [OF assms(1)] inv_ident [OF assms(1)] by blast+
qed

lemma place_put:
  assumes "consistent Q {p} w" and "t < length (tasks w)" and "f \<noteq> Pending" and "good_ident w (t, f) p"
    and "\<And>h. good_task t (g h) \<and> tk_class (g h) = tk_class (tasks w ! t) \<and> tk_link (g h) = tk_link (tasks w ! t) \<and>
      tk_root (g h) f = Some h \<and> (\<forall>f'. f' \<noteq> f \<longrightarrow> tk_root (g h) f' = tk_root (tasks w ! t) f')"
  shows "\<exists>h w'. append_packet p (tk_root (tasks w ! t) f) w = Inr (h, w') \<and> tasks w' = tasks w \<and>
    static w (w'\<lparr>tasks := (tasks w)[t := g h]\<rparr>) \<and>
    consistent (Q((t, f) := Q (t, f) @ [p])) {} (w'\<lparr>tasks := (tasks w)[t := g h]\<rparr>)"
proof -
  obtain h w' where a: "append_packet p (tk_root (tasks w ! t) f) w = Inr (h, w')" "static w w'" "tasks w' = tasks w"
    "chain (packets w') (Some h) (Q (t, f) @ [p])" "\<forall>q. pk_ident (packets w' ! q) = pk_ident (packets w ! q)"
    "if tk_root (tasks w ! t) f = None then consistent Q {p} w'
     else tk_root (tasks w ! t) f = Some h \<and> consistent (Q((t, f) := Q (t, f) @ [p])) {} w'"
    using append_packet_ok [OF assms(1-4)] by blast
  have t': "t < length (tasks w')" using a(3) assms(2) by simp
  note g = assms(5) [of h]
  have ident: "good_ident w' s q \<longleftrightarrow> good_ident w s q" for s q using a(3,5) by (simp add: good_ident_def)
  have "consistent (Q((t, f) := Q (t, f) @ [p])) {} (w'\<lparr>tasks := (tasks w')[t := g h]\<rparr>)"
  proof (cases "tk_root (tasks w ! t) f")
    case None
    then have i: "consistent Q {p} w'" using a(6) by simp
    show ?thesis
    proof (rule inv_set_task [OF i t'])
      show "shared_out (Q((t, f) := Q (t, f) @ [p])) {} (length (packets w'))" by (rule shared_put [OF inv_shared [OF i]])
      show "queue (packets w') f' (tk_root (g h) f') ((Q((t, f) := Q (t, f) @ [p])) (t, f'))" for f'
        using g a(3,4) assms(2,3) inv_queue [OF i, of "(t, f')"] by (cases "f' = f") (auto simp: queue_def root_def)
      show "good_ident w' (t, f') q" if "q \<in> set ((Q((t, f) := Q (t, f) @ [p])) (t, f'))" for f' q
        using that assms(4) inv_ident [OF i] by (auto simp: ident split: if_splits)
    qed (use g a(3) in auto)
  next
    case (Some l)
    then have "tk_root (tasks w ! t) f = Some h" and i: "consistent (Q((t, f) := Q (t, f) @ [p])) {} w'"
      using a(6) by simp_all
    then have "tk_root (g h) f' = tk_root (tasks w' ! t) f'" for f' using g a(3) by (cases "f' = f") auto
    then show ?thesis using g a(3) by (intro inv_same_places [OF i t']) auto
  qed
  moreover have "static w (w'\<lparr>tasks := (tasks w)[t := g h]\<rparr>)"
    using a(2,3) g assms(2) by (auto simp: static_def nth_list_update)
  ultimately show ?thesis using a(1,3) by auto
qed

end
