(* ===== verification/RichardsTurns.thy ===== *)
theory RichardsTurns
  imports RichardsSafe
begin

text \<open>
  A turn of each kind of task, for an orderly state: it succeeds, keeps the state orderly, and either
  uses up a turn of an idle task or lowers the cost. A packet in hand is paid for by the place it was
  taken from.
\<close>

section \<open>What sending a packet leaves alone\<close>

definition same_content :: "packet list \<Rightarrow> packet list \<Rightarrow> bool" where
  "same_content ps ps' \<longleftrightarrow> length ps' = length ps \<and>
     (\<forall>q < length ps. pk_kind (ps' ! q) = pk_kind (ps ! q) \<and> pk_datum (ps' ! q) = pk_datum (ps ! q) \<and>
       pk_ident (ps' ! q) = pk_ident (ps ! q))"

definition same_state :: "task list \<Rightarrow> task list \<Rightarrow> bool" where
  "same_state ts ts' \<longleftrightarrow> length ts' = length ts \<and>
     (\<forall>t < length ts. tk_class (ts' ! t) = tk_class (ts ! t) \<and> tk_ident (ts' ! t) = tk_ident (ts ! t) \<and>
       tk_handle (ts' ! t) = tk_handle (ts ! t) \<and> task_waiting (ts' ! t) = task_waiting (ts ! t) \<and>
       task_holding (ts' ! t) = task_holding (ts ! t))"

definition framed :: "world \<Rightarrow> world \<Rightarrow> bool" where
  "framed w w' \<longleftrightarrow> same_content (packets w) (packets w') \<and> same_state (tasks w) (tasks w') \<and> taskTab w' = taskTab w"

lemma same_content_refl [simp]: "same_content ps ps"
  by (simp add: same_content_def)

lemma same_state_refl [simp]: "same_state ts ts"
  by (simp add: same_state_def)

lemma same_content_trans: "same_content a b \<Longrightarrow> same_content b c \<Longrightarrow> same_content a c"
  by (simp add: same_content_def)

lemma set_link_content: "set_link p l ps = Inr ps' \<Longrightarrow> same_content ps ps'"
  by (auto simp: set_link_def rbind_eq_Inr lget_eq_Inr lset_eq_Inr same_content_def nth_list_update)

lemma append_to_content:
  assumes "append_to self lst ps = Inr (h, ps')"
  shows "same_content ps ps'"
proof -
  obtain ps1 where 1: "set_link self None ps = Inr ps1"
    "(case lst of None \<Rightarrow> Inr (self, ps1)
      | Some l \<Rightarrow> rbind (last_packet (length ps1) ps1 l) (\<lambda>p.
          rbind (set_link p (Some self) ps1) (\<lambda>ps. Inr (l, ps)))) = Inr (h, ps')"
    using assms by (auto simp: append_to_def rbind_eq_Inr)
  then have "same_content ps1 ps'"
    by (auto simp: rbind_eq_Inr split: option.splits dest: set_link_content)
  with set_link_content [OF 1(1)] show ?thesis by (rule same_content_trans)
qed

lemma append_packet_framed: "append_packet p l w = Inr (h, w') \<Longrightarrow> framed w w'"
  by (auto simp: append_packet_def framed_def rbind_eq_Inr split: prod.splits dest: append_to_content)

lemma addPacket_framed:
  assumes "addPacket t p old w = Inr (i, w')"
  shows "framed w w'"
proof -
  obtain tk where tk: "lget (tasks w) t = Inr tk" using assms by (auto simp: addPacket_def rbind_eq_Inr)
  show ?thesis
  proof (cases "tk_input tk")
    case None
    then obtain w1 where w1: "set_task t (\<lambda>tk. tk\<lparr>tk_input := Some p, packet_pending := True\<rparr>) w = Inr w1" "w' = w1"
      using assms tk by (auto simp: addPacket_def rbind_eq_Inr split: if_splits)
    then show ?thesis
      by (auto simp: set_task_def rbind_eq_Inr lget_eq_Inr lset_eq_Inr framed_def same_state_def nth_list_update
          split: if_splits)
  next
    case (Some l)
    with assms tk show ?thesis by (auto simp: addPacket_def rbind_eq_Inr dest: append_packet_framed)
  qed
qed

lemma qpkt_framed:
  assumes "qpkt self p w = Inr (i, w')" and "p < length (packets w)" and "self < length (tasks w)"
  shows "framed (w\<lparr>packets := (packets w)[p := (packets w ! p)\<lparr>pk_ident := tk_ident (tasks w ! self)\<rparr>]\<rparr>) w'"
proof -
  let ?w = "(w\<lparr>qpktCount := qpktCount w + 1\<rparr>)\<lparr>packets := (packets w)[p := (packets w ! p)\<lparr>pk_link := None,
    pk_ident := tk_ident (tasks w ! self)\<rparr>]\<rparr>"
  obtain t k where a: "addPacket t p self ?w = Inr (k, w')"
    using assms by (auto simp: qpkt_def rbind_eq_Inr set_packet_def)
  have "same_content ((packets w)[p := (packets w ! p)\<lparr>pk_ident := tk_ident (tasks w ! self)\<rparr>]) (packets ?w)"
    using assms(2) by (auto simp: same_content_def nth_list_update)
  then show ?thesis
    using addPacket_framed [OF a] same_content_trans by (auto simp: framed_def)
qed

lemma framed_tasks:
  assumes "framed w w'"
  shows "awake w' = awake w" and "idle_turns w' = idle_turns w" and "routes w \<Longrightarrow> good_tab w \<Longrightarrow> routes w'"
proof -
  have s: "length (tasks w') = length (tasks w)"
    "\<And>t. t < length (tasks w) \<Longrightarrow> tk_class (tasks w' ! t) = tk_class (tasks w ! t) \<and> tk_ident (tasks w' ! t) = tk_ident (tasks w ! t) \<and>
       tk_handle (tasks w' ! t) = tk_handle (tasks w ! t) \<and> task_waiting (tasks w' ! t) = task_waiting (tasks w ! t) \<and>
       task_holding (tasks w' ! t) = task_holding (tasks w ! t)"
    "taskTab w' = taskTab w"
    using assms by (simp_all add: framed_def same_state_def)
  have "map nap (tasks w') = map nap (tasks w)"
    using s by (intro nth_equalityI) (simp_all add: nap_def)
  then show "awake w' = awake w" by (simp only: awake_def)
  have "map (\<lambda>tk. idle_left (tk_handle tk)) (tasks w') = map (\<lambda>tk. idle_left (tk_handle tk)) (tasks w)"
    using s by (intro nth_equalityI) simp_all
  then show "idle_turns w' = idle_turns w" by (simp only: idle_turns_def)
  assume r: "routes w" and g: "good_tab w"
  have "steady (tasks w' ! t)" if "t < length (tasks w)" for t
    using s(2) [OF that] routes_task [OF r that] by (simp add: steady_def)
  then have "\<forall>tk \<in> set (tasks w'). steady tk" using s(1) by (auto simp: in_set_conv_nth)
  moreover have "t < length (tasks w)" if "i \<in> {2..6}" "taskTab w ! i = Some t" for i t
    using g that unfolding good_tab_def by fastforce
  ultimately show "routes w'" using r s(2,3) by (auto simp: routes_def)
qed

lemma framed_places:
  assumes "framed w w'" and "t < length (tasks w)" and "p < length (packets w)"
  shows "cost w' (t, f) p = cost w (t, f) p" and "routed w' (t, f) p \<longleftrightarrow> routed w (t, f) p"
proof -
  have "tk_class (tasks w' ! t) = tk_class (tasks w ! t)" "task_holding (tasks w' ! t) = task_holding (tasks w ! t)"
    "pk_kind (packets w' ! p) = pk_kind (packets w ! p)" "pk_datum (packets w' ! p) = pk_datum (packets w ! p)"
    "pk_ident (packets w' ! p) = pk_ident (packets w ! p)"
    using assms by (simp_all add: framed_def same_state_def same_content_def)
  then show "cost w' (t, f) p = cost w (t, f) p" "routed w' (t, f) p \<longleftrightarrow> routed w (t, f) p"
    by (cases f; cases "tk_class (tasks w ! t)"; simp add: cost_def routed_def filled_def)+
qed

section \<open>What every turn of a task ends with\<close>

definition good_step :: "world \<Rightarrow> nat \<Rightarrow> nat \<Rightarrow> (nat option \<times> world) result \<Rightarrow> bool" where
  "good_step w n e r \<longleftrightarrow> (\<exists>i w' Q. r = Inr (i, w') \<and> (\<forall>t. i = Some t \<longrightarrow> t < length (tasks w)) \<and> static w w' \<and>
     orderly Q {} w' \<and> (idle_turns w' < n \<or> idle_turns w' = n \<and> energy Q w' < e))"

lemma good_step_static: "static w w' \<Longrightarrow> good_step w' n e r \<Longrightarrow> good_step w n e r"
proof -
  assume s: "static w w'" and "good_step w' n e r"
  then obtain i w'' Q where "r = Inr (i, w'')" "\<forall>t. i = Some t \<longrightarrow> t < length (tasks w')" "static w' w''"
    "orderly Q {} w''" "idle_turns w'' < n \<or> idle_turns w'' = n \<and> energy Q w'' < e" by (auto simp: good_step_def)
  moreover have "length (tasks w') = length (tasks w)" using s by (simp add: static_def)
  ultimately show ?thesis using static_trans [OF s] unfolding good_step_def by fastforce
qed

lemma inv_spot: "consistent Q H w \<Longrightarrow> p \<in> set (Q (t, f)) \<Longrightarrow> t < length (tasks w)"
  using inv_queue [of Q H w "(t, f)"] by (auto simp: queue_def root_def split: if_splits)

lemma qpkt_good:
  assumes "orderly Q {p} w" and "self < length (tasks w)" and "pk_ident (packets w ! p) \<in> {2..6}"
    and "tk_class (tasks w ! self) \<noteq> IdleTask"
    and "route (class_of (pk_ident (packets w ! p))) Input ((packets w ! p)\<lparr>pk_ident := tk_ident (tasks w ! self)\<rparr>)"
    and "energy Q w + input_cost (class_of (pk_ident (packets w ! p))) (packets w ! p) < e"
  shows "good_step w (idle_turns w) e (qpkt self p w)"
proof -
  let ?d = "class_of (pk_ident (packets w ! p))"
  have c: "consistent Q {p} w" using orderly_consistent [OF assms(1)] .
  have p: "p < length (packets w)" "\<And>s. p \<notin> set (Q s)" using inv_held [OF c, of p] by auto
  obtain i t w' where q: "qpkt self p w = Inr (Some i, w')" "i < length (tasks w)" "static w w'"
    "taskTab w ! pk_ident (packets w ! p) = Some t" "consistent (Q((t, Input) := Q (t, Input) @ [p])) {} w'"
    using qpkt_ok [OF c assms(2-4)] by blast
  let ?Q = "Q((t, Input) := Q (t, Input) @ [p])"
  let ?w = "w\<lparr>packets := (packets w)[p := (packets w ! p)\<lparr>pk_ident := tk_ident (tasks w ! self)\<rparr>]\<rparr>"
  have r: "routes w" using orderly_routes [OF assms(1)] .
  have f: "framed ?w w'" using qpkt_framed [OF q(1) p(1) assms(2)] .
  have t: "t < length (tasks w)" "tk_class (tasks w ! t) = ?d"
    using inv_spot [OF q(5), of p t Input] q(3) assms(3) q(4) r by (auto simp: static_def routes_def)
  have same: "cost ?w s x = cost w s x" "x \<noteq> p \<Longrightarrow> routed ?w s x \<longleftrightarrow> routed w s x" for s x
  proof -
    show "x \<noteq> p \<Longrightarrow> routed ?w s x \<longleftrightarrow> routed w s x" by (simp add: routed_def)
    show "cost ?w s x = cost w s x"
      by (cases "x = p"; cases "snd s"; cases "tk_class (tasks w ! fst s)") (use p(1) in \<open>simp_all add: cost_def filled_def\<close>)
  qed
  have "routes ?w" "good_tab ?w" using r inv_tab [OF c] by (simp_all add: routes_def good_tab_def)
  then have r': "routes w'" by (rule framed_tasks(3) [OF f])
  have w': "length (tasks w') = length (tasks w)" "length (packets w') = length (packets w)" using q(3) by (simp_all add: static_def)
  have routed': "routed w' s x" if x: "x \<in> set (?Q s)" for s x
  proof -
    obtain k g where s: "s = (k, g)" by (cases s)
    have k: "k < length (tasks w)" "x < length (packets w)"
      using inv_spot [OF q(5)] inv_bound [OF q(5) x] x w' unfolding s by auto
    have "routed ?w s x"
    proof (cases "x = p")
      case True
      then have "s = (t, Input)" using x p(2) [of s] by (auto split: if_splits)
      then show ?thesis using True t assms(5) p(1) by (simp add: routed_def)
    next
      case False
      then have "x \<in> set (Q s)" using x by (auto split: if_splits)
      with False same(2) orderly_routed [OF assms(1)] show ?thesis by blast
    qed
    then show ?thesis using framed_places(2) [OF f, of k x] k by (simp add: s)
  qed
  have "load ?Q w' = load ?Q w"
  proof (rule load_cong)
    fix s x assume "s \<in> spots w" "x \<in> set (?Q s)"
    moreover obtain k g where "s = (k, g)" by (cases s)
    ultimately show "cost w' s x = cost w s x"
      using framed_places(1) [OF f, of k x g] inv_bound [OF q(5), of x s] w' same(1) [of "(k, g)" x] by simp
  qed (rule w')
  also have "\<dots> = load Q w + cost w (t, Input) p" using t(1) by (intro load_put) simp
  finally have "load ?Q w' = load Q w + input_cost ?d (packets w ! p)" using t(2) by (simp add: cost_def)
  moreover have "awake w' = awake w" "idle_turns w' = idle_turns w"
    using framed_tasks(1,2) [OF f] by (simp_all add: awake_def idle_turns_def)
  ultimately have "energy ?Q w' < e" "idle_turns w' = idle_turns w" using assms(6) by (simp_all add: energy_def)
  moreover have "orderly ?Q {} w'" using q(5) r' routed' by (simp add: orderly_def)
  ultimately show ?thesis using q(1-3) unfolding good_step_def by blast
qed

text \<open>A task that gets no packet goes to sleep.\<close>

lemma waitTask_good:
  assumes "orderly Q {} w" and "self < length (tasks w)" and "tk_root (tasks w ! self) Pending = None"
    and "\<not> task_waiting (tasks w ! self)" and "tk_class (tasks w ! self) \<noteq> IdleTask"
  shows "good_step w (idle_turns w) (energy Q w) (waitTask self w)"
proof -
  let ?tk = "(tasks w ! self)\<lparr>task_waiting := True\<rparr>"
  let ?w = "w\<lparr>tasks := (tasks w)[self := ?tk]\<rparr>"
  have c: "consistent Q {} w" using orderly_consistent [OF assms(1)] .
  have r: "tk_root ?tk f = tk_root (tasks w ! self) f" for f by (cases f) auto
  have "good_task self ?tk" using inv_task [OF c assms(2)] assms(3) by (simp add: good_task_def)
  then have "consistent Q {} ?w" by (intro inv_same_places [OF c assms(2)]) (use r in auto)
  then have o: "orderly Q {} ?w"
    using routes_task [OF orderly_routes [OF assms(1)] assms(2)]
    by (intro orderly_set_task [OF assms(1,2)]) (auto simp: steady_def)
  have "load Q ?w = load Q w" using assms(2) by (intro load_set_task) auto
  moreover have "awake ?w + 1 = awake w" using awake_set_task [OF assms(2), of ?tk] assms(4,5) by (simp add: nap_def)
  ultimately have "energy Q ?w < energy Q w" by (simp add: energy_def)
  moreover have "idle_turns ?w = idle_turns w" using idle_turns_set_task [OF assms(2), of ?tk] by simp
  moreover have "static w ?w" using assms(2) by (intro static_set_task) auto
  ultimately show ?thesis using assms(2) o by (auto simp: good_step_def waitTask_def set_task_eq)
qed

lemma orderly_counts: "orderly Q H (w\<lparr>holdCount := h\<rparr>) \<longleftrightarrow> orderly Q H w"
  by (simp add: orderly_def inv_counts routes_def routed_def)

lemma energy_counts: "energy Q (w\<lparr>holdCount := h\<rparr>) = energy Q w" "idle_turns (w\<lparr>holdCount := h\<rparr>) = idle_turns w"
  by (simp_all add: energy_def load_def spots_def cost_def awake_def idle_turns_def)

lemma hold_good:
  assumes "self < length (tasks w)" and "\<forall>t. tk_link (tasks w ! self) = Some t \<longrightarrow> t < length (tasks w)"
    and "orderly Q {} (w\<lparr>tasks := (tasks w)[self := (tasks w ! self)\<lparr>task_holding := True\<rparr>]\<rparr>)"
    and "idle_turns w < n \<or> idle_turns w = n \<and>
      energy Q (w\<lparr>tasks := (tasks w)[self := (tasks w ! self)\<lparr>task_holding := True\<rparr>]\<rparr>) < e"
  shows "good_step w n e (hold self w)"
proof -
  let ?tk = "(tasks w ! self)\<lparr>task_holding := True\<rparr>"
  let ?w = "w\<lparr>tasks := (tasks w)[self := ?tk]\<rparr>" and ?h = "w\<lparr>holdCount := holdCount w + 1\<rparr>"
  have "orderly Q {} (?w\<lparr>holdCount := holdCount w + 1\<rparr>)" using assms(3) by (simp only: orderly_counts)
  moreover have "idle_turns (?w\<lparr>holdCount := holdCount w + 1\<rparr>) = idle_turns w"
    using idle_turns_set_task [OF assms(1), of ?tk] by (simp add: energy_counts)
  moreover have "energy Q (?w\<lparr>holdCount := holdCount w + 1\<rparr>) = energy Q ?w" by (simp only: energy_counts)
  moreover have "static w (?w\<lparr>holdCount := holdCount w + 1\<rparr>)" using assms(1) by (simp add: static_def nth_list_update)
  moreover have "hold self w = Inr (tk_link (tasks w ! self), ?w\<lparr>holdCount := holdCount w + 1\<rparr>)"
    using assms(1) set_task_eq [of self ?h "\<lambda>tk. tk\<lparr>task_holding := True\<rparr>"] by (simp add: hold_def)
  ultimately show ?thesis using assms(2,4) unfolding good_step_def by fastforce
qed

lemma release_good:
  assumes "orderly Q {} w" and "self < length (tasks w)" and "i \<in> {2..6}" and "idle_turns w < n"
  shows "good_step w n e (release self i w)"
proof -
  have c: "consistent Q {} w" using orderly_consistent [OF assms(1)] .
  obtain t where t: "findtcb i w = Inr t" "t < length (tasks w)" "tk_class (tasks w ! t) \<noteq> IdleTask"
    using findtcb_ok [OF c assms(3)] by blast
  let ?tk = "(tasks w ! t)\<lparr>task_holding := False\<rparr>"
  let ?w = "w\<lparr>tasks := (tasks w)[t := ?tk]\<rparr>"
  have r: "tk_root ?tk f = tk_root (tasks w ! t) f" for f by (cases f) auto
  have "good_task t ?tk" using inv_task [OF c t(2)] by (simp add: good_task_def)
  then have "consistent Q {} ?w" by (intro inv_same_places [OF c t(2)]) (use r in auto)
  then have "orderly Q {} ?w"
    using routes_task [OF orderly_routes [OF assms(1)] t(2)] t(3)
    by (intro orderly_set_task [OF assms(1) t(2)]) (auto simp: steady_def)
  moreover have "static w ?w" using t(2) by (intro static_set_task) auto
  moreover have "idle_turns ?w < n" using idle_turns_set_task [OF t(2), of ?tk] assms(4) by simp
  ultimately show ?thesis
    using assms(2) t(1,2) by (auto simp: good_step_def release_def set_task_eq)
qed

section \<open>The four kinds of task\<close>

lemma good_handleE:
  "good_handle DeviceTask r \<Longrightarrow> \<exists>p. r = DeviceTaskRec p"
  "good_handle HandlerTask r \<Longrightarrow> \<exists>wi di. r = HandlerTaskRec wi di"
  "good_handle IdleTask r \<Longrightarrow> \<exists>c n. r = IdleTaskRec c n"
  "good_handle WorkTask r \<Longrightarrow> \<exists>d n. r = WorkerTaskRec d n \<and> 0 \<le> n"
  by (cases r; simp)+

lemma idle_fn_good:
  assumes "orderly Q {} w" and "self < length (tasks w)" and "tk_class (tasks w ! self) = IdleTask"
    and "\<not> task_holding (tasks w ! self)"
  shows "good_step w (idle_turns w) e (idle_fn self pkt (tk_handle (tasks w ! self)) w)"
proof -
  have c: "consistent Q {} w" using orderly_consistent [OF assms(1)] .
  have good: "good_task self (tasks w ! self)" using inv_task [OF c assms(2)] .
  then obtain k n where h: "tk_handle (tasks w ! self) = IdleTaskRec k n"
    using good_handleE(3) assms(3) unfolding good_task_def by metis
  have n: "0 < n" using routes_task [OF orderly_routes [OF assms(1)] assms(2)] assms(3,4) h by (simp add: steady_def)
  let ?tk = "\<lambda>k. (tasks w ! self)\<lparr>tk_handle := IdleTaskRec k (n - 1)\<rparr>"
  let ?w = "\<lambda>k. w\<lparr>tasks := (tasks w)[self := ?tk k]\<rparr>"
  have "tk_root (?tk k) f = tk_root (tasks w ! self) f" for k f using h by (cases f) auto
  then have i: "consistent Q {} (?w k)" for k
    using good assms(3) by (intro inv_same_places [OF c assms(2)]) (auto simp: good_task_def)
  have s: "static w (?w k)" for k using assms(2) by (intro static_set_task) auto
  have less: "idle_turns (?w k) < idle_turns w" for k
    using idle_turns_set_task [OF assms(2), of "?tk k"] h n by (simp add: nat_diff_distrib)
  show ?thesis
  proof (cases "n - 1 = 0")
    case False
    then have o: "orderly Q {} (?w k)" for k
      using routes_task [OF orderly_routes [OF assms(1)] assms(2)] assms(3) n
      by (intro orderly_set_task [OF assms(1,2) _ _ i]) (auto simp: steady_def)
    have "good_step w (idle_turns w) e (release self I (?w k))" if "I \<in> {2..6}" for I k
      by (rule good_step_static [OF s release_good [OF o _ that less]]) (use assms(2) in simp)
    then show ?thesis using h assms(2) False by (simp add: idle_fn_def set_task_eq Let_def task_ids)
  next
    case True
    let ?w' = "?w k\<lparr>tasks := (tasks (?w k))[self := (tasks (?w k) ! self)\<lparr>task_holding := True\<rparr>]\<rparr>"
    let ?tk' = "(?tk k)\<lparr>task_holding := True\<rparr>"
    have r: "tk_root ?tk' f = tk_root (tasks w ! self) f" for f using h by (cases f) auto
    have eq: "?w' = w\<lparr>tasks := (tasks w)[self := ?tk']\<rparr>" using assms(2) by simp
    have "consistent Q {} (w\<lparr>tasks := (tasks w)[self := ?tk']\<rparr>)"
      using good assms(3) by (intro inv_same_places [OF c assms(2)]) (use r in \<open>auto simp: good_task_def\<close>)
    then have "orderly Q {} ?w'"
      unfolding eq using assms(3) by (intro orderly_set_task [OF assms(1,2)]) (auto simp: steady_def)
    moreover have "\<forall>t. tk_link (tasks (?w k) ! self) = Some t \<longrightarrow> t < length (tasks (?w k))"
      using good assms(2) by (auto simp: good_task_def)
    ultimately have "good_step (?w k) (idle_turns w) e (hold self (?w k))"
      using less [of k] assms(2) by (intro hold_good) simp_all
    then show ?thesis
      using good_step_static [OF s] h assms(2) True by (simp add: idle_fn_def set_task_eq Let_def)
  qed
qed

text \<open>A packet is taken from a place, and one is put into a queue.\<close>

lemma take_orderly:
  assumes "orderly Q {} w" and "t < length (tasks w)" and "Q (t, f) = x # xs"
    and "good_task t tk" and "tk_class tk = tk_class (tasks w ! t)" and "steady tk"
    and "task_holding tk = task_holding (tasks w ! t)"
    and "\<And>f'. f' \<noteq> f \<Longrightarrow> tk_root tk f' = tk_root (tasks w ! t) f'"
    and "tk_root tk f = (if f = Pending then None else pk_link (packets w ! x))"
  shows "orderly (Q((t, f) := xs)) {x} (w\<lparr>tasks := (tasks w)[t := tk]\<rparr>)"
    and "energy (Q((t, f) := xs)) (w\<lparr>tasks := (tasks w)[t := tk]\<rparr>) + cost w (t, f) x + nap (tasks w ! t) = energy Q w + nap tk"
    and "x < length (packets w)" and "routed w (t, f) x" and "good_ident w (t, f) x"
proof -
  let ?w = "w\<lparr>tasks := (tasks w)[t := tk]\<rparr>" and ?Q = "Q((t, f) := xs)"
  have c: "consistent Q {} w" using orderly_consistent [OF assms(1)] .
  have x: "x \<in> set (Q (t, f))" using assms(3) by simp
  then show "x < length (packets w)" "routed w (t, f) x" "good_ident w (t, f) x"
    using inv_bound [OF c] orderly_routed [OF assms(1)] inv_ident [OF c] by blast+
  have "consistent ?Q {x} ?w" by (rule place_take [where tk = tk, OF c assms(2-5) assms(8,9)])
  then show "orderly ?Q {x} ?w"
    using assms(3) by (intro orderly_set_task [OF assms(1,2,6,5)]) (auto split: if_splits)
  have "load ?Q ?w = load ?Q w" using assms(2,5,7) by (intro load_set_task) auto
  moreover have "load Q w = load ?Q w + cost w (t, f) x" using assms(2,3) by (intro load_take) auto
  ultimately show "energy ?Q ?w + cost w (t, f) x + nap (tasks w ! t) = energy Q w + nap tk"
    using awake_set_task [OF assms(2), of tk] by (simp add: energy_def)
qed

lemma put_orderly:
  assumes "orderly Q {p} w" and "t < length (tasks w)" and "f \<noteq> Pending" and "good_ident w (t, f) p" and "routed w (t, f) p"
    and "\<And>h. good_task t (g h) \<and> tk_class (g h) = tk_class (tasks w ! t) \<and> tk_link (g h) = tk_link (tasks w ! t) \<and>
      tk_root (g h) f = Some h \<and> (\<forall>f'. f' \<noteq> f \<longrightarrow> tk_root (g h) f' = tk_root (tasks w ! t) f')"
    and "\<And>h. steady (g h) \<and> task_holding (g h) = task_holding (tasks w ! t) \<and> nap (g h) = nap (tasks w ! t) \<and>
      idle_left (tk_handle (g h)) = idle_left (tk_handle (tasks w ! t))"
  shows "\<exists>h w'. append_packet p (tk_root (tasks w ! t) f) w = Inr (h, w') \<and> tasks w' = tasks w \<and>
    static w (w'\<lparr>tasks := (tasks w)[t := g h]\<rparr>) \<and>
    orderly (Q((t, f) := Q (t, f) @ [p])) {} (w'\<lparr>tasks := (tasks w)[t := g h]\<rparr>) \<and>
    energy (Q((t, f) := Q (t, f) @ [p])) (w'\<lparr>tasks := (tasks w)[t := g h]\<rparr>) = energy Q w + cost w (t, f) p \<and>
    idle_turns (w'\<lparr>tasks := (tasks w)[t := g h]\<rparr>) = idle_turns w"
proof -
  let ?Q = "Q((t, f) := Q (t, f) @ [p])"
  have c: "consistent Q {p} w" using orderly_consistent [OF assms(1)] .
  obtain h w' where a: "append_packet p (tk_root (tasks w ! t) f) w = Inr (h, w')" "tasks w' = tasks w"
    "static w (w'\<lparr>tasks := (tasks w)[t := g h]\<rparr>)" "consistent ?Q {} (w'\<lparr>tasks := (tasks w)[t := g h]\<rparr>)"
    using place_put [where g = g, OF c assms(2,3,4,6)] by blast
  let ?w = "w'\<lparr>tasks := (tasks w)[t := g h]\<rparr>"
  have f: "framed w w'" using append_packet_framed [OF a(1)] .
  have t': "t < length (tasks w')" using assms(2) a(2) by simp
  have k: "k < length (tasks w)" "x < length (packets w)" if "x \<in> set (?Q (k, f'))" for k f' x
    using inv_spot [OF a(4) that] inv_bound [OF a(4) that] a(3) by (auto simp: static_def)
  have "routes w'" by (rule framed_tasks(3) [OF f orderly_routes [OF assms(1)] inv_tab [OF c]])
  then have "routes (w'\<lparr>tasks := (tasks w')[t := g h]\<rparr>)"
    using assms(6,7) a(2) by (intro routes_set_task [OF _ t']) auto
  then have r: "routes ?w" by (simp add: a(2))
  have cls: "tk_class (tasks ?w ! k) = tk_class (tasks w' ! k)" for k
    using assms(6) a(2) assms(2) by (cases "k = t") auto
  have "routed ?w s x" if x: "x \<in> set (?Q s)" for s x
  proof -
    obtain k' f' where s: "s = (k', f')" by (cases s)
    have "routed w s x" using x assms(5) orderly_routed [OF assms(1)] by (auto split: if_splits)
    then have "routed w' s x" using framed_places(2) [OF f] k x unfolding s by blast
    then show ?thesis by (simp add: routed_def cls [simplified])
  qed
  then have o: "orderly ?Q {} ?w" using a(4) r by (simp add: orderly_def)
  have "load ?Q (w'\<lparr>tasks := (tasks w')[t := g h]\<rparr>) = load ?Q w'"
    using assms(6,7) a(2) by (intro load_set_task [OF t']) auto
  also have "load ?Q w' = load ?Q w"
  proof (rule load_cong)
    show "cost w' s x = cost w s x" if "x \<in> set (?Q s)" for s x
      using framed_places(1) [OF f] k that by (cases s) blast
  qed (simp add: a(2))
  also have "\<dots> = load Q w + cost w (t, f) p" using assms(2) by (intro load_put) simp
  finally have l: "load ?Q ?w = load Q w + cost w (t, f) p" by (simp add: a(2))
  have "awake (w'\<lparr>tasks := (tasks w')[t := g h]\<rparr>) = awake w'" "idle_turns (w'\<lparr>tasks := (tasks w')[t := g h]\<rparr>) = idle_turns w'"
    using awake_set_task [OF t', of "g h"] idle_turns_set_task [OF t', of "g h"] assms(7) a(2) by simp_all
  then have "awake ?w = awake w" "idle_turns ?w = idle_turns w" using framed_tasks(1,2) [OF f] by (simp_all add: a(2))
  with l have "energy ?Q ?w = energy Q w + cost w (t, f) p" "idle_turns ?w = idle_turns w" by (simp_all add: energy_def)
  with a(1-3) o show ?thesis by blast
qed

lemma device_fn_good:
  assumes "orderly Q (set_option pkt) w" and "self < length (tasks w)" and "tk_class (tasks w ! self) = DeviceTask"
    and "\<not> task_waiting (tasks w ! self)" and "\<not> task_holding (tasks w ! self)"
    and "\<And>p. pkt = Some p \<Longrightarrow> tk_root (tasks w ! self) Pending = None \<and> pk_ident (packets w ! p) \<in> {2..6} \<and>
      routed w (self, Input) p"
    and "e = energy Q w + (if pkt = None then 0 else 1)"
  shows "good_step w (idle_turns w) e (device_fn self pkt (tk_handle (tasks w ! self)) w)"
proof -
  have c: "consistent Q (set_option pkt) w" using orderly_consistent [OF assms(1)] .
  have good: "good_task self (tasks w ! self)" using inv_task [OF c assms(2)] .
  have st: "steady (tasks w ! self)" using routes_task [OF orderly_routes [OF assms(1)] assms(2)] .
  obtain pd where h: "tk_handle (tasks w ! self) = DeviceTaskRec pd"
    using good good_handleE(1) assms(3) unfolding good_task_def by metis
  let ?tk = "\<lambda>r. (tasks w ! self)\<lparr>tk_handle := DeviceTaskRec r\<rparr>"
  have other: "tk_root (?tk r) f = tk_root (tasks w ! self) f" if "f \<noteq> Pending" for r f
    using that h by (cases f) auto
  have static: "static w (w\<lparr>tasks := (tasks w)[self := ?tk r]\<rparr>)" for r using assms(2) by (intro static_set_task) auto
  have idle: "idle_turns (w\<lparr>tasks := (tasks w)[self := ?tk r]\<rparr>) = idle_turns w" for r
    using idle_turns_set_task [OF assms(2), of "?tk r"] h by simp
  show ?thesis
  proof (cases pkt)
    case None
    then have i: "orderly Q {} w" using assms(1) by simp
    show ?thesis
    proof (cases pd)
      case None
      then show ?thesis using waitTask_good [OF i assms(2)] h \<open>pkt = None\<close> assms(3,4,7) by (simp add: device_fn_def)
    next
      case (Some p)
      then have rt: "tk_root (tasks w ! self) Pending = Some p" using h by simp
      obtain xs where q: "Q (self, Pending) = p # xs"
        using head_of_queue(1) [OF orderly_consistent [OF i] assms(2) rt] by blast
      let ?w = "w\<lparr>tasks := (tasks w)[self := ?tk None]\<rparr>" and ?Q = "Q((self, Pending) := xs)"
      have t: "orderly ?Q {p} ?w"
        "energy ?Q ?w + cost w (self, Pending) p + nap (tasks w ! self) = energy Q w + nap (?tk None)"
        "p < length (packets w)" "routed w (self, Pending) p" "good_ident w (self, Pending) p"
        using take_orderly [where tk = "?tk None", OF i assms(2) q] good st other assms(3,4)
        by (simp_all add: good_task_def steady_def)
      have "energy ?Q ?w + 8 = energy Q w" using t(2) assms(3-5) by (simp add: cost_def nap_def)
      then have "good_step ?w (idle_turns ?w) e (qpkt self p ?w)"
        using t(1,4,5) assms(2,3,7) st by (intro qpkt_good [OF t(1)]) (auto simp: routed_def steady_def good_ident_def \<open>pkt = None\<close>)
      then show ?thesis
        using good_step_static [OF static] idle h \<open>pkt = None\<close> Some assms(2) by (simp add: device_fn_def set_task_eq)
    qed
  next
    case (Some p)
    have i: "consistent Q {p} w" using c Some by simp
    have pd: "pd = None" using assms(6) [OF Some] h by simp
    then have e: "Q (self, Pending) = []"
      using inv_queue [OF i, of "(self, Pending)"] assms(2) h by (simp add: queue_def root_def)
    let ?Q = "Q((self, Pending) := Q (self, Pending) @ [p])" and ?w = "w\<lparr>tasks := (tasks w)[self := ?tk (Some p)]\<rparr>"
    let ?tk' = "(?tk (Some p))\<lparr>task_holding := True\<rparr>"
    let ?w' = "w\<lparr>tasks := (tasks w)[self := ?tk']\<rparr>"
    have other': "tk_root ?tk' f = tk_root (tasks w ! self) f" if "f \<noteq> Pending" for f
      using that h by (cases f) auto
    have "consistent ?Q {} ?w'"
    proof (rule inv_set_task [OF i assms(2)])
      show "good_task self ?tk'" using good assms(3,4) Some by (auto simp: good_task_def)
      show "shared_out ?Q {} (length (packets w))" by (rule shared_put [OF inv_shared [OF i]])
      show "queue (packets w) f (tk_root ?tk' f) (?Q (self, f))" for f
        using other' [of f] inv_queue [OF i, of "(self, f)"] assms(2) e
        by (cases "f = Pending") (auto simp: queue_def root_def)
      show "good_ident w (self, f) q" if "q \<in> set (?Q (self, f))" for f q
      proof (cases "q = p")
        case True
        then show ?thesis using assms(6) [OF Some] by (simp add: good_ident_def)
      next
        case False
        then have "q \<in> set (Q (self, f))" using that by (auto split: if_splits)
        then show ?thesis by (rule inv_ident [OF i])
      qed
    qed auto
    then have o: "orderly ?Q {} ?w'"
      using st assms(3) assms(6) [OF Some]
      by (intro orderly_set_task [OF assms(1,2)]) (auto simp: steady_def routed_def split: if_splits)
    have "load Q ?w' = load Q w" using assms(2) e by (intro load_set_task) auto
    moreover have "load ?Q ?w' = load Q ?w' + cost ?w' (self, Pending) p" using assms(2) by (intro load_put) simp
    moreover have "awake ?w' = awake w" using awake_set_task [OF assms(2), of ?tk'] by (simp add: nap_def)
    ultimately have "energy ?Q ?w' < e" using assms(2,7) Some by (simp add: energy_def cost_def)
    moreover have eq: "?w\<lparr>tasks := (tasks ?w)[self := (tasks ?w ! self)\<lparr>task_holding := True\<rparr>]\<rparr> = ?w'"
      using assms(2) by simp
    ultimately have "good_step ?w (idle_turns ?w) e (hold self ?w)"
      using good assms(2) o by (intro hold_good) (unfold eq, auto simp: good_task_def)
    then show ?thesis
      using good_step_static [OF static] idle h Some assms(2) by (simp add: device_fn_def set_task_eq)
  qed
qed

lemma work_letters_ok:
  assumes "0 \<le> cnt" and "length data = BUFSIZE" and "\<forall>c \<in> set data. 0 \<le> c"
  shows "\<exists>cnt' data'. work_letters cnt data = Inr (cnt', data') \<and> 0 \<le> cnt' \<and> length data' = BUFSIZE \<and>
    (\<forall>c \<in> set data'. 0 \<le> c)"
proof -
  let ?P = "\<lambda>(cnt, data). 0 \<le> cnt \<and> length data = BUFSIZE \<and> (\<forall>c \<in> set data. 0 \<le> c)"
  have "\<exists>s. work_letters cnt data = Inr s \<and> ?P s"
    unfolding work_letters_def
  proof (rule for_each_ok)
    show "?P (cnt, data)" using assms by simp
  next
    fix i and u :: "int \<times> int list" assume "i \<in> set [0..<BUFSIZE]" and P: "?P u"
    obtain n d where u: "u = (n, d)" by (cases u)
    let ?n = "if n + 1 > 26 then 1 else n + 1"
    have "\<forall>c \<in> set (d[i := ord_A + ?n - 1]). 0 \<le> c"
      using P set_update_subset_insert [of d i "ord_A + ?n - 1"] by (auto simp: u ord_A_def)
    with P \<open>i \<in> set [0..<BUFSIZE]\<close> show "\<exists>u'. (\<lambda>(cnt, data).
        let cnt = (if cnt + 1 > 26 then 1 else cnt + 1) in
        rbind (lset data i (ord_A + cnt - 1)) (\<lambda>data. Inr (cnt, data))) u = Inr u' \<and> ?P u'"
      by (auto simp: u)
  qed
  then show ?thesis by auto
qed

text \<open>A task gets a new record and keeps its places; the packet in hand gets new contents.\<close>

lemma retask_orderly:
  assumes "orderly Q H w" and "t < length (tasks w)" and "good_task t tk" and "tk_class tk = tk_class (tasks w ! t)"
    and "\<And>f. tk_root tk f = tk_root (tasks w ! t) f" and "steady tk" and "task_holding tk = task_holding (tasks w ! t)"
    and "task_waiting tk = task_waiting (tasks w ! t)" and "idle_left (tk_handle tk) = idle_left (tk_handle (tasks w ! t))"
  shows "orderly Q H (w\<lparr>tasks := (tasks w)[t := tk]\<rparr>)" and "energy Q (w\<lparr>tasks := (tasks w)[t := tk]\<rparr>) = energy Q w"
    and "idle_turns (w\<lparr>tasks := (tasks w)[t := tk]\<rparr>) = idle_turns w"
proof -
  have "consistent Q H (w\<lparr>tasks := (tasks w)[t := tk]\<rparr>)"
    by (rule inv_same_places [OF orderly_consistent [OF assms(1)] assms(2-5)])
  then show "orderly Q H (w\<lparr>tasks := (tasks w)[t := tk]\<rparr>)" by (intro orderly_set_task [OF assms(1,2,6,4)]) auto
  have "load Q (w\<lparr>tasks := (tasks w)[t := tk]\<rparr>) = load Q w" using assms(2,4,7) by (intro load_set_task) auto
  then show "energy Q (w\<lparr>tasks := (tasks w)[t := tk]\<rparr>) = energy Q w"
    using awake_set_task [OF assms(2), of tk] assms(4,8) by (simp add: energy_def nap_def)
  show "idle_turns (w\<lparr>tasks := (tasks w)[t := tk]\<rparr>) = idle_turns w"
    using idle_turns_set_task [OF assms(2), of tk] assms(9) by simp
qed

lemma held_packet_orderly:
  assumes "orderly Q H w" and "p \<in> H" and "good_packet pk"
  shows "orderly Q H (w\<lparr>packets := (packets w)[p := pk]\<rparr>)" and "energy Q (w\<lparr>packets := (packets w)[p := pk]\<rparr>) = energy Q w"
    and "idle_turns (w\<lparr>packets := (packets w)[p := pk]\<rparr>) = idle_turns w"
proof -
  have c: "consistent Q H w" using orderly_consistent [OF assms(1)] .
  have n: "(packets w)[p := pk] ! q = packets w ! q" if "q \<in> set (Q s)" for q s
    using inv_held [OF c assms(2), of s] that by (cases "q = p") auto
  then show "orderly Q H (w\<lparr>packets := (packets w)[p := pk]\<rparr>)"
    using assms(1) inv_held_packet [OF c assms(2,3)] n by (auto simp: orderly_def routes_def routed_def)
  have "load Q (w\<lparr>packets := (packets w)[p := pk]\<rparr>) = load Q w" by (rule load_cong) (use n in \<open>auto simp: cost_def\<close>)
  then show "energy Q (w\<lparr>packets := (packets w)[p := pk]\<rparr>) = energy Q w" by (simp add: energy_def awake_def)
qed (simp add: idle_turns_def)

text \<open>The work packet has one more of its letters taken.\<close>

lemma datum_orderly:
  assumes "orderly Q H w" and "Q s = x # xs"
  shows "orderly Q H (w\<lparr>packets := (packets w)[x := (packets w ! x)\<lparr>pk_datum := pk_datum (packets w ! x) + 1\<rparr>]\<rparr>)"
    and "energy Q (w\<lparr>packets := (packets w)[x := (packets w ! x)\<lparr>pk_datum := pk_datum (packets w ! x) + 1\<rparr>]\<rparr>) \<le> energy Q w + 2"
    and "idle_turns (w\<lparr>packets := (packets w)[x := (packets w ! x)\<lparr>pk_datum := pk_datum (packets w ! x) + 1\<rparr>]\<rparr>) = idle_turns w"
proof -
  let ?pk = "(packets w ! x)\<lparr>pk_datum := pk_datum (packets w ! x) + 1\<rparr>"
  let ?w = "w\<lparr>packets := (packets w)[x := ?pk]\<rparr>"
  have c: "consistent Q H w" using orderly_consistent [OF assms(1)] .
  have x: "x < length (packets w)" using inv_bound [OF c, of x s] assms(2) by simp
  have "consistent Q H ?w"
    using inv_datum [OF c x] inv_packet [OF c x] by (simp add: good_packet_def)
  moreover have "routed ?w s' q \<longleftrightarrow> routed w s' q" for s' q
    by (cases "q = x"; cases "tk_class (tasks w ! fst s')") (use x in \<open>auto simp: routed_def\<close>)
  ultimately show "orderly Q H ?w" using assms(1) by (simp add: orderly_def routes_def)
  have sp: "spots ?w = spots w" by (simp add: spots_def)
  have s: "s \<in> spots w" using inv_spot [OF c, of x "fst s" "snd s"] assms(2) by (cases s) simp
  have ne: "q \<noteq> x" if "q \<in> set ((Q(s := xs)) s')" for q s'
    using shared_held [OF shared_take [OF inv_shared [OF c] assms(2)], of x s'] that by blast
  have "load (Q(s := xs)) ?w = load (Q(s := xs)) w"
  proof (rule load_cong)
    show "cost ?w s' q = cost w s' q" if "q \<in> set ((Q(s := xs)) s')" for s' q
      using ne [OF that] by (simp add: cost_def)
  qed simp
  moreover have "filled ?pk \<le> filled (packets w ! x) + 2"
    using inv_packet [OF c x] by (simp add: filled_def good_packet_def nat_add_distrib min_def)
  then have "cost ?w s x \<le> cost w s x + 2"
    using x by (cases "snd s"; cases "tk_class (tasks w ! fst s)") (simp_all add: cost_def)
  ultimately have "load Q ?w \<le> load Q w + 2"
    using load_take [of s ?w Q x xs] load_take [of s w Q x xs] s assms(2) by (simp add: sp)
  then show "energy Q ?w \<le> energy Q w + 2" by (simp add: energy_def awake_def)
qed (simp add: idle_turns_def)

lemma work_fn_good:
  assumes "orderly Q (set_option pkt) w" and "self < length (tasks w)" and "tk_class (tasks w ! self) = WorkTask"
    and "\<not> task_waiting (tasks w ! self)" and "\<And>p. pkt = Some p \<Longrightarrow> routed w (self, Input) p"
    and "e = energy Q w + (if pkt = None then 0 else 3)"
  shows "good_step w (idle_turns w) e (work_fn self pkt (tk_handle (tasks w ! self)) w)"
proof -
  have c: "consistent Q (set_option pkt) w" using orderly_consistent [OF assms(1)] .
  have good: "good_task self (tasks w ! self)" using inv_task [OF c assms(2)] .
  have st: "steady (tasks w ! self)" using routes_task [OF orderly_routes [OF assms(1)] assms(2)] .
  obtain d n where h: "tk_handle (tasks w ! self) = WorkerTaskRec d n" "0 \<le> n"
    using good good_handleE(4) assms(3) unfolding good_task_def by metis
  show ?thesis
  proof (cases pkt)
    case None
    then show ?thesis using waitTask_good [of Q w self] assms(1-4,6) h by (simp add: work_fn_def)
  next
    case (Some p)
    then have i: "orderly Q {p} w" using assms(1) by simp
    have p: "p < length (packets w)" using inv_held [OF orderly_consistent [OF i], of p] by simp
    have gp: "good_packet (packets w ! p)" using inv_packet [OF c p] .
    let ?dest = "if d = I_HANDLERA then I_HANDLERB else I_HANDLERA"
    obtain n' data where l: "work_letters n (pk_data (packets w ! p)) = Inr (n', data)" "0 \<le> n'"
      "length data = BUFSIZE" "\<forall>c \<in> set data. 0 \<le> c"
      using work_letters_ok [OF h(2)] gp unfolding good_packet_def by blast
    let ?pk = "(packets w ! p)\<lparr>pk_ident := ?dest, pk_datum := 0, pk_data := data\<rparr>"
    let ?w = "w\<lparr>packets := (packets w)[p := ?pk]\<rparr>"
    let ?tk = "(tasks w ! self)\<lparr>tk_handle := WorkerTaskRec ?dest n'\<rparr>"
    let ?w' = "?w\<lparr>tasks := (tasks ?w)[self := ?tk]\<rparr>"
    have "good_packet ?pk" using l by (simp add: good_packet_def)
    note o1 = held_packet_orderly [OF i _ this, simplified]
    have r: "tk_root ?tk f = tk_root (tasks w ! self) f" for f using h(1) by (cases f) auto
    have o2: "orderly Q {p} ?w'" "energy Q ?w' = energy Q ?w" "idle_turns ?w' = idle_turns ?w"
      using retask_orderly [of Q "{p}" ?w self ?tk] o1(1) r good st l(2) h assms(2,3)
      by (simp_all add: good_task_def steady_def)
    have "pk_kind (packets w ! p) = K_WORK" using assms(3,5) Some by (simp add: routed_def)
    then have "good_step ?w' (idle_turns ?w') e (qpkt self p ?w')"
      using assms(2,3,6) p Some st o2(2) o1(2) by (intro qpkt_good [OF o2(1)])
        (auto simp: task_ids class_of_def steady_def filled_def split: if_splits)
    moreover have "static w ?w'" using assms(2) by (simp add: static_def nth_list_update)
    ultimately have "good_step w (idle_turns w) e (qpkt self p ?w')" using good_step_static o1(3) o2(3) by simp
    then show ?thesis
      using h(1) Some p l(1) assms(2) set_task_eq [of self ?w "\<lambda>tk. tk\<lparr>tk_handle := WorkerTaskRec ?dest n'\<rparr>"]
      by (simp add: work_fn_def Let_def set_packet_eq)
  qed
qed

lemma handler_add_ok:
  assumes "orderly Q {p} w" and "self < length (tasks w)" and "tk_class (tasks w ! self) = HandlerTask"
    and "tk_handle (tasks w ! self) = HandlerTaskRec wi di" and "pk_ident (packets w ! p) \<in> {2..6}"
    and "routed w (self, Input) p" and "e = energy Q w + input_cost HandlerTask (packets w ! p) - 1"
  shows "\<exists>wi' di' w' Q'. handler_add self p wi di w = Inr (wi', di', w') \<and> static w w' \<and> orderly Q' {} w' \<and>
    tk_handle (tasks w' ! self) = HandlerTaskRec wi' di' \<and> tk_class (tasks w' ! self) = HandlerTask \<and>
    task_waiting (tasks w' ! self) = task_waiting (tasks w ! self) \<and> energy Q' w' < e \<and> idle_turns w' = idle_turns w"
proof -
  have c: "consistent Q {p} w" using orderly_consistent [OF assms(1)] .
  have p: "p < length (packets w)" using inv_held [OF c, of p] by simp
  have good: "good_task self (tasks w ! self)" using inv_task [OF c assms(2)] .
  have st: "steady (tasks w ! self)" using routes_task [OF orderly_routes [OF assms(1)] assms(2)] .
  have ident: "good_ident w (self, f) p" for f using assms(5) by (simp add: good_ident_def)
  have wr: "tk_root (tasks w ! self) WorkIn = wi" "tk_root (tasks w ! self) DeviceIn = di" using assms(4) by simp_all
  show ?thesis
  proof (cases "pk_kind (packets w ! p) = K_WORK")
    case True
    let ?g = "\<lambda>h. (tasks w ! self)\<lparr>tk_handle := HandlerTaskRec (Some h) di\<rparr>"
    have other: "tk_root (?g h) f = tk_root (tasks w ! self) f" if "f \<noteq> WorkIn" for f h
      using that assms(4) by (cases f) auto
    have "routed w (self, WorkIn) p" using assms(3,6) True by (simp add: routed_def)
    then obtain h w' where a: "append_packet p wi w = Inr (h, w')" "tasks w' = tasks w"
      "static w (w'\<lparr>tasks := (tasks w)[self := ?g h]\<rparr>)"
      "orderly (Q((self, WorkIn) := Q (self, WorkIn) @ [p])) {} (w'\<lparr>tasks := (tasks w)[self := ?g h]\<rparr>)"
      "energy (Q((self, WorkIn) := Q (self, WorkIn) @ [p])) (w'\<lparr>tasks := (tasks w)[self := ?g h]\<rparr>) =
        energy Q w + cost w (self, WorkIn) p"
      "idle_turns (w'\<lparr>tasks := (tasks w)[self := ?g h]\<rparr>) = idle_turns w"
      using put_orderly [OF assms(1,2) _ ident, of WorkIn ?g] good st assms(3,4) wr(1) other
      by (auto simp: good_task_def steady_def nap_def)
    moreover have "energy Q w + cost w (self, WorkIn) p < e" using assms(7) True by (simp add: cost_def)
    ultimately have "energy (Q((self, WorkIn) := Q (self, WorkIn) @ [p])) (w'\<lparr>tasks := (tasks w)[self := ?g h]\<rparr>) < e" by simp
    with a(1-4,6) show ?thesis
      using True p assms(2,3) by (intro exI [of _ "Some h"] exI [of _ di]) (auto simp: handler_add_def set_task_eq)
  next
    case False
    let ?g = "\<lambda>h. (tasks w ! self)\<lparr>tk_handle := HandlerTaskRec wi (Some h)\<rparr>"
    have other: "tk_root (?g h) f = tk_root (tasks w ! self) f" if "f \<noteq> DeviceIn" for f h
      using that assms(4) by (cases f) auto
    have "routed w (self, DeviceIn) p" using assms(3,6) False by (simp add: routed_def)
    then obtain h w' where a: "append_packet p di w = Inr (h, w')" "tasks w' = tasks w"
      "static w (w'\<lparr>tasks := (tasks w)[self := ?g h]\<rparr>)"
      "orderly (Q((self, DeviceIn) := Q (self, DeviceIn) @ [p])) {} (w'\<lparr>tasks := (tasks w)[self := ?g h]\<rparr>)"
      "energy (Q((self, DeviceIn) := Q (self, DeviceIn) @ [p])) (w'\<lparr>tasks := (tasks w)[self := ?g h]\<rparr>) =
        energy Q w + cost w (self, DeviceIn) p"
      "idle_turns (w'\<lparr>tasks := (tasks w)[self := ?g h]\<rparr>) = idle_turns w"
      using put_orderly [OF assms(1,2) _ ident, of DeviceIn ?g] good st assms(3,4) wr(2) other
      by (auto simp: good_task_def steady_def nap_def)
    moreover have "energy Q w + cost w (self, DeviceIn) p < e" using assms(7) False by (simp add: cost_def)
    ultimately have "energy (Q((self, DeviceIn) := Q (self, DeviceIn) @ [p])) (w'\<lparr>tasks := (tasks w)[self := ?g h]\<rparr>) < e"
      by simp
    with a(1-4,6) show ?thesis
      using False p assms(2,3) by (intro exI [of _ wi] exI [of _ "Some h"]) (auto simp: handler_add_def set_task_eq)
  qed
qed

lemma handler_work_good:
  assumes "orderly Q {} w" and "self < length (tasks w)" and "tk_class (tasks w ! self) = HandlerTask"
    and "tk_handle (tasks w ! self) = HandlerTaskRec wi di" and "\<not> task_waiting (tasks w ! self)"
  shows "good_step w (idle_turns w) (energy Q w) (handler_work self wi di w)"
proof -
  have c: "consistent Q {} w" using orderly_consistent [OF assms(1)] .
  have good: "good_task self (tasks w ! self)" using inv_task [OF c assms(2)] .
  have sd: "steady (tasks w ! self)" using routes_task [OF orderly_routes [OF assms(1)] assms(2)] .
  have wr: "tk_root (tasks w ! self) WorkIn = wi" "tk_root (tasks w ! self) DeviceIn = di"
    "tk_root (tasks w ! self) Pending = None" using assms(4) by simp_all
  have wait: "good_step w (idle_turns w) (energy Q w) (waitTask self w)"
    using waitTask_good [OF assms(1,2) wr(3) assms(5)] assms(3) by simp
  let ?tk = "\<lambda>wi di. (tasks w ! self)\<lparr>tk_handle := HandlerTaskRec wi di\<rparr>"
  let ?w = "\<lambda>wi di. w\<lparr>tasks := (tasks w)[self := ?tk wi di]\<rparr>"
  have gt: "good_task self (?tk wi di)" "steady (?tk wi di)" "nap (?tk wi di) = nap (tasks w ! self)" for wi di
    using good sd assms(3) by (auto simp: good_task_def steady_def nap_def)
  have st: "static w (?w wi di)" for wi di using assms(2) by (intro static_set_task) auto
  have idle: "idle_turns (?w wi di) = idle_turns w" for wi di
    using idle_turns_set_task [OF assms(2), of "?tk wi di"] assms(4) by simp
  show ?thesis
  proof (cases wi)
    case None
    with wait show ?thesis by (simp add: handler_work_def)
  next
    case (Some work)
    obtain ws where q: "Q (self, WorkIn) = work # ws" using head_of_queue(1) [OF c assms(2)] wr(1) Some by blast
    have work: "work < length (packets w)" "pk_ident (packets w ! work) \<in> {2..6}" "good_packet (packets w ! work)"
      using head_of_queue(2,3) [OF c assms(2), of WorkIn work] wr(1) Some inv_packet [OF c]
      by (simp_all add: good_ident_def)
    show ?thesis
    proof (cases "pk_datum (packets w ! work) \<ge> int BUFSIZE")
      case True
      let ?w1 = "?w (pk_link (packets w ! work)) di" and ?Q = "Q((self, WorkIn) := ws)"
      have o: "tk_root (?tk (pk_link (packets w ! work)) di) f = tk_root (tasks w ! self) f" if "f \<noteq> WorkIn" for f
        using that assms(4) by (cases f) auto
      have t: "orderly ?Q {work} ?w1" "energy ?Q ?w1 + cost w (self, WorkIn) work = energy Q w" "routed w (self, WorkIn) work"
        using take_orderly [where tk = "?tk (pk_link (packets w ! work)) di", OF assms(1,2) q gt(1)] o gt(2,3) by simp_all
      have "pk_kind (packets w ! work) = K_WORK" "class_of (pk_ident (packets w ! work)) = WorkTask"
        using t(3) assms(3) by (simp_all add: routed_def split: if_splits)
      moreover have "cost w (self, WorkIn) work = 8"
        using True by (simp add: cost_def filled_def min_def nat_le_iff BUFSIZE_def le_nat_iff)
      ultimately have "good_step ?w1 (idle_turns ?w1) (energy Q w) (qpkt self work ?w1)"
        using assms(2,3) work(2) t(2) by (intro qpkt_good [OF t(1)]) simp_all
      then show ?thesis
        using good_step_static [OF st] idle True Some work(1) assms(2) by (simp add: handler_work_def set_task_eq)
    next
      case False
      show ?thesis
      proof (cases di)
        case None
        with wait False Some work(1) show ?thesis by (simp add: handler_work_def)
      next
        case (Some dev)
        note di = this
        obtain ds where qd: "Q (self, DeviceIn) = dev # ds" using head_of_queue(1) [OF c assms(2)] wr(2) Some by blast
        have dev: "dev < length (packets w)" "pk_ident (packets w ! dev) \<in> {2..6}" "good_packet (packets w ! dev)"
          using head_of_queue(2,3) [OF c assms(2), of DeviceIn dev] wr(2) Some inv_packet [OF c]
          by (simp_all add: good_ident_def)
        let ?w1 = "?w wi (pk_link (packets w ! dev))" and ?Q = "Q((self, DeviceIn) := ds)"
        have o: "tk_root (?tk wi (pk_link (packets w ! dev))) f = tk_root (tasks w ! self) f" if "f \<noteq> DeviceIn" for f
          using that assms(4) by (cases f) auto
        have t: "orderly ?Q {dev} ?w1" "energy ?Q ?w1 + cost w (self, DeviceIn) dev = energy Q w" "routed w (self, DeviceIn) dev"
          using take_orderly [where tk = "?tk wi (pk_link (packets w ! dev))", OF assms(1,2) qd gt(1)] o gt(2,3) by simp_all
        have "dev \<noteq> work" using inv_held [OF orderly_consistent [OF t(1)], of dev "(self, WorkIn)"] q by auto
        let ?cnt = "pk_datum (packets w ! work)"
        have cnt: "0 \<le> ?cnt" "nat ?cnt < length (pk_data (packets w ! work))"
          using False work(3) by (simp_all add: good_packet_def nat_less_iff)
        let ?c = "pk_data (packets w ! work) ! nat ?cnt"
        have "?c \<in> set (pk_data (packets w ! work))" using cnt(2) by (rule nth_mem)
        then have c': "py_get (pk_data (packets w ! work)) ?cnt = Inr ?c" "0 \<le> ?c"
          using cnt work(3) by (simp_all add: py_get_def py_index_def Let_def good_packet_def)
        let ?w2 = "?w1\<lparr>packets := (packets ?w1)[dev := (packets w ! dev)\<lparr>pk_datum := ?c\<rparr>]\<rparr>"
        have "good_packet ((packets w ! dev)\<lparr>pk_datum := ?c\<rparr>)" using dev(3) c'(2) by (simp add: good_packet_def)
        note o2 = held_packet_orderly [OF t(1) _ this, simplified]
        have eq: "packets ?w2 ! work = packets w ! work" using \<open>dev \<noteq> work\<close> by simp
        let ?w3 = "?w2\<lparr>packets := (packets ?w2)[work := (packets ?w2 ! work)\<lparr>pk_datum := pk_datum (packets ?w2 ! work) + 1\<rparr>]\<rparr>"
        have "?Q (self, WorkIn) = work # ws" using q by simp
        note o3 = datum_orderly [where s = "(self, WorkIn)" and x = work and xs = ws and w = ?w2 and Q = ?Q and H = "{dev}"]
        have o3: "orderly ?Q {dev} ?w3" "energy ?Q ?w3 \<le> energy ?Q ?w2 + 2" "idle_turns ?w3 = idle_turns ?w2"
          using o2(1) q by (intro o3; simp)+
        have "pk_kind (packets w ! dev) \<noteq> K_WORK" "class_of (pk_ident (packets w ! dev)) = DeviceTask"
          using t(3) assms(3) by (simp_all add: routed_def split: if_splits)
        moreover have "packets ?w3 ! dev = (packets w ! dev)\<lparr>pk_datum := ?c\<rparr>" using dev(1) \<open>dev \<noteq> work\<close> by simp
        moreover have "energy ?Q ?w3 + 2 < energy Q w" using o2(2) o3(2) t(2) by (simp add: cost_def)
        moreover have "class_of (tk_ident (tasks w ! self)) = HandlerTask" using sd assms(3) by (simp add: steady_def)
        ultimately have step: "good_step ?w3 (idle_turns ?w3) (energy Q w) (qpkt self dev ?w3)"
          using assms(2,3) dev(2) by (intro qpkt_good [OF o3(1)]) simp_all
        have turns: "idle_turns ?w3 = idle_turns w" using o2(3) o3(3) idle by simp
        have "static w ?w3" using assms(2) by (simp add: static_def nth_list_update)
        then have "good_step w (idle_turns ?w3) (energy Q w) (qpkt self dev ?w3)" using step by (rule good_step_static)
        then have "good_step w (idle_turns w) (energy Q w) (qpkt self dev ?w3)" by (simp only: turns)
        then show ?thesis
          using False \<open>wi = Some work\<close> di work(1) dev(1) assms(2) c'(1) \<open>dev \<noteq> work\<close>
          by (simp add: handler_work_def set_task_eq set_packet_def Let_def)
      qed
    qed
  qed
qed

lemma handler_fn_good:
  assumes "orderly Q (set_option pkt) w" and "self < length (tasks w)" and "tk_class (tasks w ! self) = HandlerTask"
    and "\<not> task_waiting (tasks w ! self)"
    and "\<And>p. pkt = Some p \<Longrightarrow> pk_ident (packets w ! p) \<in> {2..6} \<and> routed w (self, Input) p"
    and "e = energy Q w + (case pkt of None \<Rightarrow> 0 | Some p \<Rightarrow> input_cost HandlerTask (packets w ! p) - 1)"
  shows "good_step w (idle_turns w) e (handler_fn self pkt (tk_handle (tasks w ! self)) w)"
proof -
  have "good_task self (tasks w ! self)" using inv_task [OF orderly_consistent [OF assms(1)] assms(2)] .
  then obtain wi di where h: "tk_handle (tasks w ! self) = HandlerTaskRec wi di"
    using good_handleE(2) assms(3) unfolding good_task_def by metis
  show ?thesis
  proof (cases pkt)
    case None
    then show ?thesis using handler_work_good [OF _ assms(2,3) h assms(4)] assms(1,6) h by (simp add: handler_fn_def)
  next
    case (Some p)
    then have i: "orderly Q {p} w" using assms(1) by simp
    have "0 < input_cost HandlerTask (packets w ! p)" by simp
    then have "e = energy Q w + input_cost HandlerTask (packets w ! p) - 1" using assms(6) Some by simp
    then obtain wi' di' w' Q' where a: "handler_add self p wi di w = Inr (wi', di', w')" "static w w'"
      "orderly Q' {} w'" "tk_handle (tasks w' ! self) = HandlerTaskRec wi' di'" "tk_class (tasks w' ! self) = HandlerTask"
      "task_waiting (tasks w' ! self) = task_waiting (tasks w ! self)" "energy Q' w' < e" "idle_turns w' = idle_turns w"
      using handler_add_ok [OF i assms(2,3) h] assms(5) [OF Some] by blast
    have "self < length (tasks w')" using a(2) assms(2) by (simp add: static_def)
    then have "good_step w' (idle_turns w) (energy Q' w') (handler_work self wi' di' w')"
      using handler_work_good [OF a(3) _ a(5,4)] a(6,8) assms(4) by simp
    then have "good_step w' (idle_turns w) e (handler_work self wi' di' w')"
      using a(7) unfolding good_step_def by fastforce
    then show ?thesis using good_step_static [OF a(2)] a(1) Some h by (simp add: handler_fn_def)
  qed
qed

section \<open>Running a task\<close>

text \<open>The packet in hand has been taken from the input of the task, and waking up cost one.\<close>

lemma fn_good:
  assumes "orderly Q (set_option pkt) w" and "self < length (tasks w)"
    and "tk_class tk = tk_class (tasks w ! self)" and "tk_handle tk = tk_handle (tasks w ! self)"
    and "\<not> task_holding (tasks w ! self)" and "tk_class tk \<noteq> IdleTask \<Longrightarrow> \<not> task_waiting (tasks w ! self)"
    and "\<And>p. pkt = Some p \<Longrightarrow> tk_class tk \<noteq> IdleTask \<and> tk_root (tasks w ! self) Pending = None \<and>
      (pk_ident (packets w ! p) \<in> {2..6} \<or> tk_class tk = WorkTask) \<and> routed w (self, Input) p"
    and "e = energy Q w + (case pkt of None \<Rightarrow> 0 | Some p \<Rightarrow> input_cost (tk_class tk) (packets w ! p) - 1)"
  shows "good_step w (idle_turns w) e (fn self pkt tk w)"
proof (cases "tk_class tk")
  case DeviceTask
  have "good_step w (idle_turns w) e (device_fn self pkt (tk_handle (tasks w ! self)) w)"
    by (rule device_fn_good [OF assms(1,2)]) (use DeviceTask assms(3-8) in \<open>auto split: option.splits\<close>)
  with DeviceTask assms(4) show ?thesis by (simp add: fn_def)
next
  case HandlerTask
  have "good_step w (idle_turns w) e (handler_fn self pkt (tk_handle (tasks w ! self)) w)"
    by (rule handler_fn_good [OF assms(1,2)]) (use HandlerTask assms(3-8) in \<open>auto simp del: input_cost.simps split: option.splits\<close>)
  with HandlerTask assms(4) show ?thesis by (simp add: fn_def)
next
  case IdleTask
  then have "pkt = None" using assms(7) by (cases pkt) auto
  with IdleTask idle_fn_good [OF _ assms(2)] assms(1,3-5) show ?thesis by (simp add: fn_def)
next
  case WorkTask
  have "good_step w (idle_turns w) e (work_fn self pkt (tk_handle (tasks w ! self)) w)"
    by (rule work_fn_good [OF assms(1,2)]) (use WorkTask assms(3-8) in \<open>auto split: option.splits\<close>)
  with WorkTask assms(4) show ?thesis by (simp add: fn_def)
qed

lemma runTask_good:
  assumes "orderly Q {} w" and "t < length (tasks w)" and "\<not> isTaskHoldingOrWaiting (tasks w ! t)"
  shows "good_step w (idle_turns w) (energy Q w) (runTask t w)"
proof (cases "isWaitingWithPacket (tasks w ! t)")
  case False
  have "good_step w (idle_turns w) (energy Q w) (fn t None (tasks w ! t) w)"
    using assms False by (intro fn_good) (auto simp: isTaskHoldingOrWaiting_def isWaitingWithPacket_def)
  with False assms(2) show ?thesis by (simp add: runTask_def)
next
  case True
  let ?tk = "tasks w ! t"
  have c: "consistent Q {} w" using orderly_consistent [OF assms(1)] .
  have st: "steady ?tk" using routes_task [OF orderly_routes [OF assms(1)] assms(2)] .
  have good: "good_task t ?tk" using inv_task [OF c assms(2)] .
  with True obtain msg where msg: "tk_input ?tk = Some msg" by (auto simp: isWaitingWithPacket_def good_task_def)
  then have rt: "tk_root ?tk Input = Some msg" by simp
  obtain xs where q: "Q (t, Input) = msg # xs" using head_of_queue(1) [OF c assms(2) rt] by blast
  let ?in = "pk_link (packets w ! msg)"
  let ?tk' = "let tk = ?tk\<lparr>tk_input := ?in\<rparr> in if ?in = None then running tk else packetPending tk"
  let ?w = "w\<lparr>tasks := (tasks w)[t := ?tk']\<rparr>" and ?Q = "Q((t, Input) := xs)"
  have tk': "tk_class ?tk' = tk_class ?tk" "tk_handle ?tk' = tk_handle ?tk" "tk_link ?tk' = tk_link ?tk"
    "tk_input ?tk' = ?in" "\<not> task_waiting ?tk'" "\<not> task_holding ?tk'" "packet_pending ?tk' \<longleftrightarrow> ?in \<noteq> None" "tk_ident ?tk' = tk_ident ?tk"
    by (auto simp: running_def packetPending_def Let_def)
  have awake: "task_waiting ?tk" "\<not> task_holding ?tk" using True by (simp_all add: isWaitingWithPacket_def)
  have idle: "tk_class ?tk \<noteq> IdleTask" using good msg by (auto simp: good_task_def)
  have pend: "tk_root ?tk Pending = None" using good awake by (simp add: good_task_def)
  have other: "tk_root ?tk' f = tk_root ?tk f" if "f \<noteq> Input" for f
    using that tk' by (cases f) auto
  have gt: "good_task t ?tk'" using good tk' idle by (simp add: good_task_def)
  have sy: "steady ?tk'" using st tk' idle by (simp add: steady_def)
  have root': "tk_root ?tk' Input = (if Input = Pending then None else ?in)" using tk' by simp
  have hold: "task_holding ?tk' = task_holding ?tk" using tk' awake by simp
  note take = take_orderly [where tk = ?tk', OF assms(1,2) q gt tk'(1) sy hold other root', simplified]
  have "nap ?tk' = 1" "nap ?tk = 0" using tk' awake idle by (simp_all add: nap_def)
  moreover have "0 < input_cost (tk_class ?tk) (packets w ! msg)" using idle by (cases "tk_class ?tk") auto
  ultimately have e: "energy Q w = energy ?Q ?w + (input_cost (tk_class ?tk) (packets w ! msg) - 1)"
    using take(2) by (simp add: cost_def)
  have t': "tasks ?w ! t = ?tk'" using assms(2) by simp
  have "good_step ?w (idle_turns ?w) (energy Q w) (fn t (Some msg) ?tk ?w)"
  proof (rule fn_good)
    show "orderly ?Q (set_option (Some msg)) ?w" using take(1) by simp
    show "t < length (tasks ?w)" using assms(2) by simp
    show "energy Q w = energy ?Q ?w + (case Some msg of None \<Rightarrow> 0 | Some p \<Rightarrow> input_cost (tk_class ?tk) (packets ?w ! p) - 1)"
      using e by simp
    have "routed ?w (t, Input) msg" using take(4) t' tk'(1) by (simp add: routed_def)
    then show "tk_class ?tk \<noteq> IdleTask \<and> tk_root (tasks ?w ! t) Pending = None \<and>
        (pk_ident (packets ?w ! p) \<in> {2..6} \<or> tk_class ?tk = WorkTask) \<and> routed ?w (t, Input) p" if "Some msg = Some p" for p
      using that take(5) idle pend other [of Pending] t' by (auto simp: good_ident_def simp del: tk_root.simps)
  qed (use t' tk' in simp_all)
  moreover have "static w ?w" using assms(2) tk' by (intro static_set_task) auto
  moreover have "idle_turns ?w = idle_turns w" using idle_turns_set_task [OF assms(2), of ?tk'] tk'(2) by simp
  ultimately have "good_step w (idle_turns w) (energy Q w) (fn t (Some msg) ?tk ?w)" using good_step_static by simp
  with True msg take(3) assms(2) show ?thesis by (simp add: runTask_def set_task_eq)
qed

end
