(* ===== verification/RichardsRun.thy ===== *)
theory RichardsRun
  imports RichardsTurns
begin

text \<open>
  The scheduler goes round, and the whole benchmark: nothing raises, every packet stays in exactly one
  place, and each round comes to its end within a number of turns that is given beforehand.
\<close>

section \<open>The scheduler\<close>

text \<open>
  The turns that are left: those of the idle tasks come first, then the cost of the state, then the
  way down the list of tasks.
\<close>

definition energy_bound :: "world \<Rightarrow> nat" where
  "energy_bound w = 10 * length (packets w) + length (tasks w)"

definition turns_left :: "world \<Rightarrow> nat \<Rightarrow> nat \<Rightarrow> nat option \<Rightarrow> nat" where
  "turns_left w n e t = (n * (energy_bound w + 1) + e) * (length (tasks w) + 1) + (case t of None \<Rightarrow> 0 | Some k \<Rightarrow> Suc k)"

lemma turns_left_run:
  assumes "n' < n \<and> e' \<le> energy_bound w \<or> n' = n \<and> e' < e" and "\<And>k. t' = Some k \<Longrightarrow> k < length (tasks w)"
  shows "turns_left w n' e' t' < turns_left w n e (Some t)"
proof -
  let ?b = "energy_bound w + 1"
  have "n' * ?b + e' < n * ?b + e"
  proof (cases "n' < n")
    case True
    then have "Suc n' * ?b \<le> n * ?b" by (intro mult_le_mono1) simp
    then show ?thesis using assms(1) True by auto
  next
    case False
    then show ?thesis using assms(1) by auto
  qed
  then have "Suc (n' * ?b + e') * (length (tasks w) + 1) \<le> (n * ?b + e) * (length (tasks w) + 1)"
    by (intro mult_le_mono1) simp
  moreover have "(case t' of None \<Rightarrow> 0 | Some k \<Rightarrow> Suc k) \<le> length (tasks w)"
    using assms(2) by (auto simp: Suc_le_eq split: option.splits)
  ultimately show ?thesis by (simp add: turns_left_def)
qed

lemma schedule_ends:
  assumes "orderly Q {} w" and "\<And>k. t = Some k \<Longrightarrow> k < length (tasks w)"
    and "turns_left w (idle_turns w) (energy Q w) t \<le> fuel"
  shows "\<exists>Q' w'. schedule fuel t w = Inr w' \<and> orderly Q' {} w' \<and> static w w' \<and> idle_turns w' \<le> idle_turns w"
  using assms
proof (induction fuel t w arbitrary: Q rule: schedule.induct)
  case (1 fuel w)
  then show ?case by auto
next
  case (2 t w)
  then show ?case by (simp add: turns_left_def)
next
  case (3 fuel t w)
  have t: "t < length (tasks w)" using 3(4) by simp
  show ?case
  proof (cases "isTaskHoldingOrWaiting (tasks w ! t)")
    case True
    let ?l = "tk_link (tasks w ! t)"
    have l: "k < t" if "?l = Some k" for k
      using inv_task [OF orderly_consistent [OF 3(3)] t] that by (auto simp: good_task_def)
    then have "turns_left w (idle_turns w) (energy Q w) ?l \<le> fuel"
      using 3(5) by (cases ?l) (auto simp: turns_left_def)
    then show ?thesis using 3(1) [OF _ True 3(3)] l True t by fastforce
  next
    case False
    obtain i w' Q' where r: "runTask t w = Inr (i, w')" "\<forall>k. i = Some k \<longrightarrow> k < length (tasks w)" "static w w'"
      "orderly Q' {} w'" "idle_turns w' < idle_turns w \<or> idle_turns w' = idle_turns w \<and> energy Q' w' < energy Q w"
      using runTask_good [OF 3(3) t False] by (auto simp: good_step_def)
    have len: "length (tasks w') = length (tasks w)" "energy_bound w' = energy_bound w"
      using r(3) by (simp_all add: static_def energy_bound_def)
    have "energy Q' w' \<le> energy_bound w"
      using energy_le [OF orderly_consistent [OF r(4)]] len by (simp add: energy_bound_def)
    then have "turns_left w (idle_turns w') (energy Q' w') i < turns_left w (idle_turns w) (energy Q w) (Some t)"
      using r(2,5) by (intro turns_left_run) auto
    then have "turns_left w' (idle_turns w') (energy Q' w') i \<le> fuel" using 3(5) len by (simp add: turns_left_def)
    then have "\<exists>Q'' w''. schedule fuel i w' = Inr w'' \<and> orderly Q'' {} w'' \<and> static w' w'' \<and> idle_turns w'' \<le> idle_turns w'"
      using 3(2) [of "tasks w ! t" "(i, w')" i w' Q'] False r t len(1) by auto
    then show ?thesis using False t r static_trans [OF r(3)] by fastforce
  qed
qed

section \<open>Starting the six tasks\<close>

definition start_packets :: "nat \<Rightarrow> packet list" where
  "start_packets n =
    [Packet None 0 K_WORK, Packet (Some n) 0 K_WORK,
     Packet None I_DEVA K_DEV, Packet (Some (n + 2)) I_DEVA K_DEV, Packet (Some (n + 3)) I_DEVA K_DEV,
     Packet None I_DEVB K_DEV, Packet (Some (n + 5)) I_DEVB K_DEV, Packet (Some (n + 6)) I_DEVB K_DEV]"

definition start_task :: "task_state \<Rightarrow> task_class \<Rightarrow> nat option \<Rightarrow> nat \<Rightarrow> int \<Rightarrow> nat option \<Rightarrow> task_rec \<Rightarrow> task" where
  "start_task s cls l i p inp r =
     \<lparr>packet_pending = packet_pending s, task_waiting = task_waiting s, task_holding = task_holding s,
      tk_class = cls, tk_link = l, tk_ident = i, tk_priority = p, tk_input = inp, tk_handle = r\<rparr>"

definition start_six :: "nat option \<Rightarrow> nat \<Rightarrow> nat \<Rightarrow> task list" where
  "start_six l t n =
    [start_task (running TaskState) IdleTask l I_IDLE 0 None new_idle_rec,
     start_task (waitingWithPacket TaskState) WorkTask (Some t) I_WORK 1000 (Some (n + 1)) new_worker_rec,
     start_task (waitingWithPacket TaskState) HandlerTask (Some (t + 1)) I_HANDLERA 2000 (Some (n + 4)) new_handler_rec,
     start_task (waitingWithPacket TaskState) HandlerTask (Some (t + 2)) I_HANDLERB 3000 (Some (n + 7)) new_handler_rec,
     start_task (waiting TaskState) DeviceTask (Some (t + 3)) I_DEVA 4000 None new_device_rec,
     start_task (waiting TaskState) DeviceTask (Some (t + 4)) I_DEVB 5000 None new_device_rec]"

definition started :: "world \<Rightarrow> world" where
  "started w = (let t = length (tasks w); n = length (packets w) in
     \<lparr>packets = packets w @ start_packets n, tasks = tasks w @ start_six (taskList w) t n,
      taskTab = (taskTab w)[1 := Some t, 2 := Some (t + 1), 3 := Some (t + 2), 4 := Some (t + 3),
        5 := Some (t + 4), 6 := Some (t + 5)],
      taskList = Some (t + 5), holdCount = 0, qpktCount = 0\<rparr>)"

lemma start_tasks_eq:
  assumes "length (taskTab w) = TASKTABSIZE"
  shows "start_tasks w = Inr (started w)"
  using assms
  by (cases w) (simp add: start_tasks_def new_idle_task_def Task_def new_packet_def started_def start_six_def start_task_def
      start_packets_def task_ids TASKTABSIZE_def Let_def lset_def, simp add: eval_nat_numeral)

text \<open>The state before the tasks are there: the table may still be empty.\<close>

definition ready :: "(nat \<times> place \<Rightarrow> nat list) \<Rightarrow> world \<Rightarrow> bool" where
  "ready Q w \<longleftrightarrow> length (taskTab w) = TASKTABSIZE \<and> (\<forall>t. taskList w = Some t \<longrightarrow> t < length (tasks w)) \<and>
     (\<forall>p < length (packets w). good_packet (packets w ! p)) \<and>
     (\<forall>t < length (tasks w). good_task t (tasks w ! t)) \<and> shared_out Q {} (length (packets w)) \<and>
     (\<forall>s. queue (packets w) (snd s) (root w s) (Q s)) \<and> (\<forall>s. \<forall>p \<in> set (Q s). good_ident w s p)"

lemma consistent_ready: "consistent Q {} w \<Longrightarrow> ready Q w"
  unfolding consistent_def ready_def good_tab_def by blast

lemma ready_start: "ready (\<lambda>s. []) TaskWorkArea"
  by (auto simp: ready_def TaskWorkArea_def shared_out_def queue_def root_def)

lemma shared_extend:
  assumes "shared_out Q {} n" and "Q s = []" and "distinct xs" and "set xs = {n..<m}" and "n \<le> m"
  shows "shared_out (Q(s := xs)) {} m"
proof -
  have b: "x < n" if "x \<in> set (Q s')" for x s' using shared_bound [OF assms(1) that] .
  have "set (Q s') \<subseteq> set ((Q(s := xs)) s')" for s' using assms(2) by simp
  then have "(\<Union>s'. set ((Q(s := xs)) s')) = (\<Union>s. set (Q s)) \<union> set xs"
    by (auto simp: fun_upd_apply split: if_splits)
  moreover have "(\<Union>s. set (Q s)) = {..<n}" using assms(1) by (simp add: shared_out_def)
  ultimately have u: "(\<Union>s'. set ((Q(s := xs)) s')) = {..<m}" using assms(4,5) by auto
  have "set (Q s') \<inter> set xs = {}" for s' using b [of _ s'] assms(4) by fastforce
  then show ?thesis
    unfolding shared_out_def u using assms(1,3) by (auto simp: shared_out_def)
qed

lemma queue_append: "queue ps f r xs \<Longrightarrow> (\<And>x. x \<in> set xs \<Longrightarrow> x < length ps) \<Longrightarrow> queue (ps @ qs) f r xs"
proof -
  have "chain ps r xs \<Longrightarrow> chain (ps @ qs) r xs" by (induction xs arbitrary: r) (auto simp: nth_append)
  then show "queue ps f r xs \<Longrightarrow> queue (ps @ qs) f r xs" by (auto simp: queue_def)
qed

lemma start_orderly:
  assumes "ready Q w" and "routes w" and "\<And>s p. p \<in> set (Q s) \<Longrightarrow> routed w s p"
  shows "\<exists>Q'. orderly Q' {} (started w)"
proof -
  let ?t = "length (tasks w)" and ?n = "length (packets w)" and ?w = "started w"
  let ?Q = "Q((?t + 1, Input) := [?n + 1, ?n], (?t + 2, Input) := [?n + 4, ?n + 3, ?n + 2],
    (?t + 3, Input) := [?n + 7, ?n + 6, ?n + 5])"
  have r: "length (taskTab w) = TASKTABSIZE" "\<And>t. taskList w = Some t \<Longrightarrow> t < ?t"
    "\<And>p. p < ?n \<Longrightarrow> good_packet (packets w ! p)" "\<And>t. t < ?t \<Longrightarrow> good_task t (tasks w ! t)"
    "shared_out Q {} ?n" "\<And>s. queue (packets w) (snd s) (root w s) (Q s)" "\<And>s p. p \<in> set (Q s) \<Longrightarrow> good_ident w s p"
    using assms unfolding ready_def by blast+
  have e: "Q s = []" if "?t \<le> fst s" for s
    using r(6) [of s] that by (cases "snd s = Pending") (auto simp: queue_def root_def)
  have b: "x < ?n" if "x \<in> set (Q s)" for x s using shared_bound [OF r(5) that] .
  have packs: "packets ?w = packets w @ start_packets ?n" and tks: "tasks ?w = tasks w @ start_six (taskList w) ?t ?n"
    by (simp_all add: started_def Let_def)
  have "shared_out (Q((?t + 1, Input) := [?n + 1, ?n])) {} (?n + 2)"
    by (rule shared_extend [OF r(5)]) (auto simp: e)
  then have "shared_out (Q((?t + 1, Input) := [?n + 1, ?n], (?t + 2, Input) := [?n + 4, ?n + 3, ?n + 2])) {} (?n + 5)"
    by (rule shared_extend) (auto simp: e)
  then have "shared_out ?Q {} (?n + 8)"
    by (rule shared_extend) (auto simp: e)
  moreover have len: "length (packets ?w) = ?n + 8" by (simp add: packs start_packets_def)
  ultimately have shared: "shared_out ?Q {} (length (packets ?w))" by (simp only:)
  have root: "root ?w s = (if fst s < ?t then root w s
      else if s = (?t + 1, Input) then Some (?n + 1) else if s = (?t + 2, Input) then Some (?n + 4)
      else if s = (?t + 3, Input) then Some (?n + 7) else None)" for s
    by (cases s; cases "snd s")
      (auto simp: root_def tks nth_append start_six_def start_task_def new_idle_rec_def new_worker_rec_def
        new_handler_rec_def new_device_rec_def nth_Cons' split: if_splits)
  have news: "chain (packets ?w) (Some (?n + 1)) [?n + 1, ?n]" "chain (packets ?w) (Some (?n + 4)) [?n + 4, ?n + 3, ?n + 2]"
    "chain (packets ?w) (Some (?n + 7)) [?n + 7, ?n + 6, ?n + 5]"
    by (simp_all add: packs start_packets_def nth_append Packet_def)
  have queues: "queue (packets ?w) (snd s) (root ?w s) (?Q s)" for s
  proof (cases "fst s < ?t")
    case True
    then have "s \<noteq> (?t + 1, Input)" "s \<noteq> (?t + 2, Input)" "s \<noteq> (?t + 3, Input)" by auto
    then show ?thesis
      using queue_append [OF r(6) [of s] b [of _ s]] True by (simp add: root packs)
  next
    case False
    then have "Q s = []" using e by simp
    with False news show ?thesis by (auto simp: root queue_def)
  qed
  have packets_good: "good_packet (packets ?w ! p)" if "p < length (packets ?w)" for p
  proof (cases "p < ?n")
    case True
    then show ?thesis using r(3) by (simp add: packs nth_append)
  next
    case False
    then have "packets ?w ! p \<in> set (start_packets ?n)" using that by (simp add: packs nth_append)
    then show ?thesis by (auto simp: start_packets_def good_packet_def Packet_def)
  qed
  have tasks_good: "good_task k (tasks ?w ! k)" if "k < length (tasks ?w)" for k
  proof (cases "k < ?t")
    case True
    then show ?thesis using r(4) by (simp add: tks nth_append)
  next
    case False
    define j where "j = k - ?t"
    have k: "k = ?t + j" "j < 6" using that False by (simp_all add: j_def tks start_six_def)
    have "good_task (?t + j) (start_six (taskList w) ?t ?n ! j)"
      using k(2) r(2) by (auto simp: start_six_def start_task_def good_task_def nth_Cons' task_ids new_idle_rec_def
          new_worker_rec_def new_handler_rec_def new_device_rec_def running_def waiting_def waitingWithPacket_def
          TaskState_def intro: trans_less_add1)
    then show ?thesis by (simp add: k tks nth_append)
  qed
  have "{2..6::nat} = {2, 3, 4, 5, 6}" by auto
  then have "good_tab ?w"
    using r(1) by (simp add: good_tab_def started_def Let_def TASKTABSIZE_def start_six_def start_task_def nth_append)
  moreover have "good_ident ?w s p" if "p \<in> set (?Q s)" for s p
  proof (cases "p < ?n")
    case True
    then have "p \<in> set (Q s)" using that by (auto split: if_splits)
    then have "good_ident w s p" using r(7) by blast
    with True show ?thesis by (auto simp: good_ident_def packs tks nth_append)
  next
    case False
    then show ?thesis
      using that b [of p s]
      by (auto simp: good_ident_def packs tks nth_append start_packets_def Packet_def start_six_def start_task_def task_ids
          split: if_splits)
  qed
  ultimately have c: "consistent ?Q {} ?w"
    using packets_good tasks_good shared queues unfolding consistent_def by blast
  have bound: "t < ?t" if "p \<in> set (Q (t, f))" for t f p
    using r(6) [of "(t, f)"] that by (auto simp: queue_def root_def split: if_splits)
  have "routed ?w s p" if "p \<in> set (?Q s)" for s p
  proof (cases "p < ?n")
    case True
    then have "p \<in> set (Q s)" using that by (auto split: if_splits)
    moreover obtain t f where "s = (t, f)" by (cases s)
    ultimately show ?thesis using True bound assms(3) [of p s] by (auto simp: routed_def packs tks nth_append)
  next
    case False
    then show ?thesis
      using that b [of p s]
      by (auto simp: routed_def packs tks nth_append start_packets_def Packet_def start_six_def start_task_def task_ids
          class_of_def K_WORK_def K_DEV_def split: if_splits)
  qed
  moreover have "\<forall>tk \<in> set (start_six (taskList w) ?t ?n). steady tk"
    by (simp add: start_six_def start_task_def steady_def class_of_def task_ids new_idle_rec_def)
  then have "routes ?w"
    using r(1) assms(2) \<open>{2..6::nat} = {2, 3, 4, 5, 6}\<close>
    by (auto simp: routes_def tks started_def Let_def TASKTABSIZE_def start_six_def start_task_def nth_append class_of_def task_ids)
  ultimately have "orderly ?Q {} ?w" using c unfolding orderly_def by blast
  then show ?thesis by blast
qed

lemma idle_turns_started: "idle_turns (started w) = idle_turns w + 10000"
  by (simp add: idle_turns_def started_def Let_def start_six_def start_task_def new_idle_rec_def new_worker_rec_def
      new_handler_rec_def new_device_rec_def)

section \<open>The benchmark\<close>

text \<open>What a round leaves for the next one.\<close>

definition at_rest :: "nat \<Rightarrow> (nat \<times> place \<Rightarrow> nat list) \<Rightarrow> world \<Rightarrow> bool" where
  "at_rest j Q w \<longleftrightarrow> ready Q w \<and> routes w \<and> (\<forall>s. \<forall>p \<in> set (Q s). routed w s p) \<and> idle_turns w \<le> 10000 * j \<and>
     length (packets w) = 8 * j \<and> length (tasks w) = 6 * j"

text \<open>Enough turns for every round: all idle turns, each with the highest cost, and each time down the list.\<close>

definition richards_turns :: "nat \<Rightarrow> nat" where
  "richards_turns k = (10000 * k * (86 * k + 1) + 86 * k) * (6 * k + 1) + 6 * k"

lemma richards_turns_mono:
  assumes "j \<le> k"
  shows "richards_turns j \<le> richards_turns k"
proof -
  have "86 * j + 1 \<le> 86 * k + 1" "10000 * j \<le> 10000 * k" "6 * j + 1 \<le> 6 * k + 1" using assms by simp_all
  then have "10000 * j * (86 * j + 1) + 86 * j \<le> 10000 * k * (86 * k + 1) + 86 * k"
    using assms by (intro add_mono mult_le_mono) simp_all
  then show ?thesis unfolding richards_turns_def using assms by (intro add_mono mult_le_mono) simp_all
qed

lemma at_rest_start: "at_rest 0 (\<lambda>s. []) TaskWorkArea"
  using ready_start by (simp add: at_rest_def routes_def TaskWorkArea_def TASKTABSIZE_def idle_turns_def)

lemma round_ends:
  assumes "at_rest j Q w" and "richards_turns (Suc j) \<le> fuel"
  shows "\<exists>w' Q'. start_tasks w = Inr (started w) \<and> schedule fuel (taskList (started w)) (started w) = Inr w' \<and>
    at_rest (Suc j) Q' w'"
proof -
  let ?w = "started w"
  have r: "ready Q w" "routes w" "\<And>s p. p \<in> set (Q s) \<Longrightarrow> routed w s p" "idle_turns w \<le> 10000 * j"
    "length (packets w) = 8 * j" "length (tasks w) = 6 * j"
    using assms(1) unfolding at_rest_def by blast+
  have st: "start_tasks w = Inr ?w" using start_tasks_eq r(1) by (simp add: ready_def)
  obtain Q1 where o: "orderly Q1 {} ?w" using start_orderly [OF r(1-3)] by blast
  have len: "length (packets ?w) = 8 * Suc j" "length (tasks ?w) = 6 * Suc j"
    using r(5,6) by (simp_all add: started_def Let_def start_packets_def start_six_def)
  have tl: "k < length (tasks ?w)" if "taskList ?w = Some k" for k
    using orderly_consistent [OF o] that by (auto simp: consistent_def good_tab_def)
  have b: "energy_bound ?w = 86 * Suc j" by (simp add: energy_bound_def len)
  have e: "energy Q1 ?w \<le> 86 * Suc j" using energy_le [OF orderly_consistent [OF o]] len by simp
  have i: "idle_turns ?w \<le> 10000 * Suc j" using r(4) by (simp add: idle_turns_started)
  have "turns_left ?w (idle_turns ?w) (energy Q1 ?w) (taskList ?w) \<le> richards_turns (Suc j)"
    unfolding turns_left_def richards_turns_def b len
  proof (intro add_mono mult_le_mono)
    show "(case taskList ?w of None \<Rightarrow> 0 | Some k \<Rightarrow> Suc k) \<le> 6 * Suc j"
      using tl len(2) by (auto simp: Suc_le_eq split: option.splits)
  qed (use e i in simp_all)
  then obtain Q2 w2 where "schedule fuel (taskList ?w) ?w = Inr w2" "orderly Q2 {} w2" "static ?w w2"
    "idle_turns w2 \<le> idle_turns ?w"
    using schedule_ends [OF o tl, of "taskList ?w" fuel] assms(2) by auto
  then show ?thesis
    using st len i consistent_ready [OF orderly_consistent] by (auto simp: at_rest_def orderly_def static_def)
qed

lemma rounds_end:
  assumes "at_rest j Q w" and "richards_turns (j + k) \<le> fuel"
  shows "\<exists>b w' Q' i. run fuel k w = Inr (b, w') \<and> at_rest (j + i) Q' w' \<and> i \<le> k \<and> (if b then i = k else 0 < i) \<and>
    (b \<longleftrightarrow> k = 0 \<or> holdCount w' = 9297 \<and> qpktCount w' = 23246)"
  using assms
proof (induction k arbitrary: j w Q)
  case 0
  then show ?case by auto
next
  case (Suc k)
  have "richards_turns (Suc j) \<le> fuel" using richards_turns_mono [of "Suc j" "j + Suc k"] Suc.prems(2) by simp
  then obtain w2 Q2 where r: "start_tasks w = Inr (started w)"
    "schedule fuel (taskList (started w)) (started w) = Inr w2" "at_rest (Suc j) Q2 w2"
    using round_ends [OF Suc.prems(1)] by blast
  show ?case
  proof (cases "holdCount w2 = 9297 \<and> qpktCount w2 = 23246")
    case True
    then have eq: "run fuel (Suc k) w = run fuel k w2" using r by simp
    obtain b w' Q' i where *: "run fuel k w2 = Inr (b, w')" "at_rest (Suc j + i) Q' w'" "i \<le> k" "if b then i = k else 0 < i"
      "b \<longleftrightarrow> k = 0 \<or> holdCount w' = 9297 \<and> qpktCount w' = 23246"
      using Suc.IH [OF r(3)] Suc.prems(2) by auto
    have "k = 0 \<Longrightarrow> w' = w2" using *(1) by simp
    then have "b \<longleftrightarrow> Suc k = 0 \<or> holdCount w' = 9297 \<and> qpktCount w' = 23246" using *(5) True by auto
    with * show ?thesis unfolding eq by (intro exI [of _ b] exI [of _ w'] exI [of _ Q'] exI [of _ "Suc i"]) auto
  next
    case False
    then have "run fuel (Suc k) w = Inr (False, w2)" using r by auto
    with r(3) False show ?thesis
      by (intro exI [of _ False] exI [of _ w2] exI [of _ Q2] exI [of _ 1]) auto
  qed
qed

section \<open>The properties\<close>

text \<open>
  C20: the benchmark ends: with as many turns for \<open>schedule\<close> as \<open>richards_turns\<close> allows for its rounds,
  \<open>run\<close> returns, without an exception; no packet is sent to a missing task, no task gets a record of
  another class, no index is out of range. It has then run every round, or stopped after one whose
  counts are not the expected ones, and its answer is whether the counts of the last round are. The
  packets of all rounds are shared out among the queues of the tasks, each in exactly one place.
\<close>

theorem richards_ends:
  assumes "richards_turns k \<le> fuel"
  shows "\<exists>b w Q j. run fuel k TaskWorkArea = Inr (b, w) \<and> j \<le> k \<and> (if b then j = k else 0 < j) \<and>
    (b \<longleftrightarrow> k = 0 \<or> holdCount w = 9297 \<and> qpktCount w = 23246) \<and>
    length (packets w) = 8 * j \<and> length (tasks w) = 6 * j \<and>
    shared_out Q {} (length (packets w)) \<and> (\<forall>s. queue (packets w) (snd s) (root w s) (Q s))"
proof -
  obtain b w Q j where r: "run fuel k TaskWorkArea = Inr (b, w)" "at_rest (0 + j) Q w" "j \<le> k"
    "if b then j = k else 0 < j" "b \<longleftrightarrow> k = 0 \<or> holdCount w = 9297 \<and> qpktCount w = 23246"
    using rounds_end [OF at_rest_start, of k fuel] assms by auto
  have "shared_out Q {} (length (packets w))" "\<forall>s. queue (packets w) (snd s) (root w s) (Q s)"
    "length (packets w) = 8 * j" "length (tasks w) = 6 * j"
    using r(2) unfolding at_rest_def ready_def add_0 by blast+
  with r(1,3-5) show ?thesis by blast
qed

theorem richards_ends_witness:
  "\<exists>b w Q. run 6090608 1 TaskWorkArea = Inr (b, w) \<and> (b \<longleftrightarrow> holdCount w = 9297 \<and> qpktCount w = 23246) \<and>
    length (packets w) = 8 \<and> length (tasks w) = 6 \<and> shared_out Q {} 8 \<and>
    (\<forall>s. queue (packets w) (snd s) (root w s) (Q s))"
proof -
  have "richards_turns 1 \<le> 6090608" by (simp add: richards_turns_def)
  from richards_ends [OF this] obtain b w Q j where r: "run 6090608 1 TaskWorkArea = Inr (b, w)" "j \<le> 1" "if b then j = 1 else 0 < j"
    "b \<longleftrightarrow> (1::nat) = 0 \<or> holdCount w = 9297 \<and> qpktCount w = 23246" "length (packets w) = 8 * j"
    "length (tasks w) = 6 * j" "shared_out Q {} (length (packets w))" "\<forall>s. queue (packets w) (snd s) (root w s) (Q s)"
    by (elim exE conjE) (rule that)
  have "j = 1" using r(2,3) by (cases b) auto
  with r show ?thesis by (simp del: run.simps) blast
qed

text \<open>
  C22: \<open>append_to\<close> is appending to the list of packets that a queue stands for, the empty queue
  included; it changes no packet outside the queue, and of the others only the \<open>link\<close>.
\<close>

theorem append_to_refines:
  assumes "chain ps r xs" and "distinct xs" and "y < length ps" and "y \<notin> set xs"
  shows "\<exists>h ps'. append_to y r ps = Inr (h, ps') \<and> chain ps' (Some h) (xs @ [y]) \<and>
    (r \<noteq> None \<longrightarrow> r = Some h) \<and> (\<forall>q. q \<notin> insert y (set xs) \<longrightarrow> ps' ! q = ps ! q) \<and>
    (\<forall>q < length ps. same_packet (ps ! q) (ps' ! q))"
proof -
  obtain h ps' where "append_to y r ps = Inr (h, ps')" "chain ps' (Some h) (xs @ [y])"
    "\<forall>q. q \<notin> insert y (set xs) \<longrightarrow> ps' ! q = ps ! q" "\<forall>q < length ps. same_packet (ps ! q) (ps' ! q)"
    "r \<noteq> None \<longrightarrow> r = Some h"
    using append_to_ok [OF assms] by (elim exE conjE) (rule that)
  then show ?thesis by (intro exI [of _ h] exI [of _ ps'] conjI)
qed

theorem append_to_refines_witness:
  "\<exists>h ps'. append_to 0 (Some 2) [Packet None 0 K_DEV, Packet None 1 K_DEV, Packet (Some 1) 2 K_DEV] = Inr (h, ps') \<and>
    chain ps' (Some h) [2, 1, 0]"
proof -
  have "chain [Packet None 0 K_DEV, Packet None 1 K_DEV, Packet (Some 1) 2 K_DEV] (Some 2) [2, 1]"
    by (simp add: Packet_def)
  then show ?thesis
    using append_to_refines [of "[Packet None 0 K_DEV, Packet None 1 K_DEV, Packet (Some 1) 2 K_DEV]" "Some 2" "[2, 1]" 0]
    by auto
qed

text \<open>
  C21: \<open>qpkt\<close> moves the packet in hand to the end of the input of the task that its \<open>ident\<close> names,
  leaves every other place as it was, and keeps the invariant.
\<close>

theorem qpkt_delivers:
  assumes "consistent Q {p} w" and "self < length (tasks w)" and "pk_ident (packets w ! p) \<in> {2..6}"
    and "tk_class (tasks w ! self) \<noteq> IdleTask"
  shows "\<exists>i t w'. qpkt self p w = Inr (Some i, w') \<and> taskTab w ! pk_ident (packets w ! p) = Some t \<and>
    consistent (Q((t, Input) := Q (t, Input) @ [p])) {} w'"
  using qpkt_ok [OF assms] by blast

text \<open>The state in which handler A has taken its first packet.\<close>

definition first_taken :: world where
  "first_taken = (let w = started TaskWorkArea in
     w\<lparr>tasks := (tasks w)[2 := (tasks w ! 2)\<lparr>tk_input := pk_link (packets w ! 4)\<rparr>]\<rparr>)"

lemma first_taken_ok: "\<exists>Q. consistent Q {4} first_taken"
proof -
  let ?w = "started TaskWorkArea"
  obtain Q where "orderly Q {} ?w"
    using start_orderly [of "\<lambda>s. []" TaskWorkArea] at_rest_start by (auto simp: at_rest_def)
  then have c: "consistent Q {} ?w" by (rule orderly_consistent)
  have t: "2 < length (tasks ?w)" "tk_root (tasks ?w ! 2) Input = Some 4" "pk_link (packets ?w ! 4) = Some 3"
    by code_simp+
  obtain xs where q: "Q (2, Input) = 4 # xs" using head_of_queue(1) [OF c t(1,2)] by blast
  have "consistent (Q((2, Input) := xs)) {4} (?w\<lparr>tasks := (tasks ?w)[2 := (tasks ?w ! 2)\<lparr>tk_input := Some 3\<rparr>]\<rparr>)"
  proof (rule place_take [OF c t(1) q])
    show "good_task 2 ((tasks ?w ! 2)\<lparr>tk_input := Some 3\<rparr>)"
      using inv_task [OF c t(1)] t(2) by (simp add: good_task_def)
    show "tk_root ((tasks ?w ! 2)\<lparr>tk_input := Some 3\<rparr>) f = tk_root (tasks ?w ! 2) f" if "f \<noteq> Input" for f
      using that by (cases f) auto
  qed (use t(3) in auto)
  then show ?thesis unfolding first_taken_def Let_def t(3) by blast
qed

theorem qpkt_delivers_witness:
  "\<exists>i t w' Q. qpkt 2 4 first_taken = Inr (Some i, w') \<and> taskTab first_taken ! 5 = Some t \<and> consistent Q {} w'"
proof -
  obtain Q where "consistent Q {4} first_taken" using first_taken_ok by blast
  moreover have "2 < length (tasks first_taken)" "pk_ident (packets first_taken ! 4) = 5"
    "tk_class (tasks first_taken ! 2) \<noteq> IdleTask" by code_simp+
  ultimately show ?thesis using qpkt_delivers [of Q 4 first_taken 2] by fastforce
qed

end
