(* ===== verification/Pystone.thy ===== *)
theory Pystone
  imports PyText
begin

text \<open>
  \<^verbatim>\<open>unladen_swallow/performance/pystone.py\<close>, the Dhrystone program in Python 2 (\<open>/\<close> on integers is
  the floor division). The globals are a record; \<open>Record\<close> objects are shared by reference, so they
  live in a list and a reference is a position in it. The timing of \<open>Proc0\<close> is left out.
  The property is the one Dhrystone checks its result by: the final values of the globals.
\<close>

section \<open>State\<close>

definition Ident1 :: int where "Ident1 = 1"
definition Ident2 :: int where "Ident2 = 2"
definition Ident3 :: int where "Ident3 = 3"
definition Ident4 :: int where "Ident4 = 4"
definition Ident5 :: int where "Ident5 = 5"

lemmas idents = Ident1_def Ident2_def Ident3_def Ident4_def Ident5_def

text \<open>\<open>StringComp\<close> is \<open>0\<close> by default, which is \<open>None\<close> here.\<close>

record rec =
  PtrComp :: "nat option"
  Discr :: int
  EnumComp :: int
  IntComp :: int
  StringComp :: "string option"

definition Record :: rec where
  "Record = \<lparr>PtrComp = None, Discr = 0, EnumComp = 0, IntComp = 0, StringComp = None\<rparr>"

record globals =
  recs :: "rec list"
  IntGlob :: int
  BoolGlob :: bool
  Char1Glob :: char
  Char2Glob :: char
  Array1Glob :: "int list"
  Array2Glob :: "int list list"
  PtrGlb :: "nat option"
  PtrGlbNext :: "nat option"

definition initial :: globals where
  "initial = \<lparr>recs = [], IntGlob = 0, BoolGlob = False, Char1Glob = CHR 0x00, Char2Glob = CHR 0x00,
     Array1Glob = replicate 51 0, Array2Glob = replicate 51 (replicate 51 0), PtrGlb = None, PtrGlbNext = None\<rparr>"

text \<open>Creating, copying and changing a record; \<open>None\<close> has no attributes.\<close>

definition new_rec :: "rec \<Rightarrow> globals \<Rightarrow> nat \<times> globals" where
  "new_rec r g = (length (recs g), g\<lparr>recs := recs g @ [r]\<rparr>)"

definition get_rec :: "nat option \<Rightarrow> globals \<Rightarrow> rec result" where
  "get_rec p g = (case p of None \<Rightarrow> Inl AttributeError | Some p \<Rightarrow> lget (recs g) p)"

definition set_rec :: "nat option \<Rightarrow> (rec \<Rightarrow> rec) \<Rightarrow> globals \<Rightarrow> globals result" where
  "set_rec p f g = (case p of None \<Rightarrow> Inl AttributeError
     | Some p \<Rightarrow> rbind (lget (recs g) p) (\<lambda>r. rbind (lset (recs g) p (f r)) (\<lambda>rs. Inr (g\<lparr>recs := rs\<rparr>))))"

definition copy :: "nat option \<Rightarrow> globals \<Rightarrow> (nat \<times> globals) result" where
  "copy p g = rbind (get_rec p g) (\<lambda>r. Inr (new_rec r g))"

section \<open>The procedures\<close>

definition Func1 :: "char \<Rightarrow> char \<Rightarrow> int" where
  "Func1 CharPar1 CharPar2 = (if CharPar1 \<noteq> CharPar2 then Ident1 else Ident2)"

fun str_less :: "string \<Rightarrow> string \<Rightarrow> bool" where
  "str_less s [] \<longleftrightarrow> False"
| "str_less [] (d # t) \<longleftrightarrow> True"
| "str_less (c # s) (d # t) \<longleftrightarrow> (of_char c :: nat) < of_char d \<or> (c = d \<and> str_less s t)"

text \<open>
  The loop of \<open>Func2\<close>: a turn that does not leave it changes nothing, so that two turns of fuel
  tell whether it ends. It always leaves with \<open>CharLoc = 'A'\<close>.
\<close>

fun func2_loop :: "nat \<Rightarrow> string \<Rightarrow> string \<Rightarrow> nat \<Rightarrow> char \<Rightarrow> (nat \<times> char) result" where
  "func2_loop 0 s1 s2 IntLoc CharLoc = Inl OutOfFuel"
| "func2_loop (Suc fuel) s1 s2 IntLoc CharLoc =
     (if IntLoc \<le> 1 then
        rbind (lget s1 IntLoc) (\<lambda>c1. rbind (lget s2 (IntLoc + 1)) (\<lambda>c2.
        if Func1 c1 c2 = Ident1 then func2_loop fuel s1 s2 (IntLoc + 1) CHR ''A''
        else func2_loop fuel s1 s2 IntLoc CharLoc))
      else Inr (IntLoc, CharLoc))"

definition Func2 :: "string \<Rightarrow> string \<Rightarrow> bool result" where
  "Func2 s1 s2 = rbind (func2_loop 2 s1 s2 1 CHR 0x00) (\<lambda>(IntLoc, CharLoc).
     if CharLoc = CHR ''X'' then Inr True
     else Inr (str_less s2 s1))"

definition Func3 :: "int \<Rightarrow> bool" where
  "Func3 EnumParIn \<longleftrightarrow> EnumParIn = Ident3"

definition Proc6 :: "int \<Rightarrow> globals \<Rightarrow> int" where
  "Proc6 EnumParIn g =
     (let EnumParOut = (if \<not> Func3 EnumParIn then Ident4 else EnumParIn) in
      if EnumParIn = Ident1 then Ident1
      else if EnumParIn = Ident2 then (if IntGlob g > 100 then Ident1 else Ident4)
      else if EnumParIn = Ident3 then Ident2
      else if EnumParIn = Ident4 then EnumParOut
      else if EnumParIn = Ident5 then Ident3
      else EnumParOut)"

definition Proc7 :: "int \<Rightarrow> int \<Rightarrow> int" where
  "Proc7 IntParI1 IntParI2 = IntParI2 + (IntParI1 + 2)"

definition Proc3 :: "nat option \<Rightarrow> globals \<Rightarrow> (nat option \<times> globals) result" where
  "Proc3 PtrParOut g =
     rbind (case PtrGlb g of
         Some p \<Rightarrow> rbind (get_rec (Some p) g) (\<lambda>r. Inr (PtrComp r, g))
       | None \<Rightarrow> Inr (PtrParOut, g\<lparr>IntGlob := 100\<rparr>)) (\<lambda>(PtrParOut, g).
     rbind (set_rec (PtrGlb g) (\<lambda>r. r\<lparr>IntComp := Proc7 10 (IntGlob g)\<rparr>) g) (\<lambda>g. Inr (PtrParOut, g)))"

definition Proc1 :: "nat option \<Rightarrow> globals \<Rightarrow> (nat option \<times> globals) result" where
  "Proc1 PtrParIn g =
     rbind (copy (PtrGlb g) g) (\<lambda>(NextRecord, g).
     let nxt = Some NextRecord in
     rbind (set_rec PtrParIn (\<lambda>r. r\<lparr>PtrComp := nxt\<rparr>) g) (\<lambda>g.
     rbind (set_rec PtrParIn (\<lambda>r. r\<lparr>IntComp := 5\<rparr>) g) (\<lambda>g.
     rbind (get_rec PtrParIn g) (\<lambda>r.
     rbind (set_rec nxt (\<lambda>n. n\<lparr>IntComp := IntComp r\<rparr>) g) (\<lambda>g.
     rbind (get_rec PtrParIn g) (\<lambda>r.
     rbind (set_rec nxt (\<lambda>n. n\<lparr>PtrComp := PtrComp r\<rparr>) g) (\<lambda>g.
     rbind (get_rec nxt g) (\<lambda>n.
     rbind (Proc3 (PtrComp n) g) (\<lambda>(p, g).
     rbind (set_rec nxt (\<lambda>n. n\<lparr>PtrComp := p\<rparr>) g) (\<lambda>g.
     rbind (get_rec nxt g) (\<lambda>n.
     rbind (if Discr n = Ident1 then
              rbind (set_rec nxt (\<lambda>n. n\<lparr>IntComp := 6\<rparr>) g) (\<lambda>g.
              rbind (get_rec PtrParIn g) (\<lambda>r.
              rbind (set_rec nxt (\<lambda>n. n\<lparr>EnumComp := Proc6 (EnumComp r) g\<rparr>) g) (\<lambda>g.
              rbind (get_rec (PtrGlb g) g) (\<lambda>q.
              rbind (set_rec nxt (\<lambda>n. n\<lparr>PtrComp := PtrComp q\<rparr>) g) (\<lambda>g.
              rbind (get_rec nxt g) (\<lambda>n.
              rbind (set_rec nxt (\<lambda>n'. n'\<lparr>IntComp := Proc7 (IntComp n) 10\<rparr>) g) (\<lambda>g.
              Inr (PtrParIn, g))))))))
            else rbind (copy nxt g) (\<lambda>(c, g). Inr (Some c, g))) (\<lambda>(PtrParIn, g).
     rbind (set_rec nxt (\<lambda>n. n\<lparr>PtrComp := None\<rparr>) g) (\<lambda>g.
     Inr (PtrParIn, g))))))))))))))"

text \<open>
  The loop of \<open>Proc2\<close> has at most one turn: either \<open>EnumLoc\<close> is set and it ends, or \<open>EnumLoc\<close> is
  read before it is bound.
\<close>

definition Proc2 :: "int \<Rightarrow> globals \<Rightarrow> int result" where
  "Proc2 IntParIO g =
     (let IntLoc = IntParIO + 10 in
      if Char1Glob g = CHR ''A'' then Inr (IntLoc - 1 - IntGlob g) else Inl UnboundLocalError)"

definition Proc4 :: "globals \<Rightarrow> globals" where
  "Proc4 g = g\<lparr>Char2Glob := CHR ''B''\<rparr>"

definition Proc5 :: "globals \<Rightarrow> globals" where
  "Proc5 g = g\<lparr>Char1Glob := CHR ''A'', BoolGlob := False\<rparr>"

text \<open>Reading and writing one cell of the table.\<close>

definition get2 :: "int list list \<Rightarrow> int \<Rightarrow> int \<Rightarrow> int result" where
  "get2 a i j = rbind (py_get a i) (\<lambda>row. py_get row j)"

definition set2 :: "int list list \<Rightarrow> int \<Rightarrow> int \<Rightarrow> int \<Rightarrow> int list list result" where
  "set2 a i j v = rbind (py_get a i) (\<lambda>row. rbind (py_set row j v) (\<lambda>row. py_set a i row))"

definition Proc8 :: "int \<Rightarrow> int \<Rightarrow> globals \<Rightarrow> globals result" where
  "Proc8 IntParI1 IntParI2 g =
     (let IntLoc = IntParI1 + 5 in
      rbind (py_set (Array1Glob g) IntLoc IntParI2) (\<lambda>a1.
      rbind (py_get a1 IntLoc) (\<lambda>x.
      rbind (py_set a1 (IntLoc + 1) x) (\<lambda>a1.
      rbind (py_set a1 (IntLoc + 30) IntLoc) (\<lambda>a1.
      rbind (for_each [IntLoc..IntLoc + 2 - 1] (\<lambda>IntIndex a2. set2 a2 IntLoc IntIndex IntLoc) (Array2Glob g)) (\<lambda>a2.
      rbind (get2 a2 IntLoc (IntLoc - 1)) (\<lambda>x.
      rbind (set2 a2 IntLoc (IntLoc - 1) (x + 1)) (\<lambda>a2.
      rbind (py_get a1 IntLoc) (\<lambda>x.
      rbind (set2 a2 (IntLoc + 20) IntLoc x) (\<lambda>a2.
      Inr (g\<lparr>Array1Glob := a1, Array2Glob := a2, IntGlob := 5\<rparr>)))))))))))"

section \<open>The main loop\<close>

function int_loop :: "int \<Rightarrow> int \<Rightarrow> int \<Rightarrow> int \<times> int" where
  "int_loop IntLoc1 IntLoc2 IntLoc3 =
     (if IntLoc1 < IntLoc2 then int_loop (IntLoc1 + 1) IntLoc2 (Proc7 IntLoc1 IntLoc2)
      else (IntLoc1, IntLoc3))"
  by auto
termination
  by (relation "measure (\<lambda>(i, j, k). nat (j - i))") auto

declare int_loop.simps [simp del]

text \<open>The loop over the characters up to \<open>Char2Glob\<close>, by their codes; \<open>chr(256)\<close> raises.\<close>

function char_loop :: "nat \<Rightarrow> int \<Rightarrow> globals \<Rightarrow> int result" where
  "char_loop CharIndex EnumLoc g =
     (if 256 \<le> CharIndex then Inl ValueError
      else if CharIndex \<le> of_char (Char2Glob g) then
        char_loop (CharIndex + 1)
          (if EnumLoc = Func1 (char_of CharIndex) CHR ''C'' then Proc6 Ident1 g else EnumLoc) g
      else Inr EnumLoc)"
  by auto
termination
  by (relation "measure (\<lambda>(i, e, g). 256 - i)") auto

declare char_loop.simps [simp del]

definition String1Loc :: string where "String1Loc = ''DHRYSTONE PROGRAM, 1'ST STRING''"
definition String2Loc :: string where "String2Loc = ''DHRYSTONE PROGRAM, 2'ND STRING''"

text \<open>The locals that one turn leaves are not read by the next one.\<close>

definition Proc0_turn :: "globals \<Rightarrow> globals result" where
  "Proc0_turn g =
     (let g = Proc4 (Proc5 g) in
      rbind (Func2 String1Loc String2Loc) (\<lambda>b.
      let g = g\<lparr>BoolGlob := \<not> b\<rparr>; (IntLoc1, IntLoc3) = int_loop 2 3 0 in
      rbind (Proc8 IntLoc1 IntLoc3 g) (\<lambda>g.
      rbind (Proc1 (PtrGlb g) g) (\<lambda>(p, g).
      let g = g\<lparr>PtrGlb := p\<rparr> in
      rbind (char_loop (of_char CHR ''A'') Ident2 g) (\<lambda>EnumLoc.
      let IntLoc2 = 3; IntLoc3 = IntLoc2 * IntLoc1 in
      if IntLoc1 = 0 then Inl ZeroDivisionError
      else let IntLoc2 = IntLoc3 div IntLoc1; IntLoc2 = 7 * (IntLoc3 - IntLoc2) - IntLoc1 in
      rbind (Proc2 IntLoc1 g) (\<lambda>IntLoc1. Inr g))))))"

definition Proc0_start :: "globals \<Rightarrow> globals result" where
  "Proc0_start g =
     (let (n, g) = new_rec Record g; g = g\<lparr>PtrGlbNext := Some n\<rparr>;
          (p, g) = new_rec Record g; g = g\<lparr>PtrGlb := Some p\<rparr> in
      rbind (set_rec (PtrGlb g) (\<lambda>r. \<lparr>PtrComp = PtrGlbNext g, Discr = Ident1, EnumComp = Ident3, IntComp = 40,
         StringComp = Some ''DHRYSTONE PROGRAM, SOME STRING''\<rparr>) g) (\<lambda>g.
      rbind (set2 (Array2Glob g) 8 7 10) (\<lambda>a2. Inr (g\<lparr>Array2Glob := a2\<rparr>))))"

definition Proc0 :: "nat \<Rightarrow> globals \<Rightarrow> globals result" where
  "Proc0 loops g = rbind (Proc0_start g) (for_each [0..<loops] (\<lambda>i. Proc0_turn))"

section \<open>One turn\<close>

lemma Func2_strings: "Func2 String1Loc String2Loc = Inr False"
  by code_simp

lemma int_loop_result: "int_loop 2 3 0 = (3, 7)"
  by (simp add: int_loop.simps [of 2] int_loop.simps [of 3] Proc7_def)

lemma char_loop_result: "Char2Glob g = CHR ''B'' \<Longrightarrow> char_loop (of_char CHR ''A'') Ident2 g = Inr Ident2"
  by (simp add: char_loop.simps [of 65] char_loop.simps [of 66] char_loop.simps [of 67] Func1_def idents char_of_def)

definition square51 :: "int list list \<Rightarrow> bool" where
  "square51 a \<longleftrightarrow> length a = 51 \<and> (\<forall>row \<in> set a. length row = 51)"

lemma square51_row: "square51 a \<Longrightarrow> i < 51 \<Longrightarrow> length (a ! i) = 51"
  by (simp add: square51_def)

lemma square51_row_update: "square51 a \<Longrightarrow> length row = 51 \<Longrightarrow> square51 (a[i := row])"
  using set_update_subset_insert [of a i row] by (auto simp: square51_def)

lemma square51_update: "square51 a \<Longrightarrow> i < 51 \<Longrightarrow> square51 (a[i := (a ! i)[j := v]])"
  using set_update_subset_insert [of a i "(a ! i)[j := v]"] by (auto simp: square51_def)

lemma py_ok:
  "0 \<le> i \<Longrightarrow> i < int (length xs) \<Longrightarrow> py_get xs i = Inr (xs ! nat i)"
  "0 \<le> i \<Longrightarrow> i < int (length xs) \<Longrightarrow> py_set xs i v = Inr (xs[nat i := v])"
  by (simp_all add: py_get_def py_set_def py_index_def Let_def)

lemma get2_ok:
  "square51 a \<Longrightarrow> 0 \<le> i \<Longrightarrow> i < 51 \<Longrightarrow> 0 \<le> j \<Longrightarrow> j < 51 \<Longrightarrow> get2 a i j = Inr (a ! nat i ! nat j)"
  using square51_row [of a "nat i"] by (simp add: get2_def py_ok square51_def)

lemma set2_ok:
  "square51 a \<Longrightarrow> 0 \<le> i \<Longrightarrow> i < 51 \<Longrightarrow> 0 \<le> j \<Longrightarrow> j < 51 \<Longrightarrow>
   set2 a i j v = Inr (a[nat i := (a ! nat i)[nat j := v]])"
  using square51_row [of a "nat i"] by (simp add: set2_def py_ok square51_def)

lemma Proc8_turn:
  assumes "length (Array1Glob g) = 51" and "square51 (Array2Glob g)"
  shows "\<exists>a2. Proc8 3 7 g = Inr (g\<lparr>Array1Glob := (Array1Glob g)[8 := 7, 9 := 7, 38 := 8], Array2Glob := a2, IntGlob := 5\<rparr>) \<and>
    square51 a2 \<and> a2 ! 8 ! 7 = Array2Glob g ! 8 ! 7 + 1 \<and> a2 ! 8 ! 8 = 8 \<and> a2 ! 8 ! 9 = 8 \<and> a2 ! 28 ! 8 = 7"
proof -
  let ?b = "Array2Glob g"
  let ?b1 = "?b[8 := (?b ! 8)[8 := 8]]"
  let ?b2 = "?b1[8 := (?b1 ! 8)[9 := 8]]"
  let ?b3 = "?b2[8 := (?b2 ! 8)[7 := ?b2 ! 8 ! 7 + 1]]"
  let ?b4 = "?b3[28 := (?b3 ! 28)[8 := 7]]"
  have b1: "square51 ?b1" by (rule square51_update [OF assms(2)]) simp
  have b2: "square51 ?b2" by (rule square51_update [OF b1]) simp
  have b3: "square51 ?b3" by (rule square51_update [OF b2]) simp
  have b4: "square51 ?b4" by (rule square51_update [OF b3]) simp
  note sq = b1 b2 b3 b4
  have len: "length ?b = 51" "length (?b ! 8) = 51" "length (?b ! 28) = 51"
    using assms(2) by (auto simp: square51_def)
  have "[8..9] = [8, 9 :: int]" by (simp add: upto.simps)
  then have "Proc8 3 7 g = Inr (g\<lparr>Array1Glob := (Array1Glob g)[8 := 7, 9 := 7, 38 := 8], Array2Glob := ?b4, IntGlob := 5\<rparr>)"
    using assms(1) len by (simp add: Proc8_def Let_def py_ok set2_ok get2_ok square51_row_update assms(2))
  moreover have "?b4 ! 8 ! 7 = ?b ! 8 ! 7 + 1" "?b4 ! 8 ! 8 = 8" "?b4 ! 8 ! 9 = 8" "?b4 ! 28 ! 8 = 7"
    using len by simp_all
  ultimately show ?thesis using sq(4) by blast
qed

text \<open>The record that \<open>PtrGlb\<close> points to, and the one its turn has made.\<close>

definition main_rec :: "nat option \<Rightarrow> int \<Rightarrow> rec" where
  "main_rec p i = \<lparr>PtrComp = p, Discr = Ident1, EnumComp = Ident3, IntComp = i,
     StringComp = Some ''DHRYSTONE PROGRAM, SOME STRING''\<rparr>"

definition next_rec :: rec where
  "next_rec = \<lparr>PtrComp = None, Discr = Ident1, EnumComp = Ident2, IntComp = 18,
     StringComp = Some ''DHRYSTONE PROGRAM, SOME STRING''\<rparr>"

lemma Proc1_turn:
  assumes "PtrGlb g = Some p" and "p < length (recs g)" and "recs g ! p = main_rec q i" and "IntGlob g = 5"
  shows "Proc1 (PtrGlb g) g = Inr (Some p, g\<lparr>recs := (recs g)[p := main_rec (Some (length (recs g))) 17] @ [next_rec]\<rparr>)"
proof -
  have ne: "length (recs g) \<noteq> p" "p \<noteq> length (recs g)" using assms(2) by auto
  show ?thesis
    using assms ne
    by (simp add: Proc1_def Proc3_def copy_def new_rec_def get_rec_def set_rec_def lget_def lset_def Let_def
        nth_append list_update_append main_rec_def next_rec_def Proc6_def Proc7_def Func3_def idents)
qed

text \<open>The checks of Dhrystone: what the globals are after some turns.\<close>

definition checks :: "nat \<Rightarrow> globals \<Rightarrow> bool" where
  "checks k g \<longleftrightarrow> length (Array1Glob g) = 51 \<and> square51 (Array2Glob g) \<and> Array2Glob g ! 8 ! 7 = int k + 10 \<and>
     PtrGlb g = Some 1 \<and> PtrGlbNext g = Some 0 \<and> length (recs g) = k + 2 \<and> recs g ! 0 = Record \<and>
     (if k = 0 then recs g ! 1 = main_rec (Some 0) 40
      else recs g ! 1 = main_rec (Some (k + 1)) 17 \<and> recs g ! (k + 1) = next_rec \<and>
        IntGlob g = 5 \<and> BoolGlob g \<and> Char1Glob g = CHR ''A'' \<and> Char2Glob g = CHR ''B'' \<and>
        Array1Glob g ! 8 = 7 \<and> Array1Glob g ! 9 = 7 \<and> Array1Glob g ! 38 = 8 \<and>
        Array2Glob g ! 8 ! 8 = 8 \<and> Array2Glob g ! 8 ! 9 = 8 \<and> Array2Glob g ! 28 ! 8 = 7)"

lemma turn_checks:
  assumes "checks k g"
  shows "\<exists>g'. Proc0_turn g = Inr g' \<and> checks (Suc k) g'"
proof -
  let ?g = "g\<lparr>Char1Glob := CHR ''A'', Char2Glob := CHR ''B'', BoolGlob := True\<rparr>"
  have dims: "length (Array1Glob ?g) = 51" "square51 (Array2Glob ?g)" using assms by (simp_all add: checks_def)
  obtain a2 where a2: "Proc8 3 7 ?g = Inr (?g\<lparr>Array1Glob := (Array1Glob ?g)[8 := 7, 9 := 7, 38 := 8], Array2Glob := a2, IntGlob := 5\<rparr>)"
    "square51 a2" "a2 ! 8 ! 7 = Array2Glob ?g ! 8 ! 7 + 1" "a2 ! 8 ! 8 = 8" "a2 ! 8 ! 9 = 8" "a2 ! 28 ! 8 = 7"
    using Proc8_turn [OF dims] by blast
  let ?h = "?g\<lparr>Array1Glob := (Array1Glob ?g)[8 := 7, 9 := 7, 38 := 8], Array2Glob := a2, IntGlob := 5\<rparr>"
  obtain q i where r: "recs g ! 1 = main_rec q i" using assms by (auto simp: checks_def split: if_splits)
  have p: "PtrGlb ?h = Some 1" "1 < length (recs ?h)" "recs ?h ! 1 = main_rec q i" "IntGlob ?h = 5"
    using assms r by (simp_all add: checks_def)
  let ?k = "?h\<lparr>recs := (recs ?h)[1 := main_rec (Some (length (recs ?h))) 17] @ [next_rec]\<rparr>"
  have pg: "PtrGlb g = Some 1" using assms by (simp add: checks_def)
  have "Proc1 (Some 1) ?h = Inr (Some 1, ?k)" using Proc1_turn [OF p] unfolding p(1) .
  with pg have "Proc0_turn g = Inr (?k\<lparr>PtrGlb := Some 1\<rparr>)"
    using a2(1) char_loop_result [of "?k\<lparr>PtrGlb := Some 1\<rparr>"]
    by (simp add: Proc0_turn_def Proc4_def Proc5_def Func2_strings int_loop_result Let_def Proc2_def)
  moreover have "checks (Suc k) (?k\<lparr>PtrGlb := Some 1\<rparr>)"
    using assms a2 dims by (auto simp: checks_def nth_append)
  ultimately show ?thesis by blast
qed

lemma start_checks: "\<exists>g. Proc0_start initial = Inr g \<and> checks 0 g"
  by (simp add: Proc0_start_def initial_def new_rec_def set_rec_def lget_def lset_def Let_def set2_ok square51_def
      checks_def main_rec_def Record_def nth_list_update all_set_conv_all_nth)

text \<open>
  C23: \<open>Proc0\<close> ends without an error for every number of loops, with the values that Dhrystone
  checks its result by: among them \<open>Array2Glob[8][7]\<close> is the number of loops plus ten, and
  \<open>PtrGlb\<close> is the same record as at the start, while each loop has made one more record.
\<close>

theorem pystone_checks:
  "\<exists>g. Proc0 loops initial = Inr g \<and> checks loops g"
proof -
  obtain g0 where g0: "Proc0_start initial = Inr g0" "checks 0 g0" using start_checks by blast
  have "\<exists>g. for_each [0..<loops] (\<lambda>i. Proc0_turn) g0 = Inr g \<and> checks (length [0..<loops]) g"
    by (rule for_each_count [where I = checks]) (use g0 turn_checks in auto)
  then show ?thesis by (simp add: Proc0_def g0)
qed

text \<open>
  The loops that may not end: \<open>Func2\<close> compares two characters, and ends only if they differ;
  \<open>Proc2\<close> reads a variable that is not bound unless \<open>Char1Glob\<close> is \<open>'A'\<close>.
\<close>

theorem pystone_loops:
  "(3 \<le> length s1 \<and> 3 \<le> length s2 \<and> s1 ! 1 \<noteq> s2 ! 2 \<longrightarrow> Func2 s1 s2 = Inr (str_less s2 s1)) \<and>
   (3 \<le> length s1 \<and> 3 \<le> length s2 \<and> s1 ! 1 = s2 ! 2 \<longrightarrow> (\<forall>fuel. func2_loop fuel s1 s2 1 c = Inl OutOfFuel)) \<and>
   (Char1Glob g \<noteq> CHR ''A'' \<longrightarrow> Proc2 i g = Inl UnboundLocalError)"
proof (intro conjI impI allI)
  assume a: "3 \<le> length s1 \<and> 3 \<le> length s2 \<and> s1 ! 1 \<noteq> s2 ! 2"
  then have "func2_loop 2 s1 s2 1 CHR 0x00 = Inr (2, CHR ''A'')"
    by (simp add: numeral_2_eq_2 Func1_def idents)
  then show "Func2 s1 s2 = Inr (str_less s2 s1)" by (simp add: Func2_def)
next
  fix fuel assume a: "3 \<le> length s1 \<and> 3 \<le> length s2 \<and> s1 ! 1 = s2 ! 2"
  then show "func2_loop fuel s1 s2 1 c = Inl OutOfFuel"
    by (induction fuel) (auto simp: numeral_2_eq_2 Func1_def idents)
qed (simp add: Proc2_def)

theorem pystone_loops_witness:
  "Func2 ''abcd'' ''abxd'' = Inr False \<and> func2_loop 100 ''abc'' ''axb'' 1 CHR ''A'' = Inl OutOfFuel \<and>
   Proc2 3 initial = Inl UnboundLocalError"
proof -
  have "\<not> str_less ''abxd'' ''abcd''" "Char1Glob initial \<noteq> CHR ''A''" by code_simp+
  then show ?thesis
    using pystone_loops [of "''abcd''" "''abxd''"] pystone_loops [of "''abc''" "''axb''" "CHR ''A''"]
      pystone_loops [of _ _ _ initial 3] by (simp add: numeral_2_eq_2)
qed

end
