(* ===== verification/DeltaBlue.thy ===== *)
theory DeltaBlue
  imports PyText
begin

text \<open>
  The incremental constraint solver of \<open>own/deltablue.py\<close>: strengths, the four kinds of
  constraint, variables, the planner and its plans, and the two tests. Objects are numbers into
  the two lists of the world, so \<open>is\<close> and \<open>==\<close> of the source are equality of numbers. The loops
  of the planner call each other and need not end, so they run on fuel.
\<close>

section \<open>Strengths\<close>

datatype strength =
  REQUIRED | STONG_PREFERRED | PREFERRED | STRONG_DEFAULT | NORMAL | WEAK_DEFAULT | WEAKEST

fun level :: "strength \<Rightarrow> int" where
  "level REQUIRED = 0"
| "level STONG_PREFERRED = 1"
| "level PREFERRED = 2"
| "level STRONG_DEFAULT = 3"
| "level NORMAL = 4"
| "level WEAK_DEFAULT = 5"
| "level WEAKEST = 6"

definition stronger :: "strength \<Rightarrow> strength \<Rightarrow> bool" where
  "stronger s1 s2 \<longleftrightarrow> level s1 < level s2"

definition weaker :: "strength \<Rightarrow> strength \<Rightarrow> bool" where
  "weaker s1 s2 \<longleftrightarrow> level s1 > level s2"

definition weakest_of :: "strength \<Rightarrow> strength \<Rightarrow> strength" where
  "weakest_of s1 s2 = (if weaker s1 s2 then s1 else s2)"

definition strongest :: "strength \<Rightarrow> strength \<Rightarrow> strength" where
  "strongest s1 s2 = (if stronger s1 s2 then s1 else s2)"

fun next_weaker :: "strength \<Rightarrow> strength result" where
  "next_weaker REQUIRED = Inr WEAKEST"
| "next_weaker STONG_PREFERRED = Inr WEAK_DEFAULT"
| "next_weaker PREFERRED = Inr NORMAL"
| "next_weaker STRONG_DEFAULT = Inr STRONG_DEFAULT"
| "next_weaker NORMAL = Inr PREFERRED"
| "next_weaker WEAK_DEFAULT = Inr REQUIRED"
| "next_weaker WEAKEST = Inl KeyError"

text \<open>The order of strengths, the strongest first.\<close>

instantiation strength :: linorder
begin

definition less_eq_strength :: "strength \<Rightarrow> strength \<Rightarrow> bool" where
  "less_eq_strength s1 s2 \<longleftrightarrow> level s1 \<le> level s2"

definition less_strength :: "strength \<Rightarrow> strength \<Rightarrow> bool" where
  "less_strength s1 s2 \<longleftrightarrow> level s1 < level s2"

instance
proof
  fix s1 s2 :: strength assume "s1 \<le> s2" "s2 \<le> s1"
  then show "s1 = s2" by (cases s1; cases s2) (simp_all add: less_eq_strength_def)
qed (auto simp: less_eq_strength_def less_strength_def)

end

lemma strength_order:
  "stronger s1 s2 \<longleftrightarrow> s1 < s2" "weaker s1 s2 \<longleftrightarrow> s2 < s1" "weakest_of s1 s2 = max s1 s2" "strongest s1 s2 = min s1 s2"
  by (auto simp: stronger_def weaker_def weakest_of_def strongest_def less_eq_strength_def less_strength_def max_def min_def
      intro: antisym)

section \<open>The world\<close>

datatype direction = NONE | FORWARD | BACKWARD

datatype kind =
    StayConstraint nat
  | EditConstraint nat
  | EqualityConstraint nat nat
  | ScaleConstraint nat nat nat nat \<comment> \<open>\<open>v1\<close>, scale, offset, \<open>v2\<close>\<close>

text \<open>A unary constraint uses \<open>satisfied\<close>, a binary one \<open>direction\<close>.\<close>

record constr =
  strength :: strength
  kind :: kind
  satisfied :: bool
  direction :: direction

record variable =
  vname :: string
  val :: int
  constraints :: "nat list"
  determined_by :: "nat option"
  vmark :: int
  walk_strength :: strength
  stay :: bool

definition Variable :: "string \<Rightarrow> int \<Rightarrow> variable" where
  "Variable n initial_value = \<lparr>vname = n, val = initial_value, constraints = [], determined_by = None, vmark = 0,
     walk_strength = WEAKEST, stay = True\<rparr>"

record world =
  variables :: "variable list"
  constrs :: "constr list"
  current_mark :: int
  printed :: "string list"

definition Planner :: world where
  "Planner = \<lparr>variables = [], constrs = [], current_mark = 0, printed = []\<rparr>"

abbreviation var :: "world \<Rightarrow> nat \<Rightarrow> variable" where "var w v \<equiv> variables w ! v"
abbreviation con :: "world \<Rightarrow> nat \<Rightarrow> constr" where "con w c \<equiv> constrs w ! c"

definition set_var :: "nat \<Rightarrow> (variable \<Rightarrow> variable) \<Rightarrow> world \<Rightarrow> world" where
  "set_var v f w = w\<lparr>variables := (variables w)[v := f (var w v)]\<rparr>"

definition set_con :: "nat \<Rightarrow> (constr \<Rightarrow> constr) \<Rightarrow> world \<Rightarrow> world" where
  "set_con c f w = w\<lparr>constrs := (constrs w)[c := f (con w c)]\<rparr>"

definition print :: "string \<Rightarrow> world \<Rightarrow> world" where
  "print s w = w\<lparr>printed := printed w @ [s]\<rparr>"

definition new_variable :: "string \<Rightarrow> int \<Rightarrow> world \<Rightarrow> nat \<times> world" where
  "new_variable n x w = (length (variables w), w\<lparr>variables := variables w @ [Variable n x]\<rparr>)"

definition set_mark :: "nat \<Rightarrow> int \<Rightarrow> world \<Rightarrow> world" where
  "set_mark v m = set_var v (\<lambda>x. x\<lparr>vmark := m\<rparr>)"

section \<open>Constraints\<close>

text \<open>\<open>add_constraint\<close> and \<open>remove_constraint\<close> of a variable.\<close>

definition attach :: "nat \<Rightarrow> nat \<Rightarrow> world \<Rightarrow> world" where
  "attach c v = set_var v (\<lambda>x. x\<lparr>constraints := constraints x @ [c]\<rparr>)"

definition detach :: "nat \<Rightarrow> nat \<Rightarrow> world \<Rightarrow> world result" where
  "detach c v w =
     (if c \<in> set (constraints (var w v))
      then Inr (set_var v (\<lambda>x. x\<lparr>constraints := remove1 c (constraints x),
                                 determined_by := (if determined_by x = Some c then None else determined_by x)\<rparr>) w)
      else Inl ValueError)"

text \<open>
  The methods of \<open>UrnaryConstraint\<close>, \<open>BinaryConstraint\<close> and of the classes under them, one
  definition per class; each method name then dispatches on the class.
\<close>

subsection \<open>Unary constraints\<close>

definition urnary_add_to_graph :: "nat \<Rightarrow> nat \<Rightarrow> world \<Rightarrow> world" where
  [simp]: "urnary_add_to_graph c my_output w = set_con c (\<lambda>x. x\<lparr>satisfied := False\<rparr>) (attach c my_output w)"

definition urnary_choose_method :: "nat \<Rightarrow> nat \<Rightarrow> int \<Rightarrow> world \<Rightarrow> world" where
  [simp]: "urnary_choose_method c my_output mark w =
     (if vmark (var w my_output) \<noteq> mark \<and> stronger (strength (con w c)) (walk_strength (var w my_output))
      then set_con c (\<lambda>x. x\<lparr>satisfied := True\<rparr>) w
      else set_con c (\<lambda>x. x\<lparr>satisfied := False\<rparr>) w)"

definition urnary_is_satisfied :: "world \<Rightarrow> nat \<Rightarrow> bool" where
  [simp]: "urnary_is_satisfied w c = satisfied (con w c)"

definition urnary_mark_inputs :: "nat \<Rightarrow> int \<Rightarrow> world \<Rightarrow> world" where
  [simp]: "urnary_mark_inputs c mark w = w"

definition urnary_output :: "nat \<Rightarrow> nat" where
  [simp]: "urnary_output my_output = my_output"

definition urnary_mark_unsatisfied :: "nat \<Rightarrow> world \<Rightarrow> world" where
  [simp]: "urnary_mark_unsatisfied c w = set_con c (\<lambda>x. x\<lparr>satisfied := False\<rparr>) w"

definition urnary_inputs_known :: "world \<Rightarrow> nat \<Rightarrow> int \<Rightarrow> bool" where
  [simp]: "urnary_inputs_known w c mark = True"

definition urnary_remove_from_graph :: "nat \<Rightarrow> nat \<Rightarrow> world \<Rightarrow> world result" where
  [simp]: "urnary_remove_from_graph c my_output w =
     rbind (detach c my_output w) (\<lambda>w. Inr (set_con c (\<lambda>x. x\<lparr>satisfied := False\<rparr>) w))"

text \<open>\<open>execute\<close> of a stay and of an edit constraint.\<close>

definition stay_execute :: "world \<Rightarrow> world result" where
  [simp]: "stay_execute w = Inr w"

definition edit_execute :: "world \<Rightarrow> world result" where
  [simp]: "edit_execute w = Inr w"

definition edit_is_input :: bool where
  [simp]: "edit_is_input = True"

definition base_is_input :: bool where
  [simp]: "base_is_input = False"

subsection \<open>Binary constraints\<close>

definition binary_add_to_graph :: "nat \<Rightarrow> nat \<Rightarrow> nat \<Rightarrow> world \<Rightarrow> world" where
  [simp]: "binary_add_to_graph c v1 v2 w = set_con c (\<lambda>x. x\<lparr>direction := NONE\<rparr>) (attach c v2 (attach c v1 w))"

text \<open>The three decisions of \<open>BinaryConstraint.choose_method\<close>, in the order of the source.\<close>

definition binary_method :: "world \<Rightarrow> strength \<Rightarrow> nat \<Rightarrow> nat \<Rightarrow> int \<Rightarrow> direction \<Rightarrow> direction" where
  "binary_method w s v1 v2 mark d =
     (let d = (if vmark (var w v1) = mark
               then if vmark (var w v2) \<noteq> mark \<and> stronger s (walk_strength (var w v2)) then FORWARD else BACKWARD
               else d);
          d = (if vmark (var w v2) = mark
               then if vmark (var w v1) \<noteq> mark \<and> stronger s (walk_strength (var w v1)) then BACKWARD else NONE
               else d)
      in if weaker (walk_strength (var w v1)) (walk_strength (var w v2))
         then if stronger s (walk_strength (var w v1)) then BACKWARD else NONE
         else if stronger s (walk_strength (var w v2)) then FORWARD else BACKWARD)"

definition binary_choose_method :: "nat \<Rightarrow> nat \<Rightarrow> nat \<Rightarrow> int \<Rightarrow> world \<Rightarrow> world" where
  [simp]: "binary_choose_method c v1 v2 mark w =
     set_con c (\<lambda>x. x\<lparr>direction := binary_method w (strength (con w c)) v1 v2 mark (direction (con w c))\<rparr>) w"

definition binary_is_satisfied :: "world \<Rightarrow> nat \<Rightarrow> bool" where
  [simp]: "binary_is_satisfied w c \<longleftrightarrow> direction (con w c) \<noteq> NONE"

definition binary_input :: "world \<Rightarrow> nat \<Rightarrow> nat \<Rightarrow> nat \<Rightarrow> nat" where
  [simp]: "binary_input w c v1 v2 = (if direction (con w c) = FORWARD then v1 else v2)"

definition binary_output :: "world \<Rightarrow> nat \<Rightarrow> nat \<Rightarrow> nat \<Rightarrow> nat" where
  [simp]: "binary_output w c v1 v2 = (if direction (con w c) = FORWARD then v2 else v1)"

definition binary_mark_inputs :: "nat \<Rightarrow> nat \<Rightarrow> nat \<Rightarrow> int \<Rightarrow> world \<Rightarrow> world" where
  [simp]: "binary_mark_inputs c v1 v2 mark w = set_mark (binary_input w c v1 v2) mark w"

definition binary_mark_unsatisfied :: "nat \<Rightarrow> world \<Rightarrow> world" where
  [simp]: "binary_mark_unsatisfied c w = set_con c (\<lambda>x. x\<lparr>direction := NONE\<rparr>) w"

definition binary_inputs_known :: "world \<Rightarrow> nat \<Rightarrow> nat \<Rightarrow> nat \<Rightarrow> int \<Rightarrow> bool" where
  [simp]: "binary_inputs_known w c v1 v2 mark \<longleftrightarrow>
     (let i = var w (binary_input w c v1 v2) in vmark i = mark \<or> stay i \<or> determined_by i = None)"

definition binary_remove_from_graph :: "nat \<Rightarrow> nat \<Rightarrow> nat \<Rightarrow> world \<Rightarrow> world result" where
  [simp]: "binary_remove_from_graph c v1 v2 w =
     rbind (detach c v1 w) (\<lambda>w. rbind (detach c v2 w) (\<lambda>w. Inr (set_con c (\<lambda>x. x\<lparr>direction := NONE\<rparr>) w)))"

subsection \<open>Scale and equality constraints\<close>

definition scale_add_to_graph :: "nat \<Rightarrow> nat \<Rightarrow> nat \<Rightarrow> nat \<Rightarrow> nat \<Rightarrow> world \<Rightarrow> world" where
  [simp]: "scale_add_to_graph c v1 s off v2 w = attach c off (attach c s (binary_add_to_graph c v1 v2 w))"

definition scale_remove_from_graph :: "nat \<Rightarrow> nat \<Rightarrow> nat \<Rightarrow> nat \<Rightarrow> nat \<Rightarrow> world \<Rightarrow> world result" where
  [simp]: "scale_remove_from_graph c v1 s off v2 w =
     rbind (binary_remove_from_graph c v1 v2 w) (\<lambda>w. rbind (detach c s w) (detach c off))"

definition scale_mark_inputs :: "nat \<Rightarrow> nat \<Rightarrow> nat \<Rightarrow> nat \<Rightarrow> nat \<Rightarrow> int \<Rightarrow> world \<Rightarrow> world" where
  [simp]: "scale_mark_inputs c v1 s off v2 mark w = set_mark off mark (set_mark s mark (binary_mark_inputs c v1 v2 mark w))"

text \<open>\<open>/\<close> of two ints rounds down, as in the Python 2 the file is written for.\<close>

definition scale_execute :: "nat \<Rightarrow> nat \<Rightarrow> nat \<Rightarrow> nat \<Rightarrow> nat \<Rightarrow> world \<Rightarrow> world result" where
  [simp]: "scale_execute c v1 s off v2 w =
     (if direction (con w c) = FORWARD
      then Inr (set_var v2 (\<lambda>x. x\<lparr>val := val (var w v1) * val (var w s) + val (var w off)\<rparr>) w)
      else if val (var w s) = 0 then Inl ZeroDivisionError
      else Inr (set_var v1 (\<lambda>x. x\<lparr>val := (val (var w v2) - val (var w off)) div val (var w s)\<rparr>) w))"

definition equality_execute :: "nat \<Rightarrow> nat \<Rightarrow> nat \<Rightarrow> world \<Rightarrow> world result" where
  [simp]: "equality_execute c v1 v2 w =
     Inr (set_var (binary_output w c v1 v2) (\<lambda>x. x\<lparr>val := val (var w (binary_input w c v1 v2))\<rparr>) w)"

subsection \<open>Dispatch on the class\<close>

definition add_to_graph :: "nat \<Rightarrow> world \<Rightarrow> world" where
  "add_to_graph c w = (case kind (con w c) of
     StayConstraint v \<Rightarrow> urnary_add_to_graph c v w
   | EditConstraint v \<Rightarrow> urnary_add_to_graph c v w
   | EqualityConstraint v1 v2 \<Rightarrow> binary_add_to_graph c v1 v2 w
   | ScaleConstraint v1 s off v2 \<Rightarrow> scale_add_to_graph c v1 s off v2 w)"

definition is_satisfied :: "world \<Rightarrow> nat \<Rightarrow> bool" where
  "is_satisfied w c = (case kind (con w c) of
     StayConstraint v \<Rightarrow> urnary_is_satisfied w c
   | EditConstraint v \<Rightarrow> urnary_is_satisfied w c
   | _ \<Rightarrow> binary_is_satisfied w c)"

definition is_input :: "world \<Rightarrow> nat \<Rightarrow> bool" where
  "is_input w c = (case kind (con w c) of EditConstraint v \<Rightarrow> edit_is_input | _ \<Rightarrow> base_is_input)"

definition output_of :: "world \<Rightarrow> nat \<Rightarrow> nat" where
  "output_of w c = (case kind (con w c) of
     StayConstraint v \<Rightarrow> urnary_output v
   | EditConstraint v \<Rightarrow> urnary_output v
   | EqualityConstraint v1 v2 \<Rightarrow> binary_output w c v1 v2
   | ScaleConstraint v1 s off v2 \<Rightarrow> binary_output w c v1 v2)"

definition choose_method :: "nat \<Rightarrow> int \<Rightarrow> world \<Rightarrow> world" where
  "choose_method c mark w = (case kind (con w c) of
     StayConstraint v \<Rightarrow> urnary_choose_method c v mark w
   | EditConstraint v \<Rightarrow> urnary_choose_method c v mark w
   | EqualityConstraint v1 v2 \<Rightarrow> binary_choose_method c v1 v2 mark w
   | ScaleConstraint v1 sc off v2 \<Rightarrow> binary_choose_method c v1 v2 mark w)"

definition mark_inputs :: "nat \<Rightarrow> int \<Rightarrow> world \<Rightarrow> world" where
  "mark_inputs c mark w = (case kind (con w c) of
     StayConstraint v \<Rightarrow> urnary_mark_inputs c mark w
   | EditConstraint v \<Rightarrow> urnary_mark_inputs c mark w
   | EqualityConstraint v1 v2 \<Rightarrow> binary_mark_inputs c v1 v2 mark w
   | ScaleConstraint v1 s off v2 \<Rightarrow> scale_mark_inputs c v1 s off v2 mark w)"

definition mark_unsatisfied :: "nat \<Rightarrow> world \<Rightarrow> world" where
  "mark_unsatisfied c w = (case kind (con w c) of
     StayConstraint v \<Rightarrow> urnary_mark_unsatisfied c w
   | EditConstraint v \<Rightarrow> urnary_mark_unsatisfied c w
   | _ \<Rightarrow> binary_mark_unsatisfied c w)"

definition inputs_known :: "world \<Rightarrow> nat \<Rightarrow> int \<Rightarrow> bool" where
  "inputs_known w c mark = (case kind (con w c) of
     StayConstraint v \<Rightarrow> urnary_inputs_known w c mark
   | EditConstraint v \<Rightarrow> urnary_inputs_known w c mark
   | EqualityConstraint v1 v2 \<Rightarrow> binary_inputs_known w c v1 v2 mark
   | ScaleConstraint v1 s off v2 \<Rightarrow> binary_inputs_known w c v1 v2 mark)"

definition execute :: "nat \<Rightarrow> world \<Rightarrow> world result" where
  "execute c w = (case kind (con w c) of
     StayConstraint v \<Rightarrow> stay_execute w
   | EditConstraint v \<Rightarrow> edit_execute w
   | EqualityConstraint v1 v2 \<Rightarrow> equality_execute c v1 v2 w
   | ScaleConstraint v1 s off v2 \<Rightarrow> scale_execute c v1 s off v2 w)"

text \<open>\<open>recalculate\<close>, which calls \<open>execute\<close> and \<open>is_input\<close> of the class.\<close>

definition urnary_recalculate :: "nat \<Rightarrow> nat \<Rightarrow> world \<Rightarrow> world result" where
  [simp]: "urnary_recalculate c my_output w =
     (let w = set_var my_output (\<lambda>x. x\<lparr>walk_strength := strength (con w c)\<rparr>) w;
          w = set_var my_output (\<lambda>x. x\<lparr>stay := \<not> is_input w c\<rparr>) w
      in if stay (var w my_output) then execute c w else Inr w)"

definition binary_recalculate :: "nat \<Rightarrow> nat \<Rightarrow> nat \<Rightarrow> world \<Rightarrow> world result" where
  [simp]: "binary_recalculate c v1 v2 w =
     (let ihn = binary_input w c v1 v2; out = binary_output w c v1 v2;
          w = set_var out (\<lambda>x. x\<lparr>walk_strength := weakest_of (strength (con w c)) (walk_strength (var w ihn))\<rparr>) w;
          w = set_var out (\<lambda>x. x\<lparr>stay := stay (var w ihn)\<rparr>) w
      in if stay (var w out) then execute c w else Inr w)"

definition scale_recalculate :: "nat \<Rightarrow> nat \<Rightarrow> nat \<Rightarrow> nat \<Rightarrow> nat \<Rightarrow> world \<Rightarrow> world result" where
  [simp]: "scale_recalculate c v1 s off v2 w =
     (let ihn = binary_input w c v1 v2; out = binary_output w c v1 v2;
          w = set_var out (\<lambda>x. x\<lparr>walk_strength := weakest_of (strength (con w c)) (walk_strength (var w ihn))\<rparr>) w;
          w = set_var out (\<lambda>x. x\<lparr>stay := stay (var w ihn) \<and> stay (var w s) \<and> stay (var w off)\<rparr>) w
      in if stay (var w out) then execute c w else Inr w)"

definition recalculate :: "nat \<Rightarrow> world \<Rightarrow> world result" where
  "recalculate c w = (case kind (con w c) of
     StayConstraint v \<Rightarrow> urnary_recalculate c v w
   | EditConstraint v \<Rightarrow> urnary_recalculate c v w
   | EqualityConstraint v1 v2 \<Rightarrow> binary_recalculate c v1 v2 w
   | ScaleConstraint v1 s off v2 \<Rightarrow> scale_recalculate c v1 s off v2 w)"

definition remove_from_graph :: "nat \<Rightarrow> world \<Rightarrow> world result" where
  "remove_from_graph c w = (case kind (con w c) of
     StayConstraint v \<Rightarrow> urnary_remove_from_graph c v w
   | EditConstraint v \<Rightarrow> urnary_remove_from_graph c v w
   | EqualityConstraint v1 v2 \<Rightarrow> binary_remove_from_graph c v1 v2 w
   | ScaleConstraint v1 s off v2 \<Rightarrow> scale_remove_from_graph c v1 s off v2 w)"

section \<open>The planner\<close>

definition new_mark :: "world \<Rightarrow> int \<times> world" where
  "new_mark w = (let m = current_mark w + 1 in (m, w\<lparr>current_mark := m\<rparr>))"

text \<open>What \<open>add_constraints_consuming_to\<close> appends.\<close>

definition consuming :: "world \<Rightarrow> nat \<Rightarrow> nat list" where
  "consuming w v = filter (\<lambda>c. Some c \<noteq> determined_by (var w v) \<and> is_satisfied w c) (constraints (var w v))"

definition unsatisfied_at :: "world \<Rightarrow> nat \<Rightarrow> nat list" where
  "unsatisfied_at w v = filter (\<lambda>c. \<not> is_satisfied w c) (constraints (var w v))"

text \<open>
  The two loops over \<open>v.constraints\<close> in \<open>remove_propagate_from\<close>: the second one recalculates,
  and tests each constraint in the world its predecessors have left.
\<close>

definition repropagate :: "nat \<Rightarrow> world \<times> nat list \<Rightarrow> (world \<times> nat list) result" where
  "repropagate v = (\<lambda>(w, todo). for_each (constraints (var w v)) (\<lambda>c (w', todo).
     if Some c \<noteq> determined_by (var w v) \<and> is_satisfied w' c
     then rbind (recalculate c w') (\<lambda>w'. Inr (w', todo @ [output_of w' c]))
     else Inr (w', todo)) (w, todo))"

fun remove_loop :: "nat \<Rightarrow> nat list \<Rightarrow> nat list \<Rightarrow> world \<Rightarrow> (nat list \<times> world) result" where
  "remove_loop fuel [] unsatisfied w = Inr (unsatisfied, w)"
| "remove_loop 0 (v # todo) unsatisfied w = Inl OutOfFuel"
| "remove_loop (Suc fuel) (v # todo) unsatisfied w =
     rbind (repropagate v (w, todo)) (\<lambda>(w', todo).
       remove_loop fuel todo (unsatisfied @ unsatisfied_at w v) w')"

definition remove_propagate_from :: "nat \<Rightarrow> nat \<Rightarrow> world \<Rightarrow> (nat list \<times> world) result" where
  "remove_propagate_from fuel out w =
     remove_loop fuel [out] []
       (set_var out (\<lambda>x. x\<lparr>determined_by := None, walk_strength := WEAKEST, stay := True\<rparr>) w)"

text \<open>
  \<open>satisfy\<close>, \<open>add_propagate\<close> and \<open>incremental_add\<close> reach \<open>incremental_remove\<close>, which calls
  \<open>incremental_add\<close>: they take it as the argument \<open>rem\<close>, and \<open>incremental_remove\<close> ties the
  knot, its fuel bounding how deep the calls nest.
\<close>

fun add_propagate :: "(nat \<Rightarrow> world \<Rightarrow> world result) \<Rightarrow> nat \<Rightarrow> nat list \<Rightarrow> nat \<Rightarrow> int \<Rightarrow> world \<Rightarrow> (bool \<times> world) result" where
  "add_propagate rem fuel [] c mark w = Inr (True, w)"
| "add_propagate rem 0 (d # todo) c mark w = Inl OutOfFuel"
| "add_propagate rem (Suc fuel) (d # todo) c mark w =
     (if vmark (var w (output_of w d)) = mark
      then rbind (rem c w) (\<lambda>w. Inr (False, w))
      else rbind (recalculate d w) (\<lambda>w. add_propagate rem fuel (todo @ consuming w (output_of w d)) c mark w))"

definition satisfy :: "(nat \<Rightarrow> world \<Rightarrow> world result) \<Rightarrow> nat \<Rightarrow> nat \<Rightarrow> int \<Rightarrow> world \<Rightarrow> (nat option \<times> world) result" where
  "satisfy rem fuel c mark w =
     (let w = choose_method c mark w in
      if \<not> is_satisfied w c
      then Inr (None, if strength (con w c) = REQUIRED then print ''Could not satisfy a required constraint!'' w else w)
      else
        let w = mark_inputs c mark w; out = output_of w c; overridden = determined_by (var w out);
            w = (case overridden of None \<Rightarrow> w | Some d \<Rightarrow> mark_unsatisfied d w);
            w = set_var out (\<lambda>x. x\<lparr>determined_by := Some c\<rparr>) w
        in rbind (add_propagate rem fuel [c] c mark w) (\<lambda>(ok, w).
             Inr (overridden, set_mark out mark (if ok then w else print ''Cycle encountered'' w))))"

fun overridden_loop :: "(nat \<Rightarrow> world \<Rightarrow> world result) \<Rightarrow> nat \<Rightarrow> nat option \<Rightarrow> int \<Rightarrow> world \<Rightarrow> world result" where
  "overridden_loop rem fuel None mark w = Inr w"
| "overridden_loop rem 0 (Some c) mark w = Inl OutOfFuel"
| "overridden_loop rem (Suc fuel) (Some c) mark w =
     rbind (satisfy rem fuel c mark w) (\<lambda>(overridden, w). overridden_loop rem fuel overridden mark w)"

definition incremental_add :: "(nat \<Rightarrow> world \<Rightarrow> world result) \<Rightarrow> nat \<Rightarrow> nat \<Rightarrow> world \<Rightarrow> world result" where
  "incremental_add rem fuel c w =
     (let (mark, w) = new_mark w in
      rbind (satisfy rem fuel c mark w) (\<lambda>(overridden, w). overridden_loop rem fuel overridden mark w))"

text \<open>
  The re-adding of what is unsatisfied: one pass of the \<open>for\<close>, with \<open>strength\<close> made weaker in
  every turn of it, and the \<open>while\<close> around it.
\<close>

fun readd_pass :: "(nat \<Rightarrow> world \<Rightarrow> world result) \<Rightarrow> nat list \<Rightarrow> strength \<Rightarrow> world \<Rightarrow> (strength \<times> world) result" where
  "readd_pass add [] s w = Inr (s, w)"
| "readd_pass add (u # us) s w =
     rbind (if strength (con w u) = s then add u w else Inr w) (\<lambda>w.
     rbind (next_weaker s) (\<lambda>s. readd_pass add us s w))"

fun readd_loop :: "(nat \<Rightarrow> world \<Rightarrow> world result) \<Rightarrow> nat \<Rightarrow> nat list \<Rightarrow> strength \<Rightarrow> world \<Rightarrow> world result" where
  "readd_loop add 0 unsatisfied s w = Inl OutOfFuel"
| "readd_loop add (Suc fuel) unsatisfied s w =
     rbind (readd_pass add unsatisfied s w) (\<lambda>(s, w).
       if s \<noteq> WEAKEST then readd_loop add fuel unsatisfied s w else Inr w)"

primrec incremental_remove :: "nat \<Rightarrow> nat \<Rightarrow> world \<Rightarrow> world result" where
  "incremental_remove 0 = (\<lambda>c w. Inl OutOfFuel)"
| "incremental_remove (Suc fuel) = (\<lambda>c w.
     let out = output_of w c; w = mark_unsatisfied c w in
     rbind (remove_from_graph c w) (\<lambda>w.
     rbind (remove_propagate_from fuel out w) (\<lambda>(unsatisfied, w).
     readd_loop (incremental_add (incremental_remove fuel) fuel) fuel unsatisfied REQUIRED w)))"

text \<open>The constructors of the constraints end with \<open>add_constraint\<close>.\<close>

definition add_constraint :: "nat \<Rightarrow> nat \<Rightarrow> world \<Rightarrow> world result" where
  "add_constraint fuel c w = incremental_add (incremental_remove fuel) fuel c (add_to_graph c w)"

definition new_constraint :: "nat \<Rightarrow> kind \<Rightarrow> strength \<Rightarrow> world \<Rightarrow> (nat \<times> world) result" where
  "new_constraint fuel k s w =
     (let c = length (constrs w) in
      rbind (add_constraint fuel c (w\<lparr>constrs := constrs w @ [\<lparr>strength = s, kind = k, satisfied = False, direction = NONE\<rparr>]\<rparr>))
        (\<lambda>w. Inr (c, w)))"

definition destroy_constraint :: "nat \<Rightarrow> nat \<Rightarrow> world \<Rightarrow> world result" where
  "destroy_constraint fuel c w = (if is_satisfied w c then incremental_remove fuel c w else remove_from_graph c w)"

section \<open>Plans\<close>

fun plan_loop :: "nat \<Rightarrow> int \<Rightarrow> nat list \<Rightarrow> nat list \<Rightarrow> world \<Rightarrow> (nat list \<times> world) result" where
  "plan_loop fuel mark [] plan w = Inr (plan, w)"
| "plan_loop 0 mark (c # todo) plan w = Inl OutOfFuel"
| "plan_loop (Suc fuel) mark (c # todo) plan w =
     (if vmark (var w (output_of w c)) \<noteq> mark \<and> inputs_known w c mark
      then let out = output_of w c; w = set_mark out mark w
           in plan_loop fuel mark (todo @ consuming w out) (plan @ [c]) w
      else plan_loop fuel mark todo plan w)"

definition make_plan :: "nat \<Rightarrow> nat list \<Rightarrow> world \<Rightarrow> (nat list \<times> world) result" where
  "make_plan fuel sources w = (let (mark, w) = new_mark w in plan_loop fuel mark sources [] w)"

definition extract_plan_from_constraints :: "nat \<Rightarrow> nat list \<Rightarrow> world \<Rightarrow> (nat list \<times> world) result" where
  "extract_plan_from_constraints fuel cs w = make_plan fuel (filter (\<lambda>c. is_input w c \<and> is_satisfied w c) cs) w"

definition execute_plan :: "nat list \<Rightarrow> world \<Rightarrow> world result" where
  "execute_plan plan = for_each plan execute"

section \<open>The tests\<close>

definition set_value :: "nat \<Rightarrow> int \<Rightarrow> world \<Rightarrow> world" where
  "set_value v x = set_var v (\<lambda>y. y\<lparr>val := x\<rparr>)"

text \<open>One variable of the chain; the state is the world and \<open>prev\<close>.\<close>

definition chain_link :: "nat \<Rightarrow> nat \<Rightarrow> world \<times> nat option \<Rightarrow> (world \<times> nat option) result" where
  "chain_link fuel i = (\<lambda>(w, prev).
     let (v, w) = new_variable (CHR ''v'' # py_str (int i)) 0 w in
     rbind (case prev of None \<Rightarrow> Inr w
            | Some p \<Rightarrow> rbind (new_constraint fuel (EqualityConstraint p v) REQUIRED w) (\<lambda>(c, w). Inr w))
       (\<lambda>w. Inr (w, Some v)))"

definition chain_turn :: "nat list \<Rightarrow> nat \<Rightarrow> nat \<Rightarrow> nat \<Rightarrow> world \<Rightarrow> world result" where
  "chain_turn plan fst_v lst_v i w =
     rbind (execute_plan plan (set_value fst_v (int i) w)) (\<lambda>w.
       Inr (if val (var w lst_v) \<noteq> int i then print ''Chain test failed.'' w else w))"

definition chain_test :: "nat \<Rightarrow> nat \<Rightarrow> world result" where
  "chain_test fuel n =
     rbind (for_each [0..<n + 1] (chain_link fuel) (Planner, None)) (\<lambda>(w, prev).
     let fst_v = 0; lst_v = n in
     rbind (new_constraint fuel (StayConstraint lst_v) STRONG_DEFAULT w) (\<lambda>(c, w).
     rbind (new_constraint fuel (EditConstraint fst_v) PREFERRED w) (\<lambda>(edit, w).
     rbind (extract_plan_from_constraints fuel [edit] w) (\<lambda>(plan, w).
     for_each [0..<100] (chain_turn plan fst_v lst_v) w))))"

definition change_turn :: "nat list \<Rightarrow> nat \<Rightarrow> int \<Rightarrow> nat \<Rightarrow> world \<Rightarrow> world result" where
  "change_turn plan v new_value i w = execute_plan plan (set_value v new_value w)"

definition change :: "nat \<Rightarrow> nat \<Rightarrow> int \<Rightarrow> world \<Rightarrow> world result" where
  "change fuel v new_value w =
     rbind (new_constraint fuel (EditConstraint v) PREFERRED w) (\<lambda>(edit, w).
     rbind (extract_plan_from_constraints fuel [edit] w) (\<lambda>(plan, w).
     rbind (for_each [0..<10] (change_turn plan v new_value) w) (destroy_constraint fuel edit)))"

definition check_dests :: "string \<Rightarrow> nat list \<Rightarrow> nat \<Rightarrow> (int \<Rightarrow> int) \<Rightarrow> world \<Rightarrow> world result" where
  "check_dests msg dests n f = for_each [0..<n - 1] (\<lambda>i w.
     Inr (if val (var w (dests ! i)) \<noteq> f (int i) then print msg w else w))"

text \<open>One pair of the projection; the state is the world, the last \<open>src\<close> and \<open>dst\<close>, and \<open>dests\<close>.\<close>

definition projection_pair :: "nat \<Rightarrow> nat \<Rightarrow> nat \<Rightarrow> nat \<Rightarrow> world \<times> (nat \<times> nat) option \<times> nat list \<Rightarrow>
    (world \<times> (nat \<times> nat) option \<times> nat list) result" where
  "projection_pair fuel scale offset i = (\<lambda>(w, _, dests).
     let (src, w) = new_variable (''src'' @ py_str (int i)) (int i) w;
         (dst, w) = new_variable (''dst'' @ py_str (int i)) (int i) w;
         dests = dests @ [dst] in
     rbind (new_constraint fuel (StayConstraint src) NORMAL w) (\<lambda>(c, w).
     rbind (new_constraint fuel (ScaleConstraint src scale offset dst) REQUIRED w) (\<lambda>(c, w).
     Inr (w, Some (src, dst), dests))))"

text \<open>With \<open>n = 0\<close> there is no \<open>src\<close>: the constraint on it reads an attribute of \<open>None\<close>.\<close>

definition projection_test :: "nat \<Rightarrow> nat \<Rightarrow> world result" where
  "projection_test fuel n =
     (let (scale, w) = new_variable ''scale'' 10 Planner;
          (offset, w) = new_variable ''offset'' 1000 w in
      rbind (for_each [0..<n] (projection_pair fuel scale offset) (w, None, [])) (\<lambda>(w, pair, dests).
      case pair of None \<Rightarrow> Inl AttributeError
      | Some (src, dst) \<Rightarrow>
        rbind (change fuel src 17 w) (\<lambda>w.
        let w = (if val (var w dst) \<noteq> 1170 then print ''Projection 1 failed'' w else w) in
        rbind (change fuel dst 1050 w) (\<lambda>w.
        let w = (if val (var w src) \<noteq> 5 then print ''Projection 2 failed'' w else w) in
        rbind (change fuel scale 5 w) (\<lambda>w.
        rbind (check_dests ''Projection 3 failed'' dests n (\<lambda>i. i * 5 + 1000) w) (\<lambda>w.
        rbind (change fuel offset 2000 w)
          (check_dests ''Projection 4 failed'' dests n (\<lambda>i. i * 5 + 2000))))))))"

definition delta_blue :: "nat \<Rightarrow> (world \<times> world) result" where
  "delta_blue fuel = rbind (chain_test fuel 100) (\<lambda>w1. rbind (projection_test fuel 100) (\<lambda>w2. Inr (w1, w2)))"

end
