(* ===== verification/DeltaChain.thy ===== *)
theory DeltaChain
  imports DeltaBlue
begin

text \<open>
  The chain test of the solver, for a chain of any length: what one satisfied equality does to
  the world, the three sweeps over the chain (building it, the stay from the right, the edit from
  the left), the plan that is extracted, and what executing it gives.
\<close>

section \<open>The world, one field at a time\<close>

lemma world_simps [simp]:
  "variables (set_var v f w) = (variables w)[v := f (var w v)]" "constrs (set_var v f w) = constrs w"
  "current_mark (set_var v f w) = current_mark w" "printed (set_var v f w) = printed w"
  "constrs (set_con c g w) = (constrs w)[c := g (con w c)]" "variables (set_con c g w) = variables w"
  "current_mark (set_con c g w) = current_mark w" "printed (set_con c g w) = printed w"
  by (simp_all add: set_var_def set_con_def)

definition sat_con :: "constr \<Rightarrow> bool" where
  "sat_con x = (case kind x of StayConstraint v \<Rightarrow> satisfied x | EditConstraint v \<Rightarrow> satisfied x | _ \<Rightarrow> direction x \<noteq> NONE)"

lemma is_satisfied_con: "is_satisfied w c = sat_con (con w c)"
  by (cases "kind (con w c)") (simp_all add: is_satisfied_def sat_con_def)

definition unsat :: "constr \<Rightarrow> constr" where
  "unsat x = (case kind x of
     StayConstraint v \<Rightarrow> x\<lparr>satisfied := False\<rparr>
   | EditConstraint v \<Rightarrow> x\<lparr>satisfied := False\<rparr>
   | _ \<Rightarrow> x\<lparr>direction := NONE\<rparr>)"

lemma sat_unsat [simp]: "\<not> sat_con (unsat x)"
  by (cases "kind x") (simp_all add: sat_con_def unsat_def)

definition unsat_at :: "nat option \<Rightarrow> constr list \<Rightarrow> constr list" where
  "unsat_at e cs = (case e of None \<Rightarrow> cs | Some d \<Rightarrow> cs[d := unsat (cs ! d)])"

lemma unsat_at_simps [simp]:
  "unsat_at None cs = cs" "unsat_at (Some d) cs = cs[d := unsat (cs ! d)]" "length (unsat_at e cs) = length cs"
  by (simp_all add: unsat_at_def split: option.split)

lemma mark_unsatisfied_eq: "mark_unsatisfied c w = set_con c unsat w"
  by (cases "kind (con w c)") (simp_all add: mark_unsatisfied_def unsat_def set_con_def)

definition eq_link :: "nat \<Rightarrow> nat \<Rightarrow> direction \<Rightarrow> constr" where
  "eq_link a b d = \<lparr>strength = REQUIRED, kind = EqualityConstraint a b, satisfied = False, direction = d\<rparr>"

lemma eq_link_simps [simp]:
  "strength (eq_link a b d) = REQUIRED" "kind (eq_link a b d) = EqualityConstraint a b" "direction (eq_link a b d) = d"
  "(eq_link a b d)\<lparr>direction := d'\<rparr> = eq_link a b d'" "unsat (eq_link a b d) = eq_link a b NONE"
  "sat_con (eq_link a b d) \<longleftrightarrow> d \<noteq> NONE"
  by (simp_all add: eq_link_def unsat_def sat_con_def)

text \<open>A constraint whose output no other satisfied constraint reads is all that is propagated.\<close>

lemma add_propagate_last:
  assumes "vmark (var w (output_of w c)) \<noteq> mark" and "recalculate c w = Inr w'" and "consuming w' (output_of w' c) = []"
  shows "add_propagate rem (Suc f) [c] c mark w = Inr (True, w')"
  using assms by simp

lemma max_REQUIRED [simp]: "weakest_of REQUIRED s = s"
  by (cases s) (simp_all add: weakest_of_def weaker_def)

lemma recalculate_link:
  assumes "con w c = eq_link a b d" and "i = binary_input w c a b" and "out = output_of w c" and "out < length (variables w)" and "i \<noteq> out"
  shows "recalculate c w = Inr (w\<lparr>variables := (variables w)[out := (var w out)\<lparr>walk_strength := walk_strength (var w i),
           stay := stay (var w i), val := (if stay (var w i) then val (var w i) else val (var w out))\<rparr>]\<rparr>)"
  using assms by (simp add: recalculate_def execute_def set_var_def Let_def output_of_def)

lemma satisfy_link:
  assumes k: "con w c = eq_link a b d0"
    and c: "c < length (constrs w)" and a: "a < length (variables w)" and b: "b < length (variables w)" and ab: "a \<noteq> b"
    and d: "binary_method w REQUIRED a b mark d0 = d" "d \<noteq> NONE"
    and io: "i = (if d = FORWARD then a else b)" "out = (if d = FORWARD then b else a)"
    and mk: "vmark (var w out) \<noteq> mark"
    and det: "determined_by (var w out) = e" "e \<noteq> Some c"
    and others: "\<And>c'. c' \<in> set (constraints (var w out)) \<Longrightarrow> c' = c \<or> e = Some c' \<or> \<not> is_satisfied w c'"
    and lens: "\<And>e'. e = Some e' \<Longrightarrow> e' < length (constrs w)"
  shows "satisfy rem (Suc f) c mark w = Inr (e,
    w\<lparr>constrs := unsat_at e ((constrs w)[c := eq_link a b d]),
      variables := (variables w)[i := (var w i)\<lparr>vmark := mark\<rparr>,
        out := (var w out)\<lparr>determined_by := Some c, walk_strength := walk_strength (var w i), stay := stay (var w i),
                 val := (if stay (var w i) then val (var w i) else val (var w out)), vmark := mark\<rparr>]\<rparr>)"
proof -
  let ?cs = "(constrs w)[c := eq_link a b d]"
  let ?w1 = "w\<lparr>constrs := ?cs\<rparr>"
  let ?vs = "(variables w)[i := (var w i)\<lparr>vmark := mark\<rparr>, out := (var w out)\<lparr>determined_by := Some c\<rparr>]"
  let ?w2 = "w\<lparr>constrs := unsat_at e ?cs, variables := ?vs\<rparr>"
  let ?vs' = "(variables w)[i := (var w i)\<lparr>vmark := mark\<rparr>, out := (var w out)\<lparr>determined_by := Some c, walk_strength := walk_strength (var w i),
           stay := stay (var w i), val := (if stay (var w i) then val (var w i) else val (var w out))\<rparr>]"
  let ?w3 = "w\<lparr>constrs := unsat_at e ?cs, variables := ?vs'\<rparr>"
  have w1: "choose_method c mark w = ?w1"
    using k d by (simp add: choose_method_def set_con_def)
  have io': "i \<noteq> out" "out \<noteq> i" "i < length (variables w)" "out < length (variables w)"
    using io a b ab by auto
  have dir: "binary_input ?w1 c a b = i" "output_of ?w1 c = out" using io c by (auto simp: output_of_def)
  have link: "unsat_at e ?cs ! c = eq_link a b d"
    using det(2) c by (cases e) auto
  have dir2: "binary_input ?w2 c a b = i" "output_of ?w2 c = out" "output_of ?w3 c = out" using io link by (auto simp: output_of_def)
  have rcl: "recalculate c ?w2 = Inr ?w3"
    using io' link dir2 by (subst recalculate_link [where i = i and out = out]) auto
  have cns: "consuming ?w3 (output_of ?w3 c) = []"
  proof -
    have "\<not> sat_con (unsat_at e ?cs ! c')" if "c' \<in> set (constraints (var w out))" "c' \<noteq> c" for c'
      using others [OF that(1)] that(2) lens by (cases e) (auto simp: is_satisfied_con nth_list_update)
    then show ?thesis
      using io' dir2 by (auto simp: consuming_def is_satisfied_con filter_empty_conv)
  qed
  have prp: "add_propagate rem (Suc f) [c] c mark ?w2 = Inr (True, ?w3)"
    using mk io' dir2 cns by (intro add_propagate_last rcl) auto
  have step: "set_var out (\<lambda>x. x\<lparr>determined_by := Some c\<rparr>)
     (case e of None \<Rightarrow> set_mark i mark ?w1 | Some d \<Rightarrow> mark_unsatisfied d (set_mark i mark ?w1)) = ?w2"
    using io' by (cases e) (simp_all add: set_var_def set_mark_def mark_unsatisfied_eq set_con_def)
  have "is_satisfied ?w1 c" using c d by (simp add: is_satisfied_con)
  moreover have "mark_inputs c mark ?w1 = set_mark i mark ?w1" using c dir by (simp add: mark_inputs_def)
  moreover have "output_of (set_mark i mark ?w1) c = out" using io c by (auto simp: output_of_def set_mark_def)
  moreover have "determined_by (var (set_mark i mark ?w1) out) = e" using io' det by (simp add: set_mark_def)
  ultimately have "satisfy rem (Suc f) c mark w = Inr (e, set_mark out mark ?w3)"
    using prp step by (simp add: satisfy_def Let_def w1 del: add_propagate.simps)
  then show ?thesis using io' by (simp add: set_mark_def set_var_def list_update_swap)
qed

section \<open>Building the chain\<close>

definition chain :: "nat \<Rightarrow> (nat \<Rightarrow> nat list) \<Rightarrow> (nat \<Rightarrow> nat option) \<Rightarrow> (nat \<Rightarrow> strength) \<Rightarrow> (nat \<Rightarrow> bool) \<Rightarrow>
    (nat \<Rightarrow> direction) \<Rightarrow> world \<Rightarrow> bool" where
  "chain n u det ws st dir w \<longleftrightarrow> length (variables w) = Suc n \<and> printed w = [] \<and> n \<le> length (constrs w) \<and>
     (\<forall>j \<le> n. constraints (var w j) = u j \<and> determined_by (var w j) = det j \<and> walk_strength (var w j) = ws j \<and>
        stay (var w j) = st j) \<and>
     (\<forall>j < n. con w j = eq_link j (Suc j) (dir j))"

definition uses :: "nat \<Rightarrow> nat \<Rightarrow> nat list" where
  "uses n j = (if 0 < j then [j - 1] else []) @ (if j < n then [j] else [])"

definition left_of :: "nat \<Rightarrow> nat option" where
  "left_of j = (if j = 0 then None else Some (j - 1))"

definition built :: "nat \<Rightarrow> world \<Rightarrow> bool" where
  "built n w \<longleftrightarrow> chain n (uses n) left_of (\<lambda>_. WEAKEST) (\<lambda>_. True) (\<lambda>_. FORWARD) w \<and> length (constrs w) = n \<and> 0 \<le> current_mark w \<and>
     (\<forall>j \<le> n. vmark (var w j) \<le> current_mark w)"

lemma built_link:
  assumes "built n w"
  shows "\<exists>w'. chain_link (Suc f) (Suc n) (w, Some n) = Inr (w', Some (Suc n)) \<and> built (Suc n) w'"
proof -
  let ?x = "Variable (CHR ''v'' # py_str (int (Suc n))) 0"
  let ?m = "current_mark w + 1"
  let ?vs = "(variables w @ [?x])[n := (var w n)\<lparr>constraints := constraints (var w n) @ [n]\<rparr>, Suc n := ?x\<lparr>constraints := [n]\<rparr>]"
  let ?w = "w\<lparr>variables := ?vs, constrs := constrs w @ [eq_link n (Suc n) NONE], current_mark := ?m\<rparr>"
  have len: "length (variables w) = Suc n" "length (constrs w) = n"
    using assms by (auto simp: built_def chain_def)
  have upd: "(constrs w @ [x])[n := y] = constrs w @ [y]" for x y using len(2) by (simp add: list_update_append)
  have vn: "0 \<le> current_mark w" "vmark (var w n) \<noteq> ?m" "walk_strength (var w n) = WEAKEST"
    using assms by (auto simp: built_def chain_def)
  have start: "new_mark (add_to_graph n (w\<lparr>variables := variables w @ [?x],
      constrs := constrs w @ [\<lparr>strength = REQUIRED, kind = EqualityConstraint n (Suc n), satisfied = False, direction = NONE\<rparr>]\<rparr>)) = (?m, ?w)"
    using len by (simp add: upd new_mark_def add_to_graph_def attach_def set_var_def set_con_def eq_link_def nth_append Let_def Variable_def
      del: list_update_append)
  have sat: "satisfy rem (Suc f) n ?m ?w = Inr (None,
    ?w\<lparr>constrs := unsat_at None ((constrs ?w)[n := eq_link n (Suc n) FORWARD]),
      variables := (variables ?w)[n := (var ?w n)\<lparr>vmark := ?m\<rparr>,
        Suc n := (var ?w (Suc n))\<lparr>determined_by := Some n, walk_strength := walk_strength (var ?w n), stay := stay (var ?w n),
                 val := (if stay (var ?w n) then val (var ?w n) else val (var ?w (Suc n))), vmark := ?m\<rparr>]\<rparr>)" for rem
    using len vn
    by (intro satisfy_link [where a = n and b = "Suc n" and ?d0.0 = NONE])
      (auto simp: nth_append binary_method_def Variable_def stronger_def weaker_def nth_list_update)
  let ?w' = "?w\<lparr>constrs := (constrs ?w)[n := eq_link n (Suc n) FORWARD],
      variables := (variables ?w)[n := (var ?w n)\<lparr>vmark := ?m\<rparr>,
        Suc n := (var ?w (Suc n))\<lparr>determined_by := Some n, walk_strength := walk_strength (var ?w n), stay := stay (var ?w n),
                 val := (if stay (var ?w n) then val (var ?w n) else val (var ?w (Suc n))), vmark := ?m\<rparr>]\<rparr>"
  have "chain_link (Suc f) (Suc n) (w, Some n) = Inr (?w', Some (Suc n))"
    using sat start len by (simp add: chain_link_def new_variable_def new_constraint_def add_constraint_def incremental_add_def
      del: of_nat_Suc)
  moreover have "built (Suc n) ?w'"
    using assms by (auto simp: built_def chain_def upd uses_def left_of_def nth_append nth_list_update less_Suc_eq le_Suc_eq Variable_def)
  ultimately show ?thesis by blast
qed

section \<open>The stay sweeps to the left\<close>

definition unary_link :: "kind \<Rightarrow> strength \<Rightarrow> bool \<Rightarrow> constr" where
  "unary_link k s b = \<lparr>strength = s, kind = k, satisfied = b, direction = NONE\<rparr>"

lemma unary_link_simps [simp]:
  "strength (unary_link k s b) = s" "kind (unary_link k s b) = k" "satisfied (unary_link k s b) = b"
  "(unary_link k s b)\<lparr>satisfied := b'\<rparr> = unary_link k s b'"
  by (simp_all add: unary_link_def)

lemma satisfy_urnary:
  assumes k: "con w c = unary_link k s d0" "k = StayConstraint v \<or> k = EditConstraint v"
    and c: "c < length (constrs w)" and v: "v < length (variables w)"
    and st: "stronger s (walk_strength (var w v))" and mk: "vmark (var w v) \<noteq> mark"
    and det: "determined_by (var w v) = e" "e \<noteq> Some c" and lens: "\<And>e'. e = Some e' \<Longrightarrow> e' < length (constrs w)"
    and others: "\<And>c'. c' \<in> set (constraints (var w v)) \<Longrightarrow> c' = c \<or> e = Some c' \<or> \<not> is_satisfied w c'"
  shows "satisfy rem (Suc f) c mark w = Inr (e,
    w\<lparr>constrs := unsat_at e ((constrs w)[c := unary_link k s True]),
      variables := (variables w)[v := (var w v)\<lparr>determined_by := Some c, walk_strength := s, stay := (k = StayConstraint v), vmark := mark\<rparr>]\<rparr>)"
proof -
  let ?cs = "(constrs w)[c := unary_link k s True]"
  let ?w1 = "w\<lparr>constrs := ?cs\<rparr>"
  let ?w2 = "w\<lparr>constrs := unsat_at e ?cs, variables := (variables w)[v := (var w v)\<lparr>determined_by := Some c\<rparr>]\<rparr>"
  let ?w3 = "w\<lparr>constrs := unsat_at e ?cs, variables := (variables w)[v := (var w v)\<lparr>determined_by := Some c, walk_strength := s,
     stay := (k = StayConstraint v)\<rparr>]\<rparr>"
  have link: "unsat_at e ?cs ! c = unary_link k s True"
    using det(2) c by (cases e) auto
  have w1: "choose_method c mark w = ?w1"
    using k st mk by (auto simp: choose_method_def set_con_def)
  have sat: "is_satisfied ?w1 c" "mark_inputs c mark ?w1 = ?w1" "output_of ?w1 c = v" "output_of ?w2 c = v" "output_of ?w3 c = v"
    using k c link by (auto simp: is_satisfied_def mark_inputs_def output_of_def)
  have rcl: "recalculate c ?w2 = Inr ?w3"
    using k v link by (auto simp: recalculate_def execute_def is_input_def set_var_def Let_def)
  have cns: "consuming ?w3 v = []"
  proof -
    have "\<not> sat_con (unsat_at e ?cs ! c')" if "c' \<in> set (constraints (var w v))" "c' \<noteq> c" for c'
      using others [OF that(1)] that(2) lens by (cases e) (auto simp: is_satisfied_con nth_list_update)
    then show ?thesis using v by (auto simp: consuming_def is_satisfied_con filter_empty_conv)
  qed
  have prp: "add_propagate rem (Suc f) [c] c mark ?w2 = Inr (True, ?w3)"
    using mk v sat cns by (intro add_propagate_last rcl) auto
  have step: "set_var v (\<lambda>x. x\<lparr>determined_by := Some c\<rparr>) (case e of None \<Rightarrow> ?w1 | Some d \<Rightarrow> mark_unsatisfied d ?w1) = ?w2"
    using v by (cases e) (simp_all add: set_var_def mark_unsatisfied_eq set_con_def)
  have "satisfy rem (Suc f) c mark w = Inr (e, set_mark v mark ?w3)"
    using prp step sat det by (simp add: satisfy_def Let_def w1 del: add_propagate.simps)
  then show ?thesis using v by (simp add: set_mark_def set_var_def)
qed

definition swept :: "nat \<Rightarrow> int \<Rightarrow> nat \<Rightarrow> world \<Rightarrow> bool" where
  "swept n m k w \<longleftrightarrow>
     chain n (\<lambda>j. uses n j @ (if j = n then [n] else []))
       (\<lambda>j. if j = n then Some n else if k \<le> j then Some j else left_of j)
       (\<lambda>j. if k \<le> j then STRONG_DEFAULT else WEAKEST) (\<lambda>_. True)
       (\<lambda>j. if k \<le> j then BACKWARD else if Suc j = k then NONE else FORWARD) w \<and>
     length (constrs w) = Suc n \<and> con w n = unary_link (StayConstraint n) STRONG_DEFAULT True \<and>
     current_mark w = m \<and> (\<forall>j \<le> n. vmark (var w j) \<le> m \<and> (vmark (var w j) = m \<longleftrightarrow> k \<le> j))"

lemma swept_link:
  assumes "swept n m (Suc k) w" and "k < n"
  shows "\<exists>w'. satisfy rem (Suc f) k m w = Inr (left_of k, w') \<and> swept n m k w'"
proof -
  have len: "length (variables w) = Suc n" "length (constrs w) = Suc n" using assms by (auto simp: swept_def chain_def)
  have j: "constraints (var w j) = uses n j @ (if j = n then [n] else [])" "walk_strength (var w j) = (if Suc k \<le> j then STRONG_DEFAULT else WEAKEST)"
     "determined_by (var w j) = (if j = n then Some n else if Suc k \<le> j then Some j else left_of j)" "stay (var w j)"
     "vmark (var w j) = m \<longleftrightarrow> k < j" if "j \<le> n" for j
    using assms that by (auto simp: swept_def chain_def)
  have con: "con w j = eq_link j (Suc j) (if Suc k \<le> j then BACKWARD else if j = k then NONE else FORWARD)" if "j < n" for j
    using assms that by (auto simp: swept_def chain_def)
  let ?w' = "w\<lparr>constrs := unsat_at (left_of k) ((constrs w)[k := eq_link k (Suc k) BACKWARD]),
      variables := (variables w)[Suc k := (var w (Suc k))\<lparr>vmark := m\<rparr>,
        k := (var w k)\<lparr>determined_by := Some k, walk_strength := walk_strength (var w (Suc k)), stay := stay (var w (Suc k)),
                 val := (if stay (var w (Suc k)) then val (var w (Suc k)) else val (var w k)), vmark := m\<rparr>]\<rparr>"
  have sat: "satisfy rem (Suc f) k m w = Inr (left_of k, ?w')"
    using assms(2) len j con
    by (intro satisfy_link [where a = k and b = "Suc k" and ?d0.0 = NONE])
       (auto simp: binary_method_def stronger_def weaker_def uses_def left_of_def is_satisfied_con split: if_splits)
  have "swept n m k ?w'"
    using assms len j con unfolding swept_def chain_def
    by (auto simp: nth_list_update left_of_def)
  with sat show ?thesis by blast
qed

lemma swept_loop:
  assumes "swept n m k w" and "k \<le> n" and "k < fuel"
  shows "\<exists>w'. overridden_loop rem fuel (left_of k) m w = Inr w' \<and> swept n m 0 w'"
  using assms
proof (induction k arbitrary: w fuel)
  case 0
  then show ?case by (simp add: left_of_def)
next
  case (Suc k)
  then obtain f where f: "fuel = Suc f" "k < f" by (cases fuel) auto
  then obtain g where "f = Suc g" by (cases f) auto
  with Suc.prems obtain w1 where w1: "satisfy rem f k m w = Inr (left_of k, w1)" "swept n m k w1"
    using swept_link [of n m k w rem g] by auto
  have "left_of (Suc k) = Some k" by (simp add: left_of_def)
  with Suc.IH [OF w1(2), of f] w1(1) f Suc.prems show ?case by simp
qed

lemma add_stay:
  assumes "built n w" and "n < Suc f"
  shows "\<exists>w'. new_constraint (Suc f) (StayConstraint n) STRONG_DEFAULT w = Inr (n, w') \<and> swept n (current_mark w + 1) 0 w'"
proof -
  let ?m = "current_mark w + 1"
  let ?w = "w\<lparr>variables := (variables w)[n := (var w n)\<lparr>constraints := constraints (var w n) @ [n]\<rparr>],
     constrs := constrs w @ [unary_link (StayConstraint n) STRONG_DEFAULT False], current_mark := ?m\<rparr>"
  have len: "length (variables w) = Suc n" "length (constrs w) = n"
    using assms by (auto simp: built_def chain_def)
  have j: "constraints (var w j) = uses n j" "walk_strength (var w j) = WEAKEST" "determined_by (var w j) = left_of j" "stay (var w j)"
     "vmark (var w j) < ?m" if "j \<le> n" for j
    using assms that by (auto simp: built_def chain_def)
  have con: "con w j = eq_link j (Suc j) FORWARD" if "j < n" for j
    using assms that by (auto simp: built_def chain_def)
  have upd: "(constrs w @ [x])[n := y] = constrs w @ [y]" for x y using len(2) by (simp add: list_update_append)
  have start: "new_mark (add_to_graph n (w\<lparr>constrs := constrs w @
      [\<lparr>strength = STRONG_DEFAULT, kind = StayConstraint n, satisfied = False, direction = NONE\<rparr>]\<rparr>)) = (?m, ?w)"
    using len by (simp add: upd new_mark_def add_to_graph_def attach_def set_var_def set_con_def nth_append Let_def unary_link_def)
  let ?w' = "?w\<lparr>constrs := unsat_at (left_of n) ((constrs ?w)[n := unary_link (StayConstraint n) STRONG_DEFAULT True]),
      variables := (variables ?w)[n := (var ?w n)\<lparr>determined_by := Some n, walk_strength := STRONG_DEFAULT,
         stay := (StayConstraint n = StayConstraint n), vmark := ?m\<rparr>]\<rparr>"
  have sat: "satisfy rem (Suc f) n ?m ?w = Inr (left_of n, ?w')" for rem
    using len j [of n] con
    by (intro satisfy_urnary [where ?d0.0 = False])
       (auto simp: nth_append stronger_def uses_def left_of_def is_satisfied_con split: if_splits)
  define w' where "w' = ?w'"
  have cs: "constrs w' ! n = unary_link (StayConstraint n) STRONG_DEFAULT True"
    "i < n \<Longrightarrow> constrs w' ! i = eq_link i (Suc i) (if Suc i = n then NONE else FORWARD)" for i
    using len con by (auto simp: w'_def upd nth_list_update nth_append left_of_def list_update_append)
  have vs: "variables w' ! i = (if i = n then (var w n)\<lparr>constraints := constraints (var w n) @ [n], determined_by := Some n,
       walk_strength := STRONG_DEFAULT, stay := True, vmark := ?m\<rparr> else var w i)" if "i \<le> n" for i
    using that len by (simp add: w'_def nth_list_update)
  have lw: "length (variables w') = Suc n" "length (constrs w') = Suc n" "printed w' = []" "current_mark w' = ?m"
    using len assms(1) by (simp_all add: w'_def built_def chain_def)
  have "swept n ?m n w'"
    unfolding swept_def chain_def by (auto simp: cs vs j lw left_of_def less_imp_le) (auto dest: j(5))
  from swept_loop [OF this, of "Suc f" "incremental_remove (Suc f)"] assms(2) obtain w2 where
    "overridden_loop (incremental_remove (Suc f)) (Suc f) (left_of n) ?m w' = Inr w2" "swept n ?m 0 w2" by auto
  with sat start len show ?thesis unfolding w'_def
    by (auto simp: new_constraint_def add_constraint_def incremental_add_def)
qed

section \<open>The edit sweeps to the right\<close>

definition edited :: "nat \<Rightarrow> int \<Rightarrow> nat \<Rightarrow> world \<Rightarrow> bool" where
  "edited n m k w \<longleftrightarrow>
     chain n (\<lambda>j. uses n j @ (if j = n then [n] else []) @ (if j = 0 then [Suc n] else []))
       (\<lambda>j. if j = 0 then Some (Suc n) else if j \<le> k then Some (j - 1) else Some j)
       (\<lambda>j. if j \<le> k then PREFERRED else STRONG_DEFAULT) (\<lambda>j. k < j)
       (\<lambda>j. if j < k then FORWARD else if j = k then NONE else BACKWARD) w \<and>
     length (constrs w) = Suc (Suc n) \<and> con w n = unary_link (StayConstraint n) STRONG_DEFAULT (k < n) \<and>
     con w (Suc n) = unary_link (EditConstraint 0) PREFERRED True \<and>
     current_mark w = m \<and> (\<forall>j \<le> n. vmark (var w j) \<le> m \<and> (vmark (var w j) = m \<longleftrightarrow> j \<le> k))"

lemma edited_link:
  assumes "edited n m k w" and "k < n"
  shows "\<exists>w'. satisfy rem (Suc f) k m w = Inr (Some (Suc k), w') \<and> edited n m (Suc k) w'"
proof -
  have len: "length (variables w) = Suc n" "length (constrs w) = Suc (Suc n)" using assms by (auto simp: edited_def chain_def)
  have j: "constraints (var w j) = uses n j @ (if j = n then [n] else []) @ (if j = 0 then [Suc n] else [])"
     "walk_strength (var w j) = (if j \<le> k then PREFERRED else STRONG_DEFAULT)"
     "determined_by (var w j) = (if j = 0 then Some (Suc n) else if j \<le> k then Some (j - 1) else Some j)" "stay (var w j) \<longleftrightarrow> k < j"
     "vmark (var w j) = m \<longleftrightarrow> j \<le> k" if "j \<le> n" for j
    using assms that by (auto simp: edited_def chain_def)
  have con: "con w j = eq_link j (Suc j) (if j < k then FORWARD else if j = k then NONE else BACKWARD)" if "j < n" for j
    using assms that by (auto simp: edited_def chain_def)
  have con2: "con w n = unary_link (StayConstraint n) STRONG_DEFAULT True" "con w (Suc n) = unary_link (EditConstraint 0) PREFERRED True"
    using assms by (auto simp: edited_def)
  let ?w' = "w\<lparr>constrs := unsat_at (Some (Suc k)) ((constrs w)[k := eq_link k (Suc k) FORWARD]),
      variables := (variables w)[k := (var w k)\<lparr>vmark := m\<rparr>,
        Suc k := (var w (Suc k))\<lparr>determined_by := Some k, walk_strength := walk_strength (var w k), stay := stay (var w k),
                 val := (if stay (var w k) then val (var w k) else val (var w (Suc k))), vmark := m\<rparr>]\<rparr>"
  have sat: "satisfy rem (Suc f) k m w = Inr (Some (Suc k), ?w')"
    using assms(2) len j con
    by (intro satisfy_link [where a = k and b = "Suc k" and ?d0.0 = NONE])
       (auto simp: binary_method_def stronger_def weaker_def uses_def is_satisfied_con split: if_splits)
  have un: "unsat (unary_link (StayConstraint a) s b) = unary_link (StayConstraint a) s False" for a s b
    by (simp add: unsat_def)
  define w' where "w' = ?w'"
  have cs: "constrs w' ! i = (if i = k then eq_link k (Suc k) FORWARD else if i = Suc k then unsat (con w i) else con w i)" if "i < Suc (Suc n)" for i
    using that len assms(2) by (auto simp: w'_def nth_list_update)
  have cs2: "constrs w' ! n = unary_link (StayConstraint n) STRONG_DEFAULT (Suc k < n)"
    "constrs w' ! Suc n = unary_link (EditConstraint 0) PREFERRED True"
    "i < n \<Longrightarrow> constrs w' ! i = eq_link i (Suc i) (if i < Suc k then FORWARD else if i = Suc k then NONE else BACKWARD)" for i
    using cs [of n] cs [of "Suc n"] cs [of i] con [of i] con2 assms(2) by (auto simp: un)
  have vs: "variables w' ! i = (if i = k then (var w k)\<lparr>vmark := m\<rparr> else if i = Suc k then (var w (Suc k))\<lparr>determined_by := Some k,
       walk_strength := PREFERRED, stay := False, vmark := m\<rparr> else var w i)" if "i \<le> n" for i
    using that len j [of k] assms(2) by (auto simp: w'_def nth_list_update)
  have lw: "length (variables w') = Suc n" "length (constrs w') = Suc (Suc n)" "printed w' = []" "current_mark w' = m"
     "\<And>i. i \<le> n \<Longrightarrow> vmark (var w i) \<le> m"
    using len assms by (simp_all add: w'_def edited_def chain_def)
  have "edited n m (Suc k) w'"
    unfolding edited_def chain_def using assms(2) by (auto simp: cs2 vs j lw less_Suc_eq le_Suc_eq)
  with sat show ?thesis unfolding w'_def by blast
qed

lemma edited_loop:
  assumes "edited n m k w" and "k \<le> n" and "n - k < fuel"
  shows "\<exists>w'. overridden_loop rem fuel (Some k) m w = Inr w' \<and> edited n m n w'"
  using assms
proof (induction "n - k" arbitrary: k w fuel)
  case 0
  then have k: "k = n" "n < length (constrs w)" "con w n = unary_link (StayConstraint n) STRONG_DEFAULT False" "vmark (var w n) = m"
    by (auto simp: edited_def)
  obtain f where "fuel = Suc f" using 0 by (cases fuel) auto
  moreover have "choose_method n m w = w"
    using k by (simp add: choose_method_def set_con_def list_update_same_conv)
  then have "satisfy rem f n m w = Inr (None, w)" for f
    using k by (simp add: satisfy_def is_satisfied_con sat_con_def)
  ultimately show ?case using 0 k(1) by simp
next
  case (Suc d)
  then obtain f where f: "fuel = Suc f" "n - Suc k < f" by (cases fuel) auto
  then obtain g where "f = Suc g" by (cases f) auto
  with Suc obtain w1 where w1: "satisfy rem f k m w = Inr (Some (Suc k), w1)" "edited n m (Suc k) w1"
    using edited_link [of n m k w rem g] by (metis zero_less_Suc zero_less_diff)
  have "\<exists>w'. overridden_loop rem f (Some (Suc k)) m w1 = Inr w' \<and> edited n m n w'"
    using Suc.hyps(2) f by (intro Suc.hyps(1) w1) auto
  with w1(1) f show ?case by simp
qed

lemma add_edit:
  assumes "swept n m 0 w" and "n < Suc f"
  shows "\<exists>w'. new_constraint (Suc f) (EditConstraint 0) PREFERRED w = Inr (Suc n, w') \<and> edited n (m + 1) n w'"
proof -
  let ?m = "m + 1"
  let ?w = "w\<lparr>variables := (variables w)[0 := (var w 0)\<lparr>constraints := constraints (var w 0) @ [Suc n]\<rparr>],
     constrs := constrs w @ [unary_link (EditConstraint 0) PREFERRED False], current_mark := ?m\<rparr>"
  have len: "length (variables w) = Suc n" "length (constrs w) = Suc n" "current_mark w = m"
    using assms by (auto simp: swept_def chain_def)
  have j: "constraints (var w j) = uses n j @ (if j = n then [n] else [])" "walk_strength (var w j) = STRONG_DEFAULT"
     "determined_by (var w j) = Some j" "stay (var w j)" "vmark (var w j) = m" if "j \<le> n" for j
    using assms that by (auto simp: swept_def chain_def)
  have con: "con w j = eq_link j (Suc j) BACKWARD" if "j < n" for j
    using assms that by (auto simp: swept_def chain_def)
  have con2: "con w n = unary_link (StayConstraint n) STRONG_DEFAULT True" using assms by (auto simp: swept_def)
  have upd: "(constrs w @ [x])[Suc n := y] = constrs w @ [y]" for x y using len(2) by (simp add: list_update_append)
  have start: "new_mark (add_to_graph (Suc n) (w\<lparr>constrs := constrs w @
      [\<lparr>strength = PREFERRED, kind = EditConstraint 0, satisfied = False, direction = NONE\<rparr>]\<rparr>)) = (?m, ?w)"
    using len by (simp add: upd new_mark_def add_to_graph_def attach_def set_var_def set_con_def nth_append Let_def unary_link_def)
  let ?w' = "?w\<lparr>constrs := unsat_at (Some 0) ((constrs ?w)[Suc n := unary_link (EditConstraint 0) PREFERRED True]),
      variables := (variables ?w)[0 := (var ?w 0)\<lparr>determined_by := Some (Suc n), walk_strength := PREFERRED,
         stay := (EditConstraint 0 = StayConstraint 0), vmark := ?m\<rparr>]\<rparr>"
  have sat: "satisfy rem (Suc f) (Suc n) ?m ?w = Inr (Some 0, ?w')" for rem
    using len j [of 0] con
    by (intro satisfy_urnary [where ?d0.0 = False])
       (auto simp: nth_append stronger_def uses_def is_satisfied_con split: if_splits)
  define w' where "w' = ?w'"
  have un: "unsat (unary_link (StayConstraint a) s b) = unary_link (StayConstraint a) s False" for a s b
    by (simp add: unsat_def)
  have cs: "constrs w' ! i = (if i = 0 then unsat (con w i) else if i = Suc n then unary_link (EditConstraint 0) PREFERRED True else con w i)"
    if "i \<le> Suc n" for i
    using that len by (auto simp: w'_def upd nth_list_update nth_append)
  have cs2: "constrs w' ! n = unary_link (StayConstraint n) STRONG_DEFAULT (0 < n)"
    "constrs w' ! Suc n = unary_link (EditConstraint 0) PREFERRED True"
    "i < n \<Longrightarrow> constrs w' ! i = eq_link i (Suc i) (if i = 0 then NONE else BACKWARD)" for i
    using cs [of n] cs [of "Suc n"] cs [of i] con [of i] con2 by (auto simp: un)
  have vs: "variables w' ! i = (if i = 0 then (var w 0)\<lparr>constraints := constraints (var w 0) @ [Suc n], determined_by := Some (Suc n),
       walk_strength := PREFERRED, stay := False, vmark := ?m\<rparr> else var w i)" if "i \<le> n" for i
    using that len by (simp add: w'_def nth_list_update)
  have lw: "length (variables w') = Suc n" "length (constrs w') = Suc (Suc n)" "printed w' = []" "current_mark w' = ?m"
    using len assms(1) by (simp_all add: w'_def swept_def chain_def)
  have "edited n ?m 0 w'"
    unfolding edited_def chain_def by (auto simp: cs2 vs j lw)
  from edited_loop [OF this, of "Suc f" "incremental_remove (Suc f)"] assms(2) obtain w2 where
    "overridden_loop (incremental_remove (Suc f)) (Suc f) (Some 0) ?m w' = Inr w2" "edited n ?m n w2" by auto
  with sat start len show ?thesis unfolding w'_def
    by (auto simp: new_constraint_def add_constraint_def incremental_add_def)
qed

section \<open>The plan and its execution\<close>

text \<open>What the plan and its execution keep: everything but the marks and the values.\<close>

definition forward :: "nat \<Rightarrow> world \<Rightarrow> bool" where
  "forward n w \<longleftrightarrow>
     chain n (\<lambda>j. uses n j @ (if j = n then [n] else []) @ (if j = 0 then [Suc n] else []))
       (\<lambda>j. Some (if j = 0 then Suc n else j - 1)) (\<lambda>j. PREFERRED) (\<lambda>j. False) (\<lambda>j. FORWARD) w \<and>
     con w n = unary_link (StayConstraint n) STRONG_DEFAULT False \<and>
     con w (Suc n) = unary_link (EditConstraint 0) PREFERRED True"

lemma edited_forward: "edited n m n w \<Longrightarrow> forward n w"
  by (auto simp: edited_def forward_def chain_def)

definition same_graph :: "variable \<Rightarrow> variable \<Rightarrow> bool" where
  "same_graph x y \<longleftrightarrow> constraints x = constraints y \<and> determined_by x = determined_by y \<and>
     walk_strength x = walk_strength y \<and> stay x = stay y"

lemma same_graph_simps [simp]:
  "same_graph x x" "same_graph (x\<lparr>vmark := m\<rparr>) x" "same_graph (x\<lparr>val := v\<rparr>) x"
  by (simp_all add: same_graph_def)

lemma forward_keeps:
  assumes "forward n w" and "constrs w' = constrs w" and "printed w' = printed w" and "length (variables w') = length (variables w)"
    and "\<And>i. i \<le> n \<Longrightarrow> same_graph (var w' i) (var w i)"
  shows "forward n w'"
  using assms by (simp add: forward_def chain_def same_graph_def)

lemma forward_len: "forward n w \<Longrightarrow> length (variables w) = Suc n"
  by (simp add: forward_def chain_def)

lemma forward_set_var:
  assumes "forward n w" and "\<And>x. same_graph (f x) x"
  shows "forward n (set_var v f w)"
  using assms forward_len [OF assms(1)]
  by (intro forward_keeps [OF assms(1)]; cases "v \<le> n") (auto simp: nth_list_update list_update_beyond)

lemma forward_facts:
  assumes "forward n w"
  shows "length (variables w) = Suc n" "printed w = []" "is_satisfied w (Suc n)" "is_input w (Suc n)" "output_of w (Suc n) = 0"
    "inputs_known w (Suc n) m" "execute (Suc n) w = Inr w"
    "k < n \<Longrightarrow> output_of w k = Suc k" "k < n \<Longrightarrow> inputs_known w k m \<longleftrightarrow> vmark (var w k) = m"
    "k < n \<Longrightarrow> execute k w = Inr (set_var (Suc k) (\<lambda>x. x\<lparr>val := val (var w k)\<rparr>) w)"
  using assms
  by (auto simp: forward_def chain_def is_satisfied_def is_input_def output_of_def inputs_known_def execute_def)

lemma forward_consuming:
  assumes "forward n w" and "k \<le> n"
  shows "consuming w k = (if k < n then [k] else [])"
  using assms by (auto simp: consuming_def forward_def chain_def uses_def is_satisfied_con sat_con_def)

lemma forward_plan:
  assumes "forward n w" and "k \<le> n" and "\<And>j. j \<le> n \<Longrightarrow> vmark (var w j) = m \<longleftrightarrow> j \<le> k" and "n - k \<le> fuel"
  shows "\<exists>w'. plan_loop fuel m (if k < n then [k] else []) (Suc n # [0..<k]) w = Inr (Suc n # [0..<n], w') \<and> forward n w'"
  using assms
proof (induction "n - k" arbitrary: k w fuel)
  case 0
  then show ?case by auto
next
  case (Suc d)
  then obtain f where f: "fuel = Suc f" by (cases fuel) auto
  from Suc.hyps(2) have kn: "k < n" by linarith
  let ?w' = "set_mark (Suc k) m w"
  have len: "length (variables w) = Suc n" using Suc.prems(1) by (rule forward_facts)
  have "forward n ?w'"
    unfolding set_mark_def by (rule forward_set_var [OF Suc.prems(1)]) simp
  moreover have "vmark (var ?w' j) = m \<longleftrightarrow> j \<le> Suc k" if "j \<le> n" for j
    using Suc.prems(3) [OF that] len that by (auto simp: set_mark_def nth_list_update le_Suc_eq)
  ultimately have "\<exists>w'. plan_loop f m (if Suc k < n then [Suc k] else []) (Suc n # [0..<Suc k]) ?w' = Inr (Suc n # [0..<n], w') \<and> forward n w'"
    using Suc.hyps(2) Suc.prems(4) f kn by (intro Suc.hyps(1)) auto
  moreover have "vmark (var w k) = m" "vmark (var w (Suc k)) \<noteq> m" using Suc.prems(3) kn by auto
  moreover note forward_facts(8,9) [OF Suc.prems(1) kn] forward_consuming [OF \<open>forward n ?w'\<close>, of "Suc k"]
  ultimately show ?case using kn f by (auto simp: Let_def)
qed

lemma extract_plan:
  assumes "edited n m n w" and "Suc n \<le> fuel"
  shows "\<exists>w'. extract_plan_from_constraints fuel [Suc n] w = Inr (Suc n # [0..<n], w') \<and> forward n w'"
proof -
  obtain f where f: "fuel = Suc f" "n \<le> f" using assms(2) by (cases fuel) auto
  let ?w = "w\<lparr>current_mark := m + 1\<rparr>"
  let ?w' = "set_mark 0 (m + 1) ?w"
  have fw: "forward n w" using assms(1) by (rule edited_forward)
  have fw1: "forward n ?w" by (rule forward_keeps [OF fw]) auto
  have len: "length (variables w) = Suc n" using fw by (rule forward_facts)
  have fw2: "forward n ?w'"
    unfolding set_mark_def by (rule forward_set_var [OF fw1]) simp
  have le: "vmark (var w j) \<le> m" "current_mark w = m" if "j \<le> n" for j using assms(1) that by (auto simp: edited_def)
  have "vmark (var ?w' j) = m + 1 \<longleftrightarrow> j \<le> 0" if "j \<le> n" for j
    using le [OF that] len that by (cases "j = 0") (auto simp: set_mark_def)
  from forward_plan [OF fw2 _ this, where fuel = f] f(2) obtain w2 where
    w2: "plan_loop f (m + 1) (if 0 < n then [0] else []) (Suc n # [0..<0]) ?w' = Inr (Suc n # [0..<n], w2)" "forward n w2" by auto
  have "vmark (var ?w 0) \<noteq> m + 1" using le [of 0] by simp
  then show ?thesis
    using w2 f(1) le(2) [of 0] forward_facts [OF fw] forward_facts [OF fw1] forward_consuming [OF fw2, of 0]
    by (simp add: extract_plan_from_constraints_def make_plan_def new_mark_def Let_def)
qed

text \<open>One execution of the plan copies the value of the first variable along the chain.\<close>

lemma execute_links:
  assumes "forward n w" and "k \<le> n"
  shows "\<exists>w'. for_each [0..<k] execute w = Inr w' \<and> forward n w' \<and> (\<forall>j \<le> k. val (var w' j) = val (var w 0))"
proof -
  have "\<exists>w'. for_each [0..<k] execute w = Inr w' \<and> (\<lambda>i u. forward n u \<and> (\<forall>j \<le> i. val (var u j) = val (var w 0))) (length [0..<k]) w'"
  proof (rule for_each_count)
    fix i u assume i: "i < length [0..<k]" and u: "forward n u \<and> (\<forall>j \<le> i. val (var u j) = val (var w 0))"
    then have kn: "i < n" "length (variables u) = Suc n" using assms(2) forward_facts(1) by auto
    have "forward n (set_var (Suc i) (\<lambda>x. x\<lparr>val := val (var u i)\<rparr>) u)"
      using u by (intro forward_set_var) auto
    moreover have "execute i u = Inr (set_var (Suc i) (\<lambda>x. x\<lparr>val := val (var u i)\<rparr>) u)"
      using forward_facts(10) u kn by blast
    ultimately show "\<exists>u'. execute ([0..<k] ! i) u = Inr u' \<and> forward n u' \<and> (\<forall>j \<le> Suc i. val (var u' j) = val (var w 0))"
      using i u kn by (auto simp: nth_list_update)
  qed (use assms in auto)
  then show ?thesis by simp
qed

lemma chain_turn_ok:
  assumes "forward n w"
  shows "\<exists>w'. chain_turn (Suc n # [0..<n]) 0 n i w = Inr w' \<and> forward n w' \<and> (\<forall>j \<le> n. val (var w' j) = int i)"
proof -
  let ?w = "set_value 0 (int i) w"
  have w: "forward n ?w" unfolding set_value_def by (rule forward_set_var [OF assms]) simp
  have "val (var ?w 0) = int i" using forward_facts(1) [OF assms] by (simp add: set_value_def)
  with execute_links [OF w, of n] forward_facts(7) [OF w] show ?thesis
    by (auto simp: chain_turn_def execute_plan_def)
qed

lemma chain_turns:
  assumes "forward n w"
  shows "\<exists>w'. for_each [0..<Suc k] (chain_turn (Suc n # [0..<n]) 0 n) w = Inr w' \<and> forward n w' \<and> (\<forall>j \<le> n. val (var w' j) = int k)"
proof (induction k)
  case 0
  then show ?case using chain_turn_ok [OF assms, of 0] by simp
next
  case (Suc k)
  then obtain u where "for_each [0..<Suc k] (chain_turn (Suc n # [0..<n]) 0 n) w = Inr u" "forward n u" by blast
  with chain_turn_ok [of n u "Suc k"] show ?case
    by (simp add: for_each_append upt_Suc_append [of 0 "Suc k"] del: upt_Suc of_nat_Suc)
qed

lemma build_chain:
  "\<exists>w. for_each [0..<n + 1] (chain_link (Suc f)) (Planner, None) = Inr (w, Some n) \<and> built n w"
proof (induction n)
  case 0
  show ?case
    by (auto simp: chain_link_def new_variable_def Planner_def built_def chain_def uses_def left_of_def Variable_def)
next
  case (Suc n)
  then obtain w where "for_each [0..<n + 1] (chain_link (Suc f)) (Planner, None) = Inr (w, Some n)" "built n w" by blast
  moreover have "[0..<Suc n + 1] = [0..<n + 1] @ [Suc n]" by simp
  ultimately show ?case using built_link [of n w f] by (auto simp: for_each_append simp del: upt_Suc)
qed

text \<open>
  C24: for a chain of every length the chain test ends and prints nothing: building the chain,
  the stay and the edit constraint leave no error and no message, the extracted plan is the edit
  followed by the links in order, and every execution of it brings the new value to the last
  variable; the last of the hundred turns leaves 99 in each of the variables.
\<close>

theorem chain_test_ok:
  assumes "n + 2 \<le> fuel"
  shows "\<exists>w. chain_test fuel n = Inr w \<and> printed w = [] \<and> map val (variables w) = replicate (n + 1) 99"
proof -
  obtain f where f: "fuel = Suc f" "n < Suc f" "Suc n \<le> Suc f" using assms by (cases fuel) auto
  obtain w1 where w1: "for_each [0..<n + 1] (chain_link (Suc f)) (Planner, None) = Inr (w1, Some n)" "built n w1"
    using build_chain by blast
  obtain w2 where w2: "new_constraint (Suc f) (StayConstraint n) STRONG_DEFAULT w1 = Inr (n, w2)" "swept n (current_mark w1 + 1) 0 w2"
    using add_stay [OF w1(2) f(2)] by blast
  obtain w3 m where w3: "new_constraint (Suc f) (EditConstraint 0) PREFERRED w2 = Inr (Suc n, w3)" "edited n m n w3"
    using add_edit [OF w2(2) f(2)] by blast
  obtain w4 where w4: "extract_plan_from_constraints (Suc f) [Suc n] w3 = Inr (Suc n # [0..<n], w4)" "forward n w4"
    using extract_plan [OF w3(2) f(3)] by blast
  obtain w5 where w5: "for_each [0..<Suc 99] (chain_turn (Suc n # [0..<n]) 0 n) w4 = Inr w5" "forward n w5" "\<forall>j \<le> n. val (var w5 j) = int 99"
    using chain_turns [OF w4(2)] by blast
  have "for_each [0..<100] (chain_turn (Suc n # [0..<n]) 0 n) w4 = Inr w5" using w5(1) by simp
  then have "chain_test fuel n = Inr w5"
    using w1(1) w2(1) w3(1) w4(1) unfolding f(1) by (simp add: chain_test_def del: upt_Suc)
  moreover have "map val (variables w5) = replicate (n + 1) 99"
    using w5(3) forward_facts(1) [OF w5(2)] by (intro nth_equalityI) (auto simp del: replicate_Suc)
  ultimately show ?thesis using forward_facts(2) [OF w5(2)] by blast
qed

theorem chain_test_ok_witness:
  "\<exists>w. chain_test 7 5 = Inr w \<and> printed w = [] \<and> map val (variables w) = [99, 99, 99, 99, 99, 99]"
  using chain_test_ok [of 5 7] by (simp add: numeral_eq_Suc)

end
