(* ===== verification/DeltaProperties.thy ===== *)
theory DeltaProperties
  imports DeltaChain
begin

text \<open>
  What the planner of the solver does in any world: which direction a binary constraint takes,
  that a plan is always found and in what order, what the re-adding of unsatisfied constraints
  does, and that the two directions of a scale constraint undo each other.
\<close>

section \<open>The method a binary constraint chooses\<close>

text \<open>
  \<open>choose_method\<close> of a binary constraint looks at the two walkabout strengths only: what it
  decides from the marks and the direction it had is overwritten. It gives the output to the
  weaker variable (to \<open>v2\<close> if they are equal) when the constraint is stronger than it, and never
  leaves the constraint unsatisfied unless \<open>v1\<close> is the weaker one: a constraint that is too weak
  for both of two equally strong variables is run \<open>BACKWARD\<close> all the same.
\<close>

theorem choose_method_by_strength:
  "binary_method w s v1 v2 mark d =
     (let s1 = walk_strength (var w v1); s2 = walk_strength (var w v2) in
      if s2 < s1 then (if s < s1 then BACKWARD else NONE) else (if s < s2 then FORWARD else BACKWARD))"
  by (simp add: binary_method_def strength_order Let_def)

section \<open>Plans\<close>

definition same_but_marks :: "world \<Rightarrow> world \<Rightarrow> bool" where
  "same_but_marks w' w \<longleftrightarrow> constrs w' = constrs w \<and> printed w' = printed w \<and>
     map (\<lambda>x. x\<lparr>vmark := 0\<rparr>) (variables w') = map (\<lambda>x. x\<lparr>vmark := 0\<rparr>) (variables w)"

lemma same_but_marks_facts:
  assumes "same_but_marks w' w"
  shows "constrs w' = constrs w" "length (variables w') = length (variables w)"
    "v < length (variables w) \<Longrightarrow> constraints (var w' v) = constraints (var w v)"
    "v < length (variables w) \<Longrightarrow> determined_by (var w' v) = determined_by (var w v)"
    "v < length (variables w) \<Longrightarrow> stay (var w' v) = stay (var w v)"
    "v < length (variables w) \<Longrightarrow> val (var w' v) = val (var w v)"
proof -
  show len: "length (variables w') = length (variables w)"
    using assms unfolding same_but_marks_def by (metis length_map)
  have "(var w' v)\<lparr>vmark := 0\<rparr> = (var w v)\<lparr>vmark := 0\<rparr>" if "v < length (variables w)" for v
    using assms that len unfolding same_but_marks_def by (metis nth_map)
  then have eq: "constraints (var w' v) = constraints (var w v) \<and> determined_by (var w' v) = determined_by (var w v) \<and>
      stay (var w' v) = stay (var w v) \<and> val (var w' v) = val (var w v)" if "v < length (variables w)" for v
    using that by (metis variable.select_convs(2-4,7) variable.surjective variable.update_convs(5))
  show "constrs w' = constrs w" using assms by (simp add: same_but_marks_def)
  show "v < length (variables w) \<Longrightarrow> constraints (var w' v) = constraints (var w v)"
    "v < length (variables w) \<Longrightarrow> determined_by (var w' v) = determined_by (var w v)"
    "v < length (variables w) \<Longrightarrow> stay (var w' v) = stay (var w v)"
    "v < length (variables w) \<Longrightarrow> val (var w' v) = val (var w v)" using eq by auto
qed

lemma same_but_marks_set_mark: "same_but_marks w' w \<Longrightarrow> same_but_marks (set_mark v m w') w"
  by (simp add: same_but_marks_def set_mark_def map_update list_update_same_conv)
     (metis list_update_id map_update)

lemma same_but_marks_con:
  assumes "same_but_marks w' w"
  shows "output_of w' c = output_of w c" "is_satisfied w' c = is_satisfied w c"
  using same_but_marks_facts(1) [OF assms] by (simp_all add: output_of_def is_satisfied_con split: kind.split)

lemma same_but_marks_consuming:
  "same_but_marks u w \<Longrightarrow> v < length (variables w) \<Longrightarrow> consuming u v = consuming w v"
  by (simp add: consuming_def same_but_marks_facts same_but_marks_con)

text \<open>The variables a constraint is between, and the input of a binary one.\<close>

fun ends_of :: "kind \<Rightarrow> nat set" where
  "ends_of (StayConstraint v) = {v}"
| "ends_of (EditConstraint v) = {v}"
| "ends_of (EqualityConstraint v1 v2) = {v1, v2}"
| "ends_of (ScaleConstraint v1 s off v2) = {v1, v2}"

definition source_of :: "world \<Rightarrow> nat \<Rightarrow> nat option" where
  "source_of w c = (case kind (con w c) of
     EqualityConstraint v1 v2 \<Rightarrow> Some (binary_input w c v1 v2)
   | ScaleConstraint v1 s off v2 \<Rightarrow> Some (binary_input w c v1 v2)
   | _ \<Rightarrow> None)"

definition consumers :: "world \<Rightarrow> nat set" where
  "consumers w = (\<Union>v \<in> {..<length (variables w)}. set (consuming w v))"

text \<open>The constraints a plan can meet are between variables of the world; no mark is from the future.\<close>

definition graph_ok :: "nat list \<Rightarrow> world \<Rightarrow> bool" where
  "graph_ok sources w \<longleftrightarrow>
     (\<forall>c \<in> set sources \<union> consumers w. ends_of (kind (con w c)) \<subseteq> {..<length (variables w)}) \<and>
     (\<forall>x \<in> set (variables w). vmark x \<le> current_mark w)"

text \<open>The input of each constraint is an output before it, or cannot change, or nothing determines it.\<close>

definition ready :: "world \<Rightarrow> nat list \<Rightarrow> nat \<Rightarrow> bool" where
  "ready w before c \<longleftrightarrow> (case source_of w c of None \<Rightarrow> True
     | Some i \<Rightarrow> i \<in> output_of w ` set before \<or> stay (var w i) \<or> determined_by (var w i) = None)"

definition in_order :: "world \<Rightarrow> nat list \<Rightarrow> bool" where
  "in_order w plan \<longleftrightarrow> distinct (map (output_of w) plan) \<and> (\<forall>i < length plan. ready w (take i plan) (plan ! i))"

lemma in_order_snoc:
  "in_order w (plan @ [c]) \<longleftrightarrow> in_order w plan \<and> output_of w c \<notin> output_of w ` set plan \<and> ready w plan c"
  by (auto simp: in_order_def nth_append less_Suc_eq all_conj_distrib)

lemma ends_facts:
  assumes "ends_of (kind (con w c)) \<subseteq> A"
  shows "output_of w c \<in> A" "source_of w c = Some i \<Longrightarrow> i \<in> A"
  using assms by (cases "kind (con w c)"; auto simp: output_of_def source_of_def split: if_splits)+

lemma inputs_known_ready:
  assumes "same_but_marks u w" and "ends_of (kind (con w c)) \<subseteq> {..<length (variables w)}"
    and "\<And>v. v < length (variables w) \<Longrightarrow> vmark (var u v) = m \<longleftrightarrow> v \<in> output_of w ` set plan"
  shows "inputs_known u c m \<longleftrightarrow> ready w plan c"
proof -
  have "con u c = con w c" using same_but_marks_facts(1) [OF assms(1)] by simp
  moreover have "vmark (var u i) = m \<longleftrightarrow> i \<in> output_of w ` set plan" "stay (var u i) = stay (var w i)"
    "determined_by (var u i) = determined_by (var w i)" if "source_of w c = Some i" for i
    using ends_facts(2) [OF assms(2) that] assms(3) same_but_marks_facts(4,5) [OF assms(1)] by auto
  moreover have "inputs_known u c m \<longleftrightarrow> (case source_of u c of None \<Rightarrow> True
     | Some i \<Rightarrow> vmark (var u i) = m \<or> stay (var u i) \<or> determined_by (var u i) = None)"
    by (cases "kind (con u c)") (simp_all add: inputs_known_def source_of_def Let_def)
  moreover have "source_of u c = source_of w c"
    using calculation(1) by (cases "kind (con w c)") (simp_all add: source_of_def)
  ultimately show ?thesis by (cases "source_of w c") (simp_all add: ready_def)
qed

definition unmarked_work :: "world \<Rightarrow> nat list \<Rightarrow> nat" where
  "unmarked_work w plan = (\<Sum>v \<in> {..<length (variables w)} - output_of w ` set plan. length (constraints (var w v)))"

lemma unmarked_work_snoc:
  assumes "output_of w c < length (variables w)" and "output_of w c \<notin> output_of w ` set plan"
  shows "unmarked_work w plan = length (constraints (var w (output_of w c))) + unmarked_work w (plan @ [c])"
proof -
  let ?A = "\<lambda>p. {..<length (variables w)} - output_of w ` set p"
  let ?f = "\<lambda>v. length (constraints (var w v))"
  have "?A plan = insert (output_of w c) (?A (plan @ [c]))"
    using assms by auto
  then have "sum ?f (?A plan) = sum ?f (insert (output_of w c) (?A (plan @ [c])))" by (rule arg_cong)
  also have "\<dots> = ?f (output_of w c) + sum ?f (?A (plan @ [c]))"
    by (rule sum.insert) auto
  finally show ?thesis unfolding unmarked_work_def .
qed

lemma plan_loop_ok:
  assumes "graph_ok sources w" and "same_but_marks u w"
    and "\<And>v. v < length (variables w) \<Longrightarrow> vmark (var u v) = m \<longleftrightarrow> v \<in> output_of w ` set plan"
    and "in_order w plan" and "set todo \<union> set plan \<subseteq> set sources \<union> consumers w"
    and "length todo + unmarked_work w plan \<le> fuel"
  shows "\<exists>plan' u'. plan_loop fuel m todo plan u = Inr (plan', u') \<and> same_but_marks u' w \<and> in_order w plan' \<and>
           set plan' \<subseteq> set sources \<union> consumers w"
  using assms(2-)
proof (induction fuel arbitrary: todo plan u)
  case 0
  then show ?case by simp
next
  case (Suc fuel)
  show ?case
  proof (cases todo)
    case Nil
    then show ?thesis using Suc.prems by simp
  next
    case (Cons c rest)
    let ?o = "output_of w c"
    have ends: "ends_of (kind (con w c)) \<subseteq> {..<length (variables w)}"
      using assms(1) Suc.prems(4) Cons by (auto simp: graph_ok_def)
    then have o: "?o < length (variables w)" "output_of u c = ?o" "output_of (set_mark ?o m u) c = ?o"
      using ends_facts(1) [OF ends] same_but_marks_con(1) [OF Suc.prems(1)]
        same_but_marks_con(1) [OF same_but_marks_set_mark [OF Suc.prems(1)]] by auto
    note known = inputs_known_ready [OF Suc.prems(1) ends Suc.prems(2)]
    show ?thesis
    proof (cases "vmark (var u ?o) \<noteq> m \<and> inputs_known u c m")
      case True
      let ?u = "set_mark ?o m u"
      have u: "same_but_marks ?u w" by (rule same_but_marks_set_mark [OF Suc.prems(1)])
      have len: "length (variables u) = length (variables w)" by (rule same_but_marks_facts(2) [OF Suc.prems(1)])
      have new: "?o \<notin> output_of w ` set plan" using True Suc.prems(2) [OF o(1)] by blast
      have "consuming ?u ?o = consuming w ?o" by (rule same_but_marks_consuming [OF u o(1)])
      moreover have "set (consuming w ?o) \<subseteq> consumers w" using o(1) by (auto simp: consumers_def)
      moreover have "length (consuming w ?o) \<le> length (constraints (var w ?o))" by (simp add: consuming_def)
      moreover have "vmark (var ?u v) = m \<longleftrightarrow> v \<in> output_of w ` set (plan @ [c])" if "v < length (variables w)" for v
        using Suc.prems(2) [OF that] that len by (cases "v = ?o") (simp_all add: set_mark_def)
      moreover have "in_order w (plan @ [c])" using Suc.prems(3) new True known by (simp add: in_order_snoc)
      ultimately have "\<exists>plan' u'. plan_loop fuel m (rest @ consuming ?u ?o) (plan @ [c]) ?u = Inr (plan', u') \<and>
          same_but_marks u' w \<and> in_order w plan' \<and> set plan' \<subseteq> set sources \<union> consumers w"
        using Suc.prems(4,5) Cons unmarked_work_snoc [OF o(1) new] by (intro Suc.IH [OF u]) auto
      then show ?thesis using True Cons o by (simp add: Let_def)
    next
      case False
      have "\<exists>plan' u'. plan_loop fuel m rest plan u = Inr (plan', u') \<and>
          same_but_marks u' w \<and> in_order w plan' \<and> set plan' \<subseteq> set sources \<union> consumers w"
        using Suc.prems Cons by (intro Suc.IH) auto
      then show ?thesis using False Cons o by auto
    qed
  qed
qed

text \<open>
  C25: \<open>make_plan\<close> returns for every world and all sources, after at most as many turns as there are
  sources and uses of variables. The plan has one constraint for each output, every one of them a
  source or a satisfied constraint that reads a variable, in an order in which the input of each is
  the output of an earlier one, or stays, or is not determined; the world is as before, marks apart.
\<close>

theorem make_plan_ok:
  assumes "graph_ok sources w"
    and "length sources + (\<Sum>v < length (variables w). length (constraints (var w v))) \<le> fuel"
  shows "\<exists>plan w'. make_plan fuel sources w = Inr (plan, w') \<and> same_but_marks w' w \<and> in_order w plan \<and>
           set plan \<subseteq> set sources \<union> consumers w"
proof -
  let ?u = "w\<lparr>current_mark := current_mark w + 1\<rparr>"
  have "same_but_marks ?u w" by (simp add: same_but_marks_def)
  moreover have "vmark (var ?u v) = current_mark w + 1 \<longleftrightarrow> v \<in> output_of w ` set []" if "v < length (variables w)" for v
    using assms(1) nth_mem [OF that] by (force simp: graph_ok_def)
  moreover have "in_order w []" by (simp add: in_order_def)
  ultimately have "\<exists>plan' u'. plan_loop fuel (current_mark w + 1) sources [] ?u = Inr (plan', u') \<and>
      same_but_marks u' w \<and> in_order w plan' \<and> set plan' \<subseteq> set sources \<union> consumers w"
    using assms(2) by (intro plan_loop_ok [OF assms(1)]) (auto simp: unmarked_work_def)
  then show ?thesis by (simp add: make_plan_def new_mark_def Let_def)
qed

definition two_linked :: world where
  "two_linked = \<lparr>variables =
       [(Variable ''v0'' 0)\<lparr>constraints := [1, 0], determined_by := Some 0, vmark := 2, walk_strength := PREFERRED, stay := False\<rparr>,
        (Variable ''v1'' 0)\<lparr>constraints := [1], determined_by := Some 1, vmark := 2, walk_strength := PREFERRED, stay := False\<rparr>],
     constrs = [unary_link (EditConstraint 0) PREFERRED True, eq_link 0 1 FORWARD], current_mark = 2, printed = []\<rparr>"

theorem make_plan_ok_witness:
  "\<exists>plan w'. make_plan 4 [0] two_linked = Inr (plan, w') \<and> same_but_marks w' two_linked \<and> in_order two_linked plan"
proof -
  have "consumers two_linked = {1}"
    by (auto simp: consumers_def two_linked_def consuming_def is_satisfied_con sat_con_def lessThan_nat_numeral lessThan_Suc numeral_2_eq_2)
  then have "graph_ok [0] two_linked"
    by (simp add: graph_ok_def) (simp add: two_linked_def)
  moreover have "(\<Sum>v < length (variables two_linked). length (constraints (var two_linked v))) = 3"
    by (simp add: two_linked_def numeral_2_eq_2)
  ultimately show ?thesis using make_plan_ok [of "[0]" two_linked 4] by auto
qed

section \<open>Adding again what is unsatisfied\<close>

text \<open>
  C26: after a removal, \<open>strength\<close> is made weaker in each turn of the inner loop and the table of
  \<open>next_weaker\<close> goes from \<open>REQUIRED\<close> to \<open>WEAKEST\<close> at once. With nothing unsatisfied the outer loop
  never ends; one constraint that is not required is not added again; and with two of them the
  loop ends in a \<open>KeyError\<close>.
\<close>

theorem readd_unsatisfied:
  "readd_loop add fuel [] REQUIRED w = Inl OutOfFuel \<and>
   (strength (con w u) \<noteq> REQUIRED \<longrightarrow> readd_loop add (Suc fuel) [u] REQUIRED w = Inr w) \<and>
   (strength (con w u) \<noteq> REQUIRED \<and> strength (con w u') \<noteq> WEAKEST \<longrightarrow>
      readd_loop add (Suc fuel) (u # u' # us) REQUIRED w = Inl KeyError)"
proof -
  have "readd_loop add fuel [] REQUIRED w = Inl OutOfFuel" by (induction fuel) simp_all
  then show ?thesis by auto
qed

theorem readd_unsatisfied_witness:
  "readd_loop (\<lambda>c. Inr) 100 [] REQUIRED two_linked = Inl OutOfFuel \<and> readd_loop (\<lambda>c. Inr) 100 [0] REQUIRED two_linked = Inr two_linked \<and>
   readd_loop (\<lambda>c. Inr) 100 [0, 1] REQUIRED two_linked = Inl KeyError"
proof -
  have "strength (con two_linked 0) = PREFERRED" "strength (con two_linked 1) = REQUIRED" by (simp_all add: two_linked_def)
  then show ?thesis
    using readd_unsatisfied [of "\<lambda>c. Inr" 100 two_linked] readd_unsatisfied [of "\<lambda>c. Inr" 99 two_linked 0 1 "[]"] by simp
qed

section \<open>The two directions of a scale constraint\<close>

text \<open>
  Executing a scale constraint forward gives \<open>v2\<close> the scaled value, and executing it backward
  then gives \<open>v1\<close> its old value back, whatever was written to it in between; with a scale of 0 the
  way back is a \<open>ZeroDivisionError\<close>.
\<close>

theorem scale_roundtrip:
  assumes "kind (con w c) = ScaleConstraint v1 s off v2" and "direction (con w c) = FORWARD" and "c < length (constrs w)"
    and "distinct [v1, s, off, v2]" and "{v1, s, off, v2} \<subseteq> {..<length (variables w)}"
  shows "\<exists>w1. execute c w = Inr w1 \<and> val (var w1 v2) = val (var w v1) * val (var w s) + val (var w off) \<and>
    execute c (set_con c (\<lambda>x. x\<lparr>direction := BACKWARD\<rparr>) (set_value v1 x w1)) =
      (if val (var w s) = 0 then Inl ZeroDivisionError
       else Inr (set_con c (\<lambda>x. x\<lparr>direction := BACKWARD\<rparr>) (set_value v1 (val (var w v1)) w1)))"
  using assms by (simp add: execute_def set_value_def set_var_def set_con_def)

theorem scale_roundtrip_witness:
  "\<exists>w0 w1. execute 0 w0 = Inr w1 \<and> val (var w1 3) = 1170 \<and>
    execute 0 (set_con 0 (\<lambda>x. x\<lparr>direction := BACKWARD\<rparr>) (set_value 0 5 w1)) =
      Inr (set_con 0 (\<lambda>x. x\<lparr>direction := BACKWARD\<rparr>) (set_value 0 17 w1))"
proof -
  let ?w = "\<lparr>variables = [Variable ''src'' 17, Variable ''scale'' 10, Variable ''offset'' 1000, Variable ''dst'' 0],
     constrs = [\<lparr>strength = REQUIRED, kind = ScaleConstraint 0 1 2 3, satisfied = False, direction = FORWARD\<rparr>],
     current_mark = 0, printed = []\<rparr>"
  have "\<exists>w1. execute 0 ?w = Inr w1 \<and> val (var w1 3) = 1170 \<and>
    execute 0 (set_con 0 (\<lambda>x. x\<lparr>direction := BACKWARD\<rparr>) (set_value 0 5 w1)) =
      Inr (set_con 0 (\<lambda>x. x\<lparr>direction := BACKWARD\<rparr>) (set_value 0 17 w1))"
    using scale_roundtrip [of ?w 0 0 1 2 3 5] by (simp add: Variable_def)
  then show ?thesis by blast
qed

end
