(* ===== verification/Btree.thy ===== *)
theory Btree
  imports PyPrelude
begin

text \<open>
  The B-tree of \<open>multithread/btree/btree.py\<close>: nodes with their contents and children, looking up,
  inserting and removing an item, iteration, and bulk loading. A node is the child of one parent
  only, so the tree is a value: the list of ancestors that the methods carry is a path from the
  node to the root (its end first here), each with the index of the child on the path, and what a
  method does to nodes in place is seen in the tree that \<open>plug\<close> puts together from the path.
\<close>

section \<open>Nodes\<close>

datatype 'a bnode = BNode (contents: "'a list") (children: "'a bnode list")

lemma child_size:
  assumes "i < length (children t)"
  shows "size (children t ! i) < size t"
proof (cases t)
  case (BNode cs ks)
  with assms have "size (ks ! i) \<le> size_list size ks" by (intro size_list_estimation' [of "ks ! i"]) auto
  with BNode show ?thesis by simp
qed

lemma last_child_size: "children t \<noteq> [] \<Longrightarrow> size (last (children t)) < size t"
  using child_size [of "length (children t) - 1" t] by (simp add: last_conv_nth)

type_synonym 'a ancestors = "('a bnode \<times> nat) list"

definition new_bnode :: "'a list \<Rightarrow> 'a bnode list \<Rightarrow> 'a bnode result" where
  "new_bnode cs ks = (if ks \<noteq> [] \<and> length cs + 1 \<noteq> length ks then Inl AssertionError else Inr (BNode cs ks))"

primrec plug :: "'a ancestors \<Rightarrow> 'a bnode \<Rightarrow> 'a bnode" where
  "plug [] t = t"
| "plug (a # as) t = plug as (BNode (contents (fst a)) ((children (fst a))[snd a := t]))"

text \<open>\<open>list.insert\<close> and \<open>list.pop\<close>; popping from an empty list raises.\<close>

definition insert_at :: "nat \<Rightarrow> 'a \<Rightarrow> 'a list \<Rightarrow> 'a list" where
  "insert_at i x xs = take i xs @ [x] @ drop i xs"

definition pop_at :: "int \<Rightarrow> 'a list \<Rightarrow> ('a \<times> 'a list) result" where
  "pop_at i xs = rbind (py_index xs i) (\<lambda>j. Inr (xs ! j, take j xs @ drop (Suc j) xs))"

text \<open>\<open>lateral\<close>: the new \<open>self\<close>, the new contents of \<open>parent\<close> and the new \<open>dest\<close>.\<close>

definition lateral :: "'a bnode \<Rightarrow> 'a list \<Rightarrow> nat \<Rightarrow> 'a bnode \<Rightarrow> nat \<Rightarrow> ('a bnode \<times> 'a list \<times> 'a bnode) result" where
  "lateral self parent_contents parent_index dest dest_index =
     (if parent_index > dest_index
      then rbind (lget parent_contents dest_index) (\<lambda>sep.
           rbind (pop_at 0 (contents self)) (\<lambda>(x, rest).
           if children self = [] then
             Inr (BNode rest [], parent_contents[dest_index := x], BNode (contents dest @ [sep]) (children dest))
           else
             rbind (pop_at 0 (children self)) (\<lambda>(k, ks).
             Inr (BNode rest ks, parent_contents[dest_index := x], BNode (contents dest @ [sep]) (children dest @ [k])))))
      else rbind (lget parent_contents parent_index) (\<lambda>sep.
           rbind (pop_at (-1) (contents self)) (\<lambda>(x, rest).
           if children self = [] then
             Inr (BNode rest [], parent_contents[parent_index := x], BNode (sep # contents dest) (children dest))
           else
             rbind (pop_at (-1) (children self)) (\<lambda>(k, ks).
             Inr (BNode rest ks, parent_contents[parent_index := x], BNode (sep # contents dest) (k # children dest))))))"

definition split :: "'a bnode \<Rightarrow> ('a bnode \<times> 'a bnode \<times> 'a) result" where
  "split self =
     (let center = length (contents self) div 2 in
      rbind (lget (contents self) center) (\<lambda>median.
      rbind (new_bnode (drop (center + 1) (contents self)) (drop (center + 1) (children self))) (\<lambda>sibling.
      Inr (BNode (take center (contents self)) (take (center + 1) (children self)), sibling, median))))"

text \<open>
  \<open>shrink\<close>. The root that splits gets a parent of one item; with order 0 that parent is too long
  again, and so on, until Python's recursion limit.
\<close>

definition recursion_error :: exn where
  "recursion_error = UserException ''RuntimeError: maximum recursion depth exceeded''"

fun shrink :: "nat \<Rightarrow> 'a bnode \<Rightarrow> 'a ancestors \<Rightarrow> 'a bnode result" where
  "shrink order self [] =
     rbind (split self) (\<lambda>(self, sibling, push).
       if 1 > order then Inl recursion_error else Inr (BNode [push] [self, sibling]))"
| "shrink order self ((parent, i) # ancestors) =
     (let kids = children parent in
      if i \<noteq> 0 \<and> length (contents (kids ! (i - 1))) < order
      then rbind (lateral self (contents parent) i (kids ! (i - 1)) (i - 1)) (\<lambda>(self, pc, left_sib).
             Inr (plug ancestors (BNode pc (kids[i := self, i - 1 := left_sib]))))
      else if i + 1 < length kids \<and> length (contents (kids ! (i + 1))) < order
      then rbind (lateral self (contents parent) i (kids ! (i + 1)) (i + 1)) (\<lambda>(self, pc, right_sib).
             Inr (plug ancestors (BNode pc (kids[i := self, i + 1 := right_sib]))))
      else rbind (split self) (\<lambda>(self, sibling, push).
             let parent = BNode (insert_at i push (contents parent)) (insert_at (i + 1) sibling (kids[i := self])) in
             if length (contents parent) > order then shrink order parent ancestors
             else Inr (plug ancestors parent)))"

text \<open>Consolidation with a sibling: the new parent, and the node that takes the place of both.\<close>

definition consolidate_left :: "'a bnode \<Rightarrow> 'a bnode \<Rightarrow> nat \<Rightarrow> ('a bnode \<times> 'a bnode) result" where
  "consolidate_left self parent i =
     (let left_sib = children parent ! (i - 1) in
      rbind (lget (contents parent) (i - 1)) (\<lambda>sep.
      let left_sib = BNode (contents left_sib @ [sep] @ contents self) (children left_sib @ children self) in
      Inr (BNode (take (i - 1) (contents parent) @ drop i (contents parent))
                 (take i ((children parent)[i - 1 := left_sib]) @ drop (i + 1) (children parent)), left_sib)))"

definition consolidate_right :: "'a bnode \<Rightarrow> 'a bnode \<Rightarrow> nat \<Rightarrow> ('a bnode \<times> 'a bnode) result" where
  "consolidate_right self parent i =
     rbind (lget (contents parent) i) (\<lambda>sep.
     if \<not> i + 1 < length (children parent) then Inl AttributeError
     else
       let right_sib = children parent ! (i + 1);
           self = BNode (contents self @ [sep] @ contents right_sib)
                    (if children self \<noteq> [] then children self @ children right_sib else children self) in
       Inr (BNode (take i (contents parent) @ drop (i + 1) (contents parent))
                  (take (i + 1) ((children parent)[i := self]) @ drop (i + 2) (children parent)), self))"

fun grow :: "nat \<Rightarrow> 'a bnode \<Rightarrow> 'a ancestors \<Rightarrow> 'a bnode result" where
  "grow order self [] = Inl IndexError"
| "grow order self ((parent, i) # ancestors) =
     (let minimum = order div 2; kids = children parent in
      if i + 1 < length kids \<and> length (contents (kids ! (i + 1))) > minimum
      then rbind (lateral (kids ! (i + 1)) (contents parent) (i + 1) self i) (\<lambda>(right_sib, pc, self).
             Inr (plug ancestors (BNode pc (kids[i := self, i + 1 := right_sib]))))
      else if i \<noteq> 0 \<and> length (contents (kids ! (i - 1))) > minimum
      then rbind (lateral (kids ! (i - 1)) (contents parent) (i - 1) self i) (\<lambda>(left_sib, pc, self).
             Inr (plug ancestors (BNode pc (kids[i := self, i - 1 := left_sib]))))
      else rbind (if i \<noteq> 0 then consolidate_left self parent i else consolidate_right self parent i) (\<lambda>(parent, merged).
             if length (contents parent) < minimum
             then if ancestors \<noteq> [] then grow order parent ancestors
                  else if contents parent = [] then Inr merged else Inr parent
             else Inr (plug ancestors parent)))"

definition node_insert :: "nat \<Rightarrow> 'a bnode \<Rightarrow> nat \<Rightarrow> 'a \<Rightarrow> 'a ancestors \<Rightarrow> 'a bnode result" where
  "node_insert order self index item ancestors =
     (let self = BNode (insert_at index item (contents self)) (children self) in
      if length (contents self) > order then shrink order self ancestors else Inr (plug ancestors self))"

text \<open>The way down to the leaf next to an item, on top of the ancestors.\<close>

fun leftmost :: "'a bnode \<Rightarrow> 'a ancestors \<Rightarrow> 'a bnode \<times> 'a ancestors" where
  "leftmost (BNode cs []) as = (BNode cs [], as)"
| "leftmost (BNode cs (k # ks)) as = leftmost k ((BNode cs (k # ks), 0) # as)"

function rightmost :: "'a bnode \<Rightarrow> 'a ancestors \<Rightarrow> 'a bnode \<times> 'a ancestors" where
  "rightmost t as =
     (if children t = [] then (t, as) else rightmost (last (children t)) ((t, length (children t) - 1) # as))"
  by auto
termination
  by (relation "measure (\<lambda>(t, as). size t)") (auto intro: child_size last_child_size)

declare rightmost.simps [simp del]

definition remove_from_leaf :: "nat \<Rightarrow> 'a bnode \<Rightarrow> int \<Rightarrow> 'a ancestors \<Rightarrow> 'a bnode result" where
  "remove_from_leaf order self index ancestors =
     rbind (pop_at index (contents self)) (\<lambda>(x, cs).
     let self = BNode cs (children self) in
     if length cs < order div 2 \<and> ancestors \<noteq> [] then grow order self ancestors else Inr (plug ancestors self))"

text \<open>The item of \<open>self\<close> is overwritten after \<open>self\<close> was put on the ancestors, which are the same object.\<close>

definition node_remove :: "nat \<Rightarrow> 'a bnode \<Rightarrow> nat \<Rightarrow> 'a ancestors \<Rightarrow> 'a bnode result" where
  "node_remove order self index ancestors =
     (if children self = [] then remove_from_leaf order self (int index) ancestors
      else
        let minimum = order div 2 in
        rbind (lget (children self) (index + 1)) (\<lambda>right.
        let (descendent, path) = leftmost right [] in
        if length (contents descendent) > minimum then
          rbind (lset (contents self) index (hd (contents descendent))) (\<lambda>cs.
          remove_from_leaf order descendent 0 (path @ (BNode cs (children self), index + 1) # ancestors))
        else
          rbind (lget (children self) index) (\<lambda>left.
          let (descendent, path) = rightmost left [] in
          rbind (py_get (contents descendent) (-1)) (\<lambda>x.
          rbind (lset (contents self) index x) (\<lambda>cs.
          remove_from_leaf order descendent (int (length (children descendent)) - 1)
            (path @ (BNode cs (children self), index) # ancestors))))))"

section \<open>The tree\<close>

record 'a btree =
  order :: nat
  root :: "'a bnode"

definition BTree :: "nat \<Rightarrow> 'a btree" where
  "BTree n = \<lparr>order = n, root = BNode [] []\<rparr>"

text \<open>\<open>bisect.bisect_left\<close> of the standard library.\<close>

function bisect_loop :: "'a::linorder list \<Rightarrow> 'a \<Rightarrow> nat \<Rightarrow> nat \<Rightarrow> nat" where
  "bisect_loop xs x lo hi =
     (if lo < hi then
        let mid = (lo + hi) div 2 in
        if xs ! mid < x then bisect_loop xs x (mid + 1) hi else bisect_loop xs x lo mid
      else lo)"
  by auto
termination by (relation "measure (\<lambda>(xs, x, lo, hi). hi - lo)") auto

declare bisect_loop.simps [simp del]

definition bisect_left :: "'a::linorder list \<Rightarrow> 'a \<Rightarrow> nat" where
  "bisect_left xs x = bisect_loop xs x 0 (length xs)"

text \<open>\<open>_path_to\<close>: the last of the ancestry, here its first, is where the search ended.\<close>

function path_loop :: "'a::linorder \<Rightarrow> 'a bnode \<Rightarrow> 'a ancestors \<Rightarrow> 'a ancestors result" where
  "path_loop item current ancestry =
     (let index = bisect_left (contents current) item; ancestry = (current, index) # ancestry in
      if children current = [] then Inr ancestry
      else if index < length (contents current) \<and> contents current ! index = item then Inr ancestry
      else if index < length (children current) then path_loop item (children current ! index) ancestry
      else Inl IndexError)"
  by auto
termination
  by (relation "measure (\<lambda>(x, t, as). size t)") (auto intro: child_size last_child_size)

declare path_loop.simps [simp del]

definition path_to :: "'a::linorder btree \<Rightarrow> 'a \<Rightarrow> 'a ancestors result" where
  "path_to t item = path_loop item (root t) []"

definition present :: "'a::linorder \<Rightarrow> 'a ancestors \<Rightarrow> bool" where
  "present item ancestors =
     (let (last, index) = hd ancestors in index < length (contents last) \<and> contents last ! index = item)"

text \<open>The loop of \<open>insert\<close> that goes on down to a leaf.\<close>

function descend :: "'a::linorder \<Rightarrow> 'a bnode \<Rightarrow> nat \<Rightarrow> 'a ancestors \<Rightarrow> 'a ancestors result" where
  "descend item node index ancestors =
     (if children node = [] then Inr ancestors
      else if index < length (children node)
      then let node' = children node ! index; index' = bisect_left (contents node') item
           in descend item node' index' ((node', index') # ancestors)
      else Inl IndexError)"
  by auto
termination
  by (relation "measure (\<lambda>(x, t, i, as). size t)") (auto intro: child_size last_child_size)

declare descend.simps [simp del]

definition insert_item :: "'a::linorder \<Rightarrow> 'a btree \<Rightarrow> (bool \<times> 'a btree) result" where
  "insert_item item t =
     rbind (path_to t item) (\<lambda>ancestors.
     if present item ancestors then Inr (False, t)
     else rbind (descend item (fst (hd ancestors)) (snd (hd ancestors)) ancestors) (\<lambda>ancestors.
       rbind (node_insert (order t) (fst (hd ancestors)) (snd (hd ancestors)) item (tl ancestors)) (\<lambda>r.
       Inr (True, t\<lparr>root := r\<rparr>))))"

definition remove_item :: "'a::linorder \<Rightarrow> 'a btree \<Rightarrow> 'a btree result" where
  "remove_item item t =
     rbind (path_to t item) (\<lambda>ancestors.
     if present item ancestors
     then rbind (node_remove (order t) (fst (hd ancestors)) (snd (hd ancestors)) (tl ancestors)) (\<lambda>r. Inr (t\<lparr>root := r\<rparr>))
     else Inr t)"

definition contains :: "'a::linorder \<Rightarrow> 'a btree \<Rightarrow> bool result" where
  "contains item t = rbind (path_to t item) (\<lambda>ancestors. Inr (present item ancestors))"

text \<open>\<open>__iter__\<close>.\<close>

fun mix :: "'a list list \<Rightarrow> 'a list \<Rightarrow> 'a list" where
  "mix (l # ls) (c # cs) = l @ [c] @ mix ls cs"
| "mix ls cs = []"

primrec recurse :: "'a bnode \<Rightarrow> 'a list" where
  "recurse (BNode cs ks) =
     (if ks \<noteq> [] then mix (map recurse ks) cs @ last (map recurse ks) else cs)"

definition iter :: "'a btree \<Rightarrow> 'a list" where
  "iter t = recurse (root t)"

section \<open>Bulk loading\<close>

text \<open>One pass over the items: full groups, and the items between them.\<close>

definition group_step :: "nat \<Rightarrow> 'a \<Rightarrow> 'a list list \<times> 'a list \<Rightarrow> 'a list list \<times> 'a list" where
  "group_step n item = (\<lambda>(groups, seps).
     if length (last groups) < n then (butlast groups @ [last groups @ [item]], seps)
     else (groups @ [[]], seps @ [item]))"

definition rebalance :: "nat \<Rightarrow> 'a list list \<times> 'a list \<Rightarrow> 'a list list \<times> 'a list" where
  "rebalance minimum = (\<lambda>(groups, seps).
     if length (last groups) < minimum \<and> seps \<noteq> [] then
       let last_two = last (butlast groups) @ [last seps] @ last groups in
       (butlast (butlast groups) @ [take minimum last_two, drop (minimum + 1) last_two],
        butlast seps @ [last_two ! minimum])
     else (groups, seps))"

definition bulk_groups :: "nat \<Rightarrow> 'a list \<Rightarrow> 'a list list \<times> 'a list" where
  "bulk_groups n items = rebalance (n div 2) (fold (group_step n) items ([[]], []))"

definition build_bulkloaded_leaves :: "nat \<Rightarrow> 'a list \<Rightarrow> 'a bnode list \<times> 'a list" where
  "build_bulkloaded_leaves n items =
     (let (leaves, seps) = bulk_groups n items in (map (\<lambda>cs. BNode cs []) leaves, seps))"

text \<open>The nodes of one level take their children from the level below, in order.\<close>

fun attach_children :: "'a list list \<Rightarrow> 'a bnode list \<Rightarrow> nat \<Rightarrow> 'a bnode list result" where
  "attach_children [] below offset = Inr []"
| "attach_children (node # nodes) below offset =
     rbind (new_bnode node (take (length node + 1) (drop offset below))) (\<lambda>n.
     rbind (attach_children nodes below (offset + length node + 1)) (\<lambda>ns. Inr (n # ns)))"

fun bulk_levels :: "nat \<Rightarrow> nat \<Rightarrow> 'a bnode list \<Rightarrow> 'a list \<Rightarrow> ('a bnode list \<times> 'a list) result" where
  "bulk_levels fuel n level seps =
     (if length seps > n + 1 then
        case fuel of 0 \<Rightarrow> Inl OutOfFuel
        | Suc fuel \<Rightarrow>
            let (nodes, seps) = bulk_groups n seps in
            rbind (attach_children nodes level 0) (\<lambda>level. bulk_levels fuel n level seps)
      else Inr (level, seps))"

definition bulkload :: "nat \<Rightarrow> 'a list \<Rightarrow> nat \<Rightarrow> 'a btree result" where
  "bulkload fuel items n =
     (let (leaves, seps) = build_bulkloaded_leaves n items in
      rbind (bulk_levels fuel n leaves seps) (\<lambda>(level, seps).
      rbind (new_bnode seps level) (\<lambda>r. Inr \<lparr>order = n, root = r\<rparr>)))"

end
