(* ===== verification/BtreeShape.thy ===== *)
theory BtreeShape
  imports Btree
begin

text \<open>
  The shape of the B-tree and the order of its items: what splitting, lending and merging nodes
  keep, and that \<open>shrink\<close> and \<open>grow\<close> repair a node that is too long or too short without
  changing the sequence of the items.
\<close>

section \<open>The order of the items\<close>

text \<open>What follows an item list: each separator and the list after it.\<close>

definition sux :: "'a list \<Rightarrow> 'a list list \<Rightarrow> 'a list" where
  "sux cs ls = concat (map2 (#) cs ls)"

lemma sux_simps [simp]: "sux [] ls = []" "sux cs [] = []" "sux (c # cs) (l # ls) = c # l @ sux cs ls"
  by (simp_all add: sux_def)

lemma sux_append [simp]: "length cs = length ls \<Longrightarrow> sux (cs @ cs') (ls @ ls') = sux cs ls @ sux cs' ls'"
  by (simp add: sux_def)

lemma mix_append [simp]: "length ls = length cs \<Longrightarrow> mix (ls @ ls') (cs @ cs') = mix ls cs @ mix ls' cs'"
  by (induction ls cs rule: list_induct2) simp_all

lemma mix_sux: "length ls = length cs \<Longrightarrow> mix (l # ls) cs @ last (l # ls) = l @ sux cs ls"
  by (induction ls cs arbitrary: l rule: list_induct2) auto

lemma recurse_split:
  assumes "length l1 = length c1" and "length l2 = length c2"
  shows "recurse (BNode (c1 @ c2) (l1 @ k # l2)) = mix (map recurse l1) c1 @ recurse k @ sux c2 (map recurse l2)"
  using assms mix_sux [of "map recurse l2" c2 "recurse k"] by simp

lemma node_split:
  assumes "length ks = Suc (length cs)" and "i \<le> length cs"
  obtains c1 c2 l1 k l2 where "cs = c1 @ c2" "ks = l1 @ k # l2" "length c1 = i" "length l1 = i" "length l2 = length c2"
  using assms that [of "take i cs" "drop i cs" "take i ks" "ks ! i" "drop (Suc i) ks"]
  by (simp add: id_take_nth_drop)

section \<open>The shape of the tree\<close>

text \<open>
  All leaves at the same depth \<open>h\<close>, one child more than items, at least half of the order and at
  most the order many items in every node below the top one, which has at least \<open>lo\<close>.
\<close>

fun ok_node :: "nat \<Rightarrow> nat \<Rightarrow> nat \<Rightarrow> 'a bnode \<Rightarrow> bool" where
  "ok_node lo n 0 (BNode cs ks) \<longleftrightarrow> lo \<le> length cs \<and> length cs \<le> n \<and> ks = []"
| "ok_node lo n (Suc h) (BNode cs ks) \<longleftrightarrow> lo \<le> length cs \<and> length cs \<le> n \<and> length ks = Suc (length cs) \<and>
     (\<forall>k \<in> set ks. ok_node (n div 2) n h k)"

text \<open>The same without the bounds of the top node.\<close>

fun body :: "nat \<Rightarrow> nat \<Rightarrow> 'a bnode \<Rightarrow> bool" where
  "body n 0 (BNode cs ks) \<longleftrightarrow> ks = []"
| "body n (Suc h) (BNode cs ks) \<longleftrightarrow> length ks = Suc (length cs) \<and> (\<forall>k \<in> set ks. ok_node (n div 2) n h k)"

lemma ok_node_body: "ok_node lo n h t \<longleftrightarrow> lo \<le> length (contents t) \<and> length (contents t) \<le> n \<and> body n h t"
  by (cases t; cases h) auto

definition ok_root :: "nat \<Rightarrow> nat \<Rightarrow> 'a bnode \<Rightarrow> bool" where
  "ok_root n h t \<longleftrightarrow> ok_node (if h = 0 then 0 else 1) n h t"

text \<open>The ancestors of a node at height \<open>h\<close>: all they hold beside it is in order.\<close>

fun ok_path :: "nat \<Rightarrow> nat \<Rightarrow> 'a ancestors \<Rightarrow> bool" where
  "ok_path n h [] \<longleftrightarrow> True"
| "ok_path n h ((p, i) # as) \<longleftrightarrow>
     (if as = [] then 1 else n div 2) \<le> length (contents p) \<and> length (contents p) \<le> n \<and>
     length (children p) = Suc (length (contents p)) \<and> i \<le> length (contents p) \<and>
     (\<forall>j < length (children p). j \<noteq> i \<longrightarrow> ok_node (n div 2) n h (children p ! j)) \<and> ok_path n (Suc h) as"

text \<open>The items before and after a node with these ancestors.\<close>

fun before :: "'a ancestors \<Rightarrow> 'a list" where
  "before [] = []"
| "before ((p, i) # as) = before as @ mix (map recurse (take i (children p))) (take i (contents p))"

fun after :: "'a ancestors \<Rightarrow> 'a list" where
  "after [] = []"
| "after ((p, i) # as) = sux (drop i (contents p)) (map recurse (drop (Suc i) (children p))) @ after as"

lemma recurse_at:
  assumes "length ks = Suc (length cs)" and "i \<le> length cs"
  shows "recurse (BNode cs (ks[i := t])) =
    mix (map recurse (take i ks)) (take i cs) @ recurse t @ sux (drop i cs) (map recurse (drop (Suc i) ks))"
proof -
  have "cs = take i cs @ drop i cs" "ks[i := t] = take i ks @ t # drop (Suc i) ks"
    using assms by (simp_all add: upd_conv_take_nth_drop)
  then have "recurse (BNode cs (ks[i := t])) = recurse (BNode (take i cs @ drop i cs) (take i ks @ t # drop (Suc i) ks))"
    by metis
  also have "\<dots> = mix (map recurse (take i ks)) (take i cs) @ recurse t @ sux (drop i cs) (map recurse (drop (Suc i) ks))"
    using assms by (intro recurse_split) auto
  finally show ?thesis .
qed

lemma recurse_plug:
  "ok_path n h as \<Longrightarrow> recurse (plug as t) = before as @ recurse t @ after as"
proof (induction as arbitrary: h t)
  case (Cons a as)
  then show ?case by (cases a) (auto simp: recurse_at simp del: recurse.simps)
qed simp

lemma body_update:
  assumes "length (children p) = Suc (length (contents p))" and "i \<le> length (contents p)"
    and "\<And>j. j < length (children p) \<Longrightarrow> j \<noteq> i \<Longrightarrow> ok_node (n div 2) n h (children p ! j)" and "ok_node (n div 2) n h t"
  shows "body n (Suc h) (BNode (contents p) ((children p)[i := t]))"
  using assms by (auto simp: in_set_conv_nth nth_list_update)

lemma ok_plug:
  assumes "ok_path n h as" and "ok_node (if as = [] then (if h = 0 then 0 else 1) else n div 2) n h t"
  shows "ok_root n (h + length as) (plug as t)"
  using assms
proof (induction as arbitrary: h t)
  case Nil
  then show ?case by (simp add: ok_root_def)
next
  case (Cons a as)
  obtain p i where a: "a = (p, i)" by (cases a)
  let ?p = "BNode (contents p) ((children p)[i := t])"
  have "body n (Suc h) ?p" using Cons.prems a by (intro body_update) auto
  then have "ok_root n (Suc h + length as) (plug as ?p)"
    using Cons.prems a by (intro Cons.IH) (auto simp: ok_node_body)
  then show ?case using a by simp
qed

section \<open>Two neighbours\<close>

lemma recurse_join:
  assumes "length l1 = Suc (length c1)" and "length l2 = Suc (length c2)"
  shows "recurse (BNode (c1 @ m # c2) (l1 @ l2)) = recurse (BNode c1 l1) @ m # recurse (BNode c2 l2)"
proof -
  obtain a k where l1: "l1 = a @ [k]" "length a = length c1" using assms(1) by (metis length_append_singleton length_Suc_conv_rev nat.inject)
  obtain k2 b where l2: "l2 = k2 # b" "length b = length c2" using assms(2) by (metis length_Suc_conv)
  have "recurse (BNode (c1 @ m # c2) (a @ k # k2 # b)) = mix (map recurse a) c1 @ recurse k @ sux (m # c2) (map recurse (k2 # b))"
    using l1 l2 by (intro recurse_split) auto
  moreover have "recurse (BNode (c1 @ []) (a @ k # [])) = mix (map recurse a) c1 @ recurse k @ sux [] (map recurse [])"
    using l1 by (intro recurse_split) auto
  moreover have "recurse (BNode ([] @ c2) ([] @ k2 # b)) = mix (map recurse []) [] @ recurse k2 @ sux c2 (map recurse b)"
    using l2 by (intro recurse_split) auto
  ultimately show ?thesis using l1 l2 by simp
qed

lemma recurse_pair:
  assumes "length ks = Suc (length cs)" and "i < length cs"
  shows "recurse (BNode (cs[i := x]) (ks[i := a, Suc i := b])) =
    mix (map recurse (take i ks)) (take i cs) @ recurse a @ x # recurse b @ sux (drop (Suc i) cs) (map recurse (drop (Suc (Suc i)) ks))"
proof -
  have "cs[i := x] = take i cs @ x # drop (Suc i) cs" "ks[i := a, Suc i := b] = take i ks @ a # b # drop (Suc (Suc i)) ks"
    using assms by (simp_all add: upd_conv_take_nth_drop take_Suc_conv_app_nth nth_list_update list_update_append)
  moreover have "recurse (BNode (take i cs @ x # drop (Suc i) cs) (take i ks @ a # b # drop (Suc (Suc i)) ks)) =
    mix (map recurse (take i ks)) (take i cs) @ recurse a @ sux (x # drop (Suc i) cs) (map recurse (b # drop (Suc (Suc i)) ks))"
    using assms by (intro recurse_split) auto
  ultimately show ?thesis by simp
qed

text \<open>What is before and after a node, seen from the left and from the right sibling.\<close>

lemma around_left:
  assumes "length (children p) = Suc (length (contents p))" and "Suc j \<le> length (contents p)"
  shows "before ((p, Suc j) # as) = before as @ mix (map recurse (take j (children p))) (take j (contents p)) @
           recurse (children p ! j) @ [contents p ! j]"
  using assms by (simp add: take_Suc_conv_app_nth)

lemma around_right:
  assumes "length (children p) = Suc (length (contents p))" and "i < length (contents p)"
  shows "after ((p, i) # as) = contents p ! i # recurse (children p ! Suc i) @
           sux (drop (Suc i) (contents p)) (map recurse (drop (Suc (Suc i)) (children p))) @ after as"
  using assms by (simp flip: Cons_nth_drop_Suc)

lemma body_cases:
  assumes "body n h t"
  obtains "h = 0" "children t = []" | h' where "h = Suc h'" "length (children t) = Suc (length (contents t))"
    "\<forall>k \<in> set (children t). ok_node (n div 2) n h' k"
  using assms that by (cases t; cases h) auto

lemma pop_at_first: "pop_at 0 (x # xs) = Inr (x, xs)"
  by (simp add: pop_at_def py_index_def)

lemma pop_at_last: "pop_at (-1) (xs @ [x]) = Inr (x, xs)"
  by (simp add: pop_at_def py_index_def nth_append)

lemma split_ok:
  assumes "body n h t" and "length (contents t) = Suc n" and "2 \<le> n"
  shows "\<exists>a b m. split t = Inr (a, b, m) \<and> ok_node (n div 2) n h a \<and> ok_node (n div 2) n h b \<and>
           recurse t = recurse a @ m # recurse b"
proof -
  obtain cs ks where t: "t = BNode cs ks" by (cases t)
  let ?c = "Suc n div 2"
  have c: "?c < length cs" using assms t by simp
  have cs: "cs = take ?c cs @ cs ! ?c # drop (Suc ?c) cs" using c by (rule id_take_nth_drop)
  have len: "length cs = Suc n" "n div 2 \<le> ?c" "n div 2 \<le> n - ?c" using assms t by auto
  from assms(1) show ?thesis
  proof (cases rule: body_cases)
    case 1
    then show ?thesis using t cs c len by (auto simp: split_def new_bnode_def Let_def ok_node_body)
  next
    case (2 h')
    have ks: "ks = take (Suc ?c) ks @ drop (Suc ?c) ks" by simp
    have "recurse (BNode (take ?c cs @ cs ! ?c # drop (Suc ?c) cs) (take (Suc ?c) ks @ drop (Suc ?c) ks)) =
        recurse (BNode (take ?c cs) (take (Suc ?c) ks)) @ cs ! ?c # recurse (BNode (drop (Suc ?c) cs) (drop (Suc ?c) ks))"
      using 2 t c by (intro recurse_join) auto
    then have "recurse t = recurse (BNode (take ?c cs) (take (Suc ?c) ks)) @ cs ! ?c # recurse (BNode (drop (Suc ?c) cs) (drop (Suc ?c) ks))"
      using t cs ks by metis
    moreover have "ok_node (n div 2) n h (BNode (take ?c cs) (take (Suc ?c) ks))" "ok_node (n div 2) n h (BNode (drop (Suc ?c) cs) (drop (Suc ?c) ks))"
      using 2 t len by (auto dest: in_set_takeD in_set_dropD)
    ultimately show ?thesis using 2 t c len by (simp add: split_def new_bnode_def Let_def)
  qed
qed

text \<open>Lending an item over the separator \<open>s\<close>, from the right and from the left.\<close>

lemma lateral_from_right:
  assumes "body n h t" and "body n h d" and "contents t \<noteq> []" and "j < i" and "j < length pc"
  shows "\<exists>t' d' x. lateral t pc i d j = Inr (t', pc[j := x], d') \<and> body n h t' \<and> body n h d' \<and>
           recurse d @ pc ! j # recurse t = recurse d' @ x # recurse t' \<and>
           length (contents t') = length (contents t) - 1 \<and> length (contents d') = Suc (length (contents d))"
proof -
  obtain x cs ks where t: "t = BNode (x # cs) ks" using assms(3) by (cases t) (auto simp: neq_Nil_conv)
  obtain ds es where d: "d = BNode ds es" by (cases d)
  from assms(1) show ?thesis
  proof (cases rule: body_cases)
    case 1
    then have "es = []" using assms(2) d by simp
    then show ?thesis using 1 t d assms(4,5) by (simp add: lateral_def pop_at_first)
  next
    case (2 h')
    then obtain k ks' where ks: "ks = k # ks'" "length ks' = Suc (length cs)" using t by (auto simp: length_Suc_conv)
    have es: "length es = Suc (length ds)" "\<forall>k \<in> set es. ok_node (n div 2) n h' k" using assms(2) d 2 by auto
    have k0: "recurse (BNode [] [k]) = recurse k" by simp
    have a1: "recurse t = recurse k @ x # recurse (BNode cs ks')"
      using recurse_join [of "[k]" "[]" ks' cs x] ks t by (simp del: recurse.simps add: k0)
    have a2: "recurse (BNode (ds @ [pc ! j]) (es @ [k])) = recurse d @ pc ! j # recurse k"
      using recurse_join [of es ds "[k]" "[]" "pc ! j"] es d by (simp del: recurse.simps add: k0)
    have "lateral t pc i d j = Inr (BNode cs ks', pc[j := x], BNode (ds @ [pc ! j]) (es @ [k]))"
      using t d ks assms(4,5) by (simp add: lateral_def pop_at_first)
    moreover have "body n h (BNode cs ks')" "body n h (BNode (ds @ [pc ! j]) (es @ [k]))"
      using 2 ks es t by auto
    ultimately show ?thesis using a1 a2 t d by (simp del: recurse.simps)
  qed
qed

lemma lateral_from_left:
  assumes "body n h t" and "body n h d" and "contents t \<noteq> []" and "i \<le> j" and "i < length pc"
  shows "\<exists>t' d' x. lateral t pc i d j = Inr (t', pc[i := x], d') \<and> body n h t' \<and> body n h d' \<and>
           recurse t @ pc ! i # recurse d = recurse t' @ x # recurse d' \<and>
           length (contents t') = length (contents t) - 1 \<and> length (contents d') = Suc (length (contents d))"
proof -
  obtain cs x ks where t: "t = BNode (cs @ [x]) ks" using assms(3) by (cases t) (metis bnode.sel(1) rev_exhaust)
  obtain ds es where d: "d = BNode ds es" by (cases d)
  from assms(1) show ?thesis
  proof (cases rule: body_cases)
    case 1
    then have "es = []" using assms(2) d by simp
    then show ?thesis using 1 t d assms(4,5) by (simp add: lateral_def pop_at_last)
  next
    case (2 h')
    then obtain ks' k where ks: "ks = ks' @ [k]" "length ks' = Suc (length cs)" using t
      by (metis bnode.sel length_Suc_conv_rev length_append_singleton nat.inject)
    have es: "length es = Suc (length ds)" "\<forall>k \<in> set es. ok_node (n div 2) n h' k" using assms(2) d 2 by auto
    have k0: "recurse (BNode [] [k]) = recurse k" by simp
    have a1: "recurse t = recurse (BNode cs ks') @ x # recurse k"
      using recurse_join [of ks' cs "[k]" "[]" x] ks t by (simp del: recurse.simps add: k0)
    have a2: "recurse (BNode (pc ! i # ds) (k # es)) = recurse k @ pc ! i # recurse d"
      using recurse_join [of "[k]" "[]" es ds "pc ! i"] es d by (simp del: recurse.simps add: k0)
    have "lateral t pc i d j = Inr (BNode cs ks', pc[i := x], BNode (pc ! i # ds) (k # es))"
      using t d ks assms(4,5) by (simp add: lateral_def pop_at_last)
    moreover have "body n h (BNode cs ks')" "body n h (BNode (pc ! i # ds) (k # es))"
      using 2 ks es t by auto
    ultimately show ?thesis using a1 a2 t d by (simp del: recurse.simps)
  qed
qed

section \<open>Repairing a node\<close>

text \<open>A parent with two new neighbouring children and a new item between them, put back in place.\<close>

lemma plug_pair:
  assumes path: "ok_path n h ((p, i') # as)" and j: "j < length (contents p)" and i': "i' = j \<or> i' = Suc j"
    and a: "ok_node (n div 2) n h a" and b: "ok_node (n div 2) n h b"
    and r: "recurse (children p ! j) @ contents p ! j # recurse t = recurse a @ x # recurse b \<or> i' \<noteq> Suc j"
           "recurse t @ contents p ! j # recurse (children p ! Suc j) = recurse a @ x # recurse b \<or> i' \<noteq> j"
  shows "ok_root n (Suc h + length as) (plug as (BNode ((contents p)[j := x]) ((children p)[j := a, Suc j := b]))) \<and>
    recurse (plug as (BNode ((contents p)[j := x]) ((children p)[j := a, Suc j := b]))) =
      before ((p, i') # as) @ recurse t @ after ((p, i') # as)"
proof -
  let ?P = "BNode ((contents p)[j := x]) ((children p)[j := a, Suc j := b])"
  have len: "length (children p) = Suc (length (contents p))" "ok_path n (Suc h) as" using path by auto
  have "ok_node (n div 2) n h k" if "k \<in> set ((children p)[j := a, Suc j := b])" for k
  proof -
    from that obtain l where l: "l < length (children p)" "k = (children p)[j := a, Suc j := b] ! l" by (auto simp: in_set_conv_nth)
    have "ok_node (n div 2) n h (children p ! l)" if "l \<noteq> i'" using path l(1) that by simp
    then show ?thesis using l len i' a b by (cases "l = Suc j"; cases "l = j") auto
  qed
  then have "ok_node (if as = [] then 1 else n div 2) n (Suc h) ?P" using path by (auto simp: ok_node_body)
  then have "ok_root n (Suc h + length as) (plug as ?P)" using len by (intro ok_plug) auto
  moreover have "recurse ?P = mix (map recurse (take j (children p))) (take j (contents p)) @ recurse a @ x # recurse b @
      sux (drop (Suc j) (contents p)) (map recurse (drop (Suc (Suc j)) (children p)))"
    using len j by (intro recurse_pair) auto
  moreover have "before as @ recurse ?P @ after as = before ((p, i') # as) @ recurse t @ after ((p, i') # as)"
    using i'
  proof
    assume e: "i' = Suc j"
    have "before ((p, Suc j) # as) = before as @ mix (map recurse (take j (children p))) (take j (contents p)) @
           recurse (children p ! j) @ [contents p ! j]" using len j by (intro around_left) auto
    then show ?thesis using r e calculation(2) by (simp del: recurse.simps)
  next
    assume e: "i' = j"
    have "after ((p, j) # as) = contents p ! j # recurse (children p ! Suc j) @
           sux (drop (Suc j) (contents p)) (map recurse (drop (Suc (Suc j)) (children p))) @ after as"
      using len j by (intro around_right) auto
    then show ?thesis using r e calculation(2) by (simp del: recurse.simps)
  qed
  ultimately show ?thesis using recurse_plug [OF len(2)] by metis
qed

text \<open>A parent that has got one more child and one more item.\<close>

lemma split_parent:
  assumes "length ks = Suc (length cs)" and "i \<le> length cs" and "\<And>j. j < length ks \<Longrightarrow> j \<noteq> i \<Longrightarrow> ok_node (n div 2) n h (ks ! j)"
    and "ok_node (n div 2) n h a" and "ok_node (n div 2) n h b"
  shows "body n (Suc h) (BNode (insert_at i m cs) (insert_at (i + 1) b (ks[i := a])))"
    "recurse (BNode (insert_at i m cs) (insert_at (i + 1) b (ks[i := a]))) =
       mix (map recurse (take i ks)) (take i cs) @ recurse a @ m # recurse b @ sux (drop i cs) (map recurse (drop (Suc i) ks))"
proof -
  have ins: "insert_at (i + 1) b (ks[i := a]) = take i ks @ a # b # drop (Suc i) ks"
    using assms by (simp add: insert_at_def upd_conv_take_nth_drop take_Suc_conv_app_nth)
  have "ok_node (n div 2) n h k" if "k \<in> set (take i ks @ a # b # drop (Suc i) ks)" for k
  proof -
    have "\<exists>j < length ks. j \<noteq> i \<and> k = ks ! j" if k: "k \<in> set (take i ks)"
    proof -
      obtain l where "l < length (take i ks)" "k = take i ks ! l" using k unfolding in_set_conv_nth by blast
      then show ?thesis by (intro exI [of _ l]) auto
    qed
    moreover have "\<exists>j < length ks. j \<noteq> i \<and> k = ks ! j" if k: "k \<in> set (drop (Suc i) ks)"
    proof -
      obtain l where "l < length (drop (Suc i) ks)" "k = drop (Suc i) ks ! l" using k unfolding in_set_conv_nth by blast
      then show ?thesis by (intro exI [of _ "Suc i + l"]) auto
    qed
    ultimately show ?thesis using that assms by auto
  qed
  then show "body n (Suc h) (BNode (insert_at i m cs) (insert_at (i + 1) b (ks[i := a])))"
    using assms(1,2) unfolding ins by (simp add: insert_at_def)
  have "recurse (BNode (take i cs @ m # drop i cs) (take i ks @ a # b # drop (Suc i) ks)) =
      mix (map recurse (take i ks)) (take i cs) @ recurse a @ sux (m # drop i cs) (map recurse (b # drop (Suc i) ks))"
    using assms(1,2) by (intro recurse_split) auto
  then show "recurse (BNode (insert_at i m cs) (insert_at (i + 1) b (ks[i := a]))) =
       mix (map recurse (take i ks)) (take i cs) @ recurse a @ m # recurse b @ sux (drop i cs) (map recurse (drop (Suc i) ks))"
    unfolding ins by (simp add: insert_at_def del: recurse.simps)
qed

lemma shrink_ok:
  assumes "ok_path n h as" and "body n h t" and "length (contents t) = Suc n" and "2 \<le> n"
  shows "\<exists>r H. shrink n t as = Inr r \<and> ok_root n H r \<and> recurse r = before as @ recurse t @ after as"
  using assms
proof (induction as arbitrary: h t)
  case Nil
  then obtain a b m where s: "split t = Inr (a, b, m)" "ok_node (n div 2) n h a" "ok_node (n div 2) n h b"
    "recurse t = recurse a @ m # recurse b" using split_ok [of n h t] by blast
  then have "ok_root n (Suc h) (BNode [m] [a, b])" using Nil.prems by (simp add: ok_root_def)
  with s Nil.prems show ?case by auto
next
  case (Cons q as)
  obtain p i where q: "q = (p, i)" by (cases q)
  let ?kids = "children p"
  note prems = Cons.prems [unfolded q]
  have len: "length ?kids = Suc (length (contents p))" "i \<le> length (contents p)" "ok_path n (Suc h) as" using prems(1) by auto
  have kid: "ok_node (n div 2) n h (?kids ! j)" if "j < length ?kids" "j \<noteq> i" for j using prems(1) that by auto
  have ne: "contents t \<noteq> []" using prems by auto
  consider (left) j where "i = Suc j" "length (contents (?kids ! j)) < n"
    | (right) "\<not> (i \<noteq> 0 \<and> length (contents (?kids ! (i - 1))) < n)" "i + 1 < length ?kids" "length (contents (?kids ! (i + 1))) < n"
    | (divide) "\<not> (i \<noteq> 0 \<and> length (contents (?kids ! (i - 1))) < n)" "\<not> (i + 1 < length ?kids \<and> length (contents (?kids ! (i + 1))) < n)"
    by (cases i) auto
  then show ?case
  proof cases
    case (left j)
    have d: "body n h (?kids ! j)" "n div 2 \<le> length (contents (?kids ! j))" using kid [of j] left len by (auto simp: ok_node_body)
    obtain t' d' x where l: "lateral t (contents p) i (?kids ! j) j = Inr (t', (contents p)[j := x], d')" "body n h t'" "body n h d'"
        "recurse (?kids ! j) @ contents p ! j # recurse t = recurse d' @ x # recurse t'"
        "length (contents t') = length (contents t) - 1" "length (contents d') = Suc (length (contents (?kids ! j)))"
      using lateral_from_right [OF prems(2) d(1) ne, of j i "contents p"] left len by auto
    have "ok_node (n div 2) n h d'" "ok_node (n div 2) n h t'" using l(2,3,5,6) left(2) d(2) prems(3) by (auto simp: ok_node_body)
    from plug_pair [OF prems(1) _ _ this, of j t x] l(4) left(1) len
    show ?thesis unfolding q using l(1) left by (auto simp: list_update_swap [of "Suc j" j] simp del: before.simps after.simps plug.simps)
  next
    case right
    have d: "body n h (?kids ! Suc i)" "n div 2 \<le> length (contents (?kids ! Suc i))" using kid [of "Suc i"] right len by (auto simp: ok_node_body)
    obtain t' d' x where l: "lateral t (contents p) i (?kids ! Suc i) (Suc i) = Inr (t', (contents p)[i := x], d')" "body n h t'" "body n h d'"
        "recurse t @ contents p ! i # recurse (?kids ! Suc i) = recurse t' @ x # recurse d'"
        "length (contents t') = length (contents t) - 1" "length (contents d') = Suc (length (contents (?kids ! Suc i)))"
      using lateral_from_left [OF prems(2) d(1) ne, of i "Suc i" "contents p"] right len by auto
    have "ok_node (n div 2) n h t'" "ok_node (n div 2) n h d'" using l(2,3,5,6) right(3) d(2) prems(3) by (auto simp: ok_node_body)
    from plug_pair [OF prems(1) _ _ this, of i t x] l(4) right(2) len
    show ?thesis unfolding q using l(1) right by (auto simp del: before.simps after.simps plug.simps)
  next
    case divide
    obtain a b m where s: "split t = Inr (a, b, m)" "ok_node (n div 2) n h a" "ok_node (n div 2) n h b"
      "recurse t = recurse a @ m # recurse b" using split_ok [OF prems(2-4)] by blast
    let ?P = "BNode (insert_at i m (contents p)) (insert_at (i + 1) b (?kids[i := a]))"
    have P: "body n (Suc h) ?P" "recurse ?P = mix (map recurse (take i ?kids)) (take i (contents p)) @ recurse a @ m # recurse b @
        sux (drop i (contents p)) (map recurse (drop (Suc i) ?kids))"
      using split_parent [OF len(1,2) kid s(2,3)] by blast+
    have eq: "before as @ recurse ?P @ after as = before ((p, i) # as) @ recurse t @ after ((p, i) # as)"
      using P(2) s(4) by (simp del: recurse.simps)
    have lc: "length (contents ?P) = Suc (length (contents p))" using len by (simp add: insert_at_def)
    have pb: "length (contents p) \<le> n" "(if as = [] then 1 else n div 2) \<le> length (contents p)" using prems(1) by auto
    have step: "shrink n t ((p, i) # as) = (if length (contents ?P) > n then shrink n ?P as else Inr (plug as ?P))"
      unfolding shrink.simps(2) Let_def if_not_P [OF divide(1)] if_not_P [OF divide(2)] s(1) rbind_simps prod.case by (rule refl)
    show ?thesis
    proof (cases "length (contents ?P) > n")
      case True
      then have "length (contents ?P) = Suc n" using lc pb by simp
      with Cons.IH [OF len(3) P(1) _ prems(4)] eq step True show ?thesis unfolding q by metis
    next
      case False
      then have "ok_node (if as = [] then 1 else n div 2) n (Suc h) ?P" using P(1) lc pb by (auto simp: ok_node_body)
      then have "ok_root n (Suc h + length as) (plug as ?P)" using len(3) by (intro ok_plug) auto
      with step False eq recurse_plug [OF len(3)] show ?thesis unfolding q by metis
    qed
  qed
qed

text \<open>Two neighbours and the item between them become one node.\<close>

lemma merge_ok:
  assumes "body n h a" and "body n h b" and "length (contents a) + length (contents b) < n" and "n div 2 \<le> Suc (length (contents a) + length (contents b))"
  shows "ok_node (n div 2) n h (BNode (contents a @ [m] @ contents b) (children a @ children b))"
    "recurse (BNode (contents a @ [m] @ contents b) (children a @ children b)) = recurse a @ m # recurse b"
proof -
  obtain ca ka cb kb where ab: "a = BNode ca ka" "b = BNode cb kb" by (cases a, cases b)
  have "ok_node (n div 2) n h (BNode (contents a @ [m] @ contents b) (children a @ children b)) \<and>
    recurse (BNode (contents a @ [m] @ contents b) (children a @ children b)) = recurse a @ m # recurse b"
    using assms(1)
  proof (cases rule: body_cases)
    case 1
    then show ?thesis using assms ab by simp
  next
    case (2 h')
    then have "length ka = Suc (length ca)" "length kb = Suc (length cb)" "\<forall>k \<in> set kb. ok_node (n div 2) n h' k" using assms(2) ab by auto
    then show ?thesis using recurse_join [of ka ca kb cb m] 2 assms ab by (auto simp del: recurse.simps)
  qed
  then show "ok_node (n div 2) n h (BNode (contents a @ [m] @ contents b) (children a @ children b))"
    "recurse (BNode (contents a @ [m] @ contents b) (children a @ children b)) = recurse a @ m # recurse b" by blast+
qed

lemma merged_parent:
  assumes "length ks = Suc (length cs)" and "j < length cs" and "\<And>l. l < length ks \<Longrightarrow> l \<noteq> j \<Longrightarrow> l \<noteq> Suc j \<Longrightarrow> ok_node (n div 2) n h (ks ! l)"
    and "ok_node (n div 2) n h M"
  shows "body n (Suc h) (BNode (take j cs @ drop (Suc j) cs) (take j ks @ M # drop (Suc (Suc j)) ks))"
    "recurse (BNode (take j cs @ drop (Suc j) cs) (take j ks @ M # drop (Suc (Suc j)) ks)) =
       mix (map recurse (take j ks)) (take j cs) @ recurse M @ sux (drop (Suc j) cs) (map recurse (drop (Suc (Suc j)) ks))"
proof -
  have "ok_node (n div 2) n h k" if "k \<in> set (take j ks @ M # drop (Suc (Suc j)) ks)" for k
  proof -
    have "ok_node (n div 2) n h k" if k: "k \<in> set (take j ks)"
    proof -
      obtain l where "l < length (take j ks)" "k = take j ks ! l" using k unfolding in_set_conv_nth by blast
      then show ?thesis using assms(3) [of l] by simp
    qed
    moreover have "ok_node (n div 2) n h k" if k: "k \<in> set (drop (Suc (Suc j)) ks)"
    proof -
      obtain l where "l < length (drop (Suc (Suc j)) ks)" "k = drop (Suc (Suc j)) ks ! l" using k unfolding in_set_conv_nth by blast
      then show ?thesis using assms(3) [of "Suc (Suc j) + l"] by simp
    qed
    ultimately show ?thesis using that assms(4) by auto
  qed
  then show "body n (Suc h) (BNode (take j cs @ drop (Suc j) cs) (take j ks @ M # drop (Suc (Suc j)) ks))"
    using assms(1,2) by simp
  show "recurse (BNode (take j cs @ drop (Suc j) cs) (take j ks @ M # drop (Suc (Suc j)) ks)) =
       mix (map recurse (take j ks)) (take j cs) @ recurse M @ sux (drop (Suc j) cs) (map recurse (drop (Suc (Suc j)) ks))"
    using assms(1,2) by (intro recurse_split) auto
qed

text \<open>Both ways to consolidate, as one: the neighbours are the children \<open>j\<close> and \<open>j + 1\<close>.\<close>

lemma consolidate_ok:
  assumes path: "ok_path n h ((p, i) # as)" and t: "body n h t" "Suc (length (contents t)) = n div 2" and n: "2 \<le> n"
    and sib: "i \<noteq> 0 \<Longrightarrow> length (contents (children p ! (i - 1))) \<le> n div 2"
       "i = 0 \<Longrightarrow> length (contents (children p ! 1)) \<le> n div 2"
  shows "\<exists>P M. (if i \<noteq> 0 then consolidate_left t p i else consolidate_right t p i) = Inr (P, M) \<and>
    body n (Suc h) P \<and> ok_node (n div 2) n h M \<and> Suc (length (contents P)) = length (contents p) \<and>
    before as @ recurse P @ after as = before ((p, i) # as) @ recurse t @ after ((p, i) # as) \<and>
    (contents P = [] \<longrightarrow> recurse P = recurse M)"
proof -
  have len: "length (children p) = Suc (length (contents p))" "i \<le> length (contents p)" "contents p \<noteq> []" using path n by (auto split: if_splits)
  have kid: "ok_node (n div 2) n h (children p ! l)" if "l < length (children p)" "l \<noteq> i" for l using path that by auto
  show ?thesis
  proof (cases i)
    case (Suc j)
    let ?l = "children p ! j"
    have l: "ok_node (n div 2) n h ?l" using kid [of j] len Suc by simp
    let ?M = "BNode (contents ?l @ [contents p ! j] @ contents t) (children ?l @ children t)"
    have "body n h ?l" "length (contents ?l) + length (contents t) < n" "n div 2 \<le> Suc (length (contents ?l) + length (contents t))"
      using l sib(1) Suc t n by (auto simp: ok_node_body)
    note M = merge_ok [OF this(1) t(1) this(2,3), of "contents p ! j"]
    let ?P = "BNode (take j (contents p) @ drop (Suc j) (contents p)) (take j (children p) @ ?M # drop (Suc (Suc j)) (children p))"
    have "consolidate_left t p i = Inr (?P, ?M)"
      using Suc len by (simp add: consolidate_left_def Let_def take_Suc_conv_app_nth)
    moreover have P: "body n (Suc h) ?P" "recurse ?P = mix (map recurse (take j (children p))) (take j (contents p)) @ recurse ?M @
       sux (drop (Suc j) (contents p)) (map recurse (drop (Suc (Suc j)) (children p)))"
      using merged_parent [OF len(1) _ kid M(1), of j] len Suc by auto
    moreover have "before as @ recurse ?P @ after as = before ((p, i) # as) @ recurse t @ after ((p, i) # as)"
      using around_left [of p j as] len Suc P(2) M(2) by (simp del: recurse.simps)
    moreover have "contents ?P = [] \<longrightarrow> recurse ?P = recurse ?M" using P(2) len Suc by (auto simp del: recurse.simps)
    ultimately show ?thesis using M(1) len Suc by (auto simp del: recurse.simps before.simps after.simps)
  next
    case 0
    let ?r = "children p ! 1"
    have r: "ok_node (n div 2) n h ?r" using kid [of 1] len 0 by (cases "contents p") auto
    let ?M = "BNode (contents t @ [contents p ! 0] @ contents ?r) (children t @ children ?r)"
    have "body n h ?r" "length (contents t) + length (contents ?r) < n" "n div 2 \<le> Suc (length (contents t) + length (contents ?r))"
      using r sib(2) 0 t n by (auto simp: ok_node_body)
    note M = merge_ok [OF t(1) this(1) this(2,3), of "contents p ! 0"]
    have ch: "(if children t \<noteq> [] then children t @ children ?r else children t) = children t @ children ?r"
      using t(1) \<open>body n h ?r\<close> by (cases h; cases t; cases ?r) auto
    let ?P = "BNode (take 0 (contents p) @ drop (Suc 0) (contents p)) (take 0 (children p) @ ?M # drop (Suc (Suc 0)) (children p))"
    have "consolidate_right t p i = Inr (?P, ?M)"
      using 0 len ch by (cases "children p") (auto simp: consolidate_right_def Let_def)
    moreover have P: "body n (Suc h) ?P" "recurse ?P = mix (map recurse (take 0 (children p))) (take 0 (contents p)) @ recurse ?M @
       sux (drop (Suc 0) (contents p)) (map recurse (drop (Suc (Suc 0)) (children p)))"
      using merged_parent [OF len(1) _ kid M(1), of 0] len 0 by auto
    moreover have "before as @ recurse ?P @ after as = before ((p, i) # as) @ recurse t @ after ((p, i) # as)"
      using around_right [of p 0 as] len 0 P(2) M(2) by (simp del: recurse.simps)
    moreover have "contents ?P = [] \<longrightarrow> recurse ?P = recurse ?M" using P(2) len 0 by (auto simp del: recurse.simps)
    ultimately show ?thesis using M(1) len 0 by (auto simp del: recurse.simps before.simps after.simps)
  qed
qed

lemma grow_ok:
  assumes "ok_path n h as" and "as \<noteq> []" and "body n h t" and "Suc (length (contents t)) = n div 2" and "2 \<le> n"
  shows "\<exists>r H. grow n t as = Inr r \<and> ok_root n H r \<and> recurse r = before as @ recurse t @ after as"
  using assms
proof (induction as arbitrary: h t)
  case (Cons q as)
  obtain p i where q: "q = (p, i)" by (cases q)
  let ?kids = "children p"
  note prems = Cons.prems [unfolded q]
  have len: "length ?kids = Suc (length (contents p))" "i \<le> length (contents p)" "ok_path n (Suc h) as" using prems(1) by auto
  have kid: "ok_node (n div 2) n h (?kids ! j)" if "j < length ?kids" "j \<noteq> i" for j using prems(1) that by auto
  consider (right) "i + 1 < length ?kids \<and> length (contents (?kids ! (i + 1))) > n div 2"
    | (left) j where "\<not> (i + 1 < length ?kids \<and> length (contents (?kids ! (i + 1))) > n div 2)" "i = Suc j" "length (contents (?kids ! j)) > n div 2"
    | (merge) "\<not> (i + 1 < length ?kids \<and> length (contents (?kids ! (i + 1))) > n div 2)"
        "\<not> (i \<noteq> 0 \<and> length (contents (?kids ! (i - 1))) > n div 2)"
    by (cases i) auto
  then show ?case
  proof cases
    case right
    have d: "body n h (?kids ! Suc i)" "contents (?kids ! Suc i) \<noteq> []" "length (contents (?kids ! Suc i)) \<le> n"
      using kid [of "Suc i"] right len by (auto simp: ok_node_body)
    obtain t' d' x where l: "lateral (?kids ! Suc i) (contents p) (Suc i) t i = Inr (t', (contents p)[i := x], d')" "body n h t'" "body n h d'"
        "recurse t @ contents p ! i # recurse (?kids ! Suc i) = recurse d' @ x # recurse t'"
        "length (contents t') = length (contents (?kids ! Suc i)) - 1" "length (contents d') = Suc (length (contents t))"
      using lateral_from_right [OF d(1) prems(3) d(2), of i "Suc i" "contents p"] right len by auto
    have "ok_node (n div 2) n h d'" "ok_node (n div 2) n h t'" using l(2,3,5,6) right d(3) prems(4,5) by (auto simp: ok_node_body)
    from plug_pair [OF prems(1) _ _ this, of i t x] l(4) right len
    show ?thesis unfolding q using l(1) right by (auto simp del: before.simps after.simps plug.simps)
  next
    case (left j)
    have d: "body n h (?kids ! j)" "contents (?kids ! j) \<noteq> []" "length (contents (?kids ! j)) \<le> n"
      using kid [of j] left len by (auto simp: ok_node_body)
    obtain t' d' x where l: "lateral (?kids ! j) (contents p) j t i = Inr (t', (contents p)[j := x], d')" "body n h t'" "body n h d'"
        "recurse (?kids ! j) @ contents p ! j # recurse t = recurse t' @ x # recurse d'"
        "length (contents t') = length (contents (?kids ! j)) - 1" "length (contents d') = Suc (length (contents t))"
      using lateral_from_left [OF d(1) prems(3) d(2), of j i "contents p"] left len by auto
    have "ok_node (n div 2) n h t'" "ok_node (n div 2) n h d'" using l(2,3,5,6) left d(3) prems(4,5) by (auto simp: ok_node_body)
    from plug_pair [OF prems(1) _ _ this, of j t x] l(4) left(2) len
    have "ok_root n (Suc h + length as) (plug as (BNode ((contents p)[j := x]) (?kids[i := d', j := t']))) \<and>
       recurse (plug as (BNode ((contents p)[j := x]) (?kids[i := d', j := t']))) = before ((p, i) # as) @ recurse t @ after ((p, i) # as)"
      by (simp add: list_update_swap [of "Suc j" j] del: before.simps after.simps plug.simps)
    moreover have "grow n t ((p, i) # as) = Inr (plug as (BNode ((contents p)[j := x]) (?kids[i := d', j := t'])))"
      unfolding grow.simps(2) Let_def if_not_P [OF left(1)] using l(1) left(2,3) by (simp del: plug.simps)
    ultimately show ?thesis unfolding q by blast
  next
    case merge
    have "1 \<le> length (contents p)" using prems(1,5) by (auto split: if_splits)
    then have "i \<noteq> 0 \<Longrightarrow> length (contents (?kids ! (i - 1))) \<le> n div 2" "i = 0 \<Longrightarrow> length (contents (?kids ! 1)) \<le> n div 2"
      using merge len by auto
    from consolidate_ok [OF prems(1,3-5) this] obtain P M where PM: "(if i \<noteq> 0 then consolidate_left t p i else consolidate_right t p i) = Inr (P, M)"
      "body n (Suc h) P" "ok_node (n div 2) n h M" "Suc (length (contents P)) = length (contents p)"
      "before as @ recurse P @ after as = before ((p, i) # as) @ recurse t @ after ((p, i) # as)" "contents P = [] \<longrightarrow> recurse P = recurse M"
      by blast
    have pb: "length (contents p) \<le> n" "(if as = [] then 1 else n div 2) \<le> length (contents p)" using prems(1) by auto
    have step: "grow n t ((p, i) # as) = (if length (contents P) < n div 2
             then if as \<noteq> [] then grow n P as else if contents P = [] then Inr M else Inr P
             else Inr (plug as P))"
      unfolding grow.simps(2) Let_def if_not_P [OF merge(1)] if_not_P [OF merge(2)] PM(1) rbind_simps prod.case by (rule refl)
    consider (up) "length (contents P) < n div 2" "as \<noteq> []" | (top) "as = []" "contents P = []"
      | (fine) "as = []" "contents P \<noteq> []" | (inner) "as \<noteq> []" "\<not> length (contents P) < n div 2" by blast
    then show ?thesis
    proof cases
      case up
      then have "Suc (length (contents P)) = n div 2" using PM(4) pb by auto
      with Cons.IH [OF len(3) up(2) PM(2) _ prems(5)] step up PM(5) show ?thesis unfolding q by metis
    next
      case top
      have "ok_root n h M" using PM(3) prems(5) by (auto simp: ok_root_def ok_node_body)
      moreover have "length (contents P) < n div 2" using top prems(5) by simp
      ultimately show ?thesis unfolding q using top step PM(5,6) by auto
    next
      case fine
      then have "ok_root n (Suc h) P" using PM(2,4) pb by (cases "contents P") (auto simp: ok_root_def ok_node_body)
      then show ?thesis unfolding q using fine step PM(5) by auto
    next
      case inner
      then have "ok_node (if as = [] then 1 else n div 2) n (Suc h) P" using PM(2,4) pb by (auto simp: ok_node_body)
      then have "ok_root n (Suc h + length as) (plug as P)" using len(3) inner by (intro ok_plug) auto
      with step inner PM(5) recurse_plug [OF len(3)] show ?thesis unfolding q by metis
    qed
  qed
qed simp

end
