(* ===== verification/ItemSet.thy ===== *)
theory ItemSet
  imports PyPrelude
begin

text \<open>
  The interface between a set of items and the tasks that use it, which the B-tree and the skip list share:
  the operations a task performs, what they do to a set, and the laws from which follows that any
  sequence of them does to the structure what it does to a set.
\<close>

datatype op = Contains | Insert | Remove

fun op_on_set :: "op \<times> 'a \<Rightarrow> 'a set \<Rightarrow> 'a set" where
  "op_on_set (Contains, x) A = A"
| "op_on_set (Insert, x) A = insert x A"
| "op_on_set (Remove, x) A = A - {x}"

text \<open>
  The items are an increasing list. An insertion may use something beside the item, such as random
  numbers, of which \<open>good\<close> says what it has to be.
\<close>

locale sorted_items =
  fixes ins :: "'d \<Rightarrow> 'a::linorder \<Rightarrow> 't \<Rightarrow> 't result"
    and good :: "'d \<Rightarrow> bool"
    and del :: "'a \<Rightarrow> 't \<Rightarrow> 't result"
    and mem :: "'a \<Rightarrow> 't \<Rightarrow> bool result"
    and items :: "'t \<Rightarrow> 'a list"
    and ok :: "'t \<Rightarrow> bool"
  assumes items_increase: "ok t \<Longrightarrow> sorted_wrt (<) (items t)"
    and ins_sorted: "ok t \<Longrightarrow> good d \<Longrightarrow> \<exists>t'. ins d x t = Inr t' \<and> ok t' \<and>
           items t' = (if x \<in> set (items t) then items t else insort x (items t))"
    and del_sorted: "ok t \<Longrightarrow> \<exists>t'. del x t = Inr t' \<and> ok t' \<and> items t' = remove1 x (items t)"
    and mem_sorted: "ok t \<Longrightarrow> mem x t = Inr (x \<in> set (items t))"
begin

lemma op_set:
  assumes "ok t" and "good d"
  shows "\<exists>t'. (case op of Contains \<Rightarrow> rbind (mem x t) (\<lambda>b. Inr t) | Insert \<Rightarrow> ins d x t | Remove \<Rightarrow> del x t) = Inr t' \<and>
    ok t' \<and> set (items t') = op_on_set (op, x) (set (items t))"
proof (cases op)
  case Contains
  then show ?thesis using mem_sorted [OF assms(1), of x] assms(1) by simp
next
  case Insert
  then show ?thesis using ins_sorted [OF assms, of x] by (auto simp: set_insort_key)
next
  case Remove
  have "distinct (items t)" using items_increase [OF assms(1)] by (simp add: strict_sorted_iff)
  then show ?thesis using Remove del_sorted [OF assms(1), of x] by auto
qed

text \<open>A task, whose turns do what the operations do.\<close>

lemma ops_set:
  assumes "ok t" and "\<And>op d x. (op, d, x) \<in> set ops \<Longrightarrow> good d"
    and run: "\<And>op d x t. ok t \<Longrightarrow>
      run (op, d, x) t = (case op of Contains \<Rightarrow> rbind (mem x t) (\<lambda>b. Inr t) | Insert \<Rightarrow> ins d x t | Remove \<Rightarrow> del x t)"
  shows "\<exists>t'. for_each ops run t = Inr t' \<and> ok t' \<and>
    items t' = sorted_list_of_set (fold op_on_set (map (\<lambda>(op, d, x). (op, x)) ops) (set (items t)))"
proof -
  have "\<exists>t'. for_each ops run t = Inr t' \<and> ok t' \<and>
      set (items t') = fold op_on_set (map (\<lambda>(op, d, x). (op, x)) ops) (set (items t))"
    using assms(1,2)
  proof (induction ops arbitrary: t)
    case Nil
    then show ?case by simp
  next
    case (Cons a ops)
    obtain op d x where a: "a = (op, d, x)" by (cases a)
    have d: "good d" using Cons.prems(2) [of op d x] a by simp
    obtain t' where t': "run a t = Inr t'" "ok t'" "set (items t') = op_on_set (op, x) (set (items t))"
      using op_set [OF Cons.prems(1) d] run [OF Cons.prems(1)] unfolding a by metis
    have "good d" if "(op, d, x) \<in> set ops" for op d x using Cons.prems(2) [of op d x] that by simp
    from Cons.IH [OF t'(2) this] show ?case using t'(1,3) a by simp
  qed
  then obtain t' where t': "for_each ops run t = Inr t'" "ok t'"
    "set (items t') = fold op_on_set (map (\<lambda>(op, d, x). (op, x)) ops) (set (items t))" by blast
  have "sorted_list_of_set (set (items t')) = items t'"
    using items_increase [OF t'(2)] by (simp add: strict_sorted_iff sorted_list_of_set.idem_if_sorted_distinct)
  with t' show ?thesis by metis
qed

end

lemma for_each_map: "for_each (map f xs) g s = for_each xs (\<lambda>x. g (f x)) s"
  by (induction xs arbitrary: s) (auto simp: rbind_def split: sum.splits)

end
