(* ===== verification/BtreeOps.thy ===== *)
theory BtreeOps
  imports BtreeShape ItemSet
begin

text \<open>
  Looking up, inserting and removing an item in the B-tree, as operations on the increasing list
  of its items, with the interface they give to a user of the tree.
\<close>

section \<open>Finding the place of an item\<close>

lemma bisect_loop_ok:
  assumes "sorted_wrt (<) xs" and "lo \<le> hi" and "hi \<le> length xs"
    and "\<forall>j < lo. xs ! j < x" and "\<forall>j. hi \<le> j \<longrightarrow> j < length xs \<longrightarrow> x \<le> xs ! j"
  shows "bisect_loop xs x lo hi \<le> length xs \<and> (\<forall>j < bisect_loop xs x lo hi. xs ! j < x) \<and>
    (\<forall>j. bisect_loop xs x lo hi \<le> j \<longrightarrow> j < length xs \<longrightarrow> x \<le> xs ! j)"
  using assms
proof (induction xs x lo hi rule: bisect_loop.induct)
  case (1 xs x lo hi)
  let ?m = "(lo + hi) div 2"
  show ?case
  proof (cases "lo < hi")
    case True
    then have m: "lo \<le> ?m" "?m < hi" by auto
    have mono: "xs ! j \<le> xs ! k" if "j \<le> k" "k < length xs" for j k
      using sorted_wrt_nth_less [OF "1.prems"(1), of j k] that by (cases "j = k") auto
    show ?thesis
    proof (cases "xs ! ?m < x")
      case t: True
      have lt: "\<forall>j < ?m + 1. xs ! j < x"
      proof (intro allI impI)
        fix j assume "j < ?m + 1"
        then show "xs ! j < x" using mono [of j ?m] t m "1.prems"(3) by (simp add: less_Suc_eq_le)
      qed
      have "?m + 1 \<le> hi" using m by simp
      note ih = "1.IH"(1) [OF True refl t "1.prems"(1) this "1.prems"(3) lt "1.prems"(5)]
      have eq: "bisect_loop xs x lo hi = bisect_loop xs x (?m + 1) hi" using True t by (subst bisect_loop.simps) (simp add: Let_def)
      show ?thesis unfolding eq by (rule ih)
    next
      case f: False
      have ge: "\<forall>j. ?m \<le> j \<longrightarrow> j < length xs \<longrightarrow> x \<le> xs ! j"
      proof (intro allI impI)
        fix j assume "?m \<le> j" "j < length xs"
        then show "x \<le> xs ! j" using mono [of ?m j] f by simp
      qed
      have "?m \<le> length xs" using m "1.prems"(3) by simp
      note ih = "1.IH"(2) [OF True refl f "1.prems"(1) m(1) this "1.prems"(4) ge]
      have eq: "bisect_loop xs x lo hi = bisect_loop xs x lo ?m" using True f by (subst bisect_loop.simps) (simp add: Let_def)
      show ?thesis unfolding eq by (rule ih)
    qed
  next
    case False
    then have "bisect_loop xs x lo hi = lo" by (subst bisect_loop.simps) simp
    then show ?thesis using "1.prems" False by simp
  qed
qed

lemma bisect_left_ok:
  assumes "sorted_wrt (<) xs"
  shows "bisect_left xs x \<le> length xs" "j < bisect_left xs x \<Longrightarrow> xs ! j < x"
    "bisect_left xs x \<le> j \<Longrightarrow> j < length xs \<Longrightarrow> x \<le> xs ! j"
  using bisect_loop_ok [OF assms, of 0 "length xs" x] by (auto simp: bisect_left_def)

lemma bisect_left_found:
  assumes "sorted_wrt (<) xs"
  shows "bisect_left xs x < length xs \<and> xs ! bisect_left xs x = x \<longleftrightarrow> x \<in> set xs"
proof
  assume "x \<in> set xs"
  then obtain j where j: "j < length xs" "xs ! j = x" by (auto simp: in_set_conv_nth)
  then have "bisect_left xs x \<le> j" using bisect_left_ok(2) [OF assms, of j x] by (meson less_irrefl not_le)
  moreover have "\<not> bisect_left xs x < j"
    using bisect_left_ok(3) [OF assms order_refl, of x] sorted_wrt_nth_less [OF assms, of "bisect_left xs x" j] j by auto
  ultimately show "bisect_left xs x < length xs \<and> xs ! bisect_left xs x = x" using j by auto
next
  assume "bisect_left xs x < length xs \<and> xs ! bisect_left xs x = x"
  then show "x \<in> set xs" using nth_mem [of "bisect_left xs x" xs] by simp
qed

lemma set_contents_mix: "length ls = length cs \<Longrightarrow> set cs \<subseteq> set (mix ls cs)"
  by (induction ls cs rule: list_induct2) auto

lemma sorted_contents_mix: "length ls = length cs \<Longrightarrow> sorted_wrt (<) (mix ls cs) \<Longrightarrow> sorted_wrt (<) cs"
proof (induction ls cs rule: list_induct2)
  case (Cons l ls c cs)
  then show ?case using set_contents_mix [OF Cons.hyps] by (auto simp: sorted_wrt_append)
qed simp

lemma mix_butlast: "length ls = Suc (length cs) \<Longrightarrow> mix (butlast ls) cs = mix ls cs"
  by (induction ls cs rule: mix.induct) (auto simp: length_Suc_conv)

lemma sorted_contents:
  assumes "body n h t" and "sorted_wrt (<) (recurse t)"
  shows "sorted_wrt (<) (contents t)"
  using assms(1)
proof (cases rule: body_cases)
  case 1
  then show ?thesis using assms(2) by (cases t) simp
next
  case (2 h')
  obtain cs ks where t: "t = BNode cs ks" by (cases t)
  then have "sorted_wrt (<) (mix (map recurse ks) cs)" using assms(2) 2 by (auto simp: sorted_wrt_append split: if_splits)
  then have "sorted_wrt (<) (mix (butlast (map recurse ks)) cs)" using 2 t by (simp add: mix_butlast)
  then show ?thesis using sorted_contents_mix [of "butlast (map recurse ks)" cs] 2 t by simp
qed

definition least_items :: "'a ancestors \<Rightarrow> nat \<Rightarrow> nat \<Rightarrow> nat" where
  "least_items as h n = (if as = [] then (if h = 0 then 0 else 1) else n div 2)"

text \<open>A node with its ancestors where an item belongs.\<close>

definition place :: "nat \<Rightarrow> nat \<Rightarrow> 'a::linorder \<Rightarrow> 'a bnode \<Rightarrow> 'a ancestors \<Rightarrow> bool" where
  "place n h x t as \<longleftrightarrow> ok_path n h as \<and> ok_node (least_items as h n) n h t \<and>
     sorted_wrt (<) (before as @ recurse t @ after as) \<and> (\<forall>y \<in> set (before as). y < x) \<and> (\<forall>y \<in> set (after as). x < y)"

lemma place_child:
  assumes p: "place n (Suc h) x t as" and i: "i = bisect_left (contents t) x" and ne: "\<not> (i < length (contents t) \<and> contents t ! i = x)"
  shows "i < length (children t) \<and> place n h x (children t ! i) ((t, i) # as) \<and>
    before ((t, i) # as) @ recurse (children t ! i) @ after ((t, i) # as) = before as @ recurse t @ after as"
proof -
  obtain cs ks where t: "t = BNode cs ks" by (cases t)
  have ok: "least_items as (Suc h) n \<le> length cs" "length cs \<le> n" "length ks = Suc (length cs)" "\<forall>k \<in> set ks. ok_node (n div 2) n h k"
    "ok_path n (Suc h) as" using p t by (auto simp: place_def)
  have srt: "sorted_wrt (<) (before as @ recurse t @ after as)" using p by (simp add: place_def)
  then have "sorted_wrt (<) cs" using sorted_contents [of n "Suc h" t] p t by (auto simp: place_def ok_node_body sorted_wrt_append)
  note b = bisect_left_ok [OF this, where x = x]
  have il: "i \<le> length cs" using b(1) i t by simp
  have list: "recurse t = mix (map recurse (take i ks)) (take i cs) @ recurse (ks ! i) @ sux (drop i cs) (map recurse (drop (Suc i) ks))"
    using recurse_at [OF ok(3) il, of "ks ! i"] t by simp
  have lo: "y < x" if "y \<in> set (mix (map recurse (take i ks)) (take i cs))" for y
  proof (cases i)
    case 0
    then show ?thesis using that by simp
  next
    case (Suc j)
    then have m: "mix (map recurse (take i ks)) (take i cs) = mix (map recurse (take j ks)) (take j cs) @ recurse (ks ! j) @ [cs ! j]"
      using ok il by (simp add: take_Suc_conv_app_nth)
    moreover have "cs ! j < x" using b(2) [of j] i t Suc by simp
    moreover have "sorted_wrt (<) (mix (map recurse (take i ks)) (take i cs))" using srt list by (simp add: sorted_wrt_append)
    ultimately show ?thesis using that by (auto simp: sorted_wrt_append)
  qed
  have hi: "x < y" if "y \<in> set (sux (drop i cs) (map recurse (drop (Suc i) ks)))" for y
  proof (cases "i < length cs")
    case True
    then have m: "sux (drop i cs) (map recurse (drop (Suc i) ks)) = cs ! i # recurse (ks ! Suc i) @ sux (drop (Suc i) cs) (map recurse (drop (Suc (Suc i)) ks))"
      using ok by (simp flip: Cons_nth_drop_Suc)
    moreover have "x < cs ! i" using b(3) [of i] i t ne True by auto
    moreover have "sorted_wrt (<) (sux (drop i cs) (map recurse (drop (Suc i) ks)))" using srt list by (simp add: sorted_wrt_append)
    ultimately show ?thesis using that by (auto intro: less_trans)
  next
    case False
    then show ?thesis using that by simp
  qed
  have "ok_path n h ((t, i) # as)"
    using ok il t by (auto simp: least_items_def)
  moreover have "ok_node (least_items ((t, i) # as) h n) n h (ks ! i)" using ok il by (simp add: least_items_def)
  moreover have eq: "before ((t, i) # as) @ recurse (children t ! i) @ after ((t, i) # as) = before as @ recurse t @ after as"
    using list t by (simp del: recurse.simps)
  moreover have "(\<forall>y \<in> set (before ((t, i) # as)). y < x) \<and> (\<forall>y \<in> set (after ((t, i) # as)). x < y)"
    using p lo hi t by (auto simp: place_def)
  ultimately show ?thesis using il ok(3) t srt unfolding place_def by (metis bnode.sel(2) le_imp_less_Suc)
qed

lemma path_loop_ok:
  assumes "place n h x t as"
  shows "\<exists>node rest h'. path_loop x t as = Inr ((node, bisect_left (contents node) x) # rest) \<and> place n h' x node rest \<and>
    before rest @ recurse node @ after rest = before as @ recurse t @ after as \<and> (h' = 0 \<or> x \<in> set (contents node))"
  using assms
proof (induction h arbitrary: t as)
  case 0
  then have "children t = []" by (cases t) (auto simp: place_def)
  then have "path_loop x t as = Inr ((t, bisect_left (contents t) x) # as)" by (simp add: path_loop.simps [of x t] Let_def)
  then show ?case using 0 by blast
next
  case (Suc h)
  let ?i = "bisect_left (contents t) x"
  have ch: "children t \<noteq> []" using Suc.prems by (cases t) (auto simp: place_def)
  show ?case
  proof (cases "?i < length (contents t) \<and> contents t ! ?i = x")
    case True
    then have "path_loop x t as = Inr ((t, ?i) # as)" using ch by (simp add: path_loop.simps [of x t] Let_def)
    moreover have "x \<in> set (contents t)" using True by (metis nth_mem)
    ultimately show ?thesis using Suc.prems by blast
  next
    case False
    note c = place_child [OF Suc.prems refl False]
    then have "path_loop x t as = path_loop x (children t ! ?i) ((t, ?i) # as)"
      using False ch by (subst path_loop.simps) (auto simp: Let_def)
    moreover from c have "place n h x (children t ! ?i) ((t, ?i) # as)" by blast
    note Suc.IH [OF this]
    ultimately show ?thesis using c by (simp del: before.simps after.simps recurse.simps)
  qed
qed

section \<open>Inserting\<close>

lemma insort_split:
  "\<forall>y \<in> set xs. y < x \<Longrightarrow> \<forall>y \<in> set ys. (x::'a::linorder) < y \<Longrightarrow> insort x (xs @ ys) = xs @ x # ys"
proof (induction xs)
  case Nil
  then show ?case by (cases ys) auto
qed auto

lemma remove1_split: "x \<notin> set xs \<Longrightarrow> remove1 x (xs @ x # ys) = xs @ ys"
  by (simp add: remove1_append)

lemma sorted_insort:
  "sorted_wrt (<) xs \<Longrightarrow> x \<notin> set xs \<Longrightarrow> sorted_wrt (<) (insort (x::'a::linorder) xs)"
  by (induction xs) (auto simp: set_insort_key)

lemma sorted_remove1: "sorted_wrt (<) xs \<Longrightarrow> sorted_wrt (<) (remove1 x xs)"
  by (induction xs) (auto dest: notin_set_remove1 set_remove1_subset [THEN subsetD])

lemma leaf_facts:
  assumes "place n 0 x t as"
  shows "children t = []" "recurse t = contents t" "ok_path n 0 as" "body n 0 t" "length (contents t) \<le> n"
    "as \<noteq> [] \<Longrightarrow> n div 2 \<le> length (contents t)"
  using assms by (cases t; auto simp: place_def least_items_def)+

lemma present_iff:
  assumes p: "place n h x t as" and end_of_path: "h = 0 \<or> x \<in> set (contents t)"
  shows "present x ((t, bisect_left (contents t) x) # rest) \<longleftrightarrow> x \<in> set (before as @ recurse t @ after as)"
proof -
  have srt: "sorted_wrt (<) (contents t)"
    using sorted_contents [of n h t] p by (auto simp: place_def ok_node_body sorted_wrt_append)
  have "set (contents t) \<subseteq> set (recurse t)"
  proof -
    obtain cs ks where t: "t = BNode cs ks" by (cases t)
    have "ks = [] \<or> length ks = Suc (length cs)" using p t by (cases h) (auto simp: place_def)
    then show ?thesis using t set_contents_mix [of "butlast (map recurse ks)" cs] mix_butlast [of "map recurse ks" cs] by auto
  qed
  moreover have "h = 0 \<Longrightarrow> recurse t = contents t" using p by (cases t) (auto simp: place_def)
  moreover have "x \<notin> set (before as)" "x \<notin> set (after as)" using p by (auto simp: place_def)
  ultimately show ?thesis using bisect_left_found [OF srt, of x] end_of_path by (auto simp: present_def)
qed

text \<open>Adding an item to a leaf.\<close>

lemma node_insert_ok:
  assumes p: "place n 0 x t as" and new: "x \<notin> set (before as @ recurse t @ after as)" and n: "2 \<le> n"
  shows "\<exists>r H. node_insert n t (bisect_left (contents t) x) x as = Inr r \<and> ok_root n H r \<and>
    recurse r = insort x (before as @ recurse t @ after as)"
proof -
  note leaf = leaf_facts [OF p]
  let ?i = "bisect_left (contents t) x"
  let ?t = "BNode (insert_at ?i x (contents t)) (children t)"
  have srt: "sorted_wrt (<) (contents t)" using p leaf(2) by (auto simp: place_def sorted_wrt_append)
  note b = bisect_left_ok [OF srt, where x = x]
  have lo: "\<forall>y \<in> set (take ?i (contents t)). y < x" using b(1,2) by (auto simp: in_set_conv_nth)
  have hi: "\<forall>y \<in> set (drop ?i (contents t)). x < y"
  proof
    fix y assume y: "y \<in> set (drop ?i (contents t))"
    then obtain j where "j < length (drop ?i (contents t))" "drop ?i (contents t) ! j = y" unfolding in_set_conv_nth by blast
    then have "x \<le> y" using b(3) [of "?i + j"] by (simp add: add.commute less_diff_conv)
    moreover have "y \<noteq> x" using y new leaf(2) by (auto dest: in_set_dropD)
    ultimately show "x < y" by simp
  qed
  have *: "insort x ((before as @ take ?i (contents t)) @ (drop ?i (contents t) @ after as)) =
      (before as @ take ?i (contents t)) @ x # (drop ?i (contents t) @ after as)"
    using lo hi p by (intro insort_split) (auto simp: place_def)
  have eq: "before as @ recurse ?t @ after as = insort x (before as @ recurse t @ after as)"
  proof -
    have "before as @ recurse t @ after as = (before as @ take ?i (contents t)) @ (drop ?i (contents t) @ after as)"
      unfolding leaf(2) by (metis append_assoc append_take_drop_id)
    moreover have "recurse ?t = take ?i (contents t) @ x # drop ?i (contents t)" using leaf(1) by (simp add: insert_at_def)
    ultimately show ?thesis using * by (simp only: append_assoc append_Cons)
  qed
  have lc: "length (contents ?t) = Suc (length (contents t))" by (simp add: insert_at_def)
  have bd: "body n 0 ?t" using leaf(1) by simp
  show ?thesis
  proof (cases "length (contents ?t) > n")
    case True
    then have "length (contents ?t) = Suc n" using lc leaf(5) by simp
    from shrink_ok [OF leaf(3) bd this n] show ?thesis using True eq by (simp add: node_insert_def Let_def)
  next
    case False
    then have "ok_node (if as = [] then (if 0 = (0::nat) then 0 else 1) else n div 2) n 0 ?t"
      using bd lc leaf(6) by (auto simp: ok_node_body)
    then have "ok_root n (0 + length as) (plug as ?t)" using leaf(3) by (intro ok_plug) auto
    then show ?thesis using False eq recurse_plug [OF leaf(3), of ?t] by (auto simp: node_insert_def Let_def)
  qed
qed

section \<open>Removing\<close>

lemma leaf_remove_ok:
  assumes as: "ok_path n 0 as" and d: "ok_node (least_items as 0 n) n 0 d" and n: "2 \<le> n"
    and pop: "pop_at i (contents d) = Inr (x, cs)" "length cs = length (contents d) - 1"
  shows "\<exists>r H. remove_from_leaf n d i as = Inr r \<and> ok_root n H r \<and> recurse r = before as @ cs @ after as"
proof -
  have leaf: "children d = []" "least_items as 0 n \<le> length (contents d)" "length (contents d) \<le> n" using d by (cases d; auto)+
  have bd: "body n 0 (BNode cs [])" by simp
  show ?thesis
  proof (cases "length cs < n div 2 \<and> as \<noteq> []")
    case True
    then have "Suc (length (contents (BNode cs []))) = n div 2" using leaf pop(2) by (auto simp: least_items_def)
    from grow_ok [OF as _ bd this n] show ?thesis using True pop leaf by (simp add: remove_from_leaf_def)
  next
    case False
    then have "ok_node (if as = [] then (if 0 = (0::nat) then 0 else 1) else n div 2) n 0 (BNode cs [])"
      using leaf pop(2) by auto
    then have "ok_root n (0 + length as) (plug as (BNode cs []))" using as by (intro ok_plug) auto
    then show ?thesis using False pop leaf recurse_plug [OF as, of "BNode cs []"] by (auto simp: remove_from_leaf_def Let_def)
  qed
qed

lemma pop_at_nth:
  "i < length xs \<Longrightarrow> pop_at (int i) xs = Inr (xs ! i, take i xs @ drop (Suc i) xs)"
  by (simp add: pop_at_def py_index_def)

lemma leftmost_append: "leftmost t as = (d, path) \<Longrightarrow> leftmost t (as @ bs) = (d, path @ bs)"
  by (induction t as rule: leftmost.induct) auto

lemma rightmost_append: "rightmost t as = (d, path) \<Longrightarrow> rightmost t (as @ bs) = (d, path @ bs)"
proof (induction t as rule: rightmost.induct)
  case (1 t as)
  show ?case
  proof (cases "children t = []")
    case True
    then show ?thesis using "1.prems" by (subst rightmost.simps) (subst (asm) rightmost.simps, simp)
  next
    case False
    then have "rightmost (last (children t)) ((t, length (children t) - 1) # as) = (d, path)"
      using "1.prems" by (subst (asm) rightmost.simps) simp
    from "1.IH" [OF False this] show ?thesis using False by (subst rightmost.simps) simp
  qed
qed

lemma leftmost_ok:
  assumes "ok_path n h as" and "ok_node (n div 2) n h t" and "as \<noteq> []"
  shows "\<exists>d path. leftmost t as = (d, path) \<and> ok_path n 0 path \<and> ok_node (n div 2) n 0 d \<and> path \<noteq> [] \<and>
    before path = before as \<and> recurse d @ after path = recurse t @ after as"
  using assms
proof (induction h arbitrary: t as)
  case 0
  then show ?case by (cases t) auto
next
  case (Suc h)
  then obtain cs k ks where t: "t = BNode cs (k # ks)" by (cases t) (auto simp: length_Suc_conv)
  have "ok_path n h ((t, 0) # as)" "ok_node (n div 2) n h k" using Suc.prems t by auto
  from Suc.IH [OF this] obtain d path where IH: "leftmost k ((t, 0) # as) = (d, path)" "ok_path n 0 path" "ok_node (n div 2) n 0 d" "path \<noteq> []"
    "before path = before ((t, 0) # as)" "recurse d @ after path = recurse k @ after ((t, 0) # as)" by blast
  have "recurse t = recurse k @ sux cs (map recurse ks)"
    using recurse_at [of "k # ks" cs 0 k] Suc.prems t by simp
  with IH t show ?case by auto
qed

lemma rightmost_ok:
  assumes "ok_path n h as" and "ok_node (n div 2) n h t" and "as \<noteq> []"
  shows "\<exists>d path. rightmost t as = (d, path) \<and> ok_path n 0 path \<and> ok_node (n div 2) n 0 d \<and> path \<noteq> [] \<and>
    after path = after as \<and> before path @ recurse d = before as @ recurse t"
  using assms
proof (induction h arbitrary: t as)
  case 0
  then have "children t = []" by (cases t) simp
  then have "rightmost t as = (t, as)" by (subst rightmost.simps) simp
  then show ?case using 0 by auto
next
  case (Suc h)
  obtain cs ks where t: "t = BNode cs ks" by (cases t)
  let ?i = "length cs"
  have ks: "length ks = Suc ?i" "ks \<noteq> []" "last ks = ks ! ?i" "\<forall>k \<in> set ks. ok_node (n div 2) n h k"
    using Suc.prems t by (cases "ks = []"; auto simp: last_conv_nth)+
  have "ok_path n h ((t, ?i) # as)" "ok_node (n div 2) n h (ks ! ?i)" using Suc.prems t ks by auto
  from Suc.IH [OF this] obtain d path where IH: "rightmost (ks ! ?i) ((t, ?i) # as) = (d, path)" "ok_path n 0 path" "ok_node (n div 2) n 0 d" "path \<noteq> []"
    "after path = after ((t, ?i) # as)" "before path @ recurse d = before ((t, ?i) # as) @ recurse (ks ! ?i)" by blast
  have "recurse t = mix (map recurse (take ?i ks)) (take ?i cs) @ recurse (ks ! ?i) @ []"
    using recurse_at [of ks cs ?i "ks ! ?i"] ks t by simp
  moreover have "rightmost t as = rightmost (ks ! ?i) ((t, ?i) # as)" using ks t by (subst rightmost.simps) simp
  ultimately show ?case using IH t ks by auto
qed

lemma node_remove_ok:
  assumes p: "place n h x t as" and x: "x \<in> set (contents t)" and n: "2 \<le> n"
  shows "\<exists>r H. node_remove n t (bisect_left (contents t) x) as = Inr r \<and> ok_root n H r \<and>
    recurse r = remove1 x (before as @ recurse t @ after as)"
proof -
  obtain cs ks where t: "t = BNode cs ks" by (cases t)
  let ?i = "bisect_left cs x"
  have path: "ok_path n h as" and nb: "x \<notin> set (before as)" using p by (auto simp: place_def)
  have "sorted_wrt (<) cs"
    using sorted_contents [of n h t] p t by (auto simp: place_def ok_node_body sorted_wrt_append)
  then have i: "?i < length cs" "cs ! ?i = x" using bisect_left_found [of cs x] x t by auto
  show ?thesis
  proof (cases h)
    case 0
    note leaf = leaf_facts [OF p [unfolded 0]]
    have cs: "cs = take ?i cs @ x # drop (Suc ?i) cs" using id_take_nth_drop [OF i(1)] i(2) by simp
    have nd: "x \<notin> set (take ?i cs)"
      using p t leaf(2) cs by (auto simp: place_def sorted_wrt_append) (metis Un_iff less_irrefl list.set_intros(1) set_append sorted_wrt_append)
    have ex: "\<exists>r H. remove_from_leaf n t (int ?i) as = Inr r \<and> ok_root n H r \<and> recurse r = before as @ (take ?i cs @ drop (Suc ?i) cs) @ after as"
      using path p 0 t i n by (intro leaf_remove_ok) (auto simp: place_def pop_at_nth)
    have whole: "before as @ recurse t @ after as = (before as @ take ?i cs) @ x # (drop (Suc ?i) cs @ after as)"
      using leaf(2) t cs by (metis append_Cons append_assoc bnode.sel(1))
    have "remove1 x (before as @ recurse t @ after as) = (before as @ take ?i cs) @ (drop (Suc ?i) cs @ after as)"
      unfolding whole using nb nd by (intro remove1_split) auto
    then have rm: "remove1 x (before as @ recurse t @ after as) = before as @ (take ?i cs @ drop (Suc ?i) cs) @ after as" by simp
    show ?thesis unfolding rm using ex leaf(1) t by (simp add: node_remove_def)
  next
    case (Suc g)
    have ok: "length ks = Suc (length cs)" "\<forall>k \<in> set ks. ok_node (n div 2) n g k" "length cs \<le> n" "least_items as (Suc g) n \<le> length cs"
      using p t Suc by (auto simp: place_def)
    have half: "1 \<le> n div 2" using n by auto
    let ?B = "before as @ mix (map recurse (take ?i ks)) (take ?i cs)"
    let ?S = "sux (drop (Suc ?i) cs) (map recurse (drop (Suc (Suc ?i)) ks)) @ after as"
    have id: "cs[?i := x] = cs" using i(2) list_update_id [of cs ?i] by simp
    have whole: "before as @ recurse t @ after as = ?B @ recurse (ks ! ?i) @ x # recurse (ks ! Suc ?i) @ ?S"
      using recurse_pair [OF ok(1) i(1), of x "ks ! ?i" "ks ! Suc ?i"] t id by (simp del: recurse.simps)
    then have nx: "x \<notin> set (?B @ recurse (ks ! ?i))"
      using p unfolding place_def by (auto simp del: recurse.simps simp: sorted_wrt_append)
    have rm: "remove1 x (before as @ recurse t @ after as) = ?B @ recurse (ks ! ?i) @ recurse (ks ! Suc ?i) @ ?S"
      using remove1_split [OF nx, of "recurse (ks ! Suc ?i) @ ?S"] unfolding whole by simp
    let ?A = "\<lambda>y j. (BNode (cs[?i := y]) ks, j) # as"
    have A: "ok_path n g (?A y j)" if "j \<le> length cs" for y j
      using path ok that Suc by (auto simp: least_items_def)
    have around: "before (?A y (Suc ?i)) = ?B @ recurse (ks ! ?i) @ [y]" "after (?A y (Suc ?i)) = ?S"
       "before (?A y ?i) = ?B" "after (?A y ?i) = y # recurse (ks ! Suc ?i) @ ?S" for y
      using around_left [of "BNode (cs[?i := y]) ks" ?i as] around_right [of "BNode (cs[?i := y]) ks" ?i as] ok i
      by (simp_all del: before.simps) simp
    have kids: "ok_node (n div 2) n g (ks ! ?i)" "ok_node (n div 2) n g (ks ! Suc ?i)" using ok i by auto
    obtain dr pr where dr: "leftmost (ks ! Suc ?i) [] = (dr, pr)" by (cases "leftmost (ks ! Suc ?i) []")
    obtain dl pl where dl: "rightmost (ks ! ?i) [] = (dl, pl)" by (cases "rightmost (ks ! ?i) []")
    have lm: "leftmost (ks ! Suc ?i) as' = (dr, pr @ as')" for as' using leftmost_append [OF dr, of as'] by simp
    have rmo: "rightmost (ks ! ?i) as' = (dl, pl @ as')" for as' using rightmost_append [OF dl, of as'] by simp
    have right: "ok_path n 0 (pr @ ?A y (Suc ?i))" "ok_node (n div 2) n 0 dr" "pr @ ?A y (Suc ?i) \<noteq> []"
       "before (pr @ ?A y (Suc ?i)) = ?B @ recurse (ks ! ?i) @ [y]" "recurse dr @ after (pr @ ?A y (Suc ?i)) = recurse (ks ! Suc ?i) @ ?S" for y
      using leftmost_ok [OF A kids(2), of "Suc ?i" y] i around [of y] lm by auto
    have left: "ok_path n 0 (pl @ ?A y ?i)" "ok_node (n div 2) n 0 dl" "pl @ ?A y ?i \<noteq> []"
       "after (pl @ ?A y ?i) = y # recurse (ks ! Suc ?i) @ ?S" "before (pl @ ?A y ?i) @ recurse dl = ?B @ recurse (ks ! ?i)" for y
      using rightmost_ok [OF A kids(1), of ?i y] i around [of y] rmo by auto
    have ds: "recurse dr = contents dr" "children dr = []" "contents dr \<noteq> []" "recurse dl = contents dl" "children dl = []" "contents dl \<noteq> []"
      using right(2) left(2) half by (cases dr; cases dl; auto)+
    show ?thesis
    proof (cases "length (contents dr) > n div 2")
      case True
      obtain y ys where y: "contents dr = y # ys" using ds by (cases "contents dr") auto
      have "\<exists>r H. remove_from_leaf n dr 0 (pr @ ?A y (Suc ?i)) = Inr r \<and> ok_root n H r \<and>
          recurse r = before (pr @ ?A y (Suc ?i)) @ ys @ after (pr @ ?A y (Suc ?i))"
        using right y n by (intro leaf_remove_ok) (auto simp: least_items_def pop_at_first)
      moreover have "before (pr @ ?A y (Suc ?i)) @ ys @ after (pr @ ?A y (Suc ?i)) = ?B @ recurse (ks ! ?i) @ recurse dr @ after (pr @ ?A y (Suc ?i))"
        unfolding right(4) ds(1) y by simp
      moreover have "node_remove n t ?i as = remove_from_leaf n dr 0 (pr @ ?A y (Suc ?i))"
        using t i ok(1) dr True y by (auto simp: node_remove_def Let_def)
      ultimately show ?thesis unfolding rm right(5) using t by simp
    next
      case False
      obtain ys y where y: "contents dl = ys @ [y]" using ds by (cases "contents dl" rule: rev_cases) auto
      have "\<exists>r H. remove_from_leaf n dl (-1) (pl @ ?A y ?i) = Inr r \<and> ok_root n H r \<and>
          recurse r = before (pl @ ?A y ?i) @ ys @ after (pl @ ?A y ?i)"
        using left y n by (intro leaf_remove_ok) (auto simp: least_items_def pop_at_last)
      moreover have "before (pl @ ?A y ?i) @ ys @ after (pl @ ?A y ?i) = (before (pl @ ?A y ?i) @ recurse dl) @ recurse (ks ! Suc ?i) @ ?S"
        unfolding left(4) ds(4) y by simp
      moreover have "py_get (ys @ [y]) (-1) = Inr y" using py_get_neg [of 1 "ys @ [y]"] by (simp add: nth_append)
      then have "node_remove n t ?i as = remove_from_leaf n dl (-1) (pl @ ?A y ?i)"
        using t i ok(1) dr dl False y ds by (auto simp: node_remove_def Let_def)
      ultimately show ?thesis unfolding rm left(5) using t by simp
    qed
  qed
qed

section \<open>The interface to the user of the tree\<close>

text \<open>What \<open>task\<close> relies on: its operations act on an increasing list of items.\<close>

locale item_set =
  fixes ins :: "'a::linorder \<Rightarrow> 't \<Rightarrow> (bool \<times> 't) result"
    and del :: "'a \<Rightarrow> 't \<Rightarrow> 't result"
    and mem :: "'a \<Rightarrow> 't \<Rightarrow> bool result"
    and items :: "'t \<Rightarrow> 'a list"
    and ok :: "'t \<Rightarrow> bool"
  assumes increasing: "ok t \<Longrightarrow> sorted_wrt (<) (items t)"
    and ins_new: "ok t \<Longrightarrow> x \<notin> set (items t) \<Longrightarrow> \<exists>t'. ins x t = Inr (True, t') \<and> ok t' \<and> items t' = insort x (items t)"
    and ins_old: "ok t \<Longrightarrow> x \<in> set (items t) \<Longrightarrow> ins x t = Inr (False, t)"
    and del_item: "ok t \<Longrightarrow> \<exists>t'. del x t = Inr t' \<and> ok t' \<and> items t' = remove1 x (items t)"
    and mem_item: "ok t \<Longrightarrow> mem x t = Inr (x \<in> set (items t))"

text \<open>It gives the interface of a set that says nothing of what an insertion found.\<close>

sublocale item_set \<subseteq> silent: sorted_items "\<lambda>(_ :: unit) x t. rbind (ins x t) (\<lambda>(b, t). Inr t)" "\<lambda>_. True" del mem items ok
proof unfold_locales
  fix t :: 't and x :: 'a and d :: unit
  assume t: "ok t"
  show "sorted_wrt (<) (items t)" by (rule increasing [OF t])
  show "\<exists>t'. rbind (ins x t) (\<lambda>(b, t). Inr t) = Inr t' \<and> ok t' \<and>
      items t' = (if x \<in> set (items t) then items t else insort x (items t))"
    using ins_new [OF t, of x] ins_old [OF t, of x] t by (cases "x \<in> set (items t)") auto
  show "\<exists>t'. del x t = Inr t' \<and> ok t' \<and> items t' = remove1 x (items t)" by (rule del_item [OF t])
  show "mem x t = Inr (x \<in> set (items t))" by (rule mem_item [OF t])
qed

text \<open>The operations of \<open>OPS\<close>, as methods of the tree; the random choices of a task are its list of operations.\<close>

definition run_op :: "op \<times> 'a::linorder \<Rightarrow> 'a btree \<Rightarrow> 'a btree result" where
  "run_op = (\<lambda>(op, elem) t. case op of
     Contains \<Rightarrow> rbind (contains elem t) (\<lambda>b. Inr t)
   | Insert \<Rightarrow> rbind (insert_item elem t) (\<lambda>(b, t). Inr t)
   | Remove \<Rightarrow> remove_item elem t)"

definition task_ops :: "(op \<times> 'a::linorder) list \<Rightarrow> 'a btree \<Rightarrow> 'a btree result" where
  "task_ops ops = for_each ops run_op"

definition tree_ok :: "'a::linorder btree \<Rightarrow> bool" where
  "tree_ok t \<longleftrightarrow> 2 \<le> order t \<and> (\<exists>h. ok_root (order t) h (root t)) \<and> sorted_wrt (<) (iter t)"

lemma tree_path:
  assumes "tree_ok t"
  shows "\<exists>node rest h. path_to t x = Inr ((node, bisect_left (contents node) x) # rest) \<and> place (order t) h x node rest \<and>
    before rest @ recurse node @ after rest = iter t \<and> (h = 0 \<or> x \<in> set (contents node)) \<and>
    (present x ((node, bisect_left (contents node) x) # rest) \<longleftrightarrow> x \<in> set (iter t))"
proof -
  obtain h where "ok_root (order t) h (root t)" using assms by (auto simp: tree_ok_def)
  then have "place (order t) h x (root t) []"
    using assms by (simp add: place_def least_items_def ok_root_def tree_ok_def iter_def)
  from path_loop_ok [OF this] obtain node rest h' where
    n: "path_loop x (root t) [] = Inr ((node, bisect_left (contents node) x) # rest)" "place (order t) h' x node rest"
    "before rest @ recurse node @ after rest = recurse (root t)" "h' = 0 \<or> x \<in> set (contents node)" by auto
  with present_iff [OF n(2,4), of rest] show ?thesis unfolding path_to_def iter_def by metis
qed

interpretation bt: item_set insert_item remove_item contains iter tree_ok
proof unfold_locales
  fix t :: "'a btree" and x :: 'a
  assume t: "tree_ok t"
  from tree_path [OF t, of x] obtain node rest h where
    n: "path_to t x = Inr ((node, bisect_left (contents node) x) # rest)" "place (order t) h x node rest"
    "before rest @ recurse node @ after rest = iter t" "h = 0 \<or> x \<in> set (contents node)"
    "present x ((node, bisect_left (contents node) x) # rest) \<longleftrightarrow> x \<in> set (iter t)" by blast
  have two: "2 \<le> order t" and srt: "sorted_wrt (<) (iter t)" using t by (auto simp: tree_ok_def)
  show "sorted_wrt (<) (iter t)" by (rule srt)
  show "contains x t = Inr (x \<in> set (iter t))" using n by (simp add: contains_def)
  show "x \<in> set (iter t) \<Longrightarrow> insert_item x t = Inr (False, t)" using n by (simp add: insert_item_def)
  show "\<exists>t'. insert_item x t = Inr (True, t') \<and> tree_ok t' \<and> iter t' = insort x (iter t)" if new: "x \<notin> set (iter t)"
  proof -
    have "h = 0"
    proof (rule ccontr)
      assume "h \<noteq> 0"
      then have "x \<in> set (contents node)" using n(4) by simp
      then have "present x ((node, bisect_left (contents node) x) # rest)"
        using bisect_left_found [of "contents node" x] sorted_contents [of "order t" h node] n(2)
        by (auto simp: present_def place_def ok_node_body sorted_wrt_append)
      then show False using n(5) new by simp
    qed
    then have leaf: "place (order t) 0 x node rest" using n(2) by simp
    from node_insert_ok [OF leaf _ two] new n(3) obtain r H where
      r: "node_insert (order t) node (bisect_left (contents node) x) x rest = Inr r" "ok_root (order t) H r" "recurse r = insort x (iter t)" by auto
    have "descend x node i as = Inr as" for i as using leaf_facts(1) [OF leaf] by (subst descend.simps) simp
    then have "insert_item x t = Inr (True, t\<lparr>root := r\<rparr>)" using n new r by (simp add: insert_item_def)
    moreover have "tree_ok (t\<lparr>root := r\<rparr>)" using r two sorted_insort [OF srt new] by (auto simp: tree_ok_def iter_def)
    ultimately show ?thesis using r by (auto simp: iter_def)
  qed
  show "\<exists>t'. remove_item x t = Inr t' \<and> tree_ok t' \<and> iter t' = remove1 x (iter t)"
  proof (cases "x \<in> set (iter t)")
    case True
    have "x \<in> set (contents node)"
      using n(5) True unfolding present_def by (auto simp: in_set_conv_nth)
    from node_remove_ok [OF n(2) this two] n(3) obtain r H where
      r: "node_remove (order t) node (bisect_left (contents node) x) rest = Inr r" "ok_root (order t) H r" "recurse r = remove1 x (iter t)" by auto
    then have "remove_item x t = Inr (t\<lparr>root := r\<rparr>)" using n True by (simp add: remove_item_def)
    moreover have "tree_ok (t\<lparr>root := r\<rparr>)" using r two sorted_remove1 [OF srt] by (auto simp: tree_ok_def iter_def)
    ultimately show ?thesis using r by (auto simp: iter_def)
  next
    case False
    then show ?thesis using n t by (simp add: remove_item_def remove1_idem)
  qed
qed

text \<open>
  C27: on a B-tree of order at least two in good shape \<open>insert\<close> puts a new item at its place in the
  order of iteration and leaves the tree as it is for an old one, \<open>remove\<close> takes the item out,
  and \<open>in\<close> says whether it is there; all three end without an error, and the tree stays in shape:
  leaves at one depth, nodes half full, items increasing.
\<close>

theorem btree_operations:
  assumes "tree_ok t"
  shows "(\<exists>t'. insert_item x t = Inr (x \<notin> set (iter t), t') \<and> tree_ok t' \<and>
            iter t' = (if x \<in> set (iter t) then iter t else insort x (iter t))) \<and>
         (\<exists>t'. remove_item x t = Inr t' \<and> tree_ok t' \<and> iter t' = remove1 x (iter t)) \<and>
         contains x t = Inr (x \<in> set (iter t))"
  using bt.ins_new [OF assms, of x] bt.ins_old [OF assms, of x] bt.del_item [OF assms, of x] bt.mem_item [OF assms, of x] assms
  by (cases "x \<in> set (iter t)") auto

theorem btree_operations_witness:
  "\<exists>t'. insert_item 5 (BTree 4 :: int btree) = Inr (True, t') \<and> tree_ok t' \<and> iter t' = [5]"
proof -
  have "tree_ok (BTree 4 :: int btree)" by (auto simp: tree_ok_def BTree_def iter_def ok_root_def intro!: exI [of _ 0])
  from btree_operations [OF this, of 5] show ?thesis by (simp add: BTree_def iter_def)
qed

text \<open>
  Whatever operations the tasks perform on a new tree, in whatever order, none of them raises,
  and iterating over the tree then gives, in order, the items that the same operations give on a set.
\<close>

theorem btree_tasks:
  fixes ops :: "(op \<times> 'a::linorder) list"
  assumes "2 \<le> n"
  shows "\<exists>t. task_ops ops (BTree n) = Inr t \<and> tree_ok t \<and> iter t = sorted_list_of_set (fold op_on_set ops {})"
proof -
  let ?ops = "map (\<lambda>(op, x). (op, (), x)) ops"
  have new: "tree_ok (BTree n :: 'a btree)"
    using assms by (auto simp: tree_ok_def BTree_def iter_def ok_root_def intro!: exI [of _ 0])
  have "\<exists>t. for_each ?ops (\<lambda>(op, d, x). run_op (op, x)) (BTree n) = Inr t \<and> tree_ok t \<and>
      iter t = sorted_list_of_set (fold op_on_set (map (\<lambda>(op, d, x). (op, x)) ?ops) (set (iter (BTree n))))"
    by (rule bt.silent.ops_set [OF new]) (simp_all add: run_op_def)
  then show ?thesis
    by (auto simp: task_ops_def for_each_map split_beta o_def iter_def BTree_def)
qed

theorem btree_tasks_witness:
  "\<exists>t. task_ops [(Insert, 3), (Insert, 1), (Contains, 7), (Insert, 2), (Remove, 3)] (BTree 2 :: int btree) = Inr t \<and> iter t = [1, 2]"
proof -
  have "fold op_on_set [(Insert, 3), (Insert, 1), (Contains, 7), (Insert, 2), (Remove, 3)] {} = {1, 2 :: int}" by auto
  moreover have "sorted_list_of_set {1, 2 :: int} = [1, 2]" by simp
  ultimately show ?thesis using btree_tasks [of 2 "[(Insert, 3), (Insert, 1), (Contains, 7), (Insert, 2), (Remove, 3)] :: (op \<times> int) list"] by auto
qed

end
