(* ===== verification/PyFloat.thy ===== *)
theory PyFloat
  imports Complex_Main
begin

text \<open>
  Python's floats, that is IEEE 754 binary64, as far as the programs need them. A float is the rational
  number that it stands for, and \<open>fl\<close> rounds a rational to the nearest float, a tie to the one with the
  even mantissa: a mantissa of 53 bits, and an exponent that does not go below that of the smallest
  subnormal number. The result of \<open>float\<close> of a fraction and of each sum, product, difference and
  quotient of floats is \<open>fl\<close> of the exact one. Numbers of the size of \<open>2 ^ 1024\<close> and above, which overflow,
  infinities, not-a-number and the sign of zero are not modelled: the programs do not get there.
\<close>

section \<open>Powers of two\<close>

definition pow2 :: "int \<Rightarrow> rat" where
  "pow2 e = 2 powi e"

lemma pow2_pos [simp]: "0 < pow2 e" "0 \<le> pow2 e" "pow2 e \<noteq> 0" "\<not> pow2 e \<le> 0"
  by (simp_all add: pow2_def not_le)

lemma pow2_add: "pow2 (a + b) = pow2 a * pow2 b"
  by (simp add: pow2_def power_int_add)

lemma pow2_diff: "pow2 (a - b) = pow2 a / pow2 b"
  by (simp add: pow2_def power_int_diff)

lemma pow2_le [simp]: "pow2 a \<le> pow2 b \<longleftrightarrow> a \<le> b"
proof
  show "a \<le> b \<Longrightarrow> pow2 a \<le> pow2 b" unfolding pow2_def by (rule power_int_increasing) simp_all
  show "pow2 a \<le> pow2 b \<Longrightarrow> a \<le> b"
    unfolding pow2_def using power_int_strict_increasing [of b a "2 :: rat"] by (meson linorder_not_less one_less_numeral_iff semiring_norm(76))
qed

lemma pow2_less [simp]: "pow2 a < pow2 b \<longleftrightarrow> a < b"
  by (simp add: less_le_not_le)

lemma pow2_nat: "0 \<le> e \<Longrightarrow> pow2 e = of_int (2 ^ nat e)"
  by (simp add: pow2_def power_int_nonneg_exp)

lemma pow2_0 [simp]: "pow2 0 = 1"
  by (simp add: pow2_def)

lemma pow2_Suc: "pow2 (a + 1) = 2 * pow2 a"
  by (simp add: pow2_add) (simp add: pow2_def)

section \<open>The binary logarithm\<close>

fun bit_count :: "nat \<Rightarrow> nat" where
  "bit_count n = (if n = 0 then 0 else Suc (bit_count (n div 2)))"

declare bit_count.simps [simp del]

lemma bit_count_bounds: "0 < n \<Longrightarrow> 2 ^ (bit_count n - 1) \<le> n \<and> n < 2 ^ bit_count n"
proof (induction n rule: bit_count.induct)
  case (1 n)
  show ?case
  proof (cases "n = 1")
    case False
    then have pos: "0 < n div 2" using 1 by (simp add: div_greater_zero_iff)
    then have "0 < bit_count (n div 2)" using bit_count.simps [of "n div 2"] by simp
    then obtain k where k: "bit_count (n div 2) = Suc k" by (auto simp: gr0_conv_Suc)
    have "2 ^ k \<le> n div 2" "n div 2 < 2 ^ Suc k" using 1 pos k by simp_all
    moreover have "2 * (n div 2) \<le> n" "n < 2 * (n div 2) + 2" by simp_all
    ultimately have "2 * 2 ^ k \<le> n" "n < 2 * 2 ^ Suc k" by linarith+
    then show ?thesis using 1 k bit_count.simps [of n] by simp
  next
    case True
    have "bit_count 1 = 1" by (subst bit_count.simps) (simp add: bit_count.simps [of 0])
    with True show ?thesis by simp
  qed
qed

lemma bit_count_pow2:
  assumes "0 < n"
  shows "pow2 (int (bit_count n) - 1) \<le> of_nat n" and "of_nat n < pow2 (int (bit_count n))"
proof -
  have "0 < bit_count n" using assms bit_count.simps [of n] by simp
  then have "pow2 (int (bit_count n) - 1) = of_nat (2 ^ (bit_count n - 1))" "pow2 (int (bit_count n)) = of_nat (2 ^ bit_count n)"
    by (simp_all add: pow2_nat nat_diff_distrib)
  then show "pow2 (int (bit_count n) - 1) \<le> of_nat n" "of_nat n < pow2 (int (bit_count n))"
    using bit_count_bounds [OF assms] by (simp_all only: of_nat_le_iff of_nat_less_iff)
qed

definition log2_floor :: "rat \<Rightarrow> int" where
  "log2_floor x = (let (n, d) = quotient_of x; b = int (bit_count (nat n)) - int (bit_count (nat d)) in
     if pow2 b \<le> x then b else b - 1)"

lemma log2_floor_bounds:
  assumes "0 < x"
  shows "pow2 (log2_floor x) \<le> x" and "x < pow2 (log2_floor x + 1)"
proof -
  obtain n d where q: "quotient_of x = (n, d)" by (cases "quotient_of x")
  have d: "0 < d" and x: "x = of_int n / of_int d" using quotient_of_denom_pos [OF q] quotient_of_div [OF q] by blast+
  then have n: "0 < n" using assms by (simp add: zero_less_divide_iff)
  let ?b = "int (bit_count (nat n)) - int (bit_count (nat d))"
  have nb: "pow2 (int (bit_count (nat n)) - 1) \<le> of_int n" "of_int n < pow2 (int (bit_count (nat n)))"
    using bit_count_pow2 [of "nat n"] n by simp_all
  have db: "pow2 (int (bit_count (nat d)) - 1) \<le> of_int d" "of_int d < pow2 (int (bit_count (nat d)))"
    using bit_count_pow2 [of "nat d"] d by simp_all
  have "pow2 (?b - 1) * of_int d \<le> pow2 (?b - 1) * pow2 (int (bit_count (nat d)))"
    using db(2) by (intro mult_left_mono) auto
  also have "\<dots> = pow2 (int (bit_count (nat n)) - 1)" by (simp flip: pow2_add)
  also note nb(1)
  finally have lo: "pow2 (?b - 1) \<le> x" using d by (simp add: x le_divide_eq)
  have "of_int n < pow2 (?b + 1) * pow2 (int (bit_count (nat d)) - 1)" using nb(2) by (simp flip: pow2_add)
  also have "\<dots> \<le> pow2 (?b + 1) * of_int d" using db(1) by (intro mult_left_mono) auto
  finally have "x < pow2 (?b + 1)" using d by (simp add: x divide_less_eq)
  with lo show "pow2 (log2_floor x) \<le> x" "x < pow2 (log2_floor x + 1)"
    by (auto simp: log2_floor_def q Let_def)
qed

lemma log2_floor_mono:
  assumes "0 < x" and "x \<le> y"
  shows "log2_floor x \<le> log2_floor y"
proof -
  have "pow2 (log2_floor x) < pow2 (log2_floor y + 1)"
    using log2_floor_bounds(1) [OF assms(1)] log2_floor_bounds(2) [of y] assms by linarith
  then show ?thesis by simp
qed

section \<open>Rounding\<close>

definition round_even :: "rat \<Rightarrow> int" where
  "round_even y = (let m = \<lfloor>y\<rfloor>; f = y - of_int m in
     if f < 1 / 2 then m else if f > 1 / 2 then m + 1 else if even m then m else m + 1)"

lemma round_even_int [simp]: "round_even (of_int m) = m"
  by (simp add: round_even_def)

lemma round_even_bounds: "\<bar>of_int (round_even y) - y\<bar> \<le> 1 / 2"
  using floor_correct [of y] by (auto simp: round_even_def Let_def)

lemma round_even_mono:
  assumes "x \<le> y"
  shows "round_even x \<le> round_even y"
proof (cases "\<lfloor>x\<rfloor> = \<lfloor>y\<rfloor>")
  case True
  then show ?thesis using assms by (auto simp: round_even_def Let_def)
next
  case False
  then have "\<lfloor>x\<rfloor> + 1 \<le> \<lfloor>y\<rfloor>" using floor_mono [OF assms] by simp
  moreover have "round_even x \<le> \<lfloor>x\<rfloor> + 1" "\<lfloor>y\<rfloor> \<le> round_even y" by (auto simp: round_even_def Let_def)
  ultimately show ?thesis by linarith
qed

text \<open>The exponent of the last bit of the mantissa, and the nearest float.\<close>

definition ulp_exp :: "rat \<Rightarrow> int" where
  "ulp_exp x = max (log2_floor x - 52) (- 1074)"

definition fl :: "rat \<Rightarrow> rat" where
  "fl x = (if x = 0 then 0 else let e = ulp_exp \<bar>x\<bar> in of_int (round_even (x / pow2 e)) * pow2 e)"

lemma fl_0 [simp]: "fl 0 = 0"
  by (simp add: fl_def)

lemma fl_pos: "0 < x \<Longrightarrow> fl x = of_int (round_even (x / pow2 (ulp_exp x))) * pow2 (ulp_exp x)"
  by (simp add: fl_def Let_def)

lemma fl_nonneg:
  assumes "0 \<le> x"
  shows "0 \<le> fl x"
proof (cases "x = 0")
  case False
  then have "round_even 0 \<le> round_even (x / pow2 (ulp_exp x))" using assms by (intro round_even_mono) simp
  then have "0 \<le> round_even (x / pow2 (ulp_exp x))" using round_even_int [of 0] by simp
  then show ?thesis using assms False by (simp add: fl_pos)
qed simp

text \<open>The numbers that are floats.\<close>

definition is_float :: "rat \<Rightarrow> bool" where
  "is_float x \<longleftrightarrow> fl x = x"

lemma fl_exact:
  assumes "0 \<le> m" and "m \<le> 2 ^ 53" and "- 1074 \<le> e"
  shows "fl (of_int m * pow2 e) = of_int m * pow2 e"
proof (cases "m = 0")
  case False
  let ?x = "of_int m * pow2 e :: rat"
  have pos: "0 < ?x" using False assms(1) by simp
  let ?k = "log2_floor ?x" and ?e = "ulp_exp ?x"
  have "of_int m \<le> (of_int (2 ^ 53) :: rat)" using assms(2) by (simp only: of_int_le_iff)
  also have "\<dots> = pow2 53" by (simp add: pow2_nat)
  finally have "?x \<le> pow2 53 * pow2 e" by (intro mult_right_mono) simp_all
  then have m: "?x \<le> pow2 (53 + e)" by (simp add: pow2_add)
  have "\<exists>j. ?x / pow2 ?e = of_int j"
  proof (cases "?e \<le> e")
    case True
    have "?x / pow2 ?e = of_int m * pow2 (e - ?e)" by (simp add: pow2_diff)
    also have "\<dots> = of_int (m * 2 ^ nat (e - ?e))" using True by (simp add: pow2_nat)
    finally show ?thesis by blast
  next
    case False
    then have e: "?e = ?k - 52" using assms(3) by (simp add: ulp_exp_def max_def split: if_splits)
    have "pow2 ?k \<le> pow2 (53 + e)" using log2_floor_bounds(1) [OF pos] m by linarith
    then have k: "?k = 53 + e" using False e by simp
    then have "?x = pow2 (53 + e)" using log2_floor_bounds(1) [OF pos] m by simp
    then have "?x / pow2 ?e = pow2 (53 + e - ?e)" by (simp only: pow2_diff)
    also have "\<dots> = of_int (2 ^ 52)" using e k by (simp add: pow2_nat)
    finally show ?thesis by blast
  qed
  then obtain j where j: "?x / pow2 ?e = of_int j" by blast
  then show ?thesis using pos by (simp add: fl_pos) (simp add: divide_eq_eq)
qed simp

lemma fl_form:
  assumes "0 \<le> x"
  shows "\<exists>m e. 0 \<le> m \<and> m \<le> 2 ^ 53 \<and> - 1074 \<le> e \<and> fl x = of_int m * pow2 e"
proof (cases "x = 0")
  case True
  then show ?thesis by (intro exI [of _ 0]) auto
next
  case False
  then have pos: "0 < x" using assms by simp
  let ?e = "ulp_exp x" and ?m = "round_even (x / pow2 (ulp_exp x))"
  have "0 \<le> of_int ?m * pow2 ?e" using fl_nonneg [OF assms] fl_pos [OF pos] by simp
  then have "0 \<le> ?m" by (simp add: zero_le_mult_iff)
  moreover have "x / pow2 ?e \<le> of_int (2 ^ 53)"
  proof -
    have "x \<le> pow2 (log2_floor x + 1)" using log2_floor_bounds(2) [OF pos] by simp
    also have "\<dots> \<le> pow2 (53 + ?e)" by (simp add: ulp_exp_def)
    finally show ?thesis by (simp add: divide_le_eq pow2_add pow2_nat)
  qed
  then have "?m \<le> 2 ^ 53" using round_even_mono [of _ "of_int (2 ^ 53)"] by (metis round_even_int)
  ultimately show ?thesis using pos by (intro exI [of _ ?m] exI [of _ ?e]) (simp add: fl_pos ulp_exp_def)
qed

lemma fl_is_float: "0 \<le> x \<Longrightarrow> is_float (fl x)"
  using fl_form [of x] fl_exact by (auto simp: is_float_def)

lemma is_float_0 [simp]: "is_float 0" and is_float_1 [simp]: "is_float 1"
  using fl_exact [of 1 0] by (simp_all add: is_float_def)

text \<open>The mean of a float and itself is that float.\<close>

lemma fl_mean:
  assumes "0 \<le> x" and "is_float x"
  shows "fl (fl (x + x) / 2) = x"
proof -
  obtain m e where f: "0 \<le> m" "m \<le> 2 ^ 53" "- 1074 \<le> e" "x = of_int m * pow2 e"
    using fl_form [OF assms(1)] assms(2) by (auto simp: is_float_def)
  have "x + x = of_int m * pow2 (e + 1)" by (simp add: f(4) pow2_Suc)
  then have "fl (x + x) = x + x" using fl_exact [of m "e + 1"] f(1-3) by simp
  then show ?thesis using assms(2) by (simp add: is_float_def)
qed

text \<open>Rounding keeps the order.\<close>

lemma fl_mono:
  assumes "0 \<le> x" and "x \<le> y"
  shows "fl x \<le> fl y"
proof (cases "x = 0")
  case True
  then show ?thesis using fl_nonneg [of y] assms by simp
next
  case False
  then have pos: "0 < x" "0 < y" using assms by simp_all
  let ?a = "ulp_exp x" and ?b = "ulp_exp y"
  have le: "?a \<le> ?b" using log2_floor_mono [OF pos(1) assms(2)] by (simp add: ulp_exp_def)
  show ?thesis
  proof (cases "?a = ?b")
    case True
    have "round_even (x / pow2 ?a) \<le> round_even (y / pow2 ?a)" using assms(2) by (intro round_even_mono divide_right_mono) simp_all
    with True show ?thesis using pos by (simp add: fl_pos mult_right_mono)
  next
    case False
    then have b: "?b = log2_floor y - 52" and k: "log2_floor x + 1 \<le> log2_floor y" using le by (auto simp: ulp_exp_def)
    let ?k = "log2_floor y"
    have k52: "pow2 ?k = of_int (2 ^ 52) * pow2 ?b"
    proof -
      have "pow2 ?k = pow2 (52 + ?b)" by (simp add: b)
      then show ?thesis by (simp only: pow2_add) (simp add: pow2_nat)
    qed
    have "x \<le> pow2 ?k"
      using log2_floor_bounds(2) [OF pos(1)] k pow2_le [of "log2_floor x + 1" ?k] by linarith
    also have "\<dots> = pow2 (?k - ?a) * pow2 ?a" by (simp flip: pow2_add)
    finally have "x / pow2 ?a \<le> pow2 (?k - ?a)" by (simp add: divide_le_eq)
    also have "\<dots> = of_int (2 ^ nat (?k - ?a))" using le b by (intro pow2_nat) simp
    finally have "x / pow2 ?a \<le> of_int (2 ^ nat (?k - ?a))" .
    then have "round_even (x / pow2 ?a) \<le> 2 ^ nat (?k - ?a)" using round_even_mono round_even_int by metis
    then have "of_int (round_even (x / pow2 ?a)) \<le> (of_int (2 ^ nat (?k - ?a)) :: rat)" by (simp only: of_int_le_iff)
    also have "\<dots> = pow2 (?k - ?a)" using le b by (simp add: pow2_nat)
    finally have "fl x \<le> pow2 (?k - ?a) * pow2 ?a" using pos by (simp add: fl_pos mult_right_mono)
    also have "\<dots> = pow2 ?k" by (simp flip: pow2_add)
    also have "\<dots> = of_int (2 ^ 52) * pow2 ?b" by (rule k52)
    also have "\<dots> \<le> fl y"
    proof -
      have "of_int (2 ^ 52) \<le> y / pow2 ?b"
        using log2_floor_bounds(1) [OF pos(2)] unfolding k52 by (simp only: pos_le_divide_eq [OF pow2_pos(1)])
      then have "2 ^ 52 \<le> round_even (y / pow2 ?b)" using round_even_mono round_even_int by metis
      then have "of_int (2 ^ 52) \<le> (of_int (round_even (y / pow2 ?b)) :: rat)" by (simp only: of_int_le_iff)
      then show ?thesis using pos by (simp add: fl_pos mult_right_mono)
    qed
    finally show ?thesis .
  qed
qed

text \<open>The error of rounding.\<close>

lemma fl_error:
  assumes "0 \<le> x"
  shows "\<bar>fl x - x\<bar> \<le> max (x / 2 ^ 53) (pow2 (- 1075))"
proof (cases "x = 0")
  case False
  then have pos: "0 < x" using assms by simp
  let ?e = "ulp_exp x"
  have "fl x - x = (of_int (round_even (x / pow2 ?e)) - x / pow2 ?e) * pow2 ?e"
    using pos by (simp add: fl_pos left_diff_distrib)
  then have "\<bar>fl x - x\<bar> \<le> 1 / 2 * pow2 ?e"
    using round_even_bounds [of "x / pow2 ?e"] by (simp add: abs_mult mult_right_mono)
  also have "\<dots> = pow2 (?e - 1)" using pow2_Suc [of "?e - 1"] by simp
  also have "\<dots> \<le> max (x / 2 ^ 53) (pow2 (- 1075))"
  proof (cases "?e = - 1074")
    case False
    then have e: "?e - 1 = log2_floor x - 53" by (simp add: ulp_exp_def max_def split: if_splits)
    have "pow2 (?e - 1) = pow2 (log2_floor x) / 2 ^ 53" unfolding e pow2_diff by (simp add: pow2_nat)
    also have "\<dots> \<le> x / 2 ^ 53" using log2_floor_bounds(1) [OF pos] by (intro divide_right_mono) simp_all
    finally show ?thesis by simp
  qed simp
  finally show ?thesis .
qed simp

lemma fl_le: "0 \<le> x \<Longrightarrow> fl x \<le> x * (1 + 1 / 2 ^ 53) + pow2 (- 1075)"
proof -
  assume x: "0 \<le> x"
  have "x * (1 + 1 / 2 ^ 53) = x + x / 2 ^ 53" by (simp add: distrib_left)
  moreover have "max (x / 2 ^ 53) (pow2 (- 1075)) \<le> x / 2 ^ 53 + pow2 (- 1075)" using x by simp
  moreover have "fl x - x \<le> \<bar>fl x - x\<bar>" by simp
  ultimately show ?thesis using fl_error [OF x] by linarith
qed

end
