(* ===== verification/Mdp.thy ===== *)
theory Mdp
  imports PyFloat PyPrelude "HOL-Library.AList" "HOL-Library.List_Lexorder" "HOL-Library.Product_Lexorder"
begin

text \<open>
  The Markov decision process of \<open>own/bm_mdp.py\<close>: the topological sort, the damage and critical
  hit distributions, the actions of a battle, the successors of its states and the value
  iteration. A dictionary is the list of its items in insertion order. Fractions are rationals, as in
  the source; where it turns them into floats they are rounded by \<open>fl\<close> of \<open>PyFloat\<close>, and so is every
  sum, product, difference and mean that the source takes of floats.
\<close>

section \<open>Topological sort\<close>

text \<open>\<open>getParents\<close> may change a state of its own, as the cache of the battle below.\<close>

fun topo_loop :: "nat \<Rightarrow> ('a \<Rightarrow> 's \<Rightarrow> ('a list \<times> 's) result) \<Rightarrow> ('a \<times> nat) list \<Rightarrow> 'a set \<Rightarrow> 'a list \<Rightarrow> 's \<Rightarrow> ('a list \<times> 's) result" where
  "topo_loop fuel getParents [] visited results s = Inr (results, s)"
| "topo_loop 0 getParents (entry # stack) visited results s = Inl OutOfFuel"
| "topo_loop (Suc fuel) getParents ((current, state) # stack) visited results s =
     (if state = 0 then
        if current \<notin> visited
        then rbind (getParents current s) (\<lambda>(parents, s).
             topo_loop fuel getParents (rev (map (\<lambda>p. (p, 0)) parents) @ (current, 1) # stack) (insert current visited) results s)
        else topo_loop fuel getParents stack visited results s
      else if current \<notin> visited then Inl AssertionError
      else topo_loop fuel getParents stack visited (results @ [current]) s)"

definition topoSort :: "nat \<Rightarrow> 'a list \<Rightarrow> ('a \<Rightarrow> 's \<Rightarrow> ('a list \<times> 's) result) \<Rightarrow> 's \<Rightarrow> ('a list \<times> 's) result" where
  "topoSort fuel roots getParents s = topo_loop fuel getParents (rev (map (\<lambda>n. (n, 0)) roots)) {} [] s"

section \<open>Damage\<close>

text \<open>\<open>x * te\<close>: the effects 1 and 2 are whole numbers in the source, and 0.5 is a float.\<close>

definition times_te :: "int \<Rightarrow> rat \<Rightarrow> rat" where
  "times_te x te = (if of_int \<lfloor>te\<rfloor> = te then of_int x * te else fl (fl (of_int x) * te))"

definition getDamages :: "int \<Rightarrow> int \<Rightarrow> int \<Rightarrow> int \<Rightarrow> bool \<Rightarrow> rat \<Rightarrow> int list result" where
  "getDamages L A D B stab te =
     (if D = 0 then Inl ZeroDivisionError
      else
        let x = (2 * L) div 5;
            x = ((x + 2) * A * B) div (D * 50) + 2;
            x = (if stab then x + x div 2 else x);
            x = (let y = times_te x te in if 0 \<le> y then \<lfloor>y\<rfloor> else \<lceil>y\<rceil>)
        in Inr (map (\<lambda>z. (x * int z) div 255) [217..<256]))"

text \<open>\<open>dist[k] += p\<close> of a \<open>defaultdict(Fraction)\<close>.\<close>

definition add_prob :: "'k \<Rightarrow> rat \<Rightarrow> ('k \<times> rat) list \<Rightarrow> ('k \<times> rat) list" where
  "add_prob k p ds = AList.update k ((case map_of ds k of None \<Rightarrow> 0 | Some q \<Rightarrow> q) + p) ds"

definition getCritDist :: "int \<Rightarrow> rat \<Rightarrow> int \<Rightarrow> int \<Rightarrow> int \<Rightarrow> int \<Rightarrow> int \<Rightarrow> bool \<Rightarrow> rat \<Rightarrow> (int \<times> rat) list result" where
  "getCritDist L p A1 A2 D1 D2 B stab te =
     (let p = min p 1 in
      rbind (getDamages L A1 D1 B stab te) (\<lambda>norm.
      rbind (getDamages (L * 2) A2 D2 B stab te) (\<lambda>crit.
      Inr (fold (\<lambda>(mult, vals) ds. let mult = mult / of_nat (length vals) in fold (\<lambda>x. add_prob x mult) vals ds)
             [(1 - p, norm), (p, crit)] []))))"

definition plus12 :: "int \<Rightarrow> int" where "plus12 x = x + x div 8"
definition plus50 :: "int \<Rightarrow> int" where "plus50 x = x + x div 2"

section \<open>The state of a battle\<close>

record stats =
  atk :: int
  df :: int
  speed :: int
  spec :: int

definition NOMODS :: stats where "NOMODS = \<lparr>atk = 0, df = 0, speed = 0, spec = 0\<rparr>"

record fixeddata =
  maxhp :: int
  fstats :: stats
  lvl :: int
  badges :: stats \<comment> \<open>a plain tuple for one side, the same four numbers\<close>
  basespeed :: int

record halfstate =
  fixed :: fixeddata
  hp :: int
  status :: int
  statmods :: stats
  hstats :: stats

type_synonym bstate = "halfstate \<times> halfstate \<times> int"

definition applyHPChange :: "halfstate \<Rightarrow> int \<Rightarrow> halfstate" where
  "applyHPChange hstate change = hstate\<lparr>hp := min (maxhp (fixed hstate)) (max 0 (hp hstate + change))\<rparr>"

definition applyBadgeBoosts :: "stats \<Rightarrow> stats \<Rightarrow> stats" where
  "applyBadgeBoosts bs st =
     (let boost = (\<lambda>x b. if b \<noteq> 0 then plus12 x else x) in
      \<lparr>atk = boost (atk st) (atk bs), df = boost (df st) (df bs), speed = boost (speed st) (speed bs), spec = boost (spec st) (spec bs)\<rparr>)"

record attack =
  power :: int
  isspec :: bool
  stab :: bool
  te :: rat
  crit :: bool

definition attack_data :: "string \<Rightarrow> attack option" where
  "attack_data = map_of
    [(''Ember'', \<lparr>power = 40, isspec = True, stab = True, te = 1 / 2, crit = False\<rparr>),
     (''Dig'', \<lparr>power = 100, isspec = False, stab = False, te = 1, crit = False\<rparr>),
     (''Slash'', \<lparr>power = 70, isspec = False, stab = False, te = 1, crit = True\<rparr>),
     (''Water Gun'', \<lparr>power = 40, isspec = True, stab = True, te = 2, crit = False\<rparr>),
     (''Bubblebeam'', \<lparr>power = 65, isspec = True, stab = True, te = 2, crit = False\<rparr>)]"

definition applyActionSide1 :: "bstate \<Rightarrow> string \<Rightarrow> (bstate \<times> rat) list result" where
  "applyActionSide1 = (\<lambda>(me, them, extra) act.
     if act = ''Super Potion'' then Inr [((applyHPChange me 50, them, extra), 1)]
     else case attack_data act of None \<Rightarrow> Inl KeyError
     | Some mdata \<Rightarrow>
         let a = (if isspec mdata then spec else atk); d = (if isspec mdata then spec else df);
             pdiv = (if crit mdata then 64 else 512) in
         rbind (getCritDist (lvl (fixed me)) (of_int (basespeed (fixed me)) / pdiv)
                  (a (hstats me)) (a (fstats (fixed me))) (d (hstats them)) (d (fstats (fixed them)))
                  (power mdata) (stab mdata) (te mdata)) (\<lambda>dmg_dist.
         Inr (fold (\<lambda>(dmg, p). add_prob (me, applyHPChange them (- dmg), extra) p) dmg_dist [])))"

definition applyAction :: "bstate \<Rightarrow> nat \<Rightarrow> string \<Rightarrow> (bstate \<times> rat) list result" where
  "applyAction state side act =
     (if side = 0 then applyActionSide1 state act
      else case state of (me, them, extra) \<Rightarrow>
        rbind (applyActionSide1 (them, me, extra) act) (\<lambda>ds.
        Inr (fold (\<lambda>((k0, k1, k2), v) d. AList.update (k1, k0, k2) v d) ds [])))"

section \<open>The decision process\<close>

text \<open>
  The nodes: a choice of an action, both actions to be performed, the second action to be
  performed, and the two ends.
\<close>

datatype statep =
    Choice bstate
  | Both bstate string
  | Second bstate nat string
  | End bool

definition win :: statep where "win = End True"
definition loss :: statep where "loss = End False"

definition getSuccessorsA :: "bstate \<Rightarrow> statep list" where
  "getSuccessorsA state = map (Both state) [''Dig'', ''Super Potion'']"

definition applyActionPair :: "bstate \<Rightarrow> nat \<Rightarrow> string \<Rightarrow> nat \<Rightarrow> string \<Rightarrow> (statep \<times> rat) list \<Rightarrow> rat \<Rightarrow> (statep \<times> rat) list result" where
  "applyActionPair state side1 act1 side2 act2 ds pmult =
     rbind (applyAction state side1 act1) (\<lambda>news.
     Inr (fold (\<lambda>(newstate, p).
       add_prob (if hp (fst newstate) = 0 then loss else if hp (fst (snd newstate)) = 0 then win else Second newstate side2 act2) (p * pmult))
       news ds))"

definition keep_positive :: "('k \<times> rat) list \<Rightarrow> ('k \<times> rat) list" where
  "keep_positive = filter (\<lambda>(k, p). p > 0)"

text \<open>\<open>{k:float(p) for k,p in dist.items() if p>0}\<close>.\<close>

definition float_dist :: "('k \<times> rat) list \<Rightarrow> ('k \<times> rat) list" where
  "float_dist d = map (\<lambda>(k, p). (k, fl p)) (keep_positive d)"

definition successors_turn :: "bstate \<Rightarrow> string \<Rightarrow> string \<times> rat \<Rightarrow> (statep \<times> rat) list \<Rightarrow> (statep \<times> rat) list result" where
  "successors_turn state action = (\<lambda>(eact, p) ds.
     let priority1 = speed (hstats (fst state)) + 10000 * of_bool (action = ''Super Potion'');
         priority2 = speed (hstats (fst (snd state))) + 10000 * of_bool (action = ''X Defend'') in
     if priority1 > priority2 then applyActionPair state 0 action 1 eact ds p
     else if priority1 < priority2 then applyActionPair state 1 eact 0 action ds p
     else rbind (applyActionPair state 0 action 1 eact ds (p / 2)) (\<lambda>ds.
          applyActionPair state 1 eact 0 action ds (p / 2)))"

definition getSuccessorsB :: "bstate \<Rightarrow> string \<Rightarrow> (statep \<times> rat) list result" where
  "getSuccessorsB state action =
     rbind (for_each [(''Water Gun'', 64 / 130), (''Bubblebeam'', 66 / 130)] (successors_turn state action) [])
       (\<lambda>ds. Inr (float_dist ds))"

definition getSuccessorsC :: "bstate \<Rightarrow> nat \<Rightarrow> string \<Rightarrow> (statep \<times> rat) list result" where
  "getSuccessorsC state side action =
     rbind (applyAction state side action) (\<lambda>news.
     Inr (float_dist (fold (\<lambda>(newstate, p).
       add_prob (if hp (fst newstate) = 0 then loss else if hp (fst (snd newstate)) = 0 then win else Choice newstate) p) news [])))"

text \<open>
  The order of tuples, as the order of the lists of what is in them: nodes with the same first
  component have the same shape.
\<close>

definition stats_key :: "stats \<Rightarrow> int list" where
  "stats_key s = [atk s, df s, speed s, spec s]"

definition half_key :: "halfstate \<Rightarrow> int list" where
  "half_key h = maxhp (fixed h) # stats_key (fstats (fixed h)) @ [lvl (fixed h)] @ stats_key (badges (fixed h)) @
     [basespeed (fixed h), hp h, status h] @ stats_key (statmods h) @ stats_key (hstats h)"

definition bstate_key :: "bstate \<Rightarrow> int list" where
  "bstate_key = (\<lambda>(a, b, c). half_key a @ half_key b @ [c])"

definition chars_key :: "string \<Rightarrow> int list" where
  "chars_key = map of_char"

fun statep_key :: "statep \<Rightarrow> int list" where
  "statep_key (Choice s) = 0 # bstate_key s"
| "statep_key (Both s a) = 1 # bstate_key s @ chars_key a"
| "statep_key (Second s i a) = 2 # bstate_key s @ int i # chars_key a"
| "statep_key (End b) = [4, of_bool b]"

text \<open>The sorted items of a distribution; a choice has no probabilities, here 1 for each action.\<close>

definition compute_successors :: "statep \<Rightarrow> (statep \<times> rat) list result" where
  "compute_successors sp =
     (let sort_items = sort_key (\<lambda>(k, p). (- p, statep_key k)) in
      case sp of
        Choice s \<Rightarrow> Inr (map (\<lambda>k. (k, 1)) (getSuccessorsA s))
      | Both s a \<Rightarrow> rbind (getSuccessorsB s a) (\<lambda>d. Inr (sort_items d))
      | Second s i a \<Rightarrow> rbind (getSuccessorsC s i a) (\<lambda>d. Inr (sort_items d))
      | End b \<Rightarrow> Inl UnboundLocalError)"

record battle =
  successors :: "statep \<rightharpoonup> (statep \<times> rat) list"
  dmin :: "statep \<Rightarrow> rat"
  dmax :: "statep \<Rightarrow> rat"
  frozen :: "statep set"

definition Battle :: battle where
  "Battle = \<lparr>successors = Map.empty, dmin = (\<lambda>_. 0)(win := 1), dmax = (\<lambda>_. 1)(loss := 0), frozen = {win, loss}\<rparr>"

definition getSuccessors :: "statep \<Rightarrow> battle \<Rightarrow> ((statep \<times> rat) list \<times> battle) result" where
  "getSuccessors sp b = (case successors b sp of
     Some r \<Rightarrow> Inr (r, b)
   | None \<Rightarrow> rbind (compute_successors sp) (\<lambda>r. Inr (r, b\<lparr>successors := (successors b)(sp \<mapsto> r)\<rparr>)))"

definition getSuccessorsList :: "statep \<Rightarrow> battle \<Rightarrow> (statep list \<times> battle) result" where
  "getSuccessorsList sp b = (case sp of
     End e \<Rightarrow> Inr ([], b)
   | _ \<Rightarrow> rbind (getSuccessors sp b) (\<lambda>(r, b). Inr (map fst r, b)))"

text \<open>
  \<open>max\<close> and \<open>sum\<close> over the successors; \<open>max\<close> of nothing raises. The products are rounded, and so is each
  addition, from the left: this is \<open>sum\<close> as PyPy and CPython before 3.12 have it, later versions
  compensate the errors.
\<close>

definition choice_value :: "(statep \<Rightarrow> rat) \<Rightarrow> (statep \<times> rat) list \<Rightarrow> rat result" where
  "choice_value d succs = (case succs of [] \<Rightarrow> Inl ValueError | (k, p) # rest \<Rightarrow> Inr (fold (\<lambda>(k, p). max (d k)) rest (d k)))"

definition chance_value :: "(statep \<Rightarrow> rat) \<Rightarrow> (statep \<times> rat) list \<Rightarrow> rat" where
  "chance_value d succs = fold (\<lambda>(k, p) acc. fl (acc + fl (d k * p))) succs 0"

definition evaluate_node :: "statep \<Rightarrow> battle \<Rightarrow> battle result" where
  "evaluate_node sp b =
     (if sp \<in> frozen b then Inr b
      else rbind (getSuccessors sp b) (\<lambda>(succs, b).
        rbind (case sp of
            Choice s \<Rightarrow> rbind (choice_value (dmin b) succs) (\<lambda>lo. rbind (choice_value (dmax b) succs) (\<lambda>hi. Inr (lo, hi)))
          | _ \<Rightarrow> Inr (chance_value (dmin b) succs, chance_value (dmax b) succs)) (\<lambda>(lo, hi).
        let b = b\<lparr>dmin := (dmin b)(sp := lo), dmax := (dmax b)(sp := hi)\<rparr> in
        if lo \<ge> hi
        then let v = fl (fl (lo + hi) / 2) in Inr (b\<lparr>dmin := (dmin b)(sp := v), dmax := (dmax b)(sp := v), frozen := insert sp (frozen b)\<rparr>)
        else Inr b)))"

fun evaluate_loop :: "nat \<Rightarrow> rat \<Rightarrow> statep \<Rightarrow> statep list \<Rightarrow> battle \<Rightarrow> battle result" where
  "evaluate_loop fuel tolerance start stateps b =
     (if fl (dmax b start - dmin b start) > tolerance
      then case fuel of 0 \<Rightarrow> Inl OutOfFuel
           | Suc fuel \<Rightarrow> rbind (for_each stateps evaluate_node b) (evaluate_loop fuel tolerance start stateps)
      else Inr b)"

declare evaluate_loop.simps [simp del]

definition initial_state :: bstate where
  "initial_state =
     (let bs = \<lparr>atk = 1, df = 0, speed = 0, spec = 0\<rparr>;
          starfixed = \<lparr>maxhp = 59, fstats = \<lparr>atk = 40, df = 44, speed = 56, spec = 50\<rparr>, lvl = 11, badges = NOMODS, basespeed = 115\<rparr>;
          starhalf = \<lparr>fixed = starfixed, hp = 59, status = 0, statmods = NOMODS, hstats = \<lparr>atk = 40, df = 44, speed = 56, spec = 50\<rparr>\<rparr>;
          charfixed = \<lparr>maxhp = 63, fstats = \<lparr>atk = 39, df = 34, speed = 46, spec = 38\<rparr>, lvl = 26, badges = bs, basespeed = 65\<rparr>;
          charhalf = \<lparr>fixed = charfixed, hp = 63, status = 0, statmods = NOMODS,
                      hstats = applyBadgeBoosts bs \<lparr>atk = 39, df = 34, speed = 46, spec = 38\<rparr>\<rparr>
      in (charhalf, starhalf, 0))"

definition evaluate :: "nat \<Rightarrow> rat \<Rightarrow> rat result" where
  "evaluate fuel tolerance =
     (let start = Choice initial_state in
      rbind (topoSort fuel [start] getSuccessorsList Battle) (\<lambda>(stateps, b).
      rbind (evaluate_loop fuel tolerance start stateps b) (\<lambda>b.
      Inr (fl (fl (dmax b start + dmin b start) / 2)))))"

end
