(* ===== verification/MdpProperties.thy ===== *)
theory MdpProperties
  imports Mdp "HOL-Library.Multiset"
begin

text \<open>
  The successors of a battle state have the probabilities of an exact distribution, rounded to floats,
  the value iteration keeps its two bounds in order and lets the upper one grow by rounding errors at
  most, and the topological sort visits every reachable node once, parents first.
\<close>

section \<open>Distributions\<close>

definition mass :: "('k \<times> rat) list \<Rightarrow> rat" where
  "mass d = sum_list (map snd d)"

text \<open>No key twice, no negative probability.\<close>

definition weights :: "('k \<times> rat) list \<Rightarrow> bool" where
  "weights d \<longleftrightarrow> distinct (map fst d) \<and> (\<forall>p \<in> set (map snd d). 0 \<le> p)"

definition distribution :: "('k \<times> rat) list \<Rightarrow> bool" where
  "distribution d \<longleftrightarrow> weights d \<and> mass d = 1"

lemma total_update:
  "distinct (map fst d) \<Longrightarrow> mass (AList.update k q d) = mass d - (case map_of d k of None \<Rightarrow> 0 | Some p \<Rightarrow> p) + q"
  by (induction d) (auto simp: mass_def)

lemma total_add_prob: "distinct (map fst d) \<Longrightarrow> mass (add_prob k p d) = mass d + p"
  by (simp add: add_prob_def total_update)

lemma set_update: "set (map snd (AList.update k q d)) \<subseteq> insert q (set (map snd d))"
  by (induction d) auto

lemma weights_add_prob: "weights d \<Longrightarrow> 0 \<le> p \<Longrightarrow> weights (add_prob k p d)"
proof -
  assume d: "weights d" and p: "0 \<le> p"
  let ?q = "(case map_of d k of None \<Rightarrow> 0 | Some q \<Rightarrow> q) + p"
  have "0 \<le> (case map_of d k of None \<Rightarrow> 0 | Some q \<Rightarrow> q)"
    using d by (auto simp: weights_def split: option.split dest: map_of_SomeD)
  then have "0 \<le> ?q" using p by simp
  then have "\<forall>q \<in> set (map snd (AList.update k ?q d)). 0 \<le> q"
    using d set_update [of k ?q d] unfolding weights_def by blast
  moreover have "distinct (map fst (AList.update k ?q d))" using d by (simp add: weights_def distinct_update)
  ultimately show ?thesis unfolding weights_def add_prob_def by blast
qed

lemma weights_fold_add:
  assumes "weights d" and "\<And>x. x \<in> set xs \<Longrightarrow> 0 \<le> g x"
  shows "weights (fold (\<lambda>x. add_prob (f x) (g x)) xs d) \<and>
    mass (fold (\<lambda>x. add_prob (f x) (g x)) xs d) = mass d + sum_list (map g xs)"
  using assms
proof (induction xs arbitrary: d)
  case (Cons x xs)
  have "weights (add_prob (f x) (g x) d)" using Cons.prems by (intro weights_add_prob) auto
  with Cons show ?case by (simp add: total_add_prob weights_def)
qed simp

lemma weights_Nil [simp]: "weights []" "mass [] = 0"
  by (simp_all add: weights_def mass_def)

text \<open>Counting every key of a distribution under another name.\<close>

lemma weights_fold_pairs:
  assumes "weights d" and "weights news" and "0 \<le> c"
  shows "weights (fold (\<lambda>(k, p). add_prob (f k) (p * c)) news d) \<and>
    mass (fold (\<lambda>(k, p). add_prob (f k) (p * c)) news d) = mass d + mass news * c"
proof -
  have "weights (fold (\<lambda>x. add_prob (f (fst x)) (snd x * c)) news d) \<and>
    mass (fold (\<lambda>x. add_prob (f (fst x)) (snd x * c)) news d) = mass d + sum_list (map (\<lambda>x. snd x * c) news)"
    using assms by (intro weights_fold_add) (auto simp: weights_def)
  then show ?thesis by (simp add: case_prod_unfold mass_def sum_list_mult_const)
qed

text \<open>The probabilities are multiples of \<open>1 / n\<close> for a small \<open>n\<close>, so a positive one is not tiny.\<close>

definition on_grid :: "nat \<Rightarrow> rat \<Rightarrow> bool" where
  "on_grid n p \<longleftrightarrow> (\<exists>j :: int. p = of_int j / of_nat n)"

definition grid :: "nat \<Rightarrow> ('k \<times> rat) list \<Rightarrow> bool" where
  "grid n d \<longleftrightarrow> (\<forall>p \<in> set (map snd d). on_grid n p)"

lemma on_gridI: "p = of_int j / of_nat n \<Longrightarrow> on_grid n p"
  by (auto simp: on_grid_def)

lemma on_grid_0 [simp]: "on_grid n 0"
  by (rule on_gridI [of _ 0]) simp

lemma on_grid_add: "on_grid n a \<Longrightarrow> on_grid n b \<Longrightarrow> on_grid n (a + b)"
  unfolding on_grid_def by (metis add_divide_distrib of_int_add)

lemma on_grid_diff: "on_grid n a \<Longrightarrow> on_grid n b \<Longrightarrow> on_grid n (a - b)"
  unfolding on_grid_def by (metis diff_divide_distrib of_int_diff)

lemma on_grid_mult: "on_grid n a \<Longrightarrow> on_grid m b \<Longrightarrow> on_grid (n * m) (a * b)"
  unfolding on_grid_def by (metis of_int_mult of_nat_mult times_divide_times_eq)

lemma on_grid_1: "0 < n \<Longrightarrow> on_grid n 1"
  by (rule on_gridI [of _ "int n"]) simp

lemma on_grid_least:
  assumes "on_grid n p" and "0 < p"
  shows "1 / of_nat n \<le> p"
proof -
  obtain j where j: "p = of_int j / of_nat n" using assms(1) by (auto simp: on_grid_def)
  then have "0 < of_int j / (of_nat n :: rat)" using assms(2) by simp
  then have "1 \<le> j" "0 < n" by (auto simp: zero_less_divide_iff)
  then show ?thesis unfolding j by (intro divide_right_mono) simp_all
qed

lemma grid_add_prob:
  assumes "grid n d" and "on_grid n p"
  shows "grid n (add_prob k p d)"
proof -
  have "on_grid n (case map_of d k of None \<Rightarrow> 0 | Some q \<Rightarrow> q)"
    using assms(1) by (fastforce simp: grid_def split: option.split dest: map_of_SomeD)
  then have "on_grid n ((case map_of d k of None \<Rightarrow> 0 | Some q \<Rightarrow> q) + p)" using assms(2) by (rule on_grid_add)
  then show ?thesis using assms(1) set_update unfolding grid_def add_prob_def by fast
qed

lemma grid_Nil [simp]: "grid n []"
  by (simp add: grid_def)

lemma grid_fold_add:
  "grid n d \<Longrightarrow> (\<And>x. x \<in> set xs \<Longrightarrow> on_grid n (g x)) \<Longrightarrow> grid n (fold (\<lambda>x. add_prob (f x) (g x)) xs d)"
  by (induction xs arbitrary: d) (simp_all add: grid_add_prob)

lemma grid_fold_pairs:
  assumes "grid (n * m) d" and "grid n news" and "on_grid m c"
  shows "grid (n * m) (fold (\<lambda>(k, p). add_prob (f k) (p * c)) news d)"
proof -
  have "grid (n * m) (fold (\<lambda>x. add_prob (f (fst x)) (snd x * c)) news d)"
    using assms by (intro grid_fold_add on_grid_mult) (auto simp: grid_def)
  then show ?thesis by (simp add: case_prod_unfold)
qed

lemma damages_length:
  assumes "D \<noteq> 0"
  shows "\<exists>xs. getDamages L A D B st t = Inr xs \<and> length xs = 39"
  unfolding getDamages_def Let_def if_not_P [OF assms] sum.inject
  by (intro exI conjI, rule refl, unfold length_map length_upt, simp)

lemma crit_dist:
  assumes "D1 \<noteq> 0" and "D2 \<noteq> 0" and "0 \<le> p" and "on_grid 512 p"
  shows "\<exists>d. getCritDist L p A1 A2 D1 D2 B st t = Inr d \<and> distribution d \<and> grid 19968 d"
proof -
  obtain norm crt where nc: "getDamages L A1 D1 B st t = Inr norm" "getDamages (L * 2) A2 D2 B st t = Inr crt"
     "length norm = 39" "length crt = 39"
    using damages_length [OF assms(1)] damages_length [OF assms(2)] by metis
  let ?p = "min p 1"
  let ?d1 = "fold (\<lambda>x. add_prob x ((1 - ?p) / 39)) norm []"
  let ?d2 = "fold (\<lambda>x. add_prob x (?p / 39)) crt ?d1"
  have d1: "weights ?d1 \<and> mass ?d1 = sum_list (map (\<lambda>x. (1 - ?p) / 39) norm)"
    using weights_fold_add [of "[]" norm "\<lambda>x. (1 - ?p) / 39" "\<lambda>x. x"] by simp
  have d2: "weights ?d2 \<and> mass ?d2 = mass ?d1 + sum_list (map (\<lambda>x. ?p / 39) crt)"
    using d1 assms(3) by (intro weights_fold_add [where f = "\<lambda>x. x" and g = "\<lambda>x. ?p / 39"]) auto
  have "sum_list (map (\<lambda>x. (1 - ?p) / 39) norm) = 1 - ?p" "sum_list (map (\<lambda>x. ?p / 39) crt) = ?p"
    using nc(3,4) by (simp_all add: sum_list_triv)
  with d1 d2 have "distribution ?d2" unfolding distribution_def by simp
  moreover have "on_grid 512 ?p" using assms(4) by (simp add: min_def on_grid_1)
  then have "on_grid 512 (1 - ?p)" "on_grid 512 ?p" "on_grid 39 (1 / 39)"
    using on_gridI [of "1 / 39" 1 39] by (simp_all add: on_grid_diff on_grid_1)
  then have "on_grid (512 * 39) ((1 - ?p) * (1 / 39))" "on_grid (512 * 39) (?p * (1 / 39))"
    by (blast intro: on_grid_mult)+
  then have "grid 19968 ?d2" by (intro grid_fold_add) simp_all
  ultimately show ?thesis using nc by (simp add: getCritDist_def Let_def)
qed

text \<open>The sides of a state whose attacks cannot divide by zero.\<close>

definition side_ok :: "halfstate \<Rightarrow> bool" where
  "side_ok h \<longleftrightarrow> df (hstats h) \<noteq> 0 \<and> spec (hstats h) \<noteq> 0 \<and> df (fstats (fixed h)) \<noteq> 0 \<and> spec (fstats (fixed h)) \<noteq> 0 \<and>
     0 \<le> basespeed (fixed h) \<and> 0 \<le> hp h \<and> hp h \<le> maxhp (fixed h)"

definition state_ok :: "bstate \<Rightarrow> bool" where
  "state_ok = (\<lambda>(me, them, extra). side_ok me \<and> side_ok them)"

definition actions :: "string set" where
  "actions = {''Super Potion'', ''Ember'', ''Dig'', ''Slash'', ''Water Gun'', ''Bubblebeam''}"

lemma side_ok_hp: "side_ok h \<Longrightarrow> side_ok (applyHPChange h c)"
  by (auto simp: side_ok_def applyHPChange_def)

lemma attack_actions: "act \<in> actions \<Longrightarrow> act = ''Super Potion'' \<or> (\<exists>a. attack_data act = Some a)"
  by (auto simp: actions_def attack_data_def)

lemma keys_fold_add: "set (map fst (fold (\<lambda>(k, p). add_prob (f k) (g p)) xs d)) \<subseteq> set (map fst d) \<union> f ` set (map fst xs)"
proof (induction xs arbitrary: d)
  case (Cons x xs)
  obtain k p where x: "x = (k, p)" by (cases x)
  have "set (map fst (add_prob (f k) (g p) d)) = insert (f k) (set (map fst d))"
    by (simp add: add_prob_def dom_map_of_conv_image_fst [symmetric] update_conv')
  then show ?case using Cons [of "add_prob (f k) (g p) d"] x by auto
qed simp

lemma update_new: "k \<notin> set (map fst d) \<Longrightarrow> AList.update k v d = d @ [(k, v)]"
  by (induction d) auto

lemma fold_update_inj:
  assumes "inj f" and "distinct (map fst ds)" and "f ` set (map fst ds) \<inter> set (map fst acc) = {}"
  shows "fold (\<lambda>(k, v). AList.update (f k) v) ds acc = acc @ map (\<lambda>(k, v). (f k, v)) ds"
  using assms(2,3)
proof (induction ds arbitrary: acc)
  case (Cons x ds)
  obtain k v where x: "x = (k, v)" by (cases x)
  have "AList.update (f k) v acc = acc @ [(f k, v)]" using Cons.prems x by (intro update_new) auto
  moreover have "f ` set (map fst ds) \<inter> set (map fst (acc @ [(f k, v)])) = {}"
    using Cons.prems x assms(1) by (auto simp: inj_def)
  ultimately show ?case using Cons.IH [of "acc @ [(f k, v)]"] Cons.prems(1) x by simp
qed simp

definition swap_sides :: "bstate \<Rightarrow> bstate" where
  "swap_sides = (\<lambda>(k0, k1, k2). (k1, k0, k2))"

lemma inj_swap: "inj swap_sides"
  by (auto simp: inj_def swap_sides_def)

lemma swap_fold: "fold (\<lambda>((k0, k1, k2), v) d. AList.update (k1, k0, k2) v d) ds [] = fold (\<lambda>(k, v). AList.update (swap_sides k) v) ds []"
  by (rule arg_cong [of _ _ "\<lambda>f. fold f ds []"]) (auto simp: swap_sides_def fun_eq_iff)

lemma distribution_swap:
  assumes "distribution d"
  shows "distribution (map (\<lambda>(k, v). (swap_sides k, v)) d)"
proof -
  have e: "map fst (map (\<lambda>(k, v). (swap_sides k, v)) d) = map swap_sides (map fst d)" "map snd (map (\<lambda>(k, v). (swap_sides k, v)) d) = map snd d"
    by auto
  have "inj_on swap_sides (set (map fst d))" using inj_swap by (rule inj_on_subset) simp
  then have "distinct (map swap_sides (map fst d))"
    using assms by (subst distinct_map) (simp add: distribution_def weights_def)
  then show ?thesis using assms unfolding distribution_def weights_def mass_def e by blast
qed

lemma action_side1:
  assumes "state_ok (me, them, extra)" and "act \<in> actions"
  shows "\<exists>d. applyActionSide1 (me, them, extra) act = Inr d \<and> distribution d \<and> grid 19968 d \<and> (\<forall>k \<in> set (map fst d). state_ok k)"
proof (cases "act = ''Super Potion''")
  case True
  then show ?thesis
    using assms by (simp add: applyActionSide1_def distribution_def weights_def mass_def state_ok_def side_ok_hp grid_def on_grid_1)
next
  case False
  with attack_actions [OF assms(2)] obtain a where a: "attack_data act = Some a" by blast
  have ok: "side_ok me" "side_ok them" using assms(1) by (auto simp: state_ok_def)
  let ?dm = "if isspec a then spec else df" and ?am = "if isspec a then spec else atk"
  let ?p = "of_int (basespeed (fixed me)) / (if crit a then 64 else 512) :: rat"
  have "?dm (hstats them) \<noteq> 0" "?dm (fstats (fixed them)) \<noteq> 0" "0 \<le> ?p" using ok by (auto simp: side_ok_def)
  moreover have "on_grid 512 ?p"
    using on_gridI [of ?p "basespeed (fixed me) * (if crit a then 8 else 1)" 512] by simp
  ultimately obtain d where d: "getCritDist (lvl (fixed me)) ?p (?am (hstats me)) (?am (fstats (fixed me)))
      (?dm (hstats them)) (?dm (fstats (fixed them))) (power a) (stab a) (te a) = Inr d" "distribution d" "grid 19968 d" using crit_dist by blast
  let ?f = "\<lambda>dmg. (me, applyHPChange them (- dmg), extra)"
  let ?r = "fold (\<lambda>(k, p). add_prob (?f k) (p * 1)) d []"
  have "weights ?r \<and> mass ?r = mass [] + mass d * 1"
    using d(2) weights_fold_pairs [of "[]" d 1 ?f] by (simp add: distribution_def)
  then have "distribution ?r" using d(2) by (simp add: distribution_def)
  moreover have "grid 19968 ?r" using grid_fold_pairs [of 19968 1 "[]" d 1 ?f] d(3) by (simp add: on_grid_1)
  moreover have "set (map fst ?r) \<subseteq> ?f ` set (map fst d)" using keys_fold_add [of ?f "\<lambda>p. p * 1" d "[]"] by simp
  then have "\<forall>k \<in> set (map fst ?r). state_ok k" using ok side_ok_hp by (auto simp: state_ok_def)
  ultimately show ?thesis using False a d(1) by (auto simp: applyActionSide1_def Let_def)
qed

lemma apply_action:
  assumes "state_ok s" and "act \<in> actions"
  shows "\<exists>d. applyAction s side act = Inr d \<and> distribution d \<and> grid 19968 d \<and> (\<forall>k \<in> set (map fst d). state_ok k)"
proof -
  obtain me them extra where s: "s = (me, them, extra)" by (cases s)
  show ?thesis
  proof (cases "side = 0")
    case True
    then show ?thesis using action_side1 [of me them extra act] assms s by (simp add: applyAction_def)
  next
    case False
    have "state_ok (them, me, extra)" using assms(1) s by (simp add: state_ok_def)
    from action_side1 [OF this assms(2)] obtain d where d: "applyActionSide1 (them, me, extra) act = Inr d" "distribution d"
      "\<forall>k \<in> set (map fst d). state_ok k" "grid 19968 d" by blast
    have "fold (\<lambda>(k, v). AList.update (swap_sides k) v) d [] = map (\<lambda>(k, v). (swap_sides k, v)) d"
      using fold_update_inj [OF inj_swap, of d "[]"] d(2) by (simp add: distribution_def weights_def)
    moreover have "\<forall>k \<in> set (map fst (map (\<lambda>(k, v). (swap_sides k, v)) d)). state_ok k"
      using d(3) by (auto simp: state_ok_def swap_sides_def split: prod.splits)
    moreover have "grid 19968 (map (\<lambda>(k, v). (swap_sides k, v)) d)" using d(4) by (auto simp: grid_def)
    ultimately show ?thesis using False d distribution_swap [OF d(2)] s by (simp add: applyAction_def swap_fold)
  qed
qed

text \<open>The nodes that can come up.\<close>

fun node_ok :: "statep \<Rightarrow> bool" where
  "node_ok (Choice s) \<longleftrightarrow> state_ok s"
| "node_ok (Both s a) \<longleftrightarrow> state_ok s \<and> a \<in> actions"
| "node_ok (Second s i a) \<longleftrightarrow> state_ok s \<and> a \<in> actions"
| "node_ok (End b) \<longleftrightarrow> True"

lemma action_pair:
  assumes "state_ok s" and "act1 \<in> actions" and "act2 \<in> actions" and "weights d" and "0 \<le> c" and "\<forall>k \<in> set (map fst d). node_ok k"
    and "grid 2595840 d" and "on_grid 130 c"
  shows "\<exists>r. applyActionPair s side1 act1 side2 act2 d c = Inr r \<and> weights r \<and> mass r = mass d + c \<and>
    (\<forall>k \<in> set (map fst r). node_ok k) \<and> grid 2595840 r"
proof -
  obtain n where n: "applyAction s side1 act1 = Inr n" "distribution n" "\<forall>k \<in> set (map fst n). state_ok k" "grid 19968 n"
    using apply_action [OF assms(1,2)] by blast
  let ?f = "\<lambda>newstate. if hp (fst newstate) = 0 then loss else if hp (fst (snd newstate)) = 0 then win else Second newstate side2 act2"
  let ?r = "fold (\<lambda>(k, p). add_prob (?f k) (p * c)) n d"
  have "weights ?r \<and> mass ?r = mass d + mass n * c"
    using assms n(2) by (intro weights_fold_pairs) (auto simp: distribution_def)
  moreover have "set (map fst ?r) \<subseteq> set (map fst d) \<union> ?f ` set (map fst n)" by (rule keys_fold_add)
  moreover have "\<forall>k \<in> set (map fst n). node_ok (?f k)" using n(3) assms(3) by (auto simp: loss_def win_def)
  ultimately have "weights ?r" "mass ?r = mass d + c" "\<forall>k \<in> set (map fst ?r). node_ok k"
    using n(2) assms(6) unfolding distribution_def by (simp, simp, blast)
  moreover have "grid 2595840 ?r" using grid_fold_pairs [of 19968 130 d n c ?f] n(4) assms(7,8) by simp
  ultimately show ?thesis using n(1) by (simp add: applyActionPair_def)
qed

lemma mass_positive: "weights d \<Longrightarrow> mass (keep_positive d) = mass d"
  by (induction d) (auto simp: mass_def weights_def keep_positive_def)

text \<open>
  \<open>rounds q d\<close>: the distribution \<open>q\<close> is exact, without tiny probabilities, and \<open>d\<close> has the same keys
  with the nearest floats, in some order.
\<close>

definition rounds :: "('k \<times> rat) list \<Rightarrow> ('k \<times> rat) list \<Rightarrow> bool" where
  "rounds q d \<longleftrightarrow> distribution q \<and> (\<forall>p \<in> set (map snd q). 1 / 2595840 \<le> p) \<and>
     mset d = mset (map (\<lambda>(k, p). (k, fl p)) q)"

lemma rounds_float_dist:
  assumes "weights d" and "mass d = 1" and "grid 2595840 d"
  shows "rounds (keep_positive d) (float_dist d)"
proof -
  have "distribution (keep_positive d)"
    using assms mass_positive [OF assms(1)]
    by (auto simp: distribution_def weights_def keep_positive_def distinct_map_filter)
  moreover have "1 / of_nat 2595840 \<le> p" if "p \<in> set (map snd (keep_positive d))" for p
    using that assms(3) by (intro on_grid_least) (auto simp: grid_def keep_positive_def)
  then have "\<forall>p \<in> set (map snd (keep_positive d)). 1 / 2595840 \<le> p" by simp
  ultimately show ?thesis unfolding rounds_def float_dist_def by blast
qed

lemma rounds_sort: "rounds q d \<Longrightarrow> rounds q (sort_key f d)"
  by (simp add: rounds_def)

lemma mass_mset: "mset d = mset d' \<Longrightarrow> mass d = mass d'"
  unfolding mass_def by (metis mset_map sum_mset_sum_list)

lemma fl_normal_error:
  assumes "1 / 2595840 \<le> p"
  shows "\<bar>fl p - p\<bar> \<le> p / 2 ^ 53" and "0 < fl p"
proof -
  have "pow2 (- 1075) \<le> pow2 (- 75)" by simp
  also have "\<dots> = 1 / of_int (2 ^ 75)" using pow2_nat [of 75] pow2_diff [of 0 75] by simp
  also have "\<dots> \<le> (1 / 2595840) / 2 ^ 53" by simp
  also have "\<dots> \<le> p / 2 ^ 53" using assms by (intro divide_right_mono) simp_all
  finally have t: "pow2 (- 1075) \<le> p / 2 ^ 53" .
  have "0 < p" using assms by (rule less_le_trans [rotated]) simp
  then show e: "\<bar>fl p - p\<bar> \<le> p / 2 ^ 53" using fl_error [of p] t by simp
  have "p / 2 ^ 53 < p" using \<open>0 < p\<close> by (simp add: divide_less_eq)
  with e show "0 < fl p" by linarith
qed

lemma mass_fl:
  assumes "\<forall>p \<in> set (map snd q). 1 / 2595840 \<le> p"
  shows "\<bar>mass (map (\<lambda>(k, p). (k, fl p)) q) - mass q\<bar> \<le> mass q / 2 ^ 53"
  using assms
proof (induction q)
  case (Cons x q)
  obtain k p where x: "x = (k, p)" by (cases x)
  let ?r = "mass (map (\<lambda>(k, p). (k, fl p)) q)"
  have "\<bar>?r - mass q\<bar> \<le> mass q / 2 ^ 53" "\<bar>fl p - p\<bar> \<le> p / 2 ^ 53"
    using Cons fl_normal_error(1) [of p] x by simp_all
  moreover have m: "mass (map (\<lambda>(k, p). (k, fl p)) (x # q)) = fl p + ?r" "mass (x # q) = p + mass q"
    by (simp_all add: mass_def x)
  moreover have "(p + mass q) / 2 ^ 53 = p / 2 ^ 53 + mass q / 2 ^ 53" by (rule add_divide_distrib)
  ultimately show ?case unfolding m by linarith
qed simp

text \<open>What holds of the floats themselves.\<close>

lemma rounds_facts:
  assumes "rounds q d"
  shows "distinct (map fst d)" and "p \<in> set (map snd d) \<Longrightarrow> 0 < p \<and> p \<le> 1 \<and> is_float p"
    and "\<bar>mass d - 1\<bar> \<le> 1 / 2 ^ 53" and "d \<noteq> []" and "set (map fst d) = set (map fst q)"
proof -
  have q: "distribution q" "\<forall>p \<in> set (map snd q). 1 / 2595840 \<le> p" and d: "mset d = mset (map (\<lambda>(k, p). (k, fl p)) q)"
    using assms by (auto simp: rounds_def)
  let ?d = "map (\<lambda>(k, p). (k, fl p)) q"
  have f: "map fst ?d = map fst q" by auto
  have k: "mset (map fst d) = mset (map fst q)" using d f by (metis mset_map)
  then show "distinct (map fst d)" using q(1) by (metis distribution_def weights_def mset_eq_imp_distinct_iff)
  show "set (map fst d) = set (map fst q)" using k by (rule mset_eq_setD)
  have m: "mass d = mass ?d" using d by (rule mass_mset)
  then show "\<bar>mass d - 1\<bar> \<le> 1 / 2 ^ 53" using mass_fl [OF q(2)] q(1) by (simp add: distribution_def)
  show "d \<noteq> []" using d q(1) by (auto simp: distribution_def mass_def)
  assume "p \<in> set (map snd d)"
  moreover have "set d = set ?d" using d by (rule mset_eq_setD)
  ultimately have "p \<in> snd ` (\<lambda>(k, p). (k, fl p)) ` set q" by simp
  then have "p \<in> fl ` set (map snd q)" by force
  then obtain p' where p': "p' \<in> set (map snd q)" "p = fl p'" by blast
  have "0 \<le> p''" if "p'' \<in> set (map snd q)" for p'' using q(1) that by (auto simp: distribution_def weights_def)
  then have "p' \<le> 1" using member_le_sum_list [of p' "map snd q"] p'(1) q(1) by (simp add: distribution_def mass_def)
  moreover have "0 < fl p'" using fl_normal_error(2) q(2) p'(1) by blast
  moreover have "0 \<le> p'" using q(2) p'(1) by fastforce
  ultimately show "0 < p \<and> p \<le> 1 \<and> is_float p"
    using fl_mono [of p' 1] fl_is_float [of p'] is_float_1 p'(2) by (simp add: is_float_def)
qed

lemma keys_float_dist: "set (map fst (float_dist d)) \<subseteq> set (map fst d)"
  by (force simp: float_dist_def keep_positive_def)

lemma successors_B:
  assumes "state_ok s" and "a \<in> actions"
  shows "\<exists>d q. getSuccessorsB s a = Inr d \<and> rounds q d \<and> (\<forall>k \<in> set (map fst d). node_ok k)"
proof -
  have turn: "\<exists>r. successors_turn s a (e, p) d = Inr r \<and> weights r \<and> mass r = mass d + p \<and> (\<forall>k \<in> set (map fst r). node_ok k) \<and>
      grid 2595840 r"
    if "e \<in> actions" "0 \<le> p" "weights d" "\<forall>k \<in> set (map fst d). node_ok k" "grid 2595840 d" "on_grid 65 p" for e p d
  proof -
    let ?p1 = "speed (hstats (fst s)) + 10000 * of_bool (a = ''Super Potion'')"
    let ?p2 = "speed (hstats (fst (snd s))) + 10000 * of_bool (a = ''X Defend'') :: int"
    have "on_grid 2 (1 / 2)" "on_grid 2 1" by (rule on_gridI [of _ 1], simp) (rule on_grid_1, simp)
    then have half: "on_grid 130 (p / 2)" "on_grid 130 p"
      using on_grid_mult [OF that(6), of 2] by (force, force)
    consider "?p1 > ?p2" | "?p1 < ?p2" | "?p1 = ?p2" by linarith
    then show ?thesis
    proof cases
      case 1
      with action_pair [OF assms(1,2) that(1,3,2,4,5) half(2), of 0 1] show ?thesis by (simp add: successors_turn_def)
    next
      case 2
      with action_pair [OF assms(1) that(1) assms(2) that(3,2,4,5) half(2), of 1 0] show ?thesis by (simp add: successors_turn_def)
    next
      case 3
      have pos: "0 \<le> p / 2" using that(2) by simp
      from action_pair [OF assms(1,2) that(1,3) pos that(4,5) half(1), of 0 1] obtain r where
        r: "applyActionPair s 0 a 1 e d (p / 2) = Inr r" "weights r" "mass r = mass d + p / 2" "\<forall>k \<in> set (map fst r). node_ok k"
          "grid 2595840 r" by blast
      from action_pair [OF assms(1) that(1) assms(2) r(2) pos r(4,5) half(1), of 1 0] obtain r2 where
        r2: "applyActionPair s 1 e 0 a r (p / 2) = Inr r2" "weights r2" "mass r2 = mass d + p" "\<forall>k \<in> set (map fst r2). node_ok k"
          "grid 2595840 r2"
        using r(3) by auto
      then show ?thesis using r(1) 3 by (simp add: successors_turn_def)
    qed
  qed
  have g: "on_grid 65 (64 / 130)" "on_grid 65 (66 / 130)"
    by (rule on_gridI [of _ 32], simp) (rule on_gridI [of _ 33], simp)
  obtain d1 where d1: "successors_turn s a (''Water Gun'', 64 / 130) [] = Inr d1" "weights d1" "mass d1 = 64 / 130"
    "\<forall>k \<in> set (map fst d1). node_ok k" "grid 2595840 d1"
    using turn [OF _ _ _ _ _ g(1), of "''Water Gun''" "[]"] by (auto simp: actions_def)
  obtain d2 where d2: "successors_turn s a (''Bubblebeam'', 66 / 130) d1 = Inr d2" "weights d2" "mass d2 = 64 / 130 + 66 / 130"
    "\<forall>k \<in> set (map fst d2). node_ok k" "grid 2595840 d2"
    using turn [OF _ _ _ _ _ g(2), of "''Bubblebeam''" d1] d1 by (auto simp: actions_def)
  have "rounds (keep_positive d2) (float_dist d2)" using d2 by (intro rounds_float_dist) auto
  moreover have "\<forall>k \<in> set (map fst (float_dist d2)). node_ok k" using d2(4) keys_float_dist by fast
  ultimately show ?thesis using d1(1) d2(1) by (auto simp: getSuccessorsB_def)
qed

lemma successors_C:
  assumes "state_ok s" and "a \<in> actions"
  shows "\<exists>d q. getSuccessorsC s i a = Inr d \<and> rounds q d \<and> (\<forall>k \<in> set (map fst d). node_ok k)"
proof -
  obtain n where n: "applyAction s i a = Inr n" "distribution n" "\<forall>k \<in> set (map fst n). state_ok k" "grid 19968 n"
    using apply_action [OF assms] by blast
  let ?f = "\<lambda>newstate. if hp (fst newstate) = 0 then loss else if hp (fst (snd newstate)) = 0 then win else Choice newstate"
  let ?r = "fold (\<lambda>(k, p). add_prob (?f k) (p * 1)) n []"
  have "weights ?r \<and> mass ?r = mass n * 1"
    using weights_fold_pairs [of "[]" n 1 ?f] n(2) by (auto simp: distribution_def)
  moreover have "grid 2595840 ?r" using grid_fold_pairs [of 19968 130 "[]" n 1 ?f] n(4) by (simp add: on_grid_1)
  ultimately have r: "rounds (keep_positive ?r) (float_dist ?r)"
    using n(2) by (intro rounds_float_dist) (auto simp: distribution_def)
  have "set (map fst ?r) \<subseteq> ?f ` set (map fst n)" using keys_fold_add [of ?f "\<lambda>p. p * 1" n "[]"] by simp
  moreover have "\<forall>k \<in> set (map fst n). node_ok (?f k)" using n(3) by (auto simp: loss_def win_def)
  ultimately have "\<forall>k \<in> set (map fst ?r). node_ok k" by blast
  then have "\<forall>k \<in> set (map fst (float_dist ?r)). node_ok k" using keys_float_dist by fast
  with r n(1) show ?thesis by (auto simp: getSuccessorsC_def)
qed

definition chance :: "statep \<Rightarrow> bool" where
  "chance sp \<longleftrightarrow> (case sp of Both s a \<Rightarrow> True | Second s i a \<Rightarrow> True | _ \<Rightarrow> False)"

text \<open>The order of the items: the likely first.\<close>

definition item_key :: "statep \<times> rat \<Rightarrow> rat \<times> int list" where
  "item_key = (\<lambda>(k, p). (- p, statep_key k))"

lemma chance_successors:
  assumes "node_ok sp" and "chance sp"
  shows "\<exists>d q. compute_successors sp = Inr d \<and> rounds q d \<and> (\<forall>k \<in> set (map fst d). node_ok k) \<and> sorted (map item_key d)"
proof -
  obtain d q where d: "(\<exists>s a. sp = Both s a \<and> getSuccessorsB s a = Inr d) \<or> (\<exists>s i a. sp = Second s i a \<and> getSuccessorsC s i a = Inr d)"
    "rounds q d" "\<forall>k \<in> set (map fst d). node_ok k"
  proof (cases sp)
    case (Both s a)
    then show ?thesis using successors_B [of s a] assms(1) that by auto
  next
    case (Second s i a)
    then show ?thesis using successors_C [of s a i] assms(1) that by auto
  qed (use assms(2) in \<open>simp_all add: chance_def\<close>)
  then have "compute_successors sp = Inr (sort_key item_key d)" by (auto simp: compute_successors_def item_key_def)
  moreover have "sorted (map item_key (sort_key item_key d))" by simp
  ultimately show ?thesis using d(2,3) rounds_sort [of q d item_key] by (intro exI [of _ "sort_key item_key d"] exI [of _ q]) auto
qed

lemma successors_ok:
  assumes "node_ok sp" and "\<forall>e. sp \<noteq> End e"
  shows "\<exists>d. compute_successors sp = Inr d \<and> d \<noteq> [] \<and> (\<forall>k \<in> set (map fst d). node_ok k)"
proof (cases "chance sp")
  case True
  then show ?thesis using chance_successors [OF assms(1)] rounds_facts(4) by blast
next
  case False
  then obtain s where "sp = Choice s" using assms(2) by (auto simp: chance_def split: statep.splits)
  then show ?thesis using assms(1) by (simp add: compute_successors_def getSuccessorsA_def actions_def)
qed

text \<open>
  C28: at every node of the process whose sides are in order the successors are computed without an
  error and are again such nodes. Where chance decides, there is an exact probability distribution over
  them, and each one has its probability rounded to the nearest float; the floats are positive, at most
  one, their exact sum is one up to \<open>1 / 2 ^ 53\<close>, no successor occurs twice, and the likely ones come first.
\<close>

theorem successors_distribution:
  assumes "node_ok sp" and "\<forall>e. sp \<noteq> End e"
  shows "\<exists>d. compute_successors sp = Inr d \<and> d \<noteq> [] \<and> (\<forall>k \<in> set (map fst d). node_ok k) \<and>
    (chance sp \<longrightarrow> (\<exists>q. distribution q \<and> mset d = mset (map (\<lambda>(k, p). (k, fl p)) q)) \<and> distinct (map fst d) \<and>
      (\<forall>p \<in> set (map snd d). 0 < p \<and> p \<le> 1) \<and> \<bar>sum_list (map snd d) - 1\<bar> \<le> 1 / 2 ^ 53 \<and>
      sorted (map (\<lambda>(k, p). (- p, statep_key k)) d))"
proof (cases "chance sp")
  case True
  then obtain d q where d: "compute_successors sp = Inr d" "rounds q d" "\<forall>k \<in> set (map fst d). node_ok k" "sorted (map item_key d)"
    using chance_successors assms(1) by blast
  moreover have "distribution q" "mset d = mset (map (\<lambda>(k, p). (k, fl p)) q)" using d(2) by (simp_all add: rounds_def)
  moreover note rounds_facts [OF d(2)]
  ultimately show ?thesis unfolding mass_def item_key_def by blast
next
  case False
  then show ?thesis using successors_ok [OF assms] by blast
qed

lemma initial_ok: "state_ok initial_state"
  by (simp add: state_ok_def side_ok_def initial_state_def applyBadgeBoosts_def plus12_def Let_def)

theorem successors_distribution_witness:
  "\<exists>d q. compute_successors (Both initial_state ''Dig'') = Inr d \<and> distribution q \<and> mset d = mset (map (\<lambda>(k, p). (k, fl p)) q) \<and>
    \<bar>sum_list (map snd d) - 1\<bar> \<le> 1 / 2 ^ 53"
  using successors_distribution [of "Both initial_state ''Dig''"] initial_ok by (auto simp: actions_def chance_def)

section \<open>The value iteration\<close>

text \<open>The cache holds what would be computed, the values are floats, and the bounds are in order.\<close>

definition battle_ok :: "battle \<Rightarrow> bool" where
  "battle_ok b \<longleftrightarrow> (\<forall>k r. successors b k = Some r \<longrightarrow> compute_successors k = Inr r) \<and>
     (\<forall>k. 0 \<le> dmin b k \<and> dmin b k \<le> dmax b k \<and> is_float (dmin b k) \<and> is_float (dmax b k)) \<and> {win, loss} \<subseteq> frozen b"

lemma battle_ok_set:
  assumes "battle_ok b" and "0 \<le> lo" and "lo \<le> hi" and "is_float lo" and "is_float hi" and "frozen b \<subseteq> F"
  shows "battle_ok (b\<lparr>dmin := (dmin b)(sp := lo), dmax := (dmax b)(sp := hi), frozen := F\<rparr>)"
  using assms by (auto simp: battle_ok_def)

lemma choice_value_fold:
  "choice_value f ((k, p) # rest) = Inr (fold max (map (f \<circ> fst) rest) (f k))"
  by (simp add: choice_value_def fold_map case_prod_unfold comp_def)

lemma fold_max_mono:
  "(\<forall>x \<in> set xs. f x \<le> (g x :: rat)) \<Longrightarrow> a \<le> b \<Longrightarrow> fold max (map f xs) a \<le> fold max (map g xs) b"
  by (induction xs arbitrary: a b) (auto intro: max.mono)

text \<open>A property of all values is one of the largest.\<close>

lemma fold_max_pred: "(\<forall>x \<in> set xs. P (f x)) \<Longrightarrow> P a \<Longrightarrow> P (fold max (map f xs) (a :: rat))"
  by (induction xs arbitrary: a) (auto simp: max_def)

text \<open>The bound of a sum of \<open>n\<close> rounded products, when the values are at most \<open>m\<close>.\<close>

definition rho :: rat where
  "rho = 1 + 1 / 2 ^ 53"

lemma rho_ge: "1 \<le> rho" "0 \<le> rho"
  by (simp_all add: rho_def)

lemma fl_le_rho: "0 \<le> x \<Longrightarrow> fl x \<le> x * rho + pow2 (- 1075)"
  unfolding rho_def by (rule fl_le)

definition grown :: "nat \<Rightarrow> rat \<Rightarrow> rat" where
  "grown n m = rho ^ (n + 2) * (m + of_nat n * pow2 (- 1074))"

lemma chance_value_fold:
  assumes "\<forall>p \<in> set (map snd d). 0 \<le> p" and "\<forall>k. 0 \<le> f k \<and> f k \<le> g k \<and> g k \<le> m" and "0 \<le> a" and "a \<le> b"
  shows "0 \<le> fold (\<lambda>(k, p) acc. fl (acc + fl (f k * p))) d a \<and>
    fold (\<lambda>(k, p) acc. fl (acc + fl (f k * p))) d a \<le> fold (\<lambda>(k, p) acc. fl (acc + fl (g k * p))) d b \<and>
    fold (\<lambda>(k, p) acc. fl (acc + fl (g k * p))) d b \<le>
      rho ^ length d * (b + rho * m * mass d + of_nat (length d) * pow2 (- 1074))"
  using assms(1,3,4)
proof (induction d arbitrary: a b)
  case Nil
  then show ?case by (simp add: mass_def)
next
  case (Cons x d)
  obtain k p where x: "x = (k, p)" by (cases x)
  let ?t = "pow2 (- 1075)"
  have p: "0 \<le> p" using Cons.prems(1) x by simp
  have "0 \<le> f k" "f k \<le> g k" "g k \<le> m" using assms(2) by blast+
  from mult_nonneg_nonneg [OF this(1) p] mult_right_mono [OF this(2) p] mult_right_mono [OF this(3) p]
  have fg: "0 \<le> f k * p" "f k * p \<le> g k * p" "g k * p \<le> m * p" .
  have m: "0 \<le> m" using assms(2) by (meson order.trans)
  let ?a = "fl (a + fl (f k * p))" and ?b = "fl (b + fl (g k * p))"
  have ord: "0 \<le> ?a" "?a \<le> ?b"
    using fg Cons.prems(2,3) fl_nonneg [OF fg(1)] fl_mono [OF fg(1,2)] by (auto intro!: fl_nonneg fl_mono)
  have "fl (g k * p) \<le> (g k * p) * rho + ?t" using fg by (intro fl_le_rho) simp
  also have "\<dots> \<le> (m * p) * rho + ?t" by (intro add_right_mono mult_right_mono [OF fg(3)]) (simp add: rho_ge)
  finally have prod: "fl (g k * p) \<le> (m * p) * rho + ?t" .
  have gp: "0 \<le> fl (g k * p)" using fl_nonneg [of "g k * p"] fg by linarith
  have "?b \<le> (b + fl (g k * p)) * rho + ?t" using Cons.prems(2,3) gp by (intro fl_le_rho) simp
  also have "\<dots> \<le> (b + ((m * p) * rho + ?t)) * rho + ?t" using prod rho_ge(2) by (intro add_right_mono mult_right_mono) simp_all
  finally have b: "?b \<le> (b + ((m * p) * rho + ?t)) * rho + ?t" .
  let ?R = "rho * m * mass d + of_nat (length d) * pow2 (- 1074)"
  have t2: "pow2 (- 1074) = ?t + ?t" using pow2_Suc [of "- 1075"] by simp
  have "0 \<le> mass d" using Cons.prems(1) unfolding mass_def by (intro sum_list_nonneg) auto
  then have R: "0 \<le> ?R" using m rho_ge(2) by (intro add_nonneg_nonneg mult_nonneg_nonneg) simp_all
  have "?R \<le> ?R * rho" "?t \<le> ?t * rho" using R mult_left_mono [OF rho_ge(1) R] mult_left_mono [OF rho_ge(1), of ?t] by simp_all
  then have "?b + ?R \<le> (b + ((m * p) * rho + ?t)) * rho + ?t * rho + ?R * rho" using b by linarith
  also have "\<dots> = rho * (b + rho * m * mass (x # d) + of_nat (length (x # d)) * pow2 (- 1074))"
    by (simp add: mass_def x t2 algebra_simps)
  finally have step: "rho ^ length d * (?b + ?R) \<le> rho ^ length d * (rho * (b + rho * m * mass (x # d) + of_nat (length (x # d)) * pow2 (- 1074)))"
    using rho_ge(2) by (intro mult_left_mono) simp_all
  have IH: "0 \<le> fold (\<lambda>(k, p) acc. fl (acc + fl (f k * p))) d ?a \<and>
    fold (\<lambda>(k, p) acc. fl (acc + fl (f k * p))) d ?a \<le> fold (\<lambda>(k, p) acc. fl (acc + fl (g k * p))) d ?b \<and>
    fold (\<lambda>(k, p) acc. fl (acc + fl (g k * p))) d ?b \<le> rho ^ length d * (?b + rho * m * mass d + of_nat (length d) * pow2 (- 1074))"
    using Cons.prems ord by (intro Cons.IH) auto
  then have "fold (\<lambda>(k, p) acc. fl (acc + fl (g k * p))) d ?b \<le> rho ^ length d * (?b + ?R)" by (simp only: add.assoc)
  also note step
  also have "rho ^ length d * (rho * (b + rho * m * mass (x # d) + of_nat (length (x # d)) * pow2 (- 1074))) =
      rho ^ length (x # d) * (b + rho * m * mass (x # d) + of_nat (length (x # d)) * pow2 (- 1074))"
    by (simp add: mult_ac)
  finally show ?case using IH unfolding x by simp
qed

lemma chance_value_bounds:
  assumes "rounds q d" and "\<forall>k. 0 \<le> f k \<and> f k \<le> g k \<and> g k \<le> m"
  shows "0 \<le> chance_value f d" and "chance_value f d \<le> chance_value g d" and "chance_value g d \<le> grown (length d) m"
proof -
  let ?n = "length d"
  have pos: "\<forall>p \<in> set (map snd d). 0 \<le> p" using rounds_facts(2) [OF assms(1)] by fastforce
  note b = chance_value_fold [OF pos assms(2) order.refl order.refl]
  then show "0 \<le> chance_value f d" "chance_value f d \<le> chance_value g d" unfolding chance_value_def by blast+
  have m: "0 \<le> m" using assms(2) by (meson order.trans)
  have "mass d \<le> rho" using rounds_facts(3) [OF assms(1)] unfolding rho_def by linarith
  then have "rho * m * mass d \<le> rho * m * rho" using m rho_ge(2) by (intro mult_left_mono mult_nonneg_nonneg) simp_all
  moreover have "of_nat ?n * pow2 (- 1074) \<le> rho * rho * (of_nat ?n * pow2 (- 1074))"
    using mult_right_mono [of 1 "rho * rho" "of_nat ?n * pow2 (- 1074)"] mult_mono [OF rho_ge(1) rho_ge(1)] rho_ge(2) by simp
  ultimately have "0 + rho * m * mass d + of_nat ?n * pow2 (- 1074) \<le> rho * m * rho + rho * rho * (of_nat ?n * pow2 (- 1074))"
    by linarith
  also have "\<dots> = rho\<^sup>2 * (m + of_nat ?n * pow2 (- 1074))" by (simp add: power2_eq_square distrib_left mult_ac)
  finally have "rho ^ ?n * (0 + rho * m * mass d + of_nat ?n * pow2 (- 1074)) \<le> rho ^ ?n * (rho\<^sup>2 * (m + of_nat ?n * pow2 (- 1074)))"
    using rho_ge(2) by (intro mult_left_mono) simp_all
  moreover have "chance_value g d \<le> rho ^ ?n * (0 + rho * m * mass d + of_nat ?n * pow2 (- 1074))"
    using b unfolding chance_value_def by blast
  moreover have "rho ^ ?n * (rho\<^sup>2 * (m + of_nat ?n * pow2 (- 1074))) = grown ?n m"
    by (simp only: grown_def power_add mult.assoc)
  ultimately show "chance_value g d \<le> grown ?n m" by linarith
qed

lemma chance_fold_float:
  "\<forall>p \<in> set (map snd d). 0 \<le> p \<Longrightarrow> \<forall>k. 0 \<le> f k \<Longrightarrow> 0 \<le> a \<Longrightarrow> is_float a \<Longrightarrow>
   is_float (fold (\<lambda>(k, p) acc. fl (acc + fl (f k * p))) d a)"
proof (induction d arbitrary: a)
  case (Cons x d)
  obtain k p where x: "x = (k, p)" by (cases x)
  have "0 \<le> f k * p" using Cons.prems x by simp
  then have "0 \<le> a + fl (f k * p)" using Cons.prems(3) fl_nonneg by (intro add_nonneg_nonneg) simp_all
  then have "is_float (fold (\<lambda>(k, p) acc. fl (acc + fl (f k * p))) d (fl (a + fl (f k * p))))"
    using Cons.prems by (intro Cons.IH fl_nonneg fl_is_float) simp_all
  then show ?case by (simp add: x)
qed simp

lemma chance_value_float: "\<forall>p \<in> set (map snd d). 0 \<le> p \<Longrightarrow> \<forall>k. 0 \<le> f k \<Longrightarrow> is_float (chance_value f d)"
  unfolding chance_value_def by (rule chance_fold_float) simp_all

lemma getSuccessors_ok:
  assumes "battle_ok b" and "compute_successors sp = Inr d"
  shows "\<exists>b'. getSuccessors sp b = Inr (d, b') \<and> battle_ok b' \<and>
    dmin b' = dmin b \<and> dmax b' = dmax b \<and> frozen b' = frozen b"
proof (cases "successors b sp")
  case None
  then show ?thesis using assms by (auto simp: getSuccessors_def battle_ok_def)
next
  case (Some r)
  then have "r = d" using assms by (simp add: battle_ok_def)
  then show ?thesis using assms(1) Some by (auto simp: getSuccessors_def)
qed

text \<open>
  C30: one step of the value iteration at any node in order ends without an error. It keeps the cache
  consistent with what it caches, all values floats and \<open>0 \<le> min \<le> max\<close> at every node; other nodes keep
  their bounds, a choice does not raise the upper bound above the largest one so far, and a chance node
  by the errors of rounding only.
\<close>

theorem evaluate_node_bounds:
  assumes "battle_ok b" and "node_ok sp" and "\<forall>k. dmax b k \<le> m"
  shows "\<exists>b'. evaluate_node sp b = Inr b' \<and> battle_ok b' \<and> frozen b \<subseteq> frozen b' \<and>
    (\<forall>k. k \<noteq> sp \<longrightarrow> dmin b' k = dmin b k \<and> dmax b' k = dmax b k) \<and>
    (dmax b' sp \<le> m \<or> chance sp \<and> (\<exists>d. compute_successors sp = Inr d \<and> dmax b' sp \<le> grown (length d) m))"
proof (cases "sp \<in> frozen b")
  case True
  then show ?thesis using assms(1,3) by (simp add: evaluate_node_def)
next
  case False
  then have end': "\<forall>e. sp \<noteq> End e" using assms(1) by (auto simp: battle_ok_def win_def loss_def) (metis (full_types))
  obtain d where d: "compute_successors sp = Inr d" "d \<noteq> []" using successors_ok [OF assms(2) end'] by blast
  obtain b' where g: "getSuccessors sp b = Inr (d, b')" "battle_ok b'" "dmin b' = dmin b" "dmax b' = dmax b" "frozen b' = frozen b"
    using getSuccessors_ok [OF assms(1) d(1)] by blast
  have bd: "\<forall>k. 0 \<le> dmin b' k \<and> dmin b' k \<le> dmax b' k \<and> dmax b' k \<le> m" using g(2,4) assms(3) by (simp add: battle_ok_def)
  have fls: "\<And>k. is_float (dmin b' k) \<and> is_float (dmax b' k)" using g(2) by (simp add: battle_ok_def)
  obtain lo hi where v: "(case sp of
            Choice s \<Rightarrow> rbind (choice_value (dmin b') d) (\<lambda>lo. rbind (choice_value (dmax b') d) (\<lambda>hi. Inr (lo, hi)))
          | _ \<Rightarrow> Inr (chance_value (dmin b') d, chance_value (dmax b') d)) = Inr (lo, hi)" "0 \<le> lo" "lo \<le> hi"
      "is_float lo" "is_float hi" "hi \<le> m \<or> chance sp \<and> hi \<le> grown (length d) m"
  proof (cases "chance sp")
    case True
    then obtain q where q: "rounds q d" using chance_successors [OF assms(2)] d(1) by auto
    have pos: "\<forall>p \<in> set (map snd d). 0 \<le> p" using rounds_facts(2) [OF q] by fastforce
    have "is_float (chance_value (dmin b') d)" "is_float (chance_value (dmax b') d)"
      using bd pos by (auto intro!: chance_value_float) (meson order.trans)
    then show ?thesis using chance_value_bounds [OF q bd] True
      by (intro that [of "chance_value (dmin b') d" "chance_value (dmax b') d"]) (auto simp: chance_def split: statep.splits)
  next
    case no: False
    then obtain s where s: "sp = Choice s" using end' by (auto simp: chance_def split: statep.splits)
    obtain k p rest where kr: "d = (k, p) # rest" using d(2) by (cases d) auto
    let ?lo = "fold max (map (dmin b' \<circ> fst) rest) (dmin b' k)" and ?hi = "fold max (map (dmax b' \<circ> fst) rest) (dmax b' k)"
    have "0 \<le> ?lo" by (rule fold_max_pred) (use bd in auto)
    moreover have "?lo \<le> ?hi" using bd by (intro fold_max_mono) auto
    moreover have "?hi \<le> m" by (rule fold_max_pred) (use bd in auto)
    moreover have "is_float ?lo" "is_float ?hi" by (rule fold_max_pred; use fls in auto)+
    ultimately show ?thesis using s kr by (intro that [of ?lo ?hi]) (auto simp: choice_value_fold)
  qed
  let ?b = "b'\<lparr>dmin := (dmin b')(sp := lo), dmax := (dmax b')(sp := hi)\<rparr>"
  let ?F = "if lo \<ge> hi then insert sp (frozen b') else frozen b'"
  have "fl (fl (lo + hi) / 2) = lo \<and> hi = lo" if "lo \<ge> hi" using that v(2-4) fl_mean [of lo] by simp
  then have "evaluate_node sp b = Inr (?b\<lparr>frozen := ?F\<rparr>)"
    using False g(1) v(1) by (auto simp: evaluate_node_def Let_def)
  moreover have "frozen b' \<subseteq> ?F" by auto
  from battle_ok_set [OF g(2) v(2-5) this, of sp] have "battle_ok (?b\<lparr>frozen := ?F\<rparr>)" by simp
  ultimately show ?thesis using d(1) v(6) g(3-5) by (intro exI [of _ "?b\<lparr>frozen := ?F\<rparr>"]) auto
qed

theorem evaluate_node_bounds_witness:
  "\<exists>b' d. evaluate_node (Both initial_state ''Dig'') Battle = Inr b' \<and> battle_ok b' \<and>
    compute_successors (Both initial_state ''Dig'') = Inr d \<and> d \<noteq> [] \<and>
    (dmax b' (Both initial_state ''Dig'') \<le> 1 \<or> dmax b' (Both initial_state ''Dig'') \<le> grown (length d) 1)"
proof -
  let ?sp = "Both initial_state ''Dig''"
  have "battle_ok Battle" by (auto simp: battle_ok_def Battle_def win_def loss_def)
  moreover have ok: "node_ok ?sp" using initial_ok by (simp add: actions_def)
  moreover have "\<forall>k. dmax Battle k \<le> 1" by (simp add: Battle_def)
  moreover obtain d where "compute_successors ?sp = Inr d" "d \<noteq> []" using successors_ok [OF ok] by blast
  ultimately show ?thesis using evaluate_node_bounds [of Battle ?sp 1] by auto
qed

section \<open>The topological sort\<close>

definition edges :: "('a \<Rightarrow> 'a list) \<Rightarrow> ('a \<times> 'a) set" where
  "edges g = {(x, p). p \<in> set (g x)}"

text \<open>Every node that waits has its parents in \<open>S\<close> or above it; what waits below an entry reaches it.\<close>

fun ordered :: "('a \<Rightarrow> 'a list) \<Rightarrow> 'a set \<Rightarrow> ('a \<times> nat) list \<Rightarrow> bool" where
  "ordered g S [] \<longleftrightarrow> True"
| "ordered g S ((x, s) # st) \<longleftrightarrow> (s \<noteq> 0 \<longrightarrow> set (g x) \<subseteq> S) \<and> ordered g (insert x S) st"

definition waiting :: "('a \<times> nat) list \<Rightarrow> 'a set" where
  "waiting st = {x. \<exists>s. (x, s) \<in> set st \<and> s \<noteq> 0}"

fun linked :: "('a \<Rightarrow> 'a list) \<Rightarrow> ('a \<times> nat) list \<Rightarrow> bool" where
  "linked g [] \<longleftrightarrow> True"
| "linked g ((y, s) # st) \<longleftrightarrow> (\<forall>q \<in> waiting st. (q, y) \<in> (edges g)\<^sup>+) \<and> linked g st"

lemma waiting_simps [simp]:
  "waiting [] = {}" "waiting ((x, 0) # st) = waiting st" "s \<noteq> 0 \<Longrightarrow> waiting ((x, s) # st) = insert x (waiting st)"
  "waiting (st @ st') = waiting st \<union> waiting st'" "waiting (map (\<lambda>p. (p, 0)) ps) = {}"
  by (auto simp: waiting_def)

lemma ordered_mono: "ordered g S st \<Longrightarrow> S \<subseteq> T \<Longrightarrow> ordered g T st"
proof (induction st arbitrary: S T)
  case (Cons a st)
  obtain x s where a: "a = (x, s)" by (cases a)
  have "insert x S \<subseteq> insert x T" using Cons.prems by auto
  with Cons a show ?case by (auto simp del: subset_insertI)
qed simp

lemma ordered_zeros: "ordered g S (map (\<lambda>p. (p, 0)) ps @ st) \<longleftrightarrow> ordered g (set ps \<union> S) st"
  by (induction ps arbitrary: S) (auto simp: insert_commute Un_commute)

lemma linked_zeros:
  "linked g (map (\<lambda>p. (p, 0)) ps @ st) \<longleftrightarrow> (\<forall>p \<in> set ps. \<forall>q \<in> waiting st. (q, p) \<in> (edges g)\<^sup>+) \<and> linked g st"
  by (induction ps) auto

text \<open>Without cycles an entry for a node that waits below is not needed.\<close>

lemma ordered_skip:
  assumes "acyclic (edges g)" and "linked g st" and "q \<in> waiting st" and "ordered g (insert q S) st"
  shows "ordered g S st"
  using assms(2-)
proof (induction st arbitrary: S)
  case (Cons a st)
  obtain x s where a: "a = (x, s)" by (cases a)
  have parents: "set (g x) \<subseteq> S" if "s \<noteq> 0"
  proof
    fix p assume p: "p \<in> set (g x)"
    then have "p \<in> insert q S" using Cons.prems a that by auto
    moreover have "p \<noteq> q"
    proof
      assume "p = q"
      then have "(x, q) \<in> (edges g)\<^sup>+" using p by (auto simp: edges_def)
      moreover have "x = q \<or> (q, x) \<in> (edges g)\<^sup>+" using Cons.prems a that by (auto split: if_splits)
      ultimately have "(q, q) \<in> (edges g)\<^sup>+" by (auto dest: trancl_trans)
      then show False using assms(1) by (simp add: acyclic_def)
    qed
    ultimately show "p \<in> S" by simp
  qed
  have "ordered g (insert x S) st"
  proof (cases "q \<in> waiting st")
    case True
    then show ?thesis using Cons.IH [of "insert x S"] Cons.prems a by (simp add: insert_commute)
  next
    case False
    then have "x = q" using Cons.prems a by (cases "s = 0") auto
    then show ?thesis using Cons.prems a by simp
  qed
  with parents a show ?case by simp
qed simp

definition in_topo_order :: "('a \<Rightarrow> 'a list) \<Rightarrow> 'a list \<Rightarrow> bool" where
  "in_topo_order g xs \<longleftrightarrow> (\<forall>i < length xs. set (g (xs ! i)) \<subseteq> set (take i xs))"

lemma in_topo_order_snoc: "in_topo_order g (xs @ [x]) \<longleftrightarrow> in_topo_order g xs \<and> set (g x) \<subseteq> set xs"
  by (auto simp: in_topo_order_def nth_append less_Suc_eq)

definition reach :: "('a \<Rightarrow> 'a list) \<Rightarrow> 'a list \<Rightarrow> 'a set" where
  "reach g roots = (edges g)\<^sup>* `` set roots"

text \<open>The invariant of the loop.\<close>

definition topo_inv :: "('a \<Rightarrow> 'a list) \<Rightarrow> 'a list \<Rightarrow> ('a \<times> nat) list \<Rightarrow> 'a set \<Rightarrow> 'a list \<Rightarrow> bool" where
  "topo_inv g roots st visited results \<longleftrightarrow>
     distinct results \<and> set results \<union> waiting st = visited \<and> set results \<inter> waiting st = {} \<and>
     distinct (map fst (filter (\<lambda>(x, s). s \<noteq> 0) st)) \<and>
     visited \<union> fst ` set st \<subseteq> reach g roots \<and>
     (\<forall>x \<in> visited. set (g x) \<subseteq> visited \<union> fst ` set st) \<and> set roots \<subseteq> visited \<union> fst ` set st \<and>
     (acyclic (edges g) \<longrightarrow> in_topo_order g results \<and> ordered g (set results) st \<and> linked g st)"

lemma topo_invI:
  assumes "distinct results" and "set results \<union> waiting st = visited" and "set results \<inter> waiting st = {}"
    and "distinct (map fst (filter (\<lambda>(x, s). s \<noteq> 0) st))"
    and "visited \<union> fst ` set st \<subseteq> reach g roots" and "\<forall>x \<in> visited. set (g x) \<subseteq> visited \<union> fst ` set st"
    and "set roots \<subseteq> visited \<union> fst ` set st"
    and "acyclic (edges g) \<Longrightarrow> in_topo_order g results \<and> ordered g (set results) st \<and> linked g st"
  shows "topo_inv g roots st visited results"
  unfolding topo_inv_def using assms by (intro conjI impI) simp_all

lemma topo_invD:
  assumes "topo_inv g roots st visited results"
  shows "distinct results" "set results \<union> waiting st = visited" "set results \<inter> waiting st = {}"
    "distinct (map fst (filter (\<lambda>(x, s). s \<noteq> 0) st))"
    "visited \<union> fst ` set st \<subseteq> reach g roots" "\<forall>x \<in> visited. set (g x) \<subseteq> visited \<union> fst ` set st"
    "set roots \<subseteq> visited \<union> fst ` set st"
    "acyclic (edges g) \<Longrightarrow> in_topo_order g results" "acyclic (edges g) \<Longrightarrow> ordered g (set results) st"
    "acyclic (edges g) \<Longrightarrow> linked g st"
  using assms by (simp_all add: topo_inv_def)

lemma no_waiting: "filter (\<lambda>(x, s). s \<noteq> 0) (map (\<lambda>n. (n, 0 :: nat)) xs) = []"
  by (induction xs) auto

lemma topo_inv_start: "topo_inv g roots (map (\<lambda>n. (n, 0)) (rev roots)) {} []"
proof (rule topo_invI)
  have "ordered g {} (map (\<lambda>n. (n, 0)) (rev roots) @ [])" "linked g (map (\<lambda>n. (n, 0)) (rev roots) @ [])"
    unfolding ordered_zeros linked_zeros by simp_all
  then show "in_topo_order g [] \<and> ordered g (set []) (map (\<lambda>n. (n, 0)) (rev roots)) \<and> linked g (map (\<lambda>n. (n, 0)) (rev roots))"
    by (simp add: in_topo_order_def)
qed (auto simp: no_waiting reach_def image_image simp del: rev_map)

lemma reach_step: "x \<in> reach g roots \<Longrightarrow> p \<in> set (g x) \<Longrightarrow> p \<in> reach g roots"
  by (auto simp: reach_def edges_def intro: rtrancl.rtrancl_into_rtrancl)

lemma topo_inv_visit:
  assumes inv: "topo_inv g roots ((x, 0) # st) visited results" and new: "x \<notin> visited"
  shows "topo_inv g roots (map (\<lambda>p. (p, 0)) (rev (g x)) @ (x, 1) # st) (insert x visited) results"
proof (rule topo_invI)
  note D = topo_invD [OF inv]
  have xr: "x \<in> reach g roots" using D(5) by auto
  have xw: "x \<notin> waiting st" "x \<notin> set results" using D(2) new by auto
  show "distinct results" by (rule D(1))
  show "set results \<union> waiting (map (\<lambda>p. (p, 0)) (rev (g x)) @ (x, 1) # st) = insert x visited"
    unfolding D(2) [symmetric] by (auto simp del: rev_map)
  show "set results \<inter> waiting (map (\<lambda>p. (p, 0)) (rev (g x)) @ (x, 1) # st) = {}"
    using D(3) xw by (auto simp del: rev_map)
  have "x \<notin> fst ` set (filter (\<lambda>(x, s). s \<noteq> 0) st)" using xw(1) by (auto simp: waiting_def)
  then show "distinct (map fst (filter (\<lambda>(x, s). s \<noteq> 0) (map (\<lambda>p. (p, 0)) (rev (g x)) @ (x, 1) # st)))"
    using D(4) unfolding filter_append no_waiting by simp
  have "fst ` set (map (\<lambda>p. (p, 0 :: nat)) (rev (g x)) @ (x, 1) # st) = set (g x) \<union> insert x (fst ` set st)"
    by (simp add: image_Un image_image)
  note f = this
  show "insert x visited \<union> fst ` set (map (\<lambda>p. (p, 0 :: nat)) (rev (g x)) @ (x, 1) # st) \<subseteq> reach g roots"
    unfolding f using D(5) xr reach_step [OF xr] by auto
  show "\<forall>y \<in> insert x visited. set (g y) \<subseteq> insert x visited \<union> fst ` set (map (\<lambda>p. (p, 0 :: nat)) (rev (g x)) @ (x, 1) # st)"
    unfolding f using D(6) by auto
  show "set roots \<subseteq> insert x visited \<union> fst ` set (map (\<lambda>p. (p, 0 :: nat)) (rev (g x)) @ (x, 1) # st)"
    unfolding f using D(7) by auto
  assume ac: "acyclic (edges g)"
  have "ordered g (set results) (map (\<lambda>p. (p, 0)) (rev (g x)) @ (x, 1) # st)"
    using D(9) [OF ac] unfolding ordered_zeros by (auto intro: ordered_mono)
  moreover have "linked g (map (\<lambda>p. (p, 0)) (rev (g x)) @ (x, 1) # st)"
  proof -
    have "(q, p) \<in> (edges g)\<^sup>+" if p: "p \<in> set (g x)" and q: "q \<in> insert x (waiting st)" for p q
    proof -
      have xp: "(x, p) \<in> edges g" using p by (simp add: edges_def)
      moreover have "(q, x) \<in> (edges g)\<^sup>+" if "q \<noteq> x" using D(10) [OF ac] q that by simp
      ultimately show ?thesis by (cases "q = x") (auto intro: trancl_into_trancl)
    qed
    moreover have "linked g ((x, 1) # st)" using D(10) [OF ac] by simp
    ultimately show ?thesis unfolding linked_zeros by simp
  qed
  ultimately show "in_topo_order g results \<and> ordered g (set results) (map (\<lambda>p. (p, 0)) (rev (g x)) @ (x, 1) # st) \<and>
      linked g (map (\<lambda>p. (p, 0)) (rev (g x)) @ (x, 1) # st)"
    using D(8) [OF ac] by blast
qed

lemma topo_inv_skip:
  assumes inv: "topo_inv g roots ((x, 0) # st) visited results" and old: "x \<in> visited"
  shows "topo_inv g roots st visited results"
proof (rule topo_invI)
  note D = topo_invD [OF inv]
  show "distinct results" "set results \<union> waiting st = visited" "set results \<inter> waiting st = {}"
    using D(1-3) by simp_all
  show "distinct (map fst (filter (\<lambda>(x, s). s \<noteq> 0) st))" using D(4) by simp
  show "visited \<union> fst ` set st \<subseteq> reach g roots" "\<forall>x \<in> visited. set (g x) \<subseteq> visited \<union> fst ` set st"
    "set roots \<subseteq> visited \<union> fst ` set st"
    using D(5-7) old by auto
  assume ac: "acyclic (edges g)"
  have "linked g st" using D(10) [OF ac] by simp
  moreover have ord: "ordered g (insert x (set results)) st" using D(9) [OF ac] by simp
  have "ordered g (set results) st"
  proof (cases "x \<in> set results")
    case True
    then show ?thesis using ord by (simp add: insert_absorb)
  next
    case False
    then have "x \<in> waiting st" using D(2) old by auto
    then show ?thesis using ordered_skip [OF ac \<open>linked g st\<close>] ord by blast
  qed
  ultimately show "in_topo_order g results \<and> ordered g (set results) st \<and> linked g st" using D(8) [OF ac] by blast
qed

lemma topo_inv_emit:
  assumes inv: "topo_inv g roots ((x, s) # st) visited results" and s: "s \<noteq> 0"
  shows "x \<in> visited" "topo_inv g roots st visited (results @ [x])"
proof -
  note D = topo_invD [OF inv]
  show "x \<in> visited" using D(2) s by auto
  have xw: "x \<notin> waiting st" using D(4) s by (force simp: waiting_def)
  show "topo_inv g roots st visited (results @ [x])"
  proof (rule topo_invI)
    show "distinct (results @ [x])" using D(1,3) s by simp
    show "set (results @ [x]) \<union> waiting st = visited" using D(2) s by auto
    show "set (results @ [x]) \<inter> waiting st = {}" using D(3) s xw by auto
    show "distinct (map fst (filter (\<lambda>(x, s). s \<noteq> 0) st))" using D(4) by (simp split: if_splits)
    show "visited \<union> fst ` set st \<subseteq> reach g roots" "\<forall>x \<in> visited. set (g x) \<subseteq> visited \<union> fst ` set st"
      "set roots \<subseteq> visited \<union> fst ` set st"
      using D(5-7) \<open>x \<in> visited\<close> by auto
    assume ac: "acyclic (edges g)"
    show "in_topo_order g (results @ [x]) \<and> ordered g (set (results @ [x])) st \<and> linked g st"
      using D(8-10) [OF ac] s by (simp add: in_topo_order_snoc)
  qed
qed

text \<open>
  The loop, when the parents of every node that can be reached are known: \<open>getParents\<close> gives
  them, whatever of its own state satisfies \<open>I\<close>. Each turn pops an entry, and a node pushes its
  parents once.
\<close>

lemma topo_loop_ok:
  assumes g: "\<And>x s. x \<in> reach g roots \<Longrightarrow> I s \<Longrightarrow> \<exists>s'. getParents x s = Inr (g x, s') \<and> I s'"
    and fin: "finite (reach g roots)"
    and "topo_inv g roots st visited results" and "I s"
    and "length st + (\<Sum>x \<in> reach g roots - visited. length (g x) + 2) \<le> fuel"
  shows "\<exists>rs s'. topo_loop fuel getParents st visited results s = Inr (rs, s') \<and> I s' \<and> topo_inv g roots [] (set rs) rs"
  using assms(3-)
proof (induction fuel arbitrary: st visited results s)
  case 0
  then have "st = []" by simp
  with 0 have "set results = visited" using topo_invD(2) [of g roots st visited results] by simp
  with 0 \<open>st = []\<close> show ?case by auto
next
  case (Suc fuel)
  show ?case
  proof (cases st)
    case Nil
    then have "set results = visited" using topo_invD(2) [OF Suc.prems(1)] by simp
    with Nil Suc.prems show ?thesis by auto
  next
    case (Cons e rest)
    obtain x c where e: "e = (x, c)" by (cases e)
    have inv: "topo_inv g roots ((x, c) # rest) visited results" using Suc.prems(1) Cons e by simp
    consider "c = 0" "x \<notin> visited" | "c = 0" "x \<in> visited" | "c \<noteq> 0" by blast
    then show ?thesis
    proof cases
      case 1
      have xr: "x \<in> reach g roots" using topo_invD(5) [OF inv] by auto
      obtain s' where s': "getParents x s = Inr (g x, s')" "I s'" using g [OF xr Suc.prems(2)] by blast
      let ?st = "map (\<lambda>p. (p, 0)) (rev (g x)) @ (x, 1) # rest"
      have "(\<Sum>x \<in> reach g roots - visited. length (g x) + 2) =
          (length (g x) + 2) + (\<Sum>x \<in> reach g roots - insert x visited. length (g x) + 2)"
        using 1 xr fin by (subst sum.remove [of _ x]) (auto simp: Diff_insert [symmetric])
      then have "length ?st + (\<Sum>x \<in> reach g roots - insert x visited. length (g x) + 2) \<le> fuel"
        using Suc.prems(3) Cons by simp
      moreover have "topo_inv g roots ?st (insert x visited) results" by (rule topo_inv_visit [OF inv [unfolded 1(1)] 1(2)])
      ultimately have "\<exists>rs s''. topo_loop fuel getParents ?st (insert x visited) results s' = Inr (rs, s'') \<and> I s'' \<and>
          topo_inv g roots [] (set rs) rs" using s'(2) by (intro Suc.IH)
      then show ?thesis using 1 s'(1) Cons e by (simp add: rev_map)
    next
      case 2
      have "topo_inv g roots rest visited results" by (rule topo_inv_skip [OF inv [unfolded 2(1)] 2(2)])
      then have "\<exists>rs s'. topo_loop fuel getParents rest visited results s = Inr (rs, s') \<and> I s' \<and> topo_inv g roots [] (set rs) rs"
        using Suc.prems(2,3) Cons by (intro Suc.IH) auto
      then show ?thesis using 2 Cons e by simp
    next
      case 3
      have "x \<in> visited" "topo_inv g roots rest visited (results @ [x])" using topo_inv_emit [OF inv 3] by blast+
      moreover have "\<exists>rs s'. topo_loop fuel getParents rest visited (results @ [x]) s = Inr (rs, s') \<and> I s' \<and> topo_inv g roots [] (set rs) rs"
        using calculation Suc.prems(2,3) Cons by (intro Suc.IH) auto
      ultimately show ?thesis using 3 Cons e by simp
    qed
  qed
qed

lemma reach_least:
  assumes "set roots \<subseteq> A" and "\<forall>x \<in> A. set (g x) \<subseteq> A"
  shows "reach g roots \<subseteq> A"
proof
  fix y assume "y \<in> reach g roots"
  then obtain r where "r \<in> set roots" "(r, y) \<in> (edges g)\<^sup>*" by (auto simp: reach_def)
  from this(2) show "y \<in> A"
    by induction (use assms \<open>r \<in> set roots\<close> in \<open>auto simp: edges_def\<close>)
qed

text \<open>
  C29: the topological sort returns, with every node that the roots reach exactly once; if no node
  is its own ancestor, the parents of a node come before it. The loop takes a turn for each root
  and at most two more than there are parents for each node.
\<close>

theorem topoSort_ok:
  assumes "\<And>x s. x \<in> reach g roots \<Longrightarrow> I s \<Longrightarrow> \<exists>s'. getParents x s = Inr (g x, s') \<and> I s'"
    and "finite (reach g roots)" and "I s"
    and "length roots + (\<Sum>x \<in> reach g roots. length (g x) + 2) \<le> fuel"
  shows "\<exists>rs s'. topoSort fuel roots getParents s = Inr (rs, s') \<and> I s' \<and> distinct rs \<and> set rs = reach g roots \<and>
    (acyclic (edges g) \<longrightarrow> (\<forall>i < length rs. set (g (rs ! i)) \<subseteq> set (take i rs)))"
proof -
  have "\<exists>rs s'. topo_loop fuel getParents (map (\<lambda>n. (n, 0)) (rev roots)) {} [] s = Inr (rs, s') \<and> I s' \<and> topo_inv g roots [] (set rs) rs"
  proof (rule topo_loop_ok [where I = I])
    show "\<exists>s'. getParents x s = Inr (g x, s') \<and> I s'" if "x \<in> reach g roots" "I s" for x s using assms(1) [OF that] .
    show "length (map (\<lambda>n. (n, 0 :: nat)) (rev roots)) + (\<Sum>x \<in> reach g roots - {}. length (g x) + 2) \<le> fuel"
      using assms(4) by simp
  qed (rule assms topo_inv_start)+
  then obtain rs s' where r: "topo_loop fuel getParents (map (\<lambda>n. (n, 0)) (rev roots)) {} [] s = Inr (rs, s')" "I s'"
    and inv: "topo_inv g roots [] (set rs) rs" by blast
  note D = topo_invD [OF inv]
  have "set rs = reach g roots" using D(5-7) reach_least [of roots "set rs" g] by auto
  with r D(1,8) show ?thesis by (auto simp: topoSort_def rev_map in_topo_order_def)
qed

definition diamond :: "nat \<Rightarrow> nat list" where
  "diamond n = (if n = 0 then [1, 2] else if n \<le> 2 then [3] else [])"

theorem topoSort_ok_witness:
  "\<exists>rs. topoSort 14 [0 :: nat] (\<lambda>n s. Inr (diamond n, s + n)) (0 :: nat) = Inr (rs, 6) \<and> distinct rs \<and> set rs = {0, 1, 2, 3} \<and>
    (\<forall>i < length rs. set (diamond (rs ! i)) \<subseteq> set (take i rs))"
proof -
  have reach: "reach diamond [0] = {0, 1, 2, 3}"
  proof
    show "reach diamond [0] \<subseteq> {0, 1, 2, 3}" by (rule reach_least) (auto simp: diamond_def)
    have "0 \<in> reach diamond [0]" by (auto simp: reach_def)
    then have "1 \<in> reach diamond [0]" "2 \<in> reach diamond [0]" by (rule reach_step, simp add: diamond_def)+
    moreover from this(1) have "3 \<in> reach diamond [0]" by (rule reach_step) (simp add: diamond_def)
    ultimately show "{0, 1, 2, 3} \<subseteq> reach diamond [0]" using \<open>0 \<in> reach diamond [0]\<close> by simp
  qed
  have "x < p" if "(x, p) \<in> edges diamond" for x p
    using that unfolding edges_def diamond_def by (cases "x = 0"; cases "x \<le> 2") auto
  then have "acyclic (edges diamond)" by (intro acyclicI_order [where f = "\<lambda>n. - int n"]) auto
  moreover have "topoSort 14 [0] (\<lambda>n s. Inr (diamond n, s + n)) 0 = Inr ([3, 2, 1, 0], 6)" by code_simp
  moreover have "\<exists>rs s'. topoSort 14 [0] (\<lambda>n s. Inr (diamond n, s + n)) 0 = Inr (rs, s') \<and> True \<and> distinct rs \<and> set rs = reach diamond [0] \<and>
      (acyclic (edges diamond) \<longrightarrow> (\<forall>i < length rs. set (diamond (rs ! i)) \<subseteq> set (take i rs)))"
    by (rule topoSort_ok [where I = "\<lambda>s. True"]) (auto simp: reach diamond_def)
  ultimately show ?thesis using reach by auto
qed

end
