(* ===== verification/Go.thy ===== *)
theory Go
  imports PyPrelude Complex_Main
begin

unbundle bit_operations_syntax

text \<open>
  The Go board and the tree search of \<open>own/go.py\<close>. A \<open>Square\<close> is known by its position, and every
  attribute of the squares is a function from positions, so that an assignment to one attribute
  leaves the others alone; the squares of a board are those at positions below \<open>SIZE * SIZE\<close>. The
  globals \<open>TIMESTAMP\<close> and \<open>MOVES\<close> and the number of calls of the random generator are kept with
  the board. \<open>rand k n\<close> is what the \<open>k\<close>-th call of the generator gives for a range of \<open>n\<close>.
\<close>

section \<open>Positions\<close>

definition SIZE :: int where "SIZE = 9"
definition GAMES :: nat where "GAMES = 200"
definition KOMI :: rat where "KOMI = 15 / 2"
definition EMPTY :: nat where "EMPTY = 0"
definition WHITE :: nat where "WHITE = 1"
definition BLACK :: nat where "BLACK = 2"
definition PASS :: int where "PASS = -1"
definition MAXMOVES :: nat where "MAXMOVES = nat (SIZE * SIZE * 3)"
definition maxsize :: nat where "maxsize = 2 ^ 63 - 1"

text \<open>How many squares a board has.\<close>

definition squares :: nat where "squares = nat (SIZE * SIZE)"

definition to_pos :: "int \<Rightarrow> int \<Rightarrow> int" where
  "to_pos x y = y * SIZE + x"

definition to_xy :: "int \<Rightarrow> int \<times> int" where
  "to_xy pos = (let y = pos div SIZE; x = pos mod SIZE in (x, y))"

definition set_neighbours :: "nat \<Rightarrow> nat list" where
  "set_neighbours pos =
     (let x = int pos mod SIZE; y = int pos div SIZE in
      concat (map (\<lambda>(dx, dy).
        let newx = x + dx; newy = y + dy in
        if 0 \<le> newx \<and> newx < SIZE \<and> 0 \<le> newy \<and> newy < SIZE then [nat (to_pos newx newy)] else [])
        [(-1, 0), (1, 0), (0, -1), (0, 1)]))"

section \<open>The board\<close>

text \<open>
  \<open>reference\<close>, \<open>ledges\<close> and \<open>temp_ledges\<close> do not exist before the first move on a square, here
  \<open>reference\<close> is \<open>None\<close> then. \<open>move\<close> sets \<open>ledges\<close> right after \<open>reference\<close> and every use of
  \<open>ledges\<close> comes after one of \<open>reference\<close>; \<open>useful\<close> sets \<open>temp_ledges\<close> before it reads it.
\<close>

record board =
  timestamp :: "nat \<Rightarrow> nat"
  removestamp :: "nat \<Rightarrow> nat"
  zobrist_strings :: "nat \<Rightarrow> nat list"
  neighbours :: "nat \<Rightarrow> nat list"
  sq_color :: "nat \<Rightarrow> nat"
  reference :: "nat \<Rightarrow> nat option"
  ledges :: "nat \<Rightarrow> int"
  temp_ledges :: "nat \<Rightarrow> int"
  used :: "nat \<Rightarrow> bool"
  empties :: "nat list"
  empty_pos :: "nat list"
  zhash :: nat
  hash_set :: "nat set"
  color :: nat
  finished :: bool
  lastmove :: int
  history :: "int list"
  white_dead :: int
  black_dead :: int
  TIMESTAMP :: nat
  MOVES :: nat
  calls :: nat

section \<open>The hash of a position\<close>

definition zobrist_update :: "nat \<Rightarrow> nat \<Rightarrow> board \<Rightarrow> board" where
  "zobrist_update square c b =
     b\<lparr>zhash := zhash b XOR zobrist_strings b square ! sq_color b square XOR zobrist_strings b square ! c\<rparr>"

definition zobrist_add :: "board \<Rightarrow> board" where
  "zobrist_add b = b\<lparr>hash_set := insert (zhash b) (hash_set b)\<rparr>"

definition dupe :: "board \<Rightarrow> bool" where
  "dupe b \<longleftrightarrow> zhash b \<in> hash_set b"

definition ZobristHash :: "board \<Rightarrow> board" where
  "ZobristHash b =
     (let h = fold (\<lambda>square h. h XOR zobrist_strings b square ! EMPTY) [0..<squares] 0
      in b\<lparr>zhash := h, hash_set := {h}\<rparr>)"

section \<open>The set of empty squares\<close>

definition EmptySet :: "board \<Rightarrow> board" where
  "EmptySet b = b\<lparr>empties := [0..<squares], empty_pos := [0..<squares]\<rparr>"

definition emptyset_add :: "nat \<Rightarrow> board \<Rightarrow> board result" where
  "emptyset_add pos b =
     rbind (lset (empty_pos b) pos (length (empties b))) (\<lambda>ep.
     Inr (b\<lparr>empty_pos := ep, empties := empties b @ [pos]\<rparr>))"

definition emptyset_set :: "nat \<Rightarrow> nat \<Rightarrow> board \<Rightarrow> board result" where
  "emptyset_set i pos b =
     rbind (lset (empties b) i pos) (\<lambda>es.
     rbind (lset (empty_pos b) pos i) (\<lambda>ep. Inr (b\<lparr>empties := es, empty_pos := ep\<rparr>)))"

definition emptyset_remove :: "nat \<Rightarrow> board \<Rightarrow> board result" where
  "emptyset_remove pos b =
     rbind (lget (empty_pos b) pos) (\<lambda>i.
     rbind (py_get (empties b) (int (length (empties b)) - 1)) (\<lambda>e.
     rbind (emptyset_set i e b) (\<lambda>b. Inr (b\<lparr>empties := butlast (empties b)\<rparr>))))"

section \<open>Stones\<close>

text \<open>The recursion of \<open>find\<close> and of \<open>remove\<close> runs on fuel; \<open>squares\<close> levels are enough.\<close>

fun square_find :: "nat \<Rightarrow> bool \<Rightarrow> nat \<Rightarrow> board \<Rightarrow> (nat \<times> board) result" where
  "square_find 0 update self b = Inl OutOfFuel"
| "square_find (Suc fuel) update self b =
     (case reference b self of
        None \<Rightarrow> Inl AttributeError
      | Some ref \<Rightarrow>
          if ref \<noteq> self then
            rbind (square_find fuel update ref b) (\<lambda>(ref, b).
            Inr (ref, if update then b\<lparr>reference := (reference b)(self := Some ref)\<rparr> else b))
          else Inr (ref, b))"

definition find :: "bool \<Rightarrow> nat \<Rightarrow> board \<Rightarrow> (nat \<times> board) result" where
  "find update self b = square_find (Suc squares) update self b"

definition add_ledges :: "nat \<Rightarrow> int \<Rightarrow> board \<Rightarrow> board" where
  "add_ledges self n b = b\<lparr>ledges := (ledges b)(self := ledges b self + n)\<rparr>"

fun square_remove :: "nat \<Rightarrow> nat \<Rightarrow> bool \<Rightarrow> nat \<Rightarrow> board \<Rightarrow> board result" where
  "square_remove 0 ref update self b = Inl OutOfFuel"
| "square_remove (Suc fuel) ref update self b =
     (let b = zobrist_update self EMPTY b;
          b = b\<lparr>removestamp := (removestamp b)(self := TIMESTAMP b)\<rparr> in
      rbind (if update then emptyset_add self (b\<lparr>sq_color := (sq_color b)(self := EMPTY)\<rparr>) else Inr b) (\<lambda>b.
      for_each (neighbours b self) (\<lambda>neighbour b.
        if sq_color b neighbour \<noteq> EMPTY \<and> removestamp b neighbour \<noteq> TIMESTAMP b then
          rbind (find update neighbour b) (\<lambda>(neighbour_ref, b).
          if neighbour_ref = ref then square_remove fuel ref update neighbour b
          else if update then Inr (add_ledges neighbour_ref 1 b)
          else Inr b)
        else Inr b) b))"

definition remove :: "nat \<Rightarrow> bool \<Rightarrow> nat \<Rightarrow> board \<Rightarrow> board result" where
  "remove ref update self b = square_remove (Suc squares) ref update self b"

definition move_neighbour :: "nat \<Rightarrow> nat \<Rightarrow> nat \<Rightarrow> board \<Rightarrow> board result" where
  "move_neighbour self c neighbour b =
     (let neighcolor = sq_color b neighbour in
      if neighcolor = EMPTY then Inr (add_ledges self 1 b)
      else
        rbind (find True neighbour b) (\<lambda>(neighbour_ref, b).
        if neighcolor = c then
          rbind (case reference b neighbour_ref of
              None \<Rightarrow> Inl AttributeError
            | Some r \<Rightarrow>
                Inr (if r \<noteq> self
                     then let b = add_ledges self (ledges b neighbour_ref) b
                          in b\<lparr>reference := (reference b)(neighbour_ref := Some self)\<rparr>
                     else b)) (\<lambda>b.
          Inr (add_ledges self (-1) b))
        else
          let b = add_ledges neighbour_ref (-1) b in
          if ledges b neighbour_ref = 0 then remove neighbour_ref True neighbour b
          else Inr b))"

definition square_move :: "nat \<Rightarrow> nat \<Rightarrow> board \<Rightarrow> board result" where
  "square_move self c b =
     (let b = b\<lparr>TIMESTAMP := TIMESTAMP b + 1, MOVES := MOVES b + 1\<rparr>;
          b = zobrist_update self c b;
          b = b\<lparr>sq_color := (sq_color b)(self := c), reference := (reference b)(self := Some self),
                ledges := (ledges b)(self := 0), used := (used b)(self := True)\<rparr> in
      rbind (for_each (neighbours b self) (move_neighbour self c) b) (\<lambda>b.
      Inr (zobrist_add b)))"

section \<open>Making a board\<close>

definition board_reset :: "board \<Rightarrow> board" where
  "board_reset b =
     (let b = b\<lparr>sq_color := (\<lambda>square. EMPTY), used := (\<lambda>square. False)\<rparr>;
          b = ZobristHash (EmptySet b)
      in b\<lparr>color := BLACK, finished := False, lastmove := -2, history := [], white_dead := 0, black_dead := 0\<rparr>)"

text \<open>The globals and the calls of the generator are taken from the board that was used before.\<close>

definition Board :: "(nat \<Rightarrow> nat \<Rightarrow> nat) \<Rightarrow> nat \<Rightarrow> nat \<Rightarrow> nat \<Rightarrow> board" where
  "Board rand ts mv k = board_reset
     \<lparr>timestamp = (\<lambda>square. ts), removestamp = (\<lambda>square. ts),
      zobrist_strings = (\<lambda>square. map (\<lambda>i. rand (k + 3 * square + i) maxsize) [0..<3]),
      neighbours = set_neighbours,
      sq_color = (\<lambda>square. EMPTY), reference = (\<lambda>square. None), ledges = (\<lambda>square. 0), temp_ledges = (\<lambda>square. 0),
      used = (\<lambda>square. False), empties = [], empty_pos = [], zhash = 0, hash_set = {},
      color = BLACK, finished = False, lastmove = -2, history = [], white_dead = 0, black_dead = 0,
      TIMESTAMP = ts, MOVES = mv, calls = k + 3 * squares\<rparr>"

section \<open>Moves\<close>

definition board_move :: "int \<Rightarrow> board \<Rightarrow> board result" where
  "board_move pos b =
     rbind (py_get [0..<squares] pos) (\<lambda>square.
     rbind (if pos \<noteq> PASS
            then rbind (square_move square (color b) b) (emptyset_remove square)
            else Inr (if lastmove b = PASS then b\<lparr>finished := True\<rparr> else b)) (\<lambda>b.
     Inr (b\<lparr>color := (if color b = BLACK then WHITE else BLACK), lastmove := pos, history := history b @ [pos]\<rparr>)))"

definition replay :: "int list \<Rightarrow> board \<Rightarrow> board result" where
  "replay = (\<lambda>hist. for_each hist board_move)"

definition useful_fast :: "nat \<Rightarrow> board \<Rightarrow> bool" where
  "useful_fast square b \<longleftrightarrow>
     (if \<not> used b square then \<exists>neighbour \<in> set (neighbours b square). sq_color b neighbour = EMPTY else False)"

record tally =
  t_empties :: int
  t_opps :: int
  t_weak_opps :: int
  t_neighs :: int
  t_weak_neighs :: int

definition useful_neighbour :: "nat \<Rightarrow> tally \<times> board \<Rightarrow> (tally \<times> board) result" where
  "useful_neighbour neighbour = (\<lambda>(t, b).
     let neighcolor = sq_color b neighbour in
     if neighcolor = EMPTY then Inr (t\<lparr>t_empties := t_empties t + 1\<rparr>, b)
     else
       rbind (find False neighbour b) (\<lambda>(neighbour_ref, b).
       let (t, b) =
             (if timestamp b neighbour_ref \<noteq> TIMESTAMP b
              then (if neighcolor = color b then t\<lparr>t_neighs := t_neighs t + 1\<rparr> else t\<lparr>t_opps := t_opps t + 1\<rparr>,
                    b\<lparr>timestamp := (timestamp b)(neighbour_ref := TIMESTAMP b),
                      temp_ledges := (temp_ledges b)(neighbour_ref := ledges b neighbour_ref)\<rparr>)
              else (t, b));
           b = b\<lparr>temp_ledges := (temp_ledges b)(neighbour_ref := temp_ledges b neighbour_ref - 1)\<rparr> in
       if temp_ledges b neighbour_ref = 0
       then if neighcolor = color b then Inr (t\<lparr>t_weak_neighs := t_weak_neighs t + 1\<rparr>, b)
            else rbind (remove neighbour_ref False neighbour_ref b) (\<lambda>b.
                 Inr (t\<lparr>t_weak_opps := t_weak_opps t + 1\<rparr>, b))
       else Inr (t, b)))"

definition useful :: "nat \<Rightarrow> board \<Rightarrow> (bool \<times> board) result" where
  "useful pos b =
     (let b = b\<lparr>TIMESTAMP := TIMESTAMP b + 1\<rparr> in
      rbind (lget [0..<squares] pos) (\<lambda>square.
      if useful_fast square b then Inr (True, b)
      else
        let old_hash = zhash b; b = zobrist_update square (color b) b in
        rbind (for_each (neighbours b square) useful_neighbour
          (\<lparr>t_empties = 0, t_opps = 0, t_weak_opps = 0, t_neighs = 0, t_weak_neighs = 0\<rparr>, b)) (\<lambda>(t, b).
        let dup = dupe b; b = b\<lparr>zhash := old_hash\<rparr>;
            strong_neighs = t_neighs t - t_weak_neighs t; strong_opps = t_opps t - t_weak_opps t in
        Inr (\<not> dup \<and> (t_empties t \<noteq> 0 \<or> t_weak_opps t \<noteq> 0 \<or>
               (strong_neighs \<noteq> 0 \<and> (strong_opps \<noteq> 0 \<or> t_weak_neighs t \<noteq> 0))), b))))"

definition useful_moves :: "board \<Rightarrow> (nat list \<times> board) result" where
  "useful_moves b =
     for_each (empties b) (\<lambda>pos (ms, b).
       rbind (useful pos b) (\<lambda>(u, b). Inr (if u then ms @ [pos] else ms, b))) ([], b)"

text \<open>\<open>random_choice\<close>: its loop counts \<open>choices\<close> down.\<close>

fun choice_loop :: "(nat \<Rightarrow> nat \<Rightarrow> nat) \<Rightarrow> nat \<Rightarrow> board \<Rightarrow> (int \<times> board) result" where
  "choice_loop rand 0 b = Inr (PASS, b)"
| "choice_loop rand (Suc choices) b =
     (let i = rand (calls b) (Suc choices); b = b\<lparr>calls := calls b + 1\<rparr> in
      rbind (lget (empties b) i) (\<lambda>pos.
      rbind (useful pos b) (\<lambda>(u, b).
      if u then Inr (int pos, b)
      else
        rbind (lget (empties b) choices) (\<lambda>other.
        rbind (emptyset_set i other b) (\<lambda>b.
        rbind (emptyset_set choices pos b) (\<lambda>b.
        choice_loop rand choices b))))))"

definition random_choice :: "(nat \<Rightarrow> nat \<Rightarrow> nat) \<Rightarrow> board \<Rightarrow> (int \<times> board) result" where
  "random_choice rand b = choice_loop rand (length (empties b)) b"

definition random_move :: "(nat \<Rightarrow> nat \<Rightarrow> nat) \<Rightarrow> board \<Rightarrow> (int \<times> board) result" where
  "random_move rand b = random_choice rand b"

section \<open>The score\<close>

definition board_score :: "nat \<Rightarrow> board \<Rightarrow> rat" where
  "board_score c b =
     fold (\<lambda>square count.
       let squarecolor = sq_color b square in
       if squarecolor = c then count + 1
       else if squarecolor = EMPTY then
         let surround = fold (\<lambda>neighbour n. if sq_color b neighbour = c then n + 1 else n) (neighbours b square) (0 :: nat) in
         if surround = length (neighbours b square) then count + 1 else count
       else count)
     [0..<squares] (if c = WHITE then KOMI + of_int (black_dead b) else of_int (white_dead b))"


section \<open>The check of a board\<close>

text \<open>Sets of squares are lists here; what they are compared and used for does not depend on an order.\<close>

definition grow_step :: "board \<Rightarrow> nat \<Rightarrow> nat \<Rightarrow> bool \<times> nat list \<Rightarrow> bool \<times> nat list" where
  "grow_step b c member = fold (\<lambda>neighbour (changed, ms).
     if sq_color b neighbour = c \<and> neighbour \<notin> set ms then (True, ms @ [neighbour]) else (changed, ms)) (neighbours b member)"

fun grow_members :: "nat \<Rightarrow> board \<Rightarrow> nat \<Rightarrow> nat list \<Rightarrow> nat list result" where
  "grow_members 0 b c ms = Inl OutOfFuel"
| "grow_members (Suc fuel) b c ms =
     (let (changed, ms') = fold (grow_step b c) ms (False, ms)
      in if changed then grow_members fuel b c ms' else Inr ms')"

definition count_ledges :: "board \<Rightarrow> nat list \<Rightarrow> int" where
  "count_ledges b ms = fold (\<lambda>member n. fold (\<lambda>neighbour n. if sq_color b neighbour = EMPTY then n + 1 else n) (neighbours b member) n) ms 0"

definition same_root :: "nat \<Rightarrow> nat \<Rightarrow> nat list \<times> board \<Rightarrow> (nat list \<times> board) result" where
  "same_root ref square2 = (\<lambda>(members2, b).
     if sq_color b square2 \<noteq> EMPTY then
       rbind (find False square2 b) (\<lambda>(r, b). Inr (if r = ref then members2 @ [square2] else members2, b))
     else Inr (members2, b))"

definition check_square :: "nat \<Rightarrow> board \<Rightarrow> board result" where
  "check_square square b =
     (if sq_color b square = EMPTY then Inr b
      else
        rbind (grow_members (Suc squares) b (sq_color b square) [square]) (\<lambda>members1.
        let ledges1 = count_ledges b members1 in
        rbind (find False square b) (\<lambda>(ref, b).
        rbind (for_each [0..<squares] (same_root ref) ([], b)) (\<lambda>(members2, b).
        if set members1 \<noteq> set members2 then Inl AssertionError
        else if ledges1 \<noteq> ledges b ref then Inl AssertionError
        else Inr b))))"

definition check :: "board \<Rightarrow> board result" where
  "check b = for_each [0..<squares] check_square b"

section \<open>Random games\<close>

primrec random_playout :: "nat \<Rightarrow> (nat \<Rightarrow> nat \<Rightarrow> nat) \<Rightarrow> board \<Rightarrow> board result" where
  "random_playout 0 rand b = Inr b"
| "random_playout (Suc x) rand b =
     (if finished b then Inr b
      else rbind (random_move rand b) (\<lambda>(pos, b). rbind (board_move pos b) (random_playout x rand)))"

section \<open>The tree\<close>

text \<open>The nodes are kept in a list and known by their index; \<open>pos_child\<close> is read at positions only.\<close>

record uctnode =
  bestchild :: "nat option"
  npos :: int
  wins :: int
  losses :: int
  pos_child :: "nat \<Rightarrow> nat option"
  parent :: "nat option"
  unexplored :: "nat list"

definition UCTNode :: uctnode where
  "UCTNode = \<lparr>bestchild = None, npos = -1, wins = 0, losses = 0, pos_child = (\<lambda>x. None), parent = None, unexplored = []\<rparr>"

type_synonym tree = "uctnode list"

definition select :: "(nat \<Rightarrow> nat \<Rightarrow> nat) \<Rightarrow> nat \<Rightarrow> tree \<times> board \<Rightarrow> (int \<times> tree \<times> board) result" where
  "select rand self = (\<lambda>(t, b).
     let node = t ! self; un = unexplored node in
     if un \<noteq> [] then
       let i = rand (calls b) (length un); b = b\<lparr>calls := calls b + 1\<rparr> in
       rbind (lget un i) (\<lambda>pos.
       rbind (lset un i (un ! (length un - 1))) (\<lambda>un.
       Inr (int pos, t[self := node\<lparr>unexplored := butlast un\<rparr>], b)))
     else case bestchild node of
       Some child \<Rightarrow> Inr (npos (t ! child), t, b)
     | None \<Rightarrow> Inr (PASS, t, b))"

fun play_loop :: "nat \<Rightarrow> (nat \<Rightarrow> nat \<Rightarrow> nat) \<Rightarrow> nat \<Rightarrow> nat list \<Rightarrow> tree \<times> board \<Rightarrow> (nat list \<times> tree \<times> board) result" where
  "play_loop 0 rand node path s = Inl OutOfFuel"
| "play_loop (Suc fuel) rand node path s =
     rbind (select rand node s) (\<lambda>(pos, t, b).
     if pos = PASS then Inr (path, t, b)
     else
       rbind (board_move pos b) (\<lambda>b.
       case pos_child (t ! node) (nat pos) of
         None \<Rightarrow>
           let child = length t in
           rbind (useful_moves b) (\<lambda>(ms, b).
           Inr (path @ [child],
             t[node := (t ! node)\<lparr>pos_child := (pos_child (t ! node))(nat pos := Some child)\<rparr>] @
               [UCTNode\<lparr>unexplored := ms, npos := pos, parent := Some node\<rparr>], b))
       | Some child \<Rightarrow> play_loop fuel rand child (path @ [child]) (t, b)))"

definition node_score :: "nat \<Rightarrow> tree \<Rightarrow> real result" where
  "node_score self t =
     (let node = t ! self; visits = wins node + losses node in
      if visits = 0 then Inl ZeroDivisionError
      else
        let winrate = real_of_int (wins node) / real_of_int visits in
        case parent node of
          None \<Rightarrow> Inl AttributeError
        | Some p \<Rightarrow>
            let parentvisits = wins (t ! p) + losses (t ! p) in
            if parentvisits = 0 then Inr winrate
            else Inr (winrate + sqrt (ln (real_of_int parentvisits) / (5 * real_of_int visits))))"

definition best_child :: "nat \<Rightarrow> tree \<Rightarrow> nat option result" where
  "best_child self t =
     rbind (for_each [0..<squares] (\<lambda>x (maxscore, maxchild).
       case pos_child (t ! self) x of
         None \<Rightarrow> Inr (maxscore, maxchild)
       | Some child \<Rightarrow> rbind (node_score child t) (\<lambda>s. Inr (if s > maxscore then (s, Some child) else (maxscore, maxchild))))
       (-1, None)) (\<lambda>(maxscore, maxchild). Inr maxchild)"

definition best_visited :: "nat \<Rightarrow> tree \<Rightarrow> nat option" where
  "best_visited self t =
     snd (fold (\<lambda>x (maxvisits, maxchild).
       case pos_child (t ! self) x of
         None \<Rightarrow> (maxvisits, maxchild)
       | Some child \<Rightarrow>
           if wins (t ! child) + losses (t ! child) > maxvisits
           then (wins (t ! child) + losses (t ! child), Some child) else (maxvisits, maxchild))
       [0..<squares] (-1, None))"

definition update_node :: "bool \<Rightarrow> nat \<Rightarrow> nat \<times> tree \<Rightarrow> (nat \<times> tree) result" where
  "update_node won node = (\<lambda>(c, t).
     let c = (if c = BLACK then WHITE else BLACK);
         t = (if won \<longleftrightarrow> c = BLACK then t[node := (t ! node)\<lparr>wins := wins (t ! node) + 1\<rparr>]
              else t[node := (t ! node)\<lparr>losses := losses (t ! node) + 1\<rparr>]) in
     case parent (t ! node) of
       None \<Rightarrow> Inr (c, t)
     | Some p \<Rightarrow> rbind (best_child p t) (\<lambda>m. Inr (c, t[p := (t ! p)\<lparr>bestchild := m\<rparr>])))"

definition update_path :: "board \<Rightarrow> nat \<Rightarrow> nat list \<Rightarrow> tree \<Rightarrow> tree result" where
  "update_path b c path t =
     rbind (for_each path (update_node (board_score BLACK b \<ge> board_score WHITE b)) (c, t)) (\<lambda>(c, t). Inr t)"

definition play :: "nat \<Rightarrow> (nat \<Rightarrow> nat \<Rightarrow> nat) \<Rightarrow> nat \<Rightarrow> tree \<times> board \<Rightarrow> (tree \<times> board) result" where
  "play fuel rand self = (\<lambda>(t, b).
     let c = color b in
     rbind (play_loop fuel rand self [self] (t, b)) (\<lambda>(path, t, b).
     rbind (random_playout MAXMOVES rand b) (\<lambda>b.
     rbind (update_path b c path t) (\<lambda>t. Inr (t, b)))))"

text \<open>The second board takes over the globals, and only the history of the first is still read.\<close>

definition computer_move :: "nat \<Rightarrow> (nat \<Rightarrow> nat \<Rightarrow> nat) \<Rightarrow> board \<Rightarrow> (int \<times> board) result" where
  "computer_move fuel rand b =
     rbind (random_move rand b) (\<lambda>(pos, b).
     if pos = PASS then Inr (PASS, b)
     else
       rbind (useful_moves b) (\<lambda>(ms, b).
       let nboard = Board rand (TIMESTAMP b) (MOVES b) (calls b) in
       rbind (for_each [0..<GAMES] (\<lambda>game (t, nb).
           rbind (replay (history b) (board_reset nb)) (\<lambda>nb. play fuel rand 0 (t, nb)))
         ([UCTNode\<lparr>unexplored := ms\<rparr>], nboard)) (\<lambda>(t, nb).
       case best_visited 0 t of
         None \<Rightarrow> Inl AttributeError
       | Some child \<Rightarrow> Inr (npos (t ! child), b\<lparr>TIMESTAMP := TIMESTAMP nb, MOVES := MOVES nb, calls := calls nb\<rparr>))))"

definition versus_cpu :: "nat \<Rightarrow> (nat \<Rightarrow> nat \<Rightarrow> nat) \<Rightarrow> nat \<Rightarrow> nat \<Rightarrow> (int \<times> board) result" where
  "versus_cpu fuel rand ts mv = computer_move fuel rand (Board rand ts mv 0)"

end
