(* ===== verification/GoBasics.thy ===== *)
theory GoBasics
  imports Go
begin

text \<open>
  The geometry of the board, the references between stones, the set of empty squares and the hash:
  what each operation of the parts keeps.
\<close>

unbundle bit_operations_syntax

section \<open>Geometry\<close>

lemma squares_81: "squares = 81"
  by (simp add: squares_def SIZE_def)

lemma colors [simp]: "EMPTY \<noteq> WHITE" "EMPTY \<noteq> BLACK" "WHITE \<noteq> BLACK" "WHITE \<noteq> EMPTY" "BLACK \<noteq> EMPTY" "BLACK \<noteq> WHITE"
  by (simp_all add: EMPTY_def WHITE_def BLACK_def)

lemma set_neighbours_xy:
  assumes "0 \<le> x" and "x < 9" and "0 \<le> y" and "y < 9"
  shows "set_neighbours (nat (y * 9 + x)) =
    (if 0 < x then [nat (y * 9 + (x - 1))] else []) @ (if x < 8 then [nat (y * 9 + (x + 1))] else []) @
    (if 0 < y then [nat ((y - 1) * 9 + x)] else []) @ (if y < 8 then [nat ((y + 1) * 9 + x)] else [])"
proof -
  have "int (nat (y * 9 + x)) = y * 9 + x" using assms by simp
  then have "int (nat (y * 9 + x)) mod 9 = x" "int (nat (y * 9 + x)) div 9 = y" using assms by simp_all
  then show ?thesis using assms by (auto simp: set_neighbours_def Let_def SIZE_def to_pos_def)
qed

lemma position_xy:
  assumes "p < squares"
  obtains x y where "p = nat (y * 9 + x)" "0 \<le> x" "x < 9" "0 \<le> y" "y < 9"
proof
  show "p = nat (int p div 9 * 9 + int p mod 9)" by simp
  show "int p div 9 < 9" using assms by (simp add: squares_81)
qed simp_all

lemma neighbours_facts:
  assumes "p < squares"
  shows "distinct (set_neighbours p)" "p \<notin> set (set_neighbours p)" "2 \<le> length (set_neighbours p)" "length (set_neighbours p) \<le> 4"
    "\<And>q. q \<in> set (set_neighbours p) \<Longrightarrow> q < squares" "\<And>q. q \<in> set (set_neighbours p) \<Longrightarrow> p \<in> set (set_neighbours q)"
proof -
  obtain x y where p: "p = nat (y * 9 + x)" and xy: "0 \<le> x" "x < 9" "0 \<le> y" "y < 9" using position_xy [OF assms] .
  note e = set_neighbours_xy [OF xy, folded p]
  have inj: "nat (b * 9 + a) = nat (b' * 9 + a') \<longleftrightarrow> a = a' \<and> b = b'"
    if "0 \<le> a" "a < 9" "0 \<le> a'" "a' < 9" "0 \<le> b" "0 \<le> b'" for a b a' b' :: int
    using that eq_nat_nat_iff [of "b * 9 + a" "b' * 9 + a'"] by (auto simp: eq_nat_nat_iff) presburger+
  show "distinct (set_neighbours p)" unfolding e using xy by (auto simp: inj)
  show "p \<notin> set (set_neighbours p)" unfolding e unfolding p using xy by (auto simp: inj)
  show "2 \<le> length (set_neighbours p)" "length (set_neighbours p) \<le> 4" unfolding e using xy by auto
  fix q assume "q \<in> set (set_neighbours p)"
  then consider "0 < x" "q = nat (y * 9 + (x - 1))" | "x < 8" "q = nat (y * 9 + (x + 1))"
    | "0 < y" "q = nat ((y - 1) * 9 + x)" | "y < 8" "q = nat ((y + 1) * 9 + x)"
    unfolding e by (auto split: if_splits)
  then have "q < squares \<and> p \<in> set (set_neighbours q)"
  proof cases
    case 1
    then show ?thesis using xy set_neighbours_xy [of "x - 1" y] by (simp add: squares_81 p)
  next
    case 2
    then show ?thesis using xy set_neighbours_xy [of "x + 1" y] by (simp add: squares_81 p)
  next
    case 3
    then show ?thesis using xy set_neighbours_xy [of x "y - 1"] by (simp add: squares_81 p)
  next
    case 4
    then show ?thesis using xy set_neighbours_xy [of x "y + 1"] by (simp add: squares_81 p)
  qed
  then show "q < squares" "p \<in> set (set_neighbours q)" by simp_all
qed

section \<open>References\<close>

text \<open>
  \<open>linked D rep rk r\<close>: from every stone of \<open>D\<close> the references \<open>r\<close> lead to its representative, each
  step to a lower rank; the representative refers to itself.
\<close>

definition linked :: "nat set \<Rightarrow> (nat \<Rightarrow> nat) \<Rightarrow> (nat \<Rightarrow> nat) \<Rightarrow> (nat \<Rightarrow> nat option) \<Rightarrow> bool" where
  "linked D rep rk r \<longleftrightarrow> (\<forall>p \<in> D. rep p \<in> D \<and> rep (rep p) = rep p \<and>
     (\<exists>q \<in> D. r p = Some q \<and> rep q = rep p \<and> (if rep p = p then q = p else rk q < rk p)))"

lemma linkedE:
  assumes "linked D rep rk r" and "p \<in> D"
  obtains q where "q \<in> D" "r p = Some q" "rep q = rep p" "rep p = p \<Longrightarrow> q = p" "rep p \<noteq> p \<Longrightarrow> rk q < rk p"
  using assms unfolding linked_def by metis

lemma linked_rep: "linked D rep rk r \<Longrightarrow> p \<in> D \<Longrightarrow> rep p \<in> D \<and> rep (rep p) = rep p"
  by (auto simp: linked_def)

lemma linked_root: "linked D rep rk r \<Longrightarrow> p \<in> D \<Longrightarrow> r (rep p) = Some (rep p)"
  using linkedE [of D rep rk r "rep p"] linked_rep [of D rep rk r p] by auto

lemma linked_rank:
  assumes "linked D rep rk r" and "p \<in> D" and "rep p \<noteq> p"
  shows "rk (rep p) < rk p"
  using assms(2,3)
proof (induction "rk p" arbitrary: p rule: less_induct)
  case less
  obtain q where q: "q \<in> D" "rep q = rep p" "rk q < rk p" using linkedE [OF assms(1) less.prems(1)] less.prems(2) by metis
  show ?case
  proof (cases "rep q = q")
    case True
    with q show ?thesis by simp
  next
    case False
    with less.hyps [OF q(3,1)] q(2,3) show ?thesis by simp
  qed
qed

text \<open>Path compression keeps the representatives.\<close>

lemma linked_compress:
  assumes "linked D rep rk r" and "p \<in> D"
  shows "linked D rep rk (r(p := Some (rep p)))"
  unfolding linked_def
proof
  fix s assume s: "s \<in> D"
  show "rep s \<in> D \<and> rep (rep s) = rep s \<and>
     (\<exists>q \<in> D. (r(p := Some (rep p))) s = Some q \<and> rep q = rep s \<and> (if rep s = s then q = s else rk q < rk s))"
  proof (cases "s = p")
    case True
    then show ?thesis using linked_rep [OF assms] linked_rank [OF assms] by auto
  next
    case False
    then show ?thesis using assms(1) s by (auto simp: linked_def)
  qed
qed

text \<open>
  The recursion goes through stones of ever lower rank, so there are no more levels than stones.
\<close>

lemma square_find_ok:
  assumes "linked D rep rk (reference b)" and "finite D" and "p \<in> D" and "card {q \<in> D. rk q < rk p} < fuel"
  shows "\<exists>r. square_find fuel u p b = Inr (rep p, b\<lparr>reference := r\<rparr>) \<and> linked D rep rk r"
  using assms(1,3,4)
proof (induction fuel arbitrary: p b)
  case (Suc fuel)
  obtain q where q: "q \<in> D" "reference b p = Some q" "rep q = rep p" "rep p = p \<Longrightarrow> q = p" "rep p \<noteq> p \<Longrightarrow> rk q < rk p"
    using linkedE [OF Suc.prems(1,2)] by blast
  show ?case
  proof (cases "rep p = p")
    case True
    then show ?thesis using q Suc.prems(1) by (auto intro!: exI [of _ "reference b"])
  next
    case False
    then have qp: "q \<noteq> p" using q(3) q(5) by auto
    have "card {s \<in> D. rk s < rk q} < card {s \<in> D. rk s < rk p}"
      using False q(1,5) assms(2) by (intro psubset_card_mono) auto
    then have "card {s \<in> D. rk s < rk q} < fuel" using Suc.prems(3) by simp
    from Suc.IH [OF Suc.prems(1) q(1) this] obtain r where
      r: "square_find fuel u q b = Inr (rep p, b\<lparr>reference := r\<rparr>)" "linked D rep rk r" using q(3) by auto
    then show ?thesis using q(2) qp linked_compress [OF r(2) Suc.prems(2)] by auto
  qed
qed simp

lemma find_ok:
  assumes "linked D rep rk (reference b)" and "D \<subseteq> {..<squares}" and "p \<in> D"
  shows "\<exists>r. find u p b = Inr (rep p, b\<lparr>reference := r\<rparr>) \<and> linked D rep rk r"
proof -
  have f: "finite D" using assms(2) by (rule finite_subset) simp
  have "card {q \<in> D. rk q < rk p} \<le> card {..<squares}" using assms(2) by (intro card_mono) auto
  then show ?thesis unfolding find_def using assms by (intro square_find_ok f) auto
qed

text \<open>Without \<open>update\<close> nothing changes.\<close>

lemma square_find_same: "square_find fuel False p b = Inr (q, b') \<Longrightarrow> b' = b"
proof (induction fuel arbitrary: p q b')
  case (Suc fuel)
  then show ?case by (fastforce simp: rbind_eq_Inr split: option.splits if_splits)
qed simp

lemma find_same:
  assumes "linked D rep rk (reference b)" and "D \<subseteq> {..<squares}" and "p \<in> D"
  shows "find False p b = Inr (rep p, b)"
proof -
  obtain r where "find False p b = Inr (rep p, b\<lparr>reference := r\<rparr>)" using find_ok [OF assms] by blast
  then show ?thesis using square_find_same unfolding find_def by metis
qed

text \<open>A new stone, and a stone that takes over the group of another.\<close>

lemma linked_insert:
  assumes "linked D rep rk r" and "p \<notin> D"
  shows "linked (insert p D) (rep(p := p)) ((\<lambda>q. rk q + 1)(p := 0)) (r(p := Some p))"
  using assms unfolding linked_def by (fastforce split: if_splits)

lemma linked_union:
  assumes "linked D rep rk r" and "p \<in> D" and "rep p = p" and "q \<in> D" and "rep q = q" and "q \<noteq> p" and "rk p < rk q"
  shows "linked D (\<lambda>s. if rep s = q then p else rep s) rk (r(q := Some p))"
  unfolding linked_def
proof
  let ?rep = "\<lambda>s. if rep s = q then p else rep s" and ?r = "r(q := Some p)"
  fix s assume s: "s \<in> D"
  obtain t where t: "t \<in> D" "r s = Some t" "rep t = rep s" "rep s = s \<Longrightarrow> t = s" "rep s \<noteq> s \<Longrightarrow> rk t < rk s"
    using linkedE [OF assms(1) s] by blast
  have "\<exists>t \<in> D. ?r s = Some t \<and> ?rep t = ?rep s \<and> (if ?rep s = s then t = s else rk t < rk s)"
  proof (cases "s = q")
    case True
    then show ?thesis using assms by auto
  next
    case False
    have "p \<noteq> s \<or> rep s = s" using assms(3) by auto
    then show ?thesis using False t assms(3,6) by (intro bexI [of _ t]) (auto split: if_splits)
  qed
  then show "?rep s \<in> D \<and> ?rep (?rep s) = ?rep s \<and>
      (\<exists>t \<in> D. ?r s = Some t \<and> ?rep t = ?rep s \<and> (if ?rep s = s then t = s else rk t < rk s))"
    using linked_rep [OF assms(1) s] assms by auto
qed

text \<open>Groups that are gone.\<close>

lemma linked_subset:
  assumes "linked D rep rk r"
  shows "linked {p \<in> D. rep p \<noteq> g} rep rk r"
  using assms unfolding linked_def by fastforce

section \<open>The empty squares\<close>

text \<open>\<open>empties\<close> lists the squares of \<open>E\<close>, and \<open>empty_pos\<close> says where.\<close>

definition emptyset_ok :: "nat set \<Rightarrow> nat list \<Rightarrow> nat list \<Rightarrow> bool" where
  "emptyset_ok E es ep \<longleftrightarrow> distinct es \<and> set es = E \<and> E \<subseteq> {..<squares} \<and> length ep = squares \<and>
     (\<forall>i < length es. ep ! (es ! i) = i)"

lemma emptyset_add_ok:
  assumes "emptyset_ok E (empties b) (empty_pos b)" and "p < squares" and "p \<notin> E"
  shows "\<exists>ep. emptyset_add p b = Inr (b\<lparr>empty_pos := ep, empties := empties b @ [p]\<rparr>) \<and>
    emptyset_ok (insert p E) (empties b @ [p]) ep"
proof -
  let ?ep = "(empty_pos b)[p := length (empties b)]"
  have "emptyset_add p b = Inr (b\<lparr>empty_pos := ?ep, empties := empties b @ [p]\<rparr>)"
    using assms by (simp add: emptyset_add_def emptyset_ok_def)
  moreover have "emptyset_ok (insert p E) (empties b @ [p]) ?ep"
    using assms by (auto simp: emptyset_ok_def nth_append nth_list_update less_Suc_eq)
  ultimately show ?thesis by blast
qed

lemma emptyset_remove_ok:
  assumes ok: "emptyset_ok E (empties b) (empty_pos b)" and p: "p \<in> E"
  shows "\<exists>es ep. emptyset_remove p b = Inr (b\<lparr>empties := es, empty_pos := ep\<rparr>) \<and> emptyset_ok (E - {p}) es ep"
proof -
  let ?es = "empties b" and ?ep = "empty_pos b"
  obtain i where i: "i < length ?es" "?es ! i = p" using p ok unfolding emptyset_ok_def by (metis in_set_conv_nth)
  have n: "?es \<noteq> []" using i by auto
  let ?l = "?es ! (length ?es - 1)"
  have "?l \<in> set ?es" using n by (intro nth_mem) simp
  then have l: "?l \<in> E" "?l < squares" using ok unfolding emptyset_ok_def by auto
  have pl: "p < length ?ep" "?ep ! p = i" using ok p i by (auto simp: emptyset_ok_def)
  have g: "py_get ?es (int (length ?es) - 1) = Inr ?l"
    using n by (cases ?es rule: rev_cases) (simp_all add: py_get_def py_index_def Let_def)
  let ?es' = "butlast (?es[i := ?l])" and ?ep' = "?ep[?l := i]"
  have "emptyset_remove p b = Inr (b\<lparr>empties := ?es', empty_pos := ?ep'\<rparr>)"
    using pl g i l ok by (simp add: emptyset_remove_def emptyset_set_def emptyset_ok_def)
  moreover have "emptyset_ok (E - {p}) ?es' ?ep'"
  proof -
    obtain xs where xs: "?es = xs @ [?l]" using n by (metis append_butlast_last_id last_conv_nth)
    have d: "distinct xs" "?l \<notin> set xs" and E: "E = insert ?l (set xs)" and pos: "\<forall>k < length xs. ?ep ! (xs ! k) = k"
      using ok xs unfolding emptyset_ok_def by (metis distinct_append, metis distinct_append disjoint_insert(2) list.set_intros(1) IntI empty_iff,
        metis set_append list.simps(15) set_empty Un_insert_right Un_empty_right list.set(1), metis length_append_singleton less_SucI nth_append)
    have bd: "E \<subseteq> {..<squares}" "length ?ep = squares" using ok by (auto simp: emptyset_ok_def)
    show ?thesis
    proof (cases "i = length xs")
      case True
      then have e: "p = ?l" "?es' = xs" using i xs by (metis nth_append_length, metis butlast_snoc list_update_length)
      have "?ep' ! (xs ! k) = k" if "k < length xs" for k
        using that d(2) pos by (metis nth_list_update_neq nth_mem)
      moreover have "E - {p} = set xs" using e(1) d(2) E by auto
      moreover have "set xs \<subseteq> {..<squares}" using E bd(1) by auto
      ultimately show ?thesis unfolding e(2) using d(1) bd(2) by (simp add: emptyset_ok_def)
    next
      case False
      then have ix: "i < length xs" using i xs by (metis length_append_singleton less_antisym)
      then have es': "?es' = xs[i := ?l]" using xs by (metis butlast_snoc list_update_append1)
      have px: "xs ! i = p" using ix i xs by (metis nth_append)
      have "distinct (xs[i := ?l])" "set (xs[i := ?l]) = insert ?l (set xs - {p})"
        using d ix px by (simp add: distinct_list_update) (use d ix px set_update_distinct in metis)
      moreover have "?l \<noteq> p" using d ix px by (metis nth_mem)
      ultimately show ?thesis unfolding es' using E bd pos d ix
        by (auto simp: emptyset_ok_def nth_list_update)
    qed
  qed
  ultimately show ?thesis by blast
qed

section \<open>The hash\<close>

definition zobrist_of :: "(nat \<Rightarrow> nat list) \<Rightarrow> (nat \<Rightarrow> nat) \<Rightarrow> nat" where
  "zobrist_of zs c = fold (\<lambda>square h. h XOR zs square ! c square) [0..<squares] 0"

lemma fold_xor_start: "fold (\<lambda>x h. h XOR f x) xs (a XOR b) = a XOR fold (\<lambda>x h. h XOR f x) xs (b :: nat)"
  by (induction xs arbitrary: b) (simp_all add: xor.assoc)

lemma fold_xor_change:
  assumes "distinct xs" and "p \<in> set xs"
  shows "fold (\<lambda>x h. h XOR zs x ! (c(p := d)) x) xs (h :: nat) =
    fold (\<lambda>x h. h XOR zs x ! c x) xs h XOR zs p ! c p XOR zs p ! d"
proof -
  let ?k = "zs p ! c p XOR zs p ! d"
  have same: "fold (\<lambda>x h. h XOR zs x ! (c(p := d)) x) xs h = fold (\<lambda>x h. h XOR zs x ! c x) xs h"
    if "p \<notin> set xs" for xs h using that by (induction xs arbitrary: h) auto
  have mid: "fold (\<lambda>x h. h XOR zs x ! c x) xs (?k XOR h) = ?k XOR fold (\<lambda>x h. h XOR zs x ! c x) xs h" for xs h
    using fold_xor_start [of "\<lambda>x. zs x ! c x" xs ?k h] by simp
  obtain as bs where xs: "xs = as @ p # bs" "p \<notin> set as" "p \<notin> set bs"
    using assms by (metis split_list distinct_append distinct.simps(2) disjoint_insert(2) list.set(2) IntI empty_iff insertI1)
  have k: "a XOR zs p ! d = ?k XOR (a XOR zs p ! c p)" for a :: nat
    by (rule bit_eqI) (auto simp: bit_simps)
  have "fold (\<lambda>x h. h XOR zs x ! (c(p := d)) x) xs h =
      fold (\<lambda>x h. h XOR zs x ! c x) bs (fold (\<lambda>x h. h XOR zs x ! c x) as h XOR zs p ! d)"
    unfolding xs(1) fold_append fold.simps comp_def same [OF xs(2)] same [OF xs(3)] by simp
  also have "\<dots> = fold (\<lambda>x h. h XOR zs x ! c x) bs (?k XOR (fold (\<lambda>x h. h XOR zs x ! c x) as h XOR zs p ! c p))"
    by (subst k) (rule refl)
  also have "\<dots> = ?k XOR fold (\<lambda>x h. h XOR zs x ! c x) xs h"
    unfolding mid xs(1) fold_append fold.simps comp_def ..
  finally have "fold (\<lambda>x h. h XOR zs x ! (c(p := d)) x) xs h = ?k XOR fold (\<lambda>x h. h XOR zs x ! c x) xs h" .
  then show ?thesis by (simp add: xor.commute xor.left_commute)
qed

lemma zobrist_change:
  "p < squares \<Longrightarrow> zobrist_of zs (c(p := d)) = zobrist_of zs c XOR zs p ! c p XOR zs p ! d"
  unfolding zobrist_of_def by (rule fold_xor_change) auto

end
