(* ===== verification/GoRemove.thy ===== *)
theory GoRemove
  imports GoBasics
begin

text \<open>
  Taking a group off the board, and pretending to: the recursion of \<open>Square.remove\<close> reaches every
  stone of the group, gives every other group its new liberties, and keeps the hash and the set of
  empty squares right.
\<close>

unbundle bit_operations_syntax

section \<open>The state in the middle of the recursion\<close>

text \<open>What \<open>remove\<close> does not change.\<close>

definition core :: "board \<Rightarrow> board" where
  "core b = b\<lparr>reference := (\<lambda>s. None), ledges := (\<lambda>s. 0), removestamp := (\<lambda>s. 0), sq_color := (\<lambda>s. 0),
     zhash := 0, empties := [], empty_pos := []\<rparr>"

lemma core_facts:
  assumes "core b = core b'"
  shows "neighbours b = neighbours b'" "TIMESTAMP b = TIMESTAMP b'" "zobrist_strings b = zobrist_strings b'"
    "timestamp b = timestamp b'" "temp_ledges b = temp_ledges b'" "used b = used b'" "hash_set b = hash_set b'"
    "color b = color b'" "finished b = finished b'" "lastmove b = lastmove b'" "history b = history b'" "MOVES b = MOVES b'"
    "calls b = calls b'" "white_dead b = white_dead b'" "black_dead b = black_dead b'"
  using assms by (cases b, cases b', simp add: core_def)+

lemma core_updates [simp]:
  "core (b\<lparr>reference := r\<rparr>) = core b" "core (b\<lparr>ledges := l\<rparr>) = core b" "core (b\<lparr>removestamp := s\<rparr>) = core b"
  "core (b\<lparr>sq_color := c\<rparr>) = core b" "core (b\<lparr>zhash := h\<rparr>) = core b" "core (b\<lparr>empties := es\<rparr>) = core b"
  "core (b\<lparr>empty_pos := ep\<rparr>) = core b"
  by (simp_all add: core_def)

text \<open>What \<open>remove\<close> without \<open>update\<close> does not change.\<close>

definition shadow :: "board \<Rightarrow> board" where
  "shadow b = b\<lparr>removestamp := (\<lambda>s. 0), zhash := 0\<rparr>"

lemma shadow_updates [simp]: "shadow (b\<lparr>removestamp := s\<rparr>) = shadow b" "shadow (b\<lparr>zhash := h\<rparr>) = shadow b"
  by (simp_all add: shadow_def)

text \<open>
  Groups are given by \<open>rep\<close>; the stones that still stand are those of \<open>S\<close> outside \<open>R\<close>, and \<open>g\<close> is the
  group that goes. A liberty of a stone is a pair of it and an empty neighbour; \<open>ledges_ok\<close> says that
  the counters of the other groups count the pairs of \<open>B\<close>.
\<close>

definition ledges_ok :: "nat set \<Rightarrow> (nat \<Rightarrow> nat) \<Rightarrow> nat set \<Rightarrow> (nat \<times> nat) set \<Rightarrow> (nat \<Rightarrow> int) \<Rightarrow> bool" where
  "ledges_ok D rep G B l \<longleftrightarrow> finite B \<and> (\<forall>r \<in> D. rep r = r \<longrightarrow> r \<notin> G \<longrightarrow> l r = int (card {a \<in> B. rep (fst a) = r}))"

definition freed :: "nat set \<Rightarrow> (nat \<Rightarrow> nat) \<Rightarrow> nat \<Rightarrow> nat set \<Rightarrow> (nat \<times> nat) set" where
  "freed S rep g R = {(n, y). y \<in> R \<and> n \<in> set (set_neighbours y) \<and> n \<in> S \<and> rep n \<noteq> g}"

definition without :: "nat set \<Rightarrow> (nat \<Rightarrow> nat) \<Rightarrow> nat \<Rightarrow> nat" where
  "without R c = (\<lambda>y. if y \<in> R then EMPTY else c y)"

record removal =
  r_update :: bool
  r_links :: "nat set"
  r_stones :: "nat set"
  r_rep :: "nat \<Rightarrow> nat"
  r_rank :: "nat \<Rightarrow> nat"
  r_group :: nat
  r_color :: "nat \<Rightarrow> nat"
  r_empty :: "nat set"
  r_board :: board

definition group_of :: "removal \<Rightarrow> nat set" where
  "group_of m = {x \<in> r_stones m. r_rep m x = r_group m}"

definition removal_ok :: "removal \<Rightarrow> bool" where
  "removal_ok m \<longleftrightarrow> r_stones m \<subseteq> r_links m \<and> r_links m \<subseteq> {..<squares} \<and> r_empty m \<inter> group_of m = {} \<and>
     (\<forall>x \<in> r_stones m. r_rep m x \<in> r_stones m) \<and> neighbours (r_board m) = set_neighbours"

definition removing :: "removal \<Rightarrow> nat set \<Rightarrow> (nat \<times> nat) set \<Rightarrow> board \<Rightarrow> bool" where
  "removing m R B b \<longleftrightarrow>
     linked (r_links m) (r_rep m) (r_rank m) (reference b) \<and>
     (\<forall>n < squares. (sq_color b n \<noteq> EMPTY \<and> removestamp b n \<noteq> TIMESTAMP b) \<longleftrightarrow> n \<in> r_stones m - R) \<and>
     (\<forall>n \<in> r_stones m - R. sq_color b n = r_color m n) \<and>
     (\<forall>n. removestamp b n \<le> TIMESTAMP b) \<and>
     zhash b = zobrist_of (zobrist_strings b) (without R (r_color m)) \<and>
     core b = core (r_board m) \<and>
     (if r_update m
      then sq_color b = without R (r_color m) \<and> ledges_ok (r_stones m) (r_rep m) {r_group m} B (ledges b) \<and>
           emptyset_ok (r_empty m \<union> R) (empties b) (empty_pos b)
      else shadow b = shadow (r_board m))"

lemma removingD:
  assumes "removing m R B b"
  shows "linked (r_links m) (r_rep m) (r_rank m) (reference b)"
    "\<And>n. n < squares \<Longrightarrow> (sq_color b n \<noteq> EMPTY \<and> removestamp b n \<noteq> TIMESTAMP b) \<longleftrightarrow> n \<in> r_stones m - R"
    "core b = core (r_board m)"
    "r_update m \<Longrightarrow> ledges_ok (r_stones m) (r_rep m) {r_group m} B (ledges b)"
    "\<not> r_update m \<Longrightarrow> shadow b = shadow (r_board m)"
  using assms by (simp_all add: removing_def)

text \<open>The first half of a call: one stone goes.\<close>

definition mark :: "bool \<Rightarrow> nat \<Rightarrow> board \<Rightarrow> board result" where
  "mark update self b =
     (let b = zobrist_update self EMPTY b; b = b\<lparr>removestamp := (removestamp b)(self := TIMESTAMP b)\<rparr> in
      if update then emptyset_add self (b\<lparr>sq_color := (sq_color b)(self := EMPTY)\<rparr>) else Inr b)"

lemma without_insert: "without (insert x R) c = (without R c)(x := EMPTY)"
  by (auto simp: without_def)

lemma mark_ok:
  assumes m: "removal_ok m" and inv: "removing m R B b" and x: "x \<in> group_of m - R" and R: "R \<subseteq> group_of m"
  shows "\<exists>b'. mark (r_update m) x b = Inr b' \<and> removing m (insert x R) B b'"
proof -
  have xs: "x \<in> r_stones m" "x < squares" "x \<notin> r_empty m \<union> R" using m x by (auto simp: removal_ok_def group_of_def)
  have cx: "sq_color b x = r_color m x" using inv xs(1) x unfolding removing_def by blast
  have h: "zobrist_of zs (without (insert x R) (r_color m)) = zobrist_of zs (without R (r_color m)) XOR zs x ! r_color m x XOR zs x ! EMPTY" for zs
    unfolding without_insert zobrist_change [OF xs(2)] using x by (simp add: without_def)
  show ?thesis
  proof (cases "r_update m")
    case True
    then have "emptyset_ok (r_empty m \<union> R) (empties b) (empty_pos b)" using inv by (simp add: removing_def)
    let ?b = "b\<lparr>zhash := zhash b XOR zobrist_strings b x ! sq_color b x XOR zobrist_strings b x ! EMPTY,
      removestamp := (removestamp b)(x := TIMESTAMP b), sq_color := (sq_color b)(x := EMPTY)\<rparr>"
    from emptyset_add_ok [of "r_empty m \<union> R" ?b x] \<open>emptyset_ok _ _ _\<close> xs(2,3) obtain ep where
      ep: "emptyset_add x ?b = Inr (?b\<lparr>empty_pos := ep, empties := empties ?b @ [x]\<rparr>)"
      "emptyset_ok (insert x (r_empty m \<union> R)) (empties ?b @ [x]) ep" by auto
    have "removing m (insert x R) B (?b\<lparr>empty_pos := ep, empties := empties ?b @ [x]\<rparr>)"
      using inv True ep(2) cx h x unfolding removing_def
      by (auto simp: without_insert zobrist_update_def)
    then show ?thesis using True ep(1) by (auto simp: mark_def zobrist_update_def)
  next
    case False
    let ?b = "b\<lparr>zhash := zhash b XOR zobrist_strings b x ! sq_color b x XOR zobrist_strings b x ! EMPTY,
      removestamp := (removestamp b)(x := TIMESTAMP b)\<rparr>"
    have "removing m (insert x R) B ?b"
      using inv False cx h x unfolding removing_def by auto
    then show ?thesis using False by (auto simp: mark_def zobrist_update_def)
  qed
qed


text \<open>The second half of a call: the neighbours.\<close>

definition scan :: "nat \<Rightarrow> nat \<Rightarrow> bool \<Rightarrow> nat \<Rightarrow> board \<Rightarrow> board result" where
  "scan fuel ref update neighbour b =
     (if sq_color b neighbour \<noteq> EMPTY \<and> removestamp b neighbour \<noteq> TIMESTAMP b then
        rbind (find update neighbour b) (\<lambda>(neighbour_ref, b).
        if neighbour_ref = ref then square_remove fuel ref update neighbour b
        else if update then Inr (add_ledges neighbour_ref 1 b)
        else Inr b)
      else Inr b)"

lemma square_remove_unfold:
  "square_remove (Suc fuel) ref update self b =
     rbind (mark update self b) (\<lambda>b. for_each (neighbours b self) (scan fuel ref update) b)"
  by (simp only: square_remove.simps mark_def Let_def scan_def [abs_def])

lemma ledges_ok_insert:
  assumes "ledges_ok D rep G B l" and "a \<notin> B" and "rep (fst a) = r"
  shows "ledges_ok D rep G (insert a B) (l(r := l r + 1))"
proof -
  have "{x \<in> insert a B. rep (fst x) = s} = (if s = r then insert a {x \<in> B. rep (fst x) = s} else {x \<in> B. rep (fst x) = s})" for s
    using assms(3) by auto
  then show ?thesis using assms by (simp add: ledges_ok_def)
qed

lemma freed_insert: "freed S rep g (insert x R) = freed S rep g R \<union> freed S rep g {x}"
  by (auto simp: freed_def)

lemma freed_Un: "freed S rep g (R \<union> T) = freed S rep g R \<union> freed S rep g T"
  by (auto simp: freed_def)

text \<open>A neighbour that stands but belongs to another group.\<close>

lemma scan_other:
  assumes m: "removal_ok m" and inv: "removing m R B b" and n: "n \<in> r_stones m - R" "r_rep m n \<noteq> r_group m" and a: "(n, x) \<notin> B"
  shows "\<exists>b'. scan fuel (r_group m) (r_update m) n b = Inr b' \<and> removing m R (insert (n, x) B) b'"
proof -
  have nl: "n \<in> r_links m" "n < squares" using m n by (auto simp: removal_ok_def)
  have alive: "sq_color b n \<noteq> EMPTY \<and> removestamp b n \<noteq> TIMESTAMP b" using removingD(2) [OF inv nl(2)] n(1) by simp
  have links: "r_links m \<subseteq> {..<squares}" using m by (simp add: removal_ok_def)
  obtain r where r: "find (r_update m) n b = Inr (r_rep m n, b\<lparr>reference := r\<rparr>)" "linked (r_links m) (r_rep m) (r_rank m) r"
    using find_ok [OF removingD(1) [OF inv] links nl(1)] by blast
  show ?thesis
  proof (cases "r_update m")
    case True
    have "ledges_ok (r_stones m) (r_rep m) {r_group m} (insert (n, x) B) ((ledges b)(r_rep m n := ledges b (r_rep m n) + 1))"
      using removingD(4) [OF inv True] a by (rule ledges_ok_insert) simp
    then have "removing m R (insert (n, x) B) (add_ledges (r_rep m n) 1 (b\<lparr>reference := r\<rparr>))"
      using inv True r(2) unfolding removing_def by (auto simp: add_ledges_def)
    then show ?thesis using True alive r(1) n(2) by (simp add: scan_def)
  next
    case False
    have "find False n b = Inr (r_rep m n, b)" using find_same [OF removingD(1) [OF inv] links nl(1)] .
    moreover have "removing m R (insert (n, x) B) b" using inv False unfolding removing_def by simp
    ultimately show ?thesis using False alive n(2) by (simp add: scan_def)
  qed
qed

text \<open>
  The recursion, started at a stone that stands, takes it and what it reaches inside the group.
\<close>

definition closed_in :: "nat set \<Rightarrow> nat set \<Rightarrow> nat set \<Rightarrow> bool" where
  "closed_in G T R \<longleftrightarrow> (\<forall>y \<in> T. set (set_neighbours y) \<inter> G \<subseteq> R)"

definition fresh :: "removal \<Rightarrow> nat set \<Rightarrow> (nat \<times> nat) set \<Rightarrow> bool" where
  "fresh m R B \<longleftrightarrow> (\<forall>(n, y) \<in> B. y \<in> group_of m - R \<longrightarrow> r_rep m n = r_group m)"

lemma removing_core: "removing m R B b \<Longrightarrow> removal_ok m \<Longrightarrow> neighbours b = set_neighbours"
  using core_facts(1) [of b "r_board m"] by (simp add: removal_ok_def removing_def)

lemma square_remove_ok:
  assumes m: "removal_ok m"
  shows "removing m R B b \<Longrightarrow> R \<subseteq> group_of m \<Longrightarrow> x \<in> group_of m - R \<Longrightarrow> fresh m R B \<Longrightarrow> card (group_of m - R) \<le> fuel \<Longrightarrow>
    \<exists>R' b'. square_remove fuel (r_group m) (r_update m) x b = Inr b' \<and>
      removing m R' (B \<union> freed (r_stones m) (r_rep m) (r_group m) (R' - R)) b' \<and>
      insert x R \<subseteq> R' \<and> R' \<subseteq> group_of m \<and> closed_in (group_of m) (R' - R) R'"
proof (induction fuel arbitrary: R B b x)
  case 0
  have "finite (group_of m)" using m finite_subset [of "r_links m" "{..<squares}"] finite_subset [of "r_stones m" "r_links m"]
    by (auto simp: group_of_def removal_ok_def)
  then show ?case using 0 by simp
next
  case (Suc fuel)
  let ?G = "group_of m" and ?F = "freed (r_stones m) (r_rep m) (r_group m)" and ?N = "set_neighbours x"
  have fin: "finite ?G" using m finite_subset [of "r_links m" "{..<squares}"] finite_subset [of "r_stones m" "r_links m"]
    by (auto simp: group_of_def removal_ok_def)
  have xG: "x \<in> ?G" "x \<notin> R" "x < squares" using Suc.prems(3) m by (auto simp: group_of_def removal_ok_def)
  note N = neighbours_facts [OF xG(3)]
  obtain b1 where b1: "mark (r_update m) x b = Inr b1" "removing m (insert x R) B b1"
    using mark_ok [OF m Suc.prems(1,3,2)] by blast
  define I where "I k b' \<longleftrightarrow> (\<exists>R1. insert x R \<subseteq> R1 \<and> R1 \<subseteq> ?G \<and>
     removing m R1 (B \<union> ?F (R1 - insert x R) \<union> {(n, y) \<in> ?F {x}. n \<in> set (take k ?N)}) b' \<and>
     closed_in ?G (R1 - insert x R) R1 \<and> set (take k ?N) \<inter> ?G \<subseteq> R1)" for k b'
  have "\<exists>b'. for_each ?N (scan fuel (r_group m) (r_update m)) b1 = Inr b' \<and> I (length ?N) b'"
  proof (rule for_each_count)
    have "?F (insert x R - insert x R) = {}" by (simp add: freed_def)
    then show "I 0 b1" unfolding I_def using b1(2) xG(1) Suc.prems(2) by (intro exI [of _ "insert x R"]) (simp add: closed_in_def)
  next
    fix k u assume k: "k < length ?N" and "I k u"
    then obtain R1 where R1: "insert x R \<subseteq> R1" "R1 \<subseteq> ?G" "closed_in ?G (R1 - insert x R) R1" "set (take k ?N) \<inter> ?G \<subseteq> R1"
      and inv: "removing m R1 (B \<union> ?F (R1 - insert x R) \<union> {(n, y) \<in> ?F {x}. n \<in> set (take k ?N)}) u"
      unfolding I_def by blast
    let ?n = "?N ! k" and ?B = "B \<union> ?F (R1 - insert x R) \<union> {(n, y) \<in> ?F {x}. n \<in> set (take k ?N)}"
    have n: "?n \<in> set ?N" "?n < squares" using k N(5) by simp_all
    have tk: "set (take (Suc k) ?N) = insert ?n (set (take k ?N))" using k by (simp add: take_Suc_conv_app_nth)
    have nk: "?n \<notin> set (take k ?N)" using k N(1) by (auto simp: in_set_conv_nth nth_eq_iff_index_eq)
    note alive = removingD(2) [OF inv n(2)]
    consider "?n \<in> ?G - R1" | "?n \<in> r_stones m - R1" "r_rep m ?n \<noteq> r_group m" | "?n \<notin> r_stones m - R1"
      by (auto simp: group_of_def)
    then show "\<exists>u'. scan fuel (r_group m) (r_update m) ?n u = Inr u' \<and> I (Suc k) u'"
    proof cases
      case 1
      have nl: "?n \<in> r_links m" and nr: "r_rep m ?n = r_group m" and links: "r_links m \<subseteq> {..<squares}"
        using 1 m by (auto simp: removal_ok_def group_of_def)
      obtain r where r: "find (r_update m) ?n u = Inr (r_group m, u\<lparr>reference := r\<rparr>)" "linked (r_links m) (r_rep m) (r_rank m) r"
        using find_ok [OF removingD(1) [OF inv] links nl, of "r_update m"] nr by auto
      define u1 where "u1 = (if r_update m then u\<lparr>reference := r\<rparr> else u)"
      have u1: "find (r_update m) ?n u = Inr (r_group m, u1)"
        using r(1) find_same [OF removingD(1) [OF inv] links nl] nr by (cases "r_update m") (auto simp: u1_def)
      have inv1: "removing m R1 ?B u1" using inv r(2) unfolding removing_def by (auto simp: u1_def)
      have "fresh m R1 ?B" using Suc.prems(4) R1(1,2) xG unfolding fresh_def by (fastforce simp: freed_def)
      moreover have "card (?G - R1) \<le> fuel"
      proof -
        have "?G - R1 \<subset> ?G - R" using R1(1,2) xG by auto
        then show ?thesis using Suc.prems(5) fin psubset_card_mono [of "?G - R" "?G - R1"] by simp
      qed
      ultimately obtain R2 u2 where R2: "square_remove fuel (r_group m) (r_update m) ?n u1 = Inr u2"
        "removing m R2 (?B \<union> ?F (R2 - R1)) u2" "insert ?n R1 \<subseteq> R2" "R2 \<subseteq> ?G" "closed_in ?G (R2 - R1) R2"
        using Suc.IH [OF inv1 R1(2) 1] by blast
      have "?B \<union> ?F (R2 - R1) = B \<union> ?F (R2 - insert x R) \<union> {(n, y) \<in> ?F {x}. n \<in> set (take (Suc k) ?N)}"
      proof -
        have "R2 - insert x R = (R1 - insert x R) \<union> (R2 - R1)" using R1(1) R2(3) by auto
        moreover have "{(n, y) \<in> ?F {x}. n \<in> set (take (Suc k) ?N)} = {(n, y) \<in> ?F {x}. n \<in> set (take k ?N)}"
          unfolding tk using nr by (auto simp: freed_def)
        ultimately show ?thesis by (simp add: freed_Un Un_assoc Un_left_commute Un_commute)
      qed
      moreover have "closed_in ?G (R2 - insert x R) R2" using R1(3) R2(3,5) unfolding closed_in_def by blast
      moreover have "set (take (Suc k) ?N) \<inter> ?G \<subseteq> R2" "insert x R \<subseteq> R2" unfolding tk using R1(1,4) R2(3) by auto
      ultimately have "I (Suc k) u2" unfolding I_def using R2(2,4) by auto
      moreover have "scan fuel (r_group m) (r_update m) ?n u = Inr u2"
        using alive 1 u1 R2(1) by (auto simp: scan_def group_of_def)
      ultimately show ?thesis by blast
    next
      case 2
      have "(?n, x) \<notin> ?B" using Suc.prems(4) xG nk 2(2) by (auto simp: fresh_def freed_def)
      from scan_other [OF m inv 2 this, of fuel] obtain u' where u':
        "scan fuel (r_group m) (r_update m) ?n u = Inr u'" "removing m R1 (insert (?n, x) ?B) u'" by blast
      have "insert (?n, x) ?B = B \<union> ?F (R1 - insert x R) \<union> {(n, y) \<in> ?F {x}. n \<in> set (take (Suc k) ?N)}"
        unfolding tk using n(1) 2 by (auto simp: freed_def)
      moreover have "set (take (Suc k) ?N) \<inter> ?G \<subseteq> R1" unfolding tk using R1(4) 2(2) by (auto simp: group_of_def)
      ultimately have "I (Suc k) u'" unfolding I_def using R1 u'(2) by (intro exI [of _ R1]) simp
      then show ?thesis using u'(1) by blast
    next
      case 3
      have "scan fuel (r_group m) (r_update m) ?n u = Inr u" using alive 3 by (auto simp: scan_def)
      moreover have "r_rep m ?n = r_group m" if "?n \<in> r_stones m" using that 3 R1(2) by (auto simp: group_of_def)
      then have "{(n, y) \<in> ?F {x}. n \<in> set (take (Suc k) ?N)} = {(n, y) \<in> ?F {x}. n \<in> set (take k ?N)}"
        unfolding tk by (auto simp: freed_def)
      moreover have "set (take (Suc k) ?N) \<inter> ?G \<subseteq> R1" unfolding tk using R1(4) 3 by (auto simp: group_of_def)
      ultimately show ?thesis unfolding I_def using R1 inv by auto
    qed
  qed
  then obtain b' R1 where b': "for_each ?N (scan fuel (r_group m) (r_update m)) b1 = Inr b'"
    and R1: "insert x R \<subseteq> R1" "R1 \<subseteq> ?G" "closed_in ?G (R1 - insert x R) R1" "set ?N \<inter> ?G \<subseteq> R1"
    and inv: "removing m R1 (B \<union> ?F (R1 - insert x R) \<union> {(n, y) \<in> ?F {x}. n \<in> set ?N}) b'"
    unfolding I_def by auto
  have "{(n, y) \<in> ?F {x}. n \<in> set ?N} = ?F {x}" by (auto simp: freed_def)
  moreover have "R1 - R = (R1 - insert x R) \<union> {x}" using R1(1) xG(2) by auto
  ultimately have "B \<union> ?F (R1 - insert x R) \<union> {(n, y) \<in> ?F {x}. n \<in> set ?N} = B \<union> ?F (R1 - R)"
    by (simp only: freed_Un Un_assoc)
  then have "removing m R1 (B \<union> ?F (R1 - R)) b'" using inv by simp
  moreover have "closed_in ?G (R1 - R) R1" using R1(3,4) \<open>R1 - R = _\<close> by (auto simp: closed_in_def)
  moreover have "square_remove (Suc fuel) (r_group m) (r_update m) x b = Inr b'"
    unfolding square_remove_unfold b1(1) using b' removing_core [OF b1(2) m] by simp
  ultimately show ?case using R1(1,2) by blast
qed

text \<open>A group whose stones hang together goes as a whole.\<close>

definition connected :: "nat set \<Rightarrow> bool" where
  "connected G \<longleftrightarrow> (\<forall>T \<subseteq> G. T \<noteq> {} \<longrightarrow> closed_in G T T \<longrightarrow> T = G)"

lemma connected_single: "connected {x}"
  by (auto simp: connected_def)

lemma connected_union:
  assumes "connected G" and "connected H" and x: "x \<in> G" and y: "y \<in> H" and xy: "y \<in> set (set_neighbours x)" and "x < squares"
  shows "connected (G \<union> H)"
  unfolding connected_def
proof (intro allI impI)
  fix T assume T: "T \<subseteq> G \<union> H" "T \<noteq> {}" "closed_in (G \<union> H) T T"
  have yx: "x \<in> set (set_neighbours y)" using neighbours_facts(6) [OF \<open>x < squares\<close> xy] .
  have G: "T \<inter> G = G" if "T \<inter> G \<noteq> {}" using assms(1) that T(3) unfolding connected_def closed_in_def by blast
  have H: "T \<inter> H = H" if "T \<inter> H \<noteq> {}" using assms(2) that T(3) unfolding connected_def closed_in_def by blast
  have "y \<in> T" if "x \<in> T" using that xy y T(3) unfolding closed_in_def by blast
  moreover have "x \<in> T" if "y \<in> T" using that yx x T(3) unfolding closed_in_def by blast
  ultimately show "T = G \<union> H" using T(1,2) G H x y by blast
qed

lemma remove_ok:
  assumes m: "removal_ok m" and inv: "removing m {} B b" and x: "x \<in> group_of m" and "fresh m {} B" and c: "connected (group_of m)"
  shows "\<exists>b'. remove (r_group m) (r_update m) x b = Inr b' \<and>
    removing m (group_of m) (B \<union> freed (r_stones m) (r_rep m) (r_group m) (group_of m)) b'"
proof -
  have "group_of m \<subseteq> {..<squares}" using m by (auto simp: removal_ok_def group_of_def)
  then have "card (group_of m) \<le> card {..<squares}" by (intro card_mono) auto
  then obtain R' b' where r: "square_remove (Suc squares) (r_group m) (r_update m) x b = Inr b'"
    "removing m R' (B \<union> freed (r_stones m) (r_rep m) (r_group m) R') b'" "x \<in> R'" "R' \<subseteq> group_of m" "closed_in (group_of m) R' R'"
    using square_remove_ok [OF m inv, of x "Suc squares"] x assms(4) by auto
  have "R' = group_of m" using c r(3-5) unfolding connected_def by blast
  then show ?thesis using r(1,2) unfolding remove_def by blast
qed
end
