(* ===== verification/GoMove.thy ===== *)
theory GoMove
  imports GoRemove
begin

text \<open>
  The invariant of a board and its preservation by a move: the references of the stones give the
  groups of adjacent stones of one colour, the counter of each group counts its liberties, and the
  hash and the set of empty squares belong to the position.
\<close>

unbundle bit_operations_syntax

section \<open>The invariant\<close>

definition stones :: "board \<Rightarrow> nat set" where
  "stones b = {p. p < squares \<and> sq_color b p \<noteq> EMPTY}"

definition free :: "board \<Rightarrow> nat set" where
  "free b = {p. p < squares \<and> sq_color b p = EMPTY}"

text \<open>The liberties, each as a stone and an empty neighbour of it.\<close>

definition liberties :: "board \<Rightarrow> (nat \<times> nat) set" where
  "liberties b = {(x, n). x \<in> stones b \<and> n \<in> set (set_neighbours x) \<and> sq_color b n = EMPTY}"

definition groups_ok :: "board \<Rightarrow> (nat \<Rightarrow> nat) \<Rightarrow> (nat \<Rightarrow> nat) \<Rightarrow> (nat \<times> nat) set \<Rightarrow> bool" where
  "groups_ok b rep rk A \<longleftrightarrow> linked (stones b) rep rk (reference b) \<and>
     (\<forall>x \<in> stones b. sq_color b (rep x) = sq_color b x \<and> connected {y \<in> stones b. rep y = rep x}) \<and>
     ledges_ok (stones b) rep {} A (ledges b)"

definition stamps_ok :: "board \<Rightarrow> bool" where
  "stamps_ok b \<longleftrightarrow> (\<forall>n. removestamp b n \<le> TIMESTAMP b \<and> timestamp b n \<le> TIMESTAMP b)"

definition position_ok :: "board \<Rightarrow> bool" where
  "position_ok b \<longleftrightarrow> neighbours b = set_neighbours \<and> stamps_ok b \<and> zhash b = zobrist_of (zobrist_strings b) (sq_color b) \<and>
     (\<forall>x. sq_color b x \<in> {EMPTY, WHITE, BLACK})"

definition merged :: "board \<Rightarrow> (nat \<Rightarrow> nat) \<Rightarrow> (nat \<Rightarrow> nat \<Rightarrow> bool) \<Rightarrow> bool" where
  "merged b rep seen \<longleftrightarrow> (\<forall>x \<in> stones b. \<forall>y \<in> stones b.
     y \<in> set (set_neighbours x) \<longrightarrow> sq_color b x = sq_color b y \<longrightarrow> seen x y \<longrightarrow> rep x = rep y)"

definition board_inv :: "board \<Rightarrow> (nat \<Rightarrow> nat) \<Rightarrow> (nat \<Rightarrow> nat) \<Rightarrow> bool" where
  "board_inv b rep rk \<longleftrightarrow> groups_ok b rep rk (liberties b) \<and> merged b rep (\<lambda>x y. True) \<and> position_ok b \<and>
     emptyset_ok (free b) (empties b) (empty_pos b) \<and> color b \<in> {WHITE, BLACK}"

section \<open>In the middle of a move\<close>

text \<open>
  A stone has been put on \<open>p\<close>, and the first \<open>k\<close> of its neighbours have been dealt with: the others
  still count \<open>p\<close> as a liberty, and \<open>p\<close> counts its liberties among the first \<open>k\<close>.
\<close>

definition counted :: "nat \<Rightarrow> nat \<Rightarrow> board \<Rightarrow> (nat \<times> nat) set" where
  "counted p k b =
     {(x, n). x \<in> stones b \<and> x \<noteq> p \<and> n \<in> set (set_neighbours x) \<and> (sq_color b n = EMPTY \<or> n = p \<and> x \<in> set (drop k (set_neighbours p)))} \<union>
     {(x, n). x = p \<and> n \<in> set (take k (set_neighbours p)) \<and> sq_color b n = EMPTY}"

definition seen :: "nat \<Rightarrow> nat \<Rightarrow> nat \<Rightarrow> nat \<Rightarrow> bool" where
  "seen p k x y \<longleftrightarrow> (x = p \<longrightarrow> y \<in> set (take k (set_neighbours p))) \<and> (y = p \<longrightarrow> x \<in> set (take k (set_neighbours p)))"

definition moving :: "nat \<Rightarrow> nat \<Rightarrow> nat \<Rightarrow> (nat \<Rightarrow> nat) \<Rightarrow> (nat \<Rightarrow> nat) \<Rightarrow> board \<Rightarrow> bool" where
  "moving p c k rep rk b \<longleftrightarrow> p < squares \<and> c \<noteq> EMPTY \<and> sq_color b p = c \<and> rep p = p \<and> rk p = 0 \<and> (\<forall>x \<in> stones b. x \<noteq> p \<longrightarrow> 0 < rk x) \<and>
     groups_ok b rep rk (counted p k b) \<and> merged b rep (seen p k) \<and> position_ok b \<and>
     (\<forall>x \<in> stones b. removestamp b x \<noteq> TIMESTAMP b) \<and> emptyset_ok (insert p (free b)) (empties b) (empty_pos b)"

lemma finite_stones [simp]: "finite (stones b)"
  by (simp add: stones_def)

lemma finite_counted [simp]: "finite (counted p k b)"
proof (rule finite_subset)
  show "counted p k b \<subseteq> insert p (stones b) \<times> (set (take k (set_neighbours p)) \<union> (\<Union>x \<in> stones b. set (set_neighbours x)))"
    by (auto simp: counted_def)
qed simp

lemma ledges_ok_delete:
  assumes "ledges_ok D rep G B l" and "a \<in> B" and "rep (fst a) = r"
  shows "ledges_ok D rep G (B - {a}) (l(r := l r - 1))"
proof -
  have fin: "finite B" using assms(1) by (simp add: ledges_ok_def)
  have "int (card {x \<in> B - {a}. rep (fst x) = s}) = int (card {x \<in> B. rep (fst x) = s}) - (if s = r then 1 else 0)" for s
  proof (cases "s = r")
    case True
    have "{x \<in> B - {a}. rep (fst x) = s} = {x \<in> B. rep (fst x) = s} - {a}" by auto
    moreover have "card {x \<in> B. rep (fst x) = s} = Suc (card ({x \<in> B. rep (fst x) = s} - {a}))"
      using assms(2,3) True fin by (intro card.remove) auto
    ultimately show ?thesis using True by simp
  next
    case False
    then have "{x \<in> B - {a}. rep (fst x) = s} = {x \<in> B. rep (fst x) = s}" using assms(3) by auto
    then show ?thesis using False by simp
  qed
  then show ?thesis using assms(1) by (auto simp: ledges_ok_def)
qed

lemma ledges_ok_merge:
  assumes "ledges_ok D rep G B l" and "p \<in> D" "rep p = p" "p \<notin> G" and "q \<in> D" "rep q = q" "q \<notin> G" and "q \<noteq> p"
  shows "ledges_ok D (\<lambda>s. if rep s = q then p else rep s) G B (l(p := l p + l q))"
proof -
  let ?rep = "\<lambda>s. if rep s = q then p else rep s"
  have fin: "finite B" using assms(1) by (simp add: ledges_ok_def)
  have "{x \<in> B. ?rep (fst x) = p} = {x \<in> B. rep (fst x) = p} \<union> {x \<in> B. rep (fst x) = q}" using assms(8) by auto
  moreover have "{x \<in> B. rep (fst x) = p} \<inter> {x \<in> B. rep (fst x) = q} = {}" using assms(8) by auto
  ultimately have "card {x \<in> B. ?rep (fst x) = p} = card {x \<in> B. rep (fst x) = p} + card {x \<in> B. rep (fst x) = q}"
    using fin by (simp add: card_Un_disjoint)
  moreover have "{x \<in> B. ?rep (fst x) = r} = {x \<in> B. rep (fst x) = r}" if "r \<noteq> p" "r \<noteq> q" for r using that by auto
  ultimately show ?thesis using assms unfolding ledges_ok_def by (auto split: if_splits)
qed


section \<open>One neighbour\<close>

lemma take_drop_step:
  assumes "k < length N" and "distinct N"
  shows "set (take (Suc k) N) = insert (N ! k) (set (take k N))" "set (drop k N) = insert (N ! k) (set (drop (Suc k) N))"
    "N ! k \<notin> set (take k N)" "N ! k \<notin> set (drop (Suc k) N)" "set (take k N) \<union> set (drop k N) = set N"
proof -
  show "set (take (Suc k) N) = insert (N ! k) (set (take k N))" using assms(1) by (simp add: take_Suc_conv_app_nth)
  have d: "drop k N = N ! k # drop (Suc k) N" using assms(1) by (simp add: Cons_nth_drop_Suc)
  then show "set (drop k N) = insert (N ! k) (set (drop (Suc k) N))" by simp
  have "distinct (take k N @ N ! k # drop (Suc k) N)" using assms d by (metis append_take_drop_id)
  then show "N ! k \<notin> set (take k N)" "N ! k \<notin> set (drop (Suc k) N)" by simp_all
  show "set (take k N) \<union> set (drop k N) = set N" by (metis append_take_drop_id set_append)
qed

lemma add_ledges_simps [simp]:
  "stones (add_ledges s d b) = stones b" "free (add_ledges s d b) = free b" "counted p k (add_ledges s d b) = counted p k b"
  "position_ok (add_ledges s d b) = position_ok b" "merged (add_ledges s d b) rep sn = merged b rep sn"
  by (simp_all add: stones_def free_def counted_def position_ok_def stamps_ok_def merged_def add_ledges_def)

lemma reference_simps [simp]:
  "stones (b\<lparr>reference := r\<rparr>) = stones b" "free (b\<lparr>reference := r\<rparr>) = free b" "counted p k (b\<lparr>reference := r\<rparr>) = counted p k b"
  "position_ok (b\<lparr>reference := r\<rparr>) = position_ok b" "merged (b\<lparr>reference := r\<rparr>) rep sn = merged b rep sn"
  by (simp_all add: stones_def free_def counted_def position_ok_def stamps_ok_def merged_def)

lemma stone_in: "p < squares \<Longrightarrow> sq_color b p \<noteq> EMPTY \<Longrightarrow> p \<in> stones b"
  by (simp add: stones_def)

text \<open>An empty neighbour.\<close>

lemma moving_empty:
  assumes inv: "moving p c k rep rk b" and k: "k < length (set_neighbours p)" and e: "sq_color b (set_neighbours p ! k) = EMPTY"
  shows "moving p c (Suc k) rep rk (add_ledges p 1 b)"
proof -
  let ?n = "set_neighbours p ! k"
  have p: "p < squares" "sq_color b p = c" "c \<noteq> EMPTY" "rep p = p" using inv by (simp_all add: moving_def)
  note N = neighbours_facts [OF p(1)]
  note td = take_drop_step [OF k N(1)]
  have nS: "?n \<notin> stones b" using e by (simp add: stones_def)
  have c: "counted p (Suc k) b = insert (p, ?n) (counted p k b)"
    unfolding counted_def td(1,2) using nS e by auto
  have "(p, ?n) \<notin> counted p k b" using td(3) by (simp add: counted_def)
  then have "ledges_ok (stones b) rep {} (insert (p, ?n) (counted p k b)) ((ledges b)(p := ledges b p + 1))"
    using inv p(4) unfolding moving_def groups_ok_def by (intro ledges_ok_insert) auto
  moreover have "merged b rep (seen p (Suc k))"
    using inv nS unfolding moving_def merged_def seen_def td(1) by blast
  ultimately show ?thesis using inv unfolding moving_def groups_ok_def
    by (simp add: c) (simp add: add_ledges_def)
qed

text \<open>A stone that is not a liberty of its group any more.\<close>

lemma counted_stone:
  assumes "p < squares" and k: "k < length (set_neighbours p)" and s: "set_neighbours p ! k \<in> stones b" and "sq_color b p \<noteq> EMPTY"
  shows "(set_neighbours p ! k, p) \<in> counted p k b" "counted p (Suc k) b = counted p k b - {(set_neighbours p ! k, p)}"
proof -
  let ?n = "set_neighbours p ! k"
  note N = neighbours_facts [OF assms(1)]
  note td = take_drop_step [OF k N(1)]
  have n: "?n \<in> set (set_neighbours p)" "?n \<noteq> p" "p \<in> set (set_neighbours ?n)" using k N(2,6) by (simp, metis nth_mem, simp)
  show "(?n, p) \<in> counted p k b" unfolding counted_def td(2) using s n by simp
  have "sq_color b ?n \<noteq> EMPTY" using s by (simp add: stones_def)
  then show "counted p (Suc k) b = counted p k b - {(?n, p)}"
    unfolding counted_def td(1,2) using n td(4) assms(4) by auto
qed

lemma groups_reference: "groups_ok b rep rk A \<Longrightarrow> linked (stones b) rep rk r \<Longrightarrow> groups_ok (b\<lparr>reference := r\<rparr>) rep rk A"
  by (simp add: groups_ok_def)

lemma moving_reference: "moving p c k rep rk b \<Longrightarrow> linked (stones b) rep rk r \<Longrightarrow> moving p c k rep rk (b\<lparr>reference := r\<rparr>)"
  unfolding moving_def by (auto intro: groups_reference)

lemma moving_find:
  assumes "moving p c k rep rk b" and "n \<in> stones b"
  shows "\<exists>r. find True n b = Inr (rep n, b\<lparr>reference := r\<rparr>) \<and> moving p c k rep rk (b\<lparr>reference := r\<rparr>)"
proof -
  have "linked (stones b) rep rk (reference b)" using assms(1) by (simp add: moving_def groups_ok_def)
  moreover have "stones b \<subseteq> {..<squares}" by (auto simp: stones_def)
  ultimately obtain r where "find True n b = Inr (rep n, b\<lparr>reference := r\<rparr>)" "linked (stones b) rep rk r"
    using find_ok assms(2) by blast
  then show ?thesis using moving_reference assms(1) by blast
qed

lemma ledges_counted:
  assumes "moving p c k rep rk b" and k: "k < length (set_neighbours p)" and s: "set_neighbours p ! k \<in> stones b"
    and l: "ledges_ok (stones b) rep' {} (counted p k b) l"
  shows "ledges_ok (stones b) rep' {} (counted p (Suc k) b)
    (l(rep' (set_neighbours p ! k) := l (rep' (set_neighbours p ! k)) - 1))"
proof -
  have p: "p < squares" "sq_color b p \<noteq> EMPTY" using assms(1) by (auto simp: moving_def)
  show ?thesis unfolding counted_stone(2) [OF p(1) k s p(2)]
    using l counted_stone(1) [OF p(1) k s p(2)] by (rule ledges_ok_delete) simp
qed

lemma merged_Suc:
  assumes "merged b rep (seen p k)" and "k < length (set_neighbours p)" and "distinct (set_neighbours p)"
    and same: "\<And>x y. rep x = rep y \<Longrightarrow> rep' x = rep' y" and n: "sq_color b (set_neighbours p ! k) = sq_color b p \<Longrightarrow> rep' p = rep' (set_neighbours p ! k)"
  shows "merged b rep' (seen p (Suc k))"
  unfolding merged_def
proof (intro ballI impI)
  fix x y assume xy: "x \<in> stones b" "y \<in> stones b" "y \<in> set (set_neighbours x)" "sq_color b x = sq_color b y" "seen p (Suc k) x y"
  show "rep' x = rep' y"
  proof (cases "seen p k x y")
    case True
    then show ?thesis using assms(1) xy unfolding merged_def by (intro same) blast
  next
    case False
    then have "x = p \<and> y = set_neighbours p ! k \<or> y = p \<and> x = set_neighbours p ! k"
      using xy(5) unfolding seen_def take_drop_step(1) [OF assms(2,3)] by auto
    then show ?thesis using n xy(4) by auto
  qed
qed

text \<open>A neighbour that is in the group of the new stone already.\<close>

lemma moving_same:
  assumes inv: "moving p c k rep rk b" and k: "k < length (set_neighbours p)" and s: "set_neighbours p ! k \<in> stones b"
    and r: "rep (set_neighbours p ! k) = p"
  shows "moving p c (Suc k) rep rk (add_ledges p (-1) b)"
proof -
  let ?n = "set_neighbours p ! k"
  have p: "p < squares" "rep p = p" using inv by (simp_all add: moving_def)
  note td = take_drop_step [OF k neighbours_facts(1) [OF p(1)]]
  have "ledges_ok (stones b) rep {} (counted p (Suc k) b) ((ledges b)(p := ledges b p - 1))"
    using ledges_counted [OF inv k s, of rep] inv r by (simp add: moving_def groups_ok_def)
  moreover have "merged b rep (seen p (Suc k))"
    using inv r p(2) by (intro merged_Suc [where rep = rep, OF _ k neighbours_facts(1) [OF p(1)]]) (auto simp: moving_def)
  ultimately show ?thesis using inv unfolding moving_def groups_ok_def
    by simp (simp add: add_ledges_def)
qed

text \<open>A neighbour of the same colour whose group joins.\<close>

lemma moving_join:
  assumes inv: "moving p c k rep rk b" and k: "k < length (set_neighbours p)" and s: "set_neighbours p ! k \<in> stones b"
    and r: "rep (set_neighbours p ! k) = q" "q \<noteq> p" and cn: "sq_color b (set_neighbours p ! k) = c"
  shows "moving p c (Suc k) (\<lambda>s. if rep s = q then p else rep s) rk
    (add_ledges p (-1) ((add_ledges p (ledges b q) b)\<lparr>reference := (reference b)(q := Some p)\<rparr>))"
proof -
  let ?n = "set_neighbours p ! k" and ?rep = "\<lambda>s. if rep s = q then p else rep s"
  have p: "p < squares" "rep p = p" "sq_color b p = c" "c \<noteq> EMPTY" "rk p = 0" and pos: "\<forall>x \<in> stones b. x \<noteq> p \<longrightarrow> 0 < rk x"
    and li: "linked (stones b) rep rk (reference b)" and le: "ledges_ok (stones b) rep {} (counted p k b) (ledges b)"
    and col: "\<forall>x \<in> stones b. sq_color b (rep x) = sq_color b x" and con: "\<forall>x \<in> stones b. connected {y \<in> stones b. rep y = rep x}"
    using inv by (simp_all add: moving_def groups_ok_def)
  note N = neighbours_facts [OF p(1)]
  note td = take_drop_step [OF k N(1)]
  have n: "?n \<in> set (set_neighbours p)" using k by simp
  have pS: "p \<in> stones b" using p by (simp add: stones_def)
  have q: "q \<in> stones b" "rep q = q" using linked_rep [OF li s] r(1) by simp_all
  have links: "linked (stones b) ?rep rk ((reference b)(q := Some p))"
    using pos q r(2) p by (intro linked_union [OF li pS p(2) q r(2)]) auto
  have "ledges_ok (stones b) ?rep {} (counted p k b) ((ledges b)(p := ledges b p + ledges b q))"
    using ledges_ok_merge [OF le pS p(2) _ q] r(2) by simp
  from ledges_counted [OF inv k s this] have led:
    "ledges_ok (stones b) ?rep {} (counted p (Suc k) b) ((ledges b)(p := ledges b p + ledges b q - 1))" using r by simp
  have grp: "sq_color b (?rep x) = sq_color b x \<and> connected {y \<in> stones b. ?rep y = ?rep x}" if x: "x \<in> stones b" for x
  proof (cases "?rep x = p")
    case True
    have "connected ({y \<in> stones b. rep y = p} \<union> {y \<in> stones b. rep y = q})"
    proof (rule connected_union)
      show "connected {y \<in> stones b. rep y = p}" using bspec [OF con pS] p(2) by simp
      show "connected {y \<in> stones b. rep y = q}" using bspec [OF con q(1)] q(2) by simp
      show "p \<in> {y \<in> stones b. rep y = p}" using pS p(2) by simp
      show "?n \<in> {y \<in> stones b. rep y = q}" using s r by simp
    qed (use n p(1) in simp_all)
    moreover have "{y \<in> stones b. ?rep y = ?rep x} = {y \<in> stones b. rep y = p} \<union> {y \<in> stones b. rep y = q}"
      using True by auto
    moreover have "sq_color b q = c" using col s r(1) cn by auto
    ultimately show ?thesis using True col x p(3) by (auto split: if_splits)
  next
    case False
    then have "{y \<in> stones b. ?rep y = ?rep x} = {y \<in> stones b. rep y = rep x}" "?rep x = rep x" by (auto split: if_splits)
    then show ?thesis using con col x by simp
  qed
  let ?b = "add_ledges p (-1) ((add_ledges p (ledges b q) b)\<lparr>reference := (reference b)(q := Some p)\<rparr>)"
  have st: "stones ?b = stones b" "sq_color ?b = sq_color b" "reference ?b = (reference b)(q := Some p)"
    "ledges ?b = (ledges b)(p := ledges b p + ledges b q - 1)" "counted p (Suc k) ?b = counted p (Suc k) b"
    by simp_all (simp_all add: add_ledges_def fun_eq_iff)
  have "groups_ok ?b ?rep rk (counted p (Suc k) ?b)" unfolding groups_ok_def st using links led grp by blast
  moreover have "merged ?b ?rep (seen p (Suc k))"
    using inv r p(2) by simp (intro merged_Suc [where rep = rep, OF _ k N(1)], auto simp: moving_def)
  moreover have "?rep p = p" using p(2) by simp
  moreover have "removestamp ?b = removestamp b" "TIMESTAMP ?b = TIMESTAMP b" "empties ?b = empties b" "empty_pos ?b = empty_pos b"
    by (simp_all add: add_ledges_def)
  ultimately show ?thesis using inv unfolding moving_def st by simp
qed

text \<open>A neighbour of the other colour: its group loses a liberty, and goes if it was the last.\<close>

lemma moving_enemy:
  assumes inv: "moving p c k rep rk b" and k: "k < length (set_neighbours p)" and s: "set_neighbours p ! k \<in> stones b"
    and cn: "sq_color b (set_neighbours p ! k) \<noteq> c"
  shows "moving p c (Suc k) rep rk (add_ledges (rep (set_neighbours p ! k)) (-1) b)"
proof -
  let ?q = "rep (set_neighbours p ! k)"
  let ?b = "add_ledges ?q (-1) b"
  have p: "p < squares" "sq_color b p = c" using inv by (simp_all add: moving_def)
  have "ledges_ok (stones b) rep {} (counted p (Suc k) b) ((ledges b)(?q := ledges b ?q - 1))"
    using ledges_counted [OF inv k s, of rep] inv by (simp add: moving_def groups_ok_def)
  moreover have "merged b rep (seen p (Suc k))"
    using inv cn p by (intro merged_Suc [where rep = rep, OF _ k neighbours_facts(1) [OF p(1)]]) (auto simp: moving_def)
  ultimately show ?thesis using inv unfolding moving_def groups_ok_def
    by simp (simp add: add_ledges_def)
qed

lemma moving_capture:
  assumes inv: "moving p c (Suc k) rep rk b" and k: "k < length (set_neighbours p)" and s: "set_neighbours p ! k \<in> stones b"
    and cn: "sq_color b (set_neighbours p ! k) \<noteq> c" and l: "ledges b (rep (set_neighbours p ! k)) = 0"
  shows "\<exists>b'. remove (rep (set_neighbours p ! k)) True (set_neighbours p ! k) b = Inr b' \<and> moving p c (Suc k) rep rk b' \<and> core b' = core b \<and>
    sq_color b' = without {y \<in> stones b. rep y = rep (set_neighbours p ! k)} (sq_color b) \<and>
    (\<forall>x \<in> stones b. rep x = rep (set_neighbours p ! k) \<longrightarrow> (\<forall>n \<in> set (set_neighbours x). sq_color b n \<noteq> EMPTY)) \<and>
    (\<forall>r \<in> stones b'. rep r = r \<longrightarrow> ledges b r \<le> ledges b' r)"
proof -
  let ?n = "set_neighbours p ! k" and ?S = "stones b"
  let ?q = "rep ?n" and ?A = "counted p (Suc k) b"
  define m where "m = \<lparr>r_update = True, r_links = ?S, r_stones = ?S, r_rep = rep, r_rank = rk, r_group = ?q,
    r_color = sq_color b, r_empty = insert p (free b), r_board = b\<rparr>"
  have mf: "r_update m = True" "r_links m = ?S" "r_stones m = ?S" "r_rep m = rep" "r_rank m = rk" "r_group m = ?q"
    "r_color m = sq_color b" "r_empty m = insert p (free b)" "r_board m = b" by (simp_all add: m_def)
  have p: "p < squares" "sq_color b p = c" "c \<noteq> EMPTY" "rep p = p" and po: "position_ok b"
    and g: "groups_ok b rep rk ?A" and em: "emptyset_ok (insert p (free b)) (empties b) (empty_pos b)"
    and rs: "\<forall>x \<in> ?S. removestamp b x \<noteq> TIMESTAMP b"
    using inv by (simp_all add: moving_def)
  have li: "linked ?S rep rk (reference b)" and le: "ledges_ok ?S rep {} ?A (ledges b)"
    and col: "\<forall>x \<in> ?S. sq_color b (rep x) = sq_color b x" and con: "\<forall>x \<in> ?S. connected {y \<in> ?S. rep y = rep x}"
    using g by (simp_all add: groups_ok_def)
  note N = neighbours_facts [OF p(1)]
  note td = take_drop_step [OF k N(1)]
  have q: "?q \<in> ?S" "rep ?q = ?q" using linked_rep [OF li s] by simp_all
  have qp: "?q \<noteq> p" using col s cn p(2) by auto
  let ?G = "{y \<in> ?S. rep y = ?q}"
  have gm: "group_of m = ?G" by (simp add: group_of_def mf)
  have pG: "p \<notin> ?G" using p(4) qp by simp
  have none: "rep (fst a) \<noteq> ?q" if "a \<in> ?A" for a
  proof -
    have "card {a \<in> ?A. rep (fst a) = ?q} = 0" using le q l by (simp add: ledges_ok_def)
    then show ?thesis using that by (cases a) auto
  qed
  have ok: "removal_ok m"
    unfolding removal_ok_def gm mf using linked_rep [OF li] pG po by (auto simp: stones_def free_def position_ok_def)
  have "removing m {} ?A b"
    unfolding removing_def mf using li po rs le em
    by (auto simp: position_ok_def stamps_ok_def without_def stones_def ledges_ok_def)
  moreover have "?n \<in> group_of m" unfolding gm using s by simp
  moreover have "fresh m {} ?A" unfolding fresh_def gm mf using pG by (auto simp: counted_def stones_def)
  moreover have "connected (group_of m)" unfolding gm using con s by simp
  ultimately obtain b' where b': "remove ?q True ?n b = Inr b'" and re: "removing m ?G (?A \<union> freed ?S rep ?q ?G) b'"
    using remove_ok [OF ok, of ?A b ?n] unfolding mf gm by blast
  note re' = re [unfolded removing_def mf if_True]
  from re' have sc: "sq_color b' = without ?G (sq_color b)" by (elim conjE)
  from re' have cor: "core b' = core b" by (elim conjE)
  from re' have li': "linked ?S rep rk (reference b')" by (elim conjE)
  from re' have le': "ledges_ok ?S rep {?q} (?A \<union> freed ?S rep ?q ?G) (ledges b')" by (elim conjE)
  from re' have em': "emptyset_ok (insert p (free b) \<union> ?G) (empties b') (empty_pos b')" by (elim conjE)
  from re' have zh: "zhash b' = zobrist_of (zobrist_strings b') (without ?G (sq_color b))" by (elim conjE)
  from re' have alive: "\<forall>n < squares. (sq_color b' n \<noteq> EMPTY \<and> removestamp b' n \<noteq> TIMESTAMP b') \<longleftrightarrow> n \<in> ?S - ?G" by (elim conjE)
  from re' have rs': "\<forall>n. removestamp b' n \<le> TIMESTAMP b'" by (elim conjE)
  note cf = core_facts [OF cor]
  have S': "stones b' = {x \<in> ?S. rep x \<noteq> ?q}" unfolding stones_def sc by (auto simp: without_def stones_def)
  have F': "free b' = free b \<union> ?G" unfolding free_def sc by (auto simp: without_def stones_def)
  have E': "sq_color b' n = EMPTY \<longleftrightarrow> sq_color b n = EMPTY \<or> n \<in> ?G" for n unfolding sc without_def by auto
  have nb: "\<And>x n. x \<in> ?S \<Longrightarrow> n \<in> set (set_neighbours x) \<Longrightarrow> n < squares \<and> x \<in> set (set_neighbours n)"
    using neighbours_facts(5,6) by (auto simp: stones_def)
  have drop: "y \<notin> set (drop (Suc k) (set_neighbours p))" if "y \<in> ?G" for y
  proof
    assume y: "y \<in> set (drop (Suc k) (set_neighbours p))"
    then have "y \<in> set (set_neighbours p)" by (rule in_set_dropD)
    then have "(y, p) \<in> ?A" using that y pG N(6) by (auto simp: counted_def)
    then show False using none [of "(y, p)"] that by simp
  qed
  have A': "counted p (Suc k) b' = {a \<in> ?A \<union> freed ?S rep ?q ?G. rep (fst a) \<noteq> ?q}"
  proof (rule set_eqI)
    fix a :: "nat \<times> nat" obtain x n where a: "a = (x, n)" by (cases a)
    show "a \<in> counted p (Suc k) b' \<longleftrightarrow> a \<in> {a \<in> ?A \<union> freed ?S rep ?q ?G. rep (fst a) \<noteq> ?q}"
    proof (cases "x = p")
      case True
      have "n \<in> set (take (Suc k) (set_neighbours p))" if "n \<in> ?G" "n \<in> set (set_neighbours p)"
        using drop [OF that(1)] that(2) td(1,2,5) by auto
      moreover have "p \<in> ?S" using p by (simp add: stones_def)
      moreover have "n \<in> ?G \<Longrightarrow> n \<in> set (set_neighbours p) \<longleftrightarrow> p \<in> set (set_neighbours n)"
        using nb \<open>p \<in> ?S\<close> by blast
      ultimately show ?thesis unfolding a using True p(4) qp E' [of n]
        by (auto simp: counted_def freed_def dest: in_set_takeD)
    next
      case False
      have "n \<in> ?G \<Longrightarrow> x \<in> ?S \<Longrightarrow> n \<in> set (set_neighbours x) \<longleftrightarrow> x \<in> set (set_neighbours n)" using nb by blast
      then show ?thesis unfolding a using False E' [of n] S' pG
        by (auto simp: counted_def freed_def)
    qed
  qed
  have "groups_ok b' rep rk (counted p (Suc k) b')"
    unfolding groups_ok_def
  proof (intro conjI ballI)
    show "linked (stones b') rep rk (reference b')" unfolding S' by (rule linked_subset [OF li'])
    fix x assume x: "x \<in> stones b'"
    have "rep x \<in> stones b'" using x linked_rep [OF li] unfolding S' by auto
    then have "sq_color b' (rep x) = sq_color b (rep x)" "sq_color b' x = sq_color b x"
      using x unfolding S' sc by (auto simp: without_def)
    then show "sq_color b' (rep x) = sq_color b' x" using col x unfolding S' by simp
    have "{y \<in> stones b'. rep y = rep x} = {y \<in> ?S. rep y = rep x}" using x unfolding S' by auto
    then show "connected {y \<in> stones b'. rep y = rep x}" using con x unfolding S' by simp
  next
    have "{a \<in> counted p (Suc k) b'. rep (fst a) = r} = {a \<in> ?A \<union> freed ?S rep ?q ?G. rep (fst a) = r}" if "r \<noteq> ?q" for r
      unfolding A' using that by auto
    then show "ledges_ok (stones b') rep {} (counted p (Suc k) b') (ledges b')"
      using le' unfolding ledges_ok_def S' by auto
  qed
  moreover have "merged b' rep (seen p (Suc k))"
    using inv unfolding moving_def merged_def S' sc by (auto simp: without_def)
  moreover have "position_ok b'"
    using po rs' zh cf(1-4) unfolding position_ok_def stamps_ok_def sc by (auto simp: without_def)
  moreover have "\<forall>x \<in> stones b'. removestamp b' x \<noteq> TIMESTAMP b'" using alive unfolding S' by (auto simp: stones_def)
  moreover have "sq_color b' p = c" unfolding sc without_def using pG p(2) by (simp only: if_False)
  moreover have "\<forall>x \<in> stones b'. x \<noteq> p \<longrightarrow> 0 < rk x" using inv unfolding moving_def S' by simp
  moreover have "emptyset_ok (insert p (free b')) (empties b') (empty_pos b')" using em' unfolding F' by simp
  ultimately have "moving p c (Suc k) rep rk b'" using inv unfolding moving_def by simp
  moreover have "\<forall>n \<in> set (set_neighbours x). sq_color b n \<noteq> EMPTY" if x: "x \<in> ?S" "rep x = ?q" for x
  proof (intro ballI notI)
    fix n assume "n \<in> set (set_neighbours x)" "sq_color b n = EMPTY"
    then have "(x, n) \<in> ?A" using x pG by (auto simp: counted_def)
    then show False using none x(2) by fastforce
  qed
  moreover have "ledges b r \<le> ledges b' r" if r: "r \<in> stones b'" "rep r = r" for r
  proof -
    have "finite (?A \<union> freed ?S rep ?q ?G)" using le' by (simp add: ledges_ok_def)
    then have "card {a \<in> ?A. rep (fst a) = r} \<le> card {a \<in> ?A \<union> freed ?S rep ?q ?G. rep (fst a) = r}"
      by (intro card_mono) auto
    then show ?thesis using le le' r unfolding ledges_ok_def S' by simp
  qed
  ultimately show ?thesis using b' cor sc by blast
qed

section \<open>A whole move\<close>

text \<open>
  What becomes of the stones of \<open>b0\<close>: those of colour \<open>c\<close> stay, of the others whole groups go, and
  only such as have no liberty left and are next to \<open>p\<close>; no group is left without a liberty, but for
  that of \<open>p\<close>, if there was none before (\<open>live\<close>).
\<close>

definition track :: "bool \<Rightarrow> nat \<Rightarrow> nat \<Rightarrow> (nat \<Rightarrow> nat) \<Rightarrow> board \<Rightarrow> (nat \<Rightarrow> nat) \<Rightarrow> board \<Rightarrow> bool" where
  "track live p c rep0 b0 rep b \<longleftrightarrow> core b = core b0 \<and>
     (\<forall>x. sq_color b x \<noteq> EMPTY \<longrightarrow> sq_color b x = sq_color b0 x) \<and> (\<forall>x. sq_color b0 x = c \<longrightarrow> sq_color b x = c) \<and>
     (\<forall>x \<in> stones b. sq_color b x \<noteq> c \<longrightarrow> rep x = rep0 x) \<and>
     (\<forall>x \<in> stones b. \<forall>y \<in> stones b0. sq_color b0 x \<noteq> c \<longrightarrow> rep0 y = rep0 x \<longrightarrow> y \<in> stones b) \<and>
     (\<forall>x \<in> stones b0 - stones b. (\<forall>n \<in> set (set_neighbours x). sq_color b0 n \<noteq> EMPTY) \<and>
        (\<exists>n \<in> set (set_neighbours p). n \<in> stones b0 \<and> rep0 n = rep0 x)) \<and>
     (live \<longrightarrow> (\<forall>r \<in> stones b. rep r = r \<longrightarrow> r \<noteq> p \<longrightarrow> ledges b r \<noteq> 0))"

lemma track_same:
  assumes "track live p c rep0 b0 rep b" and "core b' = core b" and "sq_color b' = sq_color b"
    and "\<And>x. x \<in> stones b \<Longrightarrow> sq_color b x \<noteq> c \<Longrightarrow> rep' x = rep x"
    and "\<And>r. live \<Longrightarrow> r \<in> stones b \<Longrightarrow> rep' r = r \<Longrightarrow> r \<noteq> p \<Longrightarrow> ledges b' r \<noteq> 0"
  shows "track live p c rep0 b0 rep' b'"
proof -
  have S: "stones b' = stones b" using assms(3) by (simp add: stones_def)
  note tr = assms(1) [unfolded track_def]
  show ?thesis
    unfolding track_def S assms(2,3)
  proof (intro conjI)
    show "\<forall>x \<in> stones b. sq_color b x \<noteq> c \<longrightarrow> rep' x = rep0 x" using tr assms(4) by metis
    show "live \<longrightarrow> (\<forall>r \<in> stones b. rep' r = r \<longrightarrow> r \<noteq> p \<longrightarrow> ledges b' r \<noteq> 0)" using assms(5) by blast
  qed (insert tr, (elim conjE, assumption)+)
qed

lemma track_capture:
  assumes tr: "track live p c rep0 b0 rep b" and col: "\<forall>x \<in> stones b0. sq_color b0 (rep0 x) = sq_color b0 x"
    and colb: "\<forall>x \<in> stones b. sq_color b (rep x) = sq_color b x"
    and n: "n \<in> set (set_neighbours p)" "n \<in> stones b" "sq_color b n \<noteq> c" and cor: "core b' = core b"
    and sc: "sq_color b' = without {y \<in> stones b. rep y = rep n} (sq_color b)"
    and dead: "\<forall>x \<in> stones b. rep x = rep n \<longrightarrow> (\<forall>n \<in> set (set_neighbours x). sq_color b n \<noteq> EMPTY)"
    and led: "\<And>r. live \<Longrightarrow> r \<in> stones b' \<Longrightarrow> rep r = r \<Longrightarrow> r \<noteq> p \<Longrightarrow> ledges b' r \<noteq> 0"
  shows "track live p c rep0 b0 rep b'"
proof -
  have t1: "\<And>x. sq_color b x \<noteq> EMPTY \<Longrightarrow> sq_color b x = sq_color b0 x" and t2: "\<And>x. sq_color b0 x = c \<Longrightarrow> sq_color b x = c"
    and t3: "\<And>x. x \<in> stones b \<Longrightarrow> sq_color b x \<noteq> c \<Longrightarrow> rep x = rep0 x"
    and t4: "\<And>x y. x \<in> stones b \<Longrightarrow> y \<in> stones b0 \<Longrightarrow> sq_color b0 x \<noteq> c \<Longrightarrow> rep0 y = rep0 x \<Longrightarrow> y \<in> stones b"
    and t5: "\<And>x. x \<in> stones b0 - stones b \<Longrightarrow> (\<forall>n \<in> set (set_neighbours x). sq_color b0 n \<noteq> EMPTY) \<and>
        (\<exists>n \<in> set (set_neighbours p). n \<in> stones b0 \<and> rep0 n = rep0 x)"
    using tr unfolding track_def by blast+
  have S': "stones b' = {x \<in> stones b. rep x \<noteq> rep n}" unfolding stones_def sc without_def by auto
  have sub: "x \<in> stones b0" "sq_color b0 x = sq_color b x" if "x \<in> stones b" for x using that t1 [of x] by (auto simp: stones_def)
  have enemy: "sq_color b x \<noteq> c" if "x \<in> stones b" "rep x = rep n" for x using colb that n(2,3) by metis
  show ?thesis
    unfolding track_def
  proof (intro conjI allI impI ballI)
    show "core b' = core b0" using cor tr by (simp add: track_def)
  next
    fix x assume "sq_color b' x \<noteq> EMPTY"
    then show "sq_color b' x = sq_color b0 x" using t1 [of x] unfolding sc without_def by (auto split: if_splits)
  next
    fix x assume "sq_color b0 x = c"
    then have "sq_color b x = c" by (rule t2)
    then show "sq_color b' x = c" using enemy [of x] unfolding sc without_def by auto
  next
    fix x assume x: "x \<in> stones b'" "sq_color b' x \<noteq> c"
    then show "rep x = rep0 x" using t3 [of x] unfolding S' sc without_def by (auto split: if_splits)
  next
    fix x y assume xy: "x \<in> stones b'" "y \<in> stones b0" "sq_color b0 x \<noteq> c" "rep0 y = rep0 x"
    then have x: "x \<in> stones b" "rep x \<noteq> rep n" unfolding S' by simp_all
    have y: "y \<in> stones b" using t4 [OF x(1) xy(2,3,4)] .
    have "sq_color b0 y = sq_color b0 x" using col xy(2,4) sub(1) [OF x(1)] by metis
    then have "rep y = rep0 y" "rep x = rep0 x" using t3 x(1) y xy(3) sub(2) by metis+
    then show "y \<in> stones b'" using y x xy(4) unfolding S' by simp
  next
    fix x m assume x: "x \<in> stones b0 - stones b'" and m: "m \<in> set (set_neighbours x)"
    show "sq_color b0 m \<noteq> EMPTY"
    proof (cases "x \<in> stones b")
      case True
      then have "sq_color b m \<noteq> EMPTY" using dead x m unfolding S' by auto
      then show ?thesis using t1 [of m] by simp
    qed (use t5 x m in blast)
  next
    fix x assume x: "x \<in> stones b0 - stones b'"
    show "\<exists>n \<in> set (set_neighbours p). n \<in> stones b0 \<and> rep0 n = rep0 x"
    proof (cases "x \<in> stones b")
      case True
      then have r: "rep x = rep n" using x unfolding S' by simp
      have "rep x = rep0 x" "rep n = rep0 n" using t3 True enemy [OF True r] n by blast+
      then show ?thesis using r n sub(1) by metis
    qed (use t5 x in blast)
  qed (use led in blast)
qed

lemma moving_step:
  assumes inv: "moving p c k rep rk b" and k: "k < length (set_neighbours p)"
    and tr: "track live p c rep0 b0 rep b" and col: "\<forall>x \<in> stones b0. sq_color b0 (rep0 x) = sq_color b0 x"
  shows "\<exists>rep' b'. move_neighbour p c (set_neighbours p ! k) b = Inr b' \<and> moving p c (Suc k) rep' rk b' \<and> track live p c rep0 b0 rep' b'"
proof (cases "sq_color b (set_neighbours p ! k) = EMPTY")
  case True
  have "track live p c rep0 b0 rep (add_ledges p 1 b)"
    using tr by (rule track_same) (use tr in \<open>auto simp: add_ledges_def track_def\<close>)
  then show ?thesis using True moving_empty [OF inv k] by (auto simp: move_neighbour_def)
next
  case False
  let ?n = "set_neighbours p ! k"
  have p: "p < squares" using inv by (simp add: moving_def)
  have s: "?n \<in> stones b" using False neighbours_facts(5) [OF p] k by (simp add: stones_def)
  obtain r where f: "find True ?n b = Inr (rep ?n, b\<lparr>reference := r\<rparr>)" and inv': "moving p c k rep rk (b\<lparr>reference := r\<rparr>)"
    using moving_find [OF inv s] by blast
  let ?b = "b\<lparr>reference := r\<rparr>"
  have tr': "track live p c rep0 b0 rep ?b"
    using tr by (rule track_same) (use tr in \<open>auto simp: track_def\<close>)
  have t6: "ledges ?b s \<noteq> 0" if live "s \<in> stones ?b" "rep s = s" "s \<noteq> p" for s using tr' that by (simp add: track_def)
  have s': "?n \<in> stones ?b" using s by simp
  have li: "linked (stones ?b) rep rk (reference ?b)" and colb: "\<forall>x \<in> stones ?b. sq_color ?b (rep x) = sq_color ?b x"
    using inv' by (simp_all add: moving_def groups_ok_def)
  have ref: "r (rep ?n) = Some (rep ?n)" using linked_root [OF li s'] by simp
  show ?thesis
  proof (cases "sq_color b ?n = c")
    case same: True
    show ?thesis
    proof (cases "rep ?n = p")
      case True
      have "moving p c (Suc k) rep rk (add_ledges p (-1) ?b)" using moving_same [OF inv' k s' True] .
      moreover have "track live p c rep0 b0 rep (add_ledges p (-1) ?b)"
        using tr' by (rule track_same) (use t6 in \<open>auto simp: add_ledges_def\<close>)
      ultimately show ?thesis using False same f ref True by (auto simp: move_neighbour_def add_ledges_def)
    next
      case other: False
      let ?b2 = "add_ledges p (-1) ((add_ledges p (ledges ?b (rep ?n)) ?b)\<lparr>reference := (reference ?b)(rep ?n := Some p)\<rparr>)"
        and ?rep = "\<lambda>s. if rep s = rep ?n then p else rep s"
      have "moving p c (Suc k) ?rep rk ?b2"
        using same by (intro moving_join [OF inv' k s' refl other]) simp
      moreover have "track live p c rep0 b0 ?rep ?b2"
        using tr'
      proof (rule track_same)
        fix x assume x: "x \<in> stones ?b" "sq_color ?b x \<noteq> c"
        then have "rep x \<noteq> rep ?n" using bspec [OF colb x(1)] bspec [OF colb s'] same by auto
        then show "?rep x = rep x" by simp
      qed (use t6 in \<open>auto simp: add_ledges_def split: if_splits\<close>)
      ultimately show ?thesis using False same f ref other by (auto simp: move_neighbour_def add_ledges_def)
    qed
  next
    case enemy: False
    let ?b2 = "add_ledges (rep ?n) (-1) ?b"
    have m2: "moving p c (Suc k) rep rk ?b2" using enemy by (intro moving_enemy [OF inv' k s']) simp
    have l2: "ledges ?b2 s \<noteq> 0" if live "s \<in> stones ?b" "rep s = s" "s \<noteq> p" "s \<noteq> rep ?n" for s
      using t6 [OF that(1-4)] that(5) by (simp add: add_ledges_def)
    show ?thesis
    proof (cases "ledges ?b2 (rep ?n) = 0")
      case True
      have n2: "?n \<in> stones ?b2" "sq_color ?b2 ?n \<noteq> c" using enemy s by (simp, simp add: add_ledges_def)
      from moving_capture [OF m2 k n2 True] obtain b' where b': "remove (rep ?n) True ?n ?b2 = Inr b'" "moving p c (Suc k) rep rk b'"
        "core b' = core ?b2" "sq_color b' = without {y \<in> stones ?b2. rep y = rep ?n} (sq_color ?b2)"
        "\<forall>x \<in> stones ?b2. rep x = rep ?n \<longrightarrow> (\<forall>n \<in> set (set_neighbours x). sq_color ?b2 n \<noteq> EMPTY)"
        "\<forall>r \<in> stones b'. rep r = r \<longrightarrow> ledges ?b2 r \<le> ledges b' r" by blast
      have S2: "stones ?b2 = stones ?b" "sq_color ?b2 = sq_color ?b" by (simp, simp add: add_ledges_def)
      have "track live p c rep0 b0 rep b'"
      proof (rule track_capture [where n = ?n, OF tr' col colb _ s'])
        fix s assume live: live and s: "s \<in> stones b'" "rep s = s" "s \<noteq> p"
        have "s \<in> stones ?b" "s \<noteq> rep ?n" using s(1,2) unfolding stones_def b'(4) S2 without_def by (auto simp: stones_def split: if_splits)
        moreover have "0 \<le> ledges ?b2 s" using m2 \<open>s \<in> stones ?b\<close> s(2) unfolding moving_def groups_ok_def ledges_ok_def S2 by simp
        moreover have "ledges ?b2 s \<le> ledges b' s" using b'(6) s(1,2) by blast
        ultimately show "ledges b' s \<noteq> 0" using l2 [OF live _ s(2,3)] by force
      qed (use b' k enemy S2 in \<open>simp_all add: add_ledges_def\<close>)
      moreover have "move_neighbour p c ?n b = Inr b'" using False enemy f True b'(1) by (simp add: move_neighbour_def Let_def)
      ultimately show ?thesis using b'(2) by auto
    next
      case no: False
      then have "move_neighbour p c ?n b = Inr ?b2" using False enemy f by (simp add: move_neighbour_def Let_def)
      moreover have "track live p c rep0 b0 rep ?b2"
        using tr' by (rule track_same) (use l2 no in \<open>auto simp: add_ledges_def\<close>)
      ultimately show ?thesis using m2 by auto
    qed
  qed
qed

text \<open>Putting the stone down.\<close>

definition put_stone :: "nat \<Rightarrow> nat \<Rightarrow> board \<Rightarrow> board" where
  "put_stone p c b =
     (let b = zobrist_update p c (b\<lparr>TIMESTAMP := TIMESTAMP b + 1, MOVES := MOVES b + 1\<rparr>)
      in b\<lparr>sq_color := (sq_color b)(p := c), reference := (reference b)(p := Some p),
           ledges := (ledges b)(p := 0), used := (used b)(p := True)\<rparr>)"

lemma put_stone_moving:
  assumes inv: "board_inv b rep rk" and p: "p \<in> free b" and c': "c \<in> {WHITE, BLACK}"
  shows "moving p c 0 (rep(p := p)) ((\<lambda>q. rk q + 1)(p := 0)) (put_stone p c b)"
proof -
  let ?b = "put_stone p c b" and ?rep = "rep(p := p)" and ?rk = "(\<lambda>q. rk q + 1)(p := 0)"
  have c: "c \<noteq> EMPTY" using c' by auto
  have g: "groups_ok b rep rk (liberties b)" and me: "merged b rep (\<lambda>x y. True)" and po: "position_ok b"
    and em: "emptyset_ok (free b) (empties b) (empty_pos b)" using inv by (simp_all add: board_inv_def)
  have pb: "p < squares" "sq_color b p = EMPTY" "p \<notin> stones b" using p by (simp_all add: free_def stones_def)
  have f: "sq_color ?b = (sq_color b)(p := c)" "reference ?b = (reference b)(p := Some p)" "ledges ?b = (ledges b)(p := 0)"
    "removestamp ?b = removestamp b" "timestamp ?b = timestamp b" "TIMESTAMP ?b = TIMESTAMP b + 1" "empties ?b = empties b"
    "empty_pos ?b = empty_pos b" "neighbours ?b = neighbours b" "zobrist_strings ?b = zobrist_strings b"
    "zhash ?b = zhash b XOR zobrist_strings b p ! sq_color b p XOR zobrist_strings b p ! c"
    by (simp_all add: put_stone_def zobrist_update_def Let_def)
  have S: "stones ?b = insert p (stones b)" using pb c by (auto simp: stones_def f)
  have F: "insert p (free ?b) = free b" using pb c by (auto simp: free_def f)
  have nb: "\<And>x n. x \<in> stones b \<Longrightarrow> n \<in> set (set_neighbours x) \<Longrightarrow> n < squares \<and> x \<in> set (set_neighbours n)"
    using neighbours_facts(5,6) by (auto simp: stones_def)
  have A: "counted p 0 ?b = liberties b"
    using pb nb c by (auto simp: counted_def liberties_def S f)
  have li: "linked (stones b) rep rk (reference b)" and le: "ledges_ok (stones b) rep {} (liberties b) (ledges b)"
    and col: "\<forall>x \<in> stones b. sq_color b (rep x) = sq_color b x" and con: "\<forall>x \<in> stones b. connected {y \<in> stones b. rep y = rep x}"
    using g by (simp_all add: groups_ok_def)
  have rp: "rep x \<noteq> p" "x \<noteq> p" if "x \<in> stones b" for x using linked_rep [OF li that] pb(3) that by auto
  have "groups_ok ?b ?rep ?rk (counted p 0 ?b)"
    unfolding groups_ok_def A S f
  proof (intro conjI ballI)
    show "linked (insert p (stones b)) ?rep ?rk ((reference b)(p \<mapsto> p))" by (rule linked_insert [OF li pb(3)])
    fix x assume x: "x \<in> insert p (stones b)"
    show "((sq_color b)(p := c)) (?rep x) = ((sq_color b)(p := c)) x" using x rp col by auto
    show "connected {y \<in> insert p (stones b). ?rep y = ?rep x}"
    proof (cases "x = p")
      case True
      then have "{y \<in> insert p (stones b). ?rep y = ?rep x} = {p}" using rp by auto
      then show ?thesis by (simp add: connected_single)
    next
      case False
      then have "{y \<in> insert p (stones b). ?rep y = ?rep x} = {y \<in> stones b. rep y = rep x}" using x rp pb(3) by auto
      then show ?thesis using con x False by simp
    qed
  next
    have lib: "fst a \<in> stones b" if "a \<in> liberties b" for a using that by (auto simp: liberties_def)
    have "{a \<in> liberties b. ?rep (fst a) = p} = {}" using lib rp by auto
    moreover have "{a \<in> liberties b. ?rep (fst a) = r} = {a \<in> liberties b. rep (fst a) = r}" 
      if "r \<noteq> p" for r using that lib rp by auto
    ultimately show "ledges_ok (insert p (stones b)) ?rep {} (liberties b) ((ledges b)(p := 0))"
      using le rp unfolding ledges_ok_def by (auto simp: card_eq_0_iff)
  qed
  moreover have "merged ?b ?rep (seen p 0)"
    using me rp unfolding merged_def S f seen_def by auto
  moreover have "position_ok ?b"
    using po c' unfolding position_ok_def stamps_ok_def f zobrist_change [OF pb(1)] by (auto intro: le_SucI)
  moreover have "\<forall>x. removestamp b x < TIMESTAMP b + 1" using po by (auto simp: position_ok_def stamps_ok_def less_Suc_eq_le)
  then have "\<forall>x \<in> stones ?b. removestamp ?b x \<noteq> TIMESTAMP ?b" unfolding f by (metis less_irrefl)
  moreover have "emptyset_ok (insert p (free ?b)) (empties ?b) (empty_pos ?b)" unfolding F using em by (simp add: f)
  ultimately show ?thesis unfolding moving_def using pb c by (simp add: f)
qed

lemma square_move_unfold:
  "square_move p c b = rbind (for_each (neighbours (put_stone p c b) p) (move_neighbour p c) (put_stone p c b)) (\<lambda>b. Inr (zobrist_add b))"
  by (simp add: square_move_def put_stone_def Let_def)

lemma square_move_ok:
  assumes inv: "board_inv b rep rk" and p: "p \<in> free b" and c': "c \<in> {WHITE, BLACK}"
    and live: "live \<Longrightarrow> \<forall>r \<in> stones b. rep r = r \<longrightarrow> ledges b r \<noteq> 0"
  shows "\<exists>rep' rk' b'. square_move p c b = Inr (zobrist_add b') \<and> moving p c (length (set_neighbours p)) rep' rk' b' \<and>
    track live p c (rep(p := p)) (put_stone p c b) rep' b'"
proof -
  let ?b = "put_stone p c b" and ?N = "set_neighbours p" and ?rep = "rep(p := p)" and ?rk = "(\<lambda>q. rk q + 1)(p := 0)"
  have c: "c \<noteq> EMPTY" using c' by auto
  define I where "I k b' \<longleftrightarrow> (\<exists>rep'. moving p c k rep' ?rk b' \<and> track live p c ?rep ?b rep' b')" for k b'
  have start: "moving p c 0 ?rep ?rk ?b" using put_stone_moving [OF inv p c'] .
  then have col: "\<forall>x \<in> stones ?b. sq_color ?b (?rep x) = sq_color ?b x" by (simp add: moving_def groups_ok_def)
  have f: "sq_color ?b = (sq_color b)(p := c)" "ledges ?b = (ledges b)(p := 0)" "neighbours ?b = neighbours b"
    by (simp_all add: put_stone_def zobrist_update_def Let_def)
  have "\<exists>b'. for_each ?N (move_neighbour p c) ?b = Inr b' \<and> I (length ?N) b'"
  proof (rule for_each_count)
    have "r \<in> stones b" if "r \<in> stones ?b" "r \<noteq> p" for r using that by (simp add: stones_def f)
    then have "track live p c ?rep ?b ?rep ?b" using live c unfolding track_def by (auto simp: f)
    then show "I 0 ?b" unfolding I_def using start by blast
  next
    fix k u assume k: "k < length ?N" and "I k u"
    then obtain rep' where "moving p c k rep' ?rk u" "track live p c ?rep ?b rep' u" unfolding I_def by blast
    from moving_step [OF this(1) k this(2) col] show "\<exists>u'. move_neighbour p c (?N ! k) u = Inr u' \<and> I (Suc k) u'"
      unfolding I_def by blast
  qed
  then obtain b' where b': "for_each ?N (move_neighbour p c) ?b = Inr b'" "I (length ?N) b'" by blast
  have "neighbours ?b = set_neighbours" using inv by (simp add: f board_inv_def position_ok_def)
  then have "square_move p c b = Inr (zobrist_add b')" unfolding square_move_unfold using b'(1) by simp
  then show ?thesis using b'(2) unfolding I_def by blast
qed

text \<open>After the last neighbour the new stone is like the others.\<close>

lemma moving_finished:
  assumes "moving p c (length (set_neighbours p)) rep rk b"
  shows "groups_ok b rep rk (liberties b)" "merged b rep (\<lambda>x y. True)"
proof -
  have p: "p < squares" "p \<in> stones b" using assms by (auto simp: moving_def stones_def)
  have "counted p (length (set_neighbours p)) b = liberties b" using p by (auto simp: counted_def liberties_def)
  then show "groups_ok b rep rk (liberties b)" using assms by (simp add: moving_def)
  show "merged b rep (\<lambda>x y. True)"
    unfolding merged_def
  proof (intro ballI impI)
    fix x y assume xy: "x \<in> stones b" "y \<in> stones b" "y \<in> set (set_neighbours x)" "sq_color b x = sq_color b y"
    have "x \<in> set (set_neighbours y)" using neighbours_facts(6) [OF _ xy(3)] xy(1) by (simp add: stones_def)
    then have "seen p (length (set_neighbours p)) x y" using xy(3) by (auto simp: seen_def)
    moreover have "merged b rep (seen p (length (set_neighbours p)))" using assms by (simp add: moving_def)
    ultimately show "rep x = rep y" using xy unfolding merged_def by blast
  qed
qed

text \<open>The fields that groups, liberties and the position do not look at.\<close>

definition relevant :: "board \<Rightarrow> board" where
  "relevant b = b\<lparr>temp_ledges := (\<lambda>s. 0), used := (\<lambda>s. False), empties := [], empty_pos := [], hash_set := {}, finished := False,
     color := 0, lastmove := 0, history := [], white_dead := 0, black_dead := 0, MOVES := 0, calls := 0\<rparr>"

lemma relevant_facts:
  assumes "relevant b = relevant b'"
  shows "stones b = stones b'" "free b = free b'" "liberties b = liberties b'" "groups_ok b rep rk A \<longleftrightarrow> groups_ok b' rep rk A"
    "merged b rep sn \<longleftrightarrow> merged b' rep sn" "position_ok b \<longleftrightarrow> position_ok b'"
proof -
  have "sq_color b = sq_color b'" "reference b = reference b'" "ledges b = ledges b'" "neighbours b = neighbours b'"
    "removestamp b = removestamp b'" "timestamp b = timestamp b'" "TIMESTAMP b = TIMESTAMP b'" "zhash b = zhash b'"
    "zobrist_strings b = zobrist_strings b'"
    using assms by (cases b, cases b', simp add: relevant_def)+
  then show "stones b = stones b'" "free b = free b'" "liberties b = liberties b'" "groups_ok b rep rk A \<longleftrightarrow> groups_ok b' rep rk A"
    "merged b rep sn \<longleftrightarrow> merged b' rep sn" "position_ok b \<longleftrightarrow> position_ok b'"
    by (simp_all add: stones_def free_def liberties_def groups_ok_def merged_def position_ok_def stamps_ok_def)
qed

text \<open>A pass or a move on an empty square.\<close>

definition legal :: "int \<Rightarrow> board \<Rightarrow> bool" where
  "legal pos b \<longleftrightarrow> pos = PASS \<or> 0 \<le> pos \<and> nat pos \<in> free b"

lemma board_move_ok:
  assumes inv: "board_inv b rep rk" and pos: "legal pos b"
  shows "\<exists>b' rep' rk'. board_move pos b = Inr b' \<and> board_inv b' rep' rk'"
proof (cases "pos = PASS")
  case True
  let ?b = "(if lastmove b = PASS then b\<lparr>finished := True\<rparr> else b)
    \<lparr>color := (if color b = BLACK then WHITE else BLACK), lastmove := pos, history := history b @ [pos]\<rparr>"
  have "board_move pos b = Inr ?b"
    using True by (simp add: board_move_def PASS_def py_get_def py_index_def Let_def squares_81)
  moreover have "relevant ?b = relevant b" by (simp add: relevant_def)
  note f = relevant_facts [OF this]
  have "board_inv ?b rep rk"
    using inv unfolding board_inv_def f by simp
  ultimately show ?thesis by blast
next
  case False
  then have pos': "0 \<le> pos" "nat pos \<in> free b" using pos by (simp_all add: legal_def)
  let ?p = "nat pos"
  have p: "?p < squares" "py_get [0..<squares] pos = Inr ?p"
    using pos' by (auto simp: free_def py_get_def py_index_def Let_def zless_nat_conj nat_less_iff)
  have c: "color b \<in> {WHITE, BLACK}" "color b \<noteq> EMPTY" using inv by (auto simp: board_inv_def)
  obtain rep' rk' b1 where b1: "square_move ?p (color b) b = Inr (zobrist_add b1)" "moving ?p (color b) (length (set_neighbours ?p)) rep' rk' b1"
    using square_move_ok [OF inv pos'(2) c(1), of False] by blast
  let ?b2 = "zobrist_add b1"
  have em: "emptyset_ok (insert ?p (free b1)) (empties ?b2) (empty_pos ?b2)" using b1(2) by (simp add: moving_def zobrist_add_def)
  obtain es ep where r: "emptyset_remove ?p ?b2 = Inr (?b2\<lparr>empties := es, empty_pos := ep\<rparr>)" "emptyset_ok (insert ?p (free b1) - {?p}) es ep"
    using emptyset_remove_ok [OF em] by blast
  have "?p \<notin> free b1" using b1(2) by (auto simp: moving_def free_def)
  then have em': "emptyset_ok (free b1) es ep" using r(2) by simp
  let ?b3 = "?b2\<lparr>empties := es, empty_pos := ep, color := (if color ?b2 = BLACK then WHITE else BLACK), lastmove := pos, history := history ?b2 @ [pos]\<rparr>"
  have "board_move pos b = Inr ?b3" using p(2) False b1(1) r(1) by (simp add: board_move_def)
  moreover have "relevant ?b3 = relevant b1" by (simp add: relevant_def zobrist_add_def)
  note f = relevant_facts [OF this]
  have "board_inv ?b3 rep' rk'"
    using moving_finished [OF b1(2)] b1(2) em' unfolding board_inv_def f by (simp add: moving_def)
  ultimately show ?thesis by blast
qed

section \<open>A new board\<close>

lemma reset_ok:
  assumes "neighbours b = set_neighbours" and "stamps_ok b"
  shows "board_inv (board_reset b) rep rk"
proof -
  have f: "sq_color (board_reset b) = (\<lambda>s. EMPTY)" "empties (board_reset b) = [0..<squares]" "empty_pos (board_reset b) = [0..<squares]"
    "neighbours (board_reset b) = neighbours b" "zobrist_strings (board_reset b) = zobrist_strings b" "color (board_reset b) = BLACK"
    "removestamp (board_reset b) = removestamp b" "timestamp (board_reset b) = timestamp b" "TIMESTAMP (board_reset b) = TIMESTAMP b"
    "zhash (board_reset b) = fold (\<lambda>square h. h XOR zobrist_strings b square ! EMPTY) [0..<squares] 0"
    by (simp_all add: board_reset_def ZobristHash_def EmptySet_def Let_def)
  have "stones (board_reset b) = {}" "liberties (board_reset b) = {}" "free (board_reset b) = {..<squares}"
    by (auto simp: stones_def liberties_def free_def f)
  moreover have "zhash (board_reset b) = zobrist_of (zobrist_strings (board_reset b)) (sq_color (board_reset b))"
    unfolding f zobrist_of_def ..
  ultimately show ?thesis
    using assms unfolding board_inv_def groups_ok_def merged_def position_ok_def
    by (auto simp: linked_def ledges_ok_def emptyset_ok_def stamps_ok_def f)
qed

lemma Board_ok: "board_inv (Board rand ts mv k) rep rk"
  unfolding Board_def by (rule reset_ok) (simp_all add: stamps_ok_def)

lemma board_inv_reset: "board_inv b rep rk \<Longrightarrow> board_inv (board_reset b) rep' rk'"
  by (rule reset_ok) (simp_all add: board_inv_def position_ok_def)

end
