(* ===== verification/GoUseful.thy ===== *)
theory GoUseful
  imports GoMove
begin

text \<open>
  What \<open>useful\<close> finds out: it changes nothing of the position, and what it counts is what the move
  would do. A useful move leaves no group without a liberty and repeats no position.
\<close>

unbundle bit_operations_syntax

section \<open>The groups next to a square\<close>

definition neighbour_groups :: "board \<Rightarrow> (nat \<Rightarrow> nat) \<Rightarrow> nat \<Rightarrow> nat set" where
  "neighbour_groups b rep p = rep ` (set (set_neighbours p) \<inter> stones b)"

text \<open>A group whose only liberty is \<open>p\<close>.\<close>

definition weak :: "board \<Rightarrow> (nat \<Rightarrow> nat) \<Rightarrow> nat \<Rightarrow> nat \<Rightarrow> bool" where
  "weak b rep p r \<longleftrightarrow> (\<forall>(x, n) \<in> liberties b. rep x = r \<longrightarrow> n = p)"

definition captured :: "board \<Rightarrow> (nat \<Rightarrow> nat) \<Rightarrow> nat \<Rightarrow> nat set" where
  "captured b rep p = {x \<in> stones b. rep x \<in> neighbour_groups b rep p \<and> sq_color b x \<noteq> color b \<and> weak b rep p (rep x)}"

text \<open>The colours after the move.\<close>

definition after_move :: "board \<Rightarrow> (nat \<Rightarrow> nat) \<Rightarrow> nat \<Rightarrow> nat \<Rightarrow> nat" where
  "after_move b rep p = without (captured b rep p) ((sq_color b)(p := color b))"

definition worth :: "board \<Rightarrow> (nat \<Rightarrow> nat) \<Rightarrow> nat \<Rightarrow> bool" where
  "worth b rep p \<longleftrightarrow>
     \<not> used b p \<and> (\<exists>n \<in> set (set_neighbours p). sq_color b n = EMPTY) \<or>
     zobrist_of (zobrist_strings b) (after_move b rep p) \<notin> hash_set b \<and>
     ((\<exists>n \<in> set (set_neighbours p). sq_color b n = EMPTY) \<or>
      (\<exists>r \<in> neighbour_groups b rep p. sq_color b r \<noteq> color b \<and> weak b rep p r) \<or>
      (\<exists>r \<in> neighbour_groups b rep p. sq_color b r = color b \<and> \<not> weak b rep p r) \<and>
      (\<exists>r \<in> neighbour_groups b rep p. sq_color b r \<noteq> color b \<and> \<not> weak b rep p r \<or> sq_color b r = color b \<and> weak b rep p r))"

section \<open>Looking at the neighbours\<close>

text \<open>What \<open>useful\<close> does not change.\<close>

definition calm :: "board \<Rightarrow> board" where
  "calm b = b\<lparr>timestamp := (\<lambda>s. 0), temp_ledges := (\<lambda>s. 0), removestamp := (\<lambda>s. 0), zhash := 0\<rparr>"

lemma calm_updates [simp]:
  "calm (b\<lparr>timestamp := f\<rparr>) = calm b" "calm (b\<lparr>temp_ledges := g\<rparr>) = calm b" "calm (b\<lparr>removestamp := f\<rparr>) = calm b"
  "calm (b\<lparr>zhash := h\<rparr>) = calm b"
  by (simp_all add: calm_def)

lemma calm_facts:
  assumes "calm b = calm b'"
  shows "sq_color b = sq_color b'" "reference b = reference b'" "ledges b = ledges b'" "neighbours b = neighbours b'"
    "TIMESTAMP b = TIMESTAMP b'" "zobrist_strings b = zobrist_strings b'" "color b = color b'" "hash_set b = hash_set b'"
    "empties b = empties b'" "empty_pos b = empty_pos b'" "used b = used b'" "stones b = stones b'" "liberties b = liberties b'"
proof -
  show f: "sq_color b = sq_color b'" "reference b = reference b'" "ledges b = ledges b'" "neighbours b = neighbours b'"
    "TIMESTAMP b = TIMESTAMP b'" "zobrist_strings b = zobrist_strings b'" "color b = color b'" "hash_set b = hash_set b'"
    "empties b = empties b'" "empty_pos b = empty_pos b'" "used b = used b'"
    using assms by (cases b, cases b', simp add: calm_def)+
  then show "stones b = stones b'" "liberties b = liberties b'" by (simp_all add: stones_def liberties_def)
qed

text \<open>The stones of a group among the first \<open>k\<close> neighbours.\<close>

definition near :: "board \<Rightarrow> (nat \<Rightarrow> nat) \<Rightarrow> nat \<Rightarrow> nat \<Rightarrow> nat \<Rightarrow> nat set" where
  "near b rep p k r = {n \<in> set (take k (set_neighbours p)). n \<in> stones b \<and> rep n = r}"

definition touched :: "board \<Rightarrow> (nat \<Rightarrow> nat) \<Rightarrow> nat \<Rightarrow> nat \<Rightarrow> nat set" where
  "touched b rep p k = {r. near b rep p k r \<noteq> {}}"

definition gone :: "board \<Rightarrow> (nat \<Rightarrow> nat) \<Rightarrow> nat \<Rightarrow> nat \<Rightarrow> nat set" where
  "gone b rep p k = {r \<in> touched b rep p k. int (card (near b rep p k r)) = ledges b r}"

definition gone_stones :: "board \<Rightarrow> (nat \<Rightarrow> nat) \<Rightarrow> nat \<Rightarrow> nat \<Rightarrow> nat set" where
  "gone_stones b rep p k = {x \<in> stones b. rep x \<in> gone b rep p k \<and> sq_color b x \<noteq> color b}"

definition looking :: "nat \<Rightarrow> (nat \<Rightarrow> nat) \<Rightarrow> board \<Rightarrow> nat \<Rightarrow> tally \<times> board \<Rightarrow> bool" where
  "looking p rep b0 k = (\<lambda>(t, b). calm b = calm b0 \<and> stamps_ok b \<and>
     (\<forall>r. timestamp b r = TIMESTAMP b \<longleftrightarrow> r \<in> touched b0 rep p k) \<and>
     (\<forall>r \<in> touched b0 rep p k. temp_ledges b r = ledges b0 r - int (card (near b0 rep p k r))) \<and>
     t_empties t = int (card {n \<in> set (take k (set_neighbours p)). sq_color b0 n = EMPTY}) \<and>
     t_neighs t = int (card {r \<in> touched b0 rep p k. sq_color b0 r = color b0}) \<and>
     t_opps t = int (card {r \<in> touched b0 rep p k. sq_color b0 r \<noteq> color b0}) \<and>
     t_weak_neighs t = int (card {r \<in> gone b0 rep p k. sq_color b0 r = color b0}) \<and>
     t_weak_opps t = int (card {r \<in> gone b0 rep p k. sq_color b0 r \<noteq> color b0}) \<and>
     (\<forall>n < squares. (sq_color b n \<noteq> EMPTY \<and> removestamp b n \<noteq> TIMESTAMP b) \<longleftrightarrow> n \<in> stones b0 - gone_stones b0 rep p k) \<and>
     zhash b = zobrist_of (zobrist_strings b0) (without (gone_stones b0 rep p k) ((sq_color b0)(p := color b0))))"

lemma finite_touched [simp]: "finite (touched b rep p k)"
proof (rule finite_subset)
  show "touched b rep p k \<subseteq> rep ` set (take k (set_neighbours p))" by (auto simp: touched_def near_def)
qed simp

lemma finite_near [simp]: "finite (near b rep p k r)"
  by (simp add: near_def)

text \<open>One more neighbour.\<close>

lemma near_empty:
  assumes "p < squares" and "k < length (set_neighbours p)" and "set_neighbours p ! k \<notin> stones b"
  shows "near b rep p (Suc k) = near b rep p k" "touched b rep p (Suc k) = touched b rep p k" "gone b rep p (Suc k) = gone b rep p k"
    "gone_stones b rep p (Suc k) = gone_stones b rep p k"
proof -
  show n: "near b rep p (Suc k) = near b rep p k"
    unfolding near_def take_drop_step(1) [OF assms(2) neighbours_facts(1) [OF assms(1)]] using assms(3) by (intro ext) auto
  show t: "touched b rep p (Suc k) = touched b rep p k" unfolding touched_def n ..
  show g: "gone b rep p (Suc k) = gone b rep p k" unfolding gone_def n t ..
  show "gone_stones b rep p (Suc k) = gone_stones b rep p k" unfolding gone_stones_def g ..
qed

lemma near_stone:
  assumes "p < squares" and k: "k < length (set_neighbours p)" and s: "set_neighbours p ! k \<in> stones b"
  shows "near b rep p (Suc k) (rep (set_neighbours p ! k)) = insert (set_neighbours p ! k) (near b rep p k (rep (set_neighbours p ! k)))"
    "set_neighbours p ! k \<notin> near b rep p k r"
    "r \<noteq> rep (set_neighbours p ! k) \<Longrightarrow> near b rep p (Suc k) r = near b rep p k r"
    "touched b rep p (Suc k) = insert (rep (set_neighbours p ! k)) (touched b rep p k)"
proof -
  note td = take_drop_step [OF k neighbours_facts(1) [OF assms(1)]]
  let ?n = "set_neighbours p ! k"
  show 1: "near b rep p (Suc k) (rep ?n) = insert ?n (near b rep p k (rep ?n))" unfolding near_def td(1) using s by auto
  show "?n \<notin> near b rep p k r" using td(3) by (simp add: near_def)
  show 3: "near b rep p (Suc k) r = near b rep p k r" if "r \<noteq> rep ?n" for r unfolding near_def td(1) using that by auto
  show "touched b rep p (Suc k) = insert (rep ?n) (touched b rep p k)"
  proof (rule set_eqI)
    fix r show "r \<in> touched b rep p (Suc k) \<longleftrightarrow> r \<in> insert (rep ?n) (touched b rep p k)"
      using 1 3 [of r] by (cases "r = rep ?n") (simp_all add: touched_def)
  qed
qed

text \<open>A group has at least as many liberties as it has stones next to \<open>p\<close>.\<close>

lemma near_ledges:
  assumes "ledges_ok (stones b) rep {} (liberties b) (ledges b)" and "p \<in> free b" and "r \<in> stones b" and "rep r = r"
  shows "int (card (near b rep p k r)) \<le> ledges b r"
    "k = length (set_neighbours p) \<Longrightarrow> int (card (near b rep p k r)) = ledges b r \<longleftrightarrow> weak b rep p r"
proof -
  let ?L = "{a \<in> liberties b. rep (fst a) = r}"
  have p: "p < squares" "sq_color b p = EMPTY" using assms(2) by (simp_all add: free_def)
  have fin: "finite ?L" using assms(1) by (simp add: ledges_ok_def)
  have l: "ledges b r = int (card ?L)" using assms(1,3,4) by (simp add: ledges_ok_def)
  have inj: "card ((\<lambda>n. (n, p)) ` near b rep p k r) = card (near b rep p k r)" by (intro card_image) (auto intro: inj_onI)
  have nb: "n \<in> set (set_neighbours p) \<Longrightarrow> p \<in> set (set_neighbours n)" for n using neighbours_facts(6) [OF p(1)] .
  have sub: "(\<lambda>n. (n, p)) ` near b rep p k r \<subseteq> ?L"
    using p nb by (auto simp: near_def liberties_def dest: in_set_takeD)
  then show "int (card (near b rep p k r)) \<le> ledges b r" unfolding l using card_mono [OF fin sub] inj by simp
  assume k: "k = length (set_neighbours p)"
  have "card ((\<lambda>n. (n, p)) ` near b rep p k r) = card ?L \<longleftrightarrow> (\<lambda>n. (n, p)) ` near b rep p k r = ?L"
    using card_subset_eq [OF fin sub] by auto
  also have "\<dots> \<longleftrightarrow> weak b rep p r"
  proof
    assume e: "(\<lambda>n. (n, p)) ` near b rep p k r = ?L"
    have "n = p" if "(x, n) \<in> liberties b" "rep x = r" for x n
    proof -
      have "(x, n) \<in> (\<lambda>n. (n, p)) ` near b rep p k r" unfolding e using that by simp
      then show ?thesis by auto
    qed
    then show "weak b rep p r" unfolding weak_def by blast
  next
    assume w: "weak b rep p r"
    have "x \<in> near b rep p k r \<and> n = p" if "(x, n) \<in> liberties b" "rep x = r" for x n
    proof -
      have "n = p" using w that unfolding weak_def by blast
      moreover have "x \<in> stones b" "n \<in> set (set_neighbours x)" using that(1) by (simp_all add: liberties_def)
      ultimately show ?thesis using neighbours_facts(6) [of x n] that(2) unfolding near_def k by (simp add: stones_def)
    qed
    then show "(\<lambda>n. (n, p)) ` near b rep p k r = ?L" using sub by force
  qed
  finally show "int (card (near b rep p k r)) = ledges b r \<longleftrightarrow> weak b rep p r" unfolding l using inj by simp
qed


lemma shadow_facts:
  assumes "shadow b = shadow b'"
  shows "calm b = calm b'" "timestamp b = timestamp b'" "temp_ledges b = temp_ledges b'" "TIMESTAMP b = TIMESTAMP b'"
    "zobrist_strings b = zobrist_strings b'"
  using assms by (cases b, cases b', simp add: shadow_def calm_def)+

text \<open>Pretending to take a group of the other colour that has no other liberty.\<close>

lemma looking_remove:
  assumes g: "groups_ok b0 rep rk (liberties b0)" and nb: "neighbours b0 = set_neighbours" and p: "p \<in> free b0"
    and cal: "calm b = calm b0" and st: "stamps_ok b" and R: "\<And>x. x \<in> stones b0 \<Longrightarrow> rep x \<in> R \<longleftrightarrow> x \<in> R"
    and alive: "\<forall>n < squares. (sq_color b n \<noteq> EMPTY \<and> removestamp b n \<noteq> TIMESTAMP b) \<longleftrightarrow> n \<in> stones b0 - R"
    and zh: "zhash b = zobrist_of (zobrist_strings b0) (without R ((sq_color b0)(p := color b0)))"
    and r: "r \<in> stones b0" "rep r = r" "r \<notin> R"
  shows "\<exists>b'. remove r False r b = Inr b' \<and> shadow b' = shadow b \<and> stamps_ok b' \<and>
    (\<forall>n < squares. (sq_color b' n \<noteq> EMPTY \<and> removestamp b' n \<noteq> TIMESTAMP b') \<longleftrightarrow> n \<in> stones b0 - (R \<union> {x \<in> stones b0. rep x = r})) \<and>
    zhash b' = zobrist_of (zobrist_strings b0) (without (R \<union> {x \<in> stones b0. rep x = r}) ((sq_color b0)(p := color b0)))"
proof -
  let ?S = "stones b0" and ?c = "without R ((sq_color b0)(p := color b0))"
  note cf = calm_facts [OF cal]
  define m where "m = \<lparr>r_update = False, r_links = ?S, r_stones = ?S - R, r_rep = rep, r_rank = rk, r_group = r,
    r_color = ?c, r_empty = {}, r_board = b\<rparr>"
  have mf: "r_update m = False" "r_links m = ?S" "r_stones m = ?S - R" "r_rep m = rep" "r_rank m = rk" "r_group m = r"
    "r_color m = ?c" "r_empty m = {}" "r_board m = b" by (simp_all add: m_def)
  have li: "linked ?S rep rk (reference b0)" and con: "\<forall>x \<in> ?S. connected {y \<in> ?S. rep y = rep x}"
    using g by (simp_all add: groups_ok_def)
  let ?G = "{x \<in> ?S. rep x = r}"
  have gm: "group_of m = ?G" unfolding group_of_def mf using R r(3) by blast
  have pS: "p \<notin> ?S" using p by (simp add: stones_def free_def)
  have "removal_ok m"
    unfolding removal_ok_def gm mf using linked_rep [OF li] R nb cf(4) by (auto simp: stones_def)
  moreover have "removing m {} {} b"
    unfolding removing_def mf using li alive zh st pS cf
    by (auto simp: without_def stamps_ok_def)
  moreover have "r \<in> group_of m" unfolding gm using r by simp
  moreover have "fresh m {} {}" by (simp add: fresh_def)
  moreover have "connected (group_of m)" unfolding gm using bspec [OF con r(1)] r(2) by simp
  ultimately obtain b' B where b': "remove r False r b = Inr b'" and re: "removing m ?G B b'"
    using remove_ok [of m "{}" b r] unfolding mf gm by blast
  have ww: "without ?G ?c = without (R \<union> ?G) ((sq_color b0)(p := color b0))" by (auto simp: without_def fun_eq_iff)
  have sh: "shadow b' = shadow b" and zh': "zhash b' = zobrist_of (zobrist_strings b') (without ?G ?c)"
    and rs: "\<forall>n. removestamp b' n \<le> TIMESTAMP b'"
    and al: "\<forall>n < squares. (sq_color b' n \<noteq> EMPTY \<and> removestamp b' n \<noteq> TIMESTAMP b') \<longleftrightarrow> n \<in> ?S - R - ?G"
    using re unfolding removing_def mf by simp_all
  have "stamps_ok b'" using rs st shadow_facts [OF sh] unfolding stamps_ok_def by simp
  moreover have "?S - R - ?G = ?S - (R \<union> ?G)" by auto
  moreover have "zobrist_strings b' = zobrist_strings b0" using shadow_facts(5) [OF sh] cf(6) by simp
  ultimately show ?thesis using b' sh zh' al unfolding ww by (intro exI [of _ b']) simp
qed

lemma looking_empty:
  assumes "looking p rep b0 k (t, b)" and "p < squares" and k: "k < length (set_neighbours p)" and e: "sq_color b0 (set_neighbours p ! k) = EMPTY"
  shows "looking p rep b0 (Suc k) (t\<lparr>t_empties := t_empties t + 1\<rparr>, b)"
proof -
  note td = take_drop_step [OF k neighbours_facts(1) [OF assms(2)]]
  have s: "set_neighbours p ! k \<notin> stones b0" using e by (simp add: stones_def)
  have "{n \<in> set (take (Suc k) (set_neighbours p)). sq_color b0 n = EMPTY} =
      insert (set_neighbours p ! k) {n \<in> set (take k (set_neighbours p)). sq_color b0 n = EMPTY}"
    unfolding td(1) using e by auto
  then have "card {n \<in> set (take (Suc k) (set_neighbours p)). sq_color b0 n = EMPTY} =
      Suc (card {n \<in> set (take k (set_neighbours p)). sq_color b0 n = EMPTY})" using td(3) by simp
  then show ?thesis using assms(1) unfolding looking_def near_empty [OF assms(2) k s] by simp
qed

lemma card_insert_if_new: "finite A \<Longrightarrow> r \<notin> A \<Longrightarrow> int (card {s \<in> insert r A. P s}) = int (card {s \<in> A. P s}) + (if P r then 1 else 0)"
proof -
  assume "finite A" "r \<notin> A"
  then have "{s \<in> insert r A. P s} = (if P r then insert r {s \<in> A. P s} else {s \<in> A. P s})" "finite {s \<in> A. P s}" by auto
  with \<open>r \<notin> A\<close> show ?thesis by simp
qed

text \<open>A stone: first its group is noted, and one liberty of it is used up.\<close>

definition noted :: "nat \<Rightarrow> nat \<Rightarrow> tally \<times> board \<Rightarrow> tally \<times> board" where
  "noted r c = (\<lambda>(t, b).
     let (t, b) =
       (if timestamp b r \<noteq> TIMESTAMP b
        then (if c = color b then t\<lparr>t_neighs := t_neighs t + 1\<rparr> else t\<lparr>t_opps := t_opps t + 1\<rparr>,
              b\<lparr>timestamp := (timestamp b)(r := TIMESTAMP b), temp_ledges := (temp_ledges b)(r := ledges b r)\<rparr>)
        else (t, b))
     in (t, b\<lparr>temp_ledges := (temp_ledges b)(r := temp_ledges b r - 1)\<rparr>))"

lemma noted_ok:
  assumes lk: "looking p rep b0 k (t, b)" and p: "p < squares" and k: "k < length (set_neighbours p)" and s: "set_neighbours p ! k \<in> stones b0"
    and c: "c = sq_color b0 (rep (set_neighbours p ! k))" and n: "noted (rep (set_neighbours p ! k)) c (t, b) = (t', b')"
  shows "calm b' = calm b0" "stamps_ok b'" "\<forall>r. timestamp b' r = TIMESTAMP b' \<longleftrightarrow> r \<in> touched b0 rep p (Suc k)"
    "\<forall>r \<in> touched b0 rep p (Suc k). temp_ledges b' r = ledges b0 r - int (card (near b0 rep p (Suc k) r))"
    "t_neighs t' = int (card {r \<in> touched b0 rep p (Suc k). sq_color b0 r = color b0})"
    "t_opps t' = int (card {r \<in> touched b0 rep p (Suc k). sq_color b0 r \<noteq> color b0})"
    "t_empties t' = t_empties t" "t_weak_neighs t' = t_weak_neighs t" "t_weak_opps t' = t_weak_opps t"
    "removestamp b' = removestamp b" "zhash b' = zhash b" "sq_color b' = sq_color b" "TIMESTAMP b' = TIMESTAMP b"
proof -
  let ?r = "rep (set_neighbours p ! k)"
  note ns = near_stone [where rep = rep, OF p k s]
  have cal: "calm b = calm b0" using lk by (simp add: looking_def)
  note cf = calm_facts [OF cal]
  have ts: "timestamp b r = TIMESTAMP b \<longleftrightarrow> r \<in> touched b0 rep p k" for r using lk by (simp add: looking_def)
  have n1: "int (card (near b0 rep p (Suc k) ?r)) = int (card (near b0 rep p k ?r)) + 1" unfolding ns(1) using ns(2) by simp
  have fresh: "near b0 rep p k ?r = {}" if "?r \<notin> touched b0 rep p k" using that by (simp add: touched_def)
  have split: "(?r \<notin> touched b0 rep p k \<and> b' = b\<lparr>timestamp := (timestamp b)(?r := TIMESTAMP b), temp_ledges := (temp_ledges b)(?r := ledges b ?r - 1)\<rparr> \<and>
        t' = (if c = color b then t\<lparr>t_neighs := t_neighs t + 1\<rparr> else t\<lparr>t_opps := t_opps t + 1\<rparr>)) \<or>
      (?r \<in> touched b0 rep p k \<and> b' = b\<lparr>temp_ledges := (temp_ledges b)(?r := temp_ledges b ?r - 1)\<rparr> \<and> t' = t)"
    using n ts [of ?r] by (auto simp: noted_def Let_def split: if_splits)
  have "calm b' = calm b" using split by (elim disjE conjE) simp_all
  then show "calm b' = calm b0" using cal by simp
  show "removestamp b' = removestamp b" using split by (elim disjE conjE) simp_all
  show "zhash b' = zhash b" using split by (elim disjE conjE) simp_all
  show "sq_color b' = sq_color b" using split by (elim disjE conjE) simp_all
  show "TIMESTAMP b' = TIMESTAMP b" using split by (elim disjE conjE) simp_all
  show "t_empties t' = t_empties t" using split by (elim disjE conjE) simp_all
  show "t_weak_neighs t' = t_weak_neighs t" using split by (elim disjE conjE) simp_all
  show "t_weak_opps t' = t_weak_opps t" using split by (elim disjE conjE) simp_all
  show "stamps_ok b'" using split lk by (auto simp: looking_def stamps_ok_def)
  show "\<forall>r. timestamp b' r = TIMESTAMP b' \<longleftrightarrow> r \<in> touched b0 rep p (Suc k)"
  proof
    fix r show "timestamp b' r = TIMESTAMP b' \<longleftrightarrow> r \<in> touched b0 rep p (Suc k)"
      unfolding ns(4) using split ts [of r] by (cases "r = ?r") (elim disjE conjE; simp)+
  qed
  have te: "temp_ledges b r = ledges b0 r - int (card (near b0 rep p k r))" if "r \<in> touched b0 rep p k" for r
    using lk that by (simp add: looking_def)
  show "\<forall>r \<in> touched b0 rep p (Suc k). temp_ledges b' r = ledges b0 r - int (card (near b0 rep p (Suc k) r))"
  proof
    fix r assume r: "r \<in> touched b0 rep p (Suc k)"
    show "temp_ledges b' r = ledges b0 r - int (card (near b0 rep p (Suc k) r))"
    proof (cases "r = ?r")
      case True
      show ?thesis unfolding True n1 using split te [of ?r] fresh cf(3) by auto
    next
      case False
      then have "r \<in> touched b0 rep p k" using r unfolding ns(4) by simp
      then show ?thesis unfolding ns(3) [OF False] using split te False by auto
    qed
  qed
  have tn: "t_neighs t = int (card {r \<in> touched b0 rep p k. sq_color b0 r = color b0})"
    and op: "t_opps t = int (card {r \<in> touched b0 rep p k. sq_color b0 r \<noteq> color b0})" using lk by (simp_all add: looking_def)
  have "t_neighs t' = int (card {r \<in> touched b0 rep p (Suc k). sq_color b0 r = color b0}) \<and>
    t_opps t' = int (card {r \<in> touched b0 rep p (Suc k). sq_color b0 r \<noteq> color b0})"
  proof (cases "?r \<in> touched b0 rep p k")
    case True
    then show ?thesis unfolding ns(4) insert_absorb [OF True] using split tn op by simp
  next
    case False
    then have "t' = (if c = color b then t\<lparr>t_neighs := t_neighs t + 1\<rparr> else t\<lparr>t_opps := t_opps t + 1\<rparr>)" using split by blast
    then show ?thesis unfolding ns(4) card_insert_if_new [OF finite_touched False] using tn op c cf(7) by simp
  qed
  then show "t_neighs t' = int (card {r \<in> touched b0 rep p (Suc k). sq_color b0 r = color b0})"
    "t_opps t' = int (card {r \<in> touched b0 rep p (Suc k). sq_color b0 r \<noteq> color b0})" by simp_all
qed

lemma useful_neighbour_unfold:
  "useful_neighbour n (t, b) =
     (if sq_color b n = EMPTY then Inr (t\<lparr>t_empties := t_empties t + 1\<rparr>, b)
      else rbind (find False n b) (\<lambda>(ref, b0). let (t', b') = noted ref (sq_color b n) (t, b0) in
       if temp_ledges b' ref = 0
       then if sq_color b n = color b' then Inr (t'\<lparr>t_weak_neighs := t_weak_neighs t' + 1\<rparr>, b')
            else rbind (remove ref False ref b') (\<lambda>b. Inr (t'\<lparr>t_weak_opps := t_weak_opps t' + 1\<rparr>, b))
       else Inr (t', b')))"
  by (auto simp: useful_neighbour_def noted_def Let_def split: prod.splits intro!: arg_cong [where f = "rbind (find False n b)"])

lemma looking_step:
  assumes g: "groups_ok b0 rep rk (liberties b0)" and nb: "neighbours b0 = set_neighbours" and p: "p \<in> free b0"
    and k: "k < length (set_neighbours p)" and lk: "looking p rep b0 k (t, b)"
  shows "\<exists>s. useful_neighbour (set_neighbours p ! k) (t, b) = Inr s \<and> looking p rep b0 (Suc k) s"
proof -
  have cal: "calm b = calm b0" using lk by (simp add: looking_def)
  note cf = calm_facts [OF cal]
  let ?n = "set_neighbours p ! k" and ?S = "stones b0"
  let ?r = "rep ?n"
  have ps: "p < squares" using p by (simp add: free_def)
  show ?thesis
  proof (cases "sq_color b0 ?n = EMPTY")
    case True
    then show ?thesis using looking_empty [OF lk ps k True] cf(1) by (simp add: useful_neighbour_unfold)
  next
    case False
    have s: "?n \<in> ?S" using False neighbours_facts(5) [OF ps] k by (simp add: stones_def)
    have li: "linked ?S rep rk (reference b0)" and le: "ledges_ok ?S rep {} (liberties b0) (ledges b0)"
      and col: "\<forall>x \<in> ?S. sq_color b0 (rep x) = sq_color b0 x"
      using g by (simp_all add: groups_ok_def)
    have r: "?r \<in> ?S" "rep ?r = ?r" using linked_rep [OF li s] by simp_all
    have cr: "sq_color b0 ?n = sq_color b0 ?r" using col s by simp
    have f: "find False ?n b = Inr (?r, b)"
      using find_same [of ?S rep rk b ?n] li cf(2) s by (auto simp: stones_def)
    obtain t' b' where nt: "noted ?r (sq_color b0 ?n) (t, b) = (t', b')" by fastforce
    note no = noted_ok [OF lk ps k s cr nt]
    note ns = near_stone [where rep = rep, OF ps k s]
    have cf': "color b' = color b0" "sq_color b' = sq_color b0" using calm_facts [OF no(1)] by simp_all
    have lk': "t_empties t = int (card {n \<in> set (take k (set_neighbours p)). sq_color b0 n = EMPTY})"
      "t_weak_neighs t = int (card {r \<in> gone b0 rep p k. sq_color b0 r = color b0})"
      "t_weak_opps t = int (card {r \<in> gone b0 rep p k. sq_color b0 r \<noteq> color b0})"
      "\<forall>n < squares. (sq_color b n \<noteq> EMPTY \<and> removestamp b n \<noteq> TIMESTAMP b) \<longleftrightarrow> n \<in> ?S - gone_stones b0 rep p k"
      "zhash b = zobrist_of (zobrist_strings b0) (without (gone_stones b0 rep p k) ((sq_color b0)(p := color b0)))"
      using lk by (simp_all add: looking_def)
    have te: "t_empties t' = int (card {n \<in> set (take (Suc k) (set_neighbours p)). sq_color b0 n = EMPTY})"
    proof -
      have "{n \<in> set (take (Suc k) (set_neighbours p)). sq_color b0 n = EMPTY} = {n \<in> set (take k (set_neighbours p)). sq_color b0 n = EMPTY}"
        unfolding take_drop_step(1) [OF k neighbours_facts(1) [OF ps]] using False by auto
      then show ?thesis using no(7) lk'(1) by simp
    qed
    have rt: "?r \<in> touched b0 rep p (Suc k)" unfolding ns(4) by simp
    have n1: "card (near b0 rep p (Suc k) ?r) = Suc (card (near b0 rep p k ?r))" unfolding ns(1) using ns(2) by simp
    have rg: "?r \<notin> gone b0 rep p k"
      using near_ledges(1) [OF le p r, of "Suc k"] unfolding n1 gone_def by simp
    have gone: "gone b0 rep p (Suc k) = (if temp_ledges b' ?r = 0 then insert ?r (gone b0 rep p k) else gone b0 rep p k)"
    proof (rule set_eqI)
      fix x show "x \<in> gone b0 rep p (Suc k) \<longleftrightarrow> x \<in> (if temp_ledges b' ?r = 0 then insert ?r (gone b0 rep p k) else gone b0 rep p k)"
      proof (cases "x = ?r")
        case True
        have "temp_ledges b' ?r = ledges b0 ?r - int (card (near b0 rep p (Suc k) ?r))" using no(4) rt by blast
        then show ?thesis unfolding True using rt rg by (auto simp: gone_def)
      next
        case False
        then show ?thesis unfolding gone_def ns(4) using ns(3) [OF False] by simp
      qed
    qed
    have fg: "finite (gone b0 rep p k)" by (rule finite_subset [OF _ finite_touched [of b0 rep p k]]) (auto simp: gone_def)
    have wn: "int (card {r \<in> gone b0 rep p (Suc k). P r}) = int (card {r \<in> gone b0 rep p k. P r}) + (if P ?r then 1 else 0)"
      if "temp_ledges b' ?r = 0" for P unfolding gone if_P [OF that] by (rule card_insert_if_new [OF fg rg])
    have un: "useful_neighbour ?n (t, b) =
       (if temp_ledges b' ?r = 0
        then if sq_color b0 ?r = color b0 then Inr (t'\<lparr>t_weak_neighs := t_weak_neighs t' + 1\<rparr>, b')
             else rbind (remove ?r False ?r b') (\<lambda>b. Inr (t'\<lparr>t_weak_opps := t_weak_opps t' + 1\<rparr>, b))
        else Inr (t', b'))"
      unfolding useful_neighbour_unfold cf(1) f using False nt cf' cr by simp
    have al: "\<forall>n < squares. (sq_color b' n \<noteq> EMPTY \<and> removestamp b' n \<noteq> TIMESTAMP b') \<longleftrightarrow> n \<in> ?S - gone_stones b0 rep p k"
      and zh: "zhash b' = zobrist_of (zobrist_strings b0) (without (gone_stones b0 rep p k) ((sq_color b0)(p := color b0)))"
      using lk'(4,5) no(10-13) by simp_all
    show ?thesis
    proof (cases "temp_ledges b' ?r = 0")
      case no_more: True
      show ?thesis
      proof (cases "sq_color b0 ?r = color b0")
        case True
        have "gone_stones b0 rep p (Suc k) = gone_stones b0 rep p k"
          unfolding gone_stones_def gone using no_more True col by auto
        then have "looking p rep b0 (Suc k) (t'\<lparr>t_weak_neighs := t_weak_neighs t' + 1\<rparr>, b')"
          using no te lk' al zh True wn [OF no_more] unfolding looking_def by simp
        then show ?thesis using un no_more True by simp
      next
        case False
        have gs: "gone_stones b0 rep p (Suc k) = gone_stones b0 rep p k \<union> {x \<in> ?S. rep x = ?r}"
          unfolding gone_stones_def gone using no_more False col by auto
        have "rep x \<in> gone_stones b0 rep p k \<longleftrightarrow> x \<in> gone_stones b0 rep p k" if "x \<in> ?S" for x
          using that col linked_rep [OF li that] by (auto simp: gone_stones_def)
        moreover have "?r \<notin> gone_stones b0 rep p k" using rg r(2) by (simp add: gone_stones_def)
        ultimately obtain b2 where b2: "remove ?r False ?r b' = Inr b2" "shadow b2 = shadow b'" "stamps_ok b2"
          "\<forall>n < squares. (sq_color b2 n \<noteq> EMPTY \<and> removestamp b2 n \<noteq> TIMESTAMP b2) \<longleftrightarrow> n \<in> ?S - gone_stones b0 rep p (Suc k)"
          "zhash b2 = zobrist_of (zobrist_strings b0) (without (gone_stones b0 rep p (Suc k)) ((sq_color b0)(p := color b0)))"
          using looking_remove [OF g nb p no(1,2) _ al zh r] unfolding gs by blast
        note sf = shadow_facts [OF b2(2)]
        have "looking p rep b0 (Suc k) (t'\<lparr>t_weak_opps := t_weak_opps t' + 1\<rparr>, b2)"
          using no te lk' b2(3-5) sf False wn [OF no_more] unfolding looking_def by simp
        then show ?thesis using un no_more False b2(1) by simp
      qed
    next
      case False
      then have "gone_stones b0 rep p (Suc k) = gone_stones b0 rep p k" unfolding gone_stones_def gone by simp
      moreover have "gone b0 rep p (Suc k) = gone b0 rep p k" unfolding gone using False by simp
      ultimately have "looking p rep b0 (Suc k) (t', b')" using no te lk' al zh unfolding looking_def by simp
      then show ?thesis using un False by simp
    qed
  qed
qed

section \<open>The whole of \<open>useful\<close>\<close>

definition quiet :: "board \<Rightarrow> board" where
  "quiet b = b\<lparr>timestamp := (\<lambda>s. 0), temp_ledges := (\<lambda>s. 0), removestamp := (\<lambda>s. 0), TIMESTAMP := 0\<rparr>"

lemma quiet_facts:
  assumes "quiet b = quiet b'"
  shows "sq_color b = sq_color b'" "reference b = reference b'" "ledges b = ledges b'" "neighbours b = neighbours b'"
    "zobrist_strings b = zobrist_strings b'" "color b = color b'" "hash_set b = hash_set b'" "zhash b = zhash b'"
    "empties b = empties b'" "empty_pos b = empty_pos b'" "used b = used b'" "finished b = finished b'" "lastmove b = lastmove b'"
    "history b = history b'" "calls b = calls b'" "stones b = stones b'" "liberties b = liberties b'" "free b = free b'"
    "white_dead b = white_dead b'" "black_dead b = black_dead b'"
proof -
  show f: "sq_color b = sq_color b'" "reference b = reference b'" "ledges b = ledges b'" "neighbours b = neighbours b'"
    "zobrist_strings b = zobrist_strings b'" "color b = color b'" "hash_set b = hash_set b'" "zhash b = zhash b'"
    "empties b = empties b'" "empty_pos b = empty_pos b'" "used b = used b'" "finished b = finished b'" "lastmove b = lastmove b'"
    "history b = history b'" "calls b = calls b'" "white_dead b = white_dead b'" "black_dead b = black_dead b'"
    using assms by (cases b, cases b', simp add: quiet_def)+
  then show "stones b = stones b'" "liberties b = liberties b'" "free b = free b'" by (simp_all add: stones_def liberties_def free_def)
qed

lemma calm_quiet:
  assumes "calm b = calm b'" and "zhash b = zhash b'"
  shows "quiet b = quiet b'"
  using assms by (cases b, cases b', simp add: quiet_def calm_def)

lemma board_inv_quiet:
  assumes "quiet b' = quiet b" and "stamps_ok b'"
  shows "board_inv b rep rk \<Longrightarrow> board_inv b' rep rk"
  using assms(2) unfolding board_inv_def groups_ok_def merged_def position_ok_def quiet_facts [OF assms(1)] by simp

lemma card_less_ex:
  assumes "finite A"
  shows "int (card {r \<in> A. P r}) - int (card {r \<in> {r \<in> A. Q r}. P r}) \<noteq> 0 \<longleftrightarrow> (\<exists>r \<in> A. P r \<and> \<not> Q r)"
proof -
  have "{r \<in> A. P r} = {r \<in> {r \<in> A. Q r}. P r} \<union> {r \<in> A. P r \<and> \<not> Q r}" by auto
  then have "card {r \<in> A. P r} = card {r \<in> {r \<in> A. Q r}. P r} + card {r \<in> A. P r \<and> \<not> Q r}"
    using assms by (subst card_Un_disjoint [symmetric]) auto
  then have "int (card {r \<in> A. P r}) - int (card {r \<in> {r \<in> A. Q r}. P r}) = int (card {r \<in> A. P r \<and> \<not> Q r})" by simp
  then show ?thesis using assms by auto
qed

lemma useful_ok:
  assumes inv: "board_inv b rep rk" and p: "p \<in> free b"
  shows "\<exists>b'. useful p b = Inr (worth b rep p, b') \<and> quiet b' = quiet b \<and> board_inv b' rep rk"
proof -
  let ?b0 = "b\<lparr>TIMESTAMP := TIMESTAMP b + 1\<rparr>" and ?N = "set_neighbours p"
  have ps: "p < squares" "sq_color b p = EMPTY" using p by (simp_all add: free_def)
  have nb: "neighbours b = set_neighbours" and st: "\<And>n. removestamp b n \<le> TIMESTAMP b" "\<And>n. timestamp b n \<le> TIMESTAMP b"
    and zh: "zhash b = zobrist_of (zobrist_strings b) (sq_color b)"
    using inv by (auto simp: board_inv_def position_ok_def stamps_ok_def)
  have q0: "quiet ?b0 = quiet b" by (simp add: quiet_def)
  have st0: "stamps_ok ?b0" using st by (auto simp: stamps_ok_def intro: le_SucI)
  have inv0: "board_inv ?b0 rep rk" using board_inv_quiet [OF q0 st0 inv] .
  note qf = quiet_facts [OF q0]
  show ?thesis
  proof (cases "useful_fast p ?b0")
    case True
    then have "worth b rep p" by (auto simp: useful_fast_def worth_def nb split: if_splits)
    then show ?thesis using True inv0 q0 ps(1) by (auto simp: useful_def Let_def)
  next
    case False
    let ?b1 = "zobrist_update p (color ?b0) ?b0" and ?t = "\<lparr>t_empties = 0, t_opps = 0, t_weak_opps = 0, t_neighs = 0, t_weak_neighs = 0\<rparr>"
    have g0: "groups_ok ?b0 rep rk (liberties ?b0)" "neighbours ?b0 = set_neighbours" "p \<in> free ?b0"
      using inv0 p nb qf(18) by (simp_all add: board_inv_def)
    have z1: "zhash ?b1 = zobrist_of (zobrist_strings ?b0) ((sq_color ?b0)(p := color ?b0))"
      unfolding zobrist_change [OF ps(1)] using zh by (simp add: zobrist_update_def)
    have stamp: "removestamp b n \<noteq> Suc (TIMESTAMP b)" "timestamp b n \<noteq> Suc (TIMESTAMP b)" for n
      using st [of n] by (metis not_less_eq_eq le_refl)+
    have near0: "near d rep p 0 r = {}" for d r by (simp add: near_def)
    have touched0: "touched ?b0 rep p 0 = {}" "gone ?b0 rep p 0 = {}" "gone_stones ?b0 rep p 0 = {}"
      by (simp_all add: touched_def gone_def gone_stones_def near0)
    have without0: "without {} c = c" for c by (simp add: without_def)
    have start: "looking p rep ?b0 0 (?t, ?b1)"
      unfolding looking_def prod.case touched0 without0 using st0 z1 stamp
      by (simp add: zobrist_update_def stamps_ok_def stones_def)
    have "\<exists>s. for_each ?N useful_neighbour (?t, ?b1) = Inr s \<and> looking p rep ?b0 (length ?N) s"
    proof (rule for_each_count)
      show "looking p rep ?b0 0 (?t, ?b1)" by (rule start)
    next
      fix k and u :: "tally \<times> board" assume k: "k < length ?N" and lk: "looking p rep ?b0 k u"
      obtain t b1 where u: "u = (t, b1)" by (cases u)
      show "\<exists>u'. useful_neighbour (?N ! k) u = Inr u' \<and> looking p rep ?b0 (Suc k) u'"
        using looking_step [OF g0 k] lk unfolding u by blast
    qed
    then obtain t b2 where b2: "for_each ?N useful_neighbour (?t, ?b1) = Inr (t, b2)" and lk: "looking p rep ?b0 (length ?N) (t, b2)" by auto
    have cal: "calm b2 = calm ?b0" and st2: "stamps_ok b2" using lk by (simp_all add: looking_def)
    note cf = calm_facts [OF cal]
    let ?b3 = "b2\<lparr>zhash := zhash b\<rparr>"
    have "quiet ?b3 = quiet ?b0" using cal by (intro calm_quiet) simp_all
    then have q3: "quiet ?b3 = quiet b" using q0 by simp
    have inv3: "board_inv ?b3 rep rk" using st2 by (intro board_inv_quiet [OF q3 _ inv]) (simp add: stamps_ok_def)
    have groups: "touched ?b0 rep p (length ?N) = neighbour_groups b rep p"
      unfolding touched_def near_def neighbour_groups_def qf(16) by auto
    have li: "linked (stones b) rep rk (reference b)" and le: "ledges_ok (stones ?b0) rep {} (liberties ?b0) (ledges ?b0)"
      using inv inv0 by (simp_all add: board_inv_def groups_ok_def)
    have root: "r \<in> stones b \<and> rep r = r" if "r \<in> neighbour_groups b rep p" for r
      using that linked_rep [OF li] by (auto simp: neighbour_groups_def)
    have wk: "weak ?b0 rep p r = weak b rep p r" for r unfolding weak_def qf(17) ..
    have gone: "gone ?b0 rep p (length ?N) = {r \<in> neighbour_groups b rep p. weak b rep p r}"
      unfolding gone_def groups using near_ledges(2) [OF le g0(3) _ _ refl] root unfolding qf(16) wk by blast
    have gs: "gone_stones ?b0 rep p (length ?N) = captured b rep p"
      unfolding gone_stones_def gone captured_def qf(16,1,6) by auto
    have fin: "finite (neighbour_groups b rep p)" by (simp add: neighbour_groups_def)
    have tallies: "t_empties t = int (card {n \<in> set ?N. sq_color b n = EMPTY})"
      "t_neighs t = int (card {r \<in> neighbour_groups b rep p. sq_color b r = color b})"
      "t_opps t = int (card {r \<in> neighbour_groups b rep p. sq_color b r \<noteq> color b})"
      "t_weak_neighs t = int (card {r \<in> {r \<in> neighbour_groups b rep p. weak b rep p r}. sq_color b r = color b})"
      "t_weak_opps t = int (card {r \<in> {r \<in> neighbour_groups b rep p. weak b rep p r}. sq_color b r \<noteq> color b})"
      using lk unfolding looking_def prod.case groups gone by simp_all
    have zh2: "zhash b2 = zobrist_of (zobrist_strings b) (after_move b rep p)"
      using lk unfolding looking_def prod.case gs after_move_def by simp
    have dup: "dupe b2 \<longleftrightarrow> zobrist_of (zobrist_strings b) (after_move b rep p) \<in> hash_set b"
      unfolding dupe_def zh2 using cf(8) by simp
    have e: "t_empties t \<noteq> 0 \<longleftrightarrow> (\<exists>n \<in> set ?N. sq_color b n = EMPTY)" unfolding tallies by auto
    have wo: "t_weak_opps t \<noteq> 0 \<longleftrightarrow> (\<exists>r \<in> neighbour_groups b rep p. sq_color b r \<noteq> color b \<and> weak b rep p r)"
      unfolding tallies using fin by auto
    have wn: "t_weak_neighs t \<noteq> 0 \<longleftrightarrow> (\<exists>r \<in> neighbour_groups b rep p. sq_color b r = color b \<and> weak b rep p r)"
      unfolding tallies using fin by auto
    have sn: "t_neighs t - t_weak_neighs t \<noteq> 0 \<longleftrightarrow> (\<exists>r \<in> neighbour_groups b rep p. sq_color b r = color b \<and> \<not> weak b rep p r)"
      unfolding tallies by (rule card_less_ex [OF fin])
    have so: "t_opps t - t_weak_opps t \<noteq> 0 \<longleftrightarrow> (\<exists>r \<in> neighbour_groups b rep p. sq_color b r \<noteq> color b \<and> \<not> weak b rep p r)"
      unfolding tallies by (rule card_less_ex [OF fin])
    have nf: "\<not> (\<not> used b p \<and> (\<exists>n \<in> set ?N. sq_color b n = EMPTY))" using False by (auto simp: useful_fast_def nb)
    have "worth b rep p \<longleftrightarrow> \<not> dupe b2 \<and> (t_empties t \<noteq> 0 \<or> t_weak_opps t \<noteq> 0 \<or>
        (t_neighs t - t_weak_neighs t \<noteq> 0 \<and> (t_opps t - t_weak_opps t \<noteq> 0 \<or> t_weak_neighs t \<noteq> 0)))"
      unfolding worth_def dup e wo wn sn so using nf by blast
    then have "useful p b = Inr (worth b rep p, ?b3)"
      unfolding useful_def Let_def using ps(1) False b2 nb by (simp add: zobrist_update_def)
    then show ?thesis using q3 inv3 by blast
  qed
qed
end
