(* ===== verification/GoLive.thy ===== *)
theory GoLive
  imports GoUseful
begin

text \<open>
  What a move does to the position, and that a useful move leaves every group a liberty and repeats
  no position that the hash remembers.
\<close>

unbundle bit_operations_syntax

section \<open>The position after a move\<close>

definition alive :: "board \<Rightarrow> (nat \<Rightarrow> nat) \<Rightarrow> bool" where
  "alive b rep \<longleftrightarrow> (\<forall>r \<in> stones b. rep r = r \<longrightarrow> ledges b r \<noteq> 0)"

lemma alive_liberty:
  assumes "groups_ok b rep rk (liberties b)" and "r \<in> stones b" and "rep r = r"
  shows "ledges b r \<noteq> 0 \<longleftrightarrow> (\<exists>(x, n) \<in> liberties b. rep x = r)"
proof -
  have "finite (liberties b)" "ledges b r = int (card {a \<in> liberties b. rep (fst a) = r})"
    using assms by (simp_all add: groups_ok_def ledges_ok_def)
  then show ?thesis by auto
qed

lemma put_stone_fields:
  "sq_color (put_stone p c b) = (sq_color b)(p := c)" "color (put_stone p c b) = color b" "hash_set (put_stone p c b) = hash_set b"
  "zobrist_strings (put_stone p c b) = zobrist_strings b" "used (put_stone p c b) = (used b)(p := True)"
  "history (put_stone p c b) = history b" "finished (put_stone p c b) = finished b" "calls (put_stone p c b) = calls b"
  by (simp_all add: put_stone_def zobrist_update_def Let_def)

text \<open>The stones that the move takes are those that \<open>useful\<close> would have taken.\<close>

lemma square_move_color:
  assumes inv: "board_inv b rep rk" and p: "p \<in> free b"
    and mv: "moving p (color b) (length (set_neighbours p)) rep' rk' b1"
    and tr: "track True p (color b) (rep(p := p)) (put_stone p (color b) b) rep' b1" and x: "x < squares"
  shows "sq_color b1 x = after_move b rep p x"
proof -
  let ?c = "color b" and ?b0 = "put_stone p (color b) b" and ?rep0 = "rep(p := p)"
  have g: "groups_ok b rep rk (liberties b)" and me: "merged b rep (\<lambda>x y. True)" and c0: "?c \<noteq> EMPTY"
    using inv by (auto simp: board_inv_def)
  have col: "sq_color b (rep x) = sq_color b x" if "x \<in> stones b" for x using g that by (simp add: groups_ok_def)
  have g1: "groups_ok b1 rep' rk' (liberties b1)" using moving_finished(1) [OF mv] .
  have col1: "sq_color b1 (rep' x) = sq_color b1 x" if "x \<in> stones b1" for x using g1 that by (simp add: groups_ok_def)
  have root1: "rep' x \<in> stones b1 \<and> rep' (rep' x) = rep' x" if "x \<in> stones b1" for x
    using g1 linked_rep that by (fastforce simp: groups_ok_def)
  have ps: "p < squares" "sq_color b p = EMPTY" "p \<notin> stones b" using p by (simp_all add: free_def stones_def)
  have p1: "sq_color b1 p = ?c" using mv by (simp add: moving_def)
  note f0 = put_stone_fields
  have S0: "stones ?b0 = insert p (stones b)" using ps c0 by (auto simp: stones_def f0)
  have t1: "\<And>x. sq_color b1 x \<noteq> EMPTY \<Longrightarrow> sq_color b1 x = sq_color ?b0 x" and t2: "\<And>x. sq_color ?b0 x = ?c \<Longrightarrow> sq_color b1 x = ?c"
    and t3: "\<And>x. x \<in> stones b1 \<Longrightarrow> sq_color b1 x \<noteq> ?c \<Longrightarrow> rep' x = ?rep0 x"
    and t4: "\<And>x y. x \<in> stones b1 \<Longrightarrow> y \<in> stones ?b0 \<Longrightarrow> sq_color ?b0 x \<noteq> ?c \<Longrightarrow> ?rep0 y = ?rep0 x \<Longrightarrow> y \<in> stones b1"
    and t5: "\<And>x. x \<in> stones ?b0 - stones b1 \<Longrightarrow> (\<forall>n \<in> set (set_neighbours x). sq_color ?b0 n \<noteq> EMPTY) \<and>
        (\<exists>n \<in> set (set_neighbours p). n \<in> stones ?b0 \<and> ?rep0 n = ?rep0 x)"
    and t6: "\<And>r. r \<in> stones b1 \<Longrightarrow> rep' r = r \<Longrightarrow> r \<noteq> p \<Longrightarrow> ledges b1 r \<noteq> 0"
    using tr unfolding track_def by blast+
  have two: "sq_color b x \<in> {EMPTY, WHITE, BLACK}" for x using inv by (simp add: board_inv_def position_ok_def)
  have two_c: "?c \<in> {WHITE, BLACK}" using inv by (simp add: board_inv_def)
  have pc: "p \<notin> captured b rep p" using ps(3) by (simp add: captured_def)
  consider "x = p" | "x \<noteq> p" "sq_color b x = EMPTY" | "x \<in> stones b" "sq_color b x = ?c" | "x \<in> stones b" "sq_color b x \<noteq> ?c"
    using x unfolding stones_def by blast
  then show ?thesis
  proof cases
    case 1
    then show ?thesis using p1 pc by (simp add: after_move_def without_def)
  next
    case 2
    then have "sq_color b1 x = EMPTY" using t1 [of x] by (auto simp: f0)
    then show ?thesis using 2 by (simp add: after_move_def without_def)
  next
    case 3
    then have "x \<noteq> p" "x \<notin> captured b rep p" using ps(3) by (auto simp: captured_def)
    then show ?thesis using 3 t2 [of x] by (simp add: after_move_def without_def f0)
  next
    case 4
    have x4: "sq_color b x \<noteq> EMPTY" using 4(1) by (simp add: stones_def)
    have xp: "x \<noteq> p" using 4 ps(3) by auto
    have "x \<in> stones b1 \<longleftrightarrow> x \<notin> captured b rep p"
    proof
      assume x1: "x \<in> stones b1"
      have cx: "sq_color b1 x = sq_color b x" using t1 [of x] x1 xp by (simp add: stones_def f0)
      have rx: "rep' x = rep x" using t3 [OF x1] cx 4(2) xp by simp
      have r: "rep' x \<in> stones b1" "rep' (rep' x) = rep' x" using root1 [OF x1] by simp_all
      have "rep' x \<noteq> p" using col1 [OF x1] p1 cx 4(2) by auto
      then have "ledges b1 (rep' x) \<noteq> 0" by (rule t6 [OF r])
      then obtain y m where ym: "(y, m) \<in> liberties b1" "rep' y = rep' x" using alive_liberty [OF g1 r] by auto
      have y1: "y \<in> stones b1" "m \<in> set (set_neighbours y)" "sq_color b1 m = EMPTY" using ym(1) by (simp_all add: liberties_def)
      have cy: "sq_color b1 y = sq_color b x" using col1 [OF y1(1)] col1 [OF x1] ym(2) cx by simp
      have yp: "y \<noteq> p" using cy 4(2) p1 by auto
      have ry: "rep y = rep x" using t3 [OF y1(1)] cy 4(2) yp ym(2) rx by simp
      have cyb: "sq_color b y = sq_color b x" using t1 [of y] y1(1) yp cy by (simp add: stones_def f0)
      have yb: "y \<in> stones b" using y1(1) cyb 4(1) by (simp add: stones_def)
      have ms: "m < squares" "y \<in> set (set_neighbours m)" using neighbours_facts(5,6) [OF _ y1(2)] y1(1) by (simp_all add: stones_def)
      have mp: "m \<noteq> p" using y1(3) p1 c0 by auto
      show "x \<notin> captured b rep p"
      proof
        assume "x \<in> captured b rep p"
        then have w: "weak b rep p (rep x)" by (simp add: captured_def)
        show False
        proof (cases "sq_color b m = EMPTY")
          case True
          then have "(y, m) \<in> liberties b" using yb y1(2) by (simp add: liberties_def)
          then show False using w ry mp unfolding weak_def by blast
        next
          case False
          then have mb: "m \<in> stones b" using ms(1) by (simp add: stones_def)
          have "sq_color b m \<noteq> ?c" using t2 [of m] y1(3) mp c0 by (auto simp: f0)
          then have "sq_color b y = sq_color b m" using False cyb 4(2) two [of m] two [of x] x4 two_c by auto
          then have "rep m = rep y" using me yb mb y1(2) unfolding merged_def by metis
          then have "m \<in> stones b1" using t4 [OF y1(1), of m] mb mp yp cyb 4(2) by (simp add: S0 f0)
          then show False using y1(3) by (simp add: stones_def)
        qed
      qed
    next
      assume nc: "x \<notin> captured b rep p"
      show "x \<in> stones b1"
      proof (rule ccontr)
        assume x1: "x \<notin> stones b1"
        then have xd: "x \<in> stones ?b0 - stones b1" using 4(1) by (simp add: S0)
        obtain n where n: "n \<in> set (set_neighbours p)" "n \<in> stones ?b0" "?rep0 n = ?rep0 x" using t5 [OF xd] by blast
        have "n \<noteq> p" using n(1) neighbours_facts(2) [OF ps(1)] by auto
        then have "rep x \<in> neighbour_groups b rep p" unfolding neighbour_groups_def using n xp by (intro image_eqI [of _ _ n]) (auto simp: S0)
        moreover have "weak b rep p (rep x)"
          unfolding weak_def
        proof (clarify)
          fix y m assume ym: "(y, m) \<in> liberties b" "rep y = rep x"
          have yb: "y \<in> stones b" "m \<in> set (set_neighbours y)" "sq_color b m = EMPTY" using ym(1) by (simp_all add: liberties_def)
          have yp: "y \<noteq> p" using yb(1) ps(3) by auto
          have "sq_color b y = sq_color b x" using col [OF yb(1)] col [OF 4(1)] ym(2) by simp
          then have "y \<notin> stones b1" using t4 [of y x] x1 4 yp xp ym(2) by (auto simp: S0 f0)
          then have "sq_color ?b0 m \<noteq> EMPTY" using t5 [of y] yb by (simp add: S0)
          then show "m = p" using yb(3) by (auto simp: f0 split: if_splits)
        qed
        ultimately show False using nc 4 by (simp add: captured_def)
      qed
    qed
    moreover have "sq_color b1 x \<noteq> EMPTY \<Longrightarrow> sq_color b1 x = sq_color b x" using t1 [of x] xp by (simp add: f0)
    ultimately show ?thesis using x xp by (auto simp: after_move_def without_def stones_def)
  qed
qed

lemma zobrist_cong: "(\<And>x. x < squares \<Longrightarrow> c x = d x) \<Longrightarrow> zobrist_of zs c = zobrist_of zs d"
  unfolding zobrist_of_def by (rule fold_cong) auto

lemma connectedD: "connected G \<Longrightarrow> T \<subseteq> G \<Longrightarrow> x \<in> T \<Longrightarrow> closed_in G T T \<Longrightarrow> T = G"
  unfolding connected_def by blast

text \<open>A move that is worth it leaves its own group a liberty.\<close>

lemma worth_liberty:
  assumes inv: "board_inv b rep rk" and p: "p \<in> free b" and w: "worth b rep p"
    and mv: "moving p (color b) (length (set_neighbours p)) rep' rk' b1" and ca: "\<And>x. x < squares \<Longrightarrow> sq_color b1 x = after_move b rep p x"
  shows "ledges b1 p \<noteq> 0"
proof -
  let ?c = "color b"
  have g: "groups_ok b rep rk (liberties b)" and c0: "?c \<noteq> EMPTY" using inv by (auto simp: board_inv_def)
  have col: "sq_color b (rep x) = sq_color b x" and con: "connected {y \<in> stones b. rep y = rep x}" if "x \<in> stones b" for x
    using g that by (simp_all add: groups_ok_def)
  have li: "linked (stones b) rep rk (reference b)" using g by (simp add: groups_ok_def)
  have ps: "p < squares" "sq_color b p = EMPTY" "p \<notin> stones b" using p by (simp_all add: free_def stones_def)
  have p1: "p \<in> stones b1" "rep' p = p" "sq_color b1 p = ?c" using mv c0 by (auto simp: moving_def stones_def)
  note fin = moving_finished [OF mv]
  have nb: "n < squares" "n \<noteq> p" if "n \<in> set (set_neighbours p)" for n
    using neighbours_facts(2,5) [OF ps(1)] that by auto
  have empty1: "sq_color b1 n = EMPTY" if "n < squares" "n \<noteq> p" "sq_color b n = EMPTY" for n
    using ca [OF that(1)] that by (simp add: after_move_def without_def)
  have own1: "x \<in> stones b1 \<and> sq_color b1 x = ?c" if "x \<in> stones b" "sq_color b x = ?c" for x
  proof -
    have "x \<noteq> p" "x < squares" using that(1) ps(3) by (auto simp: stones_def)
    then show ?thesis using ca [of x] that c0 by (simp add: after_move_def without_def captured_def stones_def)
  qed
  have "\<exists>(x, n) \<in> liberties b1. rep' x = p"
  proof -
    consider (space) n where "n \<in> set (set_neighbours p)" "sq_color b n = EMPTY"
      | (take) r where "r \<in> neighbour_groups b rep p" "sq_color b r \<noteq> ?c" "weak b rep p r"
      | (join) r where "r \<in> neighbour_groups b rep p" "sq_color b r = ?c" "\<not> weak b rep p r"
      using w unfolding worth_def by blast
    then show ?thesis
    proof cases
      case space
      then have "(p, n) \<in> liberties b1" using p1(1) empty1 [OF nb [OF space(1)]] by (simp add: liberties_def)
      then show ?thesis using p1(2) by blast
    next
      case take
      then obtain m where m: "m \<in> set (set_neighbours p)" "m \<in> stones b" "rep m = r" by (auto simp: neighbour_groups_def)
      then have "m \<in> captured b rep p" using take col [OF m(2)] by (simp add: captured_def)
      then have "sq_color b1 m = EMPTY" using ca [OF nb(1) [OF m(1)]] by (simp add: after_move_def without_def)
      then have "(p, m) \<in> liberties b1" using p1(1) m(1) by (simp add: liberties_def)
      then show ?thesis using p1(2) by blast
    next
      case join
      then obtain m where m: "m \<in> set (set_neighbours p)" "m \<in> stones b" "rep m = r" by (auto simp: neighbour_groups_def)
      obtain x n where xn: "(x, n) \<in> liberties b" "rep x = r" "n \<noteq> p" using join(3) by (auto simp: weak_def)
      have xb: "x \<in> stones b" "n \<in> set (set_neighbours x)" "sq_color b n = EMPTY" using xn(1) by (simp_all add: liberties_def)
      let ?K = "{y \<in> stones b. rep y = r}"
      have K: "y \<in> stones b1 \<and> sq_color b1 y = ?c" if "y \<in> ?K" for y
        using own1 [of y] col [of y] that join(2) by simp
      have same: "rep' y = rep' z" if "y \<in> stones b1" "z \<in> stones b1" "sq_color b1 y = ?c" "sq_color b1 z = ?c" "z \<in> set (set_neighbours y)" for y z
        using fin(2) that unfolding merged_def by metis
      have mp: "rep' m = p" using same [OF p1(1) _ p1(3) _ m(1)] K [of m] m p1(2) by simp
      have "closed_in ?K {y \<in> ?K. rep' y = p} {y \<in> ?K. rep' y = p}"
        unfolding closed_in_def
      proof (intro ballI subsetI)
        fix y z assume y: "y \<in> {y \<in> ?K. rep' y = p}" and z: "z \<in> set (set_neighbours y) \<inter> ?K"
        have "y \<in> ?K" "rep' y = p" "z \<in> ?K" "z \<in> set (set_neighbours y)" using y z by blast+
        then have "rep' z = p" using same [of y z] K [of y] K [of z] by metis
        then show "z \<in> {y \<in> ?K. rep' y = p}" using \<open>z \<in> ?K\<close> by blast
      qed
      moreover have "connected ?K" using con [OF m(2)] m(3) by simp
      moreover have "m \<in> {y \<in> ?K. rep' y = p}" using m mp by simp
      ultimately have "{y \<in> ?K. rep' y = p} = ?K" by (intro connectedD) auto
      then have "rep' x = p" using xb(1) xn(2) by blast
      moreover have "n < squares" using neighbours_facts(5) [OF _ xb(2)] xb(1) by (simp add: stones_def)
      then have "(x, n) \<in> liberties b1" using K [of x] xb xn empty1 by (simp add: liberties_def)
      ultimately show ?thesis by blast
    qed
  qed
  then show ?thesis using alive_liberty [OF fin(1) p1(1,2)] by blast
qed

lemma legal_square: "p \<in> free b \<Longrightarrow> legal (int p) b" "p \<in> free b \<Longrightarrow> int p \<noteq> PASS"
  by (simp_all add: legal_def PASS_def)

text \<open>Moves on a board on which every group has a liberty.\<close>

lemma board_move_result:
  assumes inv: "board_inv b rep rk" and al: "alive b rep" and p: "p \<in> free b"
  shows "\<exists>b' rep' rk'. board_move (int p) b = Inr b' \<and> board_inv b' rep' rk' \<and> (\<forall>x < squares. sq_color b' x = after_move b rep p x) \<and>
    (worth b rep p \<longrightarrow> alive b' rep') \<and> zhash b' = zobrist_of (zobrist_strings b) (after_move b rep p) \<and>
    zobrist_strings b' = zobrist_strings b \<and> hash_set b' = insert (zhash b') (hash_set b) \<and> used b' = (used b)(p := True) \<and>
    color b' = (if color b = BLACK then WHITE else BLACK) \<and> history b' = history b @ [int p] \<and> finished b' = finished b \<and>
    lastmove b' = int p \<and> calls b' = calls b"
proof -
  have c: "color b \<in> {WHITE, BLACK}" using inv by (simp add: board_inv_def)
  have ps: "p < squares" "p \<notin> stones b" using p by (simp_all add: free_def stones_def)
  obtain rep' rk' b1 where b1: "square_move p (color b) b = Inr (zobrist_add b1)"
    and mv: "moving p (color b) (length (set_neighbours p)) rep' rk' b1"
    and tr: "track True p (color b) (rep(p := p)) (put_stone p (color b) b) rep' b1"
    using square_move_ok [OF inv p c, of True] al unfolding alive_def by blast
  have ca: "sq_color b1 x = after_move b rep p x" if "x < squares" for x
    using square_move_color [OF inv p mv tr that] .
  let ?b2 = "zobrist_add b1"
  have em: "emptyset_ok (insert p (free b1)) (empties ?b2) (empty_pos ?b2)" using mv by (simp add: moving_def zobrist_add_def)
  obtain es ep where r: "emptyset_remove p ?b2 = Inr (?b2\<lparr>empties := es, empty_pos := ep\<rparr>)" "emptyset_ok (insert p (free b1) - {p}) es ep"
    using emptyset_remove_ok [OF em] by blast
  have "p \<notin> free b1" using mv by (auto simp: moving_def free_def)
  then have em': "emptyset_ok (free b1) es ep" using r(2) by simp
  let ?b3 = "?b2\<lparr>empties := es, empty_pos := ep, color := (if color ?b2 = BLACK then WHITE else BLACK), lastmove := int p, history := history ?b2 @ [int p]\<rparr>"
  have "py_get [0..<squares] (int p) = Inr p" using ps(1) by (simp add: py_get_def py_index_def Let_def)
  then have mo: "board_move (int p) b = Inr ?b3" using b1 r(1) by (simp add: board_move_def PASS_def)
  have re: "relevant ?b3 = relevant b1" by (simp add: relevant_def zobrist_add_def)
  note f = relevant_facts [OF re]
  have inv': "board_inv ?b3 rep' rk'"
    using moving_finished [OF mv] mv em' unfolding board_inv_def f by (simp add: moving_def)
  have "core b1 = core (put_stone p (color b) b)" using tr by (simp add: track_def)
  note cf = core_facts [OF this]
  have zb: "zobrist_strings b1 = zobrist_strings b" using cf(3) by (simp add: put_stone_fields)
  have "zhash b1 = zobrist_of (zobrist_strings b1) (sq_color b1)" using mv by (simp add: moving_def position_ok_def)
  then have zh: "zhash b1 = zobrist_of (zobrist_strings b) (after_move b rep p)" unfolding zb using zobrist_cong [OF ca] by simp
  have "alive ?b3 rep'" if w: "worth b rep p"
    unfolding alive_def f(1)
  proof (intro ballI impI)
    fix r assume r: "r \<in> stones b1" "rep' r = r"
    show "ledges ?b3 r \<noteq> 0"
    proof (cases "r = p")
      case True
      then show ?thesis using worth_liberty [OF inv p w mv ca] by (simp add: zobrist_add_def)
    next
      case False
      then show ?thesis using tr r by (simp add: track_def zobrist_add_def)
    qed
  qed
  then show ?thesis using mo inv' ca zh zb cf by (intro exI [of _ ?b3] exI [of _ rep'] exI [of _ rk']) (simp add: zobrist_add_def put_stone_fields)
qed

lemma alive_quiet: "quiet b' = quiet b \<Longrightarrow> alive b' rep \<longleftrightarrow> alive b rep"
  using quiet_facts [of b' b] by (simp add: alive_def)

lemma alive_reset: "board_inv b rep rk \<Longrightarrow> alive (board_reset b) rep'"
  by (simp add: alive_def stones_def board_reset_def ZobristHash_def EmptySet_def Let_def)

lemma pass_result:
  assumes "board_inv b rep rk" and "alive b rep"
  shows "\<exists>b'. board_move PASS b = Inr b' \<and> board_inv b' rep rk \<and> alive b' rep \<and> quiet (b'\<lparr>finished := False, color := 0, lastmove := 0, history := []\<rparr>) =
    quiet (b\<lparr>finished := False, color := 0, lastmove := 0, history := []\<rparr>) \<and> finished b' = (finished b \<or> lastmove b = PASS) \<and>
    lastmove b' = PASS \<and> history b' = history b @ [PASS] \<and> color b' = (if color b = BLACK then WHITE else BLACK)"
proof -
  let ?b = "(if lastmove b = PASS then b\<lparr>finished := True\<rparr> else b)
    \<lparr>color := (if color b = BLACK then WHITE else BLACK), lastmove := PASS, history := history b @ [PASS]\<rparr>"
  have "board_move PASS b = Inr ?b"
    by (simp add: board_move_def PASS_def py_get_def py_index_def Let_def squares_81)
  moreover have re: "relevant ?b = relevant b" by (simp add: relevant_def)
  note f = relevant_facts [OF re]
  have "board_inv ?b rep rk" using assms(1) unfolding board_inv_def f by simp
  moreover have "alive ?b rep" using assms(2) unfolding alive_def f by simp
  ultimately show ?thesis by (intro exI [of _ ?b]) (simp add: quiet_def)
qed

end
