(* ===== verification/GoGame.thy ===== *)
theory GoGame
  imports GoLive "HOL-Library.Multiset"
begin

text \<open>
  Games: the random choice of a move, random playouts, and what holds of every board that a game
  reaches, \<open>check\<close> included.
\<close>

section \<open>The random choice\<close>

text \<open>What neither \<open>useful\<close> nor the order of \<open>empties\<close> changes.\<close>

definition still :: "board \<Rightarrow> board" where
  "still b = (quiet b)\<lparr>empties := [], empty_pos := [], calls := 0\<rparr>"

lemma still_quiet: "quiet b = quiet b' \<Longrightarrow> still b = still b'"
  by (simp add: still_def)

lemma still_updates [simp]: "still (b\<lparr>empties := es\<rparr>) = still b" "still (b\<lparr>empty_pos := ep\<rparr>) = still b" "still (b\<lparr>calls := n\<rparr>) = still b"
  by (simp_all add: still_def quiet_def)

lemma still_facts:
  assumes "still b = still b'"
  shows "sq_color b = sq_color b'" "reference b = reference b'" "ledges b = ledges b'" "neighbours b = neighbours b'"
    "zobrist_strings b = zobrist_strings b'" "color b = color b'" "hash_set b = hash_set b'" "zhash b = zhash b'"
    "used b = used b'" "finished b = finished b'" "lastmove b = lastmove b'" "history b = history b'"
    "stones b = stones b'" "liberties b = liberties b'" "free b = free b'" "worth b rep p \<longleftrightarrow> worth b' rep p"
    "alive b rep \<longleftrightarrow> alive b' rep"
proof -
  show f: "sq_color b = sq_color b'" "reference b = reference b'" "ledges b = ledges b'" "neighbours b = neighbours b'"
    "zobrist_strings b = zobrist_strings b'" "color b = color b'" "hash_set b = hash_set b'" "zhash b = zhash b'"
    "used b = used b'" "finished b = finished b'" "lastmove b = lastmove b'" "history b = history b'"
    using assms by (cases b, cases b', simp add: still_def quiet_def)+
  then show g: "stones b = stones b'" "liberties b = liberties b'" "free b = free b'" by (simp_all add: stones_def liberties_def free_def)
  show "worth b rep p \<longleftrightarrow> worth b' rep p"
    unfolding worth_def after_move_def captured_def neighbour_groups_def weak_def f g ..
  show "alive b rep \<longleftrightarrow> alive b' rep" unfolding alive_def f g ..
qed

lemma emptyset_swap:
  assumes "emptyset_ok E es ep" and "i \<le> n" and "n < length es"
  shows "emptyset_ok E (es[i := es ! n, n := es ! i]) (ep[es ! n := i, es ! i := n])"
proof -
  have d: "distinct es" and S: "set es = E" "E \<subseteq> {..<squares}" and l: "length ep = squares" and pos: "\<And>k. k < length es \<Longrightarrow> ep ! (es ! k) = k"
    using assms(1) by (auto simp: emptyset_ok_def)
  have i: "i < length es" using assms by simp
  have b: "es ! k < squares" if "k < length es" for k using S that nth_mem by blast
  have "mset (es[i := es ! n, n := es ! i]) = mset es" by (rule mset_swap [OF assms(3) i])
  then have "distinct (es[i := es ! n, n := es ! i])" "set (es[i := es ! n, n := es ! i]) = E"
    using d S(1) by (metis mset_eq_imp_distinct_iff, metis mset_eq_setD)
  moreover have "ep[es ! n := i, es ! i := n] ! (es[i := es ! n, n := es ! i] ! k) = k" if k: "k < length es" for k
    using d pos [OF k] k i assms(3) b l by (auto simp: nth_list_update nth_eq_iff_index_eq)
  ultimately show ?thesis using S l by (simp add: emptyset_ok_def)
qed

lemma emptyset_set_ok:
  "i < length (empties b) \<Longrightarrow> pos < length (empty_pos b) \<Longrightarrow>
   emptyset_set i pos b = Inr (b\<lparr>empties := (empties b)[i := pos], empty_pos := (empty_pos b)[pos := i]\<rparr>)"
  by (simp add: emptyset_set_def)

lemma board_inv_empties:
  "board_inv b rep rk \<Longrightarrow> emptyset_ok (free b) es ep \<Longrightarrow> board_inv (b\<lparr>empties := es, empty_pos := ep\<rparr>) rep rk"
proof -
  assume a: "board_inv b rep rk" "emptyset_ok (free b) es ep"
  have "relevant (b\<lparr>empties := es, empty_pos := ep\<rparr>) = relevant b" by (simp add: relevant_def)
  note f = relevant_facts [OF this]
  show ?thesis using a unfolding board_inv_def f by simp
qed

lemma board_inv_calls: "board_inv b rep rk \<Longrightarrow> board_inv (b\<lparr>calls := n\<rparr>) rep rk"
proof -
  assume a: "board_inv b rep rk"
  have "relevant (b\<lparr>calls := n\<rparr>) = relevant b" by (simp add: relevant_def)
  note f = relevant_facts [OF this]
  show ?thesis using a unfolding board_inv_def f by simp
qed

text \<open>The loop: the squares behind \<open>choices\<close> have been found useless.\<close>

lemma choice_loop_ok:
  assumes rand: "\<And>k n. 0 < n \<Longrightarrow> rand k n < n"
  shows "board_inv b rep rk \<Longrightarrow> n \<le> length (empties b) \<Longrightarrow> \<forall>k. n \<le> k \<longrightarrow> k < length (empties b) \<longrightarrow> \<not> worth b rep (empties b ! k) \<Longrightarrow>
    \<exists>pos b'. choice_loop rand n b = Inr (pos, b') \<and> board_inv b' rep rk \<and> still b' = still b \<and>
      (if pos = PASS then \<forall>p \<in> free b. \<not> worth b rep p else \<exists>p \<in> free b. pos = int p \<and> worth b rep p)"
proof (induction n arbitrary: b)
  case 0
  have "set (empties b) = free b" using 0(1) by (simp add: board_inv_def emptyset_ok_def)
  then have "\<not> worth b rep p" if "p \<in> free b" for p using 0(3) that by (metis in_set_conv_nth le0)
  then show ?case using 0(1) by simp
next
  case (Suc n)
  let ?i = "rand (calls b) (Suc n)" and ?b1 = "b\<lparr>calls := calls b + 1\<rparr>"
  let ?p = "empties b ! ?i"
  have i: "?i \<le> n" "?i < length (empties b)" using rand [of "Suc n" "calls b"] Suc.prems(2) by auto
  have em: "emptyset_ok (free b) (empties b) (empty_pos b)" using Suc.prems(1) by (simp add: board_inv_def)
  have p: "?p \<in> free b" "?p < squares" using em i(2) nth_mem [OF i(2)] by (auto simp: emptyset_ok_def)
  have inv1: "board_inv ?b1 rep rk" using Suc.prems(1) by (rule board_inv_calls)
  have s1: "still ?b1 = still b" by simp
  obtain b2 where b2: "useful ?p ?b1 = Inr (worth b rep ?p, b2)" "quiet b2 = quiet ?b1" "board_inv b2 rep rk"
    using useful_ok [OF inv1, of ?p] p(1) still_facts [OF s1] by auto
  have s2: "still b2 = still b" using still_quiet [OF b2(2)] s1 by simp
  have e2: "empties b2 = empties b" "empty_pos b2 = empty_pos b" using quiet_facts [OF b2(2)] by simp_all
  note sf = still_facts [OF s2]
  show ?case
  proof (cases "worth b rep ?p")
    case True
    then have "choice_loop rand (Suc n) b = Inr (int ?p, b2)" using i(2) b2(1) by (simp add: Let_def)
    moreover have "int ?p \<noteq> PASS" by (simp add: PASS_def)
    ultimately show ?thesis using b2(3) s2 True p(1) by auto
  next
    case False
    let ?es = "(empties b)[?i := empties b ! n, n := ?p]" and ?ep = "(empty_pos b)[empties b ! n := ?i, ?p := n]"
    let ?b3 = "b2\<lparr>empties := ?es, empty_pos := ?ep\<rparr>"
    have n: "n < length (empties b)" using Suc.prems(2) by simp
    then have "empties b ! n \<in> free b" using em nth_mem by (auto simp: emptyset_ok_def)
    then have "empties b ! n < length (empty_pos b)" "?p < length (empty_pos b)" using em p(2) by (auto simp: emptyset_ok_def free_def)
    then have step: "choice_loop rand (Suc n) b = choice_loop rand n ?b3"
      using i(2) n b2(1) False e2 by (simp add: Let_def emptyset_set_ok)
    have "emptyset_ok (free b2) ?es ?ep" using emptyset_swap [OF em i(1) n] sf(15) by simp
    then have inv3: "board_inv ?b3 rep rk" by (rule board_inv_empties [OF b2(3)])
    have s3: "still ?b3 = still b" using s2 by simp
    note sf3 = still_facts [OF s3]
    have "\<not> worth ?b3 rep (empties ?b3 ! k)" if k: "n \<le> k" "k < length (empties ?b3)" for k
    proof (cases "k = n")
      case True
      then show ?thesis using False n sf3(16) by simp
    next
      case other: False
      then have "empties ?b3 ! k = empties b ! k" using k i(1) by simp
      then show ?thesis using Suc.prems(3) k other sf3(16) by simp
    qed
    then have "\<forall>k. n \<le> k \<longrightarrow> k < length (empties ?b3) \<longrightarrow> \<not> worth ?b3 rep (empties ?b3 ! k)" by blast
    moreover have "n \<le> length (empties ?b3)" using n by simp
    ultimately show ?thesis unfolding step using Suc.IH [OF inv3] s3 sf3(15,16) by metis
  qed
qed

lemma random_choice_ok:
  assumes "\<And>k n. 0 < n \<Longrightarrow> rand k n < n" and "board_inv b rep rk"
  shows "\<exists>pos b'. random_choice rand b = Inr (pos, b') \<and> board_inv b' rep rk \<and> still b' = still b \<and>
      (if pos = PASS then \<forall>p \<in> free b. \<not> worth b rep p else \<exists>p \<in> free b. pos = int p \<and> worth b rep p)"
  unfolding random_choice_def using choice_loop_ok [OF assms(1), of b rep rk "length (empties b)"] assms(2) by auto

lemma random_playout_ok:
  assumes rand: "\<And>k n. 0 < n \<Longrightarrow> rand k n < n"
  shows "board_inv b rep rk \<Longrightarrow> alive b rep \<Longrightarrow>
    \<exists>b' rep' rk'. random_playout n rand b = Inr b' \<and> board_inv b' rep' rk' \<and> alive b' rep' \<and>
      (finished b' \<or> length (history b') = length (history b) + n)"
proof (induction n arbitrary: b rep rk)
  case 0
  then show ?case by auto
next
  case (Suc n)
  show ?case
  proof (cases "finished b")
    case True
    then show ?thesis using Suc.prems by auto
  next
    case False
    obtain pos b1 where b1: "random_choice rand b = Inr (pos, b1)" "board_inv b1 rep rk" "still b1 = still b"
      "if pos = PASS then \<forall>p \<in> free b. \<not> worth b rep p else \<exists>p \<in> free b. pos = int p \<and> worth b rep p"
      using random_choice_ok [where rand = rand, OF rand Suc.prems(1)] by blast
    note sf = still_facts [OF b1(3)]
    have al: "alive b1 rep" using Suc.prems(2) sf(17) by simp
    obtain b2 rep2 rk2 where b2: "board_move pos b1 = Inr b2" "board_inv b2 rep2 rk2" "alive b2 rep2" "history b2 = history b @ [pos]"
    proof (cases "pos = PASS")
      case True
      then show ?thesis using pass_result [OF b1(2) al] that sf(12) by force
    next
      case no: False
      then obtain p where p: "p \<in> free b" "pos = int p" "worth b rep p" using b1(4) by auto
      then have "p \<in> free b1" "worth b1 rep p" using sf by simp_all
      then show ?thesis using board_move_result [OF b1(2) al] that p(2) sf(12) by metis
    qed
    have "\<exists>b' rep' rk'. random_playout n rand b2 = Inr b' \<and> board_inv b' rep' rk' \<and> alive b' rep' \<and>
      (finished b' \<or> length (history b') = length (history b2) + n)" by (rule Suc.IH [OF b2(2,3)])
    then show ?thesis using False b1(1) b2(1,4) by (simp add: random_move_def)
  qed
qed


section \<open>The check\<close>

definition group :: "board \<Rightarrow> (nat \<Rightarrow> nat) \<Rightarrow> nat \<Rightarrow> nat set" where
  "group b rep x = {y \<in> stones b. rep y = rep x}"

lemma group_neighbour:
  assumes "board_inv b rep rk" and x: "x \<in> stones b" and m: "m \<in> group b rep x" and n: "n \<in> set (set_neighbours m)"
  shows "sq_color b n = sq_color b x \<longleftrightarrow> n \<in> group b rep x"
proof -
  have g: "\<forall>x \<in> stones b. sq_color b (rep x) = sq_color b x" and me: "merged b rep (\<lambda>x y. True)"
    using assms(1) by (simp_all add: board_inv_def groups_ok_def)
  have ms: "m \<in> stones b" "rep m = rep x" using m by (simp_all add: group_def)
  have cm: "sq_color b m = sq_color b x" using bspec [OF g ms(1)] bspec [OF g x] ms(2) by simp
  have n81: "n < squares" using neighbours_facts(5) [OF _ n] ms(1) by (simp add: stones_def)
  show ?thesis
  proof
    assume c: "sq_color b n = sq_color b x"
    then have "n \<in> stones b" using n81 x by (simp add: stones_def)
    then have "rep m = rep n" using me ms(1) n c cm unfolding merged_def by metis
    then show "n \<in> group b rep x" using \<open>n \<in> stones b\<close> ms(2) by (simp add: group_def)
  next
    assume "n \<in> group b rep x"
    then show "sq_color b n = sq_color b x" using bspec [OF g, of n] bspec [OF g x] by (simp add: group_def)
  qed
qed

lemma grow_step_ok:
  assumes "\<And>n. n \<in> set (neighbours b m) \<Longrightarrow> sq_color b n = c \<longleftrightarrow> n \<in> G" and "distinct ms" and "set ms \<subseteq> G"
  shows "\<exists>zs. grow_step b c m (ch, ms) = (ch \<or> zs \<noteq> [], ms @ zs) \<and> distinct (ms @ zs) \<and> set (ms @ zs) \<subseteq> G \<and>
    set (neighbours b m) \<inter> G \<subseteq> set (ms @ zs)"
proof -
  have "\<exists>zs. fold (\<lambda>neighbour (changed, ms). if sq_color b neighbour = c \<and> neighbour \<notin> set ms then (True, ms @ [neighbour]) else (changed, ms)) ns (ch, ms) =
      (ch \<or> zs \<noteq> [], ms @ zs) \<and> distinct (ms @ zs) \<and> set (ms @ zs) \<subseteq> G \<and> set ns \<inter> G \<subseteq> set (ms @ zs)"
    if "set ns \<subseteq> set (neighbours b m)" "distinct ms" "set ms \<subseteq> G" for ns ch ms
    using that
  proof (induction ns arbitrary: ch ms)
    case Nil
    then show ?case by (intro exI [of _ "[]"]) simp
  next
    case (Cons n ns)
    have n: "sq_color b n = c \<longleftrightarrow> n \<in> G" using assms(1) Cons.prems(1) by simp
    show ?case
    proof (cases "n \<in> G \<and> n \<notin> set ms")
      case True
      have "\<exists>zs. fold (\<lambda>neighbour (changed, ms). if sq_color b neighbour = c \<and> neighbour \<notin> set ms then (True, ms @ [neighbour]) else (changed, ms)) ns (True, ms @ [n]) =
        (True \<or> zs \<noteq> [], (ms @ [n]) @ zs) \<and> distinct ((ms @ [n]) @ zs) \<and> set ((ms @ [n]) @ zs) \<subseteq> G \<and> set ns \<inter> G \<subseteq> set ((ms @ [n]) @ zs)"
        using Cons.prems True by (intro Cons.IH) auto
      then obtain zs where "fold (\<lambda>neighbour (changed, ms). if sq_color b neighbour = c \<and> neighbour \<notin> set ms then (True, ms @ [neighbour]) else (changed, ms)) ns (True, ms @ [n]) =
        (True \<or> zs \<noteq> [], (ms @ [n]) @ zs)" "distinct ((ms @ [n]) @ zs)" "set ((ms @ [n]) @ zs) \<subseteq> G" "set ns \<inter> G \<subseteq> set ((ms @ [n]) @ zs)" by blast
      then show ?thesis using True n by (intro exI [of _ "n # zs"]) simp
    next
      case False
      then show ?thesis using Cons.IH [of ms ch] Cons.prems n by auto
    qed
  qed
  from this [of "neighbours b m" ms ch] assms(2,3) show ?thesis unfolding grow_step_def by simp
qed

lemma grow_fold_ok:
  assumes "\<And>m n. m \<in> G \<Longrightarrow> n \<in> set (neighbours b m) \<Longrightarrow> sq_color b n = c \<longleftrightarrow> n \<in> G"
  shows "set xs \<subseteq> G \<Longrightarrow> distinct ms \<Longrightarrow> set ms \<subseteq> G \<Longrightarrow>
    \<exists>zs. fold (grow_step b c) xs (ch, ms) = (ch \<or> zs \<noteq> [], ms @ zs) \<and> distinct (ms @ zs) \<and> set (ms @ zs) \<subseteq> G \<and>
      (\<forall>m \<in> set xs. set (neighbours b m) \<inter> G \<subseteq> set (ms @ zs))"
proof (induction xs arbitrary: ch ms)
  case Nil
  then show ?case by (intro exI [of _ "[]"]) simp
next
  case (Cons x xs)
  have "\<exists>zs. grow_step b c x (ch, ms) = (ch \<or> zs \<noteq> [], ms @ zs) \<and> distinct (ms @ zs) \<and> set (ms @ zs) \<subseteq> G \<and>
    set (neighbours b x) \<inter> G \<subseteq> set (ms @ zs)"
    using assms Cons.prems by (intro grow_step_ok) auto
  then obtain zs where zs: "grow_step b c x (ch, ms) = (ch \<or> zs \<noteq> [], ms @ zs)" "distinct (ms @ zs)" "set (ms @ zs) \<subseteq> G"
    "set (neighbours b x) \<inter> G \<subseteq> set (ms @ zs)" by blast
  have "set xs \<subseteq> G" using Cons.prems(1) by simp
  from Cons.IH [OF this zs(2,3), of "ch \<or> zs \<noteq> []"] obtain ws where
    "fold (grow_step b c) xs (ch \<or> zs \<noteq> [], ms @ zs) = ((ch \<or> zs \<noteq> []) \<or> ws \<noteq> [], (ms @ zs) @ ws)" "distinct ((ms @ zs) @ ws)"
    "set ((ms @ zs) @ ws) \<subseteq> G" "\<forall>m \<in> set xs. set (neighbours b m) \<inter> G \<subseteq> set ((ms @ zs) @ ws)" by blast
  then show ?case using zs(1,4) by (intro exI [of _ "zs @ ws"]) auto
qed

lemma grow_members_ok:
  assumes nb: "\<And>m n. m \<in> G \<Longrightarrow> n \<in> set (neighbours b m) \<Longrightarrow> sq_color b n = c \<longleftrightarrow> n \<in> G" and fin: "finite G"
    and con: "\<And>T x. T \<subseteq> G \<Longrightarrow> x \<in> T \<Longrightarrow> \<forall>y \<in> T. set (neighbours b y) \<inter> G \<subseteq> T \<Longrightarrow> T = G"
  shows "distinct ms \<Longrightarrow> set ms \<subseteq> G \<Longrightarrow> ms \<noteq> [] \<Longrightarrow> card G < fuel + length ms \<Longrightarrow>
    \<exists>ms'. grow_members fuel b c ms = Inr ms' \<and> distinct ms' \<and> set ms' = G"
proof (induction fuel arbitrary: ms)
  case 0
  then have "card (set ms) \<le> card G" by (intro card_mono fin)
  then show ?case using 0 distinct_card [of ms] by simp
next
  case (Suc fuel)
  from grow_fold_ok [of G b c ms ms False] nb Suc.prems(1,2) obtain zs where
    zs: "fold (grow_step b c) ms (False, ms) = (zs \<noteq> [], ms @ zs)" "distinct (ms @ zs)" "set (ms @ zs) \<subseteq> G"
    "\<forall>m \<in> set ms. set (neighbours b m) \<inter> G \<subseteq> set (ms @ zs)" by auto
  show ?case
  proof (cases "zs = []")
    case True
    obtain x where "x \<in> set ms" using Suc.prems(3) by (cases ms) auto
    then have "set ms = G" using con [of "set ms" x] zs(4) Suc.prems(2) True by simp
    then show ?thesis using zs(1) True Suc.prems(1) by simp
  next
    case False
    then have "card G < fuel + length (ms @ zs)" using Suc.prems(4) by (cases zs) auto
    then have "\<exists>ms'. grow_members fuel b c (ms @ zs) = Inr ms' \<and> distinct ms' \<and> set ms' = G"
      using Suc.prems(3) by (intro Suc.IH [OF zs(2,3)]) simp_all
    then show ?thesis using zs(1) False by simp
  qed
qed

lemma count_ledges_card:
  assumes "distinct ms" and "\<And>m. m \<in> set ms \<Longrightarrow> distinct (neighbours b m)"
  shows "count_ledges b ms = int (card {(x, n). x \<in> set ms \<and> n \<in> set (neighbours b x) \<and> sq_color b n = EMPTY})"
proof -
  have inner: "fold (\<lambda>neighbour n. if sq_color b neighbour = EMPTY then n + 1 else n) ns k = k + int (card {n \<in> set ns. sq_color b n = EMPTY})"
    if "distinct ns" for ns and k :: int
    using that
  proof (induction ns arbitrary: k)
    case (Cons n ns)
    have "{m \<in> set (n # ns). sq_color b m = EMPTY} = (if sq_color b n = EMPTY then insert n {m \<in> set ns. sq_color b m = EMPTY} else {m \<in> set ns. sq_color b m = EMPTY})"
      by auto
    with Cons show ?case by simp
  qed simp
  have "fold (\<lambda>member n. fold (\<lambda>neighbour n. if sq_color b neighbour = EMPTY then n + 1 else n) (neighbours b member) n) ms k =
      k + int (card {(x, n). x \<in> set ms \<and> n \<in> set (neighbours b x) \<and> sq_color b n = EMPTY})" for k :: int
    using assms
  proof (induction ms arbitrary: k)
    case (Cons m ms)
    let ?A = "{(x, n). x \<in> set ms \<and> n \<in> set (neighbours b x) \<and> sq_color b n = EMPTY}" and ?B = "{n \<in> set (neighbours b m). sq_color b n = EMPTY}"
    have "{(x, n). x \<in> set (m # ms) \<and> n \<in> set (neighbours b x) \<and> sq_color b n = EMPTY} = Pair m ` ?B \<union> ?A" by auto
    moreover have "Pair m ` ?B \<inter> ?A = {}" using Cons.prems(1) by auto
    moreover have "finite ?A" by (rule finite_subset [of _ "Sigma (set ms) (\<lambda>x. set (neighbours b x))"]) auto
    moreover have "card (Pair m ` ?B) = card ?B" by (intro card_image) (auto intro: inj_onI)
    ultimately have "card {(x, n). x \<in> set (m # ms) \<and> n \<in> set (neighbours b x) \<and> sq_color b n = EMPTY} = card ?B + card ?A"
      by (simp add: card_Un_disjoint)
    then show ?case using Cons inner [of "neighbours b m"] by simp
  qed simp
  from this [of 0] show ?thesis unfolding count_ledges_def by simp
qed

lemma check_square_ok:
  assumes inv: "board_inv b rep rk" and s: "s < squares"
  shows "check_square s b = Inr b"
proof (cases "sq_color b s = EMPTY")
  case True
  then show ?thesis by (simp add: check_square_def)
next
  case False
  have x: "s \<in> stones b" using False s by (simp add: stones_def)
  have nb: "neighbours b = set_neighbours" and li: "linked (stones b) rep rk (reference b)"
    and con: "connected (group b rep s)" and le: "ledges_ok (stones b) rep {} (liberties b) (ledges b)"
    using inv x by (simp_all add: board_inv_def position_ok_def groups_ok_def group_def)
  have S: "stones b \<subseteq> {..<squares}" by (auto simp: stones_def)
  let ?G = "group b rep s"
  have GS: "?G \<subseteq> stones b" by (auto simp: group_def)
  have "card ?G \<le> card {..<squares}" using GS S by (intro card_mono) auto
  then have "card ?G < Suc squares + length [s]" by simp
  moreover have "set [s] \<subseteq> ?G" using x by (simp add: group_def)
  moreover have "finite ?G" using GS by (rule finite_subset) simp
  moreover have "sq_color b n = sq_color b s \<longleftrightarrow> n \<in> ?G" if "m \<in> ?G" "n \<in> set (neighbours b m)" for m n
    using group_neighbour [OF inv x that(1)] that(2) unfolding nb by blast
  moreover have "T = ?G" if "T \<subseteq> ?G" "y \<in> T" "\<forall>y \<in> T. set (neighbours b y) \<inter> ?G \<subseteq> T" for T y
    using connectedD [OF con that(1,2)] that(3) unfolding nb closed_in_def by blast
  ultimately obtain ms where ms: "grow_members (Suc squares) b (sq_color b s) [s] = Inr ms" "distinct ms" "set ms = ?G"
    using grow_members_ok [of ?G b "sq_color b s" "[s]" "Suc squares"] by auto
  have f: "find False y b = Inr (rep y, b)" if "y \<in> stones b" for y using find_same [OF li S that] .
  have "for_each ys (same_root (rep s)) (zs, b) = Inr (zs @ filter (\<lambda>y. y \<in> ?G) ys, b)" if "set ys \<subseteq> {..<squares}" for ys zs
    using that
  proof (induction ys arbitrary: zs)
    case (Cons y ys)
    have "same_root (rep s) y (zs, b) = Inr (if y \<in> ?G then zs @ [y] else zs, b)"
      using Cons.prems f [of y] by (auto simp: same_root_def group_def stones_def)
    then show ?case using Cons by simp
  qed simp
  from this [of "[0..<squares]" "[]"]
  have m2: "for_each [0..<squares] (same_root (rep s)) ([], b) = Inr (filter (\<lambda>y. y \<in> ?G) [0..<squares], b)"
    by (simp add: lessThan_atLeast0)
  have "set (filter (\<lambda>y. y \<in> ?G) [0..<squares]) = ?G" using GS S by auto
  moreover have "count_ledges b ms = ledges b (rep s)"
  proof -
    have "count_ledges b ms = int (card {(x, n). x \<in> set ms \<and> n \<in> set (neighbours b x) \<and> sq_color b n = EMPTY})"
      using ms(2,3) GS S neighbours_facts(1) nb by (intro count_ledges_card) auto
    also have "{(x, n). x \<in> set ms \<and> n \<in> set (neighbours b x) \<and> sq_color b n = EMPTY} = {a \<in> liberties b. rep (fst a) = rep s}"
      unfolding ms(3) nb by (auto simp: group_def liberties_def)
    also have "int (card \<dots>) = ledges b (rep s)" using le linked_rep [OF li x] by (simp add: ledges_ok_def)
    finally show ?thesis .
  qed
  ultimately show ?thesis using False ms(1,3) f [OF x] m2 by (simp add: check_square_def Let_def)
qed

lemma check_ok: "board_inv b rep rk \<Longrightarrow> check b = Inr b"
  unfolding check_def using for_each_inv for_each_ok [of "\<lambda>u. u = b" b "[0..<squares]" check_square] check_square_ok [of b rep rk] by auto

end
