(* ===== verification/GoProperties.thy ===== *)
theory GoProperties
  imports GoGame
begin

text \<open>The properties of the Go board: its geometry, and what holds in every game.\<close>

section \<open>Geometry\<close>

text \<open>
  A position and its two coordinates determine each other, and the neighbours of a square are,
  each once, the squares of the board at distance one.
\<close>

theorem go_geometry:
  assumes "p < squares"
  shows "to_pos (fst (to_xy (int p))) (snd (to_xy (int p))) = int p \<and>
    (\<forall>x y. 0 \<le> x \<and> x < SIZE \<and> 0 \<le> y \<and> y < SIZE \<longrightarrow> to_xy (to_pos x y) = (x, y)) \<and>
    distinct (set_neighbours p) \<and>
    (q \<in> set (set_neighbours p) \<longleftrightarrow> q < squares \<and>
      \<bar>fst (to_xy (int q)) - fst (to_xy (int p))\<bar> + \<bar>snd (to_xy (int q)) - snd (to_xy (int p))\<bar> = 1)"
proof -
  obtain x y where p: "p = nat (y * 9 + x)" and xy: "0 \<le> x" "x < 9" "0 \<le> y" "y < 9" using position_xy [OF assms] .
  have to_xy: "to_xy (int (nat (b * 9 + a))) = (a, b)" if "0 \<le> a" "a < 9" "0 \<le> b" for a b
    using that by (simp add: to_xy_def SIZE_def)
  have px: "to_xy (int p) = (x, y)" unfolding p using to_xy [OF xy(1,2,3)] .
  have "q \<in> set (set_neighbours p) \<longleftrightarrow> q < squares \<and> \<bar>fst (to_xy (int q)) - x\<bar> + \<bar>snd (to_xy (int q)) - y\<bar> = 1"
  proof
    assume q: "q \<in> set (set_neighbours p)"
    then have "q < squares" by (rule neighbours_facts(5) [OF assms])
    moreover have "to_xy (int q) \<in> {(x - 1, y), (x + 1, y), (x, y - 1), (x, y + 1)}"
      using q xy to_xy [of "x - 1" y] to_xy [of "x + 1" y] to_xy [of x "y - 1"] to_xy [of x "y + 1"]
      unfolding p set_neighbours_xy [OF xy] by (auto split: if_splits)
    then have "\<bar>fst (to_xy (int q)) - x\<bar> + \<bar>snd (to_xy (int q)) - y\<bar> = 1" by auto
    ultimately show "q < squares \<and> \<bar>fst (to_xy (int q)) - x\<bar> + \<bar>snd (to_xy (int q)) - y\<bar> = 1" by blast
  next
    assume q: "q < squares \<and> \<bar>fst (to_xy (int q)) - x\<bar> + \<bar>snd (to_xy (int q)) - y\<bar> = 1"
    obtain u v where qe: "q = nat (v * 9 + u)" and uv: "0 \<le> u" "u < 9" "0 \<le> v" "v < 9" using position_xy [of q] q by blast
    have "to_xy (int q) = (u, v)" unfolding qe using to_xy [OF uv(1,2,3)] .
    then have "\<bar>u - x\<bar> + \<bar>v - y\<bar> = 1" using q by simp
    then consider "u = x - 1" "v = y" | "u = x + 1" "v = y" | "u = x" "v = y - 1" | "u = x" "v = y + 1" by linarith
    then show "q \<in> set (set_neighbours p)"
      unfolding p set_neighbours_xy [OF xy] qe using uv by cases auto
  qed
  moreover have "to_pos (fst (to_xy (int p))) (snd (to_xy (int p))) = int p" by (simp add: to_pos_def to_xy_def Let_def)
  moreover have "\<forall>x y. 0 \<le> x \<and> x < SIZE \<and> 0 \<le> y \<and> y < SIZE \<longrightarrow> to_xy (to_pos x y) = (x, y)"
    by (simp add: to_pos_def to_xy_def Let_def SIZE_def)
  ultimately show ?thesis using neighbours_facts(1) [OF assms] px by simp
qed

theorem go_geometry_witness: "31 \<in> set (set_neighbours 40) \<and> 32 \<notin> set (set_neighbours 40)"
proof -
  have "(40 :: nat) < squares" by (simp add: squares_81)
  then show ?thesis
    using go_geometry [of 40 31] go_geometry [of 40 32] by (simp add: to_xy_def Let_def SIZE_def squares_81)
qed

section \<open>Games\<close>

text \<open>
  The boards a game can reach: a new board, a reset, looking whether a move is useful, the random
  choice, passing, a move found useful, and, unless the game is \<open>strict\<close>, any move on an empty square.
\<close>

inductive game :: "(nat \<Rightarrow> nat \<Rightarrow> nat) \<Rightarrow> bool \<Rightarrow> board \<Rightarrow> bool" for rand strict where
  start: "game rand strict (Board rand ts mv k)"
| reset: "game rand strict b \<Longrightarrow> game rand strict (board_reset b)"
| look: "game rand strict b \<Longrightarrow> p \<in> free b \<Longrightarrow> useful p b = Inr (u, b1) \<Longrightarrow> game rand strict b1"
| choice: "game rand strict b \<Longrightarrow> random_choice rand b = Inr (pos, b1) \<Longrightarrow> game rand strict b1"
| pass: "game rand strict b \<Longrightarrow> board_move PASS b = Inr b1 \<Longrightarrow> game rand strict b1"
| useful_move: "game rand strict b \<Longrightarrow> p \<in> free b \<Longrightarrow> useful p b = Inr (True, b1) \<Longrightarrow>
    board_move (int p) b1 = Inr b2 \<Longrightarrow> game rand strict b2"
| any_move: "game rand strict b \<Longrightarrow> \<not> strict \<Longrightarrow> legal pos b \<Longrightarrow> board_move pos b = Inr b1 \<Longrightarrow> game rand strict b1"

definition random_ok :: "(nat \<Rightarrow> nat \<Rightarrow> nat) \<Rightarrow> bool" where
  "random_ok rand \<longleftrightarrow> (\<forall>k n. 0 < n \<longrightarrow> rand k n < n)"

lemma game_inv:
  assumes "game rand strict b" and "random_ok rand"
  shows "\<exists>rep rk. board_inv b rep rk \<and> (strict \<longrightarrow> alive b rep)"
  using assms(1)
proof induction
  case (start ts mv k)
  have "alive (Board rand ts mv k) rep" for rep
    by (simp add: alive_def stones_def Board_def board_reset_def ZobristHash_def EmptySet_def Let_def)
  then show ?case using Board_ok by blast
next
  case (reset b)
  then show ?case using board_inv_reset alive_reset by blast
next
  case (look b p u b1)
  then obtain rep rk where inv: "board_inv b rep rk" "strict \<longrightarrow> alive b rep" by blast
  from useful_ok [OF inv(1) look.hyps(2)] look.hyps(3) have "quiet b1 = quiet b" "board_inv b1 rep rk" by auto
  then show ?case using inv(2) alive_quiet by blast
next
  case (choice b pos b1)
  then obtain rep rk where inv: "board_inv b rep rk" "strict \<longrightarrow> alive b rep" by blast
  have "\<And>k n. 0 < n \<Longrightarrow> rand k n < n" using assms(2) by (simp add: random_ok_def)
  from random_choice_ok [where rand = rand, OF this inv(1)] choice.hyps(2) have "still b1 = still b" "board_inv b1 rep rk" by auto
  then show ?case using inv(2) still_facts(17) by blast
next
  case (pass b b1)
  then obtain rep rk where inv: "board_inv b rep rk" "strict \<longrightarrow> alive b rep" by blast
  show ?case
  proof (cases strict)
    case True
    then show ?thesis using pass_result [OF inv(1)] inv(2) pass.hyps(2) by auto
  next
    case False
    then show ?thesis using board_move_ok [OF inv(1), of PASS] pass.hyps(2) by (auto simp: legal_def)
  qed
next
  case (useful_move b p b1 b2)
  then obtain rep rk where inv: "board_inv b rep rk" "strict \<longrightarrow> alive b rep" by blast
  from useful_ok [OF inv(1) useful_move.hyps(2)] useful_move.hyps(3)
  have b1: "quiet b1 = quiet b" "board_inv b1 rep rk" "worth b rep p" by auto
  have p: "p \<in> free b1" "worth b1 rep p" using useful_move.hyps(2) b1(3) quiet_facts(18) [OF b1(1)] still_facts(16) [OF still_quiet [OF b1(1)]] by simp_all
  show ?case
  proof (cases strict)
    case True
    then have "alive b1 rep" using inv(2) alive_quiet [OF b1(1)] by simp
    from board_move_result [OF b1(2) this p(1)] p(2) useful_move.hyps(4) show ?thesis by auto
  next
    case False
    then show ?thesis using board_move_ok [OF b1(2) legal_square(1) [OF p(1)]] useful_move.hyps(4) by auto
  qed
next
  case (any_move b pos b1)
  then obtain rep rk where inv: "board_inv b rep rk" by blast
  show ?case using board_move_ok [OF inv any_move.hyps(3)] any_move.hyps(2,4) by auto
qed

text \<open>
  C31: on every board that a game reaches, moves on any empty square included, the check of the board
  passes: the references split the stones into the groups of adjacent stones of one colour, and the
  counter of each group is the number of its liberties. The empty squares are listed, each once, the
  hash is that of the position, and every pass and every move on an empty square succeeds.
\<close>

theorem go_check:
  assumes "random_ok rand" and "game rand False b"
  shows "check b = Inr b \<and> distinct (empties b) \<and> set (empties b) = {p. p < squares \<and> sq_color b p = EMPTY} \<and>
    zhash b = fold (\<lambda>s h. h XOR zobrist_strings b s ! sq_color b s) [0..<squares] 0 \<and>
    (\<exists>b'. board_move PASS b = Inr b' \<and> game rand False b') \<and>
    (\<forall>p \<in> set (empties b). \<exists>b'. board_move (int p) b = Inr b' \<and> game rand False b')"
proof -
  obtain rep rk where inv: "board_inv b rep rk" using game_inv [OF assms(2,1)] by blast
  have es: "distinct (empties b)" "set (empties b) = {p. p < squares \<and> sq_color b p = EMPTY}"
    using inv by (simp_all add: board_inv_def emptyset_ok_def free_def)
  have zh: "zhash b = fold (\<lambda>s h. h XOR zobrist_strings b s ! sq_color b s) [0..<squares] 0"
    using inv by (simp add: board_inv_def position_ok_def zobrist_of_def)
  have mv: "\<exists>b'. board_move pos b = Inr b' \<and> game rand False b'" if l: "legal pos b" for pos
  proof -
    obtain b' where "board_move pos b = Inr b'" using board_move_ok [OF inv l] by blast
    then show ?thesis using game.any_move [OF assms(2) _ l] by blast
  qed
  have "\<exists>b'. board_move (int p) b = Inr b' \<and> game rand False b'" if "p \<in> set (empties b)" for p
    using that es(2) by (intro mv legal_square(1)) (simp add: free_def)
  then show ?thesis using check_ok [OF inv] es zh mv [of PASS] by (simp add: legal_def)
qed

definition first_choice :: "nat \<Rightarrow> nat \<Rightarrow> nat" where
  "first_choice k n = 0"

lemma first_choice_ok: "random_ok first_choice"
  by (simp add: random_ok_def first_choice_def)

theorem go_check_witness:
  "\<exists>b. board_move 40 (Board first_choice 0 0 0) = Inr b \<and> check (Board first_choice 0 0 0) = Inr (Board first_choice 0 0 0)"
proof -
  have "40 \<in> set (empties (Board first_choice 0 0 0))"
    by (simp add: Board_def board_reset_def ZobristHash_def EmptySet_def Let_def squares_81)
  then show ?thesis using go_check [OF first_choice_ok game.start [of first_choice False 0 0 0]] by (metis of_nat_numeral)
qed

text \<open>
  C32: in a game of passes and of moves found useful, \<open>useful\<close> changes no stone; a move it finds
  useful succeeds and leaves every stone on the board in a group that has a liberty, and unless the
  square was never used before, the position after it is not among those the hash remembers.
\<close>

theorem go_useful:
  assumes "random_ok rand" and "game rand True b" and "p < squares" and "sq_color b p = EMPTY"
  shows "\<exists>u b1. useful p b = Inr (u, b1) \<and> sq_color b1 = sq_color b \<and> empties b1 = empties b \<and> zhash b1 = zhash b \<and>
    (u \<longrightarrow> (\<exists>b2. board_move (int p) b1 = Inr b2 \<and> game rand True b2 \<and>
       (\<forall>x < squares. sq_color b2 x \<noteq> EMPTY \<longrightarrow> (\<exists>r. find False x b2 = Inr (r, b2) \<and> 0 < ledges b2 r)) \<and>
       (used b p \<longrightarrow> zhash b2 \<notin> hash_set b)))"
proof -
  obtain rep rk where inv: "board_inv b rep rk" and al: "alive b rep" using game_inv [OF assms(2,1)] by blast
  have p: "p \<in> free b" using assms(3,4) by (simp add: free_def)
  obtain b1 where b1: "useful p b = Inr (worth b rep p, b1)" "quiet b1 = quiet b" "board_inv b1 rep rk"
    using useful_ok [OF inv p] by blast
  note q = quiet_facts [OF b1(2)]
  have same: "worth b1 rep p = worth b rep p" using still_facts(16) [OF still_quiet [OF b1(2)]] by simp
  have am: "after_move b1 rep p = after_move b rep p"
    unfolding after_move_def captured_def neighbour_groups_def weak_def q ..
  have "\<exists>b2. board_move (int p) b1 = Inr b2 \<and> game rand True b2 \<and>
       (\<forall>x < squares. sq_color b2 x \<noteq> EMPTY \<longrightarrow> (\<exists>r. find False x b2 = Inr (r, b2) \<and> 0 < ledges b2 r)) \<and>
       (used b p \<longrightarrow> zhash b2 \<notin> hash_set b)" if w: "worth b rep p"
  proof -
    have al1: "alive b1 rep" and p1: "p \<in> free b1" using al p alive_quiet [OF b1(2)] q(18) by simp_all
    obtain b2 rep' rk' where b2: "board_move (int p) b1 = Inr b2" "board_inv b2 rep' rk'" "alive b2 rep'"
      "zhash b2 = zobrist_of (zobrist_strings b1) (after_move b1 rep p)"
      using board_move_result [OF b1(3) al1 p1] same w by blast
    have "\<exists>r. find False x b2 = Inr (r, b2) \<and> 0 < ledges b2 r" if "x < squares" "sq_color b2 x \<noteq> EMPTY" for x
    proof -
      have x: "x \<in> stones b2" using that by (simp add: stones_def)
      have li: "linked (stones b2) rep' rk' (reference b2)" and le: "ledges_ok (stones b2) rep' {} (liberties b2) (ledges b2)"
        using b2(2) by (simp_all add: board_inv_def groups_ok_def)
      have f: "find False x b2 = Inr (rep' x, b2)" using find_same [OF li _ x] by (auto simp: stones_def)
      have "ledges b2 (rep' x) \<noteq> 0" using b2(3) linked_rep [OF li x] by (simp add: alive_def)
      moreover have "0 \<le> ledges b2 (rep' x)" using le linked_rep [OF li x] by (simp add: ledges_ok_def)
      ultimately have "0 < ledges b2 (rep' x)" by linarith
      then show ?thesis using f by blast
    qed
    moreover have "zhash b2 \<notin> hash_set b" if "used b p" using w that b2(4) q am by (simp add: worth_def)
    moreover have "game rand True b2" using game.useful_move [OF assms(2) p, of b1 b2] b1(1) b2(1) w by simp
    ultimately show ?thesis using b2(1) by blast
  qed
  then show ?thesis using b1(1) q by (intro exI [of _ "worth b rep p"] exI [of _ b1]) simp
qed

theorem go_useful_witness:
  "\<exists>b1 b2. useful 40 (Board first_choice 0 0 0) = Inr (True, b1) \<and> board_move 40 b1 = Inr b2 \<and>
    (\<forall>x < squares. sq_color b2 x \<noteq> EMPTY \<longrightarrow> (\<exists>r. find False x b2 = Inr (r, b2) \<and> 0 < ledges b2 r))"
proof -
  let ?b = "Board first_choice 0 0 0"
  have f: "sq_color ?b = (\<lambda>s. EMPTY)" "used ?b = (\<lambda>s. False)" "neighbours ?b = set_neighbours"
    by (simp_all add: Board_def board_reset_def ZobristHash_def EmptySet_def Let_def)
  have n: "(40 :: nat) < squares" by (simp add: squares_81)
  then have "set_neighbours 40 \<noteq> []" using neighbours_facts(3) by fastforce
  then have "\<exists>b1. useful 40 ?b = Inr (True, b1)"
    using n by (auto simp: useful_def useful_fast_def f Let_def)
  then show ?thesis using go_useful [OF first_choice_ok game.start, of 40 0 0 0] n f(1) by auto
qed

text \<open>
  C33: the random choice ends; it gives a pass only if no move on an empty square is useful, and else
  a useful move. A random playout ends without an error, with a finished game or all its moves made.
\<close>

theorem go_random:
  assumes "random_ok rand" and "game rand True b"
  shows "(\<exists>pos b1. random_choice rand b = Inr (pos, b1) \<and> sq_color b1 = sq_color b \<and>
      (if pos = PASS then \<forall>p < squares. sq_color b p = EMPTY \<longrightarrow> (\<exists>b2. useful p b = Inr (False, b2))
       else \<exists>p < squares. pos = int p \<and> sq_color b p = EMPTY \<and> (\<exists>b2. useful p b = Inr (True, b2)))) \<and>
    (\<exists>b1. random_playout n rand b = Inr b1 \<and> check b1 = Inr b1 \<and> (finished b1 \<or> length (history b1) = length (history b) + n))"
proof -
  obtain rep rk where inv: "board_inv b rep rk" and al: "alive b rep" using game_inv [OF assms(2,1)] by blast
  have rand: "\<And>k n. 0 < n \<Longrightarrow> rand k n < n" using assms(1) by (simp add: random_ok_def)
  obtain pos b1 where r: "random_choice rand b = Inr (pos, b1)" "still b1 = still b"
    "if pos = PASS then \<forall>p \<in> free b. \<not> worth b rep p else \<exists>p \<in> free b. pos = int p \<and> worth b rep p"
    using random_choice_ok [where rand = rand, OF rand inv] by blast
  have u: "\<exists>b2. useful p b = Inr (worth b rep p, b2)" if "p \<in> free b" for p using useful_ok [OF inv that] by blast
  have "if pos = PASS then \<forall>p < squares. sq_color b p = EMPTY \<longrightarrow> (\<exists>b2. useful p b = Inr (False, b2))
       else \<exists>p < squares. pos = int p \<and> sq_color b p = EMPTY \<and> (\<exists>b2. useful p b = Inr (True, b2))"
  proof (cases "pos = PASS")
    case True
    then have "\<not> worth b rep p" if "p \<in> free b" for p using r(3) that by simp
    then show ?thesis using True u by (auto simp: free_def)
  next
    case False
    then obtain p where "p \<in> free b" "pos = int p" "worth b rep p" using r(3) by auto
    then show ?thesis using False u [of p] by (auto simp: free_def)
  qed
  then have "\<exists>pos b1. random_choice rand b = Inr (pos, b1) \<and> sq_color b1 = sq_color b \<and>
      (if pos = PASS then \<forall>p < squares. sq_color b p = EMPTY \<longrightarrow> (\<exists>b2. useful p b = Inr (False, b2))
       else \<exists>p < squares. pos = int p \<and> sq_color b p = EMPTY \<and> (\<exists>b2. useful p b = Inr (True, b2)))"
    using r(1) still_facts(1) [OF r(2)] by blast
  moreover have "\<exists>b1. random_playout n rand b = Inr b1 \<and> check b1 = Inr b1 \<and> (finished b1 \<or> length (history b1) = length (history b) + n)"
    using random_playout_ok [where rand = rand, OF rand inv al, of n] check_ok by blast
  ultimately show ?thesis by blast
qed

theorem go_random_witness:
  "\<exists>b. random_playout MAXMOVES first_choice (Board first_choice 0 0 0) = Inr b \<and> (finished b \<or> length (history b) = MAXMOVES)"
proof -
  have "history (Board first_choice 0 0 0) = []" by (simp add: Board_def board_reset_def Let_def)
  then show ?thesis using go_random [OF first_choice_ok game.start, of 0 0 0 MAXMOVES] by auto
qed

end
