(* ===== verification/Schulze.thy ===== *)
theory Schulze
  imports PyText
begin

text \<open>
  \<open>own/schulze.py\<close>: a Schulze election. The script reads ballots, gives every candidate a number,
  counts in \<open>d\<close> how many ballots prefer one candidate to another, computes in \<open>p\<close> the strength of the
  strongest path of victories, and takes the winners off one after the other. The order in which a
  dictionary gives its keys is an argument of the model.
\<close>

section \<open>The script\<close>

definition ballot :: "string \<Rightarrow> string list" where
  "ballot line = split_at (CHR '' '') (rstrip (drop 14 line))"

text \<open>\<open>candidates\<close>: first every member is a key, then the keys are numbered; \<open>reverseCandidates\<close>.\<close>

definition members :: "string list list \<Rightarrow> string \<rightharpoonup> nat" where
  "members votes = fold (\<lambda>line m. fold (\<lambda>memberId m. m(memberId \<mapsto> 1)) line m) votes Map.empty"

definition number_keys :: "string list \<Rightarrow> (string \<rightharpoonup> nat) \<Rightarrow> string \<rightharpoonup> nat" where
  "number_keys ks m = fold (\<lambda>(i, k) m. m(k \<mapsto> i)) (enumerate 0 ks) m"

definition reverse_candidates :: "string list \<Rightarrow> (string \<rightharpoonup> nat) \<Rightarrow> (nat \<rightharpoonup> string) result" where
  "reverse_candidates ks m =
     for_each ks (\<lambda>k r. case m k of None \<Rightarrow> Inl KeyError | Some v \<Rightarrow> Inr (r(v \<mapsto> k))) Map.empty"

fun numbers :: "(string \<rightharpoonup> nat) \<Rightarrow> string list \<Rightarrow> nat list result" where
  "numbers m [] = Inr []"
| "numbers m (memberId # line) =
     (case m memberId of None \<Rightarrow> Inl KeyError | Some i \<Rightarrow> rbind (numbers m line) (\<lambda>ns. Inr (i # ns)))"

fun all_numbers :: "(string \<rightharpoonup> nat) \<Rightarrow> string list list \<Rightarrow> nat list list result" where
  "all_numbers m [] = Inr []"
| "all_numbers m (line # votes) =
     rbind (numbers m line) (\<lambda>ns. rbind (all_numbers m votes) (\<lambda>nss. Inr (ns # nss)))"

text \<open>The matrices are lists of rows.\<close>

type_synonym matrix = "nat list list"

definition mat_get :: "matrix \<Rightarrow> nat \<Rightarrow> nat \<Rightarrow> nat result" where
  "mat_get m i j = rbind (lget m i) (\<lambda>row. lget row j)"

definition mat_set :: "matrix \<Rightarrow> nat \<Rightarrow> nat \<Rightarrow> nat \<Rightarrow> matrix result" where
  "mat_set m i j v = rbind (lget m i) (\<lambda>row. rbind (lset row j v) (lset m i))"

definition zeros :: "nat \<Rightarrow> matrix" where
  "zeros n = replicate n (replicate n 0)"

fun prefer_line :: "nat \<Rightarrow> nat list \<Rightarrow> matrix \<Rightarrow> matrix result" where
  "prefer_line i [] d = Inr d"
| "prefer_line i (entry # line) d =
     (if entry = i then Inr d
      else rbind (mat_get d entry i) (\<lambda>v. rbind (mat_set d entry i (v + 1)) (prefer_line i line)))"

definition preferences :: "nat \<Rightarrow> nat list list \<Rightarrow> matrix \<Rightarrow> matrix result" where
  "preferences n nss = for_each [0..<n] (\<lambda>i. for_each nss (prefer_line i))"

definition start_paths :: "nat \<Rightarrow> matrix \<Rightarrow> matrix \<Rightarrow> matrix result" where
  "start_paths n d = for_each [0..<n] (\<lambda>i. for_each [0..<n] (\<lambda>j p.
     if i \<noteq> j then
       rbind (mat_get d i j) (\<lambda>x. rbind (mat_get d j i) (\<lambda>y.
         if y < x then rbind (mat_get d i j) (mat_set p i j) else mat_set p i j 0))
     else Inr p))"

definition widen_paths :: "nat \<Rightarrow> matrix \<Rightarrow> matrix result" where
  "widen_paths n = for_each [0..<n] (\<lambda>i. for_each [0..<n] (\<lambda>j p.
     if i \<noteq> j then
       for_each [0..<n] (\<lambda>k p.
         if i \<noteq> k \<and> j \<noteq> k then
           rbind (mat_get p j k) (\<lambda>x. rbind (mat_get p j i) (\<lambda>y. rbind (mat_get p i k) (\<lambda>z.
             mat_set p j k (max x (min y z)))))
         else Inr p) p
     else Inr p))"

text \<open>
  The \<open>for n\<close> loop with its \<open>else\<close>; the \<open>for c\<close> loop walks by index over the list it takes elements
  out of, so that the candidate after one that is taken is passed over; the \<open>while\<close> loop has fuel.
\<close>

fun unbeaten :: "matrix \<Rightarrow> nat \<Rightarrow> nat list \<Rightarrow> bool result" where
  "unbeaten p c [] = Inr True"
| "unbeaten p c (n # ns) =
     (if c \<noteq> n then
        rbind (mat_get p c n) (\<lambda>x. rbind (mat_get p n c) (\<lambda>y. if x < y then Inr False else unbeaten p c ns))
      else unbeaten p c ns)"

function sweep :: "matrix \<Rightarrow> nat \<Rightarrow> nat list \<times> nat list \<Rightarrow> (nat list \<times> nat list) result" where
  "sweep p i (order, cl) =
     (if i < length cl then
        rbind (unbeaten p (cl ! i) cl) (\<lambda>b.
          if b then sweep p (Suc i) (order @ [cl ! i], remove1 (cl ! i) cl)
          else sweep p (Suc i) (order, cl))
      else Inr (order, cl))"
  by pat_completeness auto
termination
  by (relation "measure (\<lambda>(p, i, order, cl). length cl - i)") (auto simp: length_remove1)

fun ranking :: "nat \<Rightarrow> matrix \<Rightarrow> nat list \<times> nat list \<Rightarrow> nat list result" where
  "ranking fuel p (order, cl) =
     (if cl = [] then Inr order
      else case fuel of 0 \<Rightarrow> Inl OutOfFuel | Suc fuel \<Rightarrow> rbind (sweep p 0 (order, cl)) (ranking fuel p))"

declare sweep.simps [simp del] ranking.simps [simp del]

definition result_line :: "nat \<Rightarrow> string \<Rightarrow> string" where
  "result_line j name = (let s = nat_str j in replicate (3 - length s) (CHR '' '') @ s @ CHR '' '' # name)"

fun results :: "(nat \<rightharpoonup> string) \<Rightarrow> nat \<Rightarrow> nat list \<Rightarrow> string list result" where
  "results r j [] = Inr []"
| "results r j (i # order) =
     (case r i of None \<Rightarrow> Inl KeyError
      | Some name \<Rightarrow> rbind (results r (j + 1) order) (\<lambda>ls. Inr (result_line (j + 1) name # ls)))"

definition schulze :: "((string \<rightharpoonup> nat) \<Rightarrow> string list) \<Rightarrow> string list \<Rightarrow> string list result" where
  "schulze keys lines =
     (let votes = map ballot lines;
          m = members votes;
          ks = keys m;
          candidates = number_keys ks m
      in rbind (reverse_candidates (keys candidates) candidates) (\<lambda>reverse.
         rbind (all_numbers candidates votes) (\<lambda>nss.
         let n = length (keys candidates) in
         rbind (preferences n nss (zeros n)) (\<lambda>d.
         rbind (start_paths n d (zeros n)) (\<lambda>p.
         rbind (widen_paths n p) (\<lambda>p.
         rbind (ranking n p ([], [0..<n])) (results reverse 0)))))))"

end
