(* ===== verification/SchulzeRank.thy ===== *)
theory SchulzeRank
  imports Schulze "HOL-Library.List_Lexorder"
begin

text \<open>
  What the matrices of the election hold, and that the loop that takes the winners off ends with
  everybody in the order of the strongest paths.
\<close>

section \<open>Matrices\<close>

definition mat_is :: "nat \<Rightarrow> matrix \<Rightarrow> (nat \<Rightarrow> nat \<Rightarrow> nat) \<Rightarrow> bool" where
  "mat_is n m F \<longleftrightarrow> length m = n \<and> (\<forall>a < n. length (m ! a) = n \<and> (\<forall>b < n. m ! a ! b = F a b))"

lemma mat_get: "mat_is n m F \<Longrightarrow> a < n \<Longrightarrow> b < n \<Longrightarrow> mat_get m a b = Inr (F a b)"
  by (simp add: mat_get_def mat_is_def)

lemma mat_set:
  assumes "mat_is n m F" and "a < n" and "b < n"
  shows "\<exists>m'. mat_set m a b v = Inr m' \<and> mat_is n m' (F(a := (F a)(b := v)))"
  using assms by (auto simp: mat_set_def mat_is_def nth_list_update)

lemma mat_is_cong: "mat_is n m F \<Longrightarrow> (\<And>a b. a < n \<Longrightarrow> b < n \<Longrightarrow> F a b = G a b) \<Longrightarrow> mat_is n m G"
  by (simp add: mat_is_def)

lemma mat_set_cong:
  assumes "mat_is n m F" and "a < n" and "b < n"
    and "\<And>x y. x < n \<Longrightarrow> y < n \<Longrightarrow> (F(a := (F a)(b := v))) x y = G x y"
  shows "\<exists>m'. mat_set m a b v = Inr m' \<and> mat_is n m' G"
  using mat_set [OF assms(1-3), of v] mat_is_cong assms(4) by blast

lemma zeros: "mat_is n (zeros n) (\<lambda>a b. 0)"
  by (simp add: mat_is_def zeros_def)

lemma mat_loop:
  assumes "mat_is n m (F 0)"
    and "\<And>k u. k < n \<Longrightarrow> mat_is n u (F k) \<Longrightarrow> \<exists>u'. f k u = Inr u' \<and> mat_is n u' (F (Suc k))"
  shows "\<exists>m'. for_each [0..<n] f m = Inr m' \<and> mat_is n m' (F n)"
  using for_each_count [of "\<lambda>k u. mat_is n u (F k)" m "[0..<n]" f] assms by simp

section \<open>Preferences\<close>

definition before :: "'a \<Rightarrow> 'a \<Rightarrow> 'a list \<Rightarrow> nat" where
  "before a b line = count_list (takeWhile (\<lambda>x. x \<noteq> b) line) a"

definition support :: "'a list list \<Rightarrow> 'a \<Rightarrow> 'a \<Rightarrow> nat" where
  "support votes a b = sum_list (map (before a b) votes)"

lemma prefer_line:
  assumes "mat_is n d F" and "set line \<subseteq> {..<n}" and "i < n"
  shows "\<exists>d'. prefer_line i line d = Inr d' \<and>
           mat_is n d' (\<lambda>a b. if b = i then F a b + before a i line else F a b)"
  using assms(1,2)
proof (induction line arbitrary: d F)
  case Nil
  then show ?case by (auto simp: before_def elim: mat_is_cong)
next
  case (Cons e line)
  show ?case
  proof (cases "e = i")
    case True
    then show ?thesis using Cons.prems by (auto simp: before_def elim: mat_is_cong)
  next
    case False
    have e: "e < n" using Cons.prems by simp
    obtain d1 where d1: "mat_set d e i (F e i + 1) = Inr d1" "mat_is n d1 (F(e := (F e)(i := F e i + 1)))"
      using mat_set [OF Cons.prems(1) e assms(3)] by blast
    from Cons.IH [OF d1(2)] Cons.prems(2) obtain d2 where d2: "prefer_line i line d1 = Inr d2"
      "mat_is n d2 (\<lambda>a b. if b = i then (F(e := (F e)(i := F e i + 1))) a b + before a i line
                          else (F(e := (F e)(i := F e i + 1))) a b)" by auto
    have "mat_is n d2 (\<lambda>a b. if b = i then F a b + before a i (e # line) else F a b)"
      by (rule mat_is_cong [OF d2(2)]) (use False in \<open>auto simp: before_def\<close>)
    then show ?thesis using False mat_get [OF Cons.prems(1) e assms(3)] d1(1) d2(1) by simp
  qed
qed

lemma prefer_lines:
  assumes "mat_is n d F" and "\<And>line. line \<in> set nss \<Longrightarrow> set line \<subseteq> {..<n}" and "i < n"
  shows "\<exists>d'. for_each nss (prefer_line i) d = Inr d' \<and>
           mat_is n d' (\<lambda>a b. if b = i then F a b + support nss a i else F a b)"
  using assms(1,2)
proof (induction nss arbitrary: d F)
  case Nil
  then show ?case by (auto simp: support_def elim: mat_is_cong)
next
  case (Cons line nss)
  have "set line \<subseteq> {..<n}" using Cons.prems(2) by simp
  from prefer_line [OF Cons.prems(1) this assms(3)] obtain d1 where d1: "prefer_line i line d = Inr d1"
    "mat_is n d1 (\<lambda>a b. if b = i then F a b + before a i line else F a b)" by blast
  from Cons.IH [OF d1(2)] Cons.prems(2) obtain d2 where d2: "for_each nss (prefer_line i) d1 = Inr d2"
    "mat_is n d2 (\<lambda>a b. if b = i then (if b = i then F a b + before a i line else F a b) + support nss a i
                        else (if b = i then F a b + before a i line else F a b))" by auto
  have "mat_is n d2 (\<lambda>a b. if b = i then F a b + support (line # nss) a i else F a b)"
    by (rule mat_is_cong [OF d2(2)]) (auto simp: support_def)
  then show ?case using d1(1) d2(1) by simp
qed

lemma preferences:
  assumes "\<And>line. line \<in> set nss \<Longrightarrow> set line \<subseteq> {..<n}"
  shows "\<exists>d. preferences n nss (zeros n) = Inr d \<and> mat_is n d (support nss)"
proof -
  have "\<exists>d. for_each [0..<n] (\<lambda>i. for_each nss (prefer_line i)) (zeros n) = Inr d \<and>
          mat_is n d (\<lambda>a b. if b < n then support nss a b else 0)"
  proof (rule mat_loop)
    show "mat_is n (zeros n) (\<lambda>a b. if b < 0 then support nss a b else 0)" using zeros [of n] by simp
    fix k u assume k: "k < n" and u: "mat_is n u (\<lambda>a b. if b < k then support nss a b else 0)"
    obtain u' where "for_each nss (prefer_line k) u = Inr u'"
      "mat_is n u' (\<lambda>a b. if b = k then (if b < k then support nss a b else 0) + support nss a k
                          else (if b < k then support nss a b else 0))"
      using prefer_lines [OF u _ k, of nss] assms by auto
    moreover from this(2) have "mat_is n u' (\<lambda>a b. if b < Suc k then support nss a b else 0)"
      by (rule mat_is_cong) auto
    ultimately show "\<exists>u'. for_each nss (prefer_line k) u = Inr u' \<and>
      mat_is n u' (\<lambda>a b. if b < Suc k then support nss a b else 0)" by blast
  qed
  then show ?thesis by (auto simp: preferences_def elim!: mat_is_cong)
qed

section \<open>Strongest paths\<close>

definition link :: "('a \<Rightarrow> 'a \<Rightarrow> nat) \<Rightarrow> 'a \<Rightarrow> 'a \<Rightarrow> nat" where
  "link d a b = (if d b a < d a b then d a b else 0)"

lemma start_paths:
  assumes d: "mat_is n d F"
  shows "\<exists>p. start_paths n d (zeros n) = Inr p \<and> mat_is n p (link F)"
proof -
  let ?G = "\<lambda>i j a b. if a < i \<or> a = i \<and> b < j then link F a b else 0"
  have "\<exists>p. start_paths n d (zeros n) = Inr p \<and> mat_is n p (\<lambda>a b. if a < n then link F a b else 0)"
    unfolding start_paths_def
  proof (rule mat_loop)
    show "mat_is n (zeros n) (\<lambda>a b. if a < 0 then link F a b else 0)" using zeros [of n] by simp
    fix i u assume i: "i < n" and u: "mat_is n u (\<lambda>a b. if a < i then link F a b else 0)"
    let ?f = "\<lambda>j p. if i \<noteq> j then rbind (mat_get d i j) (\<lambda>x. rbind (mat_get d j i) (\<lambda>y.
         if y < x then rbind (mat_get d i j) (mat_set p i j) else mat_set p i j 0)) else Inr p"
    have "\<exists>u'. for_each [0..<n] ?f u = Inr u' \<and> mat_is n u' (?G i n)"
    proof (rule mat_loop [of n u "?G i"])
      show "mat_is n u (?G i 0)" using u by simp
      fix j v assume j: "j < n" and v: "mat_is n v (?G i j)"
      show "\<exists>v'. ?f j v = Inr v' \<and> mat_is n v' (?G i (Suc j))"
      proof (cases "i = j")
        case True
        then show ?thesis using v by (auto simp: link_def less_Suc_eq elim!: mat_is_cong)
      next
        case False
        have "\<exists>v'. mat_set v i j (link F i j) = Inr v' \<and> mat_is n v' (?G i (Suc j))"
          by (rule mat_set_cong [OF v i j]) auto
        moreover have "?f j v = mat_set v i j (link F i j)"
          using False mat_get [OF d i j] mat_get [OF d j i] by (simp add: link_def)
        ultimately show ?thesis by simp
      qed
    qed
    then show "\<exists>u'. for_each [0..<n] ?f u = Inr u' \<and> mat_is n u' (\<lambda>a b. if a < Suc i then link F a b else 0)"
      by (auto simp: less_Suc_eq elim!: mat_is_cong)
  qed
  then show ?thesis by (auto elim!: mat_is_cong)
qed

definition widen :: "nat \<Rightarrow> (nat \<Rightarrow> nat \<Rightarrow> nat) \<Rightarrow> nat \<Rightarrow> nat \<Rightarrow> nat" where
  "widen i P j k = (if i \<noteq> j \<and> i \<noteq> k \<and> j \<noteq> k then max (P j k) (min (P j i) (P i k)) else P j k)"

lemma widen_stage:
  assumes u: "mat_is n u P" and i: "i < n"
  shows "\<exists>u'. for_each [0..<n] (\<lambda>j p.
     if i \<noteq> j then
       for_each [0..<n] (\<lambda>k p.
         if i \<noteq> k \<and> j \<noteq> k then
           rbind (mat_get p j k) (\<lambda>x. rbind (mat_get p j i) (\<lambda>y. rbind (mat_get p i k) (\<lambda>z.
             mat_set p j k (max x (min y z)))))
         else Inr p) p
     else Inr p) u = Inr u' \<and> mat_is n u' (widen i P)"
proof -
  let ?G = "\<lambda>j k a b. if a < j \<or> a = j \<and> b < k then widen i P a b else P a b"
  let ?g = "\<lambda>j k p. if i \<noteq> k \<and> j \<noteq> k then
           rbind (mat_get p j k) (\<lambda>x. rbind (mat_get p j i) (\<lambda>y. rbind (mat_get p i k) (\<lambda>z.
             mat_set p j k (max x (min y z))))) else Inr p"
  let ?f = "\<lambda>j p. if i \<noteq> j then for_each [0..<n] (?g j) p else Inr p"
  have "\<exists>u'. for_each [0..<n] ?f u = Inr u' \<and> mat_is n u' (\<lambda>a b. if a < n then widen i P a b else P a b)"
  proof (rule mat_loop)
    show "mat_is n u (\<lambda>a b. if a < 0 then widen i P a b else P a b)" using u by simp
    fix j v assume j: "j < n" and v: "mat_is n v (\<lambda>a b. if a < j then widen i P a b else P a b)"
    show "\<exists>v'. ?f j v = Inr v' \<and> mat_is n v' (\<lambda>a b. if a < Suc j then widen i P a b else P a b)"
    proof (cases "i = j")
      case True
      then show ?thesis using v by (auto simp: widen_def less_Suc_eq elim!: mat_is_cong)
    next
      case False
      have "\<exists>v'. for_each [0..<n] (?g j) v = Inr v' \<and> mat_is n v' (?G j n)"
      proof (rule mat_loop [of n v "?G j"])
        show "mat_is n v (?G j 0)" using v by simp
        fix k w assume k: "k < n" and w: "mat_is n w (?G j k)"
        show "\<exists>w'. ?g j k w = Inr w' \<and> mat_is n w' (?G j (Suc k))"
        proof (cases "i \<noteq> k \<and> j \<noteq> k")
          case False
          then show ?thesis using w by (auto simp: widen_def less_Suc_eq elim!: mat_is_cong)
        next
          case True
          have "\<exists>w'. mat_set w j k (widen i P j k) = Inr w' \<and> mat_is n w' (?G j (Suc k))"
            by (rule mat_set_cong [OF w j k]) auto
          moreover have "?g j k w = mat_set w j k (widen i P j k)"
            using True False mat_get [OF w j k] mat_get [OF w j i] mat_get [OF w i k] by (auto simp: widen_def)
          ultimately show ?thesis by simp
        qed
      qed
      then show ?thesis using False by (auto simp: less_Suc_eq elim!: mat_is_cong)
    qed
  qed
  then show ?thesis by (auto elim!: mat_is_cong)
qed


text \<open>
  \<open>connected w K t a b\<close>: a path from \<open>a\<close> to \<open>b\<close> on which every link has at least the strength \<open>t\<close> and all
  whose inner candidates are in \<open>K\<close>.
\<close>

definition connected :: "('a \<Rightarrow> 'a \<Rightarrow> nat) \<Rightarrow> 'a set \<Rightarrow> nat \<Rightarrow> 'a \<Rightarrow> 'a \<Rightarrow> bool" where
  "connected w K t a b \<longleftrightarrow> (\<exists>vs. set vs \<subseteq> K \<and> successively (\<lambda>x y. t \<le> w x y) (a # vs @ [b]))"

lemma connected_none: "connected w {} t a b \<longleftrightarrow> t \<le> w a b"
  by (simp add: connected_def)

lemma chain_split:
  "successively R (a # us @ i # vs @ [b]) \<longleftrightarrow> successively R (a # us @ [i]) \<and> successively R (i # vs @ [b])"
  using successively_append_iff [of R "a # us @ [i]" "vs @ [b]"] by (auto simp: successively_Cons)

lemma connected_mono: "connected w K t a b \<Longrightarrow> K \<subseteq> L \<Longrightarrow> connected w L t a b"
  by (auto simp: connected_def)

lemma connected_trans:
  assumes "connected w K t a i" and "connected w K t i b" and "i \<in> K"
  shows "connected w K t a b"
proof -
  from assms obtain us vs where c: "set us \<subseteq> K" "successively (\<lambda>x y. t \<le> w x y) (a # us @ [i])"
    "set vs \<subseteq> K" "successively (\<lambda>x y. t \<le> w x y) (i # vs @ [b])"
    unfolding connected_def by blast
  have "successively (\<lambda>x y. t \<le> w x y) (a # (us @ i # vs) @ [b])"
    using chain_split [of "\<lambda>x y. t \<le> w x y" a us i vs b] c(2,4) by simp
  moreover have "set (us @ i # vs) \<subseteq> K" using c(1,3) assms(3) by simp
  ultimately show ?thesis unfolding connected_def by blast
qed

text \<open>A path through \<open>i\<close> comes to \<open>i\<close> a first time and leaves it a last time.\<close>

lemma connected_first:
  assumes "successively (\<lambda>x y. t \<le> w x y) (a # vs @ [b])" and "set vs \<subseteq> insert i K" and "i \<in> set vs"
  shows "connected w K t a i"
proof -
  from split_list_first [OF assms(3)] obtain us xs where us: "vs = us @ i # xs" "i \<notin> set us" by blast
  have "successively (\<lambda>x y. t \<le> w x y) (a # us @ [i])"
    using chain_split [of "\<lambda>x y. t \<le> w x y" a us i xs b] assms(1) us(1) by simp
  moreover have "set us \<subseteq> K" using assms(2) us by auto
  ultimately show ?thesis unfolding connected_def by blast
qed

lemma connected_last:
  assumes "successively (\<lambda>x y. t \<le> w x y) (a # vs @ [b])" and "set vs \<subseteq> insert i K" and "i \<in> set vs"
  shows "connected w K t i b"
proof -
  from split_list_last [OF assms(3)] obtain us xs where us: "vs = us @ i # xs" "i \<notin> set xs" by blast
  have "successively (\<lambda>x y. t \<le> w x y) (i # xs @ [b])"
    using chain_split [of "\<lambda>x y. t \<le> w x y" a us i xs b] assms(1) us(1) by simp
  moreover have "set xs \<subseteq> K" using assms(2) us by auto
  ultimately show ?thesis unfolding connected_def by blast
qed

lemma connected_insert:
  "connected w (insert i K) t a b \<longleftrightarrow> connected w K t a b \<or> connected w K t a i \<and> connected w K t i b"
proof
  assume "connected w (insert i K) t a b"
  then obtain vs where vs: "set vs \<subseteq> insert i K" "successively (\<lambda>x y. t \<le> w x y) (a # vs @ [b])"
    unfolding connected_def by blast
  show "connected w K t a b \<or> connected w K t a i \<and> connected w K t i b"
  proof (cases "i \<in> set vs")
    case True
    then show ?thesis using connected_first [OF vs(2,1)] connected_last [OF vs(2,1)] by blast
  next
    case False
    then have "set vs \<subseteq> K" using vs(1) by auto
    then show ?thesis using vs(2) unfolding connected_def by blast
  qed
next
  have m: "connected w K t x y \<Longrightarrow> connected w (insert i K) t x y" for x y
    by (rule connected_mono) auto
  assume "connected w K t a b \<or> connected w K t a i \<and> connected w K t i b"
  then show "connected w (insert i K) t a b"
    using m connected_trans [of w "insert i K" t a i b] by blast
qed

lemma connected_insert_end:
  "connected w (insert i K) t i b \<longleftrightarrow> connected w K t i b"
  "connected w (insert i K) t a i \<longleftrightarrow> connected w K t a i"
  by (auto simp: connected_insert)

definition strongest :: "nat \<Rightarrow> (nat \<Rightarrow> nat \<Rightarrow> nat) \<Rightarrow> nat set \<Rightarrow> (nat \<Rightarrow> nat \<Rightarrow> nat) \<Rightarrow> bool" where
  "strongest n w K P \<longleftrightarrow> (\<forall>a < n. \<forall>b < n. a \<noteq> b \<longrightarrow> (\<forall>t. t \<le> P a b \<longleftrightarrow> connected w K t a b))"

lemma strongest_widen:
  assumes "strongest n w {..<i} P" and "i < n"
  shows "strongest n w {..<Suc i} (widen i P)"
  unfolding strongest_def
proof (intro allI impI)
  fix a b t assume ab: "a < n" "b < n" "a \<noteq> b"
  have P: "t \<le> P x y \<longleftrightarrow> connected w {..<i} t x y" if "x < n" "y < n" "x \<noteq> y" for x y
    using assms(1) that by (simp add: strongest_def)
  show "t \<le> widen i P a b \<longleftrightarrow> connected w {..<Suc i} t a b"
  proof (cases "i \<noteq> a \<and> i \<noteq> b")
    case True
    then show ?thesis using ab P [of a b] P [of a i] P [of i b] assms(2)
      by (simp add: widen_def lessThan_Suc connected_insert le_max_iff_disj)
  next
    case False
    then show ?thesis using ab P [of a b]
      by (auto simp: widen_def lessThan_Suc connected_insert_end)
  qed
qed

lemma widen_paths:
  assumes "mat_is n p w"
  shows "\<exists>p' P. widen_paths n p = Inr p' \<and> mat_is n p' P \<and> strongest n w {..<n} P"
proof -
  have "\<exists>p'. widen_paths n p = Inr p' \<and> (\<exists>P. mat_is n p' P \<and> strongest n w {..<length [0..<n]} P)"
    unfolding widen_paths_def
  proof (rule for_each_count)
    show "\<exists>P. mat_is n p P \<and> strongest n w {..<0} P"
      using assms by (auto simp: strongest_def connected_none)
    fix k u assume k: "k < length [0..<n]" and "\<exists>P. mat_is n u P \<and> strongest n w {..<k} P"
    then obtain P where P: "mat_is n u P" "strongest n w {..<k} P" by blast
    have kn: "k < n" and kk: "[0..<n] ! k = k" using k by simp_all
    show "\<exists>u'. (for_each [0..<n] (\<lambda>j p. if [0..<n] ! k \<noteq> j then
       for_each [0..<n] (\<lambda>ka p. if [0..<n] ! k \<noteq> ka \<and> j \<noteq> ka then
           rbind (mat_get p j ka) (\<lambda>x. rbind (mat_get p j ([0..<n] ! k)) (\<lambda>y. rbind (mat_get p ([0..<n] ! k) ka) (\<lambda>z.
             mat_set p j ka (max x (min y z)))))
         else Inr p) p
     else Inr p) u) = Inr u' \<and> (\<exists>P. mat_is n u' P \<and> strongest n w {..<Suc k} P)"
      unfolding kk using widen_stage [OF P(1) kn] strongest_widen [OF P(2) kn] by blast
  qed
  then show ?thesis by auto
qed

section \<open>The order of the winners\<close>

lemma strongest_triangle:
  assumes "strongest n w {..<n} P" and "a < n" "b < n" "c < n" and "a \<noteq> b" "b \<noteq> c" "a \<noteq> c"
  shows "min (P a b) (P b c) \<le> P a c"
proof -
  let ?t = "min (P a b) (P b c)"
  have P: "t \<le> P x y \<longleftrightarrow> connected w {..<n} t x y" if "x < n" "y < n" "x \<noteq> y" for x y t
    using assms(1) that by (simp add: strongest_def)
  have "connected w {..<n} ?t a b" "connected w {..<n} ?t b c"
    using P [of a b ?t] P [of b c ?t] assms by simp_all
  moreover have "b \<in> {..<n}" using assms(3) by simp
  ultimately have "connected w {..<n} ?t a c" by (rule connected_trans)
  then show ?thesis using P [of a c ?t] assms by simp
qed

text \<open>Schulze's theorem: to have the stronger path is transitive, so there is always a winner.\<close>

lemma stronger_trans:
  assumes P: "strongest n w {..<n} P" and n: "a < n" "b < n" "c < n" and "P b a < P a b" and "P c b < P b c"
  shows "P c a < P a c"
proof -
  have ne: "a \<noteq> b" "b \<noteq> c" "a \<noteq> c" using assms(5,6) by auto
  have "min (P a b) (P b c) \<le> P a c" by (rule strongest_triangle [OF P n ne])
  moreover have "min (P b c) (P c a) \<le> P b a" by (rule strongest_triangle [OF P n(2,3,1)]) (use ne in auto)
  moreover have "min (P c a) (P a b) \<le> P c b" by (rule strongest_triangle [OF P n(3,1,2)]) (use ne in auto)
  ultimately show ?thesis using assms(5,6) by linarith
qed

lemma winner_exists:
  assumes P: "strongest n w {..<n} P" and "cl \<noteq> []" and "set cl \<subseteq> {..<n}"
  shows "\<exists>c \<in> set cl. \<forall>x \<in> set cl. \<not> P c x < P x c"
  using assms(2,3)
proof (induction cl rule: list_nonempty_induct)
  case (single x)
  then show ?case by simp
next
  case (cons x xs)
  then obtain c where c: "c \<in> set xs" "\<forall>y \<in> set xs. \<not> P c y < P y c" by auto
  have n: "x < n" "c < n" "\<And>y. y \<in> set xs \<Longrightarrow> y < n" using cons.prems c(1) by auto
  show ?case
  proof (cases "P c x < P x c")
    case True
    have "\<not> P x y < P y x" if y: "y \<in> set xs" for y
    proof
      assume "P x y < P y x"
      then have "P c y < P y c" using stronger_trans [OF P n(3) [OF y] n(1) n(2)] True by simp
      then show False using c(2) y by simp
    qed
    then show ?thesis by auto
  next
    case False
    then show ?thesis using c by auto
  qed
qed


lemma unbeaten:
  assumes "mat_is n p P" and "c < n" and "set cl \<subseteq> {..<n}"
  shows "unbeaten p c cl = Inr (\<forall>x \<in> set cl. \<not> P c x < P x c)"
  using assms(3) by (induction cl) (auto simp: mat_get [OF assms(1)] assms(2))

text \<open>What a sweep keeps of the list of winners so far and the list of those left.\<close>

definition ranked :: "nat \<Rightarrow> (nat \<Rightarrow> nat \<Rightarrow> nat) \<Rightarrow> nat list \<times> nat list \<Rightarrow> bool" where
  "ranked n P = (\<lambda>(order, cl). distinct (order @ cl) \<and> set (order @ cl) = {..<n} \<and>
     sorted_wrt (\<lambda>a b. \<not> P a b < P b a) order \<and> (\<forall>a \<in> set order. \<forall>b \<in> set cl. \<not> P a b < P b a))"

lemma ranked_take:
  assumes r: "ranked n P (order, cl)" and c: "c \<in> set cl" and u: "\<forall>x \<in> set cl. \<not> P c x < P x c"
  shows "ranked n P (order @ [c], remove1 c cl)"
proof -
  have d: "distinct order" "distinct cl" "set order \<inter> set cl = {}" "set order \<union> set cl = {..<n}"
    "sorted_wrt (\<lambda>a b. \<not> P a b < P b a) order" "\<forall>a \<in> set order. \<forall>b \<in> set cl. \<not> P a b < P b a"
    using r by (simp_all add: ranked_def)
  have "c \<notin> set order" using c d(3) by blast
  moreover have "set (remove1 c cl) = set cl - {c}" using d(2) by simp
  ultimately show ?thesis
    using d c u by (auto simp: ranked_def sorted_wrt_append)
qed

definition winner :: "(nat \<Rightarrow> nat \<Rightarrow> nat) \<Rightarrow> nat list \<Rightarrow> nat \<Rightarrow> bool" where
  "winner P cl c \<longleftrightarrow> (\<forall>x \<in> set cl. \<not> P c x < P x c)"

lemma sweep:
  assumes m: "mat_is n p P" and "ranked n P (order, cl)"
  shows "\<exists>order' cl'. sweep p i (order, cl) = Inr (order', cl') \<and> ranked n P (order', cl') \<and>
           length cl' \<le> length cl \<and>
           ((\<exists>k. i \<le> k \<and> k < length cl \<and> winner P cl (cl ! k)) \<longrightarrow> length cl' < length cl)"
  using assms(2)
proof (induction "length cl - i" arbitrary: i order cl rule: less_induct)
  case less
  let ?c = "cl ! i"
  show ?case
  proof (cases "i < length cl")
    case False
    then show ?thesis using less.prems by (auto simp: sweep.simps [of p i])
  next
    case i: True
    have c: "?c \<in> set cl" using i by simp
    have cn: "set cl \<subseteq> {..<n}" using less.prems by (auto simp: ranked_def)
    have u: "unbeaten p ?c cl = Inr (winner P cl ?c)"
      using unbeaten [OF m _ cn] c cn by (auto simp: winner_def)
    show ?thesis
    proof (cases "winner P cl ?c")
      case True
      let ?cl = "remove1 ?c cl"
      have r: "ranked n P (order @ [?c], ?cl)"
        using ranked_take [OF less.prems c] True by (simp add: winner_def)
      have len: "length ?cl < length cl" using c i by (simp add: length_remove1)
      then have m: "length ?cl - Suc i < length cl - i" using i by linarith
      have "sweep p i (order, cl) = sweep p (Suc i) (order @ [?c], ?cl)"
        using i u True by (simp add: sweep.simps [of p i])
      then show ?thesis using less.hyps [OF m r] len by fastforce
    next
      case False
      have eq: "sweep p i (order, cl) = sweep p (Suc i) (order, cl)"
        using i u False by (simp add: sweep.simps [of p i])
      have k: "Suc i \<le> k" if "i \<le> k" "winner P cl (cl ! k)" for k
        using that False by (cases "k = i") auto
      have "length cl - Suc i < length cl - i" using i by simp
      from less.hyps [OF this less.prems] show ?thesis unfolding eq using k by blast
    qed
  qed
qed

lemma ranking:
  assumes m: "mat_is n p P" and P: "strongest n w {..<n} P" and "ranked n P (order, cl)" and "length cl \<le> fuel"
  shows "\<exists>order'. ranking fuel p (order, cl) = Inr order' \<and> ranked n P (order', [])"
  using assms(3,4)
proof (induction fuel arbitrary: order cl)
  case 0
  then show ?case by (simp add: ranking.simps)
next
  case (Suc fuel)
  show ?case
  proof (cases "cl = []")
    case True
    then show ?thesis using Suc.prems by (simp add: ranking.simps)
  next
    case False
    have "set cl \<subseteq> {..<n}" using Suc.prems(1) by (auto simp: ranked_def)
    from winner_exists [OF P False this] obtain k where k: "k < length cl" "winner P cl (cl ! k)"
      by (auto simp: winner_def in_set_conv_nth)
    from sweep [OF m Suc.prems(1), of 0] k obtain order' cl' where s: "sweep p 0 (order, cl) = Inr (order', cl')"
      "ranked n P (order', cl')" "length cl' < length cl" by blast
    have "length cl' \<le> fuel" using s(3) Suc.prems(2) by simp
    from Suc.IH [OF s(2) this] show ?thesis using False s(1) by (simp add: ranking.simps [of "Suc fuel"])
  qed
qed

section \<open>Names and numbers\<close>

text \<open>A list of names numbers its members; ballots, support, links and paths are the same for both.\<close>

lemma before_map:
  assumes "inj_on f (insert a (insert b (set line)))"
  shows "before (f a) (f b) (map f line) = before a b line"
  using assms
proof (induction line)
  case Nil
  then show ?case by (simp add: before_def)
next
  case (Cons x line)
  have "inj_on f (insert a (insert b (set line)))" using Cons.prems by (rule inj_on_subset) auto
  moreover have "f x = f b \<longleftrightarrow> x = b" "f x = f a \<longleftrightarrow> x = a"
    using inj_on_eq_iff [OF Cons.prems, of x b] inj_on_eq_iff [OF Cons.prems, of x a] by auto
  ultimately show ?case using Cons.IH by (auto simp: before_def)
qed

lemma support_map:
  assumes "inj_on f K" and "a \<in> K" "b \<in> K" and "\<And>line. line \<in> set votes \<Longrightarrow> set line \<subseteq> K"
  shows "support (map (map f) votes) (f a) (f b) = support votes a b"
proof -
  have "before (f a) (f b) (map f line) = before a b line" if "line \<in> set votes" for line
    by (rule before_map, rule inj_on_subset [OF assms(1)]) (use assms(2-4) that in auto)
  then show ?thesis by (simp add: support_def o_def cong: map_cong)
qed

lemma connected_image:
  assumes "\<And>x y. x \<in> K \<Longrightarrow> y \<in> K \<Longrightarrow> w (f x) (f y) = v x y" and "a \<in> K" "b \<in> K"
  shows "connected w (f ` K) t (f a) (f b) \<longleftrightarrow> connected v K t a b"
proof -
  have c: "successively (\<lambda>x y. t \<le> w x y) (f a # map f vs @ [f b]) \<longleftrightarrow>
        successively (\<lambda>x y. t \<le> v x y) (a # vs @ [b])" if "set vs \<subseteq> K" for vs
  proof -
    have "successively (\<lambda>x y. t \<le> w x y) (map f (a # vs @ [b])) \<longleftrightarrow>
      successively (\<lambda>x y. t \<le> w (f x) (f y)) (a # vs @ [b])" by (rule successively_map)
    also have "\<dots> \<longleftrightarrow> successively (\<lambda>x y. t \<le> v x y) (a # vs @ [b])"
    proof (rule successively_cong)
      fix x y assume "x \<in> set (a # vs @ [b])" "y \<in> set (a # vs @ [b])"
      then have "x \<in> K" "y \<in> K" using assms(2,3) that by auto
      then show "t \<le> w (f x) (f y) \<longleftrightarrow> t \<le> v x y" using assms(1) by simp
    qed simp
    finally show ?thesis by simp
  qed
  show ?thesis
  proof
    assume "connected w (f ` K) t (f a) (f b)"
    then obtain us where us: "set us \<subseteq> f ` K" "successively (\<lambda>x y. t \<le> w x y) (f a # us @ [f b])"
      unfolding connected_def by blast
    from us(1) have "us \<in> lists (f ` K)" by (simp add: in_lists_conv_set subset_iff)
    then obtain vs where vs: "vs \<in> lists K" "us = map f vs" by (auto simp: lists_image)
    then have "set vs \<subseteq> K" by (simp add: in_lists_conv_set subset_iff)
    then show "connected v K t a b" using c [of vs] us(2) vs(2) unfolding connected_def by blast
  next
    assume "connected v K t a b"
    then obtain vs where vs: "set vs \<subseteq> K" "successively (\<lambda>x y. t \<le> v x y) (a # vs @ [b])"
      unfolding connected_def by blast
    then have "set (map f vs) \<subseteq> f ` K" by auto
    then show "connected w (f ` K) t (f a) (f b)" using c [OF vs(1)] vs(2) unfolding connected_def by blast
  qed
qed

lemma dom_members: "dom (members votes) = \<Union> (set ` set votes)"
proof -
  have one: "dom (fold (\<lambda>k m. m(k \<mapsto> v)) line m) = dom m \<union> set line" for line v and m :: "string \<rightharpoonup> nat"
    by (induction line arbitrary: m) auto
  have "dom (fold (\<lambda>line m. fold (\<lambda>k m. m(k \<mapsto> (1::nat))) line m) votes m) = dom m \<union> \<Union> (set ` set votes)" for m
    by (induction votes arbitrary: m) (auto simp: one)
  from this [of Map.empty] show ?thesis by (simp add: members_def)
qed

lemma number_keys:
  assumes "distinct ks" and "set ks = dom m"
  shows "dom (number_keys ks m) = set ks \<and> (\<forall>i < length ks. number_keys ks m (ks ! i) = Some i)"
proof -
  have "(\<forall>i < length xs. fold (\<lambda>(i, k) m. m(k \<mapsto> i)) (enumerate l xs) u (xs ! i) = Some (l + i)) \<and>
    (\<forall>k. k \<notin> set xs \<longrightarrow> fold (\<lambda>(i, k) m. m(k \<mapsto> i)) (enumerate l xs) u k = u k)"
    if "distinct xs" for xs l and u :: "string \<rightharpoonup> nat"
    using that
  proof (induction xs arbitrary: l u)
    case Nil
    then show ?case by simp
  next
    case (Cons x xs)
    have IH: "(\<forall>i < length xs. fold (\<lambda>(i, k) m. m(k \<mapsto> i)) (enumerate (Suc l) xs) (u(x \<mapsto> l)) (xs ! i) = Some (Suc l + i)) \<and>
      (\<forall>k. k \<notin> set xs \<longrightarrow> fold (\<lambda>(i, k) m. m(k \<mapsto> i)) (enumerate (Suc l) xs) (u(x \<mapsto> l)) k = (u(x \<mapsto> l)) k)"
      by (rule Cons.IH) (use Cons.prems in simp)
    have "x \<notin> set xs" using Cons.prems by simp
    then show ?case using IH by (auto simp: nth_Cons fun_upd_same fun_upd_other simp del: fun_upd_apply split: nat.splits)
  qed
  from this [OF assms(1), of 0 m] have n: "\<forall>i < length ks. number_keys ks m (ks ! i) = Some i"
    "\<forall>k. k \<notin> set ks \<longrightarrow> number_keys ks m k = m k" by (simp_all add: number_keys_def)
  have "k \<in> dom (number_keys ks m) \<longleftrightarrow> k \<in> set ks" for k
  proof (cases "k \<in> set ks")
    case True
    then obtain i where "i < length ks" "k = ks ! i" by (auto simp: in_set_conv_nth)
    then show ?thesis using n(1) True by auto
  next
    case False
    then show ?thesis using n(2) assms(2) by auto
  qed
  then show ?thesis using n(1) by blast
qed

lemma reverse_candidates:
  assumes "\<And>k. k \<in> set xs \<Longrightarrow> \<exists>i < length ks. k = ks ! i \<and> c k = Some i"
  shows "\<exists>r. reverse_candidates xs c = Inr r \<and> (\<forall>i < length ks. ks ! i \<in> set xs \<longrightarrow> c (ks ! i) = Some i \<longrightarrow> r i = Some (ks ! i))"
proof -
  let ?f = "\<lambda>k r. case c k of None \<Rightarrow> Inl KeyError | Some v \<Rightarrow> Inr (r(v \<mapsto> k))"
  have "\<exists>r. for_each ys ?f r0 = Inr r \<and> (\<forall>i < length ks. r i = r0 i \<or> r i = Some (ks ! i)) \<and>
    (\<forall>i < length ks. ks ! i \<in> set ys \<longrightarrow> c (ks ! i) = Some i \<longrightarrow> r i = Some (ks ! i))"
    if "set ys \<subseteq> set xs" for ys r0
    using that
  proof (induction ys arbitrary: r0)
    case Nil
    then show ?case by simp
  next
    case (Cons y ys)
    obtain j where j: "j < length ks" "y = ks ! j" "c y = Some j" using assms [of y] Cons.prems by auto
    have "set ys \<subseteq> set xs" using Cons.prems by simp
    from Cons.IH [OF this, of "r0(j \<mapsto> y)"] obtain r where r: "for_each ys ?f (r0(j \<mapsto> y)) = Inr r"
      "\<forall>i < length ks. r i = (r0(j \<mapsto> y)) i \<or> r i = Some (ks ! i)"
      "\<forall>i < length ks. ks ! i \<in> set ys \<longrightarrow> c (ks ! i) = Some i \<longrightarrow> r i = Some (ks ! i)" by blast
    show ?case
    proof (intro exI conjI allI impI)
      show "for_each (y # ys) ?f r0 = Inr r" using r(1) j(3) by simp
    next
      fix i assume i: "i < length ks"
      show "r i = r0 i \<or> r i = Some (ks ! i)" using r(2) i j by (cases "i = j") auto
    next
      fix i assume i: "i < length ks" "ks ! i \<in> set (y # ys)" "c (ks ! i) = Some i"
      show "r i = Some (ks ! i)"
      proof (cases "ks ! i \<in> set ys")
        case True
        then show ?thesis using r(3) i by blast
      next
        case False
        then have "ks ! i = y" using i(2) by simp
        then have "i = j" using j(3) i(3) by simp
        then show ?thesis using r(2) i(1) j(2) by auto
      qed
    qed
  qed
  from this [of xs Map.empty] show ?thesis unfolding reverse_candidates_def by blast
qed

lemma numbers:
  assumes "set line \<subseteq> dom c"
  shows "numbers c line = Inr (map (\<lambda>k. the (c k)) line)"
  using assms by (induction line) (auto split: option.splits)

lemma all_numbers:
  assumes "\<And>line. line \<in> set votes \<Longrightarrow> set line \<subseteq> dom c"
  shows "all_numbers c votes = Inr (map (map (\<lambda>k. the (c k))) votes)"
  using assms by (induction votes) (auto simp: numbers)

definition result_lines :: "nat \<Rightarrow> string list \<Rightarrow> string list" where
  "result_lines j ns = map (\<lambda>(i, name). result_line i name) (enumerate (Suc j) ns)"

lemma results:
  assumes "\<And>i. i \<in> set order \<Longrightarrow> r i = Some (f i)"
  shows "results r j order = Inr (result_lines j (map f order))"
  using assms by (induction order arbitrary: j) (auto simp: result_lines_def)


section \<open>The election\<close>

text \<open>What the numbered ballots give, in the order in which the candidates are numbered.\<close>

lemma election:
  assumes nss: "\<And>line. line \<in> set nss \<Longrightarrow> set line \<subseteq> {..<n}"
  shows "\<exists>d p p' order P. preferences n nss (zeros n) = Inr d \<and> start_paths n d (zeros n) = Inr p \<and>
    widen_paths n p = Inr p' \<and> ranking n p' ([], [0..<n]) = Inr order \<and>
    strongest n (link (support nss)) {..<n} P \<and> ranked n P (order, [])"
proof -
  obtain d where d: "preferences n nss (zeros n) = Inr d" "mat_is n d (support nss)"
    using preferences [OF nss] by blast
  obtain p where p: "start_paths n d (zeros n) = Inr p" "mat_is n p (link (support nss))"
    using start_paths [OF d(2)] by blast
  obtain p' P where p': "widen_paths n p = Inr p'" "mat_is n p' P" "strongest n (link (support nss)) {..<n} P"
    using widen_paths [OF p(2)] by blast
  have "ranked n P ([], [0..<n])" by (auto simp: ranked_def)
  from ranking [OF p'(2,3) this, of n] obtain order where "ranking n p' ([], [0..<n]) = Inr order"
    "ranked n P (order, [])" by auto
  then show ?thesis using d(1) p(1) p'(1,3) by blast
qed

definition candidates_of :: "string list list \<Rightarrow> string set" where
  "candidates_of votes = \<Union> (set ` set votes)"

text \<open>\<open>a\<close> holds its own against \<open>b\<close>: there is no path of victories from \<open>b\<close> to \<open>a\<close> that is stronger than all from \<open>a\<close> to \<open>b\<close>.\<close>

definition holds_against :: "string list list \<Rightarrow> string \<Rightarrow> string \<Rightarrow> bool" where
  "holds_against votes a b \<longleftrightarrow>
     (\<forall>t. connected (link (support votes)) (candidates_of votes) t b a \<longrightarrow>
          connected (link (support votes)) (candidates_of votes) t a b)"

lemma ranked_names:
  assumes K: "f ` {..<n} = candidates_of votes" and inj: "inj_on f {..<n}"
    and sup: "\<And>a b. a < n \<Longrightarrow> b < n \<Longrightarrow> s a b = support votes (f a) (f b)"
    and P: "strongest n (link s) {..<n} P" and r: "ranked n P (order, [])"
  shows "distinct (map f order) \<and> set (map f order) = candidates_of votes \<and>
    sorted_wrt (holds_against votes) (map f order)"
proof (intro conjI)
  have o: "distinct order" "set order = {..<n}" "sorted_wrt (\<lambda>a b. \<not> P a b < P b a) order"
    using r by (simp_all add: ranked_def)
  show "distinct (map f order)" using o(1,2) inj by (simp add: distinct_map)
  show "set (map f order) = candidates_of votes" using o(2) K by simp
  have h: "holds_against votes (f a) (f b)" if ab: "a < n" "b < n" "a \<noteq> b" "\<not> P a b < P b a" for a b
    unfolding holds_against_def
  proof (intro allI impI)
    fix t
    have c: "connected (link (support votes)) (candidates_of votes) t (f x) (f y) \<longleftrightarrow> t \<le> P x y"
      if "x < n" "y < n" "x \<noteq> y" for x y
    proof -
      have "connected (link (support votes)) (f ` {..<n}) t (f x) (f y) \<longleftrightarrow> connected (link s) {..<n} t x y"
        by (rule connected_image) (use that sup in \<open>auto simp: link_def\<close>)
      then show ?thesis using P that by (simp add: K strongest_def)
    qed
    assume "connected (link (support votes)) (candidates_of votes) t (f b) (f a)"
    then show "connected (link (support votes)) (candidates_of votes) t (f a) (f b)"
      using c [of b a] c [of a b] ab by simp
  qed
  have "sorted_wrt (\<lambda>a b. holds_against votes (f a) (f b)) order"
    unfolding sorted_wrt_iff_nth_less
  proof (intro allI impI)
    fix i j assume ij: "i < j" "j < length order"
    have "order ! i < n" "order ! j < n" using o(2) ij nth_mem [of i order] nth_mem [of j order] by auto
    moreover have "order ! i \<noteq> order ! j" using o(1) ij by (simp add: nth_eq_iff_index_eq)
    moreover have "\<not> P (order ! i) (order ! j) < P (order ! j) (order ! i)"
      using o(3) ij unfolding sorted_wrt_iff_nth_less by blast
    ultimately show "holds_against votes (f (order ! i)) (f (order ! j))" by (rule h)
  qed
  then show "sorted_wrt (holds_against votes) (map f order)" by (simp add: sorted_wrt_map)
qed

text \<open>
  C14: Whatever the ballots are and in whatever order a dictionary gives its keys, the script ends without an
  error and prints every candidate once, numbered from 1, such that no candidate further down the list
  has a stronger path of victories to one above it than that one has back. A victory is a pair of
  candidates of whom more ballots list the first before the second, or without the second, than the other way
  round; a path is as strong as the number of ballots of its weakest victory.
\<close>

theorem schulze_order:
  assumes keys: "\<And>m. finite (dom m) \<Longrightarrow> distinct (keys m) \<and> set (keys m) = dom m"
  shows "\<exists>ns. schulze keys lines = Inr (result_lines 0 ns) \<and> distinct ns \<and>
    set ns = candidates_of (map ballot lines) \<and> sorted_wrt (holds_against (map ballot lines)) ns"
proof -
  define votes where "votes = map ballot lines"
  define ks where "ks = keys (members votes)"
  define c where "c = number_keys ks (members votes)"
  define n where "n = length ks"
  define nss where "nss = map (map (\<lambda>k. the (c k))) votes"
  have fin: "finite (dom (members votes))" by (simp add: dom_members)
  have ks: "distinct ks" "set ks = candidates_of votes"
    using keys [OF fin] by (simp_all add: ks_def dom_members candidates_of_def)
  have c: "dom c = set ks" "\<And>i. i < n \<Longrightarrow> c (ks ! i) = Some i"
    using number_keys [of ks "members votes"] keys [OF fin] by (simp_all add: c_def ks_def n_def)
  have kc: "distinct (keys c)" "set (keys c) = set ks" using keys [of c] c(1) by simp_all
  have len: "length (keys c) = n" using distinct_card [OF kc(1)] distinct_card [OF ks(1)] kc(2) by (simp add: n_def)
  have idx: "\<exists>i < length ks. k = ks ! i \<and> c k = Some i" if "k \<in> set ks" for k
    using that c(2) by (auto simp: in_set_conv_nth n_def)
  obtain r where r: "reverse_candidates (keys c) c = Inr r" "\<And>i. i < n \<Longrightarrow> r i = Some (ks ! i)"
    using reverse_candidates [of "keys c" ks c] idx kc(2) c(2) by (auto simp: n_def)
  have vs: "set line \<subseteq> set ks" if "line \<in> set votes" for line using that ks(2) by (auto simp: candidates_of_def)
  have an: "all_numbers c votes = Inr nss" unfolding nss_def by (rule all_numbers) (use vs c(1) in blast)
  have nss: "set line \<subseteq> {..<n}" if "line \<in> set nss" for line
  proof -
    obtain l where l: "l \<in> set votes" "line = map (\<lambda>k. the (c k)) l" using \<open>line \<in> set nss\<close> by (auto simp: nss_def)
    show ?thesis
    proof
      fix x assume "x \<in> set line"
      then obtain k where "k \<in> set l" "x = the (c k)" using l(2) by auto
      moreover from this have "k \<in> set ks" using vs [OF l(1)] by blast
      ultimately show "x \<in> {..<n}" using idx [of k] by (auto simp: n_def)
    qed
  qed
  obtain d p p' order P where e: "preferences n nss (zeros n) = Inr d" "start_paths n d (zeros n) = Inr p"
    "widen_paths n p = Inr p'" "ranking n p' ([], [0..<n]) = Inr order"
    "strongest n (link (support nss)) {..<n} P" "ranked n P (order, [])"
    using election [OF nss] by blast
  have inj: "inj_on (\<lambda>i. ks ! i) {..<n}" using ks(1) by (simp add: inj_on_def n_def nth_eq_iff_index_eq)
  have img: "(\<lambda>i. ks ! i) ` {..<n} = candidates_of votes"
    unfolding ks(2) [symmetric] n_def by (auto simp: in_set_conv_nth)
  have injc: "inj_on (\<lambda>k. the (c k)) (set ks)"
  proof (rule inj_onI)
    fix x y assume "x \<in> set ks" "y \<in> set ks" "the (c x) = the (c y)"
    then show "x = y" using idx [of x] idx [of y] by auto
  qed
  have sup: "support nss a b = support votes (ks ! a) (ks ! b)" if "a < n" "b < n" for a b
    using support_map [OF injc, of "ks ! a" "ks ! b" votes] that vs c(2) by (simp add: nss_def n_def)
  have "set order = {..<n}" using e(6) by (simp add: ranked_def)
  then have "results r 0 order = Inr (result_lines 0 (map ((!) ks) order))" using r(2) by (intro results) simp
  then have "schulze keys lines = Inr (result_lines 0 (map ((!) ks) order))"
    using r(1) an e(1-4) len by (simp add: schulze_def Let_def flip: votes_def ks_def c_def)
  then show ?thesis using ranked_names [OF img inj sup e(5,6)] by (auto simp: votes_def)
qed


theorem schulze_order_witness:
  "\<exists>ns. schulze (\<lambda>m. sorted_list_of_set (dom m)) [''247AZ6WC6FKY  7 11 3'', ''26H3RZ9QPAXH  11 7 ''] = Inr (result_lines 0 ns) \<and>
      distinct ns \<and> set ns = {''3'', ''7'', ''11''}"
proof -
  have k: "distinct (sorted_list_of_set (dom m)) \<and> set (sorted_list_of_set (dom m)) = dom m"
    if "finite (dom m)" for m :: "string \<rightharpoonup> nat" using that by simp
  let ?lines = "[''247AZ6WC6FKY  7 11 3'', ''26H3RZ9QPAXH  11 7 '']"
  have "map ballot ?lines = [[''7'', ''11'', ''3''], [''11'', ''7'']]" by code_simp
  then have "candidates_of (map ballot ?lines) = {''3'', ''7'', ''11''}"
    by (simp only: candidates_of_def) auto
  then show ?thesis using schulze_order [of "\<lambda>m. sorted_list_of_set (dom m)" ?lines, OF k] by auto
qed

end
