(* ===== verification/BmAi.thy ===== *)
theory BmAi
  imports PyPrelude
begin

text \<open>
  \<open>unladen_swallow/performance/bm_ai.py\<close>: the generator of permutations, which counts in a list of cycles
  and swaps and rotates a list of indices, and the solver for the n queens that filters them. A generator
  is the list of what it yields; the \<open>while\<close> loop has fuel.
\<close>

section \<open>The program\<close>

definition swap :: "'a list \<Rightarrow> int \<Rightarrow> int \<Rightarrow> 'a list result" where
  "swap xs i j = rbind (py_get xs j) (\<lambda>x. rbind (py_get xs i) (\<lambda>y. rbind (py_set xs i x) (\<lambda>xs. py_set xs j y)))"

text \<open>
  The \<open>for\<close> loop: \<open>None\<close> where it runs to its end, which returns from the generator, and otherwise the
  state at the \<open>yield\<close>.
\<close>

fun advance :: "nat \<Rightarrow> nat list \<Rightarrow> nat list \<times> int list \<Rightarrow> (nat list \<times> int list) option result" where
  "advance n [] (indices, cycles) = Inr None"
| "advance n (i # is) (indices, cycles) =
     rbind (lget cycles i) (\<lambda>c. rbind (lset cycles i (c - 1)) (\<lambda>cycles.
       if c - 1 = 0 then
         rbind (lset cycles i (int n - int i))
           (\<lambda>cycles. advance n is (take i indices @ drop (i + 1) indices @ take 1 (drop i indices), cycles))
       else rbind (swap indices (int i) (- (c - 1))) (\<lambda>indices. Inr (Some (indices, cycles)))))"

text \<open>\<open>tuple(pool[i] for i in indices[:r])\<close>.\<close>

fun pick :: "'a list \<Rightarrow> nat list \<Rightarrow> 'a list result" where
  "pick pool [] = Inr []"
| "pick pool (i # is) = rbind (lget pool i) (\<lambda>x. rbind (pick pool is) (\<lambda>xs. Inr (x # xs)))"

fun perm_loop :: "nat \<Rightarrow> 'a list \<Rightarrow> nat \<Rightarrow> nat list \<times> int list \<Rightarrow> 'a list list result" where
  "perm_loop 0 pool r s = Inl OutOfFuel"
| "perm_loop (Suc fuel) pool r s =
     rbind (advance (length pool) (rev [0..<r]) s) (\<lambda>t. case t of
       None \<Rightarrow> Inr []
     | Some s \<Rightarrow> rbind (pick pool (take r (fst s))) (\<lambda>x. rbind (perm_loop fuel pool r s) (\<lambda>xs. Inr (x # xs))))"

definition permutations :: "nat \<Rightarrow> 'a list \<Rightarrow> nat option \<Rightarrow> 'a list list result" where
  "permutations fuel pool opt =
     (let n = length pool; r = (case opt of None \<Rightarrow> n | Some r \<Rightarrow> r);
          indices = [0..<n]; cycles = rev [int n - int r + 1..int n]
      in rbind (pick pool (take r indices)) (\<lambda>x.
         if n = 0 then Inr [x]
         else rbind (perm_loop fuel pool r (indices, cycles)) (\<lambda>xs. Inr (x # xs))))"

definition safe_vec :: "nat \<Rightarrow> nat list \<Rightarrow> bool result" where
  "safe_vec n vec =
     rbind (pick vec [0..<n]) (\<lambda>vs. Inr (
       n = card (set (map (\<lambda>(v, i). int v + int i) (zip vs [0..<n]))) \<and>
       n = card (set (map (\<lambda>(v, i). int v - int i) (zip vs [0..<n])))))"

fun filter_vecs :: "nat \<Rightarrow> nat list list \<Rightarrow> nat list list result" where
  "filter_vecs n [] = Inr []"
| "filter_vecs n (vec # vecs) =
     rbind (safe_vec n vec) (\<lambda>b. rbind (filter_vecs n vecs) (\<lambda>vs. Inr (if b then vec # vs else vs)))"

definition n_queens :: "nat \<Rightarrow> nat \<Rightarrow> nat list list result" where
  "n_queens fuel queen_count = rbind (permutations fuel [0..<queen_count] None) (filter_vecs queen_count)"

section \<open>The order of the permutations\<close>

text \<open>The reference: choose the first element by its place, then arrange \<open>r - 1\<close> of the others.\<close>

definition del_at :: "nat \<Rightarrow> 'a list \<Rightarrow> 'a list" where
  "del_at k xs = take k xs @ drop (Suc k) xs"

fun arrangements :: "nat \<Rightarrow> 'a list \<Rightarrow> 'a list list" where
  "arrangements 0 xs = [[]]"
| "arrangements (Suc r) xs = concat (map (\<lambda>k. map ((#) (xs ! k)) (arrangements r (del_at k xs))) [0..<length xs])"

lemma length_del_at [simp]: "k < length xs \<Longrightarrow> length (del_at k xs) = length xs - 1"
  by (simp add: del_at_def)

lemma arrangements_hd: "r \<le> length xs \<Longrightarrow> arrangements r xs \<noteq> [] \<and> hd (arrangements r xs) = take r xs"
proof (induction r xs rule: arrangements.induct)
  case (1 xs)
  then show ?case by simp
next
  case (2 r xs)
  then have "0 < length xs" by linarith
  then have x: "xs \<noteq> []" "[0..<length xs] = 0 # [Suc 0..<length xs]" by (simp, rule upt_conv_Cons)
  have "r \<le> length (del_at 0 xs)" using 2(2) by (simp add: del_at_def)
  moreover have "0 \<in> set [0..<length xs]" using x(1) by simp
  ultimately have IH: "arrangements r (del_at 0 xs) \<noteq> []" "hd (arrangements r (del_at 0 xs)) = take r (del_at 0 xs)"
    using 2(1) by blast+
  have h: "take r (del_at 0 xs) = take r (tl xs)" using x(1) by (cases xs) (simp_all add: del_at_def)
  have "hd (arrangements (Suc r) xs) = hd xs # take r (tl xs)"
    using IH h x by (simp add: hd_append hd_map hd_conv_nth)
  also have "\<dots> = take (Suc r) xs" using x(1) by (cases xs) simp_all
  finally show ?case using IH x by simp
qed

lemma set_del_at: "distinct xs \<Longrightarrow> k < length xs \<Longrightarrow> set (del_at k xs) = set xs - {xs ! k} \<and> distinct (del_at k xs)"
proof -
  assume d: "distinct xs" and k: "k < length xs"
  define us vs x where "us = take k xs" and "vs = drop (Suc k) xs" and "x = xs ! k"
  have xs: "xs = us @ x # vs" using k by (simp add: us_def vs_def x_def id_take_nth_drop)
  have "distinct (us @ x # vs)" using d xs by simp
  then have "set (us @ vs) = set (us @ x # vs) - {x} \<and> distinct (us @ vs)" by auto
  then show ?thesis unfolding del_at_def us_def [symmetric] vs_def [symmetric] x_def [symmetric] xs [symmetric] .
qed

lemma distinct_concat_map:
  assumes "distinct ks" and "\<And>k. k \<in> set ks \<Longrightarrow> distinct (f k)"
    and "\<And>k l. k \<in> set ks \<Longrightarrow> l \<in> set ks \<Longrightarrow> k \<noteq> l \<Longrightarrow> set (f k) \<inter> set (f l) = {}"
  shows "distinct (concat (map f ks))"
  using assms
proof (induction ks)
  case Nil
  then show ?case by simp
next
  case (Cons k ks)
  have "distinct (concat (map f ks))" using Cons by simp
  moreover have "set (f k) \<inter> set (f l) = {}" if "l \<in> set ks" for l
    using Cons.prems(1) that by (intro Cons.prems(3)) auto
  ultimately show ?case using Cons.prems(2) by auto
qed

lemma arrangements_set:
  assumes "distinct xs"
  shows "distinct (arrangements r xs) \<and> set (arrangements r xs) = {vs. length vs = r \<and> distinct vs \<and> set vs \<subseteq> set xs}"
  using assms
proof (induction r arbitrary: xs)
  case 0
  then show ?case by auto
next
  case (Suc r)
  let ?f = "\<lambda>k. map ((#) (xs ! k)) (arrangements r (del_at k xs))"
  have IH: "distinct (arrangements r (del_at k xs))"
    "set (arrangements r (del_at k xs)) = {vs. length vs = r \<and> distinct vs \<and> set vs \<subseteq> set xs - {xs ! k}}"
    if "k < length xs" for k
    using Suc.IH [of "del_at k xs"] set_del_at [OF Suc.prems that] by simp_all
  have "distinct (concat (map ?f [0..<length xs]))"
  proof (rule distinct_concat_map)
    fix k l assume "k \<in> set [0..<length xs]" "l \<in> set [0..<length xs]" "k \<noteq> l"
    then have "xs ! k \<noteq> xs ! l" using Suc.prems by (simp add: nth_eq_iff_index_eq)
    then show "set (?f k) \<inter> set (?f l) = {}" by auto
  qed (use IH in \<open>auto simp: distinct_map\<close>)
  moreover have "vs \<in> set (concat (map ?f [0..<length xs])) \<longleftrightarrow>
    length vs = Suc r \<and> distinct vs \<and> set vs \<subseteq> set xs" for vs
  proof
    assume "vs \<in> set (concat (map ?f [0..<length xs]))"
    then obtain k where k: "k < length xs" "vs \<in> set (?f k)" by auto
    then obtain ws where "vs = xs ! k # ws" "ws \<in> set (arrangements r (del_at k xs))" by auto
    then show "length vs = Suc r \<and> distinct vs \<and> set vs \<subseteq> set xs" using IH(2) [OF k(1)] k(1) by auto
  next
    assume v: "length vs = Suc r \<and> distinct vs \<and> set vs \<subseteq> set xs"
    then obtain w ws where w: "vs = w # ws" by (cases vs) auto
    with v obtain k where k: "k < length xs" "w = xs ! k" by (auto simp: in_set_conv_nth)
    have "ws \<in> set (arrangements r (del_at k xs))" using IH(2) [OF k(1)] v w k(2) by auto
    then show "vs \<in> set (concat (map ?f [0..<length xs]))" using w k by auto
  qed
  ultimately show ?case by auto
qed

section \<open>The generator goes through them\<close>

fun leads :: "nat \<Rightarrow> nat \<Rightarrow> nat list \<times> int list \<Rightarrow> nat list list \<Rightarrow> nat list \<times> int list \<Rightarrow> bool" where
  "leads n r s [] t \<longleftrightarrow> s = t"
| "leads n r s (y # ys) t \<longleftrightarrow>
     (\<exists>s'. advance n (rev [0..<r]) s = Inr (Some s') \<and> y = take r (fst s') \<and> leads n r s' ys t)"

lemma leads_append: "leads n r s xs t \<Longrightarrow> leads n r t ys u \<Longrightarrow> leads n r s (xs @ ys) u"
  by (induction xs arbitrary: s) auto

lemma perm_loop_leads:
  assumes "leads n r s ys t" and "advance n (rev [0..<r]) t = Inr None" and "length ys < fuel" and "length pool = n"
    and "\<And>y. y \<in> set ys \<Longrightarrow> set y \<subseteq> {..<n}"
  shows "perm_loop fuel pool r s = Inr (map (map ((!) pool)) ys)"
  using assms
proof (induction ys arbitrary: s fuel)
  case Nil
  then show ?case by (cases fuel) auto
next
  case (Cons y ys)
  have pk: "set is \<subseteq> {..<n} \<Longrightarrow> pick pool is = Inr (map ((!) pool) is)" for "is"
    using \<open>length pool = n\<close> by (induction "is") auto
  obtain f where f: "fuel = Suc f" using Cons.prems(3) by (cases fuel) auto
  from Cons.prems(1) obtain s' where s': "advance n (rev [0..<r]) s = Inr (Some s')" "y = take r (fst s')" "leads n r s' ys t"
    by auto
  have "perm_loop f pool r s' = Inr (map (map ((!) pool)) ys)"
    using Cons.prems f by (intro Cons.IH [OF s'(3)]) auto
  moreover have "pick pool y = Inr (map ((!) pool) y)" using pk Cons.prems(5) by simp
  ultimately show ?case using f s'(1,2) \<open>length pool = n\<close> by simp
qed

text \<open>One turn at place \<open>i\<close>: the suffix from there starts with its \<open>k\<close>-th element and has the others in order.\<close>

definition turn :: "nat list \<Rightarrow> nat list \<Rightarrow> nat \<Rightarrow> nat list" where
  "turn p s k = p @ s ! k # del_at k s"

lemma length_turn: "k < length s \<Longrightarrow> length (turn p s k) = length p + length s"
  by (simp add: turn_def)

lemma turn_split:
  assumes "Suc k < length s"
  obtains us a b vs where "s = us @ a # b # vs" "length us = k"
proof
  show "s = take k s @ s ! k # s ! Suc k # drop (Suc (Suc k)) s"
    using assms by (simp add: Cons_nth_drop_Suc)
  show "length (take k s) = k" using assms by simp
qed

lemma advance_swap:
  assumes "length p = i" and "Suc k < length s" and "i < length cyc" and "cyc ! i = int (length s - k)"
  shows "advance n (i # is) (turn p s k, cyc) = Inr (Some (turn p s (Suc k), cyc[i := int (length s - Suc k)]))"
proof -
  obtain us a b vs where s: "s = us @ a # b # vs" "length us = k" using turn_split [OF assms(2)] by blast
  define j where "j = - int (Suc (length vs))"
  have t: "turn p s k = p @ a # us @ b # vs" "turn p s (Suc k) = p @ b # us @ a # vs"
    using s by (simp_all add: turn_def del_at_def nth_append)
  have c: "cyc ! i - 1 = int (Suc (length vs))" using assms(4) s by simp
  have l: "int (length s - Suc k) = int (Suc (length vs))" using s by simp
  have ix: "py_index xs j = Inr (Suc (i + k))" "py_index xs (int i) = Inr i"
    if "length xs = i + (k + length vs + 2)" for xs :: "nat list"
    using that by (simp_all add: py_index_def j_def Let_def nat_eq_iff)
  have "swap (turn p s k) (int i) j = Inr (turn p s (Suc k))"
    unfolding swap_def py_get_def py_set_def t using assms(1) s(2)
    by (simp add: ix nth_append list_update_append)
  then have "swap (turn p s k) (int i) (- int (Suc (length vs))) = Inr (turn p s (Suc k))" by (simp only: j_def)
  then show ?thesis using assms(3) by (simp only: advance.simps lget_ok lset_ok rbind_simps c l) simp
qed

lemma advance_rotate:
  assumes "length p = i" and "s \<noteq> []" and "i < length cyc" and "cyc ! i = 1" and "n = i + length s"
  shows "advance n (i # is) (turn p s (length s - 1), cyc) = advance n is (p @ s, cyc[i := int (length s)])"
proof -
  obtain us a where s: "s = us @ [a]" using assms(2) by (cases s rule: rev_cases) auto
  then have "turn p s (length s - 1) = p @ a # us" by (simp add: turn_def del_at_def)
  then show ?thesis using assms s by simp
qed


text \<open>All arrangements of the suffix from place \<open>i\<close> on; then the suffix and the cycles are what they were.\<close>

lemma leads_level:
  assumes "i \<le> r" and "r \<le> n" and "length p = i" and "length s = n - i" and "length cyc = r"
    and "\<And>k. i \<le> k \<Longrightarrow> k < r \<Longrightarrow> cyc ! k = int (n - k)"
  shows "\<exists>t. leads n r (p @ s, cyc) (tl (map ((@) p) (arrangements (r - i) s))) t \<and>
    advance n (rev [0..<r]) t = advance n (rev [0..<i]) (p @ s, cyc)"
  using assms
proof (induction "r - i" arbitrary: i p s cyc)
  case 0
  then show ?case by simp
next
  case (Suc l)
  then have ir: "i < r" "l = r - Suc i" "r - i = Suc l" by simp_all
  let ?m = "length s"
  have m: "0 < ?m" "?m = n - i" using ir(1) Suc.prems by simp_all
  define cy where "cy = (\<lambda>k. cyc[i := int (?m - k)])"
  define block where "block = (\<lambda>k. map ((@) p) (map ((#) (s ! k)) (arrangements l (del_at k s))))"
  have cy0: "cy 0 = cyc" using Suc.prems(6) [of i] Suc.prems(5) ir(1) m by (simp add: cy_def list_update_same_conv)
  have lev: "\<exists>t. leads n r (turn p s k, cy k) (tl (block k)) t \<and>
      advance n (rev [0..<r]) t = advance n (i # rev [0..<i]) (turn p s k, cy k)" if k: "k < ?m" for k
  proof -
    have "\<exists>t. leads n r ((p @ [s ! k]) @ del_at k s, cy k) (tl (map ((@) (p @ [s ! k])) (arrangements (r - Suc i) (del_at k s)))) t \<and>
      advance n (rev [0..<r]) t = advance n (rev [0..<Suc i]) ((p @ [s ! k]) @ del_at k s, cy k)"
    proof (rule Suc.hyps(1))
      show "length (del_at k s) = n - Suc i" using k m by simp
      fix j assume "Suc i \<le> j" "j < r"
      then show "cy k ! j = int (n - j)" using Suc.prems(6) [of j] by (simp add: cy_def)
    qed (use Suc.prems ir in \<open>simp_all add: cy_def\<close>)
    moreover have "map ((@) (p @ [s ! k])) (arrangements (r - Suc i) (del_at k s)) = block k"
      using ir(2) by (simp add: block_def o_def)
    moreover have "(p @ [s ! k]) @ del_at k s = turn p s k" "rev [0..<Suc i] = i # rev [0..<i]"
      by (simp_all add: turn_def)
    ultimately show ?thesis by (simp only:)
  qed
  have first: "block k \<noteq> [] \<and> hd (block k) = take r (turn p s k)" if k: "k < ?m" for k
  proof -
    have "l \<le> length (del_at k s)" using k m ir Suc.prems by simp
    from arrangements_hd [OF this] show ?thesis
      using ir Suc.prems(3) by (simp add: block_def turn_def hd_map)
  qed
  have upto: "\<exists>t. leads n r (p @ s, cyc) (tl (concat (map block [0..<Suc k]))) t \<and>
      advance n (rev [0..<r]) t = advance n (i # rev [0..<i]) (turn p s k, cy k)" if "k < ?m" for k
    using that
  proof (induction k)
    case 0
    have "turn p s 0 = p @ s" using m(1) by (cases s) (simp_all add: turn_def del_at_def)
    then show ?case using lev [OF 0] cy0 by simp
  next
    case (Suc k)
    then obtain t where t: "leads n r (p @ s, cyc) (tl (concat (map block [0..<Suc k]))) t"
      "advance n (rev [0..<r]) t = advance n (i # rev [0..<i]) (turn p s k, cy k)" by auto
    obtain u where u: "leads n r (turn p s (Suc k), cy (Suc k)) (tl (block (Suc k))) u"
      "advance n (rev [0..<r]) u = advance n (i # rev [0..<i]) (turn p s (Suc k), cy (Suc k))"
      using lev [OF Suc.prems] by blast
    have "advance n (i # rev [0..<i]) (turn p s k, cy k) = Inr (Some (turn p s (Suc k), (cy k)[i := int (?m - Suc k)]))"
      using Suc.prems \<open>length p = i\<close> \<open>length cyc = r\<close> ir(1) by (intro advance_swap) (simp_all add: cy_def)
    then have "advance n (rev [0..<r]) t = Inr (Some (turn p s (Suc k), cy (Suc k)))"
      using t(2) by (simp add: cy_def)
    moreover have "block (Suc k) = take r (turn p s (Suc k)) # tl (block (Suc k))"
      using first [OF Suc.prems] by (cases "block (Suc k)") auto
    ultimately have "leads n r t (block (Suc k)) u" using u(1) by (metis fst_conv leads.simps(2))
    from leads_append [OF t(1) this]
    have "leads n r (p @ s, cyc) (tl (concat (map block [0..<Suc k])) @ block (Suc k)) u" .
    moreover have "concat (map block [0..<Suc k]) \<noteq> []" using first [of k] Suc.prems by simp
    moreover have "concat (map block [0..<Suc (Suc k)]) = concat (map block [0..<Suc k]) @ block (Suc k)" by simp
    ultimately have "leads n r (p @ s, cyc) (tl (concat (map block [0..<Suc (Suc k)]))) u"
      by (metis tl_append2)
    then show ?case using u(2) by blast
  qed
  have km: "Suc (?m - 1) = ?m" using m(1) by simp
  from upto [of "?m - 1"] m(1) obtain t where t: "leads n r (p @ s, cyc) (tl (concat (map block [0..<?m]))) t"
    "advance n (rev [0..<r]) t = advance n (i # rev [0..<i]) (turn p s (?m - 1), cy (?m - 1))"
    unfolding km by auto
  have "advance n (i # rev [0..<i]) (turn p s (?m - 1), cy (?m - 1)) =
      advance n (rev [0..<i]) (p @ s, (cy (?m - 1))[i := int ?m])"
    using Suc.prems ir(1) m by (intro advance_rotate) (auto simp: cy_def)
  moreover have "(cy (?m - 1))[i := int ?m] = cyc" using cy0 by (simp add: cy_def)
  ultimately have a: "advance n (rev [0..<r]) t = advance n (rev [0..<i]) (p @ s, cyc)"
    unfolding t(2) by (simp only:)
  have b: "concat (map block [0..<?m]) = map ((@) p) (arrangements (r - i) s)"
    by (simp add: ir(3) block_def map_concat o_def)
  show ?case using t(1) a unfolding b by blast
qed

lemma arrangements_map: "arrangements r (map f xs) = map (map f) (arrangements r xs)"
proof (induction r xs rule: arrangements.induct)
  case (1 xs)
  then show ?case by simp
next
  case (2 r xs)
  have d: "del_at k (map f xs) = map f (del_at k xs)" for k by (simp add: del_at_def take_map drop_map)
  have eq: "map (\<lambda>k. map ((#) (map f xs ! k)) (arrangements r (del_at k (map f xs)))) [0..<length xs] =
    map (\<lambda>k. map (map f) (map ((#) (xs ! k)) (arrangements r (del_at k xs)))) [0..<length xs]"
    by (rule map_cong) (simp_all add: d 2 o_def)
  show ?case unfolding arrangements.simps length_map eq by (simp add: map_concat o_def)
qed

lemma arrangements_subset: "y \<in> set (arrangements r xs) \<Longrightarrow> set y \<subseteq> set xs"
proof (induction r xs arbitrary: y rule: arrangements.induct)
  case (1 xs)
  then show ?case by simp
next
  case (2 r xs)
  then obtain k z where k: "k < length xs" "y = xs ! k # z" "z \<in> set (arrangements r (del_at k xs))" by auto
  have "set z \<subseteq> set (del_at k xs)" using 2(1) [of k z] k by simp
  also have "\<dots> \<subseteq> set xs" by (auto simp: del_at_def dest: in_set_takeD in_set_dropD)
  finally show ?case using k by simp
qed

lemma permutations_list:
  assumes "r = (case opt of None \<Rightarrow> length pool | Some r \<Rightarrow> r)" and "r \<le> length pool"
    and "length (arrangements r pool) \<le> fuel"
  shows "permutations fuel pool opt = Inr (arrangements r pool)"
proof -
  let ?n = "length pool" and ?cyc = "rev [int (length pool) - int r + 1..int (length pool)]"
  have cyc: "length ?cyc = r" "\<And>k. k < r \<Longrightarrow> ?cyc ! k = int (?n - k)"
    using assms(2) by (simp_all add: rev_nth of_nat_diff)
  have all: "map (map ((!) pool)) (arrangements r [0..<?n]) = arrangements r pool"
    using arrangements_map [of r "(!) pool" "[0..<?n]"] by (simp add: map_nth)
  have pick: "pick pool (take r [0..<?n]) = Inr (map ((!) pool) (take r [0..<?n]))"
  proof -
    have "set is \<subseteq> {..<?n} \<Longrightarrow> pick pool is = Inr (map ((!) pool) is)" for "is" by (induction "is") auto
    moreover have "set (take r [0..<?n]) \<subseteq> {..<?n}" by (auto dest: in_set_takeD)
    ultimately show ?thesis by blast
  qed
  have h: "arrangements r [0..<?n] \<noteq> []" "hd (arrangements r [0..<?n]) = take r [0..<?n]"
    using arrangements_hd [of r "[0..<?n]"] assms(2) by simp_all
  have ar: "Inr (map ((!) pool) (take r [0..<?n]) # map (map ((!) pool)) (tl (arrangements r [0..<?n]))) =
      (Inr (arrangements r pool) :: 'a list list result)"
    unfolding all [symmetric] using h by (cases "arrangements r [0..<?n]") auto
  show ?thesis
  proof (cases "?n = 0")
    case True
    then show ?thesis using pick assms(1,2) by (simp add: permutations_def)
  next
    case False
    have e: "map ((@) []) xs = xs" for xs :: "nat list list" by (simp add: map_idI)
    have "\<exists>t. leads ?n r ([] @ [0..<?n], ?cyc) (tl (map ((@) []) (arrangements (r - 0) [0..<?n]))) t \<and>
        advance ?n (rev [0..<r]) t = advance ?n (rev [0..<0]) ([] @ [0..<?n], ?cyc)"
      by (rule leads_level) (use cyc assms(2) in auto)
    then obtain t where t: "leads ?n r ([0..<?n], ?cyc) (tl (arrangements r [0..<?n])) t"
      "advance ?n (rev [0..<r]) t = Inr None"
      unfolding e by auto
    have "length (tl (arrangements r [0..<?n])) < fuel"
      using assms(3) h(1) unfolding all [symmetric] by (cases "arrangements r [0..<?n]") auto
    moreover have "set y \<subseteq> {..<?n}" if "y \<in> set (tl (arrangements r [0..<?n]))" for y
      using arrangements_subset [OF list.set_sel(2) [OF h(1) that]] by auto
    ultimately have "perm_loop fuel pool r ([0..<?n], ?cyc) = Inr (map (map ((!) pool)) (tl (arrangements r [0..<?n])))"
      by (intro perm_loop_leads [OF t]) auto
    then show ?thesis using False pick ar assms(1) by (simp add: permutations_def Let_def)
  qed
qed

section \<open>The queens\<close>

text \<open>A placement of \<open>n\<close> queens as the column of the queen of each row.\<close>

definition placements :: "nat \<Rightarrow> nat list set" where
  "placements n = {v. length v = n \<and> set v \<subseteq> {..<n} \<and>
     (\<forall>i j. i < j \<and> j < n \<longrightarrow> v ! i \<noteq> v ! j \<and> v ! i + i \<noteq> v ! j + j \<and> v ! i + j \<noteq> v ! j + i)}"

lemma card_image_all: "card (f ` {..<n :: nat}) = n \<longleftrightarrow> inj_on f {..<n}"
  using card_image [of f "{..<n}"] eq_card_imp_inj_on [of "{..<n}" f] by auto

lemma inj_on_less: "inj_on g {..<n :: nat} \<longleftrightarrow> (\<forall>i j. i < j \<and> j < n \<longrightarrow> g i \<noteq> g j)"
proof
  assume "inj_on g {..<n}"
  then show "\<forall>i j. i < j \<and> j < n \<longrightarrow> g i \<noteq> g j" by (auto dest: inj_onD)
next
  assume g: "\<forall>i j. i < j \<and> j < n \<longrightarrow> g i \<noteq> g j"
  show "inj_on g {..<n}"
  proof (rule inj_onI)
    fix x y assume "x \<in> {..<n}" "y \<in> {..<n}" "g x = g y"
    then show "x = y" using g by (cases x y rule: linorder_cases) force+
  qed
qed

lemma safe_vec:
  assumes "length v = n"
  shows "safe_vec n v = Inr (\<forall>i j. i < j \<and> j < n \<longrightarrow> v ! i + i \<noteq> v ! j + j \<and> v ! i + j \<noteq> v ! j + i)"
proof -
  have "set is \<subseteq> {..<n} \<Longrightarrow> pick v is = Inr (map ((!) v) is)" for "is"
    using assms by (induction "is") auto
  then have "pick v [0..<n] = Inr (map ((!) v) [0..<n])" by (simp add: subset_eq)
  then have p: "pick v [0..<n] = Inr v" using assms map_nth [of v] by simp
  have z: "set (map (\<lambda>(v, i). f v i) (zip v [0..<n])) = (\<lambda>i. f (v ! i) i) ` {..<n}" for f :: "nat \<Rightarrow> nat \<Rightarrow> int"
    using assms by (force simp: set_zip image_iff)
  have e: "int a + int b = int c + int d \<longleftrightarrow> a + b = c + d" "int a - int b = int c - int d \<longleftrightarrow> a + d = c + b"
    for a b c d by linarith+
  have "n = card (set (map (\<lambda>(v, i). int v + int i) (zip v [0..<n]))) \<longleftrightarrow>
      (\<forall>i j. i < j \<and> j < n \<longrightarrow> v ! i + i \<noteq> v ! j + j)"
    unfolding z by (subst eq_commute) (simp add: card_image_all inj_on_less e)
  moreover have "n = card (set (map (\<lambda>(v, i). int v - int i) (zip v [0..<n]))) \<longleftrightarrow>
      (\<forall>i j. i < j \<and> j < n \<longrightarrow> v ! i + j \<noteq> v ! j + i)"
    unfolding z by (subst eq_commute) (simp add: card_image_all inj_on_less e)
  ultimately show ?thesis by (auto simp: safe_vec_def p)
qed

lemma filter_vecs:
  assumes "\<And>v. v \<in> set vs \<Longrightarrow> safe_vec n v = Inr (P v)"
  shows "filter_vecs n vs = Inr (filter P vs)"
  using assms by (induction vs) auto

lemma length_arrangements: "length xs = r \<Longrightarrow> length (arrangements r xs) = fact r"
proof (induction r arbitrary: xs)
  case 0
  then show ?case by simp
next
  case (Suc r)
  then have "length (arrangements r (del_at k xs)) = fact r" if "k < length xs" for k using that by simp
  then have "length (arrangements (Suc r) xs) = (\<Sum>k \<leftarrow> [0..<length xs]. fact r)"
    unfolding arrangements.simps length_concat map_map by (intro arg_cong [of _ _ sum_list] map_cong) simp_all
  then show ?case using Suc.prems by (simp add: sum_list_triv)
qed

lemma n_queens_placements:
  assumes "fact n \<le> fuel"
  shows "\<exists>vs. n_queens fuel n = Inr vs \<and> distinct vs \<and> set vs = placements n"
proof -
  let ?P = "\<lambda>v. \<forall>i j. i < j \<and> j < n \<longrightarrow> v ! i + i \<noteq> v ! j + j \<and> v ! i + j \<noteq> v ! j + i"
  let ?vs = "arrangements n [0..<n]"
  have vs: "distinct ?vs" "set ?vs = {v. length v = n \<and> distinct v \<and> set v \<subseteq> {..<n}}"
    using arrangements_set [of "[0..<n]" n] by (auto simp: subset_eq)
  have "permutations fuel [0..<n] None = Inr ?vs"
    using assms by (intro permutations_list) (simp_all add: length_arrangements)
  moreover have "filter_vecs n ?vs = Inr (filter ?P ?vs)"
    by (rule filter_vecs, rule safe_vec) (use vs(2) in simp)
  ultimately have "n_queens fuel n = Inr (filter ?P ?vs)" by (simp add: n_queens_def)
  moreover have "set (filter ?P ?vs) = placements n"
  proof -
    have "distinct v \<longleftrightarrow> (\<forall>i j. i < j \<and> j < n \<longrightarrow> v ! i \<noteq> v ! j)" if "length v = n" for v :: "nat list"
      unfolding inj_on_less [symmetric] using that by (auto simp: distinct_conv_nth inj_on_def)
    then show ?thesis unfolding set_filter vs(2) placements_def by auto
  qed
  ultimately show ?thesis using distinct_filter [OF vs(1), of ?P] by blast
qed

section \<open>Properties\<close>

text \<open>
  C16: For at most as many places as the pool has elements, \<open>permutations\<close> yields exactly the arrangements of
  the elements of the pool on the places, in the order in which a choice by place, first place first, lists
  them, for all fuel from their number on.
\<close>

theorem permutations_arrangements:
  assumes "r = (case opt of None \<Rightarrow> length pool | Some r \<Rightarrow> r)" and "r \<le> length pool"
    and "length (arrangements r pool) \<le> fuel"
  shows "permutations fuel pool opt = Inr (arrangements r pool)"
  using assms by (rule permutations_list)

theorem permutations_arrangements_witness:
  "permutations 6 [0, 1, 2 :: nat] (Some 2) = Inr [[0, 1], [0, 2], [1, 0], [1, 2], [2, 0], [2, 1]]"
proof -
  have a: "arrangements 2 [0, 1, 2 :: nat] = [[0, 1], [0, 2], [1, 0], [1, 2], [2, 0], [2, 1]]" by code_simp
  show ?thesis using permutations_arrangements [of 2 "[0, 1, 2 :: nat]" "Some 2" 6] a by simp
qed


end
