(* ===== verification/Nqueens.thy ===== *)
theory Nqueens
  imports PyText BmAi "HOL-Library.List_Lexorder" "HOL-Library.Product_Lexorder" "HOL-Library.Sublist"
begin

text \<open>
  \<open>own/nqueens.py\<close>: the count of the placements of \<open>L\<close> queens by a search over the squares in order. \<open>L\<close> is
  10 in the program and an argument here. The search keeps the lines that are free as sets of lines and
  takes sets of squares off them, which takes nothing away, so that of its tests only the one on the number
  of squares ever prunes; the count is right all the same.
\<close>

section \<open>The board\<close>

type_synonym pos = "nat \<times> nat"

text \<open>What is in one of the sets: a square, or a line as a set of squares.\<close>

datatype item = Pos pos | Line "pos set"

definition poss :: "nat \<Rightarrow> pos list" where
  "poss L = concat (map (\<lambda>i. map (\<lambda>j. (i, j)) [0..<L]) [0..<L])"

definition poscols :: "nat \<Rightarrow> pos list list" where
  "poscols L = map (\<lambda>j. map (\<lambda>i. (i, j)) [0..<L]) [0..<L]"

definition posrows :: "nat \<Rightarrow> pos list list" where
  "posrows L = map (\<lambda>i. map (\<lambda>j. (i, j)) [0..<L]) [0..<L]"

definition posdiag :: "nat \<Rightarrow> pos list list" where
  "posdiag L = map (\<lambda>g. map (\<lambda>h. (h, g - h)) (filter (\<lambda>h. h < L \<and> g - h < L) [0..<g + 1])) [0..<L * 2 - 1]"

definition posgaid :: "nat \<Rightarrow> pos list list" where
  "posgaid L = map (\<lambda>g. map (\<lambda>h. (nat (g + int h), h)) (filter (\<lambda>h. - 1 < g + int h \<and> g + int h < int L) [0..<L]))
     [- int L + 1..int L - 1]"

definition frozenset :: "pos list \<Rightarrow> item set" where
  "frozenset line = Pos ` set line"

definition attacks :: "nat \<Rightarrow> pos \<Rightarrow> (item set \<times> item set \<times> item set \<times> item set) result" where
  "attacks L p =
     (let row = filter (\<lambda>r. p \<in> set r) (posrows L);
          col = filter (\<lambda>c. p \<in> set c) (poscols L);
          dia = filter (\<lambda>d. p \<in> set d) (posdiag L);
          gai = filter (\<lambda>g. p \<in> set g) (posgaid L)
      in if length row = length col \<and> length col = length dia \<and> length dia = length gai \<and> length gai = 1
         then Inr (frozenset (row ! 0), frozenset (col ! 0), frozenset (dia ! 0), frozenset (gai ! 0))
         else Inl AssertionError)"

type_synonym attack_map = "pos \<rightharpoonup> item set \<times> item set \<times> item set \<times> item set"

definition attackmap :: "nat \<Rightarrow> attack_map result" where
  "attackmap L = for_each (poss L) (\<lambda>p m. rbind (attacks L p) (\<lambda>a. Inr (m(p \<mapsto> a)))) Map.empty"

definition line_set :: "pos list list \<Rightarrow> item set" where
  "line_set lines = set (map (\<lambda>l. Line (set l)) lines)"

section \<open>The search\<close>

text \<open>\<open>solutions\<close> is a list of \<open>None\<close>s, of which only the length is used: the number \<open>s\<close>.\<close>

function place :: "attack_map \<Rightarrow> pos list \<Rightarrow> string list \<Rightarrow> item set \<Rightarrow> item set \<Rightarrow> item set \<Rightarrow> item set \<Rightarrow>
    nat \<Rightarrow> nat result"
  and place_each :: "attack_map \<Rightarrow> pos list \<Rightarrow> string list \<Rightarrow> item set \<Rightarrow> item set \<Rightarrow> item set \<Rightarrow> item set \<Rightarrow>
    nat \<Rightarrow> nat result"
where
  "place am board queens r c d g s =
     (let s = (if queens = [] then s + 1 else s); q = length queens
      in if length board < q \<or> card r < q \<or> card c < q \<or> card d < q \<or> card g < q then Inr s
         else place_each am board queens r c d g s)"
| "place_each am [] queens r c d g s = Inr s"
| "place_each am (pos # rest) queens r c d g s =
     (case am pos of None \<Rightarrow> Inl KeyError
      | Some (ar, ac, ad, ag) \<Rightarrow>
          rbind (place am (filter (\<lambda>b. Pos b \<notin> ar \<union> ac \<union> ad \<union> ag) rest) (drop 1 queens)
                   (r - ar) (c - ac) (d - ad) (g - ag) s)
            (place_each am rest queens r c d g))"
  by pat_completeness auto
termination
  by (relation "measure (\<lambda>x. case x of Inl (am, board, _) \<Rightarrow> 2 * length board + 1 | Inr (am, board, _) \<Rightarrow> 2 * length board)")
    (auto simp: less_Suc_eq_le intro!: order.trans [OF length_filter_le])

declare place.simps [simp del]

definition queen_names :: "nat \<Rightarrow> string list" where
  "queen_names L = sort (map (\<lambda>i. CHR ''Q'' # nat_str i) [0..<L])"

definition nqueens_run :: "nat \<Rightarrow> nat result" where
  "nqueens_run L =
     rbind (attackmap L) (\<lambda>am.
       place am (poss L) (queen_names L) (line_set (posrows L)) (line_set (poscols L))
         (line_set (posdiag L)) (line_set (posgaid L)) 0)"

end
