(* ===== verification/NqueensProof.thy ===== *)
theory NqueensProof
  imports Nqueens
begin

text \<open>
  The lines and what a queen attacks; the search finds the lists of squares that attack one another nowhere;
  and these are the placements that the solver of \<open>bm_ai.py\<close> yields.
\<close>

section \<open>Lines\<close>

definition attack :: "pos \<Rightarrow> pos \<Rightarrow> bool" where
  "attack = (\<lambda>(a, b) (i, j). a = i \<or> b = j \<or> a + b = i + j \<or> a + j = i + b)"

definition on_board :: "nat \<Rightarrow> pos set" where
  "on_board L = {..<L} \<times> {..<L}"

text \<open>\<open>key\<close> says on which of the lines a square lies.\<close>

definition lines_by :: "nat \<Rightarrow> pos list list \<Rightarrow> (pos \<Rightarrow> nat) \<Rightarrow> bool" where
  "lines_by L lines key \<longleftrightarrow> (\<forall>k < length lines. set (lines ! k) = {p \<in> on_board L. key p = k} \<and> lines ! k \<noteq> []) \<and>
     (\<forall>p \<in> on_board L. key p < length lines)"

lemma rows: "lines_by L (posrows L) fst"
  by (auto simp: lines_by_def posrows_def on_board_def)

lemma cols: "lines_by L (poscols L) snd"
  by (auto simp: lines_by_def poscols_def on_board_def)

lemma map_not_Nil: "x \<in> set xs \<Longrightarrow> map f xs \<noteq> []"
  by auto

lemma diags: "lines_by L (posdiag L) (\<lambda>(a, b). a + b)"
  unfolding lines_by_def
proof (intro conjI allI ballI impI)
  fix k assume k: "k < length (posdiag L)"
  then have e: "posdiag L ! k = map (\<lambda>h. (h, k - h)) (filter (\<lambda>h. h < L \<and> k - h < L) [0..<k + 1])" and kl: "k < L * 2 - 1"
    by (simp_all add: posdiag_def)
  show "set (posdiag L ! k) = {p \<in> on_board L. (case p of (a, b) \<Rightarrow> a + b) = k}"
    unfolding e on_board_def by (auto simp: image_iff)
  have "(min k (L - 1)) \<in> set (filter (\<lambda>h. h < L \<and> k - h < L) [0..<k + 1])" using kl by auto
  then show "posdiag L ! k \<noteq> []" unfolding e by (rule map_not_Nil)
next
  fix p assume "p \<in> on_board L"
  then show "(case p of (a, b) \<Rightarrow> a + b) < length (posdiag L)" by (auto simp: on_board_def posdiag_def)
qed

lemma gaids: "lines_by L (posgaid L) (\<lambda>(a, b). a + L - 1 - b)"
  unfolding lines_by_def
proof (intro conjI allI ballI impI)
  fix k assume k: "k < length (posgaid L)"
  then have kl: "k < 2 * L - 1" by (simp add: posgaid_def)
  define g where "g = int k - int L + 1"
  have e: "posgaid L ! k = map (\<lambda>h. (nat (g + int h), h)) (filter (\<lambda>h. - 1 < g + int h \<and> g + int h < int L) [0..<L])"
  proof -
    have "[- int L + 1..int L - 1] ! k = - int L + 1 + int k" using kl by (intro nth_upto) linarith
    then have "[- int L + 1..int L - 1] ! k = g" by (simp add: g_def)
    moreover have "k < length [- int L + 1..int L - 1]" using kl by simp
    ultimately show ?thesis by (simp only: posgaid_def nth_map)
  qed
  show "set (posgaid L ! k) = {p \<in> on_board L. (case p of (a, b) \<Rightarrow> a + L - 1 - b) = k}"
    unfolding e on_board_def g_def by (auto simp: image_iff)
  have "(if k < L then L - 1 - k else 0) \<in> set (filter (\<lambda>h. - 1 < g + int h \<and> g + int h < int L) [0..<L])"
    using kl by (auto simp: g_def)
  then show "posgaid L ! k \<noteq> []" unfolding e by (rule map_not_Nil)
next
  fix p assume "p \<in> on_board L"
  then show "(case p of (a, b) \<Rightarrow> a + L - 1 - b) < length (posgaid L)" by (auto simp: on_board_def posgaid_def)
qed

lemma filter_one: "k < length xs \<Longrightarrow> (\<And>l. l < length xs \<Longrightarrow> P (xs ! l) \<longleftrightarrow> l = k) \<Longrightarrow> filter P xs = [xs ! k]"
proof (induction xs arbitrary: k)
  case Nil
  then show ?case by simp
next
  case (Cons x xs)
  show ?case
  proof (cases k)
    case 0
    have "\<not> P (xs ! l)" if "l < length xs" for l using Cons.prems(2) [of "Suc l"] 0 that by simp
    then have "filter P xs = []" by (auto simp: filter_empty_conv in_set_conv_nth)
    then show ?thesis using Cons.prems(2) [of 0] 0 by simp
  next
    case (Suc m)
    have "filter P xs = [xs ! m]"
    proof (rule Cons.IH)
      show "m < length xs" using Cons.prems(1) Suc by simp
      show "P (xs ! l) \<longleftrightarrow> l = m" if "l < length xs" for l using Cons.prems(2) [of "Suc l"] Suc that by simp
    qed
    then show ?thesis using Cons.prems(2) [of 0] Suc by simp
  qed
qed

lemma line_of:
  assumes "lines_by L lines key" and "p \<in> on_board L"
  shows "\<exists>l. filter (\<lambda>r. p \<in> set r) lines = [l] \<and> set l = {q \<in> on_board L. key q = key p}"
proof -
  have k: "key p < length lines" using assms by (auto simp: lines_by_def)
  have "filter (\<lambda>r. p \<in> set r) lines = [lines ! key p]"
    by (rule filter_one [OF k]) (use assms in \<open>auto simp: lines_by_def\<close>)
  then show ?thesis using assms(1) k by (auto simp: lines_by_def)
qed

definition attacked_set :: "nat \<Rightarrow> pos \<Rightarrow> item set" where
  "attacked_set L p = Pos ` {q \<in> on_board L. attack p q}"

lemma attacks_ok:
  assumes "p \<in> on_board L"
  shows "\<exists>ar ac ad ag. attacks L p = Inr (ar, ac, ad, ag) \<and> ar \<union> ac \<union> ad \<union> ag = attacked_set L p"
proof -
  obtain r c d g where l: "filter (\<lambda>r. p \<in> set r) (posrows L) = [r]" "set r = {q \<in> on_board L. fst q = fst p}"
    "filter (\<lambda>r. p \<in> set r) (poscols L) = [c]" "set c = {q \<in> on_board L. snd q = snd p}"
    "filter (\<lambda>r. p \<in> set r) (posdiag L) = [d]" "set d = {q \<in> on_board L. (\<lambda>(a, b). a + b) q = (\<lambda>(a, b). a + b) p}"
    "filter (\<lambda>r. p \<in> set r) (posgaid L) = [g]" "set g = {q \<in> on_board L. (\<lambda>(a, b). a + L - 1 - b) q = (\<lambda>(a, b). a + L - 1 - b) p}"
    using line_of [OF rows assms] line_of [OF cols assms] line_of [OF diags assms] line_of [OF gaids assms] by blast
  have "attacks L p = Inr (frozenset r, frozenset c, frozenset d, frozenset g)"
    by (simp add: attacks_def l(1,3,5,7) Let_def)
  moreover have "set r \<union> set c \<union> set d \<union> set g = {q \<in> on_board L. attack p q}"
    using assms unfolding l(2,4,6,8) by (auto simp: attack_def on_board_def)
  then have "frozenset r \<union> frozenset c \<union> frozenset d \<union> frozenset g = attacked_set L p"
    unfolding frozenset_def attacked_set_def by (simp flip: image_Un)
  ultimately show ?thesis by blast
qed

lemma card_line_set:
  assumes "lines_by L lines key"
  shows "card (line_set lines) = length lines"
proof -
  have "distinct (map (\<lambda>l. Line (set l)) lines)"
    unfolding distinct_conv_nth
  proof (intro allI impI)
    fix i j assume ij: "i < length (map (\<lambda>l. Line (set l)) lines)" "j < length (map (\<lambda>l. Line (set l)) lines)" "i \<noteq> j"
    then obtain p where p: "p \<in> set (lines ! i)" using assms by (cases "lines ! i") (auto simp: lines_by_def)
    then have "key p = i" using assms ij by (auto simp: lines_by_def)
    then have "p \<notin> set (lines ! j)" using assms ij by (auto simp: lines_by_def)
    then show "map (\<lambda>l. Line (set l)) lines ! i \<noteq> map (\<lambda>l. Line (set l)) lines ! j" using p ij by auto
  qed
  then show ?thesis using distinct_card by (fastforce simp: line_set_def)
qed

lemma set_poss: "set (poss L) = on_board L"
  by (auto simp: poss_def on_board_def)

definition knows :: "nat \<Rightarrow> attack_map \<Rightarrow> pos \<Rightarrow> bool" where
  "knows L am p \<longleftrightarrow> (\<exists>ar ac ad ag. am p = Some (ar, ac, ad, ag) \<and> ar \<union> ac \<union> ad \<union> ag = attacked_set L p)"

lemma attackmap_ok: "\<exists>am. attackmap L = Inr am \<and> (\<forall>p \<in> on_board L. knows L am p)"
proof -
  have "\<exists>am. for_each ps (\<lambda>p m. rbind (attacks L p) (\<lambda>a. Inr (m(p \<mapsto> a)))) am0 = Inr am \<and>
     (\<forall>p. p \<in> set ps \<or> knows L am0 p \<longrightarrow> knows L am p)" if "set ps \<subseteq> on_board L" for ps am0
    using that
  proof (induction ps arbitrary: am0)
    case Nil
    then show ?case by simp
  next
    case (Cons p ps)
    from attacks_ok [of p L] Cons.prems obtain a where a: "attacks L p = Inr a" "knows L (am0(p \<mapsto> a)) p"
      by (auto simp: knows_def)
    have k: "knows L am0 q \<Longrightarrow> knows L (am0(p \<mapsto> a)) q" for q
      using a(2) by (cases "q = p") (simp_all add: knows_def)
    have "set ps \<subseteq> on_board L" using Cons.prems by simp
    from Cons.IH [OF this, of "am0(p \<mapsto> a)"] obtain am where am:
      "for_each ps (\<lambda>p m. rbind (attacks L p) (\<lambda>a. Inr (m(p \<mapsto> a)))) (am0(p \<mapsto> a)) = Inr am"
      "\<forall>q. q \<in> set ps \<or> knows L (am0(p \<mapsto> a)) q \<longrightarrow> knows L am q" by blast
    have "\<forall>q. q \<in> set (p # ps) \<or> knows L am0 q \<longrightarrow> knows L am q" using am(2) a(2) k by auto
    moreover have "for_each (p # ps) (\<lambda>p m. rbind (attacks L p) (\<lambda>a. Inr (m(p \<mapsto> a)))) am0 = Inr am"
      by (simp only: for_each.simps a(1) rbind_simps am(1))
    ultimately show ?case by blast
  qed
  from this [of "poss L" Map.empty] show ?thesis by (auto simp: attackmap_def set_poss)
qed

section \<open>The search\<close>

text \<open>What the search counts: the ways to choose \<open>q\<close> squares, in order, none of which attacks another.\<close>

fun ways :: "nat \<Rightarrow> pos list \<Rightarrow> pos list list" where
  "ways 0 board = [[]]"
| "ways (Suc q) [] = []"
| "ways (Suc q) (p # rest) = map ((#) p) (ways q (filter (\<lambda>b. \<not> attack p b) rest)) @ ways (Suc q) rest"


lemma ways_short: "length board < q \<Longrightarrow> ways q board = []"
proof (induction q board rule: ways.induct)
  case (3 q p rest)
  have "length (filter (\<lambda>b. \<not> attack p b) rest) < q"
    using 3(3) le_less_trans [OF length_filter_le [of "\<lambda>b. \<not> attack p b" rest], of q] by simp
  then show ?case using 3 by simp
qed simp_all

text \<open>Sets of lines lose nothing when squares are taken off them.\<close>

lemma lines_minus: "r \<subseteq> range Line \<Longrightarrow> ar \<subseteq> range Pos \<Longrightarrow> r - ar = r"
  by blast

text \<open>The rows of the board that are left are never more than the queens that are left.\<close>

lemma rows_left:
  assumes "card (fst ` set (p # rest)) \<le> q"
  shows "card (fst ` set (filter (\<lambda>b. \<not> attack p b) rest)) \<le> q - 1 \<and> card (fst ` set rest) \<le> q"
proof
  have "fst ` set (filter (\<lambda>b. \<not> attack p b) rest) \<subseteq> fst ` set (p # rest) - {fst p}"
    by (auto simp: attack_def)
  then have "card (fst ` set (filter (\<lambda>b. \<not> attack p b) rest)) \<le> card (fst ` set (p # rest) - {fst p})"
    by (intro card_mono) auto
  also have "\<dots> = card (fst ` set (p # rest)) - 1" by (intro card_Diff_singleton) auto
  finally show "card (fst ` set (filter (\<lambda>b. \<not> attack p b) rest)) \<le> q - 1" using assms by simp
  have "card (fst ` set rest) \<le> card (fst ` set (p # rest))" by (intro card_mono) auto
  then show "card (fst ` set rest) \<le> q" using assms by simp
qed

lemma place_counts:
  assumes am: "\<forall>p \<in> on_board L. knows L am p"
    and lines: "r \<subseteq> range Line" "c \<subseteq> range Line" "d \<subseteq> range Line" "g \<subseteq> range Line"
    and cards: "L \<le> card r" "L \<le> card c" "L \<le> card d" "L \<le> card g"
    and "set board \<subseteq> on_board L" and "card (fst ` set board) \<le> length queens" and "length queens \<le> L"
  shows "(queens \<noteq> [] \<longrightarrow> place_each am board queens r c d g s = Inr (s + length (ways (length queens) board))) \<and>
    place am board queens r c d g s = Inr (s + length (ways (length queens) board))"
  using assms(10-12)
proof (induction "length board" arbitrary: board queens s rule: less_induct)
  case less
  have each: "place_each am board queens r c d g s = Inr (s + length (ways (length queens) board))" if q: "queens \<noteq> []"
  proof (cases board)
    case Nil
    then show ?thesis using q by (cases queens) simp_all
  next
    case (Cons p rest)
    obtain x qs where qs: "queens = x # qs" using q by (cases queens) auto
    obtain ar ac ad ag where a: "am p = Some (ar, ac, ad, ag)" "ar \<union> ac \<union> ad \<union> ag = attacked_set L p"
      using am less.prems(1) Cons by (auto simp: knows_def)
    have "attacked_set L p \<subseteq> range Pos" by (auto simp: attacked_set_def)
    with a(2) have sub: "ar \<subseteq> range Pos" "ac \<subseteq> range Pos" "ad \<subseteq> range Pos" "ag \<subseteq> range Pos" by blast+
    let ?rest = "filter (\<lambda>b. \<not> attack p b) rest"
    have f: "filter (\<lambda>b. Pos b \<notin> ar \<union> ac \<union> ad \<union> ag) rest = ?rest"
      unfolding a(2) by (rule filter_cong) (use less.prems(1) Cons in \<open>auto simp: attacked_set_def\<close>)
    have rl: "card (fst ` set ?rest) \<le> length qs" "card (fst ` set rest) \<le> length queens"
      using rows_left [of p rest "length queens"] less.prems(2) Cons qs by simp_all
    have "place am ?rest qs r c d g s = Inr (s + length (ways (length qs) ?rest))"
      using less.prems Cons qs rl(1) by (intro less.hyps [THEN conjunct2]) (auto simp: less_Suc_eq_le)
    moreover have "place_each am rest queens r c d g t = Inr (t + length (ways (length queens) rest))" for t
      using less.prems Cons q rl(2) by (intro less.hyps [THEN conjunct1, THEN mp]) auto
    ultimately show ?thesis
      using a(1) f sub lines qs by (simp add: Cons lines_minus)
  qed
  show ?case
  proof (cases "queens = []")
    case True
    then have "board = []" using less.prems(2) by simp
    then show ?thesis using True by (simp add: place.simps)
  next
    case False
    then show ?thesis using each less.prems(3) cards
      by (auto simp: place.simps [of am board queens] ways_short Let_def)
  qed
qed

lemma nqueens_run_ways: "nqueens_run L = Inr (length (ways L (poss L)))"
proof -
  obtain am where am: "attackmap L = Inr am" "\<forall>p \<in> on_board L. knows L am p" using attackmap_ok by blast
  have n: "length (queen_names L) = L" by (simp add: queen_names_def)
  have l: "line_set lines \<subseteq> range Line" for lines by (auto simp: line_set_def)
  have c: "L \<le> card (line_set (posrows L))" "L \<le> card (line_set (poscols L))"
    "L \<le> card (line_set (posdiag L))" "L \<le> card (line_set (posgaid L))"
    using card_line_set [OF rows, of L] card_line_set [OF cols, of L] card_line_set [OF diags, of L] card_line_set [OF gaids, of L]
    by (simp_all add: posrows_def poscols_def posdiag_def posgaid_def)
  have "fst ` on_board L \<subseteq> {..<L}" by (auto simp: on_board_def)
  then have "card (fst ` set (poss L)) \<le> L" unfolding set_poss using card_mono [of "{..<L}"] by fastforce
  then have "place am (poss L) (queen_names L) (line_set (posrows L)) (line_set (poscols L))
      (line_set (posdiag L)) (line_set (posgaid L)) 0 = Inr (0 + length (ways (length (queen_names L)) (poss L)))"
    using place_counts [OF am(2) l l l l c, of "poss L" "queen_names L" 0] by (simp add: n set_poss)
  then show ?thesis using am(1) n by (simp add: nqueens_run_def)
qed

section \<open>The placements\<close>

lemma subseq_set: "subseq xs ys \<Longrightarrow> set xs \<subseteq> set ys"
  by (auto elim: list_emb_set)

lemma subseq_sorted_wrt: "subseq xs ys \<Longrightarrow> sorted_wrt R ys \<Longrightarrow> sorted_wrt R xs"
  by (induction rule: list_emb.induct) (auto dest: subseq_set)

lemma subseq_of_filter: "subseq xs (filter P ys) \<longleftrightarrow> subseq xs ys \<and> (\<forall>x \<in> set xs. P x)"
proof
  assume s: "subseq xs (filter P ys)"
  then have "set xs \<subseteq> set (filter P ys)" by (rule subseq_set)
  then show "subseq xs ys \<and> (\<forall>x \<in> set xs. P x)"
    using subseq_order.order_trans [OF s subseq_filter_left] by auto
next
  assume a: "subseq xs ys \<and> (\<forall>x \<in> set xs. P x)"
  then have s: "subseq (filter P xs) (filter P ys)" by (intro subseq_filter) simp
  have f: "filter P xs = xs" using a by (simp add: filter_id_conv)
  from s show "subseq xs (filter P ys)" unfolding f .
qed

lemma set_ways:
  "qs \<in> set (ways q board) \<longleftrightarrow> length qs = q \<and> subseq qs board \<and> sorted_wrt (\<lambda>p b. \<not> attack p b) qs"
proof (induction q board arbitrary: qs rule: ways.induct)
  case (1 board)
  then show ?case by auto
next
  case (2 q)
  then show ?case by auto
next
  case (3 q p rest)
  show ?case
  proof (cases qs)
    case Nil
    then show ?thesis using 3 by auto
  next
    case (Cons b bs)
    show ?thesis
    proof (cases "b = p")
      case True
      then show ?thesis using 3 Cons subseq_of_filter [of bs "\<lambda>b. \<not> attack p b" rest] by (auto dest: subseq_Cons')
    next
      case False
      then show ?thesis using 3 Cons by auto
    qed
  qed
qed


lemma ways_distinct: "distinct board \<Longrightarrow> distinct (ways q board)"
proof (induction q board rule: ways.induct)
  case (3 q p rest)
  have "distinct (ways q (filter (\<lambda>b. \<not> attack p b) rest))" "distinct (ways (Suc q) rest)"
    using 3 by simp_all
  moreover have "p # qs \<notin> set (ways (Suc q) rest)" for qs
  proof
    assume "p # qs \<in> set (ways (Suc q) rest)"
    then have "subseq (p # qs) rest" by (simp add: set_ways)
    then have "p \<in> set rest" using subseq_set by fastforce
    then show False using 3(3) by simp
  qed
  ultimately show ?case by (auto simp: distinct_map)
qed simp_all

lemma sorted_poss: "sorted_wrt (<) (poss L)"
proof -
  have "sorted_wrt (<) (concat (map (\<lambda>i. map (\<lambda>j. (i, j)) [0..<L]) [0..<n]))" for n
  proof (induction n)
    case (Suc n)
    have "sorted_wrt (<) (map (\<lambda>j. (n, j)) [0..<L])" by (simp add: sorted_wrt_map)
    then show ?case using Suc.IH by (auto simp: sorted_wrt_append)
  qed simp
  then show ?thesis by (simp add: poss_def)
qed

lemma attack_iff:
  "attack p q \<longleftrightarrow> fst p = fst q \<or> snd p = snd q \<or> fst p + snd p = fst q + snd q \<or> fst p + snd q = fst q + snd p"
  by (simp add: attack_def split_beta)

text \<open>The queens of a placement, one in each row.\<close>

lemma ways_placements: "set (ways L (poss L)) = (\<lambda>v. zip [0..<L] v) ` placements L"
proof (intro set_eqI iffI)
  fix qs assume "qs \<in> set (ways L (poss L))"
  then have qs: "length qs = L" "subseq qs (poss L)" "sorted_wrt (\<lambda>p b. \<not> attack p b) qs"
    by (simp_all add: set_ways)
  have sub: "set qs \<subseteq> on_board L" using subseq_set [OF qs(2)] by (simp add: set_poss)
  have "sorted_wrt (<) qs" by (rule subseq_sorted_wrt [OF qs(2) sorted_poss])
  then have "sorted_wrt (\<lambda>p b. fst p < fst b) qs"
    using qs(3) by (auto simp: sorted_wrt_iff_nth_less attack_iff less_prod_def le_less)
  then have "sorted_wrt (<) (map fst qs)" by (simp add: sorted_wrt_map)
  moreover have "set (map fst qs) = {..<L}"
  proof (rule card_subset_eq)
    show "set (map fst qs) \<subseteq> {..<L}" using sub by (auto simp: on_board_def)
    show "card (set (map fst qs)) = card {..<L}"
      using calculation qs(1) distinct_card [of "map fst qs"] by (simp add: strict_sorted_iff)
  qed simp
  ultimately have f: "map fst qs = [0..<L]"
    by (intro sorted_distinct_set_unique) (auto simp: strict_sorted_iff)
  then have z: "qs = zip [0..<L] (map snd qs)" by (metis zip_map_fst_snd)
  have nth: "fst (qs ! i) = i" if "i < L" for i
    using that qs(1) f nth_map [of i qs fst] by simp
  have "map snd qs \<in> placements L"
    unfolding placements_def
  proof (intro CollectI conjI allI impI)
    show "length (map snd qs) = L" "set (map snd qs) \<subseteq> {..<L}" using qs(1) sub by (auto simp: on_board_def)
    fix i j assume ij: "i < j \<and> j < L"
    then have "\<not> attack (qs ! i) (qs ! j)" using qs(1,3) by (simp add: sorted_wrt_iff_nth_less)
    then have a: "snd (qs ! i) \<noteq> snd (qs ! j)" "i + snd (qs ! i) \<noteq> j + snd (qs ! j)" "i + snd (qs ! j) \<noteq> j + snd (qs ! i)"
      using nth [of i] nth [of j] ij by (simp_all add: attack_iff)
    have m: "map snd qs ! i = snd (qs ! i)" "map snd qs ! j = snd (qs ! j)" using ij qs(1) by simp_all
    show "map snd qs ! i \<noteq> map snd qs ! j" unfolding m by (rule a)
    show "map snd qs ! i + i \<noteq> map snd qs ! j + j" unfolding m using a(2) by linarith
    show "map snd qs ! i + j \<noteq> map snd qs ! j + i" unfolding m using a(3) by linarith
  qed
  then show "qs \<in> (\<lambda>v. zip [0..<L] v) ` placements L" using z by blast
next
  fix qs assume "qs \<in> (\<lambda>v. zip [0..<L] v) ` placements L"
  then obtain v where v: "v \<in> placements L" "qs = zip [0..<L] v" by blast
  have l: "length v = L" "set v \<subseteq> {..<L}" using v(1) by (simp_all add: placements_def)
  have "sorted_wrt (<) qs" using v(2) l(1) by (auto simp: sorted_wrt_iff_nth_less)
  moreover have "set qs \<subseteq> on_board L" using v(2) l by (auto simp: on_board_def dest: set_zip_leftD set_zip_rightD)
  ultimately have "subseq qs (poss L)" using sorted_subset_imp_subseq [of qs "poss L"] sorted_poss
    by (simp add: set_poss strict_sorted_iff)
  moreover have "sorted_wrt (\<lambda>p b. \<not> attack p b) qs"
    unfolding sorted_wrt_iff_nth_less
  proof (intro allI impI)
    fix i j assume ij: "i < j" "j < length qs"
    then have "v ! i \<noteq> v ! j \<and> v ! i + i \<noteq> v ! j + j \<and> v ! i + j \<noteq> v ! j + i"
      using v l(1) by (simp add: placements_def)
    moreover have "qs ! i = (i, v ! i)" "qs ! j = (j, v ! j)" using ij v(2) l(1) by simp_all
    ultimately show "\<not> attack (qs ! i) (qs ! j)" using ij(1) by (simp only: attack_iff fst_conv snd_conv) presburger
  qed
  ultimately show "qs \<in> set (ways L (poss L))" using v(2) l(1) by (simp add: set_ways)
qed


section \<open>Properties\<close>

text \<open>
  C15: The two programs for the \<open>n\<close> queens agree on every board: the solver of \<open>bm_ai.py\<close> yields every
  placement of \<open>n\<close> queens that do not attack each other exactly once, for all fuel from the number of
  permutations on, and the search of \<open>own/nqueens.py\<close> ends without an error and counts as many.
\<close>

theorem queens_agree:
  assumes "fact n \<le> fuel"
  shows "\<exists>vs. n_queens fuel n = Inr vs \<and> distinct vs \<and> set vs = placements n \<and> nqueens_run n = Inr (length vs)"
proof -
  obtain vs where vs: "n_queens fuel n = Inr vs" "distinct vs" "set vs = placements n"
    using n_queens_placements [OF assms] by blast
  have inj: "inj_on (\<lambda>v. zip [0..<n] v) (placements n)"
  proof (rule inj_onI)
    fix v w assume "v \<in> placements n" "w \<in> placements n" "zip [0..<n] v = zip [0..<n] w"
    then have "map snd (zip [0..<n] v) = map snd (zip [0..<n] w)" and l: "length v = n" "length w = n"
      by (simp_all add: placements_def)
    moreover have "map snd (zip [0..<n] v) = v" "map snd (zip [0..<n] w) = w" using l by (simp_all add: map_snd_zip)
    ultimately show "v = w" by simp
  qed
  have "length (ways n (poss n)) = card (set (ways n (poss n)))"
    using ways_distinct [of "poss n" n] sorted_poss [of n] by (simp add: strict_sorted_iff distinct_card)
  also have "\<dots> = card (placements n)" unfolding ways_placements by (rule card_image [OF inj])
  also have "\<dots> = length vs" using vs(2,3) by (metis distinct_card)
  finally have "nqueens_run n = Inr (length vs)" by (simp add: nqueens_run_ways)
  with vs show ?thesis by blast
qed

theorem queens_agree_witness:
  "n_queens 24 4 = Inr [[1, 3, 0, 2], [2, 0, 3, 1]] \<and> nqueens_run 4 = Inr 2"
proof -
  have a: "n_queens 24 4 = Inr [[1, 3, 0, 2], [2, 0, 3, 1]]" by code_simp
  have "\<exists>vs. n_queens 24 4 = Inr vs \<and> distinct vs \<and> set vs = placements 4 \<and> nqueens_run 4 = Inr (length vs)"
    by (rule queens_agree) (simp add: fact_numeral)
  with a show ?thesis by auto
qed

end
