(* ===== verification/Skiplist.thy ===== *)
theory Skiplist
  imports ItemSet
begin

text \<open>
  \<open>multithread/skiplist/skiplist.py\<close>: a set as a skip list. A node is an index into a list of nodes, and
  the head is node 0; a node that nothing refers to stays in the list. The random numbers of
  \<open>randomHeight\<close> are an argument of \<open>insert\<close>, as a list that is used from its front.
\<close>

section \<open>Nodes\<close>

record 'a skip_node =
  sk_elem :: "'a option"
  sk_next :: "nat option list"

record 'a skiplist =
  sk_nodes :: "'a skip_node list"
  sk_len :: int
  maxHeight :: int

definition SkipNode :: "nat \<Rightarrow> 'a option \<Rightarrow> 'a skip_node" where
  "SkipNode height elem = \<lparr>sk_elem = elem, sk_next = replicate height None\<rparr>"

definition SkipList :: "'a skiplist" where
  "SkipList = \<lparr>sk_nodes = [SkipNode 0 None], sk_len = 0, maxHeight = 0\<rparr>"

definition sk_get :: "'a skiplist \<Rightarrow> nat \<Rightarrow> nat \<Rightarrow> nat option result" where
  "sk_get s n i = rbind (lget (sk_nodes s) n) (\<lambda>nd. lget (sk_next nd) i)"

definition sk_set :: "nat \<Rightarrow> nat \<Rightarrow> nat option \<Rightarrow> 'a skiplist \<Rightarrow> 'a skiplist result" where
  "sk_set n i v s =
     rbind (lget (sk_nodes s) n) (\<lambda>nd. rbind (lset (sk_next nd) i v) (\<lambda>nx.
     rbind (lset (sk_nodes s) n (nd\<lparr>sk_next := nx\<rparr>)) (\<lambda>ns. Inr (s\<lparr>sk_nodes := ns\<rparr>))))"

text \<open>\<open>elem < x\<close>, with Python 2's \<open>None\<close> below everything.\<close>

definition elem_less :: "'a::linorder option \<Rightarrow> 'a \<Rightarrow> bool" where
  "elem_less e x = (case e of None \<Rightarrow> True | Some e \<Rightarrow> e < x)"

section \<open>Looking for an element\<close>

fun walk :: "nat \<Rightarrow> 'a::linorder skiplist \<Rightarrow> nat \<Rightarrow> 'a \<Rightarrow> nat \<Rightarrow> nat result" where
  "walk 0 s i elem x = Inl OutOfFuel"
| "walk (Suc fuel) s i elem x =
     rbind (sk_get s x i) (\<lambda>nx. case nx of
       None \<Rightarrow> Inr x
     | Some y \<Rightarrow> rbind (lget (sk_nodes s) y) (\<lambda>nd.
         if elem_less (sk_elem nd) elem then walk fuel s i elem y else Inr x))"

fun update_loop :: "'a::linorder skiplist \<Rightarrow> 'a \<Rightarrow> nat list \<Rightarrow> nat \<Rightarrow> nat option list \<Rightarrow> nat option list result" where
  "update_loop s elem [] x update = Inr update"
| "update_loop s elem (i # is) x update =
     rbind (walk (length (sk_nodes s)) s i elem x) (\<lambda>x.
     rbind (lset update i (Some x)) (update_loop s elem is x))"

definition updateList :: "'a::linorder skiplist \<Rightarrow> 'a \<Rightarrow> nat option list result" where
  "updateList s elem =
     (let n = nat (maxHeight s) in update_loop s elem (rev [0..<n]) 0 (replicate n None))"

text \<open>\<open>update[i]\<close>, whose attributes are read.\<close>

definition entry :: "nat option list \<Rightarrow> nat \<Rightarrow> nat result" where
  "entry update i = rbind (lget update i) (\<lambda>u. case u of None \<Rightarrow> Inl AttributeError | Some u \<Rightarrow> Inr u)"

definition find_node :: "'a::linorder skiplist \<Rightarrow> 'a \<Rightarrow> nat option list option \<Rightarrow> nat option result" where
  "find_node s elem opt =
     rbind (case opt of None \<Rightarrow> updateList s elem | Some update \<Rightarrow> Inr update) (\<lambda>update.
     if 0 < length update then
       rbind (entry update 0) (\<lambda>u. rbind (sk_get s u 0) (\<lambda>candidate. case candidate of
         None \<Rightarrow> Inr None
       | Some c \<Rightarrow> rbind (lget (sk_nodes s) c) (\<lambda>nd. Inr (if sk_elem nd = Some elem then Some c else None))))
     else Inr None)"

definition sk_contains :: "'a::linorder \<Rightarrow> 'a skiplist \<Rightarrow> bool result" where
  "sk_contains elem s = rbind (find_node s elem None) (\<lambda>f. Inr (f \<noteq> None))"

section \<open>Changing the set\<close>

fun randomHeight :: "int list \<Rightarrow> nat \<Rightarrow> nat result" where
  "randomHeight [] height = Inl OutOfFuel"
| "randomHeight (d # draws) height = (if d \<noteq> 1 then randomHeight draws (height + 1) else Inr height)"

function extend :: "nat \<Rightarrow> nat option list \<Rightarrow> nat option list" where
  "extend n xs = (if length xs < n then extend n (xs @ [None]) else xs)"
  by pat_completeness auto
termination
  by (relation "measure (\<lambda>(n, xs). n - length xs)") auto

declare extend.simps [simp del]

definition link_level :: "nat \<Rightarrow> nat option list \<Rightarrow> nat \<Rightarrow> 'a skiplist \<Rightarrow> 'a skiplist result" where
  "link_level node update i s =
     rbind (entry update i) (\<lambda>u. rbind (sk_get s u i) (\<lambda>v.
     rbind (sk_set node i v s) (sk_set u i (Some node))))"

text \<open>The first part of \<open>insert\<close>: the new node, \<open>maxHeight\<close>, and the head as high as the node.\<close>

definition add_node :: "nat \<Rightarrow> 'a \<Rightarrow> 'a skiplist \<Rightarrow> 'a skiplist result" where
  "add_node h elem s =
     (let nodes = sk_nodes s @ [SkipNode h (Some elem)] in
      rbind (lget nodes 0) (\<lambda>head.
      rbind (lset nodes 0 (head\<lparr>sk_next := extend h (sk_next head)\<rparr>)) (\<lambda>nodes.
      Inr (s\<lparr>sk_nodes := nodes, maxHeight := max (maxHeight s) (int h)\<rparr>))))"

definition sk_insert :: "int list \<Rightarrow> 'a::linorder \<Rightarrow> 'a skiplist \<Rightarrow> 'a skiplist result" where
  "sk_insert draws elem s =
     rbind (randomHeight draws 1) (\<lambda>h. rbind (add_node h elem s) (\<lambda>s'.
     rbind (updateList s' elem) (\<lambda>update. rbind (find_node s' elem (Some update)) (\<lambda>f.
     if f = None then
       rbind (for_each [0..<h] (link_level (length (sk_nodes s)) update) s') (\<lambda>s. Inr (s\<lparr>sk_len := sk_len s + 1\<rparr>))
     else Inr s'))))"

definition unlink_level :: "nat \<Rightarrow> nat option list \<Rightarrow> nat \<Rightarrow> 'a skiplist \<Rightarrow> 'a skiplist result" where
  "unlink_level x update i s =
     rbind (entry update i) (\<lambda>u. rbind (sk_get s x i) (\<lambda>v. rbind (sk_set u i v s) (\<lambda>s.
     rbind (sk_get s 0 i) (\<lambda>first. Inr (if first = None then s\<lparr>maxHeight := maxHeight s - 1\<rparr> else s)))))"

definition sk_remove :: "'a::linorder \<Rightarrow> 'a skiplist \<Rightarrow> 'a skiplist result" where
  "sk_remove elem s =
     rbind (updateList s elem) (\<lambda>update. rbind (find_node s elem (Some update)) (\<lambda>f. case f of
       None \<Rightarrow> Inr s
     | Some x \<Rightarrow> rbind (lget (sk_nodes s) x) (\<lambda>nd.
         rbind (for_each (rev [0..<length (sk_next nd)]) (unlink_level x update) s)
           (\<lambda>s. Inr (s\<lparr>sk_len := sk_len s - 1\<rparr>)))))"

section \<open>Printing\<close>

fun print_level :: "nat \<Rightarrow> 'a skiplist \<Rightarrow> nat \<Rightarrow> nat \<Rightarrow> 'a option list result" where
  "print_level 0 s i x = Inl OutOfFuel"
| "print_level (Suc fuel) s i x =
     rbind (sk_get s x i) (\<lambda>nx. case nx of
       None \<Rightarrow> Inr []
     | Some y \<Rightarrow> rbind (lget (sk_nodes s) y) (\<lambda>nd.
         rbind (print_level fuel s i y) (\<lambda>es. Inr (sk_elem nd # es))))"

fun print_levels :: "'a skiplist \<Rightarrow> nat list \<Rightarrow> 'a option list list result" where
  "print_levels s [] = Inr []"
| "print_levels s (i # is) =
     rbind (print_level (length (sk_nodes s)) s i 0) (\<lambda>es. rbind (print_levels s is) (\<lambda>ess. Inr (es # ess)))"

definition printList :: "'a skiplist \<Rightarrow> 'a option list list result" where
  "printList s = rbind (lget (sk_nodes s) 0) (\<lambda>head. print_levels s (rev [0..<length (sk_next head)]))"


section \<open>A task\<close>

text \<open>
  What a task draws: an operation of \<open>OPS\<close>, the random numbers an insertion uses and the element.
  The look-up of a task is \<open>find\<close>, whose result it drops.
\<close>

definition sk_run_op :: "op \<times> int list \<times> 'a::linorder \<Rightarrow> 'a skiplist \<Rightarrow> 'a skiplist result" where
  "sk_run_op = (\<lambda>(op, draws, elem) s. case op of
     Contains \<Rightarrow> rbind (find_node s elem None) (\<lambda>f. Inr s)
   | Insert \<Rightarrow> sk_insert draws elem s
   | Remove \<Rightarrow> sk_remove elem s)"

definition sk_task :: "(op \<times> int list \<times> 'a::linorder) list \<Rightarrow> 'a skiplist \<Rightarrow> 'a skiplist result" where
  "sk_task ops = for_each ops sk_run_op"

end
