(* ===== verification/SkiplistProof.thy ===== *)
theory SkiplistProof
  imports Skiplist
begin

text \<open>
  The skip list as the increasing list of its nodes: on each level the nodes that are high enough are
  linked in that order. What \<open>updateList\<close> finds, and what linking and unlinking keep.
\<close>

section \<open>Chains\<close>

fun chain :: "(nat \<Rightarrow> nat option) \<Rightarrow> nat \<Rightarrow> nat list \<Rightarrow> bool" where
  "chain f n [] \<longleftrightarrow> f n = None"
| "chain f n (m # ms) \<longleftrightarrow> f n = Some m \<and> chain f m ms"

lemma chain_append: "chain f n (us @ vs) \<Longrightarrow> chain f (last (n # us)) vs"
  by (induction us arbitrary: n) auto

lemma links_cong: "(\<And>m. m \<in> set (n # ms) \<Longrightarrow> f m = g m) \<Longrightarrow> chain f n ms \<longleftrightarrow> chain g n ms"
  by (induction ms arbitrary: n) auto

lemma chain_link:
  assumes "chain f n (us @ vs)" and "distinct (n # us @ vs)" and "new \<notin> set (n # us @ vs)"
  shows "chain (f(new := f (last (n # us)), last (n # us) := Some new)) n (us @ new # vs)"
  using assms
proof (induction us arbitrary: n)
  case Nil
  have "chain (f(new := f n, n := Some new)) new vs \<longleftrightarrow> chain (f(new := f n)) new vs"
    using Nil by (intro links_cong) auto
  moreover have "chain (f(new := f n)) new vs"
  proof (cases vs)
    case Nil
    then show ?thesis using \<open>chain f n ([] @ vs)\<close> by simp
  next
    case (Cons v ws)
    have "chain (f(new := f n)) v ws \<longleftrightarrow> chain f v ws"
      using Cons \<open>new \<notin> set (n # [] @ vs)\<close> by (intro links_cong) auto
    then show ?thesis using Cons \<open>chain f n ([] @ vs)\<close> by simp
  qed
  ultimately show ?case by (simp del: fun_upd_apply add: fun_upd_same)
next
  case (Cons u us)
  have "chain (f(new := f (last (u # us)), last (u # us) := Some new)) u (us @ new # vs)"
    using Cons.prems by (intro Cons.IH) auto
  moreover have "n \<noteq> last (u # us)" using Cons.prems(2) last_in_set [of "u # us"] by auto
  ultimately show ?case using Cons.prems by (auto simp del: fun_upd_apply simp: fun_upd_other)
qed

lemma chain_unlink:
  assumes "chain f n (us @ x # vs)" and "distinct (n # us @ x # vs)"
  shows "chain (f(last (n # us) := f x)) n (us @ vs)"
  using assms
proof (induction us arbitrary: n)
  case Nil
  show ?case
  proof (cases vs)
    case Nil
    then show ?thesis using \<open>chain f n ([] @ x # vs)\<close> by simp
  next
    case (Cons v ws)
    have "chain (f(n := f x)) v ws \<longleftrightarrow> chain f v ws"
      using Cons \<open>distinct (n # [] @ x # vs)\<close> by (intro links_cong) auto
    then show ?thesis using Cons \<open>chain f n ([] @ x # vs)\<close> by (simp del: fun_upd_apply add: fun_upd_same)
  qed
next
  case (Cons u us)
  have "chain (f(last (u # us) := f x)) u (us @ vs)" using Cons.prems by (intro Cons.IH) auto
  moreover have "n \<noteq> last (u # us)" using Cons.prems(2) last_in_set [of "u # us"] by auto
  ultimately show ?case using Cons.prems by (auto simp del: fun_upd_apply simp: fun_upd_other)
qed

section \<open>The state\<close>

definition nx :: "'a skiplist \<Rightarrow> nat \<Rightarrow> nat \<Rightarrow> nat option" where
  "nx s n i = sk_next (sk_nodes s ! n) ! i"

definition ht :: "'a skiplist \<Rightarrow> nat \<Rightarrow> nat" where
  "ht s n = length (sk_next (sk_nodes s ! n))"

definition key :: "'a skiplist \<Rightarrow> nat \<Rightarrow> 'a" where
  "key s n = the (sk_elem (sk_nodes s ! n))"

definition lvl :: "'a skiplist \<Rightarrow> nat \<Rightarrow> nat list \<Rightarrow> nat list" where
  "lvl s i xs = filter (\<lambda>n. i < ht s n) xs"

definition sk_inv :: "'a::linorder skiplist \<Rightarrow> nat list \<Rightarrow> bool" where
  "sk_inv s xs \<longleftrightarrow> distinct (0 # xs) \<and> (\<forall>n \<in> set (0 # xs). n < length (sk_nodes s)) \<and>
     (\<forall>n \<in> set xs. sk_elem (sk_nodes s ! n) = Some (key s n)) \<and> sorted_wrt (<) (map (key s) xs) \<and>
     (\<forall>n \<in> set xs. 0 < ht s n \<and> int (ht s n) \<le> maxHeight s) \<and>
     0 \<le> maxHeight s \<and> maxHeight s \<le> int (ht s 0) \<and>
     (\<forall>i < ht s 0. chain (\<lambda>n. nx s n i) 0 (lvl s i xs)) \<and> sk_len s = int (length xs)"

lemma sk_inv_new: "sk_inv SkipList []"
  by (simp add: sk_inv_def SkipList_def SkipNode_def ht_def)

lemma sk_get: "n < length (sk_nodes s) \<Longrightarrow> i < ht s n \<Longrightarrow> sk_get s n i = Inr (nx s n i)"
  by (simp add: sk_get_def nx_def ht_def)

text \<open>\<open>same s u\<close>: the states differ in what the references are only, and perhaps in \<open>maxHeight\<close>.\<close>

definition same :: "'a skiplist \<Rightarrow> 'a skiplist \<Rightarrow> bool" where
  "same s u \<longleftrightarrow> length (sk_nodes u) = length (sk_nodes s) \<and> sk_len u = sk_len s \<and>
     (\<forall>n < length (sk_nodes s). ht u n = ht s n \<and> sk_elem (sk_nodes u ! n) = sk_elem (sk_nodes s ! n))"

lemma same_refl [simp]: "same s s"
  by (simp add: same_def)

lemma same_trans: "same s t \<Longrightarrow> same t u \<Longrightarrow> same s u"
  by (simp add: same_def)

lemma sk_set:
  assumes "n < length (sk_nodes s)" and "i < ht s n"
  shows "\<exists>u. sk_set n i v s = Inr u \<and> same s u \<and> maxHeight u = maxHeight s \<and>
    (\<forall>m < length (sk_nodes s). \<forall>j < ht s m. nx u m j = (if m = n \<and> j = i then v else nx s m j))"
  using assms by (auto simp: sk_set_def same_def nx_def ht_def nth_list_update)

section \<open>Looking for a place\<close>

definition below :: "'a::linorder skiplist \<Rightarrow> 'a \<Rightarrow> nat list \<Rightarrow> nat list" where
  "below s e xs = takeWhile (\<lambda>n. key s n < e) xs"

definition above :: "'a::linorder skiplist \<Rightarrow> 'a \<Rightarrow> nat list \<Rightarrow> nat list" where
  "above s e xs = dropWhile (\<lambda>n. key s n < e) xs"

lemma below_above: "below s e xs @ above s e xs = xs"
  by (simp add: below_def above_def)

lemma below_less: "n \<in> set (below s e xs) \<Longrightarrow> n \<in> set xs \<and> key s n < e"
  unfolding below_def by (auto dest: set_takeWhileD)

lemma above_least:
  assumes "sk_inv s xs" and "n \<in> set (above s e xs)"
  shows "n \<in> set xs \<and> e \<le> key s n"
proof -
  obtain b bs where b: "above s e xs = b # bs" using assms(2) by (cases "above s e xs") auto
  then have be: "e \<le> key s b" using hd_dropWhile [of "\<lambda>n. key s n < e" xs] by (simp add: above_def not_less)
  have "sorted_wrt (<) (map (key s) (below s e xs @ b # bs))"
    using assms(1) below_above [of s e xs] b by (simp add: sk_inv_def)
  then have "\<forall>m \<in> set bs. key s b < key s m" by (auto simp: sorted_wrt_append)
  then have "e \<le> key s n" using be assms(2) b by fastforce
  moreover have "set (above s e xs) \<subseteq> set xs" using below_above [of s e xs] by (metis set_append Un_upper2)
  ultimately show ?thesis using assms(2) by blast
qed

lemma walk_ok:
  assumes "chain (\<lambda>n. nx s n i) n (us @ vs)"
    and "\<And>m. m \<in> set (n # us @ vs) \<Longrightarrow> m < length (sk_nodes s) \<and> i < ht s m"
    and "\<And>m. m \<in> set us \<Longrightarrow> sk_elem (sk_nodes s ! m) = Some (key s m) \<and> key s m < e"
    and "\<And>m. m \<in> set vs \<Longrightarrow> sk_elem (sk_nodes s ! m) = Some (key s m) \<and> e \<le> key s m"
    and "length us < fuel"
  shows "walk fuel s i e n = Inr (last (n # us))"
  using assms
proof (induction us arbitrary: n fuel)
  case Nil
  obtain f where f: "fuel = Suc f" using Nil.prems(5) by (cases fuel) auto
  have g: "sk_get s n i = Inr (nx s n i)" using Nil.prems(2) [of n] by (intro sk_get) simp_all
  show ?case
  proof (cases vs)
    case Nil
    then show ?thesis using g f \<open>chain _ n ([] @ vs)\<close> by simp
  next
    case (Cons v ws)
    then have "nx s n i = Some v" "v < length (sk_nodes s)" "sk_elem (sk_nodes s ! v) = Some (key s v)" "\<not> key s v < e"
      using Nil.prems(1,2,4) by (simp_all add: not_less)
    then show ?thesis using g f by (simp add: elem_less_def)
  qed
next
  case (Cons u us)
  obtain f where f: "fuel = Suc f" using Cons.prems(5) by (cases fuel) auto
  have g: "sk_get s n i = Inr (nx s n i)" using Cons.prems(2) [of n] by (intro sk_get) simp_all
  have u: "nx s n i = Some u" "u < length (sk_nodes s)" "sk_elem (sk_nodes s ! u) = Some (key s u)" "key s u < e"
    using Cons.prems(1-3) by simp_all
  have "walk f s i e u = Inr (last (u # us))"
    using Cons.prems f by (intro Cons.IH) auto
  then show ?case using g f u by (simp add: elem_less_def)
qed

lemma lvl_append: "lvl s i (xs @ ys) = lvl s i xs @ lvl s i ys"
  by (simp add: lvl_def)

lemma set_lvl: "set (lvl s i xs) = {n \<in> set xs. i < ht s n}"
  by (auto simp: lvl_def)

text \<open>The node after which an element belongs on a level.\<close>

definition pred :: "'a::linorder skiplist \<Rightarrow> 'a \<Rightarrow> nat list \<Rightarrow> nat \<Rightarrow> nat" where
  "pred s e xs i = last (0 # lvl s i (below s e xs))"

lemma nodes_bound:
  assumes "sk_inv s xs"
  shows "length xs < length (sk_nodes s)"
proof -
  have "distinct xs" "set xs \<subseteq> {0<..<length (sk_nodes s)}" using assms by (auto simp: sk_inv_def intro: gr0I)
  then have "length xs \<le> length (sk_nodes s) - 1" using card_mono [of "{0<..<length (sk_nodes s)}" "set xs"] by (simp add: distinct_card)
  moreover have "0 < length (sk_nodes s)" using assms by (auto simp: sk_inv_def)
  ultimately show ?thesis by linarith
qed

lemma walk_level:
  assumes inv: "sk_inv s xs" and i: "i < ht s 0"
  shows "walk (length (sk_nodes s)) s i e (pred s e xs (Suc i)) = Inr (pred s e xs i)"
proof -
  let ?A = "lvl s i (below s e xs)" and ?B = "lvl s i (above s e xs)" and ?x = "pred s e xs (Suc i)"
  have AB: "?A @ ?B = lvl s i xs" using below_above [of s e xs] by (simp flip: lvl_append)
  obtain pre us where p: "?A = pre @ us" "last (0 # pre) = ?x"
  proof (cases "lvl s (Suc i) (below s e xs) = []")
    case True
    then show ?thesis using that [of "[]" ?A] by (simp add: pred_def)
  next
    case False
    then have "?x = last (lvl s (Suc i) (below s e xs))" by (simp add: pred_def)
    then have "?x \<in> set (lvl s (Suc i) (below s e xs))" using last_in_set [OF False] by simp
    then have "?x \<in> set ?A" by (simp add: set_lvl)
    then obtain pre us where "?A = pre @ ?x # us" by (meson split_list)
    then show ?thesis using that [of "pre @ [?x]" us] by simp
  qed
  have c: "chain (\<lambda>n. nx s n i) ?x (us @ ?B)"
  proof -
    have "chain (\<lambda>n. nx s n i) 0 (pre @ us @ ?B)" using inv i AB p(1) by (auto simp: sk_inv_def)
    from chain_append [OF this] show ?thesis using p(2) by simp
  qed
  have fuel: "length us < length (sk_nodes s)"
  proof -
    have "length us \<le> length (lvl s i xs)" unfolding AB [symmetric] p(1) by simp
    also have "\<dots> \<le> length xs" by (simp add: lvl_def)
    finally show ?thesis using nodes_bound [OF inv] by linarith
  qed
  have mem: "m < length (sk_nodes s) \<and> i < ht s m" if "m \<in> set (?x # us @ ?B)" for m
  proof -
    have "?x \<in> set (0 # pre)" using p(2) last_in_set [of "0 # pre"] by simp
    then have "m \<in> set (0 # ?A @ ?B)" using that p(1) by auto
    then have "m = 0 \<or> m \<in> set xs \<and> i < ht s m" unfolding AB by (auto simp: set_lvl)
    then show ?thesis using inv i by (auto simp: sk_inv_def)
  qed
  have "walk (length (sk_nodes s)) s i e ?x = Inr (last (?x # us))"
  proof (rule walk_ok [OF c mem _ _ fuel])
    fix m assume "m \<in> set us"
    then have "m \<in> set ?A" using p(1) by simp
    then have "m \<in> set xs" "key s m < e" using below_less [of m s e xs] by (simp_all add: set_lvl)
    then show "sk_elem (sk_nodes s ! m) = Some (key s m) \<and> key s m < e" using inv by (simp add: sk_inv_def)
  next
    fix m assume "m \<in> set ?B"
    then have "m \<in> set (above s e xs)" by (simp add: set_lvl)
    then have "m \<in> set xs" "e \<le> key s m" using above_least [OF inv, of m e] by simp_all
    then show "sk_elem (sk_nodes s ! m) = Some (key s m) \<and> e \<le> key s m" using inv by (simp add: sk_inv_def)
  qed
  moreover have "last (?x # us) = pred s e xs i"
  proof (cases us rule: rev_cases)
    case Nil
    then show ?thesis using p by (simp add: pred_def [of s e xs i])
  next
    case (snoc ws w)
    then show ?thesis using p by (simp add: pred_def [of s e xs i])
  qed
  ultimately show ?thesis by simp
qed


lemma update_loop_ok:
  assumes inv: "sk_inv s xs" and "int k \<le> maxHeight s" and "length up = nat (maxHeight s)"
  shows "\<exists>up'. update_loop s e (rev [0..<k]) (pred s e xs k) up = Inr up' \<and> length up' = length up \<and>
    (\<forall>i < k. up' ! i = Some (pred s e xs i)) \<and> (\<forall>i. k \<le> i \<longrightarrow> up' ! i = up ! i)"
  using assms(2,3)
proof (induction k arbitrary: up)
  case 0
  then show ?case by simp
next
  case (Suc k)
  have k: "k < ht s 0" "k < length up" using Suc.prems inv by (auto simp: sk_inv_def)
  let ?up = "up[k := Some (pred s e xs k)]"
  obtain up' where up': "update_loop s e (rev [0..<k]) (pred s e xs k) ?up = Inr up'" "length up' = length ?up"
    "\<forall>i < k. up' ! i = Some (pred s e xs i)" "\<forall>i. k \<le> i \<longrightarrow> up' ! i = ?up ! i"
    using Suc.IH [of ?up] Suc.prems by auto
  have "update_loop s e (rev [0..<Suc k]) (pred s e xs (Suc k)) up = Inr up'"
    using walk_level [OF inv k(1), of e] k(2) up'(1) by simp
  moreover have "\<forall>i < Suc k. up' ! i = Some (pred s e xs i)" using up'(3,4) k(2) by (auto simp: less_Suc_eq)
  ultimately show ?case using up'(2,4) by auto
qed

lemma pred_high: "sk_inv s xs \<Longrightarrow> maxHeight s \<le> int i \<Longrightarrow> pred s e xs i = 0"
proof -
  assume inv: "sk_inv s xs" and i: "maxHeight s \<le> int i"
  have "\<not> i < ht s n" if "n \<in> set (below s e xs)" for n
    using below_less [OF that] inv i by (fastforce simp: sk_inv_def)
  then have "lvl s i (below s e xs) = []" by (simp add: lvl_def filter_empty_conv)
  then show ?thesis by (simp add: pred_def)
qed

text \<open>\<open>found up\<close>: the list that \<open>updateList\<close> gives.\<close>

definition found :: "'a::linorder skiplist \<Rightarrow> 'a \<Rightarrow> nat list \<Rightarrow> nat option list \<Rightarrow> bool" where
  "found s e xs up \<longleftrightarrow> length up = nat (maxHeight s) \<and> (\<forall>i < nat (maxHeight s). up ! i = Some (pred s e xs i))"

lemma updateList_ok:
  assumes "sk_inv s xs"
  shows "\<exists>up. updateList s e = Inr up \<and> found s e xs up"
proof -
  have m: "int (nat (maxHeight s)) = maxHeight s" using assms by (simp add: sk_inv_def)
  then have "pred s e xs (nat (maxHeight s)) = 0" using pred_high [OF assms] by simp
  then show ?thesis
    using update_loop_ok [OF assms, of "nat (maxHeight s)" "replicate (nat (maxHeight s)) None" e] m
    by (auto simp: updateList_def found_def Let_def)
qed

lemma entry_found: "found s e xs up \<Longrightarrow> int i < maxHeight s \<Longrightarrow> entry up i = Inr (pred s e xs i)"
  by (simp add: found_def entry_def)

lemma lvl_zero: "sk_inv s xs \<Longrightarrow> set ys \<subseteq> set xs \<Longrightarrow> lvl s 0 ys = ys"
  by (auto simp: sk_inv_def lvl_def filter_id_conv)

lemma pred_mem:
  assumes "sk_inv s xs" and "i < ht s 0"
  shows "pred s e xs i < length (sk_nodes s) \<and> i < ht s (pred s e xs i) \<and> pred s e xs i \<in> set (0 # below s e xs)"
proof -
  have "pred s e xs i \<in> set (0 # lvl s i (below s e xs))" unfolding pred_def by (rule last_in_set) simp
  then consider "pred s e xs i = 0" | "pred s e xs i \<in> set (below s e xs)" "i < ht s (pred s e xs i)"
    by (auto simp: set_lvl)
  then show ?thesis
  proof cases
    case 1
    then show ?thesis using assms by (auto simp: sk_inv_def)
  next
    case 2
    then have "pred s e xs i \<in> set xs" using below_less [OF 2(1)] by blast
    then show ?thesis using 2 assms(1) by (auto simp: sk_inv_def)
  qed
qed

lemma find_found:
  assumes inv: "sk_inv s xs" and up: "found s e xs up"
  shows "find_node s e (Some up) =
    Inr (case above s e xs of [] \<Rightarrow> None | c # cs \<Rightarrow> if key s c = e then Some c else None)"
proof (cases "maxHeight s = 0")
  case True
  then have "xs = []" using inv by (cases xs) (auto simp: sk_inv_def)
  then have "above s e xs = []" by (simp add: above_def)
  then show ?thesis using True up by (simp add: find_node_def found_def)
next
  case False
  then have m: "0 < maxHeight s" and h: "0 < ht s 0" using inv by (auto simp: sk_inv_def)
  have ab: "set (below s e xs) \<subseteq> set xs" "set (above s e xs) \<subseteq> set xs"
    using below_above [of s e xs] by (metis set_append Un_upper1, metis set_append Un_upper2)
  have "chain (\<lambda>n. nx s n 0) 0 (below s e xs @ above s e xs)"
    using inv h lvl_zero [OF inv, of xs] below_above [of s e xs] by (auto simp: sk_inv_def)
  from chain_append [OF this] have "chain (\<lambda>n. nx s n 0) (pred s e xs 0) (above s e xs)"
    using lvl_zero [OF inv ab(1)] by (simp add: pred_def)
  moreover have "sk_get s (pred s e xs 0) 0 = Inr (nx s (pred s e xs 0) 0)"
    using pred_mem [OF inv h, of e] by (intro sk_get) simp_all
  moreover have "entry up 0 = Inr (pred s e xs 0)" using entry_found [OF up, of 0] m by simp
  moreover have "0 < length up" using up m by (simp add: found_def)
  ultimately show ?thesis
    using ab(2) inv by (auto simp: find_node_def sk_inv_def split: list.splits)
qed

lemma find_mem:
  assumes "sk_inv s xs"
  shows "e \<in> key s ` set xs \<longleftrightarrow> (\<exists>c cs. above s e xs = c # cs \<and> key s c = e)"
proof
  assume "e \<in> key s ` set xs"
  then obtain n where n: "n \<in> set xs" "key s n = e" by blast
  then have "n \<notin> set (below s e xs)" using below_less [of n s e xs] by auto
  then have na: "n \<in> set (above s e xs)" using n(1) below_above [of s e xs] by (metis Un_iff set_append)
  then obtain c cs where c: "above s e xs = c # cs" by (cases "above s e xs") auto
  have "e \<le> key s c" using above_least [OF assms, of c e] c by simp
  moreover have "sorted_wrt (<) (map (key s) (below s e xs @ c # cs))"
    using assms below_above [of s e xs] c by (simp add: sk_inv_def)
  then have "\<forall>m \<in> set cs. key s c < key s m" by (auto simp: sorted_wrt_append)
  then have "key s c \<le> e" using na n(2) c by auto
  ultimately show "\<exists>c cs. above s e xs = c # cs \<and> key s c = e" using c by auto
next
  assume "\<exists>c cs. above s e xs = c # cs \<and> key s c = e"
  then obtain c cs where c: "above s e xs = c # cs" "key s c = e" by blast
  then have "c \<in> set xs" using above_least [OF assms, of c e] by simp
  then show "e \<in> key s ` set xs" using c(2) by blast
qed

lemma contains_ok:
  assumes "sk_inv s xs"
  shows "sk_contains e s = Inr (e \<in> key s ` set xs)"
proof -
  obtain up where up: "updateList s e = Inr up" "found s e xs up" using updateList_ok [OF assms] by blast
  have "find_node s e None = find_node s e (Some up)" using up(1) by (simp add: find_node_def)
  then show ?thesis
    using find_found [OF assms up(2)] find_mem [OF assms, of e] by (auto simp: sk_contains_def split: list.splits)
qed

text \<open>What is printed is the elements, once per level that their node reaches.\<close>

lemma print_level_chain:
  assumes "chain (\<lambda>n. nx s n i) n ms" and "\<And>m. m \<in> set (n # ms) \<Longrightarrow> m < length (sk_nodes s) \<and> i < ht s m"
    and "length ms < fuel"
  shows "print_level fuel s i n = Inr (map (\<lambda>m. sk_elem (sk_nodes s ! m)) ms)"
  using assms
proof (induction ms arbitrary: n fuel)
  case Nil
  then show ?case using sk_get [of n s i] by (cases fuel) auto
next
  case (Cons m ms)
  obtain f where f: "fuel = Suc f" using Cons.prems(3) by (cases fuel) auto
  have "print_level f s i m = Inr (map (\<lambda>m. sk_elem (sk_nodes s ! m)) ms)"
    using Cons.prems f by (intro Cons.IH) auto
  then show ?case using Cons.prems f sk_get [of n s i] by auto
qed

lemma print_level_ok:
  assumes inv: "sk_inv s xs" and i: "i < ht s 0"
  shows "print_level (length (sk_nodes s)) s i 0 = Inr (map (Some \<circ> key s) (lvl s i xs))"
proof -
  have l: "length (lvl s i xs) \<le> length xs" by (simp add: lvl_def)
  have "print_level (length (sk_nodes s)) s i 0 = Inr (map (\<lambda>m. sk_elem (sk_nodes s ! m)) (lvl s i xs))"
  proof (rule print_level_chain)
    show "chain (\<lambda>n. nx s n i) 0 (lvl s i xs)" using inv i by (simp add: sk_inv_def)
    show "length (lvl s i xs) < length (sk_nodes s)" using l nodes_bound [OF inv] by linarith
    show "m < length (sk_nodes s) \<and> i < ht s m" if "m \<in> set (0 # lvl s i xs)" for m
      using that inv i by (auto simp: sk_inv_def set_lvl)
  qed
  also have "map (\<lambda>m. sk_elem (sk_nodes s ! m)) (lvl s i xs) = map (Some \<circ> key s) (lvl s i xs)"
    using inv by (auto simp: sk_inv_def set_lvl)
  finally show ?thesis .
qed


section \<open>Inserting\<close>

lemma extend_eq: "extend n xs = xs @ replicate (n - length xs) None"
proof (induction n xs rule: extend.induct)
  case (1 n xs)
  show ?case
  proof (cases "length xs < n")
    case True
    then have "n - length xs = Suc (n - length (xs @ [None]))" by simp
    then show ?thesis using 1 True by (simp add: extend.simps [of n xs])
  qed (simp add: extend.simps [of n xs])
qed

lemma same_facts:
  assumes "same s u" and "n < length (sk_nodes s)"
  shows "ht u n = ht s n" and "key u n = key s n" and "sk_elem (sk_nodes u ! n) = sk_elem (sk_nodes s ! n)"
  using assms by (simp_all add: same_def key_def)

lemma lvl_cong: "(\<And>n. n \<in> set xs \<Longrightarrow> ht u n = ht s n) \<Longrightarrow> lvl u i xs = lvl s i xs"
  by (auto simp: lvl_def intro: filter_cong)

text \<open>The new node in the list of nodes, and the head as high as it.\<close>

definition grown :: "nat \<Rightarrow> 'a \<Rightarrow> 'a skiplist \<Rightarrow> 'a skiplist" where
  "grown h e s = s\<lparr>sk_nodes := (sk_nodes s @ [SkipNode h (Some e)])
      [0 := (sk_nodes s ! 0)\<lparr>sk_next := extend h (sk_next (sk_nodes s ! 0))\<rparr>], maxHeight := max (maxHeight s) (int h)\<rparr>"

lemma grown_nodes:
  assumes "sk_nodes s \<noteq> []"
  shows "length (sk_nodes (grown h e s)) = Suc (length (sk_nodes s))"
    and "sk_nodes (grown h e s) ! length (sk_nodes s) = SkipNode h (Some e)"
    and "0 < n \<Longrightarrow> n < length (sk_nodes s) \<Longrightarrow> sk_nodes (grown h e s) ! n = sk_nodes s ! n"
    and "ht (grown h e s) 0 = max (ht s 0) h"
    and "i < ht s 0 \<Longrightarrow> nx (grown h e s) 0 i = nx s 0 i"
    and "\<not> i < ht s 0 \<Longrightarrow> i < h \<Longrightarrow> nx (grown h e s) 0 i = None"
  using assms by (auto simp: grown_def nth_append nth_list_update ht_def nx_def extend_eq)

lemma grown_inv:
  assumes inv: "sk_inv s xs"
  shows "sk_inv (grown h e s) xs" and "map (key (grown h e s)) xs = map (key s) xs"
proof -
  let ?g = "grown h e s"
  have ne: "sk_nodes s \<noteq> []" using inv by (auto simp: sk_inv_def)
  have n: "sk_nodes ?g ! n = sk_nodes s ! n" "n < length (sk_nodes s)" if "n \<in> set xs" for n
    using grown_nodes(3) [OF ne, of n] that inv by (auto simp: sk_inv_def intro: gr0I)
  then have same: "ht ?g n = ht s n" "key ?g n = key s n" "nx ?g n i = nx s n i" if "n \<in> set xs" for n i
    using that by (simp_all add: ht_def key_def nx_def)
  have keys: "map (key ?g) xs = map (key s) xs" using same(2) by simp
  have lv: "lvl ?g i xs = lvl s i xs" for i using same(1) by (intro lvl_cong)
  have "chain (\<lambda>n. nx ?g n i) 0 (lvl ?g i xs)" if i: "i < ht ?g 0" for i
  proof (cases "i < ht s 0")
    case True
    have "chain (\<lambda>n. nx ?g n i) 0 (lvl s i xs) \<longleftrightarrow> chain (\<lambda>n. nx s n i) 0 (lvl s i xs)"
      using same(3) True grown_nodes(5) [OF ne True, of h e] by (intro links_cong) (auto simp: set_lvl)
    then show ?thesis using inv True lv by (simp add: sk_inv_def)
  next
    case False
    have "\<not> i < ht s m" if "m \<in> set xs" for m
    proof -
      have "int (ht s m) \<le> int (ht s 0)" using inv that by (fastforce simp: sk_inv_def)
      then show ?thesis using False by simp
    qed
    then have "lvl s i xs = []" by (simp add: lvl_def filter_empty_conv)
    then show ?thesis using False i lv grown_nodes(4) [OF ne, of h e] grown_nodes(6) [OF ne False, of h e] by auto
  qed
  then have chains: "\<forall>i < ht ?g 0. chain (\<lambda>n. nx ?g n i) 0 (lvl ?g i xs)" by blast
  have mh: "maxHeight ?g = max (maxHeight s) (int h)" "sk_len ?g = sk_len s" by (simp_all add: grown_def)
  show "map (key ?g) xs = map (key s) xs" by (rule keys)
  show "sk_inv ?g xs"
    unfolding sk_inv_def
  proof (intro conjI ballI)
    show "distinct (0 # xs)" "0 \<le> maxHeight ?g" "maxHeight ?g \<le> int (ht ?g 0)" "sk_len ?g = int (length xs)"
      using inv mh grown_nodes(4) [OF ne, of h e] by (auto simp: sk_inv_def)
    show "m < length (sk_nodes ?g)" if "m \<in> set (0 # xs)" for m
      using that inv grown_nodes(1) [OF ne, of h e] by (auto simp: sk_inv_def intro: less_SucI)
    show "sk_elem (sk_nodes ?g ! m) = Some (key ?g m)" "0 < ht ?g m" "int (ht ?g m) \<le> maxHeight ?g"
      if m: "m \<in> set xs" for m
      using m n(1) [OF m] same(1,2) [OF m] inv mh by (simp_all add: sk_inv_def le_max_iff_disj)
    show "sorted_wrt (<) (map (key ?g) xs)" unfolding keys using inv by (simp add: sk_inv_def)
  qed (rule chains)
qed

lemma link_all:
  assumes inv: "sk_inv s xs" and up: "found s e xs up" and new: "new < length (sk_nodes s)" "new \<notin> set (0 # xs)"
    and h: "ht s new = h" "int h \<le> maxHeight s"
  shows "\<exists>u. for_each [0..<h] (link_level new up) s = Inr u \<and> same s u \<and> maxHeight u = maxHeight s \<and>
    (\<forall>n < length (sk_nodes s). \<forall>j < ht s n. nx u n j =
       (if j < h \<and> n = new then nx s (pred s e xs j) j else if j < h \<and> n = pred s e xs j then Some new else nx s n j))"
proof -
  let ?I = "\<lambda>k u. same s u \<and> maxHeight u = maxHeight s \<and>
    (\<forall>n < length (sk_nodes s). \<forall>j < ht s n. nx u n j =
       (if j < k \<and> n = new then nx s (pred s e xs j) j else if j < k \<and> n = pred s e xs j then Some new else nx s n j))"
  have "\<exists>u. for_each [0..<h] (link_level new up) s = Inr u \<and> ?I (length [0..<h]) u"
  proof (rule for_each_count)
    show "?I 0 s" by simp
    fix k u assume k: "k < length [0..<h]" and I: "?I k u"
    let ?p = "pred s e xs k"
    have kh: "k < h" "[0..<h] ! k = k" "k < ht s 0" "int k < maxHeight s" using k h inv by (auto simp: sk_inv_def)
    have p: "?p < length (sk_nodes s)" "k < ht s ?p" "?p \<noteq> new"
      using pred_mem [OF inv kh(3), of e] new below_less [of ?p s e xs] by auto
    have u: "length (sk_nodes u) = length (sk_nodes s)" "\<And>n. n < length (sk_nodes s) \<Longrightarrow> ht u n = ht s n"
      using I by (simp_all add: same_def)
    have v: "sk_get u ?p k = Inr (nx s ?p k)" using sk_get [of ?p u k] p u I by simp
    obtain t where t: "sk_set new k (nx s ?p k) u = Inr t" "same u t" "maxHeight t = maxHeight u"
      "\<forall>m < length (sk_nodes u). \<forall>j < ht u m. nx t m j = (if m = new \<and> j = k then nx s ?p k else nx u m j)"
      using sk_set [of new u k "nx s ?p k"] new kh(1) h(1) u by auto
    have tu: "length (sk_nodes t) = length (sk_nodes s)" "\<And>n. n < length (sk_nodes s) \<Longrightarrow> ht t n = ht s n"
      using t(2) u by (simp_all add: same_def)
    obtain w where w: "sk_set ?p k (Some new) t = Inr w" "same t w" "maxHeight w = maxHeight t"
      "\<forall>m < length (sk_nodes t). \<forall>j < ht t m. nx w m j = (if m = ?p \<and> j = k then Some new else nx t m j)"
      using sk_set [of ?p t k "Some new"] p tu by auto
    have "link_level new up k u = Inr w" using entry_found [OF up kh(4)] v t(1) w(1) by (simp add: link_level_def)
    moreover have "?I (Suc k) w"
    proof (intro conjI allI impI)
      show "same s w" using I same_trans [OF _ same_trans [OF t(2) w(2)], of s] by blast
      show "maxHeight w = maxHeight s" using I t(3) w(3) by simp
      fix n j assume n: "n < length (sk_nodes s)" and j: "j < ht s n"
      have "nx w n j = (if n = ?p \<and> j = k then Some new else nx t n j)" using w(4) tu n j by simp
      moreover have "nx t n j = (if n = new \<and> j = k then nx s ?p k else nx u n j)" using t(4) u n j by simp
      ultimately show "nx w n j = (if j < Suc k \<and> n = new then nx s (pred s e xs j) j
          else if j < Suc k \<and> n = pred s e xs j then Some new else nx s n j)"
        using I n j p(3) by (auto simp: less_Suc_eq)
    qed
    ultimately show "\<exists>u'. link_level new up ([0..<h] ! k) u = Inr u' \<and> ?I (Suc k) u'" unfolding kh(2) by blast
  qed
  then show ?thesis by (simp only: length_upt diff_zero)
qed


lemma sk_len_update [simp]:
  "ht (u\<lparr>sk_len := l\<rparr>) n = ht u n" "key (u\<lparr>sk_len := l\<rparr>) n = key u n" "nx (u\<lparr>sk_len := l\<rparr>) n i = nx u n i"
  "lvl (u\<lparr>sk_len := l\<rparr>) i xs = lvl u i xs"
  by (simp_all add: ht_def key_def nx_def lvl_def)

lemma inv_sets:
  assumes "sk_inv s xs"
  shows "set xs = set (below s e xs) \<union> set (above s e xs)" and "length xs = length (below s e xs) + length (above s e xs)"
    and "distinct (0 # below s e xs @ above s e xs)"
    and "sorted_wrt (<) (map (key s) (below s e xs @ above s e xs))"
    and "i < ht s 0 \<Longrightarrow> chain (\<lambda>n. nx s n i) 0 (lvl s i (below s e xs) @ lvl s i (above s e xs))"
  using assms below_above [of s e xs] unfolding sk_inv_def
  by (metis set_append, metis length_append, metis, metis, metis lvl_append)

lemma link_inv:
  assumes inv: "sk_inv s xs" and new: "new < length (sk_nodes s)" "new \<notin> set (0 # xs)"
    and h: "ht s new = h" "0 < h" "int h \<le> maxHeight s"
    and e: "sk_elem (sk_nodes s ! new) = Some e" "e \<notin> key s ` set xs"
    and u: "same s u" "maxHeight u = maxHeight s"
    and nx: "\<And>n j. n < length (sk_nodes s) \<Longrightarrow> j < ht s n \<Longrightarrow> nx u n j =
       (if j < h \<and> n = new then nx s (pred s e xs j) j else if j < h \<and> n = pred s e xs j then Some new else nx s n j)"
  shows "sk_inv (u\<lparr>sk_len := sk_len u + 1\<rparr>) (below s e xs @ new # above s e xs)"
proof -
  let ?A = "below s e xs" and ?B = "above s e xs"
  note sets = inv_sets [OF inv, where e = e]
  have bound: "n < length (sk_nodes s)" if "n \<in> set (0 # ?A @ new # ?B)" for n
    using that inv new(1) sets(1) by (auto simp: sk_inv_def)
  have keys: "key s new = e" using e(1) by (simp add: key_def)
  have above: "e < key s n" if "n \<in> set ?B" for n
    using above_least [OF inv that] e(2) by (auto simp: less_le)
  have uf: "ht u n = ht s n" "key u n = key s n" "sk_elem (sk_nodes u ! n) = sk_elem (sk_nodes s ! n)"
    if "n \<in> set (0 # ?A @ new # ?B)" for n using same_facts [OF u(1) bound [OF that]] .
  have mk: "map (key u) (?A @ new # ?B) = map (key s) (?A @ new # ?B)" using uf(2) by auto
  have chains: "chain (\<lambda>n. nx u n i) 0 (lvl u i (?A @ new # ?B))" if "i < ht u 0" for i
  proof -
    have i: "i < ht s 0" using that uf(1) [of 0] by simp
    let ?a = "lvl s i ?A" and ?b = "lvl s i ?B" and ?f = "\<lambda>n. nx s n i"
    have "lvl u i (?A @ new # ?B) = lvl s i (?A @ new # ?B)" using uf(1) by (intro lvl_cong) auto
    also have "\<dots> = (if i < h then ?a @ new # ?b else ?a @ ?b)" using h(1) by (auto simp: lvl_def)
    finally have l: "lvl u i (?A @ new # ?B) = (if i < h then ?a @ new # ?b else ?a @ ?b)" .
    have mem: "nx u n i = (if i < h \<and> n = new then nx s (pred s e xs i) i
        else if i < h \<and> n = pred s e xs i then Some new else nx s n i)"
      if n: "n \<in> set (0 # ?a @ new # ?b)" "n = new \<longrightarrow> i < h" for n
      using n bound [of n] i h(1) by (intro nx) (auto simp: set_lvl)
    have c: "chain ?f 0 (?a @ ?b)" by (rule sets(5) [OF i])
    show ?thesis
    proof (cases "i < h")
      case True
      have "distinct (0 # ?a @ ?b)" using sets(3) by (auto simp: lvl_def)
      moreover have n: "new \<notin> set (0 # ?a @ ?b)" using new(2) sets(1) by (auto simp: set_lvl)
      ultimately have "chain (?f(new := ?f (pred s e xs i), pred s e xs i := Some new)) 0 (?a @ new # ?b)"
        using chain_link [OF c] unfolding pred_def by blast
      moreover have "pred s e xs i \<noteq> new"
      proof -
        have "pred s e xs i \<in> set (0 # below s e xs)" using pred_mem [OF inv i] by blast
        moreover have "new \<notin> set (0 # below s e xs)" using new(2) sets(1) by simp
        ultimately show ?thesis by metis
      qed
      moreover have "chain (\<lambda>n. nx u n i) 0 (?a @ new # ?b) \<longleftrightarrow>
          chain (?f(new := ?f (pred s e xs i), pred s e xs i := Some new)) 0 (?a @ new # ?b)"
      proof (rule links_cong)
        fix m assume "m \<in> set (0 # ?a @ new # ?b)"
        then show "nx u m i = (?f(new := ?f (pred s e xs i), pred s e xs i := Some new)) m"
          using mem [of m] True \<open>pred s e xs i \<noteq> new\<close> by simp
      qed
      ultimately show ?thesis unfolding l using True by simp
    next
      case False
      have n: "new \<notin> set (0 # ?a @ ?b)" using new(2) sets(1) by (auto simp: set_lvl)
      have "chain (\<lambda>n. nx u n i) 0 (?a @ ?b) \<longleftrightarrow> chain ?f 0 (?a @ ?b)"
        using mem False n by (intro links_cong) auto
      then show ?thesis unfolding l using False c by simp
    qed
  qed
  show ?thesis
    unfolding sk_inv_def
  proof (intro conjI ballI)
    show "distinct (0 # ?A @ new # ?B)" using sets(1,3) new(2) by auto
    show "m < length (sk_nodes (u\<lparr>sk_len := sk_len u + 1\<rparr>))" if "m \<in> set (0 # ?A @ new # ?B)" for m
      using bound [OF that] u(1) by (simp add: same_def)
    show "sk_elem (sk_nodes (u\<lparr>sk_len := sk_len u + 1\<rparr>) ! m) = Some (key (u\<lparr>sk_len := sk_len u + 1\<rparr>) m)"
      "0 < ht (u\<lparr>sk_len := sk_len u + 1\<rparr>) m" "int (ht (u\<lparr>sk_len := sk_len u + 1\<rparr>) m) \<le> maxHeight (u\<lparr>sk_len := sk_len u + 1\<rparr>)"
      if m: "m \<in> set (?A @ new # ?B)" for m
    proof -
      have "m = new \<or> m \<in> set xs" using m sets(1) by auto
      then have "sk_elem (sk_nodes s ! m) = Some (key s m) \<and> 0 < ht s m \<and> int (ht s m) \<le> maxHeight s"
        using inv e(1) keys h by (auto simp: sk_inv_def)
      then show "sk_elem (sk_nodes (u\<lparr>sk_len := sk_len u + 1\<rparr>) ! m) = Some (key (u\<lparr>sk_len := sk_len u + 1\<rparr>) m)"
        "0 < ht (u\<lparr>sk_len := sk_len u + 1\<rparr>) m" "int (ht (u\<lparr>sk_len := sk_len u + 1\<rparr>) m) \<le> maxHeight (u\<lparr>sk_len := sk_len u + 1\<rparr>)"
        using uf [of m] m u(2) by simp_all
    qed
    have "sorted_wrt (<) (map (key s) (?A @ new # ?B))"
      using sets(4) keys above by (auto simp: sorted_wrt_append dest: below_less)
    then show "sorted_wrt (<) (map (key (u\<lparr>sk_len := sk_len u + 1\<rparr>)) (?A @ new # ?B))"
      unfolding sk_len_update mk .
    show "0 \<le> maxHeight (u\<lparr>sk_len := sk_len u + 1\<rparr>)" using inv u(2) by (simp add: sk_inv_def)
    show "maxHeight (u\<lparr>sk_len := sk_len u + 1\<rparr>) \<le> int (ht (u\<lparr>sk_len := sk_len u + 1\<rparr>) 0)"
      using inv u(2) uf(1) [of 0] by (simp add: sk_inv_def)
    show "sk_len (u\<lparr>sk_len := sk_len u + 1\<rparr>) = int (length (?A @ new # ?B))"
      using inv u(1) sets(2) by (simp add: sk_inv_def same_def)
  next
    show "\<forall>i < ht (u\<lparr>sk_len := sk_len u + 1\<rparr>) 0. chain (\<lambda>n. nx (u\<lparr>sk_len := sk_len u + 1\<rparr>) n i) 0 (lvl (u\<lparr>sk_len := sk_len u + 1\<rparr>) i (?A @ new # ?B))"
      using chains by simp
  qed
qed


lemma randomHeight_ok: "1 \<in> set draws \<Longrightarrow> \<exists>h. randomHeight draws k = Inr h \<and> k \<le> h"
proof (induction draws arbitrary: k)
  case (Cons d draws)
  show ?case
  proof (cases "d = 1")
    case False
    then obtain h where "randomHeight draws (k + 1) = Inr h" "k + 1 \<le> h" using Cons by auto
    then show ?thesis using False by auto
  qed simp
qed simp

lemma sorted_eq:
  assumes "sorted_wrt (<) xs" and "sorted_wrt (<) ys" and "set xs = set ys"
  shows "(xs :: 'a::linorder list) = ys"
  using assms by (intro sorted_distinct_set_unique) (auto simp: strict_sorted_iff)

lemma sk_insert_ok:
  assumes inv: "sk_inv s xs" and "1 \<in> set draws"
  shows "\<exists>u ys. sk_insert draws e s = Inr u \<and> sk_inv u ys \<and>
    map (key u) ys = (if e \<in> key s ` set xs then map (key s) xs else insort e (map (key s) xs))"
proof -
  obtain h where h: "randomHeight draws 1 = Inr h" "1 \<le> h" using randomHeight_ok [OF assms(2)] by blast
  let ?g = "grown h e s" and ?new = "length (sk_nodes s)"
  have ne: "sk_nodes s \<noteq> []" using inv by (auto simp: sk_inv_def)
  have g: "sk_inv ?g xs" and keys: "map (key ?g) xs = map (key s) xs" by (rule grown_inv [OF inv])+
  have new: "?new < length (sk_nodes ?g)" "?new \<notin> set (0 # xs)" "ht ?g ?new = h" "sk_elem (sk_nodes ?g ! ?new) = Some e"
    using grown_nodes(1,2) [OF ne, of h e] inv by (auto simp: ht_def SkipNode_def sk_inv_def)
  have mh: "int h \<le> maxHeight ?g" by (simp add: grown_def)
  obtain up where up: "updateList ?g e = Inr up" "found ?g e xs up" using updateList_ok [OF g] by blast
  have "sk_insert draws e s = (if find_node ?g e (Some up) = Inr None then
      rbind (for_each [0..<h] (link_level ?new up) ?g) (\<lambda>s. Inr (s\<lparr>sk_len := sk_len s + 1\<rparr>)) else Inr ?g)"
  proof -
    have "lget (sk_nodes s @ [SkipNode h (Some e)]) 0 = Inr (sk_nodes s ! 0)" using ne by (simp add: lget_def nth_append)
    then have "add_node h e s = Inr ?g" by (simp add: add_node_def grown_def)
    then show ?thesis
      using h(1) up(1) find_found [OF g up(2)] by (simp add: sk_insert_def)
  qed
  moreover have fm: "find_node ?g e (Some up) = Inr None \<longleftrightarrow> e \<notin> key s ` set xs"
  proof -
    have "key ?g ` set xs = key s ` set xs" using arg_cong [OF keys, of set] by simp
    then show ?thesis using find_found [OF g up(2)] find_mem [OF g, of e] by (auto split: list.splits if_splits)
  qed
  ultimately have ins: "sk_insert draws e s = (if e \<notin> key s ` set xs then
      rbind (for_each [0..<h] (link_level ?new up) ?g) (\<lambda>s. Inr (s\<lparr>sk_len := sk_len s + 1\<rparr>)) else Inr ?g)"
    by simp
  show ?thesis
  proof (cases "e \<in> key s ` set xs")
    case True
    then show ?thesis using ins g keys by auto
  next
    case False
    obtain u where u: "for_each [0..<h] (link_level ?new up) ?g = Inr u" "same ?g u" "maxHeight u = maxHeight ?g"
      "\<forall>n < length (sk_nodes ?g). \<forall>j < ht ?g n. nx u n j =
       (if j < h \<and> n = ?new then nx ?g (pred ?g e xs j) j else if j < h \<and> n = pred ?g e xs j then Some ?new else nx ?g n j)"
      using link_all [OF g up(2) new(1,2,3) mh] by blast
    let ?u = "u\<lparr>sk_len := sk_len u + 1\<rparr>" and ?ys = "below ?g e xs @ ?new # above ?g e xs"
    have e: "e \<notin> key ?g ` set xs" using False arg_cong [OF keys, of set] by simp
    have iu: "sk_inv ?u ?ys" using h(2) u(4) by (intro link_inv [OF g new(1-3) _ mh new(4) e u(2,3)]) auto
    have "map (key ?u) ?ys = insort e (map (key s) xs)"
    proof (rule sorted_eq)
      show "sorted_wrt (<) (map (key ?u) ?ys)" using iu by (simp only: sk_inv_def)
      have "sorted_wrt (<) (map (key s) xs)" using inv by (simp add: sk_inv_def)
      then show "sorted_wrt (<) (insort e (map (key s) xs))"
        using False by (auto simp: strict_sorted_iff sorted_insort distinct_insort)
      have b: "n < length (sk_nodes ?g)" if "n \<in> set ?ys" for n
        using that g new(1) inv_sets(1) [OF g, of e] by (auto simp: sk_inv_def)
      have "key ?u ` set ?ys = key ?g ` set ?ys" using same_facts(2) [OF u(2) b] by simp
      also have "\<dots> = insert e (key ?g ` set xs)" using inv_sets(1) [OF g, of e] new(4) by (auto simp: key_def)
      also have "key ?g ` set xs = key s ` set xs" using arg_cong [OF keys, of set] by simp
      finally show "set (map (key ?u) ?ys) = set (insort e (map (key s) xs))" by (simp add: set_insort_key image_Un)
    qed
    then show ?thesis using ins False u(1) iu by auto
  qed
qed


section \<open>Removing\<close>

text \<open>The levels that are empty once \<open>x\<close> is gone.\<close>

definition emptied :: "'a skiplist \<Rightarrow> nat list \<Rightarrow> nat list \<Rightarrow> nat list" where
  "emptied s ys levels = filter (\<lambda>i. lvl s i ys = []) levels"

lemma unlink_all:
  assumes inv: "sk_inv s xs" and up: "found s e xs up" and x: "above s e xs = x # zs"
  shows "\<exists>u. for_each (rev [0..<ht s x]) (unlink_level x up) s = Inr u \<and> same s u \<and>
    maxHeight u = maxHeight s - int (length (emptied s (below s e xs @ zs) (rev [0..<ht s x]))) \<and>
    (\<forall>n < length (sk_nodes s). \<forall>j < ht s n. nx u n j =
       (if j < ht s x \<and> n = pred s e xs j then nx s x j else nx s n j))"
proof -
  let ?ls = "rev [0..<ht s x]" and ?ys = "below s e xs @ zs"
  let ?I = "\<lambda>k u. same s u \<and> maxHeight u = maxHeight s - int (length (emptied s ?ys (take k ?ls))) \<and>
    (\<forall>n < length (sk_nodes s). \<forall>j < ht s n. nx u n j =
       (if j \<in> set (take k ?ls) \<and> n = pred s e xs j then nx s x j else nx s n j))"
  note sets = inv_sets [OF inv, where e = e]
  have xx: "x \<in> set xs" "x < length (sk_nodes s)" "int (ht s x) \<le> maxHeight s" "x \<noteq> 0" "x \<notin> set (0 # below s e xs)"
    using inv sets(1,3) x by (auto simp: sk_inv_def)
  have "\<exists>u. for_each ?ls (unlink_level x up) s = Inr u \<and> ?I (length ?ls) u"
  proof (rule for_each_count)
    show "?I 0 s" by (simp add: emptied_def)
    fix k u assume k: "k < length ?ls" and I: "?I k u"
    define i where "i = ?ls ! k"
    let ?p = "pred s e xs i"
    have i: "i < ht s x" "i < ht s 0" "int i < maxHeight s"
      using k xx(3) inv by (auto simp: i_def rev_nth sk_inv_def)
    have tk: "take (Suc k) ?ls = take k ?ls @ [i]" using k by (simp add: take_Suc_conv_app_nth i_def)
    have ni: "i \<notin> set (take k ?ls)"
    proof -
      have "distinct (take (Suc k) ?ls)" by simp
      then show ?thesis unfolding tk by simp
    qed
    have p: "?p < length (sk_nodes s)" "i < ht s ?p" "?p \<noteq> x"
      using pred_mem [OF inv i(2), of e] xx(5) by metis+
    have u: "length (sk_nodes u) = length (sk_nodes s)" "\<And>n. n < length (sk_nodes s) \<Longrightarrow> ht u n = ht s n"
      using I by (simp_all add: same_def)
    have v: "sk_get u x i = Inr (nx s x i)" using sk_get [of x u i] xx(2) i(1) u I ni by simp
    obtain w where w: "sk_set ?p i (nx s x i) u = Inr w" "same u w" "maxHeight w = maxHeight u"
      "\<forall>m < length (sk_nodes u). \<forall>j < ht u m. nx w m j = (if m = ?p \<and> j = i then nx s x i else nx u m j)"
      using sk_set [of ?p u i "nx s x i"] p(1,2) u by auto
    have nw: "nx w n j = (if j \<in> set (take (Suc k) ?ls) \<and> n = pred s e xs j then nx s x j else nx s n j)"
      if "n < length (sk_nodes s)" "j < ht s n" for n j
      using w(4) I u that unfolding tk by auto
    have z: "0 < length (sk_nodes s)" using inv by (auto simp: sk_inv_def)
    have "sk_get w 0 i = Inr (nx w 0 i)" using w(2) u i(2) z by (intro sk_get) (auto simp: same_def)
    moreover have "nx w 0 i = None \<longleftrightarrow> lvl s i ?ys = []"
    proof -
      let ?a = "lvl s i (below s e xs)" and ?z = "lvl s i zs"
      have ch: "chain (\<lambda>n. nx s n i) 0 (?a @ x # ?z)" using sets(5) [OF i(2)] x i(1) by (simp add: lvl_def)
      have n0: "nx w 0 i = (if ?p = 0 then nx s x i else nx s 0 i)"
        using nw [OF z i(2)] unfolding tk by auto
      show ?thesis
      proof (cases ?a)
        case Nil
        then have "?p = 0" by (simp add: pred_def)
        moreover have "nx s x i = None \<longleftrightarrow> ?z = []" using ch Nil by (cases ?z) auto
        ultimately show ?thesis using n0 Nil by (simp add: lvl_append)
      next
        case (Cons b bs)
        then have "?p \<in> set ?a" by (simp add: pred_def)
        then have "?p \<noteq> 0" using sets(3) by (auto simp: set_lvl)
        moreover have "nx s 0 i \<noteq> None" using ch Cons by simp
        ultimately show ?thesis using n0 Cons by (simp add: lvl_append)
      qed
    qed
    ultimately have r: "unlink_level x up i u = Inr (if lvl s i ?ys = [] then w\<lparr>maxHeight := maxHeight w - 1\<rparr> else w)"
      using entry_found [OF up i(3)] v w(1) by (simp add: unlink_level_def)
    let ?w = "if lvl s i ?ys = [] then w\<lparr>maxHeight := maxHeight w - 1\<rparr> else w"
    have mw: "same w ?w" "nx ?w n j = nx w n j" for n j
      by (simp_all add: same_def ht_def nx_def)
    have "?I (Suc k) ?w"
    proof (intro conjI allI impI)
      show "same s ?w" using I same_trans [OF _ same_trans [OF w(2) mw(1)], of s] by blast
      show "maxHeight ?w = maxHeight s - int (length (emptied s ?ys (take (Suc k) ?ls)))"
        using I w(3) unfolding tk by (simp add: emptied_def)
      show "nx ?w n j = (if j \<in> set (take (Suc k) ?ls) \<and> n = pred s e xs j then nx s x j else nx s n j)"
        if "n < length (sk_nodes s)" "j < ht s n" for n j
        unfolding mw(2) by (rule nw [OF that])
    qed
    then show "\<exists>u'. unlink_level x up (?ls ! k) u = Inr u' \<and> ?I (Suc k) u'" using r unfolding i_def by blast
  qed
  then show ?thesis by (simp only: length_rev length_upt diff_zero take_all_iff le_refl take_all set_rev set_upt atLeastLessThan_iff le0 simp_thms)
qed


lemma emptied_bound:
  assumes "n \<in> set ys" and "ht s n \<le> l" and "int l \<le> m"
  shows "int (ht s n) \<le> m - int (length (emptied s ys (rev [0..<l])))"
proof -
  have "lvl s i ys \<noteq> []" if "i < ht s n" for i using assms(1) that by (auto simp: lvl_def filter_empty_conv)
  then have "set (emptied s ys (rev [0..<l])) \<subseteq> {ht s n..<l}"
    by (auto simp: emptied_def not_le intro: ccontr)
  then have "card (set (emptied s ys (rev [0..<l]))) \<le> l - ht s n"
    using card_mono [of "{ht s n..<l}"] by fastforce
  moreover have "distinct (emptied s ys (rev [0..<l]))" by (simp add: emptied_def)
  ultimately have "length (emptied s ys (rev [0..<l])) \<le> l - ht s n" by (simp add: distinct_card)
  then show ?thesis using assms(2,3) by linarith
qed

lemma emptied_none:
  assumes "n \<in> set ys" and "l \<le> ht s n"
  shows "emptied s ys (rev [0..<l]) = []"
proof -
  have "lvl s i ys \<noteq> []" if "i < l" for i using assms that by (auto simp: lvl_def filter_empty_conv intro!: bexI [of _ n])
  then show ?thesis by (auto simp: emptied_def filter_empty_conv)
qed

lemma unlink_inv:
  assumes inv: "sk_inv s xs" and x: "above s e xs = x # zs" and u: "same s u"
    and mh: "maxHeight u = maxHeight s - int (length (emptied s (below s e xs @ zs) (rev [0..<ht s x])))"
    and nx: "\<And>n j. n < length (sk_nodes s) \<Longrightarrow> j < ht s n \<Longrightarrow>
       nx u n j = (if j < ht s x \<and> n = pred s e xs j then nx s x j else nx s n j)"
  shows "sk_inv (u\<lparr>sk_len := sk_len u - 1\<rparr>) (below s e xs @ zs)"
proof -
  let ?A = "below s e xs" and ?u = "u\<lparr>sk_len := sk_len u - 1\<rparr>"
  note sets = inv_sets [OF inv, where e = e]
  have xs: "set xs = set ?A \<union> insert x (set zs)" "distinct (0 # ?A @ x # zs)" using sets(1,3) x by simp_all
  have bound: "n < length (sk_nodes s)" if "n \<in> set (0 # ?A @ zs)" for n
    using that inv xs(1) by (auto simp: sk_inv_def)
  have uf: "ht u n = ht s n" "key u n = key s n" "sk_elem (sk_nodes u ! n) = sk_elem (sk_nodes s ! n)"
    if "n \<in> set (0 # ?A @ zs)" for n using same_facts [OF u bound [OF that]] .
  have mk: "map (key u) (?A @ zs) = map (key s) (?A @ zs)" using uf(2) by auto
  have hx: "int (ht s x) \<le> maxHeight s" using inv xs(1) by (simp add: sk_inv_def)
  have len: "length (emptied s (?A @ zs) (rev [0..<ht s x])) \<le> ht s x"
    unfolding emptied_def using length_filter_le [of _ "rev [0..<ht s x]"] by simp
  have chains: "chain (\<lambda>n. nx u n i) 0 (lvl u i (?A @ zs))" if "i < ht u 0" for i
  proof -
    have i: "i < ht s 0" using that uf(1) [of 0] by simp
    let ?a = "lvl s i ?A" and ?z = "lvl s i zs" and ?f = "\<lambda>n. nx s n i"
    have l: "lvl u i (?A @ zs) = ?a @ ?z" using lvl_cong [of "?A @ zs" u s i] uf(1) by (simp add: lvl_append)
    have mem: "nx u n i = (if i < ht s x \<and> n = pred s e xs i then nx s x i else nx s n i)"
      if "n \<in> set (0 # ?a @ ?z)" for n
      using that bound [of n] i by (intro nx) (auto simp: set_lvl)
    have c: "chain ?f 0 (?a @ lvl s i (x # zs))" using sets(5) [OF i] x by simp
    show ?thesis
    proof (cases "i < ht s x")
      case True
      have "distinct (0 # ?a @ x # ?z)" using xs(2) by (auto simp: lvl_def)
      then have "chain (?f(pred s e xs i := ?f x)) 0 (?a @ ?z)"
        using chain_unlink [of ?f 0 ?a x ?z] c True unfolding pred_def by (simp add: lvl_def)
      moreover have "chain (\<lambda>n. nx u n i) 0 (?a @ ?z) \<longleftrightarrow> chain (?f(pred s e xs i := ?f x)) 0 (?a @ ?z)"
      proof (rule links_cong)
        fix m assume "m \<in> set (0 # ?a @ ?z)"
        then show "nx u m i = (?f(pred s e xs i := ?f x)) m" using mem [of m] True by simp
      qed
      ultimately show ?thesis unfolding l by simp
    next
      case False
      have "chain (\<lambda>n. nx u n i) 0 (?a @ ?z) \<longleftrightarrow> chain ?f 0 (?a @ ?z)"
        using mem False by (intro links_cong) auto
      then show ?thesis unfolding l using False c by (simp add: lvl_def)
    qed
  qed
  show ?thesis
    unfolding sk_inv_def
  proof (intro conjI ballI)
    show "distinct (0 # ?A @ zs)" using xs(2) by auto
    show "m < length (sk_nodes ?u)" if "m \<in> set (0 # ?A @ zs)" for m
      using bound [OF that] u by (simp add: same_def)
    fix m assume m: "m \<in> set (?A @ zs)"
    then have "sk_elem (sk_nodes s ! m) = Some (key s m) \<and> 0 < ht s m \<and> int (ht s m) \<le> maxHeight s"
      using inv xs(1) by (auto simp: sk_inv_def)
    moreover have "int (ht s m) \<le> maxHeight u"
    proof (cases "ht s m \<le> ht s x")
      case True
      from emptied_bound [OF m True hx] show ?thesis by (simp add: mh)
    next
      case False
      then have "emptied s (?A @ zs) (rev [0..<ht s x]) = []" by (intro emptied_none [OF m]) simp
      then show ?thesis using mh calculation by simp
    qed
    ultimately show "sk_elem (sk_nodes ?u ! m) = Some (key ?u m)" "0 < ht ?u m" "int (ht ?u m) \<le> maxHeight ?u"
      using uf [of m] m by simp_all
  next
    have "sorted_wrt (<) (map (key s) (?A @ zs))" using sets(4) x by (auto simp: sorted_wrt_append)
    then show "sorted_wrt (<) (map (key ?u) (?A @ zs))" unfolding sk_len_update mk .
    show "0 \<le> maxHeight ?u" using mh len hx by simp
    show "maxHeight ?u \<le> int (ht ?u 0)" using inv mh uf(1) [of 0] by (simp add: sk_inv_def)
    show "sk_len ?u = int (length (?A @ zs))" using inv u sets(2) x by (simp add: sk_inv_def same_def)
    show "\<forall>i < ht ?u 0. chain (\<lambda>n. nx ?u n i) 0 (lvl ?u i (?A @ zs))" using chains by simp
  qed
qed

lemma sk_remove_ok:
  assumes inv: "sk_inv s xs"
  shows "\<exists>u ys. sk_remove e s = Inr u \<and> sk_inv u ys \<and> map (key u) ys = remove1 e (map (key s) xs)"
proof -
  obtain up where up: "updateList s e = Inr up" "found s e xs up" using updateList_ok [OF inv] by blast
  note sets = inv_sets [OF inv, where e = e]
  show ?thesis
  proof (cases "e \<in> key s ` set xs")
    case False
    then have "find_node s e (Some up) = Inr None"
      using find_found [OF inv up(2)] find_mem [OF inv, of e] by (auto split: list.splits)
    moreover have "remove1 e (map (key s) xs) = map (key s) xs" using False by (simp add: remove1_idem)
    ultimately show ?thesis using inv up(1) by (auto simp: sk_remove_def)
  next
    case True
    then obtain x zs where x: "above s e xs = x # zs" "key s x = e" using find_mem [OF inv, of e] by blast
    have f: "find_node s e (Some up) = Inr (Some x)" using find_found [OF inv up(2)] x by simp
    have xl: "x < length (sk_nodes s)" using inv sets(1) x(1) by (auto simp: sk_inv_def)
    obtain u where u: "for_each (rev [0..<ht s x]) (unlink_level x up) s = Inr u" "same s u"
      "maxHeight u = maxHeight s - int (length (emptied s (below s e xs @ zs) (rev [0..<ht s x])))"
      "\<forall>n < length (sk_nodes s). \<forall>j < ht s n. nx u n j = (if j < ht s x \<and> n = pred s e xs j then nx s x j else nx s n j)"
      using unlink_all [OF inv up(2) x(1)] by blast
    have "sk_remove e s = Inr (u\<lparr>sk_len := sk_len u - 1\<rparr>)"
      using up(1) f xl u(1) by (simp add: sk_remove_def ht_def)
    moreover have "sk_inv (u\<lparr>sk_len := sk_len u - 1\<rparr>) (below s e xs @ zs)"
      using u(4) by (intro unlink_inv [OF inv x(1) u(2,3)]) simp
    moreover have "map (key (u\<lparr>sk_len := sk_len u - 1\<rparr>)) (below s e xs @ zs) = remove1 e (map (key s) xs)"
    proof -
      have "n < length (sk_nodes s)" if "n \<in> set (below s e xs @ zs)" for n
        using that inv sets(1) x(1) by (auto simp: sk_inv_def)
      then have "map (key u) (below s e xs @ zs) = map (key s) (below s e xs @ zs)"
        using same_facts(2) [OF u(2)] by auto
      also have "\<dots> = remove1 e (map (key s) (below s e xs @ x # zs))"
      proof -
        have "e \<notin> key s ` set (below s e xs)" using below_less by fastforce
        then show ?thesis using x(2) by (simp add: remove1_append)
      qed
      also have "below s e xs @ x # zs = xs" using below_above [of s e xs] x(1) by simp
      finally have "map (key u) (below s e xs @ zs) = remove1 e (map (key s) xs)" .
      moreover have "key (u\<lparr>sk_len := sk_len u - 1\<rparr>) = key u" by (rule ext) simp
      ultimately show ?thesis by (simp only:)
    qed
    ultimately show ?thesis by blast
  qed
qed

section \<open>The items\<close>

text \<open>The items of a skip list: what \<open>printList\<close> prints for its lowest level.\<close>

definition sk_items :: "'a skiplist \<Rightarrow> 'a list" where
  "sk_items s = (case print_level (length (sk_nodes s)) s 0 0 of Inl e \<Rightarrow> [] | Inr es \<Rightarrow> map the es)"

definition sk_ok :: "'a::linorder skiplist \<Rightarrow> bool" where
  "sk_ok s \<longleftrightarrow> (\<exists>xs. sk_inv s xs)"

lemma items_inv:
  assumes inv: "sk_inv s xs"
  shows "sk_items s = map (key s) xs"
proof (cases "ht s 0 = 0")
  case True
  then have "xs = []" using inv by (cases xs) (auto simp: sk_inv_def)
  moreover have "print_level (length (sk_nodes s)) s 0 0 = Inl IndexError"
    using True inv by (cases "length (sk_nodes s)") (auto simp: sk_get_def ht_def sk_inv_def lget_def)
  ultimately show ?thesis by (simp add: sk_items_def)
next
  case False
  then show ?thesis using print_level_ok [OF inv, of 0] lvl_zero [OF inv, of xs] by (simp add: sk_items_def)
qed

interpretation sk: sorted_items sk_insert "\<lambda>draws. 1 \<in> set draws" sk_remove sk_contains sk_items sk_ok
proof unfold_locales
  fix t :: "'a skiplist" and x :: 'a and d :: "int list"
  assume "sk_ok t"
  then obtain xs where inv: "sk_inv t xs" by (auto simp: sk_ok_def)
  note it = items_inv [OF inv]
  show "sorted_wrt (<) (sk_items t)" using inv by (simp add: it sk_inv_def)
  show "\<exists>t'. sk_insert d x t = Inr t' \<and> sk_ok t' \<and>
      sk_items t' = (if x \<in> set (sk_items t) then sk_items t else insort x (sk_items t))" if d: "1 \<in> set d"
  proof -
    obtain u ys where u: "sk_insert d x t = Inr u" "sk_inv u ys"
      "map (key u) ys = (if x \<in> key t ` set xs then map (key t) xs else insort x (map (key t) xs))"
      using sk_insert_ok [OF inv d] by blast
    then show ?thesis using items_inv [OF u(2)] by (auto simp: it sk_ok_def)
  qed
  show "\<exists>t'. sk_remove x t = Inr t' \<and> sk_ok t' \<and> sk_items t' = remove1 x (sk_items t)"
  proof -
    obtain u ys where u: "sk_remove x t = Inr u" "sk_inv u ys" "map (key u) ys = remove1 x (map (key t) xs)"
      using sk_remove_ok [OF inv] by blast
    then show ?thesis using items_inv [OF u(2)] by (auto simp: it sk_ok_def)
  qed
  show "sk_contains x t = Inr (x \<in> set (sk_items t))" using contains_ok [OF inv] by (simp add: it)
qed


lemma print_levels_ok:
  assumes inv: "sk_inv s xs" and "\<And>i. i \<in> set is \<Longrightarrow> i < ht s 0"
  shows "print_levels s is = Inr (map (\<lambda>i. map (Some \<circ> key s) (lvl s i xs)) is)"
  using assms(2) by (induction "is") (auto simp: print_level_ok [OF inv])

lemma printList_ok:
  assumes inv: "sk_inv s xs"
  shows "\<exists>ls. printList s = Inr ls \<and> sorted_wrt (\<lambda>a b. set a \<subseteq> set b) ls \<and>
    (sk_items s \<noteq> [] \<longrightarrow> ls \<noteq> []) \<and> (ls \<noteq> [] \<longrightarrow> last ls = map Some (sk_items s))"
proof -
  let ?l = "\<lambda>i. map (Some \<circ> key s) (lvl s i xs)" and ?h = "ht s 0"
  have "0 < length (sk_nodes s)" using inv by (auto simp: sk_inv_def)
  then have p: "printList s = Inr (map ?l (rev [0..<?h]))"
    using print_levels_ok [OF inv, of "rev [0..<?h]"] by (simp add: printList_def ht_def)
  have "sorted_wrt (\<lambda>a b. set a \<subseteq> set b) (map ?l (rev [0..<?h]))"
  proof -
    have "sorted_wrt (<) [0..<?h]" by simp
    then have "sorted_wrt (\<lambda>i j. set (?l j) \<subseteq> set (?l i)) [0..<?h]"
      by (rule sorted_wrt_mono_rel [rotated]) (auto simp: set_lvl)
    then show ?thesis by (simp only: rev_map [symmetric] sorted_wrt_rev sorted_wrt_map)
  qed
  moreover have "?h \<noteq> 0" if "sk_items s \<noteq> []"
  proof -
    have "xs \<noteq> []" using that items_inv [OF inv] by simp
    then obtain n where "n \<in> set xs" by (cases xs) auto
    then have "0 < ht s n \<and> int (ht s n) \<le> int ?h" using inv by (fastforce simp: sk_inv_def)
    then show ?thesis by simp
  qed
  moreover have "last (map ?l (rev [0..<?h])) = map Some (sk_items s)" if "?h \<noteq> 0"
  proof -
    have "last (map ?l (rev [0..<?h])) = ?l 0" using that by (simp add: last_map last_rev hd_map)
    then show ?thesis using lvl_zero [OF inv, of xs] items_inv [OF inv] by simp
  qed
  ultimately show ?thesis unfolding p by auto
qed

section \<open>Properties\<close>

text \<open>
  Whatever operations a task performs on a new skip list, and whatever random numbers the insertions
  use as long as they come to a 1, none of them raises; the lowest level then lists in increasing order
  what the same operations leave in a set, \<open>len\<close> is its size, and \<open>printList\<close> prints levels of which
  each is part of the one below it.
\<close>

theorem skiplist_tasks:
  fixes ops :: "(op \<times> int list \<times> 'a::linorder) list"
  assumes "\<And>op draws x. (op, draws, x) \<in> set ops \<Longrightarrow> 1 \<in> set draws"
  shows "\<exists>s ls. sk_task ops SkipList = Inr s \<and>
    sk_items s = sorted_list_of_set (fold op_on_set (map (\<lambda>(op, draws, x). (op, x)) ops) {}) \<and>
    sk_len s = int (card (fold op_on_set (map (\<lambda>(op, draws, x). (op, x)) ops) {})) \<and>
    printList s = Inr ls \<and> sorted_wrt (\<lambda>a b. set a \<subseteq> set b) ls \<and>
    (sk_items s \<noteq> [] \<longrightarrow> last ls = map Some (sk_items s))"
proof -
  have new: "sk_ok (SkipList :: 'a skiplist)" using sk_inv_new by (auto simp: sk_ok_def)
  have items: "sk_items (SkipList :: 'a skiplist) = []" using items_inv [OF sk_inv_new] by simp
  let ?S = "fold op_on_set (map (\<lambda>(op, draws, x). (op, x)) ops) {}"
  have "\<exists>s. for_each ops sk_run_op SkipList = Inr s \<and> sk_ok s \<and>
      sk_items s = sorted_list_of_set (fold op_on_set (map (\<lambda>(op, d, x). (op, x)) ops) (set (sk_items SkipList)))"
    by (rule sk.ops_set [OF new assms])
      (simp_all add: sk_run_op_def sk_contains_def rbind_assoc split: op.split)
  then obtain s where s: "sk_task ops SkipList = Inr s" "sk_ok s" "sk_items s = sorted_list_of_set ?S"
    by (auto simp: sk_task_def items)
  obtain xs where inv: "sk_inv s xs" using s(2) by (auto simp: sk_ok_def)
  obtain ls where ls: "printList s = Inr ls" "sorted_wrt (\<lambda>a b. set a \<subseteq> set b) ls"
    "sk_items s \<noteq> [] \<longrightarrow> ls \<noteq> []" "ls \<noteq> [] \<longrightarrow> last ls = map Some (sk_items s)" using printList_ok [OF inv] by blast
  have "sk_len s = int (length (sk_items s))" using inv items_inv [OF inv] by (simp add: sk_inv_def)
  then have "sk_len s = int (card ?S)" unfolding s(3) by simp
  then show ?thesis using s(1,3) ls by blast
qed

theorem skiplist_tasks_witness:
  "\<exists>s. sk_task [(Insert, [2, 1], 3), (Insert, [1], 7 :: int), (Insert, [2, 2, 1], 5), (Contains, [1], 4), (Remove, [1], 7)] SkipList = Inr s \<and>
    sk_items s = [3, 5] \<and> sk_len s = 2"
proof -
  let ?ops = "[(Insert, [2, 1], 3), (Insert, [1], 7), (Insert, [2, 2, 1], 5), (Contains, [1], 4), (Remove, [1], 7)]
    :: (op \<times> int list \<times> int) list"
  have f: "fold op_on_set (map (\<lambda>(op, draws, x). (op, x)) ?ops) {} = {3, 5}" by auto
  have "\<exists>s ls. sk_task ?ops SkipList = Inr s \<and>
    sk_items s = sorted_list_of_set (fold op_on_set (map (\<lambda>(op, draws, x). (op, x)) ?ops) {}) \<and>
    sk_len s = int (card (fold op_on_set (map (\<lambda>(op, draws, x). (op, x)) ?ops) {})) \<and>
    printList s = Inr ls \<and> sorted_wrt (\<lambda>a b. set a \<subseteq> set b) ls \<and> (sk_items s \<noteq> [] \<longrightarrow> last ls = map Some (sk_items s))"
    by (rule skiplist_tasks) auto
  then obtain s where "sk_task ?ops SkipList = Inr s" "sk_items s = sorted_list_of_set {3, 5}" "sk_len s = int (card {3, 5 :: int})"
    unfolding f by blast
  then show ?thesis by auto
qed

end
