(* ===== verification/Upload.thy ===== *)
theory Upload
  imports PyText Complex_Main
begin

text \<open>
  \<open>saveresults.py\<close> and the part of \<open>runner.py\<close> that uploads results: the options of the two runs, the
  data that is sent for a benchmark, the attempts to send it, and the loop over runs and urls. The datum is the one element of
  the list \<open>data\<close> of the source; the file \<open>error.html\<close> is not modelled. The answers
  of the network are an argument: \<open>net k\<close> is what becomes of the \<open>k\<close>-th request. What is done is a
  list of events, the state of the model; an exception keeps it, since the loop of \<open>runner.py\<close> goes on
  after some.
\<close>

section \<open>Values\<close>

text \<open>What an option is, and what the json of a result holds.\<close>

datatype optval = ONone | OBool bool | OStr string

datatype jval = JNone | JNum rat | JStr string | JList "jval list"

definition truthy :: "jval \<Rightarrow> bool" where
  "truthy v = (case v of JNone \<Rightarrow> False | JNum x \<Rightarrow> x \<noteq> 0 | JStr s \<Rightarrow> s \<noteq> [] | JList vs \<Rightarrow> vs \<noteq> [])"

definition dict_get :: "(string \<rightharpoonup> 'a) \<Rightarrow> string \<Rightarrow> 'a result" where
  "dict_get m k = (case m k of None \<Rightarrow> Inl KeyError | Some v \<Rightarrow> Inr v)"

type_synonym bench_result = "string \<times> string \<times> (string \<rightharpoonup> jval)"

record datum =
  commitid :: optval
  project :: optval
  executable :: optval
  benchmark :: string
  environment :: optval
  result_value :: jval
  branch :: optval
  std_dev :: "jval option"

datatype outcome = Answer | URLError | Broken exn

datatype event = Posted string datum outcome | Slept nat

type_synonym network = "nat \<Rightarrow> outcome"

definition requests :: "event list \<Rightarrow> nat" where
  "requests trace = length (filter (\<lambda>e. case e of Posted u d a \<Rightarrow> True | Slept n \<Rightarrow> False) trace)"

section \<open>Saving the results of one run\<close>

text \<open>\<open>value\<close>: \<open>None\<close> where the type of the result is not known.\<close>

definition bench_value :: "bool \<Rightarrow> string \<Rightarrow> (string \<rightharpoonup> jval) \<Rightarrow> jval option result" where
  "bench_value changed res_type results =
     (if res_type = ''SimpleComparisonResult'' then
        rbind (dict_get results (if changed then ''changed_time'' else ''base_time'')) (\<lambda>v. Inr (Some v))
      else if res_type = ''ComparisonResult'' then
        rbind (dict_get results (if changed then ''avg_changed'' else ''avg_base'')) (\<lambda>v. Inr (Some v))
      else if res_type = ''RawResult'' then
        rbind (dict_get results (if changed then ''changed_times'' else ''base_times'')) (\<lambda>v.
          if truthy v then
            (case v of
               JList vs \<Rightarrow> if length vs = 1 then Inr (Some (hd vs)) else Inl AssertionError
             | JStr s \<Rightarrow> if length s = 1 then Inr (Some (JStr [hd s])) else Inl AssertionError
             | _ \<Rightarrow> Inl TypeError)
          else Inr (Some v))
      else Inr None)"

definition with_std_dev :: "bool \<Rightarrow> string \<Rightarrow> (string \<rightharpoonup> jval) \<Rightarrow> datum \<Rightarrow> datum result" where
  "with_std_dev changed res_type results d =
     (if res_type = ''ComparisonResult'' then
        rbind (dict_get results (if changed then ''std_changed'' else ''std_base'')) (\<lambda>v. Inr (d\<lparr>std_dev := Some v\<rparr>))
      else Inr d)"

text \<open>\<open>send\<close>: 0 once there is an answer, 1 when the waiting times are used up; other exceptions go through.\<close>

fun send_loop :: "network \<Rightarrow> string \<Rightarrow> datum \<Rightarrow> nat list \<Rightarrow> event list \<Rightarrow> nat result \<times> event list" where
  "send_loop net url d retries trace =
     (let a = net (requests trace); trace = trace @ [Posted url d a] in
      case a of
        Answer \<Rightarrow> (Inr 0, trace)
      | Broken e \<Rightarrow> (Inl e, trace)
      | URLError \<Rightarrow> (case retries of [] \<Rightarrow> (Inr 1, trace) | t # retries \<Rightarrow> send_loop net url d retries (trace @ [Slept t])))"

declare send_loop.simps [simp del]

definition send :: "network \<Rightarrow> datum \<Rightarrow> string \<Rightarrow> event list \<Rightarrow> nat result \<times> event list" where
  "send net d url trace = send_loop net url d [1, 3, 6, 20] trace"

definition IOError :: exn where
  "IOError = UserException ''IOError''"

text \<open>What is sent for a result, and kept when testing, is a list of one datum.\<close>

datatype saved = Code nat | Params "datum list list"

text \<open>What stays the same for all the results that are saved.\<close>

record save_args =
  sv_project :: optval
  sv_revision :: optval
  sv_executable :: optval
  sv_host :: optval
  sv_url :: string
  sv_testing :: bool
  sv_changed :: bool
  sv_branch :: optval

definition make_datum :: "save_args \<Rightarrow> string \<Rightarrow> jval \<Rightarrow> datum" where
  "make_datum a bench_name v =
     \<lparr>commitid = sv_revision a, project = sv_project a, executable = sv_executable a, benchmark = bench_name,
      environment = sv_host a, result_value = v, branch = sv_branch a, std_dev = None\<rparr>"

fun save_loop :: "network \<Rightarrow> save_args \<Rightarrow> bench_result list \<Rightarrow> nat \<Rightarrow> datum list list \<Rightarrow> event list \<Rightarrow>
    saved result \<times> event list" where
  "save_loop net a [] error testparams trace =
     (if error \<noteq> 0 then (Inl IOError, trace)
      else if sv_testing a then (Inr (Params testparams), trace)
      else (Inr (Code 0), trace))"
| "save_loop net a ((bench_name, res_type, results) # rest) error testparams trace =
     (case bench_value (sv_changed a) res_type results of
        Inl e \<Rightarrow> (Inl e, trace)
      | Inr None \<Rightarrow> (Inr (Code 1), trace)
      | Inr (Some v) \<Rightarrow>
          if \<not> truthy v then save_loop net a rest error testparams trace
          else (case with_std_dev (sv_changed a) res_type results (make_datum a bench_name v) of
              Inl e \<Rightarrow> (Inl e, trace)
            | Inr d \<Rightarrow>
                if sv_testing a then save_loop net a rest error (testparams @ [[d]]) trace
                else (case send net d (sv_url a) trace of
                    (Inl e, trace) \<Rightarrow> (Inl e, trace)
                  | (Inr c, trace) \<Rightarrow> save_loop net a rest (if error = 0 then c else 1) testparams trace)))"

definition save :: "network \<Rightarrow> save_args \<Rightarrow> bench_result list \<Rightarrow> event list \<Rightarrow> saved result \<times> event list" where
  "save net a results trace = save_loop net a results 0 [] trace"

section \<open>The options of \<open>runner.py\<close>\<close>

type_synonym options = "string \<rightharpoonup> optval"

datatype run = CHANGED | BASELINE

record upload_opts =
  up_upload :: optval
  up_project :: optval
  up_executable :: optval
  up_urls :: "string list"
  up_branch :: optval
  up_revision :: optval

definition opt_truthy :: "optval \<Rightarrow> bool" where
  "opt_truthy v = (case v of ONone \<Rightarrow> False | OBool b \<Rightarrow> b | OStr s \<Rightarrow> s \<noteq> [])"

definition getattr :: "options \<Rightarrow> string \<Rightarrow> optval result" where
  "getattr opts k = (case opts k of None \<Rightarrow> Inl AttributeError | Some v \<Rightarrow> Inr v)"

definition get_upload_option :: "options \<Rightarrow> run \<Rightarrow> string option \<Rightarrow> optval result" where
  "get_upload_option opts r name =
     getattr opts (''upload'' @ (if r = BASELINE then ''_baseline'' else []) @
       (case name of None \<Rightarrow> [] | Some n \<Rightarrow> CHR ''_'' # n))"

definition split_urls :: "optval \<Rightarrow> string list result" where
  "split_urls v = (case v of
     OStr s \<Rightarrow> Inr (map strip (filter (\<lambda>url. strip url \<noteq> []) (split_at (CHR '','') s)))
   | _ \<Rightarrow> Inl AttributeError)"

text \<open>\<open>s in t\<close> for strings.\<close>

fun occurs_in :: "string \<Rightarrow> string \<Rightarrow> bool" where
  "occurs_in s [] \<longleftrightarrow> s = []"
| "occurs_in s (c # cs) \<longleftrightarrow> take (length s) (c # cs) = s \<or> occurs_in s cs"

definition uses_nullpython :: "options \<Rightarrow> run \<Rightarrow> bool result" where
  "uses_nullpython opts r =
     rbind (getattr opts (if r = BASELINE then ''baseline'' else ''changed'')) (\<lambda>v. case v of
       OStr s \<Rightarrow> Inr (occurs_in ''nullpython.py'' s)
     | _ \<Rightarrow> Inl TypeError)"

definition run_options :: "options \<Rightarrow> run \<Rightarrow> upload_opts result" where
  "run_options opts r =
     rbind (get_upload_option opts r (Some ''urls'')) (\<lambda>urls.
     rbind (split_urls urls) (\<lambda>urls.
     rbind (get_upload_option opts r None) (\<lambda>upload.
     rbind (get_upload_option opts r (Some ''project'')) (\<lambda>project.
     rbind (get_upload_option opts r (Some ''executable'')) (\<lambda>executable.
     rbind (get_upload_option opts r (Some ''branch'')) (\<lambda>branch.
     rbind (get_upload_option opts r (Some ''revision'')) (\<lambda>revision.
     let uo = \<lparr>up_upload = upload, up_project = project, up_executable = executable, up_urls = urls,
               up_branch = branch, up_revision = revision\<rparr>
     in if opt_truthy upload then
          if executable = ONone then Inl AssertionError
          else if revision = ONone then Inl AssertionError
          else rbind (uses_nullpython opts r) (\<lambda>b. if b then Inl AssertionError else Inr uo)
        else Inr uo)))))))"

definition get_upload_options :: "options \<Rightarrow> (upload_opts \<times> upload_opts) result" where
  "get_upload_options opts =
     rbind (getattr opts ''upload_baseline_revision'') (\<lambda>b.
     rbind (if b = ONone then rbind (getattr opts ''upload_revision'') (\<lambda>v. Inr (opts(''upload_baseline_revision'' \<mapsto> v)))
            else Inr opts) (\<lambda>opts.
     rbind (run_options opts CHANGED) (\<lambda>c. rbind (run_options opts BASELINE) (\<lambda>b. Inr (c, b)))))"

section \<open>Uploading\<close>

definition upload_args :: "upload_opts \<Rightarrow> run \<Rightarrow> optval \<Rightarrow> string \<Rightarrow> save_args" where
  "upload_args u r host url =
     \<lparr>sv_project = up_project u, sv_revision = up_revision u, sv_executable = up_executable u, sv_host = host, sv_url = url, sv_testing = False,
      sv_changed = (r = CHANGED),
      sv_branch = (if opt_truthy (up_branch u) then up_branch u else OStr ''default'')\<rparr>"

text \<open>The loop over the urls: an \<open>IOError\<close> is kept for later, another exception ends the program.\<close>

fun upload_urls :: "network \<Rightarrow> upload_opts \<Rightarrow> run \<Rightarrow> optval \<Rightarrow> bench_result list \<Rightarrow> string list \<Rightarrow> exn list \<Rightarrow>
    event list \<Rightarrow> exn list result \<times> event list" where
  "upload_urls net u r host results [] errors trace = (Inr errors, trace)"
| "upload_urls net u r host results (url # urls) errors trace =
     (case save net (upload_args u r host url) results trace of
        (Inr c, trace) \<Rightarrow> upload_urls net u r host results urls errors trace
      | (Inl e, trace) \<Rightarrow>
          if e = IOError then upload_urls net u r host results urls (errors @ [e]) trace else (Inl e, trace))"

definition upload_run :: "network \<Rightarrow> upload_opts \<Rightarrow> run \<Rightarrow> optval \<Rightarrow> bench_result list \<Rightarrow> exn list \<Rightarrow>
    event list \<Rightarrow> exn list result \<times> event list" where
  "upload_run net u r host results errors trace =
     (if opt_truthy (up_upload u) then upload_urls net u r host results (up_urls u) errors trace
      else (Inr errors, trace))"

definition upload_results :: "network \<Rightarrow> upload_opts \<times> upload_opts \<Rightarrow> optval \<Rightarrow> string \<Rightarrow> bench_result list \<Rightarrow>
    event list \<Rightarrow> unit result \<times> event list" where
  "upload_results net opts force_host hostname results trace =
     (let host = (if opt_truthy force_host then force_host else OStr hostname) in
      case upload_run net (fst opts) CHANGED host results [] trace of
        (Inl e, trace) \<Rightarrow> (Inl e, trace)
      | (Inr errors, trace) \<Rightarrow>
          (case upload_run net (snd opts) BASELINE host results errors trace of
             (Inl e, trace) \<Rightarrow> (Inl e, trace)
           | (Inr errors, trace) \<Rightarrow> (if errors \<noteq> [] then Inl (hd errors) else Inr (), trace)))"

end
