(* ===== verification/UploadProof.thy ===== *)
theory UploadProof
  imports Upload
begin

text \<open>What the upload sends, in which order, how often it tries, and when it ends with an error.\<close>

section \<open>Attempts\<close>

definition waits :: "nat list" where
  "waits = [1, 3, 6, 20]"

text \<open>The events of the attempts to send one datum, from their outcomes.\<close>

fun tries :: "string \<Rightarrow> datum \<Rightarrow> nat list \<Rightarrow> outcome list \<Rightarrow> event list" where
  "tries url d (t # ts) (a # b # os) = Posted url d a # Slept t # tries url d ts (b # os)"
| "tries url d ts (a # os) = [Posted url d a]"
| "tries url d ts [] = []"

text \<open>Refused, until there is an answer or nothing left to wait for.\<close>

definition tried :: "nat list \<Rightarrow> outcome list \<Rightarrow> bool" where
  "tried ts os \<longleftrightarrow> (\<exists>k \<le> length ts. os = replicate k URLError @ [Answer]) \<or> os = replicate (Suc (length ts)) URLError"

lemma requests_append [simp]: "requests (xs @ ys) = requests xs + requests ys"
  by (simp add: requests_def)

lemma requests_simps [simp]:
  "requests [] = 0" "requests (Posted u d a # xs) = Suc (requests xs)" "requests (Slept n # xs) = requests xs"
  by (simp_all add: requests_def)

lemma tried_Cons: "tried (t # ts) (URLError # os) \<longleftrightarrow> tried ts os"
proof
  assume "tried ts os"
  then consider k where "k \<le> length ts" "os = replicate k URLError @ [Answer]" | "os = replicate (Suc (length ts)) URLError"
    by (auto simp: tried_def)
  then show "tried (t # ts) (URLError # os)"
  proof cases
    case 1
    then have "Suc k \<le> length (t # ts) \<and> URLError # os = replicate (Suc k) URLError @ [Answer]" by simp
    then show ?thesis unfolding tried_def by blast
  next
    case 2
    then have "URLError # os = replicate (Suc (length (t # ts))) URLError" by simp
    then show ?thesis unfolding tried_def by blast
  qed
next
  assume "tried (t # ts) (URLError # os)"
  then consider k where "k \<le> Suc (length ts)" "URLError # os = replicate k URLError @ [Answer]"
    | "URLError # os = replicate (Suc (Suc (length ts))) URLError"
    by (auto simp: tried_def)
  then show "tried ts os"
  proof cases
    case 1
    then show ?thesis by (cases k) (auto simp: tried_def)
  next
    case 2
    then show ?thesis by (simp add: tried_def)
  qed
qed

lemma tried_not_Nil: "tried ts os \<Longrightarrow> os \<noteq> []"
  by (auto simp: tried_def)

lemma tried_first: "tried ts (a # b # os) \<Longrightarrow> a = URLError"
proof -
  assume "tried ts (a # b # os)"
  then consider k where "a # b # os = replicate k URLError @ [Answer]" | "a # b # os = replicate (Suc (length ts)) URLError"
    by (auto simp: tried_def)
  then show ?thesis
  proof cases
    case 1
    then show ?thesis by (cases k) auto
  qed simp
qed

lemma requests_tries: "tried ts os \<Longrightarrow> requests (tries url d ts os) = length os"
proof (induction url d ts os rule: tries.induct, goal_cases)
  case (1 url d t ts a b os)
  then have "a = URLError" by (intro tried_first)
  then show ?case using 1 by (simp add: tried_Cons)
qed (auto simp: tried_def Cons_eq_append_conv)

text \<open>The network answers or refuses; it gives rise to no other exception.\<close>

definition answers :: "network \<Rightarrow> bool" where
  "answers net \<longleftrightarrow> (\<forall>k. net k = Answer \<or> net k = URLError)"

lemma send_loop_tries:
  assumes net: "answers net"
  shows "\<exists>os. tried ts os \<and> os = map net [requests trace..<requests trace + length os] \<and>
    send_loop net url d ts trace = (Inr (if last os = Answer then 0 else 1), trace @ tries url d ts os)"
proof (induction ts arbitrary: trace)
  case Nil
  have "net (requests trace) = Answer \<or> net (requests trace) = URLError" using net by (simp add: answers_def)
  then show ?case
    by (intro exI [of _ "[net (requests trace)]"]) (auto simp: send_loop.simps tried_def)
next
  case (Cons t ts)
  show ?case
  proof (cases "net (requests trace)")
    case Answer
    have "tried (t # ts) [Answer]" unfolding tried_def by (intro disjI1 exI [of _ 0]) simp
    then show ?thesis using Answer by (intro exI [of _ "[Answer]"]) (simp add: send_loop.simps)
  next
    case URLError
    obtain os where os: "tried ts os" "os = map net [Suc (requests trace)..<Suc (requests trace) + length os]"
      "send_loop net url d ts (trace @ [Posted url d URLError, Slept t]) =
        (Inr (if last os = Answer then 0 else 1), (trace @ [Posted url d URLError, Slept t]) @ tries url d ts os)"
      using Cons.IH [of "trace @ [Posted url d URLError, Slept t]"] by auto
    obtain b bs where b: "os = b # bs" using tried_not_Nil [OF os(1)] by (cases os) auto
    have "[requests trace..<requests trace + length (URLError # os)] =
        requests trace # [Suc (requests trace)..<Suc (requests trace) + length os]"
      using upt_conv_Cons [of "requests trace" "requests trace + Suc (length os)"] by simp
    then have "URLError # os = map net [requests trace..<requests trace + length (URLError # os)]"
      using os(2) URLError by simp
    moreover have "send_loop net url d (t # ts) trace =
        (Inr (if last (URLError # os) = Answer then 0 else 1), trace @ tries url d (t # ts) (URLError # os))"
      using os(3) URLError b by (simp add: send_loop.simps [of net url d "t # ts"])
    moreover have "tried (t # ts) (URLError # os)" using os(1) by (simp only: tried_Cons)
    ultimately show ?thesis by (intro exI [of _ "URLError # os"] conjI)
  next
    case (Broken e)
    then show ?thesis using net by (metis answers_def outcome.distinct(3,5))
  qed
qed

section \<open>Lists of requests\<close>

type_synonym req = "string \<times> datum"

text \<open>The events of a list of requests, each with the outcomes of its attempts.\<close>

definition all_tries :: "req list \<Rightarrow> outcome list list \<Rightarrow> event list" where
  "all_tries reqs oss = concat (map (\<lambda>((url, d), os). tries url d waits os) (zip reqs oss))"

definition sends :: "network \<Rightarrow> nat \<Rightarrow> req list \<Rightarrow> outcome list list \<Rightarrow> bool" where
  "sends net k reqs oss \<longleftrightarrow> length oss = length reqs \<and> (\<forall>os \<in> set oss. tried waits os) \<and>
     concat oss = map net [k..<k + length (concat oss)]"

definition refused :: "outcome list list \<Rightarrow> bool" where
  "refused oss \<longleftrightarrow> (\<exists>os \<in> set oss. last os = URLError)"

lemma requests_all:
  assumes "length oss = length reqs" and "\<And>os. os \<in> set oss \<Longrightarrow> tried waits os"
  shows "requests (all_tries reqs oss) = length (concat oss)"
  using assms by (induction oss reqs rule: list_induct2) (auto simp: all_tries_def requests_tries)

lemma sends_append:
  assumes "sends net k reqs oss" and "sends net (k + requests (all_tries reqs oss)) reqs' oss'"
  shows "sends net k (reqs @ reqs') (oss @ oss') \<and> all_tries (reqs @ reqs') (oss @ oss') = all_tries reqs oss @ all_tries reqs' oss'"
proof -
  have n: "requests (all_tries reqs oss) = length (concat oss)" using assms(1) by (intro requests_all) (auto simp: sends_def)
  have "[k..<k + length (concat (oss @ oss'))] = [k..<k + length (concat oss)] @
      [k + length (concat oss)..<k + length (concat oss) + length (concat oss')]"
    using upt_add_eq_append [of k "k + length (concat oss)" "length (concat oss')"] by (simp add: add.assoc)
  then show ?thesis using assms n by (auto simp: sends_def all_tries_def)
qed

lemma sends_Nil: "sends net k [] [] \<and> all_tries [] [] = []"
  by (simp add: sends_def all_tries_def)

section \<open>Saving\<close>

text \<open>The data that \<open>save\<close> sends, up to the first result of an unknown type, when each has what is asked of it.\<close>

fun collect :: "save_args \<Rightarrow> bench_result list \<Rightarrow> datum list result" where
  "collect a [] = Inr []"
| "collect a ((name, ty, results) # rest) =
     rbind (bench_value (sv_changed a) ty results) (\<lambda>v. case v of
       None \<Rightarrow> Inr []
     | Some v \<Rightarrow> if truthy v then
         rbind (with_std_dev (sv_changed a) ty results (make_datum a name v)) (\<lambda>d.
         rbind (collect a rest) (\<lambda>ds. Inr (d # ds)))
       else collect a rest)"

definition known :: "bench_result \<Rightarrow> bool" where
  "known = (\<lambda>(name, ty, results). ty \<in> {''SimpleComparisonResult'', ''ComparisonResult'', ''RawResult''})"

lemma save_loop_sends:
  assumes net: "answers net" and "sv_testing a = False" and "collect a results = Inr ds"
  shows "\<exists>oss. sends net (requests trace) (map (Pair (sv_url a)) ds) oss \<and>
    save_loop net a results error testparams trace =
      (if \<not> list_all known results then Inr (Code 1) else if error \<noteq> 0 \<or> refused oss then Inl IOError else Inr (Code 0),
       trace @ all_tries (map (Pair (sv_url a)) ds) oss)"
  using assms(3)
proof (induction results arbitrary: ds error trace)
  case Nil
  then show ?case using assms(2) sends_Nil by (intro exI [of _ "[]"]) (auto simp: refused_def)
next
  case (Cons r rest)
  obtain name ty results where r: "r = (name, ty, results)" by (cases r)
  show ?case
  proof (cases "known r")
    case False
    then have "bench_value (sv_changed a) ty results = Inr None" by (simp add: r known_def bench_value_def)
    then have "ds = []" "save_loop net a (r # rest) error testparams trace = (Inr (Code 1), trace)"
      using Cons.prems by (simp_all add: r)
    with False show ?thesis using sends_Nil by (intro exI [of _ "[]"]) simp
  next
    case k: True
    then obtain v where v: "bench_value (sv_changed a) ty results = Inr (Some v)"
      using Cons.prems unfolding r by (auto simp: rbind_eq_Inr known_def bench_value_def split: if_splits option.splits jval.splits)
    show ?thesis
    proof (cases "truthy v")
      case False
      then have "collect a rest = Inr ds" using Cons.prems v unfolding r by simp
      from Cons.IH [OF this] show ?thesis using False v k unfolding r by simp
    next
      case True
      from Cons.prems v True obtain d ds' where d: "with_std_dev (sv_changed a) ty results (make_datum a name v) = Inr d"
        "collect a rest = Inr ds'" "ds = d # ds'"
        unfolding r by (auto simp: rbind_eq_Inr)
      obtain os where os: "tried waits os" "os = map net [requests trace..<requests trace + length os]"
        "send net d (sv_url a) trace = (Inr (if last os = Answer then 0 else 1), trace @ tries (sv_url a) d waits os)"
      proof -
        have "send net d (sv_url a) trace = send_loop net (sv_url a) d waits trace" by (simp only: send_def waits_def)
        then show ?thesis using that send_loop_tries [of net waits trace "sv_url a" d] net by metis
      qed
      let ?t = "trace @ tries (sv_url a) d waits os" and ?c = "if last os = Answer then 0 else 1 :: nat"
      have one: "sends net (requests trace) [(sv_url a, d)] [os]" "all_tries [(sv_url a, d)] [os] = tries (sv_url a) d waits os"
        using os(1,2) by (simp_all add: sends_def all_tries_def)
      obtain oss where oss: "sends net (requests ?t) (map (Pair (sv_url a)) ds') oss"
        "save_loop net a rest (if error = 0 then ?c else 1) testparams ?t =
          (if \<not> list_all known rest then Inr (Code 1)
           else if (if error = 0 then ?c else 1) \<noteq> 0 \<or> refused oss then Inl IOError else Inr (Code 0), ?t @ all_tries (map (Pair (sv_url a)) ds') oss)"
        using Cons.IH [OF d(2)] by blast
      have "sends net (requests trace) ([(sv_url a, d)] @ map (Pair (sv_url a)) ds') ([os] @ oss) \<and>
          all_tries ([(sv_url a, d)] @ map (Pair (sv_url a)) ds') ([os] @ oss) = tries (sv_url a) d waits os @ all_tries (map (Pair (sv_url a)) ds') oss"
        using sends_append [OF one(1)] oss(1) by (simp add: one(2))
      moreover have "save_loop net a (r # rest) error testparams trace =
          save_loop net a rest (if error = 0 then ?c else 1) testparams ?t"
        using v True d(1) os(3) assms(2) unfolding r by simp
      moreover have "last os = URLError \<longleftrightarrow> last os \<noteq> Answer" using os(1) by (auto simp: tried_def)
      ultimately show ?thesis
        using oss(2) d(3) k by (intro exI [of _ "os # oss"]) (auto simp: refused_def)
    qed
  qed
qed


section \<open>Uploading\<close>

lemma collect_url: "collect (a\<lparr>sv_url := url\<rparr>) results = collect a results"
proof -
  have "make_datum (a\<lparr>sv_url := url\<rparr>) = make_datum a" by (intro ext) (simp add: make_datum_def)
  then show ?thesis
  proof (induction results)
    case (Cons r rest)
    obtain name ty res where "r = (name, ty, res)" by (cases r)
    then show ?case using Cons by (simp add: rbind_def split: sum.split option.split)
  qed simp
qed

lemma upload_urls_sends:
  assumes net: "answers net" and data: "collect (upload_args u r host []) results = Inr ds"
  shows "\<exists>oss es. sends net (requests trace) (concat (map (\<lambda>url. map (Pair url) ds) urls)) oss \<and>
    upload_urls net u r host results urls errors trace =
      (Inr (errors @ es), trace @ all_tries (concat (map (\<lambda>url. map (Pair url) ds) urls)) oss) \<and>
    (es \<noteq> [] \<longleftrightarrow> refused oss \<and> list_all known results) \<and> set es \<subseteq> {IOError}"
proof (induction urls arbitrary: errors trace)
  case Nil
  show ?case using sends_Nil by (intro exI [of _ "[]"]) (auto simp: refused_def)
next
  case (Cons url urls)
  let ?a = "upload_args u r host url" and ?reqs = "map (Pair url) ds"
  let ?rest = "concat (map (\<lambda>url. map (Pair url) ds) urls)"
  have "?a = (upload_args u r host [])\<lparr>sv_url := url\<rparr>" by (simp add: upload_args_def)
  then have c: "collect ?a results = Inr ds" using data by (simp add: collect_url)
  have a: "sv_testing ?a = False" "sv_url ?a = url" by (simp_all add: upload_args_def)
  from save_loop_sends [where trace = trace and error = 0 and testparams = "[]", OF net a(1) c] a(2) obtain oss where
    oss: "sends net (requests trace) ?reqs oss"
      "save net ?a results trace = (if \<not> list_all known results then Inr (Code 1)
         else if refused oss then Inl IOError else Inr (Code 0), trace @ all_tries ?reqs oss)"
    by (auto simp: save_def)
  let ?t = "trace @ all_tries ?reqs oss" and ?es = "if refused oss \<and> list_all known results then [IOError] else []"
  from Cons.IH [of ?t "errors @ ?es"] obtain oss' es where oss':
    "sends net (requests ?t) ?rest oss'"
    "upload_urls net u r host results urls (errors @ ?es) ?t = (Inr ((errors @ ?es) @ es), ?t @ all_tries ?rest oss')"
    "es \<noteq> [] \<longleftrightarrow> refused oss' \<and> list_all known results" "set es \<subseteq> {IOError}" by blast
  have "sends net (requests trace) (?reqs @ ?rest) (oss @ oss') \<and>
      all_tries (?reqs @ ?rest) (oss @ oss') = all_tries ?reqs oss @ all_tries ?rest oss'"
    using sends_append [OF oss(1)] oss'(1) by simp
  moreover have "upload_urls net u r host results (url # urls) errors trace =
      upload_urls net u r host results urls (errors @ ?es) ?t"
    using oss(2) by simp
  moreover have "refused (oss @ oss') \<longleftrightarrow> refused oss \<or> refused oss'" by (auto simp: refused_def)
  ultimately show ?case using oss'(2-4)
    by (intro exI [of _ "oss @ oss'"] exI [of _ "?es @ es"]) auto
qed

text \<open>The runs whose results are uploaded, and the requests that takes, in their order.\<close>

definition enabled :: "upload_opts \<times> upload_opts \<Rightarrow> (run \<times> upload_opts) list" where
  "enabled opts = filter (\<lambda>(r, u). opt_truthy (up_upload u)) [(CHANGED, fst opts), (BASELINE, snd opts)]"

definition the_host :: "optval \<Rightarrow> string \<Rightarrow> optval" where
  "the_host force_host hostname = (if opt_truthy force_host then force_host else OStr hostname)"

lemma upload_run_sends:
  assumes net: "answers net"
    and data: "opt_truthy (up_upload u) \<Longrightarrow> collect (upload_args u r host []) results = Inr ds"
  shows "\<exists>oss es. let reqs = (if opt_truthy (up_upload u) then concat (map (\<lambda>url. map (Pair url) ds) (up_urls u)) else []) in
    sends net (requests trace) reqs oss \<and>
    upload_run net u r host results errors trace = (Inr (errors @ es), trace @ all_tries reqs oss) \<and>
    (es \<noteq> [] \<longleftrightarrow> refused oss \<and> list_all known results) \<and> set es \<subseteq> {IOError}"
proof (cases "opt_truthy (up_upload u)")
  case True
  then show ?thesis using upload_urls_sends [OF net data [OF True]] by (simp add: upload_run_def Let_def)
next
  case False
  then show ?thesis using sends_Nil
    by (intro exI [of _ "[]"]) (auto simp: upload_run_def refused_def Let_def)
qed

section \<open>What is to be sent\<close>

text \<open>Where the value of a result stands, by its type, for the changed and for the base interpreter.\<close>

definition value_key :: "run \<Rightarrow> string \<Rightarrow> string option" where
  "value_key r = map_of (case r of
     CHANGED \<Rightarrow> [(''SimpleComparisonResult'', ''changed_time''), (''ComparisonResult'', ''avg_changed''), (''RawResult'', ''changed_times'')]
   | BASELINE \<Rightarrow> [(''SimpleComparisonResult'', ''base_time''), (''ComparisonResult'', ''avg_base''), (''RawResult'', ''base_times'')])"

definition deviation_key :: "run \<Rightarrow> string" where
  "deviation_key r = (case r of CHANGED \<Rightarrow> ''std_changed'' | BASELINE \<Rightarrow> ''std_base'')"

definition stored :: "run \<Rightarrow> string \<Rightarrow> (string \<rightharpoonup> jval) \<Rightarrow> jval option" where
  "stored r ty results = Option.bind (value_key r ty) results"

text \<open>
  A result has the value of its type; raw times are one time or none, and a comparison has its
  standard deviation.
\<close>

definition well_formed :: "run \<Rightarrow> bench_result \<Rightarrow> bool" where
  "well_formed r = (\<lambda>(name, ty, results). \<exists>v. stored r ty results = Some v \<and>
     (ty = ''RawResult'' \<longrightarrow> \<not> truthy v \<or> (\<exists>x. v = JList [x])) \<and>
     (ty = ''ComparisonResult'' \<longrightarrow> results (deviation_key r) \<noteq> None))"

text \<open>The one time of the raw ones, and for the other types the value itself.\<close>

definition measured :: "run \<Rightarrow> string \<Rightarrow> (string \<rightharpoonup> jval) \<Rightarrow> jval" where
  "measured r ty results = (case stored r ty results of
     Some v \<Rightarrow> (case v of JList [x] \<Rightarrow> if ty = ''RawResult'' then x else v | _ \<Rightarrow> v)
   | None \<Rightarrow> JNone)"

text \<open>The datum of a result, and none where the benchmark was skipped.\<close>

definition datum_of :: "upload_opts \<Rightarrow> optval \<Rightarrow> run \<Rightarrow> bench_result \<Rightarrow> datum option" where
  "datum_of u host r = (\<lambda>(name, ty, results).
     if truthy (measured r ty results)
     then Some \<lparr>commitid = up_revision u, project = up_project u, executable = up_executable u, benchmark = name,
       environment = host, result_value = measured r ty results,
       branch = (if opt_truthy (up_branch u) then up_branch u else OStr ''default''),
       std_dev = (if ty = ''ComparisonResult'' then results (deviation_key r) else None)\<rparr>
     else None)"

definition sent_data :: "upload_opts \<Rightarrow> optval \<Rightarrow> run \<Rightarrow> bench_result list \<Rightarrow> datum list" where
  "sent_data u host r results = List.map_filter (datum_of u host r) (takeWhile known results)"

definition all_requests :: "upload_opts \<times> upload_opts \<Rightarrow> optval \<Rightarrow> bench_result list \<Rightarrow> req list" where
  "all_requests opts host results =
     concat (map (\<lambda>(r, u). concat (map (\<lambda>url. map (Pair url) (sent_data u host r results)) (up_urls u))) (enabled opts))"

lemma well_formed_value:
  assumes "well_formed r (name, ty, results)" and "known (name, ty, results)"
  shows "bench_value (r = CHANGED) ty results = Inr (Some (measured r ty results))"
    and "with_std_dev (r = CHANGED) ty results d =
      Inr (d\<lparr>std_dev := if ty = ''ComparisonResult'' then results (deviation_key r) else std_dev d\<rparr>)"
proof -
  obtain v where v: "stored r ty results = Some v" "ty = ''RawResult'' \<longrightarrow> \<not> truthy v \<or> (\<exists>x. v = JList [x])"
    "ty = ''ComparisonResult'' \<longrightarrow> results (deviation_key r) \<noteq> None"
    using assms(1) by (auto simp: well_formed_def)
  consider "ty = ''SimpleComparisonResult''" | "ty = ''ComparisonResult''" | "ty = ''RawResult''"
    using assms(2) by (auto simp: known_def)
  then show "bench_value (r = CHANGED) ty results = Inr (Some (measured r ty results))"
  proof cases
    case 1
    then have "measured r ty results = v" using v(1) by (simp add: measured_def split: jval.split list.split)
    then show ?thesis using 1 v(1) by (cases r) (simp_all add: bench_value_def stored_def value_key_def dict_get_def)
  next
    case 2
    then have "measured r ty results = v" using v(1) by (simp add: measured_def split: jval.split list.split)
    then show ?thesis using 2 v(1) by (cases r) (simp_all add: bench_value_def stored_def value_key_def dict_get_def)
  next
    case 3
    have k: "dict_get results (if r = CHANGED then ''changed_times'' else ''base_times'') = Inr v"
      using 3 v(1) by (cases r) (simp_all add: stored_def value_key_def dict_get_def)
    have "\<not> truthy v \<or> (\<exists>x. v = JList [x])" using v(2) 3 by simp
    then show ?thesis
    proof
      assume f: "\<not> truthy v"
      then have "measured r ty results = v" using v(1) by (auto simp: measured_def truthy_def split: jval.split list.split)
      then show ?thesis using 3 k f by (simp add: bench_value_def)
    next
      assume "\<exists>x. v = JList [x]"
      then show ?thesis using 3 k v(1) by (auto simp: bench_value_def measured_def truthy_def)
    qed
  qed
  show "with_std_dev (r = CHANGED) ty results d =
      Inr (d\<lparr>std_dev := if ty = ''ComparisonResult'' then results (deviation_key r) else std_dev d\<rparr>)"
    using v(3) by (cases r) (auto simp: with_std_dev_def deviation_key_def dict_get_def)
qed

lemma collect_sent:
  assumes "\<And>b. b \<in> set (takeWhile known results) \<Longrightarrow> well_formed r b"
  shows "collect (upload_args u r host url) results = Inr (sent_data u host r results)"
  using assms
proof (induction results)
  case Nil
  then show ?case by (simp add: sent_data_def)
next
  case (Cons b rest)
  obtain name ty results where b: "b = (name, ty, results)" by (cases b)
  show ?case
  proof (cases "known b")
    case False
    then show ?thesis by (simp add: b sent_data_def known_def bench_value_def)
  next
    case True
    then have w: "well_formed r (name, ty, results)" using Cons.prems [of b] b by simp
    have IH: "collect (upload_args u r host url) rest = Inr (sent_data u host r rest)"
      using Cons.IH Cons.prems True by simp
    have s: "sent_data u host r (b # rest) = (case datum_of u host r b of None \<Rightarrow> [] | Some d \<Rightarrow> [d]) @ sent_data u host r rest"
      using True by (simp add: sent_data_def List.map_filter_simps split: option.split)
    have a: "sv_changed (upload_args u r host url) = (r = CHANGED)" by (simp add: upload_args_def)
    show ?thesis
      unfolding s using IH a well_formed_value [OF w True [unfolded b]]
      by (auto simp: b datum_of_def make_datum_def upload_args_def)
  qed
qed

section \<open>What reaches the network\<close>

text \<open>\<open>grows P trace trace'\<close>: what was done in between is waiting and requests with \<open>P\<close>.\<close>

definition grows :: "(string \<Rightarrow> datum \<Rightarrow> bool) \<Rightarrow> event list \<Rightarrow> event list \<Rightarrow> bool" where
  "grows P trace trace' \<longleftrightarrow> (\<exists>evs. trace' = trace @ evs \<and> (\<forall>u d a. Posted u d a \<in> set evs \<longrightarrow> P u d))"

lemma grows_refl [simp]: "grows P trace trace"
  by (simp add: grows_def)

lemma grows_trans: "grows P s t \<Longrightarrow> grows P t u \<Longrightarrow> grows P s u"
  by (fastforce simp: grows_def)

lemma grows_mono: "grows P s t \<Longrightarrow> (\<And>u d. P u d \<Longrightarrow> Q u d) \<Longrightarrow> grows Q s t"
  by (fastforce simp: grows_def)

lemma send_loop_grows: "P url d \<Longrightarrow> grows P trace (snd (send_loop net url d ts trace))"
proof (induction ts arbitrary: trace)
  case Nil
  then show ?case by (auto simp: send_loop.simps grows_def Let_def split: outcome.split)
next
  case (Cons t ts)
  show ?case
  proof (cases "net (requests trace)")
    case URLError
    have "grows P trace (trace @ [Posted url d URLError, Slept t])" using Cons.prems by (simp add: grows_def)
    from grows_trans [OF this Cons.IH [OF Cons.prems]] show ?thesis
      using URLError by (simp add: send_loop.simps [of net url d "t # ts"])
  qed (use Cons.prems in \<open>auto simp: send_loop.simps grows_def\<close>)
qed

definition datum_for :: "save_args \<Rightarrow> datum \<Rightarrow> bool" where
  "datum_for a d \<longleftrightarrow> commitid d = sv_revision a \<and> project d = sv_project a \<and> executable d = sv_executable a \<and>
     environment d = sv_host a \<and> branch d = sv_branch a"

lemma save_loop_grows:
  "grows (\<lambda>u d. u = sv_url a \<and> datum_for a d) trace (snd (save_loop net a results error testparams trace))"
proof (induction results arbitrary: error testparams trace)
  case Nil
  then show ?case by simp
next
  case (Cons r rest)
  obtain name ty results where r: "r = (name, ty, results)" by (cases r)
  show ?case
  proof (cases "bench_value (sv_changed a) ty results")
    case (Inl e)
    then show ?thesis by (simp add: r)
  next
    case (Inr opt)
    show ?thesis
    proof (cases opt)
      case None
      then show ?thesis using Inr by (simp add: r)
    next
      case (Some v)
      show ?thesis
      proof (cases "with_std_dev (sv_changed a) ty results (make_datum a name v)")
        case (Inl e)
        then show ?thesis using Inr Some Cons.IH by (simp add: r)
      next
        case d: (Inr d)
        have f: "datum_for a d" using d
          by (auto simp: with_std_dev_def datum_for_def make_datum_def rbind_eq_Inr split: if_splits)
        have g: "grows (\<lambda>u d. u = sv_url a \<and> datum_for a d) trace (snd (send net d (sv_url a) trace))"
          unfolding send_def by (rule send_loop_grows) (simp add: f)
        obtain c t where ct: "send net d (sv_url a) trace = (c, t)" by (cases "send net d (sv_url a) trace")
        have n: "grows (\<lambda>u d. u = sv_url a \<and> datum_for a d) trace (snd (save_loop net a rest e tp t))" for e tp
          by (rule grows_trans [OF _ Cons.IH]) (use g ct in simp)
        show ?thesis using Inr Some d ct Cons.IH n g by (auto simp: r split: sum.split)
      qed
    qed
  qed
qed

lemma upload_urls_grows:
  "grows (\<lambda>url d. url \<in> set urls \<and> datum_for (upload_args u r host url) d) trace
     (snd (upload_urls net u r host results urls errors trace))"
proof (induction urls arbitrary: errors trace)
  case Nil
  then show ?case by simp
next
  case (Cons url urls)
  obtain c t where ct: "save net (upload_args u r host url) results trace = (c, t)"
    by (cases "save net (upload_args u r host url) results trace")
  let ?P = "\<lambda>x d. x \<in> set (url # urls) \<and> datum_for (upload_args u r host x) d"
  have "grows (\<lambda>x d. x = url \<and> datum_for (upload_args u r host url) d) trace t"
    using save_loop_grows [of "upload_args u r host url" trace net results 0 "[]"] ct
    by (simp add: save_def upload_args_def)
  then have g: "grows ?P trace t" by (rule grows_mono) auto
  have "grows ?P t (snd (upload_urls net u r host results urls errors t))" for errors
    by (rule grows_mono [OF Cons.IH]) auto
  then have "grows ?P trace (snd (upload_urls net u r host results urls errors t))" for errors
    using grows_trans [OF g] by blast
  then show ?case using g ct by (auto split: sum.split)
qed

lemma upload_run_grows:
  "grows (\<lambda>url d. opt_truthy (up_upload u) \<and> url \<in> set (up_urls u) \<and> datum_for (upload_args u r host url) d) trace
     (snd (upload_run net u r host results errors trace))"
proof (cases "opt_truthy (up_upload u)")
  case True
  then show ?thesis using upload_urls_grows [of "up_urls u" u r host trace net results errors] by (simp add: upload_run_def)
next
  case False
  then show ?thesis by (simp add: upload_run_def)
qed

lemma strip_strip: "strip (strip s) = strip s"
proof -
  have d: "dropWhile is_space xs = xs" if "xs = [] \<or> \<not> is_space (hd xs)" for xs :: string using that by (cases xs) auto
  have a: "dropWhile is_space t = [] \<or> \<not> is_space (hd (dropWhile is_space t))" for t
    using hd_dropWhile [of is_space t] by auto
  define t where "t = dropWhile is_space s"
  define w where "w = dropWhile is_space (rev t)"
  have s: "strip s = rev w" by (simp add: strip_def t_def w_def)
  have "rev t = takeWhile is_space (rev t) @ w" by (simp add: w_def)
  then have t: "t = rev w @ rev (takeWhile is_space (rev t))" by (metis rev_append rev_rev_ident)
  have "dropWhile is_space (rev w) = rev w"
  proof (rule d)
    show "rev w = [] \<or> \<not> is_space (hd (rev w))"
    proof (cases "rev w = []")
      case False
      then have "hd t = hd (rev w)" "t \<noteq> []" using t by (metis hd_append2, metis append_is_Nil_conv)
      moreover have "t = [] \<or> \<not> is_space (hd t)" unfolding t_def by (rule a)
      ultimately show ?thesis by simp
    qed simp
  qed
  moreover have "dropWhile is_space w = w" using a [of "rev t"] by (intro d) (simp add: w_def)
  ultimately show ?thesis unfolding s by (simp add: strip_def)
qed

text \<open>What the options of an enabled run are checked for.\<close>

definition checked :: "upload_opts \<Rightarrow> bool" where
  "checked u \<longleftrightarrow> (\<forall>url \<in> set (up_urls u). url \<noteq> [] \<and> strip url = url) \<and>
     (opt_truthy (up_upload u) \<longrightarrow> up_executable u \<noteq> ONone \<and> up_revision u \<noteq> ONone)"

lemma run_options_checked:
  assumes "run_options opts r = Inr u"
  shows "checked u \<and> (opt_truthy (up_upload u) \<longrightarrow> uses_nullpython opts r = Inr False)"
proof -
  obtain v urls where v: "split_urls v = Inr urls"
    and u: "up_urls u = urls" "opt_truthy (up_upload u) \<longrightarrow> up_executable u \<noteq> ONone \<and> up_revision u \<noteq> ONone \<and> uses_nullpython opts r = Inr False"
    using assms by (auto simp: run_options_def rbind_eq_Inr Let_def split: if_splits)
  have "\<forall>url \<in> set urls. url \<noteq> [] \<and> strip url = url"
    using v by (auto simp: split_urls_def strip_strip split: optval.splits)
  then show ?thesis using u by (simp add: checked_def)
qed

section \<open>Properties\<close>

text \<open>
  C39: When the network either answers or refuses and the results of the known types have their values,
  every enabled run sends to every one of its urls, in order, the data of the results up to the first one of
  an unknown type, such as an error; results with no value are skipped. Each datum is tried until there is an
  answer, five times at most, with waits of 1, 3, 6 and 20 seconds between, and one that is never accepted does
  not keep the rest from being sent. The upload ends with an \<open>IOError\<close> exactly if a datum was refused five
  times and there is no result of an unknown type: such a result makes \<open>save\<close> return at once, and what
  was refused is forgotten.
\<close>

theorem uploads_complete:
  assumes net: "answers net"
    and data: "\<And>r u b. (r, u) \<in> set (enabled opts) \<Longrightarrow> b \<in> set (takeWhile known results) \<Longrightarrow> well_formed r b"
  shows "\<exists>oss. sends net (requests trace) (all_requests opts (the_host force_host hostname) results) oss \<and>
    upload_results net opts force_host hostname results trace =
      (if refused oss \<and> list_all known results then Inl IOError else Inr (),
       trace @ all_tries (all_requests opts (the_host force_host hostname) results) oss)"
proof -
  let ?host = "the_host force_host hostname"
  let ?ds = "\<lambda>r u. sent_data u ?host r results"
  let ?reqs = "\<lambda>r u. if opt_truthy (up_upload u) then concat (map (\<lambda>url. map (Pair url) (?ds r u)) (up_urls u)) else []"
  have c: "opt_truthy (up_upload (fst opts)) \<Longrightarrow> collect (upload_args (fst opts) CHANGED ?host []) results = Inr (?ds CHANGED (fst opts))"
    and b: "opt_truthy (up_upload (snd opts)) \<Longrightarrow> collect (upload_args (snd opts) BASELINE ?host []) results = Inr (?ds BASELINE (snd opts))"
    by (rule collect_sent, rule data, auto simp: enabled_def)+
  have all: "all_requests opts ?host results = ?reqs CHANGED (fst opts) @ ?reqs BASELINE (snd opts)"
    by (simp add: all_requests_def enabled_def)
  from upload_run_sends [where errors = "[]" and trace = trace, OF net c] obtain oss es where
    o1: "sends net (requests trace) (?reqs CHANGED (fst opts)) oss"
      "upload_run net (fst opts) CHANGED ?host results [] trace = (Inr es, trace @ all_tries (?reqs CHANGED (fst opts)) oss)"
      "es \<noteq> [] \<longleftrightarrow> refused oss \<and> list_all known results" "set es \<subseteq> {IOError}" unfolding Let_def append_Nil by metis
  let ?t = "trace @ all_tries (?reqs CHANGED (fst opts)) oss"
  from upload_run_sends [where errors = es and trace = ?t, OF net b] obtain oss' es' where
    o2: "sends net (requests ?t) (?reqs BASELINE (snd opts)) oss'"
      "upload_run net (snd opts) BASELINE ?host results es ?t = (Inr (es @ es'), ?t @ all_tries (?reqs BASELINE (snd opts)) oss')"
      "es' \<noteq> [] \<longleftrightarrow> refused oss' \<and> list_all known results" "set es' \<subseteq> {IOError}" unfolding Let_def by metis
  have s: "sends net (requests trace) (all_requests opts ?host results) (oss @ oss') \<and>
      all_tries (all_requests opts ?host results) (oss @ oss') =
        all_tries (?reqs CHANGED (fst opts)) oss @ all_tries (?reqs BASELINE (snd opts)) oss'"
    unfolding all by (rule sends_append [OF o1(1)]) (use o2(1) in simp)
  have r: "refused (oss @ oss') \<and> list_all known results \<longleftrightarrow> es @ es' \<noteq> []" using o1(3) o2(3) by (auto simp: refused_def)
  have h: "hd (es @ es') = IOError" if "es @ es' \<noteq> []"
  proof -
    have "hd (es @ es') \<in> set (es @ es')" using that by (rule hd_in_set)
    then show ?thesis using o1(4) o2(4) by auto
  qed
  have "upload_results net opts force_host hostname results trace =
      (if es @ es' \<noteq> [] then Inl (hd (es @ es')) else Inr (), ?t @ all_tries (?reqs BASELINE (snd opts)) oss')"
    using o1(2) o2(2) by (simp only: upload_results_def the_host_def Let_def prod.case sum.case)
  also have "(if es @ es' \<noteq> [] then Inl (hd (es @ es')) else Inr ()) =
      (if refused (oss @ oss') \<and> list_all known results then Inl IOError else Inr ())"
    using r h by simp
  finally show ?thesis using s by (intro exI [of _ "oss @ oss'"]) simp
qed

text \<open>A run to be uploaded, one that is not, and results of each type, the last of them an error.\<close>

definition sample_opts :: "upload_opts \<times> upload_opts" where
  "sample_opts =
    (\<lparr>up_upload = OBool True, up_project = OStr ''PyPy'', up_executable = OStr ''pypy-c'', up_urls = [''https://a/''],
       up_branch = ONone, up_revision = OStr ''7''\<rparr>,
     \<lparr>up_upload = ONone, up_project = OStr ''PyPy'', up_executable = ONone, up_urls = [''https://a/''],
       up_branch = ONone, up_revision = ONone\<rparr>)"

definition sample_results :: "bench_result list" where
  "sample_results =
    [(''ai'', ''SimpleComparisonResult'', [''changed_time'' \<mapsto> JNum 2, ''base_time'' \<mapsto> JNum 3]),
     (''float'', ''ComparisonResult'', [''avg_changed'' \<mapsto> JNum 4, ''std_changed'' \<mapsto> JNum 1]),
     (''go'', ''RawResult'', [''changed_times'' \<mapsto> JList [JNum 5]]),
     (''chaos'', ''RawResult'', [''changed_times'' \<mapsto> JNone]),
     (''pidigits'', ''ResultError'', Map.empty),
     (''nbody'', ''SimpleComparisonResult'', [''changed_time'' \<mapsto> JNum 6])]"

definition sample_datum :: "string \<Rightarrow> rat \<Rightarrow> jval option \<Rightarrow> datum" where
  "sample_datum name x dev = \<lparr>commitid = OStr ''7'', project = OStr ''PyPy'', executable = OStr ''pypy-c'', benchmark = name,
     environment = OStr ''tannit'', result_value = JNum x, branch = OStr ''default'', std_dev = dev\<rparr>"

theorem uploads_complete_witness:
  "\<exists>oss. sends (\<lambda>k. if k < 5 then URLError else Answer) 0
     [(''https://a/'', sample_datum ''ai'' 2 None), (''https://a/'', sample_datum ''float'' 4 (Some (JNum 1))),
      (''https://a/'', sample_datum ''go'' 5 None)] oss \<and>
   upload_results (\<lambda>k. if k < 5 then URLError else Answer) sample_opts ONone ''tannit'' sample_results [] =
     (Inr (), all_tries
       [(''https://a/'', sample_datum ''ai'' 2 None), (''https://a/'', sample_datum ''float'' 4 (Some (JNum 1))),
        (''https://a/'', sample_datum ''go'' 5 None)] oss)"
  (is "\<exists>oss. sends ?net 0 ?reqs oss \<and> _")
proof -
  have net: "answers ?net" by (simp add: answers_def)
  have w: "well_formed r b" if "(r, u) \<in> set (enabled sample_opts)" "b \<in> set (takeWhile known sample_results)" for r u b
    using that
    by (auto simp: enabled_def sample_opts_def sample_results_def opt_truthy_def known_def well_formed_def stored_def value_key_def
        truthy_def deviation_key_def)
  have "all_requests sample_opts (the_host ONone ''tannit'') sample_results = ?reqs"
    by (simp add: all_requests_def enabled_def sample_opts_def sample_results_def opt_truthy_def the_host_def sent_data_def
        known_def List.map_filter_simps datum_of_def measured_def stored_def value_key_def deviation_key_def truthy_def sample_datum_def)
  moreover have "\<not> list_all known sample_results" by (simp add: sample_results_def known_def)
  ultimately show ?thesis
    using uploads_complete [of ?net sample_opts sample_results "[]" ONone "''tannit''", OF net w] by simp
qed

text \<open>
  C40: Whatever the network does and whatever the results are, when the options were accepted every request
  goes to a url of a run that is to be uploaded and does not use the dummy interpreter, which is neither empty
  nor has white space around it, and carries the executable and the revision of that run, which are given;
  the branch is never empty.
\<close>

theorem uploads_checked:
  assumes "get_upload_options options = Inr opts"
  shows "\<exists>evs. snd (upload_results net opts force_host hostname results trace) = trace @ evs \<and>
    (\<forall>url d a. Posted url d a \<in> set evs \<longrightarrow> url \<noteq> [] \<and> strip url = url \<and> executable d \<noteq> ONone \<and> commitid d \<noteq> ONone \<and>
       opt_truthy (branch d) \<and>
       (\<exists>r u. u = (case r of CHANGED \<Rightarrow> fst opts | BASELINE \<Rightarrow> snd opts) \<and> opt_truthy (up_upload u) \<and>
          uses_nullpython options r = Inr False \<and> url \<in> set (up_urls u) \<and> executable d = up_executable u \<and> commitid d = up_revision u))"
proof -
  obtain c b where cb: "opts = (c, b)" by (cases opts)
  obtain options' where o: "run_options options' CHANGED = Inr c" "run_options options' BASELINE = Inr b"
    "\<And>r. uses_nullpython options' r = uses_nullpython options r"
    using assms cb by (auto simp: get_upload_options_def rbind_eq_Inr uses_nullpython_def getattr_def split: if_splits)
  let ?P = "\<lambda>url d. url \<noteq> [] \<and> strip url = url \<and> executable d \<noteq> ONone \<and> commitid d \<noteq> ONone \<and> opt_truthy (branch d) \<and>
    (\<exists>r u. u = (case r of CHANGED \<Rightarrow> fst opts | BASELINE \<Rightarrow> snd opts) \<and> opt_truthy (up_upload u) \<and>
          uses_nullpython options r = Inr False \<and> url \<in> set (up_urls u) \<and> executable d = up_executable u \<and> commitid d = up_revision u)"
  have run: "grows ?P t (snd (upload_run net u r host results errors t))"
    if u: "u = (case r of CHANGED \<Rightarrow> fst opts | BASELINE \<Rightarrow> snd opts)" for u r host errors t
  proof (rule grows_mono [OF upload_run_grows])
    fix url d assume p: "opt_truthy (up_upload u) \<and> url \<in> set (up_urls u) \<and> datum_for (upload_args u r host url) d"
    have "run_options options' r = Inr u" using o(1,2) u cb by (cases r) simp_all
    from run_options_checked [OF this] p o(3) u show "?P url d"
      by (auto simp: checked_def datum_for_def upload_args_def opt_truthy_def)
  qed
  have "grows ?P trace (snd (upload_results net opts force_host hostname results trace))"
  proof -
    let ?host = "if opt_truthy force_host then force_host else OStr hostname"
    obtain x t where x: "upload_run net (fst opts) CHANGED ?host results [] trace = (x, t)"
      by (cases "upload_run net (fst opts) CHANGED ?host results [] trace")
    have t: "grows ?P trace t" using run [of "fst opts" CHANGED trace ?host "[]"] x by simp
    have two: "grows ?P trace (snd (upload_run net (snd opts) BASELINE ?host results errors t))" for errors
      by (rule grows_trans [OF t], rule run) simp
    show ?thesis
    proof (cases x)
      case (Inl e)
      then show ?thesis using x t by (simp add: upload_results_def Let_def)
    next
      case (Inr errors)
      obtain y z where y: "upload_run net (snd opts) BASELINE ?host results errors t = (y, z)"
        by (cases "upload_run net (snd opts) BASELINE ?host results errors t")
      then have z: "grows ?P trace z" using two [of errors] by simp
      have "snd (upload_results net opts force_host hostname results trace) = z"
        using x y Inr by (cases y) (simp_all add: upload_results_def Let_def)
      then show ?thesis using z by (simp only:)
    qed
  qed
  then show ?thesis by (simp add: grows_def)
qed


theorem uploads_checked_witness:
  "\<exists>opts. get_upload_options [''upload'' \<mapsto> OBool True, ''upload_urls'' \<mapsto> OStr '' https://a/ ,'', ''upload_project'' \<mapsto> OStr ''PyPy'',
     ''upload_executable'' \<mapsto> OStr ''pypy-c'', ''upload_branch'' \<mapsto> OStr ''default'', ''upload_revision'' \<mapsto> OStr ''7'',
     ''upload_baseline'' \<mapsto> ONone, ''upload_baseline_urls'' \<mapsto> OStr ''https://a/'', ''upload_baseline_project'' \<mapsto> OStr ''PyPy'',
     ''upload_baseline_executable'' \<mapsto> ONone, ''upload_baseline_branch'' \<mapsto> OStr ''default'', ''upload_baseline_revision'' \<mapsto> ONone,
     ''changed'' \<mapsto> OStr ''pypy-c'', ''baseline'' \<mapsto> OStr ''python''] = Inr opts \<and>
   up_urls (fst opts) = [''https://a/''] \<and>
   (\<exists>evs. snd (upload_results (\<lambda>k. Answer) opts ONone ''tannit'' [(''ai'', ''SimpleComparisonResult'', [''changed_time'' \<mapsto> JNum 2])] []) = evs)"
proof -
  let ?o = "[''upload'' \<mapsto> OBool True, ''upload_urls'' \<mapsto> OStr '' https://a/ ,'', ''upload_project'' \<mapsto> OStr ''PyPy'',
     ''upload_executable'' \<mapsto> OStr ''pypy-c'', ''upload_branch'' \<mapsto> OStr ''default'', ''upload_revision'' \<mapsto> OStr ''7'',
     ''upload_baseline'' \<mapsto> ONone, ''upload_baseline_urls'' \<mapsto> OStr ''https://a/'', ''upload_baseline_project'' \<mapsto> OStr ''PyPy'',
     ''upload_baseline_executable'' \<mapsto> ONone, ''upload_baseline_branch'' \<mapsto> OStr ''default'', ''upload_baseline_revision'' \<mapsto> ONone,
     ''changed'' \<mapsto> OStr ''pypy-c'', ''baseline'' \<mapsto> OStr ''python'']"
  let ?c = "\<lparr>up_upload = OBool True, up_project = OStr ''PyPy'', up_executable = OStr ''pypy-c'', up_urls = [''https://a/''],
    up_branch = OStr ''default'', up_revision = OStr ''7''\<rparr>"
  let ?b = "\<lparr>up_upload = ONone, up_project = OStr ''PyPy'', up_executable = ONone, up_urls = [''https://a/''],
    up_branch = OStr ''default'', up_revision = OStr ''7''\<rparr>"
  have "get_upload_options ?o = Inr (?c, ?b)" by code_simp
  from uploads_checked [OF this, of "\<lambda>k. Answer" ONone "''tannit''" "[(''ai'', ''SimpleComparisonResult'', [''changed_time'' \<mapsto> JNum 2])]" "[]"]
  show ?thesis using \<open>get_upload_options ?o = Inr (?c, ?b)\<close> by (intro exI [of _ "(?c, ?b)"]) auto
qed

end
