(* ===== verification/Fannkuch.thy ===== *)
theory Fannkuch
  imports PyPrelude
begin

text \<open>
  \<open>own/fannkuch.py\<close>: the function \<open>fannkuch\<close>, which goes through the permutations of \<open>range(n)\<close> by rotating
  prefixes and counts for each how often a prefix can be reversed, as long as the first number says, before
  the first number is 0. The loops of the program that are not bounded by themselves are partial functions:
  \<open>None\<close> is not returning.
\<close>

section \<open>List operations\<close>

text \<open>\<open>perm[:k+1] = perm[k::-1]\<close>.\<close>

definition flip_prefix :: "nat \<Rightarrow> nat list \<Rightarrow> nat list" where
  "flip_prefix k perm = rev (take (k + 1) perm) @ drop (k + 1) perm"

text \<open>\<open>xs.insert(i, x)\<close>: a negative index counts from the end, one out of range is moved to an end.\<close>

definition py_insert :: "int \<Rightarrow> 'a \<Rightarrow> 'a list \<Rightarrow> 'a list" where
  "py_insert i x xs =
     (let n = int (length xs); j = nat (if i < 0 then max 0 (i + n) else min i n) in take j xs @ x # drop j xs)"

section \<open>The loops\<close>

text \<open>\<open>while k\<close>: \<open>k\<close> is the first number of the permutation.\<close>

partial_function (option) flip_loop :: "nat list \<Rightarrow> nat \<Rightarrow> nat result option" where
  "flip_loop perm flips_count =
     (case lget perm 0 of
        Inl e \<Rightarrow> Some (Inl e)
      | Inr k \<Rightarrow> if k = 0 then Some (Inr flips_count) else flip_loop (flip_prefix k perm) (flips_count + 1))"

text \<open>The flips of \<open>perm1\<close>, where its first and its last number are not in their places.\<close>

definition visit :: "int \<Rightarrow> nat list \<Rightarrow> nat \<Rightarrow> nat result option" where
  "visit m perm1 max_flips =
     (case lget perm1 0 of
        Inl e \<Rightarrow> Some (Inl e)
      | Inr x \<Rightarrow>
          if x = 0 then Some (Inr max_flips)
          else (case py_get perm1 m of
              Inl e \<Rightarrow> Some (Inl e)
            | Inr y \<Rightarrow>
                if int y = m then Some (Inr max_flips)
                else (case flip_loop perm1 0 of
                    None \<Rightarrow> None
                  | Some (Inl e) \<Rightarrow> Some (Inl e)
                  | Some (Inr flips_count) \<Rightarrow>
                      Some (Inr (if flips_count > max_flips then flips_count else max_flips)))))"

lemma py_set_bounds:
  "py_set xs i v = Inr ys \<Longrightarrow> - int (length xs) \<le> i \<and> i < int (length xs) \<and> length ys = length xs"
  by (auto simp: py_set_def py_index_def Let_def rbind_eq_Inr split: if_splits)

text \<open>\<open>while r != 1\<close>.\<close>

function refill :: "int \<Rightarrow> int list \<Rightarrow> int list result" where
  "refill r count =
     (if r = 1 then Inr count
      else (case py_set count (r - 1) r of Inl e \<Rightarrow> Inl e | Inr count \<Rightarrow> refill (r - 1) count))"
  by auto

termination
  by (relation "measure (\<lambda>(r, count). nat (r + int (length count)))") (auto dest!: py_set_bounds)

text \<open>\<open>while r != n\<close>: \<open>None\<close> for its \<open>else\<close>, which returns.\<close>

function advance_perm :: "int \<Rightarrow> int \<Rightarrow> int list \<Rightarrow> nat list \<Rightarrow> (int \<times> int list \<times> nat list) option result" where
  "advance_perm n r count perm1 =
     (if r = n then Inr None
      else (case perm1 of
          [] \<Rightarrow> Inl IndexError
        | x # xs \<Rightarrow>
            let perm1 = py_insert r x xs in
            (case py_get count r of
               Inl e \<Rightarrow> Inl e
             | Inr c \<Rightarrow>
                 (case py_set count r (c - 1) of
                    Inl e \<Rightarrow> Inl e
                  | Inr count \<Rightarrow>
                      if c - 1 > 0 then Inr (Some (r, count, perm1)) else advance_perm n (r + 1) count perm1))))"
  by auto

termination
  by (relation "measure (\<lambda>(n, r, count, perm1). nat (int (length count) - r))") (auto dest!: py_set_bounds)

declare refill.simps [simp del] advance_perm.simps [simp del]

text \<open>\<open>while 1\<close>, with \<open>r\<close> as the turn before has left it.\<close>

partial_function (option) fannkuch_loop ::
    "int \<Rightarrow> int list \<Rightarrow> nat list \<Rightarrow> int \<Rightarrow> nat \<Rightarrow> nat \<Rightarrow> nat result option" where
  "fannkuch_loop n count perm1 r max_flips check =
     (let check = (if check < 30 then check + 1 else check) in
      case refill r count of
        Inl e \<Rightarrow> Some (Inl e)
      | Inr count \<Rightarrow>
          (case visit (n - 1) perm1 max_flips of
             None \<Rightarrow> None
           | Some (Inl e) \<Rightarrow> Some (Inl e)
           | Some (Inr max_flips) \<Rightarrow>
               (case advance_perm n 1 count perm1 of
                  Inl e \<Rightarrow> Some (Inl e)
                | Inr None \<Rightarrow> Some (Inr max_flips)
                | Inr (Some (r, count, perm1)) \<Rightarrow> fannkuch_loop n count perm1 r max_flips check)))"

definition fannkuch :: "int \<Rightarrow> nat result option" where
  "fannkuch n = fannkuch_loop n [1..n] [0..<nat n] n 0 0"

end
