(* ===== verification/FannkuchProof.thy ===== *)
theory FannkuchProof
  imports Fannkuch "HOL-Library.Multiset"
begin

text \<open>
  The flips of every permutation come to an end, the rotations go through all permutations, and those that
  the program leaves out cannot have the most flips.
\<close>

section \<open>The flips\<close>

definition is_perm :: "nat \<Rightarrow> nat list \<Rightarrow> bool" where
  "is_perm n p \<longleftrightarrow> distinct p \<and> set p = {..<n}"

definition flip :: "nat list \<Rightarrow> nat list" where
  "flip p = flip_prefix (hd p) p"

text \<open>How often a permutation can be flipped before its first number is 0.\<close>

definition flips :: "nat list \<Rightarrow> nat" where
  "flips p = (LEAST k. hd ((flip ^^ k) p) = 0)"

lemma is_perm_length: "is_perm n p \<Longrightarrow> length p = n"
  by (metis is_perm_def card_lessThan distinct_card)

lemma is_perm_mset: "mset q = mset p \<Longrightarrow> is_perm n q \<longleftrightarrow> is_perm n p"
  using mset_eq_imp_distinct_iff [of q p] mset_eq_setD [of q p] by (simp add: is_perm_def)

lemma is_perm_iff_mset: "is_perm n q \<longleftrightarrow> mset q = mset [0..<n]"
proof
  assume "is_perm n q"
  then show "mset q = mset [0..<n]"
    using set_eq_iff_mset_eq_distinct [of q "[0..<n]"] by (simp add: is_perm_def atLeast0LessThan del: mset_upt)
next
  assume "mset q = mset [0..<n]"
  from is_perm_mset [OF this] show "is_perm n q" by (simp add: is_perm_def atLeast0LessThan)
qed

lemma is_perm_hd: "is_perm n p \<Longrightarrow> 0 < n \<Longrightarrow> p \<noteq> [] \<and> hd p < n"
  by (metis is_perm_length is_perm_def hd_in_set length_greater_0_conv lessThan_iff)

lemma mset_flip_prefix [simp]: "mset (flip_prefix k p) = mset p"
proof -
  have "mset (flip_prefix k p) = mset (take (k + 1) p @ drop (k + 1) p)" by (simp add: flip_prefix_def del: append_take_drop_id)
  then show ?thesis by simp
qed

lemma is_perm_flip [simp]: "is_perm n (flip p) \<longleftrightarrow> is_perm n p"
  by (rule is_perm_mset) (simp add: flip_def)

lemma flip_nth:
  assumes "is_perm n p" and "0 < n" and "i < n"
  shows "flip p ! i = (if i \<le> hd p then p ! (hd p - i) else p ! i)"
  using assms is_perm_length [OF assms(1)] is_perm_hd [OF assms(1,2)]
  by (auto simp: flip_def flip_prefix_def nth_append rev_nth)

text \<open>The numbers that are in their places, as the digits of a number: a flip makes it greater.\<close>

definition digits :: "nat \<Rightarrow> nat list \<Rightarrow> nat" where
  "digits n p = (\<Sum>i \<in> {i. 1 \<le> i \<and> i < n \<and> p ! i = i}. 2 ^ i)"

lemma sum_powers_less: "A \<subseteq> {..<n} \<Longrightarrow> (\<Sum>i \<in> A. 2 ^ i) < (2 :: nat) ^ n"
proof -
  assume "A \<subseteq> {..<n}"
  then have "(\<Sum>i \<in> A. 2 ^ i) \<le> (\<Sum>i < n. (2 :: nat) ^ i)" by (intro sum_mono2) auto
  also have "\<dots> < 2 ^ n" by (induction n) auto
  finally show ?thesis .
qed

lemma digits_less: "digits n p < 2 ^ n"
  unfolding digits_def by (rule sum_powers_less) auto

lemma digits_flip:
  assumes p: "is_perm n p" and n: "0 < n" and k: "hd p \<noteq> 0"
  shows "digits n p < digits n (flip p)"
proof -
  let ?k = "hd p" and ?A = "{i. 1 \<le> i \<and> i < n \<and> p ! i = i}" and ?B = "{i. 1 \<le> i \<and> i < n \<and> flip p ! i = i}"
  have kn: "?k < n" and p0: "p ! 0 = ?k" using is_perm_hd [OF p n] by (auto simp: hd_conv_nth)
  have kA: "?k \<notin> ?A"
    using p p0 k kn is_perm_length [OF p] by (metis (mono_tags, lifting) is_perm_def mem_Collect_eq n nth_eq_iff_index_eq)
  have low: "(\<Sum>i \<in> ?A \<inter> {..<?k}. 2 ^ i) < (2 :: nat) ^ ?k" by (rule sum_powers_less) auto
  have "i < ?k \<or> i > ?k" if "i \<in> ?A" for i using kA that by (metis linorder_neqE_nat)
  then have split: "?A = (?A \<inter> {..<?k}) \<union> (?A \<inter> {?k<..})" by blast
  have "digits n p = (\<Sum>i \<in> ?A \<inter> {..<?k}. 2 ^ i) + (\<Sum>i \<in> ?A \<inter> {?k<..}. 2 ^ i)"
    unfolding digits_def by (subst split) (rule sum.union_disjoint, auto)
  also have "\<dots> < 2 ^ ?k + (\<Sum>i \<in> ?A \<inter> {?k<..}. 2 ^ i)" using low by simp
  also have "\<dots> = (\<Sum>i \<in> insert ?k (?A \<inter> {?k<..}). 2 ^ i)" by simp
  also have "\<dots> \<le> digits n (flip p)"
    unfolding digits_def using k kn p0 flip_nth [OF p n] by (intro sum_mono2) auto
  finally show ?thesis .
qed

lemma flips_end: "is_perm n p \<Longrightarrow> 0 < n \<Longrightarrow> \<exists>k. hd ((flip ^^ k) p) = 0"
proof (induction "2 ^ n - digits n p" arbitrary: p rule: less_induct)
  case less
  show ?case
  proof (cases "hd p = 0")
    case True
    then show ?thesis by (intro exI [of _ 0]) simp
  next
    case False
    then have "2 ^ n - digits n (flip p) < 2 ^ n - digits n p"
      using digits_flip [OF less.prems] digits_less [of n p] by (simp add: diff_less_mono2)
    then obtain k where "hd ((flip ^^ k) (flip p)) = 0" using less.hyps less.prems by fastforce
    then show ?thesis by (intro exI [of _ "Suc k"]) (simp add: funpow_swap1)
  qed
qed

lemma flips_0: "hd p = 0 \<Longrightarrow> flips p = 0"
  by (simp add: flips_def Least_eq_0)

lemma flips_Suc:
  assumes "is_perm n p" and "0 < n" and "hd p \<noteq> 0"
  shows "flips p = Suc (flips (flip p))"
proof -
  obtain k where "hd ((flip ^^ k) p) = 0" using flips_end [OF assms(1,2)] by blast
  then have "flips p = Suc (LEAST k. hd ((flip ^^ Suc k) p) = 0)"
    unfolding flips_def using assms(3) by (intro Least_Suc) auto
  then show ?thesis by (simp add: flips_def funpow_swap1)
qed

lemma flip_loop_flips: "is_perm n p \<Longrightarrow> 0 < n \<Longrightarrow> flip_loop p c = Some (Inr (c + flips p))"
proof (induction "flips p" arbitrary: p c rule: less_induct)
  case less
  have p: "lget p 0 = Inr (hd p)" using is_perm_hd [OF less.prems] by (simp add: hd_conv_nth)
  show ?case
  proof (cases "hd p = 0")
    case True
    then show ?thesis using p by (subst flip_loop.simps) (simp add: flips_0)
  next
    case False
    then have f: "flips p = Suc (flips (flip p))" using flips_Suc less.prems by blast
    have "flip_loop (flip p) (c + 1) = Some (Inr (c + 1 + flips (flip p)))"
      by (rule less.hyps) (simp_all add: f less.prems)
    moreover have "flip_loop p c = flip_loop (flip p) (c + 1)"
      using p False by (subst flip_loop.simps) (simp add: flip_def)
    ultimately show ?thesis by (simp add: f)
  qed
qed

text \<open>A permutation that ends with its greatest number has fewer flips than the one backwards.\<close>

lemma flips_rev:
  assumes p: "is_perm n p" and n: "0 < n" and m: "p ! (n - 1) = n - 1" and k: "hd p \<noteq> 0"
  shows "is_perm n (rev p) \<and> hd (rev p) \<noteq> 0 \<and> rev p ! (n - 1) \<noteq> n - 1 \<and> flips p \<le> flips (rev p)"
proof -
  have len: "length p = n" and ne: "p \<noteq> []" using is_perm_length [OF p] n by auto
  have p': "is_perm n (rev p)" using p by (simp add: is_perm_def)
  have n1: "n \<noteq> 1" using m k ne len by (auto simp: hd_conv_nth)
  have h: "hd (rev p) = n - 1" using ne len m by (simp add: hd_rev last_conv_nth)
  have l: "rev p ! (n - 1) = p ! 0" using len n by (simp add: rev_nth)
  have "p ! 0 \<noteq> p ! (n - 1)" using p len n n1 by (simp add: is_perm_def nth_eq_iff_index_eq)
  moreover have "flip (rev p) = p" using h len n by (simp add: flip_def flip_prefix_def)
  ultimately show ?thesis using p' h l m n n1 flips_Suc [OF p' n] by auto
qed

section \<open>One permutation\<close>

definition counted :: "nat \<Rightarrow> nat list \<Rightarrow> bool" where
  "counted n p \<longleftrightarrow> hd p \<noteq> 0 \<and> p ! (n - 1) \<noteq> n - 1"

definition best :: "nat \<Rightarrow> nat \<Rightarrow> nat list list \<Rightarrow> nat" where
  "best n mx ps = foldl (\<lambda>mx p. if counted n p then max mx (flips p) else mx) mx ps"

lemma best_simps [simp]:
  "best n mx [] = mx" "best n mx [p] = (if counted n p then max mx (flips p) else mx)"
  "best n mx (ps @ qs) = best n (best n mx ps) qs"
  by (simp_all add: best_def)

lemma best_Max: "best n mx ps = Max (insert mx (flips ` {p \<in> set ps. counted n p}))"
proof (induction ps rule: rev_induct)
  case (snoc p ps)
  have "{q \<in> set (ps @ [p]). counted n q} = (if counted n p then insert p else id) {q \<in> set ps. counted n q}" by auto
  moreover have "Max (insert a (insert b S)) = max (Max (insert a S)) b" if "finite S" for a b :: nat and S
    using that by (subst insert_commute) (simp add: max.commute)
  ultimately show ?case using snoc by simp
qed simp

lemma visit_ok:
  assumes "is_perm (Suc m) p"
  shows "visit (int m) p mx = Some (Inr (best (Suc m) mx [p]))"
proof -
  have p: "p \<noteq> []" "length p = Suc m" using is_perm_hd [OF assms] is_perm_length [OF assms] by auto
  then have "py_get p (int m) = Inr (p ! m)" by (simp add: py_get_def py_index_def)
  then show ?thesis
    using p flip_loop_flips [OF assms, of 0] by (simp add: visit_def counted_def hd_conv_nth max_def)
qed

section \<open>The counters\<close>

text \<open>The counters below \<open>j\<close> set to what \<open>f\<close> gives.\<close>

definition upd :: "nat \<Rightarrow> (nat \<Rightarrow> int) \<Rightarrow> int list \<Rightarrow> int list" where
  "upd j f c = map (\<lambda>i. if 1 \<le> i \<and> i < j then f i else c ! i) [0..<length c]"

lemma length_upd [simp]: "length (upd j f c) = length c"
  by (simp add: upd_def)

lemma nth_upd [simp]: "i < length c \<Longrightarrow> upd j f c ! i = (if 1 \<le> i \<and> i < j then f i else c ! i)"
  by (simp add: upd_def)

definition filled :: "nat \<Rightarrow> int list \<Rightarrow> bool" where
  "filled j c \<longleftrightarrow> (\<forall>i. 1 \<le> i \<and> i < j \<longrightarrow> c ! i = int i + 1)"

lemma refill_ok: "1 \<le> j \<Longrightarrow> j \<le> length c \<Longrightarrow> refill (int j) c = Inr (upd j (\<lambda>i. int i + 1) c)"
proof (induction j arbitrary: c rule: nat_induct_at_least)
  case base
  have "upd 1 (\<lambda>i. int i + 1) c = c" by (intro nth_equalityI) auto
  then show ?case by (simp add: refill.simps [of 1])
next
  case (Suc j)
  have s: "py_set c (int (Suc j) - 1) (int (Suc j)) = Inr (c[j := int j + 1])"
    using Suc.prems by (simp add: py_set_def py_index_def add.commute)
  have "upd j (\<lambda>i. int i + 1) (c[j := int j + 1]) = upd (Suc j) (\<lambda>i. int i + 1) c"
    using Suc.hyps Suc.prems by (intro nth_equalityI) (auto simp: nth_list_update less_Suc_eq)
  then show ?case
    using Suc.IH [of "c[j := int j + 1]"] Suc.prems Suc.hyps s by (subst refill.simps) (simp add: add.commute)
qed

text \<open>The rotation of the first \<open>j + 1\<close> numbers.\<close>

definition rot :: "nat \<Rightarrow> nat list \<Rightarrow> nat list" where
  "rot j p = rotate1 (take (Suc j) p) @ drop (Suc j) p"

lemma length_rot [simp]: "length (rot j p) = length p"
  by (simp add: rot_def)

lemma mset_rot [simp]: "mset (rot j p) = mset p"
proof -
  have "mset (rotate1 xs) = mset xs" for xs :: "nat list" by (cases xs) simp_all
  then have "mset (rot j p) = mset (take (Suc j) p @ drop (Suc j) p)" by (simp add: rot_def del: append_take_drop_id)
  then show ?thesis by simp
qed

lemma is_perm_rot [simp]: "is_perm n (rot j p) \<longleftrightarrow> is_perm n p"
  by (rule is_perm_mset) simp

lemma funpow_rot: "j < length p \<Longrightarrow> (rot j ^^ i) p = rotate i (take (Suc j) p) @ drop (Suc j) p"
proof (induction i)
  case (Suc i)
  then have "length (rotate i (take (Suc j) p)) = Suc j" by simp
  then show ?case using Suc by (simp add: rot_def)
qed simp

lemma rot_cycle: "j < length p \<Longrightarrow> (rot j ^^ Suc j) p = p"
  unfolding funpow_rot by (subst rotate_id) simp_all

lemma advance_step:
  assumes "j < n" and "length c = n" and "length p = n"
  shows "advance_perm (int n) (int j) c p =
    (if c ! j > 1 then Inr (Some (int j, c[j := c ! j - 1], rot j p))
     else advance_perm (int n) (int (Suc j)) (c[j := c ! j - 1]) (rot j p))"
proof -
  obtain x xs where p: "p = x # xs" using assms by (cases p) auto
  have "py_insert (int j) x xs = rot j p" using p assms by (simp add: py_insert_def rot_def)
  moreover have "py_get c (int j) = Inr (c ! j)" "py_set c (int j) v = Inr (c[j := v])" for v
    using assms by (simp_all add: py_get_def py_set_def py_index_def)
  ultimately show ?thesis
    using assms p by (subst advance_perm.simps) (simp add: Let_def add.commute)
qed

section \<open>The order of the permutations\<close>

text \<open>What the loop does once a permutation has been looked at and \<open>r\<close> is \<open>j\<close>.\<close>

definition resume :: "nat \<Rightarrow> nat \<Rightarrow> int list \<Rightarrow> nat list \<Rightarrow> nat \<Rightarrow> nat \<Rightarrow> nat result option" where
  "resume n j c p mx chk =
     (case advance_perm (int n) (int j) c p of
        Inl e \<Rightarrow> Some (Inl e)
      | Inr None \<Rightarrow> Some (Inr mx)
      | Inr (Some (r, c, p)) \<Rightarrow> fannkuch_loop (int n) c p r mx chk)"

text \<open>The permutations that are looked at before the counters up to \<open>k\<close> have run down.\<close>

fun visits :: "nat \<Rightarrow> nat list \<Rightarrow> nat list list" where
  "visits 0 p = [p]"
| "visits (Suc k) p = concat (map (\<lambda>i. visits k ((rot (Suc k) ^^ i) p)) [0..<Suc (Suc k)])"

definition turn :: "nat \<Rightarrow> int list \<Rightarrow> nat list \<Rightarrow> nat \<Rightarrow> nat \<Rightarrow> nat result option" where
  "turn n c p mx chk = resume n 1 c p (best n mx [p]) chk"

lemma turn_resume:
  "turn n c p mx chk =
     (case advance_perm (int n) 1 c p of
        Inl e \<Rightarrow> Some (Inl e)
      | Inr None \<Rightarrow> Some (Inr (best n mx [p]))
      | Inr (Some (r, c, p')) \<Rightarrow> fannkuch_loop (int n) c p' r (best n mx [p]) chk)"
  unfolding turn_def resume_def of_nat_1 ..

lemma loop_turn:
  assumes "is_perm (Suc m) p" and "length c = Suc m" and "1 \<le> j" and "j \<le> Suc m"
  shows "\<exists>chk'. fannkuch_loop (int (Suc m)) c p (int j) mx chk = turn (Suc m) (upd j (\<lambda>i. int i + 1) c) p mx chk'"
proof -
  have "refill (int j) c = Inr (upd j (\<lambda>i. int i + 1) c)" using assms by (intro refill_ok) simp_all
  moreover have "visit (int (Suc m) - 1) p mx = Some (Inr (best (Suc m) mx [p]))" using visit_ok [OF assms(1)] by simp
  ultimately show ?thesis
    by (subst fannkuch_loop.simps) (auto simp: turn_resume Let_def simp del: of_nat_Suc best_simps)
qed

lemma turn_level:
  assumes "k < Suc m" and "is_perm (Suc m) p" and "length c = Suc m" and "filled (Suc k) c"
  shows "\<exists>chk'. turn (Suc m) c p mx chk =
    resume (Suc m) (Suc k) (upd (Suc k) (\<lambda>i. 0) c) p (best (Suc m) mx (visits k p)) chk'"
  using assms
proof (induction k arbitrary: c p mx chk)
  case 0
  have "upd (Suc 0) (\<lambda>i. 0) c = c" by (intro nth_equalityI) auto
  then show ?case by (auto simp: turn_def)
next
  case (Suc k)
  let ?n = "Suc m" and ?z = "upd (Suc (Suc k)) (\<lambda>i. 0)" and ?r = "rot (Suc k)"
  note IH = Suc.IH
  have k: "k < ?n" "Suc k < ?n" using Suc.prems(1) by simp_all
  have "\<exists>chk'. turn ?n c p mx chk = resume ?n (Suc (Suc k)) (?z c) ((?r ^^ Suc v) p)
      (best ?n mx (concat (map (\<lambda>i. visits k ((?r ^^ i) p)) [0..<Suc v]))) chk'"
    if "is_perm ?n p" "length c = ?n" "filled (Suc k) c" "c ! Suc k = int (Suc v)" for c p mx chk v
    using that
  proof (induction v arbitrary: c p mx chk)
    case 0
    note pr = this
    let ?c = "upd (Suc k) (\<lambda>i. 0) c"
    have "?c[Suc k := 0] = ?z c" using pr(2) k
      by (intro nth_equalityI) (auto simp: nth_list_update less_Suc_eq)
    moreover have "?c ! Suc k = 1" using pr k by simp
    moreover obtain chk' where "turn ?n c p mx chk = resume ?n (Suc k) ?c p (best ?n mx (visits k p)) chk'"
      using IH [OF k(1) pr(1-3)] by blast
    moreover have "resume ?n (Suc k) ?c p mx' chk = resume ?n (Suc (Suc k)) (?c[Suc k := 0]) (?r p) mx' chk"
      if "?c ! Suc k = 1" for mx' chk
      using advance_step [of "Suc k" ?n ?c p] pr k is_perm_length [OF pr(1)] that by (simp add: resume_def)
    ultimately show ?case by auto
  next
    case (Suc v)
    let ?c = "upd (Suc k) (\<lambda>i. 0) c"
    let ?c1 = "upd (Suc k) (\<lambda>i. int i + 1) (?c[Suc k := int (Suc v)])"
    let ?mx = "best ?n mx (visits k p)"
    have p: "length p = ?n" using is_perm_length Suc.prems(1) by blast
    obtain chk1 where "turn ?n c p mx chk = resume ?n (Suc k) ?c p ?mx chk1"
      using IH [OF k(1) Suc.prems(1-3)] by blast
    also have "\<dots> = fannkuch_loop (int ?n) (?c[Suc k := int (Suc v)]) (?r p) (int (Suc k)) ?mx chk1"
      using advance_step [of "Suc k" ?n ?c p] Suc.prems k p by (simp add: resume_def)
    also obtain chk2 where "\<dots> = turn ?n ?c1 (?r p) ?mx chk2"
      using loop_turn [of m "?r p" "?c[Suc k := int (Suc v)]" "Suc k" ?mx chk1] Suc.prems k by auto
    also obtain chk3 where "\<dots> = resume ?n (Suc (Suc k)) (?z ?c1) ((?r ^^ Suc v) (?r p))
      (best ?n ?mx (concat (map (\<lambda>i. visits k ((?r ^^ i) (?r p))) [0..<Suc v]))) chk3"
      using Suc.IH [of "?r p" ?c1 ?mx chk2] Suc.prems k by (auto simp: filled_def)
    also have "?z ?c1 = ?z c" using Suc.prems k by (intro nth_equalityI) (auto simp: nth_list_update)
    also have "best ?n ?mx (concat (map (\<lambda>i. visits k ((?r ^^ i) (?r p))) [0..<Suc v])) =
      best ?n mx (concat (map (\<lambda>i. visits k ((?r ^^ i) p)) [0..<Suc (Suc v)]))"
      by (simp add: upt_conv_Cons map_Suc_upt [symmetric] comp_def funpow_swap1 del: upt_Suc)
    finally show ?case by (auto simp: funpow_swap1)
  qed
  from this [OF Suc.prems(2,3), of "Suc k" mx chk] show ?case
    using Suc.prems rot_cycle [of "Suc k" p] is_perm_length [OF Suc.prems(2)] by (simp add: filled_def)
qed

section \<open>All permutations\<close>

lemma set_visits:
  "k < length p \<Longrightarrow> distinct p \<Longrightarrow> set (visits k p) = {q. mset q = mset p \<and> drop (Suc k) q = drop (Suc k) p}"
proof (induction k arbitrary: p)
  case 0
  then obtain x xs where "p = x # xs" by (cases p) auto
  moreover have "q = x # xs" if "mset q = add_mset x (mset xs)" "drop (Suc 0) q = xs" for q
    using that by (cases q) auto
  ultimately show ?case by auto
next
  case (Suc k)
  let ?r = "\<lambda>i. (rot (Suc k) ^^ i) p" and ?ps = "take (Suc (Suc k)) p"
  have len: "length ?ps = Suc (Suc k)" and k: "Suc k < length p" using Suc.prems by simp_all
  have r: "mset (?r i) = mset p" "length (?r i) = length p" for i by (induction i) simp_all
  have d: "drop (Suc k) (?r i) = p ! ((i + Suc k) mod Suc (Suc k)) # drop (Suc (Suc k)) p" for i
  proof -
    have "drop (Suc k) (rotate i ?ps) = [rotate i ?ps ! Suc k]"
      using len by (subst Cons_nth_drop_Suc [symmetric]) simp_all
    then show ?thesis using len by (simp add: funpow_rot [OF k] nth_rotate)
  qed
  have "q \<in> set (visits (Suc k) p) \<longleftrightarrow> mset q = mset p \<and> drop (Suc (Suc k)) q = drop (Suc (Suc k)) p" for q
  proof -
    have "q \<in> set (visits (Suc k) p) \<longleftrightarrow> (\<exists>i < Suc (Suc k). mset q = mset p \<and> drop (Suc k) q = drop (Suc k) (?r i))"
    proof -
      have "set (visits k (?r i)) = {q. mset q = mset p \<and> drop (Suc k) q = drop (Suc k) (?r i)}" for i
        using Suc.IH [of "?r i"] Suc.prems r mset_eq_imp_distinct_iff [OF r(1)] by simp
      then show ?thesis by (auto simp del: upt_Suc)
    qed
    also have "\<dots> \<longleftrightarrow> mset q = mset p \<and> drop (Suc (Suc k)) q = drop (Suc (Suc k)) p"
      (is "?L \<longleftrightarrow> ?R")
    proof
      assume ?L
      then show ?R using d by (metis drop_Suc tl_drop list.sel(3))
    next
      assume q: ?R
      then have "length q = length p" by (metis mset_eq_length)
      then have dq: "drop (Suc k) q = q ! Suc k # drop (Suc (Suc k)) p"
        using q k by (metis Cons_nth_drop_Suc)
      have "mset (take (Suc (Suc k)) q) = mset ?ps"
        using q by (metis add_right_cancel append_take_drop_id mset_append)
      moreover have "q ! Suc k \<in> set (take (Suc (Suc k)) q)"
        using k \<open>length q = length p\<close> by (auto simp: in_set_conv_nth intro!: exI [of _ "Suc k"])
      ultimately have "q ! Suc k \<in> set ?ps" by (metis mset_eq_setD)
      then obtain t where t: "t < Suc (Suc k)" "p ! t = q ! Suc k" using len by (auto simp: in_set_conv_nth)
      have "(Suc t mod Suc (Suc k) + Suc k) mod Suc (Suc k) = (t + Suc (Suc k)) mod Suc (Suc k)"
        unfolding mod_add_left_eq by simp
      also have "\<dots> = t" using t(1) by (simp only: mod_add_self2 mod_less)
      finally have "(Suc t mod Suc (Suc k) + Suc k) mod Suc (Suc k) = t" .
      then have "drop (Suc k) q = drop (Suc k) (?r (Suc t mod Suc (Suc k)))" using d dq t(2) by simp
      then show ?L using q by (intro exI [of _ "Suc t mod Suc (Suc k)"]) simp
    qed
    finally show ?thesis .
  qed
  then show ?case by blast
qed

lemma fannkuch_best: "fannkuch (int (Suc m)) = Some (Inr (best (Suc m) 0 (visits m [0..<Suc m])))"
proof -
  let ?n = "Suc m" and ?c = "upd (Suc m) (\<lambda>i. int i + 1) [1..int (Suc m)]"
  have p: "is_perm ?n [0..<?n]" by (auto simp: is_perm_def)
  have l: "length [1..int ?n] = ?n" by simp
  have c: "filled ?n ?c" using l by (auto simp: filled_def simp del: length_upto)
  obtain chk1 where "fannkuch (int ?n) = turn ?n ?c [0..<?n] 0 chk1"
    using loop_turn [OF p l, of ?n 0 0] unfolding fannkuch_def nat_int by (auto simp del: upt_Suc of_nat_Suc)
  also obtain chk2 where "\<dots> = resume ?n ?n (upd ?n (\<lambda>i. 0) ?c) [0..<?n] (best ?n 0 (visits m [0..<?n])) chk2"
    using turn_level [OF lessI p, of ?c 0 chk1] l c by (auto simp del: upt_Suc of_nat_Suc)
  also have "\<dots> = Some (Inr (best ?n 0 (visits m [0..<?n])))"
    by (simp add: resume_def advance_perm.simps [of "int ?n" "int ?n"] del: upt_Suc of_nat_Suc)
  finally show ?thesis .
qed

text \<open>
  C38: \<open>fannkuch n\<close> returns for every \<open>n\<close>: the greatest number of flips of any permutation of the numbers
  below \<open>n\<close>, though it counts them only where the first and the last number are not in their places, and
  an \<open>IndexError\<close> unless \<open>n\<close> is positive.
\<close>

theorem fannkuch_max:
  "fannkuch n = Some (if n \<le> 0 then Inl IndexError else Inr (Max (flips ` {p. is_perm (nat n) p})))"
proof (cases "n \<le> 0")
  case True
  then have "refill n [1..n] = Inl IndexError" by (subst refill.simps) (simp add: py_set_def py_index_def)
  with True show ?thesis by (simp add: fannkuch_def fannkuch_loop.simps Let_def)
next
  case False
  then have n: "n = int (Suc (nat (n - 1)))" by simp
  define m where "m = nat (n - 1)"
  let ?P = "{p. is_perm (Suc m) p}"
  have "length q = Suc m" if "mset q = mset [0..<Suc m]" for q using mset_eq_length [OF that] by (simp del: upt_Suc)
  then have "set (visits m [0..<Suc m]) = {q. mset q = mset [0..<Suc m]}"
    by (subst set_visits) (auto simp del: upt_Suc mset_upt)
  also have "\<dots> = ?P" by (simp only: is_perm_iff_mset)
  finally have v: "set (visits m [0..<Suc m]) = ?P" .
  then have fin: "finite ?P" by (metis List.finite_set)
  let ?b = "Max (insert 0 (flips ` {p \<in> ?P. counted (Suc m) p}))"
  have "flips p \<le> ?b" if p: "is_perm (Suc m) p" for p
  proof -
    consider "hd p = 0" | "counted (Suc m) p" | "hd p \<noteq> 0" "p ! m = m" by (auto simp: counted_def)
    then show ?thesis
    proof cases
      case 1
      then show ?thesis by (simp add: flips_0)
    next
      case 2
      then show ?thesis using p fin by (intro Max_ge) auto
    next
      case 3
      then have "counted (Suc m) (rev p)" "is_perm (Suc m) (rev p)" "flips p \<le> flips (rev p)"
        using flips_rev [OF p] by (auto simp: counted_def)
      then show ?thesis using fin by (intro Max_ge_iff [THEN iffD2]) auto
    qed
  qed
  moreover have "?b \<in> flips ` ?P"
  proof -
    have "?b \<in> insert 0 (flips ` {p \<in> ?P. counted (Suc m) p})" using fin by (intro Max_in) auto
    moreover have "0 \<in> flips ` ?P"
      by (intro image_eqI [of _ _ "[0..<Suc m]"]) (auto simp: flips_0 is_perm_def upt_conv_Cons simp del: upt_Suc)
    ultimately show ?thesis by auto
  qed
  ultimately have "?b = Max (flips ` ?P)" using fin by (intro Max_eqI [symmetric]) auto
  then have "fannkuch (int (Suc m)) = Some (Inr (Max (flips ` ?P)))" by (simp only: fannkuch_best best_Max v)
  moreover have "nat n = Suc m" using False by (simp add: m_def)
  ultimately show ?thesis using n False by (simp add: m_def)
qed

end
