(* ===== verification/Futures.thy ===== *)
theory Futures
  imports PyPrelude "HOL-Library.Multiset"
begin

text \<open>
  \<open>multithread/common/abstract_threading.py\<close>: futures that the threads of a pool carry out. What a future
  computes is a parameter, \<open>turn\<close>: one step of a job on the memory that all threads share; so is the program
  of the main thread, \<open>plan\<close>. A step of the pool is a step of one thread, and which thread it is, is not
  determined.
\<close>

section \<open>Jobs and the pool\<close>

text \<open>A job goes on, makes a future and goes on with it, returns or raises.\<close>

datatype ('j, 'r) outcome = Goes 'j | Submits 'j "nat \<Rightarrow> 'j" | Returns 'r | Raises exn

text \<open>The main thread makes a future, calls one, which waits for its result, or has come to its end.\<close>

datatype ('j, 'r, 'c) action = Creates 'j "nat \<Rightarrow> 'c" | Calls nat "'r \<Rightarrow> 'c" | Ends

text \<open>\<open>Future\<close>: what is left of its job, until it is done with a result or an exception.\<close>

datatype ('j, 'r) future = Todo 'j | Finished "'r result"

text \<open>
  The futures in the order in which they are made, \<open>TLQueue.items\<close> with the numbers of those that wait
  for a worker, the workers with the future they carry out, and the main thread.
\<close>

record ('j, 'm, 'r, 'c) pool =
  memory :: 'm
  futures :: "('j, 'r) future list"
  items :: "nat list"
  workers :: "nat option list"
  main :: "'c result"

definition ThreadPool :: "nat \<Rightarrow> 'm \<Rightarrow> 'c \<Rightarrow> ('j, 'm, 'r, 'c) pool" where
  "ThreadPool n m c = \<lparr>memory = m, futures = [], items = [], workers = replicate n None, main = Inr c\<rparr>"

text \<open>\<open>Future.__init__\<close>.\<close>

definition add_task :: "'j \<Rightarrow> ('j, 'm, 'r, 'c) pool \<Rightarrow> ('j, 'm, 'r, 'c) pool" where
  "add_task j s = s\<lparr>futures := futures s @ [Todo j], items := items s @ [length (futures s)]\<rparr>"

section \<open>The steps of the threads\<close>

text \<open>\<open>TLQueue.get\<close>.\<close>

definition get_task :: "nat \<Rightarrow> ('j, 'm, 'r, 'c) pool \<Rightarrow> ('j, 'm, 'r, 'c) pool option" where
  "get_task i s =
     (if i < length (workers s) \<and> workers s ! i = None \<and> items s \<noteq> [] then
        Some (s\<lparr>workers := (workers s)[i := Some (last (items s))], items := butlast (items s)\<rparr>)
      else None)"

text \<open>A step of \<open>Future._task\<close>.\<close>

definition run_task :: "('j \<Rightarrow> 'm \<Rightarrow> ('j, 'r) outcome \<times> 'm) \<Rightarrow> nat \<Rightarrow> ('j, 'm, 'r, 'c) pool \<Rightarrow>
    ('j, 'm, 'r, 'c) pool option" where
  "run_task turn i s =
     (if i < length (workers s) then
        (case workers s ! i of
           None \<Rightarrow> None
         | Some f \<Rightarrow>
             (case futures s ! f of
                Finished r \<Rightarrow> None
              | Todo j \<Rightarrow>
                  (case turn j (memory s) of
                     (Goes j, m) \<Rightarrow> Some (s\<lparr>memory := m, futures := (futures s)[f := Todo j]\<rparr>)
                   | (Submits j0 k, m) \<Rightarrow>
                       Some (add_task j0 (s\<lparr>memory := m, futures := (futures s)[f := Todo (k (length (futures s)))]\<rparr>))
                   | (Returns r, m) \<Rightarrow>
                       Some (s\<lparr>memory := m, futures := (futures s)[f := Finished (Inr r)], workers := (workers s)[i := None]\<rparr>)
                   | (Raises e, m) \<Rightarrow>
                       Some (s\<lparr>memory := m, futures := (futures s)[f := Finished (Inl e)], workers := (workers s)[i := None]\<rparr>))))
      else None)"

text \<open>The main thread; \<open>Future.__call__\<close> waits and then returns the result or raises the exception.\<close>

definition run_main :: "('c \<Rightarrow> ('j, 'r, 'c) action) \<Rightarrow> ('j, 'm, 'r, 'c) pool \<Rightarrow> ('j, 'm, 'r, 'c) pool option" where
  "run_main plan s =
     (case main s of
        Inl e \<Rightarrow> None
      | Inr c \<Rightarrow>
          (case plan c of
             Creates j k \<Rightarrow> Some (add_task j (s\<lparr>main := Inr (k (length (futures s)))\<rparr>))
           | Calls f k \<Rightarrow>
               if f < length (futures s) then
                 (case futures s ! f of
                    Todo j \<Rightarrow> None
                  | Finished (Inl e) \<Rightarrow> Some (s\<lparr>main := Inl e\<rparr>)
                  | Finished (Inr r) \<Rightarrow> Some (s\<lparr>main := Inr (k r)\<rparr>))
               else None
           | Ends \<Rightarrow> None))"

inductive step :: "('j \<Rightarrow> 'm \<Rightarrow> ('j, 'r) outcome \<times> 'm) \<Rightarrow> ('c \<Rightarrow> ('j, 'r, 'c) action) \<Rightarrow>
    ('j, 'm, 'r, 'c) pool \<Rightarrow> ('j, 'm, 'r, 'c) pool \<Rightarrow> bool" for turn plan where
  step_get: "get_task i s = Some s' \<Longrightarrow> step turn plan s s'"
| step_run: "run_task turn i s = Some s' \<Longrightarrow> step turn plan s s'"
| step_main: "run_main plan s = Some s' \<Longrightarrow> step turn plan s s'"

inductive steps :: "('j \<Rightarrow> 'm \<Rightarrow> ('j, 'r) outcome \<times> 'm) \<Rightarrow> ('c \<Rightarrow> ('j, 'r, 'c) action) \<Rightarrow> nat \<Rightarrow>
    ('j, 'm, 'r, 'c) pool \<Rightarrow> ('j, 'm, 'r, 'c) pool \<Rightarrow> bool" for turn plan where
  steps_0: "steps turn plan 0 s s"
| steps_Suc: "steps turn plan n s s' \<Longrightarrow> step turn plan s' s'' \<Longrightarrow> steps turn plan (Suc n) s s''"

text \<open>A schedule: the threads that take a step, one after the other; a worker that is idle gets a future.\<close>

datatype thread = Main | Worker nat

definition move :: "('j \<Rightarrow> 'm \<Rightarrow> ('j, 'r) outcome \<times> 'm) \<Rightarrow> ('c \<Rightarrow> ('j, 'r, 'c) action) \<Rightarrow> thread \<Rightarrow>
    ('j, 'm, 'r, 'c) pool \<Rightarrow> ('j, 'm, 'r, 'c) pool option" where
  "move turn plan t s = (case t of
     Main \<Rightarrow> run_main plan s
   | Worker i \<Rightarrow> (case get_task i s of None \<Rightarrow> run_task turn i s | Some s \<Rightarrow> Some s))"

fun moves :: "('j \<Rightarrow> 'm \<Rightarrow> ('j, 'r) outcome \<times> 'm) \<Rightarrow> ('c \<Rightarrow> ('j, 'r, 'c) action) \<Rightarrow> thread list \<Rightarrow>
    ('j, 'm, 'r, 'c) pool \<Rightarrow> ('j, 'm, 'r, 'c) pool option" where
  "moves turn plan [] s = Some s"
| "moves turn plan (t # ts) s = (case move turn plan t s of None \<Rightarrow> None | Some s \<Rightarrow> moves turn plan ts s)"

lemma move_step: "move turn plan t s = Some s' \<Longrightarrow> step turn plan s s'"
  by (auto simp: move_def intro: step.intros split: thread.splits option.splits)

lemma steps_Cons: "steps turn plan n s' s'' \<Longrightarrow> step turn plan s s' \<Longrightarrow> steps turn plan (Suc n) s s''"
  by (induction rule: steps.induct) (auto intro: steps.intros)

lemma moves_steps: "moves turn plan ts s = Some s' \<Longrightarrow> steps turn plan (length ts) s s'"
  by (induction ts arbitrary: s) (auto intro: steps_0 steps_Cons dest: move_step split: option.splits)

section \<open>No future is lost\<close>

text \<open>The futures the workers carry out, and those that are not done.\<close>

fun held :: "nat option list \<Rightarrow> nat multiset" where
  "held [] = {#}"
| "held (w # ws) = (case w of None \<Rightarrow> {#} | Some f \<Rightarrow> {#f#}) + held ws"

definition todo :: "('j, 'r) future \<Rightarrow> bool" where
  "todo f = (case f of Todo j \<Rightarrow> True | Finished r \<Rightarrow> False)"

lemma todo_simps [simp]: "todo (Todo j)" "\<not> todo (Finished r)"
  by (simp_all add: todo_def)

lemma todoE: "todo f \<Longrightarrow> (\<And>j. f = Todo j \<Longrightarrow> P) \<Longrightarrow> P"
  by (cases f) auto

definition undone :: "('j, 'r) future list \<Rightarrow> nat multiset" where
  "undone fs = filter_mset (\<lambda>f. todo (fs ! f)) (mset_set {..<length fs})"

text \<open>Every future that is not done waits in the queue or is with one worker, and only there.\<close>

definition pool_ok :: "('j, 'm, 'r, 'c) pool \<Rightarrow> bool" where
  "pool_ok s \<longleftrightarrow> mset (items s) + held (workers s) = undone (futures s)"

lemma held_set: "i < length ws \<Longrightarrow> ws ! i = None \<Longrightarrow> held (ws[i := Some f]) = add_mset f (held ws)"
  by (induction ws arbitrary: i) (auto split: nat.splits option.splits simp: nth_Cons)

lemma held_clear: "i < length ws \<Longrightarrow> ws ! i = Some f \<Longrightarrow> held ws = add_mset f (held (ws[i := None]))"
  by (induction ws arbitrary: i) (auto split: nat.splits option.splits simp: nth_Cons)

lemma held_mem: "f \<in># held ws \<longleftrightarrow> Some f \<in> set ws"
  by (induction ws) (auto split: option.splits)

lemma held_replicate [simp]: "held (replicate n None) = {#}"
  by (induction n) auto

lemma count_undone: "count (undone fs) f = (if f < length fs \<and> todo (fs ! f) then 1 else 0)"
  by (simp add: undone_def)

lemma undone_mem [simp]: "f \<in># undone fs \<longleftrightarrow> f < length fs \<and> todo (fs ! f)"
  by (auto simp: undone_def)

lemma undone_update:
  assumes "f < length fs" and "todo (fs ! f)"
  shows "undone (fs[f := Todo j]) = undone fs" and "undone (fs[f := Finished r]) = undone fs - {#f#}"
  using assms by (auto intro!: multiset_eqI simp: count_undone nth_list_update)

lemma undone_append: "undone (fs @ [Todo j]) = add_mset (length fs) (undone fs)"
  by (rule multiset_eqI) (auto simp: count_undone nth_append)

lemma pool_ok_add_task [simp]: "pool_ok (add_task j s) \<longleftrightarrow> pool_ok s"
  by (simp add: pool_ok_def add_task_def undone_append)

lemma pool_ok_ThreadPool: "pool_ok (ThreadPool n m c)"
  by (simp add: pool_ok_def ThreadPool_def undone_def)

text \<open>What a worker works on is not done.\<close>

lemma worker_todo:
  assumes "pool_ok s" and "i < length (workers s)" and "workers s ! i = Some f"
  shows "f < length (futures s) \<and> (\<exists>j. futures s ! f = Todo j)"
proof -
  have "f \<in># held (workers s)" using assms(2,3) by (metis held_mem nth_mem)
  then have "f \<in># undone (futures s)" using assms(1) by (metis pool_ok_def union_iff)
  then show ?thesis by (auto elim: todoE)
qed

lemma get_task_ok: "get_task i s = Some s' \<Longrightarrow> pool_ok s \<Longrightarrow> pool_ok s'"
  by (cases "items s" rule: rev_cases) (auto simp: get_task_def pool_ok_def held_set split: if_splits)

lemma run_task_ok:
  assumes "run_task turn i s = Some s'" and "pool_ok s"
  shows "pool_ok s'"
proof -
  obtain f where i: "i < length (workers s)" "workers s ! i = Some f"
    using assms(1) by (auto simp: run_task_def split: if_splits option.splits)
  from worker_todo [OF assms(2) this] obtain j where f: "f < length (futures s)" "futures s ! f = Todo j" by blast
  have u: "undone (futures s) = add_mset f (mset (items s) + held ((workers s)[i := None]))"
    using assms(2) held_clear [OF i] by (simp add: pool_ok_def)
  have f': "todo (futures s ! f)" using f by simp
  show ?thesis
    using assms(1) i f u undone_update [OF f(1) f'] held_clear [OF i]
    by (auto simp: run_task_def pool_ok_def add_task_def undone_append split: outcome.splits prod.splits)
qed

lemma run_main_ok: "run_main plan s = Some s' \<Longrightarrow> pool_ok s \<Longrightarrow> pool_ok s'"
  by (auto simp: run_main_def pool_ok_def add_task_def undone_append
      split: sum.splits action.splits if_splits future.splits)

lemma step_pool_ok: "step turn plan s s' \<Longrightarrow> pool_ok s \<Longrightarrow> pool_ok s'"
  by (auto elim!: step.cases intro: get_task_ok run_task_ok run_main_ok)

lemma length_workers: "step turn plan s s' \<Longrightarrow> length (workers s') = length (workers s)"
  by (auto elim!: step.cases simp: get_task_def run_task_def run_main_def add_task_def
      split: if_splits option.splits future.splits outcome.splits prod.splits sum.splits action.splits)

text \<open>What a step is, when no future is lost.\<close>

lemma step_cases [consumes 2, case_names get_task goes submits returns raises creates fails calls]:
  assumes "step turn plan s s'" and "pool_ok s"
  obtains
    i f where "items s = butlast (items s) @ [f]"
      "s' = s\<lparr>workers := (workers s)[i := Some f], items := butlast (items s)\<rparr>"
  | f j j' m where "f < length (futures s)" "futures s ! f = Todo j" "turn j (memory s) = (Goes j', m)"
      "s' = s\<lparr>memory := m, futures := (futures s)[f := Todo j']\<rparr>"
  | f j j0 k m where "f < length (futures s)" "futures s ! f = Todo j" "turn j (memory s) = (Submits j0 k, m)"
      "s' = add_task j0 (s\<lparr>memory := m, futures := (futures s)[f := Todo (k (length (futures s)))]\<rparr>)"
  | f j r m i where "f < length (futures s)" "futures s ! f = Todo j" "turn j (memory s) = (Returns r, m)"
      "s' = s\<lparr>memory := m, futures := (futures s)[f := Finished (Inr r)], workers := (workers s)[i := None]\<rparr>"
  | f j e m i where "f < length (futures s)" "futures s ! f = Todo j" "turn j (memory s) = (Raises e, m)"
      "s' = s\<lparr>memory := m, futures := (futures s)[f := Finished (Inl e)], workers := (workers s)[i := None]\<rparr>"
  | c j k where "main s = Inr c" "plan c = Creates j k" "s' = add_task j (s\<lparr>main := Inr (k (length (futures s)))\<rparr>)"
  | c f k e where "main s = Inr c" "plan c = Calls f k" "f < length (futures s)" "futures s ! f = Finished (Inl e)"
      "s' = s\<lparr>main := Inl e\<rparr>"
  | c f k r where "main s = Inr c" "plan c = Calls f k" "f < length (futures s)" "futures s ! f = Finished (Inr r)"
      "s' = s\<lparr>main := Inr (k r)\<rparr>"
  using assms(1)
proof (cases rule: step.cases)
  case (step_get i)
  then have "items s = butlast (items s) @ [last (items s)]"
    "s' = s\<lparr>workers := (workers s)[i := Some (last (items s))], items := butlast (items s)\<rparr>"
    by (simp_all add: get_task_def split: if_splits)
  then show ?thesis by (rule that(1))
next
  case (step_run i)
  then obtain f where i: "i < length (workers s)" "workers s ! i = Some f"
    by (auto simp: run_task_def split: if_splits option.splits)
  from worker_todo [OF assms(2) this] obtain j where f: "f < length (futures s)" "futures s ! f = Todo j" by blast
  obtain a m where t: "turn j (memory s) = (a, m)" by fastforce
  show ?thesis
    using step_run i f t that(2-5) [OF f]
    by (cases a) (auto simp: run_task_def)
next
  case step_main
  then show ?thesis
    using that(6-8) by (auto simp: run_main_def split: sum.splits action.splits if_splits future.splits)
qed

section \<open>Ending\<close>

definition left :: "('j \<Rightarrow> nat) \<Rightarrow> ('j, 'r) future \<Rightarrow> nat" where
  "left w f = (case f of Todo j \<Rightarrow> w j | Finished r \<Rightarrow> 0)"

lemma left_simps [simp]: "left w (Todo j) = w j" "left w (Finished r) = 0"
  by (simp_all add: left_def)

definition main_left :: "('c \<Rightarrow> nat \<Rightarrow> nat) \<Rightarrow> 'c result \<Rightarrow> nat \<Rightarrow> nat" where
  "main_left mw c n = (case c of Inl e \<Rightarrow> 0 | Inr c \<Rightarrow> mw c n)"

lemma main_left_simps [simp]: "main_left mw (Inl e) n = 0" "main_left mw (Inr c) n = mw c n"
  by (simp_all add: main_left_def)

text \<open>What is left to do: of the jobs, the futures nobody has taken, the main thread.\<close>

definition energy :: "('j \<Rightarrow> nat) \<Rightarrow> ('c \<Rightarrow> nat \<Rightarrow> nat) \<Rightarrow> ('j, 'm, 'r, 'c) pool \<Rightarrow> nat" where
  "energy w mw s = sum_list (map (left w) (futures s)) + length (items s) +
     main_left mw (main s) (length (futures s))"

lemma sum_left_update:
  "f < length fs \<Longrightarrow> sum_list (map (left w) (fs[f := x])) + left w (fs ! f) = sum_list (map (left w) fs) + left w x"
proof (induction fs arbitrary: f)
  case (Cons y fs)
  then show ?case by (cases f) auto
qed simp

text \<open>
  A program that keeps \<open>good\<close>: \<open>w\<close> bounds the turns of a job, what it submits included, and \<open>mw\<close> the
  steps of the main thread, which only calls futures that exist.
\<close>

locale pool_jobs =
  fixes turn :: "'j \<Rightarrow> 'm \<Rightarrow> ('j, 'r) outcome \<times> 'm"
    and plan :: "'c \<Rightarrow> ('j, 'r, 'c) action"
    and w :: "'j \<Rightarrow> nat"
    and mw :: "'c \<Rightarrow> nat \<Rightarrow> nat"
    and good :: "('j, 'm, 'r, 'c) pool \<Rightarrow> bool"
  assumes good_step: "good s \<Longrightarrow> pool_ok s \<Longrightarrow> step turn plan s s' \<Longrightarrow> good s'"
    and w_pos: "0 < w j"
    and goes: "good s \<Longrightarrow> Todo j \<in> set (futures s) \<Longrightarrow> turn j (memory s) = (Goes j', m) \<Longrightarrow> w j' < w j"
    and submits: "good s \<Longrightarrow> Todo j \<in> set (futures s) \<Longrightarrow> turn j (memory s) = (Submits j0 k, m) \<Longrightarrow>
      w j0 + w (k n) + 3 \<le> w j"
    and mw_Suc: "mw c (Suc n) \<le> Suc (mw c n)"
    and creates: "good s \<Longrightarrow> main s = Inr c \<Longrightarrow> plan c = Creates j h \<Longrightarrow>
      w j + mw (h (length (futures s))) (Suc (length (futures s))) + 2 \<le> mw c (length (futures s))"
    and calls: "good s \<Longrightarrow> main s = Inr c \<Longrightarrow> plan c = Calls f g \<Longrightarrow> f < length (futures s) \<and>
      0 < mw c (length (futures s)) \<and>
      (\<forall>r. futures s ! f = Finished (Inr r) \<longrightarrow> mw (g r) (length (futures s)) < mw c (length (futures s)))"
begin

lemma step_energy:
  assumes "step turn plan s s'" and "pool_ok s" and good: "good s"
  shows "energy w mw s' < energy w mw s"
  using assms(1,2)
proof (cases rule: step_cases)
  case (get_task i f)
  then have "items s \<noteq> []" by auto
  then show ?thesis using get_task(2) by (simp add: energy_def)
next
  case (goes f j j' m)
  have "w j' < w j" using pool_jobs.goes [OF pool_jobs_axioms good _ goes(3)] goes(1,2) by (metis nth_mem)
  then show ?thesis using sum_left_update [OF goes(1), of w "Todo j'"] goes by (simp add: energy_def)
next
  case (submits f j j0 k m)
  let ?n = "length (futures s)"
  have "w j0 + w (k ?n) + 3 \<le> w j"
    using pool_jobs.submits [OF pool_jobs_axioms good _ submits(3)] submits(1,2) by (metis nth_mem)
  moreover have "main_left mw (main s) (Suc ?n) \<le> Suc (main_left mw (main s) ?n)" by (cases "main s") (simp_all add: mw_Suc)
  ultimately show ?thesis
    using sum_left_update [OF submits(1), of w "Todo (k ?n)"] submits by (simp add: energy_def add_task_def)
next
  case (returns f j r m i)
  then show ?thesis using sum_left_update [OF returns(1), of w "Finished (Inr r)"] w_pos [of j] by (simp add: energy_def)
next
  case (raises f j e m i)
  then show ?thesis using sum_left_update [OF raises(1), of w "Finished (Inl e)"] w_pos [of j] by (simp add: energy_def)
next
  case (creates c j k)
  then show ?thesis using pool_jobs.creates [OF pool_jobs_axioms good creates(1,2)] by (simp add: energy_def add_task_def)
next
  case (fails c f k e)
  then show ?thesis using pool_jobs.calls [OF pool_jobs_axioms good fails(1,2)] by (simp add: energy_def)
next
  case (calls c f k r)
  then show ?thesis using pool_jobs.calls [OF pool_jobs_axioms good calls(1,2)] by (simp add: energy_def)
qed

lemma steps_energy:
  "steps turn plan n s s' \<Longrightarrow> pool_ok s \<Longrightarrow> good s \<Longrightarrow>
    pool_ok s' \<and> good s' \<and> length (workers s') = length (workers s) \<and> n + energy w mw s' \<le> energy w mw s"
proof (induction rule: steps.induct)
  case (steps_Suc n s s' s'')
  then have "pool_ok s'" "good s'" "length (workers s') = length (workers s)" "n + energy w mw s' \<le> energy w mw s" by blast+
  then show ?case
    using steps_Suc.hyps(2) step_pool_ok good_step step_energy [of s' s''] length_workers [of turn plan s' s''] by fastforce
qed simp

text \<open>While there is a worker, no thread waits for another in vain.\<close>

lemma no_deadlock:
  assumes ok: "pool_ok s" and good: "good s" and ws: "workers s \<noteq> []" and c: "main s = Inr c" "plan c \<noteq> Ends"
  shows "\<exists>s'. step turn plan s s'"
proof (cases "plan c")
  case (Creates j k)
  then show ?thesis using c by (auto intro!: step_main simp: run_main_def)
next
  case Ends
  then show ?thesis using c by simp
next
  case (Calls f k)
  have f: "f < length (futures s)" using calls [OF good c(1) Calls] by simp
  show ?thesis
  proof (cases "futures s ! f")
    case (Finished r)
    then show ?thesis using c Calls f by (cases r) (auto intro!: step_main simp: run_main_def)
  next
    case (Todo j)
    have run: "\<exists>s'. step turn plan s s'" if i: "i < length (workers s)" "workers s ! i = Some g" for i g
    proof -
      from worker_todo [OF ok i] obtain j where "futures s ! g = Todo j" by blast
      then show ?thesis using i by (cases "turn j (memory s)", cases "fst (turn j (memory s))")
        (auto intro!: step_run [of turn i] simp: run_task_def)
    qed
    have "f \<in># mset (items s) + held (workers s)" using f Todo ok by (simp add: pool_ok_def)
    then consider "f \<in> set (items s)" | "Some f \<in> set (workers s)" by (auto simp: held_mem)
    then show ?thesis
    proof cases
      case 1
      then have it: "items s \<noteq> []" by auto
      show ?thesis
      proof (cases "workers s ! 0")
        case None
        then show ?thesis using ws it by (auto intro!: step_get [of 0] simp: get_task_def)
      next
        case (Some g)
        then show ?thesis using run [of 0 g] ws by simp
      qed
    next
      case 2
      then show ?thesis using run by (metis in_set_conv_nth)
    qed
  qed
qed

end

end
