(* ===== verification/QuickSort.thy ===== *)
theory QuickSort
  imports Futures
begin

text \<open>
  \<open>multithread/quick_sort/quick_sort.py\<close>: \<open>qsort_f\<close>, which sorts a segment of a shared deque and leaves
  large parts of it to futures, and the main thread, which waits for all of them. The calls of \<open>qsort_f\<close>
  that a future has still to make are a stack of frames; a step is a call, a turn of the loop or a future
  that is made. The lists \<open>fs\<close> that the calls return are joined in the order in which the futures are made,
  so one list per future is kept.
\<close>

section \<open>The program of a future\<close>

datatype frame =
    Call int int int \<comment> \<open>\<open>qsort_f(xs, l0, n, level)\<close>\<close>
  | Loop int int int int int int \<comment> \<open>in its loop, with \<open>pivot\<close>, \<open>l\<close> and \<open>r\<close>\<close>
  | Submit int int int \<comment> \<open>\<open>fs.append(Future(qsort_f, xs, l0, n, level))\<close>\<close>

type_synonym job = "frame list \<times> nat list"

text \<open>What is to do after the loop: futures for large parts, from level 4 on, then calls for the others.\<close>

definition after_loop :: "int \<Rightarrow> int \<Rightarrow> int \<Rightarrow> int \<Rightarrow> int \<Rightarrow> frame list" where
  "after_loop l0 n level l r =
     (let do_futures = level \<ge> 4;
          leftf = do_futures \<and> r - l0 + 1 > 1500;
          rightf = do_futures \<and> l0 + n - l > 1500
      in (if leftf then [Submit l0 (r - l0 + 1) (level + 1)] else []) @
         (if rightf then [Submit l (l0 + n - l) (level + 1)] else []) @
         (if \<not> leftf then [Call l0 (r - l0 + 1) (level + 1)] else []) @
         (if \<not> rightf then [Call l (l0 + n - l) (level + 1)] else []))"

fun qsort_f :: "job \<Rightarrow> int list \<Rightarrow> (job, nat list) outcome \<times> int list" where
  "qsort_f ([], fs) xs = (Returns fs, xs)"
| "qsort_f (Call l0 n level # k, fs) xs =
     (if n < 2 then (Goes (k, fs), xs)
      else (case py_get xs (l0 + n div 2) of
          Inl e \<Rightarrow> (Raises e, xs)
        | Inr pivot \<Rightarrow> (Goes (Loop l0 n level pivot l0 (l0 + n - 1) # k, fs), xs)))"
| "qsort_f (Loop l0 n level pivot l r # k, fs) xs =
     (if l \<le> r then
        (case py_get xs l of
           Inl e \<Rightarrow> (Raises e, xs)
         | Inr xl \<Rightarrow>
             if xl < pivot then (Goes (Loop l0 n level pivot (l + 1) r # k, fs), xs)
             else (case py_get xs r of
                 Inl e \<Rightarrow> (Raises e, xs)
               | Inr xr \<Rightarrow>
                   if xr > pivot then (Goes (Loop l0 n level pivot l (r - 1) # k, fs), xs)
                   else (case rbind (py_set xs l xr) (\<lambda>xs. py_set xs r xl) of
                       Inl e \<Rightarrow> (Raises e, xs)
                     | Inr xs \<Rightarrow> (Goes (Loop l0 n level pivot (l + 1) (r - 1) # k, fs), xs))))
      else (Goes (after_loop l0 n level l r @ k, fs), xs))"
| "qsort_f (Submit l0 n level # k, fs) xs = (Submits ([Call l0 n level], []) (\<lambda>f. (k, fs @ [f])), xs)"

section \<open>The main thread\<close>

text \<open>\<open>run\<close> makes the first future and calls it; \<open>wait_for_futures\<close> has a list of futures and a count.\<close>

datatype sort_main = Begin int | Calling nat | Waiting "nat list" int

definition sort_plan :: "sort_main \<Rightarrow> (job, nat list, sort_main) action" where
  "sort_plan c = (case c of
     Begin n \<Rightarrow> Creates ([Call 0 n 0], []) Calling
   | Calling f \<Rightarrow> Calls f (\<lambda>fs. Waiting fs 0)
   | Waiting fs c \<Rightarrow> if fs = [] then Ends else Calls (last fs) (\<lambda>r. Waiting (butlast fs @ r) (c + 1)))"

definition sort_pool :: "nat \<Rightarrow> int list \<Rightarrow> (job, int list, nat list, sort_main) pool" where
  "sort_pool threads xs = ThreadPool threads xs (Begin (int (length xs)))"

end
