(* ===== verification/QuickSortProof.thy ===== *)
theory QuickSortProof
  imports QuickSort
begin

text \<open>
  Whatever the order of the steps, the frames that are left stand for disjoint segments of the deque, and
  two elements out of order lie in one of them; every turn makes the segments smaller.
\<close>

section \<open>Segments\<close>

fun seg :: "frame \<Rightarrow> int set" where
  "seg (Call l0 n level) = {l0..<l0 + n}"
| "seg (Loop l0 n level pivot l r) = {l0..<l0 + n}"
| "seg (Submit l0 n level) = {l0..<l0 + n}"

definition at :: "int list \<Rightarrow> int \<Rightarrow> int" where
  "at xs k = xs ! nat k"

text \<open>Inside of the deque, and the invariant of the loop.\<close>

fun fine :: "int list \<Rightarrow> frame \<Rightarrow> bool" where
  "fine xs (Call l0 n level) \<longleftrightarrow> 0 \<le> l0 \<and> 0 \<le> n \<and> l0 + n \<le> int (length xs)"
| "fine xs (Submit l0 n level) \<longleftrightarrow> 0 \<le> l0 \<and> 0 \<le> n \<and> l0 + n \<le> int (length xs)"
| "fine xs (Loop l0 n level p l r) \<longleftrightarrow> 0 \<le> l0 \<and> 2 \<le> n \<and> l0 + n \<le> int (length xs) \<and>
     l0 \<le> l \<and> r < l0 + n \<and> l \<le> r + 2 \<and>
     (\<forall>k. l0 \<le> k \<and> k < l \<longrightarrow> at xs k \<le> p) \<and> (\<forall>k. r < k \<and> k < l0 + n \<longrightarrow> p \<le> at xs k) \<and>
     ((\<exists>k. l \<le> k \<and> k \<le> r \<and> at xs k = p) \<or> l0 < l \<and> r < l0 + n - 1)"

lemma seg_nonneg: "fine xs f \<Longrightarrow> k \<in> seg f \<Longrightarrow> 0 \<le> k"
  by (cases f) auto

definition cover :: "int \<Rightarrow> frame multiset \<Rightarrow> nat" where
  "cover k M = size {#f \<in># M. k \<in> seg f#}"

lemma cover_simps [simp]:
  "cover k {#} = 0" "cover k (add_mset f M) = (if k \<in> seg f then 1 else 0) + cover k M"
  "cover k (M + N) = cover k M + cover k N"
  by (simp_all add: cover_def)

lemma cover_pos: "f \<in># M \<Longrightarrow> k \<in> seg f \<Longrightarrow> 0 < cover k M"
  by (auto dest!: multi_member_split simp: cover_def)

text \<open>Sorted, but for the segments that the frames stand for.\<close>

definition sorted_but :: "int list \<Rightarrow> int list \<Rightarrow> frame multiset \<Rightarrow> bool" where
  "sorted_but xs0 xs M \<longleftrightarrow> mset xs = mset xs0 \<and> (\<forall>f \<in># M. fine xs f) \<and> (\<forall>k. cover k M \<le> 1) \<and>
     (\<forall>i j. 0 \<le> i \<longrightarrow> i < j \<longrightarrow> j < int (length xs) \<longrightarrow> at xs i \<le> at xs j \<or> (\<exists>f \<in># M. i \<in> seg f \<and> j \<in> seg f))"

lemma fine_cong:
  assumes eq: "\<And>k. k \<in> seg f \<Longrightarrow> at xs' k = at xs k" and len: "length xs' = length xs" and fine: "fine xs f"
  shows "fine xs' f"
proof (cases f)
  case (Loop l0 n level p l r)
  then have f: "fine xs (Loop l0 n level p l r)" using fine by simp
  then have lr: "l \<le> l0 + n" "l0 - 1 \<le> r" by auto
  have e: "at xs' k = at xs k" if "l0 \<le> k" "k < l0 + n" for k using that eq Loop by simp
  have "\<forall>k. l0 \<le> k \<and> k < l \<longrightarrow> at xs' k \<le> p" "\<forall>k. r < k \<and> k < l0 + n \<longrightarrow> p \<le> at xs' k"
    "(\<exists>k. l \<le> k \<and> k \<le> r \<and> at xs' k = p) \<or> l0 < l \<and> r < l0 + n - 1"
    using f lr e by fastforce+
  then show ?thesis using f len Loop by simp
qed (use fine len in auto)

text \<open>A frame does its work in its own segment.\<close>

lemma sorted_but_replace:
  assumes s: "sorted_but xs0 xs (add_mset f R)"
    and perm: "mset xs' = mset xs"
    and out: "\<And>k. 0 \<le> k \<Longrightarrow> k \<notin> seg f \<Longrightarrow> at xs' k = at xs k"
    and inn: "\<And>k. k \<in> seg f \<Longrightarrow> \<exists>k' \<in> seg f. at xs' k = at xs k'"
    and fine: "\<And>g. g \<in># N \<Longrightarrow> fine xs' g" and cov: "\<And>k. cover k N \<le> (if k \<in> seg f then 1 else 0)"
    and ord: "\<And>i j. i \<in> seg f \<Longrightarrow> j \<in> seg f \<Longrightarrow> i < j \<Longrightarrow> at xs' i \<le> at xs' j \<or> (\<exists>g \<in># N. i \<in> seg g \<and> j \<in> seg g)"
  shows "sorted_but xs0 xs' (N + R)"
proof -
  have len: "length xs' = length xs" using perm mset_eq_length by blast
  have disj: "k \<notin> seg g" if "g \<in># R" "k \<in> seg f" for g k
  proof
    assume "k \<in> seg g"
    then have "0 < cover k R" using that cover_pos by blast
    moreover have "cover k (add_mset f R) \<le> 1" using s by (simp add: sorted_but_def)
    ultimately show False using that by simp
  qed
  have f: "fine xs f" using s by (simp add: sorted_but_def)
  have ge: "0 \<le> k" "k < int (length xs)" if "k \<in> seg f" for k using f that by (cases f; auto)+
  have conv: "i \<in> seg f \<Longrightarrow> k \<in> seg f \<Longrightarrow> i \<le> j \<Longrightarrow> j \<le> k \<Longrightarrow> j \<in> seg f" for i j k by (cases f) auto
  have old: "at xs i \<le> at xs j \<or> (\<exists>g \<in># R. i \<in> seg g \<and> j \<in> seg g)"
    if "0 \<le> i" "i < j" "j < int (length xs)" "i \<notin> seg f \<or> j \<notin> seg f" for i j
    using s that unfolding sorted_but_def by (metis add_mset_remove_trivial insertE set_mset_add_mset_insert)
  have "at xs' i \<le> at xs' j \<or> (\<exists>g \<in># N + R. i \<in> seg g \<and> j \<in> seg g)"
    if ij: "0 \<le> i" "i < j" "j < int (length xs)" for i j
  proof -
    consider "i \<in> seg f" "j \<in> seg f" | "i \<in> seg f" "j \<notin> seg f" | "i \<notin> seg f" "j \<in> seg f" | "i \<notin> seg f" "j \<notin> seg f" by blast
    then show ?thesis
    proof cases
      case 1
      then show ?thesis using ord ij by auto
    next
      case 2
      then obtain k where k: "k \<in> seg f" "at xs' i = at xs k" using inn by blast
      then have "k < j" using 2 ij conv by (metis less_le_not_le linorder_le_cases order.strict_iff_order)
      then show ?thesis using old [of k j] ge [OF k(1)] k 2 ij out [of j] disj by auto
    next
      case 3
      then obtain k where k: "k \<in> seg f" "at xs' j = at xs k" using inn by blast
      then have "i < k" using 3 ij conv by (metis less_le_not_le linorder_le_cases order.strict_iff_order)
      then show ?thesis using old [of i k] ge [OF k(1)] k 3 ij out [of i] disj by auto
    next
      case 4
      then show ?thesis using old [of i j] ij out [of i] out [of j] by auto
    qed
  qed
  moreover have "fine xs' g" if "g \<in># R" for g
    using s that len out disj seg_nonneg [of xs g] by (intro fine_cong [of g xs' xs]) (auto simp: sorted_but_def)
  moreover have "cover k (N + R) \<le> 1" for k
  proof -
    have "cover k (add_mset f R) \<le> 1" using s by (simp add: sorted_but_def)
    then show ?thesis using cov [of k] by simp
  qed
  ultimately show ?thesis using s perm len fine by (auto simp: sorted_but_def)
qed

section \<open>A step of a future\<close>

definition call_weight :: "int \<Rightarrow> nat" where
  "call_weight n = nat (7 * (n * n)) + 1"

text \<open>How many steps a frame can lead to.\<close>

fun weight :: "frame \<Rightarrow> nat" where
  "weight (Call l0 n level) = call_weight n"
| "weight (Submit l0 n level) = call_weight n + 4"
| "weight (Loop l0 n level pivot l r) = nat (7 * (n * n) - 14 * n + 25) + nat (r - l + 1)"

lemma squares:
  fixes a b n :: int
  assumes "0 \<le> a" "0 \<le> b" "a < n" "b < n" "a + b \<le> n"
  shows "a * a + b * b \<le> n * n - 2 * n + 2"
proof (cases "a = 0")
  case True
  then have "b * b \<le> (n - 1) * (n - 1)" using assms by (intro mult_mono) auto
  with True show ?thesis by (simp add: algebra_simps)
next
  case False
  then have "0 \<le> (a - 1) * (n - 1 - a)" using assms by (intro mult_nonneg_nonneg) auto
  moreover have "b * b \<le> (n - a) * (n - a)" using assms by (intro mult_mono) auto
  ultimately show ?thesis by (simp add: algebra_simps)
qed

lemma loop_weight_nonneg: "0 \<le> 7 * (n * n) - 14 * n + (25 :: int)"
proof -
  have "0 \<le> (n - 1) * (n - 1)" by simp
  then show ?thesis by (simp add: algebra_simps)
qed

lemma py_get_at [simp]: "0 \<le> i \<Longrightarrow> i < int (length xs) \<Longrightarrow> py_get xs i = Inr (at xs i)"
  by (simp add: py_get_def py_index_def at_def)

lemma py_set_at [simp]: "0 \<le> i \<Longrightarrow> i < int (length xs) \<Longrightarrow> py_set xs i v = Inr (xs[nat i := v])"
  by (simp add: py_set_def py_index_def)

lemma at_update: "0 \<le> i \<Longrightarrow> i < int (length xs) \<Longrightarrow> 0 \<le> k \<Longrightarrow> at (xs[nat i := v]) k = (if k = i then v else at xs k)"
  by (auto simp: at_def nth_list_update)

text \<open>The two parts after the loop, however they are handed on.\<close>

lemma after_loop_parts:
  obtains g h where "mset (after_loop l0 n level l r) = {#g, h#}" "sum_list (map weight (after_loop l0 n level l r)) = weight g + weight h"
    "seg g = {l0..<r + 1}" "seg h = {l..<l0 + n}"
    "\<And>xs. fine xs g \<longleftrightarrow> 0 \<le> l0 \<and> l0 \<le> r + 1 \<and> r + 1 \<le> int (length xs)"
    "\<And>xs. fine xs h \<longleftrightarrow> 0 \<le> l \<and> l \<le> l0 + n \<and> l0 + n \<le> int (length xs)"
    "weight g \<le> call_weight (r - l0 + 1) + 4" "weight h \<le> call_weight (l0 + n - l) + 4"
proof -
  let ?g = "if level \<ge> 4 \<and> r - l0 + 1 > 1500 then Submit l0 (r - l0 + 1) (level + 1) else Call l0 (r - l0 + 1) (level + 1)"
  let ?h = "if level \<ge> 4 \<and> l0 + n - l > 1500 then Submit l (l0 + n - l) (level + 1) else Call l (l0 + n - l) (level + 1)"
  show ?thesis by (rule that [of ?g ?h]) (auto simp: after_loop_def Let_def)
qed

lemma qsort_step:
  assumes s: "sorted_but xs0 xs (add_mset fr R)"
  shows "(\<exists>N xs'. qsort_f (fr # k, fs) xs = (Goes (N @ k, fs), xs') \<and> sorted_but xs0 xs' (mset N + R) \<and>
      sum_list (map weight N) < weight fr) \<or>
    (\<exists>l0 n level. fr = Submit l0 n level)"
proof (cases fr)
  case (Call l0 n level)
  have f: "0 \<le> l0" "0 \<le> n" "l0 + n \<le> int (length xs)" using s Call by (simp_all add: sorted_but_def)
  show ?thesis
  proof (cases "n < 2")
    case True
    have "sorted_but xs0 xs ({#} + R)"
      by (rule sorted_but_replace [OF s]) (use True Call in auto)
    with True Call show ?thesis by (intro disjI1 exI [of _ "[]"] exI [of _ xs]) (simp add: call_weight_def)
  next
    case False
    let ?m = "l0 + n div 2"
    let ?N = "[Loop l0 n level (at xs ?m) l0 (l0 + n - 1)]"
    have m: "l0 \<le> ?m" "?m \<le> l0 + n - 1" using f False by auto
    have "sorted_but xs0 xs (mset ?N + R)"
    proof (rule sorted_but_replace [OF s])
      have "\<exists>k. l0 \<le> k \<and> k \<le> l0 + n - 1 \<and> at xs k = at xs ?m" using m by blast
      then show "fine xs g" if "g \<in># mset ?N" for g using that f False by auto
    qed (use Call in auto)
    moreover have "qsort_f (fr # k, fs) xs = (Goes (?N @ k, fs), xs)" using Call False f m by simp
    moreover have "nat (7 * (n * n) - 14 * n + 25) + nat n < nat (7 * (n * n)) + 1"
      using False loop_weight_nonneg [of n] by linarith
    then have "sum_list (map weight ?N) < weight fr" using Call by (simp add: call_weight_def)
    ultimately show ?thesis by blast
  qed
next
  case (Loop l0 n level p l r)
  have f: "fine xs (Loop l0 n level p l r)" using s Loop by (simp add: sorted_but_def)
  have sg: "seg fr = {l0..<l0 + n}" using Loop by simp
  show ?thesis
  proof (cases "l \<le> r")
    case True
    have lr: "0 \<le> l" "l < int (length xs)" "0 \<le> r" "r < int (length xs)" using f True by auto
    have get: "py_get xs l = Inr (at xs l)" "py_get xs r = Inr (at xs r)" using lr by simp_all
    consider "at xs l < p" | "p \<le> at xs l" "p < at xs r" | "p \<le> at xs l" "at xs r \<le> p" by linarith
    then show ?thesis
    proof cases
      case 1
      let ?N = "[Loop l0 n level p (l + 1) r]"
      have "sorted_but xs0 xs (mset ?N + R)"
      proof (rule sorted_but_replace [OF s])
        have "at xs k \<le> p" if "l0 \<le> k" "k < l + 1" for k using f 1 that by (cases "k = l") auto
        moreover have "l + 1 \<le> k" if "l \<le> k" "at xs k = p" for k using that 1 by (cases "k = l") auto
        then have "(\<exists>k. l + 1 \<le> k \<and> k \<le> r \<and> at xs k = p) \<or> l0 < l + 1 \<and> r < l0 + n - 1" using f by force
        ultimately show "fine xs g" if "g \<in># mset ?N" for g using that f True by auto
      qed (use Loop in auto)
      moreover have "qsort_f (fr # k, fs) xs = (Goes (?N @ k, fs), xs)" using Loop True get 1 by simp
      moreover have "sum_list (map weight ?N) < weight fr" using Loop True by simp
      ultimately show ?thesis by blast
    next
      case 2
      let ?N = "[Loop l0 n level p l (r - 1)]"
      have "sorted_but xs0 xs (mset ?N + R)"
      proof (rule sorted_but_replace [OF s])
        have "p \<le> at xs k" if "r - 1 < k" "k < l0 + n" for k using f 2 that by (cases "k = r") auto
        moreover have "k \<le> r - 1" if "k \<le> r" "at xs k = p" for k using that 2 by (cases "k = r") auto
        then have "(\<exists>k. l \<le> k \<and> k \<le> r - 1 \<and> at xs k = p) \<or> l0 < l \<and> r - 1 < l0 + n - 1" using f by force
        ultimately show "fine xs g" if "g \<in># mset ?N" for g using that f True by auto
      qed (use Loop in auto)
      moreover have "qsort_f (fr # k, fs) xs = (Goes (?N @ k, fs), xs)" using Loop True get 2 by simp
      moreover have "sum_list (map weight ?N) < weight fr" using Loop True by simp
      ultimately show ?thesis by blast
    next
      case 3
      let ?N = "[Loop l0 n level p (l + 1) (r - 1)]" and ?xs = "xs[nat l := at xs r, nat r := at xs l]"
      have new: "at ?xs k = (if k = r then at xs l else if k = l then at xs r else at xs k)" if "0 \<le> k" for k
        using lr that by (simp add: at_update)
      have "mset ?xs = mset xs" unfolding at_def using lr by (intro mset_swap) auto
      moreover have "fine ?xs (Loop l0 n level p (l + 1) (r - 1))"
      proof -
        have "at ?xs k \<le> p" if "l0 \<le> k" "k < l + 1" for k using f 3 that True new [of k] by (cases "k = l") auto
        moreover have "p \<le> at ?xs k" if "r - 1 < k" "k < l0 + n" for k using f 3 that True new [of k] by (cases "k = r") auto
        ultimately show ?thesis using f True by auto
      qed
      moreover have "at ?xs k = at xs k" if "0 \<le> k" "k \<notin> seg fr" for k
        using that sg f True lr by (auto simp: new)
      moreover have "\<exists>k' \<in> seg fr. at ?xs k = at xs k'" if "k \<in> seg fr" for k
        using that sg f True new [of k] by (intro bexI [of _ "if k = r then l else if k = l then r else k"]) auto
      ultimately have "sorted_but xs0 ?xs (mset ?N + R)"
        using sg by (intro sorted_but_replace [OF s]) auto
      moreover have "qsort_f (fr # k, fs) xs = (Goes (?N @ k, fs), ?xs)" using Loop True get 3 lr by simp
      moreover have "sum_list (map weight ?N) < weight fr" using Loop True by simp
      ultimately show ?thesis by blast
    qed
  next
    case False
    then have lr: "l0 < l" "r < l0 + n - 1" "r < l" "l \<le> r + 2" using f by auto
    obtain g h where gh: "mset (after_loop l0 n level l r) = {#g, h#}"
      "sum_list (map weight (after_loop l0 n level l r)) = weight g + weight h"
      "seg g = {l0..<r + 1}" "seg h = {l..<l0 + n}"
      "fine xs g \<longleftrightarrow> 0 \<le> l0 \<and> l0 \<le> r + 1 \<and> r + 1 \<le> int (length xs)"
      "fine xs h \<longleftrightarrow> 0 \<le> l \<and> l \<le> l0 + n \<and> l0 + n \<le> int (length xs)"
      "weight g \<le> call_weight (r - l0 + 1) + 4" "weight h \<le> call_weight (l0 + n - l) + 4"
      by (rule after_loop_parts) blast
    have "sorted_but xs0 xs (mset (after_loop l0 n level l r) + R)"
    proof (rule sorted_but_replace [OF s])
      show "fine xs x" if "x \<in># mset (after_loop l0 n level l r)" for x
        using that f lr by (auto simp: gh)
      show "cover k (mset (after_loop l0 n level l r)) \<le> (if k \<in> seg fr then 1 else 0)" for k
        using lr by (auto simp: gh sg)
      fix i j assume ij: "i \<in> seg fr" "j \<in> seg fr" "i < j"
      show "at xs i \<le> at xs j \<or> (\<exists>x \<in># mset (after_loop l0 n level l r). i \<in> seg x \<and> j \<in> seg x)"
      proof (cases "j \<le> r \<or> l \<le> i")
        case True
        then show ?thesis using ij sg gh(1,3,4) by auto
      next
        case False
        then have "at xs i \<le> p" "p \<le> at xs j" using f ij sg by auto
        then show ?thesis by linarith
      qed
    qed auto
    moreover have "qsort_f (fr # k, fs) xs = (Goes (after_loop l0 n level l r @ k, fs), xs)" using Loop False by simp
    moreover have "sum_list (map weight (after_loop l0 n level l r)) < weight fr"
    proof -
      let ?a = "r - l0 + 1" and ?b = "l0 + n - l"
      have "?a * ?a + ?b * ?b \<le> n * n - 2 * n + 2" using lr f by (intro squares) auto
      moreover have "0 \<le> ?a * ?a" "0 \<le> ?b * ?b" by simp_all
      ultimately have "nat (7 * (?a * ?a)) + nat (7 * (?b * ?b)) + 10 < nat (7 * (n * n) - 14 * n + 25)" by linarith
      then show ?thesis using Loop False gh(2,7,8) unfolding call_weight_def by simp
    qed
    ultimately show ?thesis by blast
  qed
next
  case (Submit l0 n level)
  then show ?thesis by blast
qed

section \<open>The invariant\<close>

definition frames :: "(job, nat list) future \<Rightarrow> frame multiset" where
  "frames f = (case f of Todo j \<Rightarrow> mset (fst j) | Finished r \<Rightarrow> {#})"

text \<open>The futures that a future has made.\<close>

definition made :: "(job, nat list) future \<Rightarrow> nat list" where
  "made f = (case f of Todo j \<Rightarrow> snd j | Finished (Inr fs) \<Rightarrow> fs | Finished (Inl e) \<Rightarrow> [])"

lemma frames_made_simps [simp]:
  "frames (Todo (k, fs)) = mset k" "frames (Finished r) = {#}"
  "made (Todo (k, fs)) = fs" "made (Finished (Inr fs)) = fs" "made (Finished (Inl e)) = []"
  by (simp_all add: frames_def made_def)

definition all_frames :: "(job, nat list) future list \<Rightarrow> frame multiset" where
  "all_frames fs = sum_list (map frames fs)"

lemma all_frames_append [simp]: "all_frames (fs @ [f]) = all_frames fs + frames f"
  by (simp add: all_frames_def)

lemma all_frames_split: "f < length fs \<Longrightarrow> \<exists>R. \<forall>x. all_frames (fs[f := x]) = frames x + R"
proof (induction fs arbitrary: f)
  case (Cons y fs)
  show ?case
  proof (cases f)
    case 0
    then show ?thesis by (auto simp: all_frames_def)
  next
    case (Suc g)
    then obtain R where "\<forall>x. all_frames (fs[g := x]) = frames x + R" using Cons by auto
    then have "\<forall>x. all_frames ((y # fs)[f := x]) = frames x + (frames y + R)" using Suc by (auto simp: all_frames_def ac_simps)
    then show ?thesis by blast
  qed
qed simp

text \<open>
  \<open>D\<close> are the futures that have been called, \<open>pend\<close> those that the main thread knows and has still to
  call: the others have been made by a future that has not been called, and after it.
\<close>

definition accounted :: "(job, nat list) future list \<Rightarrow> nat list \<Rightarrow> nat set \<Rightarrow> bool" where
  "accounted fs pend D \<longleftrightarrow> D \<subseteq> {..<length fs} \<and> (\<forall>i \<in> D. \<exists>r. fs ! i = Finished (Inr r)) \<and>
     (\<forall>j < length fs. \<forall>i \<in> set (made (fs ! j)). j < i) \<and>
     mset pend + (\<Sum>i \<in> {..<length fs} - D. mset (made (fs ! i))) + mset_set D = mset_set {..<length fs}"

lemma accounted_update:
  assumes "accounted fs pend D" and "f < length fs" and "fs ! f = Todo j" and "made x = made (fs ! f)"
  shows "accounted (fs[f := x]) pend D"
proof -
  have m: "made (fs[f := x] ! i) = made (fs ! i)" for i
    using assms(2,4) by (cases "i = f") simp_all
  have "f \<notin> D" using assms(1,3) by (force simp: accounted_def)
  then have "fs[f := x] ! i = fs ! i" if "i \<in> D" for i using that by (metis nth_list_update_neq)
  then show ?thesis using assms(1) m by (auto simp: accounted_def)
qed

lemma accounted_submit:
  assumes "accounted fs pend D" and f: "f < length fs" "fs ! f = Todo (k, ms)"
  shows "accounted (fs[f := Todo (k', ms @ [length fs])] @ [Todo (k0, [])]) pend D"
proof -
  let ?n = "length fs" and ?fs = "fs[f := Todo (k', ms @ [length fs])] @ [Todo (k0, [])]"
  have D: "f \<notin> D" "?n \<notin> D" "finite D" "D \<subseteq> {..<?n}" using assms by (force simp: accounted_def finite_subset)+
  have m: "made (?fs ! i) = (if i = f then ms @ [?n] else if i = ?n then [] else made (fs ! i))" if "i \<le> ?n" for i
    using that f by (auto simp: nth_append nth_list_update)
  have "(\<Sum>i \<in> {..<Suc ?n} - D. mset (made (?fs ! i))) = (\<Sum>i \<in> {..<?n} - D. mset (made (?fs ! i)))"
  proof -
    have "{..<Suc ?n} - D = insert ?n ({..<?n} - D)" using D by auto
    moreover have "made (?fs ! ?n) = []" by (simp add: nth_append)
    ultimately show ?thesis by simp
  qed
  also have "\<dots> = (\<Sum>i \<in> {..<?n} - D. mset (made (fs ! i)) + (if i = f then {#?n#} else {#}))"
    using f by (intro sum.cong) (auto simp: m)
  also have "\<dots> = add_mset ?n (\<Sum>i \<in> {..<?n} - D. mset (made (fs ! i)))"
    using f D by (simp add: sum.distrib)
  finally have sum: "(\<Sum>i \<in> {..<Suc ?n} - D. mset (made (?fs ! i))) = add_mset ?n (\<Sum>i \<in> {..<?n} - D. mset (made (fs ! i)))" .
  have "\<forall>i \<in> set (made (?fs ! j)). j < i" if "j < Suc ?n" for j
    using assms that m [of j] by (auto simp: accounted_def split: if_splits)
  moreover have "\<exists>r. ?fs ! i = Finished (Inr r)" if "i \<in> D" for i
  proof -
    have "f \<noteq> i" "i < ?n" using that D by auto
    then show ?thesis using assms(1) that by (auto simp: accounted_def nth_append)
  qed
  moreover have "mset pend + (\<Sum>i \<in> {..<length ?fs} - D. mset (made (?fs ! i))) + mset_set D = mset_set {..<length ?fs}"
  proof -
    have "mset pend + (\<Sum>i \<in> {..<?n} - D. mset (made (fs ! i))) + mset_set D = mset_set {..<?n}"
      using assms(1) by (simp add: accounted_def)
    moreover have "length ?fs = Suc ?n" "mset_set {..<Suc ?n} = add_mset ?n (mset_set {..<?n})"
      by (simp_all add: lessThan_Suc)
    ultimately show ?thesis by (simp only: sum union_mset_add_mset_left union_mset_add_mset_right)
  qed
  ultimately show ?thesis using D(4) unfolding accounted_def by auto
qed

lemma accounted_call:
  assumes a: "accounted fs (pend @ [f]) D" and f: "fs ! f = Finished (Inr r)"
  shows "accounted fs (pend @ r) (insert f D) \<and> f \<notin> D"
proof -
  let ?n = "length fs" and ?S = "\<lambda>D. \<Sum>i \<in> {..<length fs} - D. mset (made (fs ! i))"
  have eq: "add_mset f (mset pend) + ?S D + mset_set D = mset_set {..<?n}" using a by (simp add: accounted_def)
  have D: "finite D" using a by (auto simp: accounted_def finite_subset)
  have c: "count (add_mset f (mset pend) + ?S D + mset_set D) f \<le> 1" unfolding eq by (simp add: count_mset_set')
  have "f \<in># add_mset f (mset pend) + ?S D + mset_set D" by simp
  then have fn: "f < ?n" unfolding eq by simp
  have fD: "f \<notin> D"
  proof
    assume "f \<in> D"
    then have "count (mset_set D) f = 1" using D by simp
    then show False using c by simp
  qed
  have U: "{..<?n} - D = insert f ({..<?n} - insert f D)" using fn fD by auto
  have "(\<Sum>i \<in> insert f ({..<?n} - insert f D). mset (made (fs ! i))) = mset r + ?S (insert f D)"
    using f by (subst sum.insert) simp_all
  then have S: "?S D = mset r + ?S (insert f D)" by (subst U)
  define T where "T = ?S (insert f D)"
  have E: "mset_set (insert f D) = add_mset f (mset_set D)" using fD D by simp
  have "mset (pend @ r) + T + mset_set (insert f D) = mset_set {..<?n}"
    using eq unfolding S T_def [symmetric] E by (simp add: ac_simps)
  then show ?thesis using a fn fD f unfolding accounted_def T_def by auto
qed

text \<open>When nothing is left to call, everything has been.\<close>

lemma accounted_end:
  assumes a: "accounted fs [] D"
  shows "D = {..<length fs}"
proof (rule ccontr)
  have D: "D \<subseteq> {..<length fs}" "finite D" using a by (auto simp: accounted_def finite_subset)
  assume "D \<noteq> {..<length fs}"
  then have "\<exists>i. i < length fs \<and> i \<notin> D" using D by blast
  from exists_least_iff [THEN iffD1, OF this]
  obtain i where i: "i < length fs" "i \<notin> D" "\<And>j. j < i \<Longrightarrow> j < length fs \<Longrightarrow> j \<in> D" by blast
  have "i \<in># mset_set {..<length fs}" using i by simp
  then have "i \<in># (\<Sum>j \<in> {..<length fs} - D. mset (made (fs ! j)))"
    using a i(2) D unfolding accounted_def by (metis add_0 elem_mset_set mset.simps(1) union_iff)
  then obtain j where j: "j < length fs" "j \<notin> D" "i \<in> set (made (fs ! j))" by (auto simp: set_mset_sum)
  then have "j < i" using a by (auto simp: accounted_def)
  then show False using i(3) j by blast
qed

text \<open>What the main thread knows and has still to call, and how many futures it has called.\<close>

fun pending :: "sort_main \<Rightarrow> nat list" where
  "pending (Begin n) = []"
| "pending (Calling f) = [f]"
| "pending (Waiting fs c) = fs"

fun called :: "sort_main \<Rightarrow> int" where
  "called (Begin n) = 0"
| "called (Calling f) = 0"
| "called (Waiting fs c) = c + 1"

definition sorting :: "int list \<Rightarrow> (job, int list, nat list, sort_main) pool \<Rightarrow> bool" where
  "sorting xs0 s \<longleftrightarrow>
     (\<forall>e. Finished (Inl e) \<notin> set (futures s)) \<and>
     (case main s of
        Inl e \<Rightarrow> False
      | Inr (Begin n) \<Rightarrow> n = int (length xs0) \<and> futures s = [] \<and> memory s = xs0
      | Inr c \<Rightarrow> sorted_but xs0 (memory s) (all_frames (futures s)) \<and>
          (\<exists>D. accounted (futures s) (pending c) D \<and> called c = int (card D)))"

definition job_weight :: "job \<Rightarrow> nat" where
  "job_weight j = 1 + sum_list (map weight (fst j))"

fun main_weight :: "sort_main \<Rightarrow> nat \<Rightarrow> nat" where
  "main_weight (Begin n) k = call_weight n + k + 5"
| "main_weight (Calling f) k = k + 1"
| "main_weight (Waiting fs c) k = k - nat (c + 1)"

definition sort_state :: "int list \<Rightarrow> (job, int list, nat list, sort_main) pool \<Rightarrow> sort_main \<Rightarrow> bool" where
  "sort_state xs0 s c \<longleftrightarrow> sorted_but xs0 (memory s) (all_frames (futures s)) \<and>
     (\<exists>D. accounted (futures s) (pending c) D \<and> called c = int (card D)) \<and>
     (\<forall>e. Finished (Inl e) \<notin> set (futures s))"

lemma sorting_iff: "sorting xs0 s \<longleftrightarrow>
    (main s = Inr (Begin (int (length xs0))) \<and> futures s = [] \<and> memory s = xs0) \<or>
    (\<exists>c. main s = Inr c \<and> (\<forall>n. c \<noteq> Begin n) \<and> sort_state xs0 s c)"
  by (auto simp: sorting_def sort_state_def split: sum.splits sort_main.splits)

text \<open>The turn of a future, within the state.\<close>

lemma future_step:
  assumes s: "sort_state xs0 s c" and f: "f < length (futures s)" "futures s ! f = Todo (fr # k, fs)"
  shows "(\<exists>N xs'. qsort_f (fr # k, fs) (memory s) = (Goes (N @ k, fs), xs') \<and> sum_list (map weight N) < weight fr \<and>
      sort_state xs0 (s\<lparr>memory := xs', futures := (futures s)[f := Todo (N @ k, fs)]\<rparr>) c) \<or>
    (\<exists>l0 n level. fr = Submit l0 n level)"
proof -
  obtain R where R: "\<And>x. all_frames ((futures s)[f := x]) = frames x + R" using all_frames_split [OF f(1)] by blast
  have "all_frames (futures s) = frames (futures s ! f) + R"
    using R [of "futures s ! f"] by (simp only: list_update_id)
  then have "sorted_but xs0 (memory s) (add_mset fr (mset k + R))" using s f(2) by (simp add: sort_state_def)
  from qsort_step [OF this, of k fs] show ?thesis
  proof (elim disjE exE conjE)
    fix N xs'
    assume N: "qsort_f (fr # k, fs) (memory s) = (Goes (N @ k, fs), xs')"
      "sorted_but xs0 xs' (mset N + (mset k + R))" "sum_list (map weight N) < weight fr"
    have "accounted ((futures s)[f := Todo (N @ k, fs)]) p D" if "accounted (futures s) p D" for p D
      using accounted_update [OF that f, of "Todo (N @ k, fs)"] f(2) by simp
    then have "sort_state xs0 (s\<lparr>memory := xs', futures := (futures s)[f := Todo (N @ k, fs)]\<rparr>) c"
      using s N(2) f set_update_subset_insert [of "futures s" f] by (fastforce simp: sort_state_def R ac_simps)
    then show ?thesis using N by blast
  qed blast
qed

lemma job_cases:
  assumes "qsort_f j xs = (a, m)"
  obtains fs where "j = ([], fs)" "a = Returns fs" "m = xs" | fr k fs where "j = (fr # k, fs)" "\<forall>r. a \<noteq> Returns r"
proof (cases j)
  case (Pair ks fs)
  show ?thesis
  proof (cases ks)
    case Nil
    then show ?thesis using that(1) assms Pair by simp
  next
    case (Cons fr k)
    then show ?thesis using that(2) assms Pair
      by (cases fr) (auto split: if_splits sum.splits)
  qed
qed

lemma sort_state_main [simp]: "sort_state xs0 (s\<lparr>main := x\<rparr>) c \<longleftrightarrow> sort_state xs0 s c"
  by (simp add: sort_state_def)

lemma sort_state_workers [simp]: "sort_state xs0 (s\<lparr>workers := x\<rparr>) c \<longleftrightarrow> sort_state xs0 s c"
  by (simp add: sort_state_def)

lemma sort_state_items [simp]: "sort_state xs0 (s\<lparr>items := x\<rparr>) c \<longleftrightarrow> sort_state xs0 s c"
  by (simp add: sort_state_def)

lemma future_submit:
  assumes s: "sort_state xs0 s c" and f: "f < length (futures s)" "futures s ! f = Todo (Submit l0 n level # k, fs)"
  shows "sort_state xs0 (add_task ([Call l0 n level], [])
    (s\<lparr>futures := (futures s)[f := Todo (k, fs @ [length (futures s)])]\<rparr>)) c"
proof -
  obtain R where R: "\<And>x. all_frames ((futures s)[f := x]) = frames x + R" using all_frames_split [OF f(1)] by blast
  have "all_frames (futures s) = frames (futures s ! f) + R"
    using R [of "futures s ! f"] by (simp only: list_update_id)
  then have so: "sorted_but xs0 (memory s) (add_mset (Submit l0 n level) (mset k + R))" using s f(2) by (simp add: sort_state_def)
  then have "fine (memory s) (Call l0 n level)" by (simp add: sorted_but_def)
  then have "sorted_but xs0 (memory s) ({#Call l0 n level#} + (mset k + R))"
    by (intro sorted_but_replace [OF so]) auto
  moreover have "accounted ((futures s)[f := Todo (k, fs @ [length (futures s)])] @ [Todo ([Call l0 n level], [])]) p D"
    if "accounted (futures s) p D" for p D
    using accounted_submit [OF that f] .
  moreover have "Finished (Inl e) \<notin> set ((futures s)[f := Todo (k, fs @ [length (futures s)])])" for e
    using s set_update_subset_insert [of "futures s" f] by (fastforce simp: sort_state_def)
  ultimately show ?thesis using s by (auto simp: sort_state_def add_task_def R ac_simps)
qed

lemma future_return:
  assumes s: "sort_state xs0 s c" and f: "f < length (futures s)" "futures s ! f = Todo ([], fs)"
  shows "sort_state xs0 (s\<lparr>futures := (futures s)[f := Finished (Inr fs)]\<rparr>) c"
proof -
  obtain R where R: "\<And>x. all_frames ((futures s)[f := x]) = frames x + R" using all_frames_split [OF f(1)] by blast
  have "all_frames (futures s) = frames (futures s ! f) + R"
    using R [of "futures s ! f"] by (simp only: list_update_id)
  moreover have "accounted ((futures s)[f := Finished (Inr fs)]) p D" if "accounted (futures s) p D" for p D
    using accounted_update [OF that f] f(2) by simp
  moreover have "Finished (Inl e) \<notin> set ((futures s)[f := Finished (Inr fs)])" for e
    using s set_update_subset_insert [of "futures s" f] by (fastforce simp: sort_state_def)
  ultimately show ?thesis using s f(2) by (auto simp: sort_state_def R)
qed

lemma first_state:
  "sort_state xs0 (add_task ([Call 0 (int (length xs0)) 0], []) (s\<lparr>futures := [], memory := xs0\<rparr>)) (Calling 0)"
proof -
  have "sorted_but xs0 xs0 {#Call 0 (int (length xs0)) 0#}" by (auto simp: sorted_but_def)
  moreover have "accounted [Todo ([Call 0 (int (length xs0)) 0], [])] [0] {}"
    by (simp add: accounted_def lessThan_Suc)
  ultimately show ?thesis by (auto simp: sort_state_def add_task_def all_frames_def intro!: exI [of _ "{}"])
qed

lemma main_call:
  assumes s: "sort_state xs0 s c" and c: "sort_plan c = Calls f g" "\<forall>n. c \<noteq> Begin n"
    and f: "futures s ! f = Finished (Inr r)"
  shows "sort_state xs0 s (g r) \<and> (\<forall>n. g r \<noteq> Begin n)"
proof -
  obtain D where D: "accounted (futures s) (pending c) D" "called c = int (card D)" using s by (auto simp: sort_state_def)
  obtain p where p: "pending c = p @ [f]" "g = (\<lambda>r. Waiting (p @ r) (called c))"
  proof (cases c)
    case (Calling f')
    then show ?thesis using c that [of "[]"] by (auto simp: sort_plan_def)
  next
    case (Waiting fs k)
    then show ?thesis using c that [of "butlast fs"] by (auto simp: sort_plan_def split: if_splits)
  qed (use c in auto)
  have "accounted (futures s) (p @ r) (insert f D) \<and> f \<notin> D" using accounted_call [of _ p f D, OF _ f] D(1) p(1) by simp
  moreover have "finite D" using D(1) by (auto simp: accounted_def finite_subset)
  ultimately show ?thesis using s D(2) p(2) by (auto simp: sort_state_def intro!: exI [of _ "insert f D"])
qed

lemma sorting_step:
  assumes s: "sorting xs0 s" and ok: "pool_ok s" and st: "step qsort_f sort_plan s s'"
  shows "sorting xs0 s'"
  using st ok
proof (cases rule: step_cases)
  case (get_task i f)
  then show ?thesis using s by (auto simp: sorting_iff)
next
  case (goes f j j' m)
  then obtain c where c: "main s = Inr c" "\<forall>n. c \<noteq> Begin n" "sort_state xs0 s c" using s by (force simp: sorting_iff)
  obtain fr k fs where j: "j = (fr # k, fs)" using goes(3) by (rule job_cases) auto
  from future_step [OF c(3) goes(1)] goes j c show ?thesis by (fastforce simp: sorting_iff)
next
  case (submits f j j0 k m)
  then obtain c where c: "main s = Inr c" "\<forall>n. c \<noteq> Begin n" "sort_state xs0 s c" using s by (force simp: sorting_iff)
  obtain fr k' fs where j: "j = (fr # k', fs)" using submits(3) by (rule job_cases) auto
  have "\<exists>l0 n level. fr = Submit l0 n level" using future_step [OF c(3) submits(1)] submits(2,3) j by fastforce
  then obtain l0 n level where fr: "fr = Submit l0 n level" by blast
  have k: "j0 = ([Call l0 n level], [])" "k = (\<lambda>f. (k', fs @ [f]))" "m = memory s" using submits(3) j fr by auto
  have "sort_state xs0 s' c" using future_submit [OF c(3) submits(1)] submits(2,4) j fr k by simp
  moreover have "main s' = main s" using submits(4) by (simp add: add_task_def)
  ultimately show ?thesis using c by (auto simp: sorting_iff)
next
  case (returns f j r m i)
  then obtain c where c: "main s = Inr c" "\<forall>n. c \<noteq> Begin n" "sort_state xs0 s c" using s by (force simp: sorting_iff)
  obtain fs where j: "j = ([], fs)" "r = fs" "m = memory s" using returns(3) by (rule job_cases) auto
  have "sort_state xs0 s' c" using future_return [OF c(3) returns(1)] returns(2,4) j by simp
  moreover have "main s' = main s" using returns(4) by simp
  ultimately show ?thesis using c by (auto simp: sorting_iff)
next
  case (raises f j e m i)
  then obtain c where c: "main s = Inr c" "\<forall>n. c \<noteq> Begin n" "sort_state xs0 s c" using s by (force simp: sorting_iff)
  obtain fr k fs where j: "j = (fr # k, fs)" using raises(3) by (rule job_cases) auto
  from future_step [OF c(3) raises(1)] raises j show ?thesis by fastforce
next
  case (creates c j k)
  then obtain n where c: "c = Begin n" "j = ([Call 0 n 0], [])" "k = Calling"
    by (cases c) (auto simp: sort_plan_def split: if_splits)
  then have s0: "n = int (length xs0)" "futures s = []" "memory s = xs0" using s creates(1) by (auto simp: sorting_iff)
  have e: "s\<lparr>main := Inr (Calling 0)\<rparr> = (s\<lparr>main := Inr (Calling 0)\<rparr>)\<lparr>futures := [], memory := xs0\<rparr>" using s0 by simp
  have "sort_state xs0 s' (Calling 0)"
    using first_state [of xs0 "s\<lparr>main := Inr (Calling 0)\<rparr>"] creates(3) c s0 e by simp
  moreover have "main s' = Inr (Calling 0)" using creates(3) c s0 by (simp add: add_task_def)
  ultimately show ?thesis by (auto simp: sorting_iff)
next
  case (fails c f k e)
  then show ?thesis using s by (auto simp: sorting_iff sort_state_def dest: nth_mem)
next
  case (calls c f k r)
  have "\<forall>n. c \<noteq> Begin n" "sort_state xs0 s c" using s calls(1,2) by (auto simp: sorting_iff sort_plan_def)
  from main_call [OF this(2) calls(2) this(1) calls(4)] calls(5) show ?thesis by (auto simp: sorting_iff)
qed

section \<open>The whole run\<close>

interpretation qs: pool_jobs qsort_f sort_plan job_weight main_weight "sorting xs0" for xs0
proof (unfold_locales, goal_cases)
  case (1 s s')
  then show ?case by (rule sorting_step)
next
  case (2 j)
  then show ?case by (simp add: job_weight_def)
next
  case (3 s j j' m)
  then obtain c where c: "sort_state xs0 s c" by (force simp: sorting_iff)
  obtain f where f: "f < length (futures s)" "futures s ! f = Todo j" using 3(2) by (auto simp: in_set_conv_nth)
  obtain fr k fs where j: "j = (fr # k, fs)" using 3(3) by (rule job_cases) auto
  from future_step [OF c f(1)] f 3(3) j show ?case by (fastforce simp: job_weight_def)
next
  case (4 s j j0 k m n)
  obtain fr k' fs where "j = (fr # k', fs)" using 4(3) by (rule job_cases) auto
  then show ?case using 4(3) by (cases fr) (auto simp: job_weight_def split: if_splits sum.splits)
next
  case (5 c n)
  then show ?case by (cases c) auto
next
  case (6 s c j h)
  then obtain n where c: "c = Begin n" "j = ([Call 0 n 0], [])" "h = Calling"
    by (cases c) (auto simp: sort_plan_def split: if_splits)
  then show ?case using 6 by (auto simp: sorting_iff job_weight_def)
next
  case (7 s c f g)
  then have c: "\<forall>n. c \<noteq> Begin n" "sort_state xs0 s c" by (auto simp: sorting_iff sort_plan_def)
  then obtain D where D: "accounted (futures s) (pending c) D" "called c = int (card D)" by (auto simp: sort_state_def)
  have fp: "f \<in> set (pending c)" using 7(3) c(1) by (cases c) (auto simp: sort_plan_def split: if_splits)
  have eq: "mset (pending c) + (\<Sum>i \<in> {..<length (futures s)} - D. mset (made (futures s ! i))) + mset_set D =
      mset_set {..<length (futures s)}" "D \<subseteq> {..<length (futures s)}" "finite D"
    using D(1) by (auto simp: accounted_def finite_subset)
  have "f \<in># mset_set {..<length (futures s)}" using fp unfolding eq(1) [symmetric] by simp
  then have f: "f < length (futures s)" by simp
  have "size (mset (pending c)) + size (mset_set D) \<le> length (futures s)"
    using arg_cong [OF eq(1), of size] by simp
  then have "card D < length (futures s)" using fp by (cases "pending c") auto
  then show ?case using 7(3) c(1) D(2) f by (cases c) (auto simp: sort_plan_def split: if_splits)
qed

lemma sorted_but_sorted: "sorted_but xs0 xs {#} \<Longrightarrow> xs = sort xs0"
proof (rule properties_for_sort [symmetric])
  assume s: "sorted_but xs0 xs {#}"
  then show "mset xs = mset xs0" by (simp add: sorted_but_def)
  have "at xs (int i) \<le> at xs (int j)" if "i < j" "j < length xs" for i j
    using s that by (simp add: sorted_but_def)
  then show "sorted xs" by (simp add: sorted_iff_nth_mono_less at_def)
qed

lemma all_frames_finished: "(\<And>i. i < length fs \<Longrightarrow> \<exists>r. fs ! i = Finished r) \<Longrightarrow> all_frames fs = {#}"
proof (induction fs rule: rev_induct)
  case (snoc x fs)
  have "\<exists>r. fs ! i = Finished r" if "i < length fs" for i using snoc.prems [of i] that by (simp add: nth_append)
  moreover have "\<exists>r. x = Finished r" using snoc.prems [of "length fs"] by simp
  ultimately show ?case using snoc.IH by auto
qed (simp add: all_frames_def)

lemma sorting_ends:
  assumes "sorting xs0 s" and "main s = Inr c" and "sort_plan c = Ends"
  shows "c = Waiting [] (int (length (futures s)) - 1) \<and> memory s = sort xs0 \<and>
    (\<forall>f \<in> set (futures s). \<exists>fs. f = Finished (Inr fs))"
proof -
  obtain k where c: "c = Waiting [] k" using assms(3) by (cases c) (auto simp: sort_plan_def split: if_splits)
  then have st: "sort_state xs0 s (Waiting [] k)" using assms(1,2) by (auto simp: sorting_iff)
  then obtain D where D: "accounted (futures s) [] D" "k + 1 = int (card D)" by (auto simp: sort_state_def)
  have Deq: "D = {..<length (futures s)}" by (rule accounted_end [OF D(1)])
  then have fin: "\<exists>r. futures s ! i = Finished (Inr r)" if "i < length (futures s)" for i
    using D(1) that by (auto simp: accounted_def)
  then have "all_frames (futures s) = {#}" by (intro all_frames_finished) blast
  then have "memory s = sort xs0" using st by (simp add: sort_state_def sorted_but_sorted)
  then show ?thesis using c D(2) Deq fin by (auto simp: in_set_conv_nth)
qed

text \<open>
  C34: Whatever the deque, the number of threads and the order in which they take their steps: after at most
  7 n * n + 7 steps the program of \<open>quick_sort.py\<close> has come to its end, no future has raised an exception,
  and until then, if there is a worker at all, some thread can go on; at the end every future that was made
  has been waited for and counted once, and the deque is sorted.
\<close>

theorem parallel_sort:
  assumes "steps qsort_f sort_plan k (sort_pool threads xs) s" and "0 < threads"
  shows "k \<le> 7 * (length xs * length xs) + 6 \<and> (\<forall>e. main s \<noteq> Inl e \<and> Finished (Inl e) \<notin> set (futures s)) \<and>
    ((\<exists>s'. step qsort_f sort_plan s s') \<or>
     main s = Inr (Waiting [] (int (length (futures s)) - 1)) \<and> memory s = sort xs \<and>
     (\<forall>f \<in> set (futures s). \<exists>fs. f = Finished (Inr fs)))"
proof -
  let ?s = "sort_pool threads xs"
  have start: "pool_ok ?s" "sorting xs ?s" "length (workers ?s) = threads"
    by (simp_all add: sort_pool_def pool_ok_ThreadPool sorting_iff) (simp_all add: ThreadPool_def)
  from qs.steps_energy [OF assms(1) start(1,2)] start(3) assms(2)
  have s: "pool_ok s" "sorting xs s" "workers s \<noteq> []" "k + energy job_weight main_weight s \<le> energy job_weight main_weight ?s" by auto
  obtain c where c: "main s = Inr c" using s(2) by (auto simp: sorting_iff)
  have "energy job_weight main_weight ?s = 7 * (length xs * length xs) + 6"
    by (simp add: energy_def sort_pool_def ThreadPool_def call_weight_def nat_mult_distrib)
  then have "k \<le> 7 * (length xs * length xs) + 6" using s(4) by simp
  moreover have "\<forall>e. Finished (Inl e) \<notin> set (futures s)" using s(2) by (simp add: sorting_def)
  moreover have "?thesis" if "sort_plan c \<noteq> Ends"
    using qs.no_deadlock [OF s(1-3) c that] calculation c by simp
  ultimately show ?thesis using sorting_ends [OF s(2) c] c by auto
qed

theorem parallel_sort_witness:
  "\<exists>s. moves qsort_f sort_plan (Main # replicate 7 (Worker 0) @ [Main]) (sort_pool 1 [2, 1]) = Some s \<and>
    main s = Inr (Waiting [] 0) \<and> memory s = [1, 2] \<and> (\<forall>e. main s \<noteq> Inl e)"
proof -
  obtain s where s: "moves qsort_f sort_plan (Main # replicate 7 (Worker 0) @ [Main]) (sort_pool 1 [2, 1]) = Some s"
    "main s = Inr (Waiting [] 0)" "memory s = [1, 2]"
    by (simp add: numeral_eq_Suc sort_pool_def ThreadPool_def move_def run_main_def sort_plan_def add_task_def get_task_def
        run_task_def py_get_def py_set_def py_index_def after_loop_def)
  then show ?thesis using parallel_sort [OF moves_steps [OF s(1)]] by simp
qed

end
