(* ===== verification/ThreadQueens.thy ===== *)
theory ThreadQueens
  imports Futures NqueensProof
begin

text \<open>
  \<open>multithread/nqueens/nqueens.py\<close>: the permutations are cut into chunks, a future goes through each chunk in
  one atomic block, and the main thread joins what the futures return. \<open>itertools.permutations\<close> of the
  standard library gives the permutations in the order in which they are chosen by place, which is the
  reference of \<open>bm_ai.py\<close> for its own version of it.
\<close>

section \<open>The program\<close>

definition itertools_permutations :: "'a list \<Rightarrow> 'a list list" where
  "itertools_permutations iterable = arrangements (length iterable) iterable"

text \<open>\<open>chunks\<close>, the list of what it yields.\<close>

function chunks :: "'a list \<Rightarrow> nat \<Rightarrow> 'a list list" where
  "chunks xs n = (let item = take n xs in if item = [] then [] else item # chunks (drop n xs) n)"
  by auto

termination by (relation "measure (\<lambda>(xs, n). length xs)") auto

declare chunks.simps [simp del]

fun check_loop :: "nat \<Rightarrow> nat list \<Rightarrow> nat list list \<Rightarrow> nat list list \<Rightarrow> nat list list result" where
  "check_loop n cols [] sols = Inr sols"
| "check_loop n cols (vec # perms) sols =
     rbind (pick vec cols) (\<lambda>vs.
       if n = card (set (map (\<lambda>(v, i). int v + int i) (zip vs cols))) \<and>
          card (set (map (\<lambda>(v, i). int v + int i) (zip vs cols))) = card (set (map (\<lambda>(v, i). int v - int i) (zip vs cols)))
       then check_loop n cols perms (sols @ [vec])
       else check_loop n cols perms sols)"

definition check_solutions :: "nat \<Rightarrow> nat list \<Rightarrow> nat list list \<Rightarrow> nat list list result" where
  "check_solutions n cols perms = check_loop n cols perms []"

type_synonym check_job = "nat \<times> nat list \<times> nat list list"

text \<open>The job of a future is one atomic block.\<close>

definition check_turn :: "check_job \<Rightarrow> unit \<Rightarrow> (check_job, nat list list) outcome \<times> unit" where
  "check_turn j m = (case j of (n, cols, perms) \<Rightarrow>
     (case check_solutions n cols perms of Inl e \<Rightarrow> Raises e | Inr sols \<Rightarrow> Returns sols, m))"

text \<open>\<open>find_solutions\<close>: the chunks that are left, the futures that have not been called, the solutions.\<close>

record queens_main =
  q_n :: nat
  q_chunks :: "nat list list list"
  q_fs :: "nat list"
  q_solutions :: "nat list list"

definition find_solutions :: "nat \<Rightarrow> queens_main" where
  "find_solutions n =
     \<lparr>q_n = n, q_chunks = chunks (itertools_permutations [0..<n]) 100000, q_fs = [], q_solutions = []\<rparr>"

definition queens_plan :: "queens_main \<Rightarrow> (check_job, nat list list, queens_main) action" where
  "queens_plan c = (case q_chunks c of
     perms # rest \<Rightarrow> Creates (q_n c, [0..<q_n c], perms) (\<lambda>f. c\<lparr>q_chunks := rest, q_fs := q_fs c @ [f]\<rparr>)
   | [] \<Rightarrow> (case q_fs c of
       f # fs \<Rightarrow> Calls f (\<lambda>sols. c\<lparr>q_fs := fs, q_solutions := q_solutions c @ sols\<rparr>)
     | [] \<Rightarrow> Ends))"

definition queens_pool :: "nat \<Rightarrow> nat \<Rightarrow> (check_job, unit, nat list list, queens_main) pool" where
  "queens_pool threads n = ThreadPool threads () (find_solutions n)"

section \<open>What the futures return\<close>

lemma concat_chunks: "0 < n \<Longrightarrow> concat (chunks xs n) = xs"
  by (induction xs n rule: chunks.induct) (subst chunks.simps, auto simp: Let_def)

lemma check_loop_filter: "check_loop n [0..<n] perms sols = rbind (filter_vecs n perms) (\<lambda>vs. Inr (sols @ vs))"
proof (induction perms arbitrary: sols)
  case (Cons vec perms)
  show ?case
    by (cases "pick vec [0..<n]"; cases "filter_vecs n perms") (auto simp: Cons safe_vec_def)
qed simp

lemma check_solutions_filter: "check_solutions n [0..<n] perms = filter_vecs n perms"
  by (simp add: check_solutions_def check_loop_filter)

lemma n_queens_list:
  obtains P where "fact n \<le> fuel \<Longrightarrow> n_queens fuel n = Inr (filter P (itertools_permutations [0..<n]))"
    "\<And>vs. set vs \<subseteq> set (itertools_permutations [0..<n]) \<Longrightarrow> check_solutions n [0..<n] vs = Inr (filter P vs)"
proof -
  let ?P = "\<lambda>v. \<forall>i j. i < j \<and> j < n \<longrightarrow> v ! i + i \<noteq> v ! j + j \<and> v ! i + j \<noteq> v ! j + i"
  let ?vs = "arrangements n [0..<n]"
  have vs: "set ?vs = {v. length v = n \<and> distinct v \<and> set v \<subseteq> {..<n}}"
    using arrangements_set [of "[0..<n]" n] by (auto simp: subset_eq)
  have f: "filter_vecs n ws = Inr (filter ?P ws)" if "set ws \<subseteq> set ?vs" for ws
    by (rule filter_vecs, rule safe_vec) (use vs that in auto)
  have "n_queens fuel n = Inr (filter ?P ?vs)" if "fact n \<le> fuel"
  proof -
    have "permutations fuel [0..<n] None = Inr ?vs"
      using that by (intro permutations_list) (simp_all add: length_arrangements)
    then show ?thesis using f [of ?vs] by (simp add: n_queens_def)
  qed
  then show ?thesis using that [of ?P] f by (simp add: itertools_permutations_def check_solutions_filter)
qed

lemma chunks_one: "xs \<noteq> [] \<Longrightarrow> length xs \<le> n \<Longrightarrow> chunks xs n = [xs]"
  by (subst chunks.simps, subst chunks.simps) (simp add: Let_def)

lemma upt_eq_ConsD: "[i..<j] = x # xs \<Longrightarrow> x = i \<and> i < j \<and> xs = [Suc i..<j]"
  by (cases "i < j") (auto simp: upt_conv_Cons)

section \<open>The invariant\<close>

text \<open>The chunks are \<open>cs\<close>, and \<open>res\<close> is what the check of a chunk gives; \<open>k\<close> futures have been called.\<close>

definition queens_ok :: "nat \<Rightarrow> nat list list list \<Rightarrow> (nat list list \<Rightarrow> nat list list) \<Rightarrow>
    (check_job, unit, nat list list, queens_main) pool \<Rightarrow> bool" where
  "queens_ok n cs res s \<longleftrightarrow> length (futures s) \<le> length cs \<and>
     (\<forall>c \<in> set cs. check_solutions n [0..<n] c = Inr (res c)) \<and>
     (\<forall>i < length (futures s). futures s ! i \<in> {Todo (n, [0..<n], cs ! i), Finished (Inr (res (cs ! i)))}) \<and>
     (\<exists>k \<le> length (futures s). main s = Inr \<lparr>q_n = n, q_chunks = drop (length (futures s)) cs,
        q_fs = [k..<length (futures s)], q_solutions = concat (map res (take k cs))\<rparr>)"

lemma queens_ok_step:
  assumes q: "queens_ok n cs res s" and ok: "pool_ok s" and st: "step check_turn queens_plan s s'"
  shows "queens_ok n cs res s'"
  using st ok
proof (cases rule: step_cases)
  case (get_task i f)
  then show ?thesis using q by (simp add: queens_ok_def)
next
  case (goes f j j' m)
  then show ?thesis by (auto simp: check_turn_def split: prod.splits sum.splits)
next
  case (submits f j j0 k m)
  then show ?thesis by (auto simp: check_turn_def split: prod.splits sum.splits)
next
  case (returns f j r m i)
  then have j: "j = (n, [0..<n], cs ! f)" "cs ! f \<in> set cs" using q by (auto simp: queens_ok_def)
  then have "r = res (cs ! f)" using returns(3) q by (simp add: check_turn_def queens_ok_def)
  then show ?thesis using q returns(1,4) by (auto simp: queens_ok_def nth_list_update)
next
  case (raises f j e m i)
  then have "j = (n, [0..<n], cs ! f)" "cs ! f \<in> set cs" using q by (auto simp: queens_ok_def)
  then show ?thesis using raises(3) q by (simp add: check_turn_def queens_ok_def)
next
  case (creates c j h)
  then obtain k where k: "k \<le> length (futures s)" "c = \<lparr>q_n = n, q_chunks = drop (length (futures s)) cs,
      q_fs = [k..<length (futures s)], q_solutions = concat (map res (take k cs))\<rparr>" using q by (auto simp: queens_ok_def)
  have "drop (length (futures s)) cs \<noteq> []"
    using creates(2) k(2) by (auto simp: queens_plan_def split: list.splits)
  then have l: "length (futures s) < length cs" by simp
  then have d: "drop (length (futures s)) cs = cs ! length (futures s) # drop (Suc (length (futures s))) cs"
    by (rule Cons_nth_drop_Suc [symmetric])
  let ?N = "length (futures s)"
  have e: "j = (n, [0..<n], cs ! ?N)" "h = (\<lambda>f. \<lparr>q_n = n, q_chunks = drop (Suc ?N) cs, q_fs = [k..<?N] @ [f],
      q_solutions = concat (map res (take k cs))\<rparr>)"
    using creates(2) unfolding k(2) queens_plan_def by (simp_all add: d)
  have fs: "futures s' = futures s @ [Todo (n, [0..<n], cs ! ?N)]" by (simp add: creates(3) e(1) add_task_def)
  have "main s' = Inr \<lparr>q_n = n, q_chunks = drop (Suc ?N) cs, q_fs = [k..<Suc ?N], q_solutions = concat (map res (take k cs))\<rparr>"
    using k(1) by (simp add: creates(3) e(2) add_task_def)
  moreover have "futures s' ! i \<in> {Todo (n, [0..<n], cs ! i), Finished (Inr (res (cs ! i)))}" if "i < Suc ?N" for i
    using q that unfolding fs by (cases "i = ?N") (auto simp: queens_ok_def nth_append)
  ultimately show ?thesis using q l k(1) unfolding queens_ok_def by (auto simp: fs intro!: exI [of _ k])
next
  case (fails c f g e)
  then show ?thesis using q by (auto simp: queens_ok_def)
next
  case (calls c f g r)
  then obtain k where k: "k \<le> length (futures s)" "c = \<lparr>q_n = n, q_chunks = drop (length (futures s)) cs,
      q_fs = [k..<length (futures s)], q_solutions = concat (map res (take k cs))\<rparr>" using q by (auto simp: queens_ok_def)
  obtain fs where e0: "drop (length (futures s)) cs = []" "[k..<length (futures s)] = f # fs"
    "g = (\<lambda>sols. c\<lparr>q_fs := fs, q_solutions := q_solutions c @ sols\<rparr>)"
    using calls(2) unfolding k(2) queens_plan_def by (auto split: list.splits)
  have e: "f = k" "k < length (futures s)" "fs = [Suc k..<length (futures s)]" using upt_eq_ConsD [OF e0(2)] by blast+
  then have "k < length cs" "r = res (cs ! k)" using q calls(3,4) by (auto simp: queens_ok_def)
  then show ?thesis using calls(5) q k(2) e(2,3) e0(1,3)
    by (auto simp: queens_ok_def take_Suc_conv_app_nth intro!: exI [of _ "Suc k"])
qed

definition queens_weight :: "queens_main \<Rightarrow> nat \<Rightarrow> nat" where
  "queens_weight c k = 4 * length (q_chunks c) + length (q_fs c)"

interpretation tq: pool_jobs check_turn queens_plan "\<lambda>j. 1" queens_weight "queens_ok n cs res" for n cs res
proof (unfold_locales, goal_cases)
  case (1 s s')
  then show ?case by (rule queens_ok_step)
next
  case (3 s j j' m)
  then show ?case by (auto simp: check_turn_def split: prod.splits sum.splits)
next
  case (4 s j j0 k m)
  then show ?case by (auto simp: check_turn_def split: prod.splits sum.splits)
next
  case (6 s c j h)
  then show ?case by (auto simp: queens_plan_def queens_weight_def split: list.splits)
next
  case (7 s c f g)
  then show ?case by (auto simp: queens_plan_def queens_weight_def queens_ok_def dest!: upt_eq_ConsD split: list.splits)
qed (simp_all add: queens_weight_def)

section \<open>Properties\<close>

text \<open>
  C35: Whatever the size of the board, the number of threads and the order of their steps: the program of
  \<open>multithread/nqueens\<close> ends after at most four steps for each chunk, some thread can go on until then if
  there is a worker at all, and what it has found at the end is the list that the solver of \<open>bm_ai.py\<close>
  yields, in the same order.
\<close>

theorem threads_agree:
  assumes "steps check_turn queens_plan k (queens_pool threads n) s" and "0 < threads" and "fact n \<le> fuel"
  shows "k \<le> 4 * length (chunks (itertools_permutations [0..<n]) 100000) \<and>
    ((\<exists>s'. step check_turn queens_plan s s') \<or>
     (\<exists>vs. main s = Inr \<lparr>q_n = n, q_chunks = [], q_fs = [], q_solutions = vs\<rparr> \<and> n_queens fuel n = Inr vs))"
proof -
  let ?ps = "itertools_permutations [0..<n]" and ?s = "queens_pool threads n"
  let ?cs = "chunks ?ps 100000"
  obtain P where P: "fact n \<le> fuel \<Longrightarrow> n_queens fuel n = Inr (filter P ?ps)"
    "\<And>vs. set vs \<subseteq> set ?ps \<Longrightarrow> check_solutions n [0..<n] vs = Inr (filter P vs)" by (rule n_queens_list [where n = n and fuel = fuel]) blast
  have cs: "concat ?cs = ?ps" by (rule concat_chunks) simp
  have "check_solutions n [0..<n] c = Inr (filter P c)" if "c \<in> set ?cs" for c
    using that arg_cong [OF cs, of set] by (intro P(2)) auto
  then have start: "pool_ok ?s" "queens_ok n ?cs (filter P) ?s" "length (workers ?s) = threads"
    by (simp_all add: queens_pool_def pool_ok_ThreadPool) (simp_all add: ThreadPool_def queens_ok_def find_solutions_def)
  from tq.steps_energy [OF assms(1) start(1,2)] start(3) assms(2)
  have s: "pool_ok s" "queens_ok n ?cs (filter P) s" "workers s \<noteq> []"
    "k + energy (\<lambda>j. 1) queens_weight s \<le> energy (\<lambda>j. 1) queens_weight ?s" by auto
  have "energy (\<lambda>j. 1) queens_weight ?s = 4 * length ?cs"
    by (simp add: energy_def queens_pool_def ThreadPool_def queens_weight_def find_solutions_def)
  then have k: "k \<le> 4 * length ?cs" using s(4) by simp
  obtain j where j: "main s = Inr \<lparr>q_n = n, q_chunks = drop (length (futures s)) ?cs, q_fs = [j..<length (futures s)],
      q_solutions = concat (map (filter P) (take j ?cs))\<rparr>" "j \<le> length (futures s)" "length (futures s) \<le> length ?cs"
    using s(2) by (auto simp: queens_ok_def)
  show ?thesis
  proof (cases "length (futures s) < length ?cs \<or> j < length (futures s)")
    case True
    have "\<exists>s'. step check_turn queens_plan s s'"
      by (rule tq.no_deadlock [OF s(1-3) j(1)]) (use True in \<open>auto simp: queens_plan_def split: list.splits\<close>)
    with k show ?thesis by blast
  next
    case False
    then have "main s = Inr \<lparr>q_n = n, q_chunks = [], q_fs = [], q_solutions = filter P ?ps\<rparr>"
      using j cs by (simp flip: filter_concat)
    with k P(1) [OF assms(3)] show ?thesis by blast
  qed
qed

lemma one_chunk_run:
  assumes "find_solutions n = \<lparr>q_n = n, q_chunks = [perms], q_fs = [], q_solutions = []\<rparr>"
    and "check_solutions n [0..<n] perms = Inr vs"
  shows "\<exists>s. moves check_turn queens_plan [Main, Worker 1, Worker 1, Main] (queens_pool 2 n) = Some s \<and>
    main s = Inr \<lparr>q_n = n, q_chunks = [], q_fs = [], q_solutions = vs\<rparr>"
  by (simp add: queens_pool_def ThreadPool_def assms move_def run_main_def queens_plan_def add_task_def
      get_task_def run_task_def check_turn_def numeral_2_eq_2)

theorem threads_agree_witness:
  "\<exists>s. moves check_turn queens_plan [Main, Worker 1, Worker 1, Main] (queens_pool 2 4) = Some s \<and>
    main s = Inr \<lparr>q_n = 4, q_chunks = [], q_fs = [], q_solutions = [[1, 3, 0, 2], [2, 0, 3, 1]]\<rparr> \<and>
    4 \<le> 4 * length (chunks (itertools_permutations [0..<4]) 100000)"
proof -
  have u: "[0..<4] = [0, 1, 2, 3 :: nat]" by (simp add: upt_rec)
  have "length (arrangements 4 [0, 1, 2, 3 :: nat]) = 24"
    by (subst length_arrangements) (simp_all add: fact_numeral)
  then have "chunks (arrangements 4 [0, 1, 2, 3 :: nat]) 100000 = [arrangements 4 [0, 1, 2, 3]]"
    by (intro chunks_one) auto
  moreover have "length [0, 1, 2, 3 :: nat] = 4" by simp
  ultimately have c: "chunks (itertools_permutations [0, 1, 2, 3 :: nat]) 100000 = [arrangements 4 [0, 1, 2, 3]]"
    unfolding itertools_permutations_def by (simp only:)
  have k: "check_solutions 4 [0, 1, 2, 3] (arrangements 4 [0, 1, 2, 3]) = Inr [[1, 3, 0, 2], [2, 0, 3, 1]]" by code_simp
  have "find_solutions 4 = \<lparr>q_n = 4, q_chunks = [arrangements 4 [0, 1, 2, 3]], q_fs = [], q_solutions = []\<rparr>"
    by (simp only: find_solutions_def u c)
  moreover have "check_solutions 4 [0..<4] (arrangements 4 [0, 1, 2, 3]) = Inr [[1, 3, 0, 2], [2, 0, 3, 1]]"
    unfolding u by (rule k)
  ultimately have "\<exists>s. moves check_turn queens_plan [Main, Worker 1, Worker 1, Main] (queens_pool 2 4) = Some s \<and>
    main s = Inr \<lparr>q_n = 4, q_chunks = [], q_fs = [], q_solutions = [[1, 3, 0, 2], [2, 0, 3, 1]]\<rparr>"
    by (rule one_chunk_run)
  then obtain s where s: "moves check_turn queens_plan [Main, Worker 1, Worker 1, Main] (queens_pool 2 4) = Some s"
    "main s = Inr \<lparr>q_n = 4, q_chunks = [], q_fs = [], q_solutions = [[1, 3, 0, 2], [2, 0, 3, 1]]\<rparr>" by blast
  then show ?thesis using threads_agree [OF moves_steps [OF s(1)], of 24] by (simp add: fact_numeral)
qed

end
