(* ===== verification/ThreadTasks.thy ===== *)
theory ThreadTasks
  imports Futures BtreeOps SkiplistProof
begin

text \<open>
  \<open>run\<close> of \<open>multithread/btree\<close> and \<open>multithread/skiplist\<close>: each future carries out the operations of a task
  on the shared structure, one atomic block after the other, and the main thread makes the futures and
  calls them in turn. What the threads leave is what some interleaving of the tasks leaves in a set.
\<close>

section \<open>The program\<close>

text \<open>A future, from the operations of its task that are left: each is an atomic block.\<close>

definition task_turn :: "('o \<Rightarrow> 'm \<Rightarrow> 'm result) \<Rightarrow> 'o list \<Rightarrow> 'm \<Rightarrow> ('o list, unit) outcome \<times> 'm" where
  "task_turn run ops m = (case ops of
     [] \<Rightarrow> (Returns (), m)
   | op # ops \<Rightarrow> (case run op m of Inl e \<Rightarrow> (Raises e, m) | Inr m \<Rightarrow> (Goes ops, m)))"

text \<open>The main thread: the tasks that have no future yet, the futures that have not been called.\<close>

definition run_plan :: "'o list list \<times> nat list \<Rightarrow> ('o list, unit, 'o list list \<times> nat list) action" where
  "run_plan c = (case c of
     (ops # rest, fs) \<Rightarrow> Creates ops (\<lambda>f. (rest, fs @ [f]))
   | ([], f # fs) \<Rightarrow> Calls f (\<lambda>r. ([], fs))
   | ([], []) \<Rightarrow> Ends)"

text \<open>As many threads as tasks, on what the insertions before have made.\<close>

definition run_pool :: "'o list list \<Rightarrow> 'm \<Rightarrow> ('o list, 'm, unit, 'o list list \<times> nat list) pool" where
  "run_pool tss m = ThreadPool (length tss) m (tss, [])"

definition btree_run :: "'a::linorder list \<Rightarrow> (op \<times> 'a) list list \<Rightarrow>
    ((op \<times> 'a) list, 'a btree, unit, (op \<times> 'a) list list \<times> nat list) pool result" where
  "btree_run fill tss = rbind (task_ops (map (Pair Insert) fill) (BTree 20)) (\<lambda>t. Inr (run_pool tss t))"

definition skiplist_run :: "(int list \<times> 'a::linorder) list \<Rightarrow> (op \<times> int list \<times> 'a) list list \<Rightarrow>
    ((op \<times> int list \<times> 'a) list, 'a skiplist, unit, (op \<times> int list \<times> 'a) list list \<times> nat list) pool result" where
  "skiplist_run fill tss = rbind (sk_task (map (Pair Insert) fill) SkipList) (\<lambda>s. Inr (run_pool tss s))"

section \<open>Interleavings\<close>

inductive merges :: "'o list list \<Rightarrow> 'o list \<Rightarrow> bool" where
  merges_Nil: "(\<And>ts. ts \<in> set tss \<Longrightarrow> ts = []) \<Longrightarrow> merges tss []"
| merges_Cons: "i < length tss \<Longrightarrow> tss ! i = x # xs \<Longrightarrow> merges (tss[i := xs]) zs \<Longrightarrow> merges tss (x # zs)"

text \<open>What is left of the tasks, and how \<open>zs\<close> has been taken from them.\<close>

definition rest_of :: "('o list, unit) future \<Rightarrow> 'o list" where
  "rest_of f = (case f of Todo ops \<Rightarrow> ops | Finished r \<Rightarrow> [])"

lemma rest_of_simps [simp]: "rest_of (Todo ops) = ops" "rest_of (Finished r) = []"
  by (simp_all add: rest_of_def)

definition taken :: "'o list list \<Rightarrow> 'o list \<Rightarrow> 'o list list \<Rightarrow> bool" where
  "taken tss zs uss \<longleftrightarrow> (\<forall>ys. merges uss ys \<longrightarrow> merges tss (zs @ ys))"

lemma taken_refl: "taken tss [] tss"
  by (simp add: taken_def)

lemma taken_step:
  "taken tss zs uss \<Longrightarrow> i < length uss \<Longrightarrow> uss ! i = x # xs \<Longrightarrow> taken tss (zs @ [x]) (uss[i := xs])"
  by (auto simp: taken_def dest: merges_Cons)

lemma merges_set: "merges tss zs \<Longrightarrow> set zs = set (concat tss)"
proof (induction rule: merges.induct)
  case (merges_Nil tss)
  then show ?case by (auto dest: merges_Nil)
next
  case (merges_Cons i tss x xs zs)
  have "tss = take i tss @ (x # xs) # drop (Suc i) tss" using merges_Cons.hyps(1,2) by (metis id_take_nth_drop)
  moreover have "tss[i := xs] = take i tss @ xs # drop (Suc i) tss" using merges_Cons.hyps(1) by (rule upd_conv_take_nth_drop)
  ultimately have "set (concat tss) = insert x (set (concat (tss[i := xs])))"
    by (metis Un_insert_left Un_insert_right concat.simps(2) concat_append list.simps(15) set_append append_Cons)
  then show ?case using merges_Cons.IH by simp
qed

section \<open>Tasks on a shared structure\<close>

text \<open>
  \<open>zs\<close> are the operations that have been carried out; futures and main thread are what they can be after
  them.
\<close>

definition tasks_ok :: "('o \<Rightarrow> 'm \<Rightarrow> 'm result) \<Rightarrow> ('o \<Rightarrow> bool) \<Rightarrow> ('m \<Rightarrow> bool) \<Rightarrow> 'm \<Rightarrow> 'o list list \<Rightarrow>
    ('o list, 'm, unit, 'o list list \<times> nat list) pool \<Rightarrow> bool" where
  "tasks_ok run valid ok m0 tss s \<longleftrightarrow> ok (memory s) \<and> length (futures s) \<le> length tss \<and>
     (\<forall>ts \<in> set tss. \<forall>x \<in> set ts. valid x) \<and> (\<forall>f \<in> set (futures s). \<forall>x \<in> set (rest_of f). valid x) \<and>
     (\<forall>e. Finished (Inl e) \<notin> set (futures s)) \<and>
     (\<exists>k \<le> length (futures s). main s = Inr (drop (length (futures s)) tss, [k..<length (futures s)]) \<and>
        (\<forall>i < k. futures s ! i = Finished (Inr ()))) \<and>
     (\<exists>zs. taken tss zs (map rest_of (futures s) @ drop (length (futures s)) tss) \<and> for_each zs run m0 = Inr (memory s))"

definition task_weight :: "'o list \<Rightarrow> nat" where
  "task_weight ops = length ops + 1"

definition run_weight :: "'o list list \<times> nat list \<Rightarrow> nat \<Rightarrow> nat" where
  "run_weight c n = sum_list (map (\<lambda>ts. length ts + 4) (fst c)) + length (snd c)"

locale shared_ops =
  fixes run :: "'o \<Rightarrow> 'm \<Rightarrow> 'm result"
    and valid :: "'o \<Rightarrow> bool"
    and ok :: "'m \<Rightarrow> bool"
  assumes run_ok: "ok m \<Longrightarrow> valid x \<Longrightarrow> \<exists>m'. run x m = Inr m' \<and> ok m'"
begin

lemma tasks_ok_update:
  assumes t: "tasks_ok run valid ok m0 tss s" and f: "f < length (futures s)" "futures s ! f = Todo ops"
    and x: "\<forall>y \<in> set (rest_of x). valid y" "\<forall>e. x \<noteq> Finished (Inl e)" and m: "ok m" "for_each zs run m0 = Inr m"
    and zs: "taken tss zs (map rest_of ((futures s)[f := x]) @ drop (length (futures s)) tss)"
  shows "tasks_ok run valid ok m0 tss (s\<lparr>memory := m, futures := (futures s)[f := x]\<rparr>)"
proof -
  have sub: "g \<in> set ((futures s)[f := x]) \<Longrightarrow> g = x \<or> g \<in> set (futures s)" for g
    using set_update_subset_insert [of "futures s" f x] by blast
  have "(futures s)[f := x] ! i = Finished (Inr ())" if "futures s ! i = Finished (Inr ())" for i
    using that f(2) by (metis future.distinct(1) nth_list_update_neq)
  then have "\<exists>k \<le> length (futures s). main s = Inr (drop (length (futures s)) tss, [k..<length (futures s)]) \<and>
      (\<forall>i < k. (futures s)[f := x] ! i = Finished (Inr ()))"
    using t unfolding tasks_ok_def by blast
  moreover have "\<forall>g \<in> set ((futures s)[f := x]). \<forall>y \<in> set (rest_of g). valid y"
    using t sub x(1) unfolding tasks_ok_def by blast
  moreover have "\<forall>e. Finished (Inl e) \<notin> set ((futures s)[f := x])" using t sub x(2) unfolding tasks_ok_def by metis
  ultimately show ?thesis using t m zs unfolding tasks_ok_def by auto
qed

lemma tasks_step:
  assumes t: "tasks_ok run valid ok m0 tss s" and p: "pool_ok s" and st: "step (task_turn run) run_plan s s'"
  shows "tasks_ok run valid ok m0 tss s'"
  using st p
proof (cases rule: step_cases)
  case (get_task i f)
  then show ?thesis using t by (simp add: tasks_ok_def)
next
  case (goes f j j' m)
  then obtain x where x: "j = x # j'" "run x (memory s) = Inr m" by (auto simp: task_turn_def split: list.splits sum.splits)
  have mem: "Todo j \<in> set (futures s)" using goes(1,2) by (metis nth_mem)
  have v: "valid x" "\<forall>y \<in> set j'. valid y" using t mem x(1) by (force simp: tasks_ok_def)+
  obtain zs where zs: "taken tss zs (map rest_of (futures s) @ drop (length (futures s)) tss)" "for_each zs run m0 = Inr (memory s)"
    using t by (auto simp: tasks_ok_def)
  have "taken tss (zs @ [x]) ((map rest_of (futures s) @ drop (length (futures s)) tss)[f := j'])"
    using goes(1,2) x(1) by (intro taken_step [OF zs(1)]) (simp_all add: nth_append)
  then have "taken tss (zs @ [x]) (map rest_of ((futures s)[f := Todo j']) @ drop (length (futures s)) tss)"
    using goes(1) by (simp add: list_update_append map_update)
  moreover have "for_each (zs @ [x]) run m0 = Inr m" using zs(2) x(2) by (simp add: for_each_append)
  moreover have "ok m" using run_ok [of "memory s" x] v(1) t x(2) by (auto simp: tasks_ok_def)
  ultimately show ?thesis using tasks_ok_update [OF t goes(1,2)] v(2) goes(4) by simp
next
  case (submits f j j0 k m)
  then show ?thesis by (auto simp: task_turn_def split: list.splits sum.splits)
next
  case (returns f j r m i)
  then have j: "j = []" "m = memory s" "r = ()" by (auto simp: task_turn_def split: list.splits sum.splits)
  have same: "map rest_of ((futures s)[f := Finished (Inr ())]) = map rest_of (futures s)"
    using returns(1,2) j(1) by (simp add: map_update list_update_same_conv)
  obtain zs where zs: "taken tss zs (map rest_of (futures s) @ drop (length (futures s)) tss)" "for_each zs run m0 = Inr (memory s)"
    using t by (auto simp: tasks_ok_def)
  have "ok (memory s)" using t by (simp add: tasks_ok_def)
  then have "tasks_ok run valid ok m0 tss (s\<lparr>memory := memory s, futures := (futures s)[f := Finished (Inr ())]\<rparr>)"
    using tasks_ok_update [OF t returns(1,2), of "Finished (Inr ())" "memory s" zs] zs same by simp
  then show ?thesis using returns(4) j(2,3) by (simp add: tasks_ok_def)
next
  case (raises f j e m i)
  then obtain x xs where x: "j = x # xs" "run x (memory s) = Inl e" by (auto simp: task_turn_def split: list.splits sum.splits)
  have "Todo j \<in> set (futures s)" using raises(1,2) by (metis nth_mem)
  then have "valid x" using t x(1) by (force simp: tasks_ok_def)
  then show ?thesis using run_ok [of "memory s" x] t x(2) by (auto simp: tasks_ok_def)
next
  case (creates c j h)
  let ?N = "length (futures s)"
  obtain k where k: "k \<le> ?N" "c = (drop ?N tss, [k..<?N])" "\<forall>i < k. futures s ! i = Finished (Inr ())"
    using t creates(1) by (auto simp: tasks_ok_def)
  have "drop ?N tss \<noteq> []" using creates(2) k(2) by (auto simp: run_plan_def split: list.splits)
  then have l: "?N < length tss" by simp
  then have d: "drop ?N tss = tss ! ?N # drop (Suc ?N) tss" by (rule Cons_nth_drop_Suc [symmetric])
  have e: "j = tss ! ?N" "h = (\<lambda>f. (drop (Suc ?N) tss, [k..<?N] @ [f]))"
    using creates(2) unfolding k(2) run_plan_def by (simp_all add: d)
  have fs: "futures s' = futures s @ [Todo (tss ! ?N)]" by (simp add: creates(3) e(1) add_task_def)
  have mn: "main s' = Inr (drop (Suc ?N) tss, [k..<Suc ?N])" using k(1) by (simp add: creates(3) e(2) add_task_def)
  have mm: "memory s' = memory s" by (simp add: creates(3) add_task_def)
  obtain zs where zs: "taken tss zs (map rest_of (futures s) @ drop ?N tss)" "for_each zs run m0 = Inr (memory s)"
    using t by (auto simp: tasks_ok_def)
  have "map rest_of (futures s') @ drop (length (futures s')) tss = map rest_of (futures s) @ drop ?N tss"
    by (simp add: fs d)
  then have "\<exists>zs. taken tss zs (map rest_of (futures s') @ drop (length (futures s')) tss) \<and> for_each zs run m0 = Inr (memory s')"
    using zs mm by metis
  moreover have "\<exists>k' \<le> length (futures s'). main s' = Inr (drop (length (futures s')) tss, [k'..<length (futures s')]) \<and>
      (\<forall>i < k'. futures s' ! i = Finished (Inr ()))"
    using k mn by (intro exI [of _ k]) (simp add: fs nth_append)
  moreover have "\<forall>x \<in> set (tss ! ?N). valid x" using t nth_mem [OF l] unfolding tasks_ok_def by blast
  ultimately show ?thesis using t l unfolding tasks_ok_def by (simp add: fs mm)
next
  case (fails c f k e)
  then show ?thesis using t by (auto simp: tasks_ok_def dest: nth_mem)
next
  case (calls c f h r)
  let ?N = "length (futures s)"
  obtain k where k: "k \<le> ?N" "c = (drop ?N tss, [k..<?N])" "\<forall>i < k. futures s ! i = Finished (Inr ())"
    using t calls(1) by (auto simp: tasks_ok_def)
  obtain fs where e0: "drop ?N tss = []" "[k..<?N] = f # fs" "h = (\<lambda>r. ([], fs))"
    using calls(2) unfolding k(2) run_plan_def by (auto split: list.splits)
  have e: "f = k" "k < ?N" "fs = [Suc k..<?N]" using e0(2) by (cases "k < ?N"; auto simp: upt_conv_Cons)+
  have "\<exists>k' \<le> ?N. main s' = Inr (drop ?N tss, [k'..<?N]) \<and> (\<forall>i < k'. futures s ! i = Finished (Inr ()))"
    using e e0 k(3) calls(4,5) by (intro exI [of _ "Suc k"]) (auto simp: less_Suc_eq)
  then show ?thesis using t calls(5) unfolding tasks_ok_def by simp
qed

end

sublocale shared_ops \<subseteq> tp: pool_jobs "task_turn run" run_plan task_weight run_weight "tasks_ok run valid ok m0 tss" for m0 tss
proof (unfold_locales, goal_cases)
  case (1 s s')
  then show ?case by (rule tasks_step)
next
  case (3 s j j' m)
  then show ?case by (auto simp: task_turn_def task_weight_def split: list.splits sum.splits)
next
  case (4 s j j0 k m n)
  then show ?case by (auto simp: task_turn_def split: list.splits sum.splits)
next
  case (6 s c j h)
  then show ?case by (auto simp: run_plan_def run_weight_def task_weight_def split: list.splits prod.splits)
next
  case (7 s c f g)
  then have "f \<in> set (snd c)" "fst c = []" "0 < length (snd c)" "\<And>r. g r = ([], tl (snd c))"
    by (auto simp: run_plan_def split: list.splits prod.splits)
  then show ?case using 7 by (auto simp: run_weight_def tasks_ok_def)
qed (simp_all add: task_weight_def run_weight_def)

context shared_ops
begin

text \<open>Any order of the steps ends, and in what some interleaving of the tasks does one after the other.\<close>

lemma run_ends:
  assumes st: "steps (task_turn run) run_plan k (run_pool tss m0) s" and "tss \<noteq> []" and m0: "ok m0"
    and v: "\<And>ts x. ts \<in> set tss \<Longrightarrow> x \<in> set ts \<Longrightarrow> valid x"
  shows "k \<le> sum_list (map (\<lambda>ts. length ts + 4) tss) \<and> (\<forall>e. main s \<noteq> Inl e) \<and>
    ((\<exists>s'. step (task_turn run) run_plan s s') \<or>
     main s = Inr ([], []) \<and> (\<exists>zs. merges tss zs \<and> for_each zs run m0 = Inr (memory s)))"
proof -
  let ?s = "run_pool tss m0"
  have start: "pool_ok ?s" "tasks_ok run valid ok m0 tss ?s" "workers ?s \<noteq> []"
    using m0 v \<open>tss \<noteq> []\<close> taken_refl [of tss]
    by (auto simp: run_pool_def pool_ok_ThreadPool) (auto simp: ThreadPool_def tasks_ok_def intro!: exI [of _ "[]"])
  from tp.steps_energy [OF st start(1,2)] start(3)
  have s: "pool_ok s" "tasks_ok run valid ok m0 tss s" "workers s \<noteq> []"
    "k + energy task_weight run_weight s \<le> energy task_weight run_weight ?s" by auto
  have "energy task_weight run_weight ?s = sum_list (map (\<lambda>ts. length ts + 4) tss)"
    by (simp add: energy_def run_pool_def ThreadPool_def run_weight_def)
  then have k: "k \<le> sum_list (map (\<lambda>ts. length ts + 4) tss)" using s(4) by simp
  let ?N = "length (futures s)"
  obtain i zs where i: "i \<le> ?N" "main s = Inr (drop ?N tss, [i..<?N])" "\<forall>j < i. futures s ! j = Finished (Inr ())"
    "taken tss zs (map rest_of (futures s) @ drop ?N tss)" "for_each zs run m0 = Inr (memory s)"
    using s(2) by (auto simp: tasks_ok_def)
  show ?thesis
  proof (cases "?N < length tss \<or> i < ?N")
    case True
    have "\<exists>s'. step (task_turn run) run_plan s s'"
      by (rule tp.no_deadlock [OF s(1,2,3) i(2)]) (use True in \<open>auto simp: run_plan_def split: list.splits\<close>)
    with k i(2) show ?thesis by simp
  next
    case False
    then have f: "futures s ! j = Finished (Inr ())" if "j < ?N" for j using i(1,3) that by simp
    have "ts = []" if "ts \<in> set (map rest_of (futures s) @ drop ?N tss)" for ts
      using that False f by (auto simp: in_set_conv_nth)
    then have "merges tss (zs @ [])" using i(4) merges_Nil unfolding taken_def by blast
    with False k i(1,2,5) show ?thesis by auto
  qed
qed

end

section \<open>Properties\<close>

interpretation bo: shared_ops run_op "\<lambda>x. True" tree_ok
proof unfold_locales
  fix m :: "'a::linorder btree" and x :: "op \<times> 'a"
  assume "tree_ok m"
  from bt.silent.op_set [OF this, where op = "fst x" and x = "snd x"] show "\<exists>m'. run_op x m = Inr m' \<and> tree_ok m'"
    by (cases x; cases "fst x") (auto simp: run_op_def)
qed

text \<open>
  C36: However the tasks on a B-tree are interleaved: no operation raises an exception, some thread can go on
  until all futures have been called, which is so after at most as many steps as there are operations and
  four more for each task, and iterating over the tree then gives, in order, what the insertions before and
  some interleaving of the tasks leave in a set.
\<close>

theorem btree_threads:
  fixes tss :: "(op \<times> 'a::linorder) list list"
  assumes "tss \<noteq> []" and "steps (task_turn run_op) run_plan k s0 s" and "btree_run fill tss = Inr s0"
  shows "k \<le> sum_list (map (\<lambda>ts. length ts + 4) tss) \<and> (\<forall>e. main s \<noteq> Inl e) \<and>
    ((\<exists>s'. step (task_turn run_op) run_plan s s') \<or>
     main s = Inr ([], []) \<and> (\<exists>zs. merges tss zs \<and> iter (memory s) = sorted_list_of_set (fold op_on_set zs (set fill))))"
proof -
  have set: "\<exists>t'. for_each ops run_op t = Inr t' \<and> tree_ok t' \<and>
      iter t' = sorted_list_of_set (fold op_on_set ops (set (iter t)))" if "tree_ok t"
    for ops :: "(op \<times> 'a) list" and t
  proof -
    have "\<exists>t'. for_each (map (\<lambda>(op, x). (op, (), x)) ops) (\<lambda>(op, d, x). run_op (op, x)) t = Inr t' \<and> tree_ok t' \<and>
      iter t' = sorted_list_of_set (fold op_on_set (map (\<lambda>(op, d, x). (op, x)) (map (\<lambda>(op, x). (op, (), x)) ops)) (set (iter t)))"
      by (rule bt.silent.ops_set [OF that]) (simp_all add: run_op_def)
    then show ?thesis by (simp add: for_each_map split_beta o_def)
  qed
  have new: "tree_ok (BTree 20 :: 'a btree)" "iter (BTree 20 :: 'a btree) = []"
    by (auto simp: tree_ok_def BTree_def iter_def ok_root_def intro!: exI [of _ 0])
  obtain t0 where t0: "task_ops (map (Pair Insert) fill) (BTree 20) = Inr t0" "s0 = run_pool tss t0"
    using assms(3) by (auto simp: btree_run_def rbind_eq_Inr)
  have "fold op_on_set (map (Pair Insert) fill) A = A \<union> set fill" for A by (induction fill arbitrary: A) auto
  then have f: "tree_ok t0" "iter t0 = sorted_list_of_set (set fill)"
    using set [OF new(1), of "map (Pair Insert) fill"] t0(1) by (auto simp: task_ops_def new(2))
  have r: "k \<le> sum_list (map (\<lambda>ts. length ts + 4) tss) \<and> (\<forall>e. main s \<noteq> Inl e) \<and>
    ((\<exists>s'. step (task_turn run_op) run_plan s s') \<or>
     main s = Inr ([], []) \<and> (\<exists>zs. merges tss zs \<and> for_each zs run_op t0 = Inr (memory s)))"
    using assms(1,2) f(1) unfolding t0(2) by (intro bo.run_ends) auto
  have "iter (memory s) = sorted_list_of_set (fold op_on_set zs (set fill))" if "for_each zs run_op t0 = Inr (memory s)" for zs
    using set [OF f(1), of zs] that f(2) by auto
  with r show ?thesis by blast
qed

theorem btree_threads_witness:
  "\<exists>s0 s. btree_run [5] [[(Insert, 7)], [(Remove, 5 :: int)]] = Inr s0 \<and>
    moves (task_turn run_op) run_plan [Main, Main, Worker 0, Worker 0, Worker 1, Worker 1, Worker 0, Worker 1, Main, Main] s0 = Some s \<and>
    main s = Inr ([], []) \<and> iter (memory s) = [7] \<and> 10 \<le> sum_list (map (\<lambda>ts. length ts + 4) [[(Insert, 7)], [(Remove, 5 :: int)]])"
proof -
  let ?tss = "[[(Insert, 7)], [(Remove, 5 :: int)]]"
  let ?ts = "[Main, Main, Worker 0, Worker 0, Worker 1, Worker 1, Worker 0, Worker 1, Main, Main]"
  have "rbind (btree_run [5] ?tss) (\<lambda>s0. case moves (task_turn run_op) run_plan ?ts s0 of
      None \<Rightarrow> Inl KeyError | Some s \<Rightarrow> Inr (main s, iter (memory s))) = Inr (Inr ([], []), [7])" by code_simp
  then obtain s0 s where s: "btree_run [5] ?tss = Inr s0" "moves (task_turn run_op) run_plan ?ts s0 = Some s"
    "main s = Inr ([], [])" "iter (memory s) = [7]" by (auto simp: rbind_eq_Inr split: option.splits)
  from btree_threads [OF _ moves_steps [OF s(2)] s(1)] s show ?thesis by auto
qed

interpretation so: shared_ops sk_run_op "\<lambda>(op, draws, x). 1 \<in> set draws" sk_ok
proof unfold_locales
  fix m :: "'a::linorder skiplist" and x :: "op \<times> int list \<times> 'a"
  assume "sk_ok m" and "case x of (op, draws, x) \<Rightarrow> 1 \<in> set draws"
  then show "\<exists>m'. sk_run_op x m = Inr m' \<and> sk_ok m'"
    using sk.op_set [of m "fst (snd x)", where op = "fst x" and x = "snd (snd x)"]
    by (cases x; cases "fst x") (auto simp: sk_run_op_def sk_contains_def rbind_assoc)
qed

text \<open>
  C37: However the tasks on a skip list are interleaved, as long as the random numbers of every insertion come
  to a 1: no operation raises an exception, some thread can go on until all futures have been called, which
  is so after at most as many steps as there are operations and four more for each task; the lowest level
  then lists, in order, what the insertions before and some interleaving of the tasks leave in a set.
\<close>

theorem skiplist_threads:
  fixes tss :: "(op \<times> int list \<times> 'a::linorder) list list"
  assumes "tss \<noteq> []" and "steps (task_turn sk_run_op) run_plan k s0 s" and "skiplist_run fill tss = Inr s0"
    and draws: "\<And>op draws x. (op, draws, x) \<in> set (concat tss) \<Longrightarrow> 1 \<in> set draws"
    and fill: "\<And>draws x. (draws, x) \<in> set fill \<Longrightarrow> 1 \<in> set draws"
  shows "k \<le> sum_list (map (\<lambda>ts. length ts + 4) tss) \<and> (\<forall>e. main s \<noteq> Inl e) \<and>
    ((\<exists>s'. step (task_turn sk_run_op) run_plan s s') \<or>
     main s = Inr ([], []) \<and> (\<exists>zs ls. merges tss zs \<and>
       sk_items (memory s) = sorted_list_of_set (fold op_on_set (map (\<lambda>(op, draws, x). (op, x)) zs) (set (map snd fill))) \<and>
       sk_len (memory s) = int (length (sk_items (memory s))) \<and>
       printList (memory s) = Inr ls \<and> sorted_wrt (\<lambda>a b. set a \<subseteq> set b) ls))"
proof -
  have set: "\<exists>t'. for_each ops sk_run_op t = Inr t' \<and> sk_ok t' \<and>
      sk_items t' = sorted_list_of_set (fold op_on_set (map (\<lambda>(op, draws, x). (op, x)) ops) (set (sk_items t)))"
    if "sk_ok t" "\<And>op draws x. (op, draws, x) \<in> set ops \<Longrightarrow> 1 \<in> set draws"
    for ops :: "(op \<times> int list \<times> 'a) list" and t
    by (rule sk.ops_set [OF that]) (simp_all add: sk_run_op_def sk_contains_def rbind_assoc split: op.split)
  have new: "sk_ok (SkipList :: 'a skiplist)" "sk_items (SkipList :: 'a skiplist) = []"
    using sk_inv_new items_inv [OF sk_inv_new] by (auto simp: sk_ok_def)
  obtain t0 where t0: "sk_task (map (Pair Insert) fill) SkipList = Inr t0" "s0 = run_pool tss t0"
    using assms(3) by (auto simp: skiplist_run_def rbind_eq_Inr)
  have "fold op_on_set (map (\<lambda>(op, draws, x). (op, x)) (map (Pair Insert) fill)) A = A \<union> snd ` set fill" for A
    by (induction fill arbitrary: A) auto
  then have f: "sk_ok t0" "sk_items t0 = sorted_list_of_set (set (map snd fill))"
    using set [OF new(1), of "map (Pair Insert) fill"] fill t0(1) by (auto simp: sk_task_def new(2))
  have "k \<le> sum_list (map (\<lambda>ts. length ts + 4) tss) \<and> (\<forall>e. main s \<noteq> Inl e) \<and>
    ((\<exists>s'. step (task_turn sk_run_op) run_plan s s') \<or>
     main s = Inr ([], []) \<and> (\<exists>zs. merges tss zs \<and> for_each zs sk_run_op t0 = Inr (memory s)))"
    using assms(1,2) f(1) draws unfolding t0(2) by (intro so.run_ends) auto
  moreover have "sk_items (memory s) = sorted_list_of_set (fold op_on_set (map (\<lambda>(op, draws, x). (op, x)) zs) (set (map snd fill))) \<and>
      sk_len (memory s) = int (length (sk_items (memory s))) \<and>
      (\<exists>ls. printList (memory s) = Inr ls \<and> sorted_wrt (\<lambda>a b. set a \<subseteq> set b) ls)"
    if m: "merges tss zs" and e: "for_each zs sk_run_op t0 = Inr (memory s)" for zs
  proof -
    have "(op, draws, x) \<in> set zs \<Longrightarrow> 1 \<in> set draws" for op draws x using draws merges_set [OF m] by simp
    then have s: "sk_ok (memory s)"
      "sk_items (memory s) = sorted_list_of_set (fold op_on_set (map (\<lambda>(op, draws, x). (op, x)) zs) (set (map snd fill)))"
      using set [OF f(1), of zs] e f(2) by auto
    obtain xs where inv: "sk_inv (memory s) xs" using s(1) by (auto simp: sk_ok_def)
    have l: "sk_len (memory s) = int (length (sk_items (memory s)))" using inv items_inv [OF inv] by (simp add: sk_inv_def)
    obtain ls where "printList (memory s) = Inr ls" "sorted_wrt (\<lambda>a b. set a \<subseteq> set b) ls"
      using printList_ok [OF inv] by blast
    with s(2) l show ?thesis by blast
  qed
  ultimately show ?thesis by blast
qed

theorem skiplist_threads_witness:
  "\<exists>s0 s. skiplist_run [([2, 1], 5)] [[(Insert, [1], 7)], [(Remove, [1], 5 :: int)]] = Inr s0 \<and>
    moves (task_turn sk_run_op) run_plan [Main, Main, Worker 0, Worker 0, Worker 1, Worker 1, Worker 0, Worker 1, Main, Main] s0 = Some s \<and>
    main s = Inr ([], []) \<and> sk_items (memory s) = [7] \<and> 10 \<le> sum_list (map (\<lambda>ts. length ts + 4) [[(Insert, [1], 7)], [(Remove, [1], 5 :: int)]])"
proof -
  let ?tss = "[[(Insert, [1], 7)], [(Remove, [1], 5 :: int)]]"
  let ?ts = "[Main, Main, Worker 0, Worker 0, Worker 1, Worker 1, Worker 0, Worker 1, Main, Main]"
  have "rbind (skiplist_run [([2, 1], 5)] ?tss) (\<lambda>s0. case moves (task_turn sk_run_op) run_plan ?ts s0 of
      None \<Rightarrow> Inl KeyError | Some s \<Rightarrow> Inr (main s, sk_items (memory s))) = Inr (Inr ([], []), [7])" by code_simp
  then obtain s0 s where s: "skiplist_run [([2, 1], 5)] ?tss = Inr s0" "moves (task_turn sk_run_op) run_plan ?ts s0 = Some s"
    "main s = Inr ([], [])" "sk_items (memory s) = [7]" by (auto simp: rbind_eq_Inr split: option.splits)
  from skiplist_threads [OF _ moves_steps [OF s(2)] s(1)] s show ?thesis by auto
qed

end
