(* ===== verification/Spec2Isabelle.thy ===== *)
theory Spec2Isabelle
  imports AesModes PyflateProperties HexProperties RichardsRun Pystone DeltaProperties BtreeOps MdpProperties GoProperties SchulzeRank NqueensProof SkiplistProof UploadProof FannkuchProof QuickSortProof ThreadQueens ThreadTasks
begin

text \<open>
  A verification development for the benchmark programs of PyPy.

  \<^bold>\<open>The repository.\<close> \<open>src/\<close> is a collection of Python benchmarks and the harness that runs them
  (\<open>runner.py\<close>, \<open>benchmarks.py\<close>, \<open>unladen_swallow/perf.py\<close>). A benchmark is a module with a \<open>main\<close> that
  times one call after another of the program it contains; the programs do not call one another.
  What is modelled here is the program inside a benchmark, from its data to the function that the
  benchmark times, for the benchmarks whose core is an algorithm of their own and does not rest on a
  library or on floating-point numbers, and of the harness the upload of the results. Each program has
  theories of its own, which import \<open>PyPrelude\<close>, each other and the interfaces that programs share (the
  futures of the threaded programs, the operations on a set of items); this theory imports them all.

  \<^bold>\<open>How Python is modelled.\<close> \<open>PyPrelude\<close> has the exceptions (\<open>exn\<close>), results that are an exception
  or a value (\<open>'a result\<close>, bound by \<open>rbind\<close>), indexing of lists by natural numbers (\<open>lget\<close>, \<open>lset\<close>)
  and by integers of any sign (\<open>py_get\<close>, \<open>py_set\<close>), and the \<open>for\<close> loop that threads a state
  (\<open>for_each\<close>), with the rules that the components share: an invariant of the loop, a counting loop, a
  loop that is a fold, one that simulates another, one that undoes another. \<open>PyText\<close> has the string
  functions (\<open>split\<close> at white space and at a character, \<open>strip\<close>, \<open>rstrip\<close>, \<open>int\<close>, \<open>str\<close>). An object that is shared or mutated is an index into a list
  of records or, for the Go board, a position whose attributes are functions; a state is passed
  and returned. Python's integers are \<open>int\<close> or \<open>nat\<close>, bytes of the cipher \<open>8 word\<close> and numbers below 256
  elsewhere. Fractions are rationals, and a float is the rational that it stands for: \<open>PyFloat\<close> has the
  rounding of binary64, with its monotonicity and its error, which \<open>bm_mdp.py\<close> uses; only the Go program,
  whose choice of a move compares quotients and roots, has reals there. A loop that is not structural is a \<open>function\<close> with its termination proof, a partial function
  whose \<open>None\<close> is not returning, or runs on fuel; \<open>OutOfFuel\<close> is not an exception of Python, and the theorems show that it does not occur, for
  the fuel that is named. What the random generator gives, the order of the keys of a dictionary, the answers of the network and
  the choice of the thread that goes on are arguments of the model or chosen by the step relation.

  \<^bold>\<open>The parts.\<close>

  \<^item> \<^bold>\<open>own/pyaes.py\<close>. \<open>AesTables\<close>: \<open>galois_multiply\<close>, the S-boxes, the round constants; multiplication is
    that of the AES field. \<open>AesCipher\<close>: the steps of a round, \<open>expand_key\<close>, \<open>setkey\<close>, \<open>encrypt_block\<close>,
    \<open>decrypt_block\<close>, and that each step is undone by its inverse. \<open>AesKeySchedule\<close>: the byte loops of
    the schedule compute the word recurrence of FIPS 197. \<open>AesModes\<close>: \<open>ECBMode\<close>, \<open>CBCMode\<close>, \<open>new\<close>, the
    properties.
  \<^item> \<^bold>\<open>own/pyflate-fast.py\<close>. \<open>Bitstream\<close>: the two bit readers, refined to a list of bits. \<open>Huffman\<close>: code
    tables and the search for a symbol. \<open>Bwt\<close>: move-to-front, the inverse Burrows-Wheeler transformation
    and the run lengths, with encoders for them. \<open>Bzip2\<close> and \<open>Bzip2Roundtrip\<close>: the decoder, and an
    encoder of each section of a block that it reads back. \<open>Gzip\<close>: the inflate loop, \<open>gzip_main\<close>, \<open>_main\<close>.
    The loops consume bits and end on every input: their fuel is the number of bits left, one more
    where a turn may read none. \<open>PyflateProperties\<close> has the properties.
  \<^item> \<^bold>\<open>own/hexiom2.py\<close>. \<open>HexBoard\<close>: \<open>Dir\<close>, \<open>Node\<close>, \<open>Hex\<close>. \<open>HexCells\<close>: \<open>Done\<close> and the strategies for the next
    cell. \<open>HexSolver\<close>: \<open>constraint_pass\<close>, \<open>find_moves\<close>, \<open>solved\<close>, \<open>solve_step\<close>, \<open>check_valid\<close>, \<open>solve\<close>.
    \<open>HexNarrow\<close>, \<open>HexPass\<close>, \<open>HexSearch\<close>: what narrowing the cells keeps, for one pass and for the search.
    \<open>HexFile\<close>: reading and printing a board, \<open>run_level36\<close>. The passes are bounded by the number of
    values in the cells, which each pass that changes something lowers, and the search by the same
    number: each move fixes a cell. \<open>HexProperties\<close> has the properties.
  \<^item> \<^bold>\<open>unladen_swallow/performance/richards.py\<close>. \<open>Richards\<close>: packets, task records, tasks, the work area,
    the scheduler, \<open>Richards.run\<close>. \<open>RichardsInv\<close>: an invariant that puts every packet in one place
    (a queue, a task's hand), and what moving a packet does. \<open>RichardsSafe\<close>: sending and taking a packet
    keeps it. \<open>RichardsEnergy\<close>: the routes of the packets and the cost of a state, \<open>RichardsTurns\<close>: a turn of
    the idle task uses up one of its 10000, a turn of any other lowers the cost. \<open>RichardsRun\<close>: the scheduler
    and the whole run, which ends without an exception; the fuel of the scheduler, \<open>richards_turns\<close>, is
    the idle turns times the highest cost times the length of the list of tasks. What the counts of a round
    come to is not computed: that \<open>run\<close> answers \<open>True\<close> is not shown, only what its answer means.
  \<^item> \<^bold>\<open>unladen_swallow/performance/pystone.py\<close>. \<open>Pystone\<close>: the records, the globals and the procedures of
    Dhrystone.
  \<^item> \<^bold>\<open>own/deltablue.py\<close>. \<open>DeltaBlue\<close>: strengths, constraints, variables, the planner, plans and the two
    tests. \<open>DeltaChain\<close>: the chain test, for a chain of any length. \<open>DeltaProperties\<close>: what the planner
    does in any world; the fuel of \<open>make_plan\<close> is the number of constraints not yet marked.
  \<^item> \<^bold>\<open>multithread/btree/btree.py\<close>. \<open>Btree\<close>: nodes, the tree, its operations, iteration, bulk loading, the
    operations of a task. \<open>BtreeShape\<close>: what splitting, lending and merging nodes keep. \<open>BtreeOps\<close>: the
    operations on a tree are operations on the increasing list of its items; the locale \<open>item_set\<close> is
    the interface of a set of items, interpreted on the tree.
  \<^item> \<^bold>\<open>multithread/skiplist/skiplist.py\<close>. \<open>Skiplist\<close>: nodes with their heights, \<open>updateList\<close>, the operations,
    printing, the operations of a task. \<open>SkiplistProof\<close>: every level is a chain of nodes through the one
    below. A walk takes at most as many turns as there are nodes, which is its fuel. \<open>ItemSet\<close> has what
    the tasks of both structures do to a set, and the interface \<open>sorted_items\<close>, interpreted on both.
  \<^item> \<^bold>\<open>multithread/common/abstract_threading.py\<close>. \<open>Futures\<close>: \<open>Future\<close>, \<open>TLQueue\<close>, \<open>Worker\<close> and \<open>ThreadPool\<close> as a
    step relation; a step is a worker that gets a future, a turn of its job, or a step of the main thread.
    Every future that is not done is in the queue or with one worker; the locale \<open>pool_jobs\<close> shows for
    jobs and a main thread with a measure that all orders of the steps end and no thread waits in vain.
    \<open>QuickSort\<close>, \<open>QuickSortProof\<close>: \<open>multithread/quick_sort\<close>, whose step is a turn of the loop of \<open>qsort_f\<close>; the frames
    that are left stand for disjoint segments. \<open>ThreadQueens\<close>: \<open>multithread/nqueens\<close>, whose step is an atomic
    block, a chunk of permutations. \<open>ThreadTasks\<close>: the threads of the B-tree and the skip list, whose step is
    an operation, an atomic block as well; the locale \<open>shared_ops\<close> is interpreted on both.
  \<^item> \<^bold>\<open>own/bm_mdp.py\<close>. \<open>Mdp\<close>: the topological sort, damage distributions, actions, successors, the value
    iteration, with the floats of the source rounded at each step. \<open>MdpProperties\<close>: the successors have the
    probabilities of an exact distribution, rounded, so that they sum to one up to \<open>1 / 2 ^ 53\<close>; the bounds of the
    iteration stay in order and the upper one grows by errors of rounding at most; the sort lists what it
    should. That the iteration comes to an end is not shown. The sort takes a turn for each root and at most two
    more than there are parents for each node.
  \<^item> \<^bold>\<open>own/go.py\<close>. \<open>Go\<close>: squares, the set of empty squares, the hash, moves, \<open>useful\<close>, the score, the check,
    the tree search. \<open>GoBasics\<close>: geometry, references, empty squares, hash. \<open>GoRemove\<close>: taking a group
    off. \<open>GoMove\<close>: the invariant of a board and a move. \<open>GoUseful\<close>, \<open>GoLive\<close>: what \<open>useful\<close> finds out, and
    that it is what the move does. \<open>GoGame\<close>: random choices, playouts, the check. \<open>GoProperties\<close> has the
    properties. \<open>find\<close> and \<open>remove\<close> recurse at most as deep as there are squares, which is their fuel.
  \<^item> \<^bold>\<open>own/schulze.py\<close>. \<open>Schulze\<close>: reading the ballots, the matrix of preferences, strongest paths, the ranking.
    \<open>SchulzeRank\<close>: the stages of the widening are paths through the candidates so far; that stronger paths
    are transitive gives an unbeaten candidate in every set, so each sweep of the ranking takes one away,
    and the number of candidates is fuel enough.
  \<^item> \<^bold>\<open>unladen_swallow/performance/bm_ai.py\<close>. \<open>BmAi\<close>: the generator of permutations, the solver that filters them;
    the permutations come in the order of choosing by place, and their number is fuel enough.
  \<^item> \<^bold>\<open>own/nqueens.py\<close>. \<open>Nqueens\<close>: the lines of the board, the map of attacks and the search. \<open>NqueensProof\<close>: what
    the search counts is what the solver of \<open>bm_ai.py\<close> lists.
  \<^item> \<^bold>\<open>own/fannkuch.py\<close>. \<open>Fannkuch\<close>: the loops. \<open>FannkuchProof\<close>: the numbers that are in their places, as digits,
    grow with every flip, the rotations go through all permutations, and those the program passes over
    have no more flips than another.
  \<^item> \<^bold>\<open>saveresults.py\<close> and \<open>runner.py\<close>. \<open>Upload\<close>: \<open>save\<close>, \<open>send\<close> with its retries, \<open>get_upload_options\<close>, the loop over
    runs and urls; what is done is a list of requests and waits. \<open>UploadProof\<close>: which requests there are,
    by a table of what each type of result is to send, how often each is tried, and when the upload fails.

  \<^bold>\<open>The interfaces.\<close> Where an operation uses another only through what it promises, the promise is a
  locale: a parser that reads back what an encoder wrote (\<open>bit_source\<close>, for both bit readers), the
  links of a board (\<open>hex_links_ok\<close>), a set of items (\<open>item_set\<close>, \<open>sorted_items\<close>), operations on shared memory (\<open>shared_ops\<close>), the
  jobs of a pool of threads (\<open>pool_jobs\<close>) and others, each interpreted on the definitions of the program.

  \<^bold>\<open>Not modelled.\<close> \<open>lib/\<close>, \<open>own/icbd\<close>, \<open>own/krakatau\<close>, \<open>own/twisted\<close> and \<open>unladen_swallow/lib\<close> are other projects,
  copied. The benchmarks that drive a library (Django, Mako, Genshi, SymPy, SQLAlchemy, html5lib, Spambayes
  and others) have no logic of their own. \<open>own/chaos.py\<close>, \<open>float.py\<close>, \<open>nbody_modified.py\<close>, \<open>raytrace-simple.py\<close>,
  \<open>scimark.py\<close>, \<open>spectral-norm.py\<close>, \<open>telco.py\<close> and their like compute with floats that overflow, take roots, sines
  and decimals, which \<open>PyFloat\<close> does not have; a model over the reals would not be of the program. Of the other
  threaded programs \<open>mersenne\<close> counts with a race and takes a floating root, \<open>primes\<close> rests on \<open>Queue\<close>, and the
  rest on \<open>transaction\<close> or a web server, of which the repository has no source. The harness apart from
  the upload starts processes, measures and prints. Of the modelled programs the command line, the timing loops and
  the functions that nothing calls are left out; \<open>PROJECT.json\<close> names them.
\<close>

end
